(* ===== verification/Prelude.thy ===== *)
theory Prelude
  imports Main "HOL-Library.Word" "HOL-Library.AList" "HOL-Library.Monad_Syntax"
begin

text \<open>
  Shared vocabulary of the development: the machine-integer conventions of the Go sources
  (\<open>uint16\<close> index arithmetic and \<open>int64\<close> wrap-around), slice reads and writes that fail
  out of range, Go maps as association lists with distinct keys, and list lemmas used by
  several components.

  A Go run-time panic (an index out of range, a nil dereference) is the value \<open>None\<close> of an
  \<open>option\<close>; the theorems that an operation returns \<open>Some\<close> say that it does not panic.
\<close>

unbundle bit_operations_syntax

named_theorems go_simps \<open>evaluation rules of slice accesses and Go maps\<close>

type_synonym byte = "8 word"
type_synonym bytes = "byte list"

section \<open>Machine integers\<close>

text \<open>\<open>x - 1\<close> and \<open>x + 1\<close> on \<open>uint16\<close> values kept as \<open>nat\<close>.\<close>

definition u16_dec :: "nat \<Rightarrow> nat" where
  "u16_dec x = (x + 65535) mod 65536"

definition u16_inc :: "nat \<Rightarrow> nat" where
  "u16_inc x = (x + 1) mod 65536"

lemma u16_dec_pos: "0 < x \<Longrightarrow> x < 65536 \<Longrightarrow> u16_dec x = x - 1"
  unfolding u16_dec_def by (simp add: mod_if)

lemma u16_dec_0 [simp]: "u16_dec 0 = 65535"
  by (simp add: u16_dec_def)

lemma u16_inc_small [simp]: "x < 65535 \<Longrightarrow> u16_inc x = Suc x"
  by (simp add: u16_inc_def)

text \<open>Two's complement wrap-around of an \<open>int64\<close> result.\<close>

definition wrap64 :: "int \<Rightarrow> int" where
  "wrap64 x = (x + 2 ^ 63) mod 2 ^ 64 - 2 ^ 63"

lemma wrap64_id: "- (2 ^ 63) \<le> x \<Longrightarrow> x < 2 ^ 63 \<Longrightarrow> wrap64 x = x"
  by (simp add: wrap64_def)

lemma wrap64_range: "- (2 ^ 63) \<le> wrap64 x \<and> wrap64 x < 2 ^ 63"
proof -
  have "0 \<le> (x + 2 ^ 63) mod 2 ^ 64" and "(x + 2 ^ 63) mod 2 ^ 64 < (2 ^ 64 :: int)"
    by (rule pos_mod_sign, simp) (rule pos_mod_bound, simp)
  then show ?thesis by (simp add: wrap64_def)
qed

text \<open>Two's complement wrap-around of an \<open>int32\<close> result.\<close>

definition wrap32 :: "int \<Rightarrow> int" where
  "wrap32 x = (x + 2 ^ 31) mod 2 ^ 32 - 2 ^ 31"

lemma wrap32_id: "- (2 ^ 31) \<le> x \<Longrightarrow> x < 2 ^ 31 \<Longrightarrow> wrap32 x = x"
  by (simp add: wrap32_def)

lemma wrap32_range: "- (2 ^ 31) \<le> wrap32 x \<and> wrap32 x < 2 ^ 31"
proof -
  have "0 \<le> (x + 2 ^ 31) mod 2 ^ 32" "(x + 2 ^ 31) mod 2 ^ 32 < 2 ^ 32" by simp_all
  then show ?thesis by (simp add: wrap32_def)
qed

section \<open>Slices\<close>

text \<open>\<open>xs[i]\<close> and \<open>xs[i] = x\<close>: the index is checked, as the Go run time does.\<close>

definition rd :: "'a list \<Rightarrow> nat \<Rightarrow> 'a option" where
  "rd xs i = (if i < length xs then Some (xs ! i) else None)"

definition wr :: "'a list \<Rightarrow> nat \<Rightarrow> 'a \<Rightarrow> 'a list option" where
  "wr xs i x = (if i < length xs then Some (xs[i := x]) else None)"

lemma rd_Some [go_simps]: "i < length xs \<Longrightarrow> rd xs i = Some (xs ! i)"
  by (simp add: rd_def)

lemma wr_Some [go_simps]: "i < length xs \<Longrightarrow> wr xs i x = Some (xs[i := x])"
  by (simp add: wr_def)

lemma rd_eq_Some_iff: "rd xs i = Some x \<longleftrightarrow> i < length xs \<and> xs ! i = x"
  by (auto simp: rd_def)

section \<open>Go maps\<close>

text \<open>
  A Go map is an association list with distinct keys. Its order is never observed by the
  operations below, which are lookup (\<open>m[k]\<close>), assignment, \<open>delete\<close> and \<open>len\<close>.
\<close>

type_synonym ('k, 'v) gomap = "('k \<times> 'v) list"

definition gm_ok :: "('k, 'v) gomap \<Rightarrow> bool" where
  "gm_ok m \<longleftrightarrow> distinct (map fst m)"

abbreviation (input) gm_get :: "('k, 'v) gomap \<Rightarrow> 'k \<Rightarrow> 'v option" where
  "gm_get \<equiv> map_of"

definition gm_set :: "'k \<Rightarrow> 'v \<Rightarrow> ('k, 'v) gomap \<Rightarrow> ('k, 'v) gomap" where
  "gm_set k v m = AList.update k v m"

definition gm_del :: "'k \<Rightarrow> ('k, 'v) gomap \<Rightarrow> ('k, 'v) gomap" where
  "gm_del k m = AList.delete k m"

abbreviation (input) gm_len :: "('k, 'v) gomap \<Rightarrow> nat" where
  "gm_len \<equiv> length"

lemma gm_get_set [simp]: "gm_get (gm_set k v m) = (gm_get m)(k \<mapsto> v)"
  by (simp add: gm_set_def update_conv')

lemma gm_get_del [simp]: "gm_get (gm_del k m) = (gm_get m)(k := None)"
  by (simp add: gm_del_def delete_conv')

lemma gm_ok_Nil [simp]: "gm_ok []"
  by (simp add: gm_ok_def)

lemma gm_ok_set [simp]: "gm_ok m \<Longrightarrow> gm_ok (gm_set k v m)"
  by (simp add: gm_ok_def gm_set_def distinct_update)

lemma gm_ok_del [simp]: "gm_ok m \<Longrightarrow> gm_ok (gm_del k m)"
  by (simp add: gm_ok_def gm_del_def distinct_delete)

lemma gm_dom: "set (map fst m) = dom (gm_get m)"
  by (simp add: dom_map_of_conv_image_fst)

lemma gm_len_card: "gm_ok m \<Longrightarrow> gm_len m = card (dom (gm_get m))"
  by (metis distinct_card gm_dom gm_ok_def length_map)

lemma gm_mem_iff: "gm_ok m \<Longrightarrow> (k, v) \<in> set m \<longleftrightarrow> gm_get m k = Some v"
  by (simp add: gm_ok_def)

section \<open>Lists\<close>

text \<open>Removal of every pair with a given key from a list of keyed entries.\<close>

definition without :: "('a \<Rightarrow> 'k) \<Rightarrow> 'k \<Rightarrow> 'a list \<Rightarrow> 'a list" where
  "without key k xs = filter (\<lambda>x. key x \<noteq> k) xs"

lemma without_Nil [simp]: "without key k [] = []"
  by (simp add: without_def)

lemma without_Cons [simp]:
  "without key k (x # xs) = (if key x = k then without key k xs else x # without key k xs)"
  by (simp add: without_def)

lemma without_append [simp]: "without key k (xs @ ys) = without key k xs @ without key k ys"
  by (simp add: without_def)

lemma without_absent: "k \<notin> key ` set xs \<Longrightarrow> without key k xs = xs"
  by (induction xs) auto

lemma set_without [simp]: "set (without key k xs) = {x \<in> set xs. key x \<noteq> k}"
  by (auto simp: without_def)

lemma distinct_map_without: "distinct (map key xs) \<Longrightarrow> distinct (map key (without key k xs))"
  by (simp add: without_def distinct_map_filter)

lemma length_without_le: "length (without key k xs) \<le> length xs"
  by (simp add: without_def)

lemma distinct_map_eqD:
  "distinct (map key xs) \<Longrightarrow> x \<in> set xs \<Longrightarrow> y \<in> set xs \<Longrightarrow> key x = key y \<Longrightarrow> x = y"
  by (metis distinct_map inj_onD)

text \<open>\<open>find\<close> by key on a list with distinct keys.\<close>

definition lookup_by :: "('a \<Rightarrow> 'k) \<Rightarrow> 'k \<Rightarrow> 'a list \<Rightarrow> 'a option" where
  "lookup_by key k xs = List.find (\<lambda>x. key x = k) xs"

lemma lookup_by_Nil [simp]: "lookup_by key k [] = None"
  by (simp add: lookup_by_def)

lemma lookup_by_Cons [simp]:
  "lookup_by key k (x # xs) = (if key x = k then Some x else lookup_by key k xs)"
  by (simp add: lookup_by_def)

lemma lookup_by_None_iff: "lookup_by key k xs = None \<longleftrightarrow> k \<notin> key ` set xs"
  by (induction xs) auto

lemma lookup_by_SomeD: "lookup_by key k xs = Some x \<Longrightarrow> x \<in> set xs \<and> key x = k"
  by (induction xs) (auto split: if_splits)

lemma lookup_by_Some_iff:
  "distinct (map key xs) \<Longrightarrow> lookup_by key k xs = Some x \<longleftrightarrow> x \<in> set xs \<and> key x = k"
  by (induction xs) (auto split: if_splits)

lemma lookup_by_append [simp]:
  "lookup_by key k (xs @ ys) = (case lookup_by key k xs of None \<Rightarrow> lookup_by key k ys | Some x \<Rightarrow> Some x)"
  by (induction xs) auto

lemma lookup_by_without [simp]:
  "lookup_by key k (without key j xs) = (if k = j then None else lookup_by key k xs)"
  by (induction xs) auto

section \<open>Big-endian integers\<close>

definition be_val :: "bytes \<Rightarrow> nat" where
  "be_val bs = foldl (\<lambda>a b. a * 256 + unat b) 0 bs"

definition put_be :: "nat \<Rightarrow> nat \<Rightarrow> bytes" where
  "put_be n v = map (\<lambda>i. word_of_nat (v div 256 ^ i)) (rev [0..<n])"

lemma be_val_snoc: "be_val (bs @ [b]) = be_val bs * 256 + unat b"
  by (simp add: be_val_def)

lemma put_be_Suc: "put_be (Suc n) v = put_be n (v div 256) @ [word_of_nat v]"
proof -
  have "rev [0..<Suc n] = map Suc (rev [0..<n]) @ [0]"
    by (simp add: map_Suc_upt rev_map [symmetric] upt_conv_Cons del: upt_Suc)
  then show ?thesis by (simp add: put_be_def div_mult2_eq mult.commute del: upt_Suc)
qed

lemma length_put_be [simp]: "length (put_be n v) = n"
  by (simp add: put_be_def)

lemma be_val_put_be: "v < 256 ^ n \<Longrightarrow> be_val (put_be n v) = v"
proof (induction n arbitrary: v)
  case 0
  then show ?case by (simp add: put_be_def be_val_def)
next
  case (Suc n)
  then have "v div 256 < 256 ^ n" by (simp add: less_mult_imp_div_less mult.commute)
  then show ?case using Suc.IH [of "v div 256"]
    by (simp add: put_be_Suc be_val_snoc unsigned_of_nat take_bit_eq_mod)
qed

section \<open>Fallible results\<close>

text \<open>A call that may return an error is a sum, \<open>Inl\<close> the error.\<close>

definition sbind :: "'e + 'a \<Rightarrow> ('a \<Rightarrow> 'e + 'b) \<Rightarrow> 'e + 'b" where
  "sbind r f = (case r of Inl e \<Rightarrow> Inl e | Inr x \<Rightarrow> f x)"

lemma sbind_simps [simp]: "sbind (Inl e) f = Inl e" "sbind (Inr x) f = f x"
  by (simp_all add: sbind_def)

lemma sbind_Inr: "sbind r f = Inr y \<longleftrightarrow> (\<exists>x. r = Inr x \<and> f x = Inr y)"
  by (cases r) auto

section \<open>Runs of a step relation\<close>

text \<open>What every step keeps holds at the end of every run.\<close>

lemma steps_invariant: "r\<^sup>*\<^sup>* x y \<Longrightarrow> (\<And>x y. r x y \<Longrightarrow> P x \<Longrightarrow> P y) \<Longrightarrow> P x \<Longrightarrow> P y"
  by (induction rule: rtranclp_induct) auto

end
