(* ===== verification/Go_Strings.thy ===== *)
theory Go_Strings
  imports Prelude
begin

text \<open>
  The parts of Go's package \<open>strings\<close> that the sources use: \<open>Split\<close> on a one-byte separator,
  \<open>Join\<close>, \<open>HasPrefix\<close>, \<open>HasSuffix\<close>, \<open>TrimSuffix\<close>, \<open>TrimPrefix\<close>, \<open>ReplaceAll\<close> with nothing, and decimal numbers. A Go string is a byte sequence,
  here a \<open>string\<close>.
\<close>

type_synonym gstring = string

section \<open>Split and Join\<close>

text \<open>\<open>strings.Split(s, c)\<close>: always at least one element.\<close>

fun split_on :: "'c \<Rightarrow> 'c list \<Rightarrow> 'c list list" where
  "split_on c [] = [[]]"
| "split_on c (x # xs) =
     (if x = c then [] # split_on c xs
      else (case split_on c xs of [] \<Rightarrow> [[x]] | y # ys \<Rightarrow> (x # y) # ys))"

fun join_with :: "'c \<Rightarrow> 'c list list \<Rightarrow> 'c list" where
  "join_with c [] = []"
| "join_with c [x] = x"
| "join_with c (x # y # ys) = x @ c # join_with c (y # ys)"

definition has_prefix :: "'c list \<Rightarrow> 'c list \<Rightarrow> bool" where
  "has_prefix s p \<longleftrightarrow> take (length p) s = p"

definition has_suffix :: "'c list \<Rightarrow> 'c list \<Rightarrow> bool" where
  "has_suffix s p \<longleftrightarrow> has_prefix (rev s) (rev p)"

definition trim_prefix :: "'c list \<Rightarrow> 'c list \<Rightarrow> 'c list" where
  "trim_prefix s p = (if has_prefix s p then drop (length p) s else s)"

definition trim_suffix :: "'c list \<Rightarrow> 'c list \<Rightarrow> 'c list" where
  "trim_suffix s p = (if has_suffix s p then take (length s - length p) s else s)"

lemma split_on_ne [simp]: "split_on c s \<noteq> []"
  by (induction s) (auto split: list.splits)

lemma split_on_no_sep: "x \<in> set (split_on c s) \<Longrightarrow> c \<notin> set x"
  by (induction s arbitrary: x) (auto split: if_splits list.splits)

lemma split_on_atom [simp]: "c \<notin> set x \<Longrightarrow> split_on c x = [x]"
  by (induction x) auto

lemma split_on_append_sep: "c \<notin> set x \<Longrightarrow> split_on c (x @ c # s) = x # split_on c s"
  by (induction x) auto

lemma split_join:
  "xs \<noteq> [] \<Longrightarrow> (\<And>x. x \<in> set xs \<Longrightarrow> c \<notin> set x) \<Longrightarrow> split_on c (join_with c xs) = xs"
  by (induction c xs rule: join_with.induct) (auto simp: split_on_append_sep)

lemma join_split [simp]: "join_with c (split_on c s) = s"
proof (induction s)
  case (Cons x s)
  then show ?case by (cases "split_on c s" rule: list.exhaust; cases "tl (split_on c s)")
      (auto simp: neq_Nil_conv)
qed simp

lemma join_Cons: "xs \<noteq> [] \<Longrightarrow> join_with c (x # xs) = x @ c # join_with c xs"
  by (cases xs) auto

lemma has_prefix_append: "has_prefix s p \<longleftrightarrow> (\<exists>t. s = p @ t)"
  unfolding has_prefix_def by (metis append_eq_conv_conj append_take_drop_id)

lemma has_prefix_Cons [simp]: "has_prefix (x # s) (y # p) \<longleftrightarrow> x = y \<and> has_prefix s p"
  by (auto simp: has_prefix_def)

lemma has_prefix_Nil [simp]: "has_prefix s []" "has_prefix [] p \<longleftrightarrow> p = []"
  by (auto simp: has_prefix_def)

section \<open>Decimal numbers\<close>

text \<open>\<open>%d\<close> of a non-negative integer.\<close>

fun dec_nat :: "nat \<Rightarrow> string" where
  "dec_nat n = (if n < 10 then [char_of (48 + n)] else dec_nat (n div 10) @ [char_of (48 + n mod 10)])"

declare dec_nat.simps [simp del]

section \<open>Decimal numbers, signed\<close>

definition digit :: "char \<Rightarrow> bool" where
  "digit c \<longleftrightarrow> 48 \<le> (of_char c :: nat) \<and> (of_char c :: nat) \<le> 57"

definition dec_val :: "string \<Rightarrow> nat" where
  "dec_val s = foldl (\<lambda>a c. 10 * a + (of_char c - 48)) 0 s"

text \<open>\<open>%d\<close> of an integer.\<close>

definition itoa :: "int \<Rightarrow> string" where
  "itoa x = (if x < 0 then CHR ''-'' # dec_nat (nat (- x)) else dec_nat (nat x))"

text \<open>\<open>strconv.Atoi\<close>: the number and whether there was no error; on a syntax error the number is 0, out of range it is the nearest one.\<close>

definition Atoi :: "string \<Rightarrow> int \<times> bool" where
  "Atoi s =
     (let neg = (s \<noteq> [] \<and> hd s = CHR ''-'');
          ds = (if s \<noteq> [] \<and> (hd s = CHR ''-'' \<or> hd s = CHR ''+'') then tl s else s);
          n = int (dec_val ds)
      in if ds = [] \<or> \<not> list_all digit ds then (0, False)
         else if neg then (if n > 2 ^ 63 then (- (2 ^ 63), False) else (- n, True))
         else (if n \<ge> 2 ^ 63 then (2 ^ 63 - 1, False) else (n, True)))"

text \<open>White space, \<open>strings.TrimSpace\<close> and \<open>strings.ToLower\<close> on ASCII text.\<close>

definition space :: "char \<Rightarrow> bool" where
  "space c \<longleftrightarrow> (of_char c :: nat) \<in> {9, 10, 11, 12, 13, 32}"

definition TrimSpace :: "string \<Rightarrow> string" where
  "TrimSpace s = rev (dropWhile space (rev (dropWhile space s)))"

definition ToLower :: "string \<Rightarrow> string" where
  "ToLower s = map (\<lambda>c. if 65 \<le> (of_char c :: nat) \<and> (of_char c :: nat) \<le> 90 then char_of ((of_char c :: nat) + 32) else c) s"

text \<open>\<open>strings.ReplaceAll(s, sub, "")\<close> for a non-empty \<open>sub\<close>.\<close>

fun remove_all :: "string \<Rightarrow> nat \<Rightarrow> string \<Rightarrow> string" where
  "remove_all sub n [] = []"
| "remove_all sub (Suc n) (c # s) = remove_all sub n s"
| "remove_all sub 0 (c # s) = (if has_prefix (c # s) sub then remove_all sub (length sub - 1) s else c # remove_all sub 0 s)"

lemma digit_char: "d < 10 \<Longrightarrow> digit (char_of (48 + d))" "d < 10 \<Longrightarrow> (of_char (char_of (48 + d) :: char) :: nat) = 48 + d"
  by (simp_all add: digit_def)

lemma dec_nat_digits: "list_all digit (dec_nat n)" and dec_nat_ne [simp]: "dec_nat n \<noteq> []"
  by (induction n rule: dec_nat.induct) (subst dec_nat.simps, simp add: digit_char)+

lemma dec_val_dec_nat [simp]: "dec_val (dec_nat n) = n"
proof (induction n rule: dec_nat.induct)
  case (1 n)
  show ?case
  proof (cases "n < 10")
    case True
    then show ?thesis by (subst dec_nat.simps) (simp add: dec_val_def digit_char)
  next
    case False
    then have "dec_val (dec_nat n) = 10 * dec_val (dec_nat (n div 10)) + n mod 10"
      by (subst dec_nat.simps) (simp add: dec_val_def digit_char)
    then show ?thesis using 1 False by simp
  qed
qed

lemma digits_mem: "list_all digit s \<Longrightarrow> \<not> digit c \<Longrightarrow> c \<notin> set s"
  by (auto simp: list_all_iff)

lemma not_digits [simp]: "\<not> digit CHR ''-''" "\<not> digit CHR ''+''" "\<not> digit CHR ''_''" "\<not> digit CHR ''.''"
  by (simp_all add: digit_def)

lemma itoa_chars: "CHR ''_'' \<notin> set (itoa x)" "CHR ''.'' \<notin> set (itoa x)"
  using digits_mem [OF dec_nat_digits] by (auto simp: itoa_def)

lemma Atoi_itoa: "- (2 ^ 63) \<le> x \<Longrightarrow> x < 2 ^ 63 \<Longrightarrow> Atoi (itoa x) = (x, True)"
proof -
  have h: "digit (hd (dec_nat n))" for n using dec_nat_digits [of n] by (cases "dec_nat n") auto
  have "hd (dec_nat n) \<noteq> CHR ''-''" "hd (dec_nat n) \<noteq> CHR ''+''" for n using h [of n] by auto
  then show "- (2 ^ 63) \<le> x \<Longrightarrow> x < 2 ^ 63 \<Longrightarrow> Atoi (itoa x) = (x, True)"
    by (simp add: Atoi_def itoa_def Let_def dec_nat_digits) arith
qed

lemma remove_all_skip: "n \<le> length s \<Longrightarrow> remove_all sub n s = remove_all sub 0 (drop n s)"
  by (induction n arbitrary: s) (auto simp: Suc_le_length_iff)

lemma remove_all_suffix:
  assumes "sub \<noteq> []" and "hd sub \<notin> set s"
  shows "remove_all sub 0 (s @ sub) = s"
  using assms(2)
proof (induction s)
  case Nil
  obtain c t where sub: "sub = c # t" using assms(1) by (cases sub) auto
  then show ?case using remove_all_skip [of "length t" t sub] by (simp add: has_prefix_def)
next
  case (Cons c s)
  have "\<not> has_prefix (c # s @ sub) sub" using Cons.prems assms(1) by (cases sub) auto
  then show ?case using Cons by simp
qed

end
