(* ===== verification/Chat_Calls.thy ===== *)
theory Chat_Calls
  imports Go_Strings "HOL-Library.List_Lexorder" "HOL-Library.Char_ord"
begin

text \<open>
  The call manager of the chat service (\<open>src/swifty_chat/internal/service/call_manager.go\<close>): the audio and video rooms and who
  is busy in which. A mutex makes every method one step, so each is a function on the two maps. The server uses it through the
  interface \<open>call_rooms\<close>: one room per user, and a room is exactly the users it keeps busy.
\<close>

section \<open>Rooms\<close>

record callManager =
  rooms :: "(string, (string, bool) gomap) gomap"
  users :: "(string, string) gomap"

text \<open>\<open>Calls\<close> as the package creates it.\<close>

definition Calls :: callManager where
  "Calls = \<lparr>rooms = [], users = []\<rparr>"

definition CallRoomId :: "string \<Rightarrow> string \<Rightarrow> string" where
  "CallRoomId sendId receiveId =
     (if receiveId \<noteq> [] \<and> receiveId ! 0 = CHR ''G'' then receiveId
      else if sendId \<noteq> [] \<and> sendId ! 0 = CHR ''G'' then sendId
      else (let (a, b) = (if sendId > receiveId then (receiveId, sendId) else (sendId, receiveId))
            in ''P:'' @ a @ '':'' @ b))"

definition IsBusy :: "callManager \<Rightarrow> string \<Rightarrow> bool" where
  "IsBusy m uuid \<longleftrightarrow> (case gm_get (users m) uuid of None \<Rightarrow> False | Some r \<Rightarrow> r \<noteq> [])"

text \<open>A missing room is the nil map, which holds nobody.\<close>

definition room :: "callManager \<Rightarrow> string \<Rightarrow> (string, bool) gomap" where
  "room m roomId = (case gm_get (rooms m) roomId of None \<Rightarrow> [] | Some ms \<Rightarrow> ms)"

definition InRoom :: "callManager \<Rightarrow> string \<Rightarrow> string \<Rightarrow> bool" where
  "InRoom m roomId uuid \<longleftrightarrow> gm_get (room m roomId) uuid = Some True"

definition Join :: "string \<Rightarrow> string \<Rightarrow> callManager \<Rightarrow> bool \<times> callManager" where
  "Join roomId uuid m =
     (if (case gm_get (users m) uuid of None \<Rightarrow> False | Some cur \<Rightarrow> cur \<noteq> roomId) then (False, m)
      else (True, m\<lparr>rooms := gm_set roomId (gm_set uuid True (room m roomId)) (rooms m),
                    users := gm_set uuid roomId (users m)\<rparr>))"

text \<open>
  \<open>members\<close> is the map the room holds: deleting from it changes the room. For a room that is not there it is nil, and deleting
  from it does nothing.
\<close>

definition Leave :: "string \<Rightarrow> callManager \<Rightarrow> (string \<times> string list) \<times> callManager" where
  "Leave uuid m = (case gm_get (users m) uuid of
     None \<Rightarrow> (([], []), m)
   | Some roomId \<Rightarrow>
       let ms = gm_del uuid (room m roomId);
           remaining = sort (map fst ms)
       in ((roomId, remaining),
           m\<lparr>users := gm_del uuid (users m),
             rooms := (if ms = [] then gm_del roomId (rooms m)
                       else if gm_get (rooms m) roomId = None then rooms m
                       else gm_set roomId ms (rooms m))\<rparr>))"

definition Members :: "string \<Rightarrow> callManager \<Rightarrow> string list" where
  "Members roomId m = sort (map fst (room m roomId))"

definition GetCallers :: "string \<Rightarrow> string \<Rightarrow> callManager \<Rightarrow> string list" where
  "GetCallers roomId selfId m = filter (\<lambda>x. x \<noteq> selfId) (Members roomId m)"

section \<open>What the server relies on\<close>

locale call_rooms =
  fixes inv :: "'m \<Rightarrow> bool"
    and room_of :: "'m \<Rightarrow> string \<Rightarrow> string option"
    and join :: "string \<Rightarrow> string \<Rightarrow> 'm \<Rightarrow> bool \<times> 'm"
    and leave :: "string \<Rightarrow> 'm \<Rightarrow> (string \<times> string list) \<times> 'm"
    and members :: "string \<Rightarrow> 'm \<Rightarrow> string list"
  assumes join_inv: "inv m \<Longrightarrow> inv (snd (join r u m))"
    and leave_inv: "inv m \<Longrightarrow> inv (snd (leave u m))"
    and join_room: "inv m \<Longrightarrow> room_of (snd (join r u m)) =
      (if room_of m u = None \<or> room_of m u = Some r then (room_of m)(u \<mapsto> r) else room_of m)"
    and join_ok: "inv m \<Longrightarrow> fst (join r u m) \<longleftrightarrow> room_of m u = None \<or> room_of m u = Some r"
    and leave_room: "inv m \<Longrightarrow> room_of (snd (leave u m)) = (room_of m)(u := None)"
    and leave_rest: "inv m \<Longrightarrow> room_of m u = Some r \<Longrightarrow>
      fst (leave u m) = (r, filter (\<lambda>x. x \<noteq> u) (members r m))"
    and members_set: "inv m \<Longrightarrow> set (members r m) = {u. room_of m u = Some r}"
    and members_sorted: "inv m \<Longrightarrow> sorted (members r m) \<and> distinct (members r m)"
begin

lemma free_list:
  assumes "inv m"
  shows "inv (fold (\<lambda>u m. snd (leave u m)) us m) \<and>
    room_of (fold (\<lambda>u m. snd (leave u m)) us m) = (\<lambda>u. if u \<in> set us then None else room_of m u)"
  using assms by (induction us arbitrary: m) (auto simp: leave_inv leave_room fun_eq_iff)

text \<open>Leaving on behalf of every member dissolves the room and touches nobody else.\<close>

lemma free_room:
  assumes "inv m"
  shows "room_of (fold (\<lambda>u m. snd (leave u m)) (members r m) m) =
    (\<lambda>u. if room_of m u = Some r then None else room_of m u)"
  using free_list [OF assms, of "members r m"] members_set [OF assms] by simp

text \<open>A user who joins is told of exactly the others, and leaving undoes the join.\<close>

lemma join_leave:
  assumes "inv m" "room_of m u = None"
  shows "room_of (snd (leave u (snd (join r u m)))) = room_of m"
  using assms by (auto simp: join_inv leave_room join_room fun_eq_iff)

lemma leave_tells_the_rest:
  assumes "inv m" "room_of m u = Some r"
  shows "set (snd (fst (leave u m))) = {x. room_of m x = Some r \<and> x \<noteq> u}"
  using assms by (auto simp: leave_rest members_set)

end

section \<open>The call manager keeps it\<close>

definition call_inv :: "callManager \<Rightarrow> bool" where
  "call_inv m \<longleftrightarrow> gm_ok (rooms m) \<and> gm_ok (users m) \<and>
     (\<forall>r. gm_get (rooms m) r \<noteq> Some [] \<and> gm_ok (room m r)) \<and>
     (\<forall>u r. gm_get (room m r) u = (if gm_get (users m) u = Some r then Some True else None))"

abbreviation room_of :: "callManager \<Rightarrow> string \<Rightarrow> string option" where
  "room_of m \<equiv> gm_get (users m)"

lemma call_inv_start [simp]: "call_inv Calls"
  by (simp add: call_inv_def Calls_def room_def)

lemma call_invD:
  assumes "call_inv m"
  shows "gm_ok (room m r)" "gm_get (room m r) u = (if gm_get (users m) u = Some r then Some True else None)"
    "gm_ok (rooms m)" "gm_ok (users m)" "gm_get (rooms m) r \<noteq> Some []"
  using assms by (auto simp: call_inv_def)

lemma InRoom_iff: "call_inv m \<Longrightarrow> InRoom m r u \<longleftrightarrow> room_of m u = Some r"
  by (simp add: InRoom_def call_invD)

lemma gm_eq_Nil: "m = [] \<longleftrightarrow> (\<forall>k. gm_get m k = None)"
  by (cases m) (auto simp: split: if_splits)

lemma room_Join: "fst (Join r u m) \<Longrightarrow> room (snd (Join r u m)) r' = (if r' = r then gm_set u True (room m r) else room m r')"
  by (auto simp: Join_def room_def split: if_splits)

lemma users_Join: "users (snd (Join r u m)) = (if fst (Join r u m) then gm_set u r (users m) else users m)"
  by (simp add: Join_def)

lemma Join_ok: "fst (Join r u m) \<longleftrightarrow> room_of m u = None \<or> room_of m u = Some r"
  by (simp add: Join_def split: option.split)

lemma Join_inv:
  assumes "call_inv m"
  shows "call_inv (snd (Join r u m))"
proof (cases "fst (Join r u m)")
  case True
  have "gm_get (rooms (snd (Join r u m))) r' \<noteq> Some []" for r'
    using True call_invD(5)[OF assms, of r'] by (auto simp: Join_def gm_eq_Nil split: if_splits)
  moreover have "gm_ok (rooms (snd (Join r u m)))"
    by (simp add: Join_def call_invD assms)
  moreover have "gm_get (room (snd (Join r u m)) r') x =
      (if gm_get (users (snd (Join r u m))) x = Some r' then Some True else None)" for r' x
    using True by (auto simp: room_Join users_Join call_invD(2)[OF assms] Join_ok)
  ultimately show ?thesis
    using True by (auto simp: call_inv_def room_Join users_Join call_invD(1,4)[OF assms])
qed (simp add: Join_def assms split: if_splits)

lemma room_Leave:
  assumes "call_inv m" "room_of m u = Some r"
  shows "room (snd (Leave u m)) r' = (if r' = r then gm_del u (room m r) else room m r')"
    and "gm_get (rooms m) r \<noteq> None"
proof -
  show *: "gm_get (rooms m) r \<noteq> None"
    using assms call_invD(2)[OF assms(1), of r u] by (auto simp: room_def split: option.splits)
  show "room (snd (Leave u m)) r' = (if r' = r then gm_del u (room m r) else room m r')"
    using assms * by (auto simp: Leave_def Let_def room_def)
qed

lemma Leave_inv:
  assumes "call_inv m"
  shows "call_inv (snd (Leave u m))"
proof (cases "room_of m u")
  case (Some r)
  note I = assms Some
  have "gm_get (rooms (snd (Leave u m))) r' \<noteq> Some []" for r'
    using I room_Leave(2)[OF I] call_invD(5)[OF assms, of r'] by (auto simp: Leave_def Let_def)
  moreover have "gm_ok (rooms (snd (Leave u m)))" "users (snd (Leave u m)) = gm_del u (users m)"
    using Some by (auto simp: Leave_def Let_def call_invD assms)
  ultimately show ?thesis
    by (auto simp: call_inv_def room_Leave(1)[OF I] call_invD(1,4)[OF assms] call_invD(2)[OF assms] Some)
qed (simp add: Leave_def assms)

lemma room_dom:
  assumes "call_inv m"
  shows "set (map fst (room m r)) = {u. room_of m u = Some r}"
  unfolding gm_dom by (auto simp: dom_def call_invD(2)[OF assms])

lemma Leave_rest:
  assumes "call_inv m" "room_of m u = Some r"
  shows "fst (Leave u m) = (r, filter (\<lambda>x. x \<noteq> u) (Members r m))"
proof -
  have "map fst (gm_del u xs) = filter (\<lambda>x. x \<noteq> u) (map fst xs)" for xs :: "(string, bool) gomap"
    by (induction xs) (auto simp: gm_del_def)
  with assms(2) show ?thesis by (simp add: Leave_def Let_def Members_def filter_sort)
qed

interpretation cm: call_rooms call_inv room_of Join Leave Members
proof unfold_locales
  fix m :: callManager and r u :: string
  assume I: "call_inv m"
  show "call_inv (snd (Join r u m))" "call_inv (snd (Leave u m))" using I by (rule Join_inv Leave_inv)+
  show "room_of (snd (Join r u m)) =
      (if room_of m u = None \<or> room_of m u = Some r then (room_of m)(u \<mapsto> r) else room_of m)"
    by (simp add: users_Join Join_ok)
  show "fst (Join r u m) \<longleftrightarrow> room_of m u = None \<or> room_of m u = Some r" by (rule Join_ok)
  show "room_of (snd (Leave u m)) = (room_of m)(u := None)"
    by (auto simp: Leave_def Let_def fun_upd_idem split: option.split)
  show "set (Members r m) = {u. room_of m u = Some r}"
    using room_dom[OF I, of r] by (simp add: Members_def)
  show "sorted (Members r m) \<and> distinct (Members r m)"
    using call_invD(1)[OF I, of r] by (simp add: Members_def gm_ok_def)
qed (rule Leave_rest)

section \<open>Room names of pairs\<close>

text \<open>The two sides of a direct call compute the same room, and two pairs never share one: an id holds no colon.\<close>

lemma CallRoomId_sym:
  assumes "hd a \<noteq> CHR ''G''" "hd b \<noteq> CHR ''G''" "a \<noteq> []" "b \<noteq> []"
  shows "CallRoomId a b = CallRoomId b a"
  using assms by (auto simp: CallRoomId_def hd_conv_nth)

lemma CallRoomId_pair:
  assumes "hd a \<noteq> CHR ''G''" "hd b \<noteq> CHR ''G''" "a \<noteq> []" "b \<noteq> []"
  shows "CallRoomId a b = ''P:'' @ min a b @ '':'' @ max a b"
  using assms by (auto simp: CallRoomId_def hd_conv_nth min_def max_def)

lemma split_pair:
  assumes "CHR '':'' \<notin> set a" "CHR '':'' \<notin> set b"
  shows "split_on CHR '':'' (a @ '':'' @ b) = [a, b]"
  using assms by (simp add: split_on_append_sep)

lemma CallRoomId_inj:
  assumes ids: "\<And>x. x \<in> {a, b, c, d} \<Longrightarrow> x \<noteq> [] \<and> hd x \<noteq> CHR ''G'' \<and> CHR '':'' \<notin> set x"
    and eq: "CallRoomId a b = CallRoomId c d"
  shows "{a, b} = {c, d}"
proof -
  have "min a b @ '':'' @ max a b = min c d @ '':'' @ max c d"
    using eq ids by (simp add: CallRoomId_pair)
  then have "[min a b, max a b] = [min c d, max c d]"
    using ids split_pair[of "min a b" "max a b"] split_pair[of "min c d" "max c d"] by (simp add: min_def max_def split: if_splits)
  then show ?thesis by (auto simp: min_def max_def split: if_splits)
qed

lemma CallRoomId_ne [simp]: "CallRoomId a b \<noteq> []"
  by (auto simp: CallRoomId_def Let_def)

end
