(* ===== verification/Chat_Store.thy ===== *)
theory Chat_Store
  imports Chat_Calls
begin

text \<open>
  What the chat service keeps (\<open>src/swifty_chat/internal/model\<close>, \<open>internal/dao\<close>): the MongoDB collections its services read
  and write through \<open>swifty_orm\<close>, and the two read-through caches. A collection is the list of its documents in insertion order;
  a query is a predicate on documents, and \<open>Update\<close> changes every document it matches, as \<open>UpdateMany\<close> does.
  Every call may fail: \<open>faults\<close> holds the outcomes of the calls to come (none left: they all succeed). \<open>clock\<close> is the
  time that \<open>time.Now()\<close> reads, in milliseconds as MongoDB keeps times, and \<open>random\<close> gives the strings \<open>GetNowAndLenRandomString(11)\<close> draws.
\<close>

section \<open>Documents\<close>

type_synonym int8 = "8 word"
type_synonym time = int

record UserInfo =
  u_Uuid :: string
  u_Nickname :: string
  u_Telephone :: string
  u_Email :: string
  u_Avatar :: string
  u_Gender :: int8
  u_Signature :: string
  u_Password :: string
  u_Birthday :: string
  u_CreatedAt :: time
  u_DeletedAt :: "time option"
  u_LastOnlineAt :: "time option"
  u_LastOfflineAt :: "time option"
  u_IsAdmin :: int8
  u_Status :: int8

record GroupInfo =
  g_Uuid :: string
  g_Name :: string
  g_Notice :: string
  g_Members :: "string list"
  g_MemberCnt :: int
  g_OwnerId :: string
  g_AddMode :: int8
  g_Avatar :: string
  g_Status :: int8
  g_CreatedAt :: time
  g_UpdatedAt :: time
  g_DeletedAt :: "time option"

record UserContact =
  uc_UserId :: string
  uc_ContactId :: string
  uc_ContactType :: int8
  uc_Status :: int8
  uc_NoteName :: string
  uc_TagId :: string
  uc_CreatedAt :: time
  uc_UpdatedAt :: time
  uc_DeletedAt :: "time option"

record ContactApply =
  a_Uuid :: string
  a_UserId :: string
  a_ContactId :: string
  a_ContactType :: int8
  a_Status :: int8
  a_Message :: string
  a_LastApplyAt :: time
  a_DeletedAt :: "time option"

record ContactTag =
  t_Uuid :: string
  t_UserId :: string
  t_Name :: string
  t_CreatedAt :: time
  t_DeletedAt :: "time option"

record Session =
  s_Uuid :: string
  s_SendId :: string
  s_ReceiveId :: string
  s_ReceiveName :: string
  s_Avatar :: string
  s_LastMessage :: string
  s_LastMessageAt :: "time option"
  s_LastReadAt :: "time option"
  s_CreatedAt :: time
  s_DeletedAt :: "time option"

record Message =
  m_Uuid :: string
  m_SessionId :: string
  m_Type :: int8
  m_Content :: string
  m_Url :: string
  m_SendId :: string
  m_SendName :: string
  m_SendAvatar :: string
  m_ReceiveId :: string
  m_FileType :: string
  m_FileName :: string
  m_FileSize :: string
  m_Status :: int8
  m_CreatedAt :: time
  m_SendAt :: "time option"
  m_AVdata :: string

text \<open>The constants of \<open>internal/constant\<close>.\<close>

definition ChannelSize :: nat where "ChannelSize = 1024"
abbreviation SystemError :: string where "SystemError \<equiv> ''Internal Server Error''"
abbreviation UserStatusNormal :: int8 where "UserStatusNormal \<equiv> 0"
abbreviation UserStatusDisable :: int8 where "UserStatusDisable \<equiv> 1"
abbreviation MessageUnsent :: int8 where "MessageUnsent \<equiv> 0"
abbreviation MessageSent :: int8 where "MessageSent \<equiv> 1"
abbreviation MessageText :: int8 where "MessageText \<equiv> 0"
abbreviation MessageImage :: int8 where "MessageImage \<equiv> 1"
abbreviation MessageFile :: int8 where "MessageFile \<equiv> 2"
abbreviation MessageAudioOrVideo :: int8 where "MessageAudioOrVideo \<equiv> 3"
abbreviation MessageVideo :: int8 where "MessageVideo \<equiv> 4"
abbreviation MessageSystem :: int8 where "MessageSystem \<equiv> 5"
abbreviation NotifyContact :: string where "NotifyContact \<equiv> ''contact''"
abbreviation NotifyGroup :: string where "NotifyGroup \<equiv> ''group''"
abbreviation NotifyApply :: string where "NotifyApply \<equiv> ''apply''"
abbreviation NotifySession :: string where "NotifySession \<equiv> ''session''"
abbreviation NotifyOnline :: string where "NotifyOnline \<equiv> ''online''"
abbreviation ContactNormal :: int8 where "ContactNormal \<equiv> 0"
abbreviation ContactBlack :: int8 where "ContactBlack \<equiv> 1"
abbreviation ContactBeBlack :: int8 where "ContactBeBlack \<equiv> 2"
abbreviation ContactDelete :: int8 where "ContactDelete \<equiv> 3"
abbreviation ContactBeDelete :: int8 where "ContactBeDelete \<equiv> 4"
abbreviation ContactQuit :: int8 where "ContactQuit \<equiv> 6"
abbreviation ContactKicked :: int8 where "ContactKicked \<equiv> 7"
abbreviation ContactTypeUser :: int8 where "ContactTypeUser \<equiv> 0"
abbreviation ContactTypeGroup :: int8 where "ContactTypeGroup \<equiv> 1"
abbreviation ApplyStatusApplying :: int8 where "ApplyStatusApplying \<equiv> 0"
abbreviation ApplyStatusPass :: int8 where "ApplyStatusPass \<equiv> 1"
abbreviation ApplyStatusRefuse :: int8 where "ApplyStatusRefuse \<equiv> 2"
abbreviation ApplyStatusBlack :: int8 where "ApplyStatusBlack \<equiv> 3"
abbreviation GroupAddModeDirect :: int8 where "GroupAddModeDirect \<equiv> 0"
abbreviation GroupAddModeReview :: int8 where "GroupAddModeReview \<equiv> 1"
abbreviation GroupStatusNormal :: int8 where "GroupStatusNormal \<equiv> 0"
abbreviation GroupStatusDisable :: int8 where "GroupStatusDisable \<equiv> 1"
abbreviation GroupStatusDismiss :: int8 where "GroupStatusDismiss \<equiv> 2"

section \<open>The database and the caches\<close>

record chatdb =
  user_infos :: "UserInfo list"
  group_infos :: "GroupInfo list"
  user_contacts :: "UserContact list"
  contact_applies :: "ContactApply list"
  contact_tags :: "ContactTag list"
  sessions :: "Session list"
  messages :: "Message list"
  UserInfoCache :: "(string, UserInfo) gomap"
  SessionListCache :: "(string, Session list) gomap"
  faults :: "bool list"
  tx_supported :: bool
  clock :: time
  random :: "nat \<Rightarrow> string"
  drawn :: nat

datatype dberr = ErrNotFound | ErrOther

definition call :: "'a chatdb_scheme \<Rightarrow> bool \<times> 'a chatdb_scheme" where
  "call s = (case faults s of [] \<Rightarrow> (True, s) | b # bs \<Rightarrow> (b, s\<lparr>faults := bs\<rparr>))"

definition draw :: "'a chatdb_scheme \<Rightarrow> string \<times> 'a chatdb_scheme" where
  "draw s = (random s (drawn s), s\<lparr>drawn := Suc (drawn s)\<rparr>)"

text \<open>\<open>Find\<close>, and \<open>First\<close> without an order.\<close>

definition find_docs :: "('a chatdb_scheme \<Rightarrow> 'd list) \<Rightarrow> ('d \<Rightarrow> bool) \<Rightarrow> 'a chatdb_scheme \<Rightarrow> 'd list option \<times> 'a chatdb_scheme" where
  "find_docs get P s = (let (ok, s) = call s in (if ok then Some (filter P (get s)) else None, s))"

definition first_in :: "('d \<Rightarrow> bool) \<Rightarrow> 'd list \<Rightarrow> dberr + 'd" where
  "first_in P l = (case List.find P l of None \<Rightarrow> Inl ErrNotFound | Some d \<Rightarrow> Inr d)"

definition first_doc :: "('a chatdb_scheme \<Rightarrow> 'd list) \<Rightarrow> ('d \<Rightarrow> bool) \<Rightarrow> 'a chatdb_scheme \<Rightarrow> (dberr + 'd) \<times> 'a chatdb_scheme" where
  "first_doc get P s = (let (ok, s) = call s in (if ok then first_in P (get s) else Inl ErrOther, s))"

text \<open>\<open>Update\<close>: whether it succeeded.\<close>

definition change :: "('d \<Rightarrow> bool) \<Rightarrow> ('d \<Rightarrow> 'd) \<Rightarrow> 'd list \<Rightarrow> 'd list" where
  "change P f = map (\<lambda>d. if P d then f d else d)"

definition update_docs :: "(('d list \<Rightarrow> 'd list) \<Rightarrow> 'a chatdb_scheme \<Rightarrow> 'a chatdb_scheme) \<Rightarrow> ('d \<Rightarrow> bool) \<Rightarrow> ('d \<Rightarrow> 'd) \<Rightarrow>
    'a chatdb_scheme \<Rightarrow> bool \<times> 'a chatdb_scheme" where
  "update_docs upd P f s = (let (ok, s) = call s in (ok, if ok then upd (change P f) s else s))"

text \<open>
  \<open>Insert\<close>: the documents go in one after the other until one has the \<open>key\<close> of a document already there, which the unique index
  refuses. A collection without such an index has \<open>None\<close> for every key.
\<close>

fun put_docs :: "('d \<Rightarrow> string option) \<Rightarrow> 'd list \<Rightarrow> 'd list \<Rightarrow> bool \<times> 'd list" where
  "put_docs key l [] = (True, l)"
| "put_docs key l (d # ds) =
     (if key d \<noteq> None \<and> key d \<in> key ` set l then (False, l) else put_docs key (l @ [d]) ds)"

definition insert_docs :: "('a chatdb_scheme \<Rightarrow> 'd list) \<Rightarrow> (('d list \<Rightarrow> 'd list) \<Rightarrow> 'a chatdb_scheme \<Rightarrow> 'a chatdb_scheme) \<Rightarrow>
    ('d \<Rightarrow> string option) \<Rightarrow> 'd list \<Rightarrow> 'a chatdb_scheme \<Rightarrow> bool \<times> 'a chatdb_scheme" where
  "insert_docs get upd key ds s = (let (ok, s) = call s in
     if ok then (fst (put_docs key (get s) ds), upd (\<lambda>_. snd (put_docs key (get s) ds)) s) else (False, s))"

abbreviation "insert_user d \<equiv> insert_docs user_infos user_infos_update (\<lambda>d. Some (u_Uuid d)) [d]"
abbreviation "insert_group d \<equiv> insert_docs group_infos group_infos_update (\<lambda>d. Some (g_Uuid d)) [d]"
abbreviation "insert_contact d \<equiv> insert_docs user_contacts user_contacts_update (\<lambda>d. None) [d]"
abbreviation "insert_apply d \<equiv> insert_docs contact_applies contact_applies_update (\<lambda>d. Some (a_Uuid d)) [d]"
abbreviation "insert_tag d \<equiv> insert_docs contact_tags contact_tags_update (\<lambda>d. Some (t_Uuid d)) [d]"
abbreviation "insert_sessions ds \<equiv> insert_docs sessions sessions_update (\<lambda>d. Some (s_Uuid d)) ds"
abbreviation "insert_message d \<equiv> insert_docs messages messages_update (\<lambda>d. Some (m_Uuid d)) [d]"

text \<open>\<open>dao.ActiveQuery\<close>: documents that are not soft-deleted.\<close>

definition active_user :: "string \<Rightarrow> UserInfo \<Rightarrow> bool" where
  "active_user uuid d \<longleftrightarrow> u_DeletedAt d = None \<and> u_Uuid d = uuid"

definition active_group :: "string \<Rightarrow> GroupInfo \<Rightarrow> bool" where
  "active_group uuid d \<longleftrightarrow> g_DeletedAt d = None \<and> g_Uuid d = uuid"

text \<open>
  \<open>dao.WithTransaction\<close>: a body that fails, or whose commit fails, leaves the collections as they were; caches and the outside
  world keep what it did. A server without transactions refuses the first call of the body, which then runs again outside one.
\<close>

definition rollback :: "'a chatdb_scheme \<Rightarrow> 'a chatdb_scheme \<Rightarrow> 'a chatdb_scheme" where
  "rollback s s' = s'\<lparr>user_infos := user_infos s, group_infos := group_infos s, user_contacts := user_contacts s,
     contact_applies := contact_applies s, contact_tags := contact_tags s, sessions := sessions s, messages := messages s\<rparr>"

definition WithTransaction :: "('a chatdb_scheme \<Rightarrow> bool \<times> 'a chatdb_scheme) \<Rightarrow> 'a chatdb_scheme \<Rightarrow> bool \<times> 'a chatdb_scheme" where
  "WithTransaction fn s =
     (if tx_supported s then
        (let (ok, s1) = fn s in
         if \<not> ok then (False, rollback s s1)
         else (let (committed, s2) = call s1 in if committed then (True, s2) else (False, rollback s s2)))
      else fn s)"

text \<open>
  The caches: \<open>Get\<close> loads a missing key through the getter of \<open>InitCache\<close>, \<open>Delete\<close> drops it. A cached user is the JSON of
  its document, which leaves the password out.
\<close>

definition user_cache_get :: "string \<Rightarrow> 'a chatdb_scheme \<Rightarrow> UserInfo option \<times> 'a chatdb_scheme" where
  "user_cache_get key s = (if key = [] then (None, s) else case gm_get (UserInfoCache s) key of
     Some v \<Rightarrow> (Some v, s)
   | None \<Rightarrow> (let (r, s) = first_doc user_infos (active_user key) s in
       case r of Inl _ \<Rightarrow> (None, s)
       | Inr v \<Rightarrow> let v = v\<lparr>u_Password := []\<rparr> in (Some v, s\<lparr>UserInfoCache := gm_set key v (UserInfoCache s)\<rparr>)))"

definition newest_first :: "Session list \<Rightarrow> Session list" where
  "newest_first = sort_key (\<lambda>d. - s_CreatedAt d)"

definition active_sessions :: "string \<Rightarrow> Session list \<Rightarrow> Session list" where
  "active_sessions owner l = newest_first (filter (\<lambda>d. s_DeletedAt d = None \<and> s_SendId d = owner) l)"

definition load_sessions_db :: "string \<Rightarrow> 'a chatdb_scheme \<Rightarrow> Session list option \<times> 'a chatdb_scheme" where
  "load_sessions_db key s = (let (r, s) = find_docs sessions (\<lambda>d. s_DeletedAt d = None \<and> s_SendId d = key) s
     in (map_option newest_first r, s))"

definition session_cache_get :: "string \<Rightarrow> 'a chatdb_scheme \<Rightarrow> Session list option \<times> 'a chatdb_scheme" where
  "session_cache_get key s = (if key = [] then (None, s) else case gm_get (SessionListCache s) key of
     Some v \<Rightarrow> (Some v, s)
   | None \<Rightarrow> (let (r, s) = load_sessions_db key s in
       case r of None \<Rightarrow> (None, s) | Some v \<Rightarrow> (Some v, s\<lparr>SessionListCache := gm_set key v (SessionListCache s)\<rparr>)))"

definition session_cache_del :: "string \<Rightarrow> 'a chatdb_scheme \<Rightarrow> 'a chatdb_scheme" where
  "session_cache_del key s = s\<lparr>SessionListCache := gm_del key (SessionListCache s)\<rparr>"

definition user_cache_del :: "string \<Rightarrow> 'a chatdb_scheme \<Rightarrow> 'a chatdb_scheme" where
  "user_cache_del key s = s\<lparr>UserInfoCache := gm_del key (UserInfoCache s)\<rparr>"

section \<open>While the database answers\<close>

abbreviation up :: "'a chatdb_scheme \<Rightarrow> bool" where
  "up s \<equiv> faults s = []"

lemma call_up [simp]: "up s \<Longrightarrow> call s = (True, s)"
  by (simp add: call_def)

lemma find_docs_up [simp]: "up s \<Longrightarrow> find_docs get P s = (Some (filter P (get s)), s)"
  by (simp add: find_docs_def)

lemma first_doc_up [simp]: "up s \<Longrightarrow> first_doc get P s = (first_in P (get s), s)"
  by (simp add: first_doc_def)

lemma update_docs_up [simp]: "up s \<Longrightarrow> update_docs upd P f s = (True, upd (change P f) s)"
  by (simp add: update_docs_def)

lemma insert_docs_up [simp]:
  "up s \<Longrightarrow> insert_docs get upd key ds s = (fst (put_docs key (get s) ds), upd (\<lambda>_. snd (put_docs key (get s) ds)) s)"
  by (simp add: insert_docs_def)

text \<open>A call only uses up an outcome.\<close>

lemma call_frame: "call s = (ok, s') \<Longrightarrow> \<exists>bs. s' = s\<lparr>faults := bs\<rparr>"
  by (auto simp: call_def split: list.splits) (metis chatdb.surjective chatdb.update_convs(10))

lemma first_in_Inr: "first_in P l = Inr d \<Longrightarrow> d \<in> set l \<and> P d"
  by (auto simp: first_in_def find_Some_iff in_set_conv_nth split: option.splits)

lemma first_in_cases: "first_in P l = Inl e \<Longrightarrow> e = ErrNotFound \<and> (\<forall>d \<in> set l. \<not> P d)"
  by (auto simp: first_in_def find_None_iff split: option.splits)

lemma set_change: "set (change P f l) = {d \<in> set l. \<not> P d} \<union> f ` {d \<in> set l. P d}"
  by (auto simp: change_def)

lemma change_change: "change Q g (change P f l) = map (\<lambda>d. let d' = (if P d then f d else d) in if Q d' then g d' else d') l"
  by (simp add: change_def Let_def)

lemma change_fresh [simp]: "(\<And>d. d \<in> set l \<Longrightarrow> \<not> P d) \<Longrightarrow> change P f l = l"
  by (induction l) (auto simp: change_def)

lemma filter_change:
  assumes "\<And>d. d \<in> set l \<Longrightarrow> P d \<Longrightarrow> \<not> Q d \<and> \<not> Q (f d)"
  shows "filter Q (change P f l) = filter Q l"
  using assms by (induction l) (auto simp: change_def)

lemma put_docs_mono: "\<exists>ds'. snd (put_docs key l ds) = l @ ds' \<and> set ds' \<subseteq> set ds"
proof (induction ds arbitrary: l)
  case (Cons d ds)
  then show ?case using Cons.IH[of "l @ [d]"] by (auto intro: exI[of _ "[]"])
qed simp

lemma put_docs_ok: "fst (put_docs key l ds) \<Longrightarrow> snd (put_docs key l ds) = l @ ds"
  by (induction ds arbitrary: l) (auto split: if_splits)

lemma put_docs_fresh:
  "distinct (map key ds) \<Longrightarrow> key ` set ds \<inter> key ` set l = {} \<Longrightarrow> put_docs key l ds = (True, l @ ds)"
  by (induction ds arbitrary: l) (auto simp: image_iff)

lemma put_docs_unique:
  "distinct (map key l) \<Longrightarrow> (\<And>d. key d \<noteq> None) \<Longrightarrow> distinct (map key (snd (put_docs key l ds)))"
  by (induction ds arbitrary: l) auto

lemma put_docs_one: "key d \<noteq> None \<Longrightarrow> put_docs key l [d] = (if key d \<in> key ` set l then (False, l) else (True, l @ [d]))"
  by simp

text \<open>The new value of a changed collection, spelled out.\<close>

lemma change_const [simp]:
  "user_infos_update (change P f) s = s\<lparr>user_infos := change P f (user_infos s)\<rparr>"
  "group_infos_update (change P' f') s = s\<lparr>group_infos := change P' f' (group_infos s)\<rparr>"
  "user_contacts_update (change Q g) s = s\<lparr>user_contacts := change Q g (user_contacts s)\<rparr>"
  "contact_applies_update (change Q' g') s = s\<lparr>contact_applies := change Q' g' (contact_applies s)\<rparr>"
  "sessions_update (change R h) s = s\<lparr>sessions := change R h (sessions s)\<rparr>"
  "messages_update (change R' h') s = s\<lparr>messages := change R' h' (messages s)\<rparr>"
  by (cases s; simp)+

end
