(* ===== verification/Chat_Session.thy ===== *)
theory Chat_Session
  imports Chat_Store
begin

text \<open>
  The session and message services of the chat server (\<open>service/session_service.go\<close>, \<open>service/message_service.go\<close>): a user's
  list of conversations, with the latest message and the number of unread ones, served through a cache. The section on coherence
  shows which operations keep the cached lists equal to the database, and the last one what they guarantee a conversation.
\<close>

section \<open>Previews and lists\<close>

record sessionMeta =
  lastMessage :: string
  lastMessageType :: int8
  lastMessageAt :: "time option"
  lastMessageAtMs :: int
  unreadCnt :: nat
  sortKey :: int

text \<open>The text of a formatted time is left as the time; \<open>None\<close> is the empty string.\<close>

record SessionItem =
  SessionId :: string
  Avatar :: string
  PeerId :: string
  PeerName :: string
  LastMessage :: string
  LastMessageType :: int8
  LastMessageAt :: "time option"
  LastMessageAtMs :: int
  UnreadCnt :: nat

definition starts_with :: "char \<Rightarrow> string \<Rightarrow> bool" where
  "starts_with c x \<longleftrightarrow> x \<noteq> [] \<and> x ! 0 = c"

definition messagePreview :: "Message \<Rightarrow> string" where
  "messagePreview m =
     (if m_Type m = MessageText then m_Content m
      else if m_Type m = MessageImage then ''[Image]''
      else if m_Type m = MessageVideo then ''[Video]''
      else if m_Type m = MessageFile then (if m_FileName m \<noteq> [] then ''[File] '' @ m_FileName m else ''[File]'')
      else m_Content m)"

definition latest_of :: "string \<Rightarrow> Session \<Rightarrow> Message \<Rightarrow> bool" where
  "latest_of ownerId s m \<longleftrightarrow> m_Type m \<noteq> MessageAudioOrVideo \<and>
     (if starts_with CHR ''G'' (s_ReceiveId s) then m_ReceiveId m = s_ReceiveId s
      else (m_SendId m = ownerId \<and> m_ReceiveId m = s_ReceiveId s) \<or> (m_SendId m = s_ReceiveId s \<and> m_ReceiveId m = ownerId))"

definition unread_of :: "string \<Rightarrow> Session \<Rightarrow> Message \<Rightarrow> bool" where
  "unread_of ownerId s m \<longleftrightarrow> m_Type m \<noteq> MessageAudioOrVideo \<and>
     (if starts_with CHR ''G'' (s_ReceiveId s) then m_ReceiveId m = s_ReceiveId s \<and> m_SendId m \<noteq> ownerId
      else m_SendId m = s_ReceiveId s \<and> m_ReceiveId m = ownerId) \<and>
     (case s_LastReadAt s of None \<Rightarrow> True | Some t \<Rightarrow> m_CreatedAt m > t)"

definition by_newest :: "Message list \<Rightarrow> Message list" where
  "by_newest = sort_key (\<lambda>m. - m_CreatedAt m)"

definition enrichSession :: "string \<Rightarrow> Session \<Rightarrow> 'a chatdb_scheme \<Rightarrow> sessionMeta \<times> 'a chatdb_scheme" where
  "enrichSession ownerId se s =
     (let meta = \<lparr>lastMessage = [], lastMessageType = 0, lastMessageAt = None, lastMessageAtMs = 0, unreadCnt = 0,
                   sortKey = s_CreatedAt se\<rparr>;
          (r, s) = first_doc (\<lambda>s. by_newest (messages s)) (latest_of ownerId se) s;
          meta = (case r of Inl _ \<Rightarrow> meta
            | Inr msg \<Rightarrow> meta\<lparr>lastMessage := messagePreview msg, lastMessageType := m_Type msg,
                lastMessageAt := Some (m_CreatedAt msg), lastMessageAtMs := m_CreatedAt msg, sortKey := m_CreatedAt msg\<rparr>);
          (cnt, s) = find_docs messages (unread_of ownerId se) s
      in ((case cnt of None \<Rightarrow> meta | Some ms \<Rightarrow> meta\<lparr>unreadCnt := length ms\<rparr>), s))"

definition loadSessions :: "string \<Rightarrow> 'a chatdb_scheme \<Rightarrow> Session list option \<times> 'a chatdb_scheme" where
  "loadSessions ownerId s = (let (v, s) = session_cache_get ownerId s in
     case v of Some l \<Rightarrow> (Some l, s) | None \<Rightarrow> load_sessions_db ownerId s)"

text \<open>
  \<open>GetUserSessionList\<close> and \<open>GetGroupSessionList\<close> differ in the first letter of the receivers they keep and in the names of the
  two fields with its id and name.
\<close>

fun session_entries :: "char \<Rightarrow> string \<Rightarrow> Session list \<Rightarrow> 'a chatdb_scheme \<Rightarrow> (SessionItem \<times> int) list \<times> 'a chatdb_scheme" where
  "session_entries kind ownerId [] s = ([], s)"
| "session_entries kind ownerId (se # ses) s =
     (if starts_with kind (s_ReceiveId se) then
        (let (meta, s) = enrichSession ownerId se s;
             (es, s) = session_entries kind ownerId ses s
         in ((\<lparr>SessionId = s_Uuid se, Avatar = s_Avatar se, PeerId = s_ReceiveId se, PeerName = s_ReceiveName se,
               LastMessage = lastMessage meta, LastMessageType = lastMessageType meta, LastMessageAt = lastMessageAt meta,
               LastMessageAtMs = lastMessageAtMs meta, UnreadCnt = unreadCnt meta\<rparr>, sortKey meta) # es, s))
      else session_entries kind ownerId ses s)"

definition session_list :: "char \<Rightarrow> string \<Rightarrow> 'a chatdb_scheme \<Rightarrow> (string \<times> SessionItem list \<times> int) \<times> 'a chatdb_scheme" where
  "session_list kind ownerId s = (let (r, s) = loadSessions ownerId s in
     case r of None \<Rightarrow> ((SystemError, [], -1), s)
     | Some ses \<Rightarrow> (let (es, s) = session_entries kind ownerId ses s
         in ((''success'', map fst (sort_key (\<lambda>e. - snd e) es), 0), s)))"

definition GetUserSessionList :: "string \<Rightarrow> 'a chatdb_scheme \<Rightarrow> (string \<times> SessionItem list \<times> int) \<times> 'a chatdb_scheme" where
  "GetUserSessionList = session_list CHR ''U''"

definition GetGroupSessionList :: "string \<Rightarrow> 'a chatdb_scheme \<Rightarrow> (string \<times> SessionItem list \<times> int) \<times> 'a chatdb_scheme" where
  "GetGroupSessionList = session_list CHR ''G''"

record MessageListItem =
  i_Uuid :: string
  i_SendId :: string
  i_SendName :: string
  i_SendAvatar :: string
  i_ReceiveId :: string
  i_Type :: int8
  i_Content :: string
  i_Url :: string
  i_FileSize :: string
  i_FileName :: string
  i_FileType :: string
  i_CreatedAt :: "time option"
  i_AVdata :: string

definition toMessageListItem :: "Message \<Rightarrow> MessageListItem" where
  "toMessageListItem m = \<lparr>i_Uuid = m_Uuid m, i_SendId = m_SendId m, i_SendName = m_SendName m, i_SendAvatar = m_SendAvatar m,
     i_ReceiveId = m_ReceiveId m, i_Type = m_Type m, i_Content = m_Content m, i_Url = m_Url m, i_FileSize = m_FileSize m,
     i_FileName = m_FileName m, i_FileType = m_FileType m, i_CreatedAt = Some (m_CreatedAt m), i_AVdata = []\<rparr>"

definition GetMessageList :: "string \<Rightarrow> string \<Rightarrow> 'a chatdb_scheme \<Rightarrow> (string \<times> MessageListItem list \<times> int) \<times> 'a chatdb_scheme" where
  "GetMessageList sendId receiveId s =
     (let (r, s) = find_docs messages (\<lambda>m. (m_SendId m = sendId \<and> m_ReceiveId m = receiveId) \<or>
            (m_SendId m = receiveId \<and> m_ReceiveId m = sendId)) s
      in case r of None \<Rightarrow> ((SystemError, [], -1), s)
         | Some ms \<Rightarrow> ((''success'', map toMessageListItem (sort_key m_CreatedAt ms), 0), s))"

definition GetGroupMessageList :: "string \<Rightarrow> 'a chatdb_scheme \<Rightarrow> (string \<times> MessageListItem list \<times> int) \<times> 'a chatdb_scheme" where
  "GetGroupMessageList groupId s =
     (let (r, s) = find_docs messages (\<lambda>m. m_ReceiveId m = groupId) s
      in case r of None \<Rightarrow> ((SystemError, [], -1), s)
         | Some ms \<Rightarrow> ((''success'', map toMessageListItem (sort_key m_CreatedAt ms), 0), s))"

section \<open>Opening, closing and reading\<close>

definition invalidateSessionCacheByReceiver :: "string \<Rightarrow> 'a chatdb_scheme \<Rightarrow> 'a chatdb_scheme" where
  "invalidateSessionCacheByReceiver receiveId s =
     (let (r, s) = find_docs sessions (\<lambda>d. s_DeletedAt d = None \<and> s_ReceiveId d = receiveId) s
      in case r of None \<Rightarrow> s | Some ds \<Rightarrow> fold session_cache_del (map s_SendId ds) s)"

text \<open>
  \<open>createSession\<close> reads the first byte of \<open>receiveId\<close>; no caller passes an empty one.
\<close>

definition peer_profile :: "string \<Rightarrow> 'a chatdb_scheme \<Rightarrow> (string \<times> string) option \<times> 'a chatdb_scheme" where
  "peer_profile receiveId s =
     (if starts_with CHR ''U'' receiveId then
        (let (u, s) = first_doc user_infos (active_user receiveId) s in
         ((case u of Inl _ \<Rightarrow> None | Inr u \<Rightarrow> Some (u_Nickname u, u_Avatar u)), s))
      else
        (let (g, s) = first_doc group_infos (active_group receiveId) s in
         ((case g of Inl _ \<Rightarrow> None | Inr g \<Rightarrow> Some (g_Name g, g_Avatar g)), s)))"

definition createSession :: "string \<Rightarrow> string \<Rightarrow> 'a chatdb_scheme \<Rightarrow> (string \<times> string \<times> int) \<times> 'a chatdb_scheme" where
  "createSession sendId receiveId s =
     (let (r, s) = draw s;
          (profile, s) = peer_profile receiveId s
      in case profile of None \<Rightarrow> ((SystemError, [], -1), s)
         | Some (name, avatar) \<Rightarrow>
             (let session = \<lparr>s_Uuid = ''S'' @ r, s_SendId = sendId, s_ReceiveId = receiveId, s_ReceiveName = name,
                    s_Avatar = avatar, s_LastMessage = [], s_LastMessageAt = None, s_LastReadAt = None,
                    s_CreatedAt = clock s, s_DeletedAt = None\<rparr>;
                  (ok, s) = insert_sessions [session] s
              in if \<not> ok then ((SystemError, [], -1), s)
                 else ((''session created'', s_Uuid session, 0), session_cache_del sendId s)))"

definition OpenSession :: "string \<Rightarrow> string \<Rightarrow> 'a chatdb_scheme \<Rightarrow> (string \<times> string \<times> int) \<times> 'a chatdb_scheme" where
  "OpenSession sendId receiveId s =
     (if sendId = [] \<or> receiveId = [] then ((''send_id and receive_id are required'', [], -2), s)
      else (let (r, s) = first_doc sessions (\<lambda>d. s_DeletedAt d = None \<and> s_SendId d = sendId \<and> s_ReceiveId d = receiveId) s
            in case r of Inr session \<Rightarrow> ((''session created'', s_Uuid session, 0), s)
               | Inl _ \<Rightarrow> createSession sendId receiveId s))"

definition DeleteSession :: "string \<Rightarrow> string \<Rightarrow> 'a chatdb_scheme \<Rightarrow> (string \<times> int) \<times> 'a chatdb_scheme" where
  "DeleteSession ownerId sessionId s =
     (let (ok, s) = update_docs sessions_update (\<lambda>d. s_Uuid d = sessionId) (\<lambda>d. d\<lparr>s_DeletedAt := Some (clock s)\<rparr>) s
      in if \<not> ok then ((SystemError, -1), s) else ((''deleted'', 0), session_cache_del ownerId s))"

definition MarkSessionRead :: "string \<Rightarrow> string \<Rightarrow> 'a chatdb_scheme \<Rightarrow> (string \<times> int) \<times> 'a chatdb_scheme" where
  "MarkSessionRead ownerId receiveId s =
     (if ownerId = [] \<or> receiveId = [] then ((''owner_id and receive_id are required'', -2), s)
      else (let (ok, s) = update_docs sessions_update
                 (\<lambda>d. s_SendId d = ownerId \<and> s_ReceiveId d = receiveId \<and> s_DeletedAt d = None)
                 (\<lambda>d. d\<lparr>s_LastReadAt := Some (clock s)\<rparr>) s
            in if \<not> ok then ((SystemError, -1), s) else ((''marked as read'', 0), session_cache_del ownerId s)))"

section \<open>Making a conversation surface\<close>

definition ensurePeerSession :: "string \<Rightarrow> string \<Rightarrow> 'a chatdb_scheme \<Rightarrow> 'a chatdb_scheme" where
  "ensurePeerSession ownerId peerId s =
     (let (r, s) = first_doc sessions (\<lambda>d. s_SendId d = ownerId \<and> s_ReceiveId d = peerId) s
      in case r of
           Inl ErrNotFound \<Rightarrow> snd (createSession ownerId peerId s)
         | Inl ErrOther \<Rightarrow> s
         | Inr session \<Rightarrow>
             if s_DeletedAt session \<noteq> None then
               (let (ok, s) = update_docs sessions_update (\<lambda>d. s_Uuid d = s_Uuid session) (\<lambda>d. d\<lparr>s_DeletedAt := None\<rparr>) s
                in if \<not> ok then s else session_cache_del ownerId s)
             else s)"

definition touchDirectSessions :: "string \<Rightarrow> string \<Rightarrow> 'a chatdb_scheme \<Rightarrow> 'a chatdb_scheme" where
  "touchDirectSessions sendId receiveId s = ensurePeerSession receiveId sendId (ensurePeerSession sendId receiveId s)"

text \<open>The loop over the members: the sessions to create, the ids to restore, the members whose lists change.\<close>

fun touch_loop :: "GroupInfo \<Rightarrow> Session list \<Rightarrow> string list \<Rightarrow> 'a chatdb_scheme \<Rightarrow>
    (Session list \<times> string list \<times> string list) \<times> 'a chatdb_scheme" where
  "touch_loop grp found [] s = (([], [], []), s)"
| "touch_loop grp found (member # ms) s =
     (case List.find (\<lambda>d. s_SendId d = member) (rev found) of
        None \<Rightarrow>
          (let (r, s) = draw s;
               d = \<lparr>s_Uuid = ''S'' @ r, s_SendId = member, s_ReceiveId = g_Uuid grp, s_ReceiveName = g_Name grp,
                 s_Avatar = g_Avatar grp, s_LastMessage = [], s_LastMessageAt = None, s_LastReadAt = None,
                 s_CreatedAt = clock s, s_DeletedAt = None\<rparr>;
               ((created, restored, affected), s) = touch_loop grp found ms s
           in ((d # created, restored, member # affected), s))
      | Some d \<Rightarrow>
          if s_DeletedAt d \<noteq> None then
            (let ((created, restored, affected), s) = touch_loop grp found ms s
             in ((created, s_Uuid d # restored, member # affected), s))
          else touch_loop grp found ms s)"

definition touchGroupSessions :: "GroupInfo \<Rightarrow> 'a chatdb_scheme \<Rightarrow> 'a chatdb_scheme" where
  "touchGroupSessions grp s =
     (if g_Members grp = [] then s
      else (let (r, s) = find_docs sessions (\<lambda>d. s_ReceiveId d = g_Uuid grp \<and> s_SendId d \<in> set (g_Members grp)) s
            in case r of None \<Rightarrow> s
               | Some found \<Rightarrow>
                   (let ((created, restored, affected), s) = touch_loop grp found (g_Members grp) s;
                        s = (if restored \<noteq> [] then snd (update_docs sessions_update (\<lambda>d. s_Uuid d \<in> set restored)
                                 (\<lambda>d. d\<lparr>s_DeletedAt := None\<rparr>) s) else s);
                        s = (if created \<noteq> [] then snd (insert_sessions created s) else s)
                    in fold session_cache_del affected s)))"

definition CheckOpenSessionAllowed :: "string \<Rightarrow> string \<Rightarrow> 'a chatdb_scheme \<Rightarrow> (string \<times> bool \<times> int) \<times> 'a chatdb_scheme" where
  "CheckOpenSessionAllowed sendId receiveId s =
     (if sendId = [] \<or> receiveId = [] then ((''send_id and receive_id are required'', False, -2), s)
      else (let (r, s) = first_doc user_contacts
                 (\<lambda>d. uc_DeletedAt d = None \<and> uc_UserId d = sendId \<and> uc_ContactId d = receiveId) s
            in case r of Inl _ \<Rightarrow> ((SystemError, False, -1), s)
               | Inr contact \<Rightarrow>
                   if uc_Status contact = ContactBeBlack then ((''blocked by the other user'', False, -2), s)
                   else if uc_Status contact = ContactBlack then ((''unblock the user first'', False, -2), s)
                   else if receiveId ! 0 = CHR ''U'' then
                     (let (u, s) = first_doc user_infos (active_user receiveId) s in case u of
                        Inl _ \<Rightarrow> ((SystemError, False, -1), s)
                      | Inr user \<Rightarrow> if u_Status user = UserStatusDisable then ((''target user is disabled'', False, -2), s)
                                    else ((''allowed'', True, 0), s))
                   else
                     (let (g, s) = first_doc group_infos (active_group receiveId) s in case g of
                        Inl _ \<Rightarrow> ((SystemError, False, -1), s)
                      | Inr grp \<Rightarrow> if g_Status grp = GroupStatusDisable then ((''target group is disabled'', False, -2), s)
                                     else ((''allowed'', True, 0), s))))"

section \<open>The cached lists\<close>

definition cache_ok :: "'a chatdb_scheme \<Rightarrow> bool" where
  "cache_ok s \<longleftrightarrow> (\<forall>k v. gm_get (SessionListCache s) k = Some v \<longrightarrow> v = active_sessions k (sessions s))"

definition session_inv :: "'a chatdb_scheme \<Rightarrow> bool" where
  "session_inv s \<longleftrightarrow> cache_ok s \<and> distinct (map s_Uuid (sessions s))"

lemma fold_session_cache_del:
  "fold session_cache_del ks s = s\<lparr>SessionListCache := fold gm_del ks (SessionListCache s)\<rparr>"
  by (induction ks arbitrary: s) (auto simp: session_cache_del_def)

lemma gm_get_fold_del [simp]: "gm_get (fold gm_del ks m) k = (if k \<in> set ks then None else gm_get m k)"
  by (induction ks arbitrary: m) auto

lemma cache_ok_upto:
  assumes "cache_ok s"
    and "\<And>k. gm_get (SessionListCache s') k \<noteq> None \<Longrightarrow> gm_get (SessionListCache s') k = gm_get (SessionListCache s) k \<and>
      active_sessions k (sessions s') = active_sessions k (sessions s)"
  shows "cache_ok s'"
  using assms unfolding cache_ok_def by (metis option.distinct(1))

lemma active_change:
  assumes "\<And>d. d \<in> set l \<Longrightarrow> P d \<Longrightarrow> s_SendId d \<noteq> k \<and> s_SendId (f d) = s_SendId d"
  shows "active_sessions k (change P f l) = active_sessions k l"
  unfolding active_sessions_def by (subst filter_change) (use assms in auto)

lemma active_append:
  "(\<And>d. d \<in> set ds \<Longrightarrow> s_SendId d \<noteq> k) \<Longrightarrow> active_sessions k (l @ ds) = active_sessions k l"
  by (simp add: active_sessions_def filter_False)

lemma uuid_change: "(\<And>d. s_Uuid (f d) = s_Uuid d) \<Longrightarrow> map s_Uuid (change P f l) = map s_Uuid l"
  by (simp add: change_def)

lemma uuid_put: "distinct (map s_Uuid l) \<Longrightarrow> distinct (map s_Uuid (snd (put_docs (\<lambda>d. Some (s_Uuid d)) l ds)))"
  using put_docs_unique[of "\<lambda>d. Some (s_Uuid d)" l ds] by (simp add: distinct_map inj_on_def)

lemma put_sessions_fresh:
  assumes "distinct (map s_Uuid ds)" "s_Uuid ` set ds \<inter> s_Uuid ` set l = {}"
  shows "put_docs (\<lambda>d. Some (s_Uuid d)) l ds = (True, l @ ds)"
proof (rule put_docs_fresh)
  show "distinct (map (\<lambda>d. Some (s_Uuid d)) ds)" using assms(1) by (simp add: distinct_map inj_on_def)
  have "(\<lambda>d. Some (s_Uuid d)) ` A = Some ` s_Uuid ` A" for A by (simp add: image_image)
  then show "(\<lambda>d. Some (s_Uuid d)) ` set ds \<inter> (\<lambda>d. Some (s_Uuid d)) ` set l = {}"
    using assms(2) by (metis image_Int image_empty inj_Some)
qed

lemma uuid_owner:
  "distinct (map s_Uuid l) \<Longrightarrow> d \<in> set l \<Longrightarrow> e \<in> set l \<Longrightarrow> s_Uuid d = s_Uuid e \<Longrightarrow> d = e"
  by (simp add: distinct_map inj_on_def)

text \<open>An update of the sessions of one owner, followed by dropping that owner's list.\<close>

lemma session_inv_owner:
  assumes "session_inv s" "\<And>d. s_Uuid (f d) = s_Uuid d \<and> s_SendId (f d) = s_SendId d"
    and "\<And>d. d \<in> set (sessions s) \<Longrightarrow> P d \<Longrightarrow> s_SendId d \<in> set ks"
  shows "session_inv (fold session_cache_del ks (s\<lparr>sessions := change P f (sessions s)\<rparr>))"
  unfolding session_inv_def
proof
  show "cache_ok (fold session_cache_del ks (s\<lparr>sessions := change P f (sessions s)\<rparr>))"
    by (rule cache_ok_upto[of s], use assms in \<open>auto simp: session_inv_def fold_session_cache_del intro!: active_change split: if_splits\<close>)
qed (use assms in \<open>simp add: session_inv_def fold_session_cache_del uuid_change\<close>)

lemma session_inv_insert:
  assumes "session_inv s" "\<And>d. d \<in> set ds \<Longrightarrow> s_SendId d \<in> set ks"
  shows "session_inv (fold session_cache_del ks (s\<lparr>sessions := snd (put_docs (\<lambda>d. Some (s_Uuid d)) (sessions s) ds)\<rparr>))"
  unfolding session_inv_def
proof
  obtain ds' where ds': "snd (put_docs (\<lambda>d. Some (s_Uuid d)) (sessions s) ds) = sessions s @ ds'" "set ds' \<subseteq> set ds"
    using put_docs_mono[of "\<lambda>d. Some (s_Uuid d)" "sessions s" ds] by auto
  show "cache_ok (fold session_cache_del ks (s\<lparr>sessions := snd (put_docs (\<lambda>d. Some (s_Uuid d)) (sessions s) ds)\<rparr>))"
    by (rule cache_ok_upto[of s], use assms ds' in \<open>auto simp: session_inv_def fold_session_cache_del intro!: active_append split: if_splits\<close>)
qed (use assms in \<open>simp add: session_inv_def fold_session_cache_del uuid_put\<close>)

lemma session_inv_same:
  "session_inv s \<Longrightarrow> sessions s' = sessions s \<Longrightarrow> SessionListCache s' = SessionListCache s \<Longrightarrow> session_inv s'"
  by (simp add: session_inv_def cache_ok_def)

lemmas session_inv_owner1 = session_inv_owner[where ks = "[k]" for k, simplified]
lemmas session_inv_insert1 = session_inv_insert[where ks = "[k]" for k, simplified]

definition known_peer :: "string \<Rightarrow> 'a chatdb_scheme \<Rightarrow> bool" where
  "known_peer peer s \<longleftrightarrow> (if starts_with CHR ''U'' peer then \<exists>d \<in> set (user_infos s). active_user peer d
     else \<exists>d \<in> set (group_infos s). active_group peer d)"

lemma peer_profile_up: "up s \<Longrightarrow> snd (peer_profile b s) = s \<and> (fst (peer_profile b s) \<noteq> None \<longleftrightarrow> known_peer b s)"
  by (auto simp: peer_profile_def known_peer_def Let_def split: sum.splits dest: first_in_cases first_in_Inr)

text \<open>A session is created exactly when its peer exists and the drawn id is new.\<close>

lemma createSession_up:
  assumes "up s"
  shows "\<exists>d. s_SendId d = a \<and> s_ReceiveId d = b \<and> s_DeletedAt d = None \<and> s_Uuid d = ''S'' @ random s (drawn s) \<and>
    snd (createSession a b s) =
      (if known_peer b s \<and> s_Uuid d \<notin> s_Uuid ` set (sessions s)
       then session_cache_del a (s\<lparr>drawn := Suc (drawn s), sessions := sessions s @ [d]\<rparr>)
       else s\<lparr>drawn := Suc (drawn s)\<rparr>)"
proof (cases "fst (peer_profile b (s\<lparr>drawn := Suc (drawn s)\<rparr>))")
  case None
  then show ?thesis
    using peer_profile_up[of "s\<lparr>drawn := Suc (drawn s)\<rparr>" b] assms
    by (auto simp: createSession_def draw_def Let_def case_prod_beta known_peer_def
        intro: exI[of _ "\<lparr>s_Uuid = ''S'' @ random s (drawn s), s_SendId = a, s_ReceiveId = b, s_ReceiveName = [],
                    s_Avatar = [], s_LastMessage = [], s_LastMessageAt = None, s_LastReadAt = None,
                    s_CreatedAt = clock s, s_DeletedAt = None\<rparr>"])
next
  case (Some p)
  obtain name avatar where p: "p = (name, avatar)" by (cases p)
  let ?d = "\<lparr>s_Uuid = ''S'' @ random s (drawn s), s_SendId = a, s_ReceiveId = b, s_ReceiveName = name,
                    s_Avatar = avatar, s_LastMessage = [], s_LastMessageAt = None, s_LastReadAt = None,
                    s_CreatedAt = clock s, s_DeletedAt = None\<rparr>"
  have "known_peer b s" using peer_profile_up[of "s\<lparr>drawn := Suc (drawn s)\<rparr>" b] Some assms by (auto simp: known_peer_def)
  then show ?thesis
    using peer_profile_up[of "s\<lparr>drawn := Suc (drawn s)\<rparr>" b] assms Some p
    by (intro exI[of _ ?d]) (auto simp: createSession_def draw_def Let_def case_prod_beta image_iff)
qed

lemma session_inv_append:
  assumes "session_inv s" "s_Uuid d \<notin> s_Uuid ` set (sessions s)"
  shows "session_inv (session_cache_del (s_SendId d) (s\<lparr>sessions := sessions s @ [d]\<rparr>))"
  using session_inv_insert1[OF assms(1), of "[d]" "s_SendId d"] assms(2) by (simp add: image_iff)

lemma createSession_inv:
  assumes "up s" "session_inv s"
  shows "session_inv (snd (createSession a b s))" "up (snd (createSession a b s))"
  using createSession_up[OF assms(1), of a b] assms session_inv_append[of "s\<lparr>drawn := n\<rparr>" for n]
  by (auto simp: session_inv_def cache_ok_def session_cache_del_def)

lemma OpenSession_inv: "up s \<Longrightarrow> session_inv s \<Longrightarrow> session_inv (snd (OpenSession a b s))"
  by (auto simp: OpenSession_def createSession_inv split: sum.split)

text \<open>\<open>DeleteSession\<close> drops the list of the caller, so the session it closes has to be the caller's own.\<close>

lemma DeleteSession_inv:
  assumes "up s" "session_inv s" "\<And>d. d \<in> set (sessions s) \<Longrightarrow> s_Uuid d = i \<Longrightarrow> s_SendId d = owner"
  shows "session_inv (snd (DeleteSession owner i s))"
  using assms by (auto simp: DeleteSession_def intro!: session_inv_owner1)

lemma MarkSessionRead_inv: "up s \<Longrightarrow> session_inv s \<Longrightarrow> session_inv (snd (MarkSessionRead owner peer s))"
  by (auto simp: MarkSessionRead_def intro!: session_inv_owner1)

lemma ensurePeerSession_inv:
  assumes "up s" "session_inv s"
  shows "session_inv (ensurePeerSession a b s)" "up (ensurePeerSession a b s)"
proof -
  have "session_inv (session_cache_del a (s\<lparr>sessions := change (\<lambda>d. s_Uuid d = s_Uuid e) (\<lambda>d. d\<lparr>s_DeletedAt := None\<rparr>) (sessions s)\<rparr>))"
    if e: "first_in (\<lambda>d. s_SendId d = a \<and> s_ReceiveId d = b) (sessions s) = Inr e" for e
    using assms(2) first_in_Inr[OF e] uuid_owner[of "sessions s" _ e] by (intro session_inv_owner1) (auto simp: session_inv_def)
  then show "session_inv (ensurePeerSession a b s)"
    using assms by (auto simp: ensurePeerSession_def createSession_inv split: sum.split dberr.split)
  show "up (ensurePeerSession a b s)"
    using assms by (auto simp: ensurePeerSession_def createSession_inv session_cache_del_def split: sum.split dberr.split)
qed

lemma touchDirectSessions_inv:
  assumes "up s" "session_inv s"
  shows "session_inv (touchDirectSessions a b s)" "up (touchDirectSessions a b s)"
  by (simp_all add: touchDirectSessions_def ensurePeerSession_inv assms)

lemma invalidate_up:
  "up s \<Longrightarrow> invalidateSessionCacheByReceiver r s =
     fold session_cache_del (map s_SendId (filter (\<lambda>d. s_DeletedAt d = None \<and> s_ReceiveId d = r) (sessions s))) s"
  by (simp add: invalidateSessionCacheByReceiver_def)

text \<open>Dropping more lists than needed is harmless.\<close>

lemma session_inv_drop: "session_inv s \<Longrightarrow> session_inv (fold session_cache_del ks s)"
  by (auto simp: session_inv_def cache_ok_def fold_session_cache_del split: if_splits)

lemma touch_loop_spec:
  assumes "touch_loop g found ms s = ((created, restored, affected), s')"
  shows "s' = s\<lparr>drawn := drawn s + length created\<rparr> \<and> set affected \<subseteq> set ms \<and>
    (\<forall>d \<in> set created. s_SendId d \<in> set affected \<and> s_ReceiveId d = g_Uuid g \<and> s_DeletedAt d = None) \<and>
    map s_Uuid created = map (\<lambda>i. ''S'' @ random s (drawn s + i)) [0 ..< length created] \<and>
    (\<forall>i \<in> set restored. \<exists>d \<in> set found. s_Uuid d = i \<and> s_SendId d \<in> set affected) \<and>
    (\<forall>m \<in> set ms. (\<exists>d \<in> set created. s_SendId d = m) \<or>
       (\<exists>d \<in> set found. s_SendId d = m \<and> (s_DeletedAt d = None \<or> s_Uuid d \<in> set restored)))"
  using assms
proof (induction ms arbitrary: s created restored affected s')
  case (Cons m ms)
  show ?case
  proof (cases "List.find (\<lambda>d. s_SendId d = m) (rev found)")
    case None
    obtain c r a t where loop: "touch_loop g found ms (s\<lparr>drawn := Suc (drawn s)\<rparr>) = ((c, r, a), t)"
      by (metis prod.exhaust)
    let ?e = "\<lparr>s_Uuid = ''S'' @ random s (drawn s), s_SendId = m, s_ReceiveId = g_Uuid g, s_ReceiveName = g_Name g,
      s_Avatar = g_Avatar g, s_LastMessage = [], s_LastMessageAt = None, s_LastReadAt = None, s_CreatedAt = clock s, s_DeletedAt = None\<rparr>"
    have eq: "created = ?e # c" "restored = r" "affected = m # a" "s' = t"
      using Cons.prems None loop by (auto simp: draw_def)
    note IH = Cons.IH[OF loop]
    have "s' = s\<lparr>drawn := drawn s + length created\<rparr>" "set affected \<subseteq> set (m # ms)"
      "map s_Uuid created = map (\<lambda>i. ''S'' @ random s (drawn s + i)) [0 ..< length created]"
      using IH by (auto simp: eq map_upt_Suc simp del: upt_Suc)
    moreover have "\<forall>d \<in> set created. s_SendId d \<in> set affected \<and> s_ReceiveId d = g_Uuid g \<and> s_DeletedAt d = None"
      using IH by (simp add: eq)
    moreover have "\<forall>i \<in> set restored. \<exists>d \<in> set found. s_Uuid d = i \<and> s_SendId d \<in> set affected"
      using IH by (simp add: eq) blast
    moreover have "\<forall>x \<in> set (m # ms). (\<exists>d \<in> set created. s_SendId d = x) \<or>
       (\<exists>d \<in> set found. s_SendId d = x \<and> (s_DeletedAt d = None \<or> s_Uuid d \<in> set restored))"
      using IH by (simp add: eq)
    ultimately show ?thesis by blast
  next
    case (Some d)
    then have d: "d \<in> set found" "s_SendId d = m" using first_in_Inr[of "\<lambda>d. s_SendId d = m" "rev found" d] by (auto simp: first_in_def)
    obtain c r a t where loop: "touch_loop g found ms s = ((c, r, a), t)"
      by (metis prod.exhaust)
    have eq: "created = c" "s' = t" "if s_DeletedAt d \<noteq> None then restored = s_Uuid d # r \<and> affected = m # a else restored = r \<and> affected = a"
      using Cons.prems Some loop by (auto split: if_splits)
    note IH = Cons.IH[OF loop]
    have "\<forall>d \<in> set created. s_SendId d \<in> set affected \<and> s_ReceiveId d = g_Uuid g \<and> s_DeletedAt d = None"
      using IH eq by (auto split: if_splits)
    moreover have "\<forall>i \<in> set restored. \<exists>d \<in> set found. s_Uuid d = i \<and> s_SendId d \<in> set affected"
      using IH eq d by (auto split: if_splits)
    moreover have "\<forall>x \<in> set (m # ms). (\<exists>d \<in> set created. s_SendId d = x) \<or>
       (\<exists>d \<in> set found. s_SendId d = x \<and> (s_DeletedAt d = None \<or> s_Uuid d \<in> set restored))"
    proof -
      have "\<exists>d \<in> set found. s_SendId d = m \<and> (s_DeletedAt d = None \<or> s_Uuid d \<in> set restored)"
        using eq d by (intro bexI[of _ d]) (auto split: if_splits)
      moreover have "set r \<subseteq> set restored" using eq by (auto split: if_splits)
      ultimately show ?thesis using IH unfolding eq(1) by (metis set_ConsD subset_iff)
    qed
    moreover have "set affected \<subseteq> set (m # ms)" using IH eq by (auto split: if_splits)
    ultimately show ?thesis using IH eq(1,2) by simp
  qed
qed simp


text \<open>With the database up, a group message restores and creates sessions, then drops the lists of the members it touched.\<close>

definition has_session :: "string \<Rightarrow> string \<Rightarrow> 'a chatdb_scheme \<Rightarrow> bool" where
  "has_session owner peer s \<longleftrightarrow> (\<exists>d \<in> set (sessions s). s_SendId d = owner \<and> s_ReceiveId d = peer \<and> s_DeletedAt d = None)"

definition found_sessions :: "GroupInfo \<Rightarrow> 'a chatdb_scheme \<Rightarrow> Session list" where
  "found_sessions g s = filter (\<lambda>d. s_ReceiveId d = g_Uuid g \<and> s_SendId d \<in> set (g_Members g)) (sessions s)"

lemma touchGroupSessions_up:
  assumes "up s"
  obtains created restored affected where
    "touch_loop g (found_sessions g s) (g_Members g) s = ((created, restored, affected), s\<lparr>drawn := drawn s + length created\<rparr>)"
    "touchGroupSessions g s = fold session_cache_del affected
       (s\<lparr>drawn := drawn s + length created,
          sessions := snd (put_docs (\<lambda>d. Some (s_Uuid d)) (change (\<lambda>d. s_Uuid d \<in> set restored) (\<lambda>d. d\<lparr>s_DeletedAt := None\<rparr>) (sessions s)) created)\<rparr>)"
proof -
  obtain created restored affected s' where
    loop: "touch_loop g (found_sessions g s) (g_Members g) s = ((created, restored, affected), s')" by (metis prod.exhaust)
  note spec = touch_loop_spec[OF loop]
  show thesis
  proof (rule that)
    show "touch_loop g (found_sessions g s) (g_Members g) s = ((created, restored, affected), s\<lparr>drawn := drawn s + length created\<rparr>)"
      using loop spec by simp
    show "touchGroupSessions g s = fold session_cache_del affected
       (s\<lparr>drawn := drawn s + length created,
          sessions := snd (put_docs (\<lambda>d. Some (s_Uuid d)) (change (\<lambda>d. s_Uuid d \<in> set restored) (\<lambda>d. d\<lparr>s_DeletedAt := None\<rparr>) (sessions s)) created)\<rparr>)"
      using loop spec assms by (cases "g_Members g = []") (auto simp: touchGroupSessions_def found_sessions_def Let_def)
  qed
qed

lemma touchGroupSessions_inv:
  assumes "up s" "session_inv s"
  shows "session_inv (touchGroupSessions g s)" "up (touchGroupSessions g s)"
proof -
  obtain created restored affected where
    loop: "touch_loop g (found_sessions g s) (g_Members g) s = ((created, restored, affected), s\<lparr>drawn := drawn s + length created\<rparr>)"
    and eq: "touchGroupSessions g s = fold session_cache_del affected
       (s\<lparr>drawn := drawn s + length created,
          sessions := snd (put_docs (\<lambda>d. Some (s_Uuid d)) (change (\<lambda>d. s_Uuid d \<in> set restored) (\<lambda>d. d\<lparr>s_DeletedAt := None\<rparr>) (sessions s)) created)\<rparr>)"
    by (rule touchGroupSessions_up[OF assms(1)])
  note spec = touch_loop_spec[OF loop]
  have "s_SendId d \<in> set affected" if d: "d \<in> set (sessions s)" "s_Uuid d \<in> set restored" for d
  proof -
    obtain e where "e \<in> set (sessions s)" "s_Uuid e = s_Uuid d" "s_SendId e \<in> set affected"
      using spec d(2) by (auto simp: found_sessions_def)
    then show ?thesis using uuid_owner[of "sessions s" d e] d(1) assms(2) by (simp add: session_inv_def)
  qed
  then have "session_inv (fold session_cache_del affected (s\<lparr>sessions := change (\<lambda>d. s_Uuid d \<in> set restored) (\<lambda>d. d\<lparr>s_DeletedAt := None\<rparr>) (sessions s)\<rparr>))"
    by (intro session_inv_owner assms(2)) auto
  from session_inv_insert[OF this, of created affected] spec
  show "session_inv (touchGroupSessions g s)"
    unfolding eq by (auto simp: fold_session_cache_del session_inv_def cache_ok_def split: if_splits)
  show "up (touchGroupSessions g s)" unfolding eq by (simp add: fold_session_cache_del assms)
qed

text \<open>The ids the next \<open>n\<close> draws give to sessions are new.\<close>

definition fresh_ids :: "nat \<Rightarrow> 'a chatdb_scheme \<Rightarrow> bool" where
  "fresh_ids n s \<longleftrightarrow> distinct (map (\<lambda>i. random s (drawn s + i)) [0..<n]) \<and>
     (\<forall>d \<in> set (sessions s). s_Uuid d \<notin> set (map (\<lambda>i. ''S'' @ random s (drawn s + i)) [0..<n]))"

lemma touchGroupSessions_covers:
  assumes "up s" "fresh_ids (length (g_Members g)) s" "m \<in> set (g_Members g)"
  shows "has_session m (g_Uuid g) (touchGroupSessions g s)"
proof -
  obtain created restored affected where
    loop: "touch_loop g (found_sessions g s) (g_Members g) s = ((created, restored, affected), s\<lparr>drawn := drawn s + length created\<rparr>)"
    and eq: "touchGroupSessions g s = fold session_cache_del affected
       (s\<lparr>drawn := drawn s + length created,
          sessions := snd (put_docs (\<lambda>d. Some (s_Uuid d)) (change (\<lambda>d. s_Uuid d \<in> set restored) (\<lambda>d. d\<lparr>s_DeletedAt := None\<rparr>) (sessions s)) created)\<rparr>)"
    by (rule touchGroupSessions_up[OF assms(1)])
  note spec = touch_loop_spec[OF loop]
  have len: "length created \<le> length ms" if "touch_loop g l ms t = ((created, r, a), t')" for l ms t created r a t'
    using that by (induction ms arbitrary: t created r a t') (auto simp: Let_def split: option.splits if_splits prod.splits, force+)
  let ?ids = "\<lambda>n. map (\<lambda>i. ''S'' @ random s (drawn s + i)) [0..<n]"
  have pre: "?ids (length created) = take (length created) (?ids (length (g_Members g)))"
    using len[OF loop] by (simp add: take_map)
  have "distinct (?ids (length (g_Members g)))" using assms(2) by (simp add: fresh_ids_def distinct_map inj_on_def)
  then have "distinct (map s_Uuid created)" using spec pre by (simp add: distinct_take)
  moreover have "s_Uuid ` set created \<inter> s_Uuid ` set (sessions s) = {}"
  proof -
    have "s_Uuid ` set created \<subseteq> set (?ids (length (g_Members g)))"
      using spec pre set_take_subset[of "length created"] by (metis image_set)
    then show ?thesis using assms(2) unfolding fresh_ids_def disjoint_iff image_iff subset_iff by metis
  qed
  ultimately have "snd (put_docs (\<lambda>d. Some (s_Uuid d)) (change (\<lambda>d. s_Uuid d \<in> set restored) (\<lambda>d. d\<lparr>s_DeletedAt := None\<rparr>) (sessions s)) created)
      = change (\<lambda>d. s_Uuid d \<in> set restored) (\<lambda>d. d\<lparr>s_DeletedAt := None\<rparr>) (sessions s) @ created"
    by (subst put_sessions_fresh) (simp_all add: uuid_change flip: set_map)
  then have ses: "set (sessions (touchGroupSessions g s)) =
      {d \<in> set (sessions s). s_Uuid d \<notin> set restored} \<union> s_DeletedAt_update (\<lambda>_. None) ` {d \<in> set (sessions s). s_Uuid d \<in> set restored} \<union> set created"
    by (simp add: eq fold_session_cache_del set_change)
  consider d where "d \<in> set created" "s_SendId d = m"
    | d where "d \<in> set (sessions s)" "s_ReceiveId d = g_Uuid g" "s_SendId d = m" "s_DeletedAt d = None" "s_Uuid d \<notin> set restored"
    | d where "d \<in> set (sessions s)" "s_ReceiveId d = g_Uuid g" "s_SendId d = m" "s_Uuid d \<in> set restored"
    using spec assms(3) by (fastforce simp: found_sessions_def)
  then show ?thesis
  proof cases
    case (1 d)
    then show ?thesis using spec unfolding has_session_def ses by (intro bexI[of _ d]) auto
  next
    case (2 d)
    then show ?thesis unfolding has_session_def ses by (intro bexI[of _ d]) auto
  next
    case (3 d)
    then show ?thesis unfolding has_session_def ses by (intro bexI[of _ "d\<lparr>s_DeletedAt := None\<rparr>"]) auto
  qed
qed

lemma has_session_mono:
  "has_session a b s \<Longrightarrow> sessions s' = sessions s @ ds \<Longrightarrow> has_session a b s'"
  by (auto simp: has_session_def)

lemma ensurePeerSession_has:
  assumes "up s" "known_peer b s" "''S'' @ random s (drawn s) \<notin> s_Uuid ` set (sessions s)"
  shows "has_session a b (ensurePeerSession a b s)"
proof (cases "first_in (\<lambda>d. s_SendId d = a \<and> s_ReceiveId d = b) (sessions s)")
  case (Inl e)
  then show ?thesis
    using first_in_cases[OF Inl] createSession_up[OF assms(1), of a b] assms
    by (auto simp: ensurePeerSession_def has_session_def session_cache_del_def split: dberr.split)
next
  case (Inr d)
  then have "d \<in> set (sessions s)" "s_SendId d = a" "s_ReceiveId d = b" by (auto dest: first_in_Inr)
  then show ?thesis
    using Inr assms(1)
    by (auto simp: ensurePeerSession_def has_session_def session_cache_del_def set_change intro: bexI[of _ "d\<lparr>s_DeletedAt := None\<rparr>"])
qed

text \<open>Restoring one owner's session, or creating it, closes nobody else's.\<close>

lemma ensurePeerSession_keeps:
  assumes "up s" "has_session x y s"
  shows "has_session x y (ensurePeerSession a b s)"
proof (cases "first_in (\<lambda>d. s_SendId d = a \<and> s_ReceiveId d = b) (sessions s)")
  case (Inl e)
  then show ?thesis
    using first_in_cases[OF Inl] createSession_up[OF assms(1), of a b] assms
    by (auto simp: ensurePeerSession_def has_session_def session_cache_del_def split: dberr.split)
next
  case (Inr e)
  obtain d where d: "d \<in> set (sessions s)" "s_SendId d = x" "s_ReceiveId d = y" "s_DeletedAt d = None"
    using assms(2) by (auto simp: has_session_def)
  let ?d = "if s_Uuid d = s_Uuid e then d\<lparr>s_DeletedAt := None\<rparr> else d"
  have "?d \<in> set (change (\<lambda>d. s_Uuid d = s_Uuid e) (\<lambda>d. d\<lparr>s_DeletedAt := None\<rparr>) (sessions s))"
    using d(1) by (auto simp: change_def)
  then have "has_session x y (s\<lparr>sessions := change (\<lambda>d. s_Uuid d = s_Uuid e) (\<lambda>d. d\<lparr>s_DeletedAt := None\<rparr>) (sessions s)\<rparr>)"
    unfolding has_session_def using d by (intro bexI[of _ ?d]) auto
  then show ?thesis
    using Inr assms by (simp add: ensurePeerSession_def has_session_def session_cache_del_def)
qed

text \<open>The cached list is the database's.\<close>

lemma loadSessions_exact:
  assumes "up s" "session_inv s"
  shows "fst (loadSessions owner s) = Some (active_sessions owner (sessions s))"
    and "session_inv (snd (loadSessions owner s))" "sessions (snd (loadSessions owner s)) = sessions s"
    and "messages (snd (loadSessions owner s)) = messages s" "up (snd (loadSessions owner s))"
  using assms
  by (auto simp: loadSessions_def session_cache_get_def load_sessions_db_def active_sessions_def session_inv_def cache_ok_def split: option.splits)

lemma enrichSession_up:
  "up s \<Longrightarrow> snd (enrichSession owner se s) = s \<and> unreadCnt (fst (enrichSession owner se s)) = length (filter (unread_of owner se) (messages s))"
  by (simp add: enrichSession_def Let_def split: sum.split)

lemma session_entries_up:
  assumes "up s"
  shows "session_entries kind owner ses s =
    (map (\<lambda>se. let meta = fst (enrichSession owner se s) in
       (\<lparr>SessionId = s_Uuid se, Avatar = s_Avatar se, PeerId = s_ReceiveId se, PeerName = s_ReceiveName se,
         LastMessage = lastMessage meta, LastMessageType = lastMessageType meta, LastMessageAt = lastMessageAt meta,
         LastMessageAtMs = lastMessageAtMs meta, UnreadCnt = unreadCnt meta\<rparr>, sortKey meta))
       (filter (\<lambda>se. starts_with kind (s_ReceiveId se)) ses), s)"
  by (induction ses) (simp_all add: Let_def case_prod_beta enrichSession_up assms)

text \<open>Reading a conversation leaves nothing unread in it, as long as no message is from the future.\<close>

lemma read_then_listed:
  assumes "up s" "session_inv s" "owner \<noteq> []" "peer \<noteq> []" "\<And>m. m \<in> set (messages s) \<Longrightarrow> m_CreatedAt m \<le> clock s"
    and item: "item \<in> set (fst (snd (fst (session_list kind owner (snd (MarkSessionRead owner peer s))))))" "PeerId item = peer"
  shows "UnreadCnt item = 0"
proof -
  let ?s = "snd (MarkSessionRead owner peer s)"
  have up': "up ?s" and inv': "session_inv ?s" and ms: "messages ?s = messages s"
    and ses: "sessions ?s = change (\<lambda>d. s_SendId d = owner \<and> s_ReceiveId d = peer \<and> s_DeletedAt d = None)
      (\<lambda>d. d\<lparr>s_LastReadAt := Some (clock s)\<rparr>) (sessions s)"
    using assms MarkSessionRead_inv[OF assms(1,2), of owner peer] by (auto simp: MarkSessionRead_def session_cache_del_def)
  let ?t = "snd (loadSessions owner ?s)"
  have "\<exists>se \<in> set (active_sessions owner (sessions ?s)).
      s_ReceiveId se = PeerId item \<and> UnreadCnt item = unreadCnt (fst (enrichSession owner se ?t))"
    using item(1) loadSessions_exact[OF up' inv', of owner]
    by (auto simp: session_list_def case_prod_beta session_entries_up Let_def)
  then obtain se where se: "se \<in> set (active_sessions owner (sessions ?s))" "s_ReceiveId se = peer"
      "UnreadCnt item = unreadCnt (fst (enrichSession owner se ?t))"
    using item(2) by auto
  have "s_LastReadAt se = Some (clock s)"
  proof -
    have "se \<in> set (sessions ?s)" "s_SendId se = owner" "s_DeletedAt se = None"
      using se(1) by (simp_all add: active_sessions_def newest_first_def)
    with se(2) show ?thesis unfolding ses set_change by (elim UnE imageE CollectE conjE) auto
  qed
  then have "filter (unread_of owner se) (messages s) = []"
    using assms(5) by (auto simp: filter_empty_conv unread_of_def not_less)
  then show ?thesis
    using se(3) enrichSession_up[of ?t owner se] loadSessions_exact[OF up' inv', of owner] ms by simp
qed

lemma createSession_frame:
  assumes "up s"
  shows "user_infos (snd (createSession a b s)) = user_infos s" "group_infos (snd (createSession a b s)) = group_infos s"
  using createSession_up[OF assms, of a b] by (elim exE conjE; simp add: session_cache_del_def)+

lemma ensurePeerSession_frame:
  assumes "up s"
  shows "user_infos (ensurePeerSession a b s) = user_infos s" "group_infos (ensurePeerSession a b s) = group_infos s"
  using assms by (simp_all add: ensurePeerSession_def createSession_frame session_cache_del_def split: sum.split dberr.split)

lemma ensurePeerSession_next:
  assumes "up s" "fresh_ids 2 s"
  shows "''S'' @ random (ensurePeerSession a b s) (drawn (ensurePeerSession a b s)) \<notin> s_Uuid ` set (sessions (ensurePeerSession a b s))"
    and "known_peer p (ensurePeerSession a b s) = known_peer p s"
proof -
  have f: "random s (drawn s) \<noteq> random s (Suc (drawn s))" "''S'' @ random s (drawn s) \<notin> s_Uuid ` set (sessions s)"
    "''S'' @ random s (Suc (drawn s)) \<notin> s_Uuid ` set (sessions s)"
    using assms(2) by (auto simp: fresh_ids_def numeral_2_eq_2 image_iff)
  have g: "s_Uuid ` set (change (\<lambda>d. s_Uuid d = i) (\<lambda>d. d\<lparr>s_DeletedAt := None\<rparr>) l) = s_Uuid ` set l" for i and l :: "Session list"
    by (metis (no_types, lifting) Session.select_convs(1) Session.surjective Session.update_convs(10) list.set_map uuid_change)
  show "''S'' @ random (ensurePeerSession a b s) (drawn (ensurePeerSession a b s)) \<notin> s_Uuid ` set (sessions (ensurePeerSession a b s))"
  proof (cases "first_in (\<lambda>d. s_SendId d = a \<and> s_ReceiveId d = b) (sessions s)")
    case (Inl e)
    obtain d where d: "s_Uuid d = ''S'' @ random s (drawn s)" "snd (createSession a b s) =
        (if known_peer b s then session_cache_del a (s\<lparr>drawn := Suc (drawn s), sessions := sessions s @ [d]\<rparr>)
         else s\<lparr>drawn := Suc (drawn s)\<rparr>)"
      using createSession_up[OF assms(1), of a b] f(2) by auto
    have "ensurePeerSession a b s = snd (createSession a b s)"
      using Inl first_in_cases[OF Inl] assms(1) by (simp add: ensurePeerSession_def)
    with d f show ?thesis by (cases "known_peer b s") (simp_all add: session_cache_del_def)
  qed (use assms(1) f(2) g in \<open>simp add: ensurePeerSession_def session_cache_del_def\<close>)
  show "known_peer p (ensurePeerSession a b s) = known_peer p s"
    using ensurePeerSession_frame[OF assms(1)] by (simp add: known_peer_def)
qed

text \<open>A direct message surfaces on both sides.\<close>

lemma touchDirectSessions_both:
  assumes "up s" "session_inv s" "known_peer a s" "known_peer b s" "fresh_ids 2 s"
  shows "has_session a b (touchDirectSessions a b s)" "has_session b a (touchDirectSessions a b s)"
proof -
  have "''S'' @ random s (drawn s) \<notin> s_Uuid ` set (sessions s)"
    using assms(5) by (auto simp: fresh_ids_def numeral_2_eq_2 image_iff)
  then have "has_session a b (ensurePeerSession a b s)" using assms by (intro ensurePeerSession_has)
  then show "has_session a b (touchDirectSessions a b s)"
    using ensurePeerSession_inv[OF assms(1,2)] by (simp add: touchDirectSessions_def ensurePeerSession_keeps)
  show "has_session b a (touchDirectSessions a b s)"
    unfolding touchDirectSessions_def using ensurePeerSession_inv[OF assms(1,2)] ensurePeerSession_next[OF assms(1,5)] assms(3)
    by (intro ensurePeerSession_has) auto
qed

text \<open>
  Opening a conversation again after closing it creates a second session beside the closed one, and the next message restores the
  closed one: the user has the conversation twice.
\<close>

definition sample_user :: "string \<Rightarrow> UserInfo" where
  "sample_user i = \<lparr>u_Uuid = i, u_Nickname = i, u_Telephone = [], u_Email = [], u_Avatar = [], u_Gender = 0, u_Signature = [],
     u_Password = [], u_Birthday = [], u_CreatedAt = 0, u_DeletedAt = None, u_LastOnlineAt = None, u_LastOfflineAt = None,
     u_IsAdmin = 0, u_Status = 0\<rparr>"

definition sample_session :: "string \<Rightarrow> string \<Rightarrow> string \<Rightarrow> Session" where
  "sample_session i a b = \<lparr>s_Uuid = i, s_SendId = a, s_ReceiveId = b, s_ReceiveName = b, s_Avatar = [], s_LastMessage = [],
     s_LastMessageAt = None, s_LastReadAt = None, s_CreatedAt = 0, s_DeletedAt = None\<rparr>"

definition sample_db :: "UserInfo list \<Rightarrow> Session list \<Rightarrow> chatdb" where
  "sample_db us ses = \<lparr>user_infos = us, group_infos = [], user_contacts = [], contact_applies = [], contact_tags = [],
     sessions = ses, messages = [], UserInfoCache = [], SessionListCache = [], faults = [], tx_supported = True, clock = 1,
     random = (\<lambda>n. replicate n CHR ''a''), drawn = 0\<rparr>"

theorem reopened_session_is_doubled:
  "let s = sample_db [sample_user ''U1'', sample_user ''U2''] [sample_session ''S1'' ''U1'' ''U2''];
       s = snd (DeleteSession ''U1'' ''S1'' s);
       s = snd (OpenSession ''U1'' ''U2'' s);
       s = touchDirectSessions ''U2'' ''U1'' s
   in map s_SendId (active_sessions ''U1'' (sessions s)) = [''U1'', ''U1''] \<and>
      map s_ReceiveId (active_sessions ''U1'' (sessions s)) = [''U2'', ''U2'']"
  by (simp add: sample_db_def sample_user_def sample_session_def DeleteSession_def OpenSession_def touchDirectSessions_def
      ensurePeerSession_def createSession_def peer_profile_def draw_def starts_with_def active_user_def first_in_def change_def
      session_cache_del_def active_sessions_def newest_first_def Let_def)

section \<open>Runs of the session services\<close>

text \<open>Requests one after the other, with entries of the cache evicted, messages stored and time passing in between.\<close>

inductive session_step :: "chatdb \<Rightarrow> chatdb \<Rightarrow> bool" where
  opened: "session_step s (snd (OpenSession a b s))"
| closed_own: "(\<And>d. d \<in> set (sessions s) \<Longrightarrow> s_Uuid d = i \<Longrightarrow> s_SendId d = owner) \<Longrightarrow> session_step s (snd (DeleteSession owner i s))"
| marked: "session_step s (snd (MarkSessionRead owner peer s))"
| direct: "session_step s (touchDirectSessions a b s)"
| to_group: "session_step s (touchGroupSessions g s)"
| listed: "session_step s (snd (loadSessions owner s))"
| evicted: "session_step s (session_cache_del k s)"
| stored: "session_step s (s\<lparr>messages := ms, clock := t, user_infos := us, group_infos := gs\<rparr>)"

lemma session_step_inv:
  assumes "session_step s s'" "up s \<and> session_inv s"
  shows "up s' \<and> session_inv s'"
  using assms
proof cases
  case (opened a b)
  then show ?thesis using assms(2) by (simp add: OpenSession_def createSession_inv split: sum.split)
next
  case (closed_own i owner)
  then show ?thesis using assms(2) DeleteSession_inv[of s i owner] by (auto simp: DeleteSession_def session_cache_del_def)
next
  case (marked owner peer)
  then show ?thesis using assms(2) MarkSessionRead_inv[of s owner peer] by (auto simp: MarkSessionRead_def session_cache_del_def)
next
  case (evicted k)
  then show ?thesis using assms(2) session_inv_drop[of s "[k]"] by (simp add: session_cache_del_def)
next
  case stored
  then show ?thesis using assms(2) by (simp add: session_inv_def cache_ok_def)
qed (use assms(2) in \<open>simp_all add: touchDirectSessions_inv touchGroupSessions_inv loadSessions_exact\<close>)



text \<open>Closing somebody else's session leaves its owner with the old list.\<close>

theorem foreign_delete_goes_unnoticed:
  "let s = sample_db [] [sample_session ''S1'' ''U1'' ''U2''];
       s = snd (loadSessions ''U1'' s);
       s = snd (DeleteSession ''U2'' ''S1'' s)
   in active_sessions ''U1'' (sessions s) = [] \<and> fst (loadSessions ''U1'' s) = Some [sample_session ''S1'' ''U1'' ''U2'']"
  by code_simp

text \<open>C38. Reading a conversation clears its unread count: in the list a user loads after \<open>MarkSessionRead\<close>, the conversation with
  that peer has nothing unread, provided no stored message is dated in the future.\<close>

theorem marked_read_has_no_unread:
  assumes "up s" "session_inv s" "owner \<noteq> []" "peer \<noteq> []" "\<And>m. m \<in> set (messages s) \<Longrightarrow> m_CreatedAt m \<le> clock s"
    and "item \<in> set (fst (snd (fst (GetUserSessionList owner (snd (MarkSessionRead owner peer s))))))" "PeerId item = peer"
  shows "UnreadCnt item = 0"
  using read_then_listed[OF assms(1-5)] assms(6,7) by (simp add: GetUserSessionList_def)

definition sample_message :: "string \<Rightarrow> string \<Rightarrow> string \<Rightarrow> Message" where
  "sample_message i a b = \<lparr>m_Uuid = i, m_SessionId = [], m_Type = 0, m_Content = ''hi'', m_Url = [], m_SendId = a, m_SendName = [],
     m_SendAvatar = [], m_ReceiveId = b, m_FileType = [], m_FileName = [], m_FileSize = [], m_Status = 0, m_CreatedAt = 1,
     m_SendAt = None, m_AVdata = []\<rparr>"

theorem marked_read_has_no_unread_witness:
  "let s = (sample_db [] [sample_session ''S1'' ''U1'' ''U2''])\<lparr>messages := [sample_message ''M1'' ''U2'' ''U1'']\<rparr>;
       before = hd (fst (snd (fst (GetUserSessionList ''U1'' s))));
       after = hd (fst (snd (fst (GetUserSessionList ''U1'' (snd (MarkSessionRead ''U1'' ''U2'' s))))))
   in UnreadCnt before = 1 \<and> PeerId after = ''U2'' \<and> UnreadCnt after = 0"
proof -
  let ?s = "(sample_db [] [sample_session ''S1'' ''U1'' ''U2''])\<lparr>messages := [sample_message ''M1'' ''U2'' ''U1'']\<rparr>"
  let ?l = "fst (snd (fst (GetUserSessionList ''U1'' (snd (MarkSessionRead ''U1'' ''U2'' ?s)))))"
  have "UnreadCnt (hd (fst (snd (fst (GetUserSessionList ''U1'' ?s))))) = 1" "PeerId (hd ?l) = ''U2''" "length ?l = 1" by code_simp+
  moreover from this have "hd ?l \<in> set ?l" by (cases ?l) auto
  moreover have "up ?s" "session_inv ?s" "m \<in> set (messages ?s) \<Longrightarrow> m_CreatedAt m \<le> clock ?s" for m
    by (simp_all add: sample_db_def sample_message_def sample_session_def session_inv_def cache_ok_def)
  ultimately show ?thesis
    using marked_read_has_no_unread[of ?s "''U1''" "''U2''" "hd ?l"] by (simp add: Let_def)
qed

end
