(* ===== verification/Chat_Server.thy ===== *)
theory Chat_Server
  imports Chat_Session
begin

text \<open>
  The chat server (\<open>service/chat_server.go\<close>): connections, the queue of inbound frames and its single consumer, storage and
  fan-out of messages, and the signalling of calls over the call manager. Pointers to clients are numbers into the table
  \<open>conns\<close>. What a goroutine does between two waits is one step, and \<open>server_step\<close> interleaves the steps.
\<close>

section \<open>State\<close>

record ChatMessageRequest =
  r_SessionId :: string
  r_Type :: int8
  r_Content :: string
  r_Url :: string
  r_SendId :: string
  r_SendName :: string
  r_SendAvatar :: string
  r_ReceiveId :: string
  r_FileType :: string
  r_FileName :: string
  r_FileSize :: string
  r_AVdata :: string

text \<open>What goes out on a socket: a text written directly, or a frame taken from \<open>SendBack\<close>.\<close>

datatype wsout = WText string | WFrame MessageListItem

record Client =
  c_Uuid :: string
  SendBack :: "MessageListItem list"
  written :: "wsout list"
  closed :: bool

record inbound =
  senderId :: string
  payload :: string

record chat = chatdb +
  calls :: callManager
  Clients :: "(string, nat) gomap"
  conns :: "nat \<Rightarrow> Client"
  next_conn :: nat
  Transmit :: "inbound list"
  stopped :: bool

text \<open>The parts of \<open>encoding/json\<close> the server needs: a request, the signalling text of a call, and a map of strings.\<close>

record avinfo =
  MessageId :: string
  av_Type :: string
  RoomId :: string

record json =
  dec_req :: "string \<Rightarrow> ChatMessageRequest option"
  dec_av :: "string \<Rightarrow> avinfo"
  enc_map :: "(string \<times> string) list \<Rightarrow> string"

section \<open>Sending\<close>

definition set_conn :: "nat \<Rightarrow> (Client \<Rightarrow> Client) \<Rightarrow> chat \<Rightarrow> chat" where
  "set_conn c f s = s\<lparr>conns := (conns s)(c := f (conns s c))\<rparr>"

definition shutdown :: "nat \<Rightarrow> chat \<Rightarrow> chat" where
  "shutdown c = set_conn c (\<lambda>k. k\<lparr>closed := True\<rparr>)"

definition WriteText :: "nat \<Rightarrow> string \<Rightarrow> chat \<Rightarrow> chat" where
  "WriteText c t = set_conn c (\<lambda>k. if closed k then k else k\<lparr>written := written k @ [WText t]\<rparr>)"

definition online_clients :: "string list \<Rightarrow> chat \<Rightarrow> nat list" where
  "online_clients targets s = List.map_filter (\<lambda>i. gm_get (Clients s) i) targets"

text \<open>The non-blocking sends: a full buffer drops the frame.\<close>

fun deliver :: "MessageListItem \<Rightarrow> nat list \<Rightarrow> chat \<Rightarrow> nat \<times> chat" where
  "deliver f [] s = (0, s)"
| "deliver f (c # cs) s =
     (if length (SendBack (conns s c)) < ChannelSize then
        (let (n, s) = deliver f cs (set_conn c (\<lambda>k. k\<lparr>SendBack := SendBack k @ [f]\<rparr>) s) in (Suc n, s))
      else deliver f cs s)"

definition sendRaw :: "MessageListItem \<Rightarrow> string list \<Rightarrow> chat \<Rightarrow> chat" where
  "sendRaw f targets s = snd (deliver f (online_clients targets s) s)"

definition system_item :: "int8 \<Rightarrow> string \<Rightarrow> string \<Rightarrow> string \<Rightarrow> string \<Rightarrow> time \<Rightarrow> MessageListItem" where
  "system_item ty sender receiver content av now = \<lparr>i_Uuid = [], i_SendId = sender, i_SendName = [], i_SendAvatar = [],
     i_ReceiveId = receiver, i_Type = ty, i_Content = content, i_Url = [], i_FileSize = [], i_FileName = [], i_FileType = [],
     i_CreatedAt = Some now, i_AVdata = av\<rparr>"

definition PushSystem :: "string \<Rightarrow> string list \<Rightarrow> chat \<Rightarrow> chat" where
  "PushSystem topic uuids s =
     (if uuids = [] then s else sendRaw (system_item MessageSystem ''SYSTEM'' [] topic [] (clock s)) uuids s)"

definition BroadcastSystem :: "string \<Rightarrow> string \<Rightarrow> chat \<Rightarrow> chat" where
  "BroadcastSystem topic exclude s = PushSystem topic (filter (\<lambda>u. u \<noteq> exclude) (map fst (Clients s))) s"

section \<open>Connections\<close>

definition register :: "nat \<Rightarrow> chat \<Rightarrow> chat" where
  "register c s =
     (let uuid = c_Uuid (conns s c);
          old = gm_get (Clients s) uuid;
          s = s\<lparr>Clients := gm_set uuid c (Clients s)\<rparr>;
          s = (case old of None \<Rightarrow> s | Some prev \<Rightarrow> shutdown prev s);
          s = WriteText c ''welcome to swifty chat'' s
      in if old = None then
           snd (update_docs user_infos_update (\<lambda>d. u_Uuid d = uuid) (\<lambda>d. d\<lparr>u_LastOnlineAt := Some (clock s)\<rparr>)
             (BroadcastSystem NotifyOnline uuid s))
         else s)"

definition unregister :: "json \<Rightarrow> nat \<Rightarrow> chat \<Rightarrow> chat" where
  "unregister J c s =
     (let uuid = c_Uuid (conns s c);
          removed = (gm_get (Clients s) uuid = Some c);
          s = (if removed then s\<lparr>Clients := gm_del uuid (Clients s)\<rparr> else s);
          s = shutdown c s
      in if removed then
           (let ((roomId, remaining), m) = Leave uuid (calls s);
                s = s\<lparr>calls := m\<rparr>;
                s = (if roomId \<noteq> [] \<and> remaining \<noteq> [] then
                       sendRaw (system_item MessageAudioOrVideo uuid roomId []
                         (enc_map J [(''messageId'', ''PROXY''), (''room_id'', roomId), (''type'', ''leave_call'')]) (clock s)) remaining s
                     else s);
                s = BroadcastSystem NotifyOnline uuid s
            in snd (update_docs user_infos_update (\<lambda>d. u_Uuid d = uuid) (\<lambda>d. d\<lparr>u_LastOfflineAt := Some (clock s)\<rparr>) s))
         else s)"

definition NewClientInit :: "string \<Rightarrow> chat \<Rightarrow> chat" where
  "NewClientInit clientId s =
     (let c = next_conn s;
          s = s\<lparr>conns := (conns s)(c := \<lparr>c_Uuid = clientId, SendBack = [], written = [], closed = False\<rparr>), next_conn := Suc c\<rparr>
      in register c s)"

definition ClientLogout :: "json \<Rightarrow> string \<Rightarrow> chat \<Rightarrow> (string \<times> int) \<times> chat" where
  "ClientLogout J clientId s =
     ((''logout successful'', 0), case gm_get (Clients s) clientId of None \<Rightarrow> s | Some c \<Rightarrow> unregister J c s)"

text \<open>\<open>OnMessage\<close> of \<open>clientRead\<close> for a text frame, and the two outcomes of a write in \<open>clientWrite\<close>.\<close>

definition client_message :: "nat \<Rightarrow> string \<Rightarrow> chat \<Rightarrow> chat" where
  "client_message c data s =
     (if length (Transmit s) < ChannelSize
      then s\<lparr>Transmit := Transmit s @ [\<lparr>senderId = c_Uuid (conns s c), payload = data\<rparr>]\<rparr>
      else WriteText c ''{\"type\":-1,\"send_id\":\"\",\"receive_id\":\"\",\"content\":\"message send failed, please retry\"}'' s)"

definition client_write :: "json \<Rightarrow> nat \<Rightarrow> bool \<Rightarrow> chat \<Rightarrow> chat" where
  "client_write J c ok s = (case SendBack (conns s c) of
     [] \<Rightarrow> s
   | f # fs \<Rightarrow>
       let s = set_conn c (\<lambda>k. k\<lparr>SendBack := fs\<rparr>) s
       in if ok then set_conn c (\<lambda>k. k\<lparr>written := written k @ [WFrame f]\<rparr>) s else unregister J c s)"

definition GetOnlineUserList :: "chat \<Rightarrow> string list" where
  "GetOnlineUserList s = map fst (Clients s)"

definition IsOnline :: "string \<Rightarrow> chat \<Rightarrow> bool" where
  "IsOnline uuid s \<longleftrightarrow> gm_get (Clients s) uuid \<noteq> None"

section \<open>Messages\<close>

definition markSent :: "string \<Rightarrow> chat \<Rightarrow> chat" where
  "markSent uuid s = snd (update_docs messages_update (\<lambda>d. m_Uuid d = uuid)
     (\<lambda>d. d\<lparr>m_Status := MessageSent, m_SendAt := Some (clock s)\<rparr>) s)"

definition relay_item :: "ChatMessageRequest \<Rightarrow> Message \<Rightarrow> MessageListItem" where
  "relay_item req msg = \<lparr>i_Uuid = m_Uuid msg, i_SendId = m_SendId msg, i_SendName = m_SendName msg,
     i_SendAvatar = r_SendAvatar req, i_ReceiveId = m_ReceiveId msg, i_Type = m_Type msg, i_Content = m_Content msg,
     i_Url = m_Url msg, i_FileSize = m_FileSize msg, i_FileName = m_FileName msg, i_FileType = m_FileType msg,
     i_CreatedAt = Some (m_CreatedAt msg), i_AVdata = m_AVdata msg\<rparr>"

definition fan_out :: "ChatMessageRequest \<Rightarrow> Message \<Rightarrow> string list \<Rightarrow> chat \<Rightarrow> chat" where
  "fan_out req msg targets s =
     (let rsp = (relay_item req msg)\<lparr>i_AVdata := (if m_Type msg = MessageAudioOrVideo then m_AVdata msg else [])\<rparr>;
          (delivered, s) = deliver rsp (online_clients targets s) s
      in if delivered > 0 \<and> m_Type msg \<noteq> MessageAudioOrVideo then markSent (m_Uuid msg) s else s)"

definition broadcast :: "ChatMessageRequest \<Rightarrow> Message \<Rightarrow> bool \<Rightarrow> chat \<Rightarrow> chat" where
  "broadcast req msg echoToSender s =
     (if m_ReceiveId msg = [] then s
      else if m_ReceiveId msg ! 0 = CHR ''U'' then
        fan_out req msg (m_ReceiveId msg # (if echoToSender \<and> m_SendId msg \<noteq> m_ReceiveId msg then [m_SendId msg] else [])) s
      else if m_ReceiveId msg ! 0 = CHR ''G'' then
        (let (r, s) = first_doc group_infos (active_group (m_ReceiveId msg)) s in case r of
           Inl _ \<Rightarrow> s
         | Inr grp \<Rightarrow>
             (let s = (if m_Type msg \<noteq> MessageAudioOrVideo then touchGroupSessions grp s else s)
              in fan_out req msg (filter (\<lambda>x. \<not> (\<not> echoToSender \<and> x = m_SendId msg)) (g_Members grp)) s))
      else s)"

definition sendAVToUsers :: "ChatMessageRequest \<Rightarrow> Message \<Rightarrow> string list \<Rightarrow> chat \<Rightarrow> chat" where
  "sendAVToUsers req msg targets s = (if targets = [] then s else sendRaw (relay_item req msg) targets s)"

definition sendCallFailed :: "json \<Rightarrow> string \<Rightarrow> string \<Rightarrow> string \<Rightarrow> chat \<Rightarrow> chat" where
  "sendCallFailed J uuid roomId reason s =
     sendRaw (system_item MessageAudioOrVideo ''SYSTEM'' uuid []
       (enc_map J [(''messageId'', ''PROXY''), (''reason'', reason), (''room_id'', roomId), (''type'', ''call_failed'')]) (clock s)) [uuid] s"

section \<open>Calls\<close>

definition call_join :: "string \<Rightarrow> string \<Rightarrow> chat \<Rightarrow> chat" where
  "call_join roomId uuid s = s\<lparr>calls := snd (Join roomId uuid (calls s))\<rparr>"

definition call_leave :: "string \<Rightarrow> chat \<Rightarrow> (string \<times> string list) \<times> chat" where
  "call_leave uuid s = (let (r, m) = Leave uuid (calls s) in (r, s\<lparr>calls := m\<rparr>))"

definition call_candidates :: "string \<Rightarrow> GroupInfo \<Rightarrow> chat \<Rightarrow> string list" where
  "call_candidates caller grp s =
     filter (\<lambda>x. x \<noteq> caller \<and> IsOnline x s \<and> \<not> IsBusy (calls s) x) (g_Members grp)"

definition handleStartCall :: "json \<Rightarrow> ChatMessageRequest \<Rightarrow> Message \<Rightarrow> string \<Rightarrow> chat \<Rightarrow> chat" where
  "handleStartCall J req msg roomId s =
     (let caller = m_SendId msg; callee = m_ReceiveId msg in
      if IsBusy (calls s) caller \<and> \<not> InRoom (calls s) roomId caller
      then sendCallFailed J caller roomId ''you are already in a call'' s
      else if starts_with CHR ''U'' callee then
        (if \<not> IsOnline callee s then sendCallFailed J caller roomId ''the other user is offline'' s
         else if IsBusy (calls s) callee then sendCallFailed J caller roomId ''the other user is in a call'' s
         else broadcast req msg False (call_join roomId caller s))
      else if starts_with CHR ''G'' callee then
        (let (r, s) = first_doc group_infos (active_group callee) s in case r of
           Inl _ \<Rightarrow> sendCallFailed J caller roomId ''group not found'' s
         | Inr grp \<Rightarrow>
             (let alreadyActive = (Members roomId (calls s) \<noteq> []);
                  candidates = call_candidates caller grp s
              in if caller \<notin> set (g_Members grp) then sendCallFailed J caller roomId ''you are not a member of this group'' s
                 else if candidates = [] \<and> \<not> alreadyActive then sendCallFailed J caller roomId ''no one is available for the call'' s
                 else sendAVToUsers req msg candidates (call_join roomId caller s)))
      else s)"

text \<open>The switch of \<open>handleAVMessage\<close> on the kind of signal.\<close>

definition av_dispatch :: "json \<Rightarrow> ChatMessageRequest \<Rightarrow> Message \<Rightarrow> avinfo \<Rightarrow> string \<Rightarrow> chat \<Rightarrow> chat" where
  "av_dispatch J req msg av roomId s =
     (let proxy = (MessageId av = ''PROXY'') in
      if proxy \<and> av_Type av = ''start_call'' then handleStartCall J req msg roomId s
      else if proxy \<and> av_Type av = ''receive_call'' then broadcast req msg False (call_join roomId (m_SendId msg) s)
      else if proxy \<and> av_Type av = ''join_call'' then
        (let others = GetCallers roomId (m_SendId msg) (calls s)
         in sendAVToUsers req msg others (call_join roomId (m_SendId msg) s))
      else if proxy \<and> av_Type av = ''reject_call'' then
        (if starts_with CHR ''U'' (m_ReceiveId msg) then
           broadcast req msg False (fold (\<lambda>u s. snd (call_leave u s)) (Members roomId (calls s)) s)
         else s)
      else if MessageId av = ''PEER_LEAVE'' \<or> (proxy \<and> av_Type av = ''leave_call'') then
        (let ((leftRoom, remaining), s) = call_leave (m_SendId msg) s;
             s = (if leftRoom \<noteq> [] then sendAVToUsers req msg remaining s else s)
         in if starts_with CHR ''U'' (m_ReceiveId msg) \<and> \<not> (leftRoom \<noteq> [] \<and> m_ReceiveId msg \<in> set remaining)
            then broadcast req msg False s else s)
      else broadcast req msg False s)"

definition handleAVMessage :: "json \<Rightarrow> ChatMessageRequest \<Rightarrow> Message \<Rightarrow> chat \<Rightarrow> chat" where
  "handleAVMessage J req msg s =
     (let av = dec_av J (r_AVdata req);
          s = (if MessageId av = ''PROXY'' \<and> av_Type av \<in> {''start_call'', ''receive_call'', ''reject_call''}
               then snd (insert_message msg s) else s);
          roomId = (if RoomId av = [] then CallRoomId (m_SendId msg) (m_ReceiveId msg) else RoomId av)
      in av_dispatch J req msg av roomId s)"

section \<open>Inbound frames\<close>

definition resolveSender :: "string \<Rightarrow> ChatMessageRequest \<Rightarrow> chat \<Rightarrow> ChatMessageRequest \<times> chat" where
  "resolveSender uuid req s = (let (u, s) = user_cache_get uuid s in
     ((case u of None \<Rightarrow> req | Some user \<Rightarrow> req\<lparr>r_SendName := u_Nickname user, r_SendAvatar := u_Avatar user\<rparr>), s))"

definition build_message :: "ChatMessageRequest \<Rightarrow> string \<Rightarrow> time \<Rightarrow> Message" where
  "build_message req uuid now = \<lparr>m_Uuid = uuid, m_SessionId = r_SessionId req, m_Type = r_Type req, m_Content = r_Content req,
     m_Url = r_Url req, m_SendId = r_SendId req, m_SendName = r_SendName req, m_SendAvatar = r_SendAvatar req,
     m_ReceiveId = r_ReceiveId req, m_FileType = r_FileType req, m_FileName = r_FileName req, m_FileSize = r_FileSize req,
     m_Status = MessageUnsent, m_CreatedAt = now, m_SendAt = None, m_AVdata = r_AVdata req\<rparr>"

text \<open>\<open>handleMessage\<close> after the message is built.\<close>

definition handle_request :: "json \<Rightarrow> ChatMessageRequest \<Rightarrow> Message \<Rightarrow> chat \<Rightarrow> chat" where
  "handle_request J req msg s =
     (if r_Type req = MessageAudioOrVideo then handleAVMessage J req msg s
      else (let (ok, s) = insert_message msg s in
            if \<not> ok then s
            else (let s = (if starts_with CHR ''U'' (m_ReceiveId msg) then touchDirectSessions (m_SendId msg) (m_ReceiveId msg) s else s)
                  in broadcast req msg True s)))"

definition handleMessage :: "json \<Rightarrow> inbound \<Rightarrow> chat \<Rightarrow> chat" where
  "handleMessage J d s = (case dec_req J (payload d) of
     None \<Rightarrow> s
   | Some req \<Rightarrow>
       let req = req\<lparr>r_SendId := senderId d\<rparr>;
           (req, s) = resolveSender (senderId d) req s;
           (r, s) = draw s
       in handle_request J req (build_message req (''M'' @ r) (clock s)) s)"

text \<open>The two cases of the loop in \<open>Start\<close>.\<close>

definition handle_next :: "json \<Rightarrow> chat \<Rightarrow> chat" where
  "handle_next J s = (case Transmit s of [] \<Rightarrow> s | d # ds \<Rightarrow> handleMessage J d (s\<lparr>Transmit := ds\<rparr>))"

definition stop_server :: "chat \<Rightarrow> chat" where
  "stop_server s = fold shutdown (map snd (Clients s)) (s\<lparr>Clients := [], stopped := True\<rparr>)"

section \<open>The database calls leave the server alone\<close>

lemma more_call [simp]: "chatdb.more (snd (call s)) = chatdb.more s"
  by (auto simp: call_def split: list.splits)

lemma more_draw [simp]: "chatdb.more (snd (draw s)) = chatdb.more s"
  by (simp add: draw_def)

lemma more_find [simp]:
  "chatdb.more (snd (find_docs get P s)) = chatdb.more s" "chatdb.more (snd (first_doc get P s)) = chatdb.more s"
  by (simp_all add: find_docs_def first_doc_def case_prod_beta)

lemma more_update [simp]:
  "chatdb.more (snd (update_docs sessions_update P f s)) = chatdb.more s"
  "chatdb.more (snd (update_docs messages_update P' f' s)) = chatdb.more s"
  "chatdb.more (snd (update_docs user_infos_update Q g s)) = chatdb.more s"
  by (simp_all add: update_docs_def case_prod_beta)

lemma more_insert [simp]:
  "chatdb.more (snd (insert_sessions ds s)) = chatdb.more s" "chatdb.more (snd (insert_message d s)) = chatdb.more s"
  by (simp_all add: insert_docs_def case_prod_beta)

lemma more_cache [simp]: "chatdb.more (session_cache_del k s) = chatdb.more s" "chatdb.more (fold session_cache_del ks s) = chatdb.more s"
  by (simp_all add: session_cache_del_def fold_session_cache_del)

lemma more_user_cache [simp]: "chatdb.more (snd (user_cache_get k s)) = chatdb.more s"
  by (auto simp: user_cache_get_def case_prod_beta Let_def split: option.splits sum.splits)

lemma more_createSession [simp]: "chatdb.more (snd (createSession a b s)) = chatdb.more s"
  by (auto simp: createSession_def peer_profile_def case_prod_beta Let_def split: option.splits)

lemma more_ensure [simp]: "chatdb.more (ensurePeerSession a b s) = chatdb.more s"
  by (simp add: ensurePeerSession_def case_prod_beta Let_def split: sum.split dberr.split)

lemma more_touch [simp]: "chatdb.more (touchDirectSessions a b s) = chatdb.more s"
  by (simp add: touchDirectSessions_def)

lemma more_touch_loop [simp]: "chatdb.more (snd (touch_loop g found ms s)) = chatdb.more s"
  by (induction ms arbitrary: s) (auto simp: case_prod_beta Let_def split: option.split)

lemma more_touch_group [simp]: "chatdb.more (touchGroupSessions g s) = chatdb.more s"
  by (simp add: touchGroupSessions_def case_prod_beta Let_def split: option.split)

text \<open>So none of the fields of the server change.\<close>

lemma server_fields:
  assumes "chatdb.more (s :: chat) = chatdb.more t"
  shows "calls s = calls t" "Clients s = Clients t" "conns s = conns t" "next_conn s = next_conn t" "Transmit s = Transmit t"
    "stopped s = stopped t"
  using assms by (cases s; cases t; simp)+

lemmas more_simps = more_draw more_find more_update more_insert more_user_cache more_touch more_touch_group

lemmas server_frame [simp] = more_simps[THEN server_fields(1)] more_simps[THEN server_fields(2)] more_simps[THEN server_fields(3)]
  more_simps[THEN server_fields(4)] more_simps[THEN server_fields(5)] more_simps[THEN server_fields(6)]

section \<open>Deliveries touch buffers only\<close>

lemma set_conn_fields [simp]:
  "calls (set_conn c f s) = calls s" "Clients (set_conn c f s) = Clients s" "Transmit (set_conn c f s) = Transmit s"
  "next_conn (set_conn c f s) = next_conn s" "stopped (set_conn c f s) = stopped s" "messages (set_conn c f s) = messages s"
  "sessions (set_conn c f s) = sessions s" "faults (set_conn c f s) = faults s" "clock (set_conn c f s) = clock s"
  by (simp_all add: set_conn_def)

lemma deliver_fields [simp]:
  "calls (snd (deliver f cs s)) = calls s" "Clients (snd (deliver f cs s)) = Clients s" "Transmit (snd (deliver f cs s)) = Transmit s"
  "next_conn (snd (deliver f cs s)) = next_conn s" "stopped (snd (deliver f cs s)) = stopped s"
  "messages (snd (deliver f cs s)) = messages s" "sessions (snd (deliver f cs s)) = sessions s"
  "faults (snd (deliver f cs s)) = faults s" "clock (snd (deliver f cs s)) = clock s"
  by (induction cs arbitrary: s) (simp_all add: case_prod_beta Let_def)

lemma room_left: "l < C \<Longrightarrow> f # replicate (min n (C - Suc l)) f = replicate (min (Suc n) (C - l)) f"
  by (simp add: min_def flip: replicate_Suc) (metis Suc_diff_Suc Suc_le_mono)

lemma deliver_conns:
  "conns (snd (deliver f cs s)) c =
     (conns s c)\<lparr>SendBack := SendBack (conns s c) @ replicate (min (count_list cs c) (ChannelSize - length (SendBack (conns s c)))) f\<rparr>"
  by (induction cs arbitrary: s) (auto simp: case_prod_beta Let_def set_conn_def room_left)

lemma send_fields [simp]:
  "calls (sendRaw f ts s) = calls s" "Clients (sendRaw f ts s) = Clients s" "Transmit (sendRaw f ts s) = Transmit s"
  "next_conn (sendRaw f ts s) = next_conn s" "stopped (sendRaw f ts s) = stopped s" "messages (sendRaw f ts s) = messages s"
  by (simp_all add: sendRaw_def)

lemma push_fields [simp]:
  "calls (PushSystem t us s) = calls s" "Clients (PushSystem t us s) = Clients s" "Transmit (PushSystem t us s) = Transmit s"
  "next_conn (PushSystem t us s) = next_conn s" "stopped (PushSystem t us s) = stopped s" "messages (PushSystem t us s) = messages s"
  by (simp_all add: PushSystem_def)

lemma broadcast_system_fields [simp]:
  "calls (BroadcastSystem t u s) = calls s" "Clients (BroadcastSystem t u s) = Clients s" "Transmit (BroadcastSystem t u s) = Transmit s"
  "next_conn (BroadcastSystem t u s) = next_conn s" "stopped (BroadcastSystem t u s) = stopped s"
  by (simp_all add: BroadcastSystem_def)

lemma fan_out_fields [simp]:
  "calls (fan_out q m ts s) = calls s" "Clients (fan_out q m ts s) = Clients s" "Transmit (fan_out q m ts s) = Transmit s"
  "next_conn (fan_out q m ts s) = next_conn s" "stopped (fan_out q m ts s) = stopped s"
  by (simp_all add: fan_out_def markSent_def case_prod_beta Let_def)

lemma broadcast_fields [simp]:
  "calls (broadcast q m e s) = calls s" "Clients (broadcast q m e s) = Clients s" "Transmit (broadcast q m e s) = Transmit s"
  "next_conn (broadcast q m e s) = next_conn s" "stopped (broadcast q m e s) = stopped s"
  by (simp_all add: broadcast_def case_prod_beta Let_def split: sum.split)

lemma av_fields [simp]:
  "calls (sendAVToUsers q m ts s) = calls s" "Clients (sendAVToUsers q m ts s) = Clients s"
  "next_conn (sendAVToUsers q m ts s) = next_conn s" "stopped (sendAVToUsers q m ts s) = stopped s"
  "calls (sendCallFailed J u r t s) = calls s" "Clients (sendCallFailed J u r t s) = Clients s"
  "next_conn (sendCallFailed J u r t s) = next_conn s" "stopped (sendCallFailed J u r t s) = stopped s"
  "messages (sendAVToUsers q m ts s) = messages s" "messages (sendCallFailed J u r t s) = messages s"
  by (simp_all add: sendAVToUsers_def sendCallFailed_def)

lemma call_fields [simp]:
  "Clients (call_join r u s) = Clients s" "conns (call_join r u s) = conns s" "next_conn (call_join r u s) = next_conn s"
  "stopped (call_join r u s) = stopped s" "messages (call_join r u s) = messages s" "calls (call_join r u s) = snd (Join r u (calls s))"
  "Clients (snd (call_leave u s)) = Clients s" "conns (snd (call_leave u s)) = conns s" "next_conn (snd (call_leave u s)) = next_conn s"
  "stopped (snd (call_leave u s)) = stopped s" "messages (snd (call_leave u s)) = messages s"
  "calls (snd (call_leave u s)) = snd (Leave u (calls s))" "fst (call_leave u s) = fst (Leave u (calls s))"
  by (simp_all add: call_join_def call_leave_def case_prod_beta)

lemma fold_leave_fields [simp]:
  "Clients (fold (\<lambda>u s. snd (call_leave u s)) us s) = Clients s" "conns (fold (\<lambda>u s. snd (call_leave u s)) us s) = conns s"
  "next_conn (fold (\<lambda>u s. snd (call_leave u s)) us s) = next_conn s" "stopped (fold (\<lambda>u s. snd (call_leave u s)) us s) = stopped s"
  "messages (fold (\<lambda>u s. snd (call_leave u s)) us s) = messages s"
  "calls (fold (\<lambda>u s. snd (call_leave u s)) us s) = fold (\<lambda>u m. snd (Leave u m)) us (calls s)"
  by (induction us arbitrary: s) simp_all

section \<open>Who a frame may name as its sender\<close>

text \<open>\<open>grows P s s'\<close>: between \<open>s\<close> and \<open>s'\<close> every buffer only gained frames that satisfy \<open>P\<close>.\<close>

definition grows :: "(MessageListItem \<Rightarrow> bool) \<Rightarrow> chat \<Rightarrow> chat \<Rightarrow> bool" where
  "grows P s s' \<longleftrightarrow> (\<forall>c. \<exists>fs. conns s' c = (conns s c)\<lparr>SendBack := SendBack (conns s c) @ fs\<rparr> \<and> list_all P fs)"

lemma grows_same [simp]: "conns s' = conns s \<Longrightarrow> grows P s s'"
  by (auto simp: grows_def intro: exI[of _ "[]"])

lemma grows_conns: "conns s1 = conns s2 \<Longrightarrow> conns t1 = conns t2 \<Longrightarrow> grows P s1 t1 = grows P s2 t2"
  by (simp add: grows_def)

lemma grows_deliver: "P f \<Longrightarrow> grows P s (snd (deliver f cs s))"
  unfolding grows_def deliver_conns by (auto simp: list_all_iff)

lemma grows_send [simp]: "P f \<Longrightarrow> grows P s (sendRaw f ts s)"
  by (simp add: sendRaw_def grows_deliver)

lemma grows_trans:
  assumes "grows P s t" "grows P t u"
  shows "grows P s u"
  unfolding grows_def
proof
  fix c
  obtain fs where "conns t c = (conns s c)\<lparr>SendBack := SendBack (conns s c) @ fs\<rparr>" "list_all P fs"
    using assms(1) unfolding grows_def by blast
  moreover obtain gs where "conns u c = (conns t c)\<lparr>SendBack := SendBack (conns t c) @ gs\<rparr>" "list_all P gs"
    using assms(2) unfolding grows_def by blast
  ultimately show "\<exists>fs. conns u c = (conns s c)\<lparr>SendBack := SendBack (conns s c) @ fs\<rparr> \<and> list_all P fs"
    by (intro exI[of _ "fs @ gs"]) simp
qed

definition from_sender :: "string \<Rightarrow> MessageListItem \<Rightarrow> bool" where
  "from_sender u f \<longleftrightarrow> i_SendId f = u \<or> i_SendId f = ''SYSTEM''"

lemma grows_start: "conns t = conns s \<Longrightarrow> grows P t u \<Longrightarrow> grows P s u"
  by (simp add: grows_def)

lemma grows_fan_out:
  assumes "m_SendId msg = u"
  shows "grows (from_sender u) s (fan_out req msg ts s)"
proof -
  let ?f = "(relay_item req msg)\<lparr>i_AVdata := (if m_Type msg = MessageAudioOrVideo then m_AVdata msg else [])\<rparr>"
  have "grows (from_sender u) s (snd (deliver ?f (online_clients ts s) s))"
    by (rule grows_deliver) (simp add: from_sender_def relay_item_def assms)
  moreover have "conns (fan_out req msg ts s) = conns (snd (deliver ?f (online_clients ts s) s))"
    by (simp add: fan_out_def markSent_def case_prod_beta Let_def)
  ultimately show ?thesis by (simp add: grows_def)
qed

lemma grows_broadcast:
  assumes "m_SendId msg = u"
  shows "grows (from_sender u) s (broadcast req msg e s)"
proof -
  have "grows (from_sender u) s (fan_out req msg ts t)" if "conns t = conns s" for ts t
    using grows_fan_out[OF assms] that by (metis grows_start)
  then show ?thesis
    by (auto simp: broadcast_def case_prod_beta Let_def split: sum.split)
qed

lemma grows_av:
  assumes "m_SendId msg = u"
  shows "grows (from_sender u) s (sendAVToUsers req msg ts s)" "grows (from_sender u) s (sendCallFailed J x r t s)"
  using assms by (simp_all add: sendAVToUsers_def sendCallFailed_def from_sender_def relay_item_def system_item_def)

lemma grows_start_call:
  assumes "m_SendId msg = u"
  shows "grows (from_sender u) s (handleStartCall J req msg roomId s)"
proof -
  have b: "grows (from_sender u) s (broadcast req msg e t)" if "conns t = conns s" for t e
    using grows_broadcast[OF assms] that by (metis grows_start)
  have a: "grows (from_sender u) s (sendAVToUsers req msg ts t)" "grows (from_sender u) s (sendCallFailed J x r y t)"
    if "conns t = conns s" for t ts x r y
    using grows_av[OF assms] that by (metis grows_start)+
  show ?thesis
    by (auto simp: handleStartCall_def case_prod_beta Let_def a b split: sum.split)
qed

lemma grows_dispatch:
  assumes "m_SendId msg = u"
  shows "grows (from_sender u) s (av_dispatch J req msg av r s)"
proof -
  have b: "grows (from_sender u) s (broadcast req msg e t)" if "grows (from_sender u) s t" for t e
    using grows_broadcast[OF assms] that grows_trans by blast
  have a: "grows (from_sender u) s (sendAVToUsers req msg ts t)" if "conns t = conns s" for t ts
    using grows_av[OF assms] that by (metis grows_start)
  have c: "grows (from_sender u) s (handleStartCall J req msg r t)" if "conns t = conns s" for t r
    using grows_start_call[OF assms] that by (metis grows_start)
  show ?thesis
    by (simp add: av_dispatch_def case_prod_beta Let_def a b c)
qed

lemma grows_handle_av:
  assumes "m_SendId msg = u"
  shows "grows (from_sender u) s (handleAVMessage J req msg s)"
  unfolding handleAVMessage_def Let_def by (rule grows_start[OF _ grows_dispatch[OF assms]]) simp

text \<open>The senders of the stored messages: a handler adds at most one.\<close>

abbreviation senders :: "chat \<Rightarrow> string list" where
  "senders s \<equiv> map m_SendId (messages s)"

lemma senders_change: "(\<And>d. m_SendId (f d) = m_SendId d) \<Longrightarrow> map m_SendId (change P f l) = map m_SendId l"
  by (simp add: change_def)

lemma senders_call [simp]: "messages (snd (call s)) = messages s"
  by (auto simp: call_def split: list.splits)

lemma senders_markSent [simp]: "senders (markSent i s) = senders s"
  by (simp add: markSent_def update_docs_def case_prod_beta senders_change)

lemma senders_fan_out [simp]: "senders (fan_out q m ts s) = senders s"
  by (simp add: fan_out_def case_prod_beta Let_def)

lemma messages_db [simp]:
  "messages (snd (first_doc get P s)) = messages s" "messages (snd (find_docs get' P' s)) = messages s"
  "messages (snd (draw s)) = messages s" "messages (snd (user_cache_get k s)) = messages s"
  "messages (session_cache_del k s) = messages s" "messages (fold session_cache_del ks s) = messages s"
  "messages (snd (insert_sessions ds s)) = messages s" "messages (snd (update_docs sessions_update Q f s)) = messages s"
  by (auto simp: first_doc_def find_docs_def draw_def user_cache_get_def session_cache_del_def fold_session_cache_del insert_docs_def
      update_docs_def case_prod_beta Let_def split: option.splits sum.splits)

lemma messages_createSession [simp]: "messages (snd (createSession a b s)) = messages s"
  by (simp add: createSession_def peer_profile_def case_prod_beta Let_def split: option.split)

lemma messages_ensure [simp]: "messages (ensurePeerSession a b s) = messages s"
  by (simp add: ensurePeerSession_def case_prod_beta Let_def split: sum.split dberr.split)

lemma messages_touch [simp]: "messages (touchDirectSessions a b s) = messages s"
  by (simp add: touchDirectSessions_def)

lemma messages_touch_loop [simp]: "messages (snd (touch_loop g found ms s)) = messages s"
  by (induction ms arbitrary: s) (auto simp: case_prod_beta Let_def split: option.split)

lemma messages_touch_group [simp]: "messages (touchGroupSessions g s) = messages s"
  by (simp add: touchGroupSessions_def case_prod_beta Let_def split: option.split)

lemma senders_broadcast [simp]: "senders (broadcast q m e s) = senders s"
  by (simp add: broadcast_def case_prod_beta Let_def split: sum.split)

lemma senders_start_call [simp]: "senders (handleStartCall J q m r s) = senders s"
  by (simp add: handleStartCall_def case_prod_beta Let_def split: sum.split)

lemma senders_insert: "senders (snd (insert_message m s)) \<in> {senders s, senders s @ [m_SendId m]}"
  by (simp add: insert_docs_def case_prod_beta)

lemma senders_dispatch [simp]: "senders (av_dispatch J q m av r s) = senders s"
  by (simp add: av_dispatch_def case_prod_beta Let_def)

lemma senders_handle_av: "senders (handleAVMessage J q m s) \<in> {senders s, senders s @ [m_SendId m]}"
  using senders_insert[of m s] by (simp add: handleAVMessage_def case_prod_beta Let_def)

lemma resolve_sender [simp]: "r_SendId (fst (resolveSender u q s)) = r_SendId q" "conns (snd (resolveSender u q s)) = conns s"
  "messages (snd (resolveSender u q s)) = messages s" "r_Type (fst (resolveSender u q s)) = r_Type q"
  "r_ReceiveId (fst (resolveSender u q s)) = r_ReceiveId q"
  by (simp_all add: resolveSender_def case_prod_beta split: option.split)

lemma build_sender [simp]: "m_SendId (build_message q i t) = r_SendId q" "m_ReceiveId (build_message q i t) = r_ReceiveId q"
  "m_Uuid (build_message q i t) = i" "m_Type (build_message q i t) = r_Type q"
  by (simp_all add: build_message_def)

lemma request_senders: "senders (handle_request J q m s) \<in> {senders s, senders s @ [m_SendId m]}"
  using senders_insert[of m s] senders_handle_av[of J q m s] by (simp add: handle_request_def case_prod_beta Let_def)

lemma request_frames:
  assumes "m_SendId m = u"
  shows "grows (from_sender u) s (handle_request J q m s)"
proof -
  have b: "grows (from_sender u) s (broadcast q m e t)" if "conns t = conns s" for e t
    using grows_broadcast[OF assms] that by (metis grows_start)
  then show ?thesis
    by (simp add: handle_request_def case_prod_beta Let_def grows_handle_av[OF assms])
qed

lemma handle_senders: "senders (handleMessage J d s) \<in> {senders s, senders s @ [senderId d]}"
proof (cases "dec_req J (payload d)")
  case (Some req)
  let ?r = "resolveSender (senderId d) (req\<lparr>r_SendId := senderId d\<rparr>) s"
  show ?thesis
    using request_senders[of J "fst ?r" "build_message (fst ?r) (''M'' @ fst (draw (snd ?r))) (clock (snd (draw (snd ?r))))" "snd (draw (snd ?r))"]
    by (simp add: handleMessage_def Some case_prod_beta Let_def)
qed (simp add: handleMessage_def)

lemma handle_frames: "grows (from_sender (senderId d)) s (handleMessage J d s)"
proof (cases "dec_req J (payload d)")
  case (Some req)
  let ?r = "resolveSender (senderId d) (req\<lparr>r_SendId := senderId d\<rparr>) s"
  have "grows (from_sender (senderId d)) (snd (draw (snd ?r))) (handleMessage J d s)"
    unfolding handleMessage_def Some by (simp add: case_prod_beta Let_def request_frames)
  then show ?thesis by (rule grows_start[rotated]) simp
qed (simp add: handleMessage_def)

section \<open>The server's invariant\<close>

text \<open>
  A user is in at most one call room, rooms have names, and the connection registered for a user is that user's and open.
\<close>

definition calls_ok :: "callManager \<Rightarrow> bool" where
  "calls_ok m \<longleftrightarrow> call_inv m \<and> (\<forall>u. room_of m u \<noteq> Some [])"

definition server_inv :: "chat \<Rightarrow> bool" where
  "server_inv s \<longleftrightarrow> calls_ok (calls s) \<and> gm_ok (Clients s) \<and>
     (\<forall>u c. gm_get (Clients s) u = Some c \<longrightarrow> c < next_conn s \<and> c_Uuid (conns s c) = u \<and> \<not> closed (conns s c))"

lemma Join_calls_ok: "calls_ok m \<Longrightarrow> r \<noteq> [] \<Longrightarrow> calls_ok (snd (Join r u m))"
  by (auto simp: calls_ok_def cm.join_inv cm.join_room)

lemma Leave_calls_ok: "calls_ok m \<Longrightarrow> calls_ok (snd (Leave u m))"
  by (auto simp: calls_ok_def cm.leave_inv cm.leave_room)

lemma fold_Leave_calls_ok: "calls_ok m \<Longrightarrow> calls_ok (fold (\<lambda>u m. snd (Leave u m)) us m)"
  using cm.free_list by (auto simp: calls_ok_def)

lemma IsBusy_iff: "calls_ok m \<Longrightarrow> IsBusy m u \<longleftrightarrow> room_of m u \<noteq> None"
  by (auto simp: IsBusy_def calls_ok_def split: option.splits)

lemma start_call_calls: "calls (handleStartCall J q m r s) \<in> {calls s, snd (Join r (m_SendId m) (calls s))}"
  by (simp add: handleStartCall_def case_prod_beta Let_def split: sum.split)

lemma dispatch_calls_ok:
  assumes "calls_ok (calls s)" "r \<noteq> []"
  shows "calls_ok (calls (av_dispatch J q m av r s))"
  using assms start_call_calls[of J q m r s] Join_calls_ok[OF assms]
  by (auto simp: av_dispatch_def case_prod_beta Let_def Leave_calls_ok fold_Leave_calls_ok)

lemma handle_av_calls_ok: "calls_ok (calls s) \<Longrightarrow> calls_ok (calls (handleAVMessage J q m s))"
  unfolding handleAVMessage_def Let_def by (rule dispatch_calls_ok) simp_all

lemma start_call_fields [simp]:
  "Clients (handleStartCall J q m r s) = Clients s" "next_conn (handleStartCall J q m r s) = next_conn s"
  by (simp_all add: handleStartCall_def case_prod_beta Let_def split: sum.split)

lemma dispatch_fields [simp]:
  "Clients (av_dispatch J q m av r s) = Clients s" "next_conn (av_dispatch J q m av r s) = next_conn s"
  by (simp_all add: av_dispatch_def case_prod_beta Let_def)

lemma handle_av_fields [simp]:
  "Clients (handleAVMessage J q m s) = Clients s" "next_conn (handleAVMessage J q m s) = next_conn s"
  by (simp_all add: handleAVMessage_def Let_def)

lemma resolve_fields [simp]:
  "Clients (snd (resolveSender u q s)) = Clients s" "next_conn (snd (resolveSender u q s)) = next_conn s"
  "calls (snd (resolveSender u q s)) = calls s"
  by (simp_all add: resolveSender_def case_prod_beta)

lemma handle_fields [simp]:
  "Clients (handleMessage J d s) = Clients s" "next_conn (handleMessage J d s) = next_conn s"
  by (simp_all add: handleMessage_def handle_request_def case_prod_beta Let_def split: option.split)

lemma handle_calls_ok: "calls_ok (calls s) \<Longrightarrow> calls_ok (calls (handleMessage J d s))"
  by (simp add: handleMessage_def handle_request_def case_prod_beta Let_def handle_av_calls_ok split: option.split)

text \<open>Sending keeps the invariant; it fixes the owner and the state of every connection.\<close>

lemma grows_client: "grows P s s' \<Longrightarrow> c_Uuid (conns s' c) = c_Uuid (conns s c) \<and> closed (conns s' c) = closed (conns s c)"
  unfolding grows_def by (metis (no_types, lifting) Client.select_convs(1,4) Client.surjective Client.update_convs(2))

lemma server_inv_grows:
  assumes "server_inv s" "grows P s s'" "Clients s' = Clients s" "next_conn s' = next_conn s" "calls_ok (calls s')"
  shows "server_inv s'"
  using assms grows_client[OF assms(2)] by (simp add: server_inv_def)

lemma handle_inv: "server_inv s \<Longrightarrow> server_inv (handleMessage J d s)"
  by (rule server_inv_grows[OF _ handle_frames]) (simp_all add: handle_calls_ok server_inv_def)

lemma grows_push: "grows (\<lambda>_. True) s (PushSystem t us s)" "grows (\<lambda>_. True) s (BroadcastSystem t u s)"
  by (simp_all add: PushSystem_def BroadcastSystem_def)

lemma broadcast_inv: "server_inv s \<Longrightarrow> server_inv (BroadcastSystem t u s)"
  by (rule server_inv_grows[OF _ grows_push(2)]) (simp_all add: server_inv_def)

lemma db_inv: "server_inv s \<Longrightarrow> chatdb.more s' = chatdb.more s \<Longrightarrow> server_inv s'"
  using server_fields[of s' s] by (simp add: server_inv_def)

lemma update_user_inv: "server_inv s \<Longrightarrow> server_inv (snd (update_docs user_infos_update P f s))"
  by (erule db_inv) simp

lemma shutdown_conns: "conns (shutdown c s) = (conns s)(c := (conns s c)\<lparr>closed := True\<rparr>)"
  by (simp add: shutdown_def set_conn_def)

lemma shutdown_fields [simp]: "calls (shutdown c s) = calls s" "Clients (shutdown c s) = Clients s" "next_conn (shutdown c s) = next_conn s"
  by (simp_all add: shutdown_def)

lemma WriteText_inv: "server_inv s \<Longrightarrow> server_inv (WriteText c t s)"
  by (auto simp: server_inv_def WriteText_def set_conn_def)

lemma server_invD:
  assumes "server_inv s"
  shows "calls_ok (calls s)" "gm_ok (Clients s)"
    "gm_get (Clients s) u = Some c \<Longrightarrow> c < next_conn s" "gm_get (Clients s) u = Some c \<Longrightarrow> c_Uuid (conns s c) = u"
    "gm_get (Clients s) u = Some c \<Longrightarrow> \<not> closed (conns s c)"
  using assms by (simp_all add: server_inv_def)

lemma server_invI:
  assumes "calls_ok (calls s)" "gm_ok (Clients s)"
    and "\<And>u c. gm_get (Clients s) u = Some c \<Longrightarrow> c < next_conn s \<and> c_Uuid (conns s c) = u \<and> \<not> closed (conns s c)"
  shows "server_inv s"
  using assms by (simp add: server_inv_def)

text \<open>Closing a connection nobody is registered on.\<close>

lemma shutdown_inv:
  assumes "server_inv s" "\<And>u. gm_get (Clients s) u \<noteq> Some c"
  shows "server_inv (shutdown c s)"
proof (rule server_invI)
  fix u d assume d: "gm_get (Clients (shutdown c s)) u = Some d"
  then have "d \<noteq> c" using assms(2) by auto
  with d show "d < next_conn (shutdown c s) \<and> c_Uuid (conns (shutdown c s) d) = u \<and> \<not> closed (conns (shutdown c s) d)"
    using server_invD(3-5)[OF assms(1), of u d] by (simp add: shutdown_conns)
qed (simp_all add: server_invD assms)

lemma register_inv:
  assumes "server_inv s" "c < next_conn s" "\<not> closed (conns s c)" "\<And>u. gm_get (Clients s) u \<noteq> Some c"
  shows "server_inv (register c s)"
proof -
  let ?u = "c_Uuid (conns s c)"
  let ?s = "case gm_get (Clients s) ?u of None \<Rightarrow> s\<lparr>Clients := gm_set ?u c (Clients s)\<rparr>
    | Some prev \<Rightarrow> shutdown prev (s\<lparr>Clients := gm_set ?u c (Clients s)\<rparr>)"
  have "server_inv (s\<lparr>Clients := gm_set ?u c (Clients s)\<rparr>)"
    using assms(2,3) server_invD[OF assms(1)] by (intro server_invI) (auto split: if_splits)
  moreover have "gm_get (gm_set ?u c (Clients s)) u \<noteq> Some prev" if prev: "gm_get (Clients s) ?u = Some prev" for u prev
  proof (cases "u = ?u")
    case False
    then show ?thesis using server_invD(4)[OF assms(1) prev] server_invD(4)[OF assms(1), of u prev] by auto
  qed (use assms(4)[of ?u] prev in auto)
  ultimately have "server_inv ?s"
    by (cases "gm_get (Clients s) ?u") (simp_all add: shutdown_inv)
  then have "server_inv (WriteText c ''welcome to swifty chat'' ?s)" by (rule WriteText_inv)
  then show ?thesis
    unfolding register_def Let_def by (cases "gm_get (Clients s) ?u") (simp_all add: update_user_inv broadcast_inv)
qed

lemma drop_client_inv:
  assumes "server_inv s"
  shows "server_inv (s\<lparr>Clients := gm_del u (Clients s)\<rparr>)"
proof (rule server_invI)
  fix x d assume "gm_get (Clients (s\<lparr>Clients := gm_del u (Clients s)\<rparr>)) x = Some d"
  then have "gm_get (Clients s) x = Some d" by (simp split: if_splits)
  from server_invD(3-5)[OF assms this] show "d < next_conn (s\<lparr>Clients := gm_del u (Clients s)\<rparr>) \<and>
      c_Uuid (conns (s\<lparr>Clients := gm_del u (Clients s)\<rparr>) d) = x \<and> \<not> closed (conns (s\<lparr>Clients := gm_del u (Clients s)\<rparr>) d)" by simp
qed (simp_all add: server_invD assms)

lemma set_calls_inv: "server_inv s \<Longrightarrow> calls_ok m \<Longrightarrow> server_inv (s\<lparr>calls := m\<rparr>)"
  by (simp add: server_inv_def)

lemma sendRaw_inv: "server_inv s \<Longrightarrow> server_inv (sendRaw f ts s)"
  by (rule server_inv_grows[OF _ grows_send[of "\<lambda>_. True"]]) (simp_all add: server_invD)

lemma unregister_inv:
  assumes "server_inv s"
  shows "server_inv (unregister J c s)"
proof -
  let ?u = "c_Uuid (conns s c)"
  let ?s = "shutdown c (if gm_get (Clients s) ?u = Some c then s\<lparr>Clients := gm_del ?u (Clients s)\<rparr> else s)"
  have "server_inv (if gm_get (Clients s) ?u = Some c then s\<lparr>Clients := gm_del ?u (Clients s)\<rparr> else s)"
    by (simp add: drop_client_inv assms)
  moreover have "gm_get (Clients (if gm_get (Clients s) ?u = Some c then s\<lparr>Clients := gm_del ?u (Clients s)\<rparr> else s)) u \<noteq> Some c" for u
    using server_invD(4)[OF assms, of u c] by auto
  ultimately have "server_inv ?s" by (rule shutdown_inv)
  moreover from this have "server_inv (?s\<lparr>calls := snd (Leave ?u (calls s))\<rparr>)"
    by (rule set_calls_inv) (rule Leave_calls_ok[OF server_invD(1)[OF assms]])
  ultimately show ?thesis
    unfolding unregister_def Let_def case_prod_beta
    by (cases "gm_get (Clients s) ?u = Some c") (simp_all add: update_user_inv broadcast_inv sendRaw_inv)
qed

section \<open>The running server\<close>

text \<open>
  The goroutines interleave in any order; \<open>services\<close> stands for whatever the other services do to the database, and for time
  passing.
\<close>

inductive server_step :: "json \<Rightarrow> chat \<Rightarrow> chat \<Rightarrow> bool" for J where
  connect: "server_step J s (NewClientInit uuid s)"
| message: "c < next_conn s \<Longrightarrow> \<not> closed (conns s c) \<Longrightarrow> server_step J s (client_message c data s)"
| handle: "\<not> stopped s \<Longrightarrow> server_step J s (handle_next J s)"
| flush: "c < next_conn s \<Longrightarrow> server_step J s (client_write J c ok s)"
| gone: "c < next_conn s \<Longrightarrow> server_step J s (unregister J c s)"
| logout: "server_step J s (snd (ClientLogout J uuid s))"
| stop: "server_step J s (stop_server s)"
| services: "chatdb.more s' = chatdb.more s \<Longrightarrow> server_step J s s'"

lemma connect_inv:
  assumes "server_inv s"
  shows "server_inv (NewClientInit uuid s)"
proof -
  let ?s = "s\<lparr>conns := (conns s)(next_conn s := \<lparr>c_Uuid = uuid, SendBack = [], written = [], closed = False\<rparr>), next_conn := Suc (next_conn s)\<rparr>"
  have "server_inv ?s" using assms by (auto simp: server_inv_def less_Suc_eq)
  moreover have "gm_get (Clients s) u \<noteq> Some (next_conn s)" for u using assms by (auto simp: server_inv_def)
  ultimately show ?thesis unfolding NewClientInit_def Let_def by (intro register_inv) simp_all
qed

lemma client_message_inv: "server_inv s \<Longrightarrow> server_inv (client_message c data s)"
  by (auto simp: client_message_def WriteText_inv) (simp add: server_inv_def)

lemma client_write_inv:
  assumes "server_inv s"
  shows "server_inv (client_write J c ok s)"
proof -
  have "server_inv (set_conn c f s)" if "\<And>k. c_Uuid (f k) = c_Uuid k \<and> closed (f k) = closed k" for f
    using assms that by (auto simp: server_inv_def set_conn_def)
  moreover have "set_conn c g (set_conn c f s) = set_conn c (g \<circ> f) s" for f g
    by (simp add: set_conn_def)
  ultimately show ?thesis
    using assms by (simp add: client_write_def Let_def unregister_inv split: list.split)
qed

lemma stop_inv:
  assumes "server_inv s"
  shows "server_inv (stop_server s)"
proof -
  have "server_inv (fold shutdown cs t) \<and> Clients (fold shutdown cs t) = []" if "server_inv t" "Clients t = []" for cs t
    using that by (induction cs arbitrary: t) (auto simp: server_inv_def)
  moreover have "server_inv (s\<lparr>Clients := [], stopped := True\<rparr>)" using assms by (simp add: server_inv_def)
  ultimately show ?thesis by (simp add: stop_server_def)
qed

lemma server_step_inv:
  assumes "server_step J s s'" "server_inv s"
  shows "server_inv s'"
  using assms
proof cases
  case handle
  then show ?thesis
    using handle_inv[of "s\<lparr>Transmit := ds\<rparr>" J d for d ds] assms(2)
    by (auto simp: handle_next_def server_inv_def split: list.split)
next
  case (logout uuid)
  then show ?thesis using assms(2) by (auto simp: ClientLogout_def unregister_inv split: option.split)
next
  case services
  then show ?thesis using assms(2) db_inv by blast
qed (simp_all add: connect_inv client_message_inv client_write_inv unregister_inv stop_inv assms)

section \<open>What the server guarantees\<close>

definition server_starts :: "chat \<Rightarrow> bool" where
  "server_starts s \<longleftrightarrow> calls s = Calls \<and> Clients s = [] \<and> Transmit s = [] \<and> \<not> stopped s"

lemma server_start_inv: "server_starts s \<Longrightarrow> server_inv s"
  by (simp add: server_starts_def server_inv_def calls_ok_def) (simp add: Calls_def)

lemma server_reachable_inv: "(server_step J)\<^sup>*\<^sup>* s0 s \<Longrightarrow> server_starts s0 \<Longrightarrow> server_inv s"
  by (erule steps_invariant[where P = server_inv]) (simp_all add: server_step_inv server_start_inv)

text \<open>C33. In every state the server can reach, whatever the clients send and however its goroutines interleave: a user is in at
  most one call, is busy exactly when it is a member of some room, and the connection registered for a user is open and its own.\<close>

theorem calls_and_presence_consistent:
  assumes "server_starts s0" "(server_step J)\<^sup>*\<^sup>* s0 s"
  shows "(InRoom (calls s) r u \<longrightarrow> InRoom (calls s) r' u \<longrightarrow> r = r') \<and>
    (IsBusy (calls s) u \<longleftrightarrow> (\<exists>r. u \<in> set (Members r (calls s)))) \<and>
    (IsOnline u s \<longrightarrow> (\<exists>c. gm_get (Clients s) u = Some c \<and> c_Uuid (conns s c) = u \<and> \<not> closed (conns s c)))"
proof -
  have inv: "server_inv s" using assms server_reachable_inv by blast
  then have c: "call_inv (calls s)" and ok: "calls_ok (calls s)" by (auto simp: server_inv_def calls_ok_def)
  have "\<exists>c. gm_get (Clients s) u = Some c \<and> c_Uuid (conns s c) = u \<and> \<not> closed (conns s c)" if "IsOnline u s"
    using that server_invD(4,5)[OF inv] unfolding IsOnline_def by (metis option.exhaust)
  then show ?thesis
    by (simp add: InRoom_iff[OF c] IsBusy_iff[OF ok] cm.members_set[OF c])
qed

text \<open>C34. A frame cannot name another sender than the connection it came in on: handling it adds to every buffer only frames sent
  by that user or by the system, and to the messages at most one, of that user.\<close>

theorem sender_is_the_connection:
  "(\<exists>fs. SendBack (conns (handleMessage J d s) c) = SendBack (conns s c) @ fs \<and>
      list_all (\<lambda>f. i_SendId f = senderId d \<or> i_SendId f = ''SYSTEM'') fs) \<and>
   map m_SendId (messages (handleMessage J d s)) \<in> {map m_SendId (messages s), map m_SendId (messages s) @ [senderId d]}"
proof -
  obtain fs where "conns (handleMessage J d s) c = (conns s c)\<lparr>SendBack := SendBack (conns s c) @ fs\<rparr>" "list_all (from_sender (senderId d)) fs"
    using handle_frames[of d s J] unfolding grows_def by blast
  then show ?thesis using handle_senders[of J d s] by (auto simp: from_sender_def list_all_iff)
qed

text \<open>Registering a second connection of a user and losing the first one.\<close>

lemma register_fields [simp]: "calls (register c s) = calls s" "gm_get (Clients (register c s)) = (gm_get (Clients s))(c_Uuid (conns s c) \<mapsto> c)"
  by (auto simp: register_def Let_def WriteText_def split: option.split)

lemma register_conns:
  "c_Uuid (conns (register c s) x) = c_Uuid (conns s x)"
  "gm_get (Clients s) (c_Uuid (conns s c)) = Some x \<Longrightarrow> closed (conns (register c s) x)"
proof -
  have b: "c_Uuid (conns (BroadcastSystem t u s) x) = c_Uuid (conns s x)" for t u s
    using grows_client[OF grows_push(2)] by blast
  show "c_Uuid (conns (register c s) x) = c_Uuid (conns s x)"
    by (simp add: register_def Let_def b WriteText_def set_conn_def shutdown_conns split: option.split)
  show "gm_get (Clients s) (c_Uuid (conns s c)) = Some x \<Longrightarrow> closed (conns (register c s) x)"
    by (simp add: register_def Let_def WriteText_def set_conn_def shutdown_conns)
qed

lemma unregister_stale:
  "gm_get (Clients s) (c_Uuid (conns s c)) \<noteq> Some c \<Longrightarrow> unregister J c s = shutdown c s"
  by (simp add: unregister_def Let_def)

text \<open>A user who connects again stays online and in the call: the old connection is closed, and when its reader notices and
  unregisters it, neither the new connection nor the room is touched.\<close>

theorem reconnect_keeps_the_call:
  assumes "server_inv s" "gm_get (Clients s) u = Some old"
  shows "let t = unregister J old (NewClientInit u s) in
    calls t = calls s \<and> gm_get (Clients t) u = Some (next_conn s) \<and> closed (conns t old) \<and> \<not> closed (conns (NewClientInit u s) (next_conn s))"
proof -
  have old: "old < next_conn s" "c_Uuid (conns s old) = u" using server_invD[OF assms(1)] assms(2) by auto
  let ?c = "\<lparr>c_Uuid = u, SendBack = [], written = [], closed = False\<rparr>"
  let ?s = "s\<lparr>conns := (conns s)(next_conn s := ?c), next_conn := Suc (next_conn s)\<rparr>"
  have reg: "NewClientInit u s = register (next_conn s) ?s" by (simp add: NewClientInit_def Let_def)
  have t: "unregister J old (NewClientInit u s) = shutdown old (NewClientInit u s)"
    by (rule unregister_stale) (use old in \<open>auto simp: reg register_conns\<close>)
  have "\<not> closed (conns (NewClientInit u s) (next_conn s))"
    using server_invD(5)[OF connect_inv[OF assms(1), of u], of u "next_conn s"] by (simp add: reg)
  then show ?thesis
    unfolding t Let_def by (simp add: reg shutdown_conns)
qed

section \<open>Starting a call\<close>

definition may_start :: "Message \<Rightarrow> string \<Rightarrow> chat \<Rightarrow> bool" where
  "may_start msg r s \<longleftrightarrow>
     (room_of (calls s) (m_SendId msg) = None \<or> room_of (calls s) (m_SendId msg) = Some r) \<and>
     (if starts_with CHR ''U'' (m_ReceiveId msg) then IsOnline (m_ReceiveId msg) s \<and> room_of (calls s) (m_ReceiveId msg) = None
      else starts_with CHR ''G'' (m_ReceiveId msg) \<and>
        (case first_in (active_group (m_ReceiveId msg)) (group_infos s) of
           Inl _ \<Rightarrow> False
         | Inr grp \<Rightarrow> m_SendId msg \<in> set (g_Members grp) \<and>
             (call_candidates (m_SendId msg) grp s \<noteq> [] \<or> (\<exists>u. room_of (calls s) u = Some r))))"

lemma Members_Nil: "call_inv m \<Longrightarrow> Members r m = [] \<longleftrightarrow> (\<forall>u. room_of m u \<noteq> Some r)"
  using cm.members_set[of m r] by (auto simp flip: set_empty)


section \<open>Direct messages\<close>

text \<open>The user's connection takes another frame.\<close>

definition accepts :: "string \<Rightarrow> chat \<Rightarrow> bool" where
  "accepts u s \<longleftrightarrow> (\<exists>c. gm_get (Clients s) u = Some c \<and> length (SendBack (conns s c)) < ChannelSize)"

lemma deliver_some: "fst (deliver f cs s) > 0 \<longleftrightarrow> (\<exists>c \<in> set cs. length (SendBack (conns s c)) < ChannelSize)"
  by (induction cs arbitrary: s) (auto simp: case_prod_beta Let_def)

lemma online_clients_set: "set (online_clients us s) = {c. \<exists>u \<in> set us. gm_get (Clients s) u = Some c}"
  by (auto simp: online_clients_def List.map_filter_def) force

lemma online_clients_distinct:
  assumes "server_inv s" "distinct us"
  shows "distinct (online_clients us s)"
  using assms(2)
proof (induction us)
  case (Cons u us)
  have "c \<notin> set (online_clients us s)" if "gm_get (Clients s) u = Some c" for c
    using server_invD(4)[OF assms(1) that] server_invD(4)[OF assms(1), of _ c] Cons.prems by (auto simp: online_clients_set)
  then show ?case using Cons by (auto simp: online_clients_def List.map_filter_def)
qed (simp add: online_clients_def)

lemma count_distinct: "distinct xs \<Longrightarrow> count_list xs x = (if x \<in> set xs then 1 else 0)"
  by (induction xs) auto

lemma fan_out_buffers:
  assumes "server_inv s" "distinct us"
  shows "SendBack (conns (fan_out q m us s) c) = SendBack (conns s c) @
    (if (\<exists>u \<in> set us. gm_get (Clients s) u = Some c) \<and> length (SendBack (conns s c)) < ChannelSize
     then [(relay_item q m)\<lparr>i_AVdata := (if m_Type m = MessageAudioOrVideo then m_AVdata m else [])\<rparr>] else [])"
proof -
  let ?f = "(relay_item q m)\<lparr>i_AVdata := (if m_Type m = MessageAudioOrVideo then m_AVdata m else [])\<rparr>"
  have conns: "conns (fan_out q m us s) c = conns (snd (deliver ?f (online_clients us s) s)) c"
    by (simp add: fan_out_def markSent_def case_prod_beta Let_def)
  have n: "count_list (online_clients us s) c = (if \<exists>u \<in> set us. gm_get (Clients s) u = Some c then 1 else 0)"
    by (simp add: count_distinct[OF online_clients_distinct[OF assms]] online_clients_set)
  show ?thesis
    unfolding conns deliver_conns n by auto
qed

lemma fan_out_messages:
  assumes "up s" "m_Type m \<noteq> MessageAudioOrVideo"
  shows "messages (fan_out q m us s) = (if \<exists>u \<in> set us. accepts u s
    then change (\<lambda>d. m_Uuid d = m_Uuid m) (\<lambda>d. d\<lparr>m_Status := MessageSent, m_SendAt := Some (clock s)\<rparr>) (messages s) else messages s)"
proof -
  have "(\<exists>c \<in> set (online_clients us s). length (SendBack (conns s c)) < ChannelSize) \<longleftrightarrow> (\<exists>u \<in> set us. accepts u s)"
    by (auto simp: online_clients_set accepts_def)
  then show ?thesis
    using assms by (simp add: fan_out_def case_prod_beta Let_def deliver_some markSent_def)
qed

lemma fan_out_sessions [simp]: "sessions (fan_out q m us s) = sessions s"
proof -
  have "sessions (snd (call t)) = sessions t" for t :: chat by (auto simp: call_def split: list.splits)
  then show ?thesis by (simp add: fan_out_def markSent_def update_docs_def case_prod_beta Let_def)
qed

lemma resolve_up:
  assumes "up s"
  obtains v w where "snd (resolveSender u q s) = s\<lparr>UserInfoCache := v\<rparr>"
    "fst (resolveSender u q s) = q\<lparr>r_SendName := fst w, r_SendAvatar := snd w\<rparr>"
proof -
  have "\<exists>v. snd (user_cache_get u s) = s\<lparr>UserInfoCache := v\<rparr>"
    using assms by (auto simp: user_cache_get_def Let_def split: option.splits sum.splits intro: exI[of _ "UserInfoCache s"])
  then obtain v where v: "snd (user_cache_get u s) = s\<lparr>UserInfoCache := v\<rparr>" by blast
  have "q = q\<lparr>r_SendName := r_SendName q, r_SendAvatar := r_SendAvatar q\<rparr>" by simp
  then show thesis
    using v that[of v "case fst (user_cache_get u s) of None \<Rightarrow> (r_SendName q, r_SendAvatar q) | Some x \<Rightarrow> (u_Nickname x, u_Avatar x)"]
    by (auto simp: resolveSender_def case_prod_beta split: option.splits)
qed

text \<open>C35. A text message to a user is stored under a new id, surfaces in both session lists, and is put into the buffer of the
  receiver's connection and of the sender's, where they have room; it counts as sent as soon as one of the two took it.\<close>

theorem direct_message_exact:
  assumes inv: "server_inv s" "session_inv s" "up s"
    and req: "dec_req J (payload d) = Some req" "r_Type req \<noteq> MessageAudioOrVideo" "starts_with CHR ''U'' (r_ReceiveId req)"
    and fresh: "''M'' @ random s (drawn s) \<notin> m_Uuid ` set (messages s)"
  shows "\<exists>msg. messages (handleMessage J d s) = messages s @ [msg] \<and> m_SendId msg = senderId d \<and>
    m_ReceiveId msg = r_ReceiveId req \<and> m_Content msg = r_Content req \<and>
    (m_Status msg = MessageSent \<longleftrightarrow> accepts (r_ReceiveId req) s \<or> accepts (senderId d) s) \<and>
    (\<forall>c. SendBack (conns (handleMessage J d s) c) = SendBack (conns s c) @
       (if (gm_get (Clients s) (r_ReceiveId req) = Some c \<or> gm_get (Clients s) (senderId d) = Some c) \<and>
           length (SendBack (conns s c)) < ChannelSize then [toMessageListItem msg] else [])) \<and>
    (known_peer (senderId d) s \<and> known_peer (r_ReceiveId req) s \<and> fresh_ids 2 (s\<lparr>drawn := Suc (drawn s)\<rparr>) \<longrightarrow>
       has_session (senderId d) (r_ReceiveId req) (handleMessage J d s) \<and> has_session (r_ReceiveId req) (senderId d) (handleMessage J d s))"
proof -
  let ?u = "senderId d" and ?v = "r_ReceiveId req"
  obtain v w where res: "snd (resolveSender ?u (req\<lparr>r_SendId := ?u\<rparr>) s) = s\<lparr>UserInfoCache := v\<rparr>"
    "fst (resolveSender ?u (req\<lparr>r_SendId := ?u\<rparr>) s) = req\<lparr>r_SendId := ?u, r_SendName := fst w, r_SendAvatar := snd w\<rparr>"
    by (rule resolve_up[OF inv(3)])
  let ?q = "req\<lparr>r_SendId := ?u, r_SendName := fst w, r_SendAvatar := snd w\<rparr>"
  let ?m = "build_message ?q (''M'' @ random s (drawn s)) (clock s)"
  let ?before = "s\<lparr>UserInfoCache := v, drawn := Suc (drawn s), messages := messages s @ [?m]\<rparr>"
  let ?after = "touchDirectSessions ?u ?v ?before"
  let ?us = "?v # (if ?u \<noteq> ?v then [?u] else [])"
  have handle: "handleMessage J d s = fan_out ?q ?m ?us ?after"
    using req fresh inv(3)
    by (simp add: handleMessage_def handle_request_def res draw_def case_prod_beta Let_def broadcast_def starts_with_def image_iff)
  have "session_inv ?before" "up ?before" using inv by (auto intro: session_inv_same)
  then have up: "up ?after" using touchDirectSessions_inv by blast
  have more: "chatdb.more ?after = chatdb.more s" by simp
  then have si: "server_inv ?after" by (rule db_inv[OF inv(1)])
  note f = server_fields[OF more]
  have acc: "(\<exists>x \<in> set ?us. accepts x ?after) \<longleftrightarrow> accepts ?v s \<or> accepts ?u s" by (auto simp: accepts_def f)
  let ?msg = "if \<exists>x \<in> set ?us. accepts x ?after then ?m\<lparr>m_Status := MessageSent, m_SendAt := Some (clock ?after)\<rparr> else ?m"
  have "messages (handleMessage J d s) = messages s @ [?msg]"
  proof -
    have "change (\<lambda>d. m_Uuid d = m_Uuid ?m) g (messages s) = messages s" for g
      by (rule change_fresh) (use fresh in \<open>auto simp: image_iff\<close>)
    then have ch: "change (\<lambda>d. m_Uuid d = m_Uuid ?m) g (messages s @ [?m]) = messages s @ [g ?m]" for g
      by (simp add: change_def)
    have msgs: "messages ?after = messages s @ [?m]" by simp
    have ty: "m_Type ?m \<noteq> MessageAudioOrVideo" using req(2) by simp
    show ?thesis
      unfolding handle fan_out_messages[OF up ty] msgs ch by (rule if_distrib[symmetric])
  qed
  moreover have "SendBack (conns (handleMessage J d s) c) = SendBack (conns s c) @
       (if (gm_get (Clients s) ?v = Some c \<or> gm_get (Clients s) ?u = Some c) \<and> length (SendBack (conns s c)) < ChannelSize
        then [toMessageListItem ?msg] else [])" for c
    unfolding handle
    by (subst fan_out_buffers[OF si]) (use req(2) in \<open>auto simp: f relay_item_def toMessageListItem_def build_message_def\<close>)
  moreover have "m_Status ?msg = MessageSent \<longleftrightarrow> accepts ?v s \<or> accepts ?u s" using acc by (simp add: build_message_def)
  moreover have "has_session ?u ?v (handleMessage J d s) \<and> has_session ?v ?u (handleMessage J d s)"
    if "known_peer ?u s" "known_peer ?v s" "fresh_ids 2 (s\<lparr>drawn := Suc (drawn s)\<rparr>)"
    using touchDirectSessions_both[OF \<open>up ?before\<close> \<open>session_inv ?before\<close>, of ?u ?v] that
    by (simp add: handle has_session_def known_peer_def fresh_ids_def)
  ultimately show ?thesis
    by (intro exI[of _ ?msg]) (simp add: build_message_def)
qed

section \<open>Where a call can go wrong\<close>

text \<open>
  Declining with a receiver that is a user frees the whole room the frame names, even the room of a group call the sender is not in.
\<close>

theorem reject_frees_any_room:
  assumes "server_inv s" "MessageId av = ''PROXY''" "av_Type av = ''reject_call''" "starts_with CHR ''U'' (m_ReceiveId msg)"
  shows "room_of (calls (av_dispatch J req msg av r s)) = (\<lambda>u. if room_of (calls s) u = Some r then None else room_of (calls s) u)"
proof -
  have "call_inv (calls s)" using assms(1) by (simp add: server_inv_def calls_ok_def)
  then show ?thesis using assms by (simp add: av_dispatch_def cm.free_room)
qed

text \<open>Accepting while in another call joins nothing, and the acceptance still goes out to the caller.\<close>

theorem busy_accept_is_announced:
  assumes "room_of (calls s) (m_SendId msg) = Some r'" "r' \<noteq> r" "MessageId av = ''PROXY''" "av_Type av = ''receive_call''"
  shows "av_dispatch J req msg av r s = broadcast req msg False s"
  using assms by (simp add: av_dispatch_def call_join_def Join_def)

section \<open>Sample states\<close>

definition sample_request :: "int8 \<Rightarrow> string \<Rightarrow> ChatMessageRequest" where
  "sample_request ty receiver = \<lparr>r_SessionId = [], r_Type = ty, r_Content = ''hi'', r_Url = [], r_SendId = ''U9'', r_SendName = [],
     r_SendAvatar = [], r_ReceiveId = receiver, r_FileType = [], r_FileName = [], r_FileSize = [], r_AVdata = []\<rparr>"

definition sample_json :: "int8 \<Rightarrow> json" where
  "sample_json ty = \<lparr>dec_req = (\<lambda>p. Some (sample_request ty p)),
     dec_av = (\<lambda>p. \<lparr>MessageId = ''PROXY'', av_Type = ''start_call'', RoomId = []\<rparr>), enc_map = (\<lambda>m. [])\<rparr>"

definition sample_chat :: chat where
  "sample_chat = \<lparr>user_infos = [sample_user ''U1'', sample_user ''U2''], group_infos = [], user_contacts = [], contact_applies = [],
     contact_tags = [], sessions = [], messages = [], UserInfoCache = [], SessionListCache = [], faults = [], tx_supported = True,
     clock = 1, random = (\<lambda>n. replicate n CHR ''a''), drawn = 0, calls = Calls, Clients = [],
     conns = (\<lambda>_. \<lparr>c_Uuid = [], SendBack = [], written = [], closed = True\<rparr>), next_conn = 0, Transmit = [], stopped = False\<rparr>"

lemma sample_starts: "server_starts sample_chat" "server_inv sample_chat" "session_inv sample_chat" "up sample_chat"
proof -
  show "server_starts sample_chat" by (simp add: server_starts_def sample_chat_def)
  then show "server_inv sample_chat" by (rule server_start_inv)
  show "session_inv sample_chat" "up sample_chat" by (simp_all add: sample_chat_def session_inv_def cache_ok_def)
qed

text \<open>
  A frame that waits in the queue while its sender disconnects is handled all the same: the caller is left in a room, busy, with no
  connection whose end would free it.
\<close>

theorem offline_caller_stays_busy:
  "let J = sample_json MessageAudioOrVideo;
       s1 = NewClientInit ''U2'' (NewClientInit ''U1'' sample_chat);
       s2 = unregister J 0 (client_message 0 ''U2'' s1);
       s3 = handle_next J s2
   in (server_step J)\<^sup>*\<^sup>* sample_chat s3 \<and> IsBusy (calls s3) ''U1'' \<and> \<not> IsOnline ''U1'' s3"
proof -
  let ?J = "sample_json MessageAudioOrVideo"
  let ?a = "NewClientInit ''U2'' (NewClientInit ''U1'' sample_chat)"
  let ?b = "client_message 0 ''U2'' ?a"
  let ?c = "unregister ?J 0 ?b"
  have n: "next_conn ?a = 2" "\<not> closed (conns ?a 0)" "next_conn ?b = 2" "\<not> stopped ?c" by code_simp+
  have "(server_step ?J)\<^sup>*\<^sup>* sample_chat ?a"
    by (meson connect converse_rtranclp_into_rtranclp r_into_rtranclp)
  moreover have "server_step ?J ?a ?b" "server_step ?J ?b ?c" "server_step ?J ?c (handle_next ?J ?c)"
    using n by (auto intro: message gone handle)
  ultimately have "(server_step ?J)\<^sup>*\<^sup>* sample_chat (handle_next ?J ?c)" by (meson rtranclp.rtrancl_into_rtrancl)
  moreover have "IsBusy (calls (handle_next ?J ?c)) ''U1''" "\<not> IsOnline ''U1'' (handle_next ?J ?c)" by code_simp+
  ultimately show ?thesis by (simp add: Let_def)
qed

text \<open>A message to a user who is offline is marked as sent: the copy echoed to its sender counts as a delivery.\<close>

theorem offline_message_counts_as_sent:
  "let s = NewClientInit ''U1'' sample_chat;
       s' = handleMessage (sample_json MessageText) \<lparr>senderId = ''U1'', payload = ''U2''\<rparr> s
   in \<not> IsOnline ''U2'' s \<and> map m_ReceiveId (messages s') = [''U2''] \<and> map m_Status (messages s') = [MessageSent]"
  by code_simp

section \<open>The guarantees on the sample states\<close>

theorem calls_and_presence_consistent_witness:
  "let s = NewClientInit ''U1'' sample_chat in
   (InRoom (calls s) ''R'' ''U1'' \<longrightarrow> InRoom (calls s) ''Q'' ''U1'' \<longrightarrow> ''R'' = ''Q'') \<and>
    (IsBusy (calls s) ''U1'' \<longleftrightarrow> (\<exists>r. ''U1'' \<in> set (Members r (calls s)))) \<and>
    (IsOnline ''U1'' s \<longrightarrow> (\<exists>c. gm_get (Clients s) ''U1'' = Some c \<and> c_Uuid (conns s c) = ''U1'' \<and> \<not> closed (conns s c)))"
  unfolding Let_def
  by (rule calls_and_presence_consistent[OF sample_starts(1), of "sample_json 0"]) (blast intro: connect)

theorem reconnect_keeps_the_call_witness:
  "let s = NewClientInit ''U1'' sample_chat; t = unregister (sample_json 0) 0 (NewClientInit ''U1'' s) in
   calls t = calls s \<and> gm_get (Clients t) ''U1'' = Some 1 \<and> closed (conns t 0) \<and> \<not> closed (conns (NewClientInit ''U1'' s) 1)"
proof -
  have "gm_get (Clients (NewClientInit ''U1'' sample_chat)) ''U1'' = Some 0" by code_simp
  moreover have "next_conn (NewClientInit ''U1'' sample_chat) = 1" by code_simp
  ultimately show ?thesis
    using reconnect_keeps_the_call[OF connect_inv[OF sample_starts(2), of "''U1''"], of "''U1''" 0 "sample_json 0"] by (simp add: Let_def)
qed

lemma sample_online: "up (NewClientInit ''U2'' (NewClientInit ''U1'' sample_chat))" "server_inv (NewClientInit ''U2'' (NewClientInit ''U1'' sample_chat))"
  "session_inv (NewClientInit ''U2'' (NewClientInit ''U1'' sample_chat))"
proof -
  show "up (NewClientInit ''U2'' (NewClientInit ''U1'' sample_chat))" by code_simp
  show "server_inv (NewClientInit ''U2'' (NewClientInit ''U1'' sample_chat))" by (intro connect_inv sample_starts)
  have "sessions (NewClientInit ''U2'' (NewClientInit ''U1'' sample_chat)) = []"
    "SessionListCache (NewClientInit ''U2'' (NewClientInit ''U1'' sample_chat)) = []" by code_simp+
  then show "session_inv (NewClientInit ''U2'' (NewClientInit ''U1'' sample_chat))" by (simp add: session_inv_def cache_ok_def)
qed


theorem direct_message_exact_witness:
  "let s = NewClientInit ''U2'' (NewClientInit ''U1'' sample_chat);
       d = \<lparr>senderId = ''U1'', payload = ''U2''\<rparr>;
       s' = handleMessage (sample_json MessageText) d s
   in \<exists>msg. messages s' = messages s @ [msg] \<and> m_SendId msg = ''U1'' \<and> m_ReceiveId msg = ''U2'' \<and> m_Content msg = ''hi'' \<and>
     m_Status msg = MessageSent \<and> SendBack (conns s' 1) = SendBack (conns s 1) @ [toMessageListItem msg]"
proof -
  let ?s = "NewClientInit ''U2'' (NewClientInit ''U1'' sample_chat)"
  let ?d = "\<lparr>senderId = ''U1'', payload = ''U2''\<rparr>"
  let ?q = "sample_request MessageText ''U2''"
  have q: "dec_req (sample_json MessageText) (payload ?d) = Some ?q" "r_Type ?q \<noteq> MessageAudioOrVideo"
    "starts_with CHR ''U'' (r_ReceiveId ?q)" "r_ReceiveId ?q = ''U2''" "r_Content ?q = ''hi''"
    by (simp_all add: sample_json_def sample_request_def starts_with_def)
  have m: "messages ?s = []" by code_simp
  have c: "gm_get (Clients ?s) ''U2'' = Some 1" "length (SendBack (conns ?s 1)) < ChannelSize" by code_simp+
  then have "accepts ''U2'' ?s" by (auto simp: accepts_def)
  with direct_message_exact[OF sample_online(2,3,1) q(1-3)] m c q(4,5) show ?thesis by (force simp: Let_def)
qed

section \<open>Who may see a room\<close>

definition CanSeeCallRoom :: "string \<Rightarrow> string \<Rightarrow> chat \<Rightarrow> bool \<times> chat" where
  "CanSeeCallRoom roomId uuid s =
     (if uuid = [] \<or> roomId = [] then (False, s)
      else if InRoom (calls s) roomId uuid then (True, s)
      else if has_prefix roomId ''P:'' then (uuid \<in> set (split_on CHR '':'' (drop 2 roomId)), s)
      else if roomId ! 0 \<noteq> CHR ''G'' then (False, s)
      else (let (r, s) = first_doc group_infos (active_group roomId) s in
        ((case r of Inl _ \<Rightarrow> False | Inr grp \<Rightarrow> uuid \<in> set (g_Members grp)), s)))"

text \<open>The room of a direct call is visible to its two users, and to nobody else who is not in it.\<close>

lemma pair_room_visible:
  assumes "a \<noteq> []" "b \<noteq> []" "hd a \<noteq> CHR ''G''" "hd b \<noteq> CHR ''G''" "CHR '':'' \<notin> set a" "CHR '':'' \<notin> set b"
    and "u \<noteq> []" "\<not> InRoom (calls s) (CallRoomId a b) u"
  shows "fst (CanSeeCallRoom (CallRoomId a b) u s) \<longleftrightarrow> u \<in> {a, b}"
proof -
  have r: "CallRoomId a b = ''P:'' @ min a b @ '':'' @ max a b" using assms by (intro CallRoomId_pair)
  have "split_on CHR '':'' (min a b @ '':'' @ max a b) = [min a b, max a b]"
    using assms by (intro split_pair) (auto simp: min_def max_def)
  then show ?thesis
    using assms(7,8) by (auto simp: CanSeeCallRoom_def r min_def max_def)
qed

end
