(* ===== verification/Chat_Group.thy ===== *)
theory Chat_Group
  imports Chat_Server
begin

text \<open>
  The group service of the chat server (\<open>service/group_service.go\<close>): groups, their members and the contacts that show a group to its
  members. The invariant says that the stored member count is the number of members, that the owner is one of them, and that a user is a
  member of a live group exactly when it is among the user's contacts.
\<close>

section \<open>Members and contacts\<close>

record GroupInfoResponse =
  gr_Uuid :: string
  gr_Name :: string
  gr_Notice :: string
  gr_Members :: "string list"
  gr_MemberCnt :: int
  gr_OwnerId :: string
  gr_AddMode :: int8
  gr_Avatar :: string
  gr_Status :: int8

record GroupListItem =
  gl_GroupId :: string
  gl_Name :: string
  gl_MemberCnt :: int
  gl_OwnerId :: string
  gl_Avatar :: string

record AdminGroupItem =
  ag_GroupId :: string
  ag_Name :: string
  ag_MemberCnt :: int
  ag_OwnerId :: string
  ag_Avatar :: string
  ag_Status :: int8
  ag_IsDeleted :: bool

definition toGroupInfoResponse :: "GroupInfo \<Rightarrow> GroupInfoResponse" where
  "toGroupInfoResponse g = \<lparr>gr_Uuid = g_Uuid g, gr_Name = g_Name g, gr_Notice = g_Notice g, gr_Members = g_Members g,
     gr_MemberCnt = g_MemberCnt g, gr_OwnerId = g_OwnerId g, gr_AddMode = g_AddMode g, gr_Avatar = g_Avatar g, gr_Status = g_Status g\<rparr>"

definition group_item :: "GroupInfo \<Rightarrow> GroupListItem" where
  "group_item g = \<lparr>gl_GroupId = g_Uuid g, gl_Name = g_Name g, gl_MemberCnt = g_MemberCnt g, gl_OwnerId = g_OwnerId g, gl_Avatar = g_Avatar g\<rparr>"

definition admin_item :: "GroupInfo \<Rightarrow> AdminGroupItem" where
  "admin_item g = \<lparr>ag_GroupId = g_Uuid g, ag_Name = g_Name g, ag_MemberCnt = g_MemberCnt g, ag_OwnerId = g_OwnerId g, ag_Avatar = g_Avatar g,
     ag_Status = g_Status g, ag_IsDeleted = (g_DeletedAt g \<noteq> None)\<rparr>"

text \<open>
  \<open>Upsert\<close> on the groups with one id: how many documents changed, \<open>None\<close> for an error. When nothing matches, the document made of the
  filter and the update goes in, with every other field missing.
\<close>

definition ghost_group :: "string \<Rightarrow> string list \<Rightarrow> GroupInfo" where
  "ghost_group uuid ms = \<lparr>g_Uuid = uuid, g_Name = [], g_Notice = [], g_Members = ms, g_MemberCnt = 0, g_OwnerId = [], g_AddMode = 0,
     g_Avatar = [], g_Status = 0, g_CreatedAt = 0, g_UpdatedAt = 0, g_DeletedAt = None\<rparr>"

definition upsert_group :: "string \<Rightarrow> (GroupInfo \<Rightarrow> GroupInfo) \<Rightarrow> string list \<Rightarrow> 'a chatdb_scheme \<Rightarrow> nat option \<times> 'a chatdb_scheme" where
  "upsert_group uuid f ms s =
     (let (ok, s) = call s in
      if \<not> ok then (None, s)
      else if \<exists>g \<in> set (group_infos s). g_Uuid g = uuid then
        (Some (length (filter (\<lambda>g. g_Uuid g = uuid \<and> f g \<noteq> g) (group_infos s))),
         s\<lparr>group_infos := change (\<lambda>g. g_Uuid g = uuid) f (group_infos s)\<rparr>)
      else (Some 0, s\<lparr>group_infos := group_infos s @ [ghost_group uuid ms]\<rparr>))"

definition add_to_set :: "string \<Rightarrow> GroupInfo \<Rightarrow> GroupInfo" where
  "add_to_set u g = (if u \<in> set (g_Members g) then g else g\<lparr>g_Members := g_Members g @ [u]\<rparr>)"

definition pull :: "string list \<Rightarrow> GroupInfo \<Rightarrow> GroupInfo" where
  "pull us g = g\<lparr>g_Members := filter (\<lambda>u. u \<notin> set us) (g_Members g)\<rparr>"

definition count_members :: "string \<Rightarrow> int \<Rightarrow> 'a chatdb_scheme \<Rightarrow> bool \<times> 'a chatdb_scheme" where
  "count_members groupId d s = update_docs group_infos_update (\<lambda>g. g_Uuid g = groupId)
     (\<lambda>g. g\<lparr>g_MemberCnt := g_MemberCnt g + d, g_UpdatedAt := clock s\<rparr>) s"

definition addGroupMember :: "string \<Rightarrow> string \<Rightarrow> 'a chatdb_scheme \<Rightarrow> bool \<times> 'a chatdb_scheme" where
  "addGroupMember groupId userId s =
     (let (r, s) = upsert_group groupId (add_to_set userId) [userId] s in
      case r of None \<Rightarrow> (False, s) | Some n \<Rightarrow> if n > 0 then count_members groupId 1 s else (True, s))"

definition removeGroupMember :: "string \<Rightarrow> string \<Rightarrow> 'a chatdb_scheme \<Rightarrow> bool \<times> 'a chatdb_scheme" where
  "removeGroupMember groupId userId s =
     (let (r, s) = upsert_group groupId (pull [userId]) [] s in
      case r of None \<Rightarrow> (False, s) | Some n \<Rightarrow> if n > 0 then count_members groupId (- 1) s else (True, s))"

definition new_contact :: "string \<Rightarrow> string \<Rightarrow> int8 \<Rightarrow> time \<Rightarrow> UserContact" where
  "new_contact userId contactId ty now = \<lparr>uc_UserId = userId, uc_ContactId = contactId, uc_ContactType = ty, uc_Status = ContactNormal,
     uc_NoteName = [], uc_TagId = [], uc_CreatedAt = now, uc_UpdatedAt = now, uc_DeletedAt = None\<rparr>"

text \<open>\<open>ensureGroupContact\<close> and \<open>ensureUserContact\<close> differ in the type of a new record only.\<close>

definition ensure_contact :: "int8 \<Rightarrow> string \<Rightarrow> string \<Rightarrow> 'a chatdb_scheme \<Rightarrow> bool \<times> 'a chatdb_scheme" where
  "ensure_contact ty userId contactId s =
     (let (r, s) = first_doc user_contacts (\<lambda>c. uc_UserId c = userId \<and> uc_ContactId c = contactId) s in
      case r of
        Inr _ \<Rightarrow> update_docs user_contacts_update (\<lambda>c. uc_UserId c = userId \<and> uc_ContactId c = contactId)
          (\<lambda>c. c\<lparr>uc_Status := ContactNormal, uc_UpdatedAt := clock s, uc_DeletedAt := None\<rparr>) s
      | Inl ErrNotFound \<Rightarrow> insert_contact (new_contact userId contactId ty (clock s)) s
      | Inl ErrOther \<Rightarrow> (False, s))"

definition ensureGroupContact :: "string \<Rightarrow> string \<Rightarrow> 'a chatdb_scheme \<Rightarrow> bool \<times> 'a chatdb_scheme" where
  "ensureGroupContact = ensure_contact ContactTypeGroup"

definition cleanupGroupMembership :: "string \<Rightarrow> string \<Rightarrow> int8 \<Rightarrow> 'a chatdb_scheme \<Rightarrow> 'a chatdb_scheme" where
  "cleanupGroupMembership userId groupId contactStatus s =
     (let now = Some (clock s);
          s = snd (update_docs user_contacts_update (\<lambda>c. uc_UserId c = userId \<and> uc_ContactId c = groupId \<and> uc_DeletedAt c = None)
            (\<lambda>c. c\<lparr>uc_Status := contactStatus, uc_DeletedAt := now\<rparr>) s);
          s = snd (update_docs sessions_update (\<lambda>d. s_SendId d = userId \<and> s_ReceiveId d = groupId \<and> s_DeletedAt d = None)
            (\<lambda>d. d\<lparr>s_DeletedAt := now\<rparr>) s);
          s = snd (update_docs contact_applies_update (\<lambda>a. a_UserId a = userId \<and> a_ContactId a = groupId \<and> a_DeletedAt a = None)
            (\<lambda>a. a\<lparr>a_DeletedAt := now\<rparr>) s)
      in session_cache_del userId s)"

definition cascadeGroupRemoval :: "string \<Rightarrow> 'a chatdb_scheme \<Rightarrow> bool \<times> 'a chatdb_scheme" where
  "cascadeGroupRemoval groupId s =
     (let now = Some (clock s);
          s = invalidateSessionCacheByReceiver groupId s;
          (ok, s) = update_docs sessions_update (\<lambda>d. s_ReceiveId d = groupId \<and> s_DeletedAt d = None) (\<lambda>d. d\<lparr>s_DeletedAt := now\<rparr>) s
      in if \<not> ok then (False, s)
         else (let (ok, s) = update_docs user_contacts_update (\<lambda>c. uc_ContactId c = groupId \<and> uc_DeletedAt c = None) (\<lambda>c. c\<lparr>uc_DeletedAt := now\<rparr>) s
               in if \<not> ok then (False, s)
                  else update_docs contact_applies_update (\<lambda>a. a_ContactId a = groupId \<and> a_DeletedAt a = None) (\<lambda>a. a\<lparr>a_DeletedAt := now\<rparr>) s))"

section \<open>Operations\<close>

fun insert_contacts :: "string list \<Rightarrow> string \<Rightarrow> chat \<Rightarrow> bool \<times> chat" where
  "insert_contacts [] gid s = (True, s)"
| "insert_contacts (m # ms) gid s =
     (let (ok, s) = insert_contact (new_contact m gid ContactTypeGroup (clock s)) s in if ok then insert_contacts ms gid s else (False, s))"

fun notify_members :: "string \<Rightarrow> string list \<Rightarrow> chat \<Rightarrow> chat" where
  "notify_members ownerId [] s = s"
| "notify_members ownerId (m # ms) s =
     notify_members ownerId ms (PushSystem NotifySession [m] (if m \<noteq> ownerId then PushSystem NotifyGroup [m] s else s))"

fun add_users :: "string \<Rightarrow> UserInfo list \<Rightarrow> string list \<Rightarrow> string list" where
  "add_users ownerId [] members = members"
| "add_users ownerId (u # us) members =
     add_users ownerId us (if u_Uuid u \<noteq> ownerId \<and> u_Uuid u \<notin> set members then members @ [u_Uuid u] else members)"

definition initial_members :: "string \<Rightarrow> string list \<Rightarrow> chat \<Rightarrow> string list option \<times> chat" where
  "initial_members ownerId memberIds s =
     (if memberIds = [] then (Some [ownerId], s)
      else (let (r, s) = find_docs user_infos (\<lambda>u. u_DeletedAt u = None \<and> u_Uuid u \<in> set memberIds) s
            in (map_option (\<lambda>us. add_users ownerId us [ownerId]) r, s)))"

definition new_group :: "string \<Rightarrow> string \<Rightarrow> string \<Rightarrow> string \<Rightarrow> int8 \<Rightarrow> string list \<Rightarrow> string \<Rightarrow> time \<Rightarrow> GroupInfo" where
  "new_group name ownerId avatar notice addMode members r now =
     \<lparr>g_Uuid = ''G'' @ r, g_Name = name, g_Notice = notice, g_Members = members, g_MemberCnt = int (length members),
      g_OwnerId = ownerId, g_AddMode = addMode, g_Avatar = (if avatar = [] then ''https://vitejs.dev/logo.svg'' else avatar),
      g_Status = GroupStatusNormal, g_CreatedAt = now, g_UpdatedAt = now, g_DeletedAt = None\<rparr>"

definition create_in_tx :: "GroupInfo \<Rightarrow> chat \<Rightarrow> bool \<times> chat" where
  "create_in_tx grp s = (let (ok, s) = insert_group grp s in if ok then insert_contacts (g_Members grp) (g_Uuid grp) s else (False, s))"

definition welcome_message :: "GroupInfo \<Rightarrow> string \<Rightarrow> dberr + UserInfo \<Rightarrow> time \<Rightarrow> Message" where
  "welcome_message grp r owner now =
     \<lparr>m_Uuid = ''M'' @ r, m_SessionId = [], m_Type = MessageText, m_Content = ''Welcome to '' @ g_Name grp @ ''!'', m_Url = [],
      m_SendId = g_OwnerId grp, m_SendName = (case owner of Inl _ \<Rightarrow> [] | Inr u \<Rightarrow> u_Nickname u),
      m_SendAvatar = (case owner of Inl _ \<Rightarrow> [] | Inr u \<Rightarrow> u_Avatar u), m_ReceiveId = g_Uuid grp, m_FileType = [], m_FileName = [],
      m_FileSize = [], m_Status = MessageSent, m_CreatedAt = now, m_SendAt = None, m_AVdata = []\<rparr>"

definition CreateGroup :: "string \<Rightarrow> string \<Rightarrow> string \<Rightarrow> string \<Rightarrow> int8 \<Rightarrow> string list \<Rightarrow> chat \<Rightarrow> (string \<times> GroupInfoResponse option \<times> int) \<times> chat" where
  "CreateGroup name ownerId avatar notice addMode memberIds s =
     (if addMode \<noteq> GroupAddModeDirect \<and> addMode \<noteq> GroupAddModeReview then ((''invalid add_mode'', None, -2), s)
      else (let (r, s) = initial_members ownerId memberIds s in case r of
         None \<Rightarrow> ((SystemError, None, -1), s)
       | Some members \<Rightarrow>
         (let (r, s) = draw s;
              grp = new_group name ownerId avatar notice addMode members r (clock s);
              (ok, s) = WithTransaction (create_in_tx grp) s
          in if \<not> ok then ((SystemError, None, -1), s)
             else (let (r, s) = draw s;
                       (owner, s) = first_doc user_infos (active_user ownerId) s;
                       s = snd (insert_message (welcome_message grp r owner (clock s)) s);
                       s = touchGroupSessions grp s;
                       s = notify_members ownerId members s
                   in ((''group created'', Some (toGroupInfoResponse grp), 0), s)))))"

definition GetGroupInfo :: "string \<Rightarrow> chat \<Rightarrow> (string \<times> GroupInfoResponse option \<times> int) \<times> chat" where
  "GetGroupInfo uuid s = (let (r, s) = first_doc group_infos (active_group uuid) s in case r of
     Inl _ \<Rightarrow> ((SystemError, None, -1), s) | Inr g \<Rightarrow> ((''group info retrieved'', Some (toGroupInfoResponse g), 0), s))"

definition LoadMyGroup :: "string \<Rightarrow> chat \<Rightarrow> (string \<times> GroupListItem list \<times> int) \<times> chat" where
  "LoadMyGroup ownerId s = (let (r, s) = find_docs group_infos (\<lambda>g. g_DeletedAt g = None \<and> g_OwnerId g = ownerId) s in case r of
     None \<Rightarrow> ((SystemError, [], -1), s) | Some gs \<Rightarrow> ((''success'', map group_item gs, 0), s))"

definition GetGroupInfoList :: "chat \<Rightarrow> (string \<times> AdminGroupItem list \<times> int) \<times> chat" where
  "GetGroupInfoList s = (let (r, s) = find_docs group_infos (\<lambda>g. True) s in case r of
     None \<Rightarrow> ((SystemError, [], -1), s) | Some gs \<Rightarrow> ((''success'', map admin_item gs, 0), s))"

definition CheckGroupAddMode :: "string \<Rightarrow> chat \<Rightarrow> (string \<times> int8 \<times> int) \<times> chat" where
  "CheckGroupAddMode groupId s = (let (r, s) = first_doc group_infos (active_group groupId) s in case r of
     Inl _ \<Rightarrow> ((SystemError, 0, -1), s) | Inr g \<Rightarrow> ((''success'', g_AddMode g, 0), s))"

definition EnterGroupDirectly :: "string \<Rightarrow> string \<Rightarrow> chat \<Rightarrow> (string \<times> int) \<times> chat" where
  "EnterGroupDirectly userId groupId s = (let (r, s) = first_doc group_infos (active_group groupId) s in case r of
     Inl _ \<Rightarrow> ((SystemError, -1), s)
   | Inr g \<Rightarrow>
       if g_Status g = GroupStatusDisable then ((''group is disabled'', -2), s)
       else if g_AddMode g \<noteq> GroupAddModeDirect then ((''group requires owner approval'', -2), s)
       else if userId \<in> set (g_Members g) then ((''already a group member'', -2), s)
       else (let (ok, s) = addGroupMember groupId userId s in
             if \<not> ok then ((SystemError, -1), s)
             else (let (ok, s) = ensureGroupContact userId groupId s in
                   if \<not> ok then ((SystemError, -1), s) else ((''joined group'', 0), s))))"

fun add_newcomers :: "string \<Rightarrow> string list \<Rightarrow> chat \<Rightarrow> bool \<times> chat" where
  "add_newcomers gid [] s = (True, s)"
| "add_newcomers gid (i # is) s =
     (let (ok, s) = addGroupMember gid i s in
      if \<not> ok then (False, s)
      else (let (ok, s) = ensureGroupContact i gid s in if \<not> ok then (False, s) else add_newcomers gid is s))"

fun candidates_of :: "string list \<Rightarrow> string list \<Rightarrow> string list \<Rightarrow> string list" where
  "candidates_of members [] acc = acc"
| "candidates_of members (i # is) acc =
     candidates_of members is (if i \<notin> set members \<and> i \<notin> set acc then acc @ [i] else acc)"

definition InviteGroupMembers :: "string \<Rightarrow> string list \<Rightarrow> chat \<Rightarrow> (string \<times> int) \<times> chat" where
  "InviteGroupMembers groupId memberIds s = (let (r, s) = first_doc group_infos (active_group groupId) s in case r of
     Inl _ \<Rightarrow> ((SystemError, -1), s)
   | Inr g \<Rightarrow>
       if g_Status g = GroupStatusDisable then ((''group is disabled'', -2), s)
       else (let candidates = candidates_of (g_Members g) memberIds [] in
         if candidates = [] then ((''all selected users are already group members'', -2), s)
         else (let (r, s) = find_docs user_infos (\<lambda>u. u_DeletedAt u = None \<and> u_Uuid u \<in> set candidates) s in case r of
            None \<Rightarrow> ((SystemError, -1), s)
          | Some us \<Rightarrow>
              (let newcomers = map u_Uuid us in
               if newcomers = [] then ((''no valid users to invite'', -2), s)
               else (let (ok, s) = add_newcomers groupId newcomers s in
                 if \<not> ok then ((SystemError, -1), s)
                 else (let (r, s) = first_doc group_infos (active_group groupId) s;
                           s = (case r of Inl _ \<Rightarrow> s | Inr updated \<Rightarrow> touchGroupSessions updated s);
                           s = PushSystem NotifyGroup newcomers s;
                           s = PushSystem NotifySession newcomers s
                       in ((''members invited'', 0), s)))))))"

definition LeaveGroup :: "string \<Rightarrow> string \<Rightarrow> chat \<Rightarrow> (string \<times> int) \<times> chat" where
  "LeaveGroup userId groupId s = (let (r, s) = first_doc group_infos (active_group groupId) s in case r of
     Inl _ \<Rightarrow> ((SystemError, -1), s)
   | Inr g \<Rightarrow>
       if g_OwnerId g = userId then ((''owner cannot leave the group, dismiss it instead'', -2), s)
       else (let (ok, s) = removeGroupMember groupId userId s in
             if \<not> ok then ((SystemError, -1), s)
             else ((''left group'', 0), cleanupGroupMembership userId groupId ContactQuit s)))"

definition DismissGroup :: "string \<Rightarrow> chat \<Rightarrow> (string \<times> int) \<times> chat" where
  "DismissGroup groupId s = (let (r, s) = first_doc group_infos (active_group groupId) s in case r of
     Inl _ \<Rightarrow> ((SystemError, -1), s)
   | Inr g \<Rightarrow>
       (let (ok, s) = WithTransaction (\<lambda>s.
              let (ok, s) = update_docs group_infos_update (\<lambda>g. g_Uuid g = groupId)
                    (\<lambda>g. g\<lparr>g_Status := GroupStatusDismiss, g_DeletedAt := Some (clock s)\<rparr>) s
              in if ok then cascadeGroupRemoval groupId s else (False, s)) s
        in if \<not> ok then ((SystemError, -1), s)
           else ((''group dismissed'', 0), PushSystem NotifySession (g_Members g) (PushSystem NotifyGroup (g_Members g) s))))"

text \<open>The fields the handler of \<open>UpdateGroupInfo\<close> may set.\<close>

record group_fields =
  f_name :: "string option"
  f_notice :: "string option"
  f_avatar :: "string option"
  f_add_mode :: "int8 option"

definition set_fields :: "group_fields \<Rightarrow> time \<Rightarrow> GroupInfo \<Rightarrow> GroupInfo" where
  "set_fields f now g = g\<lparr>g_Name := (case f_name f of None \<Rightarrow> g_Name g | Some x \<Rightarrow> x), g_Notice := (case f_notice f of None \<Rightarrow> g_Notice g | Some x \<Rightarrow> x),
     g_Avatar := (case f_avatar f of None \<Rightarrow> g_Avatar g | Some x \<Rightarrow> x), g_AddMode := (case f_add_mode f of None \<Rightarrow> g_AddMode g | Some x \<Rightarrow> x),
     g_UpdatedAt := now\<rparr>"

definition UpdateGroupInfo :: "string \<Rightarrow> group_fields \<Rightarrow> chat \<Rightarrow> (string \<times> int) \<times> chat" where
  "UpdateGroupInfo uuid f s =
     (if f_name f = None \<and> f_notice f = None \<and> f_avatar f = None \<and> f_add_mode f = None then ((''group info updated'', 0), s)
      else (let (ok, s) = update_docs group_infos_update (\<lambda>g. g_Uuid g = uuid) (set_fields f (clock s)) s in
        if \<not> ok then ((SystemError, -1), s)
        else (let s = (if f_name f = None \<and> f_avatar f = None then s
                       else invalidateSessionCacheByReceiver uuid (snd (update_docs sessions_update (\<lambda>d. s_ReceiveId d = uuid \<and> s_DeletedAt d = None)
                         (\<lambda>d. d\<lparr>s_ReceiveName := (case f_name f of None \<Rightarrow> s_ReceiveName d | Some x \<Rightarrow> x),
                                s_Avatar := (case f_avatar f of None \<Rightarrow> s_Avatar d | Some x \<Rightarrow> x)\<rparr>) s)))
              in ((''group info updated'', 0), s))))"

definition RemoveGroupMembers :: "string \<Rightarrow> string list \<Rightarrow> chat \<Rightarrow> (string \<times> int) \<times> chat" where
  "RemoveGroupMembers groupId memberIds s = (let (r, s) = first_doc group_infos (active_group groupId) s in case r of
     Inl _ \<Rightarrow> ((SystemError, -1), s)
   | Inr g \<Rightarrow>
       if g_OwnerId g \<in> set memberIds then ((''cannot remove the group owner'', -2), s)
       else (let (ok, s) = update_docs group_infos_update (\<lambda>g. g_Uuid g = groupId) (\<lambda>g. (pull memberIds g)\<lparr>g_UpdatedAt := clock s\<rparr>) s in
         if \<not> ok then ((SystemError, -1), s)
         else (let (r, s) = first_doc group_infos (active_group groupId) s;
                   s = (case r of Inl _ \<Rightarrow> s
                        | Inr updated \<Rightarrow> snd (update_docs group_infos_update (\<lambda>g. g_Uuid g = groupId)
                            (\<lambda>g. g\<lparr>g_MemberCnt := int (length (g_Members updated))\<rparr>) s));
                   s = fold (\<lambda>i. cleanupGroupMembership i groupId ContactKicked) memberIds s
               in ((''members removed'', 0), PushSystem NotifySession memberIds (PushSystem NotifyGroup memberIds s)))))"

fun cascade_all :: "string list \<Rightarrow> chat \<Rightarrow> chat" where
  "cascade_all [] s = s"
| "cascade_all (g # gs) s = cascade_all gs (snd (cascadeGroupRemoval g s))"

definition DeleteGroups :: "string list \<Rightarrow> chat \<Rightarrow> (string \<times> int) \<times> chat" where
  "DeleteGroups uuidList s =
     (let (ok, s) = update_docs group_infos_update (\<lambda>g. g_Uuid g \<in> set uuidList) (\<lambda>g. g\<lparr>g_DeletedAt := Some (clock s)\<rparr>) s
      in if \<not> ok then ((SystemError, -1), s) else ((''groups deleted'', 0), cascade_all uuidList s))"

fun close_sessions :: "string list \<Rightarrow> chat \<Rightarrow> chat" where
  "close_sessions [] s = s"
| "close_sessions (g # gs) s =
     (let s = invalidateSessionCacheByReceiver g s
      in close_sessions gs (snd (update_docs sessions_update (\<lambda>d. s_ReceiveId d = g \<and> s_DeletedAt d = None) (\<lambda>d. d\<lparr>s_DeletedAt := Some (clock s)\<rparr>) s)))"

definition SetGroupsStatus :: "string list \<Rightarrow> int8 \<Rightarrow> chat \<Rightarrow> (string \<times> int) \<times> chat" where
  "SetGroupsStatus uuidList status s =
     (let (ok, s) = update_docs group_infos_update (\<lambda>g. g_Uuid g \<in> set uuidList) (\<lambda>g. g\<lparr>g_Status := status, g_UpdatedAt := clock s\<rparr>) s
      in if \<not> ok then ((SystemError, -1), s)
         else ((''group status updated'', 0), if status = GroupStatusDisable then close_sessions uuidList s else s))"

section \<open>The invariant of groups\<close>

definition group_ok :: "GroupInfo \<Rightarrow> bool" where
  "group_ok g \<longleftrightarrow> distinct (g_Members g) \<and> g_MemberCnt g = int (length (g_Members g)) \<and> g_OwnerId g \<in> set (g_Members g)"

definition has_contact :: "UserContact list \<Rightarrow> string \<Rightarrow> string \<Rightarrow> bool" where
  "has_contact cs u x \<longleftrightarrow> (\<exists>c \<in> set cs. uc_UserId c = u \<and> uc_ContactId c = x \<and> uc_DeletedAt c = None)"

definition member_ok :: "UserContact list \<Rightarrow> GroupInfo \<Rightarrow> bool" where
  "member_ok cs g \<longleftrightarrow> (g_DeletedAt g = None \<longrightarrow> (\<forall>u. u \<in> set (g_Members g) \<longleftrightarrow> has_contact cs u (g_Uuid g)))"

definition group_id :: "string \<Rightarrow> bool" where
  "group_id x \<longleftrightarrow> take 1 x = ''G''"

definition groups_ok :: "GroupInfo list \<Rightarrow> UserContact list \<Rightarrow> bool" where
  "groups_ok gs cs \<longleftrightarrow> distinct (map g_Uuid gs) \<and> (\<forall>g \<in> set gs. group_id (g_Uuid g) \<and> group_ok g \<and> member_ok cs g) \<and>
     (\<forall>u x. group_id x \<longrightarrow> has_contact cs u x \<longrightarrow> x \<in> g_Uuid ` set gs)"

abbreviation group_inv :: "'a chatdb_scheme \<Rightarrow> bool" where
  "group_inv s \<equiv> groups_ok (group_infos s) (user_contacts s)"

lemma uuid_group: "distinct (map g_Uuid l) \<Longrightarrow> g \<in> set l \<Longrightarrow> h \<in> set l \<Longrightarrow> g_Uuid g = g_Uuid h \<Longrightarrow> g = h"
  by (simp add: distinct_map inj_on_def)

lemma groups_okI:
  assumes "map g_Uuid gs' = map g_Uuid gs" "groups_ok gs cs" "\<And>g. g \<in> set gs' \<Longrightarrow> group_ok g \<and> member_ok cs' g"
    and "\<And>u x. has_contact cs' u x \<Longrightarrow> group_id x \<Longrightarrow> x \<in> g_Uuid ` set gs"
  shows "groups_ok gs' cs'"
proof -
  have "g_Uuid ` set gs' = g_Uuid ` set gs" using assms(1) by (metis set_map)
  moreover have "\<forall>x \<in> g_Uuid ` set gs. group_id x" using assms(2) by (auto simp: groups_ok_def)
  ultimately show ?thesis using assms unfolding groups_ok_def by (metis image_eqI)
qed

text \<open>One group changes, together with the contacts that point at it.\<close>

lemma groups_ok_change:
  assumes "groups_ok gs cs" "g \<in> set gs" "g_Uuid g = i" "g_Uuid (f g) = i" "group_ok (f g)" "member_ok cs' (f g)"
    and "\<And>u x. x \<noteq> i \<Longrightarrow> has_contact cs' u x = has_contact cs u x"
  shows "groups_ok (change (\<lambda>g. g_Uuid g = i) f gs) cs'"
proof -
  have eq: "h = g" if "h \<in> set gs" "g_Uuid h = i" for h
    using assms(1,2,3) that by (auto simp: groups_ok_def intro: uuid_group)
  then have uuids: "map g_Uuid (change (\<lambda>g. g_Uuid g = i) f gs) = map g_Uuid gs"
    using assms(4) by (auto simp: change_def)
  have "has_contact cs' u x \<Longrightarrow> group_id x \<Longrightarrow> x \<in> g_Uuid ` set gs" for u x
    using assms(1,2,3,7) by (cases "x = i") (auto simp: groups_ok_def)
  moreover have "group_ok h \<and> member_ok cs' h" if h: "h \<in> set (change (\<lambda>g. g_Uuid g = i) f gs)" for h
  proof -
    consider "h \<in> set gs" "g_Uuid h \<noteq> i" | "h = f g" using h eq unfolding set_change by blast
    then show ?thesis
    proof cases
      case 1
      then have "group_ok h" "member_ok cs h" using assms(1) by (auto simp: groups_ok_def)
      with 1 show ?thesis using assms(7) by (simp add: member_ok_def)
    qed (use assms(5,6) in simp)
  qed
  ultimately show ?thesis by (intro groups_okI[OF uuids assms(1)])
qed

lemma in_change: "d \<in> set l \<Longrightarrow> P d \<Longrightarrow> f d \<in> set (change P f l)"
  by (auto simp: change_def)

lemma pull_fields [simp]: "g_Uuid (pull us g) = g_Uuid g" "g_MemberCnt (pull us g) = g_MemberCnt g" "g_DeletedAt (pull us g) = g_DeletedAt g"
  "g_OwnerId (pull us g) = g_OwnerId g" "g_Members (pull us g) = filter (\<lambda>u. u \<notin> set us) (g_Members g)"
  by (simp_all add: pull_def)

lemma change_twice:
  "(\<And>d. P d \<Longrightarrow> P (f d)) \<Longrightarrow> change P g (change P f l) = change P (\<lambda>d. g (f d)) l"
  by (simp add: change_def)

lemma change_eq: "(\<And>d. d \<in> set l \<Longrightarrow> P d \<Longrightarrow> f d = g d) \<Longrightarrow> change P f l = change P g l"
  by (simp add: change_def)

section \<open>Joining and leaving\<close>

definition join_group :: "string \<Rightarrow> time \<Rightarrow> GroupInfo \<Rightarrow> GroupInfo" where
  "join_group u now g = (if u \<in> set (g_Members g) then g
     else g\<lparr>g_Members := g_Members g @ [u], g_MemberCnt := g_MemberCnt g + 1, g_UpdatedAt := now\<rparr>)"

lemma upsert_one:
  assumes "up s" "distinct (map g_Uuid (group_infos s))" "g \<in> set (group_infos s)" "g_Uuid g = i"
  shows "upsert_group i f ms s = (Some (if f g = g then 0 else 1), s\<lparr>group_infos := change (\<lambda>g. g_Uuid g = i) f (group_infos s)\<rparr>)"
proof -
  have eq: "h = g" if "h \<in> set (group_infos s)" "g_Uuid h = i" for h
    using assms that by (auto intro: uuid_group)
  obtain l1 l2 where l: "group_infos s = l1 @ g # l2" using assms(3) by (auto simp: in_set_conv_decomp)
  have "filter (\<lambda>h. g_Uuid h = i \<and> f h \<noteq> h) l1 = []" "filter (\<lambda>h. g_Uuid h = i \<and> f h \<noteq> h) l2 = []"
    using assms(2,4) by (auto simp: l filter_empty_conv image_iff)
  then have "length (filter (\<lambda>h. g_Uuid h = i \<and> f h \<noteq> h) (group_infos s)) = (if f g = g then 0 else 1)"
    using assms(4) by (simp add: l)
  then show ?thesis using assms by (auto simp: upsert_group_def)
qed

lemma addGroupMember_up:
  assumes "up s" "distinct (map g_Uuid (group_infos s))" "g \<in> set (group_infos s)" "g_Uuid g = i"
  shows "addGroupMember i u s = (True, s\<lparr>group_infos := change (\<lambda>g. g_Uuid g = i) (join_group u (clock s)) (group_infos s)\<rparr>)"
proof -
  have eq: "h = g" if "h \<in> set (group_infos s)" "g_Uuid h = i" for h
    using assms that by (auto intro: uuid_group)
  have same: "change (\<lambda>g. g_Uuid g = i) (add_to_set u) (group_infos s) = change (\<lambda>g. g_Uuid g = i) (join_group u (clock s)) (group_infos s)"
    if "u \<in> set (g_Members g)"
    using eq that by (intro change_eq) (auto simp: add_to_set_def join_group_def)
  have new: "change (\<lambda>g. g_Uuid g = i) (\<lambda>h. (add_to_set u h)\<lparr>g_MemberCnt := g_MemberCnt (add_to_set u h) + 1, g_UpdatedAt := clock s\<rparr>) (group_infos s)
      = change (\<lambda>g. g_Uuid g = i) (join_group u (clock s)) (group_infos s)" if "u \<notin> set (g_Members g)"
    using eq that by (intro change_eq) (auto simp: add_to_set_def join_group_def)
  have ch: "add_to_set u g = g \<longleftrightarrow> u \<in> set (g_Members g)"
  proof -
    have "u \<in> set (g_Members g)" if "g_Members (add_to_set u g) = g_Members g"
      using that by (auto simp: add_to_set_def split: if_splits)
    then show ?thesis by (metis add_to_set_def)
  qed
  show ?thesis
  proof (cases "u \<in> set (g_Members g)")
    case True
    then show ?thesis using same ch by (simp add: addGroupMember_def upsert_one[OF assms])
  next
    case False
    then show ?thesis
      using new ch assms(1) by (simp add: addGroupMember_def upsert_one[OF assms] count_members_def change_twice add_to_set_def)
  qed
qed

lemma ensure_contact_up:
  assumes "up s"
  obtains cs where "ensure_contact ty u x s = (True, s\<lparr>user_contacts := cs\<rparr>)"
    "\<And>v y. has_contact cs v y \<longleftrightarrow> has_contact (user_contacts s) v y \<or> (v = u \<and> y = x)"
proof (cases "first_in (\<lambda>c. uc_UserId c = u \<and> uc_ContactId c = x) (user_contacts s)")
  case (Inl e)
  then have "e = ErrNotFound" using first_in_cases by blast
  then show thesis
    using Inl assms that[of "user_contacts s @ [new_contact u x ty (clock s)]"]
    by (auto simp: ensure_contact_def has_contact_def new_contact_def)
next
  case (Inr c)
  let ?f = "\<lambda>c. c\<lparr>uc_Status := ContactNormal, uc_UpdatedAt := clock s, uc_DeletedAt := None\<rparr>"
  let ?cs = "change (\<lambda>c. uc_UserId c = u \<and> uc_ContactId c = x) ?f (user_contacts s)"
  have c: "c \<in> set (user_contacts s)" "uc_UserId c = u" "uc_ContactId c = x" using first_in_Inr[OF Inr] by auto
  have "has_contact ?cs v y \<longleftrightarrow> has_contact (user_contacts s) v y \<or> (v = u \<and> y = x)" for v y
  proof (cases "v = u \<and> y = x")
    case True
    then show ?thesis using c by (auto simp: has_contact_def set_change intro!: bexI[of _ "?f c"])
  qed (auto simp: has_contact_def set_change)
  then show thesis using that[of ?cs] Inr assms by (simp add: ensure_contact_def)
qed

lemma join_inv:
  assumes "up s" "group_inv s" "g \<in> set (group_infos s)" "active_group i g"
  shows "\<exists>t cs. addGroupMember i u s = (True, t) \<and> ensureGroupContact u i t = (True, t\<lparr>user_contacts := cs\<rparr>) \<and>
    up (t\<lparr>user_contacts := cs\<rparr>) \<and> group_inv (t\<lparr>user_contacts := cs\<rparr>) \<and> (\<exists>h \<in> set (group_infos t). active_group i h)"
proof -
  have d: "distinct (map g_Uuid (group_infos s))" and i: "g_Uuid g = i" "g_DeletedAt g = None" "group_ok g" "member_ok (user_contacts s) g"
    using assms by (auto simp: groups_ok_def active_group_def)
  let ?gs = "change (\<lambda>g. g_Uuid g = i) (join_group u (clock s)) (group_infos s)"
  let ?t = "s\<lparr>group_infos := ?gs\<rparr>"
  have add: "addGroupMember i u s = (True, ?t)" by (rule addGroupMember_up[OF assms(1) d assms(3) i(1)])
  have "up ?t" using assms(1) by simp
  then obtain cs where cs: "ensure_contact ContactTypeGroup u i ?t = (True, ?t\<lparr>user_contacts := cs\<rparr>)"
    and has: "\<And>v y. has_contact cs v y \<longleftrightarrow> has_contact (user_contacts ?t) v y \<or> (v = u \<and> y = i)"
    by (rule ensure_contact_up[where ty = ContactTypeGroup and u = u and x = i]) blast
  have "groups_ok ?gs cs"
  proof (rule groups_ok_change[OF assms(2,3) i(1)])
    show "g_Uuid (join_group u (clock s) g) = i" using i(1) by (simp add: join_group_def)
    show "group_ok (join_group u (clock s) g)" using i(3) by (auto simp: join_group_def group_ok_def)
    show "member_ok cs (join_group u (clock s) g)" using i by (auto simp: join_group_def member_ok_def has)
  qed (simp add: has)
  moreover have "\<exists>h \<in> set ?gs. active_group i h"
    using in_change[OF assms(3), of "\<lambda>g. g_Uuid g = i" "join_group u (clock s)"] i(1,2)
    by (intro bexI[of _ "join_group u (clock s) g"]) (auto simp: active_group_def join_group_def)
  ultimately show ?thesis using add cs assms(1) by (auto simp: ensureGroupContact_def)
qed

definition leave_group :: "string \<Rightarrow> time \<Rightarrow> GroupInfo \<Rightarrow> GroupInfo" where
  "leave_group u now g = (if u \<in> set (g_Members g)
     then g\<lparr>g_Members := filter (\<lambda>x. x \<noteq> u) (g_Members g), g_MemberCnt := g_MemberCnt g - 1, g_UpdatedAt := now\<rparr> else g)"

lemma pull_same: "pull us g = g \<longleftrightarrow> set us \<inter> set (g_Members g) = {}"
proof -
  have "set us \<inter> set (g_Members g) = {}" if "g_Members (pull us g) = g_Members g"
    using that by (auto simp: pull_def filter_id_conv)
  moreover have "pull us g = g" if "set us \<inter> set (g_Members g) = {}"
  proof -
    have "filter (\<lambda>u. u \<notin> set us) (g_Members g) = g_Members g" using that by (auto simp: filter_id_conv)
    then show ?thesis by (simp add: pull_def)
  qed
  ultimately show ?thesis by metis
qed

lemma removeGroupMember_up:
  assumes "up s" "distinct (map g_Uuid (group_infos s))" "g \<in> set (group_infos s)" "g_Uuid g = i"
  shows "removeGroupMember i u s = (True, s\<lparr>group_infos := change (\<lambda>g. g_Uuid g = i) (leave_group u (clock s)) (group_infos s)\<rparr>)"
proof -
  have eq: "h = g" if "h \<in> set (group_infos s)" "g_Uuid h = i" for h
    using assms that by (auto intro: uuid_group)
  have same: "change (\<lambda>g. g_Uuid g = i) (pull [u]) (group_infos s) = change (\<lambda>g. g_Uuid g = i) (leave_group u (clock s)) (group_infos s)"
    if "u \<notin> set (g_Members g)"
    using eq that pull_same[of "[u]" g] by (intro change_eq) (auto simp: leave_group_def)
  have new: "change (\<lambda>g. g_Uuid g = i) (\<lambda>h. (pull [u] h)\<lparr>g_MemberCnt := g_MemberCnt (pull [u] h) + - 1, g_UpdatedAt := clock s\<rparr>) (group_infos s)
      = change (\<lambda>g. g_Uuid g = i) (leave_group u (clock s)) (group_infos s)" if "u \<in> set (g_Members g)"
    using eq that by (intro change_eq) (auto simp: pull_def leave_group_def)
  show ?thesis
  proof (cases "u \<in> set (g_Members g)")
    case False
    then show ?thesis using same pull_same[of "[u]" g] by (simp add: removeGroupMember_def upsert_one[OF assms])
  next
    case True
    then show ?thesis
      using new assms(1) pull_same[of "[u]" g]
      by (simp add: removeGroupMember_def upsert_one[OF assms] count_members_def change_twice)
  qed
qed

lemma has_contact_drop:
  "has_contact (change (\<lambda>c. Q c \<and> uc_DeletedAt c = None) (\<lambda>c. f c\<lparr>uc_DeletedAt := Some now\<rparr>) cs) v y \<longleftrightarrow>
     (\<exists>c \<in> set cs. uc_UserId c = v \<and> uc_ContactId c = y \<and> uc_DeletedAt c = None \<and> \<not> Q c)"
  by (auto simp: has_contact_def set_change)

lemma cleanup_up:
  assumes "up s"
  shows "group_infos (cleanupGroupMembership u i st s) = group_infos s" "up (cleanupGroupMembership u i st s)"
    "has_contact (user_contacts (cleanupGroupMembership u i st s)) v y \<longleftrightarrow> has_contact (user_contacts s) v y \<and> \<not> (v = u \<and> y = i)"
  using assms has_contact_drop[where Q = "\<lambda>c. uc_UserId c = u \<and> uc_ContactId c = i" and f = "\<lambda>c. c\<lparr>uc_Status := st\<rparr>"
      and now = "clock s" and cs = "user_contacts s" and v = v and y = y]
  by (auto simp: cleanupGroupMembership_def Let_def session_cache_del_def has_contact_def conj_assoc)

lemma leave_ok:
  assumes "group_ok g" "u \<noteq> g_OwnerId g"
  shows "group_ok (leave_group u now g)"
proof (cases "u \<in> set (g_Members g)")
  case True
  have "length (filter (\<lambda>x. x \<noteq> u) (g_Members g)) = length (g_Members g) - 1"
    using assms(1) True distinct_remove1_removeAll[of "g_Members g" u] length_remove1[of u "g_Members g"]
    by (simp add: group_ok_def removeAll_filter_not_eq eq_commute)
  moreover have "length (g_Members g) \<ge> 1" using True by (cases "g_Members g") auto
  ultimately show ?thesis using assms True by (auto simp: leave_group_def group_ok_def)
qed (use assms in \<open>simp add: leave_group_def\<close>)

lemma LeaveGroup_inv:
  assumes "up s" "group_inv s"
  shows "group_inv (snd (LeaveGroup u i s))"
proof (cases "first_in (active_group i) (group_infos s)")
  case (Inl e)
  then show ?thesis using assms by (simp add: LeaveGroup_def)
next
  case (Inr g)
  have g: "g \<in> set (group_infos s)" "g_Uuid g = i" "g_DeletedAt g = None" using first_in_Inr[OF Inr] by (auto simp: active_group_def)
  have d: "distinct (map g_Uuid (group_infos s))" "group_ok g" "member_ok (user_contacts s) g" using assms g by (auto simp: groups_ok_def)
  let ?gs = "change (\<lambda>g. g_Uuid g = i) (leave_group u (clock s)) (group_infos s)"
  let ?t = "cleanupGroupMembership u i ContactQuit (s\<lparr>group_infos := ?gs\<rparr>)"
  have up': "up (s\<lparr>group_infos := ?gs\<rparr>)" using assms(1) by simp
  note cl = cleanup_up[OF up', of u i ContactQuit]
  have "group_inv ?t" if "g_OwnerId g \<noteq> u"
  proof -
    have "group_ok (leave_group u (clock s) g)" using that by (intro leave_ok d) simp
    moreover have "member_ok (user_contacts ?t) (leave_group u (clock s) g)" "g_Uuid (leave_group u (clock s) g) = i"
      using d(3) g by (auto simp: member_ok_def leave_group_def cl(3))
    ultimately show ?thesis
      unfolding cl(1) using groups_ok_change[OF assms(2) g(1,2)] by (simp add: cl(3))
  qed
  then show ?thesis
    using Inr assms by (simp add: LeaveGroup_def removeGroupMember_up[OF assms(1) d(1) g(1,2)])
qed

section \<open>Every operation keeps the invariant\<close>

lemma deliver_db [simp]:
  "group_infos (snd (deliver f cs s)) = group_infos s" "user_contacts (snd (deliver f cs s)) = user_contacts s"
  by (induction cs arbitrary: s) (simp_all add: case_prod_beta Let_def set_conn_def)

lemma push_db [simp]:
  "group_infos (PushSystem t us s) = group_infos s" "user_contacts (PushSystem t us s) = user_contacts s" "faults (PushSystem t us s) = faults s"
  by (simp_all add: PushSystem_def sendRaw_def)

lemma touch_db:
  assumes "up s"
  shows "group_infos (touchGroupSessions g s) = group_infos s" "user_contacts (touchGroupSessions g s) = user_contacts s"
  by (rule touchGroupSessions_up[OF assms, of g], simp add: fold_session_cache_del)+

lemma EnterGroupDirectly_inv:
  assumes "up s" "group_inv s"
  shows "group_inv (snd (EnterGroupDirectly u i s))"
proof (cases "first_in (active_group i) (group_infos s)")
  case (Inr g)
  then have g: "g \<in> set (group_infos s)" "active_group i g" by (auto dest: first_in_Inr)
  obtain t cs where "addGroupMember i u s = (True, t)" "ensureGroupContact u i t = (True, t\<lparr>user_contacts := cs\<rparr>)"
    "group_inv (t\<lparr>user_contacts := cs\<rparr>)"
    using join_inv[OF assms g, of u] by blast
  then show ?thesis using Inr assms by (simp add: EnterGroupDirectly_def)
qed (use assms in \<open>simp add: EnterGroupDirectly_def\<close>)

lemma add_newcomers_inv:
  assumes "up s" "group_inv s" "g \<in> set (group_infos s)" "active_group i g"
  shows "up (snd (add_newcomers i us s)) \<and> group_inv (snd (add_newcomers i us s))"
  using assms
proof (induction us arbitrary: s g)
  case (Cons u us)
  obtain t cs h where "addGroupMember i u s = (True, t)" "ensureGroupContact u i t = (True, t\<lparr>user_contacts := cs\<rparr>)"
    "up (t\<lparr>user_contacts := cs\<rparr>)" "group_inv (t\<lparr>user_contacts := cs\<rparr>)" "h \<in> set (group_infos t)" "active_group i h"
    using join_inv[OF Cons.prems, of u] by blast
  then show ?case using Cons.IH[of "t\<lparr>user_contacts := cs\<rparr>" h] by simp
qed simp

lemma InviteGroupMembers_inv:
  assumes "up s" "group_inv s"
  shows "group_inv (snd (InviteGroupMembers i us s))"
proof (cases "first_in (active_group i) (group_infos s)")
  case (Inr g)
  then have g: "g \<in> set (group_infos s)" "active_group i g" by (auto dest: first_in_Inr)
  have "up (snd (add_newcomers i xs s))" "group_inv (snd (add_newcomers i xs s))" for xs
    using add_newcomers_inv[OF assms g] by auto
  then show ?thesis
    using Inr assms by (simp add: InviteGroupMembers_def Let_def case_prod_beta touch_db split: sum.split)
qed (use assms in \<open>simp add: InviteGroupMembers_def\<close>)

text \<open>Groups that are only relabelled, and groups that are closed.\<close>

lemma groups_ok_relabel:
  assumes "groups_ok gs cs"
    and f: "\<And>g. g_Uuid (f g) = g_Uuid g \<and> g_Members (f g) = g_Members g \<and> g_MemberCnt (f g) = g_MemberCnt g \<and>
      g_OwnerId (f g) = g_OwnerId g \<and> g_DeletedAt (f g) = g_DeletedAt g"
  shows "groups_ok (change P f gs) cs"
proof -
  have "map g_Uuid (change P f gs) = map g_Uuid gs" using f by (simp add: change_def)
  then show ?thesis
    using assms(1) f by (elim groups_okI) (auto simp: groups_ok_def set_change group_ok_def member_ok_def)
qed

lemma groups_ok_close:
  assumes "groups_ok gs cs" "\<And>u x. has_contact cs' u x \<longleftrightarrow> has_contact cs u x \<and> x \<notin> X"
    and f: "\<And>g. g_Uuid (f g) = g_Uuid g \<and> g_Members (f g) = g_Members g \<and> g_MemberCnt (f g) = g_MemberCnt g \<and>
      g_OwnerId (f g) = g_OwnerId g \<and> g_DeletedAt (f g) \<noteq> None"
  shows "groups_ok (change (\<lambda>g. g_Uuid g \<in> X) f gs) cs'"
proof -
  have uuids: "map g_Uuid (change (\<lambda>g. g_Uuid g \<in> X) f gs) = map g_Uuid gs" using f by (simp add: change_def)
  have "group_ok (f g) \<longleftrightarrow> group_ok g" "member_ok cs' (f g)" for g
    using f[of g] by (auto simp: group_ok_def member_ok_def)
  moreover have "member_ok cs' g \<longleftrightarrow> member_ok cs g" if "g_Uuid g \<notin> X" for g
    using that assms(2) by (simp add: member_ok_def)
  ultimately show ?thesis
    using assms(1,2) by (intro groups_okI[OF uuids assms(1)]) (auto simp: groups_ok_def set_change)
qed

lemma cascade_up:
  assumes "up s"
  shows "fst (cascadeGroupRemoval i s)" "up (snd (cascadeGroupRemoval i s))" "group_infos (snd (cascadeGroupRemoval i s)) = group_infos s"
    "has_contact (user_contacts (snd (cascadeGroupRemoval i s))) v y \<longleftrightarrow> has_contact (user_contacts s) v y \<and> y \<noteq> i"
  using assms
  by (auto simp: cascadeGroupRemoval_def Let_def invalidate_up fold_session_cache_del has_contact_def set_change)

lemma cascade_all_up:
  assumes "up s"
  shows "group_infos (cascade_all is s) = group_infos s \<and>
    (has_contact (user_contacts (cascade_all is s)) v y \<longleftrightarrow> has_contact (user_contacts s) v y \<and> y \<notin> set is)"
  using assms by (induction "is" arbitrary: s) (auto simp: cascade_up)

lemma DeleteGroups_inv: "up s \<Longrightarrow> group_inv s \<Longrightarrow> group_inv (snd (DeleteGroups is s))"
  by (auto simp: DeleteGroups_def cascade_all_up intro!: groups_ok_close[where cs = "user_contacts s"])

lemma close_sessions_db:
  "up s \<Longrightarrow> group_infos (close_sessions is s) = group_infos s \<and> user_contacts (close_sessions is s) = user_contacts s"
  by (induction "is" arbitrary: s) (simp_all add: invalidate_up fold_session_cache_del)

lemma SetGroupsStatus_inv: "up s \<Longrightarrow> group_inv s \<Longrightarrow> group_inv (snd (SetGroupsStatus is st s))"
  by (auto simp: SetGroupsStatus_def close_sessions_db intro!: groups_ok_relabel)

lemma UpdateGroupInfo_inv: "up s \<Longrightarrow> group_inv s \<Longrightarrow> group_inv (snd (UpdateGroupInfo i f s))"
  by (auto simp: UpdateGroupInfo_def Let_def invalidate_up fold_session_cache_del set_fields_def intro!: groups_ok_relabel)

lemma DismissGroup_inv:
  assumes "up s" "group_inv s"
  shows "group_inv (snd (DismissGroup i s))"
proof -
  let ?t = "s\<lparr>group_infos := change (\<lambda>g. g_Uuid g \<in> {i}) (\<lambda>g. g\<lparr>g_Status := GroupStatusDismiss, g_DeletedAt := Some (clock s)\<rparr>) (group_infos s)\<rparr>"
  have u: "up ?t" and gi: "group_infos ?t = change (\<lambda>g. g_Uuid g \<in> {i}) (\<lambda>g. g\<lparr>g_Status := GroupStatusDismiss, g_DeletedAt := Some (clock s)\<rparr>) (group_infos s)"
    using assms(1) by simp_all
  have "group_inv (snd (cascadeGroupRemoval i ?t))"
    unfolding cascade_up(3)[OF u] gi
    by (rule groups_ok_close[OF assms(2)]) (use cascade_up(4)[OF u] in auto)
  then show ?thesis
    using assms cascade_up[OF u] by (simp add: DismissGroup_def WithTransaction_def case_prod_beta Let_def split: sum.split)
qed

lemma fold_cleanup_up:
  assumes "up s"
  shows "group_infos (fold (\<lambda>u. cleanupGroupMembership u i st) us s) = group_infos s \<and> up (fold (\<lambda>u. cleanupGroupMembership u i st) us s) \<and>
    (has_contact (user_contacts (fold (\<lambda>u. cleanupGroupMembership u i st) us s)) v y \<longleftrightarrow>
       has_contact (user_contacts s) v y \<and> \<not> (v \<in> set us \<and> y = i))"
  using assms by (induction us arbitrary: s) (auto simp: cleanup_up)

lemma find_change_uuid:
  assumes "distinct (map g_Uuid l)" "first_in (active_group i) l = Inr g" "\<And>g. g_Uuid (f g) = g_Uuid g \<and> g_DeletedAt (f g) = g_DeletedAt g"
  shows "first_in (active_group i) (change (\<lambda>g. g_Uuid g = i) f l) = Inr (f g)"
proof -
  have g: "g \<in> set l" "active_group i g" using first_in_Inr[OF assms(2)] by auto
  have fg: "f g \<in> set (change (\<lambda>g. g_Uuid g = i) f l)" "active_group i (f g)"
    using g assms(3) by (auto simp: active_group_def intro: in_change)
  have d: "distinct (map g_Uuid (change (\<lambda>g. g_Uuid g = i) f l))"
    using assms(1,3) by (simp add: change_def comp_def if_distrib[of g_Uuid] cong: if_cong)
  obtain h where h: "first_in (active_group i) (change (\<lambda>g. g_Uuid g = i) f l) = Inr h"
    using fg first_in_cases by (metis sum.exhaust)
  then have "h = f g" using first_in_Inr[OF h] fg d by (auto simp: active_group_def intro: uuid_group)
  with h show ?thesis by simp
qed

lemma RemoveGroupMembers_inv:
  assumes "up s" "group_inv s"
  shows "group_inv (snd (RemoveGroupMembers i us s))"
proof (cases "first_in (active_group i) (group_infos s)")
  case (Inr g)
  have g: "g \<in> set (group_infos s)" "g_Uuid g = i" "g_DeletedAt g = None" using first_in_Inr[OF Inr] by (auto simp: active_group_def)
  have d: "distinct (map g_Uuid (group_infos s))" "group_ok g" "member_ok (user_contacts s) g" using assms g by (auto simp: groups_ok_def)
  let ?f = "\<lambda>g. (pull us g)\<lparr>g_UpdatedAt := clock s\<rparr>"
  let ?n = "int (length (g_Members (pull us g)))"
  let ?h = "\<lambda>g. (?f g)\<lparr>g_MemberCnt := ?n\<rparr>"
  let ?gs = "change (\<lambda>g. g_Uuid g = i) ?h (group_infos s)"
  have up': "up (s\<lparr>group_infos := ?gs\<rparr>)" using assms(1) by simp
  note cl = fold_cleanup_up[OF up', where i = i and st = ContactKicked and us = us]
  have "group_inv (fold (\<lambda>u. cleanupGroupMembership u i ContactKicked) us (s\<lparr>group_infos := ?gs\<rparr>))" if "g_OwnerId g \<notin> set us"
  proof -
    have "group_ok (?h g)" using d(2) that by (simp add: group_ok_def)
    moreover have "member_ok (user_contacts (fold (\<lambda>u. cleanupGroupMembership u i ContactKicked) us (s\<lparr>group_infos := ?gs\<rparr>))) (?h g)"
      using d(3) g cl by (auto simp: member_ok_def)
    ultimately show ?thesis
      using cl g by (simp add: groups_ok_change[OF assms(2) g(1,2)])
  qed
  moreover have "first_in (active_group i) (change (\<lambda>g. g_Uuid g = i) ?f (group_infos s)) = Inr (?f g)"
    by (rule find_change_uuid[OF d(1) Inr]) simp
  ultimately show ?thesis
    using Inr assms(1,2) by (simp add: RemoveGroupMembers_def Let_def change_twice)
qed (use assms in \<open>simp add: RemoveGroupMembers_def\<close>)

lemma add_users_ok: "distinct ms \<Longrightarrow> distinct (add_users o1 us ms) \<and> set ms \<subseteq> set (add_users o1 us ms)"
proof (induction us arbitrary: ms)
  case (Cons a us)
  then show ?case using Cons.IH[of "ms @ [u_Uuid a]"] by auto
qed simp

lemma initial_members_up:
  assumes "up s" "initial_members o1 ids s = (Some ms, t)"
  shows "t = s \<and> distinct ms \<and> o1 \<in> set ms"
proof -
  have "distinct (add_users o1 us [o1]) \<and> o1 \<in> set (add_users o1 us [o1])" for us using add_users_ok[of "[o1]" o1 us] by auto
  then show ?thesis using assms by (auto simp: initial_members_def split: if_splits)
qed

lemma has_contact_new: "has_contact (cs @ [new_contact m i ty now]) v y \<longleftrightarrow> has_contact cs v y \<or> (v = m \<and> y = i)"
  by (auto simp: has_contact_def new_contact_def)

lemma insert_contacts_up:
  assumes "up s"
  shows "\<exists>cs. insert_contacts ms i s = (True, s\<lparr>user_contacts := cs\<rparr>) \<and>
    (\<forall>v y. has_contact cs v y \<longleftrightarrow> has_contact (user_contacts s) v y \<or> (v \<in> set ms \<and> y = i))"
  using assms
proof (induction ms arbitrary: s)
  case Nil
  then show ?case by (auto intro: exI[of _ "user_contacts s"])
next
  case (Cons m ms)
  let ?t = "s\<lparr>user_contacts := user_contacts s @ [new_contact m i ContactTypeGroup (clock s)]\<rparr>"
  have "up ?t" using Cons.prems by simp
  from Cons.IH[OF this] obtain cs where "insert_contacts ms i ?t = (True, ?t\<lparr>user_contacts := cs\<rparr>)"
    "\<forall>v y. has_contact cs v y \<longleftrightarrow> has_contact (user_contacts ?t) v y \<or> (v \<in> set ms \<and> y = i)" by blast
  then show ?case using Cons.prems by (intro exI[of _ cs]) (auto simp: has_contact_new)
qed

lemma notify_db [simp]: "group_infos (notify_members o1 ms s) = group_infos s" "user_contacts (notify_members o1 ms s) = user_contacts s"
  by (induction o1 ms s rule: notify_members.induct) simp_all


lemma groups_ok_new:
  assumes "groups_ok gs cs" "g_Uuid g \<notin> g_Uuid ` set gs" "group_id (g_Uuid g)" "group_ok g"
    and has: "\<And>v y. has_contact cs' v y \<longleftrightarrow> has_contact cs v y \<or> (v \<in> set (g_Members g) \<and> y = g_Uuid g)"
  shows "groups_ok (gs @ [g]) cs'"
proof -
  have "\<not> has_contact cs v (g_Uuid g)" for v using assms(1,2,3) by (auto simp: groups_ok_def)
  then have "member_ok cs' g" by (auto simp: member_ok_def has)
  moreover have "member_ok cs' h" if "h \<in> set gs" for h
  proof -
    have "g_Uuid h \<noteq> g_Uuid g" "member_ok cs h" using that assms(1,2) by (auto simp: groups_ok_def image_iff)
    then show ?thesis by (simp add: member_ok_def has)
  qed
  ultimately show ?thesis using assms(1-4) by (auto simp: groups_ok_def has)
qed

lemma create_tx_up:
  assumes "up s" "group_inv s" "group_id (g_Uuid g)" "group_ok g"
  shows "up (snd (WithTransaction (create_in_tx g) s)) \<and> group_inv (snd (WithTransaction (create_in_tx g) s))"
proof (cases "g_Uuid g \<in> g_Uuid ` set (group_infos s)")
  case True
  then have "Some (g_Uuid g) \<in> (\<lambda>d. Some (g_Uuid d)) ` set (group_infos s)" by auto
  then show ?thesis using assms(1,2) by (simp add: WithTransaction_def create_in_tx_def rollback_def)
next
  case False
  then have new: "Some (g_Uuid g) \<notin> (\<lambda>d. Some (g_Uuid d)) ` set (group_infos s)" by auto
  let ?t = "s\<lparr>group_infos := group_infos s @ [g]\<rparr>"
  have "up ?t" using assms(1) by simp
  from insert_contacts_up[OF this, of "g_Members g" "g_Uuid g"] obtain cs where
    cs: "insert_contacts (g_Members g) (g_Uuid g) ?t = (True, ?t\<lparr>user_contacts := cs\<rparr>)"
    and has: "\<And>v y. has_contact cs v y \<longleftrightarrow> has_contact (user_contacts ?t) v y \<or> (v \<in> set (g_Members g) \<and> y = g_Uuid g)" by blast
  have "groups_ok (group_infos s @ [g]) cs"
    by (rule groups_ok_new[OF assms(2) False assms(3,4)]) (simp add: has)
  then show ?thesis using new cs assms(1) by (simp add: WithTransaction_def create_in_tx_def)
qed



lemma CreateGroup_inv:
  assumes "up s" "group_inv s"
  shows "group_inv (snd (CreateGroup name o1 avatar notice mode ids s))"
proof (cases "mode \<noteq> GroupAddModeDirect \<and> mode \<noteq> GroupAddModeReview")
  case False
  obtain r t where r: "initial_members o1 ids s = (r, t)" by fastforce
  show ?thesis
  proof (cases r)
    case None
    then have "t = s" using r assms(1) by (auto simp: initial_members_def split: if_splits)
    then show ?thesis using False None r assms(2) by (simp add: CreateGroup_def)
  next
    case (Some ms)
    then have t: "t = s" "distinct ms" "o1 \<in> set ms" using initial_members_up[OF assms(1)] r by auto
    let ?g = "new_group name o1 avatar notice mode ms (random s (drawn s)) (clock s)"
    let ?s = "s\<lparr>drawn := Suc (drawn s)\<rparr>"
    have "up (snd (WithTransaction (create_in_tx ?g) ?s)) \<and> group_inv (snd (WithTransaction (create_in_tx ?g) ?s))"
      by (rule create_tx_up) (use assms t in \<open>simp_all add: group_id_def group_ok_def new_group_def\<close>)
    then show ?thesis
      using False r Some t(1) by (auto simp: CreateGroup_def draw_def Let_def touch_db case_prod_beta)
  qed
qed (use assms in \<open>simp add: CreateGroup_def\<close>)


section \<open>Runs of the group service\<close>

text \<open>
  The calls of the group service, each with the database up, and the steps of other services that leave the groups and the contacts with
  groups as they are.
\<close>

inductive group_step :: "chat \<Rightarrow> chat \<Rightarrow> bool" where
  create: "up s \<Longrightarrow> group_step s (snd (CreateGroup name ownerId avatar notice addMode ids s))"
| enter: "up s \<Longrightarrow> group_step s (snd (EnterGroupDirectly userId i s))"
| invite: "up s \<Longrightarrow> group_step s (snd (InviteGroupMembers i ids s))"
| leave: "up s \<Longrightarrow> group_step s (snd (LeaveGroup userId i s))"
| dismiss: "up s \<Longrightarrow> group_step s (snd (DismissGroup i s))"
| update_info: "up s \<Longrightarrow> group_step s (snd (UpdateGroupInfo i fs s))"
| remove: "up s \<Longrightarrow> group_step s (snd (RemoveGroupMembers i ids s))"
| delete: "up s \<Longrightarrow> group_step s (snd (DeleteGroups ids s))"
| set_status: "up s \<Longrightarrow> group_step s (snd (SetGroupsStatus ids st s))"
| others: "group_infos s' = group_infos s \<Longrightarrow> (\<And>u x. group_id x \<Longrightarrow> has_contact (user_contacts s') u x = has_contact (user_contacts s) u x) \<Longrightarrow>
    group_step s s'"

lemmas group_service_inv = CreateGroup_inv EnterGroupDirectly_inv InviteGroupMembers_inv LeaveGroup_inv DismissGroup_inv UpdateGroupInfo_inv
  RemoveGroupMembers_inv DeleteGroups_inv SetGroupsStatus_inv

lemma group_step_inv: "group_step s s' \<Longrightarrow> group_inv s \<Longrightarrow> group_inv s'"
proof (induction rule: group_step.induct)
  case (others s' s)
  have "member_ok (user_contacts s') g" if "g \<in> set (group_infos s)" for g
    using that others by (auto simp: groups_ok_def member_ok_def)
  then show ?case using others by (auto simp: groups_ok_def)
qed (simp_all add: group_service_inv)

lemma group_run_inv: "group_step\<^sup>*\<^sup>* s s' \<Longrightarrow> group_inv s \<Longrightarrow> group_inv s'"
  by (induction rule: rtranclp_induct) (auto intro: group_step_inv)

text \<open>
  C39. After any run of the group service that starts with no group and no contact with one, ids of groups are unique, the stored member
  count of every group is the number of its members, the owner is one of them and nobody is listed twice; and a user is a member of a group
  that has not been dismissed exactly when the group is among the contacts of that user.
\<close>

theorem group_membership_consistent:
  assumes "group_infos s = []" "\<And>u x. group_id x \<Longrightarrow> \<not> has_contact (user_contacts s) u x" "group_step\<^sup>*\<^sup>* s s'" "g \<in> set (group_infos s')"
  shows "g_MemberCnt g = int (length (g_Members g)) \<and> distinct (g_Members g) \<and> g_OwnerId g \<in> set (g_Members g) \<and>
    (\<forall>h \<in> set (group_infos s'). g_Uuid h = g_Uuid g \<longrightarrow> h = g) \<and>
    (g_DeletedAt g = None \<longrightarrow> (\<forall>u. u \<in> set (g_Members g) \<longleftrightarrow> has_contact (user_contacts s') u (g_Uuid g)))"
proof -
  have "group_inv s" using assms(1,2) by (simp add: groups_ok_def)
  then have inv: "group_inv s'" using group_run_inv assms(3) by blast
  then have "group_ok g" "member_ok (user_contacts s') g" using assms(4) by (auto simp: groups_ok_def)
  moreover have "\<forall>h \<in> set (group_infos s'). g_Uuid h = g_Uuid g \<longrightarrow> h = g"
    using inv assms(4) by (auto simp: groups_ok_def intro: uuid_group)
  ultimately show ?thesis by (auto simp: group_ok_def member_ok_def)
qed

definition sample_grouped :: chat where
  "sample_grouped = snd (EnterGroupDirectly ''U2'' ''G'' (snd (CreateGroup ''team'' ''U1'' [] [] GroupAddModeDirect [] sample_chat)))"


theorem group_membership_consistent_witness:
  "let g = hd (group_infos sample_grouped) in
   g_Uuid g = ''G'' \<and> g_Members g = [''U1'', ''U2''] \<and> g_MemberCnt g = 2 \<and> g_DeletedAt g = None \<and> has_contact (user_contacts sample_grouped) ''U2'' ''G''"
proof -
  let ?a = "snd (CreateGroup ''team'' ''U1'' [] [] GroupAddModeDirect [] sample_chat)"
  let ?g = "hd (group_infos sample_grouped)"
  have "up sample_chat" "up ?a" by code_simp+
  then have "group_step sample_chat ?a" "group_step ?a sample_grouped" unfolding sample_grouped_def by (auto intro: create enter)
  then have run: "group_step\<^sup>*\<^sup>* sample_chat sample_grouped" by (meson converse_rtranclp_into_rtranclp r_into_rtranclp)
  have start: "group_infos sample_chat = []" "\<not> has_contact (user_contacts sample_chat) u x" for u x
    by (simp_all add: sample_chat_def has_contact_def)
  have g: "group_infos sample_grouped \<noteq> []" "g_Uuid ?g = ''G''" "g_Members ?g = [''U1'', ''U2'']" "g_DeletedAt ?g = None" by code_simp+
  show ?thesis
    using group_membership_consistent[OF start run hd_in_set[OF g(1)]] g by (auto simp: Let_def)
qed

text \<open>
  The member list and the count are two updates, outside any transaction. When the second one fails, the user is a member with no contact
  and a count that leaves the user out, and trying again is refused because the user is already a member.
\<close>

theorem failed_count_leaves_half_a_member:
  "let s = snd (CreateGroup ''team'' ''U1'' [] [] GroupAddModeDirect [] sample_chat);
       (r, s1) = EnterGroupDirectly ''U2'' ''G'' (s\<lparr>faults := [True, True, False]\<rparr>);
       (r', s2) = EnterGroupDirectly ''U2'' ''G'' s1
   in r = (SystemError, -1) \<and> up s1 \<and> map g_Members (group_infos s1) = [[''U1'', ''U2'']] \<and> map g_MemberCnt (group_infos s1) = [1] \<and>
      \<not> has_contact (user_contacts s1) ''U2'' ''G'' \<and> r' = (''already a group member'', -2)"
  by code_simp

text \<open>
  Dismissing a group runs in a transaction; deleting it from the administration does not. When the removal of contacts fails there, the
  group is gone while it stays among the contacts of its members, and the call reports success.
\<close>

theorem failed_cascade_is_reported_as_success:
  "let (r, s) = DeleteGroups [''G''] (sample_grouped\<lparr>faults := [True, True, True, False]\<rparr>)
   in r = (''groups deleted'', 0) \<and> up s \<and> map g_DeletedAt (group_infos s) = [Some 1] \<and> has_contact (user_contacts s) ''U2'' ''G''"
  by code_simp

end
