(* ===== verification/Raft_Log.thy ===== *)
theory Raft_Log
  imports Prelude
begin

text \<open>
  The replicated log of the raft application (\<open>src/apps/raft_demo/raft\<close>): entries (\<open>model.go\<close>), the
  memory storage (\<open>storage.go\<close>) and the log with its unpersisted tail (\<open>log.go\<close>).

  Indices and terms are \<open>uint64\<close> values kept as natural numbers below \<open>2^64\<close>; where the code subtracts
  without a guard the wrap-around is written out (\<open>u64_dec\<close>). Every \<open>panic\<close> and every index out of
  range is \<open>None\<close>.

  The abstract log is the list \<open>log_view\<close> of the entries after the storage's first, dummy entry: the
  storage up to the offset of the unpersisted tail, then that tail. The lemmas show that every
  operation is the expected one on this list.
\<close>

section \<open>Entries\<close>

datatype EntryType = EntryNormal | EntryConfChange

record Entry =
  e_Term :: nat
  e_Index :: nat
  e_Type :: EntryType
  e_Data :: bytes

definition zero_entry :: Entry where
  "zero_entry = \<lparr>e_Term = 0, e_Index = 0, e_Type = EntryNormal, e_Data = []\<rparr>"

record HardState =
  hs_Term :: nat
  hs_Vote :: nat
  hs_Commit :: nat

definition emptyHardState :: HardState where
  "emptyHardState = \<lparr>hs_Term = 0, hs_Vote = 0, hs_Commit = 0\<rparr>"

definition u64_dec :: "nat \<Rightarrow> nat" where
  "u64_dec x = (if x = 0 then 2 ^ 64 - 1 else x - 1)"

section \<open>Memory storage\<close>

datatype store_err = ErrCompacted | ErrUnavailable

record MemoryStorage =
  hardState :: HardState
  ents :: "Entry list"

definition NewMemoryStorage :: MemoryStorage where
  "NewMemoryStorage = \<lparr>hardState = emptyHardState, ents = [zero_entry]\<rparr>"

definition sub :: "nat \<Rightarrow> nat \<Rightarrow> 'a list \<Rightarrow> 'a list option" where
  "sub l r xs = (if l \<le> r \<and> r \<le> length xs then Some (take (r - l) (drop l xs)) else None)"

definition ms_lastIndex :: "MemoryStorage \<Rightarrow> nat option" where
  "ms_lastIndex m = map_option (\<lambda>e. e_Index e + length (ents m) - 1) (rd (ents m) 0)"

definition ms_firstIndex :: "MemoryStorage \<Rightarrow> nat option" where
  "ms_firstIndex m = map_option (\<lambda>e. e_Index e + 1) (rd (ents m) 0)"

definition ms_Entries :: "nat \<Rightarrow> nat \<Rightarrow> MemoryStorage \<Rightarrow> (store_err + Entry list) option" where
  "ms_Entries l r m = do {
     e0 \<leftarrow> rd (ents m) 0;
     li \<leftarrow> ms_lastIndex m;
     (if l \<le> e_Index e0 then Some (Inl ErrCompacted)
      else if r > li + 1 then Some (Inl ErrUnavailable)
      else if length (ents m) = 1 then Some (Inl ErrUnavailable)
      else map_option Inr (sub (l - e_Index e0) (r - e_Index e0) (ents m))) }"

definition ms_Term :: "nat \<Rightarrow> MemoryStorage \<Rightarrow> (store_err + nat) option" where
  "ms_Term i m = do {
     e0 \<leftarrow> rd (ents m) 0;
     (if i < e_Index e0 then Some (Inl ErrCompacted)
      else if i - e_Index e0 \<ge> length (ents m) then Some (Inl ErrUnavailable)
      else map_option (Inr \<circ> e_Term) (rd (ents m) (i - e_Index e0))) }"

definition ms_Append :: "Entry list \<Rightarrow> MemoryStorage \<Rightarrow> (MemoryStorage \<times> store_err option) option" where
  "ms_Append entries m = (case entries of
     [] \<Rightarrow> Some (m, None)
   | e # _ \<Rightarrow> do {
       e0 \<leftarrow> rd (ents m) 0;
       li \<leftarrow> ms_lastIndex m;
       (if e_Index e < e_Index e0 then Some (m, None)
        else if e_Index e > li + 1 then Some (m, Some ErrUnavailable)
        else Some (m\<lparr>ents := take (e_Index e - e_Index e0) (ents m) @ entries\<rparr>, None)) })"

definition ms_SetHardState :: "HardState \<Rightarrow> MemoryStorage \<Rightarrow> MemoryStorage" where
  "ms_SetHardState hs m = m\<lparr>hardState := hs\<rparr>"

section \<open>The unpersisted tail\<close>

record unstable =
  u_entries :: "Entry list"
  u_offset :: nat

definition u_slice :: "nat \<Rightarrow> nat \<Rightarrow> unstable \<Rightarrow> Entry list option" where
  "u_slice l r u =
     (if l > r then None
      else if l < u_offset u \<or> r > u_offset u + length (u_entries u) then None
      else sub (l - u_offset u) (r - u_offset u) (u_entries u))"

definition truncateAndAppend :: "Entry list \<Rightarrow> unstable \<Rightarrow> unstable option" where
  "truncateAndAppend entries u = do {
     e \<leftarrow> rd entries 0;
     let after = e_Index e;
     (if after = u_offset u + length (u_entries u) then Some (u\<lparr>u_entries := u_entries u @ entries\<rparr>)
      else if after \<le> u_offset u then Some \<lparr>u_entries = entries, u_offset = after\<rparr>
      else map_option (\<lambda>keep. u\<lparr>u_entries := keep @ entries\<rparr>) (u_slice (u_offset u) after u)) }"

definition maybeLastIndex :: "unstable \<Rightarrow> nat option" where
  "maybeLastIndex u = (if u_entries u \<noteq> [] then Some (u_offset u + length (u_entries u) - 1) else None)"

definition maybeTerm :: "nat \<Rightarrow> unstable \<Rightarrow> nat option" where
  "maybeTerm i u =
     (if i < u_offset u then None
      else case maybeLastIndex u of
        None \<Rightarrow> None
      | Some li \<Rightarrow> if i > li then None else Some (e_Term (u_entries u ! (i - u_offset u))))"

definition u_stableTo :: "nat \<Rightarrow> nat \<Rightarrow> unstable \<Rightarrow> unstable" where
  "u_stableTo i t u = (case maybeTerm i u of
     None \<Rightarrow> u
   | Some gt \<Rightarrow> if t = gt \<and> i \<ge> u_offset u
       then \<lparr>u_entries = drop (i - u_offset u + 1) (u_entries u), u_offset = i + 1\<rparr> else u)"

section \<open>The log\<close>

record raftLog =
  storage :: MemoryStorage
  unst :: unstable
  commitIndex :: nat
  applyIndex :: nat

definition newRaftLog :: "MemoryStorage \<Rightarrow> raftLog option" where
  "newRaftLog s = do {
     firstIndex \<leftarrow> ms_firstIndex s;
     lastIndex \<leftarrow> ms_lastIndex s;
     Some \<lparr>storage = s, unst = \<lparr>u_entries = [], u_offset = lastIndex + 1\<rparr>,
           commitIndex = u64_dec firstIndex, applyIndex = u64_dec firstIndex\<rparr> }"

definition stableTo :: "nat \<Rightarrow> nat \<Rightarrow> raftLog \<Rightarrow> raftLog" where
  "stableTo i t l = l\<lparr>unst := u_stableTo i t (unst l)\<rparr>"

definition unstableEntries :: "raftLog \<Rightarrow> Entry list" where
  "unstableEntries l = u_entries (unst l)"

definition firstIndex :: "raftLog \<Rightarrow> nat option" where
  "firstIndex l = ms_firstIndex (storage l)"

definition lastIndex :: "raftLog \<Rightarrow> nat option" where
  "lastIndex l = (case maybeLastIndex (unst l) of Some i \<Rightarrow> Some i | None \<Rightarrow> ms_lastIndex (storage l))"

definition log_mustCheck :: "nat \<Rightarrow> nat \<Rightarrow> raftLog \<Rightarrow> unit option" where
  "log_mustCheck lo hi l =
     (if lo > hi then None
      else do {
        fi \<leftarrow> firstIndex l;
        (if lo < fi then None
         else do {
           li \<leftarrow> lastIndex l;
           (if hi > li + 1 then None else Some ()) }) })"

definition log_slice :: "nat \<Rightarrow> nat \<Rightarrow> raftLog \<Rightarrow> Entry list option" where
  "log_slice lo hi l = do {
     _ \<leftarrow> log_mustCheck lo hi l;
     (if lo = hi then Some []
      else do {
        stable \<leftarrow> (if lo < u_offset (unst l)
          then (case ms_Entries lo (min (u_offset (unst l)) hi) (storage l) of
                  Some (Inr es) \<Rightarrow> Some es | _ \<Rightarrow> None)
          else Some []);
        tail \<leftarrow> (if hi > u_offset (unst l) then u_slice (max lo (u_offset (unst l))) hi (unst l) else Some []);
        Some (stable @ tail) }) }"

definition nextEntries :: "raftLog \<Rightarrow> Entry list option" where
  "nextEntries l = do {
     fi \<leftarrow> firstIndex l;
     let off = max (applyIndex l + 1) fi;
     (if commitIndex l + 1 > off then log_slice off (commitIndex l + 1) l else Some []) }"

definition log_append :: "Entry list \<Rightarrow> raftLog \<Rightarrow> raftLog option" where
  "log_append entries l = (case entries of
     [] \<Rightarrow> Some l
   | e # _ \<Rightarrow>
       if u64_dec (e_Index e) < commitIndex l then None
       else map_option (\<lambda>u. l\<lparr>unst := u\<rparr>) (truncateAndAppend entries (unst l)))"

definition log_term :: "nat \<Rightarrow> raftLog \<Rightarrow> (store_err + nat) option" where
  "log_term i l = do {
     fi \<leftarrow> firstIndex l;
     li \<leftarrow> lastIndex l;
     (if i < u64_dec fi \<or> i > li then Some (Inr 0)
      else case maybeTerm i (unst l) of
        Some t \<Rightarrow> if t \<noteq> 0 then Some (Inr t) else ms_Term i (storage l)
      | None \<Rightarrow> ms_Term i (storage l)) }"

definition lastTerm :: "raftLog \<Rightarrow> nat option" where
  "lastTerm l = do {
     li \<leftarrow> lastIndex l;
     r \<leftarrow> log_term li l;
     (case r of Inr t \<Rightarrow> Some t | Inl _ \<Rightarrow> None) }"

definition isUpToDate :: "nat \<Rightarrow> nat \<Rightarrow> raftLog \<Rightarrow> bool option" where
  "isUpToDate index term l = do {
     lt \<leftarrow> lastTerm l;
     li \<leftarrow> lastIndex l;
     Some (term > lt \<or> (term = lt \<and> index \<ge> li)) }"

definition appliedTo :: "nat \<Rightarrow> raftLog \<Rightarrow> raftLog option" where
  "appliedTo i l =
     (if i = 0 then Some l
      else if commitIndex l < i \<or> i < applyIndex l then None
      else Some (l\<lparr>applyIndex := i\<rparr>))"

definition log_entries :: "nat \<Rightarrow> raftLog \<Rightarrow> Entry list option" where
  "log_entries i l = do {
     li \<leftarrow> lastIndex l;
     (if i > li then Some [] else log_slice i (li + 1) l) }"

definition commitTo :: "nat \<Rightarrow> raftLog \<Rightarrow> raftLog option" where
  "commitTo toCommit l =
     (if commitIndex l \<ge> toCommit then Some l
      else do {
        li \<leftarrow> lastIndex l;
        (if li < toCommit then None else Some (l\<lparr>commitIndex := toCommit\<rparr>)) })"

definition zeroTermOnErrCompacted :: "store_err + nat \<Rightarrow> nat option" where
  "zeroTermOnErrCompacted r = (case r of Inr t \<Rightarrow> Some t | Inl ErrCompacted \<Rightarrow> Some 0 | Inl ErrUnavailable \<Rightarrow> None)"

definition log_maybeCommit :: "nat \<Rightarrow> nat \<Rightarrow> raftLog \<Rightarrow> (raftLog \<times> bool) option" where
  "log_maybeCommit maxIndex term l =
     (if maxIndex > commitIndex l then do {
        r \<leftarrow> log_term maxIndex l;
        t \<leftarrow> zeroTermOnErrCompacted r;
        (if t = term then map_option (\<lambda>l. (l, True)) (commitTo maxIndex l) else Some (l, False)) }
      else Some (l, False))"

definition matchTerm :: "nat \<Rightarrow> nat \<Rightarrow> raftLog \<Rightarrow> bool option" where
  "matchTerm logIndex logTerm l = do {
     r \<leftarrow> log_term logIndex l;
     Some (case r of Inl _ \<Rightarrow> False | Inr t \<Rightarrow> t = logTerm) }"

fun findConflict :: "Entry list \<Rightarrow> raftLog \<Rightarrow> nat option" where
  "findConflict [] l = Some 0"
| "findConflict (ent # entries) l = do {
     ok \<leftarrow> matchTerm (e_Index ent) (e_Term ent) l;
     (if ok then findConflict entries l else Some (e_Index ent)) }"

text \<open>The answer is the log and, when the preceding entry matches, the last new index.\<close>

definition maybeAppend :: "nat \<Rightarrow> nat \<Rightarrow> nat \<Rightarrow> Entry list \<Rightarrow> raftLog \<Rightarrow> (raftLog \<times> nat option) option" where
  "maybeAppend logIndex logTerm ci entries l = do {
     ok \<leftarrow> matchTerm logIndex logTerm l;
     (if \<not> ok then Some (l, None)
      else do {
        let lastNewI = logIndex + length entries;
        conflictStart \<leftarrow> findConflict entries l;
        l \<leftarrow> (if conflictStart = 0 then Some l
              else if conflictStart \<le> commitIndex l then None
              else if conflictStart < logIndex + 1 \<or> conflictStart - (logIndex + 1) > length entries then None
              else log_append (drop (conflictStart - (logIndex + 1)) entries) l);
        l \<leftarrow> commitTo (min ci lastNewI) l;
        Some (l, Some lastNewI) }) }"

section \<open>The abstract log\<close>

definition base :: "raftLog \<Rightarrow> nat" where
  "base l = e_Index (ents (storage l) ! 0)"

definition consec :: "nat \<Rightarrow> Entry list \<Rightarrow> bool" where
  "consec b es \<longleftrightarrow> (\<forall>i<length es. e_Index (es ! i) = b + i)"

definition log_view :: "raftLog \<Rightarrow> Entry list" where
  "log_view l = take (u_offset (unst l) - base l - 1) (tl (ents (storage l))) @ u_entries (unst l)"

text \<open>Indices are consecutive, the tail starts within the storage, terms are positive, the commit index is covered.\<close>

definition log_ok :: "raftLog \<Rightarrow> bool" where
  "log_ok l \<longleftrightarrow> ents (storage l) \<noteq> [] \<and> consec (base l) (ents (storage l)) \<and> consec (u_offset (unst l)) (u_entries (unst l)) \<and>
     base l < u_offset (unst l) \<and> u_offset (unst l) \<le> base l + length (ents (storage l)) \<and>
     (u_entries (unst l) = [] \<longrightarrow> u_offset (unst l) = base l + length (ents (storage l))) \<and>
     (\<forall>e \<in> set (tl (ents (storage l))) \<union> set (u_entries (unst l)). 0 < e_Term e) \<and>
     base l \<le> commitIndex l \<and> commitIndex l \<le> base l + length (log_view l)"

lemma consec_append: "consec b (xs @ ys) \<longleftrightarrow> consec b xs \<and> consec (b + length xs) ys"
proof
  assume a: "consec b (xs @ ys)"
  have "e_Index (ys ! i) = b + length xs + i" if "i < length ys" for i
    using a [unfolded consec_def, rule_format, of "length xs + i"] that by (simp add: nth_append)
  moreover have "e_Index (xs ! i) = b + i" if "i < length xs" for i
    using a [unfolded consec_def, rule_format, of i] that by (simp add: nth_append)
  ultimately show "consec b xs \<and> consec (b + length xs) ys" by (simp add: consec_def)
qed (auto simp: consec_def nth_append)

lemma consec_simps:
  "consec b []" "consec b xs \<Longrightarrow> consec b (take n xs)" "n \<le> length xs \<Longrightarrow> consec b xs \<Longrightarrow> consec (b + n) (drop n xs)"
  using consec_append [of b "take n xs" "drop n xs"] by (auto simp: consec_def)

lemma length_view: "log_ok l \<Longrightarrow> length (log_view l) = u_offset (unst l) - base l - 1 + length (u_entries (unst l))"
  by (cases "ents (storage l)") (auto simp: log_ok_def log_view_def)

lemma ents_Cons: "log_ok l \<Longrightarrow> ents (storage l) = (ents (storage l) ! 0) # tl (ents (storage l))"
  by (metis hd_conv_nth list.collapse log_ok_def)

lemma firstIndex_view: "log_ok l \<Longrightarrow> firstIndex l = Some (base l + 1)"
  by (auto simp: log_ok_def firstIndex_def ms_firstIndex_def base_def rd_def)

lemma lastIndex_view: "log_ok l \<Longrightarrow> lastIndex l = Some (base l + length (log_view l))"
proof -
  assume ok: "log_ok l"
  then have "ms_lastIndex (storage l) = Some (base l + length (ents (storage l)) - 1)"
    by (auto simp: log_ok_def ms_lastIndex_def base_def rd_def)
  then show ?thesis using ok length_view [OF ok] by (auto simp: log_ok_def lastIndex_def maybeLastIndex_def)
qed

text \<open>The term of an index: that of the dummy entry at the base, of the entry of the view above it, and 0 elsewhere.\<close>

definition vterm :: "raftLog \<Rightarrow> nat \<Rightarrow> nat" where
  "vterm l i = (if i = base l then e_Term (ents (storage l) ! 0)
     else if base l < i \<and> i \<le> base l + length (log_view l) then e_Term (log_view l ! (i - base l - 1)) else 0)"

lemma log_term_view:
  assumes "log_ok l"
  shows "log_term i l = Some (Inr (vterm l i))"
proof (cases "base l \<le> i \<and> i \<le> base l + length (log_view l)")
  case False
  then show ?thesis using assms
    by (auto simp: log_term_def firstIndex_view lastIndex_view u64_dec_def vterm_def)
next
  case True
  let ?u = "unst l" and ?es = "ents (storage l)"
  have lt: "log_term i l = (case maybeTerm i ?u of Some t \<Rightarrow> if t \<noteq> 0 then Some (Inr t) else ms_Term i (storage l) | None \<Rightarrow> ms_Term i (storage l))"
    using True assms by (simp add: log_term_def firstIndex_view lastIndex_view u64_dec_def)
  note ok = assms [unfolded log_ok_def]
  show ?thesis
  proof (cases "i < u_offset ?u")
    case less: True
    then have n: "i - base l < length ?es" using ok True by linarith
    have "maybeTerm i ?u = None" using less by (simp add: maybeTerm_def)
    moreover have "ms_Term i (storage l) = Some (Inr (e_Term (?es ! (i - base l))))"
      using True n ok by (auto simp: ms_Term_def rd_def base_def)
    moreover have "e_Term (?es ! (i - base l)) = vterm l i"
    proof (cases "i = base l")
      case False
      then have i: "base l < i" "i - base l - 1 < u_offset ?u - base l - 1" "i - base l - 1 < length (tl ?es)"
        using True less n by auto
      then have "log_view l ! (i - base l - 1) = tl ?es ! (i - base l - 1)" by (simp add: log_view_def nth_append)
      also have "\<dots> = ?es ! (i - base l)" using i by (simp add: nth_tl Suc_diff_Suc)
      finally show ?thesis using True False by (simp add: vterm_def)
    qed (simp add: vterm_def)
    ultimately show ?thesis using lt by simp
  next
    case False
    have ne: "u_entries ?u \<noteq> []"
    proof
      assume "u_entries ?u = []"
      then have "length (log_view l) = length ?es - 1" "?es \<noteq> []" "\<not> i < base l + length ?es" using False length_view [OF assms] ok by auto
      then show False using True by (cases ?es) auto
    qed
    have k: "i - u_offset ?u < length (u_entries ?u)" using True False ne length_view [OF assms] ok by auto
    then have "maybeTerm i ?u = Some (e_Term (u_entries ?u ! (i - u_offset ?u)))"
      using False ne by (auto simp: maybeTerm_def maybeLastIndex_def)
    moreover have "0 < e_Term (u_entries ?u ! (i - u_offset ?u))" using ok k nth_mem by blast
    moreover have "log_view l ! (i - base l - 1) = u_entries ?u ! (i - u_offset ?u)"
    proof -
      have len: "length (take (u_offset ?u - base l - 1) (tl ?es)) = u_offset ?u - base l - 1" using ok by auto
      have "i - base l - 1 = (u_offset ?u - base l - 1) + (i - u_offset ?u)" using ok False by linarith
      then show ?thesis unfolding log_view_def using len by (simp add: nth_append)
    qed
    ultimately show ?thesis using lt True False ok by (auto simp: vterm_def)
  qed
qed

lemma matchTerm_view: "log_ok l \<Longrightarrow> matchTerm i t l = Some (vterm l i = t)"
  by (simp add: matchTerm_def log_term_view)

lemma log_slice_view:
  assumes "log_ok l" "base l < lo" "lo \<le> hi" "hi \<le> base l + length (log_view l) + 1"
  shows "log_slice lo hi l = Some (take (hi - lo) (drop (lo - base l - 1) (log_view l)))"
proof (cases "lo = hi")
  case True
  then show ?thesis using assms by (simp add: log_slice_def log_mustCheck_def firstIndex_view lastIndex_view)
next
  case False
  let ?u = "unst l" and ?es = "ents (storage l)" and ?o = "u_offset (unst l)"
  note ok = assms(1) [unfolded log_ok_def]
  have len: "length (log_view l) = ?o - base l - 1 + length (u_entries ?u)" by (rule length_view [OF assms(1)])
  have check: "log_mustCheck lo hi l = Some ()" using assms by (simp add: log_mustCheck_def firstIndex_view lastIndex_view)
  define st where "st = take (min ?o hi - lo) (drop (lo - base l - 1) (take (?o - base l - 1) (tl ?es)))"
  define tl' where "tl' = take (hi - max lo ?o) (drop (max lo ?o - ?o) (u_entries ?u))"
  have 1: "(if lo < ?o then (case ms_Entries lo (min ?o hi) (storage l) of Some (Inr es) \<Rightarrow> Some es | _ \<Rightarrow> None) else Some []) = Some st"
  proof (cases "lo < ?o")
    case True
    have "sub (lo - base l) (min ?o hi - base l) ?es = Some (take (min ?o hi - lo) (drop (lo - base l) ?es))"
      using True assms(2,3) ok by (auto simp: sub_def)
    moreover have "drop (lo - base l) ?es = drop (lo - base l - 1) (tl ?es)"
      using assms(2) by (simp add: drop_Suc [symmetric] Suc_diff_Suc)
    moreover have "take (min ?o hi - lo) (drop (lo - base l - 1) (tl ?es)) = st"
      using assms(2) True unfolding st_def by (simp add: drop_take take_take min_def)
    moreover have "1 < length ?es" using True assms(2) ok by linarith
    ultimately show ?thesis using True assms(2) ok
      by (auto simp: ms_Entries_def ms_lastIndex_def rd_def base_def)
  next
    case False
    then show ?thesis by (simp add: st_def)
  qed
  have 2: "(if hi > ?o then u_slice (max lo ?o) hi ?u else Some []) = Some tl'"
    using assms(3,4) False len ok by (auto simp: u_slice_def sub_def tl'_def)
  have "st @ tl' = take (hi - lo) (drop (lo - base l - 1) (log_view l))"
  proof -
    let ?a = "take (?o - base l - 1) (tl ?es)"
    have la: "length ?a = ?o - base l - 1" using ok by auto
    show ?thesis
    proof (cases "lo < ?o")
      case True
      have "take (hi - lo) (drop (lo - base l - 1) ?a) = st"
        unfolding st_def using True assms(2) la by (cases "hi \<le> ?o") (simp_all add: min_def)
      moreover have "hi - lo - (?o - base l - 1 - (lo - base l - 1)) = hi - max lo ?o" using True assms(2,3) by linarith
      ultimately show ?thesis using True assms(2) la by (simp add: log_view_def tl'_def)
    next
      case False
      have "lo - base l - 1 - (?o - base l - 1) = max lo ?o - ?o" using False ok by linarith
      then show ?thesis using False la by (simp add: log_view_def tl'_def st_def)
    qed
  qed
  then show ?thesis using False check 1 2 by (simp add: log_slice_def)
qed

lemma view_consec: "log_ok l \<Longrightarrow> consec (base l + 1) (log_view l)"
proof -
  assume ok: "log_ok l"
  let ?es = "ents (storage l)" and ?n = "u_offset (unst l) - base l - 1"
  have "consec (base l + 1) (tl ?es)"
    using ok consec_append [of "base l" "[?es ! 0]" "tl ?es"] ents_Cons [OF ok] by (simp add: log_ok_def)
  then have "consec (base l + 1) (take ?n (tl ?es))" by (rule consec_simps(2))
  moreover have "base l + 1 + length (take ?n (tl ?es)) = u_offset (unst l)" using ok by (auto simp: log_ok_def)
  moreover have "consec (u_offset (unst l)) (u_entries (unst l))" using ok by (simp add: log_ok_def)
  ultimately show ?thesis unfolding log_view_def consec_append by metis
qed

text \<open>A batch of entries that may be appended: consecutive from \<open>f\<close>, with positive terms.\<close>

definition batch :: "nat \<Rightarrow> Entry list \<Rightarrow> bool" where
  "batch f es \<longleftrightarrow> consec f es \<and> (\<forall>e \<in> set es. 0 < e_Term e)"

lemma batch_drop: "batch f es \<Longrightarrow> n \<le> length es \<Longrightarrow> batch (f + n) (drop n es)"
  by (auto simp: batch_def consec_simps dest: in_set_dropD)

lemma truncateAndAppend_view:
  assumes "log_ok l" "batch f es" "es \<noteq> []" "base l < f" "f \<le> base l + length (log_view l) + 1"
  obtains u where "truncateAndAppend es (unst l) = Some u" "u_entries u \<noteq> []" "consec (u_offset u) (u_entries u)" "base l < u_offset u"
    "u_offset u \<le> u_offset (unst l)" "\<forall>e \<in> set (u_entries u). 0 < e_Term e"
    "log_view (l\<lparr>unst := u\<rparr>) = take (f - base l - 1) (log_view l) @ es"
proof -
  let ?u = "unst l" and ?o = "u_offset (unst l)" and ?es = "ents (storage l)"
  let ?a = "take (?o - base l - 1) (tl ?es)"
  note ok = assms(1) [unfolded log_ok_def]
  have f: "rd es 0 = Some (es ! 0)" "e_Index (es ! 0) = f" using assms(2,3) by (auto simp: rd_def batch_def consec_def)
  have la: "length ?a = ?o - base l - 1" "base l < ?o" using ok by auto
  have len: "length (log_view l) = ?o - base l - 1 + length (u_entries ?u)" by (rule length_view [OF assms(1)])
  have b: "base (l\<lparr>unst := v\<rparr>) = base l" for v by (simp add: base_def)
  consider "f = ?o + length (u_entries ?u)" | "f \<noteq> ?o + length (u_entries ?u)" "f \<le> ?o" | "?o < f" "f < ?o + length (u_entries ?u)"
    using assms(5) len la(2) by linarith
  then show thesis
  proof cases
    case 1
    let ?v = "?u\<lparr>u_entries := u_entries ?u @ es\<rparr>"
    have "log_view (l\<lparr>unst := ?v\<rparr>) = take (f - base l - 1) (log_view l) @ es"
      using len 1 la by (simp add: log_view_def b)
    then show thesis using 1 f ok assms(2,3) by (intro that [of ?v]) (auto simp: truncateAndAppend_def batch_def consec_append)
  next
    case 2
    let ?v = "\<lparr>u_entries = es, u_offset = f\<rparr>"
    have "log_view (l\<lparr>unst := ?v\<rparr>) = take (f - base l - 1) (log_view l) @ es"
      using 2 la by (simp add: log_view_def b min_def)
    then show thesis using 2 f assms(2,3,4) by (intro that [of ?v]) (auto simp: truncateAndAppend_def batch_def)
  next
    case 3
    let ?k = "take (f - ?o) (u_entries ?u)" and ?v = "?u\<lparr>u_entries := take (f - ?o) (u_entries ?u) @ es\<rparr>"
    have t: "truncateAndAppend es ?u = Some ?v" using 3 f by (simp add: truncateAndAppend_def u_slice_def sub_def)
    have "f - base l - 1 - (?o - base l - 1) = f - ?o" "?o - base l - 1 \<le> f - base l - 1" using 3 la(2) by linarith+
    then have "log_view (l\<lparr>unst := ?v\<rparr>) = take (f - base l - 1) (log_view l) @ es"
      using la(1) by (simp add: log_view_def b)
    moreover have "consec ?o (?k @ es)" using 3 ok assms(2) consec_simps(2) by (auto simp: consec_append batch_def)
    ultimately show thesis using t ok assms(2,3) la(2) by (intro that [of ?v]) (auto simp: batch_def dest: in_set_takeD)
  qed
qed

lemma log_append_view:
  assumes "log_ok l" "batch f es" "es \<noteq> []" "commitIndex l < f" "f \<le> base l + length (log_view l) + 1"
  obtains l' where "log_append es l = Some l'" "log_ok l'" "log_view l' = take (f - base l - 1) (log_view l) @ es"
    "storage l' = storage l" "commitIndex l' = commitIndex l" "applyIndex l' = applyIndex l"
proof -
  have bc: "base l \<le> commitIndex l" using assms(1) by (simp add: log_ok_def)
  then have bf: "base l < f" using assms(4) by linarith
  obtain u where u: "truncateAndAppend es (unst l) = Some u" "u_entries u \<noteq> []" "consec (u_offset u) (u_entries u)" "base l < u_offset u"
    "u_offset u \<le> u_offset (unst l)" "\<forall>e \<in> set (u_entries u). 0 < e_Term e"
    "log_view (l\<lparr>unst := u\<rparr>) = take (f - base l - 1) (log_view l) @ es"
    by (rule truncateAndAppend_view [OF assms(1-3) bf assms(5)]) (rule that, assumption+)
  have f: "e_Index (es ! 0) = f" using assms(2,3) by (auto simp: batch_def consec_def)
  have app: "log_append es l = Some (l\<lparr>unst := u\<rparr>)" using u(1) assms(3,4) bf f by (cases es) (simp_all add: log_append_def u64_dec_def)
  have "length (log_view (l\<lparr>unst := u\<rparr>)) = f - base l - 1 + length es" using u(7) assms(5) by simp
  then have c: "commitIndex l \<le> base l + length (log_view (l\<lparr>unst := u\<rparr>))" using assms(1,4) bf by (auto simp: log_ok_def)
  have "base (l\<lparr>unst := u\<rparr>) = base l" by (simp add: base_def)
  then have "log_ok (l\<lparr>unst := u\<rparr>)" using assms(1) u(2-6) c unfolding log_ok_def by auto
  then show thesis using app u(7) by (intro that [of "l\<lparr>unst := u\<rparr>"]) simp_all
qed

lemma commitTo_view:
  assumes "log_ok l" "i \<le> base l + length (log_view l)"
  shows "commitTo i l = Some (l\<lparr>commitIndex := max (commitIndex l) i\<rparr>) \<and> log_ok (l\<lparr>commitIndex := max (commitIndex l) i\<rparr>)"
proof -
  have "commitTo i l = Some (l\<lparr>commitIndex := max (commitIndex l) i\<rparr>)"
    using assms by (auto simp: commitTo_def lastIndex_view max_def)
  moreover have "log_ok (l\<lparr>commitIndex := max (commitIndex l) i\<rparr>)" using assms by (auto simp: log_ok_def base_def log_view_def)
  ultimately show ?thesis by blast
qed

text \<open>The number of leading entries that the log already has, by index and term.\<close>

definition agree :: "raftLog \<Rightarrow> Entry list \<Rightarrow> nat" where
  "agree l es = length (takeWhile (\<lambda>e. vterm l (e_Index e) = e_Term e) es)"

lemma findConflict_view:
  assumes "log_ok l" "consec f es" "0 < f"
  shows "findConflict es l = Some (if agree l es = length es then 0 else f + agree l es)"
  using assms(2,3)
proof (induction es arbitrary: f)
  case (Cons e es)
  have f: "e_Index e = f" "consec (Suc f) es" using Cons.prems(1) consec_append [of f "[e]" es] by (auto simp: consec_def)
  then show ?case using Cons.IH [of "Suc f"] assms(1) by (auto simp: matchTerm_view agree_def)
qed (simp add: agree_def)

lemma agree_le: "agree l es \<le> length es"
  by (simp add: agree_def length_takeWhile_le)

lemma agree_nth: "i < agree l es \<Longrightarrow> vterm l (e_Index (es ! i)) = e_Term (es ! i)"
  unfolding agree_def by (metis (mono_tags, lifting) nth_mem set_takeWhileD takeWhile_nth)

lemma vterm_range: "0 < vterm l i \<Longrightarrow> base l \<le> i \<and> i \<le> base l + length (log_view l)"
  by (auto simp: vterm_def split: if_splits)

text \<open>The new view of an accepted append request.\<close>

definition merged :: "raftLog \<Rightarrow> nat \<Rightarrow> Entry list \<Rightarrow> Entry list" where
  "merged l prev es = (if agree l es = length es then log_view l
     else take (prev + agree l es - base l) (log_view l) @ drop (agree l es) es)"

lemma agree_range:
  assumes "log_ok l" "batch (prev + 1) es" "base l \<le> prev" "prev \<le> base l + length (log_view l)"
  shows "prev + agree l es \<le> base l + length (log_view l)"
proof (cases "agree l es")
  case (Suc n)
  then have n: "n < length es" using agree_le [of l es] by linarith
  then have "e_Index (es ! n) = prev + 1 + n" "0 < e_Term (es ! n)" using assms(2) by (auto simp: batch_def consec_def)
  moreover have "vterm l (e_Index (es ! n)) = e_Term (es ! n)" using agree_nth [of n l es] Suc by simp
  ultimately show ?thesis using vterm_range [of l "prev + 1 + n"] Suc by auto
qed (use assms in auto)

lemma maybeAppend_view:
  assumes "log_ok l" "batch (prev + 1) es" "base l \<le> prev" "prev \<le> base l + length (log_view l)" "vterm l prev = pt"
    "agree l es = length es \<or> commitIndex l < prev + 1 + agree l es"
  obtains l' where "maybeAppend prev pt ci es l = Some (l', Some (prev + length es))" "log_ok l'" "storage l' = storage l"
    "log_view l' = merged l prev es" "commitIndex l' = max (commitIndex l) (min ci (prev + length es))" "applyIndex l' = applyIndex l"
proof -
  let ?k = "agree l es"
  have r: "prev + ?k \<le> base l + length (log_view l)" by (rule agree_range [OF assms(1-4)])
  have fc: "findConflict es l = Some (if ?k = length es then 0 else prev + 1 + ?k)"
    using findConflict_view [OF assms(1), of "prev + 1" es] assms(2) by (simp add: batch_def)
  have mt: "matchTerm prev pt l = Some True" using assms(1,5) by (simp add: matchTerm_view)
  obtain l1 where l1: "(if ?k = length es then Some l else log_append (drop ?k es) l) = Some l1" "log_ok l1" "storage l1 = storage l"
    "log_view l1 = merged l prev es" "commitIndex l1 = commitIndex l" "applyIndex l1 = applyIndex l"
  proof (cases "?k = length es")
    case True
    then show thesis using assms(1) by (intro that [of l]) (simp_all add: merged_def)
  next
    case False
    have k: "?k \<le> length es" "drop ?k es \<noteq> []" using agree_le [of l es] False by auto
    have b: "batch (prev + 1 + ?k) (drop ?k es)" by (rule batch_drop [OF assms(2) k(1)])
    have c: "commitIndex l < prev + 1 + ?k" using assms(6) False by simp
    show thesis
    proof (rule log_append_view [OF assms(1) b k(2) c])
      show "prev + 1 + ?k \<le> base l + length (log_view l) + 1" using r by simp
      fix l' assume "log_append (drop ?k es) l = Some l'" "log_ok l'"
        "log_view l' = take (prev + 1 + ?k - base l - 1) (log_view l) @ drop ?k es" "storage l' = storage l" "commitIndex l' = commitIndex l"
        "applyIndex l' = applyIndex l"
      then show thesis using False by (intro that [of l']) (simp_all add: merged_def)
    qed
  qed
  have b1: "base l1 = base l" using l1(3) by (simp add: base_def)
  have "prev + length es \<le> base l + length (log_view l1)"
    using r agree_le [of l es] assms(3) by (auto simp: l1(4) merged_def)
  then have ct: "commitTo (min ci (prev + length es)) l1 = Some (l1\<lparr>commitIndex := max (commitIndex l) (min ci (prev + length es))\<rparr>)"
    "log_ok (l1\<lparr>commitIndex := max (commitIndex l) (min ci (prev + length es))\<rparr>)"
    using commitTo_view [OF l1(2), of "min ci (prev + length es)"] b1 l1(5) by auto
  have "maybeAppend prev pt ci es l = Some (l1\<lparr>commitIndex := max (commitIndex l) (min ci (prev + length es))\<rparr>, Some (prev + length es))"
    unfolding maybeAppend_def using mt fc l1(1) ct(1) assms(6) agree_le [of l es] by (auto simp: Let_def)
  moreover have "log_view (l1\<lparr>commitIndex := c\<rparr>) = merged l prev es" for c using l1(4) by (simp add: log_view_def base_def)
  ultimately show thesis using ct(2) l1(3,6)
    by (intro that [of "l1\<lparr>commitIndex := max (commitIndex l) (min ci (prev + length es))\<rparr>"]) simp_all
qed

lemma merged_prefix:
  assumes "log_ok l" "batch (prev + 1) es" "base l \<le> prev" "prev \<le> base l + length (log_view l)" "i \<le> prev + agree l es"
  shows "take (i - base l) (merged l prev es) = take (i - base l) (log_view l)"
  using agree_range [OF assms(1-4)] assms(3,5) by (auto simp: merged_def)

lemma merged_nth:
  assumes "log_ok l" "batch (prev + 1) es" "base l \<le> prev" "prev \<le> base l + length (log_view l)" "i < length es"
  shows "prev + i - base l < length (merged l prev es) \<and> e_Term (merged l prev es ! (prev + i - base l)) = e_Term (es ! i)"
proof -
  have r: "prev + agree l es \<le> base l + length (log_view l)" by (rule agree_range [OF assms(1-4)])
  have ix: "e_Index (es ! i) = prev + 1 + i" using assms(2,5) by (simp add: batch_def consec_def)
  show ?thesis
  proof (cases "i < agree l es")
    case True
    then have v: "vterm l (prev + 1 + i) = e_Term (es ! i)" using agree_nth [OF True] ix by simp
    have "prev + i - base l < length (log_view l)" using r True assms(3) by linarith
    moreover from this v have "e_Term (log_view l ! (prev + i - base l)) = e_Term (es ! i)"
      using assms(3) by (auto simp: vterm_def split: if_splits)
    ultimately show ?thesis using True r assms(3) by (auto simp: merged_def nth_append)
  next
    case False
    then have "agree l es \<noteq> length es" using assms(5) by linarith
    moreover have "length (take (prev + agree l es - base l) (log_view l)) = prev + agree l es - base l" using r assms(3) by simp
    moreover have "prev + i - base l - (prev + agree l es - base l) = i - agree l es" using False assms(3) by linarith
    ultimately show ?thesis using False assms(3,5) by (auto simp: merged_def nth_append)
  qed
qed

section \<open>Properties\<close>

text \<open>
  C11. Replication on a follower's log: an append request whose preceding entry matches is accepted
  without a panic unless it contradicts a committed entry; afterwards the log has, at every index of
  the request, an entry of the leader's term, the log is well formed, every committed entry is
  unchanged, and the commit index is the old one or the leader's, cut to the last new entry.
\<close>

theorem append_keeps_committed:
  assumes "log_ok l" and "batch (prev + 1) es" and "base l \<le> prev" and "prev \<le> base l + length (log_view l)" and "vterm l prev = pt"
    and "agree l es = length es \<or> commitIndex l < prev + 1 + agree l es"
  shows "\<exists>l'. maybeAppend prev pt ci es l = Some (l', Some (prev + length es)) \<and> log_ok l' \<and>
    (\<forall>i<length es. vterm l' (prev + 1 + i) = e_Term (es ! i)) \<and>
    take (commitIndex l - base l) (log_view l') = take (commitIndex l - base l) (log_view l) \<and>
    commitIndex l' = max (commitIndex l) (min ci (prev + length es))"
proof (rule maybeAppend_view [OF assms, of ci])
  fix l'
  assume l': "maybeAppend prev pt ci es l = Some (l', Some (prev + length es))" "log_ok l'" "storage l' = storage l"
    "log_view l' = merged l prev es" "commitIndex l' = max (commitIndex l) (min ci (prev + length es))"
  have b: "base l' = base l" using l'(3) by (simp add: base_def)
  have "vterm l' (prev + 1 + i) = e_Term (es ! i)" if "i < length es" for i
    using merged_nth [OF assms(1-4) that] b assms(3) l'(4) by (auto simp: vterm_def)
  moreover have "take (commitIndex l - base l) (log_view l') = take (commitIndex l - base l) (log_view l)"
  proof (cases "agree l es = length es")
    case True
    then show ?thesis by (simp add: l'(4) merged_def)
  next
    case False
    then show ?thesis using merged_prefix [OF assms(1-4), of "commitIndex l"] assms(6) l'(4) by simp
  qed
  ultimately show ?thesis using l' by blast
qed

definition ent :: "nat \<Rightarrow> nat \<Rightarrow> Entry" where
  "ent t i = \<lparr>e_Term = t, e_Index = i, e_Type = EntryNormal, e_Data = []\<rparr>"

definition demo_log :: raftLog where
  "demo_log = \<lparr>storage = \<lparr>hardState = emptyHardState, ents = [zero_entry, ent 1 1, ent 1 2]\<rparr>, unst = \<lparr>u_entries = [ent 1 3], u_offset = 3\<rparr>,
     commitIndex = 1, applyIndex = 0\<rparr>"

lemma demo_log_facts: "log_ok demo_log" "base demo_log = 0" "log_view demo_log = [ent 1 1, ent 1 2, ent 1 3]" "commitIndex demo_log = 1"
  by (auto simp: log_ok_def demo_log_def base_def log_view_def consec_def ent_def zero_entry_def less_Suc_eq nth_Cons split: nat.splits)

theorem append_keeps_committed_witness:
  "\<exists>l'. maybeAppend 1 1 9 [ent 1 2, ent 2 3] demo_log = Some (l', Some 3) \<and> log_ok l' \<and> commitIndex l' = 3"
proof -
  have a: "vterm demo_log 1 = 1" "agree demo_log [ent 1 2, ent 2 3] = 1" "batch (1 + 1) [ent 1 2, ent 2 3]"
    using demo_log_facts by (auto simp: vterm_def agree_def batch_def consec_def ent_def less_Suc_eq nth_Cons split: nat.splits)
  show ?thesis
    using append_keeps_committed [OF demo_log_facts(1) a(3), of 1 9] a demo_log_facts by (auto simp: eval_nat_numeral)
qed

end
