(* ===== verification/Raft_Node.thy ===== *)
theory Raft_Node
  imports Raft_Log
begin

text \<open>
  The raft state machine of one node (\<open>src/apps/raft_demo/raft\<close>): messages and roles (\<open>model.go\<close>),
  replication progress (\<open>progress.go\<close>), linearizable reads (\<open>read.go\<close>), the common part (\<open>raft.go\<close>),
  the roles (\<open>follower.go\<close>, \<open>candidate.go\<close>, \<open>leader.go\<close>), \<open>util.go\<close>, and the event loop with its
  \<open>Ready\<close> batches (\<open>ready.go\<close>, \<open>node.go\<close>).

  Every function that may panic returns \<open>None\<close> then. The \<open>step\<close> and \<open>tick\<close> fields of the code are
  determined by the role and are not stored. The random source is a sequence of numbers in the state.
  Where the code ranges over a map, the model goes through the association list; no theorem depends on
  that order.
\<close>

section \<open>Messages and roles\<close>

datatype MessageType = MsgHup | MsgBeat | MsgProp | MsgApp | MsgAppResp | MsgVote | MsgVoteResp | MsgHeartbeat | MsgHeartbeatResp
  | MsgReadIndex | MsgReadIndexResp | MsgPreVote | MsgPreVoteResp

record Msg =
  m_Type :: MessageType
  m_To :: nat
  m_From :: nat
  m_Term :: nat
  m_LogTerm :: nat
  m_LogIndex :: nat
  m_Entries :: "Entry list"
  m_Commit :: nat
  m_Reject :: bool
  m_RejectHint :: nat
  m_Context :: bytes

definition blank :: "MessageType \<Rightarrow> Msg" where
  "blank t = \<lparr>m_Type = t, m_To = 0, m_From = 0, m_Term = 0, m_LogTerm = 0, m_LogIndex = 0, m_Entries = [], m_Commit = 0,
     m_Reject = False, m_RejectHint = 0, m_Context = []\<rparr>"

datatype StateType = StateFollower | StateCandidate | StateLeader | StatePreCandidate

section \<open>Progress\<close>

record Progress =
  Match :: nat
  Next :: nat

definition maybeUpdate :: "nat \<Rightarrow> Progress \<Rightarrow> Progress \<times> bool" where
  "maybeUpdate n pr =
     (let updated = (Match pr < n);
          pr = (if updated then pr\<lparr>Match := n\<rparr> else pr);
          pr = (if Next pr < n + 1 then pr\<lparr>Next := n + 1\<rparr> else pr)
      in (pr, updated))"

definition mayDecreaseTo :: "nat \<Rightarrow> nat \<Rightarrow> Progress \<Rightarrow> Progress \<times> bool" where
  "mayDecreaseTo logIndex rejectHint pr =
     (if u64_dec (Next pr) \<noteq> logIndex then (pr, False)
      else (pr\<lparr>Next := max 1 (min logIndex (rejectHint + 1))\<rparr>, True))"

section \<open>Linearizable reads\<close>

record readIndexStatus =
  ri_req :: Msg
  ri_index :: nat
  ri_acks :: "nat list"

record readOnly =
  pendingReadIndex :: "(bytes, readIndexStatus) gomap"
  readIndexQueue :: "bytes list"

definition newReadOnly :: readOnly where
  "newReadOnly = \<lparr>pendingReadIndex = [], readIndexQueue = []\<rparr>"

definition addRequest :: "bytes \<Rightarrow> nat \<Rightarrow> Msg \<Rightarrow> readOnly \<Rightarrow> readOnly \<times> bool" where
  "addRequest ctx readIndex m ro = (case gm_get (pendingReadIndex ro) ctx of
     Some _ \<Rightarrow> (ro, False)
   | None \<Rightarrow> (\<lparr>pendingReadIndex = gm_set ctx \<lparr>ri_req = m, ri_index = readIndex, ri_acks = []\<rparr> (pendingReadIndex ro),
              readIndexQueue = readIndexQueue ro @ [ctx]\<rparr>, True))"

definition recvAck :: "bytes \<Rightarrow> nat \<Rightarrow> readOnly \<Rightarrow> readOnly \<times> nat list" where
  "recvAck ctx from ro = (case gm_get (pendingReadIndex ro) ctx of
     None \<Rightarrow> (ro, [])
   | Some rs \<Rightarrow>
       let rs = (if from \<in> set (ri_acks rs) then rs else rs\<lparr>ri_acks := from # ri_acks rs\<rparr>)
       in (ro\<lparr>pendingReadIndex := gm_set ctx rs (pendingReadIndex ro)\<rparr>, ri_acks rs))"

text \<open>The loop of \<open>advance\<close>: the statuses up to \<open>ctx\<close> and the rest of the queue, if \<open>ctx\<close> is queued.\<close>

fun advance_loop :: "bytes \<Rightarrow> (bytes, readIndexStatus) gomap \<Rightarrow> bytes list \<Rightarrow> (readIndexStatus list \<times> bytes list) option option" where
  "advance_loop ctx pend [] = Some None"
| "advance_loop ctx pend (q # qs) = (case gm_get pend q of
     None \<Rightarrow> None
   | Some rs \<Rightarrow> if q = ctx then Some (Some ([rs], qs))
       else (case advance_loop ctx pend qs of
               None \<Rightarrow> None
             | Some None \<Rightarrow> Some None
             | Some (Some (rss, rest)) \<Rightarrow> Some (Some (rs # rss, rest))))"

definition req_ctx :: "Msg \<Rightarrow> bytes option" where
  "req_ctx m = map_option e_Data (rd (m_Entries m) 0)"

fun delete_reqs :: "readIndexStatus list \<Rightarrow> (bytes, readIndexStatus) gomap \<Rightarrow> (bytes, readIndexStatus) gomap option" where
  "delete_reqs [] pend = Some pend"
| "delete_reqs (rs # rss) pend = do { c \<leftarrow> req_ctx (ri_req rs); delete_reqs rss (gm_del c pend) }"

definition ro_advance :: "bytes \<Rightarrow> readOnly \<Rightarrow> (readOnly \<times> readIndexStatus list) option" where
  "ro_advance ctx ro = do {
     found \<leftarrow> advance_loop ctx (pendingReadIndex ro) (readIndexQueue ro);
     (case found of
        None \<Rightarrow> Some (ro, [])
      | Some (rss, rest) \<Rightarrow> do {
          pend \<leftarrow> delete_reqs rss (pendingReadIndex ro);
          Some (\<lparr>pendingReadIndex = pend, readIndexQueue = rest\<rparr>, rss) }) }"

section \<open>The node\<close>

record raft =
  nid :: nat
  Term :: nat
  readStates :: "(nat \<times> bytes) list"
  rlog :: raftLog
  prs :: "(nat, Progress) gomap"
  role :: StateType
  votes :: "(nat, bool) gomap"
  msgs :: "Msg list"
  lead :: nat
  pendingConf :: bool
  read_only :: readOnly
  preVote :: bool
  Vote :: nat
  checkQuorum :: bool
  electionTimeout :: int
  randomizedElectionTimeout :: int
  electionElapsed :: int
  heartbeatTimeout :: int
  heartbeatElapsed :: int
  rng :: "nat \<Rightarrow> nat"
  rng_pos :: nat

definition resetRandomizedElectionTimeout :: "raft \<Rightarrow> raft" where
  "resetRandomizedElectionTimeout r =
     (let n = (if electionTimeout r \<le> 0 then 1 else electionTimeout r)
      in r\<lparr>randomizedElectionTimeout := n + int (rng r (rng_pos r)) mod n, rng_pos := rng_pos r + 1\<rparr>)"

definition reset :: "nat \<Rightarrow> raft \<Rightarrow> raft" where
  "reset term r =
     (let r = (if Term r \<noteq> term then r\<lparr>Term := term, Vote := 0\<rparr> else r);
          r = r\<lparr>lead := 0, electionElapsed := 0, heartbeatElapsed := 0, votes := [], pendingConf := False\<rparr>
      in resetRandomizedElectionTimeout r)"

definition becomeFollower :: "nat \<Rightarrow> nat \<Rightarrow> raft \<Rightarrow> raft" where
  "becomeFollower term ld r = (reset term r)\<lparr>lead := ld, role := StateFollower\<rparr>"

definition send :: "Msg \<Rightarrow> raft \<Rightarrow> raft" where
  "send m r =
     (let m = (if m_From m = 0 then m\<lparr>m_From := nid r\<rparr> else m);
          m = (if m_Type m \<noteq> MsgProp \<and> m_Type m \<noteq> MsgReadIndex then m\<lparr>m_Term := Term r\<rparr> else m)
      in r\<lparr>msgs := msgs r @ [m]\<rparr>)"

definition quorum :: "raft \<Rightarrow> nat" where
  "quorum r = length (prs r) div 2 + 1"

definition poll :: "nat \<Rightarrow> bool \<Rightarrow> raft \<Rightarrow> raft \<times> nat" where
  "poll i v r =
     (let vs = (case gm_get (votes r) i of None \<Rightarrow> gm_set i v (votes r) | Some _ \<Rightarrow> votes r)
      in (r\<lparr>votes := vs\<rparr>, length (filter snd vs)))"

definition promotable :: "nat \<Rightarrow> raft \<Rightarrow> bool" where
  "promotable i r \<longleftrightarrow> gm_get (prs r) i \<noteq> None"

definition maybeCommit :: "raft \<Rightarrow> (raft \<times> bool) option" where
  "maybeCommit r = do {
     mid \<leftarrow> rd (rev (sort (map (Match \<circ> snd) (prs r)))) (quorum r - 1);
     (l, b) \<leftarrow> log_maybeCommit mid (Term r) (rlog r);
     Some (r\<lparr>rlog := l\<rparr>, b) }"

definition number_entries :: "nat \<Rightarrow> nat \<Rightarrow> Entry list \<Rightarrow> Entry list" where
  "number_entries term li es = map (\<lambda>(i, e). e\<lparr>e_Term := term, e_Index := li + i + 1\<rparr>) (zip [0..<length es] es)"

definition appendEntry :: "Entry list \<Rightarrow> raft \<Rightarrow> raft option" where
  "appendEntry es r = do {
     li \<leftarrow> lastIndex (rlog r);
     l \<leftarrow> log_append (number_entries (Term r) li es) (rlog r);
     pr \<leftarrow> gm_get (prs r) (nid r);
     li \<leftarrow> lastIndex l;
     let r = r\<lparr>rlog := l, prs := gm_set (nid r) (fst (maybeUpdate li pr)) (prs r)\<rparr>;
     (r, _) \<leftarrow> maybeCommit r;
     Some r }"

section \<open>Sending\<close>

fun each :: "(nat \<Rightarrow> raft \<Rightarrow> raft option) \<Rightarrow> nat list \<Rightarrow> raft \<Rightarrow> raft option" where
  "each f [] r = Some r"
| "each f (i # is) r = (if i = nid r then each f is r else f i r \<bind> each f is)"

definition sendHeartbeat :: "bytes \<Rightarrow> nat \<Rightarrow> raft \<Rightarrow> raft option" where
  "sendHeartbeat ctx i r = do {
     pr \<leftarrow> gm_get (prs r) i;
     Some (send ((blank MsgHeartbeat)\<lparr>m_To := i, m_Commit := min (commitIndex (rlog r)) (Match pr), m_Context := ctx\<rparr>) r) }"

definition broadcastHeartbeatWithCtx :: "bytes \<Rightarrow> raft \<Rightarrow> raft option" where
  "broadcastHeartbeatWithCtx ctx r = each (sendHeartbeat ctx) (map fst (prs r)) r"

definition broadcastHeartbeat :: "raft \<Rightarrow> raft option" where
  "broadcastHeartbeat r = broadcastHeartbeatWithCtx [] r"

definition sendAppend :: "nat \<Rightarrow> raft \<Rightarrow> raft option" where
  "sendAppend to r = do {
     pr \<leftarrow> gm_get (prs r) to;
     t \<leftarrow> log_term (u64_dec (Next pr)) (rlog r);
     es \<leftarrow> log_entries (Next pr) (rlog r);
     Some (send ((blank MsgApp)\<lparr>m_To := to, m_LogTerm := (case t of Inr t \<Rightarrow> t | Inl _ \<Rightarrow> 0), m_LogIndex := u64_dec (Next pr),
       m_Entries := es, m_Commit := commitIndex (rlog r)\<rparr>) r) }"

definition broadcastAppend :: "raft \<Rightarrow> raft option" where
  "broadcastAppend r = each sendAppend (map fst (prs r)) r"

section \<open>Elections\<close>

definition becomeLeader :: "raft \<Rightarrow> raft option" where
  "becomeLeader r =
     (if role r = StateFollower then None
      else let r = (reset (Term r) r)\<lparr>lead := nid r, role := StateLeader\<rparr> in do {
        li \<leftarrow> lastIndex (rlog r);
        let r = r\<lparr>prs := map (\<lambda>(i, p). (i, if i = nid r then p else \<lparr>Match = 0, Next = li + 1\<rparr>)) (prs r)\<rparr>;
        appendEntry [zero_entry] r })"

definition becomePreCandidate :: "raft \<Rightarrow> raft option" where
  "becomePreCandidate r = (if role r = StateLeader then None else Some (r\<lparr>votes := [], role := StatePreCandidate\<rparr>))"

definition becomeCandidate :: "raft \<Rightarrow> raft option" where
  "becomeCandidate r =
     (if role r = StateLeader then None
      else Some ((reset (Term r + 1) r)\<lparr>Vote := nid r, role := StateCandidate\<rparr>))"

definition requestVote :: "MessageType \<Rightarrow> nat \<Rightarrow> nat \<Rightarrow> raft \<Rightarrow> raft option" where
  "requestVote t term i r = do {
     lt \<leftarrow> lastTerm (rlog r);
     li \<leftarrow> lastIndex (rlog r);
     Some (send ((blank t)\<lparr>m_Term := term, m_To := i, m_LogTerm := lt, m_LogIndex := li\<rparr>) r) }"

definition campaignElection :: "raft \<Rightarrow> raft option" where
  "campaignElection r = do {
     r \<leftarrow> becomeCandidate r;
     let (r, granted) = poll (nid r) True r;
     (if quorum r = granted then becomeLeader r
      else each (requestVote MsgVote (Term r)) (map fst (prs r)) r) }"

definition campaignPreElection :: "raft \<Rightarrow> raft option" where
  "campaignPreElection r = do {
     r \<leftarrow> becomePreCandidate r;
     let term = Term r + 1;
     let (r, granted) = poll (nid r) True r;
     (if quorum r = granted then campaignElection r
      else each (requestVote MsgPreVote term) (map fst (prs r)) r) }"

section \<open>Followers\<close>

definition handleAppendEntries :: "Msg \<Rightarrow> raft \<Rightarrow> raft option" where
  "handleAppendEntries m r = do {
     (l, ok) \<leftarrow> maybeAppend (m_LogIndex m) (m_LogTerm m) (m_Commit m) (m_Entries m) (rlog r);
     let r = r\<lparr>rlog := l\<rparr>;
     (case ok of
        Some mLastIndex \<Rightarrow> Some (send ((blank MsgAppResp)\<lparr>m_To := m_From m, m_LogIndex := mLastIndex\<rparr>) r)
      | None \<Rightarrow> do {
          li \<leftarrow> lastIndex (rlog r);
          Some (send ((blank MsgAppResp)\<lparr>m_To := m_From m, m_LogIndex := m_LogIndex m, m_Reject := True, m_RejectHint := li\<rparr>) r) }) }"

definition handleHeartbeat :: "Msg \<Rightarrow> raft \<Rightarrow> raft option" where
  "handleHeartbeat m r = do {
     li \<leftarrow> lastIndex (rlog r);
     l \<leftarrow> commitTo (min (m_Commit m) li) (rlog r);
     Some (send ((blank MsgHeartbeatResp)\<lparr>m_To := m_From m, m_Context := m_Context m\<rparr>) (r\<lparr>rlog := l\<rparr>)) }"

definition stepFollower :: "Msg \<Rightarrow> raft \<Rightarrow> raft option" where
  "stepFollower m r =
     (if m_Type m = MsgProp then Some (if lead r = 0 then r else send (m\<lparr>m_To := lead r\<rparr>) r)
      else if m_Type m = MsgApp then handleAppendEntries m (r\<lparr>electionElapsed := 0, lead := m_From m\<rparr>)
      else if m_Type m = MsgHeartbeat then handleHeartbeat m (r\<lparr>electionElapsed := 0, lead := m_From m\<rparr>)
      else if m_Type m = MsgReadIndex then Some (if lead r = 0 then r else send (m\<lparr>m_To := lead r\<rparr>) r)
      else if m_Type m = MsgReadIndexResp then do {
        c \<leftarrow> req_ctx m;
        Some (r\<lparr>readStates := readStates r @ [(m_LogIndex m, c)]\<rparr>) }
      else Some r)"

section \<open>Candidates\<close>

definition stepCandidate :: "Msg \<Rightarrow> raft \<Rightarrow> raft option" where
  "stepCandidate m r =
     (let voteRespType = (if role r = StatePreCandidate then MsgPreVoteResp else MsgVoteResp) in
      if m_Type m = MsgProp then Some r
      else if m_Type m = MsgApp then handleAppendEntries m (becomeFollower (Term r) (m_From m) r)
      else if m_Type m = MsgHeartbeat then handleHeartbeat m (becomeFollower (m_Term m) (m_From m) r)
      else if m_Type m = voteRespType then
        let (r, granted) = poll (m_From m) (\<not> m_Reject m) r in
        if quorum r = granted then
          if role r = StatePreCandidate then campaignElection r
          else becomeLeader r \<bind> broadcastAppend
        else if quorum r = length (votes r) - granted then Some (becomeFollower (Term r) 0 r)
        else Some r
      else Some r)"

section \<open>The leader\<close>

text \<open>Only one configuration change may be in flight.\<close>

fun demote_conf :: "Entry list \<Rightarrow> bool \<Rightarrow> Entry list \<times> bool" where
  "demote_conf [] p = ([], p)"
| "demote_conf (e # es) p =
     (if e_Type e = EntryConfChange
      then case demote_conf es True of (es, q) \<Rightarrow> ((if p then zero_entry else e) # es, q)
      else case demote_conf es p of (es, q) \<Rightarrow> (e # es, q))"

definition answer_read :: "readIndexStatus \<Rightarrow> raft \<Rightarrow> raft option" where
  "answer_read rs r =
     (if m_From (ri_req rs) = 0 \<or> m_From (ri_req rs) = nid r then do {
        c \<leftarrow> req_ctx (ri_req rs);
        Some (r\<lparr>readStates := readStates r @ [(ri_index rs, c)]\<rparr>) }
      else Some (send ((blank MsgReadIndexResp)\<lparr>m_To := m_From (ri_req rs), m_LogIndex := ri_index rs, m_Entries := m_Entries (ri_req rs)\<rparr>) r))"

fun answer_reads :: "readIndexStatus list \<Rightarrow> raft \<Rightarrow> raft option" where
  "answer_reads [] r = Some r"
| "answer_reads (rs # rss) r = answer_read rs r \<bind> answer_reads rss"

definition leader_readIndex :: "Msg \<Rightarrow> raft \<Rightarrow> raft option" where
  "leader_readIndex m r =
     (if gm_get (prs r) (nid r) = None then Some r
      else if length (prs r) > 1 then do {
        t \<leftarrow> log_term (commitIndex (rlog r)) (rlog r);
        t \<leftarrow> zeroTermOnErrCompacted t;
        (if t \<noteq> Term r then Some r
         else do {
           ctx \<leftarrow> req_ctx m;
           let (ro, added) = addRequest ctx (commitIndex (rlog r)) m (read_only r);
           let r = r\<lparr>read_only := ro\<rparr>;
           (if added then broadcastHeartbeatWithCtx ctx r else Some r) }) }
      else do {
        ctx \<leftarrow> req_ctx m;
        Some (r\<lparr>readStates := readStates r @ [(commitIndex (rlog r), ctx)]\<rparr>) })"

definition leader_propose :: "Msg \<Rightarrow> raft \<Rightarrow> raft option" where
  "leader_propose m r =
     (if m_Entries m = [] then None
      else if gm_get (prs r) (nid r) = None then Some r
      else case demote_conf (m_Entries m) (pendingConf r) of (es, p) \<Rightarrow> do {
        r \<leftarrow> appendEntry es (r\<lparr>pendingConf := p\<rparr>);
        broadcastAppend r })"

definition leader_appResp :: "Progress \<Rightarrow> Msg \<Rightarrow> raft \<Rightarrow> raft option" where
  "leader_appResp pr m r =
     (if m_Reject m then
        let (pr, dec) = mayDecreaseTo (m_LogIndex m) (m_RejectHint m) pr; r = r\<lparr>prs := gm_set (m_From m) pr (prs r)\<rparr>
        in if dec then sendAppend (m_From m) r else Some r
      else
        let (pr, upd) = maybeUpdate (m_LogIndex m) pr; r = r\<lparr>prs := gm_set (m_From m) pr (prs r)\<rparr>
        in if upd then do { (r, b) \<leftarrow> maybeCommit r; (if b then broadcastAppend r else Some r) } else Some r)"

definition leader_heartbeatResp :: "Msg \<Rightarrow> raft \<Rightarrow> raft option" where
  "leader_heartbeatResp m r =
     (if readIndexQueue (read_only r) = [] then Some r
      else case recvAck (m_Context m) (m_From m) (read_only r) of (ro, acks) \<Rightarrow>
        let r = r\<lparr>read_only := ro\<rparr> in
        if length acks < quorum r then Some r
        else do {
          (ro, rss) \<leftarrow> ro_advance (m_Context m) (read_only r);
          answer_reads rss (r\<lparr>read_only := ro\<rparr>) })"

definition stepLeader :: "Msg \<Rightarrow> raft \<Rightarrow> raft option" where
  "stepLeader m r =
     (if m_Type m = MsgBeat then broadcastHeartbeat r
      else if m_Type m = MsgProp then leader_propose m r
      else if m_Type m = MsgReadIndex then leader_readIndex m r
      else case gm_get (prs r) (m_From m) of
        None \<Rightarrow> Some r
      | Some pr \<Rightarrow>
          if m_Type m = MsgAppResp then leader_appResp pr m r
          else if m_Type m = MsgHeartbeatResp then leader_heartbeatResp m r
          else Some r)"

section \<open>Step\<close>

definition numOfPendingConf :: "Entry list \<Rightarrow> nat" where
  "numOfPendingConf es = length (filter (\<lambda>e. e_Type e = EntryConfChange) es)"

definition step_hup :: "raft \<Rightarrow> raft option" where
  "step_hup r =
     (if role r = StateLeader then Some r
      else if \<not> promotable (nid r) r then Some r
      else do {
        es \<leftarrow> log_slice (applyIndex (rlog r) + 1) (commitIndex (rlog r) + 1) (rlog r);
        (if numOfPendingConf es > 0 then Some r
         else if preVote r then campaignPreElection r
         else campaignElection r) })"

definition step_vote :: "Msg \<Rightarrow> raft \<Rightarrow> raft option" where
  "step_vote m r = do {
     up \<leftarrow> isUpToDate (m_LogIndex m) (m_LogTerm m) (rlog r);
     Some (if up \<and> (Vote r = 0 \<or> m_Term m > Term r \<or> m_From m = Vote r)
       then if m_Type m = MsgVote then send ((blank MsgVoteResp)\<lparr>m_To := m_From m\<rparr>) (r\<lparr>Vote := m_From m\<rparr>)
            else send ((blank MsgPreVoteResp)\<lparr>m_To := m_From m\<rparr>) r
       else if m_Type m = MsgVote then send ((blank MsgVoteResp)\<lparr>m_To := m_From m, m_Reject := True\<rparr>) r
            else send ((blank MsgPreVoteResp)\<lparr>m_To := m_From m, m_Reject := True\<rparr>) r) }"

definition dispatch_role :: "Msg \<Rightarrow> raft \<Rightarrow> raft option" where
  "dispatch_role m r = (case role r of
     StateFollower \<Rightarrow> stepFollower m r | StateLeader \<Rightarrow> stepLeader m r | _ \<Rightarrow> stepCandidate m r)"

definition dispatch_type :: "Msg \<Rightarrow> raft \<Rightarrow> raft option" where
  "dispatch_type m r =
     (if m_Type m = MsgHup then step_hup r
      else if m_Type m = MsgVote \<or> m_Type m = MsgPreVote then step_vote m r
      else dispatch_role m r)"

definition Step :: "Msg \<Rightarrow> raft \<Rightarrow> raft option" where
  "Step m r =
     (if m_Term m = 0 then dispatch_type m r
      else if m_Term m > Term r then
        let ld = (if m_Type m = MsgVote \<or> m_Type m = MsgPreVote then 0 else m_From m) in
        dispatch_type m
          (if m_Type m \<noteq> MsgPreVote \<and> (m_Type m \<noteq> MsgPreVoteResp \<or> m_Reject m) then becomeFollower (m_Term m) ld r else r)
      else if m_Term m < Term r then
        Some (if checkQuorum r \<and> (m_Type m = MsgHeartbeat \<or> m_Type m = MsgApp)
              then send ((blank MsgAppResp)\<lparr>m_To := m_From m\<rparr>) r else r)
      else dispatch_type m r)"

section \<open>Timers and membership\<close>

definition tickElection :: "raft \<Rightarrow> raft option" where
  "tickElection r =
     (let r = r\<lparr>electionElapsed := electionElapsed r + 1\<rparr> in
      if promotable (nid r) r \<and> electionElapsed r \<ge> randomizedElectionTimeout r
      then Step ((blank MsgHup)\<lparr>m_From := nid r\<rparr>) (r\<lparr>electionElapsed := 0\<rparr>)
      else Some r)"

definition tickHeartbeat :: "raft \<Rightarrow> raft option" where
  "tickHeartbeat r =
     (if role r \<noteq> StateLeader then Some r
      else let r = r\<lparr>heartbeatElapsed := heartbeatElapsed r + 1\<rparr> in
        if heartbeatElapsed r \<ge> heartbeatTimeout r
        then Step ((blank MsgBeat)\<lparr>m_From := nid r\<rparr>) (r\<lparr>heartbeatElapsed := 0\<rparr>)
        else Some r)"

definition tick :: "raft \<Rightarrow> raft option" where
  "tick r = (if role r = StateLeader then tickHeartbeat r else tickElection r)"

definition addNode :: "nat \<Rightarrow> raft \<Rightarrow> raft option" where
  "addNode i r = (case gm_get (prs r) i of
     Some _ \<Rightarrow> Some r
   | None \<Rightarrow> do { li \<leftarrow> lastIndex (rlog r); Some (r\<lparr>prs := gm_set i \<lparr>Match = 0, Next = li + 1\<rparr> (prs r)\<rparr>) })"

definition removeNode :: "nat \<Rightarrow> raft \<Rightarrow> raft" where
  "removeNode i r = (case gm_get (prs r) i of
     None \<Rightarrow> r
   | Some _ \<Rightarrow> let r = r\<lparr>prs := gm_del i (prs r)\<rparr> in if i = nid r then becomeFollower (Term r) 0 r else r)"

datatype ConfChangeType = ConfChangeAddNode | ConfChangeRemoveNode | ConfChangeUpdateNode

definition raft_nodes :: "raft \<Rightarrow> nat list" where
  "raft_nodes r = sort (map fst (prs r))"

definition applyConfChange :: "ConfChangeType \<Rightarrow> nat \<Rightarrow> raft \<Rightarrow> (raft \<times> nat list) option" where
  "applyConfChange t i r = do {
     r \<leftarrow> (if i = 0 then Some r
           else case t of ConfChangeRemoveNode \<Rightarrow> Some (removeNode i r) | _ \<Rightarrow> addNode i r);
     let r = r\<lparr>pendingConf := False\<rparr>;
     Some (r, raft_nodes r) }"

section \<open>Construction\<close>

record Config =
  c_ID :: nat
  c_peers :: "nat list"
  c_Storage :: MemoryStorage
  c_Applied :: nat
  c_PreVote :: bool
  c_ElectionTick :: int
  c_HeartbeatTick :: int

text \<open>\<open>MemoryStorage\<close> reports no members, so the configured peers are used.\<close>

definition newRaft :: "(nat \<Rightarrow> nat) \<Rightarrow> Config \<Rightarrow> raft option" where
  "newRaft rand conf = do {
     let hs = hardState (c_Storage conf);
     l \<leftarrow> newRaftLog (c_Storage conf);
     let r = \<lparr>nid = c_ID conf, Term = 0, readStates = [], rlog = l,
              prs = fold (\<lambda>p. gm_set p \<lparr>Match = 0, Next = 1\<rparr>) (c_peers conf) [],
              role = StateFollower, votes = [], msgs = [], lead = 0, pendingConf = False, read_only = newReadOnly,
              preVote = c_PreVote conf, Vote = 0, checkQuorum = False, electionTimeout = c_ElectionTick conf,
              randomizedElectionTimeout = 0, electionElapsed = 0, heartbeatTimeout = c_HeartbeatTick conf, heartbeatElapsed = 0,
              rng = rand, rng_pos = 0\<rparr>;
     l \<leftarrow> appliedTo (c_Applied conf) l;
     let l = (if hs_Commit hs > commitIndex l then l\<lparr>commitIndex := hs_Commit hs\<rparr> else l);
     let term = (if hs_Term hs = 0 then 1 else hs_Term hs);
     Some (becomeFollower term 0 (r\<lparr>rlog := l\<rparr>)) }"

fun addNodes :: "nat list \<Rightarrow> raft \<Rightarrow> raft option" where
  "addNodes [] r = Some r"
| "addNodes (p # ps) r = addNode p r \<bind> addNodes ps"

definition StartNode :: "(nat \<Rightarrow> nat) \<Rightarrow> Config \<Rightarrow> nat list \<Rightarrow> raft option" where
  "StartNode rand conf peers = do {
     r \<leftarrow> newRaft rand conf;
     r \<leftarrow> addNodes peers r;
     li \<leftarrow> lastIndex (rlog r);
     Some (r\<lparr>rlog := (rlog r)\<lparr>commitIndex := li\<rparr>\<rparr>) }"

section \<open>Ready batches and the event loop\<close>

definition raft_hardState :: "raft \<Rightarrow> HardState" where
  "raft_hardState r = \<lparr>hs_Term = Term r, hs_Vote = Vote r, hs_Commit = commitIndex (rlog r)\<rparr>"

definition raft_softState :: "raft \<Rightarrow> nat \<times> StateType" where
  "raft_softState r = (lead r, role r)"

record Ready =
  rd_SoftState :: "(nat \<times> StateType) option"
  rd_HardState :: HardState
  rd_ReadStates :: "(nat \<times> bytes) list"
  rd_Entries :: "Entry list"
  rd_CommittedEntries :: "Entry list"
  rd_Message :: "Msg list"

definition newReady :: "raft \<Rightarrow> nat \<times> StateType \<Rightarrow> HardState \<Rightarrow> Ready option" where
  "newReady r preSoft preHard = do {
     ce \<leftarrow> nextEntries (rlog r);
     Some \<lparr>rd_SoftState = (if raft_softState r \<noteq> preSoft then Some (raft_softState r) else None),
           rd_HardState = (if raft_hardState r \<noteq> preHard then raft_hardState r else emptyHardState),
           rd_ReadStates = readStates r, rd_Entries = unstableEntries (rlog r), rd_CommittedEntries = ce, rd_Message = msgs r\<rparr> }"

definition containsUpdates :: "Ready \<Rightarrow> bool" where
  "containsUpdates rdy \<longleftrightarrow> rd_SoftState rdy \<noteq> None \<or> rd_HardState rdy \<noteq> emptyHardState \<or> rd_Entries rdy \<noteq> [] \<or>
     rd_CommittedEntries rdy \<noteq> [] \<or> rd_Message rdy \<noteq> [] \<or> rd_ReadStates rdy \<noteq> []"

record NodeLoop =
  core :: raft
  prevSoft :: "nat \<times> StateType"
  prevHard :: HardState
  delivered :: "Ready option"   \<comment> \<open>a batch that is not yet advanced\<close>

definition start_loop :: "raft \<Rightarrow> NodeLoop" where
  "start_loop r = \<lparr>core = r, prevSoft = raft_softState r, prevHard = emptyHardState, delivered = None\<rparr>"

text \<open>The case \<open>readyChan <- rdy\<close>: the batch handed to the application, if there is one.\<close>

definition take_ready :: "NodeLoop \<Rightarrow> (NodeLoop \<times> Ready option) option" where
  "take_ready n = (case delivered n of
     Some _ \<Rightarrow> Some (n, None)
   | None \<Rightarrow> do {
       rdy \<leftarrow> newReady (core n) (prevSoft n) (prevHard n);
       (if \<not> containsUpdates rdy then Some (n, None)
        else Some (n\<lparr>core := (core n)\<lparr>msgs := [], readStates := []\<rparr>,
          prevSoft := (case rd_SoftState rdy of Some s \<Rightarrow> s | None \<Rightarrow> prevSoft n),
          prevHard := (if rd_HardState rdy \<noteq> emptyHardState then rd_HardState rdy else prevHard n),
          delivered := Some rdy\<rparr>, Some rdy)) })"

text \<open>The case \<open><-advanceChan\<close>: the delivered state is persisted, then marked applied and stable.\<close>

definition advance :: "NodeLoop \<Rightarrow> NodeLoop option" where
  "advance n = (case delivered n of
     None \<Rightarrow> Some n
   | Some rdy \<Rightarrow> do {
       let l = rlog (core n);
       let l = (if prevHard n \<noteq> emptyHardState then l\<lparr>storage := ms_SetHardState (prevHard n) (storage l)\<rparr> else l);
       l \<leftarrow> (if hs_Commit (prevHard n) \<noteq> 0 then appliedTo (hs_Commit (prevHard n)) l else Some l);
       l \<leftarrow> (if rd_Entries rdy = [] then Some l
             else do {
               (s, err) \<leftarrow> ms_Append (rd_Entries rdy) (storage l);
               (case err of
                  Some _ \<Rightarrow> None
                | None \<Rightarrow> Some (stableTo (e_Index (last (rd_Entries rdy))) (e_Term (last (rd_Entries rdy))) (l\<lparr>storage := s\<rparr>))) });
       Some (n\<lparr>core := (core n)\<lparr>rlog := l\<rparr>, delivered := None\<rparr>) })"

section \<open>Calls that leave the election state alone\<close>

text \<open>
  \<open>quiet r r'\<close>: the call that led from \<open>r\<close> to \<open>r'\<close> changed neither the term, the vote, the role nor
  the tally, kept the members, and sent no vote request and no vote.
\<close>

definition harmless :: "nat \<Rightarrow> Msg \<Rightarrow> bool" where
  "harmless t m \<longleftrightarrow> m_Type m \<noteq> MsgVote \<and> (m_Type m = MsgVoteResp \<longrightarrow> m_Reject m) \<and>
     (m_Type m \<noteq> MsgProp \<and> m_Type m \<noteq> MsgReadIndex \<longrightarrow> m_Term m = t)"

definition members :: "raft \<Rightarrow> nat list" where
  "members r = map fst (prs r)"

definition quiet :: "raft \<Rightarrow> raft \<Rightarrow> bool" where
  "quiet r r' \<longleftrightarrow> nid r' = nid r \<and> Term r' = Term r \<and> Vote r' = Vote r \<and> role r' = role r \<and> votes r' = votes r \<and>
     members r' = members r \<and> (\<exists>ms. msgs r' = msgs r @ ms \<and> (\<forall>m\<in>set ms. harmless (Term r) m))"

lemma quiet_refl [simp, intro]: "quiet r r"
  by (simp add: quiet_def)

lemma quiet_trans [trans]: "quiet r s \<Longrightarrow> quiet s t \<Longrightarrow> quiet r t"
  by (fastforce simp: quiet_def)

lemma quiet_updates [simp]:
  "quiet r (s\<lparr>rlog := l\<rparr>) = quiet r s" "quiet r (s\<lparr>read_only := ro\<rparr>) = quiet r s"
  "quiet r (s\<lparr>readStates := rs\<rparr>) = quiet r s" "quiet r (s\<lparr>lead := i\<rparr>) = quiet r s"
  "quiet r (s\<lparr>electionElapsed := e\<rparr>) = quiet r s" "quiet r (s\<lparr>heartbeatElapsed := e\<rparr>) = quiet r s"
  "quiet r (s\<lparr>pendingConf := b\<rparr>) = quiet r s"
  "map fst ps = map fst (prs s) \<Longrightarrow> quiet r (s\<lparr>prs := ps\<rparr>) = quiet r s"
  by (simp_all add: quiet_def members_def)

lemma quiet_updates_left [simp]:
  "quiet (s\<lparr>rlog := l\<rparr>) r = quiet s r" "quiet (s\<lparr>read_only := ro\<rparr>) r = quiet s r"
  "quiet (s\<lparr>readStates := rs\<rparr>) r = quiet s r" "quiet (s\<lparr>lead := i\<rparr>) r = quiet s r"
  "quiet (s\<lparr>electionElapsed := e\<rparr>) r = quiet s r" "quiet (s\<lparr>heartbeatElapsed := e\<rparr>) r = quiet s r"
  "quiet (s\<lparr>pendingConf := b\<rparr>) r = quiet s r"
  "map fst ps = map fst (prs s) \<Longrightarrow> quiet (s\<lparr>prs := ps\<rparr>) r = quiet s r"
  by (simp_all add: quiet_def members_def)

lemma keys_gm_set [simp]: "gm_get ps i = Some p \<Longrightarrow> map fst (gm_set i q ps) = map fst ps"
  by (force simp: gm_set_def update_keys dest: map_of_SomeD)

lemma quiet_send:
  "m_Type m \<noteq> MsgVote \<Longrightarrow> m_Type m = MsgVoteResp \<longrightarrow> m_Reject m \<Longrightarrow> quiet r (send m r)"
  by (simp add: quiet_def send_def harmless_def members_def Let_def)

lemma blank_sel [simp]: "m_Type (blank t) = t" "m_Reject (blank t) = False" "m_From (blank t) = 0" "m_To (blank t) = 0"
  by (simp_all add: blank_def)

lemma each_quiet:
  assumes "\<And>i r r'. f i r = Some r' \<Longrightarrow> quiet r r'"
  shows "each f is r = Some r' \<Longrightarrow> quiet r r'"
proof (induction "is" arbitrary: r)
  case (Cons i "is")
  then show ?case by (auto split: if_splits bind_splits dest: assms intro: quiet_trans)
qed simp

lemma sendHeartbeat_quiet: "sendHeartbeat c i r = Some r' \<Longrightarrow> quiet r r'"
  by (auto simp: sendHeartbeat_def split: bind_splits intro!: quiet_send)

lemma sendAppend_quiet: "sendAppend i r = Some r' \<Longrightarrow> quiet r r'"
  by (auto simp: sendAppend_def split: bind_splits intro!: quiet_send)

lemma broadcastHeartbeatWithCtx_quiet: "broadcastHeartbeatWithCtx c r = Some r' \<Longrightarrow> quiet r r'"
  unfolding broadcastHeartbeatWithCtx_def by (rule each_quiet) (rule sendHeartbeat_quiet)

lemma broadcastAppend_quiet: "broadcastAppend r = Some r' \<Longrightarrow> quiet r r'"
  unfolding broadcastAppend_def by (rule each_quiet) (rule sendAppend_quiet)

lemma maybeCommit_quiet: "maybeCommit r = Some (r', b) \<Longrightarrow> quiet r r'"
  by (auto simp: maybeCommit_def split: bind_splits prod.splits)

lemma appendEntry_quiet: "appendEntry es r = Some r' \<Longrightarrow> quiet r r'"
  by (auto simp: appendEntry_def Let_def split: bind_splits prod.splits dest: maybeCommit_quiet)

lemma handleAppendEntries_quiet: "handleAppendEntries m r = Some r' \<Longrightarrow> quiet r r'"
  by (auto simp: handleAppendEntries_def Let_def split: bind_splits prod.splits option.splits
      intro!: quiet_send [THEN quiet_updates_left(1) [THEN iffD1]])

lemma handleHeartbeat_quiet: "handleHeartbeat m r = Some r' \<Longrightarrow> quiet r r'"
  by (auto simp: handleHeartbeat_def split: bind_splits intro!: quiet_send [THEN quiet_updates_left(1) [THEN iffD1]])

lemma stepFollower_quiet: "stepFollower m r = Some r' \<Longrightarrow> quiet r r'"
  by (auto simp: stepFollower_def split: bind_splits if_splits
      dest!: handleAppendEntries_quiet handleHeartbeat_quiet intro!: quiet_send)

lemma answer_read_quiet: "answer_read rs r = Some r' \<Longrightarrow> quiet r r'"
  by (auto simp: answer_read_def split: bind_splits if_splits intro!: quiet_send)

lemma answer_reads_quiet: "answer_reads rss r = Some r' \<Longrightarrow> quiet r r'"
  by (induction rss arbitrary: r) (auto split: bind_splits dest: answer_read_quiet intro: quiet_trans)

lemma leader_readIndex_quiet: "leader_readIndex m r = Some r' \<Longrightarrow> quiet r r'"
  by (auto simp: leader_readIndex_def Let_def split: bind_splits if_splits prod.splits dest!: broadcastHeartbeatWithCtx_quiet)

lemma leader_propose_quiet: "leader_propose m r = Some r' \<Longrightarrow> quiet r r'"
  by (auto simp: leader_propose_def split: bind_splits if_splits prod.splits
      dest!: appendEntry_quiet broadcastAppend_quiet intro: quiet_trans)

lemma leader_appResp_quiet:
  "gm_get (prs r) (m_From m) = Some pr \<Longrightarrow> leader_appResp pr m r = Some r' \<Longrightarrow> quiet r r'"
  by (auto simp: leader_appResp_def Let_def split: bind_splits if_splits prod.splits
      dest!: sendAppend_quiet maybeCommit_quiet broadcastAppend_quiet intro: quiet_trans)

lemma leader_heartbeatResp_quiet: "leader_heartbeatResp m r = Some r' \<Longrightarrow> quiet r r'"
  by (auto simp: leader_heartbeatResp_def Let_def split: bind_splits if_splits prod.splits dest!: answer_reads_quiet)

lemma stepLeader_quiet: "stepLeader m r = Some r' \<Longrightarrow> quiet r r'"
  by (auto simp: stepLeader_def broadcastHeartbeat_def split: if_splits option.splits
      dest: broadcastHeartbeatWithCtx_quiet leader_propose_quiet leader_readIndex_quiet leader_appResp_quiet leader_heartbeatResp_quiet)

lemmas quiet_calls = broadcastAppend_quiet appendEntry_quiet handleAppendEntries_quiet handleHeartbeat_quiet
  stepFollower_quiet stepLeader_quiet

section \<open>The commit rule\<close>

text \<open>The \<open>k\<close>-th largest number is at least \<open>n\<close> when more than \<open>k\<close> numbers are.\<close>

lemma kth_largest:
  fixes xs :: "nat list"
  assumes "k < length xs"
  shows "n \<le> rev (sort xs) ! k \<longleftrightarrow> k < length (filter (\<lambda>x. n \<le> x) xs)"
proof -
  let ?s = "sort xs" and ?j = "length xs - Suc k"
  have c: "length (filter (\<lambda>x. n \<le> x) xs) = length (filter (\<lambda>x. n \<le> x) ?s)"
    by (simp add: filter_sort)
  have e: "rev ?s ! k = ?s ! ?j" using assms by (simp add: rev_nth)
  have srt: "i \<le> j \<Longrightarrow> j < length xs \<Longrightarrow> ?s ! i \<le> ?s ! j" for i j by (simp add: sorted_nth_mono)
  have f: "length (filter (\<lambda>x. n \<le> x) ?s) = card {i. i < length xs \<and> n \<le> ?s ! i}" by (simp add: length_filter_conv_card)
  show ?thesis
  proof
    assume "n \<le> rev ?s ! k"
    then have "{?j..<length xs} \<subseteq> {i. i < length xs \<and> n \<le> ?s ! i}" using e srt [of ?j] by fastforce
    then have "card {?j..<length xs} \<le> card {i. i < length xs \<and> n \<le> ?s ! i}" by (intro card_mono) auto
    then show "k < length (filter (\<lambda>x. n \<le> x) xs)" using assms c f by simp
  next
    assume k: "k < length (filter (\<lambda>x. n \<le> x) xs)"
    show "n \<le> rev ?s ! k"
    proof (rule ccontr)
      assume "\<not> n \<le> rev ?s ! k"
      then have low: "?s ! ?j < n" using e by simp
      have j: "?j < length xs" using assms by simp
      have "?j < i" if "n \<le> ?s ! i" for i
        using srt [OF _ j, of i] low that by (meson le_trans not_le)
      then have "{i. i < length xs \<and> n \<le> ?s ! i} \<subseteq> {Suc ?j..<length xs}" by (simp add: subset_iff Suc_le_eq)
      then have "card {i. i < length xs \<and> n \<le> ?s ! i} \<le> card {Suc ?j..<length xs}" by (intro card_mono) auto
      then show False using k c f assms by simp
    qed
  qed
qed

text \<open>
  C10. A leader whose log is well formed never panics in \<open>maybeCommit\<close>. The candidate index is the
  largest one that a quorum of the members has replicated, and the commit index moves to it exactly when
  it is ahead and holds an entry of the leader's own term; nothing else of the node changes.
\<close>

theorem commit_rule:
  assumes "log_ok (rlog r)" and "prs r \<noteq> []" and "0 < Term r"
  shows "\<exists>mid b. (\<forall>n. n \<le> mid \<longleftrightarrow> quorum r \<le> length (filter (\<lambda>p. n \<le> Match (snd p)) (prs r))) \<and>
    (b \<longleftrightarrow> commitIndex (rlog r) < mid \<and> vterm (rlog r) mid = Term r) \<and>
    maybeCommit r = Some (r\<lparr>rlog := (rlog r)\<lparr>commitIndex := if b then mid else commitIndex (rlog r)\<rparr>\<rparr>, b)"
proof -
  let ?l = "rlog r" and ?ms = "map (Match \<circ> snd) (prs r)"
  define mid where "mid = rev (sort ?ms) ! (quorum r - 1)"
  have q: "quorum r - 1 < length ?ms" using assms(2) by (simp add: quorum_def)
  have m: "n \<le> mid \<longleftrightarrow> quorum r \<le> length (filter (\<lambda>p. n \<le> Match (snd p)) (prs r))" for n
    using kth_largest [OF q, of n] by (simp add: mid_def filter_map comp_def quorum_def Suc_le_eq)
  have "maybeCommit r = map_option (\<lambda>(l, b). (r\<lparr>rlog := l\<rparr>, b)) (log_maybeCommit mid (Term r) ?l)"
    using q by (cases "log_maybeCommit mid (Term r) ?l") (auto simp: maybeCommit_def mid_def rd_def)
  moreover have "log_maybeCommit mid (Term r) ?l =
      Some (?l\<lparr>commitIndex := if commitIndex ?l < mid \<and> vterm ?l mid = Term r then mid else commitIndex ?l\<rparr>,
        commitIndex ?l < mid \<and> vterm ?l mid = Term r)"
    using log_term_view [OF assms(1), of mid] vterm_range [of ?l mid] assms(3) lastIndex_view [OF assms(1)]
    by (auto simp: log_maybeCommit_def zeroTermOnErrCompacted_def commitTo_def)
  ultimately show ?thesis using m
    by (intro exI [of _ mid] exI [of _ "commitIndex ?l < mid \<and> vterm ?l mid = Term r"]) simp
qed

definition demo_conf :: "HardState \<Rightarrow> Config" where
  "demo_conf hs = \<lparr>c_ID = 1, c_peers = [1, 2, 3], c_Storage = ms_SetHardState hs NewMemoryStorage, c_Applied = 0, c_PreVote = False,
     c_ElectionTick = 10, c_HeartbeatTick = 1\<rparr>"

definition demo_leader :: raft where
  "demo_leader = (the (newRaft (\<lambda>_. 0) (demo_conf emptyHardState)))\<lparr>rlog := demo_log,
     prs := [(1, \<lparr>Match = 3, Next = 4\<rparr>), (2, \<lparr>Match = 2, Next = 3\<rparr>), (3, \<lparr>Match = 0, Next = 1\<rparr>)], role := StateLeader\<rparr>"

theorem commit_rule_witness: "\<exists>r'. maybeCommit demo_leader = Some (r', True) \<and> commitIndex (rlog r') = 2"
proof -
  have l: "rlog demo_leader = demo_log" "prs demo_leader \<noteq> []" by (simp_all add: demo_leader_def)
  have t: "Term demo_leader = 1" by code_simp
  have n: "quorum demo_leader \<le> length (filter (\<lambda>p. 2 \<le> Match (snd p)) (prs demo_leader))"
    "\<not> quorum demo_leader \<le> length (filter (\<lambda>p. 3 \<le> Match (snd p)) (prs demo_leader))"
    by (simp_all add: demo_leader_def quorum_def)
  obtain mid b where *: "\<forall>n. n \<le> mid \<longleftrightarrow> quorum demo_leader \<le> length (filter (\<lambda>p. n \<le> Match (snd p)) (prs demo_leader))"
    "b \<longleftrightarrow> commitIndex demo_log < mid \<and> vterm demo_log mid = 1"
    "maybeCommit demo_leader = Some (demo_leader\<lparr>rlog := demo_log\<lparr>commitIndex := if b then mid else commitIndex demo_log\<rparr>\<rparr>, b)"
    using commit_rule [of demo_leader] l t demo_log_facts(1) by auto
  from *(1) n have "2 \<le> mid" "\<not> 3 \<le> mid" by blast+
  then have "mid = 2" by simp
  moreover have "vterm demo_log 2 = 1" using demo_log_facts by (simp add: vterm_def ent_def)
  ultimately show ?thesis using *(2,3) demo_log_facts(4) by simp
qed

section \<open>Restarts and pre-votes\<close>


definition restarted :: raft where
  "restarted = the (newRaft (\<lambda>_. 0) (demo_conf \<lparr>hs_Term = 5, hs_Vote = 2, hs_Commit = 0\<rparr>))"

definition late_request :: Msg where
  "late_request = (blank MsgVote)\<lparr>m_From := 3, m_To := 1, m_Term := 5\<rparr>"


text \<open>A message that \<open>each\<close> of the loops over the members adds.\<close>

lemma each_sent:
  assumes "each f is r = Some r'" and f: "\<And>i r s. f i r = Some s \<Longrightarrow> Q r \<Longrightarrow> Q s \<and> (\<forall>m\<in>set (msgs s). m \<in> set (msgs r) \<or> P m)" and "Q r"
  shows "Q r' \<and> (\<forall>m\<in>set (msgs r'). m \<in> set (msgs r) \<or> P m)"
  using assms(1,3)
proof (induction "is" arbitrary: r)
  case (Cons i "is")
  show ?case
  proof (cases "i = nid r")
    case False
    with Cons.prems obtain s where s: "f i r = Some s" "each f is s = Some r'" by (auto split: bind_splits)
    with f [OF s(1) Cons.prems(2)] Cons.IH [OF s(2)] show ?thesis by blast
  qed (use Cons in simp)
qed simp

lemma requestVote_sent:
  assumes "requestVote t trm i r = Some s" and "t \<noteq> MsgProp" and "t \<noteq> MsgReadIndex"
  shows "Term s = Term r \<and> nid s = nid r \<and>
    (\<forall>m\<in>set (msgs s). m \<in> set (msgs r) \<or> m_Type m = t \<and> m_Term m = Term r \<and> m_From m = nid r)"
  using assms by (auto simp: requestVote_def send_def Let_def split: bind_splits)

lemma prevote_requests:
  assumes c: "campaignPreElection r = Some r'" and "1 < length (prs r)" and m: "m \<in> set (msgs r')" and "msgs r = []"
  shows "m_Type m = MsgPreVote \<and> m_Term m = Term r \<and> m_From m = nid r"
proof -
  let ?s = "r\<lparr>role := StatePreCandidate, votes := [(nid r, True)]\<rparr>"
  have "quorum r \<noteq> 1" using assms(2) by (simp add: quorum_def)
  then have e: "each (requestVote MsgPreVote (Term r + 1)) (map fst (prs ?s)) ?s = Some r'"
    using c by (auto simp: campaignPreElection_def becomePreCandidate_def poll_def gm_set_def quorum_def Let_def split: if_splits bind_splits)
  have "(Term r' = Term r \<and> nid r' = nid r) \<and>
      (\<forall>m\<in>set (msgs r'). m \<in> set (msgs ?s) \<or> m_Type m = MsgPreVote \<and> m_Term m = Term r \<and> m_From m = nid r)"
    using requestVote_sent by (intro each_sent [OF e, where Q = "\<lambda>s. Term s = Term r \<and> nid s = nid r"]) fastforce+
  then show ?thesis using m assms(4) by auto
qed

text \<open>
  The pre-vote requests of a cluster of several nodes carry the current term, not the next one the
  code computes for them, because \<open>send\<close> overwrites it. So a peer that voted for another node in the
  current term, for instance for a leader that has failed, rejects them.
\<close>

theorem prevote_blocked_by_vote:
  assumes "campaignPreElection r = Some r'" and "1 < length (prs r)" and "msgs r = []" and "m \<in> set (msgs r')" and "0 < Term r"
    and "Term p = Term r" and "Vote p \<noteq> 0" and "Vote p \<noteq> nid r" and "log_ok (rlog p)"
  shows "m_Term m = Term r \<and> Step m p = Some (send ((blank MsgPreVoteResp)\<lparr>m_To := nid r, m_Reject := True\<rparr>) p)"
proof -
  have m: "m_Type m = MsgPreVote" "m_Term m = Term r" "m_From m = nid r"
    using prevote_requests [OF assms(1,2,4,3)] by auto
  obtain up where "isUpToDate (m_LogIndex m) (m_LogTerm m) (rlog p) = Some up"
    using log_term_view [OF assms(9)] by (simp add: isUpToDate_def lastTerm_def lastIndex_view [OF assms(9)])
  then show ?thesis using assms m by (auto simp: Step_def dispatch_type_def step_vote_def)
qed

definition follower_of_2 :: "nat \<Rightarrow> raft" where
  "follower_of_2 i = (the (newRaft (\<lambda>_. 0) (demo_conf emptyHardState)))\<lparr>nid := i, Term := 4, Vote := 2, lead := 2, preVote := True\<rparr>"

theorem prevote_blocked_by_vote_witness:
  "\<exists>r' m. campaignPreElection (follower_of_2 1) = Some r' \<and> m \<in> set (msgs r') \<and>
     Step m (follower_of_2 3) = Some (send ((blank MsgPreVoteResp)\<lparr>m_To := 1, m_Reject := True\<rparr>) (follower_of_2 3))"
proof -
  have e: "campaignPreElection (follower_of_2 1) \<noteq> None" "msgs (the (campaignPreElection (follower_of_2 1))) \<noteq> []"
    "msgs (follower_of_2 1) = []" "1 < length (prs (follower_of_2 1))" "nid (follower_of_2 1) = 1"
    by code_simp+
  then obtain r' where r': "campaignPreElection (follower_of_2 1) = Some r'" by blast
  with e(2) obtain m where m: "m \<in> set (msgs r')" by (cases "msgs r'") auto
  have "log_ok (rlog (follower_of_2 3))" by code_simp
  then show ?thesis
    using prevote_blocked_by_vote [OF r' e(4,3) m, of "follower_of_2 3"] r' m e(5) by (auto simp: follower_of_2_def)
qed

end
