(* ===== verification/Raft_Cluster.thy ===== *)
theory Raft_Cluster
  imports Raft_Node
begin

text \<open>
  Election safety of the raft nodes of \<open>src/apps/raft_demo/raft\<close>: a cluster of event loops that
  exchange the messages of their \<open>Ready\<close> batches over a network that may lose, delay, repeat and
  reorder them has at most one leader per term. The membership is fixed and nodes do not restart:
  \<open>Raft_Node\<close> shows that a restarted node forgets its vote.
\<close>

section \<open>Ballots and majorities\<close>

locale quorum_system =
  fixes is_quorum :: "nat set \<Rightarrow> bool"
  assumes quorums_meet: "is_quorum P \<Longrightarrow> is_quorum Q \<Longrightarrow> P \<inter> Q \<noteq> {}"
begin

lemma one_winner:
  assumes "is_quorum P" and "is_quorum Q" and "\<forall>j\<in>P. (j, t, a) \<in> B" and "\<forall>j\<in>Q. (j, t, b) \<in> B"
    and once: "\<And>j t a b. (j, t, a) \<in> B \<Longrightarrow> (j, t, b) \<in> B \<Longrightarrow> a = b"
  shows "a = b"
proof -
  obtain j where "j \<in> P" and "j \<in> Q" using quorums_meet assms(1,2) by blast
  with assms(3,4) once show ?thesis by blast
qed

end

definition majority :: "nat set \<Rightarrow> nat set \<Rightarrow> bool" where
  "majority M Q \<longleftrightarrow> finite M \<and> Q \<subseteq> M \<and> card M div 2 < card Q"

interpretation maj: quorum_system "majority M" for M
proof
  fix P Q assume P: "majority M P" and Q: "majority M Q"
  show "P \<inter> Q \<noteq> {}"
  proof
    assume disj: "P \<inter> Q = {}"
    have "card (P \<union> Q) \<le> card M" using P Q by (simp add: majority_def card_mono)
    moreover have "card (P \<union> Q) = card P + card Q"
      using P Q disj by (meson card_Un_disjoint finite_subset majority_def)
    ultimately show False using P Q by (auto simp: majority_def)
  qed
qed

section \<open>What a node's election state is worth\<close>

text \<open>
  \<open>B\<close> is the set of ballots cast so far: \<open>(j, t, c)\<close> when node \<open>j\<close> voted for \<open>c\<close> in term \<open>t\<close>.
\<close>

type_synonym ballots = "(nat \<times> nat \<times> nat) set"

definition wf_msg :: "ballots \<Rightarrow> Msg \<Rightarrow> bool" where
  "wf_msg B m \<longleftrightarrow> (m_Type m \<noteq> MsgProp \<and> m_Type m \<noteq> MsgReadIndex \<longrightarrow> 0 < m_Term m) \<and>
     (m_Type m = MsgVote \<longrightarrow> m_From m \<noteq> 0) \<and>
     (m_Type m = MsgVoteResp \<and> \<not> m_Reject m \<longrightarrow> (m_From m, m_Term m, m_To m) \<in> B)"

definition tally_ok :: "ballots \<Rightarrow> raft \<Rightarrow> bool" where
  "tally_ok B r \<longleftrightarrow> Vote r = nid r \<and> gm_ok (votes r) \<and> (\<forall>j. (j, True) \<in> set (votes r) \<longrightarrow> (j, Term r, nid r) \<in> B)"

definition elected_by :: "nat set \<Rightarrow> ballots \<Rightarrow> nat \<Rightarrow> nat \<Rightarrow> bool" where
  "elected_by M B t l \<longleftrightarrow> (\<exists>Q. majority M Q \<and> (\<forall>j\<in>Q. (j, t, l) \<in> B))"

definition node_ok :: "nat set \<Rightarrow> ballots \<Rightarrow> raft \<Rightarrow> bool" where
  "node_ok M B r \<longleftrightarrow> set (members r) = M \<and> distinct (members r) \<and> nid r \<in> M \<and> nid r \<noteq> 0 \<and> 0 < Term r \<and>
     (\<forall>m\<in>set (msgs r). wf_msg B m) \<and>
     (role r = StateCandidate \<longrightarrow> tally_ok B r) \<and>
     (role r = StateLeader \<longrightarrow> Vote r = nid r \<and> elected_by M B (Term r) (nid r))"

definition ballot :: "raft \<Rightarrow> ballots" where
  "ballot r = (if Vote r = 0 then {} else {(nid r, Term r, Vote r)})"

text \<open>Terms only grow, and a vote is not changed within a term.\<close>

definition evolves :: "raft \<Rightarrow> raft \<Rightarrow> bool" where
  "evolves r r' \<longleftrightarrow> nid r' = nid r \<and> Term r \<le> Term r' \<and> (Term r' = Term r \<and> Vote r \<noteq> 0 \<longrightarrow> Vote r' = Vote r)"

lemma evolves_refl [simp]: "evolves r r"
  by (simp add: evolves_def)

lemma evolves_trans: "evolves r s \<Longrightarrow> evolves s t \<Longrightarrow> evolves r t"
  by (auto simp: evolves_def)

lemma quiet_evolves: "quiet r r' \<Longrightarrow> evolves r r'"
  by (simp add: quiet_def evolves_def)

lemma wf_msg_mono: "wf_msg B m \<Longrightarrow> B \<subseteq> C \<Longrightarrow> wf_msg C m"
  by (auto simp: wf_msg_def)

lemma elected_by_mono: "elected_by M B t l \<Longrightarrow> B \<subseteq> C \<Longrightarrow> elected_by M C t l"
  by (auto simp: elected_by_def)

lemma node_ok_mono: "node_ok M B r \<Longrightarrow> B \<subseteq> C \<Longrightarrow> node_ok M C r"
  by (auto simp: node_ok_def tally_ok_def intro: wf_msg_mono elected_by_mono)

lemma harmless_wf: "harmless t m \<Longrightarrow> 0 < t \<Longrightarrow> wf_msg B m"
  by (auto simp: harmless_def wf_msg_def)

lemma quiet_node_ok: "quiet r r' \<Longrightarrow> node_ok M B r \<Longrightarrow> node_ok M B r'"
  by (auto simp: quiet_def node_ok_def tally_ok_def intro: harmless_wf)

lemma reset_sel [simp]:
  "Term (reset t r) = t" "nid (reset t r) = nid r" "members (reset t r) = members r" "msgs (reset t r) = msgs r"
  "votes (reset t r) = []" "role (reset t r) = role r" "rlog (reset t r) = rlog r" "prs (reset t r) = prs r"
  "Vote (reset t r) = (if Term r = t then Vote r else 0)"
  by (simp_all add: reset_def resetRandomizedElectionTimeout_def members_def Let_def)

lemma becomeFollower_sel [simp]:
  "Term (becomeFollower t l r) = t" "nid (becomeFollower t l r) = nid r" "members (becomeFollower t l r) = members r"
  "msgs (becomeFollower t l r) = msgs r" "role (becomeFollower t l r) = StateFollower"
  "Vote (becomeFollower t l r) = (if Term r = t then Vote r else 0)"
  by (simp_all add: becomeFollower_def members_def)

lemma becomeFollower_ok: "node_ok M B r \<Longrightarrow> 0 < t \<Longrightarrow> node_ok M B (becomeFollower t l r)"
  by (simp add: node_ok_def)

lemma becomeFollower_evolves: "Term r \<le> t \<Longrightarrow> evolves r (becomeFollower t l r)"
  by (simp add: evolves_def)

lemma becomeFollower_ballot: "ballot (becomeFollower t l r) \<subseteq> ballot r"
  by (simp add: ballot_def)

section \<open>Elections\<close>

lemma granted_card:
  assumes "gm_ok vs"
  shows "length (filter snd vs) = card {j. (j, True) \<in> set vs}"
proof -
  have "{j. (j, True) \<in> set vs} = set (map fst (filter snd vs))" by force
  moreover have "distinct (map fst (filter snd vs))" using assms by (simp add: gm_ok_def distinct_map_filter)
  ultimately show ?thesis by (metis distinct_card length_map)
qed

text \<open>A tally with a quorum of granted votes is a majority of the members.\<close>

lemma tally_elects:
  assumes "tally_ok B r" and "length (filter snd (votes r)) = quorum r"
    and "set (members r) = M" and "distinct (members r)" and voters: "\<And>j t c. (j, t, c) \<in> B \<Longrightarrow> j \<in> M"
  shows "elected_by M B (Term r) (nid r)"
proof -
  let ?Q = "{j. (j, True) \<in> set (votes r)}"
  have "card M = length (prs r)"
    using assms(3,4) distinct_card [of "members r"] by (simp add: members_def)
  moreover have "card ?Q = quorum r" using assms(1,2) granted_card by (metis tally_ok_def)
  moreover have "?Q \<subseteq> M" using assms(1) voters by (auto simp: tally_ok_def)
  ultimately have "majority M ?Q" using assms(3) by (auto simp: majority_def quorum_def)
  then show ?thesis using assms(1) by (auto simp: elected_by_def tally_ok_def)
qed

lemma becomeLeader_ok:
  assumes "becomeLeader r = Some r'" and ok: "node_ok M B r" and "role r = StateCandidate"
    and "length (filter snd (votes r)) = quorum r" and "\<And>j t c. (j, t, c) \<in> B \<Longrightarrow> j \<in> M"
  shows "node_ok M B r'" and "Term r' = Term r \<and> Vote r' = Vote r \<and> nid r' = nid r"
proof -
  let ?s = "(reset (Term r) r)\<lparr>lead := nid r, role := StateLeader\<rparr>"
  have el: "elected_by M B (Term r) (nid r)"
    using assms by (intro tally_elects) (auto simp: node_ok_def)
  obtain li where "appendEntry [zero_entry] (?s\<lparr>prs :=
      map (\<lambda>(i, p). (i, if i = nid r then p else \<lparr>Match = 0, Next = li + 1\<rparr>)) (prs r)\<rparr>) = Some r'"
    using assms(1,3) by (auto simp: becomeLeader_def Let_def split: bind_splits)
  then have q: "quiet ?s r'" by (auto simp: case_prod_unfold dest!: appendEntry_quiet)
  have "node_ok M B ?s" using ok el assms(3) by (simp add: node_ok_def members_def tally_ok_def)
  with q show "node_ok M B r'" by (rule quiet_node_ok)
  show "Term r' = Term r \<and> Vote r' = Vote r \<and> nid r' = nid r" using q by (simp add: quiet_def)
qed

definition advances :: "nat set \<Rightarrow> ballots \<Rightarrow> raft \<Rightarrow> raft \<Rightarrow> bool" where
  "advances M B r r' \<longleftrightarrow> node_ok M (B \<union> ballot r') r' \<and> evolves r r'"

lemma advances_quiet: "quiet r r' \<Longrightarrow> node_ok M B r \<Longrightarrow> advances M B r r'"
  by (auto simp: advances_def intro: quiet_evolves node_ok_mono [OF quiet_node_ok])

lemma advances_evolves: "evolves r s \<Longrightarrow> advances M B s t \<Longrightarrow> advances M B r t"
  by (auto simp: advances_def intro: evolves_trans)

lemma quiet_ballot: "quiet r r' \<Longrightarrow> ballot r' = ballot r"
  by (simp add: quiet_def ballot_def)

lemma advances_then_quiet: "advances M B r s \<Longrightarrow> quiet s t \<Longrightarrow> advances M B r t"
  by (auto simp: advances_def quiet_ballot intro: evolves_trans quiet_evolves quiet_node_ok)

definition steady :: "raft \<Rightarrow> raft \<Rightarrow> bool" where
  "steady r r' \<longleftrightarrow> nid r' = nid r \<and> Term r' = Term r \<and> Vote r' = Vote r"

lemma send_ok: "node_ok M B r \<Longrightarrow> m_Type m \<noteq> MsgVoteResp \<Longrightarrow> node_ok M B (send m r)"
  by (simp add: send_def Let_def node_ok_def wf_msg_def tally_ok_def members_def)

lemma send_steady [simp]: "steady r (send m r)"
  by (simp add: send_def Let_def steady_def)

lemma requestVote_ok:
  assumes "t \<noteq> MsgVoteResp" and "node_ok M B r" and "requestVote t term i r = Some r'"
  shows "node_ok M B r' \<and> steady r r'"
proof -
  obtain m where "r' = send m r" and "m_Type m = t" using assms(3) by (auto simp: requestVote_def split: bind_splits)
  then show ?thesis using send_ok [OF assms(2)] assms(1) by simp
qed

lemma requests_ok:
  assumes "t \<noteq> MsgVoteResp" and "node_ok M B r" and "each (requestVote t term) is r = Some r'"
  shows "node_ok M B r' \<and> steady r r'"
  using assms(2,3)
proof (induction "is" arbitrary: r)
  case Nil
  then show ?case by (simp add: steady_def)
next
  case (Cons i "is")
  show ?case
  proof (cases "i = nid r")
    case True
    with Cons show ?thesis by simp
  next
    case False
    with Cons.prems obtain s where s: "requestVote t term i r = Some s" and "each (requestVote t term) is s = Some r'"
      by (auto split: bind_splits)
    with requestVote_ok [OF assms(1) Cons.prems(1) s] Cons.IH [of s] show ?thesis by (auto simp: steady_def)
  qed
qed

lemma campaignElection_ok:
  assumes c: "campaignElection r = Some r'" and ok: "node_ok M B r" and voters: "\<And>j t c. (j, t, c) \<in> B \<Longrightarrow> j \<in> M"
  shows "advances M B r r'"
proof -
  define s where "s = (reset (Term r + 1) r)\<lparr>Vote := nid r, role := StateCandidate, votes := [(nid r, True)]\<rparr>"
  let ?C = "insert (nid r, Term r + 1, nid r) B"
  have s: "node_ok M ?C s" "role s = StateCandidate" "votes s = [(nid r, True)]"
    "nid s = nid r" "Term s = Term r + 1" "Vote s = nid r"
    using ok node_ok_mono [OF ok, of ?C] by (auto simp: s_def node_ok_def tally_ok_def members_def gm_ok_def)
  have next_s: "(if quorum s = 1 then becomeLeader s else each (requestVote MsgVote (Term s)) (map fst (prs s)) s) = Some r'"
    using c by (auto simp: campaignElection_def becomeCandidate_def poll_def s_def gm_set_def Let_def split: if_splits bind_splits)
  have v: "j \<in> M" if "(j, t, c) \<in> ?C" for j t c using that voters ok by (auto simp: node_ok_def)
  have "node_ok M ?C r' \<and> steady s r'"
  proof (cases "quorum s = 1")
    case True
    with next_s have l: "becomeLeader s = Some r'" by simp
    from True s(3) have q: "length (filter snd (votes s)) = quorum s" by simp
    show ?thesis using becomeLeader_ok [OF l s(1,2) q v] by (simp add: steady_def)
  next
    case False
    with next_s requests_ok [OF _ s(1)] show ?thesis by auto
  qed
  moreover have "ballot r' = {(nid r, Term r + 1, nid r)}" if "steady s r'"
    using that s ok by (simp add: steady_def ballot_def node_ok_def)
  ultimately show ?thesis using s by (simp add: advances_def evolves_def steady_def)
qed

lemma campaignPreElection_ok:
  assumes c: "campaignPreElection r = Some r'" and ok: "node_ok M B r" and voters: "\<And>j t c. (j, t, c) \<in> B \<Longrightarrow> j \<in> M"
  shows "advances M B r r'"
proof -
  define s where "s = r\<lparr>role := StatePreCandidate, votes := [(nid r, True)]\<rparr>"
  have s: "node_ok M B s" and e: "evolves r s" using ok by (auto simp: s_def node_ok_def members_def evolves_def)
  have next_s: "(if quorum s = 1 then campaignElection s else each (requestVote MsgPreVote (Term r + 1)) (map fst (prs s)) s) = Some r'"
    using c by (auto simp: campaignPreElection_def becomePreCandidate_def poll_def s_def gm_set_def Let_def split: if_splits bind_splits)
  have "advances M B s r'"
  proof (cases "quorum s = 1")
    case True
    with next_s have "campaignElection s = Some r'" by simp
    then show ?thesis using campaignElection_ok s voters by blast
  next
    case False
    with next_s requests_ok [OF _ s] have "node_ok M B r' \<and> steady s r'" by auto
    then show ?thesis using node_ok_mono [of M B r' "B \<union> ballot r'"] by (auto simp: advances_def evolves_def steady_def)
  qed
  with e show ?thesis by (rule advances_evolves)
qed

lemma step_hup_ok:
  assumes "step_hup r = Some r'" and "node_ok M B r" and "\<And>j t c. (j, t, c) \<in> B \<Longrightarrow> j \<in> M"
  shows "advances M B r r'"
  using assms campaignElection_ok campaignPreElection_ok
  by (auto simp: step_hup_def intro: advances_quiet split: if_splits bind_splits)

lemma grant_ok:
  assumes ok: "node_ok M B r" and "m_From m \<noteq> 0" and "Vote r = 0 \<or> m_From m = Vote r"
  shows "advances M B r (send ((blank MsgVoteResp)\<lparr>m_To := m_From m\<rparr>) (r\<lparr>Vote := m_From m\<rparr>))" (is "advances M B r ?s")
proof -
  have b: "ballot ?s = {(nid r, Term r, m_From m)}" using assms(2) by (simp add: ballot_def send_def Let_def blank_def)
  have "Vote r \<noteq> nid r \<or> m_From m = nid r" using assms ok by (auto simp: node_ok_def)
  then have "node_ok M (B \<union> ballot ?s) ?s"
    using ok node_ok_mono [OF ok, of "B \<union> ballot ?s"]
    unfolding b by (auto simp: node_ok_def send_def Let_def wf_msg_def tally_ok_def members_def blank_def)
  then show ?thesis using assms(3) by (auto simp: advances_def evolves_def send_def Let_def)
qed

lemma step_vote_ok:
  assumes s: "step_vote m r = Some r'" and ok: "node_ok M B r"
    and m: "m_Type m = MsgVote \<Longrightarrow> m_From m \<noteq> 0 \<and> m_Term m \<le> Term r"
  shows "advances M B r r'"
proof -
  have r: "quiet r (send ((blank t)\<lparr>m_To := i, m_Reject := True\<rparr>) r)" if "t \<noteq> MsgVote" for t i
    using that by (intro quiet_send) simp_all
  have p: "quiet r (send ((blank MsgPreVoteResp)\<lparr>m_To := i\<rparr>) r)" for i by (intro quiet_send) simp_all
  show ?thesis
    using s ok m grant_ok [OF ok, of m]
    by (auto simp: step_vote_def split: bind_splits if_splits intro!: advances_quiet r p)
qed

lemma poll_granted_ok:
  assumes "node_ok M B r" and "role r = StateCandidate" and "v \<Longrightarrow> (j, Term r, nid r) \<in> B"
  shows "node_ok M B (fst (poll j v r))"
  using assms by (auto simp: node_ok_def poll_def Let_def tally_ok_def members_def gm_mem_iff split: option.splits if_splits)

lemma poll_pre_ok: "node_ok M B r \<Longrightarrow> role r \<noteq> StateCandidate \<Longrightarrow> node_ok M B (fst (poll j v r))"
  by (simp add: node_ok_def poll_def members_def Let_def)

lemma poll_sel [simp]:
  "role (fst (poll j v r)) = role r" "Term (fst (poll j v r)) = Term r" "Vote (fst (poll j v r)) = Vote r" "nid (fst (poll j v r)) = nid r"
  "snd (poll j v r) = length (filter snd (votes (fst (poll j v r))))"
  by (simp_all add: poll_def Let_def)

lemma poll_evolves: "evolves r (fst (poll j v r))"
  by (simp add: evolves_def)

text \<open>A counted response: the node wins, loses or goes on waiting.\<close>

lemma count_vote_ok:
  assumes st: "(if quorum s = length (filter snd (votes s))
        then if role s = StatePreCandidate then campaignElection s else becomeLeader s \<bind> broadcastAppend
        else if quorum s = length (votes s) - length (filter snd (votes s)) then Some (becomeFollower (Term s) 0 s) else Some s) = Some r'"
    and ok: "node_ok M B s" and r: "role s = StateCandidate \<or> role s = StatePreCandidate"
    and voters: "\<And>j t c. (j, t, c) \<in> B \<Longrightarrow> j \<in> M"
  shows "advances M B s r'"
proof (cases "quorum s = length (filter snd (votes s)) \<and> role s = StateCandidate")
  case True
  with st obtain l where l: "becomeLeader s = Some l" and "broadcastAppend l = Some r'" by (auto split: bind_splits)
  moreover have "advances M B s l"
    using becomeLeader_ok [OF l ok _ _ voters] True node_ok_mono [of M B l "B \<union> ballot l"] by (auto simp: advances_def evolves_def)
  ultimately show ?thesis using advances_then_quiet broadcastAppend_quiet by blast
next
  case False
  have "advances M B s (becomeFollower (Term s) 0 s)"
    using ok by (intro advances_evolves [OF becomeFollower_evolves advances_quiet [OF quiet_refl]] becomeFollower_ok)
      (simp_all add: node_ok_def)
  then show ?thesis using False st r campaignElection_ok [OF _ ok voters] advances_quiet [OF quiet_refl ok]
    by (auto split: if_splits)
qed

lemma stepCandidate_ok:
  assumes st: "stepCandidate m r = Some r'" and ok: "node_ok M B r" and r: "role r = StateCandidate \<or> role r = StatePreCandidate"
    and voters: "\<And>j t c. (j, t, c) \<in> B \<Longrightarrow> j \<in> M"
    and hb: "m_Type m = MsgHeartbeat \<Longrightarrow> m_Term m = Term r"
    and vr: "m_Type m = MsgVoteResp \<Longrightarrow> \<not> m_Reject m \<Longrightarrow> (m_From m, Term r, nid r) \<in> B"
  shows "advances M B r r'"
proof -
  consider (app) "m_Type m = MsgApp" | (beat) "m_Type m = MsgHeartbeat"
    | (resp) "m_Type m = (if role r = StatePreCandidate then MsgPreVoteResp else MsgVoteResp)"
    | (other) "r' = r"
    using st by (auto simp: stepCandidate_def Let_def split: if_splits)
  then show ?thesis
  proof cases
    case app
    then have "quiet (becomeFollower (Term r) (m_From m) r) r'"
      using st handleAppendEntries_quiet by (simp add: stepCandidate_def)
    moreover have "node_ok M B (becomeFollower (Term r) (m_From m) r)"
      using ok by (intro becomeFollower_ok) (auto simp: node_ok_def)
    ultimately show ?thesis using advances_quiet advances_evolves becomeFollower_evolves by blast
  next
    case beat
    then have "quiet (becomeFollower (Term r) (m_From m) r) r'"
      using st hb handleHeartbeat_quiet by (simp add: stepCandidate_def)
    moreover have "node_ok M B (becomeFollower (Term r) (m_From m) r)"
      using ok by (intro becomeFollower_ok) (auto simp: node_ok_def)
    ultimately show ?thesis using advances_quiet advances_evolves becomeFollower_evolves by blast
  next
    case resp
    define s where "s = fst (poll (m_From m) (\<not> m_Reject m) r)"
    have ok_s: "node_ok M B s"
    proof (cases "role r = StateCandidate")
      case True
      then show ?thesis using ok resp vr unfolding s_def by (intro poll_granted_ok) auto
    next
      case False
      with ok show ?thesis unfolding s_def by (rule poll_pre_ok)
    qed
    have "advances M B s r'"
    proof (rule count_vote_ok)
      show "(if quorum s = length (filter snd (votes s))
        then if role s = StatePreCandidate then campaignElection s else becomeLeader s \<bind> broadcastAppend
        else if quorum s = length (votes s) - length (filter snd (votes s)) then Some (becomeFollower (Term s) 0 s) else Some s) = Some r'"
        using st resp r by (auto simp: stepCandidate_def Let_def s_def case_prod_unfold split: if_splits)
      show "node_ok M B s" by (rule ok_s)
      show "role s = StateCandidate \<or> role s = StatePreCandidate" using r by (simp add: s_def)
    qed (rule voters)
    then show ?thesis using poll_evolves advances_evolves unfolding s_def by blast
  next
    case other
    then show ?thesis using ok advances_quiet by blast
  qed
qed

text \<open>The messages a node may be given: local ones, and well-formed ones addressed to it.\<close>

definition local_msg :: "Msg \<Rightarrow> bool" where
  "local_msg m \<longleftrightarrow> m_Type m = MsgProp \<or> m_Type m = MsgReadIndex \<or> m_Type m = MsgHup \<or> m_Type m = MsgBeat"

definition acceptable :: "ballots \<Rightarrow> Msg \<Rightarrow> raft \<Rightarrow> bool" where
  "acceptable B m r \<longleftrightarrow> local_msg m \<and> m_Term m = 0 \<or> wf_msg B m \<and> m_To m = nid r"

definition current :: "Msg \<Rightarrow> raft \<Rightarrow> bool" where
  "current m r \<longleftrightarrow> m_Term m = Term r \<or> (local_msg m \<or> m_Type m = MsgPreVote \<or> m_Type m = MsgPreVoteResp)"

lemma dispatch_type_ok:
  assumes d: "dispatch_type m r = Some r'" and ok: "node_ok M B r" and voters: "\<And>j t c. (j, t, c) \<in> B \<Longrightarrow> j \<in> M"
    and m: "acceptable B m r" "current m r"
  shows "advances M B r r'"
proof -
  consider (hup) "m_Type m = MsgHup" | (vote) "m_Type m = MsgVote \<or> m_Type m = MsgPreVote"
    | (other) "dispatch_role m r = Some r'"
    using d by (auto simp: dispatch_type_def split: if_splits)
  then show ?thesis
  proof cases
    case hup
    with d have "step_hup r = Some r'" by (simp add: dispatch_type_def)
    then show ?thesis using ok voters by (rule step_hup_ok)
  next
    case vote
    with d have "step_vote m r = Some r'" by (auto simp: dispatch_type_def)
    then show ?thesis using ok by (rule step_vote_ok) (use m in \<open>auto simp: acceptable_def current_def local_msg_def wf_msg_def\<close>)
  next
    case d: other
    show ?thesis
    proof (cases "role r = StateCandidate \<or> role r = StatePreCandidate")
      case True
      with d have "stepCandidate m r = Some r'" by (auto simp: dispatch_role_def)
      then show ?thesis
        using ok True voters m
        by (intro stepCandidate_ok) (auto simp: acceptable_def current_def local_msg_def wf_msg_def)
    next
      case False
      with d show ?thesis
        by (auto simp: dispatch_role_def split: StateType.splits
            intro: advances_quiet [OF _ ok] stepFollower_quiet stepLeader_quiet)
    qed
  qed
qed

lemma Step_ok:
  assumes st: "Step m r = Some r'" and ok: "node_ok M B r" and voters: "\<And>j t c. (j, t, c) \<in> B \<Longrightarrow> j \<in> M"
    and m: "acceptable B m r"
  shows "advances M B r r'"
proof -
  let ?ld = "if m_Type m = MsgVote \<or> m_Type m = MsgPreVote then 0 else m_From m"
  consider (same) "dispatch_type m r = Some r'" "current m r"
    | (newer) "Term r < m_Term m" "dispatch_type m (becomeFollower (m_Term m) ?ld r) = Some r'"
    | (stale) "r' = r \<or> (\<exists>i. r' = send ((blank MsgAppResp)\<lparr>m_To := i\<rparr>) r)"
    using st m
    by (auto simp: Step_def Let_def acceptable_def current_def local_msg_def wf_msg_def split: if_splits)
  then show ?thesis
  proof cases
    case same
    then show ?thesis using dispatch_type_ok ok voters m by blast
  next
    case newer
    have "advances M B (becomeFollower (m_Term m) ?ld r) r'"
      using newer ok m
      by (intro dispatch_type_ok [OF newer(2) becomeFollower_ok [OF ok] voters]) (auto simp: acceptable_def current_def)
    moreover have "evolves r (becomeFollower (m_Term m) ?ld r)" using newer(1) by (simp add: becomeFollower_evolves)
    ultimately show ?thesis by (rule advances_evolves [rotated])
  next
    case stale
    then have "quiet r r'" by (auto intro!: quiet_send)
    then show ?thesis using ok by (rule advances_quiet)
  qed
qed

lemma tick_ok:
  assumes t: "tick r = Some r'" and ok: "node_ok M B r" and voters: "\<And>j t c. (j, t, c) \<in> B \<Longrightarrow> j \<in> M"
  shows "advances M B r r'"
proof -
  define s where "s = (if role r = StateLeader
    then r\<lparr>heartbeatElapsed := if heartbeatElapsed r + 1 \<ge> heartbeatTimeout r then 0 else heartbeatElapsed r + 1\<rparr>
    else r\<lparr>electionElapsed := if promotable (nid r) r \<and> electionElapsed r + 1 \<ge> randomizedElectionTimeout r
           then 0 else electionElapsed r + 1\<rparr>)"
  have q: "quiet r s" by (simp add: s_def)
  have s: "r' = s \<or> Step ((blank MsgBeat)\<lparr>m_From := nid r\<rparr>) s = Some r' \<or> Step ((blank MsgHup)\<lparr>m_From := nid r\<rparr>) s = Some r'"
    using t by (auto simp: tick_def tickHeartbeat_def tickElection_def Let_def s_def promotable_def split: if_splits)
  have ok': "node_ok M B s" using q ok by (rule quiet_node_ok)
  from s have "advances M B s r'"
    using Step_ok [OF _ ok' voters] advances_quiet [OF quiet_refl ok'] by (auto simp: acceptable_def local_msg_def blank_def)
  with q show ?thesis using advances_evolves quiet_evolves by blast
qed

section \<open>The cluster\<close>

text \<open>
  \<open>cast\<close> and \<open>reigns\<close> record the history: the ballots cast, and the pairs of a term and a leader.
  A node that panics takes no further step.
\<close>

record cluster =
  loops :: "nat \<Rightarrow> NodeLoop"
  net :: "Msg set"
  cast :: ballots
  reigns :: "(nat \<times> nat) set"

definition put :: "nat \<Rightarrow> NodeLoop \<Rightarrow> Msg list \<Rightarrow> cluster \<Rightarrow> cluster" where
  "put i n ms c = \<lparr>loops = (loops c)(i := n), net = net c \<union> set ms, cast = cast c \<union> ballot (core n),
     reigns = reigns c \<union> (if role (core n) = StateLeader then {(Term (core n), i)} else {})\<rparr>"

definition propose_msg :: "nat \<Rightarrow> Entry \<Rightarrow> Msg" where
  "propose_msg i e = (blank MsgProp)\<lparr>m_Entries := [e], m_From := i\<rparr>"

definition readIndex_msg :: "bytes \<Rightarrow> Msg" where
  "readIndex_msg ctx = (blank MsgReadIndex)\<lparr>m_Entries := [zero_entry\<lparr>e_Data := ctx\<rparr>]\<rparr>"

definition campaign_msg :: Msg where
  "campaign_msg = blank MsgHup"

inductive cluster_step :: "nat set \<Rightarrow> cluster \<Rightarrow> cluster \<Rightarrow> bool" for M where
  recv: "i \<in> M \<Longrightarrow> m \<in> net c \<Longrightarrow> m_To m = i \<Longrightarrow> Step m (core (loops c i)) = Some r \<Longrightarrow>
    cluster_step M c (put i ((loops c i)\<lparr>core := r\<rparr>) [] c)"
| propose: "i \<in> M \<Longrightarrow> Step (propose_msg i e) (core (loops c i)) = Some r \<Longrightarrow>
    cluster_step M c (put i ((loops c i)\<lparr>core := r\<rparr>) [] c)"
| readIndex: "i \<in> M \<Longrightarrow> Step (readIndex_msg ctx) (core (loops c i)) = Some r \<Longrightarrow>
    cluster_step M c (put i ((loops c i)\<lparr>core := r\<rparr>) [] c)"
| campaign: "i \<in> M \<Longrightarrow> Step campaign_msg (core (loops c i)) = Some r \<Longrightarrow>
    cluster_step M c (put i ((loops c i)\<lparr>core := r\<rparr>) [] c)"
| tick: "i \<in> M \<Longrightarrow> tick (core (loops c i)) = Some r \<Longrightarrow>
    cluster_step M c (put i ((loops c i)\<lparr>core := r\<rparr>) [] c)"
| ready: "i \<in> M \<Longrightarrow> take_ready (loops c i) = Some (n, Some rdy) \<Longrightarrow>
    cluster_step M c (put i n (rd_Message rdy) c)"
| advance: "i \<in> M \<Longrightarrow> advance (loops c i) = Some n \<Longrightarrow>
    cluster_step M c (put i n [] c)"

definition started :: "nat set \<Rightarrow> nat \<Rightarrow> NodeLoop \<Rightarrow> bool" where
  "started M i n \<longleftrightarrow> (\<exists>rand conf peers r. StartNode rand conf peers = Some r \<and> c_ID conf = i \<and>
     set (c_peers conf) \<union> set peers = M \<and> n = start_loop r)"

inductive reachable :: "nat set \<Rightarrow> cluster \<Rightarrow> bool" for M where
  init: "finite M \<Longrightarrow> 0 \<notin> M \<Longrightarrow> (\<And>i. i \<in> M \<Longrightarrow> started M i (ns i)) \<Longrightarrow>
    reachable M \<lparr>loops = ns, net = {}, cast = {}, reigns = {}\<rparr>"
| step: "reachable M c \<Longrightarrow> cluster_step M c c' \<Longrightarrow> reachable M c'"

section \<open>The invariant\<close>

text \<open>Ballots are cast by members, in terms they have reached, once per term, and agree with the current vote.\<close>

definition cast_ok :: "nat set \<Rightarrow> (nat \<Rightarrow> raft) \<Rightarrow> ballots \<Rightarrow> bool" where
  "cast_ok M rs B \<longleftrightarrow>
     (\<forall>j t a. (j, t, a) \<in> B \<longrightarrow> j \<in> M \<and> t \<le> Term (rs j) \<and> (t = Term (rs j) \<longrightarrow> a = Vote (rs j) \<and> a \<noteq> 0)) \<and>
     (\<forall>j t a b. (j, t, a) \<in> B \<and> (j, t, b) \<in> B \<longrightarrow> a = b)"

definition reigns_ok :: "nat set \<Rightarrow> cluster \<Rightarrow> bool" where
  "reigns_ok M c \<longleftrightarrow> (\<forall>t a. (t, a) \<in> reigns c \<longrightarrow> elected_by M (cast c) t a) \<and>
     (\<forall>i\<in>M. role (core (loops c i)) = StateLeader \<longrightarrow> (Term (core (loops c i)), i) \<in> reigns c)"

definition cluster_ok :: "nat set \<Rightarrow> cluster \<Rightarrow> bool" where
  "cluster_ok M c \<longleftrightarrow> (\<forall>i\<in>M. node_ok M (cast c) (core (loops c i)) \<and> nid (core (loops c i)) = i) \<and>
     (\<forall>m\<in>net c. wf_msg (cast c) m) \<and> cast_ok M (\<lambda>i. core (loops c i)) (cast c) \<and> reigns_ok M c"

lemma cast_voters: "cast_ok M rs B \<Longrightarrow> (j, t, a) \<in> B \<Longrightarrow> j \<in> M"
  unfolding cast_ok_def by blast

lemma cast_once: "cast_ok M rs B \<Longrightarrow> (j, t, a) \<in> B \<Longrightarrow> (j, t, b) \<in> B \<Longrightarrow> a = b"
  unfolding cast_ok_def by blast

lemma cast_past: "cast_ok M rs B \<Longrightarrow> (j, t, a) \<in> B \<Longrightarrow> t \<le> Term (rs j)"
  unfolding cast_ok_def by blast

lemma cast_now: "cast_ok M rs B \<Longrightarrow> (j, Term (rs j), a) \<in> B \<Longrightarrow> a = Vote (rs j) \<and> a \<noteq> 0"
  unfolding cast_ok_def by blast

lemma cast_ok_vote:
  assumes c: "cast_ok M rs B" and ev: "evolves (rs i) r" and i: "i \<in> M" "nid (rs i) = i"
  shows "cast_ok M (rs(i := r)) (B \<union> ballot r)"
proof -
  have now: "b = Vote r \<and> b \<noteq> 0" if "(i, Term r, b) \<in> B" for b
    using cast_past [OF c that] cast_now [OF c, of i b] that ev by (auto simp: evolves_def)
  have past: "t \<le> Term r" if "(i, t, b) \<in> B" for t b
    using cast_past [OF c that] ev by (simp add: evolves_def)
  have new: "x = (i, Term r, Vote r) \<and> Vote r \<noteq> 0" if "x \<in> ballot r" for x
    using that ev i by (auto simp: ballot_def evolves_def split: if_splits)
  show ?thesis
    unfolding cast_ok_def
  proof (intro conjI allI impI)
    fix j t a b assume "(j, t, a) \<in> B \<union> ballot r \<and> (j, t, b) \<in> B \<union> ballot r"
    then show "a = b" using new now cast_once [OF c] by blast
  next
    fix j t a assume "(j, t, a) \<in> B \<union> ballot r"
    then have *: "(j, t, a) \<in> B \<or> j = i \<and> t = Term r \<and> a = Vote r \<and> a \<noteq> 0" using new by blast
    then show "j \<in> M" using i cast_voters [OF c] by blast
    show "t \<le> Term ((rs(i := r)) j)" using * past cast_past [OF c] by auto
    assume "t = Term ((rs(i := r)) j)"
    then show "a = Vote ((rs(i := r)) j)" "a \<noteq> 0" using * now cast_now [OF c] by (auto split: if_splits)
  qed
qed

lemma put_ok:
  assumes c: "cluster_ok M c" and i: "i \<in> M" and a: "advances M (cast c) (core (loops c i)) (core n)"
    and ms: "\<And>m. m \<in> set ms \<Longrightarrow> wf_msg (cast c) m"
  shows "cluster_ok M (put i n ms c)"
proof -
  let ?r = "core (loops c i)" and ?B = "cast c \<union> ballot (core n)"
  have ok: "node_ok M ?B (core n)" and ev: "evolves ?r (core n)" using a by (simp_all add: advances_def)
  have nid: "nid ?r = i" "nid (core n) = i" using c i ev by (auto simp: evolves_def cluster_ok_def)
  have "node_ok M ?B (core (((loops c)(i := n)) j)) \<and> nid (core (((loops c)(i := n)) j)) = j" if "j \<in> M" for j
    using that c ok nid node_ok_mono [of M "cast c" _ ?B] unfolding cluster_ok_def by auto
  moreover have "wf_msg ?B m" if "m \<in> net c \<union> set ms" for m
    using that c ms wf_msg_mono [of "cast c" _ ?B] unfolding cluster_ok_def by blast
  moreover have "cast_ok M (\<lambda>j. core (((loops c)(i := n)) j)) ?B"
    using cast_ok_vote [of M "\<lambda>j. core (loops c j)" "cast c" i "core n"] c ev i nid
    by (simp add: cluster_ok_def fun_upd_def if_distrib [of core] cong: if_cong)
  moreover have "elected_by M ?B t l" if "(t, l) \<in> reigns c" for t l
    using that c elected_by_mono [of M "cast c" _ _ ?B] unfolding cluster_ok_def reigns_ok_def by blast
  ultimately show ?thesis
    using ok nid c by (auto simp: cluster_ok_def reigns_ok_def put_def node_ok_def)
qed

lemma take_ready_ok:
  assumes t: "take_ready n = Some (n', Some rdy)" and ok: "node_ok M B (core n)"
  shows "advances M B (core n) (core n')" and "m \<in> set (rd_Message rdy) \<Longrightarrow> wf_msg B m"
proof -
  have n: "core n' = (core n)\<lparr>msgs := [], readStates := []\<rparr>" "rd_Message rdy = msgs (core n)"
    using t by (auto simp: take_ready_def newReady_def split: option.splits bind_splits if_splits)
  have "node_ok M B (core n')" using ok n by (simp add: node_ok_def tally_ok_def members_def)
  then show "advances M B (core n) (core n')"
    using n node_ok_mono by (fastforce simp: advances_def evolves_def)
  show "m \<in> set (rd_Message rdy) \<Longrightarrow> wf_msg B m" using ok n by (simp add: node_ok_def)
qed

lemma advance_quiet: "advance n = Some n' \<Longrightarrow> quiet (core n) (core n')"
  by (auto simp: advance_def Let_def split: option.splits bind_splits if_splits)

lemma client_msgs [simp]:
  "acceptable B (propose_msg i e) r" "acceptable B (readIndex_msg ctx) r" "acceptable B campaign_msg r"
  by (simp_all add: acceptable_def local_msg_def propose_msg_def readIndex_msg_def campaign_msg_def blank_def)

lemma cluster_step_ok:
  assumes s: "cluster_step M c c'" and c: "cluster_ok M c"
  shows "cluster_ok M c'"
proof -
  have ok: "node_ok M (cast c) (core (loops c i))" if "i \<in> M" for i using that c by (simp add: cluster_ok_def)
  have voters: "\<And>j t a. (j, t, a) \<in> cast c \<Longrightarrow> j \<in> M" using c cast_voters by (fastforce simp: cluster_ok_def)
  have wf: "acceptable (cast c) m (core (loops c i))" if "m \<in> net c" "m_To m = i" "i \<in> M" for m i
    using that c by (simp add: acceptable_def cluster_ok_def)
  have stepped: "cluster_ok M (put i ((loops c i)\<lparr>core := r\<rparr>) [] c)"
    if "i \<in> M" "Step m (core (loops c i)) = Some r" "acceptable (cast c) m (core (loops c i))" for i m r
    using put_ok [OF c that(1), of "(loops c i)\<lparr>core := r\<rparr>" "[]"] Step_ok [OF that(2) ok [OF that(1)] voters that(3)] by simp
  have ticked: "cluster_ok M (put i ((loops c i)\<lparr>core := r\<rparr>) [] c)"
    if "i \<in> M" "tick (core (loops c i)) = Some r" for i r
    using put_ok [OF c that(1), of "(loops c i)\<lparr>core := r\<rparr>" "[]"] tick_ok [OF that(2) ok [OF that(1)] voters] by simp
  show ?thesis
    using s
  proof cases
    case (ready i n rdy)
    then show ?thesis using put_ok [OF c] take_ready_ok [OF _ ok] by blast
  next
    case (advance i n)
    then show ?thesis using put_ok [OF c advance(2), of n "[]"] advances_quiet [OF advance_quiet ok] by simp
  qed (simp_all add: stepped ticked wf)
qed

section \<open>Starting\<close>

lemma addNode_keys:
  assumes "addNode p r = Some r'" and "gm_ok (prs r)"
  shows "set (members r') = insert p (set (members r)) \<and> gm_ok (prs r') \<and> nid r' = nid r \<and> Term r' = Term r \<and> msgs r' = msgs r \<and> role r' = role r"
  using assms
  by (auto simp: addNode_def members_def gm_dom [unfolded set_map] split: option.splits bind_splits)

lemma addNodes_keys:
  "addNodes ps r = Some r' \<Longrightarrow> gm_ok (prs r) \<Longrightarrow> set (members r') = set (members r) \<union> set ps \<and> gm_ok (prs r') \<and> nid r' = nid r \<and>
     Term r' = Term r \<and> msgs r' = msgs r \<and> role r' = role r"
proof (induction ps arbitrary: r)
  case (Cons p ps)
  from Cons.prems obtain s where s: "addNode p r = Some s" "addNodes ps s = Some r'" by (auto split: bind_splits)
  with addNode_keys [OF s(1)] Cons show ?case by auto
qed simp

lemma fold_gm_set_keys:
  "gm_ok m \<Longrightarrow> gm_ok (fold (\<lambda>p. gm_set p v) ps m) \<and> dom (gm_get (fold (\<lambda>p. gm_set p v) ps m)) = dom (gm_get m) \<union> set ps"
  by (induction ps arbitrary: m) auto

lemma newRaft_keys:
  assumes "newRaft rand conf = Some r"
  shows "set (members r) = set (c_peers conf) \<and> gm_ok (prs r) \<and> nid r = c_ID conf \<and> 0 < Term r \<and> msgs r = [] \<and> role r = StateFollower"
proof -
  let ?ps = "fold (\<lambda>p. gm_set p \<lparr>Match = 0, Next = 1\<rparr>) (c_peers conf) []"
  have k: "gm_ok ?ps" "fst ` set ?ps = set (c_peers conf)"
    using fold_gm_set_keys [of "[]" "\<lparr>Match = 0, Next = 1\<rparr>" "c_peers conf"] gm_dom [of ?ps] by simp_all
  obtain s trm where "r = becomeFollower trm 0 s" and "0 < trm" and "prs s = ?ps" "nid s = c_ID conf" "msgs s = []"
    using assms by (auto simp: newRaft_def Let_def split: bind_splits)
  then show ?thesis using k by (simp add: members_def becomeFollower_def)
qed

lemma StartNode_ok:
  assumes "StartNode rand conf peers = Some r" and "set (c_peers conf) \<union> set peers = M" and "c_ID conf \<in> M" and "c_ID conf \<noteq> 0"
  shows "node_ok M {} r" and "nid r = c_ID conf" and "role r = StateFollower"
proof -
  obtain s s' li where s: "newRaft rand conf = Some s" "addNodes peers s = Some s'" "r = s'\<lparr>rlog := (rlog s')\<lparr>commitIndex := li\<rparr>\<rparr>"
    using assms(1) by (auto simp: StartNode_def split: bind_splits)
  note k = newRaft_keys [OF s(1)] addNodes_keys [OF s(2)]
  then show "node_ok M {} r" "nid r = c_ID conf" "role r = StateFollower"
    using assms(2-4) s(3) by (simp_all add: node_ok_def members_def gm_ok_def)
qed

lemma reachable_ok: "reachable M c \<Longrightarrow> cluster_ok M c"
proof (induction rule: reachable.induct)
  case (init ns)
  have "node_ok M {} (core (ns i)) \<and> nid (core (ns i)) = i \<and> role (core (ns i)) = StateFollower" if i: "i \<in> M" for i
  proof -
    obtain rand conf peers r where n: "StartNode rand conf peers = Some r" "c_ID conf = i"
      "set (c_peers conf) \<union> set peers = M" "ns i = start_loop r"
      using init(3) [OF i] unfolding started_def by blast
    have "i \<noteq> 0" using i init(2) by metis
    then show ?thesis using StartNode_ok [OF n(1,3)] i n(2,4) by (simp add: start_loop_def)
  qed
  then show ?case by (auto simp: cluster_ok_def cast_ok_def reigns_ok_def)
next
  case (step c c')
  then show ?case using cluster_step_ok by blast
qed

text \<open>
  C1. Election safety: in every reachable state of the cluster, two leaders of the same term are the
  same node, at whatever time they led, and every node that leads now is recorded as the leader of its term.
\<close>

theorem election_safety:
  assumes "reachable M c"
  shows "(\<forall>t a b. (t, a) \<in> reigns c \<and> (t, b) \<in> reigns c \<longrightarrow> a = b) \<and>
    (\<forall>i\<in>M. role (core (loops c i)) = StateLeader \<longrightarrow> (Term (core (loops c i)), i) \<in> reigns c)"
proof -
  have ok: "cluster_ok M c" using assms by (rule reachable_ok)
  then have once: "cast_ok M (\<lambda>i. core (loops c i)) (cast c)" and el: "reigns_ok M c" by (simp_all add: cluster_ok_def)
  have "a = b" if a: "(t, a) \<in> reigns c" and b: "(t, b) \<in> reigns c" for t a b
  proof -
    have "elected_by M (cast c) t a" "elected_by M (cast c) t b" using a b el unfolding reigns_ok_def by blast+
    then obtain P Q where "majority M P" "majority M Q" "\<forall>j\<in>P. (j, t, a) \<in> cast c" "\<forall>j\<in>Q. (j, t, b) \<in> cast c"
      unfolding elected_by_def by blast
    then show ?thesis by (rule maj.one_winner) (rule cast_once [OF once])
  qed
  then show ?thesis using el by (auto simp: reigns_ok_def)
qed

text \<open>Three nodes: node 1 campaigns, node 2 grants its vote, node 1 becomes the leader of term 2.\<close>

definition ex_conf :: "nat \<Rightarrow> Config" where
  "ex_conf i = \<lparr>c_ID = i, c_peers = [], c_Storage = NewMemoryStorage, c_Applied = 0, c_PreVote = False, c_ElectionTick = 10, c_HeartbeatTick = 1\<rparr>"

definition ex_start :: "nat \<Rightarrow> NodeLoop" where
  "ex_start i = start_loop (the (StartNode (\<lambda>_. 0) (ex_conf i) [1, 2, 3]))"

definition stepped :: "Msg \<Rightarrow> NodeLoop \<Rightarrow> NodeLoop" where
  "stepped m n = n\<lparr>core := the (Step m (core n))\<rparr>"

definition taken :: "NodeLoop \<Rightarrow> NodeLoop" where
  "taken n = fst (the (take_ready n))"

definition sent :: "NodeLoop \<Rightarrow> Msg list" where
  "sent n = rd_Message (the (snd (the (take_ready n))))"

definition ex_candidate :: NodeLoop where
  "ex_candidate = stepped campaign_msg (ex_start 1)"

definition ex_voter :: NodeLoop where
  "ex_voter = stepped (hd (sent ex_candidate)) (ex_start 2)"

definition ex_leader :: NodeLoop where
  "ex_leader = stepped (hd (sent ex_voter)) (taken ex_candidate)"

definition ex_cluster :: cluster where
  "ex_cluster = put 1 ex_leader [] (put 2 (taken ex_voter) (sent ex_voter) (put 2 ex_voter []
     (put 1 (taken ex_candidate) (sent ex_candidate) (put 1 ex_candidate [] \<lparr>loops = ex_start, net = {}, cast = {}, reigns = {}\<rparr>))))"

lemma ex_started: "started {1, 2, 3} i (ex_start i)"
proof -
  have "StartNode (\<lambda>_. 0) (ex_conf i) [1, 2, 3] \<noteq> None" by code_simp
  then show ?thesis unfolding started_def ex_start_def
    by (intro exI [of _ "\<lambda>_. 0"] exI [of _ "ex_conf i"] exI [of _ "[1, 2, 3]"]) (auto simp: ex_conf_def)
qed

lemma reach_step:
  assumes "reachable M c" and "i \<in> M" and "loops c i = n" and "m = campaign_msg \<or> m \<in> net c \<and> m_To m = i"
    and "Step m (core n) \<noteq> None"
  shows "reachable M (put i (stepped m n) [] c)"
proof -
  obtain r where "Step m (core n) = Some r" using assms(5) by blast
  with assms(2-4) have "cluster_step M c (put i (stepped m n) [] c)"
    by (auto simp: stepped_def intro: cluster_step.recv cluster_step.campaign)
  with assms(1) show ?thesis by (rule reachable.step)
qed

lemma reach_ready:
  assumes "reachable M c" and "i \<in> M" and "loops c i = n" and "take_ready n \<noteq> None" and "snd (the (take_ready n)) \<noteq> None"
  shows "reachable M (put i (taken n) (sent n) c)"
proof -
  obtain n' rdy where "take_ready n = Some (n', Some rdy)" using assms(4,5) by auto
  with assms(2,3) have "cluster_step M c (put i (taken n) (sent n) c)"
    by (auto simp: taken_def sent_def intro: cluster_step.ready)
  with assms(1) show ?thesis by (rule reachable.step)
qed

lemma ex_evaluated:
  "Step campaign_msg (core (ex_start 1)) \<noteq> None"
  "take_ready ex_candidate \<noteq> None" "snd (the (take_ready ex_candidate)) \<noteq> None"
  "map m_To (sent ex_candidate) = [2, 3]"
  "Step (hd (sent ex_candidate)) (core (ex_start 2)) \<noteq> None"
  "take_ready ex_voter \<noteq> None" "snd (the (take_ready ex_voter)) \<noteq> None"
  "map m_To (sent ex_voter) = [1]"
  "Step (hd (sent ex_voter)) (core (taken ex_candidate)) \<noteq> None"
  "role (core ex_leader) = StateLeader" "Term (core ex_leader) = 2"
  by code_simp+

lemma put_sel [simp]: "loops (put i n ms c) = (loops c)(i := n)" "net (put i n ms c) = net c \<union> set ms"
  by (simp_all add: put_def)

lemma ex_reachable: "reachable {1, 2, 3} ex_cluster"
proof -
  let ?c0 = "\<lparr>loops = ex_start, net = {}, cast = {}, reigns = {}\<rparr>"
  let ?c1 = "put 1 ex_candidate [] ?c0"
  let ?c2 = "put 1 (taken ex_candidate) (sent ex_candidate) ?c1"
  let ?c3 = "put 2 ex_voter [] ?c2"
  let ?c4 = "put 2 (taken ex_voter) (sent ex_voter) ?c3"
  have h: "hd (sent ex_candidate) \<in> set (sent ex_candidate)" "m_To (hd (sent ex_candidate)) = 2"
    "hd (sent ex_voter) \<in> set (sent ex_voter)" "m_To (hd (sent ex_voter)) = 1"
    using ex_evaluated(4,8) by (cases "sent ex_candidate"; cases "sent ex_voter"; simp)+
  note ev = ex_evaluated h
  have "reachable {1, 2, 3} ?c0" by (rule reachable.init) (simp, simp, rule ex_started)
  then have "reachable {1, 2, 3} ?c1" unfolding ex_candidate_def
    by (rule reach_step) (use ev in \<open>simp_all del: One_nat_def\<close>)
  then have "reachable {1, 2, 3} ?c2" by (rule reach_ready) (use ev in \<open>simp_all del: One_nat_def\<close>)
  then have "reachable {1, 2, 3} ?c3" unfolding ex_voter_def
    by (rule reach_step) (use ev in \<open>simp_all del: One_nat_def\<close>)
  then have "reachable {1, 2, 3} ?c4" by (rule reach_ready) (use ev in \<open>simp_all del: One_nat_def\<close>)
  then show ?thesis unfolding ex_cluster_def ex_leader_def
    by (rule reach_step) (use ev in \<open>simp_all del: One_nat_def\<close>)
qed

theorem election_safety_witness:
  "reachable {1, 2, 3} ex_cluster \<and> {b. (2, b) \<in> reigns ex_cluster} = {1}"
proof -
  have "role (core (loops ex_cluster 1)) = StateLeader \<and> Term (core (loops ex_cluster 1)) = 2"
    using ex_evaluated by (simp add: ex_cluster_def)
  then have "(2, 1) \<in> reigns ex_cluster" using election_safety [OF ex_reachable] by fastforce
  then show ?thesis using election_safety [OF ex_reachable] ex_reachable by blast
qed

end
