(* ===== verification/Lsm_Codec.thy ===== *)
theory Lsm_Codec
  imports Prelude "HOL-Library.List_Lexorder"
begin

text \<open>
  The byte formats of the LSM tree: unsigned varints (\<open>encoding/binary\<close>), the records of a table block
  (\<open>block.go\<close>, \<open>ReadRecord\<close> and the loops over it in \<open>sst_reader.go\<close>, \<open>util/string.go\<close>) and the write-ahead log
  (\<open>wal/writer.go\<close>, \<open>wal/reader.go\<close>). Lengths and offsets are \<open>uint64\<close> values below \<open>2 ^ 64\<close>. The loops over
  records stop because every record takes at least three bytes; a slice of the previous key beyond its length is a panic.
\<close>

section \<open>Varints and buffers\<close>

datatype io_err = EOF | UnexpectedEOF | Overflow

fun put_uvarint :: "nat \<Rightarrow> bytes" where
  "put_uvarint v = (if v < 128 then [word_of_nat v] else word_of_nat (v mod 128 + 128) # put_uvarint (v div 128))"

declare put_uvarint.simps [simp del]

fun read_uvarint_at :: "nat \<Rightarrow> bytes \<Rightarrow> io_err + nat \<times> bytes" where
  "read_uvarint_at i [] = Inl (if 10 \<le> i then Overflow else if i = 0 then EOF else UnexpectedEOF)"
| "read_uvarint_at i (b # bs) =
     (if 10 \<le> i then Inl Overflow
      else if b < 128 then if i = 9 \<and> b > 1 then Inl Overflow else Inr (unat b, bs)
      else sbind (read_uvarint_at (i + 1) bs) (\<lambda>(x, rest). Inr (unat b mod 128 + 128 * x, rest)))"

definition ReadUvarint :: "bytes \<Rightarrow> io_err + nat \<times> bytes" where
  "ReadUvarint bs = read_uvarint_at 0 bs"

text \<open>\<open>binary.Uvarint\<close>: the value and the number of bytes, 0 when the buffer is too small, negative on overflow.\<close>

definition Uvarint :: "bytes \<Rightarrow> nat \<times> int" where
  "Uvarint bs = (case ReadUvarint bs of
     Inr (x, rest) \<Rightarrow> (x, int (length bs) - int (length rest))
   | Inl Overflow \<Rightarrow> (0, - 1)
   | Inl _ \<Rightarrow> (0, 0))"

definition ReadFull :: "nat \<Rightarrow> bytes \<Rightarrow> io_err + bytes \<times> bytes" where
  "ReadFull n bs = (if n \<le> length bs then Inr (take n bs, drop n bs) else Inl (if bs = [] then EOF else UnexpectedEOF))"

section \<open>Keys\<close>

fun SharedPrefixLen :: "bytes \<Rightarrow> bytes \<Rightarrow> nat" where
  "SharedPrefixLen (a # as) (b # bs) = (if a = b then SharedPrefixLen as bs + 1 else 0)"
| "SharedPrefixLen _ _ = 0"

definition GetSeparatorBetween :: "bytes \<Rightarrow> bytes \<Rightarrow> bytes" where
  "GetSeparatorBetween a b = (if b = [] then b else if a = [] then butlast b @ [last b - 1] else a)"

section \<open>Blocks\<close>

record Block =
  b_record :: bytes
  b_entriesCnt :: nat
  b_prevKey :: bytes

definition NewBlock :: Block where
  "NewBlock = \<lparr>b_record = [], b_entriesCnt = 0, b_prevKey = []\<rparr>"

definition block_Append :: "bytes \<Rightarrow> bytes \<Rightarrow> Block \<Rightarrow> Block" where
  "block_Append key value b =
     (let n = SharedPrefixLen (b_prevKey b) key in
      \<lparr>b_record = b_record b @ put_uvarint n @ put_uvarint (length key - n) @ put_uvarint (length value) @ drop n key @ value,
       b_entriesCnt = b_entriesCnt b + 1, b_prevKey = key\<rparr>)"

definition ReadRecord :: "bytes \<Rightarrow> bytes \<Rightarrow> (io_err + (bytes \<times> bytes) \<times> bytes) option" where
  "ReadRecord prevKey buf = (case
     sbind (ReadUvarint buf) (\<lambda>(sharedPrefixLen, buf).
     sbind (ReadUvarint buf) (\<lambda>(keyLen, buf).
     sbind (ReadUvarint buf) (\<lambda>(valLen, buf).
     sbind (ReadFull keyLen buf) (\<lambda>(key, buf).
     sbind (ReadFull valLen buf) (\<lambda>(value, buf). Inr (sharedPrefixLen, key, value, buf)))))) of
       Inl e \<Rightarrow> Some (Inl e)
     | Inr (n, key, value, buf) \<Rightarrow>
         if n \<le> length prevKey then Some (Inr ((take n prevKey @ key, value), buf)) else None)"

lemma read_uvarint_shorter: "read_uvarint_at i bs = Inr (x, rest) \<Longrightarrow> length rest < length bs"
  by (induction i bs arbitrary: x rest rule: read_uvarint_at.induct) (fastforce simp: sbind_Inr split: if_splits)+

lemma ReadUvarint_shorter: "ReadUvarint bs = Inr (x, rest) \<Longrightarrow> length rest < length bs"
  by (auto simp: ReadUvarint_def dest: read_uvarint_shorter)

lemma ReadFull_shorter: "ReadFull n bs = Inr (x, rest) \<Longrightarrow> length rest \<le> length bs"
  by (auto simp: ReadFull_def split: if_splits)

lemma ReadRecord_shorter: "ReadRecord p buf = Some (Inr (kv, rest)) \<Longrightarrow> length rest < length buf"
  by (fastforce simp: ReadRecord_def sbind_Inr split: sum.splits prod.splits if_splits dest: ReadUvarint_shorter ReadFull_shorter)

text \<open>The loop of \<open>ReadBlockData\<close>, \<open>readFilter\<close> and \<open>readIndex\<close>.\<close>

function read_records :: "bytes \<Rightarrow> bytes \<Rightarrow> (io_err + (bytes \<times> bytes) list) option" where
  "read_records prevKey buf = (case ReadRecord prevKey buf of
     None \<Rightarrow> None
   | Some (Inl e) \<Rightarrow> if e = EOF then Some (Inr []) else Some (Inl e)
   | Some (Inr ((key, value), buf)) \<Rightarrow>
       (case read_records key buf of
          None \<Rightarrow> None
        | Some r \<Rightarrow> Some (sbind r (\<lambda>kvs. Inr ((key, value) # kvs)))))"
  by pat_completeness auto
termination
  by (relation "measure (length \<circ> snd)") (auto dest: ReadRecord_shorter)

declare read_records.simps [simp del]

definition ReadBlockData :: "bytes \<Rightarrow> (io_err + (bytes \<times> bytes) list) option" where
  "ReadBlockData block = read_records [] block"

section \<open>The write-ahead log\<close>

definition wal_Write :: "bytes \<Rightarrow> bytes \<Rightarrow> bytes \<Rightarrow> bytes" where
  "wal_Write key value file = file @ put_uvarint (length key) @ put_uvarint (length value) @ key @ value"

function wal_readAll :: "bytes \<Rightarrow> io_err + (bytes \<times> bytes) list" where
  "wal_readAll buf = (case ReadUvarint buf of
     Inl e \<Rightarrow> if e = EOF then Inr [] else Inl e
   | Inr (keyLen, buf) \<Rightarrow>
       (case ReadUvarint buf of Inl e \<Rightarrow> Inl e | Inr (valLen, buf) \<Rightarrow>
       (case ReadFull keyLen buf of Inl e \<Rightarrow> Inl e | Inr (key, buf) \<Rightarrow>
       (case ReadFull valLen buf of Inl e \<Rightarrow> Inl e | Inr (value, buf) \<Rightarrow>
         sbind (wal_readAll buf) (\<lambda>kvs. Inr ((key, value) # kvs))))))"
  by pat_completeness auto
termination
  by (relation "measure length") (auto dest!: ReadUvarint_shorter ReadFull_shorter)

declare wal_readAll.simps [simp del]

section \<open>Round trips\<close>

lemma uvarint_rest:
  fixes v :: nat
  assumes "v < 2 ^ (64 - 7 * i)" and "i < 9"
  shows "v div 128 < 2 ^ (64 - 7 * (i + 1))"
proof -
  have e: "64 - 7 * i = (64 - 7 * (i + 1)) + 7" using assms(2) by simp
  have "v < 2 ^ (64 - 7 * (i + 1)) * 2 ^ 7" using assms(1) by (simp only: e power_add)
  then have "v div 2 ^ 7 < 2 ^ (64 - 7 * (i + 1))" by (rule less_mult_imp_div_less)
  then show ?thesis by simp
qed

lemma read_put_uvarint:
  assumes "v < 2 ^ (64 - 7 * i)" and "i < 10"
  shows "read_uvarint_at i (put_uvarint v @ rest) = Inr (v, rest)"
  using assms
proof (induction v arbitrary: i rule: put_uvarint.induct)
  case (1 v)
  show ?case
  proof (cases "v < 128")
    case True
    have b: "unat (word_of_nat v :: byte) = v" using True by (simp add: unsigned_of_nat take_bit_nat_eq_self)
    moreover have "(word_of_nat v :: byte) < 128" using True b by (simp add: word_less_nat_alt)
    moreover have "\<not> (word_of_nat v :: byte) > 1" if "i = 9" using that 1(2) b by (simp add: word_less_nat_alt)
    ultimately show ?thesis using True 1(3) by (auto simp: put_uvarint.simps [of v])
  next
    case False
    define c where "c = v mod 128 + 128"
    have c: "c < 256" "128 \<le> c" "c mod 128 = v mod 128" by (simp_all add: c_def)
    then have b: "unat (word_of_nat c :: byte) = c" by (simp add: unsigned_of_nat take_bit_nat_eq_self)
    then have hi: "\<not> (word_of_nat c :: byte) < 128" using c(2) by (simp add: word_less_nat_alt)
    have i: "i < 9"
    proof (rule ccontr)
      assume "\<not> i < 9"
      then have "i = 9" using 1(3) by simp
      then show False using 1(2) False by simp
    qed
    have "v div 128 < 2 ^ (64 - 7 * (i + 1))" using uvarint_rest [OF 1(2) i] .
    then have "read_uvarint_at (i + 1) (put_uvarint (v div 128) @ rest) = Inr (v div 128, rest)" using 1(1) False i by simp
    then show ?thesis using False hi b c(3) i by (simp add: put_uvarint.simps [of v] c_def [symmetric] del: of_nat_add)
  qed
qed

lemma ReadUvarint_put [simp]: "v < 2 ^ 64 \<Longrightarrow> ReadUvarint (put_uvarint v @ rest) = Inr (v, rest)"
  by (simp add: ReadUvarint_def read_put_uvarint)

lemma Uvarint_put [simp]: "v < 2 ^ 64 \<Longrightarrow> Uvarint (put_uvarint v @ rest) = (v, int (length (put_uvarint v)))"
  by (simp add: Uvarint_def)

lemma ReadUvarint_Nil [simp]: "ReadUvarint [] = Inl EOF"
  by (simp add: ReadUvarint_def)

lemma ReadFull_prefix [simp]: "ReadFull (length xs) (xs @ rest) = Inr (xs, rest)"
  by (simp add: ReadFull_def)

lemma shared_prefix: "SharedPrefixLen a b \<le> length a \<and> SharedPrefixLen a b \<le> length b \<and> take (SharedPrefixLen a b) a = take (SharedPrefixLen a b) b"
  by (induction a b rule: SharedPrefixLen.induct) auto

text \<open>The bytes of a block that starts after the key \<open>p\<close>.\<close>

fun enc_from :: "bytes \<Rightarrow> (bytes \<times> bytes) list \<Rightarrow> bytes" where
  "enc_from p [] = []"
| "enc_from p ((k, v) # kvs) = put_uvarint (SharedPrefixLen p k) @ put_uvarint (length k - SharedPrefixLen p k) @ put_uvarint (length v) @
     drop (SharedPrefixLen p k) k @ v @ enc_from k kvs"

definition small :: "(bytes \<times> bytes) list \<Rightarrow> bool" where
  "small kvs \<longleftrightarrow> (\<forall>(k, v)\<in>set kvs. length k < 2 ^ 64 \<and> length v < 2 ^ 64)"

lemma ReadRecord_enc:
  assumes "length k < 2 ^ 64" and "length v < 2 ^ 64" and "n \<le> length p" and "n \<le> length k" and "take n p = take n k"
  shows "ReadRecord p (put_uvarint n @ put_uvarint (length k - n) @ put_uvarint (length v) @ drop n k @ v @ rest) = Some (Inr ((k, v), rest))"
proof -
  have "n < 2 ^ 64" "length k - n < 2 ^ 64" using assms by auto
  moreover have "ReadFull (length k - n) (drop n k @ v @ rest) = Inr (drop n k, v @ rest)"
    using ReadFull_prefix [of "drop n k" "v @ rest"] by simp
  moreover have "take n p @ drop n k = k" using assms(5) by simp
  ultimately show ?thesis using assms(2,3) unfolding ReadRecord_def by simp
qed

lemma read_records_Nil [simp]: "read_records q [] = Some (Inr [])"
  by (simp add: read_records.simps ReadRecord_def)

text \<open>
  The first record of a block shares nothing with the key before, so consecutive blocks can be read
  as one.
\<close>

lemma read_records_enc:
  assumes "small kvs" and "p = q \<or> p = []"
  shows "read_records q (enc_from p kvs @ rest) =
    (case read_records (last (q # map fst kvs)) rest of None \<Rightarrow> None | Some r \<Rightarrow> Some (sbind r (\<lambda>xs. Inr (kvs @ xs))))"
  using assms
proof (induction kvs arbitrary: p q)
  case Nil
  then show ?case by (auto simp: sbind_def split: option.splits sum.splits)
next
  case (Cons kv kvs)
  obtain k v where kv: "kv = (k, v)" by (cases kv)
  let ?n = "SharedPrefixLen p k"
  have s: "small kvs" "length k < 2 ^ 64" "length v < 2 ^ 64" using Cons.prems(1) kv by (auto simp: small_def)
  have "?n \<le> length q" "?n \<le> length k" "take ?n q = take ?n k"
    using shared_prefix [of p k] Cons.prems(2) by auto
  then have "ReadRecord q (enc_from p (kv # kvs) @ rest) = Some (Inr ((k, v), enc_from k kvs @ rest))"
    using ReadRecord_enc [OF s(2,3), of ?n q] kv by simp
  then show ?case
    using Cons.IH [OF s(1), of k k] kv by (subst read_records.simps) (auto simp: sbind_def split: option.splits sum.splits)
qed

lemma read_records_blocks:
  "small (concat bs) \<Longrightarrow> read_records q (concat (map (enc_from []) bs)) = Some (Inr (concat bs))"
proof (induction bs arbitrary: q)
  case (Cons b bs)
  then have "small b" "small (concat bs)" by (auto simp: small_def)
  then show ?case using Cons.IH read_records_enc [of b "[]" q] by simp
qed simp

lemma block_Append_enc:
  "b_record (block_Append k v b) = b_record b @ enc_from (b_prevKey b) [(k, v)]" "b_prevKey (block_Append k v b) = k"
  "b_entriesCnt (block_Append k v b) = b_entriesCnt b + 1"
  by (simp_all add: block_Append_def Let_def)

lemma enc_from_append: "enc_from p (xs @ ys) = enc_from p xs @ enc_from (last (p # map fst xs)) ys"
  by (induction xs arbitrary: p) auto

section \<open>Replaying the log\<close>

fun wal_file :: "(bytes \<times> bytes) list \<Rightarrow> bytes" where
  "wal_file [] = []"
| "wal_file ((k, v) # kvs) = put_uvarint (length k) @ put_uvarint (length v) @ k @ v @ wal_file kvs"

fun wal_writes :: "(bytes \<times> bytes) list \<Rightarrow> bytes \<Rightarrow> bytes" where
  "wal_writes [] f = f"
| "wal_writes ((k, v) # kvs) f = wal_writes kvs (wal_Write k v f)"

lemma wal_writes_file: "wal_writes kvs f = f @ wal_file kvs"
  by (induction kvs arbitrary: f) (auto simp: wal_Write_def)

lemma wal_readAll_file:
  assumes "small kvs"
  shows "wal_readAll (wal_file kvs @ rest) = sbind (wal_readAll rest) (\<lambda>xs. Inr (kvs @ xs))"
  using assms
proof (induction kvs)
  case Nil
  then show ?case by (auto simp: sbind_def split: sum.splits)
next
  case (Cons kv kvs)
  obtain k v where kv: "kv = (k, v)" by (cases kv)
  have s: "small kvs" "length k < 2 ^ 64" "length v < 2 ^ 64" using Cons.prems kv by (auto simp: small_def)
  then show ?case using Cons.IH kv by (subst wal_readAll.simps) (auto simp: sbind_def split: sum.splits)
qed

text \<open>
  The write-ahead log: the pairs written, in any number of sessions, are read back in the order of the
  writes.
\<close>

theorem wal_roundtrip:
  assumes "small kvs" and "small kvs2"
  shows "wal_readAll (wal_writes kvs2 (wal_writes kvs [])) = Inr (kvs @ kvs2)"
proof -
  have "wal_readAll [] = Inr []" by (simp add: wal_readAll.simps)
  then show ?thesis
    using wal_readAll_file [OF assms(1)] wal_readAll_file [OF assms(2), of "[]"] by (simp add: wal_writes_file)
qed

theorem wal_roundtrip_witness:
  "wal_readAll (wal_writes [([9], [])] (wal_writes [([1], [2, 3]), ([], [4])] [])) = Inr [([1], [2, 3]), ([], [4]), ([9], [])]"
  using wal_roundtrip [of "[([1], [2, 3]), ([], [4])]" "[([9], [])]"] by (simp add: small_def)

lemma read_uvarint_cut:
  assumes "m < length (put_uvarint v)" and "v < 2 ^ (64 - 7 * i)" and "i < 10"
  shows "read_uvarint_at i (take m (put_uvarint v)) = Inl (if i = 0 \<and> m = 0 then EOF else UnexpectedEOF)"
  using assms
proof (induction v arbitrary: i m rule: put_uvarint.induct)
  case (1 v)
  show ?case
  proof (cases m)
    case 0
    then show ?thesis using 1(4) by simp
  next
    case (Suc j)
    then have big: "\<not> v < 128" and j: "j < length (put_uvarint (v div 128))"
      using 1(2) by (auto simp: put_uvarint.simps [of v] split: if_splits)
    define c where "c = v mod 128 + 128"
    have "unat (word_of_nat c :: byte) = c" "128 \<le> c" by (simp_all add: c_def unsigned_of_nat take_bit_nat_eq_self del: of_nat_add)
    then have hi: "\<not> (word_of_nat c :: byte) < 128" by (simp add: word_less_nat_alt)
    have i: "i < 9" using 1(3,4) big by (cases "i = 9") auto
    have "v div 128 < 2 ^ (64 - 7 * (i + 1))" using uvarint_rest [OF 1(3) i] .
    then have "read_uvarint_at (i + 1) (take j (put_uvarint (v div 128))) = Inl UnexpectedEOF" using 1(1) [OF big j] i by simp
    then show ?thesis using big hi i Suc by (simp add: put_uvarint.simps [of v] c_def [symmetric] del: of_nat_add)
  qed
qed

lemma ReadUvarint_cut:
  "m < length (put_uvarint v) \<Longrightarrow> v < 2 ^ 64 \<Longrightarrow> ReadUvarint (take m (put_uvarint v)) = Inl (if m = 0 then EOF else UnexpectedEOF)"
  by (simp add: ReadUvarint_def read_uvarint_cut)

text \<open>
  A log that ends in the middle of a record, as a crash during a write leaves it, is not read at all: every
  cut through a record makes the whole restore fail, although all records before it are complete.
\<close>

theorem torn_wal_is_rejected:
  assumes "small kvs" and "length k < 2 ^ 64" and "length v < 2 ^ 64" and "0 < n" and "n < length (wal_file [(k, v)])"
  shows "\<exists>e. wal_readAll (wal_writes kvs [] @ take n (wal_file [(k, v)])) = Inl e"
proof -
  let ?u = "put_uvarint (length k)" and ?w = "put_uvarint (length v)" let ?r = "take n (?u @ ?w @ k @ v)"
  have "\<exists>e. wal_readAll ?r = Inl e"
  proof (cases "n < length ?u")
    case True
    then show ?thesis using assms(2,4) ReadUvarint_cut [of n "length k"] by (simp add: wal_readAll.simps)
  next
    case False
    define m where "m = n - length ?u"
    have r: "?r = ?u @ take m (?w @ k @ v)" using False by (simp add: m_def)
    show ?thesis
    proof (cases "m < length ?w")
      case True
      then show ?thesis using assms(2,3) ReadUvarint_cut [of m "length v"] r by (simp add: wal_readAll.simps)
    next
      case F2: False
      define j where "j = m - length ?w"
      have r2: "?r = ?u @ ?w @ take j (k @ v)" using F2 r by (simp add: j_def)
      have j: "j < length k + length v" using assms(5) False F2 by (simp add: j_def m_def)
      show ?thesis using assms(2,3) j unfolding r2
        by (subst wal_readAll.simps) (cases "j < length k"; auto simp: ReadFull_def)
    qed
  qed
  then show ?thesis using wal_readAll_file [OF assms(1), of ?r] by (auto simp: wal_writes_file)
qed

theorem torn_wal_is_rejected_witness: "\<exists>e. wal_readAll (wal_writes [([1], [2])] [] @ take 3 (wal_file [([5], [6])])) = Inl e"
  using torn_wal_is_rejected [of "[([1], [2])]" "[5]" "[6]" 3] by (simp add: small_def put_uvarint.simps)

end
