(* ===== verification/Lsm_Filter.thy ===== *)
theory Lsm_Filter
  imports Prelude
begin

text \<open>
  The bloom filter of the LSM tree (\<open>src/apps/lsm_tree/filter/bloom_filter.go\<close>) with the 32-bit FNV-1a hash.
  Hash values and bit positions are \<open>uint32\<close>, the hash count is the \<open>uint8\<close> in the last byte of the bitmap.
\<close>

definition hashKey :: "bytes \<Rightarrow> 32 word" where
  "hashKey key = foldl (\<lambda>h b. (h XOR ucast b) * 16777619) 2166136261 key"

record BloomFilter =
  bf_m :: nat
  hashedKeys :: "32 word list"

definition NewBloomFilter :: "int \<Rightarrow> BloomFilter option" where
  "NewBloomFilter m = (if m \<le> 0 then None else Some \<lparr>bf_m = nat m, hashedKeys = []\<rparr>)"

definition bf_Add :: "bytes \<Rightarrow> BloomFilter \<Rightarrow> BloomFilter" where
  "bf_Add key bf = bf\<lparr>hashedKeys := hashedKeys bf @ [hashKey key]\<rparr>"

definition bf_Reset :: "BloomFilter \<Rightarrow> BloomFilter" where
  "bf_Reset bf = bf\<lparr>hashedKeys := []\<rparr>"

definition bf_KeyLen :: "BloomFilter \<Rightarrow> nat" where
  "bf_KeyLen bf = length (hashedKeys bf)"

definition bestK :: "BloomFilter \<Rightarrow> byte option" where
  "bestK bf = (if hashedKeys bf = [] then None
     else Some (min (max (word_of_nat (69 * bf_m bf div 100 div length (hashedKeys bf))) 1) 30))"

definition bitmap_for :: "byte \<Rightarrow> BloomFilter \<Rightarrow> bytes" where
  "bitmap_for k bf = replicate ((bf_m bf + 7) div 8) 0 @ [k]"

definition delta :: "32 word \<Rightarrow> 32 word" where
  "delta h = drop_bit 17 h OR push_bit 15 h"

definition targetBit :: "32 word \<Rightarrow> nat \<Rightarrow> BloomFilter \<Rightarrow> 32 word option" where
  "targetBit h i bf = (if word_of_nat (bf_m bf) = (0 :: 32 word) then None
     else Some ((h + word_of_nat i * delta h) mod word_of_nat (bf_m bf)))"

definition bit_mask :: "32 word \<Rightarrow> byte" where
  "bit_mask t = push_bit (unat (t AND 7)) 1"

definition mark :: "32 word \<Rightarrow> bytes \<Rightarrow> bytes option" where
  "mark t bm = do { b \<leftarrow> rd bm (unat (drop_bit 3 t)); wr bm (unat (drop_bit 3 t)) (b OR bit_mask t) }"

definition marked :: "32 word \<Rightarrow> bytes \<Rightarrow> bool option" where
  "marked t bm = do { b \<leftarrow> rd bm (unat (drop_bit 3 t)); Some (b AND bit_mask t \<noteq> 0) }"

fun mark_hashes :: "nat list \<Rightarrow> 32 word \<Rightarrow> BloomFilter \<Rightarrow> bytes \<Rightarrow> bytes option" where
  "mark_hashes [] h bf bm = Some bm"
| "mark_hashes (i # is) h bf bm = do { t \<leftarrow> targetBit h i bf; bm \<leftarrow> mark t bm; mark_hashes is h bf bm }"

fun mark_keys :: "nat \<Rightarrow> 32 word list \<Rightarrow> BloomFilter \<Rightarrow> bytes \<Rightarrow> bytes option" where
  "mark_keys k [] bf bm = Some bm"
| "mark_keys k (h # hs) bf bm = do { bm \<leftarrow> mark_hashes [0..<k] h bf bm; mark_keys k hs bf bm }"

definition bf_Hash :: "BloomFilter \<Rightarrow> bytes option" where
  "bf_Hash bf = do { k \<leftarrow> bestK bf; mark_keys (unat k) (hashedKeys bf) bf (bitmap_for k bf) }"

fun all_marked :: "nat list \<Rightarrow> 32 word \<Rightarrow> BloomFilter \<Rightarrow> bytes \<Rightarrow> bool option" where
  "all_marked [] h bf bm = Some True"
| "all_marked (i # is) h bf bm = do {
     t \<leftarrow> targetBit h i bf;
     b \<leftarrow> marked t bm;
     (if b then all_marked is h bf bm else Some False) }"

definition bf_Exist :: "bytes option \<Rightarrow> bytes \<Rightarrow> BloomFilter \<Rightarrow> bool option" where
  "bf_Exist bitmap key bf = do {
     bm \<leftarrow> (case bitmap of None \<Rightarrow> bf_Hash bf | Some bm \<Rightarrow> Some bm);
     (if bm = [] then None else all_marked [0..<unat (last bm)] (hashKey key) bf bm) }"

section \<open>No false negatives\<close>

definition has_bit :: "bytes \<Rightarrow> 32 word \<Rightarrow> bool" where
  "has_bit bm t \<longleftrightarrow> unat (drop_bit 3 t) < length bm \<and> bm ! unat (drop_bit 3 t) AND bit_mask t \<noteq> 0"

lemma bit_mask_self: "bit_mask t AND bit_mask t \<noteq> 0"
proof -
  have "unat (t AND 7) < 8"
  proof -
    have "t AND 7 \<le> 7" by (rule word_and_le1)
    then show ?thesis by (simp add: word_le_nat_alt)
  qed
  then have "bit (bit_mask t) (unat (t AND 7))" by (simp add: bit_mask_def bit_exp_iff)
  then show ?thesis by (metis and.idem bit_0_eq bot_apply bot_bool_def)
qed

lemma mark_ok:
  assumes "unat (drop_bit 3 t) + 1 < length bm"
  obtains bm' where "mark t bm = Some bm'" and "length bm' = length bm" and "last bm' = last bm" and "has_bit bm' t"
    and "\<And>u. has_bit bm u \<Longrightarrow> has_bit bm' u"
proof -
  let ?i = "unat (drop_bit 3 t)" let ?bm = "bm[?i := bm ! ?i OR bit_mask t]"
  have i: "?i < length bm" using assms by simp
  have keep: "x AND z \<noteq> 0 \<Longrightarrow> (x OR y) AND z \<noteq> 0" for x y z :: byte
    by (auto simp: bit_eq_iff bit_and_iff bit_or_iff)
  have "has_bit ?bm t" using i bit_mask_self [of t] by (auto simp: has_bit_def bit.conj_disj_distrib2)
  moreover have "has_bit ?bm u" if "has_bit bm u" for u
    using that keep i by (cases "?i = unat (drop_bit 3 u)") (auto simp: has_bit_def)
  moreover have "last ?bm = last bm" using assms by (cases bm rule: rev_cases) (auto simp: list_update_append)
  ultimately show thesis using i by (intro that [of ?bm]) (auto simp: mark_def rd_def wr_def)
qed

text \<open>A filter that can be used: its length is positive and fits in \<open>uint32\<close>.\<close>

definition bf_ok :: "BloomFilter \<Rightarrow> bool" where
  "bf_ok bf \<longleftrightarrow> 0 < bf_m bf \<and> bf_m bf < 2 ^ 32"

definition target :: "32 word \<Rightarrow> nat \<Rightarrow> BloomFilter \<Rightarrow> 32 word" where
  "target h i bf = (h + word_of_nat i * delta h) mod word_of_nat (bf_m bf)"

lemma targetBit_ok:
  assumes "bf_ok bf"
  shows "targetBit h i bf = Some (target h i bf)" and "unat (drop_bit 3 (target h i bf)) < (bf_m bf + 7) div 8"
proof -
  have m: "unat (word_of_nat (bf_m bf) :: 32 word) = bf_m bf" using assms by (simp add: bf_ok_def unsigned_of_nat take_bit_nat_eq_self)
  then have "word_of_nat (bf_m bf) \<noteq> (0 :: 32 word)" using assms by (metis bf_ok_def less_numeral_extra(3) unsigned_0)
  then show "targetBit h i bf = Some (target h i bf)" by (simp add: targetBit_def target_def)
  have "unat (target h i bf) = unat (h + word_of_nat i * delta h) mod bf_m bf" by (simp add: target_def unat_mod_distrib m)
  also have "\<dots> < bf_m bf" using assms by (simp add: bf_ok_def)
  finally show "unat (drop_bit 3 (target h i bf)) < (bf_m bf + 7) div 8"
    by (simp add: drop_bit_eq_div unat_div_distrib)
qed

definition bm_ok :: "BloomFilter \<Rightarrow> bytes \<Rightarrow> bool" where
  "bm_ok bf bm \<longleftrightarrow> length bm = (bf_m bf + 7) div 8 + 1"

lemma mark_hashes_ok:
  assumes "bf_ok bf" and "bm_ok bf bm"
  shows "\<exists>bm'. mark_hashes is h bf bm = Some bm' \<and> bm_ok bf bm' \<and> last bm' = last bm \<and>
    (\<forall>i\<in>set is. has_bit bm' (target h i bf)) \<and> (\<forall>u. has_bit bm u \<longrightarrow> has_bit bm' u)"
  using assms(2)
proof (induction "is" arbitrary: bm)
  case (Cons i "is")
  note t = targetBit_ok [OF assms(1), of h i]
  obtain b1 where b1: "mark (target h i bf) bm = Some b1" "length b1 = length bm" "last b1 = last bm" "has_bit b1 (target h i bf)"
    "\<And>u. has_bit bm u \<Longrightarrow> has_bit b1 u"
    using mark_ok [of "target h i bf" bm] t(2) Cons.prems by (auto simp: bm_ok_def)
  moreover have "bm_ok bf b1" using b1(2) Cons.prems by (simp add: bm_ok_def)
  then obtain bm' where "mark_hashes is h bf b1 = Some bm'" "bm_ok bf bm'" "last bm' = last b1"
    "\<forall>i\<in>set is. has_bit bm' (target h i bf)" "\<forall>u. has_bit b1 u \<longrightarrow> has_bit bm' u"
    using Cons.IH by blast
  ultimately show ?case using t(1) by auto
qed simp

lemma mark_keys_ok:
  assumes "bf_ok bf" and "bm_ok bf bm"
  shows "\<exists>bm'. mark_keys k hs bf bm = Some bm' \<and> bm_ok bf bm' \<and> last bm' = last bm \<and>
    (\<forall>h\<in>set hs. \<forall>i<k. has_bit bm' (target h i bf)) \<and> (\<forall>u. has_bit bm u \<longrightarrow> has_bit bm' u)"
  using assms(2)
proof (induction hs arbitrary: bm)
  case (Cons h hs)
  obtain b1 where b1: "mark_hashes [0..<k] h bf bm = Some b1" "bm_ok bf b1" "last b1 = last bm"
    "\<forall>i<k. has_bit b1 (target h i bf)" "\<forall>u. has_bit bm u \<longrightarrow> has_bit b1 u"
    using mark_hashes_ok [OF assms(1) Cons.prems, of "[0..<k]" h] by auto
  obtain bm' where "mark_keys k hs bf b1 = Some bm'" "bm_ok bf bm'" "last bm' = last b1"
    "\<forall>h\<in>set hs. \<forall>i<k. has_bit bm' (target h i bf)" "\<forall>u. has_bit b1 u \<longrightarrow> has_bit bm' u"
    using Cons.IH [OF b1(2)] by blast
  then show ?case using b1 by auto
qed simp

lemma all_marked_ok:
  assumes "bf_ok bf" and "\<And>i. i \<in> set is \<Longrightarrow> has_bit bm (target h i bf)"
  shows "all_marked is h bf bm = Some True"
  using assms(2)
  by (induction "is") (auto simp: targetBit_ok [OF assms(1)] marked_def has_bit_def rd_def)

lemma all_marked_total:
  assumes "bf_ok bf" and "bm_ok bf bm"
  shows "all_marked is h bf bm \<noteq> None"
proof (induction "is")
  case (Cons i "is")
  have "unat (drop_bit 3 (target h i bf)) < length bm" using targetBit_ok(2) [OF assms(1), of h i] assms(2) by (simp add: bm_ok_def)
  then show ?case using Cons by (auto simp: targetBit_ok(1) [OF assms(1)] marked_def rd_def)
qed simp

text \<open>What the tables rely on: a bitmap is made for every set of keys, and every key of the set passes.\<close>

lemma bf_Hash_ok:
  assumes "bf_ok bf" and "hashedKeys bf \<noteq> []"
  obtains bm where "bf_Hash bf = Some bm" and "bm_ok bf bm" and "\<And>key bf'. hashKey key \<in> set (hashedKeys bf) \<Longrightarrow> bf_m bf' = bf_m bf \<Longrightarrow> bf_Exist (Some bm) key bf' = Some True"
    and "\<And>key bf'. bf_m bf' = bf_m bf \<Longrightarrow> bf_Exist (Some bm) key bf' \<noteq> None"
proof -
  obtain k where k: "bestK bf = Some k" using assms(2) by (simp add: bestK_def)
  have b0: "bm_ok bf (bitmap_for k bf)" and l0: "last (bitmap_for k bf) = k" by (simp_all add: bm_ok_def bitmap_for_def)
  obtain bm where bm: "mark_keys (unat k) (hashedKeys bf) bf (bitmap_for k bf) = Some bm" "bm_ok bf bm" "last bm = k"
    "\<forall>h\<in>set (hashedKeys bf). \<forall>i<unat k. has_bit bm (target h i bf)"
    using mark_keys_ok [OF assms(1) b0, of "unat k" "hashedKeys bf"] l0 by metis
  have ne: "bm \<noteq> []" using bm(2) by (auto simp: bm_ok_def)
  have ex: "bf_Exist (Some bm) key bf' = Some True" if "hashKey key \<in> set (hashedKeys bf)" "bf_m bf' = bf_m bf" for key bf'
  proof -
    have "bf_ok bf'" "target h i bf' = target h i bf" for h i using that(2) assms(1) by (simp_all add: bf_ok_def target_def)
    then show ?thesis using that bm(3,4) ne by (auto simp: bf_Exist_def intro!: all_marked_ok)
  qed
  have tot: "bf_Exist (Some bm) key bf' \<noteq> None" if "bf_m bf' = bf_m bf" for key bf'
  proof -
    have "bf_ok bf'" "bm_ok bf' bm" using that assms(1) bm(2) by (simp_all add: bf_ok_def bm_ok_def)
    then show ?thesis using ne all_marked_total by (simp add: bf_Exist_def)
  qed
  have "bf_Hash bf = Some bm" using k bm(1) by (simp add: bf_Hash_def)
  then show thesis using bm(2) ex tot by (rule that)
qed

fun add_keys :: "bytes list \<Rightarrow> BloomFilter \<Rightarrow> BloomFilter" where
  "add_keys [] bf = bf"
| "add_keys (k # ks) bf = add_keys ks (bf_Add k bf)"

lemma add_keys_hashes: "hashedKeys (add_keys ks bf) = hashedKeys bf @ map hashKey ks" "bf_m (add_keys ks bf) = bf_m bf"
  by (induction ks arbitrary: bf) (auto simp: bf_Add_def)

text \<open>
  No false negatives: for a filter of positive length below \<open>2 ^ 32\<close> bits, the bitmap of any keys can
  be built without a panic, and every one of them is reported as possibly present. The hash count in the last byte is never overwritten.
\<close>

theorem bloom_no_false_negatives:
  assumes "NewBloomFilter m = Some bf" and "m < 2 ^ 32" and "key \<in> set keys"
  shows "\<exists>bm. bf_Hash (add_keys keys bf) = Some bm \<and> bf_Exist (Some bm) key (bf_Reset (add_keys keys bf)) = Some True"
proof -
  let ?bf = "add_keys keys bf"
  have "bf_m ?bf = nat m" "0 < m" using assms(1) by (auto simp: NewBloomFilter_def add_keys_hashes split: if_splits)
  then have ok: "bf_ok ?bf" using assms(2) by (simp add: bf_ok_def nat_less_iff)
  have k: "hashKey key \<in> set (hashedKeys ?bf)" using assms(3) by (simp add: add_keys_hashes)
  then have ne: "hashedKeys ?bf \<noteq> []" by auto
  have m: "bf_m (bf_Reset ?bf) = bf_m ?bf" by (simp add: bf_Reset_def)
  show ?thesis by (rule bf_Hash_ok [OF ok ne]) (use k m in blast)
qed

theorem bloom_no_false_negatives_witness:
  "\<exists>bf bm. NewBloomFilter 1024 = Some bf \<and> bf_Hash (add_keys [[1], [2, 3]] bf) = Some bm \<and>
     bf_Exist (Some bm) [2, 3] (bf_Reset (add_keys [[1], [2, 3]] bf)) = Some True"
proof -
  obtain bf where bf: "NewBloomFilter 1024 = Some bf" by (simp add: NewBloomFilter_def)
  then show ?thesis using bloom_no_false_negatives [OF bf, of "[2, 3]" "[[1], [2, 3]]"] by simp
qed

end
