(* ===== verification/Lsm_Sst.thy ===== *)
theory Lsm_Sst
  imports Lsm_Codec Lsm_Filter
begin

text \<open>
  The sorted tables of the LSM tree (\<open>src/apps/lsm_tree\<close>): the writer (\<open>sst_writer.go\<close>), the reader
  (\<open>sst_reader.go\<close>) and a table as a node of the tree (\<open>node.go\<close>). A file is its bytes. A new table overwrites the
  beginning of what is in the file of its name, because the file is not truncated. The bloom filter that the
  configuration shares between all writers is threaded through the writer.
\<close>

record Index =
  i_Key :: bytes
  PrevBlockOffset :: nat
  PrevBlockSize :: nat

section \<open>The writer\<close>

record SSTWriter =
  w_blockSize :: nat
  w_filter :: BloomFilter
  dataBuf :: bytes
  blockToFilter :: "(nat, bytes) gomap"
  w_index :: "Index list"
  dataBlock :: Block
  filterBlock :: Block
  indexBlock :: Block
  w_prevKey :: bytes
  prevBlockOffset :: nat
  prevBlockSize :: nat

definition NewSSTWriter :: "nat \<Rightarrow> BloomFilter \<Rightarrow> SSTWriter" where
  "NewSSTWriter blockSize f = \<lparr>w_blockSize = blockSize, w_filter = f, dataBuf = [], blockToFilter = [], w_index = [],
     dataBlock = NewBlock, filterBlock = NewBlock, indexBlock = NewBlock, w_prevKey = [], prevBlockOffset = 0, prevBlockSize = 0\<rparr>"

definition insertIndex :: "bytes \<Rightarrow> SSTWriter \<Rightarrow> SSTWriter" where
  "insertIndex key s =
     (let indexKey = GetSeparatorBetween (w_prevKey s) key in
      s\<lparr>indexBlock := block_Append indexKey (put_uvarint (prevBlockOffset s) @ put_uvarint (prevBlockSize s)) (indexBlock s),
        w_index := w_index s @ [\<lparr>i_Key = indexKey, PrevBlockOffset = prevBlockOffset s, PrevBlockSize = prevBlockSize s\<rparr>]\<rparr>)"

definition refreshBlock :: "SSTWriter \<Rightarrow> SSTWriter option" where
  "refreshBlock s =
     (if bf_KeyLen (w_filter s) = 0 then Some s
      else do {
        let off = length (dataBuf s);
        bitmap \<leftarrow> bf_Hash (w_filter s);
        Some (s\<lparr>prevBlockOffset := off,
                blockToFilter := gm_set off bitmap (blockToFilter s),
                filterBlock := block_Append (put_uvarint off) bitmap (filterBlock s),
                w_filter := bf_Reset (w_filter s),
                prevBlockSize := length (b_record (dataBlock s)),
                dataBuf := dataBuf s @ b_record (dataBlock s),
                dataBlock := NewBlock\<rparr>) })"

definition sst_Append :: "bytes \<Rightarrow> bytes \<Rightarrow> SSTWriter \<Rightarrow> SSTWriter option" where
  "sst_Append key value s =
     (let s = (if b_entriesCnt (dataBlock s) = 0 then insertIndex key s else s);
          s = s\<lparr>dataBlock := block_Append key value (dataBlock s), w_filter := bf_Add key (w_filter s), w_prevKey := key\<rparr>
      in if length (b_record (dataBlock s)) \<ge> w_blockSize s then refreshBlock s else Some s)"

fun sst_AppendAll :: "(bytes \<times> bytes) list \<Rightarrow> SSTWriter \<Rightarrow> SSTWriter option" where
  "sst_AppendAll [] s = Some s"
| "sst_AppendAll ((k, v) # kvs) s = sst_Append k v s \<bind> sst_AppendAll kvs"

definition sst_Size :: "SSTWriter \<Rightarrow> nat" where
  "sst_Size s = length (dataBuf s)"

text \<open>The footer is a buffer of 32 bytes; \<open>PutUvarint\<close> panics when the numbers do not fit.\<close>

definition footer :: "nat \<Rightarrow> nat \<Rightarrow> nat \<Rightarrow> nat \<Rightarrow> bytes option" where
  "footer a b c d =
     (let bs = put_uvarint a @ put_uvarint b @ put_uvarint c @ put_uvarint d
      in if length bs \<le> 32 then Some (bs @ replicate (32 - length bs) 0) else None)"

definition overwrite :: "bytes \<Rightarrow> bytes \<Rightarrow> bytes" where
  "overwrite old new = new @ drop (length new) old"

definition Finish :: "bytes \<Rightarrow> SSTWriter \<Rightarrow> (SSTWriter \<times> bytes \<times> nat) option" where
  "Finish old s = do {
     s \<leftarrow> refreshBlock s;
     let s = insertIndex (w_prevKey s) s;
     let filterBuf = b_record (filterBlock s);
     let indexBuf = b_record (indexBlock s);
     let size = length (dataBuf s);
     foot \<leftarrow> footer size (length filterBuf) (size + length filterBuf) (length indexBuf);
     Some (s\<lparr>filterBlock := NewBlock, indexBlock := NewBlock\<rparr>,
           overwrite old (dataBuf s @ filterBuf @ indexBuf @ foot), size + length filterBuf + length indexBuf) }"

section \<open>The reader\<close>

datatype sst_err = SeekErr | IoErr io_err

record SSTReader =
  src :: bytes
  filterOffset :: nat
  filterSize :: nat
  indexOffset :: nat
  indexSize :: nat

definition NewSSTReader :: "bytes \<Rightarrow> SSTReader" where
  "NewSSTReader f = \<lparr>src = f, filterOffset = 0, filterSize = 0, indexOffset = 0, indexSize = 0\<rparr>"

definition io :: "io_err + 'a \<Rightarrow> sst_err + 'a" where
  "io r = (case r of Inl e \<Rightarrow> Inl (IoErr e) | Inr x \<Rightarrow> Inr x)"

definition ReadFooter :: "SSTReader \<Rightarrow> sst_err + SSTReader" where
  "ReadFooter s =
     (if length (src s) < 32 then Inl SeekErr
      else sbind (io (ReadUvarint (drop (length (src s) - 32) (src s)))) (\<lambda>(fo, bs).
           sbind (io (ReadUvarint bs)) (\<lambda>(fs, bs).
           sbind (io (ReadUvarint bs)) (\<lambda>(ixo, bs).
           sbind (io (ReadUvarint bs)) (\<lambda>(ixs, bs).
           Inr (s\<lparr>filterOffset := fo, filterSize := fs, indexOffset := ixo, indexSize := ixs\<rparr>))))))"

definition ReadBlock :: "nat \<Rightarrow> nat \<Rightarrow> SSTReader \<Rightarrow> sst_err + bytes" where
  "ReadBlock off sz s = sbind (io (ReadFull sz (drop off (src s)))) (\<lambda>(buf, _). Inr buf)"

definition sizeOf :: "SSTReader \<Rightarrow> sst_err + SSTReader \<times> nat" where
  "sizeOf s = sbind (if indexOffset s = 0 then ReadFooter s else Inr s) (\<lambda>s. Inr (s, indexOffset s + indexSize s))"

definition parse_filter :: "(bytes \<times> bytes) list \<Rightarrow> (nat, bytes) gomap" where
  "parse_filter kvs = fold (\<lambda>(k, v). gm_set (fst (Uvarint k)) v) kvs []"

definition parse_index_entry :: "bytes \<times> bytes \<Rightarrow> Index option" where
  "parse_index_entry kv =
     (case Uvarint (snd kv) of (off, n) \<Rightarrow>
        if n < 0 then None
        else Some \<lparr>i_Key = fst kv, PrevBlockOffset = off, PrevBlockSize = fst (Uvarint (drop (nat n) (snd kv)))\<rparr>)"

fun parse_index :: "(bytes \<times> bytes) list \<Rightarrow> Index list option" where
  "parse_index [] = Some []"
| "parse_index (kv # kvs) = do { i \<leftarrow> parse_index_entry kv; is \<leftarrow> parse_index kvs; Some (i # is) }"

definition ReadFilter :: "SSTReader \<Rightarrow> (sst_err + SSTReader \<times> (nat, bytes) gomap) option" where
  "ReadFilter s = (case
     sbind (if filterOffset s = 0 \<or> filterSize s = 0 then ReadFooter s else Inr s) (\<lambda>s.
     sbind (ReadBlock (filterOffset s) (filterSize s) s) (\<lambda>block. Inr (s, block))) of
       Inl e \<Rightarrow> Some (Inl e)
     | Inr (s, block) \<Rightarrow> do {
         r \<leftarrow> read_records [] block;
         Some (sbind (io r) (\<lambda>kvs. Inr (s, parse_filter kvs))) })"

definition ReadIndex :: "SSTReader \<Rightarrow> (sst_err + SSTReader \<times> Index list) option" where
  "ReadIndex s = (case
     sbind (if indexOffset s = 0 \<or> indexSize s = 0 then ReadFooter s else Inr s) (\<lambda>s.
     sbind (ReadBlock (indexOffset s) (indexSize s) s) (\<lambda>block. Inr (s, block))) of
       Inl e \<Rightarrow> Some (Inl e)
     | Inr (s, block) \<Rightarrow> do {
         r \<leftarrow> read_records [] block;
         (case r of
            Inl e \<Rightarrow> Some (Inl (IoErr e))
          | Inr kvs \<Rightarrow> do { is \<leftarrow> parse_index kvs; Some (Inr (s, is)) }) })"

definition ReadData :: "SSTReader \<Rightarrow> (sst_err + SSTReader \<times> (bytes \<times> bytes) list) option" where
  "ReadData s = (case
     sbind (if indexOffset s = 0 \<or> indexSize s = 0 \<or> filterOffset s = 0 \<or> filterSize s = 0 then ReadFooter s else Inr s) (\<lambda>s.
     sbind (ReadBlock 0 (filterOffset s) s) (\<lambda>block. Inr (s, block))) of
       Inl e \<Rightarrow> Some (Inl e)
     | Inr (s, block) \<Rightarrow> do {
         r \<leftarrow> ReadBlockData block;
         Some (sbind (io r) (\<lambda>kvs. Inr (s, kvs))) })"

section \<open>A table in the tree\<close>

record Node =
  n_file :: "nat \<times> int"
  n_size :: nat
  n_filters :: "(nat, bytes) gomap"
  n_index :: "Index list"
  startKey :: bytes
  endKey :: bytes
  sstReader :: SSTReader

definition NewNode :: "nat \<times> int \<Rightarrow> SSTReader \<Rightarrow> nat \<Rightarrow> (nat, bytes) gomap \<Rightarrow> Index list \<Rightarrow> Node option" where
  "NewNode f rdr sz b2f ix =
     (if ix = [] then None
      else Some \<lparr>n_file = f, n_size = sz, n_filters = b2f, n_index = ix, startKey = i_Key (hd ix), endKey = i_Key (last ix), sstReader = rdr\<rparr>)"

text \<open>The search is called with \<open>start \<le> end\<close> only.\<close>

function binarySearchIndex :: "bytes \<Rightarrow> nat \<Rightarrow> nat \<Rightarrow> Index list \<Rightarrow> (Index \<times> bool) option" where
  "binarySearchIndex key lo hi ix =
     (if lo = hi then do { e \<leftarrow> rd ix lo; Some (e, key \<le> i_Key e) }
      else if hi < lo then None
      else let mid = lo + (hi - lo) div 2 in do {
        e \<leftarrow> rd ix mid;
        (if i_Key e < key then binarySearchIndex key (mid + 1) hi ix else binarySearchIndex key lo mid ix) })"
  by pat_completeness auto
termination
  by (relation "measure (\<lambda>(key, lo, hi, ix). hi - lo)") auto

declare binarySearchIndex.simps [simp del]

definition node_Get :: "BloomFilter \<Rightarrow> bytes \<Rightarrow> Node \<Rightarrow> (sst_err + bytes option) option" where
  "node_Get conf_filter key n =
     (if n_index n = [] then Some (Inr None)
      else do {
        (e, ok) \<leftarrow> binarySearchIndex key 0 (length (n_index n) - 1) (n_index n);
        (if \<not> ok then Some (Inr None)
         else case gm_get (n_filters n) (PrevBlockOffset e) of
           None \<Rightarrow> Some (Inr None)
         | Some bitmap \<Rightarrow> do {
             ex \<leftarrow> bf_Exist (Some bitmap) key conf_filter;
             (if \<not> ex then Some (Inr None)
              else case ReadBlock (PrevBlockOffset e) (PrevBlockSize e) (sstReader n) of
                Inl err \<Rightarrow> Some (Inl err)
              | Inr block \<Rightarrow> do {
                  r \<leftarrow> ReadBlockData block;
                  Some (sbind (io r) (\<lambda>kvs. Inr (map_of kvs key))) }) }) })"

definition GetAll :: "Node \<Rightarrow> (sst_err + (bytes \<times> bytes) list) option" where
  "GetAll n = map_option (\<lambda>r. sbind r (\<lambda>(_, kvs). Inr kvs)) (ReadData (sstReader n))"

text \<open>What \<open>loadNode\<close> reads of a file: the filters, the index and the size.\<close>

definition read_table :: "bytes \<Rightarrow> (sst_err + SSTReader \<times> nat \<times> (nat, bytes) gomap \<times> Index list) option" where
  "read_table f = do {
     r \<leftarrow> ReadFilter (NewSSTReader f);
     (case r of
        Inl e \<Rightarrow> Some (Inl e)
      | Inr (rdr, b2f) \<Rightarrow> do {
          r \<leftarrow> ReadIndex rdr;
          (case r of
             Inl e \<Rightarrow> Some (Inl e)
           | Inr (rdr, ix) \<Rightarrow> Some (sbind (sizeOf rdr) (\<lambda>(rdr, sz). Inr (rdr, sz, b2f, ix)))) }) }"

section \<open>The layout of a table\<close>

text \<open>Blocks with their offsets and sizes.\<close>

fun layout :: "nat \<Rightarrow> (bytes \<times> bytes) list list \<Rightarrow> (nat \<times> nat \<times> (bytes \<times> bytes) list) list" where
  "layout off [] = []"
| "layout off (b # D) = (off, length (enc_from [] b), b) # layout (off + length (enc_from [] b)) D"

definition blocks_bytes :: "(bytes \<times> bytes) list list \<Rightarrow> bytes" where
  "blocks_bytes D = concat (map (enc_from []) D)"

lemma layout_append: "layout off (D @ E) = layout off D @ layout (off + length (blocks_bytes D)) E"
  by (induction D arbitrary: off) (auto simp: blocks_bytes_def add.assoc)

lemma layout_length [simp]: "length (layout off D) = length D"
  by (induction D arbitrary: off) auto

lemma layout_Nil [simp]: "layout off D = [] \<longleftrightarrow> D = []"
  by (cases D) auto

lemma enc_ne: "b \<noteq> [] \<Longrightarrow> 0 < length (enc_from p b)"
  by (cases b) (auto simp: put_uvarint.simps)

lemma layout_ge: "(o1, s, b) \<in> set (layout off D) \<Longrightarrow> off \<le> o1"
  by (induction D arbitrary: off) fastforce+

lemma layout_distinct: "[] \<notin> set D \<Longrightarrow> distinct (map fst (layout off D))"
proof (induction D arbitrary: off)
  case (Cons b D)
  have "off \<noteq> o1" if "(o1, s, b') \<in> set (layout (off + length (enc_from [] b)) D)" for o1 s b'
    using layout_ge [OF that] enc_ne [of b "[]"] Cons.prems by auto
  then have "off \<notin> fst ` set (layout (off + length (enc_from [] b)) D)" by fastforce
  then show ?case using Cons by simp
qed simp

lemma layout_bytes:
  "(o1, s, b) \<in> set (layout off D) \<Longrightarrow> \<exists>pre post. pre @ enc_from [] b @ post = blocks_bytes D \<and> o1 = off + length pre \<and> s = length (enc_from [] b)"
proof (induction D arbitrary: off)
  case (Cons c D)
  show ?case
  proof (cases "(o1, s, b) = (off, length (enc_from [] c), c)")
    case True
    then show ?thesis by (intro exI [of _ "[]"] exI [of _ "blocks_bytes D"]) (simp add: blocks_bytes_def)
  next
    case False
    with Cons obtain pre post where "pre @ enc_from [] b @ post = blocks_bytes D" "o1 = off + length (enc_from [] c) + length pre"
      "s = length (enc_from [] b)" by fastforce
    then show ?thesis by (intro exI [of _ "enc_from [] c @ pre"] exI [of _ post]) (simp add: blocks_bytes_def)
  qed
qed simp

definition blk :: "(bytes \<times> bytes) list \<Rightarrow> Block" where
  "blk kvs = \<lparr>b_record = enc_from [] kvs, b_entriesCnt = length kvs, b_prevKey = last ([] # map fst kvs)\<rparr>"

lemma blk_Nil: "NewBlock = blk []"
  by (simp add: NewBlock_def blk_def)

lemma blk_Append: "block_Append k v (blk kvs) = blk (kvs @ [(k, v)])"
  by (simp add: block_Append_def blk_def enc_from_append Let_def)

definition ix_of :: "nat \<times> nat \<times> (bytes \<times> bytes) list \<Rightarrow> Index" where
  "ix_of x = (case x of (off, s, b) \<Rightarrow> \<lparr>i_Key = fst (last b), PrevBlockOffset = off, PrevBlockSize = s\<rparr>)"

definition ix_list :: "bytes \<Rightarrow> (bytes \<times> bytes) list list \<Rightarrow> Index list" where
  "ix_list k0 D = \<lparr>i_Key = GetSeparatorBetween [] k0, PrevBlockOffset = 0, PrevBlockSize = 0\<rparr> # map ix_of (layout 0 D)"

definition ix_rec :: "Index \<Rightarrow> bytes \<times> bytes" where
  "ix_rec e = (i_Key e, put_uvarint (PrevBlockOffset e) @ put_uvarint (PrevBlockSize e))"

definition last_at :: "(bytes \<times> bytes) list list \<Rightarrow> nat \<times> nat" where
  "last_at D = last ((0, 0) # map (\<lambda>(off, s, _). (off, s)) (layout 0 D))"

definition last_key :: "(bytes \<times> bytes) list \<Rightarrow> bytes" where
  "last_key kvs = last ([] # map fst kvs)"

text \<open>The state of a writer after the blocks \<open>D\<close> with the bitmaps \<open>fs\<close>, and \<open>C\<close> in the open block.\<close>

definition wstate :: "nat \<Rightarrow> nat \<Rightarrow> (bytes \<times> bytes) list list \<Rightarrow> (bytes \<times> bytes) list \<Rightarrow> bytes list \<Rightarrow> SSTWriter" where
  "wstate bs m D C fs =
     (let k0 = fst (hd (concat D @ C));
          ix = (if D = [] \<and> C = [] then [] else ix_list k0 (if C = [] then butlast D else D))
      in \<lparr>w_blockSize = bs, w_filter = \<lparr>bf_m = m, hashedKeys = map (hashKey \<circ> fst) C\<rparr>, dataBuf = blocks_bytes D,
          blockToFilter = zip (map fst (layout 0 D)) fs, w_index = ix, dataBlock = blk C,
          filterBlock = blk (zip (map (put_uvarint \<circ> fst) (layout 0 D)) fs), indexBlock = blk (map ix_rec ix),
          w_prevKey = last_key (concat D @ C), prevBlockOffset = fst (last_at D), prevBlockSize = snd (last_at D)\<rparr>)"

lemma NewSSTWriter_wstate: "NewSSTWriter bs \<lparr>bf_m = m, hashedKeys = []\<rparr> = wstate bs m [] [] []"
  by (simp add: NewSSTWriter_def wstate_def blocks_bytes_def last_key_def last_at_def blk_Nil Let_def)

definition good_filter :: "nat \<Rightarrow> (bytes \<times> bytes) list \<Rightarrow> bytes \<Rightarrow> bool" where
  "good_filter m b f \<longleftrightarrow> (\<forall>k bf. k \<in> fst ` set b \<and> bf_m bf = m \<longrightarrow> bf_Exist (Some f) k bf = Some True) \<and>
     (\<forall>k bf. bf_m bf = m \<longrightarrow> bf_Exist (Some f) k bf \<noteq> None) \<and> length f = (m + 7) div 8 + 1"

definition table_ok :: "nat \<Rightarrow> (bytes \<times> bytes) list list \<Rightarrow> bytes list \<Rightarrow> bool" where
  "table_ok m D fs \<longleftrightarrow> [] \<notin> set D \<and> list_all2 (good_filter m) D fs"

lemma gm_set_new: "k \<notin> set (map fst m) \<Longrightarrow> gm_set k v m = m @ [(k, v)]"
  by (induction m) (auto simp: gm_set_def)

lemma refresh_wstate:
  assumes "bf_ok \<lparr>bf_m = m, hashedKeys = []\<rparr>" and "C \<noteq> []" and "table_ok m D fs"
  shows "\<exists>f. refreshBlock (wstate bs m D C fs) = Some (wstate bs m (D @ [C]) [] (fs @ [f])) \<and> table_ok m (D @ [C]) (fs @ [f])"
proof -
  let ?bf = "\<lparr>bf_m = m, hashedKeys = map (hashKey \<circ> fst) C\<rparr>"
  have ok: "bf_ok ?bf" "hashedKeys ?bf \<noteq> []" using assms(1,2) by (auto simp: bf_ok_def)
  obtain f where f: "bf_Hash ?bf = Some f" and good: "good_filter m C f"
  proof (rule bf_Hash_ok [OF ok])
    fix bm assume "bf_Hash ?bf = Some bm" "bm_ok ?bf bm"
      "\<And>key bf'. hashKey key \<in> set (hashedKeys ?bf) \<Longrightarrow> bf_m bf' = bf_m ?bf \<Longrightarrow> bf_Exist (Some bm) key bf' = Some True"
      "\<And>key bf'. bf_m bf' = bf_m ?bf \<Longrightarrow> bf_Exist (Some bm) key bf' \<noteq> None"
    then show thesis using that [of bm] by (auto simp: good_filter_def bm_ok_def)
  qed
  have len: "length fs = length D" using assms(3) by (auto simp: table_ok_def dest: list_all2_lengthD)
  have lay: "layout 0 (D @ [C]) = layout 0 D @ [(length (blocks_bytes D), length (enc_from [] C), C)]" by (simp add: layout_append)
  have new: "length (blocks_bytes D) \<notin> set (map fst (layout 0 D))"
    using layout_distinct [of "D @ [C]" 0] assms(2,3) lay by (simp add: table_ok_def)
  have upd: "gm_set (length (blocks_bytes D)) f (zip (map fst (layout 0 D)) fs) = zip (map fst (layout 0 D)) fs @ [(length (blocks_bytes D), f)]"
    using new len by (intro gm_set_new) simp
  have "table_ok m (D @ [C]) (fs @ [f])" using assms(2,3) good by (simp add: table_ok_def list_all2_appendI)
  moreover have "refreshBlock (wstate bs m D C fs) = Some (wstate bs m (D @ [C]) [] (fs @ [f]))"
    using assms(2) f upd lay len
    by (simp add: refreshBlock_def wstate_def Let_def bf_KeyLen_def bf_Reset_def blk_Append blk_Nil blocks_bytes_def last_at_def)
      (simp add: blk_def)
  ultimately show ?thesis by blast
qed

section \<open>What the writer writes\<close>

lemma last_key_append: "last_key (xs @ [(k, v)]) = k"
  by (simp add: last_key_def)

lemma last_key_in: "xs \<noteq> [] \<Longrightarrow> last_key xs \<in> fst ` set xs"
  by (simp add: last_key_def last_map)

lemma last_key_block: "[] \<notin> set D \<Longrightarrow> D \<noteq> [] \<Longrightarrow> last_key (concat D) = fst (last (last D))"
  by (cases D rule: rev_cases) (auto simp: last_key_def last_map)

lemma ix_list_snoc:
  assumes "[] \<notin> set D" and "D \<noteq> []"
  shows "ix_list k0 D = ix_list k0 (butlast D) @ [\<lparr>i_Key = last_key (concat D), PrevBlockOffset = fst (last_at D), PrevBlockSize = snd (last_at D)\<rparr>]"
proof (cases D rule: rev_cases)
  case (snoc E b)
  then show ?thesis using last_key_block [OF assms] by (simp add: ix_list_def ix_of_def layout_append last_at_def)
qed (use assms in simp)

lemma separator_later: "a \<noteq> [] \<Longrightarrow> b \<noteq> [] \<Longrightarrow> GetSeparatorBetween a b = a"
  by (simp add: GetSeparatorBetween_def)

text \<open>The index entry of a new block, and the last one.\<close>

lemma insertIndex_wstate:
  assumes "[] \<notin> set D" and "[] \<notin> fst ` set (concat D)" and "k \<noteq> []"
  shows "insertIndex k (wstate bs m D [] fs) = (wstate bs m D [] fs)\<lparr>w_index := ix_list (fst (hd (concat D @ [(k, v)]))) D,
    indexBlock := blk (map ix_rec (ix_list (fst (hd (concat D @ [(k, v)]))) D))\<rparr>"
proof (cases "D = []")
  case True
  then show ?thesis by (simp add: insertIndex_def wstate_def Let_def ix_list_def last_key_def last_at_def blk_Append ix_rec_def)
next
  case False
  have "concat D \<noteq> []" using False assms(1) by (cases D) auto
  then have "last_key (concat D) \<in> fst ` set (concat D)" by (rule last_key_in)
  then have ne: "last_key (concat D) \<noteq> []" using assms(2) by metis
  have h: "hd (concat D @ [(k, v)]) = hd (concat D)" using \<open>concat D \<noteq> []\<close> by simp
  show ?thesis
    using False separator_later [OF ne assms(3)] ix_list_snoc [OF assms(1) False]
    by (simp add: insertIndex_def wstate_def Let_def blk_Append h ix_rec_def)
qed

lemma Append_wstate:
  assumes m: "bf_ok \<lparr>bf_m = m, hashedKeys = []\<rparr>" and t: "table_ok m D fs" and ne: "[] \<notin> fst ` set (concat D)" "k \<noteq> []"
  shows "\<exists>D' C' fs'. sst_Append k v (wstate bs m D C fs) = Some (wstate bs m D' C' fs') \<and> table_ok m D' fs' \<and>
    concat D' @ C' = concat D @ C @ [(k, v)]"
proof -
  let ?s = "(if b_entriesCnt (dataBlock (wstate bs m D C fs)) = 0 then insertIndex k (wstate bs m D C fs) else wstate bs m D C fs)"
  let ?s' = "?s\<lparr>dataBlock := block_Append k v (dataBlock ?s), w_filter := bf_Add k (w_filter ?s), w_prevKey := k\<rparr>"
  have D: "[] \<notin> set D" using t by (simp add: table_ok_def)
  have s': "?s' = wstate bs m D (C @ [(k, v)]) fs"
  proof (cases "C = []")
    case True
    then show ?thesis using insertIndex_wstate [OF D ne, of bs m fs v]
      by (simp add: wstate_def Let_def blk_def bf_Add_def block_Append_def last_key_def)
  next
    case False
    then show ?thesis
      by (cases C) (auto simp: wstate_def Let_def blk_Append bf_Add_def last_key_def, auto simp: blk_def hd_append)
  qed
  have a: "sst_Append k v (wstate bs m D C fs) =
      (if bs \<le> length (enc_from [] (C @ [(k, v)])) then refreshBlock (wstate bs m D (C @ [(k, v)]) fs) else Some (wstate bs m D (C @ [(k, v)]) fs))"
    unfolding sst_Append_def Let_def s' by (simp add: wstate_def Let_def blk_def)
  obtain f where f: "refreshBlock (wstate bs m D (C @ [(k, v)]) fs) = Some (wstate bs m (D @ [C @ [(k, v)]]) [] (fs @ [f]))"
    "table_ok m (D @ [C @ [(k, v)]]) (fs @ [f])"
    using refresh_wstate [OF m _ t, of "C @ [(k, v)]" bs] by auto
  show ?thesis
  proof (cases "bs \<le> length (enc_from [] (C @ [(k, v)]))")
    case True
    then show ?thesis using a f by (intro exI [of _ "D @ [C @ [(k, v)]]"] exI [of _ "[]"] exI [of _ "fs @ [f]"]) simp
  next
    case False
    then show ?thesis using a t by (intro exI [of _ D] exI [of _ "C @ [(k, v)]"] exI [of _ fs]) simp
  qed
qed

lemma AppendAll_wstate:
  assumes m: "bf_ok \<lparr>bf_m = m, hashedKeys = []\<rparr>" and "table_ok m D fs" and "[] \<notin> fst ` set (concat D @ C @ kvs)"
  shows "\<exists>D' C' fs'. sst_AppendAll kvs (wstate bs m D C fs) = Some (wstate bs m D' C' fs') \<and> table_ok m D' fs' \<and>
    concat D' @ C' = concat D @ C @ kvs"
  using assms(2,3)
proof (induction kvs arbitrary: D C fs)
  case (Cons kv kvs)
  obtain k v where kv: "kv = (k, v)" by (cases kv)
  have ne: "[] \<notin> fst ` set (concat D)" "k \<noteq> []" using Cons.prems(2) kv by (auto simp: image_Un)
  obtain D1 C1 fs1 where 1: "sst_Append k v (wstate bs m D C fs) = Some (wstate bs m D1 C1 fs1)" "table_ok m D1 fs1"
    "concat D1 @ C1 = concat D @ C @ [(k, v)]"
    using Append_wstate [OF m Cons.prems(1) ne, of v bs C] by blast
  have e: "concat D1 @ C1 @ kvs = concat D @ C @ kv # kvs" using 1(3) kv by (metis append.assoc append_Cons append_Nil)
  obtain D' C' fs' where "sst_AppendAll kvs (wstate bs m D1 C1 fs1) = Some (wstate bs m D' C' fs')" "table_ok m D' fs'"
    "concat D' @ C' = concat D1 @ C1 @ kvs"
    using Cons.IH [OF 1(2), of C1] Cons.prems(2) e by auto
  then show ?case using 1(1) kv e by auto
qed auto

section \<open>The finished file\<close>

definition filter_recs :: "(bytes \<times> bytes) list list \<Rightarrow> bytes list \<Rightarrow> (bytes \<times> bytes) list" where
  "filter_recs D fs = zip (map (put_uvarint \<circ> fst) (layout 0 D)) fs"

definition first_key :: "(bytes \<times> bytes) list list \<Rightarrow> bytes" where
  "first_key D = fst (hd (concat D))"

definition index_recs :: "(bytes \<times> bytes) list list \<Rightarrow> (bytes \<times> bytes) list" where
  "index_recs D = map ix_rec (ix_list (first_key D) D)"

text \<open>The bytes of a table with its footer, and what the writer knows of it.\<close>

definition is_table :: "(bytes \<times> bytes) list list \<Rightarrow> bytes list \<Rightarrow> bytes \<Rightarrow> nat \<Rightarrow> bool" where
  "is_table D fs f sz \<longleftrightarrow> (\<exists>foot. footer (length (blocks_bytes D)) (length (enc_from [] (filter_recs D fs)))
       (length (blocks_bytes D) + length (enc_from [] (filter_recs D fs))) (length (enc_from [] (index_recs D))) = Some foot \<and>
     f = blocks_bytes D @ enc_from [] (filter_recs D fs) @ enc_from [] (index_recs D) @ foot) \<and>
     sz = length (blocks_bytes D) + length (enc_from [] (filter_recs D fs)) + length (enc_from [] (index_recs D))"

lemma refresh_empty: "refreshBlock (wstate bs m D [] fs) = Some (wstate bs m D [] fs)"
  by (simp add: refreshBlock_def wstate_def Let_def bf_KeyLen_def)

lemma wstate_sel:
  "dataBuf (wstate bs m D C fs) = blocks_bytes D" "blockToFilter (wstate bs m D C fs) = zip (map fst (layout 0 D)) fs"
  "w_filter (wstate bs m D C fs) = \<lparr>bf_m = m, hashedKeys = map (hashKey \<circ> fst) C\<rparr>"
  "b_record (filterBlock (wstate bs m D C fs)) = enc_from [] (filter_recs D fs)" "b_record (blk kvs) = enc_from [] kvs"
  by (simp_all add: wstate_def Let_def blk_def filter_recs_def)

section \<open>The size of a table\<close>

lemma uvarint_length: "v < 128 ^ j \<Longrightarrow> 0 < j \<Longrightarrow> length (put_uvarint v) \<le> j"
proof (induction v arbitrary: j rule: put_uvarint.induct)
  case (1 v)
  show ?case
  proof (cases "v < 128")
    case True
    then show ?thesis using 1(3) by (simp add: put_uvarint.simps [of v])
  next
    case False
    then obtain i where j: "j = Suc i" "0 < i" using 1(2,3) by (cases j; cases "j - 1") auto
    have "v < 128 ^ i * 128" using 1(2) j(1) by (simp add: mult.commute)
    then have "v div 128 < 128 ^ i" by (rule less_mult_imp_div_less)
    then show ?thesis using 1(1) [OF False _ j(2)] False j(1) by (simp add: put_uvarint.simps [of v])
  qed
qed

lemma uvarint_8: "v < 2 ^ 56 \<Longrightarrow> length (put_uvarint v) \<le> 8"
  using uvarint_length [of v 8] by simp

text \<open>The bytes of the records when every length takes eight bytes.\<close>

definition volume :: "(bytes \<times> bytes) list \<Rightarrow> nat" where
  "volume kvs = (\<Sum>(k, v)\<leftarrow>kvs. length k + length v + 24)"

lemma volume_simps [simp]:
  "volume [] = 0" "volume ((k, v) # kvs) = length k + length v + 24 + volume kvs" "volume (xs @ ys) = volume xs + volume ys"
  by (simp_all add: volume_def)

lemma volume_mem: "(k, v) \<in> set kvs \<Longrightarrow> length k + length v + 24 \<le> volume kvs"
  by (induction kvs) auto

lemma enc_volume: "volume kvs < 2 ^ 56 \<Longrightarrow> length (enc_from p kvs) \<le> volume kvs"
proof (induction kvs arbitrary: p)
  case (Cons kv kvs)
  obtain k v where kv: "kv = (k, v)" by (cases kv)
  have "SharedPrefixLen p k \<le> length k" using shared_prefix [of p k] by simp
  then have "length (put_uvarint (SharedPrefixLen p k)) \<le> 8" "length (put_uvarint (length k - SharedPrefixLen p k)) \<le> 8"
    "length (put_uvarint (length v)) \<le> 8" using Cons.prems kv by (auto intro!: uvarint_8)
  then show ?case using Cons.IH [of k] Cons.prems kv by simp
qed simp

lemma blocks_volume: "volume (concat D) < 2 ^ 56 \<Longrightarrow> length (blocks_bytes D) \<le> volume (concat D)"
  by (induction D) (auto simp: blocks_bytes_def intro!: add_mono enc_volume)

definition table_budget :: "nat \<Rightarrow> (bytes \<times> bytes) list \<Rightarrow> nat" where
  "table_budget m kvs = 3 * volume kvs + length kvs * (m + 100) + 100"

lemma filter_budget:
  assumes "[] \<notin> set D" and "length fs = length D" and "\<And>f. f \<in> set fs \<Longrightarrow> length f + 32 \<le> c" and "off + volume (concat D) < 2 ^ 56"
  shows "volume (zip (map (put_uvarint \<circ> fst) (layout off D)) fs) \<le> length (concat D) * c"
  using assms
proof (induction D arbitrary: off fs)
  case (Cons b D)
  obtain f gs where fs: "fs = f # gs" using Cons.prems(2) by (cases fs) auto
  have e: "length (enc_from [] b) \<le> volume b" using Cons.prems(4) by (intro enc_volume) simp
  have "volume (zip (map (put_uvarint \<circ> fst) (layout (off + length (enc_from [] b)) D)) gs) \<le> length (concat D) * c"
    using Cons.prems fs e by (intro Cons.IH) auto
  moreover have "length (put_uvarint off) \<le> 8" using Cons.prems(4) by (intro uvarint_8) simp
  moreover have "length f + 32 \<le> c" using Cons.prems(3) fs by simp
  moreover have "1 * c \<le> length b * c" using Cons.prems(1) by (intro mult_right_mono) (auto simp: Suc_le_eq)
  moreover have "length (concat (b # D)) * c = length b * c + length (concat D) * c" by (simp add: add_mult_distrib)
  moreover have "volume (zip (map (put_uvarint \<circ> fst) (layout off (b # D))) fs) = length (put_uvarint off) + length f + 24 +
      volume (zip (map (put_uvarint \<circ> fst) (layout (off + length (enc_from [] b)) D)) gs)" using fs by simp
  ultimately show ?case by linarith
qed simp

lemma index_budget:
  assumes "[] \<notin> set D" and "off + volume (concat D) < 2 ^ 56"
  shows "volume (map (ix_rec \<circ> ix_of) (layout off D)) \<le> volume (concat D) + length (concat D) * 40"
  using assms
proof (induction D arbitrary: off)
  case (Cons b D)
  have e: "length (enc_from [] b) \<le> volume b" using Cons.prems(2) by (intro enc_volume) simp
  have "volume (map (ix_rec \<circ> ix_of) (layout (off + length (enc_from [] b)) D)) \<le> volume (concat D) + length (concat D) * 40"
    using Cons.prems e by (intro Cons.IH) auto
  moreover have "length (put_uvarint off) \<le> 8" "length (put_uvarint (length (enc_from [] b))) \<le> 8"
    using Cons.prems(2) e by (auto intro!: uvarint_8)
  moreover have b: "b \<noteq> []" using Cons.prems(1) by auto
  then have "length (fst (last b)) \<le> volume b" using volume_mem [of "fst (last b)" "snd (last b)" b] by simp
  moreover have "40 \<le> length b * 40" using b by (cases b) auto
  moreover have "length (concat (b # D)) * 40 = length b * 40 + length (concat D) * 40" by (simp add: add_mult_distrib)
  moreover have "volume (map (ix_rec \<circ> ix_of) (layout off (b # D))) = length (fst (last b)) +
      (length (put_uvarint off) + length (put_uvarint (length (enc_from [] b)))) + 24 +
      volume (map (ix_rec \<circ> ix_of) (layout (off + length (enc_from [] b)) D))" by (simp add: ix_rec_def ix_of_def)
  moreover have "volume (concat (b # D)) = volume b + volume (concat D)" by simp
  ultimately show ?case by linarith
qed simp

lemma table_volume:
  assumes ok: "table_ok m D fs" and D: "concat D \<noteq> []" and b: "table_budget m (concat D) < 2 ^ 56"
  shows "length (blocks_bytes D) + length (enc_from [] (filter_recs D fs)) + length (enc_from [] (index_recs D)) < 2 ^ 56"
proof -
  let ?n = "length (concat D)" and ?v = "volume (concat D)"
  have nD: "[] \<notin> set D" "length fs = length D" using ok by (auto simp: table_ok_def dest: list_all2_lengthD)
  have fl: "length f + 32 \<le> m + 40" if "f \<in> set fs" for f
    using ok that by (auto simp: table_ok_def list_all2_conv_all_nth in_set_conv_nth good_filter_def)
  have v: "?v < 2 ^ 56" using b by (simp add: table_budget_def)
  have F: "volume (filter_recs D fs) \<le> ?n * (m + 40)" using filter_budget [OF nD fl, where off = 0] v by (simp add: filter_recs_def)
  have "hd (concat D) \<in> set (concat D)" by (rule hd_in_set [OF D])
  then have "length (fst (hd (concat D))) + length (snd (hd (concat D))) + 24 \<le> ?v" by (intro volume_mem) (simp del: set_concat)
  then have fk: "length (first_key D) \<le> ?v" by (simp add: first_key_def)
  have sep: "length (GetSeparatorBetween [] (first_key D)) = length (first_key D)"
    by (cases "first_key D" rule: rev_cases) (auto simp: GetSeparatorBetween_def)
  have I: "volume (index_recs D) \<le> 2 * ?v + ?n * 40 + 26"
    using index_budget [OF nD(1), where off = 0] v fk sep
    by (simp add: index_recs_def ix_list_def ix_rec_def put_uvarint.simps comp_def)
  have "?n * (m + 40) + ?n * 40 \<le> ?n * (m + 100)" by (simp add: add_mult_distrib2)
  then have tot: "?v + volume (filter_recs D fs) + volume (index_recs D) < 2 ^ 56"
    using F I b by (simp add: table_budget_def)
  moreover have "length (blocks_bytes D) \<le> ?v" by (rule blocks_volume [OF v])
  moreover have "length (enc_from [] (filter_recs D fs)) \<le> volume (filter_recs D fs)" "length (enc_from [] (index_recs D)) \<le> volume (index_recs D)"
    using tot by (auto intro!: enc_volume)
  ultimately show ?thesis by simp
qed

lemma footer_fits:
  assumes "a < 2 ^ 56" "b < 2 ^ 56" "c < 2 ^ 56" "d < 2 ^ 56" shows "footer a b c d \<noteq> None"
  using uvarint_8 [OF assms(1)] uvarint_8 [OF assms(2)] uvarint_8 [OF assms(3)] uvarint_8 [OF assms(4)] by (simp add: footer_def Let_def)

text \<open>Finishing a table whose records are not out of all bounds.\<close>

lemma Finish_table:
  assumes m: "bf_ok \<lparr>bf_m = m, hashedKeys = []\<rparr>" and t: "table_ok m D fs" and ne: "[] \<notin> fst ` set (concat D @ C)" "concat D @ C \<noteq> []"
    and b: "table_budget m (concat D @ C) < 2 ^ 56"
  shows "\<exists>D' fs' w f sz. Finish [] (wstate bs m D C fs) = Some (w, f, sz) \<and> concat D' = concat D @ C \<and> table_ok m D' fs' \<and> is_table D' fs' f sz \<and>
    sz < 2 ^ 56 \<and> w_index w = ix_list (first_key D') D' \<and> blockToFilter w = zip (map fst (layout 0 D')) fs' \<and> w_filter w = \<lparr>bf_m = m, hashedKeys = []\<rparr>"
proof -
  obtain D' fs' where r: "refreshBlock (wstate bs m D C fs) = Some (wstate bs m D' [] fs')" "table_ok m D' fs'" "concat D' = concat D @ C"
  proof (cases "C = []")
    case True
    then show thesis using that refresh_empty t by simp
  next
    case False
    then show thesis using that refresh_wstate [OF m False t] by fastforce
  qed
  have D': "[] \<notin> set D'" "concat D' \<noteq> []" using r ne by (auto simp: table_ok_def)
  define k where "k = last_key (concat D')"
  have k: "k \<noteq> []" using last_key_in [OF D'(2)] ne r(3) unfolding k_def by metis
  have h: "fst (hd (concat D' @ [(k, v)])) = first_key D'" for v using D'(2) by (simp add: first_key_def)
  have ne': "[] \<notin> fst ` set (concat D')" using ne(1) r(3) by simp
  have i: "insertIndex k (wstate bs m D' [] fs') = (wstate bs m D' [] fs')\<lparr>w_index := ix_list (first_key D') D', indexBlock := blk (index_recs D')\<rparr>"
    using insertIndex_wstate [OF D'(1) ne' k, of bs m fs' "[]"] unfolding h index_recs_def .
  have pk: "w_prevKey (wstate bs m D' [] fs') = k" by (simp add: wstate_def Let_def k_def)
  have vol: "length (blocks_bytes D') + length (enc_from [] (filter_recs D' fs')) + length (enc_from [] (index_recs D')) < 2 ^ 56"
    using table_volume [OF r(2) D'(2)] b r(3) by simp
  then obtain foot where "footer (length (blocks_bytes D')) (length (enc_from [] (filter_recs D' fs')))
      (length (blocks_bytes D') + length (enc_from [] (filter_recs D' fs'))) (length (enc_from [] (index_recs D'))) = Some foot"
    using footer_fits by fastforce
  then obtain w f sz where "Finish [] (wstate bs m D C fs) = Some (w, f, sz)" "is_table D' fs' f sz" "sz < 2 ^ 56"
      "w_index w = ix_list (first_key D') D'" "blockToFilter w = zip (map fst (layout 0 D')) fs'" "w_filter w = \<lparr>bf_m = m, hashedKeys = []\<rparr>"
    using vol unfolding Finish_def r(1) by (simp add: pk i Let_def is_table_def overwrite_def wstate_sel)
  then show ?thesis using r(2,3) by blast
qed

lemma enc_lengths:
  "(k, v) \<in> set kvs \<Longrightarrow> length k \<le> length p + length (enc_from p kvs) \<and> length v \<le> length (enc_from p kvs)"
proof (induction kvs arbitrary: p)
  case (Cons kv kvs)
  obtain k1 v1 where kv: "kv = (k1, v1)" by (cases kv)
  have s: "SharedPrefixLen p k1 \<le> length p" "SharedPrefixLen p k1 \<le> length k1" using shared_prefix [of p k1] by auto
  show ?case
  proof (cases "(k, v) = (k1, v1)")
    case True
    then show ?thesis using kv s by auto
  next
    case False
    then have "length k \<le> length k1 + length (enc_from k1 kvs) \<and> length v \<le> length (enc_from k1 kvs)" using Cons kv by auto
    then show ?thesis using kv s by auto
  qed
qed simp

lemma small_enc: "length (enc_from [] kvs) < 2 ^ 64 \<Longrightarrow> small kvs"
  by (auto simp: small_def dest!: enc_lengths [where p = "[]"])

lemma small_blocks:
  assumes "length (blocks_bytes D) < 2 ^ 64" shows "small (concat D)"
proof -
  have "length (enc_from [] b) \<le> length (blocks_bytes D)" if "b \<in> set D" for b
    using that by (auto simp: blocks_bytes_def length_concat comp_def intro: member_le_sum_list)
  then have "small b" if "b \<in> set D" for b using small_enc le_less_trans [OF _ assms] that by blast
  then show ?thesis by (auto simp: small_def)
qed

section \<open>Reading it back\<close>

lemma layout_off:
  assumes "(o1, s, b) \<in> set (layout off D)"
  shows "o1 + s \<le> off + length (blocks_bytes D)"
proof -
  obtain pre post where "pre @ enc_from [] b @ post = blocks_bytes D" "o1 = off + length pre" "s = length (enc_from [] b)"
    using layout_bytes [OF assms] by blast
  then show ?thesis by (metis add.assoc add_left_mono le_add1 length_append)
qed

lemma footer_read:
  assumes "footer a b c d = Some foot" and "a < 2 ^ 64" "b < 2 ^ 64" "c < 2 ^ 64" "d < 2 ^ 64"
  shows "ReadFooter (s\<lparr>src := x @ foot\<rparr>) = Inr (s\<lparr>src := x @ foot, filterOffset := a, filterSize := b, indexOffset := c, indexSize := d\<rparr>)"
    and "length foot = 32"
proof -
  let ?bs = "put_uvarint a @ put_uvarint b @ put_uvarint c @ put_uvarint d"
  have f: "foot = ?bs @ replicate (32 - length ?bs) 0" and l: "length ?bs \<le> 32"
    using assms(1) by (auto simp: footer_def Let_def split: if_splits)
  show len: "length foot = 32" using l unfolding f by simp
  then have "drop (length (x @ foot) - 32) (x @ foot) = foot" by simp
  then show "ReadFooter (s\<lparr>src := x @ foot\<rparr>) = Inr (s\<lparr>src := x @ foot, filterOffset := a, filterSize := b, indexOffset := c, indexSize := d\<rparr>)"
    using len assms(2-) unfolding ReadFooter_def by (simp add: f io_def)
qed

text \<open>A reader that has seen the footer.\<close>

definition opened :: "(bytes \<times> bytes) list list \<Rightarrow> bytes list \<Rightarrow> bytes \<Rightarrow> SSTReader" where
  "opened D fs f = \<lparr>src = f, filterOffset = length (blocks_bytes D), filterSize = length (enc_from [] (filter_recs D fs)),
     indexOffset = length (blocks_bytes D) + length (enc_from [] (filter_recs D fs)), indexSize = length (enc_from [] (index_recs D))\<rparr>"

lemma table_footer:
  assumes "is_table D fs f sz" and "sz < 2 ^ 64"
  shows "ReadFooter (NewSSTReader f) = Inr (opened D fs f)" and "ReadFooter (opened D fs f) = Inr (opened D fs f)"
proof -
  obtain foot where foot: "footer (length (blocks_bytes D)) (length (enc_from [] (filter_recs D fs)))
       (length (blocks_bytes D) + length (enc_from [] (filter_recs D fs))) (length (enc_from [] (index_recs D))) = Some foot"
    "f = (blocks_bytes D @ enc_from [] (filter_recs D fs) @ enc_from [] (index_recs D)) @ foot"
    using assms(1) by (auto simp: is_table_def)
  have l: "length (blocks_bytes D) < 2 ^ 64" "length (enc_from [] (filter_recs D fs)) < 2 ^ 64"
    "length (blocks_bytes D) + length (enc_from [] (filter_recs D fs)) < 2 ^ 64" "length (enc_from [] (index_recs D)) < 2 ^ 64"
    using assms by (auto simp: is_table_def)
  have r: "ReadFooter (s\<lparr>src := f\<rparr>) = Inr (s\<lparr>src := f, filterOffset := length (blocks_bytes D), filterSize := length (enc_from [] (filter_recs D fs)),
      indexOffset := length (blocks_bytes D) + length (enc_from [] (filter_recs D fs)), indexSize := length (enc_from [] (index_recs D))\<rparr>)" for s
    unfolding foot(2) by (rule footer_read(1) [OF foot(1) l])
  show "ReadFooter (NewSSTReader f) = Inr (opened D fs f)"
    using r [of "NewSSTReader f"] by (simp add: NewSSTReader_def opened_def)
  show "ReadFooter (opened D fs f) = Inr (opened D fs f)"
    using r [of "opened D fs f"] by (simp add: opened_def)
qed

lemma table_sections:
  assumes "is_table D fs f sz"
  shows "ReadBlock (length (blocks_bytes D)) (length (enc_from [] (filter_recs D fs))) (opened D fs f) = Inr (enc_from [] (filter_recs D fs))"
    and "ReadBlock (length (blocks_bytes D) + length (enc_from [] (filter_recs D fs))) (length (enc_from [] (index_recs D))) (opened D fs f)
      = Inr (enc_from [] (index_recs D))"
    and "ReadBlock 0 (length (blocks_bytes D)) (opened D fs f) = Inr (blocks_bytes D)"
    and "(off, s, b) \<in> set (layout 0 D) \<Longrightarrow> ReadBlock off s (opened D fs f) = Inr (enc_from [] b)"
proof -
  obtain foot where f: "f = blocks_bytes D @ enc_from [] (filter_recs D fs) @ enc_from [] (index_recs D) @ foot"
    using assms by (auto simp: is_table_def)
  show "ReadBlock (length (blocks_bytes D)) (length (enc_from [] (filter_recs D fs))) (opened D fs f) = Inr (enc_from [] (filter_recs D fs))"
    "ReadBlock (length (blocks_bytes D) + length (enc_from [] (filter_recs D fs))) (length (enc_from [] (index_recs D))) (opened D fs f)
      = Inr (enc_from [] (index_recs D))"
    "ReadBlock 0 (length (blocks_bytes D)) (opened D fs f) = Inr (blocks_bytes D)"
    by (simp_all add: ReadBlock_def opened_def f io_def)
  show "ReadBlock off s (opened D fs f) = Inr (enc_from [] b)" if lay: "(off, s, b) \<in> set (layout 0 D)"
  proof -
    obtain pre post where p: "pre @ enc_from [] b @ post = blocks_bytes D" "off = length pre" "s = length (enc_from [] b)"
      using layout_bytes [OF lay] by auto
    have "f = pre @ enc_from [] b @ post @ enc_from [] (filter_recs D fs) @ enc_from [] (index_recs D) @ foot"
      unfolding f p(1) [symmetric] by simp
    then show ?thesis using p(2,3) by (simp add: ReadBlock_def opened_def io_def)
  qed
qed

lemma parse_filter_zip:
  assumes "distinct offs" and "\<And>off. off \<in> set offs \<Longrightarrow> off < 2 ^ 64" and "length fs = length offs"
  shows "parse_filter (zip (map put_uvarint offs) fs) = zip offs fs"
proof -
  have "fold (\<lambda>(k, v). gm_set (fst (Uvarint k)) v) (zip (map put_uvarint offs) fs) m = m @ zip offs fs"
    if "set offs \<inter> set (map fst m) = {}" for m
    using assms that
  proof (induction offs arbitrary: fs m)
    case (Cons off offs)
    obtain f gs where fs: "fs = f # gs" using Cons.prems(3) by (cases fs) auto
    have "gm_set off f m = m @ [(off, f)]" using Cons.prems(4) by (intro gm_set_new) auto
    moreover have "Uvarint (put_uvarint off) = (off, int (length (put_uvarint off)))" using Uvarint_put [of off "[]"] Cons.prems(2) by simp
    ultimately show ?case using Cons.IH [of gs "m @ [(off, f)]"] Cons.prems fs by (auto simp: disjoint_iff)
  qed simp
  then show ?thesis by (simp add: parse_filter_def)
qed

lemma parse_index_ix:
  assumes "\<And>e. e \<in> set ixs \<Longrightarrow> PrevBlockOffset e < 2 ^ 64 \<and> PrevBlockSize e < 2 ^ 64"
  shows "parse_index (map ix_rec ixs) = Some ixs"
  using assms
proof (induction ixs)
  case (Cons e ixs)
  have "Uvarint (put_uvarint (PrevBlockSize e)) = (PrevBlockSize e, int (length (put_uvarint (PrevBlockSize e))))"
    using Uvarint_put [of "PrevBlockSize e" "[]"] Cons.prems by simp
  then have "parse_index_entry (ix_rec e) = Some e" using Cons.prems by (simp add: parse_index_entry_def ix_rec_def)
  then show ?case using Cons by simp
qed simp

lemma ix_list_bounds:
  assumes "e \<in> set (ix_list k0 D)"
  shows "PrevBlockOffset e + PrevBlockSize e \<le> length (blocks_bytes D)"
  using assms layout_off [of _ _ _ 0 D] by (fastforce simp: ix_list_def ix_of_def)

text \<open>Opening a file gives what the writer kept in memory, and all pairs can be read back.\<close>

lemma table_opens:
  assumes t: "is_table D fs f sz" and ok: "table_ok m D fs" and sz: "sz < 2 ^ 64" and r: "r = NewSSTReader f \<or> r = opened D fs f"
  shows "ReadFilter r = Some (Inr (opened D fs f, zip (map fst (layout 0 D)) fs))"
    and "ReadIndex r = Some (Inr (opened D fs f, ix_list (first_key D) D))"
    and "ReadData r = Some (Inr (opened D fs f, concat D))"
    and "sizeOf r = Inr (opened D fs f, sz)"
proof -
  let ?o = "opened D fs f" and ?F = "enc_from [] (filter_recs D fs)" and ?I = "enc_from [] (index_recs D)"
  have foot: "(if c then ReadFooter r else Inr r) = Inr ?o" if "c \<or> r = ?o" for c
    using table_footer [OF t sz] r that by auto
  have l: "length ?F < 2 ^ 64" "length ?I < 2 ^ 64" "length (blocks_bytes D) < 2 ^ 64" and size: "sz = length (blocks_bytes D) + length ?F + length ?I"
    using t sz by (auto simp: is_table_def)
  have sec: "filterOffset ?o = length (blocks_bytes D)" "filterSize ?o = length ?F" "indexOffset ?o = length (blocks_bytes D) + length ?F"
    "indexSize ?o = length ?I" by (simp_all add: opened_def)
  have zero: "filterOffset (NewSSTReader f) = 0" "indexOffset (NewSSTReader f) = 0" by (simp_all add: NewSSTReader_def)
  have recs: "read_records [] (enc_from [] kvs) = Some (Inr kvs)" if "length (enc_from [] kvs) < 2 ^ 64" for kvs
    using read_records_enc [OF small_enc [OF that], of "[]" "[]" "[]"] by simp
  have D: "[] \<notin> set D" "length fs = length D" using ok by (auto simp: table_ok_def dest: list_all2_lengthD)
  have off: "off < 2 ^ 64" if o1: "off \<in> set (map fst (layout 0 D))" for off
  proof -
    obtain s b where "(off, s, b) \<in> set (layout 0 D)" using o1 by auto
    from layout_off [OF this] show ?thesis using l(3) by simp
  qed
  have pf: "parse_filter (filter_recs D fs) = zip (map fst (layout 0 D)) fs"
    using parse_filter_zip [OF layout_distinct [OF D(1)] off, of 0 fs] D(2) by (simp add: filter_recs_def comp_def)
  have pi: "parse_index (index_recs D) = Some (ix_list (first_key D) D)"
    unfolding index_recs_def using ix_list_bounds l(3) by (intro parse_index_ix) fastforce
  show "ReadFilter r = Some (Inr (?o, zip (map fst (layout 0 D)) fs))"
    unfolding ReadFilter_def using foot [of "filterOffset r = 0 \<or> filterSize r = 0"] r zero table_sections(1) [OF t] recs [OF l(1)] pf
    by (auto simp: sec io_def)
  show "ReadIndex r = Some (Inr (?o, ix_list (first_key D) D))"
    unfolding ReadIndex_def using foot [of "indexOffset r = 0 \<or> indexSize r = 0"] r zero table_sections(2) [OF t] recs [OF l(2)] pi
    by (auto simp: sec)
  show "ReadData r = Some (Inr (?o, concat D))"
    unfolding ReadData_def ReadBlockData_def
    using foot [of "indexOffset r = 0 \<or> indexSize r = 0 \<or> filterOffset r = 0 \<or> filterSize r = 0"] r zero table_sections(3) [OF t]
      read_records_blocks [OF small_blocks [OF l(3)], of "[]"]
    by (auto simp: sec io_def blocks_bytes_def [symmetric])
  show "sizeOf r = Inr (?o, sz)"
    unfolding sizeOf_def using foot [of "indexOffset r = 0"] r zero size by (auto simp: sec)
qed

section \<open>Looking up a key\<close>

lemma binarySearchIndex_first:
  assumes "lo \<le> hi" and "hi < length ix" and srt: "\<And>i j. i \<le> j \<Longrightarrow> j < length ix \<Longrightarrow> i_Key (ix ! i) \<le> i_Key (ix ! j)"
  shows "\<exists>j. binarySearchIndex key lo hi ix = Some (ix ! j, key \<le> i_Key (ix ! j)) \<and> lo \<le> j \<and> j \<le> hi \<and>
    (\<forall>i. lo \<le> i \<and> i < j \<longrightarrow> i_Key (ix ! i) < key) \<and> (j < hi \<longrightarrow> key \<le> i_Key (ix ! j))"
  using assms(1,2)
proof (induction "hi - lo" arbitrary: lo hi rule: less_induct)
  case less
  show ?case
  proof (cases "lo = hi")
    case True
    then show ?thesis using less.prems by (auto simp: binarySearchIndex.simps [of key hi hi] rd_def)
  next
    case False
    define mid where "mid = lo + (hi - lo) div 2"
    have mid: "lo \<le> mid" "mid < hi" using False less.prems(1) by (auto simp: mid_def)
    have b: "binarySearchIndex key lo hi ix =
        (if i_Key (ix ! mid) < key then binarySearchIndex key (mid + 1) hi ix else binarySearchIndex key lo mid ix)"
      using False less.prems mid by (subst binarySearchIndex.simps) (auto simp: rd_def Let_def mid_def [symmetric])
    show ?thesis
    proof (cases "i_Key (ix ! mid) < key")
      case True
      have "i_Key (ix ! i) < key" if "lo \<le> i" "i \<le> mid" for i
        using srt [of i mid] that mid less.prems True by (auto intro: le_less_trans)
      note low = this
      have m1: "hi - (mid + 1) < hi - lo" using mid by simp
      obtain j where j: "binarySearchIndex key (mid + 1) hi ix = Some (ix ! j, key \<le> i_Key (ix ! j))" "mid + 1 \<le> j" "j \<le> hi"
          "\<forall>i. mid + 1 \<le> i \<and> i < j \<longrightarrow> i_Key (ix ! i) < key" "j < hi \<longrightarrow> key \<le> i_Key (ix ! j)"
        using less.hyps [OF m1] mid less.prems by fastforce
      have "i_Key (ix ! i) < key" if "lo \<le> i" "i < j" for i using low [of i] j(4) that by (cases "i \<le> mid") auto
      then show ?thesis using j b True mid by (intro exI [of _ j]) auto
    next
      case False
      obtain j where j: "binarySearchIndex key lo mid ix = Some (ix ! j, key \<le> i_Key (ix ! j))" "lo \<le> j" "j \<le> mid"
          "\<forall>i. lo \<le> i \<and> i < j \<longrightarrow> i_Key (ix ! i) < key" "j < mid \<longrightarrow> key \<le> i_Key (ix ! j)"
        using less.hyps [of mid lo] mid less.prems by (auto simp: diff_less_mono)
      then have "key \<le> i_Key (ix ! j)" using False by (cases "j = mid") auto
      then show ?thesis using j b False mid by (intro exI [of _ j]) auto
    qed
  qed
qed

text \<open>The separator in front of the first block is below its first key unless that key ends in a zero byte.\<close>

lemma separator_below: "k \<noteq> [] \<Longrightarrow> last k \<noteq> 0 \<Longrightarrow> GetSeparatorBetween [] k < k"
proof (cases k rule: rev_cases)
  case (snoc ks b)
  moreover assume "last k \<noteq> 0"
  ultimately have "b - 1 < b" by (simp add: measure_unat word_less_nat_alt)
  then have "ks @ [b - 1] < ks @ [b]" by (induction ks) auto
  then show ?thesis using snoc by (simp add: GetSeparatorBetween_def)
qed simp

text \<open>Blocks whose keys ascend: what is in a block is above the last key of the blocks in front of it.\<close>

definition ascending :: "(bytes \<times> bytes) list \<Rightarrow> bool" where
  "ascending kvs \<longleftrightarrow> sorted_wrt (<) (map fst kvs)"

lemma ascending_block:
  assumes "ascending (concat D)" and "i < length D" and "k \<in> fst ` set (D ! i)" and "D ! i \<noteq> []"
  shows "fst (hd (D ! i)) \<le> k \<and> k \<le> fst (last (D ! i))"
proof -
  obtain pre post where "concat D = pre @ D ! i @ post"
    using assms(2) by (metis concat.simps(2) concat_append id_take_nth_drop)
  then have s: "sorted_wrt (<) (map fst (D ! i))" using assms(1) by (simp add: ascending_def sorted_wrt_append)
  obtain j where j: "j < length (D ! i)" "k = map fst (D ! i) ! j" using assms(3) by (auto simp: in_set_conv_nth)
  have l: "fst (last (D ! i)) = map fst (D ! i) ! (length (D ! i) - 1)" "fst (hd (D ! i)) = map fst (D ! i) ! 0"
    using assms(4) by (simp_all add: last_conv_nth hd_conv_nth)
  have le: "map fst (D ! i) ! a \<le> map fst (D ! i) ! b" if "a \<le> b" "b < length (D ! i)" for a b
    using sorted_wrt_nth_less [OF s, of a b] that by (cases "a = b") auto
  show ?thesis unfolding l j(2) using le [of 0 j] le [of j "length (D ! i) - 1"] j(1) by auto
qed

lemma ascending_blocks:
  assumes "ascending (concat D)" and "i < j" "j < length D" and "k \<in> fst ` set (D ! i)" "k' \<in> fst ` set (D ! j)"
  shows "k < k'"
proof -
  have "concat D = concat (take j D) @ concat (drop j D)" by (simp flip: concat_append)
  moreover have "D ! i \<in> set (take j D)" using assms(2,3) by (auto simp: in_set_conv_nth intro: exI [of _ i])
  moreover have "D ! j \<in> set (drop j D)" using assms(3) by (metis Cons_nth_drop_Suc list.set_intros(1))
  ultimately show ?thesis using assms(1,4,5) by (fastforce simp: ascending_def sorted_wrt_append)
qed

lemma map_of_absent: "map_of kvs k = None \<longleftrightarrow> k \<notin> fst ` set kvs"
  by (rule map_of_eq_None_iff)

lemma map_of_one_block:
  assumes "j < length D" and "\<And>i. i < length D \<Longrightarrow> i \<noteq> j \<Longrightarrow> k \<notin> fst ` set (D ! i)"
  shows "map_of (concat D) k = map_of (D ! j) k"
proof -
  have "concat D = concat (take j D) @ D ! j @ concat (drop (Suc j) D)"
    using assms(1) by (metis concat.simps(2) concat_append id_take_nth_drop)
  moreover have "k \<notin> fst ` set b" if b: "b \<in> set (take j D) \<union> set (drop (Suc j) D)" for b
  proof -
    obtain i where "i < length D" "i \<noteq> j" "b = D ! i"
      using b
    proof
      assume "b \<in> set (take j D)"
      then obtain n where "n < j" "n < length D" "b = D ! n" by (auto simp: in_set_conv_nth)
      then show ?thesis using that [of n] by simp
    next
      assume "b \<in> set (drop (Suc j) D)"
      then obtain n where "n < length (drop (Suc j) D)" "drop (Suc j) D ! n = b" by (auto simp only: in_set_conv_nth)
      then show ?thesis using that [of "Suc j + n"] by simp
    qed
    then show ?thesis using assms(2) by simp
  qed
  then have "map_of (concat (take j D)) k = None" "map_of (concat (drop (Suc j) D)) k = None"
    unfolding map_of_absent by auto
  ultimately show ?thesis by (simp add: map_add_def split: option.splits)
qed

lemma last_in_block: "b \<noteq> [] \<Longrightarrow> fst (last b) \<in> fst ` set b"
  by simp

lemma layout_nth: "j < length D \<Longrightarrow> \<exists>off s. layout 0 D ! j = (off, s, D ! j)"
proof -
  have "j < length D \<Longrightarrow> \<exists>off s. layout n D ! j = (off, s, D ! j)" for n
    by (induction D arbitrary: n j) (auto simp: nth_Cons')
  then show "j < length D \<Longrightarrow> \<exists>off s. layout 0 D ! j = (off, s, D ! j)" .
qed

lemma ix_nth: "j < length D \<Longrightarrow> i_Key (ix_list k0 D ! Suc j) = fst (last (D ! j))"
  using layout_nth [of j D] by (auto simp: ix_list_def ix_of_def)

lemma ix_sorted:
  assumes "ascending (concat D)" "[] \<notin> set D" "GetSeparatorBetween [] k0 < k0" "D \<noteq> []" "k0 = fst (hd (concat D))"
    and "i \<le> j" "j < length (ix_list k0 D)"
  shows "i_Key (ix_list k0 D ! i) \<le> i_Key (ix_list k0 D ! j)"
proof -
  have ne: "D ! n \<noteq> []" if "n < length D" for n using assms(2) that by (metis nth_mem)
  have last: "fst (last (D ! a)) \<le> fst (last (D ! b))" if "a \<le> b" "b < length D" for a b
    using ascending_blocks [OF assms(1), of a b "fst (last (D ! a))" "fst (last (D ! b))"] that ne last_in_block
    by (cases "a = b") fastforce+
  have k0: "k0 = fst (hd (D ! 0))" using assms(2,4,5) by (cases D) auto
  have z: "GetSeparatorBetween [] k0 \<le> fst (last (D ! 0))"
    using ascending_block [OF assms(1), of 0 k0] ne [of 0] assms(3,4) k0 by (auto intro: order.strict_implies_order less_le_trans)
  have zj: "GetSeparatorBetween [] k0 \<le> fst (last (D ! b))" if "b < length D" for b
    using z last [of 0 b] that by (auto intro: order_trans)
  have len: "length (ix_list k0 D) = Suc (length D)" by (simp add: ix_list_def)
  have i0: "i_Key (ix_list k0 D ! 0) = GetSeparatorBetween [] k0" by (simp add: ix_list_def)
  show ?thesis
  proof (cases i)
    case 0
    then show ?thesis using zj assms(7) len i0 ix_nth by (cases j) auto
  next
    case (Suc a)
    then obtain b where "j = Suc b" "a \<le> b" "b < length D" using assms(6,7) len by (cases j) auto
    then show ?thesis using Suc last ix_nth by simp
  qed
qed

text \<open>The entry in front of a key's block is below the key, and the block's own entry is not.\<close>

lemma ix_around:
  assumes "ascending (concat D)" "[] \<notin> set D" "GetSeparatorBetween [] (first_key D) < first_key D" "i < length D" "key \<in> fst ` set (D ! i)"
  shows "i_Key (ix_list (first_key D) D ! i) < key" and "key \<le> i_Key (ix_list (first_key D) D ! Suc i)"
proof -
  have ne: "D ! n \<noteq> []" if "n < length D" for n using assms(2) that by (metis nth_mem)
  have b: "fst (hd (D ! i)) \<le> key" "key \<le> fst (last (D ! i))" using ascending_block [OF assms(1,4,5)] ne assms(4) by auto
  then show "key \<le> i_Key (ix_list (first_key D) D ! Suc i)" using ix_nth assms(4) by simp
  show "i_Key (ix_list (first_key D) D ! i) < key"
  proof (cases i)
    case 0
    have "first_key D = fst (hd (D ! 0))" using assms(2,4) by (cases D) (auto simp: first_key_def)
    then show ?thesis using 0 assms(3) b(1) by (simp add: ix_list_def less_le_trans)
  next
    case (Suc a)
    then have "fst (last (D ! a)) < key"
      using assms(4,5) ne by (intro ascending_blocks [OF assms(1), of a i]) (auto simp: last_in_block)
    then show ?thesis using Suc assms(4) ix_nth by simp
  qed
qed

text \<open>The search names the one block that can hold the key, or the empty block in front of all.\<close>

lemma search_block:
  assumes asc: "ascending (concat D)" and nD: "[] \<notin> set D" and k0: "GetSeparatorBetween [] (first_key D) < first_key D" and D: "D \<noteq> []"
  obtains j where "binarySearchIndex key 0 (length D) (ix_list (first_key D) D) =
      Some (ix_list (first_key D) D ! j, key \<le> i_Key (ix_list (first_key D) D ! j))" "j \<le> length D"
    "\<And>i. i < length D \<Longrightarrow> key \<in> fst ` set (D ! i) \<Longrightarrow> j = Suc i \<and> key \<le> i_Key (ix_list (first_key D) D ! j)"
proof -
  let ?ix = "ix_list (first_key D) D"
  have len: "length ?ix = Suc (length D)" by (simp add: ix_list_def)
  have fk: "first_key D = fst (hd (concat D))" by (simp add: first_key_def)
  have "length D < length ?ix" using len by simp
  from binarySearchIndex_first [OF le0 this ix_sorted [OF asc nD k0 D fk]]
  obtain j where j: "binarySearchIndex key 0 (length D) ?ix = Some (?ix ! j, key \<le> i_Key (?ix ! j))" "j \<le> length D"
      "\<forall>i. 0 \<le> i \<and> i < j \<longrightarrow> i_Key (?ix ! i) < key" "j < length D \<longrightarrow> key \<le> i_Key (?ix ! j)"
    by blast
  have "j = Suc i \<and> key \<le> i_Key (?ix ! j)" if i: "i < length D" "key \<in> fst ` set (D ! i)" for i
  proof -
    note a = ix_around [OF asc nD k0 i]
    have "\<not> Suc i < j" using a(2) j(3) by (metis leD le0)
    moreover have "\<not> j \<le> i"
      using ix_sorted [OF asc nD k0 D fk, of j i] a(1) j(4) i(1) len by (auto dest: le_less_trans)
    ultimately have "j = Suc i" by simp
    then show ?thesis using a(2) by simp
  qed
  then show thesis using that j(1,2) by blast
qed

lemma node_Get_table:
  assumes t: "is_table D fs f sz" and ok: "table_ok m D fs" and sz: "sz < 2 ^ 64" and asc: "ascending (concat D)" and D: "D \<noteq> []"
    and k0: "GetSeparatorBetween [] (first_key D) < first_key D"
    and n: "n_index n = ix_list (first_key D) D" "n_filters n = zip (map fst (layout 0 D)) fs" "src (sstReader n) = f" and bf: "bf_m bf = m"
  shows "node_Get bf key n = Some (Inr (map_of (concat D) key))"
proof -
  let ?ix = "ix_list (first_key D) D"
  have nD: "[] \<notin> set D" "length fs = length D" using ok by (auto simp: table_ok_def dest: list_all2_lengthD)
  obtain j where j: "binarySearchIndex key 0 (length D) ?ix = Some (?ix ! j, key \<le> i_Key (?ix ! j))" "j \<le> length D"
    "\<And>i. i < length D \<Longrightarrow> key \<in> fst ` set (D ! i) \<Longrightarrow> j = Suc i \<and> key \<le> i_Key (?ix ! j)"
    using search_block [OF asc nD(1) k0 D] by blast
  define b where "b = (if j = 0 then 0 else j - 1)"
  have b: "b < length D" using j(2) D by (auto simp: b_def)
  obtain off s where lay: "layout 0 D ! b = (off, s, D ! b)" using layout_nth [OF b] by blast
  have e: "PrevBlockOffset (?ix ! j) = off"
  proof (cases j)
    case 0
    then show ?thesis using lay D by (cases D) (auto simp: ix_list_def b_def)
  next
    case (Suc i)
    then show ?thesis using lay b by (simp add: ix_list_def ix_of_def b_def)
  qed
  have fil: "gm_get (n_filters n) off = Some (fs ! b)"
    using map_of_zip_nth [of "map fst (layout 0 D)" fs b] layout_distinct [OF nD(1), of 0] nD(2) b lay n(2) by simp
  have good: "good_filter m (D ! b) (fs ! b)" using ok b by (auto simp: table_ok_def list_all2_conv_all_nth)
  obtain ex where ex: "bf_Exist (Some (fs ! b)) key bf = Some ex" using good bf by (fastforce simp: good_filter_def)
  have only: "map_of (concat D) key = (if j = 0 then None else map_of (D ! b) key)"
  proof (cases "j = 0")
    case True
    have "key \<notin> fst ` set d" if "d \<in> set D" for d using j(3) True that by (metis in_set_conv_nth nat.distinct(1))
    then have "key \<notin> fst ` set (concat D)" by auto
    then show ?thesis using True by (simp add: map_of_absent)
  next
    case False
    have "key \<notin> fst ` set (D ! i)" if "i < length D" "i \<noteq> b" for i using j(3) [OF that(1)] that(2) unfolding b_def by force
    then show ?thesis using map_of_one_block [OF b] False by simp
  qed
  have blk: "ReadBlock (PrevBlockOffset (?ix ! j)) (PrevBlockSize (?ix ! j)) (opened D fs f) = Inr (if j = 0 then [] else enc_from [] (D ! b))"
  proof (cases j)
    case 0
    then show ?thesis by (simp add: ix_list_def ReadBlock_def ReadFull_def io_def)
  next
    case (Suc i)
    have "(off, s, D ! b) \<in> set (layout 0 D)" using lay b by (metis layout_length nth_mem)
    then have "ReadBlock off s (opened D fs f) = Inr (enc_from [] (D ! b))" by (rule table_sections(4) [OF t])
    moreover have "PrevBlockSize (?ix ! j) = s" using Suc lay b by (simp add: ix_list_def ix_of_def b_def)
    ultimately show ?thesis using e Suc by simp
  qed
  have same: "ReadBlock x y (sstReader n) = ReadBlock x y (opened D fs f)" for x y using n(3) by (simp add: ReadBlock_def opened_def)
  have sm: "small (D ! b)"
    using small_blocks [of D] t sz b by (fastforce simp: is_table_def small_def)
  have rec: "ReadBlockData (if j = 0 then [] else enc_from [] (D ! b)) = Some (Inr (if j = 0 then [] else D ! b))"
    using read_records_enc [OF sm, of "[]" "[]" "[]"] by (simp add: ReadBlockData_def)
  have absent: "map_of (concat D) key = None" if "\<not> key \<le> i_Key (?ix ! j) \<or> \<not> ex"
  proof -
    have "ex" if "key \<in> fst ` set (D ! b)" using good bf ex that by (simp add: good_filter_def)
    then have "key \<notin> fst ` set (D ! b)" using that j(3) [OF b] by blast
    then show ?thesis using only by (simp add: map_of_absent)
  qed
  have "length ?ix - 1 = length D" by (simp add: ix_list_def)
  moreover have "?ix \<noteq> []" by (simp add: ix_list_def)
  ultimately show ?thesis
    unfolding node_Get_def n(1) same using j(1) e fil ex blk rec only absent by (auto simp: io_def)
qed

section \<open>Tables in the tree\<close>

text \<open>Writing the pairs of a memtable to a file with the given old content.\<close>

definition sst_build :: "nat \<Rightarrow> BloomFilter \<Rightarrow> bytes \<Rightarrow> (bytes \<times> bytes) list \<Rightarrow> (SSTWriter \<times> bytes \<times> nat) option" where
  "sst_build blockSize bf old kvs = do { w \<leftarrow> sst_AppendAll kvs (NewSSTWriter blockSize bf); Finish old w }"

definition table_holds :: "nat \<Rightarrow> bytes \<Rightarrow> nat \<Rightarrow> (nat, bytes) gomap \<Rightarrow> Index list \<Rightarrow> (bytes \<times> bytes) list \<Rightarrow> bool" where
  "table_holds m f sz b2f ix kvs \<longleftrightarrow> (\<exists>D fs. concat D = kvs \<and> D \<noteq> [] \<and> is_table D fs f sz \<and> table_ok m D fs \<and> sz < 2 ^ 64 \<and>
     ascending kvs \<and> GetSeparatorBetween [] (first_key D) < first_key D \<and>
     ix = ix_list (first_key D) D \<and> b2f = zip (map fst (layout 0 D)) fs)"

text \<open>The keys a table keeps: in order, none empty, the first one not ending in a zero byte.\<close>

definition flushable :: "(bytes \<times> bytes) list \<Rightarrow> bool" where
  "flushable kvs \<longleftrightarrow> kvs \<noteq> [] \<and> ascending kvs \<and> [] \<notin> fst ` set kvs \<and> last (fst (hd kvs)) \<noteq> 0"

lemma sst_build_holds:
  assumes m: "0 < m" "m < 2 ^ 32" and kvs: "flushable kvs" and b: "table_budget m kvs < 2 ^ 56"
  obtains w f sz where "sst_build bs \<lparr>bf_m = m, hashedKeys = []\<rparr> [] kvs = Some (w, f, sz)"
    "table_holds m f sz (blockToFilter w) (w_index w) kvs" "w_filter w = \<lparr>bf_m = m, hashedKeys = []\<rparr>"
proof -
  have ok: "bf_ok \<lparr>bf_m = m, hashedKeys = []\<rparr>" using m by (simp add: bf_ok_def)
  have ne: "[] \<notin> fst ` set (concat [] @ [] @ kvs)" "kvs \<noteq> []" using kvs by (auto simp: flushable_def)
  have t0: "table_ok m [] []" by (simp add: table_ok_def)
  obtain D C fs where w: "sst_AppendAll kvs (NewSSTWriter bs \<lparr>bf_m = m, hashedKeys = []\<rparr>) = Some (wstate bs m D C fs)" "table_ok m D fs"
    "concat D @ C = kvs"
    using AppendAll_wstate [OF ok t0 ne(1), of bs] unfolding NewSSTWriter_wstate by auto
  obtain D' fs' w f sz where f: "Finish [] (wstate bs m D C fs) = Some (w, f, sz)" "concat D' = kvs" "table_ok m D' fs'" "is_table D' fs' f sz"
    "sz < 2 ^ 56" "w_index w = ix_list (first_key D') D'" "blockToFilter w = zip (map fst (layout 0 D')) fs'" "w_filter w = \<lparr>bf_m = m, hashedKeys = []\<rparr>"
    using Finish_table [OF ok w(2), of C bs, unfolded w(3)] ne b by auto
  have "first_key D' = fst (hd kvs)" "D' \<noteq> []" using f(2) ne(2) by (auto simp: first_key_def)
  moreover have "fst (hd kvs) \<noteq> []" "last (fst (hd kvs)) \<noteq> 0" using kvs by (cases kvs; auto simp: flushable_def)+
  then have "GetSeparatorBetween [] (fst (hd kvs)) < fst (hd kvs)" by (rule separator_below)
  ultimately have "table_holds m f sz (blockToFilter w) (w_index w) kvs"
    using f kvs unfolding table_holds_def flushable_def by (intro exI [of _ D'] exI [of _ fs']) auto
  moreover have "sst_build bs \<lparr>bf_m = m, hashedKeys = []\<rparr> [] kvs = Some (w, f, sz)" using w(1) f(1) by (simp add: sst_build_def)
  ultimately show thesis using that f(8) by blast
qed

lemma table_reads:
  assumes "table_holds m f sz b2f ix kvs"
  shows "\<exists>rdr. read_table f = Some (Inr (rdr, sz, b2f, ix)) \<and> src rdr = f" and "ix \<noteq> []"
    and "n_index n = ix \<Longrightarrow> n_filters n = b2f \<Longrightarrow> src (sstReader n) = f \<Longrightarrow> bf_m bf = m \<Longrightarrow> node_Get bf key n = Some (Inr (map_of kvs key))"
proof -
  obtain D fs where t: "concat D = kvs" "D \<noteq> []" "is_table D fs f sz" "table_ok m D fs" "sz < 2 ^ 64" "ascending kvs"
    "GetSeparatorBetween [] (first_key D) < first_key D" "ix = ix_list (first_key D) D" "b2f = zip (map fst (layout 0 D)) fs"
    using assms by (auto simp: table_holds_def)
  note o = table_opens [OF t(3,4,5)]
  have "read_table f = Some (Inr (opened D fs f, sz, b2f, ix))"
    unfolding read_table_def using o(1) [of "NewSSTReader f"] o(2,4) [of "opened D fs f"] t(8,9) by simp
  then show "\<exists>rdr. read_table f = Some (Inr (rdr, sz, b2f, ix)) \<and> src rdr = f" by (simp add: opened_def)
  show "ix \<noteq> []" using t(8) by (simp add: ix_list_def)
  show "node_Get bf key n = Some (Inr (map_of kvs key))" if n: "n_index n = ix" "n_filters n = b2f" "src (sstReader n) = f" "bf_m bf = m"
    using node_Get_table [OF t(3,4,5) _ t(2,7), of n bf key] n t(1,6,8,9) by simp
qed

lemma table_GetAll:
  assumes "table_holds m f sz b2f ix kvs" and "sstReader n = NewSSTReader f \<or> read_table f = Some (Inr (sstReader n, x))"
  shows "GetAll n = Some (Inr kvs)"
proof -
  obtain D fs where t: "concat D = kvs" "is_table D fs f sz" "table_ok m D fs" "sz < 2 ^ 64" using assms by (auto simp: table_holds_def)
  note o = table_opens [OF t(2-4)]
  have "read_table f = Some (Inr (opened D fs f, sz, zip (map fst (layout 0 D)) fs, ix_list (first_key D) D))"
    unfolding read_table_def using o(1) [of "NewSSTReader f"] o(2,4) [of "opened D fs f"] by simp
  then have "sstReader n = NewSSTReader f \<or> sstReader n = opened D fs f" using assms(2) by auto
  then show ?thesis using o(3) t(1) by (auto simp: GetAll_def)
qed

text \<open>
  C14. A table can be found again: for pairs in ascending key order, none of the keys empty and the first not
  ending in a zero byte, writing them with any block size and closing the file succeeds; opening the file reads back the
  filters, the index and the size the writer reported; a lookup in the table returns exactly what the pairs hold for
  every key, present or absent; and all pairs can be read back in order.
\<close>

theorem sst_lookup:
  assumes "0 < m" "m < 2 ^ 32" and "flushable kvs" and "table_budget m kvs < 2 ^ 56"
  shows "\<exists>w f sz rdr n. sst_build bs \<lparr>bf_m = m, hashedKeys = []\<rparr> [] kvs = Some (w, f, sz) \<and>
    read_table f = Some (Inr (rdr, sz, blockToFilter w, w_index w)) \<and> NewNode name rdr sz (blockToFilter w) (w_index w) = Some n \<and>
    (\<forall>key. node_Get \<lparr>bf_m = m, hashedKeys = hs\<rparr> key n = Some (Inr (map_of kvs key))) \<and> GetAll n = Some (Inr kvs)"
proof -
  obtain w f sz where w: "sst_build bs \<lparr>bf_m = m, hashedKeys = []\<rparr> [] kvs = Some (w, f, sz)"
    "table_holds m f sz (blockToFilter w) (w_index w) kvs"
    using sst_build_holds [OF assms] by metis
  obtain rdr where r: "read_table f = Some (Inr (rdr, sz, blockToFilter w, w_index w))" "src rdr = f" using table_reads(1) [OF w(2)] by blast
  obtain n where n: "NewNode name rdr sz (blockToFilter w) (w_index w) = Some n"
    "n_index n = w_index w" "n_filters n = blockToFilter w" "sstReader n = rdr"
    using table_reads(2) [OF w(2)] by (simp add: NewNode_def)
  have "node_Get \<lparr>bf_m = m, hashedKeys = hs\<rparr> key n = Some (Inr (map_of kvs key))" for key
    using table_reads(3) [OF w(2) n(2,3)] n(4) r(2) by simp
  moreover have "GetAll n = Some (Inr kvs)" using table_GetAll [OF w(2)] r(1) n(4) by blast
  ultimately show ?thesis using w(1) r(1) n(1) by blast
qed

theorem sst_lookup_witness:
  "\<exists>w f sz rdr n. sst_build 16 \<lparr>bf_m = 64, hashedKeys = []\<rparr> [] [([1], [10]), ([1, 2], [20]), ([3], [])] = Some (w, f, sz) \<and>
     read_table f = Some (Inr (rdr, sz, blockToFilter w, w_index w)) \<and> NewNode (0, 1) rdr sz (blockToFilter w) (w_index w) = Some n \<and>
     (\<forall>key. node_Get \<lparr>bf_m = 64, hashedKeys = []\<rparr> key n = Some (Inr (map_of [([1], [10]), ([1, 2], [20]), ([3], [])] key))) \<and>
     GetAll n = Some (Inr [([1], [10]), ([1, 2], [20]), ([3], [])])"
  by (rule sst_lookup) (simp_all add: flushable_def ascending_def table_budget_def)

text \<open>
  A first key that ends in a zero byte is lost: the separator in front of it wraps around to \<open>0xFF\<close>
  instead of being smaller, so the lookup picks the empty block in front of the table. The empty key is lost as well.
\<close>

theorem zero_byte_key_lost:
  "(case sst_build 1 \<lparr>bf_m = 8, hashedKeys = []\<rparr> [] [([7, 0], [42])] of None \<Rightarrow> False | Some (w, f, sz) \<Rightarrow>
     (case NewNode (0, 1) (NewSSTReader f) sz (blockToFilter w) (w_index w) of None \<Rightarrow> False | Some n \<Rightarrow>
        GetAll n = Some (Inr [([7, 0], [42])]) \<and> node_Get \<lparr>bf_m = 8, hashedKeys = []\<rparr> [7, 0] n = Some (Inr None))) \<and>
   (case sst_build 1 \<lparr>bf_m = 8, hashedKeys = []\<rparr> [] [([], [42])] of None \<Rightarrow> False | Some (w, f, sz) \<Rightarrow>
     (case NewNode (0, 1) (NewSSTReader f) sz (blockToFilter w) (w_index w) of None \<Rightarrow> False | Some n \<Rightarrow>
        GetAll n = Some (Inr [([], [42])]) \<and> node_Get \<lparr>bf_m = 8, hashedKeys = []\<rparr> [] n = Some (Inr None)))"
  by code_simp

end
