(* ===== verification/Skip_List.thy ===== *)
theory Skip_List
  imports Prelude
begin

text \<open>
  Skip lists as the repository writes them twice, in the memtable of the LSM tree and in the local hash ring: nodes with several
  forward pointers in an arena, pointers as arena indices, the head sentinel as node 0.

  A walk along a level follows pointers; it is given as much fuel as there are nodes. The keys increase
  strictly along a level, so this is enough: the lemmas show that no operation on a well-formed list returns \<open>None\<close>.
\<close>

section \<open>Nodes and pointers\<close>

record ('k, 'v) skipNode =
  nexts :: "nat option list"
  sk_key :: 'k
  sk_value :: 'v

fun walk_right :: "nat \<Rightarrow> nat \<Rightarrow> 'k :: linorder \<Rightarrow> ('k, 'v) skipNode list \<Rightarrow> nat \<Rightarrow> nat option" where
  "walk_right 0 level key ns move = None"
| "walk_right (Suc f) level key ns move = do {
     n \<leftarrow> rd ns move;
     nx \<leftarrow> rd (nexts n) level;
     (case nx of
        None \<Rightarrow> Some move
      | Some b \<Rightarrow> do {
          nb \<leftarrow> rd ns b;
          (if sk_key nb < key then walk_right f level key ns b else Some move) }) }"

fun search_down :: "nat \<Rightarrow> 'k :: linorder \<Rightarrow> ('k, 'v) skipNode list \<Rightarrow> nat \<Rightarrow> nat option option" where
  "search_down 0 key ns move = Some None"
| "search_down (Suc level) key ns move = do {
     move \<leftarrow> walk_right (length ns) level key ns move;
     n \<leftarrow> rd ns move;
     nx \<leftarrow> rd (nexts n) level;
     (case nx of
        None \<Rightarrow> search_down level key ns move
      | Some b \<Rightarrow> do {
          nb \<leftarrow> rd ns b;
          (if sk_key nb = key then Some (Some b) else search_down level key ns move) }) }"

definition find_node :: "'k :: linorder \<Rightarrow> ('k, 'v) skipNode list \<Rightarrow> nat option option" where
  "find_node key ns = do {
     h \<leftarrow> rd ns 0;
     search_down (length (nexts h)) key ns 0 }"

text \<open>The insertion of node \<open>a\<close> at one level after node \<open>m\<close>.\<close>

definition splice :: "nat \<Rightarrow> nat \<Rightarrow> nat \<Rightarrow> ('k, 'v) skipNode list \<Rightarrow> ('k, 'v) skipNode list option" where
  "splice level a m ns = do {
     nm \<leftarrow> rd ns m;
     nx \<leftarrow> rd (nexts nm) level;
     na \<leftarrow> rd ns a;
     xs \<leftarrow> wr (nexts na) level nx;
     ns \<leftarrow> wr ns a (na\<lparr>nexts := xs\<rparr>);
     nm \<leftarrow> rd ns m;
     ys \<leftarrow> wr (nexts nm) level (Some a);
     wr ns m (nm\<lparr>nexts := ys\<rparr>) }"

fun splice_down :: "nat \<Rightarrow> 'k :: linorder \<Rightarrow> nat \<Rightarrow> ('k, 'v) skipNode list \<Rightarrow> nat \<Rightarrow> ('k, 'v) skipNode list option" where
  "splice_down 0 key a ns move = Some ns"
| "splice_down (Suc level) key a ns move = do {
     move \<leftarrow> walk_right (length ns) level key ns move;
     ns \<leftarrow> splice level a move ns;
     splice_down level key a ns move }"

text \<open>The head gets new levels up to \<open>height\<close>, and \<open>extra\<close> more.\<close>

definition grow_head :: "nat \<Rightarrow> nat \<Rightarrow> ('k, 'v) skipNode list \<Rightarrow> ('k, 'v) skipNode list option" where
  "grow_head extra height ns = do {
     h \<leftarrow> rd ns 0;
     (if length (nexts h) < height
      then wr ns 0 (h\<lparr>nexts := nexts h @ replicate (height + extra - length (nexts h)) None\<rparr>)
      else Some ns) }"

section \<open>Levels as lists\<close>

definition key_at :: "('k, 'v) skipNode list \<Rightarrow> nat \<Rightarrow> 'k" where
  "key_at ns a = sk_key (ns ! a)"

definition height :: "('k, 'v) skipNode list \<Rightarrow> nat \<Rightarrow> nat" where
  "height ns a = length (nexts (ns ! a))"

text \<open>\<open>chain ns l m xs\<close>: the pointers of level \<open>l\<close> lead from \<open>m\<close> through \<open>xs\<close> to nil.\<close>

fun chain :: "('k, 'v) skipNode list \<Rightarrow> nat \<Rightarrow> nat \<Rightarrow> nat list \<Rightarrow> bool" where
  "chain ns l m [] \<longleftrightarrow> m < length ns \<and> l < height ns m \<and> nexts (ns ! m) ! l = None"
| "chain ns l m (b # bs) \<longleftrightarrow> m < length ns \<and> l < height ns m \<and> nexts (ns ! m) ! l = Some b \<and> chain ns l b bs"

lemma chain_head: "chain ns l m xs \<Longrightarrow> m < length ns \<and> l < height ns m"
  by (cases xs) auto

lemma chain_in: "chain ns l m xs \<Longrightarrow> a \<in> set xs \<Longrightarrow> a < length ns \<and> l < height ns a"
  by (induction xs arbitrary: m) (auto dest: chain_head)

lemma chain_append: "chain ns l m (xs @ ys) \<longleftrightarrow> (\<exists>p. p = (if xs = [] then m else last xs) \<and> chain ns l p ys \<and>
    (\<forall>i<length xs. (m # xs) ! i < length ns \<and> l < height ns ((m # xs) ! i) \<and> nexts (ns ! ((m # xs) ! i)) ! l = Some (xs ! i)))"
  by (induction xs arbitrary: m) (auto simp: nth_Cons less_Suc_eq_0_disj split: nat.splits)

text \<open>A walk ends at the last node with a smaller key.\<close>

lemma walk_right_chain:
  assumes "chain ns l m (xs @ ys)" and "\<forall>a\<in>set xs. key_at ns a < key" and "ys = [] \<or> \<not> key_at ns (hd ys) < key" and "length xs < f"
  shows "walk_right f l key ns m = Some (last (m # xs)) \<and> chain ns l (last (m # xs)) ys"
  using assms
proof (induction xs arbitrary: m f)
  case Nil
  then obtain g where f: "f = Suc g" by (cases f) auto
  show ?case using Nil f by (cases ys) (auto simp: rd_def height_def key_at_def dest: chain_head)
next
  case (Cons b xs)
  then obtain g where f: "f = Suc g" by (cases f) auto
  have c: "chain ns l b (xs @ ys)" and "b < length ns" using Cons.prems(1) by (auto dest: chain_head)
  then show ?case using Cons.IH [OF c, of g] Cons.prems f by (auto simp: rd_def height_def key_at_def)
qed

text \<open>\<open>sk_rep ns B\<close>: \<open>B\<close> is the bottom level in key order, and the level \<open>l\<close> holds the nodes higher than \<open>l\<close>.\<close>

definition sk_level :: "('k, 'v) skipNode list \<Rightarrow> nat \<Rightarrow> nat list \<Rightarrow> nat list" where
  "sk_level ns l B = filter (\<lambda>a. l < height ns a) B"

definition sk_static :: "('k :: linorder, 'v) skipNode list \<Rightarrow> nat list \<Rightarrow> bool" where
  "sk_static ns B \<longleftrightarrow> ns \<noteq> [] \<and> 0 \<notin> set B \<and> sorted_wrt (\<lambda>a b. key_at ns a < key_at ns b) B \<and>
     (\<forall>a\<in>set B. a < length ns \<and> 0 < height ns a \<and> height ns a \<le> height ns 0)"

definition sk_rep :: "('k :: linorder, 'v) skipNode list \<Rightarrow> nat list \<Rightarrow> bool" where
  "sk_rep ns B \<longleftrightarrow> sk_static ns B \<and> (\<forall>l<height ns 0. chain ns l 0 (sk_level ns l B))"

section \<open>Searching\<close>

definition below :: "('k, 'v) skipNode list \<Rightarrow> 'k :: linorder \<Rightarrow> nat list \<Rightarrow> nat list" where
  "below ns key B = filter (\<lambda>a. key_at ns a < key) B"

definition above :: "('k, 'v) skipNode list \<Rightarrow> 'k :: linorder \<Rightarrow> nat list \<Rightarrow> nat list" where
  "above ns key B = filter (\<lambda>a. \<not> key_at ns a < key) B"

definition pred_at :: "('k, 'v) skipNode list \<Rightarrow> 'k :: linorder \<Rightarrow> nat list \<Rightarrow> nat \<Rightarrow> nat" where
  "pred_at ns key B l = last (0 # sk_level ns l (below ns key B))"

lemma sorted_split:
  assumes "sorted_wrt (\<lambda>a b. f a < f b) B"
  shows "filter (\<lambda>a. f a < (key :: 'k :: linorder)) B @ filter (\<lambda>a. \<not> f a < key) B = B"
  using assms
proof (induction B)
  case (Cons b B)
  then show ?case
  proof (cases "f b < key")
    case False
    then have "\<forall>a\<in>set B. \<not> f a < key" using Cons.prems by auto
    then have "filter (\<lambda>a. f a < key) B = []" "filter (\<lambda>a. \<not> f a < key) B = B" by (simp_all add: filter_empty_conv)
    then show ?thesis using False by simp
  qed simp
qed simp

lemma below_above: "sk_static ns B \<Longrightarrow> below ns key B @ above ns key B = B"
  unfolding below_def above_def by (rule sorted_split) (simp add: sk_static_def)

lemma sorted_distinct: "sorted_wrt (\<lambda>a b. f a < (f b :: 'k :: linorder)) B \<Longrightarrow> distinct B"
  by (induction B) auto

lemma rep_distinct: "sk_static ns B \<Longrightarrow> distinct B"
  by (auto simp: sk_static_def intro: sorted_distinct)

lemma rep_length:
  assumes "sk_static ns B" shows "length B < length ns"
proof -
  have "a \<in> {1..<length ns}" if "a \<in> set B" for a using assms that by (cases a) (auto simp: sk_static_def)
  then have "set B \<subseteq> {1..<length ns}" by blast
  then have "card (set B) \<le> length ns - 1" using card_mono [of "{1..<length ns}"] by simp
  then show ?thesis using rep_distinct [OF assms] assms by (cases ns) (auto simp: distinct_card sk_static_def)
qed

lemma level_split: "sk_static ns B \<Longrightarrow> sk_level ns l B = sk_level ns l (below ns key B) @ sk_level ns l (above ns key B)"
  by (metis below_above filter_append sk_level_def)

lemma chain_suffix: "chain ns l m (us @ a # vs) \<Longrightarrow> chain ns l a vs"
  by (induction us arbitrary: m) auto

lemma pred_at_cases:
  "pred_at ns key B l = 0 \<or> pred_at ns key B l \<in> set (below ns key B) \<and> l < height ns (pred_at ns key B l)"
proof (cases "sk_level ns l (below ns key B) = []")
  case False
  then have "pred_at ns key B l \<in> set (sk_level ns l (below ns key B))" by (simp add: pred_at_def)
  then show ?thesis by (simp add: sk_level_def)
qed (simp add: pred_at_def)

lemma walk_to_pred:
  assumes rep: "sk_static ns B" and c: "chain ns l 0 (sk_level ns l B)" and m: "m = 0 \<or> m \<in> set (below ns key B) \<and> l < height ns m"
  shows "walk_right (length ns) l key ns m = Some (pred_at ns key B l) \<and> chain ns l (pred_at ns key B l) (sk_level ns l (above ns key B))"
proof -
  let ?lo = "sk_level ns l (below ns key B)" and ?hi = "sk_level ns l (above ns key B)"
  have c: "chain ns l 0 (?lo @ ?hi)" using c level_split [OF rep] by simp
  have lo: "\<forall>a\<in>set ?lo. key_at ns a < key" by (simp add: sk_level_def below_def)
  have hi: "?hi = [] \<or> \<not> key_at ns (hd ?hi) < key"
    using list.set_sel(1) [of ?hi] by (auto simp: sk_level_def above_def)
  have len: "length ?lo < length ns"
    using rep_length [OF rep] length_filter_le [of _ "below ns key B"] length_filter_le [of _ B]
    unfolding sk_level_def below_def by (meson le_less_trans)
  show ?thesis
  proof (cases "m = 0")
    case True
    then show ?thesis using walk_right_chain [OF c lo hi len] by (simp add: pred_at_def)
  next
    case False
    with m have "m \<in> set ?lo" by (simp add: sk_level_def)
    then obtain us vs where lo_eq: "?lo = us @ m # vs" by (meson split_list)
    have "chain ns l m (vs @ ?hi)" using c lo_eq chain_suffix by fastforce
    moreover have "\<forall>a\<in>set vs. key_at ns a < key" "length vs < length ns" using lo len lo_eq by auto
    ultimately show ?thesis using walk_right_chain [OF _ _ hi] lo_eq by (simp add: pred_at_def)
  qed
qed

lemma above_hd: "sk_static ns B \<Longrightarrow> c \<in> set (above ns key B) \<Longrightarrow> key_at ns c = key \<Longrightarrow> c = hd (above ns key B)"
proof -
  assume rep: "sk_static ns B" and c: "c \<in> set (above ns key B)" "key_at ns c = key"
  have "sorted_wrt (\<lambda>a b. key_at ns a < key_at ns b) (above ns key B)"
    using rep by (simp add: sk_static_def above_def sorted_wrt_filter)
  moreover have "\<forall>a\<in>set (above ns key B). \<not> key_at ns a < key" by (simp add: above_def)
  ultimately show ?thesis using c by (cases "above ns key B") auto
qed

lemma search_down_rep:
  assumes r: "sk_rep ns B" and "0 < n" and "n \<le> height ns 0" and "m = 0 \<or> m \<in> set (below ns key B) \<and> n \<le> height ns m"
  shows "search_down n key ns m = Some (if above ns key B \<noteq> [] \<and> key_at ns (hd (above ns key B)) = key then Some (hd (above ns key B)) else None)"
  using assms(2-)
proof (induction n arbitrary: m)
  case (Suc l)
  let ?p = "pred_at ns key B l" and ?hi = "above ns key B"
  have rep: "sk_static ns B" and ch: "chain ns l 0 (sk_level ns l B)" using r Suc.prems by (auto simp: sk_rep_def)
  have w: "walk_right (length ns) l key ns m = Some ?p" and c: "chain ns l ?p (sk_level ns l ?hi)"
    using walk_to_pred [OF rep ch, of m key] Suc.prems by auto
  have p: "?p = 0 \<or> ?p \<in> set (below ns key B) \<and> l \<le> height ns ?p" using pred_at_cases [of ns key B l] by auto
  have h: "sk_level ns 0 ?hi = ?hi" using rep unfolding sk_level_def by (intro filter_True) (simp add: above_def sk_static_def)
  have go: "search_down l key ns ?p = Some (if ?hi \<noteq> [] \<and> key_at ns (hd ?hi) = key then Some (hd ?hi) else None)" if "0 < l"
    using Suc.IH [OF that _ p] Suc.prems by simp
  show ?case
  proof (cases "sk_level ns l ?hi")
    case Nil
    then show ?thesis using w c go h by (cases l) (auto simp: rd_def height_def)
  next
    case (Cons b bs)
    then have "b \<in> set (sk_level ns l ?hi)" by simp
    then have b: "b \<in> set ?hi" by (simp add: sk_level_def)
    have bl: "b < length ns" using c Cons by (auto dest: chain_head)
    show ?thesis
    proof (cases "key_at ns b = key")
      case True
      then have "b = hd ?hi" using above_hd [OF rep b] by simp
      then show ?thesis using True w c Cons b bl by (auto simp: rd_def height_def key_at_def)
    next
      case False
      then show ?thesis using w c Cons go h b bl by (cases l) (auto simp: rd_def height_def key_at_def)
    qed
  qed
qed simp

lemma find_hd:
  assumes "\<And>c. c \<in> set xs \<Longrightarrow> P c \<Longrightarrow> c = hd xs"
  shows "List.find P xs = (if xs \<noteq> [] \<and> P (hd xs) then Some (hd xs) else None)"
proof (cases xs)
  case (Cons x ys)
  have "\<not> P c" if "c \<in> set ys" "\<not> P x" for c using assms [of c] that Cons by auto
  then show ?thesis using Cons by (auto simp: find_None_iff)
qed simp

lemma find_node_rep:
  assumes r: "sk_rep ns B"
  shows "find_node key ns = Some (List.find (\<lambda>a. key_at ns a = key) B)"
proof -
  have rep: "sk_static ns B" using r by (simp add: sk_rep_def)
  have ne: "ns \<noteq> []" using rep by (simp add: sk_static_def)
  have f: "List.find (\<lambda>a. key_at ns a = key) B =
      (if above ns key B \<noteq> [] \<and> key_at ns (hd (above ns key B)) = key then Some (hd (above ns key B)) else None)"
  proof -
    have "List.find (\<lambda>a. key_at ns a = key) (below ns key B @ above ns key B) = List.find (\<lambda>a. key_at ns a = key) (above ns key B)"
    proof -
      have "\<forall>a\<in>set (below ns key B). key_at ns a \<noteq> key" by (auto simp: below_def)
      then have "List.find (\<lambda>a. key_at ns a = key) (xs @ ys) = List.find (\<lambda>a. key_at ns a = key) ys" if "set xs \<subseteq> set (below ns key B)" for xs ys
        using that by (induction xs) auto
      then show ?thesis by blast
    qed
    then show ?thesis unfolding below_above [OF rep]
      using find_hd [of "above ns key B", OF above_hd [OF rep]] by simp
  qed
  show ?thesis
  proof (cases "height ns 0")
    case 0
    then have "B = []" using rep by (cases B) (auto simp: sk_static_def)
    then show ?thesis using 0 ne by (simp add: find_node_def rd_def height_def)
  next
    case (Suc n)
    then show ?thesis using search_down_rep [OF r, of "height ns 0" 0 key] ne f by (simp add: find_node_def rd_def height_def)
  qed
qed

section \<open>Insertion\<close>

text \<open>Two arenas that differ in pointers only.\<close>

definition same_shape :: "('k, 'v) skipNode list \<Rightarrow> ('k, 'v) skipNode list \<Rightarrow> bool" where
  "same_shape ns ns' \<longleftrightarrow> length ns' = length ns \<and>
     (\<forall>b<length ns. sk_key (ns' ! b) = sk_key (ns ! b) \<and> sk_value (ns' ! b) = sk_value (ns ! b) \<and> height ns' b = height ns b)"

lemma same_shape_refl [simp]: "same_shape ns ns"
  by (simp add: same_shape_def)

lemma same_shape_trans: "same_shape a b \<Longrightarrow> same_shape b c \<Longrightarrow> same_shape a c"
  by (auto simp: same_shape_def)

lemma splice_ok:
  assumes "m < length ns" and "a < length ns" and "m \<noteq> a" and "l < height ns m" and "l < height ns a"
  obtains ns' where "splice l a m ns = Some ns'" and "same_shape ns ns'"
    and "\<And>b k. b < length ns \<Longrightarrow> nexts (ns' ! b) ! k =
      (if k = l \<and> b = m then Some a else if k = l \<and> b = a then nexts (ns ! m) ! l else nexts (ns ! b) ! k)"
proof -
  let ?na = "(ns ! a)\<lparr>nexts := (nexts (ns ! a))[l := nexts (ns ! m) ! l]\<rparr>"
  let ?nm = "(ns ! m)\<lparr>nexts := (nexts (ns ! m))[l := Some a]\<rparr>"
  have s: "splice l a m ns = Some (ns[a := ?na, m := ?nm])"
    using assms by (simp add: splice_def rd_def wr_def height_def)
  have "same_shape ns (ns[a := ?na, m := ?nm])"
    using assms by (auto simp: same_shape_def height_def nth_list_update)
  moreover have "nexts (ns[a := ?na, m := ?nm] ! b) ! k =
      (if k = l \<and> b = m then Some a else if k = l \<and> b = a then nexts (ns ! m) ! l else nexts (ns ! b) ! k)"
    if "b < length ns" for b k
    using assms that by (auto simp: nth_list_update height_def)
  ultimately show thesis using s that by blast
qed

lemma chain_frame:
  assumes "same_shape ns ns'" and "chain ns l m xs" and "\<And>b. b \<in> insert m (set xs) \<Longrightarrow> b < length ns \<Longrightarrow> nexts (ns' ! b) ! l = nexts (ns ! b) ! l"
  shows "chain ns' l m xs"
  using assms(2,3) by (induction xs arbitrary: m) (use assms(1) in \<open>auto simp: same_shape_def\<close>)

lemma chain_insert:
  assumes "same_shape ns ns'" and "chain ns l m (lo @ hi)" and "a \<notin> insert m (set lo)" and "p = last (m # lo)" and "p \<notin> set hi" and "a \<notin> set hi"
    and "distinct (m # lo)" and "a < length ns" and "l < height ns a"
    and "\<And>b. b < length ns \<Longrightarrow> nexts (ns' ! b) ! l = (if b = p then Some a else if b = a then nexts (ns ! p) ! l else nexts (ns ! b) ! l)"
  shows "chain ns' l m (lo @ a # hi)"
  using assms(2-)
proof (induction lo arbitrary: m)
  case Nil
  have "chain ns' l a hi"
  proof (cases hi)
    case Nil
    with Nil.prems assms(1) show ?thesis by (auto simp: same_shape_def)
  next
    case (Cons c cs)
    then have "chain ns' l c cs" using Nil.prems by (intro chain_frame [OF assms(1)]) auto
    with Cons Nil.prems assms(1) show ?thesis by (auto simp: same_shape_def)
  qed
  then show ?case using Nil assms(1) by (auto simp: same_shape_def dest: chain_head)
next
  case (Cons b lo)
  then show ?case using assms(1) by (auto simp: same_shape_def split: if_splits)
qed

lemma same_shape_static:
  assumes st: "sk_static ns0 B" and sh: "same_shape ns0 ns"
  shows "sk_static ns B" and "set B' \<subseteq> set B \<Longrightarrow> sk_level ns k B' = sk_level ns0 k B'"
    and "below ns key B = below ns0 key B" and "above ns key B = above ns0 key B" and "pred_at ns key B k = pred_at ns0 key B k"
proof -
  have eq: "key_at ns b = key_at ns0 b" "height ns b = height ns0 b" if "b < length ns0" for b
    using sh that by (auto simp: same_shape_def key_at_def)
  have len: "length ns = length ns0" and B: "\<forall>b\<in>set B. b < length ns0" "0 < length ns0"
    using sh st by (auto simp: same_shape_def sk_static_def)
  show "sk_static ns B" using st eq B len by (auto simp: sk_static_def sorted_wrt_iff_nth_less)
  show l: "sk_level ns k B' = sk_level ns0 k B'" if "set B' \<subseteq> set B" for B' k
    using that eq B by (auto simp: sk_level_def intro!: filter_cong)
  show bl: "below ns key B = below ns0 key B" "above ns key B = above ns0 key B"
    using eq B by (auto simp: below_def above_def intro!: filter_cong)
  show "pred_at ns key B k = pred_at ns0 key B k" unfolding pred_at_def bl by (subst l) (auto simp: below_def)
qed

text \<open>The insertion, level by level: below level \<open>n\<close> nothing has changed yet.\<close>

lemma splice_down_ok:
  assumes st: "sk_static ns0 B" and sh: "same_shape ns0 ns" and new: "a \<notin> insert 0 (set B)" "a < length ns0" "n \<le> height ns0 a" "n \<le> height ns0 0"
    and m: "m = 0 \<or> m \<in> set (below ns0 key B) \<and> n \<le> height ns0 m"
    and old: "\<And>l. l < n \<Longrightarrow> chain ns l 0 (sk_level ns0 l B)"
  shows "\<exists>ns'. splice_down n key a ns m = Some ns' \<and> same_shape ns0 ns' \<and>
    (\<forall>l<n. chain ns' l 0 (sk_level ns0 l (below ns0 key B) @ a # sk_level ns0 l (above ns0 key B))) \<and>
    (\<forall>l\<ge>n. \<forall>b<length ns0. nexts (ns' ! b) ! l = nexts (ns ! b) ! l)"
  using sh new(3,4) m old
proof (induction n arbitrary: ns m)
  case (Suc l)
  let ?p = "pred_at ns0 key B l" and ?lo = "sk_level ns0 l (below ns0 key B)" and ?hi = "sk_level ns0 l (above ns0 key B)"
  note shape = same_shape_static [OF st Suc.prems(1)]
  have len: "length ns = length ns0" "0 < length ns0" and eq: "\<And>b. b < length ns0 \<Longrightarrow> height ns b = height ns0 b"
    and B: "\<forall>b\<in>set B. b < length ns0"
    using Suc.prems(1) st by (auto simp: same_shape_def sk_static_def)
  have sub: "set (below ns0 key B) \<subseteq> set B" "set (above ns0 key B) \<subseteq> set B" by (auto simp: below_def above_def)
  have w: "walk_right (length ns) l key ns m = Some ?p" and c: "chain ns l ?p ?hi"
    using walk_to_pred [OF shape(1), of l m key] Suc.prems(4,5) shape sub eq B by auto
  have pc: "?p = 0 \<or> ?p \<in> set (below ns0 key B) \<and> l < height ns0 ?p" by (rule pred_at_cases)
  then have pl: "?p < length ns" "l < height ns ?p" "?p \<noteq> a"
    using B len eq Suc.prems(3) new(1) sub by auto
  obtain ns1 where s: "splice l a ?p ns = Some ns1" and sh1: "same_shape ns ns1"
    and ptr: "\<And>b k. b < length ns \<Longrightarrow> nexts (ns1 ! b) ! k =
      (if k = l \<and> b = ?p then Some a else if k = l \<and> b = a then nexts (ns ! ?p) ! l else nexts (ns ! b) ! k)"
    using pl new(2) len eq Suc.prems(2) by (auto intro: splice_ok [of ?p ns a l])
  have d: "distinct B" "0 \<notin> set B" using st rep_distinct by (auto simp: sk_static_def)
  have B_eq: "below ns0 key B @ above ns0 key B = B" by (rule below_above [OF st])
  have "distinct (below ns0 key B @ above ns0 key B)" using d by (simp add: B_eq)
  then have dis: "distinct (0 # ?lo)" "?p \<notin> set ?hi" "a \<notin> insert 0 (set ?lo)" "a \<notin> set ?hi"
    using d sub pc new(1) by (auto simp: sk_level_def)
  have ch: "chain ns l 0 (?lo @ ?hi)" using Suc.prems(5) [of l] level_split [OF st, of l key] by simp
  have c1: "chain ns1 l 0 (?lo @ a # ?hi)"
    by (rule chain_insert [OF sh1 ch dis(3) _ dis(2,4,1)])
      (use ptr len eq new(2) Suc.prems(2) in \<open>auto simp: pred_at_def\<close>)
  have sh01: "same_shape ns0 ns1" using Suc.prems(1) sh1 by (rule same_shape_trans)
  have old1: "chain ns1 k 0 (sk_level ns0 k B)" if "k < l" for k
    using Suc.prems(5) [of k] that ptr by (intro chain_frame [OF sh1]) auto
  have pc': "?p = 0 \<or> ?p \<in> set (below ns0 key B) \<and> l \<le> height ns0 ?p" using pc by auto
  obtain ns' where ns': "splice_down l key a ns1 ?p = Some ns'" "same_shape ns0 ns'"
      "\<forall>k<l. chain ns' k 0 (sk_level ns0 k (below ns0 key B) @ a # sk_level ns0 k (above ns0 key B))"
      "\<forall>k\<ge>l. \<forall>b<length ns0. nexts (ns' ! b) ! k = nexts (ns1 ! b) ! k"
    using Suc.IH [OF sh01 _ _ pc' old1] Suc.prems(2,3) by auto
  have sh1': "same_shape ns1 ns'" using sh01 ns'(2) by (auto simp: same_shape_def)
  have "chain ns' l 0 (?lo @ a # ?hi)"
    using c1 ns'(4) sh1 len by (intro chain_frame [OF sh1' c1]) (auto simp: same_shape_def)
  moreover have "nexts (ns' ! b) ! k = nexts (ns ! b) ! k" if "Suc l \<le> k" "b < length ns0" for k b
    using ns'(4) ptr that len by auto
  ultimately show ?case
    using w s ns'(1-3) by (auto simp: less_Suc_eq)
qed (simp add: sh)

section \<open>Sorted lists of pairs\<close>

definition kv_put :: "'k :: linorder \<Rightarrow> 'v \<Rightarrow> ('k \<times> 'v) list \<Rightarrow> ('k \<times> 'v) list" where
  "kv_put k v kvs = filter (\<lambda>(j, _). j < k) kvs @ (k, v) # filter (\<lambda>(j, _). k < j) kvs"

definition sk_entries :: "('k, 'v) skipNode list \<Rightarrow> nat list \<Rightarrow> ('k \<times> 'v) list" where
  "sk_entries ns B = map (\<lambda>a. (sk_key (ns ! a), sk_value (ns ! a))) B"

lemma sk_entries_sorted: "sk_static ns B \<Longrightarrow> sorted_wrt (<) (map fst (sk_entries ns B))"
  by (simp add: sk_static_def sk_entries_def key_at_def comp_def sorted_wrt_map)

lemma find_entries: "List.find (\<lambda>a. key_at ns a = key) B = None \<longleftrightarrow> map_of (sk_entries ns B) key = None"
  by (induction B) (auto simp: sk_entries_def key_at_def)

lemma find_entries_Some:
  "List.find (\<lambda>a. key_at ns a = key) B = Some a \<Longrightarrow> a \<in> set B \<and> sk_key (ns ! a) = key \<and> map_of (sk_entries ns B) key = Some (sk_value (ns ! a))"
  by (induction B) (auto simp: sk_entries_def key_at_def split: if_splits)

lemma map_of_kv_put: "map_of (kv_put k v kvs) = (map_of kvs)(k \<mapsto> v)"
proof
  fix x
  have f: "map_of (filter (\<lambda>(j, _). P j) kvs) x = (if P x then map_of kvs x else None)" for P
    by (induction kvs) auto
  show "map_of (kv_put k v kvs) x = ((map_of kvs)(k \<mapsto> v)) x"
    by (cases "map_of kvs x") (auto simp: kv_put_def map_add_def f)
qed

lemma kv_put_sorted:
  "sorted_wrt (<) (map fst kvs) \<Longrightarrow> sorted_wrt (<) (map fst (kv_put k v kvs))"
proof -
  assume s: "sorted_wrt (<) (map fst kvs)"
  then have f: "sorted_wrt (<) (map fst (filter P kvs))" for P by (induction kvs) auto
  then show ?thesis by (auto simp: kv_put_def sorted_wrt_append)
qed

lemma kv_split:
  fixes kvs :: "('k :: linorder \<times> 'v) list"
  assumes "sorted_wrt (<) (map fst kvs)"
  shows "kvs = filter (\<lambda>(j, _). j < k) kvs @ (case map_of kvs k of None \<Rightarrow> [] | Some w \<Rightarrow> [(k, w)]) @ filter (\<lambda>(j, _). k < j) kvs"
  using assms
proof (induction kvs)
  case (Cons p kvs)
  obtain j w where p: "p = (j, w)" by (cases p)
  have ih: "kvs = filter (\<lambda>(j, _). j < k) kvs @ (case map_of kvs k of None \<Rightarrow> [] | Some w \<Rightarrow> [(k, w)]) @ filter (\<lambda>(j, _). k < j) kvs"
    using Cons by simp
  have later: "j < i" if "(i, x) \<in> set kvs" for i x using Cons.prems that p by force
  show ?case
  proof (cases "j < k")
    case True
    then have "\<not> k < j" "k \<noteq> j" by (auto dest: less_asym)
    then show ?thesis using True ih p by simp
  next
    case False
    then have gt: "k < i" if "(i, x) \<in> set kvs" for i x using later [OF that] by (meson le_less_trans not_le)
    then have lo: "filter (\<lambda>(j, _). j < k) kvs = []" "filter (\<lambda>(j, _). k < j) kvs = kvs"
      using less_asym by (fastforce simp: filter_empty_conv intro!: filter_True)+
    have none: "map_of kvs k = None" using gt less_irrefl by (fastforce simp: map_of_eq_None_iff)
    show ?thesis using False p lo none by (cases "j = k") (auto simp: not_less_iff_gr_or_eq)
  qed
qed simp

lemma sorted_kvs_unique:
  assumes "sorted_wrt (<) (map fst xs)" and "sorted_wrt (<) (map fst ys)" and "map_of xs = map_of (ys :: ('k :: linorder \<times> 'v) list)"
  shows "xs = ys"
proof -
  have "set (map fst xs) = set (map fst ys)" using assms(3) by (metis dom_map_of_conv_image_fst list.set_map)
  then have "map fst xs = map fst ys" using assms(1,2) by (simp add: strict_sorted_equal)
  moreover have z: "map (\<lambda>k. (k, the (map_of zs k))) (map fst zs) = zs" if "sorted_wrt (<) (map fst zs)" for zs :: "('k \<times> 'v) list"
    using that unfolding map_map by (intro map_idI) (auto simp: strict_sorted_iff)
  ultimately show ?thesis using z [OF assms(1)] z [OF assms(2)] assms(3) by simp
qed

lemma sorted_inj: "sorted_wrt (\<lambda>a b. f a < (f b :: 'k :: linorder)) B \<Longrightarrow> inj_on f (set B)"
  by (induction B) fastforce+

text \<open>A value is overwritten in place.\<close>

lemma overwrite_rep:
  assumes r: "sk_rep ns B" "kvs = sk_entries ns B" and a: "a \<in> set B"
  defines "k \<equiv> sk_key (ns ! a)"
  shows "sk_rep (ns[a := (ns ! a)\<lparr>sk_value := v\<rparr>]) B"
    and "sk_entries (ns[a := (ns ! a)\<lparr>sk_value := v\<rparr>]) B = kv_put k v kvs"
proof -
  let ?ns' = "ns[a := (ns ! a)\<lparr>sk_value := v\<rparr>]"
  have st: "sk_static ns B" using r by (simp add: sk_rep_def)
  then have al: "a < length ns" using a by (auto simp: sk_static_def)
  have sel: "nexts (?ns' ! b) = nexts (ns ! b)" "sk_key (?ns' ! b) = sk_key (ns ! b)"
    "sk_value (?ns' ! b) = (if b = a then v else sk_value (ns ! b))" for b
    using al by (cases "b = a"; simp)+
  have hk: "height ?ns' = height ns" "key_at ?ns' = key_at ns" by (auto simp: height_def key_at_def sel)
  have ch: "chain ?ns' l m xs = chain ns l m xs" for l m xs by (induction xs arbitrary: m) (auto simp: sel hk)
  show "sk_rep ?ns' B" using r(1) by (simp add: sk_rep_def sk_static_def hk ch sk_level_def)
  have "map_of (sk_entries ?ns' B) = (map_of (sk_entries ns B))(k \<mapsto> v)"
  proof -
    have inj: "b = a" if "b \<in> set B" "sk_key (ns ! b) = k" for b
      using sorted_inj [of "key_at ns" B] st that a by (auto simp: k_def sk_static_def key_at_def inj_on_def)
    show ?thesis
      unfolding sk_entries_def sel using inj a
    proof (induction B)
      case (Cons b B)
      show ?case
      proof (cases "a \<in> set B")
        case True
        then show ?thesis using Cons by (auto simp: fun_eq_iff k_def)
      next
        case False
        then have e: "map (\<lambda>b. (sk_key (ns ! b), if b = a then v else sk_value (ns ! b))) B = map (\<lambda>b. (sk_key (ns ! b), sk_value (ns ! b))) B"
          by (intro map_cong) auto
        have ab: "b = a" using False Cons.prems by simp
        show ?thesis unfolding list.map e by (simp add: ab k_def fun_eq_iff)
      qed
    qed simp
  qed
  then show "sk_entries ?ns' B = kv_put k v kvs"
    using sk_entries_sorted [OF st] r(2) kv_put_sorted sk_entries_sorted [of ?ns' B] \<open>sk_rep ?ns' B\<close>
    by (intro sorted_kvs_unique) (auto simp: sk_rep_def map_of_kv_put)
qed

text \<open>A new node: the head is tall enough afterwards, and the old levels are unchanged.\<close>

lemma grown_ok:
  assumes r: "sk_rep ns B" and g: "grow_head x h ns = Some ns1"
  shows "length ns1 = length ns" and "h \<le> height ns1 0" and "\<forall>b<length ns. sk_key (ns1 ! b) = sk_key (ns ! b) \<and> sk_value (ns1 ! b) = sk_value (ns ! b)"
    and "\<forall>b\<in>set B. ns1 ! b = ns ! b" and "sk_rep ns1 B"
proof -
  let ?h = "ns ! 0" and ?old = "height ns 0"
  have st: "sk_static ns B" and ne: "ns \<noteq> []" "0 \<notin> set B" and ch: "\<And>l. l < ?old \<Longrightarrow> chain ns l 0 (sk_level ns l B)"
    using r by (auto simp: sk_rep_def sk_static_def)
  define ext where "ext = (if ?old < h then replicate (h + x - ?old) None else [] :: nat option list)"
  have ns1: "ns1 = ns[0 := ?h\<lparr>nexts := nexts ?h @ ext\<rparr>]"
    using g ne by (auto simp: grow_head_def rd_def wr_def height_def ext_def split: if_splits)
  have sel: "sk_key (ns1 ! b) = sk_key (ns ! b)" "sk_value (ns1 ! b) = sk_value (ns ! b)" "b \<noteq> 0 \<Longrightarrow> ns1 ! b = ns ! b"
    "nexts (ns1 ! b) = nexts (ns ! b) @ (if b = 0 then ext else [])" for b
    using ne by (cases "b = 0"; simp add: ns1)+
  show len: "length ns1 = length ns" by (simp add: ns1)
  show "\<forall>b<length ns. sk_key (ns1 ! b) = sk_key (ns ! b) \<and> sk_value (ns1 ! b) = sk_value (ns ! b)" using sel by simp
  show b: "\<forall>b\<in>set B. ns1 ! b = ns ! b" using sel ne by metis
  have h0: "height ns1 0 = ?old + length ext" and hB: "\<forall>b\<in>set B. height ns1 b = height ns b" using sel b by (auto simp: height_def)
  show "h \<le> height ns1 0" by (simp add: h0 ext_def)
  have st1: "sk_static ns1 B"
    using st sel b hB h0 by (auto simp: sk_static_def key_at_def ns1)
  have lv: "sk_level ns1 l B = sk_level ns l B" for l unfolding sk_level_def using hB by (intro filter_cong) auto
  have "chain ns1 l 0 (sk_level ns1 l B)" if l: "l < height ns1 0" for l
  proof (cases "l < ?old")
    case True
    have fr: "chain ns l m xs \<Longrightarrow> chain ns1 l m xs" for m xs
      by (induction xs arbitrary: m) (auto simp: height_def sel nth_append len)
    show ?thesis using fr ch [OF True] lv by simp
  next
    case False
    then have "sk_level ns l B = []" using st by (auto simp: sk_level_def sk_static_def filter_empty_conv)
    moreover have "nexts (ns1 ! 0) ! l = None" using False l h0 by (auto simp: sel nth_append height_def ext_def split: if_splits)
    ultimately show ?thesis using lv l ne len by simp
  qed
  then show "sk_rep ns1 B" using st1 by (simp add: sk_rep_def)
qed

lemma append_rep:
  assumes r: "sk_rep ns B" and n: "0 < length (nexts n)"
  shows "sk_rep (ns @ [n]) B"
proof -
  have st: "sk_static ns B" and B: "\<forall>b\<in>set B. b < length ns" "0 < length ns" using r by (auto simp: sk_rep_def sk_static_def)
  have eq: "height (ns @ [n]) b = height ns b" "key_at (ns @ [n]) b = key_at ns b" if "b < length ns" for b
    using that by (simp_all add: height_def key_at_def nth_append)
  have "sk_static (ns @ [n]) B" using st B eq
    by (auto simp: sk_static_def sorted_wrt_iff_nth_less)
  moreover have "sk_level (ns @ [n]) l B = sk_level ns l B" for l unfolding sk_level_def using B eq by (intro filter_cong) auto
  moreover have "chain ns l m xs \<Longrightarrow> chain (ns @ [n]) l m xs" for l m xs
    by (induction xs arbitrary: m) (auto simp: height_def nth_append)
  ultimately show ?thesis using r eq B by (simp add: sk_rep_def)
qed

lemma insert_rep:
  assumes r: "sk_rep ns0 B" and a: "a \<notin> insert 0 (set B)" "a < length ns0" "0 < height ns0 a" "height ns0 a \<le> height ns0 0"
    and new: "key_at ns0 a = key" "key \<notin> key_at ns0 ` set B"
  obtains ns' where "splice_down (height ns0 a) key a ns0 0 = Some ns'" and "same_shape ns0 ns'"
    and "sk_rep ns' (below ns0 key B @ a # above ns0 key B)"
proof -
  let ?h = "height ns0 a" and ?B' = "below ns0 key B @ a # above ns0 key B"
  have st: "sk_static ns0 B" using r by (simp add: sk_rep_def)
  obtain ns' where ns': "splice_down ?h key a ns0 0 = Some ns'" "same_shape ns0 ns'"
    "\<forall>l<?h. chain ns' l 0 (sk_level ns0 l (below ns0 key B) @ a # sk_level ns0 l (above ns0 key B))"
    "\<forall>l\<ge>?h. \<forall>b<length ns0. nexts (ns' ! b) ! l = nexts (ns0 ! b) ! l"
    using splice_down_ok [OF st same_shape_refl a(1,2), of ?h 0 key] r a(4) by (auto simp: sk_rep_def)
  have "\<forall>b\<in>set (below ns0 key B). key_at ns0 b < key" "\<forall>b\<in>set (above ns0 key B). key < key_at ns0 b"
    using new(2) by (auto simp: below_def above_def not_less_iff_gr_or_eq)
  moreover have "sorted_wrt (\<lambda>a b. key_at ns0 a < key_at ns0 b) (below ns0 key B @ above ns0 key B)"
    using st by (simp add: below_above [OF st] sk_static_def)
  ultimately have "sorted_wrt (\<lambda>a b. key_at ns0 a < key_at ns0 b) ?B'"
    using new(1) by (auto simp: sorted_wrt_append intro: less_trans)
  then have st0: "sk_static ns0 ?B'"
    using st a unfolding sk_static_def by (auto simp: below_def above_def)
  note shape = same_shape_static [OF st0 ns'(2)]
  have "chain ns' l 0 (sk_level ns' l ?B')" if l: "l < height ns0 0" for l
  proof (cases "l < ?h")
    case True
    have "sk_level ns' l ?B' = sk_level ns0 l ?B'" by (rule shape(2)) simp
    then show ?thesis using True ns'(3) by (simp add: sk_level_def)
  next
    case False
    have "sk_level ns' l ?B' = sk_level ns0 l ?B'" by (rule shape(2)) simp
    also have "\<dots> = sk_level ns0 l B" using False level_split [OF st, of l key] by (simp add: sk_level_def)
    finally show ?thesis using chain_frame [OF ns'(2)] r l ns'(4) False by (auto simp: sk_rep_def)
  qed
  moreover have "height ns' 0 = height ns0 0" using ns'(2) st by (auto simp: same_shape_def sk_static_def)
  ultimately show thesis using ns'(1,2) shape(1) that by (simp add: sk_rep_def)
qed

lemma insert_new:
  assumes r: "sk_rep ns B" and None: "List.find (\<lambda>a. key_at ns a = k) B = None" and h: "0 < h"
  obtains ns1 ns' B' where "grow_head x h ns = Some ns1"
    "splice_down h k (length ns1) (ns1 @ [\<lparr>nexts = replicate h None, sk_key = k, sk_value = v\<rparr>]) 0 = Some ns'"
    "sk_rep ns' B'" "sk_entries ns' B' = kv_put k v (sk_entries ns B)"
proof -
  have st: "sk_static ns B" using r by (simp add: sk_rep_def)
  define n where "n = \<lparr>nexts = replicate h None, sk_key = k, sk_value = v\<rparr>"
  have n: "length (nexts n) = h" "sk_key n = k" "sk_value n = v" by (simp_all add: n_def)
  have "ns \<noteq> []" using st by (simp add: sk_static_def)
  then have "grow_head x h ns \<noteq> None" by (simp add: grow_head_def rd_def wr_def)
  then obtain ns1 where g: "grow_head x h ns = Some ns1" by blast
  note grown = grown_ok [OF r g]
  let ?nw = "ns1 @ [n]" and ?a = "length ns1"
  have B: "\<forall>b\<in>set B. b < length ns1" "0 < length ns1" using st grown(1) by (auto simp: sk_static_def)
  have r0: "sk_rep ?nw B" by (rule append_rep [OF grown(5)]) (simp add: n h)
  have h0: "height ?nw ?a = h" "key_at ?nw ?a = k" by (simp_all add: height_def key_at_def n)
  have keys: "key_at ?nw b = key_at ns b" "sk_value (?nw ! b) = sk_value (ns ! b)" if "b \<in> set B" for b
    using that grown(4) B by (auto simp: key_at_def nth_append)
  have "key_at ?nw b \<noteq> k" if "b \<in> set B" for b
    using None keys(1) [OF that] that unfolding find_None_iff by metis
  then have no: "k \<notin> key_at ?nw ` set B" by blast
  obtain ns' where s: "splice_down h k ?a ?nw 0 = Some ns'" and sh: "same_shape ?nw ns'"
    and r': "sk_rep ns' (below ?nw k B @ ?a # above ?nw k B)"
    using insert_rep [OF r0, of ?a k] h0 no B grown(2) h by (auto simp: height_def nth_append n)
  have e: "sk_entries ns' (below ?nw k B @ ?a # above ?nw k B) = kv_put k v (sk_entries ns B)"
  proof -
    have old: "sk_key (ns' ! b) = sk_key (ns ! b) \<and> sk_value (ns' ! b) = sk_value (ns ! b)" if "b \<in> set B" for b
      using sh keys [OF that] B that by (auto simp: same_shape_def key_at_def)
    have sides: "below ?nw k B = below ns k B" "above ?nw k B = filter (\<lambda>b. k < key_at ns b) B"
      using keys(1) no by (auto simp: below_def above_def not_less_iff_gr_or_eq intro!: filter_cong)
    have "sk_entries ns' C = sk_entries ns C" if "set C \<subseteq> set B" for C using that old by (auto simp: sk_entries_def)
    then show ?thesis using sh unfolding sides
      by (auto simp: kv_put_def sk_entries_def filter_map comp_def below_def key_at_def same_shape_def n)
  qed
  show thesis using that [OF g s [unfolded n_def] r' e] .
qed

section \<open>Neighbours\<close>

text \<open>The walk to the last node below a key, over all levels.\<close>

fun descend :: "nat \<Rightarrow> 'k :: linorder \<Rightarrow> ('k, 'v) skipNode list \<Rightarrow> nat \<Rightarrow> nat option" where
  "descend 0 key ns move = Some move"
| "descend (Suc level) key ns move = walk_right (length ns) level key ns move \<bind> descend level key ns"

text \<open>The walk to the last node of all.\<close>

fun walk_end :: "nat \<Rightarrow> nat \<Rightarrow> ('k, 'v) skipNode list \<Rightarrow> nat \<Rightarrow> nat option" where
  "walk_end 0 level ns move = None"
| "walk_end (Suc f) level ns move = do {
     n \<leftarrow> rd ns move;
     nx \<leftarrow> rd (nexts n) level;
     (case nx of None \<Rightarrow> Some move | Some b \<Rightarrow> walk_end f level ns b) }"

fun descend_end :: "nat \<Rightarrow> ('k, 'v) skipNode list \<Rightarrow> nat \<Rightarrow> nat option" where
  "descend_end 0 ns move = Some move"
| "descend_end (Suc level) ns move = walk_end (length ns) level ns move \<bind> descend_end level ns"

lemma bottom_level: "sk_static ns B \<Longrightarrow> set C \<subseteq> set B \<Longrightarrow> sk_level ns 0 C = C"
  unfolding sk_level_def by (intro filter_True) (auto simp: sk_static_def)

lemma descend_rep:
  assumes r: "sk_rep ns B" and "n \<le> height ns 0" and "0 < n" and "m = 0 \<or> m \<in> set (below ns key B) \<and> n \<le> height ns m"
  shows "descend n key ns m = Some (last (0 # below ns key B)) \<and> chain ns 0 (last (0 # below ns key B)) (above ns key B)"
  using assms(2-)
proof (induction n arbitrary: m)
  case (Suc l)
  let ?p = "pred_at ns key B l"
  have st: "sk_static ns B" and ch: "chain ns l 0 (sk_level ns l B)" using r Suc.prems by (auto simp: sk_rep_def)
  have w: "walk_right (length ns) l key ns m = Some ?p" "chain ns l ?p (sk_level ns l (above ns key B))"
    using walk_to_pred [OF st ch, of m key] Suc.prems by auto
  have p: "?p = 0 \<or> ?p \<in> set (below ns key B) \<and> l \<le> height ns ?p" using pred_at_cases [of ns key B l] by auto
  show ?case
  proof (cases l)
    case 0
    have "sk_level ns 0 (below ns key B) = below ns key B" "sk_level ns 0 (above ns key B) = above ns key B"
      using bottom_level [OF st] by (auto simp: below_def above_def)
    then show ?thesis using w 0 by (simp add: pred_at_def)
  next
    case (Suc k)
    then show ?thesis using Suc.IH [OF _ _ p] Suc.prems w(1) by simp
  qed
qed simp

lemma walk_end_chain: "chain ns l m xs \<Longrightarrow> length xs < f \<Longrightarrow> walk_end f l ns m = Some (last (m # xs))"
proof (induction xs arbitrary: m f)
  case Nil
  then show ?case by (cases f) (auto simp: rd_def height_def)
next
  case (Cons b xs)
  then show ?case by (cases f) (auto simp: rd_def height_def)
qed

lemma last_level: "sk_static ns B \<Longrightarrow> last (0 # sk_level ns l B) = 0 \<or> last (0 # sk_level ns l B) \<in> set B \<and> l < height ns (last (0 # sk_level ns l B))"
  using last_in_set [of "sk_level ns l B"] by (auto simp: sk_level_def)

lemma descend_end_rep:
  assumes r: "sk_rep ns B" and "n \<le> height ns 0" and "0 < n" and "m = 0 \<or> m \<in> set B \<and> n \<le> height ns m"
  shows "descend_end n ns m = Some (last (0 # B))"
  using assms(2-)
proof (induction n arbitrary: m)
  case (Suc l)
  let ?x = "last (0 # sk_level ns l B)"
  have st: "sk_static ns B" and ch: "chain ns l 0 (sk_level ns l B)" using r Suc.prems by (auto simp: sk_rep_def)
  have len: "length (sk_level ns l B) < length ns" using rep_length [OF st] length_filter_le [of _ B] unfolding sk_level_def by (meson le_less_trans)
  have w: "walk_end (length ns) l ns m = Some ?x"
  proof (cases "m = 0")
    case True
    then show ?thesis using walk_end_chain [OF ch len] by simp
  next
    case False
    then have "m \<in> set (sk_level ns l B)" using Suc.prems(3) by (simp add: sk_level_def)
    then obtain us vs where e: "sk_level ns l B = us @ m # vs" by (meson split_list)
    have "chain ns l m vs" using ch e chain_suffix by fastforce
    then show ?thesis using walk_end_chain [of ns l m vs "length ns"] len e by simp
  qed
  have p: "?x = 0 \<or> ?x \<in> set B \<and> l \<le> height ns ?x" using last_level [OF st, of l] by auto
  show ?case
  proof (cases l)
    case 0
    then show ?thesis using w bottom_level [OF st, of B] by simp
  next
    case (Suc k)
    then show ?thesis using Suc.IH [OF _ _ p] Suc.prems w by simp
  qed
qed simp

section \<open>Removal\<close>

fun unlink_down :: "nat \<Rightarrow> 'k :: linorder \<Rightarrow> ('k, 'v) skipNode list \<Rightarrow> nat \<Rightarrow> ('k, 'v) skipNode list option" where
  "unlink_down 0 key ns move = Some ns"
| "unlink_down (Suc level) key ns move = do {
     move \<leftarrow> walk_right (length ns) level key ns move;
     n \<leftarrow> rd ns move;
     nx \<leftarrow> rd (nexts n) level;
     (case nx of
        None \<Rightarrow> unlink_down level key ns move
      | Some b \<Rightarrow> do {
          nb \<leftarrow> rd ns b;
          (if key < sk_key nb then unlink_down level key ns move
           else do {
             nx \<leftarrow> rd (nexts nb) level;
             ys \<leftarrow> wr (nexts n) level nx;
             ns \<leftarrow> wr ns move (n\<lparr>nexts := ys\<rparr>);
             unlink_down level key ns move }) }) }"

text \<open>The head loses its levels from the first empty one on.\<close>

definition trim_head :: "('k, 'v) skipNode list \<Rightarrow> ('k, 'v) skipNode list option" where
  "trim_head ns = do {
     h \<leftarrow> rd ns 0;
     wr ns 0 (h\<lparr>nexts := takeWhile (\<lambda>x. x \<noteq> None) (nexts h)\<rparr>) }"

lemma chain_remove:
  assumes "same_shape ns ns'" and "chain ns l m (lo @ a # hi)" and "distinct (m # lo @ a # hi)" and "p = last (m # lo)"
    and "\<And>b. b < length ns \<Longrightarrow> nexts (ns' ! b) ! l = (if b = p then nexts (ns ! a) ! l else nexts (ns ! b) ! l)"
  shows "chain ns' l m (lo @ hi)"
  using assms(2-)
proof (induction lo arbitrary: m)
  case Nil
  have al: "a < length ns" "chain ns l a hi" using Nil.prems(1) by (auto dest: chain_head)
  have m: "m < length ns'" "l < height ns' m" using Nil.prems(1) assms(1) by (auto simp: same_shape_def)
  have ptr: "nexts (ns' ! m) ! l = nexts (ns ! a) ! l" using Nil.prems by auto
  show ?case
  proof (cases hi)
    case Nil
    then show ?thesis using al m ptr by simp
  next
    case (Cons c cs)
    have "chain ns l c cs" using al Cons by simp
    then have "chain ns' l c cs" using Nil.prems Cons by (intro chain_frame [OF assms(1)]) auto
    then show ?thesis using Cons al m ptr by simp
  qed
next
  case (Cons b lo)
  then show ?case using assms(1) by (auto simp: same_shape_def)
qed

lemma unlink_down_ok:
  assumes st: "sk_static ns0 B" and B: "B = lo @ a # hi" and key: "key_at ns0 a = key"
    and sh: "same_shape ns0 ns" and "n \<le> height ns0 0" and m: "m = 0 \<or> m \<in> set lo \<and> n \<le> height ns0 m"
    and old: "\<And>l. l < n \<Longrightarrow> chain ns l 0 (sk_level ns0 l B)"
  shows "\<exists>ns'. unlink_down n key ns m = Some ns' \<and> same_shape ns0 ns' \<and>
    (\<forall>l<n. chain ns' l 0 (sk_level ns0 l (lo @ hi))) \<and> (\<forall>l\<ge>n. \<forall>b<length ns0. nexts (ns' ! b) ! l = nexts (ns ! b) ! l)"
  using sh assms(5) m old
proof (induction n arbitrary: ns m)
  case (Suc l)
  have srt: "\<And>x. x \<in> set lo \<Longrightarrow> key_at ns0 x < key" "\<And>x. x \<in> set hi \<Longrightarrow> key < key_at ns0 x"
    using st B key by (auto simp: sk_static_def sorted_wrt_append)
  then have lo: "below ns0 key B = lo" and hi: "above ns0 key B = a # hi"
    unfolding below_def above_def B using key by (auto simp: filter_empty_conv filter_id_conv dest: less_asym)
  note shape = same_shape_static [OF st Suc.prems(1)]
  let ?p = "pred_at ns0 key B l"
  have len: "length ns = length ns0" "0 < length ns0" and eq: "\<And>b. b < length ns0 \<Longrightarrow> height ns b = height ns0 b \<and> sk_key (ns ! b) = sk_key (ns0 ! b)"
    and Bl: "\<forall>b\<in>set B. b < length ns0"
    using Suc.prems(1) st by (auto simp: same_shape_def sk_static_def)
  have m': "m = 0 \<or> m \<in> set (below ns key B) \<and> l < height ns m" using Suc.prems(3) lo shape(3) eq Bl B by auto
  have lev: "sk_level ns k C = sk_level ns0 k C" if "set C \<subseteq> set B" for k C by (rule shape(2) [OF that])
  have lvl: "sk_level ns l B = sk_level ns0 l B" "sk_level ns l (a # hi) = sk_level ns0 l (a # hi)" using B by (auto intro!: lev)
  have w: "walk_right (length ns) l key ns m = Some ?p" and c: "chain ns l ?p (sk_level ns0 l (a # hi))"
    using walk_to_pred [OF shape(1) _ m'] Suc.prems(4) [of l] lvl shape(4,5) hi by auto
  have pc: "?p = 0 \<or> ?p \<in> set lo \<and> l < height ns0 ?p" using pred_at_cases [of ns0 key B l] lo by simp
  have pc': "?p = 0 \<or> ?p \<in> set lo \<and> l \<le> height ns0 ?p" using pc by auto
  have pl: "?p < length ns" "l < height ns ?p" using c by (auto dest: chain_head)
  have dist: "distinct (0 # lo @ a # hi)" using rep_distinct [OF st] st B by (auto simp: sk_static_def)
  have ch: "chain ns l 0 (sk_level ns0 l lo @ sk_level ns0 l (a # hi))" using Suc.prems(4) [of l] B by (simp add: sk_level_def)
  have plast: "?p = last (0 # sk_level ns0 l lo)" by (simp add: pred_at_def lo)
  show ?case
  proof (cases "l < height ns0 a")
    case True
    let ?hi = "sk_level ns0 l hi"
    have la: "sk_level ns0 l (a # hi) = a # ?hi" using True by (simp add: sk_level_def)
    have a: "a < length ns" "nexts (ns ! ?p) ! l = Some a" "l < length (nexts (ns ! a))" "sk_key (ns ! a) = key"
      using c la Bl B len eq [of a] key True by (auto simp: key_at_def height_def dest: chain_head)
    define ns1 where "ns1 = ns[?p := (ns ! ?p)\<lparr>nexts := (nexts (ns ! ?p))[l := nexts (ns ! a) ! l]\<rparr>]"
    have u: "unlink_down (Suc l) key ns m = unlink_down l key ns1 ?p"
      using w a pl by (simp add: rd_def wr_def height_def ns1_def)
    have sh1: "same_shape ns ns1" using pl by (auto simp: ns1_def same_shape_def height_def nth_list_update)
    have ptr: "nexts (ns1 ! b) ! k = (if k = l \<and> b = ?p then nexts (ns ! a) ! l else nexts (ns ! b) ! k)" if "b < length ns" for b k
      using pl that by (auto simp: ns1_def nth_list_update height_def)
    have d: "distinct (0 # sk_level ns0 l lo @ a # ?hi)" using dist by (auto simp: sk_level_def)
    have c1: "chain ns1 l 0 (sk_level ns0 l lo @ ?hi)"
      using chain_remove [OF sh1 ch [unfolded la] d plast] ptr by simp
    have sh01: "same_shape ns0 ns1" using Suc.prems(1) sh1 by (rule same_shape_trans)
    have old1: "chain ns1 k 0 (sk_level ns0 k B)" if "k < l" for k
      using Suc.prems(4) [of k] that ptr by (intro chain_frame [OF sh1]) auto
    have ln: "l \<le> height ns0 0" using Suc.prems(2) by simp
    obtain ns' where ns': "unlink_down l key ns1 ?p = Some ns'" "same_shape ns0 ns'" "\<forall>k<l. chain ns' k 0 (sk_level ns0 k (lo @ hi))"
        "\<forall>k\<ge>l. \<forall>b<length ns0. nexts (ns' ! b) ! k = nexts (ns1 ! b) ! k"
      using Suc.IH [OF sh01 ln pc' old1] by auto
    have sh1': "same_shape ns1 ns'" using sh01 ns'(2) by (auto simp: same_shape_def)
    have "chain ns' l 0 (sk_level ns0 l lo @ ?hi)"
      using ns'(4) sh1 len by (intro chain_frame [OF sh1' c1]) (auto simp: same_shape_def)
    moreover have "nexts (ns' ! b) ! k = nexts (ns ! b) ! k" if "Suc l \<le> k" "b < length ns0" for k b
      using ns'(4) ptr that len by auto
    ultimately show ?thesis using u ns'(1-3) by (auto simp: less_Suc_eq sk_level_def)
  next
    case False
    let ?hi = "sk_level ns0 l hi"
    have la: "sk_level ns0 l (a # hi) = ?hi" using False by (simp add: sk_level_def)
    have u: "unlink_down (Suc l) key ns m = unlink_down l key ns ?p"
    proof (cases ?hi)
      case Nil
      then show ?thesis using w c la pl by (auto simp: rd_def height_def)
    next
      case (Cons b bs)
      then have "b \<in> set ?hi" by simp
      then have b: "b \<in> set hi" by (simp add: sk_level_def)
      then have "b < length ns" "key < sk_key (ns ! b)" using srt(2) [OF b] Bl B len eq [of b] by (auto simp: key_at_def)
      then show ?thesis using w c la pl Cons by (auto simp: rd_def height_def)
    qed
    have ln: "l \<le> height ns0 0" using Suc.prems(2) by simp
    obtain ns' where ns': "unlink_down l key ns ?p = Some ns'" "same_shape ns0 ns'" "\<forall>k<l. chain ns' k 0 (sk_level ns0 k (lo @ hi))"
        "\<forall>k\<ge>l. \<forall>b<length ns0. nexts (ns' ! b) ! k = nexts (ns ! b) ! k"
      using Suc.IH [OF Suc.prems(1) ln pc'] Suc.prems(4) by auto
    have shn: "same_shape ns ns'" using Suc.prems(1) ns'(2) by (auto simp: same_shape_def)
    have "chain ns' l 0 (sk_level ns0 l lo @ ?hi)"
      using ns'(4) len ch la by (intro chain_frame [OF shn]) auto
    then show ?thesis using u ns' by (auto simp: less_Suc_eq sk_level_def)
  qed
qed (simp add: sh)

lemma trim_rep:
  assumes r: "sk_rep ns B"
  shows "\<exists>ns'. trim_head ns = Some ns' \<and> sk_rep ns' B \<and> sk_entries ns' B = sk_entries ns B \<and> (nexts (ns' ! 0) \<noteq> [] \<longrightarrow> B \<noteq> [])"
proof -
  let ?h = "ns ! 0" let ?ps = "takeWhile (\<lambda>x. x \<noteq> None) (nexts ?h)" let ?ns = "ns[0 := ?h\<lparr>nexts := ?ps\<rparr>]"
  have st: "sk_static ns B" and ne: "ns \<noteq> []" "0 \<notin> set B" and ch: "\<And>l. l < height ns 0 \<Longrightarrow> chain ns l 0 (sk_level ns l B)"
    using r by (auto simp: sk_rep_def sk_static_def)
  have t: "trim_head ns = Some ?ns" using ne by (simp add: trim_head_def rd_def wr_def)
  have sel: "b \<noteq> 0 \<Longrightarrow> ?ns ! b = ns ! b" "sk_key (?ns ! b) = sk_key (ns ! b)" "sk_value (?ns ! b) = sk_value (ns ! b)" for b
    using ne by (cases "b = 0"; simp)+
  have h0: "height ?ns 0 = length ?ps" "nexts (?ns ! 0) = ?ps" using ne by (simp_all add: height_def)
  have low: "length ?ps \<le> height ns 0" by (simp add: height_def length_takeWhile_le)
  have top: "sk_level ns l B = []" if "length ?ps \<le> l" for l
  proof (cases "length ?ps < height ns 0")
    case True
    then have "\<not> nexts ?h ! length ?ps \<noteq> None" unfolding height_def by (rule nth_length_takeWhile)
    then have "nexts ?h ! length ?ps = None" by simp
    then have "sk_level ns (length ?ps) B = []" using ch [OF True] by (cases "sk_level ns (length ?ps) B") auto
    then show ?thesis using that by (auto simp: sk_level_def filter_empty_conv)
  next
    case False
    then show ?thesis using st that low by (fastforce simp: sk_level_def filter_empty_conv sk_static_def)
  qed
  have hB: "height ?ns b = height ns b" if "b \<in> set B" for b using sel(1) [of b] that ne by (metis height_def)
  have "height ns b \<le> length ?ps" if "b \<in> set B" for b using top [of "length ?ps"] that by (auto simp: sk_level_def filter_empty_conv)
  then have st': "sk_static ?ns B" using st hB h0 sel by (auto simp: sk_static_def key_at_def)
  have lv: "sk_level ?ns l B = sk_level ns l B" for l unfolding sk_level_def using hB by (intro filter_cong) auto
  have "chain ?ns l 0 (sk_level ?ns l B)" if l: "l < height ?ns 0" for l
  proof -
    have lp: "l < length ?ps" "l < height ns 0" using l h0 low by auto
    have tail: "chain ns l m xs \<Longrightarrow> 0 \<notin> insert m (set xs) \<Longrightarrow> chain ?ns l m xs" for m xs
      by (induction xs arbitrary: m) (auto simp: height_def)
    have "0 \<notin> set (sk_level ns l B)" using ne by (simp add: sk_level_def)
    moreover have "nexts (?ns ! 0) ! l = nexts ?h ! l" using lp h0 by (simp add: takeWhile_nth)
    ultimately show ?thesis using ch [OF lp(2)] tail lp h0 ne unfolding lv
      by (cases "sk_level ns l B") (auto simp: height_def)
  qed
  moreover have "B \<noteq> []" if "nexts (?ns ! 0) \<noteq> []"
  proof -
    have "0 < length ?ps" using that h0 by simp
    then have "nexts ?h ! 0 \<noteq> None" using nth_mem [of 0 ?ps] set_takeWhileD [of _ "\<lambda>x. x \<noteq> None" "nexts ?h"] takeWhile_nth [of 0 _ "nexts ?h"] by metis
    then show ?thesis using ch [of 0] \<open>0 < length ?ps\<close> low by (auto simp: sk_level_def)
  qed
  ultimately show ?thesis using t st' sel by (auto simp: sk_rep_def sk_entries_def)
qed

definition kv_del :: "'k \<Rightarrow> ('k \<times> 'v) list \<Rightarrow> ('k \<times> 'v) list" where
  "kv_del k kvs = filter (\<lambda>(j, _). j \<noteq> k) kvs"

lemma map_of_kv_del: "map_of (kv_del k kvs) = (map_of kvs)(k := None)"
  by (induction kvs) (auto simp: kv_del_def fun_eq_iff)

lemma remove_rep:
  assumes r: "sk_rep ns B" and a: "a \<in> set B" "key_at ns a = key"
  shows "\<exists>ns1 ns2 B'. unlink_down (height ns 0) key ns 0 = Some ns1 \<and> trim_head ns1 = Some ns2 \<and> sk_rep ns2 B' \<and>
    sk_entries ns2 B' = kv_del key (sk_entries ns B) \<and> (nexts (ns2 ! 0) \<noteq> [] \<longrightarrow> B' \<noteq> [])"
proof -
  have st: "sk_static ns B" using r by (simp add: sk_rep_def)
  obtain lo hi where B: "B = lo @ a # hi" using a(1) by (meson split_list)
  obtain ns1 where u: "unlink_down (height ns 0) key ns 0 = Some ns1" "same_shape ns ns1" "\<forall>l<height ns 0. chain ns1 l 0 (sk_level ns l (lo @ hi))"
    using unlink_down_ok [OF st B a(2) same_shape_refl, of "height ns 0" 0] r by (auto simp: sk_rep_def)
  have st1: "sk_static ns (lo @ hi)" using st B by (auto simp: sk_static_def sorted_wrt_append)
  note shape = same_shape_static [OF st1 u(2)]
  have h: "height ns1 0 = height ns 0" using u(2) st by (auto simp: same_shape_def sk_static_def)
  have r1: "sk_rep ns1 (lo @ hi)" using shape(1,2) u(3) h by (auto simp: sk_rep_def)
  obtain ns2 where t: "trim_head ns1 = Some ns2" "sk_rep ns2 (lo @ hi)" "sk_entries ns2 (lo @ hi) = sk_entries ns1 (lo @ hi)"
    "nexts (ns2 ! 0) \<noteq> [] \<longrightarrow> lo @ hi \<noteq> []" using trim_rep [OF r1] by blast
  have "key_at ns x \<noteq> key" if "x \<in> set (lo @ hi)" for x
    using st a(2) B that by (auto simp: sk_static_def sorted_wrt_append)
  then have "filter (\<lambda>x. sk_key (ns ! x) \<noteq> key) lo = lo" "filter (\<lambda>x. sk_key (ns ! x) \<noteq> key) hi = hi"
    by (auto simp: key_at_def intro!: filter_True)
  then have "sk_entries ns (lo @ hi) = kv_del key (sk_entries ns B)"
    using a(2) B by (simp add: sk_entries_def kv_del_def filter_map comp_def key_at_def)
  moreover have "sk_entries ns1 (lo @ hi) = sk_entries ns (lo @ hi)"
    using u(2) st1 by (auto simp: sk_entries_def same_shape_def sk_static_def)
  ultimately show ?thesis using u(1) t by metis
qed

end
