(* ===== verification/Lsm_Memtable.thy ===== *)
theory Lsm_Memtable
  imports Skip_List "HOL-Library.List_Lexorder"
begin

text \<open>
  The memtable of the LSM tree (\<open>src/apps/lsm_tree/memtable/skiplist.go\<close>): a skip list from byte strings to byte strings with counters.
  \<open>bytes.Compare\<close> is the lexicographic order of byte lists. The height of a new node is one more than the number of coins that
  came up, which is an argument of \<open>Put\<close>.
\<close>

section \<open>The skip list\<close>

record Skiplist =
  sk_nodes :: "(bytes, bytes) skipNode list"
  sk_entriesCnt :: nat
  sk_size :: int

definition NewSkiplist :: Skiplist where
  "NewSkiplist = \<lparr>sk_nodes = [\<lparr>nexts = [], sk_key = [], sk_value = []\<rparr>], sk_entriesCnt = 0, sk_size = 0\<rparr>"

definition getNode :: "bytes \<Rightarrow> Skiplist \<Rightarrow> nat option option" where
  "getNode key s = find_node key (sk_nodes s)"

definition sk_Get :: "bytes \<Rightarrow> Skiplist \<Rightarrow> bytes option option" where
  "sk_Get key s = do {
     r \<leftarrow> getNode key s;
     (case r of
        None \<Rightarrow> Some None
      | Some a \<Rightarrow> do { n \<leftarrow> rd (sk_nodes s) a; Some (Some (sk_value n)) }) }"

definition sk_Put :: "nat \<Rightarrow> bytes \<Rightarrow> bytes \<Rightarrow> Skiplist \<Rightarrow> Skiplist option" where
  "sk_Put coins key value s = do {
     r \<leftarrow> getNode key s;
     (case r of
        Some a \<Rightarrow> do {
          n \<leftarrow> rd (sk_nodes s) a;
          ns \<leftarrow> wr (sk_nodes s) a (n\<lparr>sk_value := value\<rparr>);
          Some (s\<lparr>sk_nodes := ns, sk_size := sk_size s + (int (length value) - int (length (sk_value n)))\<rparr>) }
      | None \<Rightarrow> do {
          let height = coins + 1;
          ns \<leftarrow> grow_head 1 height (sk_nodes s);
          let a = length ns;
          ns \<leftarrow> splice_down height key a (ns @ [\<lparr>nexts = replicate height None, sk_key = key, sk_value = value\<rparr>]) 0;
          Some (s\<lparr>sk_nodes := ns, sk_size := sk_size s + (int (length key) + int (length value)), sk_entriesCnt := sk_entriesCnt s + 1\<rparr>) }) }"

fun collect :: "nat \<Rightarrow> (bytes, bytes) skipNode list \<Rightarrow> nat \<Rightarrow> (bytes \<times> bytes) list option" where
  "collect 0 ns move = None"
| "collect (Suc f) ns move = do {
     n \<leftarrow> rd ns move;
     nx \<leftarrow> rd (nexts n) 0;
     (case nx of
        None \<Rightarrow> Some []
      | Some b \<Rightarrow> do {
          nb \<leftarrow> rd ns b;
          kvs \<leftarrow> collect f ns b;
          Some ((sk_key nb, sk_value nb) # kvs) }) }"

definition sk_All :: "Skiplist \<Rightarrow> (bytes \<times> bytes) list option" where
  "sk_All s = do {
     h \<leftarrow> rd (sk_nodes s) 0;
     (if nexts h = [] then Some [] else collect (length (sk_nodes s)) (sk_nodes s) 0) }"

section \<open>The memtable as a sorted list of pairs\<close>

definition kv_bytes :: "(bytes \<times> bytes) list \<Rightarrow> int" where
  "kv_bytes kvs = sum_list (map (\<lambda>(k, v). int (length k) + int (length v)) kvs)"

definition sk_holds :: "Skiplist \<Rightarrow> (bytes \<times> bytes) list \<Rightarrow> bool" where
  "sk_holds s kvs \<longleftrightarrow> (\<exists>B. sk_rep (sk_nodes s) B \<and> kvs = sk_entries (sk_nodes s) B) \<and> sk_entriesCnt s = length kvs \<and> sk_size s = kv_bytes kvs"

lemma getNode_rep: "sk_rep (sk_nodes s) B \<Longrightarrow> getNode key s = Some (List.find (\<lambda>a. key_at (sk_nodes s) a = key) B)"
  unfolding getNode_def by (rule find_node_rep)

lemma sk_Get_holds: "sk_holds s kvs \<Longrightarrow> sk_Get key s = Some (map_of kvs key)"
proof -
  assume "sk_holds s kvs"
  then obtain B where r: "sk_rep (sk_nodes s) B" and kvs: "kvs = sk_entries (sk_nodes s) B" by (auto simp: sk_holds_def)
  show ?thesis
  proof (cases "List.find (\<lambda>a. key_at (sk_nodes s) a = key) B")
    case None
    then have "map_of kvs key = None" using find_entries kvs by metis
    then show ?thesis using None getNode_rep [OF r] by (simp add: sk_Get_def)
  next
    case (Some a)
    have "a < length (sk_nodes s)" using find_entries_Some [OF Some] r by (auto simp: sk_rep_def sk_static_def)
    then show ?thesis using Some find_entries_Some [OF Some] getNode_rep [OF r] kvs by (simp add: sk_Get_def rd_def)
  qed
qed

lemma collect_chain: "chain ns 0 m xs \<Longrightarrow> length xs < f \<Longrightarrow> collect f ns m = Some (sk_entries ns xs)"
proof (induction xs arbitrary: m f)
  case Nil
  then show ?case by (cases f) (auto simp: rd_def height_def sk_entries_def)
next
  case (Cons b xs)
  then obtain g where f: "f = Suc g" by (cases f) auto
  have "b < length ns" using Cons.prems by (auto dest: chain_head)
  then show ?case using Cons f by (auto simp: rd_def height_def sk_entries_def)
qed

lemma sk_All_holds: "sk_holds s kvs \<Longrightarrow> sk_All s = Some kvs"
proof -
  assume "sk_holds s kvs"
  then obtain B where r: "sk_rep (sk_nodes s) B" and kvs: "kvs = sk_entries (sk_nodes s) B" by (auto simp: sk_holds_def)
  let ?ns = "sk_nodes s"
  have ne: "?ns \<noteq> []" and h: "\<forall>a\<in>set B. 0 < height ?ns a \<and> height ?ns a \<le> height ?ns 0" and st: "sk_static ?ns B"
    using r by (auto simp: sk_rep_def sk_static_def)
  show ?thesis
  proof (cases "nexts (?ns ! 0) = []")
    case True
    then have "B = []" using h by (cases B) (auto simp: height_def)
    then show ?thesis using True ne kvs by (simp add: sk_All_def rd_def sk_entries_def)
  next
    case False
    have "sk_level ?ns 0 B = B" unfolding sk_level_def using h by (intro filter_True) auto
    then have "chain ?ns 0 0 B" using r False by (fastforce simp: sk_rep_def height_def)
    then show ?thesis using False ne kvs collect_chain rep_length [OF st] by (simp add: sk_All_def rd_def)
  qed
qed

lemma kv_put_parts:
  fixes kvs :: "(bytes \<times> bytes) list"
  assumes "sorted_wrt (<) (map fst kvs)"
  shows "length (kv_put k v kvs) = (if map_of kvs k = None then length kvs + 1 else length kvs)"
    and "kv_bytes (kv_put k v kvs) = (case map_of kvs k of None \<Rightarrow> kv_bytes kvs + (int (length k) + int (length v))
      | Some w \<Rightarrow> kv_bytes kvs + (int (length v) - int (length w)))"
proof -
  let ?lo = "filter (\<lambda>(j, _). j < k) kvs" and ?hi = "filter (\<lambda>(j, _). k < j) kvs" and ?mid = "case map_of kvs k of None \<Rightarrow> [] | Some w \<Rightarrow> [(k, w)]"
  have e: "length kvs = length (?lo @ ?mid @ ?hi)" "kv_bytes kvs = kv_bytes (?lo @ ?mid @ ?hi)"
    by (rule arg_cong [OF kv_split [OF assms]])+
  show "length (kv_put k v kvs) = (if map_of kvs k = None then length kvs + 1 else length kvs)"
    using e(1) by (auto simp: kv_put_def split: option.splits)
  show "kv_bytes (kv_put k v kvs) = (case map_of kvs k of None \<Rightarrow> kv_bytes kvs + (int (length k) + int (length v))
      | Some w \<Rightarrow> kv_bytes kvs + (int (length v) - int (length w)))"
    using e(2) by (auto simp: kv_put_def kv_bytes_def split: option.splits)
qed

lemma sk_Put_new:
  assumes hold: "sk_holds s kvs" and r: "sk_rep (sk_nodes s) B" and kvs: "kvs = sk_entries (sk_nodes s) B"
    and None: "List.find (\<lambda>a. key_at (sk_nodes s) a = k) B = None"
    and parts: "length (kv_put k v kvs) = length kvs + 1" "kv_bytes (kv_put k v kvs) = kv_bytes kvs + (int (length k) + int (length v))"
  shows "\<exists>s'. sk_Put coins k v s = Some s' \<and> sk_holds s' (kv_put k v kvs)"
proof -
  define h where "h = coins + 1"
  have h: "0 < h" by (simp add: h_def)
  obtain ns1 ns' B' where i: "grow_head 1 h (sk_nodes s) = Some ns1"
    "splice_down h k (length ns1) (ns1 @ [\<lparr>nexts = replicate h None, sk_key = k, sk_value = v\<rparr>]) 0 = Some ns'"
    "sk_rep ns' B'" "sk_entries ns' B' = kv_put k v (sk_entries (sk_nodes s) B)"
    by (rule insert_new [OF r None h])
  have "sk_Put coins k v s = Some (s\<lparr>sk_nodes := ns', sk_size := sk_size s + (int (length k) + int (length v)),
      sk_entriesCnt := sk_entriesCnt s + 1\<rparr>)"
    unfolding sk_Put_def getNode_rep [OF r] None Let_def h_def [symmetric] using i(1,2) by simp
  moreover have "\<exists>B. sk_rep ns' B \<and> kv_put k v kvs = sk_entries ns' B" using i(3,4) kvs by metis
  ultimately show ?thesis using parts hold by (simp add: sk_holds_def)
qed

lemma sk_Put_holds:
  assumes hold: "sk_holds s kvs"
  shows "\<exists>s'. sk_Put coins k v s = Some s' \<and> sk_holds s' (kv_put k v kvs)"
proof -
  let ?ns = "sk_nodes s"
  obtain B where r: "sk_rep ?ns B" and kvs: "kvs = sk_entries ?ns B" using hold by (auto simp: sk_holds_def)
  have st: "sk_static ?ns B" using r by (simp add: sk_rep_def)
  have parts: "length (kv_put k v kvs) = (if map_of kvs k = None then length kvs + 1 else length kvs)"
    "kv_bytes (kv_put k v kvs) = (case map_of kvs k of None \<Rightarrow> kv_bytes kvs + (int (length k) + int (length v))
      | Some w \<Rightarrow> kv_bytes kvs + (int (length v) - int (length w)))"
    using kv_put_parts sk_entries_sorted [OF st] kvs by auto
  show ?thesis
  proof (cases "List.find (\<lambda>a. key_at ?ns a = k) B")
    case (Some a)
    note f = find_entries_Some [OF Some]
    have "a < length ?ns" using f st by (auto simp: sk_static_def)
    then show ?thesis
      using f Some getNode_rep [OF r] overwrite_rep [OF r kvs, of a v] hold parts kvs
      by (auto simp: sk_Put_def rd_def wr_def sk_holds_def)
  next
    case None
    then have "map_of kvs k = None" using find_entries kvs by metis
    then show ?thesis using sk_Put_new [OF hold r kvs None] parts by simp
  qed
qed

section \<open>The interface of a memtable\<close>

text \<open>The loops that put a list of pairs, each with the coins of its new node.\<close>

fun put_all :: "(nat \<Rightarrow> bytes \<Rightarrow> bytes \<Rightarrow> 't \<Rightarrow> 't option) \<Rightarrow> (nat \<times> bytes \<times> bytes) list \<Rightarrow> 't \<Rightarrow> 't option" where
  "put_all put [] t = Some t"
| "put_all put ((c, k, v) # ops) t = put c k v t \<bind> put_all put ops"

text \<open>
  What the tree relies on (\<open>memtable.go\<close>): \<open>holds t kvs\<close> says that the table holds the pairs \<open>kvs\<close> in
  key order.
\<close>

locale memtable =
  fixes new :: 't and put :: "nat \<Rightarrow> bytes \<Rightarrow> bytes \<Rightarrow> 't \<Rightarrow> 't option" and get :: "bytes \<Rightarrow> 't \<Rightarrow> bytes option option"
    and all :: "'t \<Rightarrow> (bytes \<times> bytes) list option" and bytes_of :: "'t \<Rightarrow> int" and holds :: "'t \<Rightarrow> (bytes \<times> bytes) list \<Rightarrow> bool"
  assumes new_holds: "holds new []"
    and put_holds: "holds t kvs \<Longrightarrow> \<exists>t'. put c k v t = Some t' \<and> holds t' (kv_put k v kvs)"
    and get_holds: "holds t kvs \<Longrightarrow> get k t = Some (map_of kvs k)"
    and all_holds: "holds t kvs \<Longrightarrow> all t = Some kvs"
    and size_holds: "holds t kvs \<Longrightarrow> bytes_of t = kv_bytes kvs"
    and holds_sorted: "holds t kvs \<Longrightarrow> sorted_wrt (<) (map fst kvs)"
begin

lemma put_all_holds:
  assumes "holds t kvs"
  shows "\<exists>t' kvs'. put_all put ops t = Some t' \<and> holds t' kvs' \<and> map_of kvs' = map_of kvs ++ map_of (rev (map snd ops))"
  using assms
proof (induction ops arbitrary: t kvs)
  case (Cons x ops)
  obtain c k v where x: "x = (c, k, v)" by (cases x)
  obtain t1 where t1: "put c k v t = Some t1" "holds t1 (kv_put k v kvs)" using put_holds [OF Cons.prems] by blast
  from Cons.IH [OF t1(2)] obtain t' kvs' where t': "put_all put ops t1 = Some t'" "holds t' kvs'"
    "map_of kvs' = map_of (kv_put k v kvs) ++ map_of (rev (map snd ops))" by blast
  have "map_of kvs' = map_of kvs ++ map_of (rev (map snd (x # ops)))"
    unfolding t'(3) by (simp add: map_of_kv_put x map_add_upd_left)
  moreover have "put_all put (x # ops) t = Some t'" using x t1(1) t'(1) by simp
  ultimately show ?case using t'(2) by blast
qed auto

end

interpretation skiplist: memtable NewSkiplist sk_Put sk_Get sk_All sk_size sk_holds
proof
  show "sk_holds NewSkiplist []"
    by (auto simp: sk_holds_def NewSkiplist_def sk_rep_def sk_static_def sk_entries_def kv_bytes_def height_def intro!: exI [of _ "[]"])
  show "sorted_wrt (<) (map fst kvs)" if "sk_holds t kvs" for t kvs
    using that sk_entries_sorted by (auto simp: sk_holds_def sk_rep_def)
  show "sk_size t = kv_bytes kvs" if "sk_holds t kvs" for t kvs using that by (simp add: sk_holds_def)
qed (use sk_Put_holds sk_Get_holds sk_All_holds in blast)+

text \<open>
  C15. The skip list is an ordered map: after any sequence of \<open>Put\<close> calls, whatever heights the new nodes
  get, no operation panics or loops, \<open>All\<close> lists every key once, in increasing order, with the value put last, \<open>Get\<close>
  returns that value or reports absence, and the counters are the number of keys and the bytes held.
\<close>

theorem skiplist_is_ordered_map:
  "\<exists>s kvs. put_all sk_Put ops NewSkiplist = Some s \<and> sk_All s = Some kvs \<and> sorted_wrt (<) (map fst kvs) \<and>
     map_of kvs = map_of (rev (map snd ops)) \<and> (\<forall>k. sk_Get k s = Some (map_of kvs k)) \<and>
     sk_entriesCnt s = length kvs \<and> sk_size s = kv_bytes kvs"
proof -
  obtain s kvs where s: "put_all sk_Put ops NewSkiplist = Some s" "sk_holds s kvs" "map_of kvs = map_of (rev (map snd ops))"
    using skiplist.put_all_holds [OF skiplist.new_holds, of ops] by auto
  note h = skiplist.all_holds [OF s(2)] skiplist.get_holds [OF s(2)] skiplist.holds_sorted [OF s(2)]
  have "sk_entriesCnt s = length kvs" "sk_size s = kv_bytes kvs" using s(2) by (simp_all add: sk_holds_def)
  then show ?thesis using s(1,3) h by (intro exI [of _ s] exI [of _ kvs]) simp
qed

end
