(* ===== verification/Lsm_Tree.thy ===== *)
theory Lsm_Tree
  imports Lsm_Sst Lsm_Memtable Go_Strings "HOL-Library.Product_Lexorder"
begin

text \<open>
  The LSM tree (\<open>src/apps/lsm_tree\<close>): configuration (\<open>config.go\<close>), the tree with its write and read
  path (\<open>tree.go\<close>), flushing and level compaction (\<open>tree_compact.go\<close>) and reopening a directory (\<open>tree_restore.go\<close>).

  The directory is a map from file names to contents, and so is the directory of the write-ahead logs. The items that
  goroutines wait to hand to the compaction goroutine are kept in the state; which of them is handed over next is
  open. The heights of new skip list nodes are arguments. File operations succeed, except for the write to the log,
  whose outcome is an argument. A panic is \<open>None\<close>. A node is known by its level and number, a memtable
  by its log. The files of merged nodes are deleted at the end of the merge.
\<close>

section \<open>Configuration\<close>

record Config =
  MaxLevel :: int
  SSTSize :: int
  SSTNumPerLevel :: int
  SSTDataBlockSize :: int
  cf_Filter :: "BloomFilter option"

definition repair :: "Config \<Rightarrow> Config" where
  "repair c = c\<lparr>MaxLevel := (if MaxLevel c \<le> 1 then 7 else MaxLevel c),
     SSTSize := (if SSTSize c \<le> 0 then 1024 * 1024 else SSTSize c),
     SSTDataBlockSize := (if SSTDataBlockSize c \<le> 0 then 16 * 1024 else SSTDataBlockSize c),
     SSTNumPerLevel := (if SSTNumPerLevel c \<le> 0 then 10 else SSTNumPerLevel c),
     cf_Filter := (case cf_Filter c of None \<Rightarrow> NewBloomFilter 1024 | f \<Rightarrow> f)\<rparr>"

section \<open>File names\<close>

definition sstFile :: "nat \<Rightarrow> int \<Rightarrow> string" where
  "sstFile level seq = itoa (int level) @ ''_'' @ itoa seq @ ''.sst''"

definition walFile :: "int \<Rightarrow> string" where
  "walFile i = itoa i @ ''.wal''"

definition walFileToMemTableIndex :: "string \<Rightarrow> int" where
  "walFileToMemTableIndex name = fst (Atoi (remove_all ''.wal'' 0 name))"

definition isSSTFile :: "string \<Rightarrow> bool" where
  "isSSTFile name \<longleftrightarrow> has_suffix name ''.sst'' \<and>
     (let parts = split_on CHR ''_'' (trim_suffix name ''.sst'')
      in length parts = 2 \<and> list_all (snd \<circ> Atoi) parts)"

definition getLevelSeqFromSSTFile :: "string \<Rightarrow> int \<times> int" where
  "getLevelSeqFromSSTFile name =
     (let arr = split_on CHR ''_'' (remove_all ''.sst'' 0 name)
      in (fst (Atoi (hd arr)), if length arr > 1 then wrap32 (fst (Atoi (arr ! 1))) else 0))"

section \<open>The tree\<close>

record memTableCompactItem =
  it_wal :: string
  it_mem :: Skiplist

record Tree =
  t_conf :: Config
  t_filter :: BloomFilter
  memTable :: Skiplist
  rOnlyMemTable :: "memTableCompactItem list"
  t_nodes :: "Node list list"
  memTableIndex :: int
  levelToSeq :: "int list"
  memCompactC :: "memTableCompactItem list"
  levelCompactC :: "nat list"
  sst_dir :: "(string, bytes) gomap"
  wal_dir :: "(string, bytes) gomap"

datatype tree_err = SstErr sst_err | WalErr io_err | WriteErr

definition file_bytes :: "(string, bytes) gomap \<Rightarrow> string \<Rightarrow> bytes" where
  "file_bytes d name = (case gm_get d name of None \<Rightarrow> [] | Some bs \<Rightarrow> bs)"

text \<open>Opening a file for writing creates it when it is absent and keeps its content.\<close>

definition open_create :: "string \<Rightarrow> (string, bytes) gomap \<Rightarrow> (string, bytes) gomap" where
  "open_create name d = (if gm_get d name = None then gm_set name [] d else d)"

definition newMemTable :: "Tree \<Rightarrow> Tree" where
  "newMemTable t = t\<lparr>wal_dir := open_create (walFile (memTableIndex t)) (wal_dir t), memTable := NewSkiplist\<rparr>"

definition refreshMemTableLocked :: "Tree \<Rightarrow> Tree" where
  "refreshMemTableLocked t =
     (let oldItem = \<lparr>it_wal = walFile (memTableIndex t), it_mem = memTable t\<rparr>
      in newMemTable (t\<lparr>rOnlyMemTable := rOnlyMemTable t @ [oldItem], memCompactC := memCompactC t @ [oldItem],
           memTableIndex := wrap64 (memTableIndex t + 1)\<rparr>))"

text \<open>The outcome of writing a record to the log: written, or failed after some bytes.\<close>

datatype wal_outcome = Written | Torn nat

definition wal_write :: "wal_outcome \<Rightarrow> bytes \<Rightarrow> bytes \<Rightarrow> bytes \<Rightarrow> bytes" where
  "wal_write r key value f = (case r of Written \<Rightarrow> wal_Write key value f | Torn n \<Rightarrow> f @ take n (wal_Write key value []))"

definition memtable_full :: "Tree \<Rightarrow> bool" where
  "memtable_full t \<longleftrightarrow>
     (let x = wrap64 (sk_size (memTable t) * 5); q = (if x < 0 then - ((- x) div 4) else x div 4)
      in SSTSize (t_conf t) < q mod 2 ^ 64)"

definition tree_Put :: "wal_outcome \<Rightarrow> nat \<Rightarrow> bytes \<Rightarrow> bytes \<Rightarrow> Tree \<Rightarrow> (Tree \<times> (tree_err + unit)) option" where
  "tree_Put r coins key value t =
     (let name = walFile (memTableIndex t);
          t = t\<lparr>wal_dir := gm_set name (wal_write r key value (file_bytes (wal_dir t) name)) (wal_dir t)\<rparr>
      in if r \<noteq> Written then Some (t, Inl WriteErr)
         else do {
           mem \<leftarrow> sk_Put coins key value (memTable t);
           let t = t\<lparr>memTable := mem\<rparr>;
           Some (if memtable_full t then refreshMemTableLocked t else t, Inr ()) })"

section \<open>Reading\<close>

fun get_mems :: "bytes \<Rightarrow> Skiplist list \<Rightarrow> bytes option option" where
  "get_mems key [] = Some None"
| "get_mems key (m # ms) = do { r \<leftarrow> sk_Get key m; (if r \<noteq> None then Some r else get_mems key ms) }"

fun get_nodes :: "BloomFilter \<Rightarrow> bytes \<Rightarrow> Node list \<Rightarrow> (sst_err + bytes option) option" where
  "get_nodes bf key [] = Some (Inr None)"
| "get_nodes bf key (n # ns) = do { r \<leftarrow> node_Get bf key n; (if r = Inr None then get_nodes bf key ns else Some r) }"

function levelBinarySearch :: "Node list \<Rightarrow> bytes \<Rightarrow> int \<Rightarrow> int \<Rightarrow> Node option option" where
  "levelBinarySearch ns key lo hi =
     (if lo > hi then Some None
      else let mid = lo + (hi - lo) div 2 in
        if mid < 0 then None
        else do {
          n \<leftarrow> rd ns (nat mid);
          (if endKey n < key then levelBinarySearch ns key (mid + 1) hi
           else if key \<le> startKey n then levelBinarySearch ns key lo (mid - 1)
           else Some (Some n)) })"
  by pat_completeness auto
termination
  by (relation "measure (\<lambda>(ns, key, lo, hi). nat (hi - lo + 1))") auto

declare levelBinarySearch.simps [simp del]

fun get_levels :: "BloomFilter \<Rightarrow> bytes \<Rightarrow> Node list list \<Rightarrow> (sst_err + bytes option) option" where
  "get_levels bf key [] = Some (Inr None)"
| "get_levels bf key (ns # rest) = do {
     n \<leftarrow> levelBinarySearch ns key 0 (int (length ns) - 1);
     (case n of
        None \<Rightarrow> get_levels bf key rest
      | Some n \<Rightarrow> do { r \<leftarrow> node_Get bf key n; (if r = Inr None then get_levels bf key rest else Some r) }) }"

definition tree_Get :: "bytes \<Rightarrow> Tree \<Rightarrow> (sst_err + bytes option) option" where
  "tree_Get key t = do {
     r \<leftarrow> get_mems key (memTable t # rev (map it_mem (rOnlyMemTable t)));
     (if r \<noteq> None then Some (Inr r)
      else do {
        l0 \<leftarrow> rd (t_nodes t) 0;
        r \<leftarrow> get_nodes (t_filter t) key (rev l0);
        (if r \<noteq> Inr None then Some r else get_levels (t_filter t) key (tl (t_nodes t))) }) }"

section \<open>Nodes and their files\<close>

text \<open>A node is put before the first but one node, or a later one, that starts above its end, or else at the end.\<close>

fun insert_node :: "Node \<Rightarrow> Node list \<Rightarrow> Node list" where
  "insert_node n (a # b # ns) = (if endKey n < startKey b then a # n # b # ns else a # insert_node n (b # ns))"
| "insert_node n ns = ns @ [n]"

definition insertNodeWithReader :: "SSTReader \<Rightarrow> int \<Rightarrow> int \<Rightarrow> nat \<Rightarrow> (nat, bytes) gomap \<Rightarrow> Index list \<Rightarrow> Tree \<Rightarrow> Tree option" where
  "insertNodeWithReader rdr level seq sz b2f ix t =
     (if level < 0 then None
      else do {
        seqs \<leftarrow> wr (levelToSeq t) (nat level) seq;
        n \<leftarrow> NewNode (nat level, seq) rdr sz b2f ix;
        ns \<leftarrow> rd (t_nodes t) (nat level);
        nss \<leftarrow> wr (t_nodes t) (nat level) (if level = 0 then ns @ [n] else insert_node n ns);
        Some (t\<lparr>levelToSeq := seqs, t_nodes := nss\<rparr>) })"

definition insertNode :: "nat \<Rightarrow> int \<Rightarrow> nat \<Rightarrow> (nat, bytes) gomap \<Rightarrow> Index list \<Rightarrow> Tree \<Rightarrow> Tree option" where
  "insertNode level seq sz b2f ix t = insertNodeWithReader (NewSSTReader (file_bytes (sst_dir t) (sstFile level seq))) (int level) seq sz b2f ix t"

text \<open>The next number of a level, and a writer for the file of this number.\<close>

definition new_writer :: "nat \<Rightarrow> Tree \<Rightarrow> (int \<times> SSTWriter \<times> Tree) option" where
  "new_writer level t = do {
     s \<leftarrow> rd (levelToSeq t) level;
     let seq = wrap32 (s + 1);
     Some (seq, NewSSTWriter (nat (SSTDataBlockSize (t_conf t))) (t_filter t), t\<lparr>sst_dir := open_create (sstFile level seq) (sst_dir t)\<rparr>) }"

definition finish_node :: "nat \<Rightarrow> int \<Rightarrow> SSTWriter \<Rightarrow> Tree \<Rightarrow> Tree option" where
  "finish_node level seq w t = do {
     let name = sstFile level seq;
     (w, f, sz) \<leftarrow> Finish (file_bytes (sst_dir t) name) w;
     insertNode level seq sz (blockToFilter w) (w_index w) (t\<lparr>sst_dir := gm_set name f (sst_dir t), t_filter := w_filter w\<rparr>) }"

section \<open>Flushing\<close>

definition level_limit :: "Config \<Rightarrow> nat \<Rightarrow> int" where
  "level_limit c level = SSTSize c * 10 ^ level mod 2 ^ 64"

definition tryTriggerCompact :: "nat \<Rightarrow> Tree \<Rightarrow> Tree option" where
  "tryTriggerCompact level t =
     (if level + 1 = length (t_nodes t) then Some t
      else do {
        ns \<leftarrow> rd (t_nodes t) level;
        (if int (sum_list (map n_size ns)) mod 2 ^ 64 \<le> level_limit (t_conf t) level * (SSTNumPerLevel (t_conf t) mod 2 ^ 64) mod 2 ^ 64 then Some t
         else Some (t\<lparr>levelCompactC := levelCompactC t @ [level]\<rparr>)) })"

definition flushMemTable :: "Skiplist \<Rightarrow> Tree \<Rightarrow> Tree option" where
  "flushMemTable mem t = do {
     (seq, w, t) \<leftarrow> new_writer 0 t;
     kvs \<leftarrow> sk_All mem;
     w \<leftarrow> sst_AppendAll kvs w;
     t \<leftarrow> finish_node 0 seq w t;
     tryTriggerCompact 0 t }"

definition reclaim :: "string \<Rightarrow> memTableCompactItem list \<Rightarrow> memTableCompactItem list" where
  "reclaim name ro = (let r = dropWhile (\<lambda>x. it_wal x \<noteq> name) ro in if r = [] then ro else tl r)"

definition compactMemTable :: "memTableCompactItem \<Rightarrow> Tree \<Rightarrow> Tree option" where
  "compactMemTable item t = do {
     t \<leftarrow> flushMemTable (it_mem item) t;
     Some (t\<lparr>rOnlyMemTable := reclaim (it_wal item) (rOnlyMemTable t), wal_dir := gm_del (it_wal item) (wal_dir t)\<rparr>) }"

section \<open>Level compaction\<close>

definition pickCompactNodes :: "nat \<Rightarrow> Tree \<Rightarrow> Node list option" where
  "pickCompactNodes level t = do {
     ns \<leftarrow> rd (t_nodes t) level;
     up \<leftarrow> rd (t_nodes t) (level + 1);
     n0 \<leftarrow> rd ns 0;
     m \<leftarrow> rd ns (length ns div 2);
     let lo = (if startKey m < startKey n0 then startKey m else startKey n0);
     let hi = (if endKey n0 < endKey m then endKey m else endKey n0);
     let overlaps = (\<lambda>n. \<not> (hi < startKey n \<or> endKey n < lo));
     Some (filter overlaps up @ filter overlaps ns) }"

text \<open>All pairs of the picked nodes in their order; a node that cannot be read gives none.\<close>

fun gather :: "Node list \<Rightarrow> (bytes \<times> bytes) list option" where
  "gather [] = Some []"
| "gather (n # ns) = do {
     r \<leftarrow> GetAll n;
     rest \<leftarrow> gather ns;
     Some ((case r of Inl _ \<Rightarrow> [] | Inr kvs \<Rightarrow> kvs) @ rest) }"

definition with_coins :: "(nat \<Rightarrow> nat) \<Rightarrow> (bytes \<times> bytes) list \<Rightarrow> (nat \<times> bytes \<times> bytes) list" where
  "with_coins cs kvs = map (\<lambda>(i, kv). (cs i, kv)) (enumerate 0 kvs)"

definition pickedNodesToKVs :: "(nat \<Rightarrow> nat) \<Rightarrow> Node list \<Rightarrow> (bytes \<times> bytes) list option" where
  "pickedNodesToKVs cs picked = do {
     kvs \<leftarrow> gather picked;
     mem \<leftarrow> put_all sk_Put (with_coins cs kvs) NewSkiplist;
     sk_All mem }"

definition drop_file :: "nat \<times> int \<Rightarrow> Node list \<Rightarrow> Node list" where
  "drop_file f ns = takeWhile (\<lambda>n. n_file n \<noteq> f) ns @ tl (dropWhile (\<lambda>n. n_file n \<noteq> f) ns)"

definition remove_node :: "nat \<Rightarrow> Node \<Rightarrow> Node list list \<Rightarrow> Node list list option" where
  "remove_node level n nss = do {
     up \<leftarrow> rd nss (level + 1);
     (if n_file n \<in> n_file ` set up then wr nss (level + 1) (drop_file (n_file n) up)
      else do { ns \<leftarrow> rd nss level; wr nss level (if n_file n \<in> n_file ` set ns then drop_file (n_file n) ns else ns) }) }"

fun remove_nodes :: "nat \<Rightarrow> Node list \<Rightarrow> Node list list \<Rightarrow> Node list list option" where
  "remove_nodes level [] nss = Some nss"
| "remove_nodes level (n # ns) nss = remove_node level n nss \<bind> remove_nodes level ns"

definition node_name :: "Node \<Rightarrow> string" where
  "node_name n = sstFile (fst (n_file n)) (snd (n_file n))"

definition removeNodes :: "nat \<Rightarrow> Node list \<Rightarrow> Tree \<Rightarrow> Tree option" where
  "removeNodes level picked t = do {
     nss \<leftarrow> remove_nodes level picked (t_nodes t);
     Some (t\<lparr>t_nodes := nss, sst_dir := fold (\<lambda>n. gm_del (node_name n)) picked (sst_dir t)\<rparr>) }"

fun compact_loop :: "int \<Rightarrow> nat \<Rightarrow> (bytes \<times> bytes) list \<Rightarrow> int \<times> SSTWriter \<times> Tree \<Rightarrow> Tree option" where
  "compact_loop limit level [] (seq, w, t) = Some t"
| "compact_loop limit level ((k, v) # kvs) (seq, w, t) = do {
     (seq, w, t) \<leftarrow> (if int (sst_Size w) > limit then finish_node level seq w t \<bind> new_writer level else Some (seq, w, t));
     w \<leftarrow> sst_Append k v w;
     (if kvs = [] then finish_node level seq w t else compact_loop limit level kvs (seq, w, t)) }"

definition compactLevel :: "(nat \<Rightarrow> nat) \<Rightarrow> nat \<Rightarrow> Tree \<Rightarrow> Tree option" where
  "compactLevel cs level t = do {
     ns \<leftarrow> rd (t_nodes t) level;
     (if ns = [] then Some t
      else do {
        picked \<leftarrow> pickCompactNodes level t;
        start \<leftarrow> new_writer (level + 1) t;
        kvs \<leftarrow> pickedNodesToKVs cs picked;
        t \<leftarrow> compact_loop (level_limit (t_conf t) (level + 1)) (level + 1) kvs start;
        t \<leftarrow> removeNodes level picked t;
        tryTriggerCompact (level + 1) t }) }"

section \<open>Reopening a directory\<close>

definition getSortedSSTEntries :: "(string, bytes) gomap \<Rightarrow> string list" where
  "getSortedSSTEntries d = sort_key getLevelSeqFromSSTFile (filter isSSTFile (map fst d))"

definition loadNode :: "string \<Rightarrow> Tree \<Rightarrow> (tree_err + Tree) option" where
  "loadNode name t = do {
     r \<leftarrow> read_table (file_bytes (sst_dir t) name);
     (case r of
        Inl e \<Rightarrow> Some (Inl (SstErr e))
      | Inr (rdr, sz, b2f, ix) \<Rightarrow>
          (case getLevelSeqFromSSTFile name of (level, seq) \<Rightarrow> map_option Inr (insertNodeWithReader rdr level seq sz b2f ix t))) }"

fun load_nodes :: "string list \<Rightarrow> Tree \<Rightarrow> (tree_err + Tree) option" where
  "load_nodes [] t = Some (Inr t)"
| "load_nodes (name # names) t = do {
     r \<leftarrow> loadNode name t;
     (case r of Inl e \<Rightarrow> Some (Inl e) | Inr t \<Rightarrow> load_nodes names t) }"

definition constructTree :: "Tree \<Rightarrow> (tree_err + Tree) option" where
  "constructTree t = load_nodes (getSortedSSTEntries (sst_dir t)) t"

definition RestoreToMemtable :: "(nat \<Rightarrow> nat) \<Rightarrow> bytes \<Rightarrow> (tree_err + Skiplist) option" where
  "RestoreToMemtable cs f = (case wal_readAll f of
     Inl e \<Rightarrow> Some (Inl (WalErr e))
   | Inr kvs \<Rightarrow> map_option Inr (put_all sk_Put (with_coins cs kvs) NewSkiplist))"

text \<open>The send to the compaction goroutine blocks, so the older memtables are flushed in their order.\<close>

fun restore_loop :: "(string \<Rightarrow> nat \<Rightarrow> nat) \<Rightarrow> string list \<Rightarrow> Tree \<Rightarrow> (tree_err + Tree) option" where
  "restore_loop cs [] t = Some (Inr t)"
| "restore_loop cs (name # names) t = do {
     r \<leftarrow> RestoreToMemtable (cs name) (file_bytes (wal_dir t) name);
     (case r of
        Inl e \<Rightarrow> Some (Inl e)
      | Inr mem \<Rightarrow>
          if names = [] then
            Some (Inr (t\<lparr>memTable := mem, memTableIndex := walFileToMemTableIndex name, wal_dir := open_create name (wal_dir t)\<rparr>))
          else do {
            let item = \<lparr>it_wal = name, it_mem = mem\<rparr>;
            t \<leftarrow> compactMemTable item (t\<lparr>rOnlyMemTable := rOnlyMemTable t @ [item]\<rparr>);
            restore_loop cs names t }) }"

definition constructMemtable :: "(string \<Rightarrow> nat \<Rightarrow> nat) \<Rightarrow> Tree \<Rightarrow> (tree_err + Tree) option" where
  "constructMemtable cs t =
     (let wals = filter (\<lambda>name. has_suffix name ''.wal'') (map fst (wal_dir t))
      in if wals = [] then Some (Inr (newMemTable t))
         else restore_loop cs (sort_key walFileToMemTableIndex wals) t)"

definition NewTree :: "(string \<Rightarrow> nat \<Rightarrow> nat) \<Rightarrow> Config \<Rightarrow> BloomFilter \<Rightarrow> (string, bytes) gomap \<Rightarrow> (string, bytes) gomap \<Rightarrow> (tree_err + Tree) option" where
  "NewTree cs c bf sst wal =
     (if MaxLevel c < 0 then None
      else do {
        r \<leftarrow> constructTree \<lparr>t_conf = c, t_filter = bf, memTable = NewSkiplist, rOnlyMemTable = [],
          t_nodes = replicate (nat (MaxLevel c)) [], memTableIndex = 0, levelToSeq = replicate (nat (MaxLevel c)) 0,
          memCompactC = [], levelCompactC = [], sst_dir = sst, wal_dir = wal\<rparr>;
        (case r of Inl e \<Rightarrow> Some (Inl e) | Inr t \<Rightarrow> constructMemtable cs t) })"

section \<open>Runs\<close>

text \<open>
  What can happen to a tree: a write, the compaction goroutine receiving the \<open>i\<close>-th waiting memtable or the
  \<open>i\<close>-th waiting level, and the end of the process, in whatever way, followed by opening the directory again.
\<close>

datatype tree_op = OpPut nat bytes bytes | OpFlush nat | OpCompact "nat \<Rightarrow> nat" nat | OpReopen "string \<Rightarrow> nat \<Rightarrow> nat"

definition ok_result :: "(tree_err + Tree) option \<Rightarrow> Tree option" where
  "ok_result r = (case r of Some (Inr t) \<Rightarrow> Some t | _ \<Rightarrow> None)"

definition without_nth :: "nat \<Rightarrow> 'a list \<Rightarrow> 'a list" where
  "without_nth i xs = take i xs @ drop (i + 1) xs"

fun tree_exec :: "tree_op \<Rightarrow> Tree \<Rightarrow> Tree option" where
  "tree_exec (OpPut coins k v) t = (case tree_Put Written coins k v t of Some (t', Inr _) \<Rightarrow> Some t' | _ \<Rightarrow> None)"
| "tree_exec (OpFlush i) t = (case rd (memCompactC t) i of
     None \<Rightarrow> Some t
   | Some item \<Rightarrow> compactMemTable item (t\<lparr>memCompactC := without_nth i (memCompactC t)\<rparr>))"
| "tree_exec (OpCompact cs i) t = (case rd (levelCompactC t) i of
     None \<Rightarrow> Some t
   | Some level \<Rightarrow> compactLevel cs level (t\<lparr>levelCompactC := without_nth i (levelCompactC t)\<rparr>))"
| "tree_exec (OpReopen cs) t = ok_result (NewTree cs (t_conf t) (bf_Reset (t_filter t)) (sst_dir t) (wal_dir t))"

fun tree_run :: "tree_op list \<Rightarrow> Tree \<Rightarrow> Tree option" where
  "tree_run [] t = Some t"
| "tree_run (op # ops) t = tree_exec op t \<bind> tree_run ops"

end
