(* ===== verification/Lsm_Durability.thy ===== *)
theory Lsm_Durability
  imports Lsm_Tree
begin

text \<open>
  What the LSM tree keeps: writes, flushes and restarts preserve the latest value of every key as long as memtables are
  flushed in their order and no level is merged, and runs in which the compaction loses or revives values.
\<close>

section \<open>File names\<close>

lemma has_suffix_append: "has_suffix (s @ p) p" "\<not> has_suffix s p \<Longrightarrow> trim_suffix s p = s" "trim_suffix (s @ p) p = s"
  by (auto simp: has_suffix_def trim_suffix_def has_prefix_def)

lemma wal_name: "- (2 ^ 63) \<le> i \<Longrightarrow> i < 2 ^ 63 \<Longrightarrow> walFileToMemTableIndex (walFile i) = i"
  using remove_all_suffix [of "''.wal''" "itoa i"] itoa_chars(2) [of i] Atoi_itoa [of i]
  by (simp add: walFileToMemTableIndex_def walFile_def)

lemma wal_suffix: "has_suffix (walFile i) ''.wal''"
  unfolding walFile_def by (rule has_suffix_append)

lemma sst_parts: "split_on CHR ''_'' (itoa a @ ''_'' @ itoa b) = [itoa a, itoa b]"
  using split_on_append_sep [OF itoa_chars(1), of a "itoa b"] itoa_chars(1) [of b] by simp

lemma sst_name:
  assumes "int level < 2 ^ 63" and "- (2 ^ 31) \<le> seq" "seq < 2 ^ 31"
  shows "getLevelSeqFromSSTFile (sstFile level seq) = (int level, seq)" and "isSSTFile (sstFile level seq)"
proof -
  let ?s = "itoa (int level) @ ''_'' @ itoa seq"
  have f: "sstFile level seq = ?s @ ''.sst''" by (simp add: sstFile_def)
  have r: "remove_all ''.sst'' 0 (?s @ ''.sst'') = ?s"
    using itoa_chars(2) by (intro remove_all_suffix) auto
  have a: "Atoi (itoa (int level)) = (int level, True)" "Atoi (itoa seq) = (seq, True)" using assms by (auto intro!: Atoi_itoa)
  show "getLevelSeqFromSSTFile (sstFile level seq) = (int level, seq)"
    unfolding getLevelSeqFromSSTFile_def f r sst_parts using a wrap32_id [OF assms(2,3)] by simp
  show "isSSTFile (sstFile level seq)"
    unfolding isSSTFile_def f has_suffix_append(3) sst_parts using a has_suffix_append(1) [of ?s "''.sst''"] by simp
qed

text \<open>A list of names whose numbers ascend is kept by the filter and by the sort.\<close>

lemma sorted_names:
  fixes num :: "'a \<Rightarrow> 'b :: linorder"
  assumes "\<And>x. x \<in> set xs \<Longrightarrow> P (name x) \<and> key (name x) = num x" and "sorted_wrt (<) (map num xs)"
  shows "sort_key key (filter P (map name xs)) = map name xs"
proof -
  have "filter P (map name xs) = map name xs" using assms(1) by (intro filter_True) auto
  moreover have "map key (map name xs) = map num xs" using assms(1) by auto
  then have "sorted (map key (map name xs))" using assms(2) by (metis strict_sorted_imp_sorted)
  ultimately show ?thesis using sort_key_id_if_sorted by metis
qed

lemma names_distinct:
  fixes num :: "'a \<Rightarrow> 'b :: linorder"
  assumes "\<And>x. x \<in> set xs \<Longrightarrow> key (name x) = num x" and "sorted_wrt (<) (map num xs)"
  shows "distinct (map name xs)"
proof -
  have "distinct (map num xs)" using assms(2) by (simp add: strict_sorted_iff)
  moreover have "map num xs = map key (map name xs)" using assms(1) by auto
  ultimately show ?thesis by (metis distinct_map)
qed

section \<open>What a tree holds\<close>

type_synonym kvs = "(bytes \<times> bytes) list"

text \<open>A memtable with the number of its log and the writes the log records.\<close>

type_synonym gen = "int \<times> kvs \<times> Skiplist"

definition good_key :: "bytes \<Rightarrow> bool" where
  "good_key k \<longleftrightarrow> k \<noteq> [] \<and> last k \<noteq> 0"

definition good_kvs :: "kvs \<Rightarrow> bool" where
  "good_kvs kvs \<longleftrightarrow> (\<forall>k\<in>fst ` set kvs. good_key k)"

definition gen_ok :: "nat \<Rightarrow> kvs \<Rightarrow> gen \<Rightarrow> bool" where
  "gen_ok m P g = (case g of (i, ops, mem) \<Rightarrow>
     (\<exists>kvs. sk_holds mem kvs \<and> map_of kvs = map_of (rev ops)) \<and> good_kvs ops \<and> table_budget m ops \<le> table_budget m P)"

definition gen_item :: "gen \<Rightarrow> memTableCompactItem" where
  "gen_item g = (case g of (i, ops, mem) \<Rightarrow> \<lparr>it_wal = walFile i, it_mem = mem\<rparr>)"

definition gen_file :: "gen \<Rightarrow> string \<times> bytes" where
  "gen_file g = (case g of (i, ops, mem) \<Rightarrow> (walFile i, wal_file ops))"

definition node_ok :: "nat \<Rightarrow> Node \<Rightarrow> kvs \<Rightarrow> bool" where
  "node_ok m n kvs \<longleftrightarrow> table_holds m (src (sstReader n)) (n_size n) (n_filters n) (n_index n) kvs"

definition node_file :: "Node \<Rightarrow> string \<times> bytes" where
  "node_file n = (node_name n, src (sstReader n))"

text \<open>The tables, the waiting memtables and the active one, from the oldest to the newest.\<close>

definition layered :: "kvs list \<Rightarrow> bytes \<Rightarrow> bytes option" where
  "layered ls = foldl (\<lambda>M kvs. M ++ map_of kvs) Map.empty ls"

definition disk_shape :: "nat \<Rightarrow> Node list \<Rightarrow> kvs list \<Rightarrow> Tree \<Rightarrow> bool" where
  "disk_shape m ns Ls t \<longleftrightarrow>
     t_filter t = \<lparr>bf_m = m, hashedKeys = []\<rparr> \<and> 0 < m \<and> m < 2 ^ 32 \<and> 0 < MaxLevel (t_conf t) \<and>
     t_nodes t = ns # replicate (nat (MaxLevel (t_conf t)) - 1) [] \<and>
     levelToSeq t = int (length ns) # replicate (nat (MaxLevel (t_conf t)) - 1) 0 \<and>
     sst_dir t = map node_file ns \<and> map n_file ns = map (\<lambda>i. (0, int i + 1)) [0..<length ns] \<and> list_all2 (node_ok m) ns Ls"

definition tree_shape :: "nat \<Rightarrow> kvs \<Rightarrow> Node list \<Rightarrow> kvs list \<Rightarrow> gen list \<Rightarrow> kvs \<Rightarrow> Tree \<Rightarrow> bool" where
  "tree_shape m P ns Ls gs ops t \<longleftrightarrow>
     disk_shape m ns Ls t \<and> rOnlyMemTable t = map gen_item gs \<and> memCompactC t = map gen_item gs \<and>
     wal_dir t = map gen_file (gs @ [(memTableIndex t, ops, memTable t)]) \<and>
     sorted_wrt (<) (map fst (gs @ [(memTableIndex t, ops, memTable t)])) \<and> (\<forall>i\<in>fst ` set (gs @ [(memTableIndex t, ops, memTable t)]). 0 \<le> i) \<and>
     memTableIndex t \<le> int (length P) \<and> length ns + length gs \<le> length P \<and>
     list_all (gen_ok m P) (gs @ [(memTableIndex t, ops, memTable t)]) \<and> (\<forall>g\<in>set gs. fst (snd g) \<noteq> []) \<and>
     layered (Ls @ map (rev \<circ> fst \<circ> snd) gs @ [rev ops]) = map_of (rev P)"

definition in_bounds :: "nat \<Rightarrow> kvs \<Rightarrow> bool" where
  "in_bounds m P \<longleftrightarrow> table_budget m P < 2 ^ 56 \<and> length P < 2 ^ 31"

section \<open>Reading\<close>

lemma layered_snoc: "layered (ls @ [kvs]) = layered ls ++ map_of kvs"
  by (simp add: layered_def)

lemma layered_append: "layered (ls @ ks) k = (case layered ks k of None \<Rightarrow> layered ls k | Some v \<Rightarrow> Some v)"
  by (induction ks rule: rev_induct)
    (auto simp: layered_def map_add_def fun_eq_iff split: option.splits)

lemma layered_cong:
  assumes "map map_of ls = map map_of ks" shows "layered ls = layered ks"
proof -
  have "layered ls = foldl (\<lambda>M f. M ++ f) Map.empty (map map_of ls)" for ls :: "kvs list"
    unfolding layered_def by (induction ls rule: rev_induct) auto
  then show ?thesis using assms by metis
qed

lemma get_mems_layered:
  "list_all2 (\<lambda>mem ops. \<exists>kvs. sk_holds mem kvs \<and> map_of kvs = map_of ops) mems opss \<Longrightarrow> get_mems key mems = Some (layered (rev opss) key)"
proof (induction rule: list_all2_induct)
  case (Cons mem mems ops opss)
  then obtain kvs where kvs: "sk_holds mem kvs" "map_of kvs = map_of ops" by blast
  show ?case using sk_Get_holds [OF kvs(1)] kvs(2) Cons(3) by (auto simp: layered_snoc map_add_def split: option.splits)
qed (simp add: layered_def)

lemma get_nodes_layered:
  "list_all2 (node_ok m) ns Ls \<Longrightarrow> bf_m bf = m \<Longrightarrow> get_nodes bf key ns = Some (Inr (layered (rev Ls) key))"
proof (induction rule: list_all2_induct)
  case (Cons n ns kvs Ls)
  have "node_Get bf key n = Some (Inr (map_of kvs key))"
    using table_reads(3) Cons(1,4) unfolding node_ok_def by blast
  then show ?case using Cons by (auto simp: layered_snoc map_add_def split: option.splits)
qed (simp add: layered_def)

lemma get_levels_empty: "get_levels bf key (replicate n []) = Some (Inr None)"
  by (induction n) (auto simp: levelBinarySearch.simps)

lemma rev_mems:
  assumes "list_all (gen_ok m P) gs"
  shows "list_all2 (\<lambda>mem ops. \<exists>kvs. sk_holds mem kvs \<and> map_of kvs = map_of ops) (rev (map (it_mem \<circ> gen_item) gs)) (rev (map (rev \<circ> fst \<circ> snd) gs))"
proof -
  have "list_all2 (\<lambda>mem ops. \<exists>kvs. sk_holds mem kvs \<and> map_of kvs = map_of ops) (map (it_mem \<circ> gen_item) gs) (map (rev \<circ> fst \<circ> snd) gs)"
    using assms by (induction gs) (auto simp: gen_ok_def gen_item_def)
  then show ?thesis by (simp add: list_all2_rev)
qed

text \<open>A tree answers with the latest write.\<close>

lemma shape_Get:
  assumes "tree_shape m P ns Ls gs ops t"
  shows "tree_Get key t = Some (Inr (map_of (rev P) key))"
proof -
  let ?cur = "(memTableIndex t, ops, memTable t)"
  have s: "t_filter t = \<lparr>bf_m = m, hashedKeys = []\<rparr>" "t_nodes t = ns # replicate (nat (MaxLevel (t_conf t)) - 1) []"
    "rOnlyMemTable t = map gen_item gs" "list_all2 (node_ok m) ns Ls" "list_all (gen_ok m P) (gs @ [?cur])"
    "layered (Ls @ map (rev \<circ> fst \<circ> snd) (gs @ [?cur])) = map_of (rev P)"
    using assms unfolding tree_shape_def disk_shape_def by auto
  have "memTable t # rev (map it_mem (rOnlyMemTable t)) = rev (map (it_mem \<circ> gen_item) (gs @ [?cur]))"
    using s(3) by (simp add: gen_item_def)
  then have mems: "get_mems key (memTable t # rev (map it_mem (rOnlyMemTable t))) = Some (layered (map (rev \<circ> fst \<circ> snd) (gs @ [?cur])) key)"
    using get_mems_layered [OF rev_mems [OF s(5)]] by (metis rev_rev_ident)
  have "list_all2 (node_ok m) (rev ns) (rev Ls)" using s(4) by (simp add: list_all2_rev)
  from get_nodes_layered [OF this, of "t_filter t" key]
  have nodes: "get_nodes (t_filter t) key (rev ns) = Some (Inr (layered Ls key))" using s(1) by simp
  show ?thesis
    unfolding tree_Get_def mems s(6) [symmetric] layered_append
    using nodes s(2) get_levels_empty by (auto simp: rd_def split: option.splits)
qed

section \<open>Writing\<close>

lemma gm_set_last: "name \<notin> fst ` set d \<Longrightarrow> gm_set name v (d @ [(name, w)]) = d @ [(name, v)]"
  by (induction d) (auto simp: gm_set_def)

lemma wal_file_append: "wal_Write k v (wal_file ops) = wal_file (ops @ [(k, v)])"
  by (induction ops) (auto simp: wal_Write_def)

lemma budget_snoc: "table_budget m (xs @ [kv]) = table_budget m xs + (3 * volume [kv] + m + 100)"
  by (cases kv) (simp add: table_budget_def add_mult_distrib)

lemma map_of_rev_snoc: "map_of (rev (xs @ [(k, v)])) = (map_of (rev xs))(k \<mapsto> v)"
  by simp

lemma gen_ok_mono: "gen_ok m P g \<Longrightarrow> table_budget m P \<le> table_budget m Q \<Longrightarrow> gen_ok m Q g"
  by (auto simp: gen_ok_def)

lemma gen_ok_put:
  assumes "gen_ok m P (i, ops, mem)" and "good_key k"
  obtains mem' where "sk_Put c k v mem = Some mem'" "gen_ok m (P @ [(k, v)]) (j, ops @ [(k, v)], mem')"
proof -
  obtain kvs where kvs: "sk_holds mem kvs" "map_of kvs = map_of (rev ops)" using assms(1) by (auto simp: gen_ok_def)
  obtain mem' where mem': "sk_Put c k v mem = Some mem'" "sk_holds mem' (kv_put k v kvs)" using sk_Put_holds [OF kvs(1)] by blast
  have "map_of (kv_put k v kvs) = map_of (rev (ops @ [(k, v)]))" using kvs(2) by (simp add: map_of_kv_put)
  then have "gen_ok m (P @ [(k, v)]) (j, ops @ [(k, v)], mem')"
    using mem'(2) assms by (auto simp: gen_ok_def good_kvs_def budget_snoc)
  then show thesis using that mem'(1) by blast
qed

lemma gen_names:
  assumes "sorted_wrt (<) (map fst gs)" and "\<And>i. i \<in> fst ` set gs \<Longrightarrow> 0 \<le> i \<and> i < 2 ^ 63"
  shows "distinct (map (fst \<circ> gen_file) gs)"
proof -
  have "walFileToMemTableIndex ((fst \<circ> gen_file) g) = fst g" if "g \<in> set gs" for g
    using assms(2) [of "fst g"] that wal_name [of "fst g"] by (auto simp: gen_file_def split: prod.splits)
  then show ?thesis using assms(1) by (rule names_distinct)
qed

lemma shape_indices:
  assumes "tree_shape m P ns Ls gs ops t" and "in_bounds m P" and "g \<in> set (gs @ [(memTableIndex t, ops, memTable t)])"
  shows "0 \<le> fst g \<and> fst g \<le> memTableIndex t \<and> memTableIndex t < 2 ^ 31"
proof -
  have "sorted_wrt (<) (map fst (gs @ [(memTableIndex t, ops, memTable t)]))" "0 \<le> fst g" "memTableIndex t \<le> int (length P)"
    using assms(1,3) unfolding tree_shape_def by auto
  then show ?thesis using assms(2,3) by (auto simp: sorted_wrt_append in_bounds_def)
qed

text \<open>The state after the write, before the memtable is looked at.\<close>

lemma shape_write:
  assumes s: "tree_shape m P ns Ls gs ops t" and b: "in_bounds m P" and k: "good_key k"
  obtains mem where "sk_Put c k v (memTable t) = Some mem"
    "tree_shape m (P @ [(k, v)]) ns Ls gs (ops @ [(k, v)])
       (t\<lparr>wal_dir := gm_set (walFile (memTableIndex t)) (wal_Write k v (file_bytes (wal_dir t) (walFile (memTableIndex t)))) (wal_dir t), memTable := mem\<rparr>)"
proof -
  let ?i = "memTableIndex t" and ?P = "P @ [(k, v)]"
  have ok: "list_all (gen_ok m P) gs" "gen_ok m P (?i, ops, memTable t)" and wal: "wal_dir t = map gen_file gs @ [(walFile ?i, wal_file ops)]"
    and srt: "sorted_wrt (<) (map fst (gs @ [(?i, ops, memTable t)]))"
    using s unfolding tree_shape_def by (auto simp: gen_file_def)
  obtain mem where mem: "sk_Put c k v (memTable t) = Some mem" "gen_ok m ?P (?i, ops @ [(k, v)], mem)" using gen_ok_put [OF ok(2) k] by blast
  have gs: "list_all (gen_ok m ?P) gs" using ok(1) by (auto simp: list_all_iff budget_snoc intro: gen_ok_mono)
  have dist: "distinct (map (fst \<circ> gen_file) (gs @ [(?i, ops, memTable t)]))"
    using srt shape_indices [OF s b] by (intro gen_names) force+
  moreover have "fst (gen_file (?i, ops, memTable t)) = walFile ?i" by (simp add: gen_file_def)
  ultimately have new: "walFile ?i \<notin> fst ` set (map gen_file gs)" by (simp add: image_comp)
  then have "map_of (map gen_file gs) (walFile ?i) = None" by (simp add: map_of_eq_None_iff)
  then have "map_of (wal_dir t) (walFile ?i) = Some (wal_file ops)" unfolding wal by (simp add: map_add_def)
  then have upd: "gm_set (walFile ?i) (wal_Write k v (file_bytes (wal_dir t) (walFile ?i))) (wal_dir t) = map gen_file (gs @ [(?i, ops @ [(k, v)], mem)])"
    using gm_set_last [OF new] by (simp add: file_bytes_def wal wal_file_append gen_file_def)
  have lay: "layered (Ls @ map (rev \<circ> fst \<circ> snd) gs @ [rev (ops @ [(k, v)])]) = map_of (rev ?P)"
  proof -
    have "layered ((Ls @ map (rev \<circ> fst \<circ> snd) gs) @ [rev ops]) = map_of (rev P)" using s unfolding tree_shape_def by auto
    then show ?thesis unfolding append_assoc [symmetric] layered_snoc map_of_rev_snoc by simp
  qed
  have "tree_shape m ?P ns Ls gs (ops @ [(k, v)]) (t\<lparr>wal_dir := map gen_file (gs @ [(?i, ops @ [(k, v)], mem)]), memTable := mem\<rparr>)"
    using s gs mem(2) lay unfolding tree_shape_def by (auto simp: disk_shape_def)
  then show thesis using that mem(1) upd by metis
qed

text \<open>Turning over the memtable.\<close>

lemma shape_rotate:
  assumes s: "tree_shape m P ns Ls gs ops t" and b: "in_bounds m P" and ne: "ops \<noteq> []"
    and room: "length ns + length gs < length P" "memTableIndex t < int (length P)"
  shows "tree_shape m P ns Ls (gs @ [(memTableIndex t, ops, memTable t)]) [] (refreshMemTableLocked t)"
proof -
  let ?i = "memTableIndex t" and ?cur = "(memTableIndex t, ops, memTable t)"
  note ind = shape_indices [OF s b]
  have i: "0 \<le> ?i" "?i < 2 ^ 31" using ind [of ?cur] by auto
  then have w: "wrap64 (?i + 1) = ?i + 1" by (intro wrap64_id) auto
  have wal: "wal_dir t = map gen_file (gs @ [?cur])" and srt: "sorted_wrt (<) (map fst (gs @ [?cur]))"
    using s unfolding tree_shape_def by auto
  have srt': "sorted_wrt (<) (map fst ((gs @ [?cur]) @ [(?i + 1, [], NewSkiplist)]))"
    using srt by (auto simp: sorted_wrt_append)
  have dist: "distinct (map (fst \<circ> gen_file) ((gs @ [?cur]) @ [(?i + 1, [], NewSkiplist)]))"
  proof (rule gen_names [OF srt'])
    fix j assume "j \<in> fst ` set ((gs @ [?cur]) @ [(?i + 1, [], NewSkiplist)])"
    then consider g where "g \<in> set (gs @ [?cur])" "j = fst g" | "j = ?i + 1"
      unfolding set_append image_Un by force
    then show "0 \<le> j \<and> j < 2 ^ 63" by cases (use ind i in \<open>force, simp\<close>)
  qed
  moreover have "fst (gen_file (?i + 1, [], NewSkiplist)) = walFile (?i + 1)" by (simp add: gen_file_def)
  ultimately have new: "walFile (?i + 1) \<notin> set (map fst (wal_dir t))" unfolding wal by (auto simp: image_comp)
  then have "map_of (wal_dir t) (walFile (?i + 1)) = None" by (simp add: map_of_eq_None_iff)
  then have opn: "open_create (walFile (?i + 1)) (wal_dir t) = map gen_file ((gs @ [?cur]) @ [(?i + 1, [], NewSkiplist)])"
    using gm_set_new [OF new] by (simp add: open_create_def wal gen_file_def)
  have lay: "layered (Ls @ map (rev \<circ> fst \<circ> snd) (gs @ [?cur]) @ [rev []]) = map_of (rev P)"
  proof -
    have "layered (Ls @ map (rev \<circ> fst \<circ> snd) gs @ [rev ops]) = map_of (rev P)" using s unfolding tree_shape_def by auto
    then show ?thesis unfolding append_assoc [symmetric] layered_snoc by (simp add: layered_snoc flip: append_assoc)
  qed
  have g0: "gen_ok m P (?i + 1, [], NewSkiplist)" using skiplist.new_holds by (auto simp: gen_ok_def good_kvs_def table_budget_def)
  show ?thesis
    using s opn srt' lay g0 ne room i unfolding tree_shape_def refreshMemTableLocked_def newMemTable_def Let_def
    by (simp add: w gen_item_def disk_shape_def)
qed

lemma shape_Put:
  assumes s: "tree_shape m P ns Ls gs ops t" and b: "in_bounds m (P @ [(k, v)])" and k: "good_key k"
  shows "\<exists>t' gs' ops'. tree_exec (OpPut c k v) t = Some t' \<and> tree_shape m (P @ [(k, v)]) ns Ls gs' ops' t' \<and> t_conf t' = t_conf t"
proof -
  let ?P = "P @ [(k, v)]"
  have bP: "in_bounds m P" using b by (auto simp: in_bounds_def budget_snoc)
  obtain mem where mem: "sk_Put c k v (memTable t) = Some mem" and s1: "tree_shape m ?P ns Ls gs (ops @ [(k, v)])
       (t\<lparr>wal_dir := gm_set (walFile (memTableIndex t)) (wal_Write k v (file_bytes (wal_dir t) (walFile (memTableIndex t)))) (wal_dir t), memTable := mem\<rparr>)"
    (is "tree_shape _ _ _ _ _ _ ?t") using shape_write [OF s bP k] by blast
  have e: "tree_exec (OpPut c k v) t = Some (if memtable_full ?t then refreshMemTableLocked ?t else ?t)"
    by (simp add: tree_Put_def wal_write_def mem Let_def)
  have room: "length ns + length gs < length ?P" "memTableIndex ?t < int (length ?P)" using s unfolding tree_shape_def by auto
  have r: "tree_shape m ?P ns Ls (gs @ [(memTableIndex ?t, ops @ [(k, v)], memTable ?t)]) [] (refreshMemTableLocked ?t)"
    by (rule shape_rotate [OF s1 b _ room]) simp
  have c: "t_conf (refreshMemTableLocked ?t) = t_conf t" by (simp add: refreshMemTableLocked_def newMemTable_def Let_def)
  show ?thesis
  proof (cases "memtable_full ?t")
    case True
    then show ?thesis using e r c by (intro exI [of _ "refreshMemTableLocked ?t"]) auto
  next
    case False
    then show ?thesis using e s1 by (intro exI [of _ ?t]) auto
  qed
qed

section \<open>Flushing\<close>

lemma sum_list_subset:
  fixes f :: "'a \<Rightarrow> nat"
  assumes "distinct xs" and "set xs \<subseteq> set ys"
  shows "sum_list (map f xs) \<le> sum_list (map f ys)"
proof -
  have "sum_list (map f xs) = sum f (set xs)" using assms(1) by (rule sum_list_distinct_conv_sum_set)
  also have "\<dots> \<le> sum f (set ys)" using assms(2) by (intro sum_mono2) auto
  also have "\<dots> \<le> sum_list (map f ys)"
  proof (induction ys)
    case (Cons y ys)
    then show ?case by (cases "y \<in> set ys") (auto simp: insert_absorb)
  qed simp
  finally show ?thesis .
qed

lemma budget_subset:
  assumes "distinct xs" and "set xs \<subseteq> set ys"
  shows "table_budget m xs \<le> table_budget m ys"
proof -
  have v: "volume xs \<le> volume ys" unfolding volume_def using sum_list_subset [OF assms] .
  have "length xs \<le> length ys"
    using sum_list_subset [OF assms, of "\<lambda>_. 1"] by (simp add: sum_list_triv)
  then have "length xs * (m + 100) \<le> length ys * (m + 100)" by (rule mult_le_mono1)
  then show ?thesis unfolding table_budget_def using v by (intro add_mono mult_le_mono2) auto
qed

text \<open>What a memtable hands to the table writer.\<close>

lemma gen_flushable:
  assumes "gen_ok m P (i, ops, mem)" and "ops \<noteq> []" and "in_bounds m P"
  obtains kvs where "sk_All mem = Some kvs" "flushable kvs" "table_budget m kvs < 2 ^ 56" "map_of kvs = map_of (rev ops)"
proof -
  obtain kvs where h: "sk_holds mem kvs" and eq: "map_of kvs = map_of (rev ops)" using assms(1) by (auto simp: gen_ok_def)
  have srt: "sorted_wrt (<) (map fst kvs)" by (rule skiplist.holds_sorted [OF h])
  have keys: "fst ` set kvs = fst ` set ops" using arg_cong [OF eq, of dom] by (simp add: dom_map_of_conv_image_fst)
  have dist: "distinct (map fst kvs)" using srt by (simp add: strict_sorted_iff)
  have "x \<in> set ops" if "x \<in> set kvs" for x
  proof -
    have "map_of kvs (fst x) = Some (snd x)" using that dist by simp
    then show ?thesis using eq map_of_SomeD [of "rev ops" "fst x" "snd x"] by simp
  qed
  then have "table_budget m kvs \<le> table_budget m ops" using dist by (intro budget_subset) (auto simp: distinct_map)
  then have b: "table_budget m kvs < 2 ^ 56" using assms(1,3) by (auto simp: gen_ok_def in_bounds_def)
  have ne: "kvs \<noteq> []" using keys assms(2) by auto
  have good: "good_key k" if "k \<in> fst ` set kvs" for k using assms(1) keys that by (auto simp: gen_ok_def good_kvs_def)
  then have "good_key (fst (hd kvs))" using ne by simp
  then have "flushable kvs" using ne srt good by (auto simp: flushable_def ascending_def good_key_def)
  then show thesis using that skiplist.all_holds [OF h] b eq by blast
qed

lemma node_names:
  assumes "map n_file ns = map (\<lambda>i. (0, int i + 1)) [0..<length ns]" and "n \<in> set ns" and "length ns < 2 ^ 31"
  shows "isSSTFile (node_name n) \<and> getLevelSeqFromSSTFile (node_name n) = (0, snd (n_file n))"
proof -
  obtain i where i: "i < length ns" "ns ! i = n" using assms(2) by (auto simp: in_set_conv_nth)
  then have "n_file n = (0, int i + 1)" using arg_cong [OF assms(1), of "\<lambda>xs. xs ! i"] by simp
  then show ?thesis using sst_name [of 0 "int i + 1"] i(1) assms(3) by (simp add: node_name_def)
qed

lemma fresh_name:
  assumes "map n_file ns = map (\<lambda>i. (0, int i + 1)) [0..<length ns]" and "length ns + 1 < 2 ^ 31"
  shows "sstFile 0 (int (length ns) + 1) \<notin> set (map node_name ns)"
proof
  assume "sstFile 0 (int (length ns) + 1) \<in> set (map node_name ns)"
  then obtain i where i: "i < length ns" "node_name (ns ! i) = sstFile 0 (int (length ns) + 1)" by (auto simp: in_set_conv_nth)
  then have "n_file (ns ! i) = (0, int i + 1)" using arg_cong [OF assms(1), of "\<lambda>xs. xs ! i"] by simp
  then have "sstFile 0 (int i + 1) = sstFile 0 (int (length ns) + 1)" using i(2) by (simp add: node_name_def)
  then have "int i + 1 = int (length ns) + 1"
    using sst_name(1) [of 0 "int i + 1"] sst_name(1) [of 0 "int (length ns) + 1"] i(1) assms(2) by simp
  then show False using i(1) by simp
qed

lemma trigger_only:
  assumes "rd (t_nodes t) level = Some ns"
  shows "\<exists>lc. tryTriggerCompact level t = Some (t\<lparr>levelCompactC := lc\<rparr>)"
proof -
  have same: "t\<lparr>levelCompactC := levelCompactC t\<rparr> = t" by simp
  have "tryTriggerCompact level t = Some t \<or> tryTriggerCompact level t = Some (t\<lparr>levelCompactC := levelCompactC t @ [level]\<rparr>)"
    by (simp add: tryTriggerCompact_def assms)
  then show ?thesis using same by metis
qed

lemma flush_disk:
  assumes d: "disk_shape m ns Ls t" and g: "gen_ok m P (i, ops, mem)" "ops \<noteq> []" "in_bounds m P" and len: "length ns + 1 < 2 ^ 31"
  shows "\<exists>n kvs nss seqs dir lc. flushMemTable mem t = Some (t\<lparr>t_nodes := nss, levelToSeq := seqs, sst_dir := dir, levelCompactC := lc\<rparr>) \<and>
    disk_shape m (ns @ [n]) (Ls @ [kvs]) (t\<lparr>t_nodes := nss, levelToSeq := seqs, sst_dir := dir, levelCompactC := lc\<rparr>) \<and> map_of kvs = map_of (rev ops)"
proof -
  let ?seq = "int (length ns) + 1" and ?L = "nat (MaxLevel (t_conf t)) - 1" and ?bf = "\<lparr>bf_m = m, hashedKeys = []\<rparr>"
  have D: "t_filter t = ?bf" "0 < m" "m < 2 ^ 32" "0 < MaxLevel (t_conf t)" "t_nodes t = ns # replicate ?L []"
    "levelToSeq t = int (length ns) # replicate ?L 0" "sst_dir t = map node_file ns"
    "map n_file ns = map (\<lambda>i. (0, int i + 1)) [0..<length ns]" "list_all2 (node_ok m) ns Ls"
    using d unfolding disk_shape_def by auto
  obtain kvs where kvs: "sk_All mem = Some kvs" "flushable kvs" "table_budget m kvs < 2 ^ 56" "map_of kvs = map_of (rev ops)"
    using gen_flushable [OF g] by blast
  obtain w f sz where w: "sst_build (nat (SSTDataBlockSize (t_conf t))) ?bf [] kvs = Some (w, f, sz)"
    "table_holds m f sz (blockToFilter w) (w_index w) kvs" "w_filter w = ?bf"
    using sst_build_holds [OF D(2,3) kvs(2,3)] by blast
  obtain w0 where w0: "sst_AppendAll kvs (NewSSTWriter (nat (SSTDataBlockSize (t_conf t))) ?bf) = Some w0" "Finish [] w0 = Some (w, f, sz)"
    using w(1) by (auto simp: sst_build_def split: bind_splits)
  obtain n where n: "NewNode (0, ?seq) (NewSSTReader f) sz (blockToFilter w) (w_index w) = Some n" "node_ok m n kvs" "n_file n = (0, ?seq)"
      "src (sstReader n) = f"
    using table_reads(2) [OF w(2)] w(2) by (simp add: NewNode_def node_ok_def NewSSTReader_def)
  have new: "sstFile 0 ?seq \<notin> set (map fst (sst_dir t))" using fresh_name [OF D(8) len] D(7) by (simp add: node_file_def comp_def)
  then have none: "map_of (sst_dir t) (sstFile 0 ?seq) = None" by (simp add: map_of_eq_None_iff)
  have opn: "open_create (sstFile 0 ?seq) (sst_dir t) = sst_dir t @ [(sstFile 0 ?seq, [])]"
    using none gm_set_new [OF new] by (simp add: open_create_def)
  have old: "file_bytes (sst_dir t @ [(sstFile 0 ?seq, [])]) (sstFile 0 ?seq) = []" using none by (simp add: file_bytes_def map_add_def)
  have "sstFile 0 ?seq \<notin> fst ` set (sst_dir t)" using new by simp
  then have upd: "gm_set (sstFile 0 ?seq) f (sst_dir t @ [(sstFile 0 ?seq, [])]) = map node_file (ns @ [n])"
    using gm_set_last [of "sstFile 0 ?seq" "sst_dir t" f "[]"] D(7) n(3,4) by (simp add: node_file_def node_name_def)
  have get: "file_bytes (map node_file (ns @ [n])) (sstFile 0 ?seq) = f"
    using none D(7) n(3,4) by (simp add: file_bytes_def node_file_def node_name_def map_add_def)
  have seq: "wrap32 ?seq = ?seq" using len by (intro wrap32_id) auto
  let ?t1 = "t\<lparr>sst_dir := map node_file (ns @ [n]), t_filter := ?bf, levelToSeq := ?seq # replicate ?L 0, t_nodes := (ns @ [n]) # replicate ?L []\<rparr>"
  have "finish_node 0 ?seq w0 (t\<lparr>sst_dir := sst_dir t @ [(sstFile 0 ?seq, [])]\<rparr>) = Some ?t1"
    using w0(2) w(3) n(1) by (simp add: finish_node_def old upd insertNode_def get [simplified] insertNodeWithReader_def D(5,6) rd_def wr_def)
  then have fl: "flushMemTable mem t = tryTriggerCompact 0 ?t1"
    using w0(1) kvs(1) by (simp add: flushMemTable_def new_writer_def D(1,6) rd_def seq opn Let_def)
  obtain lc where lc: "tryTriggerCompact 0 ?t1 = Some (?t1\<lparr>levelCompactC := lc\<rparr>)"
    using trigger_only [of ?t1 0 "ns @ [n]"] by (auto simp: rd_def)
  have "disk_shape m (ns @ [n]) (Ls @ [kvs]) (?t1\<lparr>levelCompactC := lc\<rparr>)"
    using D n by (simp add: disk_shape_def list_all2_appendI)
  moreover have "?t1\<lparr>levelCompactC := lc\<rparr> = t\<lparr>t_nodes := (ns @ [n]) # replicate ?L [], levelToSeq := ?seq # replicate ?L 0,
      sst_dir := map node_file (ns @ [n]), levelCompactC := lc\<rparr>" using D(1) by simp
  ultimately show ?thesis using fl lc kvs(4) by (intro exI) auto
qed

lemma gm_del_head: "name \<notin> fst ` set d \<Longrightarrow> gm_del name ((name, v) # d) = d"
  by (simp add: gm_del_def)

lemma reclaim_head: "it_wal x = name \<Longrightarrow> reclaim name (x # ro) = ro"
  by (simp add: reclaim_def)

text \<open>The oldest waiting memtable becomes the newest table.\<close>

lemma shape_flush:
  assumes s: "tree_shape m P ns Ls (g # gs) ops t" and b: "in_bounds m P"
  shows "\<exists>t' n kvs. tree_exec (OpFlush 0) t = Some t' \<and> tree_shape m P (ns @ [n]) (Ls @ [kvs]) gs ops t' \<and> t_conf t' = t_conf t"
proof -
  let ?cur = "(memTableIndex t, ops, memTable t)" and ?t = "t\<lparr>memCompactC := map gen_item gs\<rparr>"
  obtain i gops mem where g: "g = (i, gops, mem)" by (cases g)
  have S: "disk_shape m ns Ls t" "rOnlyMemTable t = gen_item g # map gen_item gs" "memCompactC t = gen_item g # map gen_item gs"
    "wal_dir t = gen_file g # map gen_file (gs @ [?cur])" "sorted_wrt (<) (map fst ((g # gs) @ [?cur]))" "length ns + length (g # gs) \<le> length P"
    "gen_ok m P (i, gops, mem)" "gops \<noteq> []" "layered (Ls @ map (rev \<circ> fst \<circ> snd) (g # gs) @ [rev ops]) = map_of (rev P)"
    using s unfolding tree_shape_def g by auto
  have d: "disk_shape m ns Ls ?t" using S(1) by (simp add: disk_shape_def)
  have len: "length ns + 1 < 2 ^ 31" using S(6) b by (simp add: in_bounds_def)
  obtain n kvs nss seqs dir lc where f: "flushMemTable mem ?t = Some (?t\<lparr>t_nodes := nss, levelToSeq := seqs, sst_dir := dir, levelCompactC := lc\<rparr>)"
    "disk_shape m (ns @ [n]) (Ls @ [kvs]) (?t\<lparr>t_nodes := nss, levelToSeq := seqs, sst_dir := dir, levelCompactC := lc\<rparr>)"
    "map_of kvs = map_of (rev gops)"
    using flush_disk [OF d S(7,8) b len] by blast
  have "distinct (map (fst \<circ> gen_file) ((g # gs) @ [?cur]))"
    using shape_indices [OF s b] by (intro gen_names [OF S(5)]) force
  moreover have gf: "gen_file g = (walFile i, wal_file gops)" by (simp add: g gen_file_def)
  ultimately have "walFile i \<notin> fst ` set (map gen_file (gs @ [?cur]))" by (auto simp: image_comp)
  then have del: "gm_del (walFile i) (wal_dir t) = map gen_file (gs @ [?cur])" unfolding S(4) gf by (rule gm_del_head)
  let ?t' = "?t\<lparr>t_nodes := nss, levelToSeq := seqs, sst_dir := dir, levelCompactC := lc, rOnlyMemTable := map gen_item gs, wal_dir := map gen_file (gs @ [?cur])\<rparr>"
  have "tree_exec (OpFlush 0) t = Some ?t'"
    using f(1) S(2,3) del by (simp add: rd_def without_nth_def compactMemTable_def gen_item_def g reclaim_head)
  moreover have "layered ((Ls @ [kvs]) @ map (rev \<circ> fst \<circ> snd) gs @ [rev ops]) = map_of (rev P)"
    unfolding S(9) [symmetric] by (rule layered_cong) (simp add: f(3) g)
  then have "tree_shape m P (ns @ [n]) (Ls @ [kvs]) gs ops ?t'"
    using s f(2) unfolding tree_shape_def by (simp add: disk_shape_def)
  ultimately show ?thesis by (intro exI [of _ ?t']) auto
qed

section \<open>Reopening\<close>

text \<open>The same tables, opened again.\<close>

definition same_tables :: "Node list \<Rightarrow> Node list \<Rightarrow> bool" where
  "same_tables ns ns' \<longleftrightarrow> map n_file ns' = map n_file ns \<and> map node_file ns' = map node_file ns"

lemma load_one:
  assumes "node_ok m n kvs" and "n_file n = (0, seq)" and "- (2 ^ 31) \<le> seq" "seq < 2 ^ 31" and "map_of (sst_dir t) (node_name n) = Some (src (sstReader n))"
    and t: "t_nodes t = ps # Ns" "levelToSeq t = s # Ss"
  shows "\<exists>n'. loadNode (node_name n) t = Some (Inr (t\<lparr>t_nodes := (ps @ [n']) # Ns, levelToSeq := seq # Ss\<rparr>)) \<and>
    node_ok m n' kvs \<and> n_file n' = n_file n \<and> node_file n' = node_file n"
proof -
  let ?f = "src (sstReader n)"
  have h: "table_holds m ?f (n_size n) (n_filters n) (n_index n) kvs" using assms(1) by (simp add: node_ok_def)
  obtain rdr where r: "read_table ?f = Some (Inr (rdr, n_size n, n_filters n, n_index n))" "src rdr = ?f" using table_reads(1) [OF h] by blast
  obtain n' where n': "NewNode (0, seq) rdr (n_size n) (n_filters n) (n_index n) = Some n'" "node_ok m n' kvs" "n_file n' = n_file n" "node_file n' = node_file n"
    using table_reads(2) [OF h] h r(2) assms(2) by (simp add: NewNode_def node_ok_def node_file_def node_name_def)
  have "getLevelSeqFromSSTFile (node_name n) = (0, seq)" using sst_name(1) [of 0 seq] assms(2-4) by (simp add: node_name_def)
  then have "loadNode (node_name n) t = Some (Inr (t\<lparr>t_nodes := (ps @ [n']) # Ns, levelToSeq := seq # Ss\<rparr>))"
    using r(1) n'(1) t assms(5) by (simp add: loadNode_def file_bytes_def insertNodeWithReader_def rd_def wr_def)
  then show ?thesis using n' by blast
qed

lemma load_all:
  assumes "list_all2 (node_ok m) rs Ls" and "t_nodes t = ps # Ns" and "levelToSeq t = int (length ps) # Ss"
    and "map n_file rs = map (\<lambda>i. (0, int i + 1)) [length ps..<length ps + length rs]" and "length ps + length rs < 2 ^ 31"
    and "\<And>n. n \<in> set rs \<Longrightarrow> map_of (sst_dir t) (node_name n) = Some (src (sstReader n))"
  shows "\<exists>rs'. load_nodes (map node_name rs) t = Some (Inr (t\<lparr>t_nodes := (ps @ rs') # Ns, levelToSeq := int (length ps + length rs) # Ss\<rparr>)) \<and>
    same_tables rs rs' \<and> list_all2 (node_ok m) rs' Ls"
  using assms
proof (induction rs arbitrary: ps Ls t)
  case Nil
  then have "t\<lparr>t_nodes := ps # Ns, levelToSeq := int (length ps) # Ss\<rparr> = t" by simp
  then show ?case using Nil by (intro exI [of _ "[]"]) (simp add: same_tables_def)
next
  case (Cons n rs)
  obtain kvs Ls' where Ls: "Ls = kvs # Ls'" "node_ok m n kvs" "list_all2 (node_ok m) rs Ls'" using Cons.prems(1) by (auto simp: list_all2_Cons1)
  have files: "n_file n = (0, int (length ps) + 1)" "map n_file rs = map (\<lambda>i. (0, int i + 1)) [Suc (length ps)..<Suc (length ps) + length rs]"
    using Cons.prems(4) upt_conv_Cons [of "length ps" "length ps + length (n # rs)"] by (simp_all del: upt_Suc)
  have bd: "- (2 ^ 31) \<le> int (length ps) + 1" "int (length ps) + 1 < 2 ^ 31" using Cons.prems(5) by simp_all
  have here: "map_of (sst_dir t) (node_name n) = Some (src (sstReader n))" using Cons.prems(6) by simp
  obtain n' where n': "loadNode (node_name n) t = Some (Inr (t\<lparr>t_nodes := (ps @ [n']) # Ns, levelToSeq := (int (length ps) + 1) # Ss\<rparr>))"
      "node_ok m n' kvs" "n_file n' = n_file n" "node_file n' = node_file n"
    using load_one [OF Ls(2) files(1) bd here Cons.prems(2,3)] by blast
  let ?t = "t\<lparr>t_nodes := (ps @ [n']) # Ns, levelToSeq := (int (length ps) + 1) # Ss\<rparr>"
  obtain rs' where "load_nodes (map node_name rs) ?t = Some (Inr (?t\<lparr>t_nodes := ((ps @ [n']) @ rs') # Ns, levelToSeq := int (length (ps @ [n']) + length rs) # Ss\<rparr>))"
      "same_tables rs rs'" "list_all2 (node_ok m) rs' Ls'"
    using Cons.IH [OF Ls(3), of ?t "ps @ [n']"] files(2) Cons.prems(5,6) by auto
  then show ?case using n' Ls(1) by (intro exI [of _ "n' # rs'"]) (auto simp: same_tables_def)
qed

lemma map_of_file: "distinct (map node_name ns) \<Longrightarrow> n \<in> set ns \<Longrightarrow> map_of (map node_file ns) (node_name n) = Some (src (sstReader n))"
  by (intro map_of_is_SomeI) (auto simp: node_file_def comp_def)

lemma disk_reopens:
  assumes d: "disk_shape m ns Ls t" and len: "length ns < 2 ^ 31"
    and t0: "t_filter t0 = t_filter t" "t_conf t0 = t_conf t" "sst_dir t0 = sst_dir t"
      "t_nodes t0 = replicate (nat (MaxLevel (t_conf t))) []" "levelToSeq t0 = replicate (nat (MaxLevel (t_conf t))) 0"
  shows "\<exists>ns' nss seqs. constructTree t0 = Some (Inr (t0\<lparr>t_nodes := nss, levelToSeq := seqs\<rparr>)) \<and>
    disk_shape m ns' Ls (t0\<lparr>t_nodes := nss, levelToSeq := seqs\<rparr>) \<and> length ns' = length ns"
proof -
  let ?L = "nat (MaxLevel (t_conf t)) - 1"
  have D: "t_filter t = \<lparr>bf_m = m, hashedKeys = []\<rparr>" "0 < m" "m < 2 ^ 32" "0 < MaxLevel (t_conf t)" "sst_dir t = map node_file ns"
    "map n_file ns = map (\<lambda>i. (0, int i + 1)) [0..<length ns]" "list_all2 (node_ok m) ns Ls"
    using d unfolding disk_shape_def by auto
  have names: "isSSTFile (node_name n) \<and> getLevelSeqFromSSTFile (node_name n) = (0, snd (n_file n))" if "n \<in> set ns" for n
    by (rule node_names [OF D(6) that len])
  have "map (\<lambda>n. (0 :: int, snd (n_file n))) ns = map (\<lambda>i. (0, int i + 1)) [0..<length ns]"
    using arg_cong [OF D(6), of "map (\<lambda>x. (0, snd x))"] by (simp add: comp_def)
  moreover have "sorted_wrt (<) (map (\<lambda>i. (0 :: int, int i + 1)) [0..<length ns])"
    by (auto simp: sorted_wrt_iff_nth_less)
  ultimately have srt: "sorted_wrt (<) (map (\<lambda>n. (0 :: int, snd (n_file n))) ns)" by simp
  have srt_names: "getSortedSSTEntries (sst_dir t0) = map node_name ns"
    unfolding getSortedSSTEntries_def t0(3) D(5) using sorted_names [of ns isSSTFile node_name getLevelSeqFromSSTFile "\<lambda>n. (0, snd (n_file n))"] names srt by (simp add: node_file_def comp_def)
  have dist: "distinct (map node_name ns)" by (rule names_distinct [of ns getLevelSeqFromSSTFile node_name "\<lambda>n. (0, snd (n_file n))"]) (use names srt in auto)
  have i0: "t_nodes t0 = [] # replicate ?L []" "levelToSeq t0 = int (length ([] :: Node list)) # replicate ?L 0"
    using t0(4,5) D(4) by (cases "nat (MaxLevel (t_conf t))"; auto)+
  obtain ns' where ns': "load_nodes (map node_name ns) t0 = Some (Inr (t0\<lparr>t_nodes := ([] @ ns') # replicate ?L [],
      levelToSeq := int (length ([] :: Node list) + length ns) # replicate ?L 0\<rparr>))" "same_tables ns ns'" "list_all2 (node_ok m) ns' Ls"
    using load_all [OF D(7) i0] D(6) len map_of_file [OF dist] t0(3) D(5) by auto
  have len': "length ns' = length ns" using ns'(2) by (metis length_map same_tables_def)
  then show ?thesis using ns' D t0 srt_names
    by (intro exI [of _ ns']) (auto simp: constructTree_def disk_shape_def same_tables_def intro!: exI)
qed

text \<open>Replaying a log gives a memtable with the writes of the log.\<close>

lemma with_coins_snd: "map snd (with_coins cs kvs) = kvs"
  by (simp add: with_coins_def comp_def case_prod_unfold)

lemma replay_ok:
  assumes "gen_ok m P (i, ops, mem)" and "in_bounds m P"
  shows "\<exists>mem'. RestoreToMemtable cs (wal_file ops) = Some (Inr mem') \<and> gen_ok m P (i, ops, mem')"
proof -
  have b: "table_budget m ops < 2 ^ 56" using assms by (auto simp: gen_ok_def in_bounds_def)
  then have "volume ops < 2 ^ 56" by (simp add: table_budget_def)
  then have "length k < 2 ^ 64 \<and> length v < 2 ^ 64" if "(k, v) \<in> set ops" for k v
    using volume_mem [OF that] by simp
  then have "small ops" by (auto simp: small_def)
  then have r: "wal_readAll (wal_file ops) = Inr ops" using wal_readAll_file [of ops "[]"] by (simp add: wal_readAll.simps)
  obtain mem' kvs where "put_all sk_Put (with_coins cs ops) NewSkiplist = Some mem'" "sk_holds mem' kvs" "map_of kvs = map_of (rev ops)"
    using skiplist.put_all_holds [OF skiplist.new_holds, of "with_coins cs ops"] by (auto simp: with_coins_snd)
  then show ?thesis using r assms(1) by (auto simp: RestoreToMemtable_def gen_ok_def)
qed

text \<open>The older memtables are flushed in their order, the last one becomes the active one.\<close>

lemma restore_all:
  assumes "gens \<noteq> []" and "disk_shape m ns Ls t" and "rOnlyMemTable t = []" "memCompactC t = []" and "wal_dir t = map gen_file gens"
    and "sorted_wrt (<) (map fst gens)" and "\<And>i. i \<in> fst ` set gens \<Longrightarrow> 0 \<le> i \<and> i \<le> int (length P)"
    and "length ns + length gens \<le> length P + 1" and "list_all (gen_ok m P) gens" and "\<And>g. g \<in> set (butlast gens) \<Longrightarrow> fst (snd g) \<noteq> []"
    and "layered (Ls @ map (rev \<circ> fst \<circ> snd) gens) = map_of (rev P)" and b: "in_bounds m P"
  shows "\<exists>t' ns' Ls' ops. restore_loop cs (map (fst \<circ> gen_file) gens) t = Some (Inr t') \<and> tree_shape m P ns' Ls' [] ops t' \<and> t_conf t' = t_conf t"
  using assms
proof (induction gens arbitrary: ns Ls t)
  case (Cons g rest)
  obtain i ops mem where g: "g = (i, ops, mem)" by (cases g)
  have gf: "gen_file g = (walFile i, wal_file ops)" by (simp add: g gen_file_def)
  have i: "0 \<le> i" "i < 2 ^ 63" using Cons.prems(7) [of i] b by (auto simp: g in_bounds_def)
  obtain mem' where mem': "RestoreToMemtable (cs (walFile i)) (wal_file ops) = Some (Inr mem')" "gen_ok m P (i, ops, mem')"
    using replay_ok [OF _ b, of i ops mem "cs (walFile i)"] Cons.prems(9) by (auto simp: g)
  have fb: "file_bytes (wal_dir t) (walFile i) = wal_file ops" using Cons.prems(5) by (simp add: file_bytes_def gf)
  have dist: "distinct (map (fst \<circ> gen_file) (g # rest))"
    using Cons.prems(7) b by (intro gen_names [OF Cons.prems(6)]) (fastforce simp: in_bounds_def)
  then have new: "walFile i \<notin> fst ` set (map gen_file rest)" by (auto simp: gf image_comp)
  show ?case
  proof (cases "rest = []")
    case True
    let ?t = "t\<lparr>memTable := mem', memTableIndex := i, wal_dir := wal_dir t\<rparr>"
    have "open_create (walFile i) (wal_dir t) = wal_dir t" using Cons.prems(5) by (simp add: open_create_def gf)
    then have "restore_loop cs (map (fst \<circ> gen_file) (g # rest)) t = Some (Inr ?t)"
      using True mem'(1) fb wal_name [of i] i by (simp add: gf)
    moreover have "tree_shape m P ns Ls [] ops ?t"
      using Cons.prems True mem'(2) i by (simp add: tree_shape_def disk_shape_def g gen_file_def)
    moreover have "t_conf ?t = t_conf t" by simp
    ultimately show ?thesis by blast
  next
    case False
    let ?item = "\<lparr>it_wal = walFile i, it_mem = mem'\<rparr>" and ?t = "t\<lparr>rOnlyMemTable := [\<lparr>it_wal = walFile i, it_mem = mem'\<rparr>]\<rparr>"
    have ne: "ops \<noteq> []" using Cons.prems(10) [of g] False by (simp add: g)
    have d: "disk_shape m ns Ls ?t" using Cons.prems(2) by (simp add: disk_shape_def)
    have len: "length ns + 1 < 2 ^ 31" using Cons.prems(8) b False by (cases rest) (auto simp: in_bounds_def)
    obtain n kvs nss seqs dir lc where f: "flushMemTable mem' ?t = Some (?t\<lparr>t_nodes := nss, levelToSeq := seqs, sst_dir := dir, levelCompactC := lc\<rparr>)"
      "disk_shape m (ns @ [n]) (Ls @ [kvs]) (?t\<lparr>t_nodes := nss, levelToSeq := seqs, sst_dir := dir, levelCompactC := lc\<rparr>)" "map_of kvs = map_of (rev ops)"
      using flush_disk [OF d mem'(2) ne b len] by blast
    let ?t' = "t\<lparr>t_nodes := nss, levelToSeq := seqs, sst_dir := dir, levelCompactC := lc, rOnlyMemTable := [], wal_dir := map gen_file rest\<rparr>"
    have "gm_del (walFile i) (wal_dir t) = map gen_file rest" using gm_del_head [OF new] Cons.prems(5) by (simp add: gf)
    then have "compactMemTable ?item ?t = Some ?t'" using f(1) by (simp add: compactMemTable_def reclaim_head)
    then have step: "restore_loop cs (map (fst \<circ> gen_file) (g # rest)) t = restore_loop cs (map (fst \<circ> gen_file) rest) ?t'"
      using False mem'(1) fb Cons.prems(3) by (simp add: gf)
    have d': "disk_shape m (ns @ [n]) (Ls @ [kvs]) ?t'" using f(2) by (simp add: disk_shape_def)
    have lay: "layered ((Ls @ [kvs]) @ map (rev \<circ> fst \<circ> snd) rest) = map_of (rev P)"
      unfolding Cons.prems(11) [symmetric] by (rule layered_cong) (simp add: f(3) g)
    have "\<exists>t'' ns' Ls' ops. restore_loop cs (map (fst \<circ> gen_file) rest) ?t' = Some (Inr t'') \<and> tree_shape m P ns' Ls' [] ops t'' \<and> t_conf t'' = t_conf ?t'"
    proof (rule Cons.IH [OF False d' _ _ _ _ _ _ _ _ lay b])
      show "fst (snd g') \<noteq> []" if "g' \<in> set (butlast rest)" for g' using Cons.prems(10) [of g'] False that by simp
    qed (use Cons.prems in auto)
    then show ?thesis unfolding step by simp
  qed
qed simp

lemma shape_reopen:
  assumes s: "tree_shape m P ns Ls gs ops t" and b: "in_bounds m P"
  shows "\<exists>t' ns' Ls' ops'. tree_exec (OpReopen cs) t = Some t' \<and> tree_shape m P ns' Ls' [] ops' t' \<and> t_conf t' = t_conf t"
proof -
  let ?gens = "gs @ [(memTableIndex t, ops, memTable t)]"
  have S: "disk_shape m ns Ls t" "wal_dir t = map gen_file ?gens" "sorted_wrt (<) (map fst ?gens)" "length ns + length gs \<le> length P"
    "list_all (gen_ok m P) ?gens" "\<And>g. g \<in> set gs \<Longrightarrow> fst (snd g) \<noteq> []" "layered (Ls @ map (rev \<circ> fst \<circ> snd) ?gens) = map_of (rev P)"
    "memTableIndex t \<le> int (length P)"
    using s unfolding tree_shape_def by auto
  have bf: "bf_Reset (t_filter t) = t_filter t" and L: "0 < MaxLevel (t_conf t)" using S(1) by (auto simp: disk_shape_def bf_Reset_def)
  define t0 where "t0 = \<lparr>t_conf = t_conf t, t_filter = t_filter t, memTable = NewSkiplist, rOnlyMemTable = [],
    t_nodes = replicate (nat (MaxLevel (t_conf t))) [], memTableIndex = 0, levelToSeq = replicate (nat (MaxLevel (t_conf t))) 0,
    memCompactC = [], levelCompactC = [], sst_dir = sst_dir t, wal_dir = wal_dir t\<rparr>"
  have len: "length ns < 2 ^ 31" using S(4) b by (simp add: in_bounds_def)
  obtain ns' nss seqs where c: "constructTree t0 = Some (Inr (t0\<lparr>t_nodes := nss, levelToSeq := seqs\<rparr>))" (is "_ = Some (Inr ?t1)")
    "disk_shape m ns' Ls (t0\<lparr>t_nodes := nss, levelToSeq := seqs\<rparr>)" "length ns' = length ns"
    using disk_reopens [OF S(1) len, of t0] by (auto simp: t0_def)
  have ind: "0 \<le> fst g \<and> fst g \<le> int (length P)" if "g \<in> set ?gens" for g
    using shape_indices [OF s b that] S(8) by simp
  have names: "has_suffix ((fst \<circ> gen_file) g) ''.wal'' \<and> walFileToMemTableIndex ((fst \<circ> gen_file) g) = fst g" if "g \<in> set ?gens" for g
    using wal_suffix [of "fst g"] wal_name [of "fst g"] ind [OF that] b by (auto simp: gen_file_def in_bounds_def split: prod.splits)
  have sorted: "sort_key walFileToMemTableIndex (filter (\<lambda>name. has_suffix name ''.wal'') (map fst (wal_dir t))) = map (fst \<circ> gen_file) ?gens"
    unfolding S(2) map_map by (rule sorted_names [where num = fst]) (use names S(3) in blast)+
  then have ne: "filter (\<lambda>name. has_suffix name ''.wal'') (map fst (wal_dir t)) \<noteq> []" by force
  have "\<exists>t' ns'' Ls' ops'. restore_loop cs (map (fst \<circ> gen_file) ?gens) ?t1 = Some (Inr t') \<and> tree_shape m P ns'' Ls' [] ops' t' \<and> t_conf t' = t_conf ?t1"
  proof (rule restore_all [OF _ c(2) _ _ _ S(3) _ _ S(5) _ S(7) b])
    show "0 \<le> i \<and> i \<le> int (length P)" if i: "i \<in> fst ` set ?gens" for i
    proof -
      obtain g where g: "g \<in> set ?gens" "i = fst g" using i by (rule imageE)
      show ?thesis unfolding g(2) by (rule ind [OF g(1)])
    qed
  qed (use S c(3) in \<open>auto simp: t0_def\<close>)
  then obtain t' ns'' Ls' ops' where r: "restore_loop cs (map (fst \<circ> gen_file) ?gens) ?t1 = Some (Inr t')" "tree_shape m P ns'' Ls' [] ops' t'"
    "t_conf t' = t_conf ?t1" by blast
  have "constructMemtable cs ?t1 = Some (Inr t')"
    using r(1) ne sorted by (simp add: constructMemtable_def t0_def Let_def)
  then have "tree_exec (OpReopen cs) t = Some t'"
    using c(1) L by (simp add: NewTree_def ok_result_def bf t0_def)
  then show ?thesis using r(2,3) by (auto simp: t0_def)
qed

text \<open>An empty directory.\<close>

lemma shape_new:
  assumes "0 < m" "m < 2 ^ 32" "0 < MaxLevel c"
  shows "\<exists>t. NewTree cs c \<lparr>bf_m = m, hashedKeys = []\<rparr> [] [] = Some (Inr t) \<and> tree_shape m [] [] [] [] [] t \<and> t_conf t = c"
proof -
  obtain l where l: "nat (MaxLevel c) = Suc l" using assms(3) by (cases "nat (MaxLevel c)") auto
  have "gen_ok m [] (0, [], NewSkiplist)" using skiplist.new_holds by (auto simp: gen_ok_def good_kvs_def)
  then show ?thesis using assms l
    by (auto simp: NewTree_def constructTree_def getSortedSSTEntries_def constructMemtable_def newMemTable_def open_create_def gm_set_def
        tree_shape_def disk_shape_def gen_file_def layered_def)
qed

section \<open>Runs of writes, flushes and restarts\<close>

fun calm :: "tree_op \<Rightarrow> bool" where
  "calm (OpPut c k v) = good_key k"
| "calm (OpFlush i) = (i = 0)"
| "calm (OpCompact cs i) = False"
| "calm (OpReopen cs) = True"

fun op_writes :: "tree_op \<Rightarrow> kvs" where
  "op_writes (OpPut c k v) = [(k, v)]"
| "op_writes _ = []"

definition writes :: "tree_op list \<Rightarrow> kvs" where
  "writes ops = concat (map op_writes ops)"

lemma in_bounds_prefix: "in_bounds m (P @ Q) \<Longrightarrow> in_bounds m P"
  by (auto simp: in_bounds_def table_budget_def add_mult_distrib)

lemma shape_step:
  assumes s: "tree_shape m P ns Ls gs ops t" and "calm op" and b: "in_bounds m (P @ op_writes op)"
  shows "\<exists>t' ns' Ls' gs' ops'. tree_exec op t = Some t' \<and> tree_shape m (P @ op_writes op) ns' Ls' gs' ops' t'"
proof (cases op)
  case (OpPut c k v)
  have "in_bounds m (P @ [(k, v)])" "good_key k" using OpPut b assms(2) by simp_all
  then show ?thesis using shape_Put [OF s, of k v c] unfolding OpPut op_writes.simps by blast
next
  case (OpFlush i)
  have bP: "in_bounds m P" using b OpFlush by simp
  have mc: "memCompactC t = map gen_item gs" using s by (simp add: tree_shape_def)
  show ?thesis
  proof (cases gs)
    case Nil
    then have "tree_exec op t = Some t" using mc OpFlush by (simp add: rd_def)
    then show ?thesis using s OpFlush by auto
  next
    case (Cons g gs')
    have i: "i = 0" using OpFlush assms(2) by simp
    show ?thesis using shape_flush [OF s [unfolded Cons] bP] unfolding OpFlush i op_writes.simps append_Nil2 by blast
  qed
next
  case (OpReopen cs)
  have bP: "in_bounds m P" using b OpReopen by simp
  show ?thesis using shape_reopen [OF s bP, of cs] unfolding OpReopen op_writes.simps append_Nil2 by blast
qed (use assms(2) in simp)

lemma shape_run:
  assumes "tree_shape m P ns Ls gs ops t" and "list_all calm xs" and "in_bounds m (P @ writes xs)"
  shows "\<exists>t' ns' Ls' gs' ops'. tree_run xs t = Some t' \<and> tree_shape m (P @ writes xs) ns' Ls' gs' ops' t'"
  using assms
proof (induction xs arbitrary: P ns Ls gs ops t)
  case (Cons x xs)
  have b: "in_bounds m (P @ op_writes x)" using in_bounds_prefix [of m "P @ op_writes x" "writes xs"] Cons.prems(3) by (simp add: writes_def)
  obtain t1 ns1 Ls1 gs1 ops1 where 1: "tree_exec x t = Some t1" "tree_shape m (P @ op_writes x) ns1 Ls1 gs1 ops1 t1"
    using shape_step [OF Cons.prems(1) _ b] Cons.prems(2) by auto
  show ?case using Cons.IH [OF 1(2)] Cons.prems(2,3) 1(1) by (auto simp: writes_def)
qed (auto simp: writes_def)

text \<open>
  C2. No write is lost: from an empty directory, after any sequence of writes, flushes of the oldest waiting
  memtable and restarts (whatever the heights of the skip list nodes), no operation fails, and a read returns the value
  written last for the key, or reports its absence. The keys are not empty and do not end in a zero byte, the writes
  fit in a table, and no level is merged.
\<close>

theorem latest_write_survives:
  assumes "0 < m" "m < 2 ^ 32" "0 < MaxLevel c" and "list_all calm ops" and "in_bounds m (writes ops)"
  shows "\<exists>t0 t. NewTree cs c \<lparr>bf_m = m, hashedKeys = []\<rparr> [] [] = Some (Inr t0) \<and> tree_run ops t0 = Some t \<and>
    (\<forall>key. tree_Get key t = Some (Inr (map_of (rev (writes ops)) key)))"
proof -
  obtain t0 where t0: "NewTree cs c \<lparr>bf_m = m, hashedKeys = []\<rparr> [] [] = Some (Inr t0)" "tree_shape m [] [] [] [] [] t0"
    using shape_new [OF assms(1-3)] by blast
  obtain t ns Ls gs xs where t: "tree_run ops t0 = Some t" "tree_shape m (writes ops) ns Ls gs xs t"
    using shape_run [OF t0(2) assms(4)] assms(5) by auto
  then show ?thesis using t0(1) shape_Get [OF t(2)] by blast
qed

theorem latest_write_survives_witness:
  "\<exists>t0 t. NewTree (\<lambda>_ _. 0) \<lparr>MaxLevel = 7, SSTSize = 4, SSTNumPerLevel = 10, SSTDataBlockSize = 16, cf_Filter = None\<rparr> \<lparr>bf_m = 1024, hashedKeys = []\<rparr> [] [] = Some (Inr t0) \<and>
     tree_run [OpPut 0 [1] [5], OpPut 1 [2] [6, 7], OpFlush 0, OpPut 0 [1] [8], OpReopen (\<lambda>_ _. 1)] t0 = Some t \<and> tree_Get [1] t = Some (Inr (Some [8]))"
proof -
  let ?ops = "[OpPut 0 [1] [5], OpPut 1 [2] [6, 7], OpFlush 0, OpPut 0 [1] [8], OpReopen (\<lambda>_ _. 1)]"
  have "in_bounds 1024 (writes ?ops)" by (simp add: in_bounds_def writes_def table_budget_def)
  moreover have "map_of (rev (writes ?ops)) [1] = Some [8]" by (simp add: writes_def)
  ultimately show ?thesis
    using latest_write_survives [of 1024 "\<lparr>MaxLevel = 7, SSTSize = 4, SSTNumPerLevel = 10, SSTDataBlockSize = 16, cf_Filter = None\<rparr>" ?ops "\<lambda>_ _. 0"]
    by (auto simp: good_key_def)
qed

section \<open>A flush that is cut off\<close>

lemma read_table_empty: "read_table [] = Some (Inl SeekErr)"
  by (simp add: read_table_def ReadFilter_def ReadFooter_def NewSSTReader_def)

lemma insertNode_dir: "insertNodeWithReader rdr level seq sz b2f ix t = Some t' \<Longrightarrow> sst_dir t' = sst_dir t"
  by (auto simp: insertNodeWithReader_def split: if_splits bind_splits)

lemma loadNode_dir: "loadNode name t = Some (Inr t') \<Longrightarrow> sst_dir t' = sst_dir t"
  by (auto simp: loadNode_def split: bind_splits sum.splits prod.splits dest: insertNode_dir)

lemma load_fails:
  assumes "name \<in> set names" and "file_bytes (sst_dir t) name = []"
  shows "\<nexists>t'. load_nodes names t = Some (Inr t')"
  using assms
proof (induction names arbitrary: t)
  case (Cons x names)
  show ?case
  proof (cases "loadNode x t")
    case (Some r)
    show ?thesis
    proof (cases r)
      case (Inr t1)
      then have "x \<noteq> name" using Some Cons.prems(2) read_table_empty by (auto simp: loadNode_def)
      moreover have "sst_dir t1 = sst_dir t" using loadNode_dir Some Inr by blast
      ultimately show ?thesis using Cons Some Inr by simp
    qed (simp add: Some)
  qed simp
qed simp

text \<open>
  A process that ends between the creation of a table file and the end of the flush leaves an empty file,
  and no later attempt to open the directory succeeds, whatever the other files and the logs hold.
\<close>

theorem interrupted_flush_blocks_open:
  assumes "new_writer 0 t = Some (seq, w, t')" and "map_of (sst_dir t) (sstFile 0 seq) = None"
  shows "\<nexists>t1. NewTree cs c bf (sst_dir t') wal = Some (Inr t1)"
proof -
  let ?name = "sstFile 0 seq"
  obtain s where seq: "seq = wrap32 (s + 1)" and d: "sst_dir t' = gm_set ?name [] (sst_dir t)"
    using assms by (auto simp: new_writer_def open_create_def Let_def split: bind_splits)
  have "isSSTFile ?name" using sst_name(2) [of 0 seq] wrap32_range [of "s + 1"] seq by simp
  moreover have "?name \<in> set (map fst (sst_dir t'))" unfolding d gm_dom by simp
  ultimately have n: "?name \<in> set (getSortedSSTEntries (sst_dir t'))" by (auto simp: getSortedSSTEntries_def)
  have "file_bytes (sst_dir t') ?name = []" by (simp add: d file_bytes_def)
  then have fail: "\<nexists>t1. load_nodes (getSortedSSTEntries (sst_dir t')) t0 = Some (Inr t1)" if "sst_dir t0 = sst_dir t'" for t0
    using load_fails [OF n, of t0] that by simp
  show ?thesis
    using fail [of "\<lparr>t_conf = c, t_filter = bf, memTable = NewSkiplist, rOnlyMemTable = [],
          t_nodes = replicate (nat (MaxLevel c)) [], memTableIndex = 0, levelToSeq = replicate (nat (MaxLevel c)) 0,
          memCompactC = [], levelCompactC = [], sst_dir = sst_dir t', wal_dir = wal\<rparr>"]
    by (auto simp: NewTree_def constructTree_def split: if_splits bind_splits sum.splits)
qed

section \<open>Runs that lose or revive a value\<close>

definition demo_conf :: "int \<Rightarrow> Config" where
  "demo_conf tableSize = \<lparr>MaxLevel = 3, SSTSize = tableSize, SSTNumPerLevel = 1, SSTDataBlockSize = 1, cf_Filter = None\<rparr>"

definition demo_tree :: "int \<Rightarrow> tree_op list \<Rightarrow> Tree option" where
  "demo_tree tableSize ops = ok_result (NewTree (\<lambda>_ _. 0) (demo_conf tableSize) \<lparr>bf_m = 8, hashedKeys = []\<rparr> [] []) \<bind> tree_run ops"

definition demo_get :: "int \<Rightarrow> tree_op list \<Rightarrow> bytes \<Rightarrow> (sst_err + bytes option) option" where
  "demo_get tableSize ops k = demo_tree tableSize ops \<bind> tree_Get k"

theorem interrupted_flush_blocks_open_witness:
  "\<exists>t seq w t'. demo_tree 1 [OpPut 0 [1] [10]] = Some t \<and> new_writer 0 t = Some (seq, w, t') \<and>
     (\<nexists>t1. NewTree (\<lambda>_ _. 0) (demo_conf 1) \<lparr>bf_m = 8, hashedKeys = []\<rparr> (sst_dir t') (wal_dir t') = Some (Inr t1))"
proof -
  have "case demo_tree 1 [OpPut 0 [1] [10]] of None \<Rightarrow> False | Some t \<Rightarrow>
      (case new_writer 0 t of None \<Rightarrow> False | Some (seq, w, t') \<Rightarrow> map_of (sst_dir t) (sstFile 0 seq) = None)"
    by code_simp
  then obtain t seq w t' where "demo_tree 1 [OpPut 0 [1] [10]] = Some t" "new_writer 0 t = Some (seq, w, t')" "map_of (sst_dir t) (sstFile 0 seq) = None"
    by (auto split: option.splits)
  then show ?thesis using interrupted_flush_blocks_open by blast
qed

text \<open>
  Compaction can lose a value or bring an old one back. Flushing a newer memtable before an older one makes
  the older value win. Merging a level puts a table that belongs in front of all others behind them, where the search does
  not find it. Merging the tables that overlap the chosen range takes a newer value to the next level and leaves an older
  one of the same key behind.
\<close>

theorem compaction_breaks_reads:
  "demo_get 1 [OpPut 0 [1] [10], OpPut 0 [1] [20]] [1] = Some (Inr (Some [20])) \<and>
   demo_get 1 [OpPut 0 [1] [10], OpPut 0 [1] [20], OpFlush 1, OpFlush 0] [1] = Some (Inr (Some [10])) \<and>
   demo_get 1 [OpPut 0 [5] [10], OpFlush 0, OpCompact (\<lambda>_. 0) 0, OpPut 0 [2] [20], OpFlush 0] [2] = Some (Inr (Some [20])) \<and>
   demo_get 1 [OpPut 0 [5] [10], OpFlush 0, OpCompact (\<lambda>_. 0) 0, OpPut 0 [2] [20], OpFlush 0, OpCompact (\<lambda>_. 0) 1] [2] = Some (Inr None) \<and>
   demo_get 3 [OpPut 0 [5] [10], OpPut 0 [6] [11], OpFlush 0, OpPut 0 [1] [12], OpPut 0 [2] [13], OpFlush 0, OpPut 0 [5] [14], OpPut 0 [6] [15],
     OpFlush 0, OpPut 0 [1] [16], OpPut 0 [5] [17], OpFlush 0, OpCompact (\<lambda>_. 0) 0] [1] = Some (Inr (Some [12]))"
  by code_simp

text \<open>
  A write to the log that fails half way, like on a full disk, is reported, but its bytes stay in the log. The next
  write succeeds, and the directory can not be opened any more.
\<close>

theorem torn_write_blocks_open:
  "case demo_tree 9 [] \<bind> tree_Put (Torn 1) 0 [5] [6] of None \<Rightarrow> False | Some (t1, r1) \<Rightarrow> r1 = Inl WriteErr \<and>
     (case tree_Put Written 0 [7] [8] t1 of None \<Rightarrow> False | Some (t2, r2) \<Rightarrow> r2 = Inr () \<and> tree_Get [7] t2 = Some (Inr (Some [8])) \<and>
        (case NewTree (\<lambda>_ _. 0) (demo_conf 9) \<lparr>bf_m = 8, hashedKeys = []\<rparr> (sst_dir t2) (wal_dir t2) of
           Some (Inl e) \<Rightarrow> e = WalErr EOF | _ \<Rightarrow> False))"
  by code_simp

end
