(* ===== verification/Cache_Single_Flight.thy ===== *)
theory Cache_Single_Flight
  imports Prelude
begin

text \<open>
  Duplicate suppression (\<open>src/swifty_cache/single_flight.go\<close>). \<open>Do\<close> is run by any number of
  threads; the state is the shared map from keys to calls, the calls, and a program counter per
  thread. Each atomic action of \<open>Do\<close> is one step: \<open>LoadOrStore\<close>, the end of the function \<open>fn\<close>
  (whose result, or error for a recovered panic, is arbitrary), \<open>wg.Done\<close>, \<open>Delete\<close> (the deferred
  calls run in this order) and the return of a waiter.
\<close>

section \<open>States and steps\<close>

datatype ('k, 'r) pc =
    Idle
  | Running 'k nat
  | Executed 'k nat 'r
  | Signalled 'k nat 'r
  | Waiting 'k nat
  | Answered 'k nat 'r

record ('k, 'r) flight =
  calls :: "'k \<rightharpoonup> nat"
  result :: "nat \<rightharpoonup> 'r"
  signalled :: "nat set"
  fresh :: nat
  pcs :: "nat \<Rightarrow> ('k, 'r) pc"

definition flight_init :: "('k, 'r) flight" where
  "flight_init = \<lparr>calls = Map.empty, result = Map.empty, signalled = {}, fresh = 0, pcs = (\<lambda>_. Idle)\<rparr>"

inductive flight_step :: "('k, 'r) flight \<Rightarrow> ('k, 'r) flight \<Rightarrow> bool" where
  start: "pcs s t = Idle \<Longrightarrow> calls s k = None \<Longrightarrow>
    flight_step s (s\<lparr>calls := (calls s)(k \<mapsto> fresh s), fresh := Suc (fresh s), pcs := (pcs s)(t := Running k (fresh s))\<rparr>)"
| join: "pcs s t = Idle \<Longrightarrow> calls s k = Some c \<Longrightarrow> flight_step s (s\<lparr>pcs := (pcs s)(t := Waiting k c)\<rparr>)"
| execute: "pcs s t = Running k c \<Longrightarrow>
    flight_step s (s\<lparr>result := (result s)(c \<mapsto> r), pcs := (pcs s)(t := Executed k c r)\<rparr>)"
| signal: "pcs s t = Executed k c r \<Longrightarrow>
    flight_step s (s\<lparr>signalled := insert c (signalled s), pcs := (pcs s)(t := Signalled k c r)\<rparr>)"
| remove: "pcs s t = Signalled k c r \<Longrightarrow>
    flight_step s (s\<lparr>calls := (calls s)(k := None), pcs := (pcs s)(t := Answered k c r)\<rparr>)"
| wake: "pcs s t = Waiting k c \<Longrightarrow> c \<in> signalled s \<Longrightarrow> result s c = Some r \<Longrightarrow>
    flight_step s (s\<lparr>pcs := (pcs s)(t := Answered k c r)\<rparr>)"
| again: "pcs s t = Answered k c r \<Longrightarrow> flight_step s (s\<lparr>pcs := (pcs s)(t := Idle)\<rparr>)"

inductive_simps flight_step_simps: "flight_step s s'"

abbreviation flight_steps :: "('k, 'r) flight \<Rightarrow> ('k, 'r) flight \<Rightarrow> bool" where
  "flight_steps \<equiv> flight_step\<^sup>*\<^sup>*"

section \<open>Invariant\<close>

text \<open>
  What holds of one thread; \<open>L\<close> maps every call to the thread that leads it. A leader's call stays
  in the map until it removes it; a waiter's call is in the map or already signalled; a thread that
  answered has the result of its call.
\<close>

fun thread_ok :: "('k, 'r) flight \<Rightarrow> (nat \<rightharpoonup> nat) \<Rightarrow> nat \<Rightarrow> ('k, 'r) pc \<Rightarrow> bool" where
  "thread_ok s L t Idle = True"
| "thread_ok s L t (Running k c) \<longleftrightarrow> calls s k = Some c \<and> L c = Some t \<and> result s c = None"
| "thread_ok s L t (Executed k c r) \<longleftrightarrow> calls s k = Some c \<and> L c = Some t \<and> result s c = Some r"
| "thread_ok s L t (Signalled k c r) \<longleftrightarrow> calls s k = Some c \<and> L c = Some t \<and> result s c = Some r \<and> c \<in> signalled s"
| "thread_ok s L t (Waiting k c) \<longleftrightarrow> calls s k = Some c \<or> c \<in> signalled s"
| "thread_ok s L t (Answered k c r) \<longleftrightarrow> result s c = Some r"

fun leads :: "('k, 'r) pc \<Rightarrow> 'k \<Rightarrow> nat \<Rightarrow> bool" where
  "leads (Running k c) k' c' \<longleftrightarrow> k = k' \<and> c = c'"
| "leads (Executed k c r) k' c' \<longleftrightarrow> k = k' \<and> c = c'"
| "leads (Signalled k c r) k' c' \<longleftrightarrow> k = k' \<and> c = c'"
| "leads _ _ _ \<longleftrightarrow> False"

definition flight_inv :: "('k, 'r) flight \<Rightarrow> (nat \<rightharpoonup> nat) \<Rightarrow> bool" where
  "flight_inv s L \<longleftrightarrow>
     (\<forall>t. thread_ok s L t (pcs s t)) \<and>
     (\<forall>k c. calls s k = Some c \<longrightarrow> (\<exists>t. L c = Some t \<and> leads (pcs s t) k c)) \<and>
     (\<forall>c. c \<ge> fresh s \<longrightarrow> L c = None \<and> result s c = None) \<and>
     (\<forall>c \<in> signalled s. result s c \<noteq> None)"

lemma flight_inv_init: "flight_inv flight_init Map.empty"
  by (simp add: flight_inv_def flight_init_def)

lemma leads_ok: "thread_ok s L t p \<Longrightarrow> leads p k c \<Longrightarrow> calls s k = Some c \<and> L c = Some t"
  by (cases p) auto

text \<open>A step changes one thread; the others stay correct if their facts about the shared state do.\<close>

lemma flight_invI:
  assumes "flight_inv s L" and "pcs s' = (pcs s)(t := p)" and "thread_ok s' L' t p"
    and "\<And>u. u \<noteq> t \<Longrightarrow> thread_ok s L u (pcs s u) \<Longrightarrow> thread_ok s' L' u (pcs s u)"
    and "\<And>k c. calls s' k = Some c \<Longrightarrow> \<exists>u. L' c = Some u \<and> leads (pcs s' u) k c"
    and "\<And>c. c \<ge> fresh s' \<Longrightarrow> L' c = None \<and> result s' c = None" and "\<And>c. c \<in> signalled s' \<Longrightarrow> result s' c \<noteq> None"
  shows "flight_inv s' L'"
  using assms unfolding flight_inv_def by auto

lemma lead_upd:
  "\<exists>u. L c = Some u \<and> leads (f u) k c \<Longrightarrow> (leads (f t) k c \<Longrightarrow> leads p k c) \<Longrightarrow>
     \<exists>u. L c = Some u \<and> leads ((f(t := p)) u) k c"
  by (metis fun_upd_apply)

lemma flight_inv_step:
  assumes step: "flight_step s s'" and inv: "flight_inv s L"
  shows "\<exists>L'. flight_inv s' L'"
proof -
  have th: "thread_ok s L u (pcs s u)" for u using inv by (simp add: flight_inv_def)
  have lead: "calls s k = Some c \<Longrightarrow> \<exists>u. L c = Some u \<and> leads (pcs s u) k c" for k c using inv by (simp add: flight_inv_def)
  have fr: "c \<ge> fresh s \<Longrightarrow> L c = None \<and> result s c = None" for c using inv by (simp add: flight_inv_def)
  have sg: "c \<in> signalled s \<Longrightarrow> result s c \<noteq> None" for c using inv by (simp add: flight_inv_def)
  show ?thesis
    using step
  proof cases
    case (start t k)
    let ?L = "L(fresh s \<mapsto> t)"
    have "flight_inv s' ?L"
    proof (rule flight_invI [OF inv, of s' t "Running k (fresh s)"])
      fix u assume u: "u \<noteq> t" "thread_ok s L u (pcs s u)"
      show "thread_ok s' ?L u (pcs s u)" using u start(3) fr [of "fresh s"] by (cases "pcs s u") (auto simp: start(1))
    next
      fix k' c assume a: "calls s' k' = Some c"
      show "\<exists>u. ?L c = Some u \<and> leads (pcs s' u) k' c"
      proof (cases "k' = k")
        case False
        then obtain u where u: "L c = Some u" "leads (pcs s u) k' c" using lead [of k' c] a by (auto simp: start(1))
        then have "u \<noteq> t" "c \<noteq> fresh s" using start(2) fr [of "fresh s"] by auto
        then show ?thesis using u by (intro exI [of _ u]) (simp add: start(1))
      qed (use a in \<open>auto simp: start(1)\<close>)
    qed (use start fr sg in auto)
    then show ?thesis by blast
  next
    case (join t k c)
    have "flight_inv s' L"
    proof (rule flight_invI [OF inv, of s' t "Waiting k c"])
      fix u assume u: "u \<noteq> t" "thread_ok s L u (pcs s u)"
      then show "thread_ok s' L u (pcs s u)" by (cases "pcs s u") (auto simp: join(1))
    next
      fix k' c' assume "calls s' k' = Some c'"
      then have "calls s k' = Some c'" by (simp add: join(1))
      from lead_upd [where L = L and c = c' and f = "pcs s" and t = t and p = "Waiting k c", OF lead [OF this]] show "\<exists>u. L c' = Some u \<and> leads (pcs s' u) k' c'"
        using join(2) by (simp add: join(1))
    qed (use join fr sg in auto)
    then show ?thesis by blast
  next
    case (execute t k c r)
    have "flight_inv s' L"
    proof (rule flight_invI [OF inv, of s' t "Executed k c r"])
      have t: "calls s k = Some c" "L c = Some t" "result s c = None" using th [of t] execute(2) by auto
      then show "thread_ok s' L t (Executed k c r)" by (simp add: execute(1))
      fix u assume u: "u \<noteq> t" "thread_ok s L u (pcs s u)"
      then show "thread_ok s' L u (pcs s u)" using t by (cases "pcs s u") (auto simp: execute(1))
    next
      fix k' c' assume "calls s' k' = Some c'"
      then have "calls s k' = Some c'" by (simp add: execute(1))
      from lead_upd [where L = L and c = c' and f = "pcs s" and t = t and p = "Executed k c r", OF lead [OF this]] show "\<exists>u. L c' = Some u \<and> leads (pcs s' u) k' c'"
        using execute(2) by (simp add: execute(1))
    next
      fix c' assume "fresh s' \<le> c'"
      then show "L c' = None \<and> result s' c' = None" using fr [of c'] th [of t] execute(2) by (auto simp: execute(1))
    qed (use execute sg in \<open>auto split: if_splits\<close>)
    then show ?thesis by blast
  next
    case (signal t k c r)
    have t: "calls s k = Some c" "L c = Some t" "result s c = Some r" using th [of t] signal(2) by auto
    have "flight_inv s' L"
    proof (rule flight_invI [OF inv, of s' t "Signalled k c r"])
      fix u assume u: "u \<noteq> t" "thread_ok s L u (pcs s u)"
      then show "thread_ok s' L u (pcs s u)" by (cases "pcs s u") (auto simp: signal(1))
    next
      fix k' c' assume "calls s' k' = Some c'"
      then have "calls s k' = Some c'" by (simp add: signal(1))
      from lead_upd [where L = L and c = c' and f = "pcs s" and t = t and p = "Signalled k c r", OF lead [OF this]] show "\<exists>u. L c' = Some u \<and> leads (pcs s' u) k' c'"
        using signal(2) by (simp add: signal(1))
    qed (use signal t fr sg in auto)
    then show ?thesis by blast
  next
    case (remove t k c r)
    have t: "calls s k = Some c" "L c = Some t" "result s c = Some r" "c \<in> signalled s" using th [of t] remove(2) by auto
    have "flight_inv s' L"
    proof (rule flight_invI [OF inv, of s' t "Answered k c r"])
      fix u assume u: "u \<noteq> t" "thread_ok s L u (pcs s u)"
      then show "thread_ok s' L u (pcs s u)" using t by (cases "pcs s u") (auto simp: remove(1))
    next
      fix k' c' assume a: "calls s' k' = Some c'"
      then have k': "k' \<noteq> k" "calls s k' = Some c'" by (auto simp: remove(1) split: if_splits)
      then obtain u where u: "L c' = Some u" "leads (pcs s u) k' c'" using lead by blast
      then have "u \<noteq> t" using k'(1) remove(2) by auto
      then show "\<exists>u. L c' = Some u \<and> leads (pcs s' u) k' c'" using u by (auto simp: remove(1))
    qed (use remove t fr sg in auto)
    then show ?thesis by blast
  next
    case (wake t k c r)
    have "flight_inv s' L"
    proof (rule flight_invI [OF inv, of s' t "Answered k c r"])
      fix u assume u: "u \<noteq> t" "thread_ok s L u (pcs s u)"
      then show "thread_ok s' L u (pcs s u)" by (cases "pcs s u") (auto simp: wake(1))
    next
      fix k' c' assume "calls s' k' = Some c'"
      then have "calls s k' = Some c'" by (simp add: wake(1))
      from lead_upd [where L = L and c = c' and f = "pcs s" and t = t and p = "Answered k c r", OF lead [OF this]] show "\<exists>u. L c' = Some u \<and> leads (pcs s' u) k' c'"
        using wake(2) by (simp add: wake(1))
    qed (use wake fr sg in auto)
    then show ?thesis by blast
  next
    case (again t k c r)
    have "flight_inv s' L"
    proof (rule flight_invI [OF inv, of s' t Idle])
      fix u assume u: "u \<noteq> t" "thread_ok s L u (pcs s u)"
      then show "thread_ok s' L u (pcs s u)" by (cases "pcs s u") (auto simp: again(1))
    next
      fix k' c' assume "calls s' k' = Some c'"
      then have "calls s k' = Some c'" by (simp add: again(1))
      from lead_upd [where L = L and c = c' and f = "pcs s" and t = t and p = "Idle", OF lead [OF this]] show "\<exists>u. L c' = Some u \<and> leads (pcs s' u) k' c'"
        using again(2) by (simp add: again(1))
    qed (use again fr sg in auto)
    then show ?thesis by blast
  qed
qed

lemma flight_inv_reachable: "flight_steps flight_init s \<Longrightarrow> \<exists>L. flight_inv s L"
proof (induction rule: rtranclp_induct)
  case base
  then show ?case using flight_inv_init by blast
next
  case (step s s')
  then show ?case using flight_inv_step by blast
qed

section \<open>Properties\<close>

text \<open>
  C9. Suppression: at no moment do two threads run \<open>fn\<close> for the same key, and every thread that
  returns has the result that the run of its call produced, so all callers that joined a call get
  the same answer.
\<close>

theorem single_flight_safe:
  assumes "flight_steps flight_init s"
  shows "(pcs s t = Running k c \<and> pcs s u = Running k c' \<longrightarrow> t = u) \<and>
    (pcs s t = Answered k c r \<and> pcs s u = Answered k' c r' \<longrightarrow> r = r')"
proof -
  obtain L where L: "flight_inv s L" using flight_inv_reachable [OF assms] by blast
  then have "thread_ok s L v (pcs s v)" for v by (simp add: flight_inv_def)
  from this [of t] this [of u] show ?thesis by auto
qed

theorem single_flight_safe_witness:
  "\<exists>s r r'. flight_steps flight_init s \<and> pcs s 0 = Answered ''k'' 0 (r :: string) \<and> pcs s 1 = Answered ''k'' 0 r' \<and> r = r'"
proof -
  define s0 :: "(string, string) flight" where "s0 = flight_init"
  define s1 where "s1 = s0\<lparr>calls := (calls s0)(''k'' \<mapsto> fresh s0), fresh := Suc (fresh s0), pcs := (pcs s0)(0 := Running ''k'' (fresh s0))\<rparr>"
  define s2 where "s2 = s1\<lparr>pcs := (pcs s1)(1 := Waiting ''k'' 0)\<rparr>"
  define s3 where "s3 = s2\<lparr>result := (result s2)(0 \<mapsto> ''v''), pcs := (pcs s2)(0 := Executed ''k'' 0 ''v'')\<rparr>"
  define s4 where "s4 = s3\<lparr>signalled := insert 0 (signalled s3), pcs := (pcs s3)(0 := Signalled ''k'' 0 ''v'')\<rparr>"
  define s5 where "s5 = s4\<lparr>calls := (calls s4)(''k'' := None), pcs := (pcs s4)(0 := Answered ''k'' 0 ''v'')\<rparr>"
  define s6 where "s6 = s5\<lparr>pcs := (pcs s5)(1 := Answered ''k'' 0 ''v'')\<rparr>"
  note defs = s0_def s1_def s2_def s3_def s4_def s5_def s6_def flight_init_def
  have "flight_step s0 s1" unfolding s1_def by (rule flight_step.start) (simp_all add: defs)
  moreover have "flight_step s1 s2" unfolding s2_def by (rule flight_step.join) (simp_all add: defs)
  moreover have "flight_step s2 s3" unfolding s3_def by (rule flight_step.execute) (simp add: defs)
  moreover have "flight_step s3 s4" unfolding s4_def by (rule flight_step.signal) (simp add: defs)
  moreover have "flight_step s4 s5" unfolding s5_def by (rule flight_step.remove) (simp add: defs)
  moreover have "flight_step s5 s6" unfolding s6_def by (rule flight_step.wake) (simp_all add: defs)
  ultimately have "flight_steps flight_init s6" unfolding s0_def by (meson converse_rtranclp_into_rtranclp rtranclp.rtrancl_refl)
  moreover obtain r r' where "pcs s6 0 = Answered ''k'' 0 r" "pcs s6 1 = Answered ''k'' 0 r'" by (simp add: defs)
  ultimately show ?thesis using single_flight_safe [of s6 0 "''k''" 0 1 _ r "''k''" r'] by blast
qed



end
