(* ===== verification/Cache_Ring.thy ===== *)
theory Cache_Ring
  imports Go_Strings
begin

text \<open>
  The consistent-hash ring (\<open>src/swifty_cache/consistent_hash.go\<close>, \<open>config.go\<close>). The hash function
  is the field \<open>HashFunc\<close> of the configuration and stays a parameter; the binary search of
  \<open>sort.Search\<close> is modelled as the loop it is. Each method holds the ring's lock throughout.

  The specification is the ring as a map from positions to nodes with the successor rule; the
  theorems show that \<open>Get\<close> follows it and that adding or removing a node moves only the keys that
  must move.
\<close>

section \<open>Data\<close>

record ConHashConfig =
  DefaultReplicas :: nat
  HashFunc :: "string \<Rightarrow> nat"

record ring =
  config :: ConHashConfig
  keys :: "nat list"
  hashMap :: "(nat, string) gomap"
  nodeHashes :: "(string, nat list) gomap"
  nodeCounts :: "(string, int) gomap"
  totalRequests :: int

definition NewConsistentHash :: "ConHashConfig \<Rightarrow> ring" where
  "NewConsistentHash cfg =
     \<lparr>config = cfg, keys = [], hashMap = [], nodeHashes = [], nodeCounts = [], totalRequests = 0\<rparr>"

section \<open>Operations\<close>

text \<open>The position of a virtual node: \<open>HashFunc("%s-%d")\<close>.\<close>

definition vhash :: "ring \<Rightarrow> string \<Rightarrow> nat \<Rightarrow> nat" where
  "vhash m node i = HashFunc (config m) (node @ ''-'' @ dec_nat i)"

text \<open>One round of the replica loop; positions already taken are skipped.\<close>

definition add_replica :: "string \<Rightarrow> nat \<Rightarrow> ring \<times> nat list \<Rightarrow> ring \<times> nat list" where
  "add_replica node i mh =
     (let (m, hashes) = mh; hash = vhash m node i in
      case gm_get (hashMap m) hash of
        Some _ \<Rightarrow> (m, hashes)
      | None \<Rightarrow> (m\<lparr>keys := keys m @ [hash], hashMap := gm_set hash node (hashMap m)\<rparr>, hashes @ [hash]))"

definition addNodeLocked :: "string \<Rightarrow> nat \<Rightarrow> ring \<Rightarrow> ring" where
  "addNodeLocked node replicas m =
     (case gm_get (nodeHashes m) node of
        Some _ \<Rightarrow> m
      | None \<Rightarrow>
          (let (m, hashes) = fold (add_replica node) [0..<replicas] (m, []);
               m = m\<lparr>nodeHashes := gm_set node hashes (nodeHashes m)\<rparr>
           in case gm_get (nodeCounts m) node of
                Some _ \<Rightarrow> m
              | None \<Rightarrow> m\<lparr>nodeCounts := gm_set node 0 (nodeCounts m)\<rparr>))"

definition add_node :: "string \<Rightarrow> ring \<Rightarrow> ring" where
  "add_node node m = (if node = [] then m else addNodeLocked node (DefaultReplicas (config m)) m)"

definition Add :: "string list \<Rightarrow> ring \<Rightarrow> string + ring" where
  "Add nodes m =
     (if nodes = [] then Inl ''no nodes provided''
      else let m = fold add_node nodes m in Inr (m\<lparr>keys := sort (keys m)\<rparr>))"

definition removeNodeLocked :: "string \<Rightarrow> ring \<Rightarrow> string + ring" where
  "removeNodeLocked node m =
     (case gm_get (nodeHashes m) node of
        None \<Rightarrow> Inl (''node '' @ node @ '' not found'')
      | Some hashes \<Rightarrow>
          Inr (m\<lparr>hashMap := fold gm_del hashes (hashMap m),
                 keys := filter (\<lambda>k. k \<notin> set hashes) (keys m),
                 nodeHashes := gm_del node (nodeHashes m),
                 nodeCounts := gm_del node (nodeCounts m)\<rparr>))"

definition Remove :: "string \<Rightarrow> ring \<Rightarrow> string + ring" where
  "Remove node m = (if node = [] then Inl ''invalid node'' else removeNodeLocked node m)"

text \<open>\<open>sort.Search\<close> on the half-open range \<open>[i, j)\<close>.\<close>

function sort_Search :: "nat \<Rightarrow> nat \<Rightarrow> (nat \<Rightarrow> bool) \<Rightarrow> nat" where
  "sort_Search i j f =
     (if i < j then let h = (i + j) div 2 in if \<not> f h then sort_Search (h + 1) j f else sort_Search i h f
      else i)"
  by pat_completeness auto
termination
  by (relation "measure (\<lambda>(i, j, f). j - i)") auto

declare sort_Search.simps [simp del]

text \<open>A ring lookup; the outer option is an index panic.\<close>

definition Get :: "string \<Rightarrow> ring \<Rightarrow> (ring \<times> string) option" where
  "Get key m =
     (if key = [] then Some (m, [])
      else if keys m = [] then Some (m, [])
      else do {
        let hash = HashFunc (config m) key;
        let idx = sort_Search 0 (length (keys m)) (\<lambda>i. keys m ! i \<ge> hash);
        let idx = (if idx = length (keys m) then 0 else idx);
        k \<leftarrow> rd (keys m) idx;
        let node = (case gm_get (hashMap m) k of Some n \<Rightarrow> n | None \<Rightarrow> []);
        let m = (case gm_get (nodeCounts m) node of
                   Some c \<Rightarrow> m\<lparr>nodeCounts := gm_set node (c + 1) (nodeCounts m)\<rparr> | None \<Rightarrow> m);
        Some (m\<lparr>totalRequests := totalRequests m + 1\<rparr>, node) })"

section \<open>Binary search\<close>

lemma sort_Search_spec:
  assumes "i \<le> j" and "\<And>a b. a \<le> b \<Longrightarrow> b < j \<Longrightarrow> f a \<Longrightarrow> f b"
  shows "i \<le> sort_Search i j f \<and> sort_Search i j f \<le> j \<and>
    (\<forall>k. i \<le> k \<and> k < sort_Search i j f \<longrightarrow> \<not> f k) \<and> (sort_Search i j f < j \<longrightarrow> f (sort_Search i j f))"
  using assms
proof (induction i j f rule: sort_Search.induct)
  case (1 i j f)
  define h where "h = (i + j) div 2"
  show ?case
  proof (cases "i < j")
    case False
    then show ?thesis using 1(3) by (auto simp: sort_Search.simps)
  next
    case True
    have h: "i \<le> h" "h < j" using True by (auto simp: h_def)
    show ?thesis
    proof (cases "f h")
      case True
      have "sort_Search i j f = sort_Search i h f" using \<open>i < j\<close> True by (subst sort_Search.simps) (simp add: h_def Let_def)
      moreover have "i \<le> sort_Search i h f \<and> sort_Search i h f \<le> h \<and>
        (\<forall>k. i \<le> k \<and> k < sort_Search i h f \<longrightarrow> \<not> f k) \<and> (sort_Search i h f < h \<longrightarrow> f (sort_Search i h f))"
        using 1(2) [OF \<open>i < j\<close> h_def] True h 1(4) by (meson less_trans)
      ultimately show ?thesis using h True by (metis le_neq_implies_less le_trans less_imp_le)
    next
      case False
      have e: "sort_Search i j f = sort_Search (h + 1) j f" using \<open>i < j\<close> False by (subst sort_Search.simps) (simp add: h_def Let_def)
      have IH: "h + 1 \<le> sort_Search (h + 1) j f \<and> sort_Search (h + 1) j f \<le> j \<and>
        (\<forall>k. h + 1 \<le> k \<and> k < sort_Search (h + 1) j f \<longrightarrow> \<not> f k) \<and> (sort_Search (h + 1) j f < j \<longrightarrow> f (sort_Search (h + 1) j f))"
        using 1(1) [OF \<open>i < j\<close> h_def False] h 1(4) by auto
      have "\<not> f k" if "i \<le> k" "k < sort_Search (h + 1) j f" for k
      proof (cases "k \<le> h")
        case True
        then show ?thesis using False 1(4) [OF True h(2)] by blast
      qed (use IH that in auto)
      then show ?thesis using IH h unfolding e by auto
    qed
  qed
qed

section \<open>The ring invariant\<close>

definition ring_inv :: "ring \<Rightarrow> bool" where
  "ring_inv m \<longleftrightarrow> distinct (keys m) \<and> set (keys m) = dom (gm_get (hashMap m)) \<and> gm_get (nodeHashes m) [] = None \<and>
     (\<forall>h node. gm_get (hashMap m) h = Some node \<longleftrightarrow> (\<exists>hs. gm_get (nodeHashes m) node = Some hs \<and> h \<in> set hs))"

definition ring_ok :: "ring \<Rightarrow> bool" where
  "ring_ok m \<longleftrightarrow> ring_inv m \<and> sorted (keys m)"

lemma add_replicas:
  "\<exists>new. fold (add_replica node) is (m, hs) =
      (m\<lparr>keys := keys m @ new, hashMap := fold (\<lambda>h. gm_set h node) new (hashMap m)\<rparr>, hs @ new) \<and>
    distinct new \<and> set new \<inter> dom (gm_get (hashMap m)) = {}"
proof (induction "is" arbitrary: m hs)
  case (Cons i "is")
  show ?case
  proof (cases "gm_get (hashMap m) (vhash m node i)")
    case None
    let ?h = "vhash m node i"
    let ?m = "m\<lparr>keys := keys m @ [?h], hashMap := gm_set ?h node (hashMap m)\<rparr>"
    obtain new where new: "fold (add_replica node) is (?m, hs @ [?h]) =
      (?m\<lparr>keys := keys ?m @ new, hashMap := fold (\<lambda>h. gm_set h node) new (hashMap ?m)\<rparr>, (hs @ [?h]) @ new)"
      "distinct new" "set new \<inter> dom (gm_get (hashMap ?m)) = {}" using Cons [of ?m "hs @ [?h]"] by blast
    have st: "add_replica node i (m, hs) = (?m, hs @ [?h])" using None by (simp add: add_replica_def Let_def)
    show ?thesis using new None by (intro exI [of _ "?h # new"]) (auto simp: st)
  next
    case (Some n)
    then have "add_replica node i (m, hs) = (m, hs)" by (simp add: add_replica_def Let_def)
    then show ?thesis using Cons [of m hs] by simp
  qed
qed (auto intro: exI [of _ "[]"])

lemma get_fold_set: "gm_get (fold (\<lambda>h. gm_set h node) hs m) = (\<lambda>h. if h \<in> set hs then Some node else gm_get m h)"
  by (induction hs arbitrary: m) auto

lemma get_fold_del: "gm_get (fold gm_del hs m) = (\<lambda>h. if h \<in> set hs then None else gm_get m h)"
  by (induction hs arbitrary: m) auto

text \<open>What adding a node does to the position map: new positions for this node only.\<close>

lemma addNodeLocked_spec:
  assumes inv: "ring_inv m" and node: "node \<noteq> []"
  shows "ring_inv (addNodeLocked node r m) \<and> config (addNodeLocked node r m) = config m \<and>
    node \<in> dom (gm_get (nodeHashes (addNodeLocked node r m))) \<and>
    (\<forall>h n. gm_get (hashMap m) h = Some n \<longrightarrow> gm_get (hashMap (addNodeLocked node r m)) h = Some n) \<and>
    (\<forall>h n. gm_get (hashMap (addNodeLocked node r m)) h = Some n \<longrightarrow> n = node \<or> gm_get (hashMap m) h = Some n) \<and>
    dom (gm_get (nodeHashes (addNodeLocked node r m))) = insert node (dom (gm_get (nodeHashes m)))"
proof (cases "gm_get (nodeHashes m) node")
  case (Some hs)
  then show ?thesis using inv by (auto simp: addNodeLocked_def)
next
  case None
  obtain new where new: "fold (add_replica node) [0..<r] (m, []) =
      (m\<lparr>keys := keys m @ new, hashMap := fold (\<lambda>h. gm_set h node) new (hashMap m)\<rparr>, new)"
    "distinct new" "set new \<inter> dom (gm_get (hashMap m)) = {}"
    using add_replicas [of node "[0..<r]" m "[]"] by auto
  define m' where "m' = addNodeLocked node r m"
  have f: "keys m' = keys m @ new" "hashMap m' = fold (\<lambda>h. gm_set h node) new (hashMap m)"
    "nodeHashes m' = gm_set node new (nodeHashes m)" "config m' = config m"
    using None new(1) by (auto simp: m'_def addNodeLocked_def Let_def split: option.splits)
  have no: "gm_get (hashMap m) h \<noteq> Some node" for h using inv None by (auto simp: ring_inv_def)
  have "ring_inv m'"
    unfolding ring_inv_def
  proof (intro conjI allI)
    show "distinct (keys m')" using inv new by (auto simp: f ring_inv_def)
    show "set (keys m') = dom (gm_get (hashMap m'))" using inv by (auto simp: f ring_inv_def get_fold_set split: if_splits)
    show "gm_get (nodeHashes m') [] = None" using inv node by (simp add: f ring_inv_def)
    fix h n
    show "gm_get (hashMap m') h = Some n \<longleftrightarrow> (\<exists>hs. gm_get (nodeHashes m') n = Some hs \<and> h \<in> set hs)"
    proof (cases "h \<in> set new")
      case True
      then have "gm_get (hashMap m) h = None" using new(3) by blast
      then have "\<not> (\<exists>hs. gm_get (nodeHashes m) n = Some hs \<and> h \<in> set hs)" using inv unfolding ring_inv_def by (metis option.distinct(1))
      then show ?thesis using True by (auto simp: f get_fold_set)
    next
      case False
      then show ?thesis using inv no [of h] by (auto simp: f get_fold_set ring_inv_def)
    qed
  qed
  moreover have "node \<in> dom (gm_get (nodeHashes m'))" by (simp add: f)
  moreover have "gm_get (hashMap m') h = Some n" if "gm_get (hashMap m) h = Some n" for h n
    using that new(3) by (auto simp: f get_fold_set)
  moreover have "n = node \<or> gm_get (hashMap m) h = Some n" if "gm_get (hashMap m') h = Some n" for h n
    using that by (auto simp: f get_fold_set split: if_splits)
  moreover have "dom (gm_get (nodeHashes m')) = insert node (dom (gm_get (nodeHashes m)))" by (auto simp: f)
  ultimately show ?thesis using f(4) unfolding m'_def by blast
qed

lemma add_node_spec:
  assumes "ring_inv m"
  shows "ring_inv (add_node node m) \<and> config (add_node node m) = config m \<and>
    (\<forall>h n. gm_get (hashMap m) h = Some n \<longrightarrow> gm_get (hashMap (add_node node m)) h = Some n) \<and>
    (\<forall>h n. gm_get (hashMap (add_node node m)) h = Some n \<longrightarrow> n = node \<or> gm_get (hashMap m) h = Some n) \<and>
    dom (gm_get (nodeHashes (add_node node m))) = dom (gm_get (nodeHashes m)) \<union> ({node} - {[]})"
  using addNodeLocked_spec [OF assms, of node] assms by (auto simp: add_node_def)

lemma fold_add_node:
  assumes "ring_inv m"
  shows "ring_inv (fold add_node ns m) \<and> config (fold add_node ns m) = config m \<and>
    (\<forall>h n. gm_get (hashMap m) h = Some n \<longrightarrow> gm_get (hashMap (fold add_node ns m)) h = Some n) \<and>
    (\<forall>h n. gm_get (hashMap (fold add_node ns m)) h = Some n \<longrightarrow> n \<in> set ns \<or> gm_get (hashMap m) h = Some n) \<and>
    dom (gm_get (nodeHashes (fold add_node ns m))) = dom (gm_get (nodeHashes m)) \<union> (set ns - {[]})"
  using assms
proof (induction ns arbitrary: m)
  case (Cons n ns)
  note a = add_node_spec [OF Cons.prems, of n]
  have r: "ring_inv (add_node n m)" using a by blast
  note IH = Cons.IH [OF r]
  show ?case
  proof (intro conjI allI impI)
    show "ring_inv (fold add_node (n # ns) m)" "config (fold add_node (n # ns) m) = config m" using a IH by simp_all
    show "gm_get (hashMap (fold add_node (n # ns) m)) h = Some k" if "gm_get (hashMap m) h = Some k" for h k
      using that a IH by simp
    show "k \<in> set (n # ns) \<or> gm_get (hashMap m) h = Some k" if "gm_get (hashMap (fold add_node (n # ns) m)) h = Some k" for h k
    proof -
      have "k \<in> set ns \<or> gm_get (hashMap (add_node n m)) h = Some k" using that IH by simp
      then show ?thesis using a by auto
    qed
    show "dom (gm_get (nodeHashes (fold add_node (n # ns) m))) = dom (gm_get (nodeHashes m)) \<union> (set (n # ns) - {[]})"
      using a IH by auto
  qed
qed simp

lemma Add_spec:
  assumes "ring_ok m" "ns \<noteq> []"
  obtains m' where "Add ns m = Inr m'" "ring_ok m'" "config m' = config m"
    "\<And>h n. gm_get (hashMap m) h = Some n \<Longrightarrow> gm_get (hashMap m') h = Some n"
    "\<And>h n. gm_get (hashMap m') h = Some n \<Longrightarrow> n \<in> set ns \<or> gm_get (hashMap m) h = Some n"
    "dom (gm_get (nodeHashes m')) = dom (gm_get (nodeHashes m)) \<union> (set ns - {[]})"
proof -
  have inv: "ring_inv m" using assms(1) by (simp add: ring_ok_def)
  note f = fold_add_node [OF inv, of ns]
  let ?m = "fold add_node ns m"
  have "ring_ok (?m\<lparr>keys := sort (keys ?m)\<rparr>)" using f by (auto simp: ring_ok_def ring_inv_def)
  then show ?thesis using f assms(2) by (intro that [of "?m\<lparr>keys := sort (keys ?m)\<rparr>"]) (auto simp: Add_def Let_def)
qed

lemma Remove_spec:
  assumes ok: "ring_ok m" and n: "gm_get (nodeHashes m) node = Some hs"
  obtains m' where "Remove node m = Inr m'" "ring_ok m'" "config m' = config m"
    "\<And>h k. gm_get (hashMap m') h = Some k \<longleftrightarrow> gm_get (hashMap m) h = Some k \<and> k \<noteq> node"
    "dom (gm_get (nodeHashes m')) = dom (gm_get (nodeHashes m)) - {node}"
proof -
  have inv: "ring_inv m" using ok by (simp add: ring_ok_def)
  have ne: "node \<noteq> []" using inv n by (auto simp: ring_inv_def)
  define m' where "m' = m\<lparr>hashMap := fold gm_del hs (hashMap m), keys := filter (\<lambda>k. k \<notin> set hs) (keys m),
      nodeHashes := gm_del node (nodeHashes m), nodeCounts := gm_del node (nodeCounts m)\<rparr>"
  have own: "h \<in> set hs \<longleftrightarrow> gm_get (hashMap m) h = Some node" for h using inv n by (auto simp: ring_inv_def)
  have hm: "gm_get (hashMap m') h = Some k \<longleftrightarrow> gm_get (hashMap m) h = Some k \<and> k \<noteq> node" for h k
    using own [of h] by (auto simp: m'_def get_fold_del split: if_splits)
  have "ring_inv m'"
    unfolding ring_inv_def
  proof (intro conjI allI)
    show "distinct (keys m')" using inv by (simp add: m'_def ring_inv_def)
    show "set (keys m') = dom (gm_get (hashMap m'))" using inv own by (auto simp: m'_def ring_inv_def get_fold_del split: if_splits)
    show "gm_get (nodeHashes m') [] = None" using inv by (simp add: m'_def ring_inv_def)
    fix h k show "gm_get (hashMap m') h = Some k \<longleftrightarrow> (\<exists>hs. gm_get (nodeHashes m') k = Some hs \<and> h \<in> set hs)"
      unfolding hm using inv by (auto simp: m'_def ring_inv_def)
  qed
  moreover have "sorted (keys m')" using ok by (simp add: m'_def ring_ok_def sorted_filter [where f = "\<lambda>x. x", simplified])
  ultimately show ?thesis using hm ne n
    by (intro that [of m']) (auto simp: Remove_def removeNodeLocked_def m'_def ring_ok_def)
qed

section \<open>The owner of a key\<close>

text \<open>The successor rule: the smallest position not below the hash, or the smallest of all.\<close>

definition successor :: "nat set \<Rightarrow> nat \<Rightarrow> nat" where
  "successor K h = (if \<exists>k \<in> K. h \<le> k then Min {k \<in> K. h \<le> k} else Min K)"

definition owner :: "ring \<Rightarrow> string \<Rightarrow> string option" where
  "owner m key = gm_get (hashMap m) (successor (dom (gm_get (hashMap m))) (HashFunc (config m) key))"

lemma successor_sorted:
  assumes "sorted ks" "ks \<noteq> []" "i \<le> length ks" "\<forall>k < i. \<not> h \<le> ks ! k" "i < length ks \<longrightarrow> h \<le> ks ! i"
  shows "successor (set ks) h = ks ! (if i = length ks then 0 else i)"
proof (cases "i = length ks")
  case True
  then have "\<not> (\<exists>k \<in> set ks. h \<le> k)" using assms(4) by (auto simp: in_set_conv_nth)
  moreover have "Min (set ks) = ks ! 0" using assms(1,2)
    by (intro Min_eqI) (auto simp: in_set_conv_nth sorted_nth_mono)
  ultimately show ?thesis using True by (simp add: successor_def)
next
  case False
  then have i: "i < length ks" "h \<le> ks ! i" using assms by auto
  have "Min {k \<in> set ks. h \<le> k} = ks ! i"
  proof (rule Min_eqI)
    fix y assume "y \<in> {k \<in> set ks. h \<le> k}"
    then obtain j where j: "j < length ks" "y = ks ! j" "h \<le> ks ! j" by (auto simp: in_set_conv_nth)
    then have "i \<le> j" using assms(4) by (meson not_less)
    then show "ks ! i \<le> y" using assms(1) j by (simp add: sorted_nth_mono)
  qed (use i in auto)
  moreover have "\<exists>k \<in> set ks. h \<le> k" using i by force
  ultimately show ?thesis using False by (simp add: successor_def)
qed

lemma successor_in: "finite K \<Longrightarrow> K \<noteq> {} \<Longrightarrow> successor K h \<in> K"
proof -
  assume K: "finite K" "K \<noteq> {}"
  have "\<exists>k \<in> K. h \<le> k \<Longrightarrow> Min {k \<in> K. h \<le> k} \<in> {k \<in> K. h \<le> k}" using K by (intro Min_in) auto
  then show ?thesis using Min_in [OF K] by (auto simp: successor_def)
qed

lemma Get_owner:
  assumes ok: "ring_ok m" and key: "key \<noteq> []" and ne: "keys m \<noteq> []"
  obtains m' n where "Get key m = Some (m', n)" "owner m key = Some n" "n \<in> dom (gm_get (nodeHashes m))"
    "keys m' = keys m" "hashMap m' = hashMap m" "nodeHashes m' = nodeHashes m" "config m' = config m"
    "totalRequests m' = totalRequests m + 1"
proof -
  have inv: "ring_inv m" and so: "sorted (keys m)" using ok by (auto simp: ring_ok_def)
  let ?h = "HashFunc (config m) key" and ?n = "length (keys m)"
  let ?i = "sort_Search 0 ?n (\<lambda>i. ?h \<le> keys m ! i)"
  have mono: "a \<le> b \<Longrightarrow> b < ?n \<Longrightarrow> ?h \<le> keys m ! a \<Longrightarrow> ?h \<le> keys m ! b" for a b
    using so by (meson le_trans sorted_nth_mono)
  have s: "?i \<le> ?n" "\<forall>k < ?i. \<not> ?h \<le> keys m ! k" "?i < ?n \<longrightarrow> ?h \<le> keys m ! ?i"
    using sort_Search_spec [of 0 ?n "\<lambda>i. ?h \<le> keys m ! i"] mono by auto
  define j where "j = (if ?i = ?n then 0 else ?i)"
  have j: "j < ?n" using s(1) ne by (auto simp: j_def)
  have dm: "dom (gm_get (hashMap m)) = set (keys m)" using inv by (simp add: ring_inv_def)
  have suc: "successor (dom (gm_get (hashMap m))) ?h = keys m ! j"
    unfolding dm j_def by (rule successor_sorted [OF so ne s])
  obtain n where n: "gm_get (hashMap m) (keys m ! j) = Some n" using j dm nth_mem by blast
  then have "n \<in> dom (gm_get (nodeHashes m))" using inv by (auto simp: ring_inv_def)
  moreover have "owner m key = Some n" using n suc by (simp add: owner_def)
  moreover define m1 where "m1 = (case gm_get (nodeCounts m) n of
                   Some c \<Rightarrow> m\<lparr>nodeCounts := gm_set n (c + 1) (nodeCounts m)\<rparr> | None \<Rightarrow> m)"
  moreover have "Get key m = Some (m1\<lparr>totalRequests := totalRequests m1 + 1\<rparr>, n)"
    using key ne n rd_Some [OF j] unfolding Get_def m1_def Let_def j_def [symmetric]
    by (cases "gm_get (nodeCounts m) n") simp_all
  ultimately show ?thesis by (intro that [of "m1\<lparr>totalRequests := totalRequests m1 + 1\<rparr>" n]) (auto simp: m1_def split: option.split)
qed

lemma successor_subset:
  assumes "finite K" "K' \<subseteq> K" "successor K h \<in> K'"
  shows "successor K' h = successor K h"
proof (cases "\<exists>k \<in> K. h \<le> k")
  case True
  let ?s = "Min {k \<in> K. h \<le> k}"
  have s: "successor K h = ?s" using True by (simp add: successor_def)
  have "?s \<in> {k \<in> K. h \<le> k}" using True assms(1) by (intro Min_in) auto
  then have h: "h \<le> ?s" "?s \<in> K'" using assms(3) s by auto
  have "Min {k \<in> K'. h \<le> k} = ?s"
  proof (rule Min_eqI)
    show "finite {k \<in> K'. h \<le> k}" using finite_subset [OF assms(2,1)] by simp
    show "?s \<in> {k \<in> K'. h \<le> k}" using h by simp
    fix y assume "y \<in> {k \<in> K'. h \<le> k}"
    then show "?s \<le> y" using assms(1,2) by (intro Min_le) auto
  qed
  then show ?thesis using h s unfolding successor_def by auto
next
  case False
  then have s: "successor K h = Min K" "successor K' h = Min K'" using assms(2) by (auto simp: successor_def)
  have "Min K' = Min K"
    using assms s by (intro Min_eqI) (auto intro: finite_subset Min_le)
  then show ?thesis using s by simp
qed

lemma owner_Some:
  "owner m key = Some n \<Longrightarrow> successor (dom (gm_get (hashMap m))) (HashFunc (config m) key) \<in> dom (gm_get (hashMap m))"
  by (auto simp: owner_def)

lemma owner_cong:
  "config m' = config m \<Longrightarrow> gm_get (hashMap m') = gm_get (hashMap m) \<Longrightarrow> owner m' key = owner m key"
  by (simp add: owner_def)

section \<open>Properties\<close>

inductive ring_reachable :: "ConHashConfig \<Rightarrow> ring \<Rightarrow> bool" for cfg where
  new: "ring_reachable cfg (NewConsistentHash cfg)"
| add: "ring_reachable cfg m \<Longrightarrow> Add ns m = Inr m' \<Longrightarrow> ring_reachable cfg m'"
| remove: "ring_reachable cfg m \<Longrightarrow> Remove n m = Inr m' \<Longrightarrow> ring_reachable cfg m'"
| get: "ring_reachable cfg m \<Longrightarrow> Get key m = Some (m', n) \<Longrightarrow> ring_reachable cfg m'"

lemma Remove_found: "Remove node m = Inr m' \<Longrightarrow> \<exists>hs. gm_get (nodeHashes m) node = Some hs"
  by (auto simp: Remove_def removeNodeLocked_def split: if_splits option.splits)

lemma Get_keeps:
  assumes "ring_ok m" "Get key m = Some (m', n)"
  shows "ring_ok m' \<and> config m' = config m"
proof (cases "key = [] \<or> keys m = []")
  case True
  then show ?thesis using assms by (auto simp: Get_def split: if_splits)
next
  case False
  then obtain m'' k where "Get key m = Some (m'', k)" "keys m'' = keys m" "hashMap m'' = hashMap m"
    "nodeHashes m'' = nodeHashes m" "config m'' = config m" using Get_owner [OF assms(1), of key] by blast
  then show ?thesis using assms by (simp add: ring_ok_def ring_inv_def)
qed

lemma ring_reachable_ok: "ring_reachable cfg m \<Longrightarrow> ring_ok m \<and> config m = cfg"
proof (induction rule: ring_reachable.induct)
  case new
  then show ?case by (simp add: NewConsistentHash_def ring_ok_def ring_inv_def)
next
  case (add m ns m')
  then have "ns \<noteq> []" by (auto simp: Add_def)
  then show ?case using Add_spec [of m ns] add by (metis sum.inject(2))
next
  case (remove m n m')
  then show ?case using Remove_spec [of m n] Remove_found [OF remove.hyps(2)] by (metis sum.inject(2))
next
  case (get m key m' n)
  then show ?case using Get_keeps by blast
qed

text \<open>
  On every reachable ring, a lookup returns the node that owns the key by the successor rule
  (the node at the first position not below the key's hash, wrapping around), a node of the ring;
  the binary search and the position slice agree with the map of positions.
\<close>

theorem Get_is_successor:
  assumes "ring_reachable cfg m" and "key \<noteq> []" and "keys m \<noteq> []"
  shows "\<exists>m' n. Get key m = Some (m', n) \<and> owner m key = Some n \<and> n \<in> dom (gm_get (nodeHashes m)) \<and>
    totalRequests m' = totalRequests m + 1"
  using Get_owner [OF _ assms(2,3)] ring_reachable_ok [OF assms(1)] by metis

definition demo_config :: ConHashConfig where
  "demo_config = \<lparr>DefaultReplicas = 1, HashFunc = length\<rparr>"

definition demo_ring :: ring where
  "demo_ring = \<lparr>config = demo_config, keys = [3, 4], hashMap = [(3, ''a''), (4, ''bb'')],
     nodeHashes = [(''a'', [3]), (''bb'', [4])], nodeCounts = [(''a'', 0), (''bb'', 0)], totalRequests = 0\<rparr>"

lemma dec_nat_0: "length (dec_nat 0) = 1"
  by (subst dec_nat.simps) simp

lemma demo_ring_eq: "Add [''a'', ''bb''] (NewConsistentHash demo_config) = Inr demo_ring"
proof -
  let ?m = "\<lparr>config = demo_config, keys = [3], hashMap = [(3, ''a'')], nodeHashes = [(''a'', [3])], nodeCounts = [(''a'', 0)], totalRequests = 0\<rparr>"
  have "add_node ''a'' (NewConsistentHash demo_config) = ?m"
    by (simp add: add_node_def addNodeLocked_def NewConsistentHash_def add_replica_def vhash_def demo_config_def gm_set_def dec_nat_0)
  moreover have "add_node ''bb'' ?m = demo_ring"
    by (simp add: add_node_def addNodeLocked_def demo_ring_def add_replica_def vhash_def demo_config_def gm_set_def dec_nat_0)
  moreover have "demo_ring\<lparr>keys := sort (keys demo_ring)\<rparr> = demo_ring" by (simp add: demo_ring_def)
  ultimately show ?thesis by (simp add: Add_def)
qed

lemma demo_ring_facts:
  "ring_reachable demo_config demo_ring" "ring_ok demo_ring" "keys demo_ring \<noteq> []" "''a'' \<in> dom (gm_get (nodeHashes demo_ring))"
proof -
  show r: "ring_reachable demo_config demo_ring" by (rule ring_reachable.add [OF ring_reachable.new demo_ring_eq])
  show "ring_ok demo_ring" using ring_reachable_ok [OF r] by blast
  show "keys demo_ring \<noteq> []" "''a'' \<in> dom (gm_get (nodeHashes demo_ring))" by (simp_all add: demo_ring_def)
qed

theorem Get_is_successor_witness: "\<exists>m' n. Get ''key'' demo_ring = Some (m', n) \<and> owner demo_ring ''key'' = Some n"
  using Get_is_successor [OF demo_ring_facts(1) _ demo_ring_facts(3), of "''key''"] by blast

text \<open>
  Removing a node moves only its own keys: a key that another node owned keeps its owner.
\<close>

theorem remove_moves_only_own_keys:
  assumes "ring_ok m" and "Remove node m = Inr m'" and "owner m key = Some n" and "n \<noteq> node"
  shows "owner m' key = Some n"
proof -
  obtain hs where hs: "gm_get (nodeHashes m) node = Some hs" using Remove_found [OF assms(2)] by blast
  obtain m'' where m'': "Remove node m = Inr m''" "config m'' = config m"
    "\<And>h k. gm_get (hashMap m'') h = Some k \<longleftrightarrow> gm_get (hashMap m) h = Some k \<and> k \<noteq> node"
    by (rule Remove_spec [OF assms(1) hs]) (rule that, assumption+)
  have m': "m'' = m'" using m''(1) assms(2) by simp
  let ?K = "dom (gm_get (hashMap m))" and ?h = "HashFunc (config m) key"
  have s: "gm_get (hashMap m') (successor ?K ?h) = Some n" using assms(3,4) m''(3) by (simp add: m' owner_def)
  have "successor (dom (gm_get (hashMap m'))) ?h = successor ?K ?h"
  proof (rule successor_subset)
    show "finite ?K" by (rule finite_dom_map_of)
    show "dom (gm_get (hashMap m')) \<subseteq> ?K" using m''(3) by (auto simp: m' dom_def)
    show "successor ?K ?h \<in> dom (gm_get (hashMap m'))" using s by blast
  qed
  then show ?thesis using s m''(2) by (simp add: owner_def m')
qed

theorem remove_moves_only_own_keys_witness:
  "\<exists>m'. Remove ''a'' demo_ring = Inr m' \<and> (\<forall>key. owner demo_ring key = Some ''bb'' \<longrightarrow> owner m' key = Some ''bb'')"
proof -
  obtain hs where "gm_get (nodeHashes demo_ring) ''a'' = Some hs" using demo_ring_facts(4) by blast
  then obtain m' where m': "Remove ''a'' demo_ring = Inr m'" using Remove_spec [OF demo_ring_facts(2)] by metis
  then show ?thesis using remove_moves_only_own_keys [OF demo_ring_facts(2) m', of _ "''bb''"] by auto
qed

text \<open>
  Adding nodes moves keys only to the new nodes: afterwards a key has its old owner or one of
  the nodes added. Removing a node that was just added restores every owner.
\<close>

theorem add_moves_keys_to_new_nodes:
  assumes "ring_ok m" and "ns \<noteq> []" and "owner m key = Some n"
  shows "\<exists>m'. Add ns m = Inr m' \<and> ring_ok m' \<and> (owner m' key = Some n \<or> (\<exists>n' \<in> set ns. owner m' key = Some n')) \<and>
    (\<forall>x. ns = [x] \<and> x \<noteq> [] \<and> gm_get (nodeHashes m) x = None \<longrightarrow> (\<exists>m''. Remove x m' = Inr m'' \<and> owner m'' key = Some n))"
proof -
  obtain m' where m': "Add ns m = Inr m'" "ring_ok m'" "config m' = config m"
    "\<And>h n. gm_get (hashMap m) h = Some n \<Longrightarrow> gm_get (hashMap m') h = Some n"
    "\<And>h n. gm_get (hashMap m') h = Some n \<Longrightarrow> n \<in> set ns \<or> gm_get (hashMap m) h = Some n"
    "dom (gm_get (nodeHashes m')) = dom (gm_get (nodeHashes m)) \<union> (set ns - {[]})"
    by (rule Add_spec [OF assms(1,2)]) (rule that, assumption+)
  let ?K = "dom (gm_get (hashMap m))" and ?K' = "dom (gm_get (hashMap m'))" and ?h = "HashFunc (config m) key"
  have sub: "?K \<subseteq> ?K'" using m'(4) by (auto simp: dom_def)
  have fin: "finite ?K'" by (rule finite_dom_map_of)
  have "?K' \<noteq> {}" using owner_Some [OF assms(3)] sub by blast
  then obtain n' where n': "gm_get (hashMap m') (successor ?K' ?h) = Some n'" using successor_in [OF fin] by blast
  have o': "owner m' key = Some n'" using n' m'(3) by (simp add: owner_def)
  have a: "owner m' key = Some n \<or> (\<exists>n' \<in> set ns. owner m' key = Some n')"
  proof (cases "gm_get (hashMap m) (successor ?K' ?h) = Some n'")
    case True
    then have "successor ?K ?h = successor ?K' ?h" by (intro successor_subset [OF fin sub]) auto
    then have "owner m key = Some n'" using True by (simp add: owner_def)
    then show ?thesis using o' assms(3) by simp
  next
    case False
    then show ?thesis using m'(5) [OF n'] o' by blast
  qed
  have b: "\<exists>m''. Remove x m' = Inr m'' \<and> owner m'' key = Some n" if x: "ns = [x]" "x \<noteq> []" "gm_get (nodeHashes m) x = None" for x
  proof -
    obtain hs where hs: "gm_get (nodeHashes m') x = Some hs" using m'(6) x by (auto simp: dom_def)
    obtain m'' where m'': "Remove x m' = Inr m''" "config m'' = config m'"
      "\<And>h k. gm_get (hashMap m'') h = Some k \<longleftrightarrow> gm_get (hashMap m') h = Some k \<and> k \<noteq> x"
      by (rule Remove_spec [OF m'(2) hs]) (rule that, assumption+)
    have no: "gm_get (hashMap m) h \<noteq> Some x" for h using assms(1) x(3) by (auto simp: ring_ok_def ring_inv_def)
    have "gm_get (hashMap m'') h = Some k \<longleftrightarrow> gm_get (hashMap m) h = Some k" for h k
      using m'(4) [of h k] m'(5) [of h k] m''(3) [of h k] x(1) no [of h] by auto
    then have "gm_get (hashMap m'') = gm_get (hashMap m)" by (intro ext) (metis not_Some_eq)
    then show ?thesis using owner_cong [of m'' m key] m''(1,2) m'(3) assms(3) by simp
  qed
  show ?thesis using m'(1,2) a b by blast
qed

theorem add_moves_keys_to_new_nodes_witness:
  "\<exists>n m'. owner demo_ring ''key'' = Some n \<and> Add [''c''] demo_ring = Inr m' \<and>
    (owner m' ''key'' = Some n \<or> (\<exists>n' \<in> set [''c'']. owner m' ''key'' = Some n'))"
proof -
  obtain n where n: "owner demo_ring ''key'' = Some n" using Get_owner [OF demo_ring_facts(2), of "''key''"] demo_ring_facts(3) by auto
  then show ?thesis using add_moves_keys_to_new_nodes [OF demo_ring_facts(2), of "[''c'']" "''key''" n] by blast
qed

end
