(* ===== verification/Cache_Peers.thy ===== *)
theory Cache_Peers
  imports Cache_Ring
begin

text \<open>
  Peer selection (\<open>src/swifty_cache/peers.go\<close>) and \<open>utils.go\<close>: the client picker keeps a hash ring
  and a client per remote peer, follows the registry's events and snapshots, and picks the owner
  of a key. The registry (etcd) is the sequence of events and snapshots; whether a client can be
  created for an address is a parameter.

  The picker relies on the ring through the interface \<open>owner_ring\<close>: what membership operations do
  to the set of nodes and what a lookup returns.
\<close>

section \<open>Operations\<close>

definition ValidPeerAddr :: "string \<Rightarrow> bool" where
  "ValidPeerAddr addr =
     (let t1 = split_on CHR '':'' addr in
      if length t1 \<noteq> 2 then False
      else let t2 = split_on CHR ''.'' (t1 ! 0) in
        if t1 ! 0 \<noteq> ''localhost'' \<and> length t2 \<noteq> 4 then False else True)"

record ClientPicker =
  selfAddr :: string
  svcName :: string
  consHash :: ring
  clients :: "(string, unit) gomap"

datatype watch_event = EventTypePut string | EventTypeDelete string

text \<open>The error results of the ring operations are ignored by the callers.\<close>

definition ring_Add :: "string \<Rightarrow> ring \<Rightarrow> ring" where
  "ring_Add addr m = (case Add [addr] m of Inr m \<Rightarrow> m | Inl _ \<Rightarrow> m)"

definition ring_Remove :: "string \<Rightarrow> ring \<Rightarrow> ring" where
  "ring_Remove addr m = (case Remove addr m of Inr m \<Rightarrow> m | Inl _ \<Rightarrow> m)"

definition NewClientPicker :: "ConHashConfig \<Rightarrow> string \<Rightarrow> string \<Rightarrow> ClientPicker" where
  "NewClientPicker cfg addr svc =
     \<lparr>selfAddr = addr, svcName = svc, consHash = ring_Add addr (NewConsistentHash cfg), clients = []\<rparr>"

definition servicePrefix :: "ClientPicker \<Rightarrow> string" where
  "servicePrefix p = ''/services/'' @ svcName p @ ''/''"

definition addrFromEventKey :: "string \<Rightarrow> ClientPicker \<Rightarrow> string" where
  "addrFromEventKey key p = trim_prefix key (servicePrefix p)"

definition picker_set :: "(string \<Rightarrow> bool) \<Rightarrow> string \<Rightarrow> ClientPicker \<Rightarrow> ClientPicker" where
  "picker_set new_client addr p =
     (if new_client addr
      then p\<lparr>consHash := ring_Add addr (consHash p), clients := gm_set addr () (clients p)\<rparr> else p)"

definition picker_remove :: "string \<Rightarrow> ClientPicker \<Rightarrow> ClientPicker" where
  "picker_remove addr p = p\<lparr>consHash := ring_Remove addr (consHash p), clients := gm_del addr (clients p)\<rparr>"

definition handle_event :: "(string \<Rightarrow> bool) \<Rightarrow> watch_event \<Rightarrow> ClientPicker \<Rightarrow> ClientPicker" where
  "handle_event new_client event p =
     (let addr = addrFromEventKey (case event of EventTypePut k \<Rightarrow> k | EventTypeDelete k \<Rightarrow> k) p in
      if addr = [] \<or> addr = selfAddr p then p
      else (case event of
         EventTypePut _ \<Rightarrow> (case gm_get (clients p) addr of None \<Rightarrow> picker_set new_client addr p | Some _ \<Rightarrow> p)
       | EventTypeDelete _ \<Rightarrow> (case gm_get (clients p) addr of Some _ \<Rightarrow> picker_remove addr p | None \<Rightarrow> p)))"

definition handleWatchEvents :: "(string \<Rightarrow> bool) \<Rightarrow> watch_event list \<Rightarrow> ClientPicker \<Rightarrow> ClientPicker" where
  "handleWatchEvents new_client events p = fold (handle_event new_client) events p"

text \<open>The two loops of \<open>fetchAllServices\<close>: the addresses of the snapshot, then the stale clients.\<close>

definition fetch_one :: "(string \<Rightarrow> bool) \<Rightarrow> string \<Rightarrow> ClientPicker \<times> string list \<Rightarrow> ClientPicker \<times> string list" where
  "fetch_one new_client key pc =
     (let (p, current) = pc; addr = addrFromEventKey key p in
      if addr = [] \<or> addr = selfAddr p then (p, current)
      else (case gm_get (clients p) addr of
              None \<Rightarrow> picker_set new_client addr p | Some _ \<Rightarrow> p, addr # current))"

definition fetchAllServices :: "(string \<Rightarrow> bool) \<Rightarrow> string list \<Rightarrow> ClientPicker \<Rightarrow> ClientPicker" where
  "fetchAllServices new_client kvs p =
     (let (p, current) = fold (fetch_one new_client) kvs (p, [])
      in fold (\<lambda>addr p. if addr \<in> set current then p else picker_remove addr p) (map fst (clients p)) p)"

text \<open>The answer is the peer, \<open>ok\<close> and \<open>self\<close>.\<close>

definition PickPeer :: "string \<Rightarrow> ClientPicker \<Rightarrow> (ClientPicker \<times> string option \<times> bool \<times> bool) option" where
  "PickPeer key p = do {
     (m, addr) \<leftarrow> Get key (consHash p);
     let p = p\<lparr>consHash := m\<rparr>;
     Some (p,
       if addr = [] then (None, False, False)
       else if addr = selfAddr p then (None, True, True)
       else (case gm_get (clients p) addr of Some _ \<Rightarrow> (Some addr, True, False) | None \<Rightarrow> (None, False, False))) }"

section \<open>The interface of the ring\<close>

locale owner_ring =
  fixes inv :: "'r \<Rightarrow> bool"
    and members :: "'r \<Rightarrow> string set"
    and placed :: "'r \<Rightarrow> string set"
    and radd rremove :: "string \<Rightarrow> 'r \<Rightarrow> 'r"
    and rget :: "string \<Rightarrow> 'r \<Rightarrow> ('r \<times> string) option"
  assumes add_inv: "inv r \<Longrightarrow> inv (radd n r)"
    and add_members: "inv r \<Longrightarrow> n \<noteq> [] \<Longrightarrow> members (radd n r) = insert n (members r)"
    and add_placed: "inv r \<Longrightarrow> placed r \<subseteq> placed (radd n r)"
    and remove_inv: "inv r \<Longrightarrow> inv (rremove n r)"
    and remove_members: "inv r \<Longrightarrow> members (rremove n r) = members r - {n}"
    and remove_placed: "inv r \<Longrightarrow> placed r - {n} \<subseteq> placed (rremove n r)"
    and get_member: "inv r \<Longrightarrow> key \<noteq> [] \<Longrightarrow> placed r \<noteq> {} \<Longrightarrow>
      \<exists>r' n. rget key r = Some (r', n) \<and> inv r' \<and> n \<in> members r \<and> members r' = members r \<and> placed r' = placed r"
begin

text \<open>A picker with itself placed on the ring and a client for every other member.\<close>

definition synced :: "string \<Rightarrow> 'r \<Rightarrow> string set \<Rightarrow> bool" where
  "synced self r cs \<longleftrightarrow> inv r \<and> self \<noteq> [] \<and> self \<in> placed r \<and> members r = insert self cs \<and> self \<notin> cs \<and> [] \<notin> cs"

lemma synced_add: "synced self r cs \<Longrightarrow> n \<noteq> [] \<Longrightarrow> n \<noteq> self \<Longrightarrow> synced self (radd n r) (insert n cs)"
  using add_inv [of r n] add_members [of r n] add_placed [of r n] unfolding synced_def by blast

lemma synced_remove: "synced self r cs \<Longrightarrow> n \<noteq> self \<Longrightarrow> synced self (rremove n r) (cs - {n})"
  using remove_inv [of r n] remove_members [of r n] remove_placed [of r n] unfolding synced_def by blast

lemma synced_get:
  assumes "synced self r cs" "key \<noteq> []"
  obtains r' n where "rget key r = Some (r', n)" "synced self r' cs" "n = self \<or> n \<in> cs" "n \<noteq> []"
  using get_member [of r key] assms unfolding synced_def by blast

end

lemma ring_Add_spec:
  assumes "ring_ok m"
  shows "ring_ok (ring_Add n m)" "config (ring_Add n m) = config m"
    "dom (gm_get (nodeHashes (ring_Add n m))) = dom (gm_get (nodeHashes m)) \<union> ({n} - {[]})"
    "gm_get (hashMap m) h = Some k \<Longrightarrow> gm_get (hashMap (ring_Add n m)) h = Some k"
proof -
  obtain m' where m': "Add [n] m = Inr m'" "ring_ok m'" "config m' = config m"
    "\<And>h k. gm_get (hashMap m) h = Some k \<Longrightarrow> gm_get (hashMap m') h = Some k"
    "dom (gm_get (nodeHashes m')) = dom (gm_get (nodeHashes m)) \<union> (set [n] - {[]})"
    by (rule Add_spec [OF assms, of "[n]"]) (simp, rule that, assumption+)
  then show "ring_ok (ring_Add n m)" "config (ring_Add n m) = config m"
    "dom (gm_get (nodeHashes (ring_Add n m))) = dom (gm_get (nodeHashes m)) \<union> ({n} - {[]})"
    "gm_get (hashMap m) h = Some k \<Longrightarrow> gm_get (hashMap (ring_Add n m)) h = Some k"
    by (simp_all add: ring_Add_def)
qed

lemma ring_Remove_spec:
  assumes "ring_ok m"
  shows "ring_ok (ring_Remove n m) \<and> config (ring_Remove n m) = config m \<and>
    dom (gm_get (nodeHashes (ring_Remove n m))) = dom (gm_get (nodeHashes m)) - {n} \<and>
    (\<forall>h k. gm_get (hashMap m) h = Some k \<and> k \<noteq> n \<longrightarrow> gm_get (hashMap (ring_Remove n m)) h = Some k)"
proof (cases "gm_get (nodeHashes m) n")
  case None
  then have "ring_Remove n m = m" by (simp add: ring_Remove_def Remove_def removeNodeLocked_def)
  then show ?thesis using assms None by auto
next
  case (Some hs)
  obtain m' where m': "Remove n m = Inr m'" "ring_ok m'" "config m' = config m"
    "\<And>h k. gm_get (hashMap m') h = Some k \<longleftrightarrow> gm_get (hashMap m) h = Some k \<and> k \<noteq> n"
    "dom (gm_get (nodeHashes m')) = dom (gm_get (nodeHashes m)) - {n}"
    by (rule Remove_spec [OF assms Some]) (rule that, assumption+)
  then show ?thesis by (simp add: ring_Remove_def)
qed

interpretation ring: owner_ring ring_ok "\<lambda>m. dom (gm_get (nodeHashes m))" "\<lambda>m. ran (gm_get (hashMap m))" ring_Add ring_Remove Get
proof unfold_locales
  fix r :: ring and n key :: string
  show "ring_ok r \<Longrightarrow> ring_ok (ring_Add n r)" by (rule ring_Add_spec(1))
  show "ring_ok r \<Longrightarrow> n \<noteq> [] \<Longrightarrow> dom (gm_get (nodeHashes (ring_Add n r))) = insert n (dom (gm_get (nodeHashes r)))"
    by (subst ring_Add_spec(3)) auto
  show "ring_ok r \<Longrightarrow> ran (gm_get (hashMap r)) \<subseteq> ran (gm_get (hashMap (ring_Add n r)))"
    using ring_Add_spec(4) by (fastforce simp: ran_def)
  show "ring_ok r \<Longrightarrow> ring_ok (ring_Remove n r)" using ring_Remove_spec by blast
  show "ring_ok r \<Longrightarrow> dom (gm_get (nodeHashes (ring_Remove n r))) = dom (gm_get (nodeHashes r)) - {n}" using ring_Remove_spec by blast
  show "ring_ok r \<Longrightarrow> ran (gm_get (hashMap r)) - {n} \<subseteq> ran (gm_get (hashMap (ring_Remove n r)))"
    using ring_Remove_spec [of r n] by (fastforce simp: ran_def)
  assume r: "ring_ok r" "key \<noteq> []" "ran (gm_get (hashMap r)) \<noteq> {}"
  then have "keys r \<noteq> []" by (auto simp: ring_ok_def ring_inv_def ran_def dom_def)
  then obtain r' n' where "Get key r = Some (r', n')" "n' \<in> dom (gm_get (nodeHashes r))" "hashMap r' = hashMap r" "nodeHashes r' = nodeHashes r"
    using Get_owner [OF r(1,2)] by blast
  then show "\<exists>r' n. Get key r = Some (r', n) \<and> ring_ok r' \<and> n \<in> dom (gm_get (nodeHashes r)) \<and>
      dom (gm_get (nodeHashes r')) = dom (gm_get (nodeHashes r)) \<and> ran (gm_get (hashMap r')) = ran (gm_get (hashMap r))"
    using Get_keeps [OF r(1)] by auto
qed

section \<open>The picker\<close>

definition picker_ok :: "ClientPicker \<Rightarrow> bool" where
  "picker_ok p \<longleftrightarrow> ring.synced (selfAddr p) (consHash p) (dom (gm_get (clients p)))"

lemma first_replica_placed:
  assumes "0 < r" "gm_get (hashMap m) (vhash m node 0) = None"
  shows "\<exists>h new. fold (add_replica node) [0..<r] (m, []) =
      (m\<lparr>keys := keys m @ h # new, hashMap := fold (\<lambda>h. gm_set h node) (h # new) (hashMap m)\<rparr>, h # new)"
proof -
  let ?h = "vhash m node 0" and ?m = "m\<lparr>keys := keys m @ [vhash m node 0], hashMap := gm_set (vhash m node 0) node (hashMap m)\<rparr>"
  have "fold (add_replica node) [0..<r] (m, []) = fold (add_replica node) [1..<r] (?m, [?h])"
    using assms by (simp add: upt_conv_Cons add_replica_def Let_def)
  then show ?thesis using add_replicas [of node "[1..<r]" ?m "[?h]"] by auto
qed

lemma new_picker_ok:
  assumes "addr \<noteq> []" "0 < DefaultReplicas cfg"
  shows "picker_ok (NewClientPicker cfg addr svc)"
proof -
  let ?m = "NewConsistentHash cfg"
  have ok: "ring_ok ?m" by (simp add: NewConsistentHash_def ring_ok_def ring_inv_def)
  have cf: "config ?m = cfg" "gm_get (hashMap ?m) = Map.empty" "gm_get (nodeHashes ?m) = Map.empty" by (simp_all add: NewConsistentHash_def)
  obtain h new where f: "fold (add_replica addr) [0..<DefaultReplicas cfg] (?m, []) =
      (?m\<lparr>keys := keys ?m @ h # new, hashMap := fold (\<lambda>h. gm_set h addr) (h # new) (hashMap ?m)\<rparr>, h # new)"
    using first_replica_placed [OF assms(2), of ?m addr] cf by auto
  have "hashMap (ring_Add addr ?m) = fold (\<lambda>h. gm_set h addr) (h # new) (hashMap ?m)"
    using f cf assms(1) by (simp add: ring_Add_def Add_def add_node_def addNodeLocked_def Let_def split: option.split)
  then have "gm_get (hashMap (ring_Add addr ?m)) h = Some addr" by (simp only: get_fold_set) simp
  then have "addr \<in> ran (gm_get (hashMap (ring_Add addr ?m)))" by (rule ranI)
  then show ?thesis using ring_Add_spec(1,3) [OF ok, of addr] cf(3) assms(1)
    by (simp add: picker_ok_def ring.synced_def NewClientPicker_def)
qed

lemma picker_set_ok:
  assumes "picker_ok p" "addr \<noteq> []" "addr \<noteq> selfAddr p"
  shows "picker_ok (picker_set f addr p)"
  using ring.synced_add [of "selfAddr p" "consHash p" "dom (gm_get (clients p))" addr] assms
  by (simp add: picker_ok_def picker_set_def)

lemma picker_remove_ok:
  assumes "picker_ok p" "addr \<noteq> selfAddr p"
  shows "picker_ok (picker_remove addr p)"
  using ring.synced_remove [of "selfAddr p" "consHash p" "dom (gm_get (clients p))" addr] assms
  by (simp add: picker_ok_def picker_remove_def)

lemma picker_fields [simp]:
  "selfAddr (picker_set f a p) = selfAddr p" "svcName (picker_set f a p) = svcName p"
  "selfAddr (picker_remove a p) = selfAddr p" "svcName (picker_remove a p) = svcName p"
  by (simp_all add: picker_set_def picker_remove_def)

lemma clients_set: "gm_get (clients (picker_set f a p)) = (if f a then (gm_get (clients p))(a \<mapsto> ()) else gm_get (clients p))"
  by (simp add: picker_set_def)

lemma clients_remove: "gm_get (clients (picker_remove a p)) = (gm_get (clients p))(a := None)"
  by (simp add: picker_remove_def)

lemma picker_self: "picker_ok p \<Longrightarrow> selfAddr p \<notin> dom (gm_get (clients p)) \<and> [] \<notin> dom (gm_get (clients p))"
  by (simp add: picker_ok_def ring.synced_def)

lemma handle_event_ok: "picker_ok p \<Longrightarrow> picker_ok (handle_event f e p)"
  by (auto simp: handle_event_def Let_def picker_set_ok picker_remove_ok split: watch_event.splits option.splits)

lemma handleWatchEvents_ok: "picker_ok p \<Longrightarrow> picker_ok (handleWatchEvents f es p)"
  unfolding handleWatchEvents_def by (induction es arbitrary: p) (auto simp: handle_event_ok)

text \<open>The address a registry key stands for, when it is a remote one.\<close>

definition remote_addrs :: "string list \<Rightarrow> ClientPicker \<Rightarrow> string set" where
  "remote_addrs kvs p = (\<lambda>k. addrFromEventKey k p) ` set kvs - {[], selfAddr p}"

lemma fetch_loop:
  assumes "picker_ok p"
  shows "case fold (fetch_one f) kvs (p, cur) of (p', cur') \<Rightarrow> picker_ok p' \<and> selfAddr p' = selfAddr p \<and> svcName p' = svcName p \<and>
    set cur' = set cur \<union> remote_addrs kvs p \<and>
    dom (gm_get (clients p')) = dom (gm_get (clients p)) \<union> {a \<in> remote_addrs kvs p. f a}"
  using assms
proof (induction kvs arbitrary: p cur)
  case (Cons k kvs)
  define a where "a = addrFromEventKey k p"
  show ?case
  proof (cases "a = [] \<or> a = selfAddr p")
    case True
    then have "fetch_one f k (p, cur) = (p, cur)" by (simp add: fetch_one_def a_def [symmetric] Let_def)
    then show ?thesis using Cons.IH [OF Cons.prems, of cur] True by (auto simp: remote_addrs_def a_def [symmetric] split: prod.splits)
  next
    case False
    define p1 where "p1 = (case gm_get (clients p) a of None \<Rightarrow> picker_set f a p | Some _ \<Rightarrow> p)"
    have st: "fetch_one f k (p, cur) = (p1, a # cur)"
      using False unfolding fetch_one_def Let_def prod.case a_def [symmetric] p1_def by auto
    have p1: "picker_ok p1" "selfAddr p1 = selfAddr p" "svcName p1 = svcName p"
      "dom (gm_get (clients p1)) = dom (gm_get (clients p)) \<union> {x. x = a \<and> f a}"
      using False Cons.prems by (auto simp: p1_def picker_set_ok clients_set split: option.splits)
    have r: "remote_addrs kvs p1 = remote_addrs kvs p"
      using p1 by (simp add: remote_addrs_def addrFromEventKey_def servicePrefix_def)
    have r2: "remote_addrs (k # kvs) p = insert a (remote_addrs kvs p)" using False by (auto simp: remote_addrs_def a_def [symmetric])
    show ?thesis using Cons.IH [OF p1(1), of "a # cur"] p1 r r2 by (auto simp: st split: prod.splits)
  qed
qed (auto simp: remote_addrs_def)

lemma drop_stale:
  assumes "picker_ok p" "selfAddr p \<notin> set as"
  shows "picker_ok (fold (\<lambda>a p. if a \<in> C then p else picker_remove a p) as p) \<and>
    dom (gm_get (clients (fold (\<lambda>a p. if a \<in> C then p else picker_remove a p) as p))) = dom (gm_get (clients p)) - (set as - C)"
  using assms
proof (induction as arbitrary: p)
  case (Cons a as)
  let ?p = "if a \<in> C then p else picker_remove a p"
  have "picker_ok ?p" "selfAddr ?p \<notin> set as" using Cons.prems by (auto simp: picker_remove_ok)
  from Cons.IH [OF this] show ?case by (auto simp: clients_remove)
qed simp

lemma fetch_spec:
  assumes "picker_ok p"
  shows "picker_ok (fetchAllServices f kvs p) \<and>
    dom (gm_get (clients (fetchAllServices f kvs p))) = {a \<in> remote_addrs kvs p. f a \<or> a \<in> dom (gm_get (clients p))}"
proof -
  obtain p' cur where l: "fold (fetch_one f) kvs (p, []) = (p', cur)" by (meson surj_pair)
  have p': "picker_ok p'" "selfAddr p' = selfAddr p" "set cur = remote_addrs kvs p"
    "dom (gm_get (clients p')) = dom (gm_get (clients p)) \<union> {a \<in> remote_addrs kvs p. f a}"
    using fetch_loop [OF assms, where f = f and kvs = kvs and cur = "[]"] by (auto simp: l)
  have "selfAddr p' \<notin> set (map fst (clients p'))" using picker_self [OF p'(1)] by (simp add: dom_map_of_conv_image_fst)
  from drop_stale [OF p'(1) this, of "set cur"] show ?thesis
    using p' by (auto simp: fetchAllServices_def l dom_map_of_conv_image_fst)
qed

section \<open>Properties\<close>

text \<open>The pickers that registry events and snapshots produce.\<close>

inductive picker_reachable :: "ConHashConfig \<Rightarrow> string \<Rightarrow> string \<Rightarrow> ClientPicker \<Rightarrow> bool" for cfg addr svc where
  new: "picker_reachable cfg addr svc (NewClientPicker cfg addr svc)"
| watch: "picker_reachable cfg addr svc p \<Longrightarrow> picker_reachable cfg addr svc (handleWatchEvents f es p)"
| fetch: "picker_reachable cfg addr svc p \<Longrightarrow> picker_reachable cfg addr svc (fetchAllServices f kvs p)"

lemma picker_reachable_ok:
  "picker_reachable cfg addr svc p \<Longrightarrow> addr \<noteq> [] \<Longrightarrow> 0 < DefaultReplicas cfg \<Longrightarrow> picker_ok p"
  by (induction rule: picker_reachable.induct) (auto simp: new_picker_ok handleWatchEvents_ok fetch_spec)

text \<open>
  Every key has an owner that can serve it: whatever registry events and snapshots the picker
  has processed, \<open>PickPeer\<close> answers for every key either the local node or a remote address for
  which a client exists, never the empty answer.
\<close>

theorem PickPeer_total:
  assumes "picker_reachable cfg addr svc p" and "addr \<noteq> []" and "0 < DefaultReplicas cfg" and "key \<noteq> []"
  shows "\<exists>p' peer self. PickPeer key p = Some (p', peer, True, self) \<and>
    (case peer of None \<Rightarrow> self | Some a \<Rightarrow> \<not> self \<and> a \<noteq> selfAddr p \<and> a \<in> dom (gm_get (clients p)))"
proof -
  have ok: "picker_ok p" by (rule picker_reachable_ok [OF assms(1-3)])
  obtain m n where g: "Get key (consHash p) = Some (m, n)" "n = selfAddr p \<or> n \<in> dom (gm_get (clients p))" "n \<noteq> []"
    using ring.synced_get [OF ok [unfolded picker_ok_def] assms(4)] by metis
  show ?thesis using g picker_self [OF ok] by (auto simp: PickPeer_def Let_def)
qed

theorem PickPeer_total_witness:
  "\<exists>p' peer self. PickPeer ''k'' (NewClientPicker demo_config ''h:1'' ''svc'') = Some (p', peer, True, self)"
  using PickPeer_total [OF picker_reachable.new, of "''h:1''" demo_config "''k''" "''svc''"] by (auto simp: demo_config_def)

text \<open>
  A resync converges: after \<open>fetchAllServices\<close> the picker has clients for exactly the remote
  addresses of the snapshot (those it had, or for which a client can be made), and the ring has
  exactly these nodes and the local one.
\<close>

theorem resync_converges:
  assumes "picker_reachable cfg addr svc p" and "addr \<noteq> []" and "0 < DefaultReplicas cfg"
  shows "dom (gm_get (clients (fetchAllServices f kvs p))) = {a \<in> remote_addrs kvs p. f a \<or> a \<in> dom (gm_get (clients p))} \<and>
    dom (gm_get (nodeHashes (consHash (fetchAllServices f kvs p)))) =
      insert (selfAddr (fetchAllServices f kvs p)) (dom (gm_get (clients (fetchAllServices f kvs p))))"
  using fetch_spec [OF picker_reachable_ok [OF assms], of f kvs] by (auto simp: picker_ok_def ring.synced_def)

theorem resync_converges_witness:
  "dom (gm_get (clients (fetchAllServices (\<lambda>_. True) [''/services/svc/x:1''] (NewClientPicker demo_config ''h:1'' ''svc'')))) = {''x:1''}"
proof -
  have r: "remote_addrs [''/services/svc/x:1''] (NewClientPicker demo_config ''h:1'' ''svc'') = {''x:1''}"
    by (simp add: remote_addrs_def addrFromEventKey_def servicePrefix_def NewClientPicker_def trim_prefix_def)
  show ?thesis using resync_converges [OF picker_reachable.new, of "''h:1''" demo_config "\<lambda>_. True" "[''/services/svc/x:1'']" "''svc''"] r
    by (auto simp: demo_config_def)
qed

end
