(* ===== verification/Cache_Lru.thy ===== *)
theory Cache_Lru
  imports Prelude
begin

text \<open>
  One level of the cache's two-level LRU store (\<open>src/swifty_cache/lru.go\<close>, type \<open>cache\<close>):
  a slice of nodes, a map from keys to slots, and a doubly linked list threaded through a
  slice of index pairs whose slot 0 is the sentinel. Slots are never freed: deletion is
  logical (\<open>expireAt = 0\<close>) and moves the slot to the tail, where the next insertion
  recycles it.

  The theory translates \<open>Create\<close>, \<open>put\<close>, \<open>peek\<close>, \<open>del\<close>, \<open>drop\<close>, \<open>evictOldest\<close>, \<open>walk\<close> and
  \<open>adjust\<close> statement by statement, states the representation invariant \<open>cache_inv\<close>, and
  proves that the list of live entries which \<open>walk\<close> visits behaves as a textbook LRU list of
  bounded capacity.
\<close>

section \<open>Data\<close>

text \<open>\<open>byte_view.go\<close>: the one implementation of the interface \<open>Value\<close> in the sources.\<close>

record ByteView =
  bv_b :: bytes

definition bv_Len :: "ByteView \<Rightarrow> int" where
  "bv_Len v = int (length (bv_b v))"

text \<open>A field of the interface type \<open>Value\<close> may be nil.\<close>

type_synonym gvalue = "ByteView option"

record cnode =
  nk :: string
  nv :: gvalue
  nexpireAt :: int

text \<open>The two columns of \<open>doubleLink\<close>: \<open>p = uint16(0)\<close> and \<open>n = uint16(1)\<close>.\<close>

datatype dir = P | N

record cache =
  doubleLink :: "(nat \<times> nat) list"
  cm :: "cnode list"
  hashMap :: "(string, nat) gomap"
  cbytes :: int
  nevict :: int
  clast :: nat

text \<open>Calls of the eviction callback, in order; none is made when the callback is nil.\<close>

type_synonym evictions = "(string \<times> gvalue) list"

definition fire :: "bool \<Rightarrow> string \<Rightarrow> gvalue \<Rightarrow> evictions" where
  "fire onEvicted k v = (if onEvicted then [(k, v)] else [])"

section \<open>Operations\<close>

definition empty_node :: cnode where
  "empty_node = \<lparr>nk = [], nv = None, nexpireAt = 0\<rparr>"

definition Create :: "nat \<Rightarrow> cache" where
  "Create capn =
     \<lparr>doubleLink = replicate (u16_inc capn) (0, 0),
      cm = replicate capn empty_node,
      hashMap = [],
      cbytes = 0,
      nevict = 0,
      clast = 0\<rparr>"

definition entryBytes :: "string \<Rightarrow> gvalue \<Rightarrow> int" where
  "entryBytes key val =
     (case val of None \<Rightarrow> int (length key) | Some v \<Rightarrow> int (length key) + bv_Len v)"

text \<open>\<open>c.doubleLink[i][d]\<close> as a value and as the target of an assignment.\<close>

fun sel :: "nat \<times> nat \<Rightarrow> dir \<Rightarrow> nat" where
  "sel (x, y) P = x"
| "sel (x, y) N = y"

fun upd_sel :: "nat \<times> nat \<Rightarrow> dir \<Rightarrow> nat \<Rightarrow> nat \<times> nat" where
  "upd_sel (x, y) P v = (v, y)"
| "upd_sel (x, y) N v = (x, v)"

definition link :: "(nat \<times> nat) list \<Rightarrow> nat \<Rightarrow> dir \<Rightarrow> nat option" where
  "link dl i d = map_option (\<lambda>r. sel r d) (rd dl i)"

definition set_link :: "(nat \<times> nat) list \<Rightarrow> nat \<Rightarrow> dir \<Rightarrow> nat \<Rightarrow> (nat \<times> nat) list option" where
  "set_link dl i d v = do { r \<leftarrow> rd dl i; wr dl i (upd_sel r d v) }"

definition adjust_links ::
  "nat \<Rightarrow> dir \<Rightarrow> dir \<Rightarrow> (nat \<times> nat) list \<Rightarrow> (nat \<times> nat) list option" where
  "adjust_links idx f t dl = do {
     a \<leftarrow> link dl idx f;
     if a \<noteq> 0 then do {
       b \<leftarrow> link dl idx t; a \<leftarrow> link dl idx f; dl \<leftarrow> set_link dl b f a;
       a \<leftarrow> link dl idx f; b \<leftarrow> link dl idx t; dl \<leftarrow> set_link dl a t b;
       dl \<leftarrow> set_link dl idx f 0;
       h \<leftarrow> link dl 0 t; dl \<leftarrow> set_link dl idx t h;
       h \<leftarrow> link dl 0 t; dl \<leftarrow> set_link dl h f idx;
       set_link dl 0 t idx
     } else Some dl }"

definition adjust :: "nat \<Rightarrow> dir \<Rightarrow> dir \<Rightarrow> cache \<Rightarrow> cache option" where
  "adjust idx f t c = do {
     dl \<leftarrow> adjust_links idx f t (doubleLink c);
     Some (c\<lparr>doubleLink := dl\<rparr>) }"

definition put_existing :: "string \<Rightarrow> gvalue \<Rightarrow> int \<Rightarrow> nat \<Rightarrow> cache \<Rightarrow> cache option" where
  "put_existing key val expireAt idx c = do {
     nd \<leftarrow> rd (cm c) (u16_dec idx);
     let c = (if nexpireAt nd > 0
              then c\<lparr>cbytes := cbytes c + (entryBytes key val - entryBytes (nk nd) (nv nd))\<rparr>
              else c\<lparr>cbytes := cbytes c + entryBytes key val\<rparr>);
     m \<leftarrow> wr (cm c) (u16_dec idx) (nd\<lparr>nv := val, nexpireAt := expireAt\<rparr>);
     adjust idx P N (c\<lparr>cm := m\<rparr>) }"

definition put_recycle ::
  "string \<Rightarrow> gvalue \<Rightarrow> int \<Rightarrow> bool \<Rightarrow> cache \<Rightarrow> (cache \<times> evictions) option" where
  "put_recycle key val expireAt onEvicted c = do {
     ti \<leftarrow> link (doubleLink c) 0 P;
     tail \<leftarrow> rd (cm c) (u16_dec ti);
     let (c, evs) =
       (if nexpireAt tail > 0
        then (c\<lparr>cbytes := cbytes c - entryBytes (nk tail) (nv tail), nevict := nevict c + 1\<rparr>,
              fire onEvicted (nk tail) (nv tail))
        else (c, []));
     let c = c\<lparr>hashMap := gm_del (nk tail) (hashMap c)\<rparr>;
     let c = c\<lparr>cbytes := cbytes c + entryBytes key val\<rparr>;
     m \<leftarrow> wr (cm c) (u16_dec ti) (tail\<lparr>nk := key, nv := val, nexpireAt := expireAt\<rparr>);
     let c = c\<lparr>hashMap := gm_set key ti (hashMap c), cm := m\<rparr>;
     ti \<leftarrow> link (doubleLink c) 0 P;
     c \<leftarrow> adjust ti P N c;
     Some (c, evs) }"

definition put_fresh :: "string \<Rightarrow> gvalue \<Rightarrow> int \<Rightarrow> cache \<Rightarrow> cache option" where
  "put_fresh key val expireAt c = do {
     let c = c\<lparr>clast := u16_inc (clast c)\<rparr>;
     dl \<leftarrow> (if gm_len (hashMap c) \<le> 0
            then set_link (doubleLink c) 0 P (clast c)
            else do { h \<leftarrow> link (doubleLink c) 0 N; set_link (doubleLink c) h P (clast c) });
     nd \<leftarrow> rd (cm c) (u16_dec (clast c));
     m \<leftarrow> wr (cm c) (u16_dec (clast c)) (nd\<lparr>nk := key, nv := val, nexpireAt := expireAt\<rparr>);
     h \<leftarrow> link dl 0 N;
     dl \<leftarrow> wr dl (clast c) (0, h);
     let c = c\<lparr>cm := m, hashMap := gm_set key (clast c) (hashMap c)\<rparr>;
     dl \<leftarrow> set_link dl 0 N (clast c);
     Some (c\<lparr>doubleLink := dl, cbytes := cbytes c + entryBytes key val\<rparr>) }"

definition put ::
  "string \<Rightarrow> gvalue \<Rightarrow> int \<Rightarrow> bool \<Rightarrow> cache \<Rightarrow> (cache \<times> nat \<times> evictions) option" where
  "put key val expireAt onEvicted c =
     (case gm_get (hashMap c) key of
        Some idx \<Rightarrow> do { c \<leftarrow> put_existing key val expireAt idx c; Some (c, 0, []) }
      | None \<Rightarrow>
          if clast c = length (cm c) mod 65536
          then do { (c, evs) \<leftarrow> put_recycle key val expireAt onEvicted c; Some (c, 1, evs) }
          else do { c \<leftarrow> put_fresh key val expireAt c; Some (c, 1, []) })"

text \<open>\<open>peek\<close> returns a pointer to the node and its slot, or a nil pointer and 0.\<close>

definition peek :: "string \<Rightarrow> cache \<Rightarrow> (cnode option \<times> nat) option" where
  "peek key c =
     (case gm_get (hashMap c) key of
        Some idx \<Rightarrow> do { nd \<leftarrow> rd (cm c) (u16_dec idx); Some (Some nd, idx) }
      | None \<Rightarrow> Some (None, 0))"

text \<open>
  \<open>del\<close> returns the slot of the node it marked (the Go code returns a pointer to it), the
  status and the former expiry.
\<close>

definition del :: "string \<Rightarrow> cache \<Rightarrow> (cache \<times> nat option \<times> nat \<times> int) option" where
  "del key c =
     (case gm_get (hashMap c) key of
        Some idx \<Rightarrow> do {
          nd \<leftarrow> rd (cm c) (u16_dec idx);
          if nexpireAt nd > 0 then do {
            let e = nexpireAt nd;
            let c = c\<lparr>cbytes := cbytes c - entryBytes (nk nd) (nv nd)\<rparr>;
            m \<leftarrow> wr (cm c) (u16_dec idx) (nd\<lparr>nexpireAt := 0\<rparr>);
            c \<leftarrow> adjust idx N P (c\<lparr>cm := m\<rparr>);
            Some (c, Some (u16_dec idx), 1, e)
          } else Some (c, None, 0, 0) }
      | None \<Rightarrow> Some (c, None, 0, 0))"

text \<open>\<open>nd.v = nil\<close> through the pointer that \<open>del\<close> returned.\<close>

definition clear_v :: "nat \<Rightarrow> cache \<Rightarrow> cache option" where
  "clear_v i c = do {
     nd \<leftarrow> rd (cm c) i;
     m \<leftarrow> wr (cm c) i (nd\<lparr>nv := None\<rparr>);
     Some (c\<lparr>cm := m\<rparr>) }"

definition drop_key :: "string \<Rightarrow> cache \<Rightarrow> cache option" where
  "drop_key key c = do {
     (c, nd, st, _) \<leftarrow> del key c;
     if st > 0 then (case nd of Some i \<Rightarrow> clear_v i c | None \<Rightarrow> None) else Some c }"

text \<open>
  The loop of \<open>evictOldest\<close> follows the \<open>p\<close> links from the tail and stops at the first live
  slot. The fuel bounds the number of slots visited.
\<close>

fun find_oldest :: "nat \<Rightarrow> cache \<Rightarrow> nat \<Rightarrow> nat option option" where
  "find_oldest 0 c idx = None"
| "find_oldest (Suc fuel) c idx =
     (if idx = 0 then Some None
      else do {
        nd \<leftarrow> rd (cm c) (u16_dec idx);
        if nexpireAt nd \<le> 0
        then do { nxt \<leftarrow> link (doubleLink c) idx P; find_oldest fuel c nxt }
        else Some (Some idx) })"

definition evictOldest :: "bool \<Rightarrow> cache \<Rightarrow> (cache \<times> bool \<times> evictions) option" where
  "evictOldest onEvicted c = do {
     t \<leftarrow> link (doubleLink c) 0 P;
     r \<leftarrow> find_oldest (length (doubleLink c)) c t;
     (case r of
        None \<Rightarrow> Some (c, False, [])
      | Some idx \<Rightarrow> do {
          nd \<leftarrow> rd (cm c) (u16_dec idx);
          let c = c\<lparr>cbytes := cbytes c - entryBytes (nk nd) (nv nd), nevict := nevict c + 1\<rparr>;
          let v = nv nd;
          m \<leftarrow> wr (cm c) (u16_dec idx) (nd\<lparr>nexpireAt := 0, nv := None\<rparr>);
          c \<leftarrow> adjust idx N P (c\<lparr>cm := m\<rparr>);
          Some (c, True, fire onEvicted (nk nd) v) }) }"

text \<open>
  \<open>walk\<close> follows the \<open>n\<close> links from the head and hands every live node to the walker, which
  updates the state it closes over and says whether to go on.
\<close>

fun walk_from ::
  "nat \<Rightarrow> ('s \<Rightarrow> string \<Rightarrow> gvalue \<Rightarrow> int \<Rightarrow> 's \<times> bool) \<Rightarrow> 's \<Rightarrow> cache \<Rightarrow> nat \<Rightarrow> 's option" where
  "walk_from 0 walker s c idx = None"
| "walk_from (Suc fuel) walker s c idx =
     (if idx = 0 then Some s
      else do {
        nd \<leftarrow> rd (cm c) (u16_dec idx);
        let (s, go) = (if nexpireAt nd > 0 then walker s (nk nd) (nv nd) (nexpireAt nd) else (s, True));
        if go
        then do { nxt \<leftarrow> link (doubleLink c) idx N; walk_from fuel walker s c nxt }
        else Some s })"

definition walk ::
  "('s \<Rightarrow> string \<Rightarrow> gvalue \<Rightarrow> int \<Rightarrow> 's \<times> bool) \<Rightarrow> 's \<Rightarrow> cache \<Rightarrow> 's option" where
  "walk walker s c = do {
     h \<leftarrow> link (doubleLink c) 0 N;
     walk_from (length (doubleLink c)) walker s c h }"

section \<open>Linked lists threaded through the index slice\<close>

text \<open>The total reading of a link, and the effect of an assignment on it.\<close>

definition lnk :: "(nat \<times> nat) list \<Rightarrow> nat \<Rightarrow> dir \<Rightarrow> nat" where
  "lnk dl i d = sel (dl ! i) d"

lemma sel_upd_sel [simp]: "sel (upd_sel r d v) e = (if e = d then v else sel r e)"
  by (cases r; cases d; cases e) auto

lemma link_Some [go_simps]: "i < length dl \<Longrightarrow> link dl i d = Some (lnk dl i d)"
  by (simp add: link_def lnk_def go_simps)

definition upd_lnk :: "(nat \<times> nat) list \<Rightarrow> nat \<Rightarrow> dir \<Rightarrow> nat \<Rightarrow> (nat \<times> nat) list" where
  "upd_lnk dl i d v = dl[i := upd_sel (dl ! i) d v]"

lemma set_link_Some [go_simps]: "i < length dl \<Longrightarrow> set_link dl i d v = Some (upd_lnk dl i d v)"
  by (simp add: set_link_def upd_lnk_def go_simps)

lemma length_upd_lnk [simp]: "length (upd_lnk dl i d v) = length dl"
  by (simp add: upd_lnk_def)

lemma lnk_upd_lnk [simp]:
  "i < length dl \<Longrightarrow> lnk (upd_lnk dl i d v) = (lnk dl)(i := (lnk dl i)(d := v))"
  by (intro ext) (auto simp: lnk_def upd_lnk_def nth_list_update)

text \<open>
  \<open>chain g t f xs\<close>: following \<open>t\<close> from each element of \<open>xs\<close> gives the next one, and
  following \<open>f\<close> leads back. The representation keeps \<open>chain g N P (0 # xs @ [0])\<close>.
\<close>

fun chain :: "(nat \<Rightarrow> dir \<Rightarrow> nat) \<Rightarrow> dir \<Rightarrow> dir \<Rightarrow> nat list \<Rightarrow> bool" where
  "chain g t f (a # b # xs) = (g a t = b \<and> g b f = a \<and> chain g t f (b # xs))"
| "chain g t f _ = True"

lemma chain_join:
  "xs \<noteq> [] \<Longrightarrow> ys \<noteq> [] \<Longrightarrow> chain g t f (xs @ ys) \<longleftrightarrow>
     chain g t f xs \<and> chain g t f ys \<and> g (last xs) t = hd ys \<and> g (hd ys) f = last xs"
proof (induction xs)
  case (Cons x xs)
  then show ?case by (cases xs; cases ys) auto
qed simp

lemma chain_cong:
  "(\<And>a. a \<in> set (butlast xs) \<Longrightarrow> g a t = g' a t) \<Longrightarrow>
   (\<And>b. b \<in> set (tl xs) \<Longrightarrow> g b f = g' b f) \<Longrightarrow> chain g t f xs = chain g' t f xs"
proof (induction xs rule: induct_list012)
  case (3 a b xs)
  have "chain g t f (b # xs) = chain g' t f (b # xs)"
    by (rule "3.IH"(2)) (use "3.prems" in \<open>auto dest: in_set_butlastD\<close>)
  with "3.prems" show ?case by simp
qed auto

lemma chain_rev: "chain g f t (rev xs) = chain g t f xs"
proof (induction xs rule: induct_list012)
  case (3 a b xs)
  have "chain g f t (rev (b # xs) @ [a]) = (chain g t f (b # xs) \<and> g b f = a \<and> g a t = b)"
    using "3.IH"(2) by (subst chain_join) auto
  then show ?case by auto
qed auto

lemma butlast_subset: "x \<in> set (butlast xs) \<Longrightarrow> x \<in> set xs"
  by (rule in_set_butlastD)

lemma tl_subset: "x \<in> set (tl xs) \<Longrightarrow> x \<in> set xs"
  by (cases xs) auto

text \<open>Moving an inner element to the front: what the six assignments of \<open>adjust\<close> do.\<close>

definition relink :: "(nat \<Rightarrow> dir \<Rightarrow> nat) \<Rightarrow> dir \<Rightarrow> dir \<Rightarrow> nat \<Rightarrow> (nat \<Rightarrow> dir \<Rightarrow> nat)" where
  "relink g f t x =
     (let a = g x f; b = g x t;
          g = g(b := (g b)(f := a)); g = g(a := (g a)(t := b)); g = g(x := (g x)(f := 0));
          h = g 0 t; g = g(x := (g x)(t := h)); g = g(h := (g h)(f := x))
      in g(0 := (g 0)(t := x)))"

lemma chain_ends:
  assumes "chain g t f (0 # as @ x # bs @ [0])"
  shows "g x f = last (0 # as)" and "g x t = hd (bs @ [0])" and "g 0 t = hd (as @ [x])"
    and "chain g t f as" and "chain g t f (bs @ [0])"
proof -
  have j: "chain g t f ((0 # as) @ (x # bs @ [0]))" using assms by simp
  then have 1: "chain g t f (0 # as)" "chain g t f (x # bs @ [0])" "g x f = last (0 # as)"
    using chain_join [of "0 # as" "x # bs @ [0]" g t f] by auto
  show "g x f = last (0 # as)" by (rule 1)
  show "g x t = hd (bs @ [0])" using 1(2) by (cases bs) auto
  show "g 0 t = hd (as @ [x])" using assms by (cases as) auto
  show "chain g t f as" using 1(1) by (cases as) auto
  show "chain g t f (bs @ [0])" using 1(2) by (cases bs) auto
qed

lemma chain_relink:
  assumes ch: "chain g t f (0 # as @ x # bs @ [0])" and as: "as \<noteq> []"
    and ft: "f \<noteq> t" and dist: "distinct (0 # as @ x # bs)"
  shows "chain (relink g f t x) t f (0 # x # as @ bs @ [0])"
proof -
  note e = chain_ends [OF ch]
  define a b h where "a = g x f" and "b = g x t" and "h = g 0 t"
  have a: "a = last as" "a \<in> set as" using e(1) as by (auto simp: a_def)
  have b: "b = hd (bs @ [0])" "b \<in> insert 0 (set bs)" using e(2) by (cases bs; auto simp: b_def)+
  have h: "h = hd as" "h \<in> set as" using e(3) as by (auto simp: h_def)
  have nz: "x \<noteq> 0" "a \<noteq> 0" "h \<noteq> 0" "a \<noteq> x" "b \<noteq> x" "h \<noteq> x" "a \<noteq> b" "h \<noteq> b"
    using dist a(2) b(2) h(2) by auto
  let ?g = "relink g f t x"
  have g: "?g = (\<lambda>i d. if d = t then (if i = 0 then x else if i = x then h else if i = a then b else g i t)
                     else if d = f then (if i = h then x else if i = x then 0 else if i = b then a else g i f)
                     else g i d)"
    using nz ft unfolding relink_def Let_def a_def [symmetric] b_def [symmetric]
    by (intro ext) (simp add: h_def [symmetric])
  have "chain ?g t f as"
    using e(4)
  proof (rule iffD1 [OF chain_cong, rotated -1])
    fix i assume i: "i \<in> set (butlast as)"
    have "i \<noteq> a" using i a(1) dist as
      by (metis append_butlast_last_id distinct.simps(2) distinct_append not_distinct_conv_prefix)
    moreover have "i \<noteq> 0" "i \<noteq> x" using i dist by (auto dest!: in_set_butlastD)
    ultimately show "g i t = ?g i t" by (simp add: g)
  next
    fix i assume i: "i \<in> set (tl as)"
    have "i \<noteq> h" using i h(1) dist as by (cases as) auto
    moreover have "i \<noteq> b" "i \<noteq> x" using i dist b(2) by (auto dest!: tl_subset)
    ultimately show "g i f = ?g i f" using ft by (simp add: g)
  qed
  moreover have "chain ?g t f (bs @ [0])"
    using e(5)
  proof (rule iffD1 [OF chain_cong, rotated -1])
    fix i assume i: "i \<in> set (butlast (bs @ [0]))"
    have "i \<noteq> a" "i \<noteq> 0" "i \<noteq> x" using i dist a(2) by auto
    then show "g i t = ?g i t" by (simp add: g)
  next
    fix i assume i: "i \<in> set (tl (bs @ [0]))"
    have "i \<noteq> h" "i \<noteq> x" using i h(2) dist nz by (auto dest!: tl_subset)
    moreover have "i \<noteq> b" using i b(1) dist by (cases bs) auto
    ultimately show "g i f = ?g i f" using ft by (simp add: g)
  qed
  moreover have "?g a t = b" "?g b f = a" "?g 0 t = x" "?g x f = 0" "?g x t = h" "?g h f = x"
    using nz ft by (auto simp: g)
  ultimately show ?thesis
    using as a(1) b(1) h(1) chain_join [of as "bs @ [0]" ?g t f] by (cases as) auto
qed

lemma adjust_links_eq:
  assumes ch: "chain (lnk dl) t f (0 # as @ x # bs @ [0])"
    and dist: "distinct (0 # as @ x # bs)" and len: "\<forall>i \<in> set (0 # as @ x # bs). i < length dl"
    and ft: "f \<noteq> t"
  shows "\<exists>dl'. adjust_links x f t dl = Some dl' \<and> length dl' = length dl
     \<and> lnk dl' = (if as = [] then lnk dl else relink (lnk dl) f t x)"
proof -
  note e = chain_ends [OF ch]
  have a: "lnk dl x f = last (0 # as)" and b: "lnk dl x t = hd (bs @ [0])"
    and h: "lnk dl 0 t = hd (as @ [x])" using e by auto
  have l: "lnk dl x f < length dl" "lnk dl x t < length dl" "lnk dl 0 t < length dl"
    "x < length dl" "0 < length dl"
    using len last_in_set [of "0 # as"] hd_in_set [of "bs @ [0]"] hd_in_set [of "as @ [x]"]
    by (auto simp only: a b h) (auto split: if_splits)
  show ?thesis
  proof (cases "as = []")
    case True
    with l show ?thesis by (simp add: adjust_links_def go_simps a)
  next
    case False
    have nz: "lnk dl x f \<noteq> 0" using False a dist last_in_set [OF False] by (auto simp del: last_in_set)
    have "lnk dl x t \<noteq> x" using b dist by (cases bs) auto
    moreover have "lnk dl x f \<noteq> x" using a False dist by (auto dest: last_in_set)
    moreover have "x \<noteq> 0" using dist by simp
    ultimately show ?thesis using nz l ft False
      by (simp add: adjust_links_def go_simps relink_def Let_def)
  qed
qed

section \<open>The representation invariant\<close>

definition slot :: "cache \<Rightarrow> nat \<Rightarrow> cnode" where
  "slot c i = cm c ! (i - 1)"

definition nlive :: "cnode \<Rightarrow> bool" where
  "nlive nd \<longleftrightarrow> 0 < nexpireAt nd"

definition weight :: "cnode \<Rightarrow> int" where
  "weight nd = (if nlive nd then entryBytes (nk nd) (nv nd) else 0)"

text \<open>
  \<open>xs\<close> is the list of used slots from the head to the tail: the links thread exactly the
  slots \<open>1..last\<close>, the key map is the inverse of the slots' keys, live slots come before
  logically deleted ones, and the byte counter is the total size of the live entries.
\<close>

definition links_ok :: "cache \<Rightarrow> nat list \<Rightarrow> bool" where
  "links_ok c xs \<longleftrightarrow>
     length (doubleLink c) = Suc (length (cm c)) \<and> length (cm c) < 65535 \<and>
     clast c \<le> length (cm c) \<and> chain (lnk (doubleLink c)) N P (0 # xs @ [0]) \<and>
     distinct xs \<and> set xs = {1..clast c}"

definition index_ok :: "cache \<Rightarrow> nat list \<Rightarrow> bool" where
  "index_ok c xs \<longleftrightarrow> gm_ok (hashMap c) \<and>
     (\<forall>k i. gm_get (hashMap c) k = Some i \<longleftrightarrow> i \<in> set xs \<and> nk (slot c i) = k)"

definition live_first :: "cnode list \<Rightarrow> bool" where
  "live_first ns \<longleftrightarrow> sorted_wrt (\<lambda>a b. nlive b \<longrightarrow> nlive a) ns"

definition cache_rep :: "cache \<Rightarrow> nat list \<Rightarrow> bool" where
  "cache_rep c xs \<longleftrightarrow> links_ok c xs \<and> index_ok c xs \<and> live_first (map (slot c) xs) \<and>
     cbytes c = sum_list (map weight (map (slot c) xs))"

definition cache_inv :: "cache \<Rightarrow> bool" where
  "cache_inv c \<longleftrightarrow> (\<exists>xs. cache_rep c xs)"

lemmas cache_rep_defs = cache_rep_def links_ok_def index_ok_def

lemma slot_range: "links_ok c xs \<Longrightarrow> i \<in> set xs \<Longrightarrow> 0 < i \<and> i \<le> length (cm c) \<and> i < 65536"
  by (auto simp: links_ok_def)

lemma links_bounds:
  assumes "links_ok c xs"
  shows "distinct (0 # xs)" and "\<forall>i \<in> set (0 # xs). i < length (doubleLink c)"
  using assms by (auto simp: links_ok_def)

lemma rd_slot [go_simps]:
  "0 < i \<Longrightarrow> i \<le> length (cm c) \<Longrightarrow> i < 65536 \<Longrightarrow> rd (cm c) (u16_dec i) = Some (slot c i)"
  by (auto simp: slot_def go_simps u16_dec_pos)

lemma wr_slot [go_simps]:
  "0 < i \<Longrightarrow> i \<le> length (cm c) \<Longrightarrow> i < 65536 \<Longrightarrow>
     wr (cm c) (u16_dec i) nd = Some ((cm c)[i - 1 := nd])"
  by (auto simp: go_simps u16_dec_pos)

lemma slot_upd:
  "0 < i \<Longrightarrow> i \<le> length (cm c) \<Longrightarrow> 0 < j \<Longrightarrow> cm c' = (cm c)[i - 1 := nd] \<Longrightarrow>
     slot c' j = (if j = i then nd else slot c j)"
  by (auto simp: slot_def nth_list_update)

lemma map_slot_upd:
  "0 < i \<Longrightarrow> i \<le> length (cm c) \<Longrightarrow> i \<notin> set xs \<Longrightarrow> 0 \<notin> set xs \<Longrightarrow>
     cm c' = (cm c)[i - 1 := nd] \<Longrightarrow> map (slot c') xs = map (slot c) xs"
  by (intro map_cong refl) (metis gr0I slot_upd)

lemma slot_cong: "cm c' = cm c \<Longrightarrow> slot c' = slot c"
  by (simp add: slot_def fun_eq_iff)

lemma live_first_simps [simp]:
  "live_first []"
  "live_first (a # ns) \<longleftrightarrow> (\<forall>b \<in> set ns. nlive b \<longrightarrow> nlive a) \<and> live_first ns"
  by (auto simp: live_first_def)

lemma live_first_append:
  "live_first (xs @ ys) \<longleftrightarrow> live_first xs \<and> live_first ys \<and>
     (\<forall>a \<in> set xs. \<forall>b \<in> set ys. nlive b \<longrightarrow> nlive a)"
  by (auto simp: live_first_def sorted_wrt_append)

lemma index_keys: "index_ok c xs \<Longrightarrow> distinct xs \<Longrightarrow> distinct (map nk (map (slot c) xs))"
  by (auto simp: index_ok_def distinct_map inj_on_def) (metis option.inject)+

subsection \<open>Moving a slot\<close>

lemma adjust_front:
  assumes "links_ok c (as @ x # bs)"
  shows "\<exists>dl. adjust x P N c = Some (c\<lparr>doubleLink := dl\<rparr>)
    \<and> links_ok (c\<lparr>doubleLink := dl\<rparr>) (x # as @ bs)"
proof -
  let ?dl = "doubleLink c"
  have ch: "chain (lnk ?dl) N P (0 # as @ x # bs @ [0])" using assms by (simp add: links_ok_def)
  have dist: "distinct (0 # as @ x # bs)" and len: "\<forall>i \<in> set (0 # as @ x # bs). i < length ?dl"
    using links_bounds [OF assms] by auto
  obtain dl where dl: "adjust_links x P N ?dl = Some dl" "length dl = length ?dl"
    "lnk dl = (if as = [] then lnk ?dl else relink (lnk ?dl) P N x)"
    using adjust_links_eq [OF ch dist len] by auto
  have "chain (lnk dl) N P (0 # x # as @ bs @ [0])"
    using ch chain_relink [OF ch _ _ dist] by (auto simp: dl(3))
  then show ?thesis using assms dl(1,2) by (auto simp: adjust_def links_ok_def)
qed

lemma adjust_back:
  assumes "links_ok c (as @ x # bs)"
  shows "\<exists>dl. adjust x N P c = Some (c\<lparr>doubleLink := dl\<rparr>)
    \<and> links_ok (c\<lparr>doubleLink := dl\<rparr>) (as @ bs @ [x])"
proof -
  let ?dl = "doubleLink c"
  have "chain (lnk ?dl) N P (0 # (as @ x # bs) @ [0])" using assms by (simp add: links_ok_def)
  then have "chain (lnk ?dl) P N (rev (0 # (as @ x # bs) @ [0]))" by (simp only: chain_rev)
  then have ch: "chain (lnk ?dl) P N (0 # rev bs @ x # rev as @ [0])" by simp
  have dist: "distinct (0 # rev bs @ x # rev as)"
    and len: "\<forall>i \<in> set (0 # rev bs @ x # rev as). i < length ?dl"
    using links_bounds [OF assms] by auto
  obtain dl where dl: "adjust_links x N P ?dl = Some dl" "length dl = length ?dl"
    "lnk dl = (if bs = [] then lnk ?dl else relink (lnk ?dl) N P x)"
    using adjust_links_eq [OF ch dist len] by auto
  have "chain (lnk dl) P N (0 # x # rev bs @ rev as @ [0])"
    using ch chain_relink [OF ch _ _ dist] by (auto simp: dl(3))
  then have "chain (lnk dl) P N (rev (0 # as @ bs @ [x] @ [0]))" by simp
  then have "chain (lnk dl) N P (0 # as @ bs @ [x] @ [0])" by (simp only: chain_rev)
  then show ?thesis using assms dl(1,2) by (auto simp: adjust_def links_ok_def)
qed

subsection \<open>Reading the list\<close>

lemma links_head: "links_ok c xs \<Longrightarrow> lnk (doubleLink c) 0 N = hd (xs @ [0])"
  by (cases xs) (auto simp: links_ok_def)

lemma links_tail: "links_ok c xs \<Longrightarrow> lnk (doubleLink c) 0 P = last (0 # xs)"
  using chain_join [of "0 # xs" "[0]" "lnk (doubleLink c)" N P] by (simp add: links_ok_def)

text \<open>What a walker does on a list of entries, stopping when it says so.\<close>

fun fold_until :: "('s \<Rightarrow> string \<Rightarrow> gvalue \<Rightarrow> int \<Rightarrow> 's \<times> bool) \<Rightarrow> 's \<Rightarrow> (string \<times> gvalue \<times> int) list \<Rightarrow> 's" where
  "fold_until w s [] = s"
| "fold_until w s ((k, v, e) # es) = (case w s k v e of (s', go) \<Rightarrow> if go then fold_until w s' es else s')"

definition ent :: "cnode \<Rightarrow> string \<times> gvalue \<times> int" where
  "ent nd = (nk nd, nv nd, nexpireAt nd)"

lemma walk_from_eq:
  assumes "chain (lnk (doubleLink c)) N P (a # xs @ [0])"
    and "\<forall>i \<in> set xs. 0 < i \<and> i \<le> length (cm c) \<and> i < 65536 \<and> i < length (doubleLink c)"
    and "length xs < fuel"
  shows "walk_from fuel w s c (hd (xs @ [0])) =
    Some (fold_until w s (map ent (filter nlive (map (slot c) xs))))"
  using assms
proof (induction xs arbitrary: a s fuel)
  case Nil
  then show ?case by (cases fuel) auto
next
  case (Cons x xs)
  then obtain n where n: "fuel = Suc n" "length xs < n" by (cases fuel) auto
  have ch: "chain (lnk (doubleLink c)) N P (x # xs @ [0])" using Cons.prems(1) by simp
  then have nx: "lnk (doubleLink c) x N = hd (xs @ [0])" by (cases xs) auto
  have IH: "walk_from n w s' c (hd (xs @ [0])) = Some (fold_until w s' (map ent (filter nlive (map (slot c) xs))))"
    for s' using Cons.IH [OF ch] Cons.prems n by simp
  show ?case using Cons.prems(2) n(1) nx IH
    by (auto simp: go_simps ent_def [of "slot c x"] nlive_def [of "slot c x"] split: prod.split)
qed

lemma walk_eq:
  assumes "links_ok c xs"
  shows "walk w s c = Some (fold_until w s (map ent (filter nlive (map (slot c) xs))))"
proof -
  have "length xs = clast c" using assms by (metis card_atLeastAtMost diff_Suc_1 distinct_card links_ok_def)
  then have "length xs < length (doubleLink c)" using assms by (simp add: links_ok_def)
  moreover have "\<forall>i \<in> set xs. 0 < i \<and> i \<le> length (cm c) \<and> i < 65536 \<and> i < length (doubleLink c)"
    using slot_range [OF assms] assms by (auto simp: links_ok_def)
  moreover have "chain (lnk (doubleLink c)) N P (0 # xs @ [0])" "0 < length (doubleLink c)"
    using assms by (simp_all add: links_ok_def)
  ultimately show ?thesis
    by (simp only: walk_def go_simps links_head [OF assms] walk_from_eq bind.bind_lunit)
qed

text \<open>The live entries, most recently used first: what \<open>walk\<close> collects.\<close>

definition entries :: "cache \<Rightarrow> (string \<times> gvalue \<times> int) list" where
  "entries c = (case walk (\<lambda>s k v e. (s @ [(k, v, e)], True)) [] c of Some es \<Rightarrow> es | None \<Rightarrow> [])"

lemma fold_until_collect: "fold_until (\<lambda>s k v e. (s @ [(k, v, e)], True)) s es = s @ es"
  by (induction es arbitrary: s) auto

lemma entries_rep: "links_ok c xs \<Longrightarrow> entries c = map ent (filter nlive (map (slot c) xs))"
  by (simp add: entries_def walk_eq fold_until_collect)

lemma find_oldest_eq:
  assumes "chain (lnk (doubleLink c)) N P (0 # xs @ ys)" and "ys \<noteq> []"
    and "\<forall>i \<in> set xs. 0 < i \<and> i \<le> length (cm c) \<and> i < 65536 \<and> i < length (doubleLink c)"
    and "length xs < fuel"
  shows "find_oldest fuel c (last (0 # xs)) =
    Some (List.find (\<lambda>i. nlive (slot c i)) (rev xs))"
  using assms
proof (induction xs arbitrary: ys fuel rule: rev_induct)
  case Nil
  then show ?case by (cases fuel) auto
next
  case (snoc x xs)
  then obtain n where n: "fuel = Suc n" "length xs < n" by (cases fuel) auto
  have ch: "chain (lnk (doubleLink c)) N P (0 # xs @ x # ys)" using snoc.prems(1) by simp
  then have px: "lnk (doubleLink c) x P = last (0 # xs)"
    using chain_join [of "0 # xs" "x # ys" "lnk (doubleLink c)" N P] by simp
  have "find_oldest n c (last (0 # xs)) = Some (List.find (\<lambda>i. nlive (slot c i)) (rev xs))"
    using snoc.IH [OF ch] snoc.prems n by simp
  then show ?case using snoc.prems(3) n(1) px
    by (auto simp: go_simps nlive_def not_less)
qed

subsection \<open>Counting and keys\<close>

lemma sel_pair: "sel (x, y) d = (case d of P \<Rightarrow> x | N \<Rightarrow> y)"
  by (cases d) auto

lemma links_length: "links_ok c xs \<Longrightarrow> length xs = clast c"
  by (metis card_atLeastAtMost diff_Suc_1 distinct_card links_ok_def)

lemma fst_ent [simp]: "fst \<circ> ent = nk"
  by (simp add: ent_def comp_def)

lemma ent_fst [simp]: "fst (ent nd) = nk nd"
  by (simp add: ent_def)

lemma entries_distinct:
  assumes "cache_rep c xs"
  shows "distinct (map fst (entries c))"
proof -
  have "distinct (map nk (map (slot c) xs))"
    using assms index_keys by (auto simp: cache_rep_def links_ok_def)
  then have "distinct (map nk (filter nlive (map (slot c) xs)))" by (rule distinct_map_filter)
  moreover have "entries c = map ent (filter nlive (map (slot c) xs))"
    using assms by (auto simp: cache_rep_def intro: entries_rep)
  ultimately show ?thesis by simp
qed

lemma entries_of: "cache_rep c xs \<Longrightarrow> map (slot c) xs = ns \<Longrightarrow> entries c = map ent (filter nlive ns)"
  using entries_rep [of c xs] by (simp add: cache_rep_def)

lemma entries_keys:
  "links_ok c xs \<Longrightarrow> fst ` set (entries c) = {nk (slot c i) |i. i \<in> set xs \<and> nlive (slot c i)}"
  by (force simp: entries_rep image_iff)

text \<open>Taking one node out of a list with distinct keys removes exactly its entry.\<close>

lemma live_without:
  assumes "distinct (map nk (ns @ nd # ms))"
  shows "map ent (filter nlive (ns @ ms)) =
    without fst (nk nd) (map ent (filter nlive (ns @ nd # ms)))"
proof -
  have "nk nd \<notin> fst ` set (map ent (filter nlive ns))" "nk nd \<notin> fst ` set (map ent (filter nlive ms))"
    using assms by (auto simp: image_iff)
  then show ?thesis by (simp add: without_absent)
qed

lemma entries_length_le: "cache_rep c xs \<Longrightarrow> length (entries c) \<le> length (cm c)"
  using length_filter_le [of nlive "map (slot c) xs"] links_length [of c xs]
  by (auto simp: cache_rep_def entries_rep [of c xs] links_ok_def [of c xs])

lemma live_first_all: "live_first (ns @ [nd]) \<Longrightarrow> nlive nd \<Longrightarrow> \<forall>a \<in> set ns. nlive a"
  by (auto simp: live_first_append)

lemma live_first_remove: "live_first (ns @ nd # ms) \<Longrightarrow> live_first (ns @ ms)"
  by (auto simp: live_first_append)

lemma cache_repI:
  "links_ok c xs \<Longrightarrow> index_ok c xs \<Longrightarrow> map (slot c) xs = ns \<Longrightarrow> live_first ns \<Longrightarrow>
     cbytes c = sum_list (map weight ns) \<Longrightarrow> cache_rep c xs"
  by (simp add: cache_rep_def)

text \<open>Re-keying one slot of an inverse index, and adding a slot to it.\<close>

lemma index_rekey:
  assumes m: "\<And>k i. m k = Some i \<longleftrightarrow> i \<in> insert t A \<and> key i = k" and new: "m k' = None"
    and key': "key' t = k'" "\<And>j. j \<in> A \<Longrightarrow> key' j = key j" and t: "t \<notin> A"
  shows "(m(key t := None, k' \<mapsto> t)) k = Some i \<longleftrightarrow> i \<in> insert t A \<and> key' i = k"
proof -
  have "key j \<noteq> k'" if "j \<in> A" for j using m [of k' j] new that by auto
  moreover have "key t \<noteq> k'" using m [of k' t] new by auto
  moreover have "key j \<noteq> key t" if "j \<in> A" for j
    using m [of "key t" j] m [of "key t" t] that t by auto
  moreover have "m k = Some i \<longleftrightarrow> i \<in> insert t A \<and> key i = k" by (rule m)
  ultimately show ?thesis using key' t by auto
qed

lemma index_add:
  assumes m: "\<And>k i. m k = Some i \<longleftrightarrow> i \<in> A \<and> key i = k" and new: "m k' = None"
    and key': "key' t = k'" "\<And>j. j \<in> A \<Longrightarrow> key' j = key j" and t: "t \<notin> A"
  shows "(m(k' \<mapsto> t)) k = Some i \<longleftrightarrow> i \<in> insert t A \<and> key' i = k"
proof -
  have "key j \<noteq> k'" if "j \<in> A" for j using m [of k' j] new that by auto
  moreover have "m k = Some i \<longleftrightarrow> i \<in> A \<and> key i = k" by (rule m)
  ultimately show ?thesis using key' t by auto
qed

section \<open>The specification: an LRU list of bounded capacity\<close>

type_synonym entry = "string \<times> gvalue \<times> int"

definition lru_put :: "nat \<Rightarrow> entry \<Rightarrow> entry list \<Rightarrow> entry list" where
  "lru_put capn e es =
     e # (if fst e \<in> fst ` set es then without fst (fst e) es
          else if length es < capn then es else butlast es)"

text \<open>The entry an insertion pushes out, if any.\<close>

definition lru_victim :: "nat \<Rightarrow> entry \<Rightarrow> entry list \<Rightarrow> entry list" where
  "lru_victim capn e es =
     (if fst e \<in> fst ` set es \<or> length es < capn \<or> es = [] then [] else [last es])"

definition fire_all :: "bool \<Rightarrow> entry list \<Rightarrow> evictions" where
  "fire_all onEvicted es = concat (map (\<lambda>(k, v, e). fire onEvicted k v) es)"

section \<open>Insertion\<close>

lemma key_split:
  assumes "cache_rep c xs" and "gm_get (hashMap c) key = Some idx"
  obtains as bs where "xs = as @ idx # bs" and "nk (slot c idx) = key"
    and "0 < idx" and "idx \<le> length (cm c)" and "idx < 65536"
proof -
  have "idx \<in> set xs" "nk (slot c idx) = key" using assms by (auto simp: cache_rep_def index_ok_def)
  then show thesis using that slot_range [of c xs idx] assms(1)
    by (metis cache_rep_def split_list)
qed

lemma index_absent:
  "index_ok c xs \<Longrightarrow> gm_get (hashMap c) key = None \<Longrightarrow> i \<in> set xs \<Longrightarrow> nk (slot c i) \<noteq> key"
  unfolding index_ok_def by (metis option.distinct(1))

lemma put_existing_rep:
  assumes rep: "cache_rep c (as @ idx # bs)" and k: "nk (slot c idx) = key"
    and e: "0 < e"
  shows "\<exists>c'. put_existing key val e idx c = Some c' \<and> cache_rep c' (idx # as @ bs)
    \<and> length (cm c') = length (cm c)
    \<and> map (slot c') (idx # as @ bs) =
        (slot c idx)\<lparr>nv := val, nexpireAt := e\<rparr> # map (slot c) (as @ bs)
    \<and> nevict c' = nevict c"
proof -
  let ?nd = "slot c idx" let ?nd' = "(slot c idx)\<lparr>nv := val, nexpireAt := e\<rparr>"
  have lo: "links_ok c (as @ idx # bs)" using rep by (simp add: cache_rep_def)
  then have i: "0 < idx" "idx \<le> length (cm c)" "idx < 65536" by (auto dest: slot_range [of c _ idx])
  define b where "b = cbytes c + (entryBytes key val - weight ?nd)"
  define c1 where "c1 = c\<lparr>cbytes := b, cm := (cm c)[idx - 1 := ?nd']\<rparr>"
  have "links_ok c1 (as @ idx # bs)" using lo by (simp add: links_ok_def c1_def)
  then obtain dl where dl: "adjust idx P N c1 = Some (c1\<lparr>doubleLink := dl\<rparr>)"
    "links_ok (c1\<lparr>doubleLink := dl\<rparr>) (idx # as @ bs)" using adjust_front by blast
  let ?c' = "c1\<lparr>doubleLink := dl\<rparr>"
  have ret: "put_existing key val e idx c = Some ?c'"
    using i k dl(1) by (cases "nlive ?nd")
      (simp_all add: put_existing_def go_simps c1_def b_def weight_def nlive_def)
  have z: "idx \<notin> set (as @ bs)" "0 \<notin> set (as @ bs)" using links_bounds [OF lo] by auto
  have sl: "map (slot ?c') as = map (slot c) as" "map (slot ?c') bs = map (slot c) bs"
    using map_slot_upd [OF i(1,2), of as ?c' ?nd'] map_slot_upd [OF i(1,2), of bs ?c' ?nd'] z
    by (simp_all add: c1_def)
  have si: "slot ?c' idx = ?nd'" using slot_upd [OF i(1,2,1), of ?c' ?nd'] by (simp add: c1_def)
  have ind: "index_ok ?c' (idx # as @ bs)"
  proof -
    have "nk (slot ?c' i) = nk (slot c i)" if "i \<in> set (as @ idx # bs)" for i
      using slot_upd [OF i(1,2), of i ?c' ?nd'] slot_range [OF lo that] by (simp add: c1_def)
    then show ?thesis using rep by (auto simp: cache_rep_def index_ok_def c1_def)
  qed
  have ns: "map (slot ?c') (idx # as @ bs) = ?nd' # map (slot c) (as @ bs)"
    using sl si by (simp del: map_eq_conv)
  have "cache_rep ?c' (idx # as @ bs)"
    by (rule cache_repI [OF dl(2) ind ns])
       (use rep e k live_first_remove [of "map (slot c) as" ?nd "map (slot c) bs"] in
         \<open>simp_all add: cache_rep_def weight_def [of ?nd'] nlive_def [of ?nd'] c1_def b_def\<close>)
  then show ?thesis using ret ns by (simp add: c1_def)
qed


lemma links_last: "links_ok c (as @ [x]) \<Longrightarrow> lnk (doubleLink c) 0 P = x"
  by (simp add: links_tail)

lemma put_recycle_rep:
  assumes rep: "cache_rep c (as @ [ti])" and new: "gm_get (hashMap c) key = None" and e: "0 < e"
  shows "\<exists>c'. put_recycle key val e cb c =
          Some (c', if nlive (slot c ti) then fire cb (nk (slot c ti)) (nv (slot c ti)) else [])
    \<and> cache_rep c' (ti # as)
    \<and> length (cm c') = length (cm c)
    \<and> map (slot c') (ti # as) = \<lparr>nk = key, nv = val, nexpireAt = e\<rparr> # map (slot c) as
    \<and> nevict c' = nevict c + (if nlive (slot c ti) then 1 else 0)"
proof -
  let ?t = "slot c ti" let ?nd' = "\<lparr>nk = key, nv = val, nexpireAt = e\<rparr>"
  have nd': "?t\<lparr>nk := key, nv := val, nexpireAt := e\<rparr> = ?nd'" by simp
  have lo: "links_ok c (as @ [ti])" using rep by (simp add: cache_rep_def)
  then have i: "0 < ti" "ti \<le> length (cm c)" "ti < 65536" by (auto dest: slot_range [of c _ ti])
  have z: "ti \<notin> set as" "0 \<notin> set as" and dl0: "0 < length (doubleLink c)"
    using links_bounds [OF lo] by auto
  define hm where "hm = gm_set key ti (gm_del (nk ?t) (hashMap c))"
  define ne where "ne = nevict c + (if nlive ?t then 1 else 0)"
  define c1 where "c1 = c\<lparr>nevict := ne, cbytes := cbytes c - weight ?t + entryBytes key val,
    hashMap := hm, cm := (cm c)[ti - 1 := ?nd']\<rparr>"
  have "links_ok c1 (as @ ti # [])" using lo by (simp add: links_ok_def c1_def)
  then obtain dl where dl: "adjust ti P N c1 = Some (c1\<lparr>doubleLink := dl\<rparr>)"
    "links_ok (c1\<lparr>doubleLink := dl\<rparr>) (ti # as)" using adjust_front by fastforce
  let ?c' = "c1\<lparr>doubleLink := dl\<rparr>"
  have ret: "put_recycle key val e cb c =
      Some (?c', if nlive ?t then fire cb (nk ?t) (nv ?t) else [])"
    using i dl(1) dl0 unfolding put_recycle_def
    by (cases "nlive ?t") (simp_all add: go_simps links_last [OF lo] nd' c1_def hm_def ne_def weight_def nlive_def)
  have sl: "map (slot ?c') as = map (slot c) as"
    using map_slot_upd [OF i(1,2) z, of ?c' ?nd'] by (simp add: c1_def)
  have si: "slot ?c' ti = ?nd'" using slot_upd [OF i(1,2,1), of ?c' ?nd'] by (simp add: c1_def)
  have ind: "index_ok ?c' (ti # as)"
  proof -
    have s: "slot ?c' j = slot c j" if "j \<in> set as" for j using sl that by simp
    have m: "gm_get (hashMap c) k = Some j \<longleftrightarrow> j \<in> insert ti (set as) \<and> nk (slot c j) = k" for k j
      using rep by (auto simp: cache_rep_def index_ok_def)
    have "gm_get hm k = Some j \<longleftrightarrow> j \<in> insert ti (set as) \<and> nk (slot ?c' j) = k" for k j
      unfolding hm_def gm_get_set gm_get_del
      by (rule index_rekey [OF m new]) (use z(1) s si in auto)
    moreover have "gm_ok hm" "hashMap ?c' = hm"
      using rep by (simp_all add: cache_rep_def index_ok_def hm_def c1_def)
    ultimately show ?thesis by (simp add: index_ok_def)
  qed
  have ns: "map (slot ?c') (ti # as) = ?nd' # map (slot c) as" using sl si by (simp del: map_eq_conv)
  have "cache_rep ?c' (ti # as)"
    by (rule cache_repI [OF dl(2) ind ns])
       (use rep e in \<open>simp_all add: cache_rep_def live_first_append weight_def [of ?nd']
          nlive_def [of ?nd'] c1_def\<close>)
  then show ?thesis using ret ns by (simp add: c1_def ne_def)
qed

lemma put_fresh_rep:
  assumes rep: "cache_rep c xs" and new: "gm_get (hashMap c) key = None" and e: "0 < e"
    and room: "clast c < length (cm c)"
  shows "\<exists>c'. put_fresh key val e c = Some c' \<and> cache_rep c' (Suc (clast c) # xs)
    \<and> length (cm c') = length (cm c)
    \<and> map (slot c') (Suc (clast c) # xs) = \<lparr>nk = key, nv = val, nexpireAt = e\<rparr> # map (slot c) xs
    \<and> nevict c' = nevict c"
proof -
  let ?l = "Suc (clast c)" let ?nd' = "\<lparr>nk = key, nv = val, nexpireAt = e\<rparr>"
  let ?dl = "doubleLink c"
  have lo: "links_ok c xs" using rep by (simp add: cache_rep_def)
  have len: "length ?dl = Suc (length (cm c))" "length (cm c) < 65535" "set xs = {1..clast c}"
    and ch: "chain (lnk ?dl) N P (0 # xs @ [0])" and dist: "distinct xs"
    using lo by (auto simp: links_ok_def)
  have inc: "u16_inc (clast c) = ?l" using room len by simp
  have z: "?l \<notin> set xs" "0 \<notin> set xs" using len(3) by auto
  let ?h = "lnk ?dl 0 N"
  have h: "?h = hd (xs @ [0])" by (rule links_head [OF lo])
  have hl: "?h < length ?dl" using h hd_in_set [of "xs @ [0]"] links_bounds(2) [OF lo] by auto
  have hz: "?h \<noteq> ?l" using h z hd_in_set [of "xs @ [0]"] by auto
  have empty: "hashMap c = [] \<longleftrightarrow> xs = []"
  proof
    assume "hashMap c = []"
    then show "xs = []" using rep by (cases xs) (auto simp: cache_rep_def index_ok_def)
  next
    assume "xs = []"
    then have "gm_get (hashMap c) k = None" for k using rep
      by (cases "gm_get (hashMap c) k") (auto simp: cache_rep_def index_ok_def)
    then show "hashMap c = []" by (metis list.exhaust map_of_eq_None_iff prod.exhaust list.set_intros(1) image_eqI list.simps(9))
  qed
  define dl where "dl = upd_lnk ((upd_lnk ?dl ?h P ?l)[?l := (0, ?h)]) 0 N ?l"
  define c' where "c' = c\<lparr>clast := ?l, cm := (cm c)[?l - 1 := ?nd'],
     hashMap := gm_set key ?l (hashMap c), doubleLink := dl, cbytes := cbytes c + entryBytes key val\<rparr>"
  have nd': "nd\<lparr>nk := key, nv := val, nexpireAt := e\<rparr> = ?nd'" for nd :: cnode by simp
  have ret: "put_fresh key val e c = Some c'"
  proof -
    have "hashMap c = [] \<Longrightarrow> ?h = 0" using empty h by simp
    moreover have "lnk (upd_lnk ?dl ?h P ?l) 0 N = ?h" using hl by auto
    moreover have "rd (cm c) (u16_dec ?l) = Some (slot c ?l)"
      "wr (cm c) (u16_dec ?l) nd = Some ((cm c)[?l - 1 := nd])" for nd
      using rd_slot [of ?l c] wr_slot [of ?l c nd] room len by simp_all
    ultimately show ?thesis using room len inc hl
      by (cases "hashMap c = []") (simp_all add: put_fresh_def go_simps nd' c'_def dl_def Let_def)
  qed
  have g: "lnk dl = (\<lambda>i d. if i = 0 \<and> d = N then ?l else if i = ?l then (if d = P then 0 else ?h)
      else if i = ?h \<and> d = P then ?l else lnk ?dl i d)"
    using hz hl room len by (intro ext)
      (auto simp: dl_def lnk_def upd_lnk_def nth_list_update sel_pair split: dir.splits)
  have "chain (lnk dl) N P (xs @ [0])"
  proof (rule iffD1 [OF chain_cong])
    show "chain (lnk ?dl) N P (xs @ [0])" using ch by (cases xs) auto
  next
    fix a assume "a \<in> set (butlast (xs @ [0]))"
    then have "a \<in> set xs" by simp
    then show "lnk ?dl a N = lnk dl a N" using z by (auto simp: g)
  next
    fix b assume b: "b \<in> set (tl (xs @ [0]))"
    then have "b \<noteq> ?l" using z by (cases xs) auto
    moreover have "b \<noteq> ?h" using b h dist z(2) by (cases xs) auto
    ultimately show "lnk ?dl b P = lnk dl b P" by (simp add: g)
  qed
  then have ch': "chain (lnk dl) N P (0 # (?l # xs) @ [0])"
    using h hz by (cases xs) (auto simp: g)
  have lo': "links_ok c' (?l # xs)" using lo ch' room z len(3)
    by (auto simp: links_ok_def c'_def dl_def)
  have i: "0 < ?l" "?l \<le> length (cm c)" using room by auto
  have sl: "map (slot c') xs = map (slot c) xs"
    using map_slot_upd [OF i z, of c' ?nd'] by (simp add: c'_def)
  have si: "slot c' ?l = ?nd'" using slot_upd [OF i i(1), of c' ?nd'] by (simp add: c'_def)
  have ind: "index_ok c' (?l # xs)"
  proof -
    have s: "slot c' j = slot c j" if "j \<in> set xs" for j using sl that by simp
    have m: "gm_get (hashMap c) k = Some j \<longleftrightarrow> j \<in> set xs \<and> nk (slot c j) = k" for k j
      using rep by (auto simp: cache_rep_def index_ok_def)
    have "gm_get (gm_set key ?l (hashMap c)) k = Some j \<longleftrightarrow> j \<in> insert ?l (set xs) \<and> nk (slot c' j) = k" for k j
      unfolding gm_get_set by (rule index_add [OF m new]) (use z(1) s si in auto)
    moreover have "gm_ok (hashMap c')" "hashMap c' = gm_set key ?l (hashMap c)"
      using rep by (simp_all add: cache_rep_def index_ok_def c'_def)
    ultimately show ?thesis by (simp add: index_ok_def)
  qed
  have ns: "map (slot c') (?l # xs) = ?nd' # map (slot c) xs" using sl si by (simp del: map_eq_conv)
  have "cache_rep c' (?l # xs)"
    by (rule cache_repI [OF lo' ind ns])
       (use rep e in \<open>simp_all add: cache_rep_def weight_def [of ?nd'] nlive_def [of ?nd'] c'_def\<close>)
  then show ?thesis using ret ns by (simp add: c'_def)
qed


text \<open>What insertion leaves of the entries, in terms of the list of used slots.\<close>

lemma lru_put_existing:
  assumes "distinct (map nk (ns @ nd # ms))" and "length (ns @ nd # ms) \<le> capn"
    and "nk e = nk nd" and "nlive e"
  shows "map ent (filter nlive (e # ns @ ms)) =
      lru_put capn (ent e) (map ent (filter nlive (ns @ nd # ms)))"
    and "lru_victim capn (ent e) (map ent (filter nlive (ns @ nd # ms))) = []"
proof -
  let ?es = "map ent (filter nlive (ns @ nd # ms))"
  have "length (filter nlive ns) + length (filter nlive ms) \<le> length ns + length ms"
    by (intro add_mono length_filter_le)
  then have "length ?es < capn" if "\<not> nlive nd" using that assms(2) by simp
  moreover have "nk nd \<in> fst ` set ?es" if "nlive nd" using that by force
  moreover have "nk nd \<notin> fst ` set ?es" if "\<not> nlive nd" using that assms(1) by (auto simp: image_iff)
  moreover have "map ent (filter nlive (ns @ ms)) = without fst (nk nd) ?es"
    using assms(1) by (rule live_without)
  moreover have "?es = map ent (filter nlive (ns @ ms))" if "\<not> nlive nd" using that by simp
  ultimately show "map ent (filter nlive (e # ns @ ms)) = lru_put capn (ent e) ?es"
    and "lru_victim capn (ent e) ?es = []"
    using assms(3,4) by (auto simp: lru_put_def lru_victim_def)
qed

lemma put_rep:
  assumes rep: "cache_rep c xs" and e: "0 < e" and cap: "0 < length (cm c)"
  shows "\<exists>c' r evs ys. put key val e cb c = Some (c', r, evs) \<and> cache_rep c' ys
    \<and> length (cm c') = length (cm c)
    \<and> entries c' = lru_put (length (cm c)) (key, val, e) (entries c)
    \<and> evs = fire_all cb (lru_victim (length (cm c)) (key, val, e) (entries c))
    \<and> nevict c' = nevict c + int (length (lru_victim (length (cm c)) (key, val, e) (entries c)))"
proof -
  have lo: "links_ok c xs" using rep by (simp add: cache_rep_def)
  then have lx: "length xs = clast c" "clast c \<le> length (cm c)" "length (cm c) < 65535"
    by (simp_all add: links_length) (simp_all add: links_ok_def)
  have dk: "distinct (map nk (map (slot c) xs))"
    using rep index_keys by (simp add: cache_rep_def links_ok_def)
  have es: "entries c = map ent (filter nlive (map (slot c) xs))" by (rule entries_rep [OF lo])
  let ?new = "\<lparr>nk = key, nv = val, nexpireAt = e\<rparr>"
  have live: "nlive ?new" and ent: "ent ?new = (key, val, e)" using e by (simp_all add: nlive_def ent_def)
  have absent: "key \<notin> fst ` set (entries c)" if "gm_get (hashMap c) key = None"
    using index_absent [of c xs key] rep that entries_keys [OF lo] by (auto simp: cache_rep_def)
  show ?thesis
  proof (cases "gm_get (hashMap c) key")
    case (Some idx)
    obtain as bs where xs: "xs = as @ idx # bs" and k: "nk (slot c idx) = key"
      using key_split [OF rep Some] by metis
    obtain c' where c': "put_existing key val e idx c = Some c'" "cache_rep c' (idx # as @ bs)"
      "length (cm c') = length (cm c)" "nevict c' = nevict c"
      "map (slot c') (idx # as @ bs) = (slot c idx)\<lparr>nv := val, nexpireAt := e\<rparr> # map (slot c) (as @ bs)"
      using put_existing_rep [OF rep [unfolded xs] k e, of val] by (elim exE conjE) (rule that, assumption+)
    let ?nd = "(slot c idx)\<lparr>nv := val, nexpireAt := e\<rparr>"
    have nd: "nk ?nd = nk (slot c idx)" "nlive ?nd" "ent ?nd = (key, val, e)"
      using k e by (simp_all add: nlive_def ent_def)
    have "entries c' = map ent (filter nlive (?nd # map (slot c) as @ map (slot c) bs))"
      using entries_of [OF c'(2,5)] by simp
    then show ?thesis
      using c' Some lru_put_existing [of "map (slot c) as" "slot c idx" "map (slot c) bs" "length (cm c)" ?nd]
        dk lx nd es xs by (simp add: put_def fire_all_def) blast
  next
    case None
    note absent = absent [OF None]
    show ?thesis
    proof (cases "clast c = length (cm c)")
      case True
      then obtain as ti where xs: "xs = as @ [ti]" using lx cap by (cases xs rule: rev_cases) auto
      obtain c' where c': "put_recycle key val e cb c =
            Some (c', if nlive (slot c ti) then fire cb (nk (slot c ti)) (nv (slot c ti)) else [])"
          "cache_rep c' (ti # as)" "length (cm c') = length (cm c)"
          "map (slot c') (ti # as) = ?new # map (slot c) as"
          "nevict c' = nevict c + (if nlive (slot c ti) then 1 else 0)"
        using put_recycle_rep [OF rep [unfolded xs] None e, of val cb] by (elim exE conjE) (rule that, assumption+)
      have es': "entries c' = (key, val, e) # map ent (filter nlive (map (slot c) as))"
        using entries_of [OF c'(2,4)] live ent by simp
      have full: "length (entries c) = length (cm c)" if "nlive (slot c ti)"
      proof -
        have "\<forall>a \<in> set (map (slot c) as). nlive a"
          using rep that by (intro live_first_all [of _ "slot c ti"]) (simp_all add: cache_rep_def xs)
        then have "filter nlive (map (slot c) xs) = map (slot c) xs" using that by (simp add: xs filter_id_conv)
        then show ?thesis using es lx True by simp
      qed
      have part: "length (entries c) < length (cm c)" if "\<not> nlive (slot c ti)"
        using that es lx True by (simp add: xs) (metis le_imp_less_Suc length_filter_le)
      show ?thesis
        using c' es' absent full part True None lx cap es
        by (cases "nlive (slot c ti)")
           (force simp: put_def lru_put_def lru_victim_def fire_all_def xs ent_def [of "slot c ti"])+
    next
      case False
      then have room: "clast c < length (cm c)" using lx by simp
      obtain c' where c': "put_fresh key val e c = Some c'" "cache_rep c' (Suc (clast c) # xs)"
          "length (cm c') = length (cm c)" "nevict c' = nevict c"
          "map (slot c') (Suc (clast c) # xs) = ?new # map (slot c) xs"
        using put_fresh_rep [OF rep None e room, of val] by (elim exE conjE) (rule that, assumption+)
      have es': "entries c' = (key, val, e) # entries c"
        using entries_of [OF c'(2,5)] live ent es by simp
      have "length (entries c) < length (cm c)"
        using es lx room by simp (metis le_less_trans length_filter_le)
      then show ?thesis
        using c' es' absent False None lx by (force simp: put_def lru_put_def lru_victim_def fire_all_def)
    qed
  qed
qed


section \<open>Removal\<close>

text \<open>Marking the node in slot \<open>idx\<close> as deleted and moving it to the tail.\<close>

lemma retire_rep:
  fixes ne :: int
  assumes rep: "cache_rep c (as @ idx # bs)" and dead: "\<not> nlive nd'" and key: "nk nd' = nk (slot c idx)"
  defines "c1 \<equiv> c\<lparr>cbytes := cbytes c - weight (slot c idx), nevict := ne, cm := (cm c)[idx - 1 := nd']\<rparr>"
  shows "\<exists>dl. adjust idx N P c1 = Some (c1\<lparr>doubleLink := dl\<rparr>)
    \<and> cache_rep (c1\<lparr>doubleLink := dl\<rparr>) (as @ bs @ [idx])
    \<and> map (slot (c1\<lparr>doubleLink := dl\<rparr>)) (as @ bs @ [idx]) = map (slot c) (as @ bs) @ [nd']"
proof -
  have lo: "links_ok c (as @ idx # bs)" using rep by (simp add: cache_rep_def)
  then have i: "0 < idx" "idx \<le> length (cm c)" "idx < 65536" by (auto dest: slot_range [of c _ idx])
  have "links_ok c1 (as @ idx # bs)" using lo by (simp add: links_ok_def c1_def)
  then obtain dl where dl: "adjust idx N P c1 = Some (c1\<lparr>doubleLink := dl\<rparr>)"
    "links_ok (c1\<lparr>doubleLink := dl\<rparr>) (as @ bs @ [idx])" using adjust_back by blast
  let ?c' = "c1\<lparr>doubleLink := dl\<rparr>"
  have z: "idx \<notin> set (as @ bs)" "0 \<notin> set (as @ bs)" using links_bounds [OF lo] by auto
  have sl: "map (slot ?c') (as @ bs) = map (slot c) (as @ bs)"
    using map_slot_upd [OF i(1,2) z, of ?c' nd'] by (simp add: c1_def)
  have si: "slot ?c' idx = nd'" using slot_upd [OF i(1,2,1), of ?c' nd'] by (simp add: c1_def)
  have ns: "map (slot ?c') (as @ bs @ [idx]) = map (slot c) (as @ bs) @ [nd']"
    using sl si by (simp del: map_eq_conv)
  have ind: "index_ok ?c' (as @ bs @ [idx])"
  proof -
    have "nk (slot ?c' i) = nk (slot c i)" if "i \<in> set (as @ idx # bs)" for i
      using slot_upd [OF i(1,2), of i ?c' nd'] slot_range [OF lo that] key by (simp add: c1_def)
    then show ?thesis using rep by (auto simp: cache_rep_def index_ok_def c1_def)
  qed
  have "cache_rep ?c' (as @ bs @ [idx])"
    by (rule cache_repI [OF dl(2) ind ns])
       (use rep dead in \<open>auto simp: cache_rep_def live_first_append weight_def [of nd'] c1_def\<close>)
  then show ?thesis using dl(1) ns by blast
qed

lemma weight_live: "0 < nexpireAt nd \<Longrightarrow> weight nd = entryBytes (nk nd) (nv nd)"
  by (simp add: weight_def nlive_def)

text \<open>Deleting a key that is not live changes nothing.\<close>

lemma del_absent:
  assumes rep: "cache_rep c xs" and no: "lookup_by fst key (entries c) = None"
  shows "del key c = Some (c, None, 0, 0)"
proof (cases "gm_get (hashMap c) key")
  case None
  then show ?thesis by (simp add: del_def)
next
  case (Some idx)
  obtain as bs where xs: "xs = as @ idx # bs" and k: "nk (slot c idx) = key"
    and i: "0 < idx" "idx \<le> length (cm c)" "idx < 65536" using key_split [OF rep Some] by metis
  have "\<not> nlive (slot c idx)"
  proof
    assume "nlive (slot c idx)"
    then have "ent (slot c idx) \<in> set (entries c)"
      using rep by (auto simp: cache_rep_def entries_rep xs)
    then have "key \<in> fst ` set (entries c)" using k by (metis ent_fst image_eqI)
    then show False using no by (simp add: lookup_by_None_iff)
  qed
  then show ?thesis using Some i by (simp add: del_def go_simps nlive_def)
qed

lemma del_present:
  assumes rep: "cache_rep c xs" and yes: "lookup_by fst key (entries c) = Some (k, v, e)"
  shows "\<exists>c' i ys. del key c = Some (c', Some i, 1, e) \<and> cache_rep c' (ys @ [Suc i])
    \<and> length (cm c') = length (cm c) \<and> i < length (cm c) \<and> cm c' ! i = \<lparr>nk = key, nv = v, nexpireAt = 0\<rparr>
    \<and> entries c' = without fst key (entries c) \<and> nevict c' = nevict c"
proof -
  have lo: "links_ok c xs" using rep by (simp add: cache_rep_def)
  have es: "entries c = map ent (filter nlive (map (slot c) xs))" by (rule entries_rep [OF lo])
  obtain idx where ix: "idx \<in> set xs" "ent (slot c idx) = (key, v, e)" "nlive (slot c idx)"
    using lookup_by_SomeD [OF yes] by (auto simp: es)
  then have k: "nk (slot c idx) = key" "nv (slot c idx) = v" "nexpireAt (slot c idx) = e"
    by (auto simp: ent_def)
  have Some: "gm_get (hashMap c) key = Some idx" using rep ix(1) k by (simp add: cache_rep_def index_ok_def)
  obtain as bs where xs: "xs = as @ idx # bs"
    and i: "0 < idx" "idx \<le> length (cm c)" "idx < 65536" using key_split [OF rep Some] by metis
  let ?nd' = "(slot c idx)\<lparr>nexpireAt := 0\<rparr>"
  let ?c1 = "c\<lparr>cbytes := cbytes c - weight (slot c idx), nevict := nevict c, cm := (cm c)[idx - 1 := ?nd']\<rparr>"
  obtain dl where dl: "adjust idx N P ?c1 = Some (?c1\<lparr>doubleLink := dl\<rparr>)"
    "cache_rep (?c1\<lparr>doubleLink := dl\<rparr>) (as @ bs @ [idx])"
    "map (slot (?c1\<lparr>doubleLink := dl\<rparr>)) (as @ bs @ [idx]) = map (slot c) (as @ bs) @ [?nd']"
    using retire_rep [OF rep [unfolded xs], of ?nd' "nevict c"] by (auto simp: nlive_def)
  let ?c' = "?c1\<lparr>doubleLink := dl\<rparr>"
  have "del key c = Some (?c', Some (u16_dec idx), 1, e)"
    using Some i k ix(3) dl(1) weight_live [of "slot c idx"]
    by (simp add: del_def go_simps nlive_def)
  then have "del key c = Some (?c', Some (idx - 1), 1, e)" using i by (simp only: u16_dec_pos)
  moreover have "entries ?c' = without fst key (entries c)"
  proof -
    have "distinct (map nk (map (slot c) as @ slot c idx # map (slot c) bs))"
      using index_keys [of c xs] rep by (simp add: cache_rep_def links_ok_def xs)
    from live_without [OF this] show ?thesis
      using entries_of [OF dl(2,3)] es k by (simp add: nlive_def [of ?nd'] xs)
  qed
  moreover have "cm ?c' ! (idx - 1) = ?nd'" using i by simp
  moreover have "?nd' = \<lparr>nk = key, nv = v, nexpireAt = 0\<rparr>" using k by simp
  ultimately show ?thesis using dl(2) i
    by (intro exI [of _ ?c'] exI [of _ "idx - 1"] exI [of _ "as @ bs"]) simp
qed

lemma clear_v_rep:
  assumes rep: "cache_rep c xs" and i: "Suc i \<in> set xs" and dead: "\<not> nlive (cm c ! i)"
  shows "\<exists>c'. clear_v i c = Some c' \<and> cache_rep c' xs \<and> entries c' = entries c
    \<and> length (cm c') = length (cm c) \<and> nevict c' = nevict c \<and> cbytes c' = cbytes c"
proof -
  have lo: "links_ok c xs" using rep by (simp add: cache_rep_def)
  have len: "i < length (cm c)" using slot_range [OF lo i] by simp
  define c' where "c' = c\<lparr>cm := (cm c)[i := (cm c ! i)\<lparr>nv := None\<rparr>]\<rparr>"
  have ret: "clear_v i c = Some c'" using len by (simp add: clear_v_def go_simps c'_def)
  have sl: "nk (slot c' j) = nk (slot c j)" "nlive (slot c' j) = nlive (slot c j)"
    "weight (slot c' j) = weight (slot c j)"
    "nlive (slot c j) \<Longrightarrow> slot c' j = slot c j" if "j \<in> set xs" for j
    using dead len slot_range [OF lo that]
    by (auto simp: slot_def c'_def nth_list_update nlive_def weight_def)
  have lo': "links_ok c' xs" using lo by (simp add: links_ok_def c'_def)
  moreover have "index_ok c' xs" using rep sl by (auto simp: cache_rep_def index_ok_def c'_def)
  moreover have "live_first (map (slot c') xs)"
    using rep sl(2) by (auto simp: cache_rep_def live_first_def sorted_wrt_iff_nth_less)
  moreover have "map weight (map (slot c') xs) = map weight (map (slot c) xs)"
    using sl(3) by simp
  then have "cbytes c' = sum_list (map weight (map (slot c') xs))"
    using rep by (simp only:) (simp add: c'_def cache_rep_def)
  ultimately have "cache_rep c' xs" by (simp add: cache_rep_def)
  moreover have "filter nlive (map (slot c') xs) = filter nlive (map (slot c) xs)"
    using sl(2,4) by (induction xs) auto
  then have "entries c' = entries c" by (simp add: entries_rep [OF lo] entries_rep [OF lo'])
  ultimately show ?thesis using ret by (simp add: c'_def)
qed

lemma drop_key_rep:
  assumes rep: "cache_rep c xs"
  shows "\<exists>c' ys. drop_key key c = Some c' \<and> cache_rep c' ys \<and> length (cm c') = length (cm c)
    \<and> entries c' = without fst key (entries c) \<and> nevict c' = nevict c"
proof (cases "lookup_by fst key (entries c)")
  case None
  then have "without fst key (entries c) = entries c"
    by (simp add: lookup_by_None_iff without_absent)
  then show ?thesis using rep del_absent [OF rep None] by (auto simp: drop_key_def)
next
  case (Some x)
  obtain k v e where x: "x = (k, v, e)" by (cases x)
  obtain c1 i ys where c1: "del key c = Some (c1, Some i, 1, e)" "cache_rep c1 (ys @ [Suc i])"
    "length (cm c1) = length (cm c)" "cm c1 ! i = \<lparr>nk = key, nv = v, nexpireAt = 0\<rparr>"
    "entries c1 = without fst key (entries c)" "nevict c1 = nevict c"
    using del_present [OF rep Some [unfolded x]] by blast
  then obtain c' where "clear_v i c1 = Some c'" "cache_rep c' (ys @ [Suc i])" "entries c' = entries c1"
      "length (cm c') = length (cm c1)" "nevict c' = nevict c1"
    using clear_v_rep [OF c1(2), of i] by (auto simp: nlive_def)
  then show ?thesis using c1 by (auto simp: drop_key_def)
qed

lemma find_Some_split:
  "List.find p (rev xs) = Some x \<Longrightarrow> \<exists>as bs. xs = as @ x # bs \<and> p x \<and> (\<forall>y \<in> set bs. \<not> p y)"
proof (induction xs rule: rev_induct)
  case (snoc y xs)
  then show ?case
  proof (cases "p y")
    case False
    with snoc obtain as bs where "xs = as @ x # bs" "p x" "\<forall>y \<in> set bs. \<not> p y" by auto
    then show ?thesis using False by (intro exI [of _ as] exI [of _ "bs @ [y]"]) auto
  next
    case True
    with snoc.prems have "y = x" by simp
    with True show ?thesis by (intro exI [of _ xs] exI [of _ "[]"]) simp
  qed
qed simp

lemma find_oldest_rep:
  assumes "links_ok c xs"
  shows "find_oldest (length (doubleLink c)) c (lnk (doubleLink c) 0 P) =
    Some (List.find (\<lambda>i. nlive (slot c i)) (rev xs))"
proof -
  have "length xs < length (doubleLink c)"
    using assms links_length [OF assms] by (simp add: links_ok_def)
  moreover have "\<forall>i \<in> set xs. 0 < i \<and> i \<le> length (cm c) \<and> i < 65536 \<and> i < length (doubleLink c)"
    using slot_range [OF assms] links_bounds [OF assms] by auto
  moreover have "chain (lnk (doubleLink c)) N P (0 # xs @ [0])" using assms by (simp add: links_ok_def)
  ultimately show ?thesis unfolding links_tail [OF assms] by (intro find_oldest_eq [of c xs "[0]"]) simp_all
qed

lemma evictOldest_rep:
  assumes rep: "cache_rep c xs"
  shows "\<exists>c' ys. evictOldest cb c = Some (c', entries c \<noteq> [], fire_all cb (if entries c = [] then [] else [last (entries c)]))
    \<and> cache_rep c' ys \<and> length (cm c') = length (cm c) \<and> entries c' = butlast (entries c)
    \<and> nevict c' = nevict c + (if entries c = [] then 0 else 1)"
proof -
  have lo: "links_ok c xs" using rep by (simp add: cache_rep_def)
  have es: "entries c = map ent (filter nlive (map (slot c) xs))" by (rule entries_rep [OF lo])
  have dl0: "0 < length (doubleLink c)" using links_bounds [OF lo] by auto
  show ?thesis
  proof (cases "List.find (\<lambda>i. nlive (slot c i)) (rev xs)")
    case None
    then have "entries c = []" by (auto simp: es find_None_iff filter_empty_conv)
    then show ?thesis using rep None dl0
      by (auto simp: evictOldest_def go_simps find_oldest_rep [OF lo] fire_all_def)
  next
    case (Some idx)
    then obtain as bs where xs: "xs = as @ idx # bs" and live: "nlive (slot c idx)"
      and dead: "\<forall>j \<in> set bs. \<not> nlive (slot c j)" using find_Some_split by fastforce
    have i: "0 < idx" "idx \<le> length (cm c)" "idx < 65536" using slot_range [OF lo, of idx] xs by auto
    have fb: "filter nlive (map (slot c) bs) = []" using dead by (simp add: filter_empty_conv)
    have e1: "entries c = map ent (filter nlive (map (slot c) as)) @ [ent (slot c idx)]"
      using es live fb by (simp add: xs)
    let ?nd' = "(slot c idx)\<lparr>nexpireAt := 0, nv := None\<rparr>"
    let ?c1 = "c\<lparr>cbytes := cbytes c - weight (slot c idx), nevict := nevict c + 1, cm := (cm c)[idx - 1 := ?nd']\<rparr>"
    obtain dl where dl: "adjust idx N P ?c1 = Some (?c1\<lparr>doubleLink := dl\<rparr>)"
      "cache_rep (?c1\<lparr>doubleLink := dl\<rparr>) (as @ bs @ [idx])"
      "map (slot (?c1\<lparr>doubleLink := dl\<rparr>)) (as @ bs @ [idx]) = map (slot c) (as @ bs) @ [?nd']"
      using retire_rep [OF rep [unfolded xs], of ?nd' "nevict c + 1"] by (auto simp: nlive_def)
    let ?c' = "?c1\<lparr>doubleLink := dl\<rparr>"
    have "evictOldest cb c = Some (?c', True, fire cb (nk (slot c idx)) (nv (slot c idx)))"
      using Some i dl(1) dl0 live weight_live [of "slot c idx"]
      by (simp add: evictOldest_def go_simps find_oldest_rep [OF lo] nlive_def)
    moreover have "entries ?c' = butlast (entries c)"
      using entries_of [OF dl(2,3)] fb by (simp add: nlive_def [of ?nd'] e1)
    ultimately show ?thesis using dl(2) e1
      by (intro exI [of _ ?c'] exI [of _ "as @ bs @ [idx]"]) (simp add: fire_all_def ent_def [of "slot c idx"])
  qed
qed

lemma cbytes_entries:
  assumes "cache_rep c xs"
  shows "cbytes c = (\<Sum>(k, v, e) \<leftarrow> entries c. entryBytes k v)"
proof -
  have "sum_list (map weight ns) = (\<Sum>(k, v, e) \<leftarrow> map ent (filter nlive ns). entryBytes k v)" for ns
    by (induction ns) (auto simp: weight_def ent_def)
  from this [of "map (slot c) xs"] show ?thesis
    using assms by (simp add: cache_rep_def entries_rep [of c xs])
qed

section \<open>Properties\<close>

lemma Create_rep: "capn < 65535 \<Longrightarrow> cache_rep (Create capn) []"
  by (simp add: Create_def cache_rep_defs lnk_def)

lemma Create_inv: "capn < 65535 \<Longrightarrow> cache_inv (Create capn)"
  unfolding cache_inv_def using Create_rep by blast

lemma Create_cap [simp]: "length (cm (Create capn)) = capn"
  by (simp add: Create_def)

lemma Create_entries [simp]: "capn < 65535 \<Longrightarrow> entries (Create capn) = []"
  using entries_of [OF Create_rep] by simp

text \<open>A level with one entry, for the witnesses below.\<close>

lemma filled_level: "\<exists>c. cache_inv c \<and> entries c = [(''k'', None, 5)]"
  using put_rep [OF Create_rep [of 2], of 5 "''k''" None False]
  by (auto simp: cache_inv_def lru_put_def)

text \<open>
  C7. Insertion is LRU insertion: on a well-formed level \<open>put\<close> does not panic, keeps the
  level well-formed, puts the entry in front of the live entries in recency order (replacing
  an older entry of the same key), and calls the eviction callback exactly for the least
  recently used entry, and only when the level is full and the key is new.
\<close>

theorem put_refines_lru:
  assumes "cache_inv c" and "0 < expireAt" and "0 < length (cm c)"
  shows "\<exists>c' r. put key val expireAt cb c =
      Some (c', r, fire_all cb (lru_victim (length (cm c)) (key, val, expireAt) (entries c)))
    \<and> cache_inv c' \<and> length (cm c') = length (cm c)
    \<and> entries c' = lru_put (length (cm c)) (key, val, expireAt) (entries c)"
  using put_rep assms unfolding cache_inv_def by metis

theorem put_refines_lru_witness:
  "\<exists>c' r. put ''k'' None 5 True (Create 2) =
      Some (c', r, fire_all True (lru_victim 2 (''k'', None, 5) (entries (Create 2))))
    \<and> cache_inv c' \<and> length (cm c') = 2 \<and> entries c' = [(''k'', None, 5)]"
  using put_refines_lru [of "Create 2" 5 "''k''" None True] Create_inv [of 2]
  by (simp add: lru_put_def)

text \<open>
  \<open>evictOldest\<close> removes exactly the least recently used live entry and reports it to the
  callback; it returns false exactly when nothing is live.
\<close>

theorem evictOldest_removes_lru:
  assumes "cache_inv c"
  shows "\<exists>c'. evictOldest cb c =
      Some (c', entries c \<noteq> [], fire_all cb (if entries c = [] then [] else [last (entries c)]))
    \<and> cache_inv c' \<and> entries c' = butlast (entries c)"
  using evictOldest_rep assms unfolding cache_inv_def by metis

theorem evictOldest_removes_lru_witness:
  "\<exists>c c'. entries c = [(''k'', None, 5)] \<and> evictOldest True c = Some (c', True, [(''k'', None)])
    \<and> cache_inv c' \<and> entries c' = []"
proof -
  obtain c where c: "cache_inv c" "entries c = [(''k'', None, 5)]" using filled_level by blast
  show ?thesis using evictOldest_removes_lru [OF c(1), of True] c(2)
    by (auto simp: fire_all_def fire_def)
qed

text \<open>
  Deletion: \<open>drop\<close> removes exactly the entry of its key and keeps the recency order of
  the others.
\<close>

theorem drop_removes_key:
  assumes "cache_inv c"
  shows "\<exists>c'. drop_key key c = Some c' \<and> cache_inv c' \<and> entries c' = without fst key (entries c)"
  using drop_key_rep assms unfolding cache_inv_def by metis

theorem drop_removes_key_witness:
  "\<exists>c c'. entries c = [(''k'', None, 5)] \<and> drop_key ''k'' c = Some c' \<and> cache_inv c' \<and> entries c' = []"
proof -
  obtain c where c: "cache_inv c" "entries c = [(''k'', None, 5)]" using filled_level by blast
  show ?thesis using drop_removes_key [OF c(1), of "''k''"] c(2) by auto
qed

text \<open>
  A level created with the largest \<open>uint16\<close> capacity cannot store anything: \<open>cap+1\<close>
  wraps to 0, the link slice is empty and the first insertion panics.
\<close>

theorem Create_max_capacity_panics: "put key val expireAt cb (Create 65535) = None"
  by (simp add: put_def put_fresh_def Create_def u16_inc_def set_link_def rd_def Let_def)

end
