(* ===== verification/Cache_Store.thy ===== *)
theory Cache_Store
  imports Cache_Lru
begin

text \<open>
  The sharded two-level store (\<open>src/swifty_cache/lru.go\<close>, type \<open>lruStore\<close>; options from
  \<open>store.go\<close>). A key hashes to a bucket; a bucket is a pair of LRU levels. Writes go to
  level 0, a read promotes the entry to level 1, and a byte budget per bucket is enforced by
  evicting from level 0 first.

  The clock value that \<open>Now()\<close> returns is an argument. Bucket locks are held for the whole of
  each operation, so an operation is one atomic transition. Go's iteration order over a map
  is an argument \<open>ord\<close> of the operations that iterate over one.
\<close>

section \<open>Data\<close>

record StoreOptions =
  so_MaxBytes :: int
  so_BucketCount :: "16 word"
  so_CapPerBucket :: nat
  so_Level2Cap :: nat
  so_CleanupInterval :: int
  so_OnEvicted :: bool

type_synonym bucket = "cache \<times> cache"

record lruStore =
  caches :: "bucket list"
  onEvicted :: bool
  maxBucketBytes :: int
  mask :: "32 word"
  closeCh_closed :: bool

record Entry =
  en_Key :: string
  en_Size :: int
  en_ExpireAt :: int
  en_Level :: nat

definition maxExpireAt :: int where
  "maxExpireAt = 2 ^ 63 - 1"

definition NewStoreOptions :: StoreOptions where
  "NewStoreOptions =
     \<lparr>so_MaxBytes = 8 * 1024 * 1024, so_BucketCount = 16, so_CapPerBucket = 512,
      so_Level2Cap = 256, so_CleanupInterval = 60 * 10 ^ 9, so_OnEvicted = False\<rparr>"

section \<open>Sharding\<close>

definition HashBKRD :: "string \<Rightarrow> 32 word" where
  "HashBKRD s = foldl (\<lambda>hash ch. hash * 131 + word_of_nat (of_char ch)) 0 s"

definition MaskOfNextPowOf2 :: "16 word \<Rightarrow> 16 word" where
  "MaskOfNextPowOf2 capn =
     (if capn > 0 \<and> capn AND (capn - 1) = 0 then capn - 1
      else
        let capn = capn OR drop_bit 1 capn;
            capn = capn OR drop_bit 2 capn;
            capn = capn OR drop_bit 4 capn
        in capn OR drop_bit 8 capn)"

text \<open>\<open>HashBKRD(key) & s.mask\<close> used as a slice index: a negative \<open>int32\<close> panics.\<close>

definition bucketIdx :: "string \<Rightarrow> lruStore \<Rightarrow> nat option" where
  "bucketIdx key s =
     (let w = HashBKRD key AND mask s in if bit w 31 then None else Some (unat w))"

section \<open>Construction\<close>

definition with_defaults :: "StoreOptions \<Rightarrow> StoreOptions" where
  "with_defaults opts =
     (let opts = (if so_BucketCount opts = 0 then opts\<lparr>so_BucketCount := 16\<rparr> else opts);
          opts = (if so_CapPerBucket opts = 0 then opts\<lparr>so_CapPerBucket := 512\<rparr> else opts);
          opts = (if so_Level2Cap opts = 0 then opts\<lparr>so_Level2Cap := 256\<rparr> else opts)
      in if so_CleanupInterval opts \<le> 0
         then opts\<lparr>so_CleanupInterval := 60 * 10 ^ 9\<rparr> else opts)"

definition NewStore :: "StoreOptions \<Rightarrow> lruStore option" where
  "NewStore opts =
     (let opts = with_defaults opts;
          msk = MaskOfNextPowOf2 (so_BucketCount opts);
          buckets = unat (msk + 1)
      in do {
        maxb \<leftarrow> (if so_MaxBytes opts > 0
                 then if buckets = 0 then None
                      else let q = so_MaxBytes opts div int buckets
                           in Some (if q \<le> 0 then 1 else q)
                 else Some 0);
        Some \<lparr>caches = replicate buckets
                 (Create (so_CapPerBucket opts), Create (so_Level2Cap opts)),
              onEvicted = so_OnEvicted opts, maxBucketBytes = maxb,
              mask = ucast msk, closeCh_closed = False\<rparr> })"

section \<open>Bucket operations\<close>

definition node_v :: "nat \<Rightarrow> cache \<Rightarrow> gvalue option" where
  "node_v i c = map_option nv (rd (cm c) i)"

text \<open>The body of \<open>Get\<close> once the bucket is locked; the second component is \<open>(value, found)\<close>.\<close>

definition get_bucket :: "string \<Rightarrow> int \<Rightarrow> bool \<Rightarrow> bucket \<Rightarrow> (bucket \<times> gvalue option \<times> evictions) option" where
  "get_bucket key currentTime cb b = do {
     let (c0, c1) = b;
     (c0, n1, status1, expireAt) \<leftarrow> del key c0;
     if status1 > 0 then do {
       i \<leftarrow> n1;
       v \<leftarrow> node_v i c0;
       c0 \<leftarrow> clear_v i c0;
       if currentTime \<ge> expireAt then do {
         c1 \<leftarrow> drop_key key c1;
         Some ((c0, c1), None, fire cb key v)
       } else do {
         (c1, _, evs) \<leftarrow> put key v expireAt cb c1;
         Some ((c0, c1), Some v, evs)
       }
     } else do {
       (n2, idx2) \<leftarrow> peek key c1;
       (case n2 of
          None \<Rightarrow> Some ((c0, c1), None, [])
        | Some nd \<Rightarrow>
            if nexpireAt nd > 0 then
              if currentTime \<ge> nexpireAt nd then do {
                let v = nv nd;
                c1 \<leftarrow> drop_key key c1;
                Some ((c0, c1), None, fire cb key v)
              } else do {
                c1 \<leftarrow> adjust idx2 P N c1;
                Some ((c0, c1), Some (nv nd), [])
              }
            else Some ((c0, c1), None, []))
     } }"

definition evictFromBucket :: "bool \<Rightarrow> bucket \<Rightarrow> (bucket \<times> bool \<times> evictions) option" where
  "evictFromBucket cb b = do {
     let (c0, c1) = b;
     (c0, ok, evs) \<leftarrow> evictOldest cb c0;
     if ok then Some ((c0, c1), True, evs)
     else do {
       (c1, ok, evs') \<leftarrow> evictOldest cb c1;
       Some ((c0, c1), ok, evs @ evs') } }"

definition bucket_bytes :: "bucket \<Rightarrow> int" where
  "bucket_bytes b = cbytes (fst b) + cbytes (snd b)"

text \<open>
  The loop \<open>for bytes > max { if !evict() { break } }\<close>, for any eviction step; the fuel bounds
  the number of iterations.
\<close>

fun drain ::
  "('s \<Rightarrow> ('s \<times> bool \<times> 'e list) option) \<Rightarrow> ('s \<Rightarrow> int) \<Rightarrow> nat \<Rightarrow> int \<Rightarrow> 's \<Rightarrow> ('s \<times> 'e list) option" where
  "drain step size_of 0 maxb s = None"
| "drain step size_of (Suc fuel) maxb s =
     (if size_of s > maxb
      then do {
        (s, ok, evs) \<leftarrow> step s;
        if ok then do { (s, evs') \<leftarrow> drain step size_of fuel maxb s; Some (s, evs @ evs') }
        else Some (s, evs) }
      else Some (s, []))"

definition evict_loop :: "nat \<Rightarrow> int \<Rightarrow> bool \<Rightarrow> bucket \<Rightarrow> (bucket \<times> evictions) option" where
  "evict_loop fuel maxb cb b = drain (evictFromBucket cb) bucket_bytes fuel maxb b"

definition set_bucket ::
  "string \<Rightarrow> gvalue \<Rightarrow> int \<Rightarrow> int \<Rightarrow> bool \<Rightarrow> bucket \<Rightarrow> (bucket \<times> evictions) option" where
  "set_bucket key value expireAt maxb cb b = do {
     let (c0, c1) = b;
     (c0, _, evs) \<leftarrow> put key value expireAt cb c0;
     c1 \<leftarrow> drop_key key c1;
     if maxb > 0 then do {
       (b, evs') \<leftarrow> evict_loop (length (cm c0) + length (cm c1) + 1) maxb cb (c0, c1);
       Some (b, evs @ evs')
     } else Some ((c0, c1), evs) }"

definition delete_bucket :: "string \<Rightarrow> bool \<Rightarrow> bucket \<Rightarrow> (bucket \<times> bool \<times> evictions) option" where
  "delete_bucket key cb b = do {
     let (c0, c1) = b;
     (c0, n1, s1, _) \<leftarrow> del key c0;
     (c1, n2, s2, _) \<leftarrow> del key c1;
     v1 \<leftarrow> (case n1 of None \<Rightarrow> Some None | Some i \<Rightarrow> node_v i c0);
     v2 \<leftarrow> (case n2 of None \<Rightarrow> Some None | Some i \<Rightarrow> node_v i c1);
     let deleted = (s1 > 0 \<or> s2 > 0);
     let evs = (if deleted \<and> cb
                then if n1 \<noteq> None \<and> v1 \<noteq> None then [(key, v1)]
                     else if n2 \<noteq> None \<and> v2 \<noteq> None then [(key, v2)] else []
                else []);
     c0 \<leftarrow> (case n1 of None \<Rightarrow> Some c0 | Some i \<Rightarrow> clear_v i c0);
     c1 \<leftarrow> (case n2 of None \<Rightarrow> Some c1 | Some i \<Rightarrow> clear_v i c1);
     Some ((c0, c1), deleted, evs) }"

text \<open>A \<open>map[string]struct{}\<close> used as a set of keys.\<close>

definition add_key :: "string \<Rightarrow> string list \<Rightarrow> string list" where
  "add_key k ks = (if k \<in> set ks then ks else ks @ [k])"

definition bucket_keys :: "(int \<Rightarrow> bool) \<Rightarrow> bucket \<Rightarrow> string list option" where
  "bucket_keys sel_exp b = do {
     let walker = (\<lambda>ks key (value :: gvalue) expireAt.
           (if sel_exp expireAt then add_key key ks else ks, True));
     ks \<leftarrow> walk walker [] (fst b);
     walk walker ks (snd b) }"

fun delete_keys :: "string list \<Rightarrow> bool \<Rightarrow> bucket \<Rightarrow> (bucket \<times> evictions) option" where
  "delete_keys [] cb b = Some (b, [])"
| "delete_keys (k # ks) cb b = do {
     (b, _, evs) \<leftarrow> delete_bucket k cb b;
     (b, evs') \<leftarrow> delete_keys ks cb b;
     Some (b, evs @ evs') }"

definition clear_bucket :: "(string list \<Rightarrow> string list) \<Rightarrow> bool \<Rightarrow> bucket \<Rightarrow> (bucket \<times> evictions) option" where
  "clear_bucket ord cb b = do {
     ks \<leftarrow> bucket_keys (\<lambda>_. True) b;
     delete_keys (ord ks) cb b }"

definition expire_bucket ::
  "(string list \<Rightarrow> string list) \<Rightarrow> int \<Rightarrow> bool \<Rightarrow> bucket \<Rightarrow> (bucket \<times> evictions) option" where
  "expire_bucket ord currentTime cb b = do {
     ks \<leftarrow> bucket_keys (\<lambda>expireAt. currentTime \<ge> expireAt) b;
     delete_keys (ord ks) cb b }"

section \<open>Store operations\<close>

definition Get :: "string \<Rightarrow> int \<Rightarrow> lruStore \<Rightarrow> (lruStore \<times> gvalue option \<times> evictions) option" where
  "Get key now s = do {
     idx \<leftarrow> bucketIdx key s;
     b \<leftarrow> rd (caches s) idx;
     (b, r, evs) \<leftarrow> get_bucket key now (onEvicted s) b;
     cs \<leftarrow> wr (caches s) idx b;
     Some (s\<lparr>caches := cs\<rparr>, r, evs) }"

definition SetWithExpiration ::
  "string \<Rightarrow> gvalue \<Rightarrow> int \<Rightarrow> int \<Rightarrow> lruStore \<Rightarrow> (lruStore \<times> evictions) option" where
  "SetWithExpiration key value expiration now s = do {
     let expireAt = (if expiration > 0 then wrap64 (now + expiration) else maxExpireAt);
     idx \<leftarrow> bucketIdx key s;
     b \<leftarrow> rd (caches s) idx;
     (b, evs) \<leftarrow> set_bucket key value expireAt (maxBucketBytes s) (onEvicted s) b;
     cs \<leftarrow> wr (caches s) idx b;
     Some (s\<lparr>caches := cs\<rparr>, evs) }"

definition Set :: "string \<Rightarrow> gvalue \<Rightarrow> int \<Rightarrow> lruStore \<Rightarrow> (lruStore \<times> evictions) option" where
  "Set key value now s = SetWithExpiration key value 0 now s"

definition Delete :: "string \<Rightarrow> lruStore \<Rightarrow> (lruStore \<times> bool \<times> evictions) option" where
  "Delete key s = do {
     idx \<leftarrow> bucketIdx key s;
     b \<leftarrow> rd (caches s) idx;
     (b, d, evs) \<leftarrow> delete_bucket key (onEvicted s) b;
     cs \<leftarrow> wr (caches s) idx b;
     Some (s\<lparr>caches := cs\<rparr>, d, evs) }"

text \<open>A loop over all buckets, each under its own lock.\<close>

fun each_bucket :: "(bucket \<Rightarrow> (bucket \<times> evictions) option) \<Rightarrow> bucket list \<Rightarrow> (bucket list \<times> evictions) option" where
  "each_bucket f [] = Some ([], [])"
| "each_bucket f (b # bs) = do {
     (b, evs) \<leftarrow> f b;
     (bs, evs') \<leftarrow> each_bucket f bs;
     Some (b # bs, evs @ evs') }"

definition Clear :: "(string list \<Rightarrow> string list) \<Rightarrow> lruStore \<Rightarrow> (lruStore \<times> evictions) option" where
  "Clear ord s = do {
     (cs, evs) \<leftarrow> each_bucket (clear_bucket ord (onEvicted s)) (caches s);
     Some (s\<lparr>caches := cs\<rparr>, evs) }"

text \<open>One tick of \<open>cleanupLoop\<close>.\<close>

definition cleanup_tick ::
  "(string list \<Rightarrow> string list) \<Rightarrow> int \<Rightarrow> lruStore \<Rightarrow> (lruStore \<times> evictions) option" where
  "cleanup_tick ord now s = do {
     (cs, evs) \<leftarrow> each_bucket (expire_bucket ord now (onEvicted s)) (caches s);
     Some (s\<lparr>caches := cs\<rparr>, evs) }"

fun sum_buckets :: "(bucket \<Rightarrow> int option) \<Rightarrow> bucket list \<Rightarrow> int option" where
  "sum_buckets f [] = Some 0"
| "sum_buckets f (b # bs) = do { x \<leftarrow> f b; y \<leftarrow> sum_buckets f bs; Some (x + y) }"

definition Len :: "lruStore \<Rightarrow> int option" where
  "Len s = sum_buckets (\<lambda>b. map_option (\<lambda>ks. int (length ks)) (bucket_keys (\<lambda>_. True) b)) (caches s)"

definition Bytes :: "lruStore \<Rightarrow> int option" where
  "Bytes s = sum_buckets (\<lambda>b. Some (cbytes (fst b) + cbytes (snd b))) (caches s)"

definition Evictions :: "lruStore \<Rightarrow> int option" where
  "Evictions s = sum_buckets (\<lambda>b. Some (nevict (fst b) + nevict (snd b))) (caches s)"

text \<open>
  \<open>Walk\<close> on one bucket: level 1 first, then the keys of level 0 not seen there. The callback
  state is an option because \<open>value.Len()\<close> panics on a nil value. A callback that returns
  false ends the walk of the current level only.
\<close>

definition walk_bucket ::
  "('s \<Rightarrow> Entry \<Rightarrow> 's \<times> bool) \<Rightarrow> 's \<Rightarrow> bucket \<Rightarrow> 's option" where
  "walk_bucket fn s b = do {
     (seen, s) \<leftarrow> walk (\<lambda>(seen, s) key value expireAt.
         (case (value, s) of
            (Some v, Some s) \<Rightarrow>
              (case fn s \<lparr>en_Key = key, en_Size = bv_Len v, en_ExpireAt = expireAt, en_Level = 1\<rparr> of
                 (s, go) \<Rightarrow> ((add_key key seen, Some s), go))
          | _ \<Rightarrow> ((add_key key seen, None), False))) ([], Some s) (snd b);
     s \<leftarrow> walk (\<lambda>s key value expireAt.
         if key \<in> set seen then (s, True)
         else (case (value, s) of
            (Some v, Some s) \<Rightarrow>
              (case fn s \<lparr>en_Key = key, en_Size = bv_Len v, en_ExpireAt = expireAt, en_Level = 0\<rparr> of
                 (s, go) \<Rightarrow> (Some s, go))
          | _ \<Rightarrow> (None, False))) s (fst b);
     s }"

fun walk_buckets ::
  "('s \<Rightarrow> Entry \<Rightarrow> 's \<times> bool) \<Rightarrow> 's \<Rightarrow> bucket list \<Rightarrow> 's option" where
  "walk_buckets fn s [] = Some s"
| "walk_buckets fn s (b # bs) = do { s \<leftarrow> walk_bucket fn s b; walk_buckets fn s bs }"

definition Walk :: "('s \<Rightarrow> Entry \<Rightarrow> 's \<times> bool) \<Rightarrow> 's \<Rightarrow> lruStore \<Rightarrow> 's option" where
  "Walk fn st s = walk_buckets fn st (caches s)"

text \<open>\<open>closeOnce\<close> makes a second \<open>Close\<close> a no-op.\<close>

definition Close :: "lruStore \<Rightarrow> lruStore" where
  "Close s = (if closeCh_closed s then s else s\<lparr>closeCh_closed := True\<rparr>)"

section \<open>Levels\<close>

definition level :: "cache \<Rightarrow> bool" where
  "level c \<longleftrightarrow> cache_inv c \<and> 0 < length (cm c)"

lemma level_rep: "level c \<Longrightarrow> \<exists>xs. cache_rep c xs"
  by (simp add: level_def cache_inv_def)

lemma level_I: "cache_rep c xs \<Longrightarrow> length (cm c) = n \<Longrightarrow> 0 < n \<Longrightarrow> level c"
  by (auto simp: level_def cache_inv_def)

lemma level_distinct: "level c \<Longrightarrow> distinct (map fst (entries c))"
  using level_rep entries_distinct by blast

lemma level_bytes: "level c \<Longrightarrow> cbytes c = (\<Sum>(k, v, e) \<leftarrow> entries c. entryBytes k v)"
  using level_rep cbytes_entries by blast

lemma level_put:
  assumes "level c" and "0 < e"
  shows "\<exists>c' r. put key val e cb c =
      Some (c', r, fire_all cb (lru_victim (length (cm c)) (key, val, e) (entries c)))
    \<and> level c' \<and> length (cm c') = length (cm c)
    \<and> entries c' = lru_put (length (cm c)) (key, val, e) (entries c)"
proof -
  obtain xs where "cache_rep c xs" using assms(1) level_rep by blast
  from put_rep [OF this assms(2), of key val cb] show ?thesis
    using assms(1) by (auto simp: level_def cache_inv_def)
qed

lemma level_drop:
  assumes "level c"
  shows "\<exists>c'. drop_key key c = Some c' \<and> level c' \<and> length (cm c') = length (cm c)
    \<and> entries c' = without fst key (entries c)"
  using drop_key_rep assms unfolding level_def cache_inv_def by metis

lemma level_evict:
  assumes "level c"
  shows "\<exists>c'. evictOldest cb c =
      Some (c', entries c \<noteq> [], fire_all cb (if entries c = [] then [] else [last (entries c)]))
    \<and> level c' \<and> length (cm c') = length (cm c) \<and> entries c' = butlast (entries c)"
  using evictOldest_rep assms unfolding level_def cache_inv_def by metis

lemma level_del_absent:
  "level c \<Longrightarrow> lookup_by fst key (entries c) = None \<Longrightarrow> del key c = Some (c, None, 0, 0)"
  using del_absent level_rep by blast

text \<open>Deletion of a live key followed by reading and clearing the value through the pointer.\<close>

lemma level_take:
  assumes "level c" and "lookup_by fst key (entries c) = Some (k, v, e)"
  shows "\<exists>c1 i c2. del key c = Some (c1, Some i, 1, e) \<and> node_v i c1 = Some v \<and> clear_v i c1 = Some c2
    \<and> level c2 \<and> length (cm c2) = length (cm c) \<and> entries c2 = without fst key (entries c)"
proof -
  obtain xs where rep: "cache_rep c xs" using assms(1) level_rep by blast
  obtain c1 i ys where c1: "del key c = Some (c1, Some i, 1, e)" "cache_rep c1 (ys @ [Suc i])"
    "length (cm c1) = length (cm c)" "i < length (cm c)" "cm c1 ! i = \<lparr>nk = key, nv = v, nexpireAt = 0\<rparr>"
    "entries c1 = without fst key (entries c)"
    using del_present [OF rep assms(2)] by blast
  obtain c2 where c2: "clear_v i c1 = Some c2" "cache_rep c2 (ys @ [Suc i])" "entries c2 = entries c1"
      "length (cm c2) = length (cm c1)"
    using clear_v_rep [OF c1(2), of i] c1(5) by (auto simp: nlive_def)
  have "node_v i c1 = Some v" using c1(3-5) by (simp add: node_v_def go_simps)
  then show ?thesis using c1 c2 assms(1) by (auto simp: level_def cache_inv_def)
qed

lemma touch_rep:
  assumes rep: "cache_rep c (as @ x # bs)" and live: "nlive (slot c x)"
  shows "\<exists>c'. adjust x P N c = Some c' \<and> cache_rep c' (x # as @ bs) \<and> cm c' = cm c"
proof -
  obtain dl where dl: "adjust x P N c = Some (c\<lparr>doubleLink := dl\<rparr>)"
    "links_ok (c\<lparr>doubleLink := dl\<rparr>) (x # as @ bs)"
    using adjust_front [of c as x bs] rep by (auto simp: cache_rep_def)
  have sl: "slot (c\<lparr>doubleLink := dl\<rparr>) = slot c" by (rule slot_cong) simp
  have "cache_rep (c\<lparr>doubleLink := dl\<rparr>) (x # as @ bs)"
    using rep dl(2) live live_first_remove [of "map (slot c) as" "slot c x" "map (slot c) bs"]
    by (auto simp: cache_rep_def index_ok_def sl)
  then show ?thesis using dl(1) by simp
qed

lemma level_peek:
  assumes lv: "level c"
  shows "case lookup_by fst key (entries c) of
      None \<Rightarrow> (\<exists>n2 i. peek key c = Some (n2, i) \<and> (case n2 of None \<Rightarrow> True | Some nd \<Rightarrow> \<not> nexpireAt nd > 0))
    | Some (k, v, e) \<Rightarrow> 0 < e \<and> (\<exists>nd i c'. peek key c = Some (Some nd, i) \<and> nexpireAt nd = e \<and> nv nd = v
        \<and> adjust i P N c = Some c' \<and> level c' \<and> length (cm c') = length (cm c)
        \<and> entries c' = (key, v, e) # without fst key (entries c))"
proof -
  obtain xs where rep: "cache_rep c xs" using lv level_rep by blast
  have lo: "links_ok c xs" using rep by (simp add: cache_rep_def)
  have es: "entries c = map ent (filter nlive (map (slot c) xs))" by (rule entries_rep [OF lo])
  show ?thesis
  proof (cases "gm_get (hashMap c) key")
    case None
    then have "lookup_by fst key (entries c) = None"
      using index_absent [of c xs key] rep entries_keys [OF lo] by (auto simp: lookup_by_None_iff cache_rep_def)
    then show ?thesis using None by (simp add: peek_def)
  next
    case (Some idx)
    obtain as bs where xs: "xs = as @ idx # bs" and k: "nk (slot c idx) = key"
      and i: "0 < idx" "idx \<le> length (cm c)" "idx < 65536" using key_split [OF rep Some] by metis
    have pk: "peek key c = Some (Some (slot c idx), idx)" using Some i by (simp add: peek_def go_simps)
    have dk: "distinct (map nk (map (slot c) as @ slot c idx # map (slot c) bs))"
      using index_keys [of c xs] rep by (simp add: cache_rep_def links_ok_def xs)
    show ?thesis
    proof (cases "nlive (slot c idx)")
      case False
      have "key \<notin> fst ` set (entries c)" using False dk k by (auto simp: es xs image_iff)
      then have "lookup_by fst key (entries c) = None" by (simp only: lookup_by_None_iff not_False_eq_True)
      then show ?thesis using pk False by (simp add: nlive_def)
    next
      case True
      have "lookup_by fst key (entries c) = Some (ent (slot c idx))"
        using entries_distinct [OF rep] True k by (subst lookup_by_Some_iff) (auto simp: es xs)
      moreover obtain c' where c': "adjust idx P N c = Some c'" "cache_rep c' (idx # as @ bs)" "cm c' = cm c"
        using touch_rep [OF rep [unfolded xs] True] by blast
      have "slot c' = slot c" by (rule slot_cong) (fact c'(3))
      then have "entries c' = ent (slot c idx) # map ent (filter nlive (map (slot c) as @ map (slot c) bs))"
        using entries_of [OF c'(2), of "slot c idx # map (slot c) as @ map (slot c) bs"] True by simp
      then have "entries c' = ent (slot c idx) # without fst key (entries c)"
        using live_without [OF dk] k by (simp add: es xs)
      moreover have "level c'" using c' lv by (auto simp: level_def cache_inv_def)
      ultimately show ?thesis using pk c' True k by (simp add: ent_def nlive_def)
    qed
  qed
qed

section \<open>Draining: the byte budget\<close>

text \<open>
  The interface of an eviction step: it fails to evict exactly when nothing is left, and it
  lowers the number of entries otherwise. Under this contract the loop ends within the fuel
  given to it and leaves the size within the budget.
\<close>

locale evictable =
  fixes step :: "'s \<Rightarrow> ('s \<times> bool \<times> 'e list) option"
    and invar :: "'s \<Rightarrow> bool"
    and size_of :: "'s \<Rightarrow> int"
    and count :: "'s \<Rightarrow> nat"
  assumes step_ok: "invar s \<Longrightarrow> 0 < count s \<Longrightarrow>
      \<exists>s' evs. step s = Some (s', True, evs) \<and> invar s' \<and> count s' < count s"
    and empty_size: "invar s \<Longrightarrow> count s = 0 \<Longrightarrow> size_of s = 0"
begin

lemma drain_fits:
  assumes "invar s" and "count s < fuel" and "0 \<le> maxb"
  shows "\<exists>s' evs. drain step size_of fuel maxb s = Some (s', evs) \<and> invar s' \<and> size_of s' \<le> maxb"
  using assms
proof (induction fuel arbitrary: s)
  case 0
  then show ?case by simp
next
  case (Suc fuel)
  show ?case
  proof (cases "size_of s > maxb")
    case False
    then show ?thesis using Suc.prems by simp
  next
    case True
    then have "0 < count s" using Suc.prems empty_size [of s] by (cases "count s") auto
    then obtain s1 evs where s1: "step s = Some (s1, True, evs)" "invar s1" "count s1 < count s"
      using step_ok Suc.prems(1) by blast
    then show ?thesis using Suc.IH [of s1] Suc.prems True by fastforce
  qed
qed

text \<open>A relation that every step of the loop keeps holds between start and result.\<close>

lemma drain_rel:
  assumes "drain step size_of fuel maxb s = Some (s', evs)"
    and "invar s" and "0 \<le> maxb"
    and refl: "\<And>s. invar s \<Longrightarrow> R s s"
    and trans: "\<And>s s1 s' evs. invar s \<Longrightarrow> size_of s > maxb \<Longrightarrow> step s = Some (s1, True, evs) \<Longrightarrow> R s1 s' \<Longrightarrow> R s s'"
  shows "R s s'"
  using assms(1,2)
proof (induction fuel arbitrary: s evs)
  case 0
  then show ?case by simp
next
  case (Suc fuel)
  show ?case
  proof (cases "size_of s > maxb")
    case False
    then show ?thesis using Suc.prems refl by simp
  next
    case True
    then have "0 < count s" using Suc.prems(2) \<open>0 \<le> maxb\<close> empty_size [of s] by (cases "count s") auto
    then obtain s1 e1 where s1: "step s = Some (s1, True, e1)" "invar s1"
      using step_ok Suc.prems(2) by blast
    with Suc.prems(1) True obtain e2 where "drain step size_of fuel maxb s1 = Some (s', e2)"
      by (auto split: bind_splits)
    then show ?thesis using Suc.IH s1 trans [OF Suc.prems(2) True s1(1)] by blast
  qed
qed

end

section \<open>Buckets\<close>

definition keys_of :: "entry list \<Rightarrow> string set" where
  "keys_of es = fst ` set es"

lemma keys_of_simps [simp]:
  "keys_of [] = {}" "keys_of (x # es) = insert (fst x) (keys_of es)"
  "keys_of (es @ es') = keys_of es \<union> keys_of es'"
  "keys_of (without fst k es) = keys_of es - {k}"
  by (auto simp: keys_of_def image_iff)

lemma lookup_keys: "lookup_by fst k es = None \<longleftrightarrow> k \<notin> keys_of es"
  by (simp add: keys_of_def lookup_by_None_iff)

lemma keys_of_mem: "(k, v, e) \<in> set es \<Longrightarrow> k \<in> keys_of es"
  by (force simp: keys_of_def)

definition esize :: "entry list \<Rightarrow> int" where
  "esize es = (\<Sum>(k, v, e) \<leftarrow> es. entryBytes k v)"

definition l0 :: "bucket \<Rightarrow> entry list" where
  "l0 b = entries (fst b)"

definition l1 :: "bucket \<Rightarrow> entry list" where
  "l1 b = entries (snd b)"

text \<open>A key is live in at most one of the two levels.\<close>

definition bucket_inv :: "bucket \<Rightarrow> bool" where
  "bucket_inv b \<longleftrightarrow> level (fst b) \<and> level (snd b) \<and> keys_of (l0 b) \<inter> keys_of (l1 b) = {}"

definition same_caps :: "bucket \<Rightarrow> bucket \<Rightarrow> bool" where
  "same_caps b b' \<longleftrightarrow> length (cm (fst b')) = length (cm (fst b)) \<and> length (cm (snd b')) = length (cm (snd b))"

lemma esize_simps [simp]:
  "esize [] = 0" "esize (x # xs) = entryBytes (fst x) (fst (snd x)) + esize xs"
  "esize (xs @ ys) = esize xs + esize ys"
  by (auto simp: esize_def split_beta)

lemma entryBytes_nonneg [simp]: "0 \<le> entryBytes k v"
  by (simp add: entryBytes_def bv_Len_def split: option.split)

lemma esize_nonneg [simp]: "0 \<le> esize es"
  by (induction es) auto

lemma bucket_bytes_eq: "bucket_inv b \<Longrightarrow> bucket_bytes b = esize (l0 b) + esize (l1 b)"
  by (simp add: bucket_inv_def bucket_bytes_def level_bytes esize_def l0_def l1_def)

lemma keys_butlast: "keys_of (butlast es) \<subseteq> keys_of es"
  by (auto simp: keys_of_def dest: in_set_butlastD)

lemma evictFromBucket_spec:
  assumes "bucket_inv b"
  shows "\<exists>b' evs. evictFromBucket cb b = Some (b', l0 b \<noteq> [] \<or> l1 b \<noteq> [], evs) \<and> bucket_inv b' \<and> same_caps b b'
    \<and> l0 b' = butlast (l0 b) \<and> l1 b' = (if l0 b = [] then butlast (l1 b) else l1 b)"
proof -
  obtain c0 c1 where b: "b = (c0, c1)" by (cases b)
  obtain d0 where d0: "evictOldest cb c0 =
      Some (d0, entries c0 \<noteq> [], fire_all cb (if entries c0 = [] then [] else [last (entries c0)]))"
    "level d0" "length (cm d0) = length (cm c0)" "entries d0 = butlast (entries c0)"
    using level_evict [of c0 cb] assms by (auto simp: bucket_inv_def b)
  obtain d1 where d1: "evictOldest cb c1 =
      Some (d1, entries c1 \<noteq> [], fire_all cb (if entries c1 = [] then [] else [last (entries c1)]))"
    "level d1" "length (cm d1) = length (cm c1)" "entries d1 = butlast (entries c1)"
    using level_evict [of c1 cb] assms by (auto simp: bucket_inv_def b)
  have dj: "keys_of (entries c0) \<inter> keys_of (entries c1) = {}" "level c1"
    using assms by (simp_all add: bucket_inv_def l0_def l1_def b)
  show ?thesis
  proof (cases "entries c0 = []")
    case True
    have "evictFromBucket cb b = Some ((d0, d1), entries c1 \<noteq> [],
        fire_all cb (if entries c1 = [] then [] else [last (entries c1)]))"
      using d0(1) d1(1) True by (simp add: evictFromBucket_def b fire_all_def)
    then show ?thesis using True d0 d1
      by (intro exI [of _ "(d0, d1)"]) (simp add: bucket_inv_def same_caps_def l0_def l1_def b)
  next
    case False
    have "evictFromBucket cb b = Some ((d0, c1), True, fire_all cb [last (entries c0)])"
      using d0(1) False by (simp add: evictFromBucket_def b)
    moreover have "keys_of (butlast (entries c0)) \<inter> keys_of (entries c1) = {}"
      using dj(1) keys_butlast [of "entries c0"] by blast
    ultimately show ?thesis using False d0 dj(2)
      by (intro exI [of _ "(d0, c1)"]) (simp add: bucket_inv_def same_caps_def l0_def l1_def b)
  qed
qed

definition bucket_count :: "bucket \<Rightarrow> nat" where
  "bucket_count b = length (l0 b) + length (l1 b)"

interpretation bucket: evictable "evictFromBucket cb" bucket_inv bucket_bytes bucket_count for cb
proof
  fix b assume inv: "bucket_inv b" and pos: "0 < bucket_count b"
  obtain b' evs where b': "evictFromBucket cb b = Some (b', l0 b \<noteq> [] \<or> l1 b \<noteq> [], evs)" "bucket_inv b'"
    "l0 b' = butlast (l0 b)" "l1 b' = (if l0 b = [] then butlast (l1 b) else l1 b)"
    using evictFromBucket_spec [OF inv] by blast
  then have "bucket_count b' < bucket_count b" using pos
    by (cases "l0 b = []") (auto simp: bucket_count_def)
  then show "\<exists>b' evs. evictFromBucket cb b = Some (b', True, evs) \<and> bucket_inv b' \<and> bucket_count b' < bucket_count b"
    using b' pos by (auto simp: bucket_count_def)
next
  fix b assume "bucket_inv b" "bucket_count b = 0"
  then show "bucket_bytes b = 0" by (simp add: bucket_bytes_eq bucket_count_def)
qed

text \<open>What the loop leaves: a prefix of each level, and all of level 1 unless level 0 is empty.\<close>

definition trimmed :: "int \<Rightarrow> bucket \<Rightarrow> bucket \<Rightarrow> bool" where
  "trimmed maxb b b' \<longleftrightarrow> same_caps b b' \<and>
     (\<exists>n m. l0 b' = take n (l0 b) \<and> l1 b' = take m (l1 b)) \<and>
     (l0 b' \<noteq> [] \<longrightarrow> l1 b' = l1 b) \<and>
     (\<forall>x es. l0 b = x # es \<longrightarrow> esize [x] + esize (l1 b) \<le> maxb \<longrightarrow> (\<exists>es'. l0 b' = x # es'))"

lemma trimmed_step:
  assumes inv: "bucket_inv b" and big: "bucket_bytes b > maxb"
    and st: "evictFromBucket cb b = Some (b1, True, evs)" and t: "trimmed maxb b1 b'"
  shows "trimmed maxb b b'"
proof -
  have b1: "same_caps b b1" "l0 b1 = butlast (l0 b)" "l1 b1 = (if l0 b = [] then butlast (l1 b) else l1 b)"
    using evictFromBucket_spec [OF inv, of cb] st by auto
  have tk: "\<exists>k. take n (butlast xs) = take k xs" for n and xs :: "entry list"
    by (metis butlast_conv_take take_take)
  have sz: "esize (l0 b) + esize (l1 b) > maxb" using big bucket_bytes_eq [OF inv] by simp
  show ?thesis
    unfolding trimmed_def
  proof (intro conjI allI impI)
    show "same_caps b b'" using b1(1) t by (simp add: trimmed_def same_caps_def)
    obtain n m where nm: "l0 b' = take n (l0 b1)" "l1 b' = take m (l1 b1)" using t by (auto simp: trimmed_def)
    show "\<exists>n m. l0 b' = take n (l0 b) \<and> l1 b' = take m (l1 b)"
      using nm b1 tk by (cases "l0 b = []") auto
    show "l1 b' = l1 b" if "l0 b' \<noteq> []" using that t nm b1 by (auto simp: trimmed_def)
  next
    fix x es assume b: "l0 b = x # es" and fit: "esize [x] + esize (l1 b) \<le> maxb"
    have "es \<noteq> []" using sz fit b by auto
    then have "l0 b1 = x # butlast es" "l1 b1 = l1 b" using b b1 by auto
    then show "\<exists>es'. l0 b' = x # es'" using t fit by (auto simp: trimmed_def)
  qed
qed

lemma trimmed_refl: "trimmed maxb b b"
  by (auto simp: trimmed_def same_caps_def intro: exI [of _ "length (l0 b)"] exI [of _ "length (l1 b)"])

lemma trimmed_keys:
  assumes "trimmed maxb b b'"
  shows "keys_of (l0 b') \<subseteq> keys_of (l0 b)" and "keys_of (l1 b') \<subseteq> keys_of (l1 b)"
proof -
  obtain n m where "l0 b' = take n (l0 b)" "l1 b' = take m (l1 b)" using assms by (auto simp: trimmed_def)
  then show "keys_of (l0 b') \<subseteq> keys_of (l0 b)" and "keys_of (l1 b') \<subseteq> keys_of (l1 b)"
    by (simp_all add: keys_of_def image_mono set_take_subset)
qed

lemma evict_loop_spec:
  assumes "bucket_inv b" and "0 \<le> maxb" and "bucket_count b < fuel"
  shows "\<exists>b' evs. evict_loop fuel maxb cb b = Some (b', evs) \<and> bucket_inv b' \<and>
    bucket_bytes b' \<le> maxb \<and> trimmed maxb b b'"
proof -
  obtain b' evs where b': "drain (evictFromBucket cb) bucket_bytes fuel maxb b = Some (b', evs)"
    "bucket_inv b'" "bucket_bytes b' \<le> maxb"
    using bucket.drain_fits [OF assms(1,3,2)] by blast
  moreover have "trimmed maxb b b'"
    by (rule bucket.drain_rel [OF b'(1) assms(1,2)]) (auto intro: trimmed_refl trimmed_step)
  ultimately show ?thesis by (simp add: evict_loop_def)
qed

subsection \<open>Lookup, promotion, writes and deletion in a bucket\<close>

definition bucket_lookup :: "string \<Rightarrow> bucket \<Rightarrow> entry option" where
  "bucket_lookup key b =
     (case lookup_by fst key (l0 b) of Some x \<Rightarrow> Some x | None \<Rightarrow> lookup_by fst key (l1 b))"

text \<open>What a read leaves of the two levels.\<close>

definition promote :: "nat \<Rightarrow> string \<Rightarrow> int \<Rightarrow> entry list \<times> entry list \<Rightarrow> entry list \<times> entry list" where
  "promote cap1 key now ls = (case ls of (es0, es1) \<Rightarrow>
     (case lookup_by fst key es0 of
        Some (k, v, e) \<Rightarrow>
          if now \<ge> e then (without fst key es0, without fst key es1)
          else (without fst key es0, lru_put cap1 (key, v, e) es1)
      | None \<Rightarrow>
          (case lookup_by fst key es1 of
             Some (k, v, e) \<Rightarrow>
               if now \<ge> e then (es0, without fst key es1) else (es0, (key, v, e) # without fst key es1)
           | None \<Rightarrow> (es0, es1))))"

lemma keys_lru_put: "keys_of (lru_put n x es) \<subseteq> insert (fst x) (keys_of es)"
  using keys_butlast [of es] by (auto simp: lru_put_def)

lemma lookup_absent: "lookup_by fst key es = None \<Longrightarrow> without fst key es = es"
  by (simp add: lookup_by_None_iff without_absent)

lemma lookup_Some_key: "lookup_by fst key es = Some (k, v, e) \<Longrightarrow> k = key \<and> key \<in> keys_of es \<and> (k, v, e) \<in> set es"
  using lookup_by_SomeD [of fst key es "(k, v, e)"] keys_of_mem by auto

lemma entries_live: "level c \<Longrightarrow> (k, v, e) \<in> set (entries c) \<Longrightarrow> 0 < e"
proof -
  assume "level c" "(k, v, e) \<in> set (entries c)"
  then show "0 < e" using entries_rep level_rep [of c]
    by (auto simp: cache_rep_def ent_def nlive_def)
qed

lemma get_bucket_spec:
  assumes inv: "bucket_inv b"
  shows "\<exists>b' evs. get_bucket key now cb b = Some (b',
      (case bucket_lookup key b of Some (k, v, e) \<Rightarrow> if now < e then Some v else None | None \<Rightarrow> None), evs)
    \<and> bucket_inv b' \<and> same_caps b b' \<and>
    (l0 b', l1 b') = promote (length (cm (snd b))) key now (l0 b, l1 b)"
proof -
  obtain c0 c1 where b: "b = (c0, c1)" by (cases b)
  have lv: "level c0" "level c1" and dj: "keys_of (entries c0) \<inter> keys_of (entries c1) = {}"
    using inv by (auto simp: bucket_inv_def l0_def l1_def b)
  show ?thesis
  proof (cases "lookup_by fst key (entries c0)")
    case (Some x)
    obtain k v e where x: "x = (k, v, e)" by (cases x)
    have kx: "key \<in> keys_of (entries c0)" "k = key" "0 < e"
      using lookup_Some_key [OF Some [unfolded x]] entries_live [OF lv(1), of k v e] by auto
    obtain d0 i d where d: "del key c0 = Some (d0, Some i, 1, e)" "node_v i d0 = Some v"
      "clear_v i d0 = Some d" "level d" "length (cm d) = length (cm c0)"
      "entries d = without fst key (entries c0)"
      using level_take [OF lv(1) Some [unfolded x]] by blast
    show ?thesis
    proof (cases "now \<ge> e")
      case True
      obtain d1 where d1: "drop_key key c1 = Some d1" "level d1" "length (cm d1) = length (cm c1)"
        "entries d1 = without fst key (entries c1)" using level_drop [OF lv(2), of key] by blast
      have "get_bucket key now cb b = Some ((d, d1), None, fire cb key v)"
        using d d1 True by (simp add: get_bucket_def b)
      then show ?thesis using d d1 True Some dj
        by (intro exI [of _ "(d, d1)"])
           (auto simp: bucket_lookup_def bucket_inv_def same_caps_def promote_def l0_def l1_def b x)
    next
      case False
      obtain d1 r where d1: "put key v e cb c1 = Some (d1, r, fire_all cb (lru_victim (length (cm c1)) (key, v, e) (entries c1)))"
        "level d1" "length (cm d1) = length (cm c1)" "entries d1 = lru_put (length (cm c1)) (key, v, e) (entries c1)"
        using level_put [OF lv(2) kx(3), of key v cb] by blast
      have "get_bucket key now cb b = Some ((d, d1), Some v, fire_all cb (lru_victim (length (cm c1)) (key, v, e) (entries c1)))"
        using d d1 False by (simp add: get_bucket_def b)
      moreover have "keys_of (entries d) \<inter> keys_of (entries d1) = {}"
        using keys_lru_put [of "length (cm c1)" "(key, v, e)" "entries c1"] dj d(6) d1(4)
        by (auto simp:)
      ultimately show ?thesis using d d1 False Some
        by (intro exI [of _ "(d, d1)"])
           (auto simp: bucket_lookup_def bucket_inv_def same_caps_def promote_def l0_def l1_def b x)
    qed
  next
    case None
    have del: "del key c0 = Some (c0, None, 0, 0)" by (rule level_del_absent [OF lv(1) None])
    show ?thesis
    proof (cases "lookup_by fst key (entries c1)")
      case None1: None
      then obtain n2 i where "peek key c1 = Some (n2, i)" "case n2 of None \<Rightarrow> True | Some nd \<Rightarrow> \<not> nexpireAt nd > 0"
        using level_peek [OF lv(2), of key] by auto
      then have "get_bucket key now cb b = Some ((c0, c1), None, [])"
        using del by (auto simp: get_bucket_def b split: option.splits)
      then show ?thesis using None None1 inv
        by (intro exI [of _ b]) (auto simp: bucket_lookup_def same_caps_def promote_def l0_def l1_def b)
    next
      case (Some x)
      obtain k v e where x: "x = (k, v, e)" by (cases x)
      obtain nd i d where d: "peek key c1 = Some (Some nd, i)" "nexpireAt nd = e" "nv nd = v" "0 < e"
        "adjust i P N c1 = Some d" "level d" "length (cm d) = length (cm c1)"
        "entries d = (key, v, e) # without fst key (entries c1)"
        using level_peek [OF lv(2), of key] by (auto simp: Some x)
      have ky: "key \<notin> keys_of (entries c0)" using None by (simp add: lookup_keys)
      show ?thesis
      proof (cases "now \<ge> e")
        case True
        obtain d1 where d1: "drop_key key c1 = Some d1" "level d1" "length (cm d1) = length (cm c1)"
          "entries d1 = without fst key (entries c1)" using level_drop [OF lv(2), of key] by blast
        have "get_bucket key now cb b = Some ((c0, d1), None, fire cb key v)"
          using d d1 del True by (simp add: get_bucket_def b)
        then show ?thesis using d1 True Some None lv dj
          by (intro exI [of _ "(c0, d1)"])
             (auto simp: bucket_lookup_def bucket_inv_def same_caps_def promote_def l0_def l1_def b x)
      next
        case False
        have "get_bucket key now cb b = Some ((c0, d), Some v, [])"
          using d del False by (simp add: get_bucket_def b)
        moreover have "keys_of (entries c0) \<inter> keys_of (entries d) = {}"
          using dj ky by (auto simp: d(8))
        ultimately show ?thesis using d False Some None lv
          by (intro exI [of _ "(c0, d)"])
             (auto simp: bucket_lookup_def bucket_inv_def same_caps_def promote_def l0_def l1_def b x)
      qed
    qed
  qed
qed

lemma length_entries: "level c \<Longrightarrow> length (entries c) \<le> length (cm c)"
  using level_rep entries_length_le by blast

lemma set_bucket_spec:
  fixes key :: string and v :: gvalue
  assumes inv: "bucket_inv b" and e: "0 < e" and maxb: "0 \<le> maxb"
  defines "es0 \<equiv> lru_put (length (cm (fst b))) (key, v, e) (l0 b)" and "es1 \<equiv> without fst key (l1 b)"
  shows "\<exists>b' evs. set_bucket key v e maxb cb b = Some (b', evs) \<and> bucket_inv b' \<and> same_caps b b'
    \<and> (0 < maxb \<longrightarrow> bucket_bytes b' \<le> maxb)
    \<and> (\<exists>n m. l0 b' = take n es0 \<and> l1 b' = take m es1)
    \<and> (0 < maxb \<and> entryBytes key v + esize es1 > maxb \<longrightarrow> l0 b' = [])
    \<and> (maxb = 0 \<longrightarrow> l0 b' = es0 \<and> l1 b' = es1)
    \<and> (entryBytes key v + esize es1 \<le> maxb \<longrightarrow> (\<exists>es. l0 b' = (key, v, e) # es) \<and> l1 b' = es1)"
proof -
  obtain c0 c1 where b: "b = (c0, c1)" by (cases b)
  have lv: "level c0" "level c1" and dj: "keys_of (entries c0) \<inter> keys_of (entries c1) = {}"
    using inv by (auto simp: bucket_inv_def l0_def l1_def b)
  obtain d0 r where d0: "put key v e cb c0 = Some (d0, r, fire_all cb (lru_victim (length (cm c0)) (key, v, e) (entries c0)))"
    "level d0" "length (cm d0) = length (cm c0)" "entries d0 = es0"
    using level_put [OF lv(1) e, of key v cb] by (auto simp: es0_def l0_def b)
  obtain d1 where d1: "drop_key key c1 = Some d1" "level d1" "length (cm d1) = length (cm c1)"
    "entries d1 = es1" using level_drop [OF lv(2), of key] by (auto simp: es1_def l1_def b)
  have "keys_of es0 \<subseteq> insert key (keys_of (entries c0))" "keys_of es1 = keys_of (entries c1) - {key}"
    using keys_lru_put [of "length (cm c0)" "(key, v, e)" "entries c0"] 
    by (simp_all add: es0_def es1_def l0_def l1_def b)
  then have "keys_of es0 \<inter> keys_of es1 = {}" using dj by blast
  then have inv1: "bucket_inv (d0, d1)"
    using d0 d1 by (simp add: bucket_inv_def l0_def l1_def)
  have l: "l0 (d0, d1) = es0" "l1 (d0, d1) = es1" using d0 d1 by (simp_all add: l0_def l1_def)
  have es0_hd: "\<exists>es. es0 = (key, v, e) # es" by (simp add: es0_def lru_put_def)
  show ?thesis
  proof (cases "0 < maxb")
    case False
    then have "set_bucket key v e maxb cb b = Some ((d0, d1), fire_all cb (lru_victim (length (cm c0)) (key, v, e) (entries c0)))"
      using d0(1) d1(1) by (simp add: set_bucket_def b)
    moreover have "\<exists>n m. l0 (d0, d1) = take n es0 \<and> l1 (d0, d1) = take m es1"
      by (intro exI [of _ "length es0"] exI [of _ "length es1"]) (simp add: l)
    ultimately show ?thesis using False inv1 d0(3) d1(3) l maxb es0_hd
      by (intro exI [of _ "(d0, d1)"]) (simp add: same_caps_def b)
  next
    case True
    have "bucket_count (d0, d1) < length (cm d0) + length (cm d1) + 1"
      using length_entries [OF d0(2)] length_entries [OF d1(2)] by (simp add: bucket_count_def l0_def l1_def)
    then obtain b' evs where b': "evict_loop (length (cm d0) + length (cm d1) + 1) maxb cb (d0, d1) = Some (b', evs)"
      "bucket_inv b'" "bucket_bytes b' \<le> maxb" "trimmed maxb (d0, d1) b'"
      using evict_loop_spec [OF inv1 maxb] by blast
    then have "\<exists>evs. set_bucket key v e maxb cb b = Some (b', evs)"
      using d0(1) d1(1) True by (simp add: set_bucket_def b)
    moreover have "l0 b' = []" if big: "entryBytes key v + esize es1 > maxb"
    proof (rule ccontr)
      assume ne: "l0 b' \<noteq> []"
      obtain n where n: "l0 b' = take n es0" using b'(4) l by (auto simp: trimmed_def)
      obtain es where es: "es0 = (key, v, e) # es" using es0_hd by blast
      obtain es' where "l0 b' = (key, v, e) # es'" using n es ne by (cases n) auto
      moreover have "l1 b' = es1" using ne b'(4) l by (simp add: trimmed_def)
      ultimately have "entryBytes key v + esize es' + esize es1 \<le> maxb" using bucket_bytes_eq [OF b'(2)] b'(3) by simp
      then show False using big esize_nonneg [of es'] by linarith
    qed
    ultimately show ?thesis using b' d0(3) d1(3) l True es0_hd
      by (elim exE, intro exI [of _ b']) (auto simp: trimmed_def same_caps_def b)
  qed
qed

lemma delete_bucket_spec:
  assumes inv: "bucket_inv b"
  shows "\<exists>b' evs. delete_bucket key cb b = Some (b', key \<in> keys_of (l0 b) \<union> keys_of (l1 b), evs)
    \<and> bucket_inv b' \<and> same_caps b b' \<and> l0 b' = without fst key (l0 b) \<and> l1 b' = without fst key (l1 b)"
proof -
  obtain c0 c1 where b: "b = (c0, c1)" by (cases b)
  have lv: "level c0" "level c1" and dj: "keys_of (entries c0) \<inter> keys_of (entries c1) = {}"
    using inv by (auto simp: bucket_inv_def l0_def l1_def b)
  have one: "\<exists>d n s e v d'. del key c = Some (d, n, s, e) \<and> (0 < s \<longleftrightarrow> key \<in> keys_of (entries c))
      \<and> (case n of None \<Rightarrow> Some None | Some i \<Rightarrow> node_v i d) = Some v
      \<and> (case n of None \<Rightarrow> Some d | Some i \<Rightarrow> clear_v i d) = Some d'
      \<and> level d' \<and> length (cm d') = length (cm c) \<and> entries d' = without fst key (entries c)"
    if lc: "level c" for c
  proof (cases "lookup_by fst key (entries c)")
    case None
    then show ?thesis using level_del_absent [OF lc None] lc
      by (simp add: lookup_absent) (simp add: lookup_keys)
  next
    case (Some x)
    obtain k v e where x: "x = (k, v, e)" by (cases x)
    have "key \<in> keys_of (entries c)" using lookup_Some_key [OF Some [unfolded x]] by simp
    then show ?thesis using level_take [OF lc Some [unfolded x]] by force
  qed
  obtain d0 n0 s0 e0 v0 d0' where d0: "del key c0 = Some (d0, n0, s0, e0)" "0 < s0 \<longleftrightarrow> key \<in> keys_of (entries c0)"
    "(case n0 of None \<Rightarrow> Some None | Some i \<Rightarrow> node_v i d0) = Some v0"
    "(case n0 of None \<Rightarrow> Some d0 | Some i \<Rightarrow> clear_v i d0) = Some d0'"
    "level d0'" "length (cm d0') = length (cm c0)" "entries d0' = without fst key (entries c0)"
    using one [OF lv(1)] by blast
  obtain d1 n1 s1 e1 v1 d1' where d1: "del key c1 = Some (d1, n1, s1, e1)" "0 < s1 \<longleftrightarrow> key \<in> keys_of (entries c1)"
    "(case n1 of None \<Rightarrow> Some None | Some i \<Rightarrow> node_v i d1) = Some v1"
    "(case n1 of None \<Rightarrow> Some d1 | Some i \<Rightarrow> clear_v i d1) = Some d1'"
    "level d1'" "length (cm d1') = length (cm c1)" "entries d1' = without fst key (entries c1)"
    using one [OF lv(2)] by blast
  have "\<exists>evs. delete_bucket key cb b = Some ((d0', d1'), 0 < s0 \<or> 0 < s1, evs)"
    by (simp add: delete_bucket_def b d0(1,3,4) d1(1,3,4) Let_def)
  then show ?thesis using d0(2,5,6,7) d1(2,5,6,7) dj
    by (auto simp: bucket_inv_def same_caps_def l0_def l1_def b)
qed


subsection \<open>Iterating over the keys of a bucket\<close>

lemma set_add_key [simp]: "set (add_key k ks) = insert k (set ks)"
  by (auto simp: add_key_def)

lemma distinct_add_key [simp]: "distinct ks \<Longrightarrow> distinct (add_key k ks)"
  by (simp add: add_key_def)

lemma fold_until_keys:
  fixes es :: "entry list" and p :: "int \<Rightarrow> bool"
  defines "w \<equiv> (\<lambda>ks key (value :: gvalue) expireAt. (if p expireAt then add_key key ks else ks, True))"
  shows "set (fold_until w ks es) = set ks \<union> keys_of (filter (\<lambda>(k, v, e). p e) es)
    \<and> (distinct ks \<longrightarrow> distinct (fold_until w ks es))"
  unfolding w_def by (induction es arbitrary: ks) auto

lemma level_walk: "level c \<Longrightarrow> walk w s c = Some (fold_until w s (entries c))"
  using level_rep walk_eq entries_rep by (metis cache_rep_def)

lemma bucket_keys_spec:
  assumes "bucket_inv b"
  shows "\<exists>ks. bucket_keys p b = Some ks \<and> distinct ks \<and>
    set ks = keys_of (filter (\<lambda>(k, v, e). p e) (l0 b @ l1 b))"
proof -
  let ?w = "\<lambda>ks key (value :: gvalue) expireAt. (if p expireAt then add_key key ks else ks, True)"
  have "bucket_keys p b = Some (fold_until ?w (fold_until ?w [] (l0 b)) (l1 b))"
    using assms by (simp add: bucket_keys_def bucket_inv_def level_walk l0_def l1_def Let_def)
  then show ?thesis using fold_until_keys [of p "[]" "l0 b"] fold_until_keys [of p _ "l1 b"] by auto
qed

lemma delete_keys_spec:
  assumes "bucket_inv b"
  shows "\<exists>b' evs. delete_keys ks cb b = Some (b', evs) \<and> bucket_inv b' \<and> same_caps b b'
    \<and> l0 b' = filter (\<lambda>x. fst x \<notin> set ks) (l0 b) \<and> l1 b' = filter (\<lambda>x. fst x \<notin> set ks) (l1 b)"
  using assms
proof (induction ks arbitrary: b)
  case Nil
  then show ?case by (simp add: same_caps_def)
next
  case (Cons k ks)
  obtain b1 d e1 where b1: "delete_bucket k cb b = Some (b1, d, e1)" "bucket_inv b1" "same_caps b b1"
    "l0 b1 = without fst k (l0 b)" "l1 b1 = without fst k (l1 b)"
    using delete_bucket_spec [OF Cons.prems] by blast
  obtain b2 e2 where b2: "delete_keys ks cb b1 = Some (b2, e2)" "bucket_inv b2" "same_caps b1 b2"
    "l0 b2 = filter (\<lambda>x. fst x \<notin> set ks) (l0 b1)" "l1 b2 = filter (\<lambda>x. fst x \<notin> set ks) (l1 b1)"
    using Cons.IH [OF b1(2)] by blast
  show ?case using b1 b2
    by (intro exI [of _ b2] exI [of _ "e1 @ e2"])
       (auto simp: same_caps_def without_def conj_commute intro!: filter_cong)
qed

text \<open>Deleting the collected keys, in whatever order the map iteration yields them.\<close>

definition iter_order :: "(string list \<Rightarrow> string list) \<Rightarrow> bool" where
  "iter_order ord \<longleftrightarrow> (\<forall>ks. set (ord ks) = set ks)"

lemma filter_keys_only:
  assumes "distinct (map fst (xs @ ys))"
  shows "filter (\<lambda>x. fst x \<notin> keys_of (filter q (xs @ ys))) xs = filter (\<lambda>x. \<not> q x) xs"
proof (rule filter_cong [OF refl])
  fix x assume x: "x \<in> set xs"
  show "(fst x \<notin> keys_of (filter q (xs @ ys))) = (\<not> q x)"
    using distinct_map_eqD [OF assms, of x] x by (auto simp: keys_of_def)
qed

lemma bucket_distinct: "bucket_inv b \<Longrightarrow> distinct (map fst (l0 b @ l1 b))"
  using level_distinct by (auto simp: bucket_inv_def keys_of_def l0_def l1_def)

lemma delete_matching:
  assumes inv: "bucket_inv b" and ord: "iter_order ord"
  shows "\<exists>b' evs. do { ks \<leftarrow> bucket_keys p b; delete_keys (ord ks) cb b } = Some (b', evs) \<and> bucket_inv b'
    \<and> same_caps b b' \<and> l0 b' = filter (\<lambda>(k, v, e). \<not> p e) (l0 b) \<and> l1 b' = filter (\<lambda>(k, v, e). \<not> p e) (l1 b)"
proof -
  obtain ks where ks: "bucket_keys p b = Some ks"
    "set ks = keys_of (filter (\<lambda>(k, v, e). p e) (l0 b @ l1 b))" using bucket_keys_spec [OF inv] by blast
  have d: "distinct (map fst (l0 b @ l1 b))" by (rule bucket_distinct [OF inv])
  then have d': "distinct (map fst (l1 b @ l0 b))" by auto
  obtain b' evs where b': "delete_keys (ord ks) cb b = Some (b', evs)" "bucket_inv b'" "same_caps b b'"
    "l0 b' = filter (\<lambda>x. fst x \<notin> set ks) (l0 b)" "l1 b' = filter (\<lambda>x. fst x \<notin> set ks) (l1 b)"
    using delete_keys_spec [OF inv, of "ord ks" cb] ord by (auto simp: iter_order_def)
  have "l0 b' = filter (\<lambda>x. \<not> (case x of (k, v, e) \<Rightarrow> p e)) (l0 b)"
    unfolding b'(4) ks(2) by (rule filter_keys_only [OF d])
  moreover have "l1 b' = filter (\<lambda>x. \<not> (case x of (k, v, e) \<Rightarrow> p e)) (l1 b)"
    unfolding b'(5) ks(2) using filter_keys_only [OF d', of "\<lambda>(k, v, e). p e"] by (simp add: Un_commute)
  ultimately show ?thesis using ks b' by (simp add: split_def)
qed

section \<open>The sharding mask\<close>

lemma smear_step:
  fixes x c :: "16 word"
  assumes "\<And>i. bit x i \<longleftrightarrow> (\<exists>e < d. bit c (i + e))" and "0 < d"
  shows "bit (x OR drop_bit d x) i \<longleftrightarrow> (\<exists>e < 2 * d. bit c (i + e))"
proof -
  have "bit (x OR drop_bit d x) i \<longleftrightarrow> (\<exists>e < d. bit c (i + e)) \<or> (\<exists>e < d. bit c (i + d + e))"
    using assms(1) by (simp add: bit_or_iff bit_drop_bit_eq add.commute)
  also have "\<dots> \<longleftrightarrow> (\<exists>e < 2 * d. bit c (i + e))"
  proof (intro iffI; elim disjE exE conjE)
    fix e assume "e < d" "bit c (i + d + e)"
    then show "\<exists>e < 2 * d. bit c (i + e)" by (intro exI [of _ "d + e"]) (simp add: add.assoc)
  next
    fix e assume "e < 2 * d" "bit c (i + e)"
    then show "(\<exists>e < d. bit c (i + e)) \<or> (\<exists>e < d. bit c (i + d + e))"
    proof (cases "e < d")
      case False
      then have "i + e = i + d + (e - d)" "e - d < d" using \<open>e < 2 * d\<close> by auto
      then show ?thesis using \<open>bit c (i + e)\<close> by metis
    qed blast
  next
    fix e assume "e < d" "bit c (i + e)"
    then show "\<exists>e < 2 * d. bit c (i + e)" using assms(2) by (intro exI [of _ e]) simp
  qed
  finally show ?thesis .
qed

text \<open>Bit \<open>i\<close> of the smeared word is set iff some bit at or above \<open>i\<close> of the input is.\<close>

lemma smear_bits:
  fixes c :: "16 word"
  defines "c1 \<equiv> c OR drop_bit 1 c" defines "c2 \<equiv> c1 OR drop_bit 2 c1"
  defines "c4 \<equiv> c2 OR drop_bit 4 c2"
  shows "bit (c4 OR drop_bit 8 c4) i \<longleftrightarrow> (\<exists>j \<ge> i. bit c j)"
proof -
  have 1: "bit c i \<longleftrightarrow> (\<exists>e < 1. bit c (i + e))" for i by simp
  have 2: "bit c1 i \<longleftrightarrow> (\<exists>e < 2. bit c (i + e))" for i
    using smear_step [OF 1] unfolding c1_def by simp
  have 4: "bit c2 i \<longleftrightarrow> (\<exists>e < 4. bit c (i + e))" for i
    using smear_step [OF 2] unfolding c2_def by simp
  have 8: "bit c4 i \<longleftrightarrow> (\<exists>e < 8. bit c (i + e))" for i
    using smear_step [OF 4] unfolding c4_def by simp
  have "bit (c4 OR drop_bit 8 c4) i \<longleftrightarrow> (\<exists>e < 16. bit c (i + e))"
    using smear_step [OF 8] by simp
  also have "\<dots> \<longleftrightarrow> (\<exists>j \<ge> i. bit c j)"
  proof
    assume "\<exists>j \<ge> i. bit c j"
    then obtain j where "i \<le> j" "bit c j" by blast
    moreover have "j < 16" using \<open>bit c j\<close> bit_imp_le_length by fastforce
    ultimately show "\<exists>e < 16. bit c (i + e)" by (intro exI [of _ "j - i"]) auto
  qed (metis le_add1)
  finally show ?thesis .
qed

lemma mask_of_top_bit:
  fixes c m :: "16 word"
  assumes m: "\<And>i. bit m i \<longleftrightarrow> (\<exists>j \<ge> i. bit c j)" and top: "bit c n" "\<And>j. n < j \<Longrightarrow> \<not> bit c j"
  shows "unat m = 2 ^ Suc n - 1"
proof -
  have "n < 16" using top(1) bit_imp_le_length by fastforce
  have b: "bit m i \<longleftrightarrow> i < Suc n" for i
  proof -
    have "(\<exists>j \<ge> i. bit c j) \<longleftrightarrow> i \<le> n" using top by (meson le_trans linorder_not_le order_refl)
    then show ?thesis using m [of i] by (simp add: less_Suc_eq_le)
  qed
  have "bit (unat m) i \<longleftrightarrow> i < Suc n" for i
    using b [of i] \<open>n < 16\<close> by (auto simp: bit_unsigned_iff)
  then have "unat m = semiring_bit_operations_class.mask (Suc n)" by (intro bit_eqI) (auto simp: bit_mask_iff)
  then show ?thesis by (simp add: mask_eq_exp_minus_1)
qed

lemma nat_top_bit:
  fixes N :: nat
  assumes "2 ^ n \<le> N" "N < 2 ^ Suc n"
  shows "bit N n" and "n < j \<Longrightarrow> \<not> bit N j"
proof -
  have "N div 2 ^ n = 1" using assms by (intro div_nat_eqI) auto
  then show "bit N n" by (simp add: bit_iff_odd)
  assume "n < j"
  then have "(2::nat) ^ Suc n \<le> 2 ^ j" by (intro power_increasing) auto
  then show "\<not> bit N j" using assms by (simp add: bit_iff_odd)
qed

lemma bit_unat_16: "bit (unat (c :: 16 word)) i \<longleftrightarrow> bit c i"
  using bit_imp_le_length [of c i] by (auto simp: bit_unsigned_iff)

lemma MaskOfNextPowOf2_pow2:
  assumes "0 < capn"
  obtains k where "unat (MaskOfNextPowOf2 capn) + 1 = 2 ^ k" "unat capn \<le> 2 ^ k" "2 ^ k < 2 * unat capn"
proof -
  have pos: "0 < unat capn" using assms by (simp add: unat_gt_0)
  obtain n where n: "2 ^ n \<le> unat capn" "unat capn < 2 ^ Suc n"
    using ex_power_ivl1 [of 2 "unat capn"] pos by auto
  note tb = nat_top_bit [OF n, unfolded bit_unat_16]
  show ?thesis
  proof (cases "capn AND (capn - 1) = 0")
    case True
    have sub: "unat (capn - 1) = unat capn - 1" using pos by (metis unat_minus_one unat_0 less_irrefl)
    have "unat capn = 2 ^ n"
    proof (rule ccontr)
      assume "unat capn \<noteq> 2 ^ n"
      then have "bit (unat (capn - 1)) n" using n by (intro nat_top_bit(1)) (auto simp: sub)
      then have "bit (capn AND (capn - 1)) n" using tb(1) by (simp add: bit_and_iff bit_unat_16)
      then show False using True by simp
    qed
    then show ?thesis using True assms by (intro that [of n]) (simp_all add: MaskOfNextPowOf2_def sub)
  next
    case False
    have "unat (MaskOfNextPowOf2 capn) = 2 ^ Suc n - 1"
    proof (rule mask_of_top_bit [OF _ tb])
      show "bit (MaskOfNextPowOf2 capn) i \<longleftrightarrow> (\<exists>j \<ge> i. bit capn j)" for i
        using False unfolding MaskOfNextPowOf2_def Let_def by (subst if_not_P) (simp, rule smear_bits)
    qed
    moreover have "unat capn \<noteq> 2 ^ n"
    proof
      assume c: "unat capn = 2 ^ n"
      have "bit (capn AND (capn - 1)) i \<longleftrightarrow> False" for i
      proof -
        have "bit capn i \<longleftrightarrow> i = n" using c by (simp add: bit_unat_16 [symmetric] bit_exp_iff)
        moreover have "\<not> bit (unat (capn - 1)) n" using c pos
          by (simp add: unat_minus_one bit_iff_odd word_neq_0_conv assms less_imp_neq [symmetric])
        ultimately show ?thesis by (auto simp: bit_and_iff bit_unat_16)
      qed
      then show False using False by (simp add: bit_eq_iff)
    qed
    ultimately show ?thesis using n by (intro that [of "Suc n"]) simp_all
  qed
qed

section \<open>The store as a map\<close>

definition within_budget :: "int \<Rightarrow> bucket \<Rightarrow> bool" where
  "within_budget maxb b \<longleftrightarrow> (0 < maxb \<longrightarrow> bucket_bytes b \<le> maxb)"

definition bkeys :: "bucket \<Rightarrow> string set" where
  "bkeys b = keys_of (l0 b) \<union> keys_of (l1 b)"

text \<open>
  The invariant of a store: a power of two of buckets, each well formed and within the byte
  budget, and every key in the bucket it hashes to.
\<close>

definition store_inv :: "lruStore \<Rightarrow> bool" where
  "store_inv s \<longleftrightarrow>
     (\<exists>k < 16. unat (mask s) + 1 = 2 ^ k \<and> length (caches s) = 2 ^ k) \<and> 0 \<le> maxBucketBytes s \<and>
     (\<forall>i < length (caches s). bucket_inv (caches s ! i) \<and> within_budget (maxBucketBytes s) (caches s ! i) \<and>
        (\<forall>k \<in> bkeys (caches s ! i). bucketIdx k s = Some i))"

definition store_view :: "lruStore \<Rightarrow> string \<Rightarrow> (gvalue \<times> int) option" where
  "store_view s key = (case bucketIdx key s of
     Some i \<Rightarrow> map_option snd (bucket_lookup key (caches s ! i)) | None \<Rightarrow> None)"

lemma bucketIdx_upd [simp]: "bucketIdx key (s\<lparr>caches := cs\<rparr>) = bucketIdx key s"
  by (simp add: bucketIdx_def)

lemma bucketIdx_range:
  assumes "store_inv s"
  obtains i where "bucketIdx key s = Some i" "i < length (caches s)"
proof -
  obtain k where k: "k < 16" "unat (mask s) + 1 = 2 ^ k" "length (caches s) = 2 ^ k"
    using assms by (auto simp: store_inv_def)
  let ?w = "HashBKRD key AND mask s"
  have le: "unat ?w \<le> unat (mask s)" using word_and_le1 [of "HashBKRD key" "mask s"] by (simp add: word_le_nat_alt)
  have "(2::nat) ^ k \<le> 2 ^ 15" using k(1) by (intro power_increasing) auto
  then have "unat ?w < 2 ^ 31" using le k(2) by simp
  then have "\<not> bit (unat ?w) 31" by (simp add: bit_iff_odd)
  then have "\<not> bit ?w 31" by (simp add: bit_unsigned_iff)
  then have "bucketIdx key s = Some (unat ?w)" by (simp add: bucketIdx_def Let_def)
  then show ?thesis using le k by (intro that) auto
qed

lemma store_bucket:
  assumes "store_inv s" "i < length (caches s)"
  shows "bucket_inv (caches s ! i)" "within_budget (maxBucketBytes s) (caches s ! i)"
    "k \<in> bkeys (caches s ! i) \<Longrightarrow> bucketIdx k s = Some i"
  using assms by (auto simp: store_inv_def)

lemma store_update:
  assumes s: "store_inv s" and i: "bucketIdx key s = Some i" "i < length (caches s)"
    and b: "bucket_inv b" "within_budget (maxBucketBytes s) b"
    and keys: "bkeys b \<subseteq> insert key (bkeys (caches s ! i))"
  shows "store_inv (s\<lparr>caches := (caches s)[i := b]\<rparr>)"
  using s i b keys store_bucket(3) [OF s i(2)]
  unfolding store_inv_def by (auto simp: nth_list_update)

lemma store_view_bucket:
  "bucketIdx key s = Some i \<Longrightarrow> store_view s key = map_option snd (bucket_lookup key (caches s ! i))"
  by (simp add: store_view_def)

lemma store_view_upd:
  "i < length (caches s) \<Longrightarrow> store_view (s\<lparr>caches := (caches s)[i := b]\<rparr>) k =
     (if bucketIdx k s = Some i then map_option snd (bucket_lookup k b) else store_view s k)"
  by (auto simp: store_view_def nth_list_update split: option.splits)

lemma bucket_lookup_None: "bucket_lookup k b = None \<longleftrightarrow> k \<notin> bkeys b"
  by (auto simp: bucket_lookup_def bkeys_def lookup_keys [symmetric] split: option.splits)

subsection \<open>Sizes and lookups under the bucket operations\<close>

lemma esize_without:
  "distinct (map fst es) \<Longrightarrow> esize (without fst key es) =
     esize es - (case lookup_by fst key es of Some (k, v, e) \<Rightarrow> entryBytes k v | None \<Rightarrow> 0)"
proof (induction es)
  case (Cons x es)
  moreover have "lookup_by fst (fst x) es = None" using Cons.prems by (simp add: lookup_by_None_iff)
  ultimately show ?case by (cases x) (auto simp: lookup_absent split: option.splits)
qed simp

lemma esize_without_le: "esize (without fst k es) \<le> esize es"
  by (induction es) (auto intro: add_increasing)

lemma esize_butlast_le: "esize (butlast es) \<le> esize es"
  by (induction es) auto

lemma esize_take_le: "esize (take n es) \<le> esize es"
  by (induction es arbitrary: n) (auto simp: take_Cons split: nat.splits)

text \<open>The live entries of a bucket, as a set.\<close>

definition bset :: "bucket \<Rightarrow> entry set" where
  "bset b = set (l0 b) \<union> set (l1 b)"

lemma bkeys_bset: "bkeys b = fst ` bset b"
  by (auto simp: bkeys_def bset_def keys_of_def)

lemma bucket_lookup_iff:
  assumes "bucket_inv b"
  shows "bucket_lookup k b = Some x \<longleftrightarrow> x \<in> bset b \<and> fst x = k"
proof -
  have "bucket_lookup k b = lookup_by fst k (l0 b @ l1 b)" by (simp add: bucket_lookup_def split: option.splits)
  then show ?thesis using lookup_by_Some_iff [OF bucket_distinct [OF assms]] by (simp add: bset_def)
qed

lemma store_view_iff:
  assumes "store_inv s" "bucketIdx k s = Some i" "i < length (caches s)"
  shows "store_view s k = Some y \<longleftrightarrow> (k, y) \<in> bset (caches s ! i)"
  using bucket_lookup_iff [OF store_bucket(1) [OF assms(1,3)], of k]
  by (cases y) (auto simp: store_view_bucket [OF assms(2)])

lemma lru_put_facts:
  "set (lru_put n x es) \<subseteq> insert x (set es)" "x \<in> set (lru_put n x es)"
  "esize (lru_put n x es) \<le> esize [x] + esize es"
proof -
  show "set (lru_put n x es) \<subseteq> insert x (set es)" "x \<in> set (lru_put n x es)"
    by (auto simp: lru_put_def dest: in_set_butlastD)
  show "esize (lru_put n x es) \<le> esize [x] + esize es"
    using esize_butlast_le [of es] esize_without_le [of "fst x" es] by (cases x) (simp add: lru_put_def)
qed

lemma promote_bset:
  assumes inv: "bucket_inv b" and pr: "(l0 b', l1 b') = promote n key now (l0 b, l1 b)"
  shows "bset b' \<subseteq> bset b"
    and "bucket_lookup key b = Some (k, v, e) \<Longrightarrow> now < e \<Longrightarrow> (k, v, e) \<in> bset b'"
    and "bucket_lookup key b = Some (k, v, e) \<Longrightarrow> e \<le> now \<Longrightarrow> key \<notin> bkeys b'"
    and "bucket_lookup key b = None \<Longrightarrow> key \<notin> bkeys b'"
    and "esize (l0 b') + esize (l1 b') \<le> esize (l0 b) + esize (l1 b)"
proof -
  have d: "distinct (map fst (l0 b))" "distinct (map fst (l1 b))" using bucket_distinct [OF inv] by auto
  have "bset b' \<subseteq> bset b \<and> (\<forall>k v e. bucket_lookup key b = Some (k, v, e) \<longrightarrow>
      (if now < e then (k, v, e) \<in> bset b' else key \<notin> bkeys b')) \<and>
    (bucket_lookup key b = None \<longrightarrow> key \<notin> bkeys b') \<and>
    esize (l0 b') + esize (l1 b') \<le> esize (l0 b) + esize (l1 b)"
  proof (cases "lookup_by fst key (l0 b)")
    case (Some x)
    obtain k v e where x: "x = (k, v, e)" by (cases x)
    have k: "k = key" "(key, v, e) \<in> set (l0 b)" using lookup_Some_key [OF Some [unfolded x]] by auto
    show ?thesis using pr d Some x k esize_without [OF d(1), of key]
        add_mono [OF esize_without_le [of key "l0 b"] esize_without_le [of key "l1 b"]]
        lru_put_facts [where n = n and x = "(key, v, e)" and es = "l1 b"]
      by (auto simp: promote_def bset_def bkeys_def bucket_lookup_def keys_of_def split: if_splits option.splits)
  next
    case None
    then show ?thesis using pr d esize_without [OF d(2), of key] esize_without_le [of key "l1 b"] lookup_Some_key [of key "l1 b"]
      by (auto simp: promote_def bset_def bkeys_def bucket_lookup_def lookup_keys [symmetric] split: if_splits option.splits)
  qed
  then show "bset b' \<subseteq> bset b"
    and "bucket_lookup key b = Some (k, v, e) \<Longrightarrow> now < e \<Longrightarrow> (k, v, e) \<in> bset b'"
    and "bucket_lookup key b = Some (k, v, e) \<Longrightarrow> e \<le> now \<Longrightarrow> key \<notin> bkeys b'"
    and "bucket_lookup key b = None \<Longrightarrow> key \<notin> bkeys b'"
    and "esize (l0 b') + esize (l1 b') \<le> esize (l0 b) + esize (l1 b)"
    by (auto simp: not_less [symmetric])
qed

section \<open>The store operations on the map view\<close>

definition sset :: "bucket list \<Rightarrow> entry set" where
  "sset cs = (\<Union>b \<in> set cs. bset b)"

lemma store_view_mem:
  assumes s: "store_inv s"
  shows "store_view s k = Some y \<longleftrightarrow> (k, y) \<in> sset (caches s)"
proof -
  obtain i where i: "bucketIdx k s = Some i" "i < length (caches s)" using bucketIdx_range [OF s] by blast
  have "j = i" if "j < length (caches s)" "(k, y) \<in> bset (caches s ! j)" for j
    using store_bucket(3) [OF s that(1), of k] that(2) i(1) by (force simp: bkeys_bset)
  then have "(k, y) \<in> bset b \<Longrightarrow> (k, y) \<in> bset (caches s ! i)" if "b \<in> set (caches s)" for b
    using that unfolding in_set_conv_nth by blast
  then show ?thesis unfolding store_view_iff [OF s i] sset_def using nth_mem [OF i(2)] by blast
qed

lemma store_at:
  assumes s: "store_inv s"
  obtains i b where "bucketIdx key s = Some i" "i < length (caches s)" "rd (caches s) i = Some b" "b = caches s ! i"
    "bucket_inv b" "within_budget (maxBucketBytes s) b"
    "store_view s key = map_option snd (bucket_lookup key b)"
    "\<And>b'. bucket_inv b' \<Longrightarrow> within_budget (maxBucketBytes s) b' \<Longrightarrow> bkeys b' \<subseteq> insert key (bkeys b) \<Longrightarrow>
       wr (caches s) i b' = Some ((caches s)[i := b']) \<and> store_inv (s\<lparr>caches := (caches s)[i := b']\<rparr>)"
proof -
  obtain i where i: "bucketIdx key s = Some i" "i < length (caches s)" using bucketIdx_range [OF s] by blast
  show ?thesis using i store_bucket [OF s i(2)] store_update [OF s i] 
    by (intro that [of i "caches s ! i"]) (simp_all add: store_view_bucket rd_def wr_def)
qed

lemma view_update:
  assumes s: "store_inv s" and i: "bucketIdx key s = Some i" "i < length (caches s)"
    and s': "store_inv (s\<lparr>caches := (caches s)[i := b]\<rparr>)" (is "store_inv ?s")
  shows "bset b \<subseteq> bset (caches s ! i) \<Longrightarrow> store_view ?s \<subseteq>\<^sub>m store_view s"
    and "bset b \<subseteq> insert (key, y) {x \<in> bset (caches s ! i). fst x \<noteq> key} \<Longrightarrow> store_view ?s \<subseteq>\<^sub>m (store_view s)(key \<mapsto> y)"
    and "bset b = {x \<in> bset (caches s ! i). fst x \<noteq> key} \<Longrightarrow> store_view ?s = (store_view s)(key := None)"
proof -
  have v: "store_view ?s k = (if bucketIdx k s = Some i then map_option snd (bucket_lookup k b) else store_view s k)" for k
    by (rule store_view_upd [OF i(2)])
  have b: "bucket_inv b" using store_bucket(1) [OF s', of i] i(2) by simp
  have v': "store_view ?s k = Some y \<longleftrightarrow> (if bucketIdx k s = Some i then (k, y) \<in> bset b else store_view s k = Some y)" for k y
    unfolding v using bucket_lookup_iff [OF b, of k] by (cases y) (auto)
  have w: "bucketIdx k s = Some i \<Longrightarrow> store_view s k = Some y \<longleftrightarrow> (k, y) \<in> bset (caches s ! i)" for k y
    by (rule store_view_iff [OF s _ i(2)])
  show "store_view ?s \<subseteq>\<^sub>m store_view s" if "bset b \<subseteq> bset (caches s ! i)"
  proof (unfold map_le_def, rule ballI)
    fix k assume "k \<in> dom (store_view ?s)"
    then obtain z where z: "store_view ?s k = Some z" by auto
    then show "store_view ?s k = store_view s k" using v' [of k z] w [of k z] that by (auto split: if_splits)
  qed
  show "store_view ?s \<subseteq>\<^sub>m (store_view s)(key \<mapsto> y)"
    if sub: "bset b \<subseteq> insert (key, y) {x \<in> bset (caches s ! i). fst x \<noteq> key}"
  proof (unfold map_le_def, rule ballI)
    fix k assume "k \<in> dom (store_view ?s)"
    then obtain z where z: "store_view ?s k = Some z" by auto
    then show "store_view ?s k = ((store_view s)(key \<mapsto> y)) k"
      using v' [of k z] w [of k z] sub i(1) by (auto split: if_splits)
  qed
  show "store_view ?s = (store_view s)(key := None)"
    if eq: "bset b = {x \<in> bset (caches s ! i). fst x \<noteq> key}"
  proof
    fix k
    have "store_view ?s k = Some z \<longleftrightarrow> ((store_view s)(key := None)) k = Some z" for z
      using v' [of k z] w [of k z] eq i(1) by auto
    then show "store_view ?s k = ((store_view s)(key := None)) k" by (metis not_Some_eq)
  qed
qed

lemma Get_spec:
  assumes s: "store_inv s"
  shows "\<exists>s' evs. Get key now s = Some (s',
      (case store_view s key of Some (v, e) \<Rightarrow> if now < e then Some v else None | None \<Rightarrow> None), evs)
    \<and> store_inv s' \<and> store_view s' \<subseteq>\<^sub>m store_view s
    \<and> store_view s' key = (case store_view s key of Some (v, e) \<Rightarrow> if now < e then Some (v, e) else None | None \<Rightarrow> None)"
proof -
  obtain i b where i: "bucketIdx key s = Some i" "i < length (caches s)" "rd (caches s) i = Some b"
    and b: "b = caches s ! i" "bucket_inv b" "within_budget (maxBucketBytes s) b"
    and view: "store_view s key = map_option snd (bucket_lookup key b)"
    and upd: "\<And>b'. bucket_inv b' \<Longrightarrow> within_budget (maxBucketBytes s) b' \<Longrightarrow> bkeys b' \<subseteq> insert key (bkeys b) \<Longrightarrow>
       wr (caches s) i b' = Some ((caches s)[i := b']) \<and> store_inv (s\<lparr>caches := (caches s)[i := b']\<rparr>)"
    by (rule store_at [OF s]) (rule that, assumption+)
  obtain b' evs where b': "get_bucket key now (onEvicted s) b = Some (b',
      (case bucket_lookup key b of Some (k, v, e) \<Rightarrow> if now < e then Some v else None | None \<Rightarrow> None), evs)"
    "bucket_inv b'" "(l0 b', l1 b') = promote (length (cm (snd b))) key now (l0 b, l1 b)"
    using get_bucket_spec [OF b(2)] by blast
  note pr = promote_bset [OF b(2) b'(3)]
  have "within_budget (maxBucketBytes s) b'"
    using b(3) pr(5) bucket_bytes_eq [OF b(2)] bucket_bytes_eq [OF b'(2)] by (auto simp: within_budget_def)
  then have w: "wr (caches s) i b' = Some ((caches s)[i := b'])" and inv: "store_inv (s\<lparr>caches := (caches s)[i := b']\<rparr>)"
    using upd [OF b'(2)] pr(1) by (auto simp: bkeys_bset)
  have key: "map_option snd (bucket_lookup key b') =
    (case map_option snd (bucket_lookup key b) of Some (v, e) \<Rightarrow> if now < e then Some (v, e) else None | None \<Rightarrow> None)"
  proof (cases "bucket_lookup key b")
    case None
    then show ?thesis using pr(4) by (simp add: bucket_lookup_None [symmetric])
  next
    case (Some x)
    obtain k v e where x: "x = (k, v, e)" by (cases x)
    then have "k = key" using Some bucket_lookup_iff [OF b(2)] by auto
    then show ?thesis using Some x pr(2,3) [of k v e] bucket_lookup_iff [OF b'(2), of key "(k, v, e)"]
      by (auto simp: bucket_lookup_None [symmetric])
  qed
  have "Get key now s = Some (s\<lparr>caches := (caches s)[i := b']\<rparr>,
      (case store_view s key of Some (v, e) \<Rightarrow> if now < e then Some v else None | None \<Rightarrow> None), evs)"
    using i b'(1) w unfolding view by (auto simp: Get_def split: option.splits)
  then show ?thesis using inv view_update(1) [OF s i(1,2) inv] pr(1) b(1) key view store_view_upd [OF i(2), of b' key] i(1)
    by (intro exI [of _ "s\<lparr>caches := (caches s)[i := b']\<rparr>"]) simp
qed


lemma Set_spec:
  fixes s :: lruStore and key :: string and v :: gvalue and expiration now :: int
  assumes s: "store_inv s" 
  defines "e \<equiv> if expiration > 0 then wrap64 (now + expiration) else maxExpireAt"
  assumes e: "0 < e"
  shows "\<exists>s' evs. SetWithExpiration key v expiration now s = Some (s', evs)
    \<and> store_inv s' \<and> store_view s' \<subseteq>\<^sub>m (store_view s)(key \<mapsto> (v, e)) \<and> maxBucketBytes s' = maxBucketBytes s
    \<and> (\<forall>i. bucketIdx key s = Some i \<longrightarrow> store_view s' key =
         (if maxBucketBytes s = 0 \<or> entryBytes key v + esize (without fst key (l1 (caches s ! i))) \<le> maxBucketBytes s
          then Some (v, e) else None))"
proof -
  obtain i b where i: "bucketIdx key s = Some i" "i < length (caches s)" "rd (caches s) i = Some b"
    and b: "b = caches s ! i" "bucket_inv b" "within_budget (maxBucketBytes s) b"
    and upd: "\<And>b'. bucket_inv b' \<Longrightarrow> within_budget (maxBucketBytes s) b' \<Longrightarrow> bkeys b' \<subseteq> insert key (bkeys b) \<Longrightarrow>
       wr (caches s) i b' = Some ((caches s)[i := b']) \<and> store_inv (s\<lparr>caches := (caches s)[i := b']\<rparr>)"
    by (rule store_at [OF s]) (rule that, assumption+)
  let ?es0 = "lru_put (length (cm (fst b))) (key, v, e) (l0 b)" and ?es1 = "without fst key (l1 b)"
  have mb: "0 \<le> maxBucketBytes s" using s by (simp add: store_inv_def)
  obtain b' evs where b': "set_bucket key v e (maxBucketBytes s) (onEvicted s) b = Some (b', evs)" "bucket_inv b'"
    "0 < maxBucketBytes s \<longrightarrow> bucket_bytes b' \<le> maxBucketBytes s"
    "\<exists>n m. l0 b' = take n ?es0 \<and> l1 b' = take m ?es1"
    "maxBucketBytes s = 0 \<longrightarrow> l0 b' = ?es0 \<and> l1 b' = ?es1"
    "entryBytes key v + esize ?es1 \<le> maxBucketBytes s \<longrightarrow> (\<exists>es. l0 b' = (key, v, e) # es)"
    "0 < maxBucketBytes s \<and> entryBytes key v + esize ?es1 > maxBucketBytes s \<longrightarrow> l0 b' = []"
    using set_bucket_spec [OF b(2) e mb, of key v "onEvicted s"] by (elim exE conjE) (rule that, assumption+, blast+)
  have es0: "set ?es0 \<subseteq> insert (key, v, e) {x \<in> set (l0 b). fst x \<noteq> key}"
  proof (cases "key \<in> fst ` set (l0 b)")
    case False
    then have "{x \<in> set (l0 b). fst x \<noteq> key} = set (l0 b)" by auto
    then show ?thesis using False by (auto simp: lru_put_def dest: in_set_butlastD)
  qed (auto simp: lru_put_def)
  have sub: "bset b' \<subseteq> insert (key, v, e) {x \<in> bset b. fst x \<noteq> key}"
  proof -
    obtain n m where "l0 b' = take n ?es0" "l1 b' = take m ?es1" using b'(4) by blast
    then have "set (l0 b') \<subseteq> set ?es0" "set (l1 b') \<subseteq> set ?es1" by (metis set_take_subset)+
    then show ?thesis using es0 by (fastforce simp: bset_def)
  qed
  have "bkeys b' \<subseteq> insert key (bkeys b)"
    unfolding bkeys_bset using image_mono [OF sub, of fst] by force
  then have w: "wr (caches s) i b' = Some ((caches s)[i := b'])" and inv: "store_inv (s\<lparr>caches := (caches s)[i := b']\<rparr>)"
    using upd [OF b'(2)] b'(3) by (auto simp: within_budget_def)
  have res: "SetWithExpiration key v expiration now s = Some (s\<lparr>caches := (caches s)[i := b']\<rparr>, evs)"
    using i w b'(1) by (simp add: SetWithExpiration_def e_def Let_def)
  have "store_view (s\<lparr>caches := (caches s)[i := b']\<rparr>) key = Some (v, e)"
    if "maxBucketBytes s = 0 \<or> entryBytes key v + esize ?es1 \<le> maxBucketBytes s"
  proof -
    have "(key, v, e) \<in> bset b'" using that b'(5,6) lru_put_facts(2) by (auto simp: bset_def)
    then show ?thesis using store_view_upd [OF i(2), of b' key] i(1) bucket_lookup_iff [OF b'(2), of key "(key, v, e)"] by simp
  qed
  moreover have "store_view (s\<lparr>caches := (caches s)[i := b']\<rparr>) key = None"
    if big: "\<not> (maxBucketBytes s = 0 \<or> entryBytes key v + esize ?es1 \<le> maxBucketBytes s)"
  proof -
    obtain m where "l1 b' = take m ?es1" using b'(4) by blast
    then have "set (l1 b') \<subseteq> set ?es1" by (metis set_take_subset)
    moreover have "l0 b' = []" using b'(7) big mb by auto
    ultimately have "key \<notin> bkeys b'" by (auto simp: bkeys_bset bset_def)
    then show ?thesis using store_view_upd [OF i(2), of b' key] i(1) by (simp add: bucket_lookup_None [symmetric])
  qed
  ultimately show ?thesis using res inv view_update(2) [OF s i(1,2) inv] sub b(1) i(1)
    by (intro exI [of _ "s\<lparr>caches := (caches s)[i := b']\<rparr>"] exI [of _ evs]) auto
qed

lemma Delete_spec:
  assumes s: "store_inv s"
  shows "\<exists>s' evs. Delete key s = Some (s', store_view s key \<noteq> None, evs) \<and> store_inv s'
    \<and> store_view s' = (store_view s)(key := None)"
proof -
  obtain i b where i: "bucketIdx key s = Some i" "i < length (caches s)" "rd (caches s) i = Some b"
    and b: "b = caches s ! i" "bucket_inv b" "within_budget (maxBucketBytes s) b"
    and view: "store_view s key = map_option snd (bucket_lookup key b)"
    and upd: "\<And>b'. bucket_inv b' \<Longrightarrow> within_budget (maxBucketBytes s) b' \<Longrightarrow> bkeys b' \<subseteq> insert key (bkeys b) \<Longrightarrow>
       wr (caches s) i b' = Some ((caches s)[i := b']) \<and> store_inv (s\<lparr>caches := (caches s)[i := b']\<rparr>)"
    by (rule store_at [OF s]) (rule that, assumption+)
  obtain b' evs where b': "delete_bucket key (onEvicted s) b = Some (b', key \<in> bkeys b, evs)" "bucket_inv b'"
    "l0 b' = without fst key (l0 b)" "l1 b' = without fst key (l1 b)"
    using delete_bucket_spec [OF b(2)] unfolding bkeys_def by blast
  have eq: "bset b' = {x \<in> bset b. fst x \<noteq> key}" using b' by (auto simp: bset_def)
  have "within_budget (maxBucketBytes s) b'"
    using b(3) b'(3,4) bucket_bytes_eq [OF b(2)] bucket_bytes_eq [OF b'(2)]
      add_mono [OF esize_without_le [of key "l0 b"] esize_without_le [of key "l1 b"]]
    by (auto simp: within_budget_def)
  then have w: "wr (caches s) i b' = Some ((caches s)[i := b'])" and inv: "store_inv (s\<lparr>caches := (caches s)[i := b']\<rparr>)"
    using upd [OF b'(2)] eq by (auto simp: bkeys_bset)
  have "Delete key s = Some (s\<lparr>caches := (caches s)[i := b']\<rparr>, store_view s key \<noteq> None, evs)"
    using i w b'(1) view by (simp add: Delete_def bucket_lookup_None)
  then show ?thesis using inv view_update(3) [OF s i(1,2) inv] eq b(1) by blast
qed


subsection \<open>Sweeps over all buckets\<close>

lemma each_bucket_spec:
  assumes "\<And>b. b \<in> set bs \<Longrightarrow> \<exists>b' evs. f b = Some (b', evs) \<and> R b b'"
  shows "\<exists>bs' evs. each_bucket f bs = Some (bs', evs) \<and> list_all2 R bs bs'"
  using assms
proof (induction bs)
  case (Cons b bs)
  obtain b' e where "f b = Some (b', e)" "R b b'" using Cons.prems [of b] by auto
  moreover obtain bs' es where "each_bucket f bs = Some (bs', es)" "list_all2 R bs bs'"
    using Cons.IH Cons.prems by auto
  ultimately show ?case by simp
qed simp

lemma esize_filter_le: "esize (filter q es) \<le> esize es"
  by (induction es) (auto intro: add_increasing)

text \<open>Removing from every bucket the entries whose expiry satisfies \<open>p\<close>.\<close>

lemma sweep_spec:
  assumes s: "store_inv s" and ord: "iter_order ord"
  shows "\<exists>cs evs. each_bucket (\<lambda>b. do { ks \<leftarrow> bucket_keys p b; delete_keys (ord ks) (onEvicted s) b }) (caches s) = Some (cs, evs)
    \<and> store_inv (s\<lparr>caches := cs\<rparr>)
    \<and> store_view (s\<lparr>caches := cs\<rparr>) = (\<lambda>k. case store_view s k of Some (v, e) \<Rightarrow> if p e then None else Some (v, e) | None \<Rightarrow> None)"
proof -
  let ?R = "\<lambda>b b'. bucket_inv b' \<and> bset b' = {(k, v, e) \<in> bset b. \<not> p e} \<and> bucket_bytes b' \<le> bucket_bytes b"
  have inv: "\<And>b. b \<in> set (caches s) \<Longrightarrow> bucket_inv b" using s by (auto simp: store_inv_def in_set_conv_nth)
  obtain cs evs where cs: "each_bucket (\<lambda>b. do { ks \<leftarrow> bucket_keys p b; delete_keys (ord ks) (onEvicted s) b }) (caches s) = Some (cs, evs)"
    "list_all2 ?R (caches s) cs"
  proof (atomize_elim, rule each_bucket_spec)
    fix b assume "b \<in> set (caches s)"
    then obtain b' evs where b': "do { ks \<leftarrow> bucket_keys p b; delete_keys (ord ks) (onEvicted s) b } = Some (b', evs)" "bucket_inv b'"
      "l0 b' = filter (\<lambda>(k, v, e). \<not> p e) (l0 b)" "l1 b' = filter (\<lambda>(k, v, e). \<not> p e) (l1 b)"
      using delete_matching [OF inv ord] by blast
    have "bset b' = {(k, v, e) \<in> bset b. \<not> p e}" using b'(3,4) by (auto simp: bset_def)
    moreover have "bucket_bytes b' \<le> bucket_bytes b"
      using b' bucket_bytes_eq [OF b'(2)] bucket_bytes_eq [OF inv [OF \<open>b \<in> set (caches s)\<close>]]
        add_mono [OF esize_filter_le [of _ "l0 b"] esize_filter_le [of _ "l1 b"]] by simp
    ultimately show "\<exists>b' evs. do { ks \<leftarrow> bucket_keys p b; delete_keys (ord ks) (onEvicted s) b } = Some (b', evs) \<and> ?R b b'"
      using b'(1,2) by blast
  qed
  have len: "length cs = length (caches s)" using cs(2) by (simp add: list_all2_lengthD)
  have R: "?R (caches s ! i) (cs ! i)" if "i < length (caches s)" for i using cs(2) that by (simp add: list_all2_conv_all_nth)
  have inv': "store_inv (s\<lparr>caches := cs\<rparr>)"
    unfolding store_inv_def
  proof (intro conjI allI impI ballI)
    fix i assume i: "i < length (caches (s\<lparr>caches := cs\<rparr>))"
    then have i': "i < length (caches s)" using len by simp
    show "bucket_inv (caches (s\<lparr>caches := cs\<rparr>) ! i)" using R [OF i'] by simp
    show "within_budget (maxBucketBytes (s\<lparr>caches := cs\<rparr>)) (caches (s\<lparr>caches := cs\<rparr>) ! i)"
      using R [OF i'] store_bucket(2) [OF s i'] by (auto simp: within_budget_def)
    fix k assume "k \<in> bkeys (caches (s\<lparr>caches := cs\<rparr>) ! i)"
    then have "k \<in> bkeys (caches s ! i)" using R [OF i'] by (auto simp: bkeys_bset)
    then show "bucketIdx k (s\<lparr>caches := cs\<rparr>) = Some i" using store_bucket(3) [OF s i'] by simp
  qed (use s len in \<open>simp_all add: store_inv_def\<close>)
  moreover have "store_view (s\<lparr>caches := cs\<rparr>) k = (case store_view s k of Some (v, e) \<Rightarrow> if p e then None else Some (v, e) | None \<Rightarrow> None)" for k
  proof -
    obtain i where i: "bucketIdx k s = Some i" "i < length (caches s)" using bucketIdx_range [OF s] by blast
    have "store_view (s\<lparr>caches := cs\<rparr>) k = Some (v, e) \<longleftrightarrow> store_view s k = Some (v, e) \<and> \<not> p e" for v e
      using store_view_iff [OF s i] store_view_iff [OF inv', of k i] i len R [OF i(2)] by auto
    then show ?thesis by (auto split: option.splits) (metis not_Some_eq surj_pair)+
  qed
  ultimately show ?thesis using cs(1) by blast
qed

lemma sum_buckets_spec:
  "(\<And>b. b \<in> set bs \<Longrightarrow> f b = Some (g b)) \<Longrightarrow> sum_buckets f bs = Some (\<Sum>b \<leftarrow> bs. g b)"
  by (induction bs) auto

lemma card_bset: "bucket_inv b \<Longrightarrow> card (bkeys b) = length (l0 b) + length (l1 b)"
  using distinct_card [OF bucket_distinct [of b]] by (simp add: bkeys_def keys_of_def)

lemma Len_spec:
  assumes s: "store_inv s"
  shows "Len s = Some (int (card (dom (store_view s))))"
proof -
  have inv: "\<And>b. b \<in> set (caches s) \<Longrightarrow> bucket_inv b" using s by (auto simp: store_inv_def in_set_conv_nth)
  have "map_option (\<lambda>ks. int (length ks)) (bucket_keys (\<lambda>_. True) b) = Some (int (card (bkeys b)))" if b: "b \<in> set (caches s)" for b
    using bucket_keys_spec [OF inv [OF b], of "\<lambda>_. True"] distinct_card by (fastforce simp: bkeys_def)
  then have "Len s = Some (\<Sum>b \<leftarrow> caches s. int (card (bkeys b)))" unfolding Len_def by (rule sum_buckets_spec)
  also have "(\<Sum>b \<leftarrow> caches s. int (card (bkeys b))) = int (\<Sum>i < length (caches s). card (bkeys (caches s ! i)))"
    by (simp add: sum_list_sum_nth atLeast0LessThan)
  also have "(\<Sum>i < length (caches s). card (bkeys (caches s ! i))) = card (\<Union>i < length (caches s). bkeys (caches s ! i))"
  proof (rule card_UN_disjoint [symmetric])
    show "\<forall>i \<in> {..<length (caches s)}. finite (bkeys (caches s ! i))" by (simp add: bkeys_def keys_of_def)
    show "\<forall>i \<in> {..<length (caches s)}. \<forall>j \<in> {..<length (caches s)}. i \<noteq> j \<longrightarrow> bkeys (caches s ! i) \<inter> bkeys (caches s ! j) = {}"
      using store_bucket(3) [OF s] by (metis IntE lessThan_iff option.inject subsetI subset_empty)
  qed simp
  also have "(\<Union>i < length (caches s). bkeys (caches s ! i)) = dom (store_view s)"
  proof -
    have "(\<Union>i < length (caches s). bkeys (caches s ! i)) = (\<Union>b \<in> set (caches s). bkeys b)"
      unfolding set_conv_nth by blast
    also have "\<dots> = fst ` sset (caches s)" unfolding sset_def bkeys_bset by (rule image_UN [symmetric])
    also have "\<dots> = dom (store_view s)" by (force simp: dom_def store_view_mem [OF s])
    finally show ?thesis .
  qed
  finally show ?thesis .
qed

section \<open>Construction and reachable stores\<close>

definition sane_options :: "StoreOptions \<Rightarrow> bool" where
  "sane_options opts \<longleftrightarrow> so_BucketCount opts \<le> 32768 \<and> so_CapPerBucket opts < 65535 \<and> so_Level2Cap opts < 65535"

lemma empty_bucket:
  assumes "0 < c0" "c0 < 65535" "0 < c1" "c1 < 65535"
  shows "bucket_inv (Create c0, Create c1)" "bset (Create c0, Create c1) = {}" "bucket_bytes (Create c0, Create c1) = 0"
proof -
  show i: "bucket_inv (Create c0, Create c1)"
    using assms Create_inv by (simp add: bucket_inv_def level_def l0_def l1_def)
  show "bset (Create c0, Create c1) = {}" using assms by (simp add: bset_def l0_def l1_def)
  show "bucket_bytes (Create c0, Create c1) = 0" using bucket_bytes_eq [OF i] assms by (simp add: l0_def l1_def)
qed

lemma with_defaults_simps [simp]:
  "so_BucketCount (with_defaults opts) = (if so_BucketCount opts = 0 then 16 else so_BucketCount opts)"
  "so_CapPerBucket (with_defaults opts) = (if so_CapPerBucket opts = 0 then 512 else so_CapPerBucket opts)"
  "so_Level2Cap (with_defaults opts) = (if so_Level2Cap opts = 0 then 256 else so_Level2Cap opts)"
  "so_MaxBytes (with_defaults opts) = so_MaxBytes opts" "so_OnEvicted (with_defaults opts) = so_OnEvicted opts"
  by (simp_all add: with_defaults_def Let_def)

lemma NewStore_spec:
  assumes sane: "sane_options opts"
  obtains s k where "NewStore opts = Some s" "store_inv s" "store_view s = Map.empty" "length (caches s) = 2 ^ k"
    "maxBucketBytes s = (if so_MaxBytes opts > 0 then max 1 (so_MaxBytes opts div 2 ^ k) else 0)"
proof -
  define n where "n = (if so_BucketCount opts = 0 then 16 else so_BucketCount opts)"
  define c0 where "c0 = (if so_CapPerBucket opts = 0 then 512 else so_CapPerBucket opts)"
  define c1 where "c1 = (if so_Level2Cap opts = 0 then 256 else so_Level2Cap opts)"
  have n: "0 < n" "n \<le> 32768" using sane by (auto simp: n_def sane_options_def word_gt_0)
  obtain k where k: "unat (MaskOfNextPowOf2 n) + 1 = 2 ^ k" "unat n \<le> 2 ^ k" "2 ^ k < 2 * unat n"
    by (rule MaskOfNextPowOf2_pow2 [OF n(1)])
  have "unat n \<le> 32768" using n(2) by (simp add: word_le_nat_alt)
  then have k2: "(2::nat) ^ k < 2 ^ 16" using k(3) by simp
  then have k16: "k < 16" by (rule power_less_imp_less_exp [rotated]) simp
  have m1: "unat (MaskOfNextPowOf2 n + 1) = 2 ^ k" using k(1) k2 by (subst unat_add_lem [THEN iffD1]) auto
  have m2: "unat (ucast (MaskOfNextPowOf2 n) :: 32 word) + 1 = 2 ^ k"
    using k(1) k2 by (subst unsigned_ucast_eq) (simp add: take_bit_nat_eq_self)
  define b where "b = (Create c0, Create c1)"
  have b: "bucket_inv b" "bset b = {}" "bucket_bytes b = 0"
    unfolding b_def using sane by (intro empty_bucket; simp add: c0_def c1_def sane_options_def)+
  define mb where "mb = (if so_MaxBytes opts > 0 then max 1 (so_MaxBytes opts div 2 ^ k) else 0)"
  define s where "s = \<lparr>caches = replicate (2 ^ k) b, onEvicted = so_OnEvicted opts, maxBucketBytes = mb,
      mask = ucast (MaskOfNextPowOf2 n), closeCh_closed = False\<rparr>"
  have new: "NewStore opts = Some s"
    unfolding NewStore_def Let_def with_defaults_simps n_def [symmetric] c0_def [symmetric] c1_def [symmetric] m1
    by (simp add: s_def b_def mb_def max_def not_le)
  have "bkeys b = {}" using b(2) by (simp add: bkeys_bset)
  then have inv: "store_inv s" unfolding store_inv_def
    using b m2 k16 by (auto simp: s_def mb_def within_budget_def intro!: exI [of _ k])
  have "store_view s k = None" for k
    using store_view_mem [OF inv, of k] b(2) by (cases "store_view s k") (auto simp: sset_def s_def)
  then show ?thesis using new inv by (intro that [of s k]) (auto simp: s_def mb_def)
qed

lemma each_bucket_length: "each_bucket f bs = Some (bs', evs) \<Longrightarrow> length bs' = length bs"
  by (induction bs arbitrary: bs' evs) (auto simp: bind_eq_Some_conv)

lemma wr_length: "wr xs i x = Some ys \<Longrightarrow> length ys = length xs"
  by (auto simp: wr_def split: if_splits)

text \<open>The stores that sequences of operations produce, with a clock that does not overflow.\<close>

inductive store_reachable :: "StoreOptions \<Rightarrow> lruStore \<Rightarrow> bool" for opts where
  new: "NewStore opts = Some s \<Longrightarrow> store_reachable opts s"
| set: "store_reachable opts s \<Longrightarrow> 0 \<le> now \<Longrightarrow> now + expiration < 2 ^ 63 \<Longrightarrow>
    SetWithExpiration key v expiration now s = Some (s', evs) \<Longrightarrow> store_reachable opts s'"
| get: "store_reachable opts s \<Longrightarrow> Get key now s = Some (s', r, evs) \<Longrightarrow> store_reachable opts s'"
| delete: "store_reachable opts s \<Longrightarrow> Delete key s = Some (s', d, evs) \<Longrightarrow> store_reachable opts s'"
| clear: "store_reachable opts s \<Longrightarrow> iter_order ord \<Longrightarrow> Clear ord s = Some (s', evs) \<Longrightarrow> store_reachable opts s'"
| tick: "store_reachable opts s \<Longrightarrow> iter_order ord \<Longrightarrow> cleanup_tick ord now s = Some (s', evs) \<Longrightarrow> store_reachable opts s'"
| close: "store_reachable opts s \<Longrightarrow> store_reachable opts (Close s)"

lemma expiry_pos:
  assumes "0 \<le> now" "now + expiration < 2 ^ 63"
  shows "0 < (if expiration > 0 then wrap64 (now + expiration) else maxExpireAt)"
  using assms by (auto simp: wrap64_def maxExpireAt_def)

lemma op_shape:
  "SetWithExpiration key v x now s = Some (s', evs) \<Longrightarrow> maxBucketBytes s' = maxBucketBytes s \<and> length (caches s') = length (caches s)"
  "Get key now s = Some (s', r, evs) \<Longrightarrow> maxBucketBytes s' = maxBucketBytes s \<and> length (caches s') = length (caches s)"
  "Delete key s = Some (s', d, evs) \<Longrightarrow> maxBucketBytes s' = maxBucketBytes s \<and> length (caches s') = length (caches s)"
  "Clear ord s = Some (s', evs) \<Longrightarrow> maxBucketBytes s' = maxBucketBytes s \<and> length (caches s') = length (caches s)"
  "cleanup_tick ord now s = Some (s', evs) \<Longrightarrow> maxBucketBytes s' = maxBucketBytes s \<and> length (caches s') = length (caches s)"
  by (auto simp: SetWithExpiration_def Get_def Delete_def Clear_def cleanup_tick_def bind_eq_Some_conv Let_def
      dest: wr_length each_bucket_length)

lemma Clear_spec:
  assumes "store_inv s" "iter_order ord"
  shows "\<exists>s' evs. Clear ord s = Some (s', evs) \<and> store_inv s' \<and> store_view s' = Map.empty"
proof -
  have "(\<lambda>k. case store_view s k of Some (v, e) \<Rightarrow> if True then None else Some (v, e) | None \<Rightarrow> None) = Map.empty"
    by (auto split: option.split)
  then show ?thesis using sweep_spec [OF assms, of "\<lambda>_. True"] unfolding Clear_def clear_bucket_def by auto
qed

lemma cleanup_spec:
  assumes "store_inv s" "iter_order ord"
  shows "\<exists>s' evs. cleanup_tick ord now s = Some (s', evs) \<and> store_inv s' \<and>
    store_view s' = (\<lambda>k. case store_view s k of Some (v, e) \<Rightarrow> if now \<ge> e then None else Some (v, e) | None \<Rightarrow> None)"
  using sweep_spec [OF assms, of "\<lambda>e. now \<ge> e"] unfolding cleanup_tick_def expire_bucket_def by auto

lemma store_inv_Close: "store_inv s \<Longrightarrow> store_inv (Close s)"
  by (simp add: Close_def store_inv_def bucketIdx_def)

lemma reachable_inv:
  assumes sane: "sane_options opts" and "store_reachable opts s"
  shows "store_inv s \<and> (\<exists>k. length (caches s) = 2 ^ k \<and>
    maxBucketBytes s = (if so_MaxBytes opts > 0 then max 1 (so_MaxBytes opts div 2 ^ k) else 0))"
  using assms(2)
proof induction
  case (new s)
  then show ?case using NewStore_spec [OF sane] by (metis option.inject)
next
  case (set s now expiration key v s' evs)
  then show ?case using Set_spec [of s expiration now key v] expiry_pos [of now expiration] op_shape(1) [OF set.hyps(4)] by auto
next
  case (get s key now s' r evs)
  then show ?case using Get_spec [of s key now] op_shape(2) [OF get.hyps(2)] by auto
next
  case (delete s key s' d evs)
  then show ?case using Delete_spec [of s key] op_shape(3) [OF delete.hyps(2)] by auto
next
  case (clear s ord s' evs)
  then show ?case using Clear_spec [of s ord] op_shape(4) [OF clear.hyps(3)] by auto
next
  case (tick s ord now s' evs)
  then show ?case using cleanup_spec [of s ord now] op_shape(5) [OF tick.hyps(3)] by auto
next
  case (close s)
  then show ?case using store_inv_Close by (auto simp: Close_def)
qed

section \<open>Properties\<close>

text \<open>A one-bucket store with two entries per level and a ten-byte budget, for the witnesses.\<close>

definition small_options :: StoreOptions where
  "small_options = \<lparr>so_MaxBytes = 10, so_BucketCount = 1, so_CapPerBucket = 2, so_Level2Cap = 2,
     so_CleanupInterval = 0, so_OnEvicted = True\<rparr>"

lemma small_sane: "sane_options small_options"
  by (simp add: sane_options_def small_options_def)

lemma small_mask: "MaskOfNextPowOf2 1 = 0"
  by (simp add: MaskOfNextPowOf2_def)

definition small_store :: lruStore where
  "small_store = \<lparr>caches = [(Create 2, Create 2)], onEvicted = True, maxBucketBytes = 10, mask = 0, closeCh_closed = False\<rparr>"

lemma small_store: "NewStore small_options = Some small_store"
  by (simp add: NewStore_def small_options_def small_store_def small_mask Let_def with_defaults_def)

lemma small_store_facts:
  "store_inv small_store" "store_view small_store = Map.empty" "bucketIdx key small_store = Some 0"
  "l1 (caches small_store ! 0) = []"
proof -
  show "store_inv small_store" "store_view small_store = Map.empty"
    using NewStore_spec [OF small_sane] small_store by (metis option.inject)+
  show "bucketIdx key small_store = Some 0" by (simp add: bucketIdx_def small_store_def)
  show "l1 (caches small_store ! 0) = []" by (simp add: small_store_def l1_def)
qed

text \<open>
  C5. No reachable store exceeds its budget: after any sequence of writes, reads, deletions,
  clears and cleanup ticks from \<open>NewStore\<close>, the byte counter \<open>Bytes\<close> is the total size of the
  entries the store holds and is at most \<open>MaxBytes\<close>, provided there is at least a byte for
  each bucket.
\<close>

theorem store_within_MaxBytes:
  assumes "sane_options opts" and "store_reachable opts s" and "0 < so_MaxBytes opts"
    and "int (length (caches s)) \<le> so_MaxBytes opts"
  shows "\<exists>n. Bytes s = Some n \<and> n = (\<Sum>b \<leftarrow> caches s. esize (l0 b) + esize (l1 b)) \<and> n \<le> so_MaxBytes opts"
proof -
  obtain k where inv: "store_inv s" and k: "length (caches s) = 2 ^ k"
    and mb: "maxBucketBytes s = max 1 (so_MaxBytes opts div 2 ^ k)"
    using reachable_inv [OF assms(1,2)] assms(3) by auto
  have b: "bucket_inv b \<and> bucket_bytes b \<le> maxBucketBytes s" if "b \<in> set (caches s)" for b
    using that inv mb by (auto simp: store_inv_def in_set_conv_nth within_budget_def)
  have "Bytes s = Some (\<Sum>b \<leftarrow> caches s. bucket_bytes b)"
    unfolding Bytes_def by (rule sum_buckets_spec) (simp add: bucket_bytes_def)
  moreover have "(\<Sum>b \<leftarrow> caches s. bucket_bytes b) = (\<Sum>b \<leftarrow> caches s. esize (l0 b) + esize (l1 b))"
    using b bucket_bytes_eq by (metis (no_types, lifting) map_cong)
  moreover have "(\<Sum>b \<leftarrow> caches s. bucket_bytes b) \<le> (\<Sum>b \<leftarrow> caches s. maxBucketBytes s)"
    by (rule sum_list_mono) (use b in auto)
  moreover have "(\<Sum>b \<leftarrow> caches s. maxBucketBytes s) = 2 ^ k * maxBucketBytes s"
    by (simp add: sum_list_triv k)
  moreover have "2 ^ k * maxBucketBytes s \<le> so_MaxBytes opts"
  proof -
    have "0 \<le> so_MaxBytes opts mod 2 ^ k" by simp
    then have "2 ^ k * (so_MaxBytes opts div 2 ^ k) \<le> so_MaxBytes opts"
      using minus_mod_eq_mult_div [of "so_MaxBytes opts" "2 ^ k"] by linarith
    then show ?thesis using assms(4) k unfolding mb by (simp add: max_def)
  qed
  ultimately show ?thesis by simp
qed

theorem store_within_MaxBytes_witness:
  "\<exists>n. Bytes small_store = Some n \<and> n = (\<Sum>b \<leftarrow> caches small_store. esize (l0 b) + esize (l1 b)) \<and> n \<le> 10"
  using store_within_MaxBytes [OF small_sane store_reachable.new [OF small_store]]
  by (simp add: small_options_def small_store_def)



text \<open>
  A read returns the value the store holds for the key exactly when it has not expired,
  keeps that entry, drops an expired one, and changes no other entry except that the promotion
  may push the least recently used ones out.
\<close>

theorem Get_returns_live_value:
  assumes "store_inv s"
  shows "\<exists>s' evs. Get key now s = Some (s',
      (case store_view s key of Some (v, e) \<Rightarrow> if now < e then Some v else None | None \<Rightarrow> None), evs)
    \<and> store_inv s' \<and> store_view s' \<subseteq>\<^sub>m store_view s
    \<and> store_view s' key = (case store_view s key of Some (v, e) \<Rightarrow> if now < e then Some (v, e) else None | None \<Rightarrow> None)"
  by (rule Get_spec [OF assms])

theorem Get_returns_live_value_witness:
  "\<exists>s' evs. Get ''a'' 5 small_store = Some (s', None, evs) \<and> store_inv s' \<and> store_view s' ''a'' = None"
  using Get_returns_live_value [OF small_store_facts(1), of "''a''" 5] small_store_facts(2) by auto

text \<open>
  A write followed by a read of the key before its expiry returns the value exactly when the
  entry fits in the budget beside the level-1 entries of its bucket (or there is no budget).
  When it does not, the eviction loop drains level 0, the new entry included, before it touches
  level 1, and the read misses, although the entry alone may be far below the budget.
\<close>

theorem set_then_get:
  assumes "store_inv s" and "0 \<le> now" and "now + expiration < 2 ^ 63"
    and "t < (if expiration > 0 then now + expiration else maxExpireAt)" and "bucketIdx key s = Some i"
  shows "\<exists>s1 evs1 s2 evs2. SetWithExpiration key v expiration now s = Some (s1, evs1) \<and>
    Get key t s1 = Some (s2,
      (if maxBucketBytes s = 0 \<or> entryBytes key v + esize (without fst key (l1 (caches s ! i))) \<le> maxBucketBytes s
       then Some v else None), evs2)"
proof -
  have w: "expiration > 0 \<Longrightarrow> wrap64 (now + expiration) = now + expiration"
    using assms(2,3) by (simp add: wrap64_def)
  obtain s1 evs1 where s1: "SetWithExpiration key v expiration now s = Some (s1, evs1)" "store_inv s1"
    "store_view s1 key = (if maxBucketBytes s = 0 \<or> entryBytes key v + esize (without fst key (l1 (caches s ! i))) \<le> maxBucketBytes s
       then Some (v, if expiration > 0 then wrap64 (now + expiration) else maxExpireAt) else None)"
    using Set_spec [OF assms(1) expiry_pos [OF assms(2,3)], of key v] assms(5) by blast
  obtain s2 evs2 where s2: "Get key t s1 = Some (s2,
      (case store_view s1 key of Some (v, e) \<Rightarrow> if t < e then Some v else None | None \<Rightarrow> None), evs2)"
    using Get_spec [OF s1(2)] by blast
  show ?thesis using s1(1) s2 assms(4) w unfolding s1(3) by (auto split: if_splits)
qed

theorem set_then_get_witness:
  "\<exists>s1 evs1 s2 evs2. SetWithExpiration ''a'' None 5 7 small_store = Some (s1, evs1) \<and> Get ''a'' 8 s1 = Some (s2, Some None, evs2)"
  using set_then_get [OF small_store_facts(1), of 7 5 8 "''a''" 0 None] small_store_facts(3,4)
  by (simp add: entryBytes_def small_store_def)

text \<open>
  Deletion, clearing and the cleanup tick act on the store as a map: \<open>Delete\<close> removes
  exactly its key and reports whether it was there, \<open>Clear\<close> empties the map, and a cleanup tick
  removes exactly the expired entries, in whatever order the maps are iterated.
\<close>

theorem removals_exact:
  assumes "store_inv s" and "iter_order ord"
  shows "(\<exists>s' evs. Delete key s = Some (s', store_view s key \<noteq> None, evs) \<and> store_view s' = (store_view s)(key := None))
    \<and> (\<exists>s' evs. Clear ord s = Some (s', evs) \<and> store_view s' = Map.empty)
    \<and> (\<exists>s' evs. cleanup_tick ord now s = Some (s', evs) \<and>
        store_view s' = (\<lambda>k. case store_view s k of Some (v, e) \<Rightarrow> if now \<ge> e then None else Some (v, e) | None \<Rightarrow> None))"
  using Delete_spec [OF assms(1)] Clear_spec [OF assms] cleanup_spec [OF assms] by meson

theorem removals_exact_witness:
  "\<exists>s' evs. Delete ''a'' small_store = Some (s', False, evs) \<and> store_view s' = Map.empty"
  using removals_exact [OF small_store_facts(1), of rev "''a''" 5] small_store_facts(2) by (auto simp: iter_order_def)

text \<open>\<open>Len\<close> counts the keys of the map, each once, although a bucket has two levels.\<close>

theorem Len_counts_keys:
  assumes "store_inv s"
  shows "Len s = Some (int (card (dom (store_view s))))"
  by (rule Len_spec [OF assms])

theorem Len_counts_keys_witness: "Len small_store = Some 0"
  using Len_counts_keys [OF small_store_facts(1)] small_store_facts(2) by simp

text \<open>
  A bucket count above 32768 cannot be served: the mask becomes \<open>0xFFFF\<close>, \<open>mask+1\<close> wraps
  to 0, and the constructor divides by zero when a byte budget is set; without a budget it
  returns a store with no bucket, on which every read panics.
\<close>

theorem NewStore_bucket_count_wraps:
  "NewStore (opts\<lparr>so_BucketCount := 40000, so_MaxBytes := 1\<rparr>) = None \<and>
   (\<exists>s. NewStore (opts\<lparr>so_BucketCount := 40000, so_MaxBytes := 0\<rparr>) = Some s \<and> Get key now s = None)"
proof -
  have m: "MaskOfNextPowOf2 40000 = 65535" by (simp add: MaskOfNextPowOf2_def)
  show ?thesis by (auto simp: NewStore_def m Let_def Get_def rd_def bind_eq_None_conv split: option.splits)
qed

end
