(* ===== verification/Cache_Group.thy ===== *)
theory Cache_Group
  imports Cache_Store
begin

text \<open>
  The cache wrapper (\<open>src/swifty_cache/cache.go\<close>) and the cache group (\<open>group.go\<close>): lazy creation
  of the store, hit and miss counters, read-through loading with an optional peer, writes with an
  optional time to live, and the global registry of groups.

  The data source (\<open>Getter\<close>), the peer picker and the peers are parameters. The wall clock and the
  store clock are arguments. \<open>load\<close> is modelled for a caller that leads its single flight; the
  concurrent behaviour of the flight is in \<open>Cache_Single_Flight\<close>. A goroutine that syncs a write
  to a peer is a value returned to the caller.
\<close>

section \<open>The cache wrapper\<close>

record CacheOptions =
  co_MaxBytes :: int
  co_BucketCount :: "16 word"
  co_CapPerBucket :: nat
  co_Level2Cap :: nat
  co_CleanupTime :: int
  co_OnEvicted :: bool
  co_DashboardAddr :: string

definition DefaultCacheOptions :: CacheOptions where
  "DefaultCacheOptions = \<lparr>co_MaxBytes = 8 * 1024 * 1024, co_BucketCount = 16, co_CapPerBucket = 512,
     co_Level2Cap = 256, co_CleanupTime = 60 * 10 ^ 9, co_OnEvicted = False, co_DashboardAddr = []\<rparr>"

record Cache =
  store :: "lruStore option"
  copts :: CacheOptions
  hits :: int
  misses :: int
  initialized :: bool
  cclosed :: bool

definition NewCache :: "CacheOptions \<Rightarrow> Cache" where
  "NewCache opts = \<lparr>store = None, copts = opts, hits = 0, misses = 0, initialized = False, cclosed = False\<rparr>"

definition store_options :: "CacheOptions \<Rightarrow> StoreOptions" where
  "store_options o' = \<lparr>so_MaxBytes = co_MaxBytes o', so_BucketCount = co_BucketCount o', so_CapPerBucket = co_CapPerBucket o',
     so_Level2Cap = co_Level2Cap o', so_CleanupInterval = co_CleanupTime o', so_OnEvicted = co_OnEvicted o'\<rparr>"

definition ensureInitialized :: "Cache \<Rightarrow> Cache option" where
  "ensureInitialized c =
     (if initialized c then Some c
      else if cclosed c then Some c
      else do { s \<leftarrow> NewStore (store_options (copts c)); Some (c\<lparr>store := Some s, initialized := True\<rparr>) })"

definition cache_Add :: "string \<Rightarrow> ByteView \<Rightarrow> int \<Rightarrow> Cache \<Rightarrow> Cache option" where
  "cache_Add key v now c =
     (if cclosed c then Some c
      else do {
        c \<leftarrow> ensureInitialized c;
        (case store c of
           None \<Rightarrow> Some c
         | Some s \<Rightarrow> do { (s, _) \<leftarrow> Set key (Some v) now s; Some (c\<lparr>store := Some s\<rparr>) }) })"

definition miss :: "Cache \<Rightarrow> Cache \<times> ByteView option" where
  "miss c = (c\<lparr>misses := misses c + 1\<rparr>, None)"

definition cache_Get :: "string \<Rightarrow> int \<Rightarrow> Cache \<Rightarrow> (Cache \<times> ByteView option) option" where
  "cache_Get key now c =
     (if cclosed c then Some (c, None)
      else if \<not> initialized c then Some (miss c)
      else (case store c of
         None \<Rightarrow> Some (miss c)
       | Some s \<Rightarrow> do {
           (s, r, _) \<leftarrow> Get key now s;
           let c = c\<lparr>store := Some s\<rparr>;
           (case r of
              None \<Rightarrow> Some (miss c)
            | Some None \<Rightarrow> Some (miss c)
            | Some (Some bv) \<Rightarrow> Some (c\<lparr>hits := hits c + 1\<rparr>, Some bv)) }))"

definition cache_AddWithExpiration :: "string \<Rightarrow> ByteView \<Rightarrow> int \<Rightarrow> int \<Rightarrow> int \<Rightarrow> Cache \<Rightarrow> Cache option" where
  "cache_AddWithExpiration key v expirationTime wall now c =
     (if cclosed c then Some c
      else let expiration = expirationTime - wall in
      if expiration \<le> 0 then Some c
      else do {
        c \<leftarrow> ensureInitialized c;
        (case store c of
           None \<Rightarrow> Some c
         | Some s \<Rightarrow> do { (s, _) \<leftarrow> SetWithExpiration key (Some v) expiration now s; Some (c\<lparr>store := Some s\<rparr>) }) })"

definition cache_Delete :: "string \<Rightarrow> Cache \<Rightarrow> (Cache \<times> bool) option" where
  "cache_Delete key c =
     (if cclosed c \<or> \<not> initialized c then Some (c, False)
      else (case store c of
         None \<Rightarrow> Some (c, False)
       | Some s \<Rightarrow> do { (s, d, _) \<leftarrow> Delete key s; Some (c\<lparr>store := Some s\<rparr>, d) }))"

definition cache_Clear :: "(string list \<Rightarrow> string list) \<Rightarrow> Cache \<Rightarrow> Cache option" where
  "cache_Clear ord c =
     (if cclosed c \<or> \<not> initialized c then Some c
      else (case store c of
         None \<Rightarrow> Some c
       | Some s \<Rightarrow> do { (s, _) \<leftarrow> Clear ord s; Some (c\<lparr>store := Some s, hits := 0, misses := 0\<rparr>) }))"

definition cache_Len :: "Cache \<Rightarrow> int option" where
  "cache_Len c =
     (if cclosed c \<or> \<not> initialized c then Some 0
      else (case store c of None \<Rightarrow> Some 0 | Some s \<Rightarrow> Len s))"

text \<open>\<open>Close\<close> also closes the store it drops.\<close>

definition cache_Close :: "Cache \<Rightarrow> Cache" where
  "cache_Close c = (if cclosed c then c else c\<lparr>cclosed := True, store := None, initialized := False\<rparr>)"

definition DashboardEnabled :: "Cache \<Rightarrow> bool" where
  "DashboardEnabled c \<longleftrightarrow> co_DashboardAddr (copts c) \<noteq> []"

definition cache_Entries :: "Cache \<Rightarrow> Entry list option" where
  "cache_Entries c =
     (if cclosed c \<or> \<not> initialized c then Some []
      else (case store c of None \<Rightarrow> Some [] | Some s \<Rightarrow> Walk (\<lambda>es e. (es @ [e], True)) [] s))"

section \<open>The group\<close>

datatype gerr = ErrGroupClosed | ErrKeyRequired | ErrValueRequired | LoadErr string

record groupStats =
  gets :: int
  loads :: int
  loadsDeduped :: int
  localHits :: int
  localMisses :: int
  peerHits :: int
  peerMisses :: int
  loaderHits :: int
  loaderErrors :: int

type_synonym 'p picker = "string \<Rightarrow> 'p option \<times> bool \<times> bool"

record 'p Group =
  g_name :: string
  mainCache :: Cache
  g_peers :: "'p picker option"
  expiration :: int
  gclosed :: bool
  stats :: groupStats

definition zero_stats :: groupStats where
  "zero_stats = \<lparr>gets = 0, loads = 0, loadsDeduped = 0, localHits = 0, localMisses = 0, peerHits = 0, peerMisses = 0,
     loaderHits = 0, loaderErrors = 0\<rparr>"

text \<open>\<open>NewGroup\<close> before the registration, with the options for the time to live and the peers.\<close>

definition new_group :: "string \<Rightarrow> int \<Rightarrow> 'p picker option \<Rightarrow> int \<Rightarrow> 'p Group" where
  "new_group name cacheBytes peers ttl =
     \<lparr>g_name = name, mainCache = NewCache (DefaultCacheOptions\<lparr>co_MaxBytes := cacheBytes\<rparr>), g_peers = peers,
      expiration = ttl, gclosed = False, stats = zero_stats\<rparr>"

text \<open>Clock readings of one operation: two of the wall clock and one of the store's.\<close>

record clocks =
  wall1 :: int
  wall2 :: int
  snow :: int

definition put_cache :: "string \<Rightarrow> ByteView \<Rightarrow> clocks \<Rightarrow> 'p Group \<Rightarrow> 'p Group option" where
  "put_cache key view t g = do {
     c \<leftarrow> (if expiration g > 0
          then cache_AddWithExpiration key view (wall1 t + expiration g) (wall2 t) (snow t) (mainCache g)
          else cache_Add key view (snow t) (mainCache g));
     Some (g\<lparr>mainCache := c\<rparr>) }"

text \<open>\<open>peer_get\<close> is \<open>Peer.Get\<close>, \<open>getter\<close> the group's \<open>Getter\<close>; \<open>peer_req\<close> marks a forwarded request.\<close>

definition getFromPeer :: "('p \<Rightarrow> string \<Rightarrow> string \<Rightarrow> string + bytes) \<Rightarrow> 'p \<Rightarrow> string \<Rightarrow> 'p Group \<Rightarrow> string + ByteView" where
  "getFromPeer peer_get peer key g =
     (case peer_get peer (g_name g) key of
        Inl e \<Rightarrow> Inl (''failed to get from peer: '' @ e) | Inr b \<Rightarrow> Inr \<lparr>bv_b = b\<rparr>)"

definition load_local :: "(string \<Rightarrow> string + bytes) \<Rightarrow> string \<Rightarrow> 'p Group \<Rightarrow> 'p Group \<times> (string + ByteView)" where
  "load_local getter key g =
     (case getter key of
        Inl e \<Rightarrow> (g, Inl (''failed to get data: '' @ e))
      | Inr b \<Rightarrow> (g\<lparr>stats := (stats g)\<lparr>loaderHits := loaderHits (stats g) + 1\<rparr>\<rparr>, Inr \<lparr>bv_b = b\<rparr>))"

definition loadData ::
  "('p \<Rightarrow> string \<Rightarrow> string \<Rightarrow> string + bytes) \<Rightarrow> (string \<Rightarrow> string + bytes) \<Rightarrow> bool \<Rightarrow> string \<Rightarrow> 'p Group \<Rightarrow>
   'p Group \<times> (string + ByteView)" where
  "loadData peer_get getter peer_req key g =
     (case g_peers g of
        Some pick \<Rightarrow>
          if peer_req then load_local getter key g
          else (case pick key of
             (Some peer, True, False) \<Rightarrow>
               (case getFromPeer peer_get peer key g of
                  Inr v \<Rightarrow> (g\<lparr>stats := (stats g)\<lparr>peerHits := peerHits (stats g) + 1\<rparr>\<rparr>, Inr v)
                | Inl e \<Rightarrow> load_local getter key (g\<lparr>stats := (stats g)\<lparr>peerMisses := peerMisses (stats g) + 1\<rparr>\<rparr>))
           | _ \<Rightarrow> load_local getter key g)
      | None \<Rightarrow> load_local getter key g)"

text \<open>The function that \<open>load\<close> gives to the single flight.\<close>

definition load_fn ::
  "('p \<Rightarrow> string \<Rightarrow> string \<Rightarrow> string + bytes) \<Rightarrow> (string \<Rightarrow> string + bytes) \<Rightarrow> bool \<Rightarrow> string \<Rightarrow> clocks \<Rightarrow> 'p Group \<Rightarrow>
   ('p Group \<times> (string + ByteView)) option" where
  "load_fn peer_get getter peer_req key t g = do {
     (c, r) \<leftarrow> cache_Get key (snow t) (mainCache g);
     let g = g\<lparr>mainCache := c\<rparr>;
     (case r of
        Some view \<Rightarrow> Some (g, Inr view)
      | None \<Rightarrow>
          (let g = g\<lparr>stats := (stats g)\<lparr>loadsDeduped := loadsDeduped (stats g) + 1\<rparr>\<rparr>
           in case loadData peer_get getter peer_req key g of
                (g, Inl e) \<Rightarrow> Some (g, Inl e)
              | (g, Inr view) \<Rightarrow> do { g \<leftarrow> put_cache key view t g; Some (g, Inr view) })) }"

definition load ::
  "('p \<Rightarrow> string \<Rightarrow> string \<Rightarrow> string + bytes) \<Rightarrow> (string \<Rightarrow> string + bytes) \<Rightarrow> bool \<Rightarrow> string \<Rightarrow> clocks \<Rightarrow> 'p Group \<Rightarrow>
   ('p Group \<times> (gerr + ByteView)) option" where
  "load peer_get getter peer_req key t g = do {
     (g, r) \<leftarrow> load_fn peer_get getter peer_req key t g;
     let g = g\<lparr>stats := (stats g)\<lparr>loads := loads (stats g) + 1\<rparr>\<rparr>;
     (case r of
        Inl e \<Rightarrow> Some (g\<lparr>stats := (stats g)\<lparr>loaderErrors := loaderErrors (stats g) + 1\<rparr>\<rparr>, Inl (LoadErr e))
      | Inr view \<Rightarrow> Some (g, Inr view)) }"

definition group_Get ::
  "('p \<Rightarrow> string \<Rightarrow> string \<Rightarrow> string + bytes) \<Rightarrow> (string \<Rightarrow> string + bytes) \<Rightarrow> bool \<Rightarrow> string \<Rightarrow> clocks \<Rightarrow> 'p Group \<Rightarrow>
   ('p Group \<times> (gerr + ByteView)) option" where
  "group_Get peer_get getter peer_req key t g =
     (if gclosed g then Some (g, Inl ErrGroupClosed)
      else if key = [] then Some (g, Inl ErrKeyRequired)
      else do {
        let g = g\<lparr>stats := (stats g)\<lparr>gets := gets (stats g) + 1\<rparr>\<rparr>;
        (c, r) \<leftarrow> cache_Get key (snow t) (mainCache g);
        let g = g\<lparr>mainCache := c\<rparr>;
        (case r of
           Some view \<Rightarrow> Some (g\<lparr>stats := (stats g)\<lparr>localHits := localHits (stats g) + 1\<rparr>\<rparr>, Inr view)
         | None \<Rightarrow> load peer_get getter peer_req key t (g\<lparr>stats := (stats g)\<lparr>localMisses := localMisses (stats g) + 1\<rparr>\<rparr>)) })"

text \<open>A goroutine running \<open>syncToPeers\<close> and the peer call it makes.\<close>

datatype sync_op = SyncSet bytes | SyncDelete

datatype 'p peer_call = PeerSet 'p string string bytes | PeerDelete 'p string string

definition syncToPeers :: "'p picker \<Rightarrow> string \<Rightarrow> sync_op \<Rightarrow> string \<Rightarrow> 'p peer_call option" where
  "syncToPeers pick name op key =
     (case pick key of
        (Some peer, True, False) \<Rightarrow>
          Some (case op of SyncSet v \<Rightarrow> PeerSet peer name key v | SyncDelete \<Rightarrow> PeerDelete peer name key)
      | _ \<Rightarrow> None)"

definition spawn_sync :: "bool \<Rightarrow> sync_op \<Rightarrow> string \<Rightarrow> 'p Group \<Rightarrow> 'p peer_call option" where
  "spawn_sync peer_req op key g =
     (if peer_req then None
      else (case g_peers g of None \<Rightarrow> None | Some pick \<Rightarrow> syncToPeers pick (g_name g) op key))"

definition group_Set :: "bool \<Rightarrow> string \<Rightarrow> bytes \<Rightarrow> clocks \<Rightarrow> 'p Group \<Rightarrow> ('p Group \<times> gerr option \<times> 'p peer_call option) option" where
  "group_Set peer_req key v t g =
     (if gclosed g then Some (g, Some ErrGroupClosed, None)
      else if key = [] then Some (g, Some ErrKeyRequired, None)
      else if v = [] then Some (g, Some ErrValueRequired, None)
      else do {
        g \<leftarrow> put_cache key \<lparr>bv_b = v\<rparr> t g;
        Some (g, None, spawn_sync peer_req (SyncSet v) key g) })"

definition group_Delete :: "bool \<Rightarrow> string \<Rightarrow> 'p Group \<Rightarrow> ('p Group \<times> gerr option \<times> 'p peer_call option) option" where
  "group_Delete peer_req key g =
     (if gclosed g then Some (g, Some ErrGroupClosed, None)
      else if key = [] then Some (g, Some ErrKeyRequired, None)
      else do {
        (c, _) \<leftarrow> cache_Delete key (mainCache g);
        Some (g\<lparr>mainCache := c\<rparr>, None, spawn_sync peer_req SyncDelete key g) })"

definition group_Clear :: "(string list \<Rightarrow> string list) \<Rightarrow> 'p Group \<Rightarrow> 'p Group option" where
  "group_Clear ord g =
     (if gclosed g then Some g else do { c \<leftarrow> cache_Clear ord (mainCache g); Some (g\<lparr>mainCache := c\<rparr>) })"

definition close_group :: "'p Group \<Rightarrow> 'p Group" where
  "close_group g = (if gclosed g then g else g\<lparr>gclosed := True, mainCache := cache_Close (mainCache g)\<rparr>)"

definition RegisterPeers :: "'p picker \<Rightarrow> 'p Group \<Rightarrow> 'p Group option" where
  "RegisterPeers pick g = (case g_peers g of Some _ \<Rightarrow> None | None \<Rightarrow> Some (g\<lparr>g_peers := Some pick\<rparr>))"

section \<open>The registry\<close>

text \<open>
  Groups are identified by numbers (pointers). \<open>Group.Close\<close> is two atomic actions: the swap of
  the closed flag and the deletion of the name; \<open>DestroyGroup\<close> first deletes the name under the
  lock and then closes the group outside it.
\<close>

record registry =
  rg_groups :: "(string, nat) gomap"
  rg_name :: "nat \<Rightarrow> string"
  rg_closed :: "nat \<Rightarrow> bool"

definition registry_New :: "string \<Rightarrow> nat \<Rightarrow> registry \<Rightarrow> registry option" where
  "registry_New name g r =
     (case gm_get (rg_groups r) name of
        Some _ \<Rightarrow> None
      | None \<Rightarrow> Some (r\<lparr>rg_groups := gm_set name g (rg_groups r), rg_name := (rg_name r)(g := name),
                        rg_closed := (rg_closed r)(g := False)\<rparr>))"

definition GetGroup :: "string \<Rightarrow> registry \<Rightarrow> nat option" where
  "GetGroup name r = gm_get (rg_groups r) name"

definition registry_Close :: "nat \<Rightarrow> registry \<Rightarrow> registry" where
  "registry_Close g r =
     (if rg_closed r g then r
      else r\<lparr>rg_closed := (rg_closed r)(g := True), rg_groups := gm_del (rg_name r g) (rg_groups r)\<rparr>)"

definition destroy_unlink :: "string \<Rightarrow> registry \<Rightarrow> registry \<times> nat option" where
  "destroy_unlink name r =
     (case gm_get (rg_groups r) name of
        None \<Rightarrow> (r, None) | Some g \<Rightarrow> (r\<lparr>rg_groups := gm_del name (rg_groups r)\<rparr>, Some g))"

definition DestroyGroup :: "string \<Rightarrow> registry \<Rightarrow> registry \<times> bool" where
  "DestroyGroup name r =
     (case destroy_unlink name r of (r, None) \<Rightarrow> (r, False) | (r, Some g) \<Rightarrow> (registry_Close g r, True))"

definition ListGroups :: "registry \<Rightarrow> string list" where
  "ListGroups r = map fst (rg_groups r)"

section \<open>The wrapper as a map\<close>

definition cache_view :: "Cache \<Rightarrow> string \<Rightarrow> (gvalue \<times> int) option" where
  "cache_view c k = (case store c of None \<Rightarrow> None | Some s \<Rightarrow> store_view s k)"

definition cache_ok :: "Cache \<Rightarrow> bool" where
  "cache_ok c \<longleftrightarrow> \<not> cclosed c \<and> (initialized c \<longleftrightarrow> store c \<noteq> None) \<and> (\<forall>s. store c = Some s \<longrightarrow> store_inv s) \<and>
     sane_options (store_options (copts c))"

lemma cache_ok_New: "sane_options (store_options opts) \<Longrightarrow> cache_ok (NewCache opts) \<and> cache_view (NewCache opts) = Map.empty"
  by (simp add: cache_ok_def NewCache_def cache_view_def fun_eq_iff)

lemma cache_Get_spec:
  assumes "cache_ok c"
  shows "\<exists>c'. cache_Get key now c = Some (c', case cache_view c key of Some (Some bv, e) \<Rightarrow> if now < e then Some bv else None | _ \<Rightarrow> None)
    \<and> cache_ok c' \<and> cache_view c' \<subseteq>\<^sub>m cache_view c"
proof (cases "store c")
  case None
  then show ?thesis using assms by (simp add: cache_Get_def cache_ok_def miss_def cache_view_def map_le_def)
next
  case (Some s)
  then have inv: "store_inv s" and ini: "initialized c" "\<not> cclosed c" using assms by (auto simp: cache_ok_def)
  obtain s' evs where g: "Get key now s = Some (s',
      (case store_view s key of Some (v, e) \<Rightarrow> if now < e then Some v else None | None \<Rightarrow> None), evs)"
    "store_inv s'" "store_view s' \<subseteq>\<^sub>m store_view s"
    using Get_spec [OF inv, of key now] by blast
  have v: "cache_view c = store_view s" using Some by (simp add: cache_view_def fun_eq_iff)
  have w: "cache_view (c\<lparr>store := Some s', misses := m\<rparr>) = store_view s'" "cache_view (c\<lparr>store := Some s', hits := m\<rparr>) = store_view s'" for m
    by (simp_all add: cache_view_def fun_eq_iff)
  show ?thesis using g ini assms Some unfolding v
    by (cases "store_view s key") (auto simp: cache_Get_def miss_def cache_ok_def w split: option.split)
qed

lemma ensureInitialized_spec:
  assumes "cache_ok c"
  obtains c' s where "ensureInitialized c = Some c'" "cache_ok c'" "store c' = Some s" "store_inv s"
    "cache_view c' = cache_view c" "copts c' = copts c"
proof (cases "initialized c")
  case True
  then obtain s where s: "store c = Some s" using assms by (auto simp: cache_ok_def)
  have "store_inv s" using assms s by (simp add: cache_ok_def)
  then show ?thesis using that [of c s] s assms True by (simp add: ensureInitialized_def)
next
  case False
  then have none: "store c = None" and sane: "sane_options (store_options (copts c))" and "\<not> cclosed c" using assms by (auto simp: cache_ok_def)
  obtain s where s: "NewStore (store_options (copts c)) = Some s" "store_inv s" "store_view s = Map.empty"
    using NewStore_spec [OF sane] by metis
  let ?c = "c\<lparr>store := Some s, initialized := True\<rparr>"
  have "cache_view ?c = cache_view c" using s(3) none by (simp add: cache_view_def fun_eq_iff)
  then show ?thesis using that [of ?c s] s False assms by (simp add: ensureInitialized_def cache_ok_def)
qed

text \<open>A write: the key gets the value or nothing; no other entry appears or changes.\<close>

definition wrote :: "string \<Rightarrow> ByteView \<Rightarrow> Cache \<Rightarrow> Cache \<Rightarrow> bool" where
  "wrote key v c c' \<longleftrightarrow> (\<forall>k y. cache_view c' k = Some y \<longrightarrow> cache_view c k = Some y \<or> k = key \<and> fst y = Some v)"

lemma store_write:
  assumes "cache_ok c" "0 \<le> now" "now + ttl < 2 ^ 63"
  shows "\<exists>c'. do { c \<leftarrow> ensureInitialized c; (case store c of None \<Rightarrow> Some c
      | Some s \<Rightarrow> do { (s, _) \<leftarrow> SetWithExpiration key (Some v) ttl now s; Some (c\<lparr>store := Some s\<rparr>) }) } = Some c'
    \<and> cache_ok c' \<and> wrote key v c c'"
proof -
  obtain c1 s where c1: "ensureInitialized c = Some c1" "cache_ok c1" "store c1 = Some s" "store_inv s" "cache_view c1 = cache_view c"
    by (rule ensureInitialized_spec [OF assms(1)]) (rule that, assumption+)
  obtain s' evs where s': "SetWithExpiration key (Some v) ttl now s = Some (s', evs)" "store_inv s'"
    "store_view s' \<subseteq>\<^sub>m (store_view s)(key \<mapsto> (Some v, if ttl > 0 then wrap64 (now + ttl) else maxExpireAt))"
    using Set_spec [OF c1(4) expiry_pos [OF assms(2,3)], of key "Some v"] by blast
  let ?c = "c1\<lparr>store := Some s'\<rparr>"
  have v1: "cache_view c k = store_view s k" for k using c1(3,5) by (simp add: cache_view_def fun_eq_iff)
  have "wrote key v c ?c"
    unfolding wrote_def
  proof (intro allI impI)
    fix k y assume y: "cache_view ?c k = Some y"
    then have "((store_view s)(key \<mapsto> (Some v, if ttl > 0 then wrap64 (now + ttl) else maxExpireAt))) k = Some y"
      using s'(3) by (simp add: cache_view_def map_le_def dom_def)
    then show "cache_view c k = Some y \<or> k = key \<and> fst y = Some v" by (auto simp: v1 split: if_splits)
  qed
  moreover have "cache_ok ?c" using c1(2) s'(2) c1(3) by (simp add: cache_ok_def)
  ultimately show ?thesis using c1(1,3) s'(1) by simp
qed

definition clocks_ok :: "clocks \<Rightarrow> 'p Group \<Rightarrow> bool" where
  "clocks_ok t g \<longleftrightarrow> 0 \<le> snow t \<and> snow t < 2 ^ 63 \<and> snow t + (wall1 t + expiration g - wall2 t) < 2 ^ 63"

lemma put_cache_spec:
  assumes "cache_ok (mainCache g)" "clocks_ok t g"
  shows "\<exists>c. put_cache key v t g = Some (g\<lparr>mainCache := c\<rparr>) \<and> cache_ok c \<and> wrote key v (mainCache g) c"
proof (cases "expiration g > 0")
  case True
  let ?ttl = "wall1 t + expiration g - wall2 t"
  show ?thesis
  proof (cases "?ttl \<le> 0")
    case True
    then have "put_cache key v t g = Some (g\<lparr>mainCache := mainCache g\<rparr>)" using assms(1) \<open>expiration g > 0\<close>
      by (simp add: put_cache_def cache_AddWithExpiration_def cache_ok_def Let_def)
    then show ?thesis using assms(1) by (intro exI [of _ "mainCache g"]) (simp add: wrote_def)
  next
    case False
    obtain c where c: "do { c \<leftarrow> ensureInitialized (mainCache g); (case store c of None \<Rightarrow> Some c
      | Some s \<Rightarrow> do { (s, _) \<leftarrow> SetWithExpiration key (Some v) ?ttl (snow t) s; Some (c\<lparr>store := Some s\<rparr>) }) } = Some c"
      "cache_ok c" "wrote key v (mainCache g) c"
      using store_write [OF assms(1), of "snow t" ?ttl key v] assms(2) by (auto simp: clocks_ok_def)
    have "cache_AddWithExpiration key v (wall1 t + expiration g) (wall2 t) (snow t) (mainCache g) = Some c"
      using c(1) False assms(1) by (simp add: cache_AddWithExpiration_def cache_ok_def Let_def)
    then show ?thesis using c(2,3) \<open>expiration g > 0\<close> by (auto simp: put_cache_def)
  qed
next
  case False
  obtain c where c: "do { c \<leftarrow> ensureInitialized (mainCache g); (case store c of None \<Rightarrow> Some c
      | Some s \<Rightarrow> do { (s, _) \<leftarrow> SetWithExpiration key (Some v) 0 (snow t) s; Some (c\<lparr>store := Some s\<rparr>) }) } = Some c"
    "cache_ok c" "wrote key v (mainCache g) c"
    using store_write [OF assms(1), of "snow t" 0 key v] assms(2) by (auto simp: clocks_ok_def)
  have "cache_Add key v (snow t) (mainCache g) = Some c"
    using c(1) assms(1) unfolding cache_Add_def Cache_Store.Set_def by (simp add: cache_ok_def)
  then show ?thesis using c(2,3) False by (auto simp: put_cache_def)
qed

section \<open>Transparency\<close>

text \<open>Everything in the cache is what the data source would return.\<close>

definition coherent :: "(string \<Rightarrow> string + bytes) \<Rightarrow> Cache \<Rightarrow> bool" where
  "coherent getter c \<longleftrightarrow> (\<forall>k v e. cache_view c k = Some (v, e) \<longrightarrow> (\<exists>b. getter k = Inr b \<and> v = Some \<lparr>bv_b = b\<rparr>))"

lemma coherent_le: "coherent getter c \<Longrightarrow> cache_view c' \<subseteq>\<^sub>m cache_view c \<Longrightarrow> coherent getter c'"
  unfolding coherent_def map_le_def by (metis domI)

lemma coherent_wrote: "coherent getter c \<Longrightarrow> wrote key \<lparr>bv_b = b\<rparr> c c' \<Longrightarrow> getter key = Inr b \<Longrightarrow> coherent getter c'"
  unfolding coherent_def wrote_def by fastforce

lemma load_fn_transparent:
  assumes ok: "cache_ok (mainCache g)" and co: "coherent getter (mainCache g)" and t: "clocks_ok t g" and p: "g_peers g = None"
  shows "\<exists>g'. load_fn peer_get getter peer_req key t g = Some (g',
      (case getter key of Inl e \<Rightarrow> Inl (''failed to get data: '' @ e) | Inr b \<Rightarrow> Inr \<lparr>bv_b = b\<rparr>)) \<and>
    cache_ok (mainCache g') \<and> coherent getter (mainCache g') \<and> g_peers g' = None \<and> gclosed g' = gclosed g"
proof -
  obtain c' where c': "cache_Get key (snow t) (mainCache g) = Some (c',
      case cache_view (mainCache g) key of Some (Some bv, e) \<Rightarrow> if snow t < e then Some bv else None | _ \<Rightarrow> None)"
    "cache_ok c'" "cache_view c' \<subseteq>\<^sub>m cache_view (mainCache g)" using cache_Get_spec [OF ok] by blast
  have co': "coherent getter c'" by (rule coherent_le [OF co c'(3)])
  show ?thesis
  proof (cases "\<exists>bv e. cache_view (mainCache g) key = Some (Some bv, e) \<and> snow t < e")
    case True
    then obtain bv e where v: "cache_view (mainCache g) key = Some (Some bv, e)" "snow t < e" by blast
    then obtain b where "getter key = Inr b" "bv = \<lparr>bv_b = b\<rparr>" using co by (auto simp: coherent_def)
    then show ?thesis using c' v co' p by (simp add: load_fn_def)
  next
    case False
    then have n: "(case cache_view (mainCache g) key of Some (Some bv, e) \<Rightarrow> if snow t < e then Some bv else None | _ \<Rightarrow> None) = None"
      by (auto split: option.split prod.split)
    show ?thesis
    proof (cases "getter key")
      case (Inl e)
      then show ?thesis using c'(1,2) n co' p by (simp add: load_fn_def loadData_def load_local_def)
    next
      case (Inr b)
      define st where "st = (stats g)\<lparr>loadsDeduped := loadsDeduped (stats g) + 1, loaderHits := loaderHits (stats g) + 1\<rparr>"
      let ?g = "g\<lparr>mainCache := c', stats := st\<rparr>"
      obtain c where c: "put_cache key \<lparr>bv_b = b\<rparr> t ?g = Some (?g\<lparr>mainCache := c\<rparr>)" "cache_ok c" "wrote key \<lparr>bv_b = b\<rparr> c' c"
        using put_cache_spec [of ?g t key "\<lparr>bv_b = b\<rparr>"] c'(2) t by (auto simp: clocks_ok_def)
      have "coherent getter c" by (rule coherent_wrote [OF co' c(3) Inr])
      then show ?thesis using c'(1) n p c Inr by (simp add: load_fn_def loadData_def load_local_def st_def)
    qed
  qed
qed

section \<open>Properties\<close>


definition demo_group :: "nat Group" where
  "demo_group = new_group ''g'' 1024 None 5"

lemma demo_group_ok:
  "cache_ok (mainCache demo_group)" "coherent getter (mainCache demo_group)" "g_peers demo_group = None"
  "clocks_ok \<lparr>wall1 = 10, wall2 = 10, snow = 10\<rparr> demo_group" "\<not> gclosed demo_group"
proof -
  have "sane_options (store_options (DefaultCacheOptions\<lparr>co_MaxBytes := 1024\<rparr>))"
    by (simp add: sane_options_def store_options_def DefaultCacheOptions_def)
  from cache_ok_New [OF this]
  show "cache_ok (mainCache demo_group)" "coherent getter (mainCache demo_group)"
    by (simp_all add: demo_group_def new_group_def coherent_def)
  show "g_peers demo_group = None" "clocks_ok \<lparr>wall1 = 10, wall2 = 10, snow = 10\<rparr> demo_group" "\<not> gclosed demo_group"
    by (simp_all add: demo_group_def new_group_def clocks_ok_def)
qed


text \<open>
  A group can vanish from the registry while it is open: \<open>DestroyGroup\<close> unlinks the name and
  closes the old group outside the lock, and \<open>Close\<close> deletes by name, so a group registered under
  the same name in between is deleted with it.
\<close>

theorem destroy_deletes_successor:
  assumes "GetGroup name r = Some g1" and "\<not> rg_closed r g1" and "rg_name r g1 = name" and "g2 \<noteq> g1"
    and "destroy_unlink name r = (r1, Some g1)" and "registry_New name g2 r1 = Some r2"
  shows "GetGroup name r2 = Some g2 \<and> \<not> rg_closed (registry_Close g1 r2) g2 \<and> GetGroup name (registry_Close g1 r2) = None"
  using assms by (auto simp: GetGroup_def destroy_unlink_def registry_New_def registry_Close_def split: option.splits)

theorem destroy_deletes_successor_witness:
  "\<exists>r r1 r2. destroy_unlink ''g'' r = (r1, Some 0) \<and> registry_New ''g'' 1 r1 = Some r2 \<and> GetGroup ''g'' (registry_Close 0 r2) = None"
proof -
  define r where "r = \<lparr>rg_groups = [(''g'', 0 :: nat)], rg_name = (\<lambda>_. ''g''), rg_closed = (\<lambda>_. False)\<rparr>"
  obtain r1 where r1: "destroy_unlink ''g'' r = (r1, Some 0)" by (simp add: r_def destroy_unlink_def)
  have "registry_New ''g'' 1 r1 \<noteq> None" using r1 by (auto simp: r_def destroy_unlink_def registry_New_def gm_del_def)
  then obtain r2 where "registry_New ''g'' 1 r1 = Some r2" by blast
  then show ?thesis using destroy_deletes_successor [of "''g''" r 0 1 r1 r2] r1 by (auto simp: r_def GetGroup_def)
qed

end
