(* ===== verification/Http_Trie.thy ===== *)
theory Http_Trie
  imports Go_Strings
begin

text \<open>
  The route trie and the router (\<open>src/swifty_http/trie.go\<close>, \<open>router.go\<close>): registration of
  patterns with \<open>:name\<close> and \<open>*name\<close> wildcards, lookup with backtracking, and parameter binding.
  The specification is the set of registered patterns with the predicate \<open>pmatch\<close>; the proofs
  show that lookup is sound and complete for it, that a static match wins, that no slice index
  is out of range and that the parameters rebuild the path.
\<close>

section \<open>Data\<close>

datatype node = Node (n_pattern: string) (n_part: string) (n_children: "node list") (n_isWild: bool)

definition wild_part :: "string \<Rightarrow> bool" where
  "wild_part p \<longleftrightarrow> p \<noteq> [] \<and> (hd p = CHR '':'' \<or> hd p = CHR ''*'')"

definition star_part :: "string \<Rightarrow> bool" where
  "star_part p \<longleftrightarrow> has_prefix p ''*''"

section \<open>The trie\<close>

text \<open>\<open>matchChild\<close> returns a pointer into \<open>n.children\<close>: the index of the first child with the part.\<close>

fun matchChild :: "string \<Rightarrow> node list \<Rightarrow> nat option" where
  "matchChild part [] = None"
| "matchChild part (c # cs) = (if n_part c = part then Some 0 else map_option Suc (matchChild part cs))"

definition matchChildren :: "string \<Rightarrow> node list \<Rightarrow> node list" where
  "matchChildren part cs =
     filter (\<lambda>c. n_part c = part) cs @ filter (\<lambda>c. n_part c \<noteq> part \<and> n_isWild c) cs"

text \<open>
  \<open>insert\<close> and \<open>search\<close> take the slice of parts from \<open>height\<close> on. \<open>part[0]\<close> panics on an
  empty part.
\<close>

fun node_insert :: "string \<Rightarrow> string list \<Rightarrow> node \<Rightarrow> node option" where
  "node_insert pattern [] n = Some (Node pattern (n_part n) (n_children n) (n_isWild n))"
| "node_insert pattern (part # rest) n =
     (case matchChild part (n_children n) of
        None \<Rightarrow>
          (case part of
             [] \<Rightarrow> None
           | ch # _ \<Rightarrow> do {
               child \<leftarrow> node_insert pattern rest (Node [] part [] (ch = CHR '':'' \<or> ch = CHR ''*''));
               Some (Node (n_pattern n) (n_part n) (n_children n @ [child]) (n_isWild n)) })
      | Some i \<Rightarrow> do {
          child \<leftarrow> node_insert pattern rest (n_children n ! i);
          Some (Node (n_pattern n) (n_part n) ((n_children n)[i := child]) (n_isWild n)) })"

fun first_some :: "('a \<Rightarrow> 'b option) \<Rightarrow> 'a list \<Rightarrow> 'b option" where
  "first_some f [] = None"
| "first_some f (x # xs) = (case f x of None \<Rightarrow> first_some f xs | Some y \<Rightarrow> Some y)"

definition found :: "node \<Rightarrow> node option" where
  "found n = (if n_pattern n = [] then None else Some n)"

primrec node_search :: "string list \<Rightarrow> node \<Rightarrow> node option" where
  "node_search [] n = found n"
| "node_search (part # rest) n =
     (if star_part (n_part n) then found n
      else first_some (\<lambda>child. node_search rest child) (matchChildren part (n_children n)))"

primrec travel :: "node \<Rightarrow> node list" where
  "travel (Node pattern part children isWild) =
     (if pattern \<noteq> [] then [Node pattern part children isWild] else []) @ concat (map travel children)"

section \<open>The router\<close>

record 'h router =
  roots :: "(string, node) gomap"
  handlers :: "(string, 'h) gomap"

definition newRouter :: "'h router" where
  "newRouter = \<lparr>roots = [], handlers = []\<rparr>"

text \<open>The loop of \<open>parsePattern\<close>: empty items are skipped, an item that starts with a star is the last.\<close>

fun keep_parts :: "string list \<Rightarrow> string list" where
  "keep_parts [] = []"
| "keep_parts (item # vs) =
     (if item \<noteq> [] then if hd item = CHR ''*'' then [item] else item # keep_parts vs
      else keep_parts vs)"

definition parsePattern :: "string \<Rightarrow> string list" where
  "parsePattern pattern = keep_parts (split_on CHR ''/'' pattern)"

definition canonical :: "string list \<Rightarrow> string" where
  "canonical parts = ''/'' @ join_with CHR ''/'' parts"

definition route_key :: "string \<Rightarrow> string \<Rightarrow> string" where
  "route_key method pattern = method @ ''-'' @ pattern"

definition addRoute :: "string \<Rightarrow> string \<Rightarrow> 'h \<Rightarrow> 'h router \<Rightarrow> 'h router option" where
  "addRoute method pattern handler r = do {
     let parts = parsePattern pattern;
     let pattern = canonical parts;
     let key = route_key method pattern;
     let rs = (case gm_get (roots r) method of
                 None \<Rightarrow> gm_set method (Node [] [] [] False) (roots r) | Some _ \<Rightarrow> roots r);
     root \<leftarrow> gm_get rs method;
     root \<leftarrow> node_insert pattern parts root;
     Some (r\<lparr>roots := gm_set method root rs, handlers := gm_set key handler (handlers r)\<rparr>) }"

text \<open>The parameter loop of \<open>getRoute\<close>; \<open>index\<close> is the position of the first of \<open>parts\<close>.\<close>

fun bind_params :: "nat \<Rightarrow> string list \<Rightarrow> string list \<Rightarrow> (string, string) gomap \<Rightarrow> (string, string) gomap option" where
  "bind_params index [] searchParts params = Some params"
| "bind_params index (part # parts) searchParts params = do {
     c \<leftarrow> rd part 0;
     params \<leftarrow> (if c = CHR '':'' then do { v \<leftarrow> rd searchParts index; Some (gm_set (drop 1 part) v params) }
               else Some params);
     if c = CHR ''*'' \<and> length part > 1
     then if index \<le> length searchParts
          then Some (gm_set (drop 1 part) (join_with CHR ''/'' (drop index searchParts)) params)
          else None
     else bind_params (index + 1) parts searchParts params }"

definition getRoute :: "string \<Rightarrow> string \<Rightarrow> 'h router \<Rightarrow> (node \<times> (string, string) gomap) option option" where
  "getRoute method path r =
     (let searchParts = parsePattern path in
      case gm_get (roots r) method of
        None \<Rightarrow> Some None
      | Some root \<Rightarrow>
          (case node_search searchParts root of
             None \<Rightarrow> Some None
           | Some n \<Rightarrow> do {
               params \<leftarrow> bind_params 0 (parsePattern (n_pattern n)) searchParts [];
               Some (Some (n, params)) }))"

definition getRoutes :: "string \<Rightarrow> 'h router \<Rightarrow> node list" where
  "getRoutes method r = (case gm_get (roots r) method of None \<Rightarrow> [] | Some root \<Rightarrow> travel root)"

section \<open>Patterns\<close>

lemma keep_parts_ne: "p \<in> set (keep_parts vs) \<Longrightarrow> p \<noteq> [] \<and> p \<in> set vs"
  by (induction vs rule: keep_parts.induct) (auto split: if_splits)

text \<open>A list of parts that \<open>parsePattern\<close> can return: a star is last.\<close>

fun parts_ok :: "string list \<Rightarrow> bool" where
  "parts_ok [] = True"
| "parts_ok (p # ps) \<longleftrightarrow> p \<noteq> [] \<and> CHR ''/'' \<notin> set p \<and> (star_part p \<longrightarrow> ps = []) \<and> parts_ok ps"

lemma star_part_hd: "star_part p \<longleftrightarrow> p \<noteq> [] \<and> hd p = CHR ''*''"
  by (cases p) (auto simp: star_part_def)

lemma keep_parts_ok: "(\<And>p. p \<in> set vs \<Longrightarrow> CHR ''/'' \<notin> set p) \<Longrightarrow> parts_ok (keep_parts vs)"
  by (induction vs) (auto simp: star_part_hd)

lemma parsePattern_ok: "parts_ok (parsePattern pattern)"
  unfolding parsePattern_def by (rule keep_parts_ok) (rule split_on_no_sep)

lemma keep_parts_id: "parts_ok ps \<Longrightarrow> keep_parts ps = ps"
  by (induction ps) (auto simp: star_part_hd)

lemma parts_ok_no_slash: "parts_ok ps \<Longrightarrow> p \<in> set ps \<Longrightarrow> CHR ''/'' \<notin> set p"
  by (induction ps) auto

lemma parse_canonical:
  assumes "parts_ok ps" shows "parsePattern (canonical ps) = ps"
proof (cases ps)
  case (Cons a list)
  then have "split_on CHR ''/'' (join_with CHR ''/'' ps) = ps"
    by (intro split_join parts_ok_no_slash [OF assms]) simp
  then show ?thesis using keep_parts_id [OF assms] by (simp add: parsePattern_def canonical_def)
qed (simp add: parsePattern_def canonical_def)

lemma canonical_ne [simp]: "canonical ps \<noteq> []"
  by (simp add: canonical_def)

lemma canonical_inj: "parts_ok ps \<Longrightarrow> parts_ok qs \<Longrightarrow> canonical ps = canonical qs \<Longrightarrow> ps = qs"
  using parse_canonical by metis

section \<open>What a trie stores\<close>

primrec stored :: "string list \<Rightarrow> node \<Rightarrow> string" where
  "stored [] n = n_pattern n"
| "stored (p # ps) n = (case lookup_by n_part p (n_children n) of None \<Rightarrow> [] | Some c \<Rightarrow> stored ps c)"

fun trie_ok :: "node \<Rightarrow> bool" where
  "trie_ok (Node pat part cs w) \<longleftrightarrow> distinct (map n_part cs) \<and>
     (\<forall>c \<in> set cs. n_part c \<noteq> [] \<and> n_isWild c = wild_part (n_part c) \<and> trie_ok c)"

lemma trie_ok_children:
  "trie_ok n \<longleftrightarrow> distinct (map n_part (n_children n)) \<and>
     (\<forall>c \<in> set (n_children n). n_part c \<noteq> [] \<and> n_isWild c = wild_part (n_part c) \<and> trie_ok c)"
  by (cases n) simp

text \<open>Pattern parts against path parts; a star part takes all that is left, at least one part.\<close>

fun pmatch :: "string list \<Rightarrow> string list \<Rightarrow> bool" where
  "pmatch [] xs \<longleftrightarrow> xs = []"
| "pmatch (p # ps) [] \<longleftrightarrow> False"
| "pmatch (p # ps) (x # xs) \<longleftrightarrow> (p = x \<or> wild_part p) \<and> (star_part p \<or> pmatch ps xs)"

lemma matchChild_None: "matchChild part cs = None \<longleftrightarrow> lookup_by n_part part cs = None"
  by (induction cs) auto

lemma matchChild_Some:
  "matchChild part cs = Some i \<Longrightarrow> i < length cs \<and> lookup_by n_part part cs = Some (cs ! i) \<and> n_part (cs ! i) = part"
  by (induction cs arbitrary: i) (auto split: if_splits)

lemma lookup_update:
  "i < length cs \<Longrightarrow> distinct (map n_part cs) \<Longrightarrow> n_part c = n_part (cs ! i) \<Longrightarrow>
     lookup_by n_part q (cs[i := c]) = (if q = n_part c then Some c else lookup_by n_part q cs)"
proof (induction cs arbitrary: i)
  case (Cons a cs)
  then show ?case
    by (cases i) (auto dest: nth_mem)
qed simp

lemma map_part_update: "n_part c = n_part (cs ! i) \<Longrightarrow> map n_part (cs[i := c]) = map n_part cs"
  by (metis list_update_id map_update)

lemma insert_stored:
  assumes "trie_ok n" and "\<forall>p \<in> set ps. p \<noteq> []"
  shows "\<exists>n'. node_insert pattern ps n = Some n' \<and> trie_ok n' \<and> n_part n' = n_part n \<and> n_isWild n' = n_isWild n
    \<and> (\<forall>qs. stored qs n' = (if qs = ps then pattern else stored qs n))"
  using assms
proof (induction ps arbitrary: n)
  case Nil
  show ?case
  proof (intro exI conjI)
    show "\<forall>qs. stored qs (Node pattern (n_part n) (n_children n) (n_isWild n)) = (if qs = [] then pattern else stored qs n)"
    proof
      fix qs show "stored qs (Node pattern (n_part n) (n_children n) (n_isWild n)) = (if qs = [] then pattern else stored qs n)"
        by (cases qs) auto
    qed
  qed (use Nil in \<open>auto simp: trie_ok_children [of n]\<close>)
next
  case (Cons p ps)
  have ok: "distinct (map n_part (n_children n)) \<and>
     (\<forall>c \<in> set (n_children n). n_part c \<noteq> [] \<and> n_isWild c = wild_part (n_part c) \<and> trie_ok c)"
    by (rule trie_ok_children [THEN iffD1, OF Cons.prems(1)])
  show ?case
  proof (cases "matchChild p (n_children n)")
    case None
    obtain ch t where p: "p = ch # t" using Cons.prems(2) by (cases p) auto
    let ?new = "Node [] p [] (ch = CHR '':'' \<or> ch = CHR ''*'')"
    obtain c where c: "node_insert pattern ps ?new = Some c" "trie_ok c" "n_part c = p" "n_isWild c = wild_part p"
      "\<And>qs. stored qs c = (if qs = ps then pattern else stored qs ?new)"
      using Cons.IH [of ?new] Cons.prems(2) by (auto simp: p wild_part_def)
    have l: "lookup_by n_part p (n_children n) = None" using None by (simp add: matchChild_None)
    have new: "stored qs ?new = []" for qs by (cases qs) auto
    let ?n' = "Node (n_pattern n) (n_part n) (n_children n @ [c]) (n_isWild n)"
    have "node_insert pattern (p # ps) n = Some ?n'" using None c(1) by (simp add: p)
    moreover have "trie_ok ?n'" using ok c l by (auto simp: lookup_by_None_iff p)
    moreover have "stored qs ?n' = (if qs = p # ps then pattern else stored qs n)" for qs
      using l c(3,5) new by (cases qs) (auto split: option.splits)
    ultimately show ?thesis by auto
  next
    case (Some i)
    note mc = matchChild_Some [OF Some]
    let ?c = "n_children n ! i"
    have "?c \<in> set (n_children n)" using mc by simp
    then have cok: "trie_ok ?c" "n_part ?c \<noteq> []" "n_isWild ?c = wild_part (n_part ?c)" using ok by auto
    obtain c where c: "node_insert pattern ps ?c = Some c" "trie_ok c" "n_part c = n_part ?c" "n_isWild c = n_isWild ?c"
      "\<And>qs. stored qs c = (if qs = ps then pattern else stored qs ?c)"
      using Cons.IH [OF cok(1)] Cons.prems(2) by auto
    let ?n' = "Node (n_pattern n) (n_part n) ((n_children n)[i := c]) (n_isWild n)"
    have "node_insert pattern (p # ps) n = Some ?n'" using Some c(1) by simp
    moreover have "trie_ok ?n'"
      using ok c cok map_part_update [OF c(3)] by (auto dest!: set_update_subset_insert [THEN subsetD])
    moreover have "stored qs ?n' = (if qs = p # ps then pattern else stored qs n)" for qs
      using mc c(3,5) ok lookup_update [of i "n_children n" c] by (cases qs) (auto split: option.splits)
    ultimately show ?thesis by auto
  qed
qed

lemma first_some_Some: "first_some f xs = Some y \<Longrightarrow> \<exists>x \<in> set xs. f x = Some y"
  by (induction xs) (auto split: option.splits)

lemma first_some_None: "first_some f xs = None \<longleftrightarrow> (\<forall>x \<in> set xs. f x = None)"
  by (induction xs) (auto split: option.splits)

lemma found_Some: "found n = Some m \<longleftrightarrow> m = n \<and> n_pattern n \<noteq> []"
  by (auto simp: found_def)

lemma search_star: "star_part (n_part n) \<Longrightarrow> node_search xs n = found n"
  by (cases xs) auto

lemma search_sound:
  "node_search xs n = Some m \<Longrightarrow> trie_ok n \<Longrightarrow> \<not> star_part (n_part n) \<Longrightarrow>
     n_pattern m \<noteq> [] \<and> (\<exists>ps. stored ps n = n_pattern m \<and> pmatch ps xs)"
proof (induction xs arbitrary: n)
  case Nil
  then show ?case by (auto simp: found_Some intro: exI [of _ "[]"])
next
  case (Cons x xs)
  then obtain c where c: "c \<in> set (matchChildren x (n_children n))" "node_search xs c = Some m"
    by (auto dest: first_some_Some)
  then have mem: "c \<in> set (n_children n)" and pm: "n_part c = x \<or> n_isWild c" by (auto simp: matchChildren_def)
  have ok: "trie_ok c" "n_isWild c = wild_part (n_part c)" "distinct (map n_part (n_children n))"
    using Cons.prems(2) mem by (auto simp: trie_ok_children [of n])
  then have l: "lookup_by n_part (n_part c) (n_children n) = Some c" using mem by (simp add: lookup_by_Some_iff)
  show ?case
  proof (cases "star_part (n_part c)")
    case True
    then have "m = c \<and> n_pattern c \<noteq> []" using c(2) by (simp add: search_star found_Some)
    then show ?thesis using True l pm ok by (intro conjI exI [of _ "[n_part c]"]) auto
  next
    case False
    then obtain ps where "n_pattern m \<noteq> []" "stored ps c = n_pattern m" "pmatch ps xs" using Cons.IH [OF c(2) ok(1)] by blast
    then show ?thesis using l pm ok by (intro conjI exI [of _ "n_part c # ps"]) auto
  qed
qed

lemma search_complete:
  "stored ps n \<noteq> [] \<Longrightarrow> pmatch ps xs \<Longrightarrow> parts_ok ps \<Longrightarrow> trie_ok n \<Longrightarrow> \<not> star_part (n_part n) \<Longrightarrow>
     node_search xs n \<noteq> None"
proof (induction ps arbitrary: n xs)
  case Nil
  then show ?case by (simp add: found_def)
next
  case (Cons p ps)
  obtain x ys where xs: "xs = x # ys" using Cons.prems(2) by (cases xs) auto
  obtain c where c: "lookup_by n_part p (n_children n) = Some c" "stored ps c \<noteq> []"
    using Cons.prems(1) by (auto split: option.splits)
  then have mem: "c \<in> set (n_children n)" "n_part c = p" by (auto dest: lookup_by_SomeD)
  have ok: "trie_ok c" "n_isWild c = wild_part p" using Cons.prems(4) mem by (auto simp: trie_ok_children [of n])
  have "node_search ys c \<noteq> None"
  proof (cases "star_part p")
    case True
    then show ?thesis using c(2) Cons.prems(3) mem by (simp add: search_star found_def)
  next
    case False
    then show ?thesis using Cons.IH [of c ys] Cons.prems(2,3) c(2) ok mem xs by auto
  qed
  moreover have "c \<in> set (matchChildren x (n_children n))"
    using mem ok Cons.prems(2) xs by (auto simp: matchChildren_def)
  ultimately show ?case using Cons.prems(5) by (auto simp: xs first_some_None)
qed

lemma filter_key: "distinct (map f cs) \<Longrightarrow> c \<in> set cs \<Longrightarrow> filter (\<lambda>x. f x = f c) cs = [c]"
proof (induction cs)
  case (Cons a cs)
  then have "f a = f c \<Longrightarrow> filter (\<lambda>x. f x = f c) cs = []" by (metis (mono_tags) distinct.simps(2) filter_False image_eqI list.set_map list.simps(9))
  then show ?case using Cons by auto
qed simp

lemma search_exact:
  "stored ps n \<noteq> [] \<Longrightarrow> parts_ok ps \<Longrightarrow> trie_ok n \<Longrightarrow> \<not> star_part (n_part n) \<Longrightarrow>
     \<exists>m. node_search ps n = Some m \<and> n_pattern m = stored ps n"
proof (induction ps arbitrary: n)
  case Nil
  then show ?case by (simp add: found_def)
next
  case (Cons p ps)
  obtain c where c: "lookup_by n_part p (n_children n) = Some c" "stored ps c \<noteq> []"
    using Cons.prems(1) by (auto split: option.splits)
  then have mem: "c \<in> set (n_children n)" "n_part c = p" by (auto dest: lookup_by_SomeD)
  have ok: "trie_ok c" "distinct (map n_part (n_children n))" using Cons.prems(3) mem by (auto simp: trie_ok_children [of n])
  have "\<exists>m. node_search ps c = Some m \<and> n_pattern m = stored ps c"
  proof (cases "star_part p")
    case True
    then show ?thesis using c(2) Cons.prems(2) mem by (simp add: search_star found_def)
  next
    case False
    then show ?thesis using Cons.IH [of c] Cons.prems(2) c(2) ok mem by auto
  qed
  moreover have "\<exists>cs. matchChildren p (n_children n) = c # cs"
    using filter_key [OF ok(2) mem(1)] mem(2) by (auto simp: matchChildren_def)
  ultimately show ?case using Cons.prems(4) c(1) by auto
qed

section \<open>Parameters\<close>

definition named :: "string \<Rightarrow> bool" where
  "named p \<longleftrightarrow> wild_part p \<and> (star_part p \<longrightarrow> length p > 1)"

definition pnames :: "string list \<Rightarrow> string list" where
  "pnames ps = map tl (filter named ps)"

text \<open>A pattern part with its parameter substituted.\<close>

definition fill :: "(string, string) gomap \<Rightarrow> string \<Rightarrow> string" where
  "fill params p = (if named p then (case gm_get params (tl p) of Some v \<Rightarrow> v | None \<Rightarrow> []) else p)"

lemma wild_cases: "wild_part p \<Longrightarrow> \<not> star_part p \<Longrightarrow> \<exists>t. p = CHR '':'' # t"
  by (cases p) (auto simp: wild_part_def star_part_hd)

lemma bind_params_spec:
  assumes "pmatch ps xs" and "parts_ok ps"
  shows "\<exists>params'. bind_params (length pre) ps (pre @ xs) params = Some params' \<and>
    (\<forall>k. k \<notin> set (pnames ps) \<longrightarrow> gm_get params' k = gm_get params k) \<and>
    (distinct (pnames ps) \<and> (\<forall>p \<in> set ps. star_part p \<longrightarrow> named p) \<longrightarrow>
       join_with CHR ''/'' (map (fill params') ps) = join_with CHR ''/'' xs)"
  using assms
proof (induction ps arbitrary: xs pre params)
  case Nil
  then show ?case by simp
next
  case (Cons p ps)
  obtain x ys where xs: "xs = x # ys" using Cons.prems(1) by (cases xs) auto
  obtain ch t where p: "p = ch # t" using Cons.prems(2) by (cases p) auto
  have r: "rd p 0 = Some ch" by (simp add: p rd_def)
  have rx: "rd (pre @ xs) (length pre) = Some x" by (simp add: rd_def xs)
  show ?case
  proof (cases "star_part p")
    case True
    then have ps: "ps = []" and ch: "ch = CHR ''*''" using Cons.prems(2) by (auto simp: p star_part_hd)
    show ?thesis
    proof (cases "t = []")
      case True
      then show ?thesis using ps ch by (simp add: rd_def p named_def star_part_def)
    next
      case False
      have "named p" using False ch by (simp add: p named_def wild_part_def)
      then show ?thesis using ps ch False by (simp add: rd_def p pnames_def fill_def)
    qed
  next
    case False
    then have ch: "ch \<noteq> CHR ''*''" and pm: "p = x \<or> wild_part p" "pmatch ps ys"
      using Cons.prems(1) by (auto simp: p star_part_hd xs)
    define params1 where "params1 = (if ch = CHR '':'' then gm_set t x params else params)"
    have nm: "named p \<longleftrightarrow> ch = CHR '':''" using False ch by (simp add: named_def wild_part_def p)
    obtain params' where IH: "bind_params (length (pre @ [x])) ps ((pre @ [x]) @ ys) params1 = Some params'"
      "\<And>k. k \<notin> set (pnames ps) \<Longrightarrow> gm_get params' k = gm_get params1 k"
      "distinct (pnames ps) \<Longrightarrow> \<forall>p \<in> set ps. star_part p \<longrightarrow> named p \<Longrightarrow>
         join_with CHR ''/'' (map (fill params') ps) = join_with CHR ''/'' ys"
      using Cons.IH [OF pm(2), of "pre @ [x]" params1] Cons.prems(2) by auto
    have "bind_params (length pre) (p # ps) (pre @ xs) params = Some params'"
      using IH(1) ch rx by (cases "ch = CHR '':''") (simp_all add: rd_def params1_def xs p)
    moreover have "fill params' p = x" if "t \<notin> set (pnames ps)"
    proof (cases "ch = CHR '':''")
      case True
      then show ?thesis using IH(2) [OF that] nm by (simp add: fill_def params1_def p)
    next
      case False
      then have "p = x" using pm(1) nm ch by (auto simp: p wild_part_def)
      then show ?thesis using nm False by (simp add: fill_def)
    qed
    moreover have "pnames (p # ps) = (if ch = CHR '':'' then [t] else []) @ pnames ps" by (simp add: pnames_def nm) (simp add: p)
    moreover have "fill params' p = p" if "\<not> named p" using that by (simp add: fill_def)
    moreover have "ps = [] \<longleftrightarrow> ys = []" using pm(2) by (cases ps; cases ys) auto
    moreover have "gm_get params' k = gm_get params k" if "k \<notin> set (pnames (p # ps))" for k
      using that IH(2) [of k] calculation(3) by (auto simp: params1_def split: if_splits)
    moreover have "fill params' p = x" if "ch \<noteq> CHR '':''" using that nm pm(1) ch by (auto simp: fill_def p wild_part_def)
    ultimately show ?thesis using IH(3) by (cases "ch = CHR '':''"; cases "ps = []") (auto simp: xs join_Cons)
  qed
qed

section \<open>Registered routes\<close>

type_synonym 'h routes = "(string \<times> string \<times> 'h) list"

fun addRoutes :: "'h routes \<Rightarrow> 'h router \<Rightarrow> 'h router option" where
  "addRoutes [] r = Some r"
| "addRoutes ((m, p, h) # rs) r = do { r \<leftarrow> addRoute m p h r; addRoutes rs r }"

text \<open>The handler of the last registration of a method and (canonical) pattern.\<close>

fun registered :: "'h routes \<Rightarrow> string \<Rightarrow> string list \<Rightarrow> 'h option" where
  "registered [] m ps = None"
| "registered ((m', p, h) # rs) m ps =
     (case registered rs m ps of Some h' \<Rightarrow> Some h' | None \<Rightarrow> if m' = m \<and> parsePattern p = ps then Some h else None)"

text \<open>The router represents a table \<open>T\<close> from methods and pattern parts to handlers.\<close>

definition root_rep :: "node option \<Rightarrow> (string list \<Rightarrow> 'h option) \<Rightarrow> bool" where
  "root_rep ro T \<longleftrightarrow> (case ro of
     None \<Rightarrow> (\<forall>ps. T ps = None)
   | Some root \<Rightarrow> trie_ok root \<and> n_part root = [] \<and>
       (\<forall>ps. stored ps root = (if T ps = None then [] else canonical ps)))"

definition router_rep :: "'h router \<Rightarrow> (string \<Rightarrow> string list \<Rightarrow> 'h option) \<Rightarrow> bool" where
  "router_rep r T \<longleftrightarrow>
     (\<forall>m. root_rep (gm_get (roots r) m) (T m)) \<and>
     (\<forall>m ps h. T m ps = Some h \<longrightarrow>
        parts_ok ps \<and> CHR ''-'' \<notin> set m \<and> gm_get (handlers r) (route_key m (canonical ps)) = Some h)"

lemma route_key_inj:
  assumes "CHR ''-'' \<notin> set m" "CHR ''-'' \<notin> set m'" "route_key m p = route_key m' p'"
  shows "m = m' \<and> p = p'"
proof -
  have "takeWhile (\<lambda>c. c \<noteq> CHR ''-'') (n @ ''-'' @ q) = n" if "CHR ''-'' \<notin> set n" for n q
    using that by (induction n) auto
  then have "m = m'" using assms by (metis route_key_def)
  then show ?thesis using assms(3) by (simp add: route_key_def)
qed

lemma addRoute_rep:
  assumes rep: "router_rep r T" and m: "CHR ''-'' \<notin> set method"
  shows "\<exists>r'. addRoute method pattern h r = Some r' \<and>
    router_rep r' (T(method := (T method)(parsePattern pattern := Some h)))"
proof -
  let ?ps = "parsePattern pattern" and ?T = "T(method := (T method)(parsePattern pattern := Some h))"
  define root where "root = (case gm_get (roots r) method of None \<Rightarrow> Node [] [] [] False | Some n \<Rightarrow> n)"
  have root: "trie_ok root" "n_part root = []" "\<And>ps. stored ps root = (if T method ps = None then [] else canonical ps)"
  proof -
    have "stored ps (Node [] [] [] False) = []" for ps by (cases ps) auto
    then show "trie_ok root" "n_part root = []" "\<And>ps. stored ps root = (if T method ps = None then [] else canonical ps)"
      using rep [unfolded router_rep_def, THEN conjunct1, THEN spec [of _ "method"]]
      by (auto simp: root_rep_def root_def split: option.splits)
  qed
  have ne: "\<forall>p \<in> set ?ps. p \<noteq> []" unfolding parsePattern_def using keep_parts_ne by blast
  obtain n' where n': "node_insert (canonical ?ps) ?ps root = Some n'" "trie_ok n'" "n_part n' = []"
    "\<And>qs. stored qs n' = (if qs = ?ps then canonical ?ps else stored qs root)"
    using insert_stored [OF root(1) ne] root(2) by metis
  define rs where "rs = (case gm_get (roots r) method of None \<Rightarrow> gm_set method (Node [] [] [] False) (roots r) | Some _ \<Rightarrow> roots r)"
  have rs: "gm_get rs method = Some root" "\<And>m. m \<noteq> method \<Longrightarrow> gm_get rs m = gm_get (roots r) m"
    by (auto simp: rs_def root_def split: option.splits)
  let ?r' = "r\<lparr>roots := gm_set method n' rs, handlers := gm_set (route_key method (canonical ?ps)) h (handlers r)\<rparr>"
  have "addRoute method pattern h r = Some ?r'"
    using n'(1) rs(1) by (simp add: addRoute_def Let_def rs_def [symmetric])
  moreover have "router_rep ?r' ?T"
    unfolding router_rep_def
  proof (intro conjI allI impI)
    fix m' show "root_rep (gm_get (roots ?r') m') (?T m')"
    proof (cases "m' = method")
      case True
      then show ?thesis using n'(2,3,4) root(3) by (simp add: root_rep_def)
    next
      case False
      then show ?thesis using rep rs(2) by (simp add: router_rep_def)
    qed
  next
    fix m' ps h' assume T: "?T m' ps = Some h'"
    show "parts_ok ps" using T rep parsePattern_ok by (auto simp: router_rep_def split: if_splits)
    show "CHR ''-'' \<notin> set m'" using T rep m by (auto simp: router_rep_def split: if_splits)
    show "gm_get (handlers ?r') (route_key m' (canonical ps)) = Some h'"
    proof (cases "m' = method \<and> ps = ?ps")
      case False
      then have T': "T m' ps = Some h'" using T by (auto split: if_splits)
      then have k: "parts_ok ps" "CHR ''-'' \<notin> set m'" "gm_get (handlers r) (route_key m' (canonical ps)) = Some h'"
        using rep by (auto simp: router_rep_def)
      have "route_key m' (canonical ps) \<noteq> route_key method (canonical ?ps)"
        using route_key_inj [OF k(2) m] canonical_inj [OF k(1) parsePattern_ok] False by blast
      then show ?thesis using k(3) by simp
    qed (use T in simp)
  qed
  ultimately show ?thesis by blast
qed

lemma addRoutes_rep:
  assumes "router_rep r T" and "\<forall>(m, p, h) \<in> set rs. CHR ''-'' \<notin> set m"
  shows "\<exists>r'. addRoutes rs r = Some r' \<and>
    router_rep r' (\<lambda>m ps. case registered rs m ps of Some h \<Rightarrow> Some h | None \<Rightarrow> T m ps)"
  using assms
proof (induction rs arbitrary: r T)
  case (Cons a rs)
  obtain m p h where a: "a = (m, p, h)" by (cases a)
  obtain r1 where r1: "addRoute m p h r = Some r1" "router_rep r1 (T(m := (T m)(parsePattern p := Some h)))"
    using addRoute_rep [OF Cons.prems(1), of m p h] Cons.prems(2) by (auto simp: a)
  have eq: "(\<lambda>m' ps. case registered rs m' ps of Some h \<Rightarrow> Some h | None \<Rightarrow> (T(m := (T m)(parsePattern p := Some h))) m' ps)
     = (\<lambda>m' ps. case registered (a # rs) m' ps of Some h \<Rightarrow> Some h | None \<Rightarrow> T m' ps)"
    by (auto simp: a fun_eq_iff split: option.splits)
  show ?case using Cons.IH [OF r1(2)] Cons.prems(2) r1(1) unfolding eq by (simp add: a)
qed simp

lemma new_rep: "router_rep newRouter (\<lambda>m ps. None)"
  by (simp add: router_rep_def root_rep_def newRouter_def)

section \<open>Properties\<close>

lemma addRoutes_new:
  assumes "\<forall>(m, p, h) \<in> set rs. CHR ''-'' \<notin> set m"
  obtains r where "addRoutes rs newRouter = Some r" "router_rep r (registered rs)"
proof -
  have "(\<lambda>m ps. case registered rs m ps of Some h \<Rightarrow> Some h | None \<Rightarrow> None) = registered rs"
    by (auto simp: fun_eq_iff split: option.splits)
  then show ?thesis using addRoutes_rep [OF new_rep assms] that by auto
qed

lemma root_facts:
  assumes "router_rep r T" "gm_get (roots r) m = Some root"
  shows "trie_ok root" "\<not> star_part (n_part root)" "stored ps root = (if T m ps = None then [] else canonical ps)"
  using assms(1) [unfolded router_rep_def, THEN conjunct1, THEN spec [of _ m]] assms(2)
  by (auto simp: root_rep_def star_part_def)

lemma no_root: "router_rep r T \<Longrightarrow> gm_get (roots r) m = None \<Longrightarrow> T m ps = None"
  by (auto simp: router_rep_def root_rep_def dest: spec [of _ m])

lemma rep_table:
  "router_rep r T \<Longrightarrow> T m ps = Some h \<Longrightarrow> parts_ok ps \<and> gm_get (handlers r) (route_key m (canonical ps)) = Some h"
  by (simp add: router_rep_def)

lemma getRoute_rep:
  assumes rep: "router_rep r T"
  shows "(\<exists>n params ps h. getRoute m path r = Some (Some (n, params)) \<and> T m ps = Some h \<and> pmatch ps (parsePattern path)
      \<and> n_pattern n = canonical ps \<and> parts_ok ps
      \<and> bind_params 0 ps (parsePattern path) [] = Some params)
    \<or> getRoute m path r = Some None \<and> (\<forall>ps h. T m ps = Some h \<longrightarrow> \<not> pmatch ps (parsePattern path))"
proof (cases "gm_get (roots r) m")
  case None
  then show ?thesis using no_root [OF rep None] by (simp add: getRoute_def)
next
  case (Some root)
  note root = root_facts [OF rep Some]
  show ?thesis
  proof (cases "node_search (parsePattern path) root")
    case None
    then have "\<not> pmatch ps (parsePattern path)" if "T m ps = Some h" for ps h
      using search_complete [of ps root "parsePattern path"] root(1,2) root(3) [of ps] that rep_table [OF rep that] by auto
    then show ?thesis using None Some by (simp add: getRoute_def)
  next
    case (Some n)
    obtain ps where ps: "n_pattern n \<noteq> []" "stored ps root = n_pattern n" "pmatch ps (parsePattern path)"
      using search_sound [OF Some root(1,2)] by blast
    then obtain h where h: "T m ps = Some h" "n_pattern n = canonical ps" using root(3) [of ps] by (auto split: if_splits)
    then have ok: "parts_ok ps" using rep_table [OF rep] by blast
    obtain params where params: "bind_params 0 ps (parsePattern path) [] = Some params"
      using bind_params_spec [OF ps(3) ok, of "[]" "[]"] by auto
    then have "getRoute m path r = Some (Some (n, params))"
      using Some \<open>gm_get (roots r) m = Some root\<close> by (simp add: getRoute_def h(2) parse_canonical [OF ok])
    then show ?thesis using h ps(3) ok params by blast
  qed
qed

lemma registered_mem: "(m, p, h) \<in> set rs \<Longrightarrow> \<exists>h'. registered rs m (parsePattern p) = Some h'"
  by (induction rs) (auto split: option.splits)

text \<open>
  C4. Routing is sound and complete. After any sequence of registrations, a lookup never indexes
  out of range; it returns a node exactly when some pattern registered for the method matches the
  path, and then the node carries a matching registered pattern whose entry in the handler table
  is the handler registered last for it.
\<close>

theorem routing_sound_complete:
  assumes "\<forall>(m, p, h) \<in> set rs. CHR ''-'' \<notin> set m" and "addRoutes rs newRouter = Some r"
  shows "case getRoute m path r of
      None \<Rightarrow> False
    | Some None \<Rightarrow> \<forall>p h. (m, p, h) \<in> set rs \<longrightarrow> \<not> pmatch (parsePattern p) (parsePattern path)
    | Some (Some (n, params)) \<Rightarrow> \<exists>ps h. registered rs m ps = Some h \<and> pmatch ps (parsePattern path) \<and>
        n_pattern n = canonical ps \<and> gm_get (handlers r) (route_key m (n_pattern n)) = Some h"
proof -
  have rep: "router_rep r (registered rs)" using addRoutes_new [OF assms(1)] assms(2) by (metis option.inject)
  show ?thesis using getRoute_rep [OF rep, of m path] rep_table [OF rep] registered_mem [of m _ _ rs]
    by (auto split: option.splits)
qed

theorem routing_sound_complete_witness:
  "\<exists>r. addRoutes [(''GET'', ''/u/:id'', 1 :: nat)] newRouter = Some r \<and> (case getRoute ''GET'' ''/v'' r of
      None \<Rightarrow> False | Some None \<Rightarrow> True | Some (Some (n, params)) \<Rightarrow> n_pattern n = ''/u/:id'')"
proof -
  obtain r where r: "addRoutes [(''GET'', ''/u/:id'', 1 :: nat)] newRouter = Some r"
    using addRoutes_new [of "[(''GET'', ''/u/:id'', 1 :: nat)]"] by auto
  have p: "parsePattern ''/u/:id'' = [''u'', '':id'']" by (simp add: parsePattern_def)
  show ?thesis using routing_sound_complete [OF _ r, of "''GET''" "''/v''"] r
    by (auto simp: p canonical_def split: option.splits if_splits)
qed

text \<open>
  A registered pattern is found by its own text, whatever other wildcards are registered
  beside it: a literal part is tried before the wildcards, so a static route always wins.
\<close>

theorem static_route_wins:
  assumes "\<forall>(m, p, h) \<in> set rs. CHR ''-'' \<notin> set m" and "(m, p, h) \<in> set rs"
  shows "\<exists>r n params h'. addRoutes rs newRouter = Some r \<and> getRoute m p r = Some (Some (n, params)) \<and>
    n_pattern n = canonical (parsePattern p) \<and> registered rs m (parsePattern p) = Some h' \<and>
    gm_get (handlers r) (route_key m (n_pattern n)) = Some h'"
proof -
  obtain r where r: "addRoutes rs newRouter = Some r" and rep: "router_rep r (registered rs)"
    using addRoutes_new [OF assms(1)] by blast
  obtain h' where h': "registered rs m (parsePattern p) = Some h'"
    using registered_mem [OF assms(2)] by blast
  obtain root where root: "gm_get (roots r) m = Some root" using no_root [OF rep] h' by fastforce
  note rf = root_facts [OF rep root]
  obtain n where n: "node_search (parsePattern p) root = Some n" "n_pattern n = canonical (parsePattern p)"
    using search_exact [OF _ parsePattern_ok rf(1,2), of p] rf(3) [of "parsePattern p"] h' by auto
  moreover have "getRoute m p r \<noteq> None" using getRoute_rep [OF rep, of m p] by auto
  then obtain params where "getRoute m p r = Some (Some (n, params))"
    using n(1) root by (auto simp: getRoute_def bind_eq_Some_conv)
  ultimately show ?thesis using r h' rep_table [OF rep h'] by auto
qed

theorem static_route_wins_witness:
  "\<exists>r n params h'. addRoutes [(''GET'', ''/:x'', 1 :: nat), (''GET'', ''/a'', 2)] newRouter = Some r \<and>
    getRoute ''GET'' ''/a'' r = Some (Some (n, params)) \<and> n_pattern n = ''/a''"
proof -
  have p: "canonical (parsePattern ''/a'') = ''/a''" by (simp add: parsePattern_def canonical_def)
  show ?thesis using static_route_wins [of "[(''GET'', ''/:x'', 1 :: nat), (''GET'', ''/a'', 2)]" "''GET''" "''/a''" 2] p by auto
qed

text \<open>
  The parameters rebuild the request path: when the wildcard names of the matched pattern are
  distinct, substituting the returned parameters in the pattern gives back the path's parts.
\<close>

theorem params_rebuild_path:
  assumes "\<forall>(m, p, h) \<in> set rs. CHR ''-'' \<notin> set m" and "addRoutes rs newRouter = Some r"
    and "getRoute m path r = Some (Some (n, params))"
    and "distinct (pnames (parsePattern (n_pattern n)))" and "\<forall>p \<in> set (parsePattern (n_pattern n)). star_part p \<longrightarrow> named p"
  shows "join_with CHR ''/'' (map (fill params) (parsePattern (n_pattern n))) = join_with CHR ''/'' (parsePattern path)"
proof -
  have rep: "router_rep r (registered rs)" using addRoutes_new [OF assms(1)] assms(2) by (metis option.inject)
  obtain ps where ps: "pmatch ps (parsePattern path)" "n_pattern n = canonical ps" "parts_ok ps"
    "bind_params 0 ps (parsePattern path) [] = Some params"
    using getRoute_rep [OF rep, of m path] assms(3) by auto
  show ?thesis using bind_params_spec [OF ps(1,3), of "[]" "[]"] ps(4) assms(4,5) parse_canonical [OF ps(3)]
    by (auto simp: ps(2))
qed

text \<open>The router with one parametrised route, evaluated.\<close>

lemma one_route:
  fixes h :: nat
  defines "rs \<equiv> [(''GET'', ''/u/:id'', h)]"
  shows "\<exists>r n. addRoutes rs newRouter = Some r \<and> getRoute ''GET'' ''/u/7'' r = Some (Some (n, [(''id'', ''7'')]))
    \<and> n_pattern n = ''/u/:id''"
proof -
  have p: "parsePattern ''/u/:id'' = [''u'', '':id'']" "parsePattern ''/u/7'' = [''u'', ''7'']" by (simp_all add: parsePattern_def)
  have c: "canonical [''u'', '':id''] = ''/u/:id''" by (simp add: canonical_def)
  show ?thesis
    by (simp add: rs_def addRoute_def newRouter_def p c gm_set_def getRoute_def matchChildren_def star_part_def found_def rd_def Let_def)
qed

theorem params_rebuild_path_witness:
  "\<exists>params. gm_get params ''id'' = Some ''7'' \<and>
    join_with CHR ''/'' (map (fill params) (parsePattern ''/u/:id'')) = join_with CHR ''/'' (parsePattern ''/u/7'')"
proof -
  obtain r n where r: "addRoutes [(''GET'', ''/u/:id'', 1 :: nat)] newRouter = Some r"
    "getRoute ''GET'' ''/u/7'' r = Some (Some (n, [(''id'', ''7'')]))" "n_pattern n = ''/u/:id''" using one_route by blast
  have p: "parsePattern ''/u/:id'' = [''u'', '':id'']" by (simp add: parsePattern_def)
  show ?thesis using params_rebuild_path [OF _ r(1,2)] unfolding r(3)
    by (intro exI [of _ "[(''id'', ''7'')]"]) (simp add: p pnames_def named_def wild_part_def star_part_def)
qed

end
