(* ===== verification/Http_Context.thy ===== *)
theory Http_Context
  imports Http_Trie
begin

text \<open>
  The request context, the deferred response and the middleware chain
  (\<open>src/swifty_http/context.go\<close>, \<open>response.go\<close>, \<open>swifty.go\<close>, \<open>group.go\<close>, \<open>recovery.go\<close>).

  A middleware is a finite interaction tree: it acts on the context, branches on it, calls
  \<open>next\<close>, panics, or runs a body under a deferred \<open>recover\<close>. \<open>compose\<close> is the dispatcher of
  \<open>swifty.go\<close> with its \<open>index\<close> variable, so a second call of \<open>next\<close> is a panic value.

  \<open>net/http\<close>'s response writer is modelled by what it sends: the first \<open>WriteHeader\<close> fixes the
  status and a snapshot of the headers, a \<open>Write\<close> before it sends 200. \<open>json.Marshal\<close> and the
  template engine are parameters.
\<close>

section \<open>Middleware\<close>

datatype gopanic = PAbort | PMsg string

datatype 'c mw =
    Done
  | Act "'c \<Rightarrow> 'c" "'c mw"
  | Branch "'c \<Rightarrow> 'c mw"
  | Next "'c mw"
  | Panic gopanic
  | Deferred "'c mw" "gopanic \<Rightarrow> 'c \<Rightarrow> 'c + gopanic"

datatype 'c outcome = Returned int 'c | Panicked gopanic int 'c

text \<open>Running a middleware; the state is the dispatcher's \<open>index\<close> and the context.\<close>

primrec run_mw :: "(int \<Rightarrow> 'c \<Rightarrow> 'c outcome) \<Rightarrow> 'c mw \<Rightarrow> int \<Rightarrow> 'c \<Rightarrow> 'c outcome" where
  "run_mw nxt Done = (\<lambda>index c. Returned index c)"
| "run_mw nxt (Act f k) = (\<lambda>index c. run_mw nxt k index (f c))"
| "run_mw nxt (Branch g) = (\<lambda>index c. (\<lambda>x. run_mw nxt (g x)) c index c)"
| "run_mw nxt (Next k) = (\<lambda>index c. case nxt index c of
     Returned index c \<Rightarrow> run_mw nxt k index c | Panicked p index c \<Rightarrow> Panicked p index c)"
| "run_mw nxt (Panic p) = (\<lambda>index c. Panicked p index c)"
| "run_mw nxt (Deferred body h) = (\<lambda>index c. case run_mw nxt body index c of
     Returned index c \<Rightarrow> Returned index c
   | Panicked p index c \<Rightarrow> (case h p c of Inl c \<Rightarrow> Returned index c | Inr p \<Rightarrow> Panicked p index c))"

definition multiple_next :: gopanic where
  "multiple_next = PMsg ''swifty_http: next() called multiple times''"

text \<open>\<open>dispatch(i)\<close>; the middlewares from position \<open>i\<close> on are the list argument.\<close>

fun dispatch :: "'c mw option \<Rightarrow> 'c mw list \<Rightarrow> int \<Rightarrow> int \<Rightarrow> 'c \<Rightarrow> 'c outcome" where
  "dispatch final [] i index c =
     (if i \<le> index then Panicked multiple_next index c
      else (case final of None \<Rightarrow> Returned i c | Some h \<Rightarrow> run_mw (\<lambda>index c. Returned index c) h i c))"
| "dispatch final (m # ms) i index c =
     (if i \<le> index then Panicked multiple_next index c
      else run_mw (dispatch final ms (i + 1)) m i c)"

definition compose :: "'c mw list \<Rightarrow> 'c mw option \<Rightarrow> 'c \<Rightarrow> 'c outcome" where
  "compose middlewares final c = dispatch final middlewares 0 (- 1) c"

section \<open>Headers and the response writer\<close>

type_synonym headers = "(string, string) gomap"

record writer =
  w_header :: headers
  w_sent :: "(int \<times> headers) option"
  w_body :: string

definition token_char :: "char \<Rightarrow> bool" where
  "token_char c \<longleftrightarrow> (let n = of_char c :: nat in
     n \<ge> 97 \<and> n \<le> 122 \<or> n \<ge> 65 \<and> n \<le> 90 \<or> n \<ge> 48 \<and> n \<le> 57 \<or>
     n \<in> {33, 35, 36, 37, 38, 39, 42, 43, 45, 46, 94, 95, 96, 124, 126})"

definition upper_char :: "char \<Rightarrow> char" where
  "upper_char c = (let n = of_char c :: nat in if n \<ge> 97 \<and> n \<le> 122 then char_of (n - 32) else c)"

definition lower_char :: "char \<Rightarrow> char" where
  "lower_char c = (let n = of_char c :: nat in if n \<ge> 65 \<and> n \<le> 90 then char_of (n + 32) else c)"

fun capitalise :: "bool \<Rightarrow> string \<Rightarrow> string" where
  "capitalise up [] = []"
| "capitalise up (c # cs) = (if up then upper_char c else lower_char c) # capitalise (c = CHR ''-'') cs"

text \<open>\<open>http.CanonicalHeaderKey\<close>: a key with a byte that is no token byte is left alone.\<close>

definition canonical_key :: "string \<Rightarrow> string" where
  "canonical_key k = (if list_all token_char k then capitalise True k else k)"

definition header_set :: "string \<Rightarrow> string \<Rightarrow> writer \<Rightarrow> writer" where
  "header_set k v w = w\<lparr>w_header := gm_set (canonical_key k) v (w_header w)\<rparr>"

definition header_get :: "string \<Rightarrow> writer \<Rightarrow> string" where
  "header_get k w = (case gm_get (w_header w) (canonical_key k) of Some v \<Rightarrow> v | None \<Rightarrow> [])"

definition WriteHeader :: "int \<Rightarrow> writer \<Rightarrow> writer" where
  "WriteHeader code w = (case w_sent w of None \<Rightarrow> w\<lparr>w_sent := Some (code, w_header w)\<rparr> | Some _ \<Rightarrow> w)"

definition Write :: "string \<Rightarrow> writer \<Rightarrow> writer" where
  "Write b w = (let w = WriteHeader 200 w in w\<lparr>w_body := w_body w @ b\<rparr>)"

section \<open>The context\<close>

text \<open>
  \<open>Body any\<close>: nil, the HTML payload, bytes, a string, a reader (the bytes it yields), or any other
  value, which is marshalled.
\<close>

datatype 'j body = BNil | BHtml string 'j | BBytes string | BStr string | BReader string | BJson 'j

record 'j Context =
  Writer :: writer
  Path :: string
  Method :: string
  Status :: int
  Body :: "'j body"
  Type :: string
  State :: "(string, 'j) gomap"
  Params :: "(string, string) gomap"
  headers :: headers
  templates_loaded :: bool
  flushed :: bool
  statusSet :: bool

definition newContext :: "writer \<Rightarrow> string \<Rightarrow> string \<Rightarrow> bool \<Rightarrow> 'j Context" where
  "newContext w path method tmpl =
     \<lparr>Writer = w, Path = path, Method = method, Status = 404, Body = BNil, Type = [], State = [],
      Params = [], headers = [], templates_loaded = tmpl, flushed = False, statusSet = False\<rparr>"

text \<open>\<open>H{"message": msg, "data": nil}\<close> is built by \<open>mk\<close>, a constructor of the JSON values.\<close>

definition Throw :: "(string \<Rightarrow> 'j) \<Rightarrow> int \<Rightarrow> string \<Rightarrow> 'j Context \<Rightarrow> 'j Context" where
  "Throw mk status msg ctx = ctx\<lparr>Status := status, statusSet := True, Body := BJson (mk msg)\<rparr>"

definition SetStatus :: "int \<Rightarrow> 'j Context \<Rightarrow> 'j Context" where
  "SetStatus status ctx = ctx\<lparr>Status := status, statusSet := True\<rparr>"

definition SetHeader :: "string \<Rightarrow> string \<Rightarrow> 'j Context \<Rightarrow> 'j Context" where
  "SetHeader header v ctx = ctx\<lparr>headers := gm_set (canonical_key header) v (headers ctx)\<rparr>"

definition Param :: "string \<Rightarrow> 'j Context \<Rightarrow> string" where
  "Param key ctx = (case gm_get (Params ctx) key of Some v \<Rightarrow> v | None \<Rightarrow> [])"

section \<open>The deferred response\<close>

definition promoteStatus :: "'j Context \<Rightarrow> 'j Context" where
  "promoteStatus ctx = (if \<not> statusSet ctx \<and> Status ctx = 404 then ctx\<lparr>Status := 200\<rparr> else ctx)"

definition JSON :: "'j \<Rightarrow> 'j Context \<Rightarrow> 'j Context" where
  "JSON obj ctx = promoteStatus (ctx\<lparr>Type := ''application/json'', Body := BJson obj\<rparr>)"

text \<open>\<open>String\<close> gets the text that \<open>fmt.Sprintf\<close> returned.\<close>

definition String :: "string \<Rightarrow> 'j Context \<Rightarrow> 'j Context" where
  "String txt ctx = promoteStatus (ctx\<lparr>Type := ''text/plain'', Body := BStr txt\<rparr>)"

definition Data :: "string \<Rightarrow> 'j Context \<Rightarrow> 'j Context" where
  "Data data ctx = promoteStatus (ctx\<lparr>Body := BBytes data\<rparr>)"

definition HTML :: "string \<Rightarrow> 'j \<Rightarrow> 'j Context \<Rightarrow> 'j Context" where
  "HTML name data ctx = promoteStatus (ctx\<lparr>Type := ''text/html'', Body := BHtml name data\<rparr>)"

definition redirect_status :: "int \<Rightarrow> bool" where
  "redirect_status code \<longleftrightarrow> code \<in> {300, 301, 302, 303, 305, 307, 308}"

definition Redirect :: "string \<Rightarrow> 'j Context \<Rightarrow> 'j Context" where
  "Redirect url ctx =
     (let ctx = (if redirect_status (Status ctx) then ctx else ctx\<lparr>Status := 302\<rparr>);
          ctx = ctx\<lparr>statusSet := True, headers := gm_set ''Location'' url (headers ctx)\<rparr>
      in (case Body ctx of
            BNil \<Rightarrow> ctx\<lparr>Type := ''text/plain'', Body := BStr (''Redirecting to '' @ url)\<rparr>
          | _ \<Rightarrow> ctx))"

definition emptyStatus :: "int \<Rightarrow> bool" where
  "emptyStatus code \<longleftrightarrow> code = 204 \<or> code = 205 \<or> code = 304"

definition setContentType :: "string \<Rightarrow> 'j Context \<Rightarrow> 'j Context" where
  "setContentType v ctx =
     (if v = [] then ctx
      else if header_get ''Content-Type'' (Writer ctx) = []
      then ctx\<lparr>Writer := header_set ''Content-Type'' v (Writer ctx)\<rparr> else ctx)"

text \<open>\<open>WriteHeader(ctx.Status)\<close> followed by \<open>Write(data)\<close>.\<close>

definition send :: "int \<Rightarrow> string \<Rightarrow> 'j Context \<Rightarrow> 'j Context" where
  "send code data ctx = ctx\<lparr>Writer := Write data (WriteHeader code (Writer ctx))\<rparr>"

definition respondJSON :: "('j \<Rightarrow> string option) \<Rightarrow> 'j \<Rightarrow> 'j Context \<Rightarrow> 'j Context" where
  "respondJSON marshal obj ctx =
     (case marshal obj of
        None \<Rightarrow> send 500 ''{\"message\":\"Internal Server Error\"}''
                  (ctx\<lparr>Writer := header_set ''Content-Type'' ''application/json'' (Writer ctx)\<rparr>)
      | Some data \<Rightarrow>
          (let ctx = (if Type ctx = [] then ctx\<lparr>Type := ''application/json''\<rparr> else ctx);
               ctx = setContentType (Type ctx) ctx
           in send (Status ctx) data ctx))"

definition respondString :: "string \<Rightarrow> 'j Context \<Rightarrow> 'j Context" where
  "respondString s ctx =
     (let ctx = (if Type ctx = [] then ctx\<lparr>Type := ''text/plain''\<rparr> else ctx);
          ctx = setContentType (Type ctx) ctx
      in send (Status ctx) s ctx)"

definition respondBytes :: "string \<Rightarrow> 'j Context \<Rightarrow> 'j Context" where
  "respondBytes data ctx = (let ctx = setContentType (Type ctx) ctx in send (Status ctx) data ctx)"

definition respondReader :: "string \<Rightarrow> 'j Context \<Rightarrow> 'j Context" where
  "respondReader data ctx = (let ctx = setContentType (Type ctx) ctx in send (Status ctx) data ctx)"

text \<open>\<open>exec_template name data\<close> is what the engine writes, with an error or not.\<close>

definition respondHTML :: "(string \<Rightarrow> 'j \<Rightarrow> string) \<Rightarrow> string \<Rightarrow> 'j \<Rightarrow> 'j Context \<Rightarrow> 'j Context" where
  "respondHTML exec_template name data ctx =
     (if \<not> templates_loaded ctx
      then send 500 ''{\"message\":\"HTML templates are not loaded\"}'' ctx
      else let ctx = setContentType ''text/html'' ctx in send (Status ctx) (exec_template name data) ctx)"

definition respond :: "('j \<Rightarrow> string option) \<Rightarrow> (string \<Rightarrow> 'j \<Rightarrow> string) \<Rightarrow> 'j Context \<Rightarrow> 'j Context" where
  "respond marshal exec_template ctx =
     (if flushed ctx then ctx
      else
        let ctx = (if Body ctx \<noteq> BNil \<and> \<not> statusSet ctx \<and> Status ctx = 404 then ctx\<lparr>Status := 200\<rparr> else ctx);
            ctx = (if emptyStatus (Status ctx)
                   then ctx\<lparr>Body := BNil, headers := gm_del ''Transfer-Encoding''
                              (gm_del ''Content-Length'' (gm_del ''Content-Type'' (headers ctx)))\<rparr>
                   else ctx);
            ctx = ctx\<lparr>Writer := fold (\<lambda>(k, v). header_set k v) (headers ctx) (Writer ctx)\<rparr>
        in (case Body ctx of
              BNil \<Rightarrow> ctx\<lparr>Writer := WriteHeader (Status ctx) (Writer ctx)\<rparr>
            | BHtml name data \<Rightarrow> respondHTML exec_template name data ctx
            | BBytes data \<Rightarrow> respondBytes data ctx
            | BStr s \<Rightarrow> respondString s ctx
            | BReader r \<Rightarrow> respondReader r ctx
            | BJson obj \<Rightarrow> respondJSON marshal obj ctx))"

section \<open>Recovery\<close>

definition recover_handler :: "(string \<Rightarrow> 'j) \<Rightarrow> gopanic \<Rightarrow> 'j Context \<Rightarrow> 'j Context + gopanic" where
  "recover_handler mk err ctx =
     (case err of
        PAbort \<Rightarrow> Inr PAbort
      | PMsg _ \<Rightarrow> Inl (ctx\<lparr>Status := 500, statusSet := True, Type := [], headers := [],
                         Body := BJson (mk ''Internal Server Error'')\<rparr>))"

definition Recovery :: "(string \<Rightarrow> 'j) \<Rightarrow> 'j Context mw" where
  "Recovery mk = Deferred (Next Done) (recover_handler mk)"

text \<open>\<open>Logger\<close> only logs.\<close>

definition Logger :: "'j Context mw" where
  "Logger = Next Done"

section \<open>Routers and the application\<close>

text \<open>
  A \<open>*Router\<close> is its index in \<open>app.routers\<close>; the root router is index 0. The \<open>parent\<close> field is
  never read and the \<open>app\<close> field is the record itself.
\<close>

record 'c Router =
  prefix :: string
  middlewares :: "'c mw list"

record 'c Application =
  routers :: "'c Router list"
  app_router :: "'c mw router"

definition New :: "'c Application" where
  "New = \<lparr>routers = [\<lparr>prefix = [], middlewares = []\<rparr>], app_router = newRouter\<rparr>"

text \<open>The loop that strips trailing slashes.\<close>

fun strip_slashes :: "string \<Rightarrow> string" where
  "strip_slashes p = (if length p > 1 \<and> last p = CHR ''/'' then strip_slashes (butlast p) else p)"

declare strip_slashes.simps [simp del]

definition normalizePrefix :: "string \<Rightarrow> string" where
  "normalizePrefix p =
     (if p = [] then []
      else
        let p = (if \<not> has_prefix p ''/'' then ''/'' @ p else p);
            p = strip_slashes p
        in if p = ''/'' then [] else p)"

definition Router_new :: "nat \<Rightarrow> string \<Rightarrow> 'c Application \<Rightarrow> ('c Application \<times> nat) option" where
  "Router_new r pfx app = do {
     rt \<leftarrow> rd (routers app) r;
     Some (app\<lparr>routers := routers app @ [\<lparr>prefix = prefix rt @ normalizePrefix pfx, middlewares = []\<rparr>]\<rparr>,
           length (routers app)) }"

definition Router_Use :: "nat \<Rightarrow> 'c mw list \<Rightarrow> 'c Application \<Rightarrow> 'c Application option" where
  "Router_Use r ms app = do {
     rt \<leftarrow> rd (routers app) r;
     rs \<leftarrow> wr (routers app) r (rt\<lparr>middlewares := middlewares rt @ ms\<rparr>);
     Some (app\<lparr>routers := rs\<rparr>) }"

definition Router_addRoute :: "nat \<Rightarrow> string \<Rightarrow> string \<Rightarrow> 'c mw \<Rightarrow> 'c Application \<Rightarrow> 'c Application option" where
  "Router_addRoute r method suffix handler app = do {
     rt \<leftarrow> rd (routers app) r;
     let pattern = prefix rt @ suffix;
     ar \<leftarrow> addRoute method pattern handler (app_router app);
     Some (app\<lparr>app_router := ar\<rparr>) }"

fun add_methods :: "nat \<Rightarrow> string list \<Rightarrow> string \<Rightarrow> 'c mw \<Rightarrow> 'c Application \<Rightarrow> 'c Application option" where
  "add_methods r [] pattern handler app = Some app"
| "add_methods r (m # ms) pattern handler app = do {
     app \<leftarrow> Router_addRoute r m pattern handler app; add_methods r ms pattern handler app }"

definition http_methods :: "string list" where
  "http_methods = [''GET'', ''POST'', ''PUT'', ''DELETE'', ''PATCH'', ''HEAD'', ''OPTIONS'']"

definition Router_All :: "nat \<Rightarrow> string \<Rightarrow> 'c mw \<Rightarrow> 'c Application \<Rightarrow> 'c Application option" where
  "Router_All r pattern handler app = add_methods r http_methods pattern handler app"

definition matchRouterPath :: "string \<Rightarrow> string \<Rightarrow> bool option" where
  "matchRouterPath requestPath routerPrefix =
     (if routerPrefix = [] \<or> routerPrefix = ''/'' then Some True
      else if \<not> has_prefix requestPath routerPrefix then Some False
      else if length requestPath = length routerPrefix then Some True
      else do { ch \<leftarrow> rd requestPath (length routerPrefix); Some (ch = CHR ''/'') })"

fun collect_middlewares :: "string \<Rightarrow> 'c Router list \<Rightarrow> 'c mw list option" where
  "collect_middlewares path [] = Some []"
| "collect_middlewares path (r # rs) = do {
     b \<leftarrow> matchRouterPath path (prefix r);
     ms \<leftarrow> collect_middlewares path rs;
     Some (if b then middlewares r @ ms else ms) }"

definition notFound :: "'j Context mw" where
  "notFound = Act (\<lambda>ctx. ctx\<lparr>Status := 404, statusSet := True,
     Body := BStr (''404 NOT FOUND: '' @ Path ctx @ [CHR 0x0A])\<rparr>) Done"

text \<open>
  \<open>handle\<close>: the outer option is a run-time panic of the routing itself; a panic of the chain is
  the outcome \<open>Panicked\<close>, and then \<open>respond\<close> is not reached.
\<close>

definition handle ::
  "('j \<Rightarrow> string option) \<Rightarrow> (string \<Rightarrow> 'j \<Rightarrow> string) \<Rightarrow> 'j Context mw list \<Rightarrow> 'j Context mw router \<Rightarrow> 'j Context \<Rightarrow>
   'j Context outcome option" where
  "handle marshal exec_template ms r ctx = do {
     m \<leftarrow> getRoute (Method ctx) (Path ctx) r;
     let out = (case m of
        Some (n, params) \<Rightarrow>
          (let key = route_key (Method ctx) (n_pattern n);
               ctx = ctx\<lparr>Params := params\<rparr>;
               handler = gm_get (handlers r) key
           in compose ms handler ctx)
      | None \<Rightarrow> compose ms (Some notFound) ctx);
     Some (case out of
        Returned index ctx \<Rightarrow> Returned index (respond marshal exec_template ctx)
      | Panicked p index ctx \<Rightarrow> Panicked p index ctx) }"

definition ServeHTTP ::
  "('j \<Rightarrow> string option) \<Rightarrow> (string \<Rightarrow> 'j \<Rightarrow> string) \<Rightarrow> bool \<Rightarrow> writer \<Rightarrow> string \<Rightarrow> string \<Rightarrow> 'j Context Application \<Rightarrow>
   'j Context outcome option" where
  "ServeHTTP marshal exec_template tmpl w path method app = do {
     ms \<leftarrow> collect_middlewares path (routers app);
     let ctx = newContext w path method tmpl;
     handle marshal exec_template ms (app_router app) ctx }"

definition Default :: "(string \<Rightarrow> 'j) \<Rightarrow> 'j Context Application option" where
  "Default mk = Router_Use 0 [Logger, Recovery mk] New"

section \<open>The middleware chain\<close>

text \<open>The dispatcher's \<open>index\<close> never goes back.\<close>

primrec out_index :: "'c outcome \<Rightarrow> int" where
  "out_index (Returned i c) = i"
| "out_index (Panicked p i c) = i"

lemma run_mw_mono:
  assumes "\<And>i c. i \<le> out_index (nxt i c)"
  shows "i \<le> out_index (run_mw nxt m i c)"
proof (induction m arbitrary: i c)
  case (Next m)
  show ?case
  proof (cases "nxt i c")
    case (Returned j d)
    then show ?thesis using assms [of i c] Next [of j d] by simp
  qed (use assms [of i c] in simp)
next
  case (Deferred m h)
  show ?case using Deferred.IH [of i c] by (cases "run_mw nxt m i c") (auto split: sum.splits)
qed auto

lemma dispatch_mono: "index \<le> out_index (dispatch final ms i index c)"
proof (induction ms arbitrary: i index c)
  case Nil
  show ?case
  proof (cases final)
    case (Some h)
    then show ?thesis using run_mw_mono [of "\<lambda>index c. Returned index c" i h c] by auto
  qed auto
next
  case (Cons m ms)
  then show ?case using run_mw_mono [of "dispatch final ms (i + 1)" i m c] by simp
qed

lemma dispatch_again: "i \<le> index \<Longrightarrow> dispatch final ms i index c = Panicked multiple_next index c"
  by (cases ms) auto

lemma dispatch_reaches: "index < i \<Longrightarrow> i \<le> out_index (dispatch final ms i index c)"
  using run_mw_mono [of "\<lambda>index c. Returned index c" i _ c] run_mw_mono [of "dispatch final (tl ms) (i + 1)" i "hd ms" c]
  by (cases ms) (auto split: option.split simp: dispatch_mono)


subsection \<open>Onion order, double calls, recovery\<close>

text \<open>A middleware that works before and after one call of \<open>next\<close>.\<close>

definition around :: "('c \<Rightarrow> 'c) \<Rightarrow> ('c \<Rightarrow> 'c) \<Rightarrow> 'c mw" where
  "around pre post = Act pre (Next (Act post Done))"

definition onion :: "(('c \<Rightarrow> 'c) \<times> ('c \<Rightarrow> 'c)) list \<Rightarrow> ('c \<Rightarrow> 'c) \<Rightarrow> 'c \<Rightarrow> 'c" where
  "onion layers f = foldr (\<lambda>(pre, post) k c. post (k (pre c))) layers f"

lemma dispatch_onion:
  "index < i \<Longrightarrow> dispatch (Some (Act f Done)) (map (\<lambda>(pre, post). around pre post) layers) i index c =
     Returned (i + int (length layers)) (onion layers f c)"
  by (induction layers arbitrary: i index c) (auto simp: around_def onion_def)

lemma dispatch_twice:
  assumes "index < i"
  shows "\<exists>p j d. dispatch final (Next (Next k) # ms) i index c = Panicked p j d \<and>
    (case dispatch final ms (i + 1) i c of Returned _ _ \<Rightarrow> p = multiple_next | Panicked q _ _ \<Rightarrow> p = q)"
proof (cases "dispatch final ms (i + 1) i c")
  case (Returned j d)
  then have "i + 1 \<le> j" using dispatch_reaches [of i "i + 1" final ms c] by simp
  then show ?thesis using assms Returned by (simp add: dispatch_again)
qed (use assms in simp)

lemma dispatch_recovery:
  assumes "index < i"
  shows "dispatch final (Recovery mk # ms) i index c =
    (case dispatch final ms (i + 1) i c of
       Returned j d \<Rightarrow> Returned j d
     | Panicked p j d \<Rightarrow> (case recover_handler mk p d of Inl d \<Rightarrow> Returned j d | Inr p \<Rightarrow> Panicked p j d))"
  using assms by (auto simp: Recovery_def split: outcome.splits)

section \<open>Responses\<close>

lemma sent_WriteHeader: "w_sent w = None \<Longrightarrow> w_sent (WriteHeader code w) = Some (code, w_header w)"
  by (simp add: WriteHeader_def)

lemma send_fresh:
  "w_sent (Writer ctx) = None \<Longrightarrow> w_sent (Writer (send code data ctx)) = Some (code, w_header (Writer ctx)) \<and>
     w_body (Writer (send code data ctx)) = w_body (Writer ctx) @ data"
  by (simp add: send_def Write_def WriteHeader_def)

lemma header_set_simps [simp]:
  "w_sent (header_set k v w) = w_sent w" "w_body (header_set k v w) = w_body w"
  by (simp_all add: header_set_def)

lemma setContentType_simps [simp]:
  "w_sent (Writer (setContentType v ctx)) = w_sent (Writer ctx)" "w_body (Writer (setContentType v ctx)) = w_body (Writer ctx)"
  "Status (setContentType v ctx) = Status ctx"
  by (simp_all add: setContentType_def)

lemma fold_headers [simp]:
  "w_sent (fold (\<lambda>(k, v). header_set k v) hs w) = w_sent w" "w_body (fold (\<lambda>(k, v). header_set k v) hs w) = w_body w"
  by (induction hs arbitrary: w) auto

lemma fold_headers_get:
  "\<forall>(k, v) \<in> set hs. canonical_key k \<noteq> key \<Longrightarrow>
     gm_get (w_header (fold (\<lambda>(k, v). header_set k v) hs w)) key = gm_get (w_header w) key"
  by (induction hs arbitrary: w) (auto simp: header_set_def)

definition promoted_status :: "'j Context \<Rightarrow> int" where
  "promoted_status ctx = (if Body ctx \<noteq> BNil \<and> \<not> statusSet ctx \<and> Status ctx = 404 then 200 else Status ctx)"

text \<open>What the client must see: the status line and the payload.\<close>

definition answer :: "('j \<Rightarrow> string option) \<Rightarrow> (string \<Rightarrow> 'j \<Rightarrow> string) \<Rightarrow> 'j Context \<Rightarrow> int \<times> string" where
  "answer marshal exec_template ctx =
     (let s = promoted_status ctx in
      if emptyStatus s then (s, [])
      else (case Body ctx of
         BNil \<Rightarrow> (s, [])
       | BHtml name data \<Rightarrow> if templates_loaded ctx then (s, exec_template name data)
                            else (500, ''{\"message\":\"HTML templates are not loaded\"}'')
       | BBytes b \<Rightarrow> (s, b) | BStr b \<Rightarrow> (s, b) | BReader b \<Rightarrow> (s, b)
       | BJson obj \<Rightarrow> (case marshal obj of Some b \<Rightarrow> (s, b)
                       | None \<Rightarrow> (500, ''{\"message\":\"Internal Server Error\"}''))))"

lemma respond_answer:
  assumes "\<not> flushed ctx" and "w_sent (Writer ctx) = None"
  shows "\<exists>hs. w_sent (Writer (respond marshal exec_template ctx)) = Some (fst (answer marshal exec_template ctx), hs) \<and>
    w_body (Writer (respond marshal exec_template ctx)) = w_body (Writer ctx) @ snd (answer marshal exec_template ctx)"
proof -
  note defs = respond_def answer_def promoted_status_def Let_def respondHTML_def respondBytes_def respondString_def
    respondReader_def respondJSON_def
  show ?thesis
  proof (cases "emptyStatus (promoted_status ctx)")
    case True
    then show ?thesis using assms by (auto simp: defs sent_WriteHeader WriteHeader_def emptyStatus_def split: if_splits)
  next
    case False
    then show ?thesis using assms
      by (cases "Body ctx"; cases "templates_loaded ctx") (auto simp: defs send_fresh sent_WriteHeader WriteHeader_def split: option.split if_splits)
  qed
qed

section \<open>Prefixes\<close>

lemma strip_slashes_shape:
  "p \<noteq> [] \<Longrightarrow> hd p = CHR ''/'' \<Longrightarrow>
     strip_slashes p \<noteq> [] \<and> hd (strip_slashes p) = CHR ''/'' \<and> (strip_slashes p = ''/'' \<or> last (strip_slashes p) \<noteq> CHR ''/'')"
proof (induction p rule: strip_slashes.induct)
  case (1 p)
  show ?case
  proof (cases "length p > 1 \<and> last p = CHR ''/''")
    case True
    then have "butlast p \<noteq> []" "hd (butlast p) = CHR ''/''" using 1(2,3) by (cases p rule: rev_cases; auto simp: hd_append)+
    then show ?thesis using 1(1) True by (subst (1 2 3 4) strip_slashes.simps) simp
  next
    case False
    then show ?thesis using 1(2,3) by (subst (1 2 3 4) strip_slashes.simps) (cases p; auto)
  qed
qed

lemma normalizePrefix_shape:
  "normalizePrefix p = [] \<or> (hd (normalizePrefix p) = CHR ''/'' \<and> last (normalizePrefix p) \<noteq> CHR ''/'')"
proof -
  define q where "q = (if \<not> has_prefix p ''/'' then ''/'' @ p else p)"
  have "p \<noteq> [] \<Longrightarrow> q \<noteq> [] \<and> hd q = CHR ''/''" by (cases p) (auto simp: q_def)
  then show ?thesis using strip_slashes_shape [of q]
    by (auto simp: normalizePrefix_def Let_def q_def [symmetric])
qed

lemma keep_parts_append:
  "\<forall>q \<in> set qs. q \<noteq> [] \<and> \<not> star_part q \<Longrightarrow> keep_parts (qs @ vs) = qs @ keep_parts vs"
  by (induction qs) (auto simp: star_part_hd)

lemma split_join_append:
  "qs \<noteq> [] \<Longrightarrow> \<forall>q \<in> set qs. CHR ''/'' \<notin> set q \<Longrightarrow>
     split_on CHR ''/'' (join_with CHR ''/'' qs @ CHR ''/'' # t) = qs @ split_on CHR ''/'' t"
proof (induction qs)
  case (Cons q qs)
  then show ?case by (cases qs) (auto simp: split_on_append_sep join_Cons)
qed simp

text \<open>Parts that match only themselves.\<close>

definition static_parts :: "string list \<Rightarrow> bool" where
  "static_parts qs \<longleftrightarrow> qs \<noteq> [] \<and> (\<forall>q \<in> set qs. q \<noteq> [] \<and> \<not> wild_part q \<and> CHR ''/'' \<notin> set q)"

lemma static_parts_facts:
  assumes "static_parts qs"
  shows "parts_ok qs" "\<forall>q \<in> set qs. q \<noteq> [] \<and> \<not> star_part q" "\<forall>q \<in> set qs. CHR ''/'' \<notin> set q" "qs \<noteq> []"
proof -
  show 1: "\<forall>q \<in> set qs. q \<noteq> [] \<and> \<not> star_part q" using assms by (auto simp: static_parts_def wild_part_def star_part_hd)
  show 2: "\<forall>q \<in> set qs. CHR ''/'' \<notin> set q" "qs \<noteq> []" using assms by (auto simp: static_parts_def)
  show "parts_ok qs" using 1 2(1) by (induction qs) auto
qed

lemma parse_prefix:
  assumes "static_parts qs" and "suffix = [] \<or> hd suffix = CHR ''/''"
  shows "\<exists>rest. parsePattern (canonical qs @ suffix) = qs @ rest"
proof (cases suffix)
  case Nil
  then show ?thesis using parse_canonical [OF static_parts_facts(1) [OF assms(1)]] by simp
next
  case (Cons c t)
  then have "parsePattern (canonical qs @ suffix) = keep_parts (qs @ split_on CHR ''/'' t)"
    using assms(2) split_join_append [OF static_parts_facts(4,3) [OF assms(1)]] by (simp add: parsePattern_def canonical_def)
  then show ?thesis using keep_parts_append [OF static_parts_facts(2) [OF assms(1)]] by auto
qed

lemma pmatch_static: "pmatch (qs @ rest) xs \<Longrightarrow> static_parts qs \<Longrightarrow> \<exists>ys. xs = qs @ ys"
proof (induction qs arbitrary: xs)
  case (Cons q qs)
  then obtain x ys where xs: "xs = x # ys" by (cases xs) auto
  have q: "\<not> wild_part q" "\<not> star_part q" using Cons.prems(2) static_parts_facts(2) [OF Cons.prems(2)] by (auto simp: static_parts_def)
  show ?case
  proof (cases "qs = []")
    case True
    then show ?thesis using Cons.prems(1) q by (simp add: xs)
  next
    case False
    then have "static_parts qs" using Cons.prems(2) by (simp add: static_parts_def)
    then show ?thesis using Cons.IH [of ys] Cons.prems(1) q by (auto simp: xs)
  qed
qed simp

lemma join_append: "qs \<noteq> [] \<Longrightarrow> ys \<noteq> [] \<Longrightarrow> join_with c (qs @ ys) = join_with c qs @ c # join_with c ys"
proof (induction qs)
  case (Cons a qs)
  then show ?case by (cases "qs = []") (auto simp: join_Cons)
qed simp

lemma matchRouterPath_canonical:
  assumes "static_parts qs"
  shows "matchRouterPath (canonical (qs @ ys)) (canonical qs) = Some True"
proof (cases "ys = []")
  case True
  then show ?thesis by (simp add: matchRouterPath_def has_prefix_def)
next
  case False
  then have c: "canonical (qs @ ys) = canonical qs @ CHR ''/'' # join_with CHR ''/'' ys"
    using join_append [OF static_parts_facts(4) [OF assms] False] by (simp add: canonical_def)
  show ?thesis unfolding c by (simp add: matchRouterPath_def has_prefix_def rd_def)
qed

section \<open>Properties\<close>


text \<open>
  Calling \<open>next()\<close> twice always panics, at any depth of the chain and whatever the rest of
  the chain does; behind \<open>Recovery\<close> the client gets status 500 unless the chain aborted.
\<close>

theorem next_twice_panics:
  "\<exists>p j d. compose (Next (Next k) # ms) final c = Panicked p j d \<and>
     (case compose (Recovery mk # Next (Next k) # ms) final c of
        Returned _ d' \<Rightarrow> Status d' = 500 \<and> statusSet d' | Panicked q _ _ \<Rightarrow> q = PAbort)"
proof -
  obtain p j d where "compose (Next (Next k) # ms) final c = Panicked p j d"
    unfolding compose_def using dispatch_twice [of "- 1" 0 final k ms c] by auto
  moreover obtain q j' d' where "dispatch final (Next (Next k) # ms) (0 + 1) 0 c = Panicked q j' d'"
    using dispatch_twice [of 0 "0 + 1" final k ms c] by auto
  ultimately show ?thesis unfolding compose_def
    by (subst dispatch_recovery) (auto simp: recover_handler_def split: gopanic.splits)
qed

text \<open>
  The deferred response answers exactly once, with the right status and payload: an unset 404
  becomes 200 when there is a body, 204, 205 and 304 are sent without a body, a value that does
  not marshal or a missing template is a 500, and everything else is the status and body of the
  context.
\<close>

theorem respond_sends_answer:
  assumes "\<not> flushed ctx" and "w_sent (Writer ctx) = None"
  shows "\<exists>hs. w_sent (Writer (respond marshal exec_template ctx)) = Some (fst (answer marshal exec_template ctx), hs) \<and>
    w_body (Writer (respond marshal exec_template ctx)) = w_body (Writer ctx) @ snd (answer marshal exec_template ctx)"
  by (rule respond_answer [OF assms])

definition fresh_writer :: writer where
  "fresh_writer = \<lparr>w_header = [], w_sent = None, w_body = []\<rparr>"

definition small_ctx :: "unit Context" where
  "small_ctx = String ''hi'' (newContext fresh_writer ''/'' ''GET'' False)"

lemma small_ctx_facts:
  "\<not> flushed small_ctx" "Writer small_ctx = fresh_writer" "w_sent fresh_writer = None" "w_body fresh_writer = []"
  "Status small_ctx = 200" "Body small_ctx = BStr ''hi''"
  by (simp_all add: small_ctx_def String_def newContext_def promoteStatus_def fresh_writer_def)

theorem respond_sends_answer_witness:
  "\<exists>hs. w_sent (Writer (respond (\<lambda>_. None) (\<lambda>_ _. []) small_ctx)) = Some (200, hs)
    \<and> w_body (Writer (respond (\<lambda>_. None) (\<lambda>_ _. []) small_ctx)) = ''hi''"
  using respond_sends_answer [of small_ctx "\<lambda>_. None" "\<lambda>_ _. []"]
    small_ctx_facts by (simp add: answer_def promoted_status_def emptyStatus_def)

text \<open>
  An application whose first router has \<open>Logger\<close> and \<open>Recovery\<close> (as \<open>Default\<close> builds it)
  answers every request, whatever the registered handlers and middlewares do: routing does not
  panic, a panic of the chain other than the abort sentinel is caught, and unless a handler took
  over the connection a status line has been sent.
\<close>

theorem default_app_answers:
  assumes "\<forall>(m, p, h) \<in> set rs. CHR ''-'' \<notin> set m" and "addRoutes rs newRouter = Some r"
    and "app = \<lparr>routers = \<lparr>prefix = [], middlewares = [Logger, Recovery mk] @ ms\<rparr> # others, app_router = r\<rparr>"
  shows "\<exists>out. ServeHTTP marshal exec_template tmpl w path method app = Some out \<and>
    (case out of Panicked p _ _ \<Rightarrow> p = PAbort
     | Returned _ ctx \<Rightarrow> flushed ctx \<or> w_sent (Writer ctx) \<noteq> None)"
proof -
  have m: "\<exists>b. matchRouterPath path q = Some b" for q
    by (auto simp: matchRouterPath_def has_prefix_append rd_def)
  have "\<exists>ms. collect_middlewares path qs = Some ms" for qs :: "'a Context Router list"
  proof (induction qs)
    case (Cons q qs)
    then show ?case using m [of "prefix q"] by auto
  qed simp
  then obtain ms' where ms': "collect_middlewares path others = Some ms'" by blast
  have col: "collect_middlewares path (routers app) = Some (Logger # Recovery mk # ms @ ms')"
    using ms' by (simp add: assms(3) matchRouterPath_def)
  have chain: "case compose (Logger # Recovery mk # l) final c of Panicked p _ _ \<Rightarrow> p = PAbort | Returned _ _ \<Rightarrow> True" for l final and c :: "'a Context"
  proof -
    have "dispatch final (Logger # q) 0 (- 1) c = dispatch final q 1 0 c" for q
      by (auto simp: Logger_def split: outcome.splits)
    then show ?thesis
      by (simp only: compose_def dispatch_recovery zero_less_one) (auto simp: recover_handler_def split: outcome.splits gopanic.splits)
  qed
  have sent: "flushed (respond marshal exec_template c) \<or> w_sent (Writer (respond marshal exec_template c)) \<noteq> None" for c :: "'a Context"
  proof (cases "flushed c")
    case True
    then show ?thesis by (simp add: respond_def)
  next
    case False
    show ?thesis
    proof (cases "w_sent (Writer c) = None")
      case True
      then show ?thesis using respond_answer [OF False] by fastforce
    next
      case sent: False
      then have "w_sent (Writer (send code data d)) \<noteq> None" if "w_sent (Writer d) \<noteq> None" for code data and d :: "'a Context"
        using that by (auto simp: send_def Write_def WriteHeader_def Let_def split: option.splits)
      then show ?thesis using False sent
        by (auto simp: respond_def Let_def respondHTML_def respondBytes_def respondString_def respondReader_def respondJSON_def
            WriteHeader_def split: body.split option.split)
    qed
  qed
  have rep: "router_rep r (registered rs)" using addRoutes_new [OF assms(1)] assms(2) by (metis option.inject)
  obtain g where g: "getRoute method path r = Some g" using getRoute_rep [OF rep, of "method" path] by auto
  let ?c = "newContext w path method tmpl :: 'a Context"
  obtain final c where out: "ServeHTTP marshal exec_template tmpl w path method app = Some
     (case compose (Logger # Recovery mk # ms @ ms') final c of
        Returned index ctx \<Rightarrow> Returned index (respond marshal exec_template ctx) | Panicked p index ctx \<Rightarrow> Panicked p index ctx)"
  proof -
    have ar: "app_router app = r" by (simp add: assms(3))
    have "\<exists>final c. ServeHTTP marshal exec_template tmpl w path method app = Some
     (case compose (Logger # Recovery mk # ms @ ms') final c of
        Returned index ctx \<Rightarrow> Returned index (respond marshal exec_template ctx) | Panicked p index ctx \<Rightarrow> Panicked p index ctx)"
      using g by (cases g) (auto simp: ServeHTTP_def col ar handle_def Let_def newContext_def split: prod.splits)
    then show ?thesis using that by blast
  qed
  then show ?thesis using chain [of "ms @ ms'" final c] sent by (auto split: outcome.splits)
qed

theorem default_app_answers_witness:
  "\<exists>out. ServeHTTP (\<lambda>_. None) (\<lambda>_ _. []) False fresh_writer ''/'' ''GET''
      \<lparr>routers = [\<lparr>prefix = [], middlewares = [Logger, Recovery (\<lambda>_. ()), Panic (PMsg ''boom'')]\<rparr>], app_router = newRouter\<rparr> = Some out \<and>
    (case out of Panicked p _ _ \<Rightarrow> p = PAbort | Returned _ ctx \<Rightarrow> flushed ctx \<or> w_sent (Writer ctx) \<noteq> None)"
  by (rule default_app_answers [of "[]" _ _ "\<lambda>_. ()" "[Panic (PMsg ''boom'')]" "[]"]) simp_all

text \<open>
  On a clean request path, a router's middlewares run for every route registered through it:
  for a static prefix, if the pattern (prefix followed by the route) matches the path, then
  \<open>matchRouterPath\<close> selects the router.
\<close>

theorem router_middlewares_cover_routes:
  assumes "static_parts qs" and "suffix = [] \<or> hd suffix = CHR ''/''" and "path = canonical (parsePattern path)"
    and "pmatch (parsePattern (canonical qs @ suffix)) (parsePattern path)"
  shows "matchRouterPath path (canonical qs) = Some True"
proof -
  obtain rest where "parsePattern (canonical qs @ suffix) = qs @ rest" using parse_prefix [OF assms(1,2)] by blast
  then obtain ys where "parsePattern path = qs @ ys" using pmatch_static assms(1,4) by metis
  then show ?thesis using matchRouterPath_canonical [OF assms(1)] assms(3) by metis
qed

theorem router_middlewares_cover_routes_witness: "matchRouterPath ''/v1/x'' ''/v1'' = Some True"
proof -
  have p: "canonical [''v1''] = ''/v1''" "parsePattern ''/v1/x'' = [''v1'', ''x'']" "canonical [''v1'', ''x''] = ''/v1/x''"
    by (simp_all add: canonical_def parsePattern_def)
  show ?thesis using router_middlewares_cover_routes [of "[''v1'']" "''/:id''" "''/v1/x''"] p
    by (simp add: static_parts_def wild_part_def star_part_def parsePattern_def)
qed

text \<open>
  On a path that is not clean the two disagree: a doubled slash in front of the prefix still
  reaches the route, because the trie ignores empty parts, but \<open>matchRouterPath\<close> compares the raw
  path and the router's middlewares (an authentication check, say) are skipped.
\<close>

theorem double_slash_skips_middlewares:
  fixes auth handler :: "'c mw"
  shows "\<exists>app1 app2 r n params. Router_new 0 ''/admin'' New = Some (app1, 1) \<and> Router_Use 1 [auth] app1 = Some app2 \<and>
    addRoute ''GET'' ''/admin/x'' handler (app_router app2) = Some r \<and>
    getRoute ''GET'' ''//admin/x'' r = Some (Some (n, params)) \<and> gm_get (handlers r) (route_key ''GET'' (n_pattern n)) = Some handler \<and>
    collect_middlewares ''//admin/x'' (routers app2) = Some [] \<and> collect_middlewares ''/admin/x'' (routers app2) = Some [auth]"
proof -
  have p: "parsePattern ''/admin/x'' = [''admin'', ''x'']" "parsePattern ''//admin/x'' = [''admin'', ''x'']"
    "canonical [''admin'', ''x''] = ''/admin/x''" by (simp_all add: parsePattern_def canonical_def)
  have s: "normalizePrefix ''/admin'' = ''/admin''" by (simp add: normalizePrefix_def strip_slashes.simps)
  show ?thesis
    by (simp add: Router_new_def Router_Use_def New_def rd_def wr_def s newRouter_def addRoute_def getRoute_def p
        gm_set_def route_key_def matchChildren_def star_part_def found_def matchRouterPath_def has_prefix_def Let_def)
qed

end
