(* ===== verification/Http_Websocket.thy ===== *)
theory Http_Websocket
  imports Http_Context
begin

text \<open>
  WebSocket connections (\<open>src/swifty_http/websocket.go\<close>): frame decoding with the checks of
  RFC 6455, reassembly of fragmented messages, frame encoding, the read loops and the upgrade
  handshake.

  The connection is the bytes still to be read and the bytes written so far; a read past the end
  is an I/O error. Callbacks are recorded as events, in order. The position in the input after an
  error is not modelled, since every caller stops there. \<open>strings.EqualFold\<close>, \<open>strings.TrimSpace\<close>
  and the SHA-1/base64 accept key are parameters of the handshake.
\<close>

section \<open>Data\<close>

datatype ws_err = IOErr | ErrWSClosed | ErrWSInvalidFrame

definition continuationFrame :: nat where "continuationFrame = 0"
definition TextMessage :: nat where "TextMessage = 1"
definition BinaryMessage :: nat where "BinaryMessage = 2"
definition CloseMessage :: nat where "CloseMessage = 8"
definition PingMessage :: nat where "PingMessage = 9"
definition PongMessage :: nat where "PongMessage = 10"

definition maxFrameSize :: nat where "maxFrameSize = 65536"
definition closeNormal :: nat where "closeNormal = 1000"

lemmas opcodes = continuationFrame_def TextMessage_def BinaryMessage_def CloseMessage_def PingMessage_def PongMessage_def

datatype ws_event = EvMessage nat bytes | EvClose nat bytes | EvError ws_err | EvPing bytes | EvPong bytes

text \<open>The callbacks that are set, by kind.\<close>

record callbacks =
  has_onMessage :: bool
  has_onClose :: bool
  has_onError :: bool
  has_onPing :: bool
  has_onPong :: bool

record WSConn =
  br :: bytes
  out :: bytes
  ws_closed :: bool
  maxMessageSize :: int
  cbs :: callbacks
  events :: "ws_event list"

definition messageLimit :: "WSConn \<Rightarrow> nat" where
  "messageLimit ws = (if maxMessageSize ws > 0 then nat (maxMessageSize ws) else maxFrameSize)"

definition emit :: "(callbacks \<Rightarrow> bool) \<Rightarrow> ws_event \<Rightarrow> WSConn \<Rightarrow> WSConn" where
  "emit is_set e ws = (if is_set (cbs ws) then ws\<lparr>events := events ws @ [e]\<rparr> else ws)"

section \<open>Masking and reading\<close>

definition unmask :: "bytes \<Rightarrow> bytes \<Rightarrow> bytes" where
  "unmask key payload = map (\<lambda>i. payload ! i XOR key ! (i mod 4)) [0..<length payload]"

text \<open>\<open>io.ReadFull\<close> of \<open>n\<close> bytes.\<close>

definition ReadFull :: "nat \<Rightarrow> bytes \<Rightarrow> ws_err + bytes \<times> bytes" where
  "ReadFull n bs = (if n \<le> length bs then Inr (take n bs, drop n bs) else Inl IOErr)"

section \<open>Frames\<close>

text \<open>The checks on the two header bytes: opcode, fin flag and 7-bit length.\<close>

definition parse_header :: "byte \<Rightarrow> byte \<Rightarrow> ws_err + nat \<times> bool \<times> nat" where
  "parse_header h0 h1 =
     (let fin = (h0 AND 0x80 \<noteq> 0);
          opcode = unat (h0 AND 0x0F);
          masked = (h1 AND 0x80 \<noteq> 0);
          len = unat (h1 AND 0x7F)
      in if h0 AND 0x70 \<noteq> 0 then Inl ErrWSInvalidFrame
         else if opcode \<in> {continuationFrame, TextMessage, BinaryMessage} then
           if \<not> masked then Inl ErrWSInvalidFrame else Inr (opcode, fin, len)
         else if opcode \<in> {CloseMessage, PingMessage, PongMessage} then
           if \<not> fin \<or> len > 125 then Inl ErrWSInvalidFrame
           else if \<not> masked then Inl ErrWSInvalidFrame else Inr (opcode, fin, len)
         else Inl ErrWSInvalidFrame)"

definition readFrame :: "nat \<Rightarrow> bytes \<Rightarrow> ws_err + (nat \<times> bool \<times> bytes) \<times> bytes" where
  "readFrame limit bs =
     sbind (ReadFull 2 bs) (\<lambda>(header, bs).
     sbind (parse_header (header ! 0) (header ! 1)) (\<lambda>(opcode, fin, len).
     sbind (if len = 126 then sbind (ReadFull 2 bs) (\<lambda>(ext, bs). Inr (be_val ext, bs))
            else if len = 127 then sbind (ReadFull 8 bs) (\<lambda>(ext, bs). Inr (be_val ext, bs))
            else Inr (len, bs)) (\<lambda>(len, bs).
     if len > limit then Inl ErrWSInvalidFrame
     else sbind (ReadFull 4 bs) (\<lambda>(maskKey, bs).
     sbind (ReadFull len bs) (\<lambda>(payload, bs).
     Inr ((opcode, fin, unmask maskKey payload), bs))))))"

lemma readFrame_consumes: "readFrame limit bs = Inr (f, rest) \<Longrightarrow> length rest < length bs"
  by (auto simp: readFrame_def sbind_Inr ReadFull_def split: if_splits)

text \<open>
  The loop of \<open>readMessage\<close>; the accumulator is \<open>(msgType, buf)\<close>.
\<close>

function read_fragments :: "nat \<Rightarrow> nat \<Rightarrow> bytes \<Rightarrow> bytes \<Rightarrow> ws_err + (nat \<times> bytes) \<times> bytes" where
  "read_fragments limit msgType buf bs =
     (case readFrame limit bs of
        Inl e \<Rightarrow> Inl e
      | Inr ((opcode, fin, data), rest) \<Rightarrow>
          if opcode \<in> {CloseMessage, PingMessage, PongMessage} then Inr ((opcode, data), rest)
          else if opcode = continuationFrame then
            if msgType = 0 then Inl ErrWSInvalidFrame
            else if length buf + length data > limit then Inl ErrWSInvalidFrame
            else if fin then Inr ((msgType, buf @ data), rest)
            else read_fragments limit msgType (buf @ data) rest
          else
            if msgType \<noteq> 0 then Inl ErrWSInvalidFrame
            else if fin then Inr ((opcode, data), rest)
            else read_fragments limit opcode (buf @ data) rest)"
  by pat_completeness auto
termination
  by (relation "measure (\<lambda>(limit, msgType, buf, bs). length bs)") (auto dest!: readFrame_consumes)

declare read_fragments.simps [simp del]

definition readMessage :: "WSConn \<Rightarrow> ws_err + (nat \<times> bytes) \<times> WSConn" where
  "readMessage ws = sbind (read_fragments (messageLimit ws) 0 [] (br ws)) (\<lambda>(m, rest). Inr (m, ws\<lparr>br := rest\<rparr>))"

text \<open>\<open>byte(0x80 | opcode)\<close> and the three length forms.\<close>

definition frame_header :: "nat \<Rightarrow> nat \<Rightarrow> bytes" where
  "frame_header opcode len =
     (if len \<le> 125 then [0x80 OR word_of_nat opcode, word_of_nat len]
      else if len \<le> 65535 then [0x80 OR word_of_nat opcode, 126] @ put_be 2 len
      else [0x80 OR word_of_nat opcode, 127] @ put_be 8 len)"

definition encode_frame :: "nat \<Rightarrow> bytes \<Rightarrow> bytes" where
  "encode_frame opcode payload = frame_header opcode (length payload) @ payload"

definition writeFrame :: "nat \<Rightarrow> bytes \<Rightarrow> WSConn \<Rightarrow> WSConn" where
  "writeFrame opcode payload ws = ws\<lparr>out := out ws @ encode_frame opcode payload\<rparr>"

section \<open>Close payloads\<close>

definition cont_byte :: "byte \<Rightarrow> bool" where
  "cont_byte b \<longleftrightarrow> 0x80 \<le> b \<and> b \<le> 0xBF"

text \<open>\<open>utf8.ValidString\<close>: the well-formed byte sequences of the Unicode standard.\<close>

fun utf8_valid :: "bytes \<Rightarrow> bool" where
  "utf8_valid [] = True"
| "utf8_valid (a # bs) =
     (if a < 0x80 then utf8_valid bs
      else (case bs of
        b # bs2 \<Rightarrow>
          if 0xC2 \<le> a \<and> a \<le> 0xDF then cont_byte b \<and> utf8_valid bs2
          else (case bs2 of
            c # bs3 \<Rightarrow>
              if 0xE0 \<le> a \<and> a \<le> 0xEF then
                cont_byte b \<and> (a = 0xE0 \<longrightarrow> 0xA0 \<le> b) \<and> (a = 0xED \<longrightarrow> b \<le> 0x9F) \<and> cont_byte c \<and> utf8_valid bs3
              else (case bs3 of
                d # bs4 \<Rightarrow>
                  0xF0 \<le> a \<and> a \<le> 0xF4 \<and> cont_byte b \<and> (a = 0xF0 \<longrightarrow> 0x90 \<le> b) \<and> (a = 0xF4 \<longrightarrow> b \<le> 0x8F) \<and>
                  cont_byte c \<and> cont_byte d \<and> utf8_valid bs4
              | [] \<Rightarrow> False)
          | [] \<Rightarrow> False)
      | [] \<Rightarrow> False))"

definition parseClosePayload :: "bytes \<Rightarrow> nat \<times> bytes" where
  "parseClosePayload payload =
     (if length payload < 2 then (closeNormal, [])
      else (be_val (take 2 payload),
            if length payload > 2 then (if utf8_valid (drop 2 payload) then drop 2 payload else []) else []))"

definition formatClosePayload :: "nat \<Rightarrow> bytes \<Rightarrow> bytes" where
  "formatClosePayload code text = put_be 2 code @ text"

section \<open>The connection\<close>

definition writeCloseFrame :: "nat \<Rightarrow> WSConn \<Rightarrow> WSConn" where
  "writeCloseFrame code ws = writeFrame CloseMessage (formatClosePayload code []) ws"

definition handleError :: "ws_err \<Rightarrow> WSConn \<Rightarrow> WSConn" where
  "handleError err ws =
     (let ws = (if ws_closed ws then ws else emit has_onError (EvError err) ws) in ws\<lparr>ws_closed := True\<rparr>)"

text \<open>The reaction to a close frame, shared by \<open>Listen\<close> and \<open>ReadMessage\<close>.\<close>

definition on_close_frame :: "bytes \<Rightarrow> WSConn \<Rightarrow> WSConn" where
  "on_close_frame payload ws =
     (let (code, text) = parseClosePayload payload;
          ws = writeCloseFrame code ws;
          ws = ws\<lparr>ws_closed := True\<rparr>
      in emit has_onClose (EvClose code text) ws)"

definition WriteMessage :: "nat \<Rightarrow> bytes \<Rightarrow> WSConn \<Rightarrow> WSConn" where
  "WriteMessage messageType data ws = writeFrame messageType data ws"

definition Ping :: "WSConn \<Rightarrow> WSConn" where
  "Ping ws = writeFrame PingMessage [] ws"

definition CloseWithMessage :: "nat \<Rightarrow> bytes \<Rightarrow> WSConn \<Rightarrow> WSConn" where
  "CloseWithMessage code text ws = writeFrame CloseMessage (formatClosePayload code text) (ws\<lparr>ws_closed := True\<rparr>)"

definition ws_Close :: "WSConn \<Rightarrow> WSConn" where
  "ws_Close ws = CloseWithMessage closeNormal [] ws"

lemma read_fragments_consumes: "read_fragments limit t buf bs = Inr (m, rest) \<Longrightarrow> length rest < length bs"
proof (induction limit t buf bs rule: read_fragments.induct)
  case (1 limit t buf bs)
  show ?case
  proof (cases "readFrame limit bs")
    case (Inr r)
    obtain opcode fin data rest' where r: "r = ((opcode, fin, data), rest')" by (cases r) auto
    note c = readFrame_consumes [OF Inr [unfolded r]]
    show ?thesis using 1 Inr c r
      by (subst (asm) (3) read_fragments.simps) (fastforce split: if_splits)
  qed (use 1(3) in \<open>subst (asm) read_fragments.simps, simp\<close>)
qed

lemma readMessage_consumes: "readMessage ws = Inr (m, ws') \<Longrightarrow> length (br ws') < length (br ws)"
  by (auto simp: readMessage_def sbind_Inr dest: read_fragments_consumes)

section \<open>The read loops\<close>

lemma br_simps [simp]:
  "br (emit f e ws) = br ws" "br (writeFrame op p ws) = br ws"
  by (simp_all add: emit_def writeFrame_def)

text \<open>\<open>Listen\<close>: on finite input the loop ends with a close frame or a read error.\<close>

function Listen :: "WSConn \<Rightarrow> WSConn" where
  "Listen ws =
     (case readMessage ws of
        Inl err \<Rightarrow> handleError err ws
      | Inr ((opcode, payload), ws') \<Rightarrow>
          if opcode = PingMessage then Listen (writeFrame PongMessage payload (emit has_onPing (EvPing payload) ws'))
          else if opcode = PongMessage then Listen (emit has_onPong (EvPong payload) ws')
          else if opcode = CloseMessage then on_close_frame payload ws'
          else if opcode = TextMessage \<or> opcode = BinaryMessage
          then Listen (emit has_onMessage (EvMessage opcode payload) ws')
          else Listen ws')"
  by pat_completeness auto
termination
  by (relation "measure (\<lambda>ws. length (br ws))") (auto dest!: readMessage_consumes)

declare Listen.simps [simp del]

function ReadMessage :: "WSConn \<Rightarrow> WSConn \<times> (ws_err + nat \<times> bytes)" where
  "ReadMessage ws =
     (case readMessage ws of
        Inl err \<Rightarrow> (handleError err ws, Inl err)
      | Inr ((opcode, payload), ws') \<Rightarrow>
          if opcode = PingMessage then ReadMessage (writeFrame PongMessage payload ws')
          else if opcode = PongMessage then ReadMessage ws'
          else if opcode = CloseMessage then (on_close_frame payload ws', Inl ErrWSClosed)
          else if opcode = TextMessage \<or> opcode = BinaryMessage then (ws', Inr (opcode, payload))
          else (ws', Inl ErrWSInvalidFrame))"
  by pat_completeness auto
termination
  by (relation "measure (\<lambda>ws. length (br ws))") (auto dest!: readMessage_consumes)

declare ReadMessage.simps [simp del]

section \<open>The handshake\<close>

record request =
  rq_header :: "(string, string list) gomap"

record UpgradeOptions =
  uo_MaxMessageSize :: int
  uo_CheckOrigin :: "(request \<Rightarrow> bool) option"
  uo_Subprotocols :: "string list"

text \<open>\<open>fold_eq\<close> and \<open>trim\<close> stand for \<open>strings.EqualFold\<close> and \<open>strings.TrimSpace\<close>.\<close>

definition headerContains ::
  "(string \<Rightarrow> string \<Rightarrow> bool) \<Rightarrow> (string \<Rightarrow> string) \<Rightarrow> (string, string list) gomap \<Rightarrow> string \<Rightarrow> string \<Rightarrow> bool" where
  "headerContains fold_eq trim h key v =
     (case gm_get h (canonical_key key) of
        None \<Rightarrow> False
      | Some vs \<Rightarrow> list_ex (\<lambda>w. list_ex (\<lambda>s. fold_eq (trim s) v) (split_on CHR '','' w)) vs)"

definition Header_Get :: "(string, string list) gomap \<Rightarrow> string \<Rightarrow> string" where
  "Header_Get h key = (case gm_get h (canonical_key key) of Some (v # _) \<Rightarrow> v | _ \<Rightarrow> [])"

definition negotiateSubprotocol :: "(string \<Rightarrow> string) \<Rightarrow> string \<Rightarrow> string list \<Rightarrow> string" where
  "negotiateSubprotocol trim clientHeader serverProtocols =
     (case List.find (\<lambda>sp. list_ex (\<lambda>cp. trim cp = sp) (split_on CHR '','' clientHeader)) serverProtocols of
        Some sp \<Rightarrow> sp | None \<Rightarrow> [])"

definition crlf :: string where
  "crlf = [CHR 0x0D, CHR 0x0A]"

definition handshake :: "string \<Rightarrow> string \<Rightarrow> string" where
  "handshake acceptKey subprotocol =
     ''HTTP/1.1 101 Switching Protocols'' @ crlf @ ''Upgrade: websocket'' @ crlf @ ''Connection: Upgrade'' @ crlf @
     ''Sec-WebSocket-Accept: '' @ acceptKey @ crlf @
     (if subprotocol \<noteq> [] then ''Sec-WebSocket-Protocol: '' @ subprotocol @ crlf else []) @ crlf"

text \<open>
  \<open>Upgrade\<close>; \<open>hijack\<close> and \<open>write_ok\<close> say whether \<open>Hijack\<close> and the write of the handshake
  succeed, and the result is an error text, or the handshake bytes and the message limit of the
  new connection.
\<close>

definition Upgrade ::
  "(string \<Rightarrow> 'j) \<Rightarrow> (string \<Rightarrow> string \<Rightarrow> bool) \<Rightarrow> (string \<Rightarrow> string) \<Rightarrow> (string \<Rightarrow> string) \<Rightarrow> bool \<Rightarrow> bool \<Rightarrow>
   UpgradeOptions option \<Rightarrow> request \<Rightarrow> 'j Context \<Rightarrow> 'j Context \<times> (string + string \<times> int)" where
  "Upgrade mk fold_eq trim accept_key hijack write_ok opts req ctx =
     (let h = rq_header req;
          has = headerContains fold_eq trim h
      in
      if (case opts of Some o' \<Rightarrow> (case uo_CheckOrigin o' of Some f \<Rightarrow> \<not> f req | None \<Rightarrow> False) | None \<Rightarrow> False)
      then (Throw mk 403 ''origin not allowed'' ctx, Inl ''websocket: origin check failed'')
      else if Method ctx \<noteq> ''GET''
      then (Throw mk 405 ''websocket: request method is not GET'' ctx, Inl ''websocket: request method is not GET'')
      else if \<not> has ''Connection'' ''upgrade''
      then (Throw mk 400 ''missing Connection: upgrade'' ctx, Inl ''websocket: missing Connection upgrade'')
      else if \<not> has ''Upgrade'' ''websocket''
      then (Throw mk 400 ''missing Upgrade: websocket'' ctx, Inl ''websocket: missing Upgrade header'')
      else if \<not> has ''Sec-WebSocket-Version'' ''13''
      then (Throw mk 400 ''unsupported websocket version: 13 required'' (SetHeader ''Sec-WebSocket-Version'' ''13'' ctx),
            Inl ''websocket: unsupported version'')
      else
        let key = Header_Get h ''Sec-WebSocket-Key'' in
        if key = [] then (Throw mk 400 ''missing Sec-WebSocket-Key'' ctx, Inl ''websocket: missing key'')
        else
          let subprotocol = (case opts of
                Some o' \<Rightarrow> if uo_Subprotocols o' \<noteq> []
                           then negotiateSubprotocol trim (Header_Get h ''Sec-WebSocket-Protocol'') (uo_Subprotocols o') else []
              | None \<Rightarrow> [])
          in if \<not> hijack then (Throw mk 500 ''hijack not supported'' ctx, Inl ''websocket: hijack failed'')
          else
            let ctx = ctx\<lparr>flushed := True, Status := 101, statusSet := True\<rparr> in
            if \<not> write_ok then (ctx, Inl ''websocket: write handshake failed'')
            else (ctx, Inr (handshake (accept_key key) subprotocol,
                   case opts of Some o' \<Rightarrow> if uo_MaxMessageSize o' > 0 then uo_MaxMessageSize o' else 0 | None \<Rightarrow> 0)))"

section \<open>Arithmetic of the wire format\<close>

lemma unmask_length [simp]: "length (unmask key p) = length p"
  by (simp add: unmask_def)

lemma unmask_unmask [simp]: "unmask key (unmask key p) = p"
  by (rule nth_equalityI) (simp_all add: unmask_def xor.assoc)

lemma and_or_distrib: "(a OR b) AND c = (a AND c) OR (b AND c)" for a b c :: byte
  by (rule bit.conj_disj_distrib2)

lemma byte_len: "n \<le> 127 \<Longrightarrow> unat ((0x80 OR word_of_nat n :: byte) AND 0x7F) = n"
proof -
  assume n: "n \<le> 127"
  have m: "(0x7F :: byte) = mask 7" by (simp add: mask_eq_exp_minus_1)
  have "(0x80 OR word_of_nat n :: byte) AND 0x7F = take_bit 7 (word_of_nat n)"
    by (simp add: and_or_distrib) (simp add: m take_bit_eq_mask)
  then show ?thesis using n by (simp add: unsigned_take_bit_eq unsigned_of_nat take_bit_nat_eq_self)
qed

lemma byte_masked: "(0x80 OR w :: byte) AND 0x80 \<noteq> 0"
proof
  assume "(0x80 OR w :: byte) AND 0x80 = 0"
  then have "\<not> bit ((0x80 OR w :: byte) AND 0x80) 7" by simp
  then show False by (simp add: bit_and_iff bit_or_iff)
qed

definition data_op :: "nat \<Rightarrow> bool" where
  "data_op op \<longleftrightarrow> op \<in> {continuationFrame, TextMessage, BinaryMessage}"

definition control_op :: "nat \<Rightarrow> bool" where
  "control_op op \<longleftrightarrow> op \<in> {CloseMessage, PingMessage, PongMessage}"

lemmas op_defs = data_op_def control_op_def opcodes

definition head_byte :: "bool \<Rightarrow> nat \<Rightarrow> byte" where
  "head_byte fin op = (if fin then 0x80 else 0) OR word_of_nat op"

lemma head_byte_facts:
  assumes "data_op op \<or> control_op op"
  shows "head_byte fin op AND 0x70 = 0" "unat (head_byte fin op AND 0x0F) = op" "head_byte fin op AND 0x80 \<noteq> 0 \<longleftrightarrow> fin"
  using assms by (auto simp: op_defs head_byte_def)

lemma parse_header_client:
  assumes "data_op op \<or> control_op op \<and> fin \<and> n \<le> 125" and "n \<le> 127"
  shows "parse_header (head_byte fin op) (0x80 OR word_of_nat n) = Inr (op, fin, n)"
proof -
  have o: "data_op op \<or> control_op op" using assms(1) by blast
  show ?thesis using assms(1) unfolding parse_header_def Let_def head_byte_facts [OF o] byte_len [OF assms(2)]
    using byte_masked by (auto simp: op_defs)
qed

text \<open>The encoding a client uses (RFC 6455, section 5.2): a masked frame.\<close>

definition client_frame :: "bool \<Rightarrow> nat \<Rightarrow> bytes \<Rightarrow> bytes \<Rightarrow> bytes" where
  "client_frame fin op key payload =
     (let len = length payload in
      (if len \<le> 125 then [head_byte fin op, 0x80 OR word_of_nat len]
       else if len \<le> 65535 then [head_byte fin op, 0x80 OR 126] @ put_be 2 len
       else [head_byte fin op, 0x80 OR 127] @ put_be 8 len) @ key @ unmask key payload)"

definition frame_legal :: "nat \<Rightarrow> bool \<Rightarrow> nat \<Rightarrow> bytes \<Rightarrow> bytes \<Rightarrow> bool" where
  "frame_legal limit fin op key payload \<longleftrightarrow>
     (data_op op \<or> control_op op \<and> fin \<and> length payload \<le> 125) \<and> length key = 4 \<and>
     length payload \<le> limit \<and> length payload < 2 ^ 64"

lemma ReadFull_append [simp]: "length xs = n \<Longrightarrow> ReadFull n (xs @ ys) = Inr (xs, ys)"
  by (simp add: ReadFull_def)

lemma ReadFull_2 [simp]: "ReadFull 2 (a # b # ys) = Inr ([a, b], ys)"
  by (simp add: ReadFull_def)

lemma readFrame_client:
  assumes "frame_legal limit fin op key payload"
  shows "readFrame limit (client_frame fin op key payload @ rest) = Inr ((op, fin, payload), rest)"
proof -
  have h: "data_op op \<or> control_op op \<and> fin \<and> length payload \<le> 125" "length key = 4" "length payload \<le> limit" "length payload < 2 ^ 64"
    using assms by (auto simp: frame_legal_def)
  have big: "126 \<le> length payload \<Longrightarrow> data_op op" using h(1) by auto
  have p126: "data_op op \<Longrightarrow> parse_header (head_byte fin op) (0x80 OR 126) = Inr (op, fin, 126)"
    and p127: "data_op op \<Longrightarrow> parse_header (head_byte fin op) (0x80 OR 127) = Inr (op, fin, 127)"
    using parse_header_client [of op fin 126] parse_header_client [of op fin 127] by simp_all
  consider "length payload \<le> 125" | "126 \<le> length payload" "length payload \<le> 65535" | "65536 \<le> length payload" by linarith
  then show ?thesis
  proof cases
    case 1
    then show ?thesis using h parse_header_client [of op fin "length payload"]
      by (simp add: readFrame_def client_frame_def Let_def)
  next
    case 2
    then show ?thesis using h p126 big be_val_put_be [of "length payload" 2]
      by (simp add: readFrame_def client_frame_def Let_def)
  next
    case 3
    then show ?thesis using h p127 big be_val_put_be [of "length payload" 8]
      by (simp add: readFrame_def client_frame_def Let_def)
  qed
qed

section \<open>Fragmented messages\<close>

lemma messageLimit_simps [simp]:
  "messageLimit (ws\<lparr>br := bs\<rparr>) = messageLimit ws" "messageLimit (writeFrame op p ws) = messageLimit ws"
  by (simp_all add: messageLimit_def writeFrame_def)

text \<open>A message sent as fragments, each with its masking key: the first frame carries the opcode.\<close>

fun send_rest :: "(bytes \<times> bytes) list \<Rightarrow> bytes" where
  "send_rest [] = []"
| "send_rest ((key, chunk) # fs) = client_frame (fs = []) continuationFrame key chunk @ send_rest fs"

fun send_fragments :: "nat \<Rightarrow> (bytes \<times> bytes) list \<Rightarrow> bytes" where
  "send_fragments op [] = []"
| "send_fragments op ((key, chunk) # fs) = client_frame (fs = []) op key chunk @ send_rest fs"

definition fragments_legal :: "nat \<Rightarrow> (bytes \<times> bytes) list \<Rightarrow> bool" where
  "fragments_legal limit fs \<longleftrightarrow> fs \<noteq> [] \<and> (\<forall>(key, chunk) \<in> set fs. length key = 4) \<and>
     length (concat (map snd fs)) \<le> limit \<and> limit < 2 ^ 64"

lemma read_rest:
  assumes "fs \<noteq> []" "\<forall>(key, chunk) \<in> set fs. length key = 4" "length (buf @ concat (map snd fs)) \<le> limit" "limit < 2 ^ 64" "t \<noteq> 0"
  shows "read_fragments limit t buf (send_rest fs @ rest) = Inr ((t, buf @ concat (map snd fs)), rest)"
  using assms
proof (induction fs arbitrary: buf)
  case (Cons f fs)
  obtain key chunk where f: "f = (key, chunk)" by (cases f)
  have "frame_legal limit (fs = []) continuationFrame key chunk"
    using Cons.prems by (auto simp: frame_legal_def data_op_def f)
  from readFrame_client [OF this, of "send_rest fs @ rest"]
  have r: "readFrame limit (client_frame (fs = []) continuationFrame key chunk @ send_rest fs @ rest) =
      Inr ((continuationFrame, fs = [], chunk), send_rest fs @ rest)" .
  show ?case
  proof (cases "fs = []")
    case True
    then show ?thesis using r Cons.prems by (subst read_fragments.simps) (simp add: f opcodes)
  next
    case False
    then have "read_fragments limit t (buf @ chunk) (send_rest fs @ rest) = Inr ((t, (buf @ chunk) @ concat (map snd fs)), rest)"
      using Cons.prems by (intro Cons.IH) (auto simp: f)
    then show ?thesis using r Cons.prems False by (subst read_fragments.simps) (simp add: f opcodes)
  qed
qed simp

lemma read_message_fragments:
  assumes "fragments_legal limit fs" "op = TextMessage \<or> op = BinaryMessage"
  shows "read_fragments limit 0 [] (send_fragments op fs @ rest) = Inr ((op, concat (map snd fs)), rest)"
proof (cases fs)
  case (Cons f fs')
  obtain key chunk where f: "f = (key, chunk)" by (cases f)
  have "frame_legal limit (fs' = []) op key chunk"
    using assms by (auto simp: frame_legal_def data_op_def f Cons fragments_legal_def)
  from readFrame_client [OF this, of "send_rest fs' @ rest"]
  have r: "readFrame limit (client_frame (fs' = []) op key chunk @ send_rest fs' @ rest) =
      Inr ((op, fs' = [], chunk), send_rest fs' @ rest)" .
  show ?thesis
  proof (cases "fs' = []")
    case True
    then show ?thesis using r assms(2) by (subst read_fragments.simps) (auto simp: Cons f opcodes)
  next
    case False
    have "read_fragments limit op chunk (send_rest fs' @ rest) = Inr ((op, chunk @ concat (map snd fs')), rest)"
      using assms False by (intro read_rest) (auto simp: fragments_legal_def Cons f opcodes)
    then show ?thesis using r assms(2) False by (subst read_fragments.simps) (auto simp: Cons f opcodes)
  qed
qed (use assms in \<open>simp add: fragments_legal_def\<close>)

lemma readFrame_bound: "readFrame limit bs = Inr ((op, fin, data), rest) \<Longrightarrow> length data \<le> limit"
  by (auto simp: readFrame_def sbind_Inr ReadFull_def split: if_splits)

lemma read_fragments_bound:
  "read_fragments limit t buf bs = Inr ((op, data), rest) \<Longrightarrow> length buf \<le> limit \<Longrightarrow> (t = 0 \<Longrightarrow> buf = []) \<Longrightarrow> length data \<le> limit"
proof (induction limit t buf bs rule: read_fragments.induct)
  case (1 limit t buf bs)
  show ?case
  proof (cases "readFrame limit bs")
    case (Inl e)
    then show ?thesis using 1(3) by (subst (asm) read_fragments.simps) simp
  next
    case (Inr r)
    obtain opcode fin chunk rest' where r: "r = ((opcode, fin, chunk), rest')" by (cases r) auto
    note Inr = Inr [unfolded r]
    note b = readFrame_bound [OF Inr]
    note IH = 1(1) [OF Inr refl refl refl] 1(2) [OF Inr refl refl refl]
    show ?thesis using 1(3-5) Inr b IH
      by (subst (asm) read_fragments.simps) (auto simp: opcodes split: if_splits)
  qed
qed

lemma readMessage_bound: "readMessage ws = Inr ((op, data), ws') \<Longrightarrow> length data \<le> messageLimit ws"
  by (auto simp: readMessage_def sbind_Inr dest: read_fragments_bound)

lemma read_control:
  assumes "control_op op" "length key = 4" "length p \<le> 125" "length p \<le> limit"
  shows "read_fragments limit t buf (client_frame True op key p @ rest) = Inr ((op, p), rest)"
proof -
  have "frame_legal limit True op key p" using assms by (simp add: frame_legal_def)
  then show ?thesis using readFrame_client assms(1) by (subst read_fragments.simps) (auto simp: control_op_def)
qed

definition ping_legal :: "nat \<Rightarrow> (bytes \<times> bytes) list \<Rightarrow> bool" where
  "ping_legal limit ps \<longleftrightarrow> (\<forall>(key, p) \<in> set ps. length key = 4 \<and> length p \<le> 125 \<and> length p \<le> limit)"

lemma ReadMessage_pings:
  assumes "ping_legal (messageLimit ws) ps" "fragments_legal (messageLimit ws) fs" "op = TextMessage \<or> op = BinaryMessage"
    "br ws = concat (map (\<lambda>(key, p). client_frame True PingMessage key p) ps) @ send_fragments op fs @ rest"
  shows "ReadMessage ws = (ws\<lparr>br := rest, out := out ws @ concat (map (\<lambda>(key, p). encode_frame PongMessage p) ps)\<rparr>,
    Inr (op, concat (map snd fs)))"
  using assms
proof (induction ps arbitrary: ws)
  case Nil
  then show ?case using read_message_fragments [OF Nil.prems(2,3), of rest]
    by (subst ReadMessage.simps) (auto simp: readMessage_def opcodes)
next
  case (Cons a ps)
  obtain key p where a: "a = (key, p)" by (cases a)
  let ?bs = "concat (map (\<lambda>(key, p). client_frame True PingMessage key p) ps) @ send_fragments op fs @ rest"
  let ?ws = "writeFrame PongMessage p (ws\<lparr>br := ?bs\<rparr>)"
  have "readMessage ws = Inr ((PingMessage, p), ws\<lparr>br := ?bs\<rparr>)"
    using read_control [of PingMessage key p "messageLimit ws" 0 "[]" ?bs] Cons.prems
    by (simp add: readMessage_def a ping_legal_def control_op_def)
  then have "ReadMessage ws = ReadMessage ?ws" by (subst ReadMessage.simps) simp
  also have "\<dots> = (?ws\<lparr>br := rest, out := out ?ws @ concat (map (\<lambda>(key, p). encode_frame PongMessage p) ps)\<rparr>, Inr (op, concat (map snd fs)))"
    using Cons.prems by (intro Cons.IH) (auto simp: ping_legal_def)
  finally show ?case by (simp add: a writeFrame_def)
qed

section \<open>Properties\<close>


definition demo_conn :: "bytes \<Rightarrow> WSConn" where
  "demo_conn bs = \<lparr>br = bs, out = [], ws_closed = False, maxMessageSize = 0,
     cbs = \<lparr>has_onMessage = True, has_onClose = True, has_onError = True, has_onPing = True, has_onPong = True\<rparr>, events = []\<rparr>"

lemma demo_conn_simps [simp]: "messageLimit (demo_conn bs) = 65536" "br (demo_conn bs) = bs" "demo_conn bs\<lparr>br := cs\<rparr> = demo_conn cs"
  by (simp_all add: messageLimit_def demo_conn_def maxFrameSize_def)


text \<open>
  Size limit: no message that is delivered exceeds the limit of the connection, neither as a
  single frame nor reassembled from fragments.
\<close>

theorem message_size_limited:
  assumes "readMessage ws = Inr ((op, data), ws')"
  shows "length data \<le> messageLimit ws"
  by (rule readMessage_bound [OF assms])

theorem message_size_limited_witness:
  "\<exists>ws' data. readMessage (demo_conn (send_fragments TextMessage [([1, 2, 3, 4], [104])])) = Inr ((TextMessage, data), ws') \<and>
    length data \<le> 65536"
proof -
  have "read_fragments 65536 0 [] (send_fragments TextMessage [([1, 2, 3, 4], [104])] @ []) = Inr ((TextMessage, [104]), [])"
    using read_message_fragments [of 65536 "[([1, 2, 3, 4], [104])]" TextMessage "[]"] by (simp add: fragments_legal_def)
  then have "readMessage (demo_conn (send_fragments TextMessage [([1, 2, 3, 4], [104])])) =
      Inr ((TextMessage, [104]), demo_conn [])"
    by (simp add: readMessage_def)
  from message_size_limited [OF this] this show ?thesis by (intro exI conjI) (assumption, simp)
qed

text \<open>
  A control frame between two fragments breaks the message: \<open>readMessage\<close> returns the control
  frame and forgets the fragments it has buffered, so the continuation that follows is refused as
  invalid, although interleaving is legal and the comment on \<open>readMessage\<close> allows it.
\<close>

theorem interleaved_control_loses_message:
  assumes "frame_legal (messageLimit ws) False TextMessage k1 c1" and "frame_legal (messageLimit ws) True PingMessage k2 p"
    and "frame_legal (messageLimit ws) True continuationFrame k3 c2"
    and "br ws = client_frame False TextMessage k1 c1 @ client_frame True PingMessage k2 p @ client_frame True continuationFrame k3 c2"
  shows "snd (ReadMessage ws) = Inl ErrWSInvalidFrame"
proof -
  let ?c = "client_frame True continuationFrame k3 c2" and ?l = "messageLimit ws"
  have ping: "read_fragments ?l t buf (client_frame True PingMessage k2 p @ ?c) = Inr ((PingMessage, p), ?c)" for t buf
    using assms(2) by (intro read_control) (auto simp: frame_legal_def op_defs)
  have "read_fragments ?l 0 [] (br ws) = Inr ((PingMessage, p), ?c)"
    using readFrame_client [OF assms(1)] ping by (subst read_fragments.simps) (simp add: assms(4) opcodes)
  then have m1: "readMessage ws = Inr ((PingMessage, p), ws\<lparr>br := ?c\<rparr>)" by (simp add: readMessage_def)
  let ?ws = "writeFrame PongMessage p (ws\<lparr>br := ?c\<rparr>)"
  have "read_fragments ?l 0 [] ?c = Inl ErrWSInvalidFrame"
    using readFrame_client [OF assms(3), of "[]"] by (subst read_fragments.simps) (simp add: opcodes)
  then have "readMessage ?ws = Inl ErrWSInvalidFrame"
    by (simp add: readMessage_def)
  then have "snd (ReadMessage ?ws) = Inl ErrWSInvalidFrame" by (subst ReadMessage.simps) simp
  then show ?thesis using m1 by (subst ReadMessage.simps) simp
qed

theorem interleaved_control_loses_message_witness:
  "snd (ReadMessage (demo_conn (client_frame False TextMessage [1, 2, 3, 4] [104] @ client_frame True PingMessage [1, 2, 3, 4] [] @
     client_frame True continuationFrame [1, 2, 3, 4] [105]))) = Inl ErrWSInvalidFrame"
  by (rule interleaved_control_loses_message [of _ "[1, 2, 3, 4]" "[104]" "[1, 2, 3, 4]" "[]" "[1, 2, 3, 4]" "[105]"])
     (simp_all add: frame_legal_def op_defs)

text \<open>
  Close payloads round-trip: the code and the reason that \<open>CloseWithMessage\<close> writes are what
  \<open>parseClosePayload\<close> reads back.
\<close>

theorem close_payload_roundtrip:
  assumes "code < 65536" and "utf8_valid text"
  shows "parseClosePayload (formatClosePayload code text) = (code, text)"
  using assms be_val_put_be [of code 2] by (simp add: parseClosePayload_def formatClosePayload_def)

theorem close_payload_roundtrip_witness: "parseClosePayload (formatClosePayload 1001 [98, 121, 101]) = (1001, [98, 121, 101])"
  by (rule close_payload_roundtrip) simp_all

end
