(* ===== verification/Http_Sse.thy ===== *)
theory Http_Sse
  imports Http_Context
begin

text \<open>
  Server-sent events (\<open>src/swifty_http/sse.go\<close>): the stream header and the event fields, written
  to the response writer. Writes of one call happen under the writer's mutex, so a call is one
  step; flushing sends what is already written and does not change it. A reader of the event
  stream that follows the specification of the format is defined for the round trip.
\<close>

definition nl :: char where "nl = CHR 0x0A"

definition SSE :: "'j Context \<Rightarrow> 'j Context" where
  "SSE ctx =
     (let ctx = ctx\<lparr>flushed := True, Status := 200, statusSet := True\<rparr>;
          w = header_set ''Connection'' ''keep-alive'' (header_set ''Cache-Control'' ''no-cache''
                (header_set ''Content-Type'' ''text/event-stream'' (Writer ctx)));
          w = fold (\<lambda>(k, v). header_set k v) (headers ctx) w
      in ctx\<lparr>Writer := WriteHeader 200 w\<rparr>)"

definition sse_write :: "string \<Rightarrow> 'j Context \<Rightarrow> 'j Context" where
  "sse_write s ctx = ctx\<lparr>Writer := Write s (Writer ctx)\<rparr>"

definition data_lines :: "string \<Rightarrow> string" where
  "data_lines data = concat (map (\<lambda>line. ''data: '' @ line @ [nl]) (split_on nl data)) @ [nl]"

definition writeData :: "string \<Rightarrow> 'j Context \<Rightarrow> 'j Context" where
  "writeData data ctx = sse_write (data_lines data) ctx"

definition sse_Event :: "string \<Rightarrow> string \<Rightarrow> 'j Context \<Rightarrow> 'j Context" where
  "sse_Event event data ctx = writeData data (sse_write (''event: '' @ event @ [nl]) ctx)"

definition sse_Data :: "string \<Rightarrow> 'j Context \<Rightarrow> 'j Context" where
  "sse_Data data ctx = writeData data ctx"

definition sse_JSON :: "('j \<Rightarrow> string option) \<Rightarrow> string \<Rightarrow> 'j \<Rightarrow> 'j Context \<Rightarrow> 'j Context" where
  "sse_JSON marshal event obj ctx =
     (case marshal obj of
        None \<Rightarrow> ctx
      | Some b \<Rightarrow>
          (let ctx = (if event \<noteq> [] then sse_write (''event: '' @ event @ [nl]) ctx else ctx)
           in sse_write (''data: '' @ b @ [nl, nl]) ctx))"

definition sse_ID :: "string \<Rightarrow> 'j Context \<Rightarrow> 'j Context" where
  "sse_ID i ctx = sse_write (''id: '' @ i @ [nl]) ctx"

definition sse_Comment :: "string \<Rightarrow> 'j Context \<Rightarrow> 'j Context" where
  "sse_Comment txt ctx = sse_write (concat (map (\<lambda>line. '': '' @ line @ [nl]) (split_on nl txt)) @ [nl]) ctx"

definition sse_Done :: "'j Context \<Rightarrow> 'j Context" where
  "sse_Done ctx = sse_Data ''[DONE]'' ctx"

text \<open>\<open>Stream\<close>: the messages received before the channel closes or the request ends.\<close>

fun sse_Stream :: "string list \<Rightarrow> 'j Context \<Rightarrow> 'j Context" where
  "sse_Stream [] ctx = ctx"
| "sse_Stream (msg # msgs) ctx = sse_Stream msgs (sse_Data msg ctx)"

section \<open>Reading an event stream\<close>

text \<open>
  A client's state is the event name and the data lines collected since the last blank line; a
  blank line dispatches the event.
\<close>

type_synonym sse_client = "string \<times> string list \<times> (string \<times> string) list"

definition sse_field :: "string \<Rightarrow> sse_client \<Rightarrow> sse_client" where
  "sse_field line s = (case s of (ev, ds, done) \<Rightarrow>
     if line = [] then if ds = [] then ([], [], done) else ([], [], done @ [(ev, join_with nl ds)])
     else if has_prefix line ''data: '' then (ev, ds @ [drop 6 line], done)
     else if has_prefix line ''event: '' then (drop 7 line, ds, done)
     else s)"

definition sse_read :: "string \<Rightarrow> (string \<times> string) list" where
  "sse_read stream = snd (snd (fold sse_field (butlast (split_on nl stream)) ([], [], [])))"

lemma split_terminated:
  "\<forall>l \<in> set ls. nl \<notin> set l \<Longrightarrow> split_on nl (concat (map (\<lambda>l. l @ [nl]) ls) @ s) = ls @ split_on nl s"
  by (induction ls) (auto simp: split_on_append_sep)

text \<open>An event as lines.\<close>

definition event_lines :: "string \<times> string \<Rightarrow> string list" where
  "event_lines e = (case e of (ev, data) \<Rightarrow>
     (if ev = [] then [] else [''event: '' @ ev]) @ map (\<lambda>l. ''data: '' @ l) (split_on nl data) @ [[]])"

lemma fold_data: "fold sse_field (map (\<lambda>l. ''data: '' @ l) ls) (ev, ds, done) = (ev, ds @ ls, done)"
  by (induction ls arbitrary: ds) (auto simp: sse_field_def)

lemma fold_event: "fold sse_field (event_lines (ev, data)) ([], [], done) = ([], [], done @ [(ev, data)])"
proof -
  have "fold sse_field (map (\<lambda>l. ''data: '' @ l) (split_on nl data) @ [[]]) (ev, [], done) = ([], [], done @ [(ev, data)])" for ev
    unfolding fold_append comp_apply fold_data by (simp add: sse_field_def)
  moreover have "sse_field (''event: '' @ ev) ([], [], done) = (ev, [], done)" by (simp add: sse_field_def)
  ultimately show ?thesis unfolding event_lines_def prod.case fold_append comp_apply
    by (cases "ev = []") (simp_all only: refl simp_thms if_True if_False fold.simps append.simps id_apply comp_apply)
qed

lemma event_lines_no_nl: "nl \<notin> set ev \<Longrightarrow> l \<in> set (event_lines (ev, data)) \<Longrightarrow> nl \<notin> set l"
  by (auto simp: event_lines_def nl_def dest: split_on_no_sep split: if_splits)

lemma fold_events: "fold sse_field (concat (map event_lines es)) ([], [], done) = ([], [], done @ es)"
proof (induction es arbitrary: "done")
  case (Cons e es)
  then show ?case using fold_event [of "fst e" "snd e" "done"] by (simp add: fold_append)
qed simp

lemma event_text:
  "concat (map (\<lambda>l. l @ [nl]) (event_lines (ev, data))) = (if ev = [] then [] else ''event: '' @ ev @ [nl]) @ data_lines data"
  by (simp add: event_lines_def data_lines_def comp_def)

text \<open>Sending a list of events; an event without a name is sent by \<open>Data\<close>.\<close>

definition sse_send :: "string \<times> string \<Rightarrow> 'j Context \<Rightarrow> 'j Context" where
  "sse_send e ctx = (case e of (ev, data) \<Rightarrow> if ev = [] then sse_Data data ctx else sse_Event ev data ctx)"

lemma body_sse_write [simp]: "w_body (Writer (sse_write s ctx)) = w_body (Writer ctx) @ s"
  by (simp add: sse_write_def Write_def WriteHeader_def Let_def split: option.split)

lemma body_send: "w_body (Writer (sse_send e ctx)) = w_body (Writer ctx) @ concat (map (\<lambda>l. l @ [nl]) (event_lines e))"
  by (cases e) (simp add: sse_send_def sse_Data_def sse_Event_def writeData_def event_text)

lemma body_sends:
  "w_body (Writer (fold sse_send es ctx)) = w_body (Writer ctx) @ concat (map (\<lambda>l. l @ [nl]) (concat (map event_lines es)))"
  by (induction es arbitrary: ctx) (simp_all add: body_send)

section \<open>Properties\<close>



end
