(* ===== verification/Rpc_Protocol.thy ===== *)
theory Rpc_Protocol
  imports Go_Strings
begin

text \<open>
  The wire format of the RPC library: \<open>src/swifty_rpc/internal/protocol\<close> (\<open>header.go\<close>,
  \<open>message.go\<close>), the codec and compressor registries of \<open>internal/codec\<close> (\<open>codec.go\<close>,
  \<open>compress.go\<close>) and the packet reader and writer of \<open>internal/transport/tcp_connection.go\<close>.

  \<open>encoding/json\<close>, the protobuf library and \<open>compress/gzip\<close> are the functions held by the
  registries; a theorem that needs them to be lossless on a message says so (\<open>lossless\<close>). The
  network side of a connection is the list of chunks its reads return and the results of its writes.
\<close>

section \<open>Header and message\<close>

definition CodecTypeJSON :: byte where "CodecTypeJSON = 1"
definition CodecTypeProto :: byte where "CodecTypeProto = 2"
definition StreamNone :: byte where "StreamNone = 0"
definition StreamData :: byte where "StreamData = 1"
definition StreamEnd :: byte where "StreamEnd = 2"
definition StreamError :: byte where "StreamError = 3"
definition CompressionNone :: byte where "CompressionNone = 0"
definition CompressionGzip :: byte where "CompressionGzip = 1"
definition Magic :: nat where "Magic = 0x1234"

record Header =
  RequestID :: "64 word"
  ServiceName :: string
  MethodName :: string
  ErrorText :: string
  CodecType :: byte
  Compression :: byte
  StreamFlag :: byte

record Message =
  msg_Header :: "Header option"
  Body :: bytes

section \<open>Codec and compressor registries\<close>

text \<open>A codec on headers and on the values \<open>'v\<close> of calls; a compressor.\<close>

record 'v codec =
  MarshalHeader :: "Header \<Rightarrow> string + bytes"
  UnmarshalHeader :: "bytes \<Rightarrow> string + Header"
  Marshal :: "'v \<Rightarrow> string + bytes"
  Unmarshal :: "bytes \<Rightarrow> string + 'v"

record compressor =
  compress :: "bytes \<Rightarrow> string + bytes"
  decompress :: "bytes \<Rightarrow> string + bytes"

record 'v env =
  factories :: "(byte, 'v codec) gomap"
  compressors :: "(byte, compressor) gomap"

text \<open>Registering a type twice panics.\<close>

definition codec_Register :: "byte \<Rightarrow> 'v codec \<Rightarrow> 'v env \<Rightarrow> 'v env option" where
  "codec_Register t f E =
     (case gm_get (factories E) t of Some _ \<Rightarrow> None | None \<Rightarrow> Some (E\<lparr>factories := gm_set t f (factories E)\<rparr>))"

definition codec_New :: "byte \<Rightarrow> 'v env \<Rightarrow> string + 'v codec" where
  "codec_New t E = (case gm_get (factories E) t of None \<Rightarrow> Inl ''codec: type not registered'' | Some f \<Rightarrow> Inr f)"

definition RegisterCompressor :: "byte \<Rightarrow> compressor \<Rightarrow> 'v env \<Rightarrow> 'v env" where
  "RegisterCompressor t c E = E\<lparr>compressors := gm_set t c (compressors E)\<rparr>"

definition GetCompressor :: "byte \<Rightarrow> 'v env \<Rightarrow> compressor option" where
  "GetCompressor t E = gm_get (compressors E) t"

definition Compress :: "bytes \<Rightarrow> byte \<Rightarrow> 'v env \<Rightarrow> string + bytes" where
  "Compress data t E = (case GetCompressor t E of None \<Rightarrow> Inl ''compressor not found'' | Some c \<Rightarrow> compress c data)"

definition Decompress :: "bytes \<Rightarrow> byte \<Rightarrow> 'v env \<Rightarrow> string + bytes" where
  "Decompress data t E = (case GetCompressor t E of None \<Rightarrow> Inl ''compressor not found'' | Some c \<Rightarrow> decompress c data)"

text \<open>The registries after the \<open>init\<close> functions of the package.\<close>

definition init_env :: "'v codec \<Rightarrow> 'v codec \<Rightarrow> compressor \<Rightarrow> 'v env option" where
  "init_env json proto gz =
     codec_Register CodecTypeJSON json \<lparr>factories = [], compressors = []\<rparr> \<bind> codec_Register CodecTypeProto proto
       \<bind> (\<lambda>E. Some (RegisterCompressor CompressionGzip gz E))"

section \<open>Packets\<close>

text \<open>\<open>uint32\<close> arithmetic and the slice operations of the packet code.\<close>

definition u32 :: "nat \<Rightarrow> nat" where
  "u32 x = x mod 2 ^ 32"

definition slice :: "nat \<Rightarrow> nat \<Rightarrow> 'a list \<Rightarrow> 'a list option" where
  "slice lo hi xs = (if lo \<le> hi \<and> hi \<le> length xs then Some (take (hi - lo) (drop lo xs)) else None)"

definition copy_at :: "nat \<Rightarrow> 'a list \<Rightarrow> 'a list \<Rightarrow> 'a list" where
  "copy_at off src buf = take off buf @ take (length buf - off) src @ drop (off + length src) buf"

text \<open>The first half of \<open>Encode\<close>: the bytes of the header and of the body.\<close>

definition wire_parts :: "'v env \<Rightarrow> Message \<Rightarrow> string + bytes \<times> bytes" where
  "wire_parts E msg = (case msg_Header msg of
     None \<Rightarrow> Inl ''header is nil''
   | Some h \<Rightarrow>
       sbind (if Compression h \<noteq> CompressionNone then Compress (Body msg) (Compression h) E else Inr (Body msg)) (\<lambda>bodyBytes.
       sbind (codec_New CodecTypeJSON E) (\<lambda>headerCodec.
       sbind (MarshalHeader headerCodec h) (\<lambda>headerBytes.
       Inr (headerBytes, bodyBytes)))))"

text \<open>The second half: the buffer; \<open>None\<close> is an index out of range.\<close>

definition pack :: "bytes \<Rightarrow> bytes \<Rightarrow> bytes option" where
  "pack headerBytes bodyBytes =
     (let headerLen = u32 (length headerBytes);
          bodyLen = u32 (length bodyBytes);
          total = u32 (10 + headerLen + bodyLen)
      in if total < 10 \<or> total < u32 (10 + headerLen) then None
         else Some (copy_at (u32 (10 + headerLen)) bodyBytes (copy_at 10 headerBytes
           (put_be 2 Magic @ put_be 4 headerLen @ put_be 4 bodyLen @ replicate (total - 10) 0))))"

definition Encode :: "'v env \<Rightarrow> Message \<Rightarrow> (string + bytes) option" where
  "Encode E msg = (case wire_parts E msg of
     Inl e \<Rightarrow> Some (Inl e) | Inr (headerBytes, bodyBytes) \<Rightarrow> map_option Inr (pack headerBytes bodyBytes))"

definition DecodeHeaderLen :: "bytes \<Rightarrow> nat" where
  "DecodeHeaderLen data = (if length data < 4 then 0 else be_val (take 4 data))"

definition DecodeBodyLen :: "bytes \<Rightarrow> nat" where
  "DecodeBodyLen data = (if length data < 4 then 0 else be_val (take 4 data))"

definition Decode :: "'v env \<Rightarrow> bytes \<Rightarrow> (string + Message) option" where
  "Decode E data =
     (if length data < 10 then Some (Inl ''data too short'')
      else if be_val (take 2 data) \<noteq> Magic then Some (Inl ''invalid magic number'')
      else let headerLen = be_val (take 4 (drop 2 data));
               bodyLen = be_val (take 4 (drop 6 data));
               totalLen = 10 + headerLen + bodyLen
        in if totalLen > 2 ^ 63 - 1 then Some (Inl ''packet too large'')
           else if length data < totalLen then Some (Inl ''incomplete packet'')
           else do {
             headerBytes \<leftarrow> slice 10 (u32 (10 + headerLen)) data;
             (case codec_New CodecTypeJSON E of
                Inl e \<Rightarrow> Some (Inl e)
              | Inr headerCodec \<Rightarrow>
                (case UnmarshalHeader headerCodec headerBytes of
                   Inl e \<Rightarrow> Some (Inl e)
                 | Inr header \<Rightarrow> do {
                     bodyBytes \<leftarrow> slice (u32 (10 + headerLen)) (u32 (10 + headerLen + bodyLen)) data;
                     Some (sbind
                       (if Compression header \<noteq> CompressionNone then Decompress bodyBytes (Compression header) E
                        else Inr bodyBytes)
                       (\<lambda>bodyBytes. Inr \<lparr>msg_Header = Some header, Body = bodyBytes\<rparr>)) })) })"

section \<open>Packet buffer and connection\<close>

fun resync :: "bytes \<Rightarrow> bytes" where
  "resync (a # b # xs) = (if be_val [a, b] \<noteq> Magic then resync (b # xs) else a # b # xs)"
| "resync xs = xs"

definition pb_Write :: "bytes \<Rightarrow> bytes \<Rightarrow> bytes" where
  "pb_Write data buf = buf @ data"

definition pb_Read :: "bytes \<Rightarrow> bytes option \<times> bytes" where
  "pb_Read buf =
     (let buf = resync buf in
      if length buf < 10 then (None, buf)
      else let headerLen = DecodeHeaderLen (take 4 (drop 2 buf));
               bodyLen = DecodeBodyLen (take 4 (drop 6 buf));
               totalLen = 10 + headerLen + bodyLen
        in if length buf < totalLen then (None, buf) else (Some (take totalLen buf), drop totalLen buf))"

text \<open>A connection: buffered bytes, and the chunks that its reads will return before the end of file.\<close>

record TCPConnection =
  buffer :: bytes
  incoming :: "bytes list"

definition EOF :: string where "EOF = ''EOF''"

fun read_loop :: "'v env \<Rightarrow> bytes \<Rightarrow> bytes list \<Rightarrow> (string + Message) option \<times> TCPConnection" where
  "read_loop E buf chunks = (case pb_Read buf of
     (Some packet, buf) \<Rightarrow> (Decode E packet, \<lparr>buffer = buf, incoming = chunks\<rparr>)
   | (None, buf) \<Rightarrow> (case chunks of
       [] \<Rightarrow> (Some (Inl EOF), \<lparr>buffer = buf, incoming = []\<rparr>)
     | tmp # chunks \<Rightarrow> read_loop E (pb_Write tmp buf) chunks))"

definition tc_Read :: "'v env \<Rightarrow> TCPConnection \<Rightarrow> (string + Message) option \<times> TCPConnection" where
  "tc_Read E tc = read_loop E (buffer tc) (incoming tc)"

text \<open>
  The write loop, against the results of the successive \<open>conn.Write\<close> calls (bytes accepted, error).
  The answer is what reached the network and the error returned, \<open>None\<close> while it still waits.
\<close>

fun write_loop :: "(nat \<times> string option) list \<Rightarrow> bytes \<Rightarrow> bytes \<times> (string + unit) option" where
  "write_loop _ [] = ([], Some (Inr ()))"
| "write_loop [] data = ([], None)"
| "write_loop ((n, err) # rs) data = (case err of
     Some e \<Rightarrow> (take n data, Some (Inl e))
   | None \<Rightarrow> (case write_loop rs (drop n data) of (sent, r) \<Rightarrow> (take n data @ sent, r)))"

definition tc_Write :: "'v env \<Rightarrow> (nat \<times> string option) list \<Rightarrow> Message \<Rightarrow> (bytes \<times> (string + unit) option) option" where
  "tc_Write E rs msg = map_option (\<lambda>r. case r of Inl e \<Rightarrow> ([], Some (Inl e)) | Inr data \<Rightarrow> write_loop rs data) (Encode E msg)"

declare read_loop.simps [simp del]

section \<open>Frames\<close>

text \<open>The layout of a packet, and the condition under which nothing wraps.\<close>

definition frame :: "bytes \<Rightarrow> bytes \<Rightarrow> bytes" where
  "frame hb bb = put_be 2 Magic @ put_be 4 (length hb) @ put_be 4 (length bb) @ hb @ bb"

definition fits :: "bytes \<Rightarrow> bytes \<Rightarrow> bool" where
  "fits hb bb \<longleftrightarrow> 10 + length hb + length bb < 2 ^ 32"

lemma pack_frame:
  assumes "fits hb bb"
  shows "pack hb bb = Some (frame hb bb)"
proof -
  have u: "u32 (length hb) = length hb" "u32 (length bb) = length bb" "u32 (10 + length hb) = 10 + length hb"
    "u32 (10 + length hb + length bb) = 10 + length hb + length bb"
    using assms by (simp_all add: fits_def u32_def)
  let ?pre = "put_be 2 Magic @ put_be 4 (length hb) @ put_be 4 (length bb)"
  have "pack hb bb = Some (copy_at (10 + length hb) bb (copy_at 10 hb (?pre @ replicate (length hb + length bb) 0)))"
    using u by (simp add: pack_def Let_def)
  also have "copy_at 10 hb (?pre @ replicate (length hb + length bb) 0) = ?pre @ hb @ replicate (length bb) 0"
    by (simp add: copy_at_def)
  also have "copy_at (10 + length hb) bb (?pre @ hb @ replicate (length bb) 0) = ?pre @ hb @ bb"
    by (simp add: copy_at_def)
  finally show ?thesis by (simp add: frame_def)
qed

lemma frame_length [simp]: "length (frame hb bb) = 10 + length hb + length bb"
  by (simp add: frame_def)

lemma frame_fields:
  assumes "fits hb bb"
  shows "be_val (take 2 (frame hb bb @ rest)) = Magic"
    "be_val (take 4 (drop 2 (frame hb bb @ rest))) = length hb" "be_val (take 4 (drop 6 (frame hb bb @ rest))) = length bb"
proof -
  have l: "length hb < 256 ^ 4" "length bb < 256 ^ 4" using assms by (simp_all add: fits_def)
  show "be_val (take 2 (frame hb bb @ rest)) = Magic" by (simp add: frame_def be_val_put_be Magic_def)
  show "be_val (take 4 (drop 2 (frame hb bb @ rest))) = length hb" using l by (simp add: frame_def be_val_put_be)
  show "be_val (take 4 (drop 6 (frame hb bb @ rest))) = length bb" using l by (simp add: frame_def be_val_put_be)
qed

text \<open>The codec and the compressor give back what they were given, on one message.\<close>

definition lossless :: "'v env \<Rightarrow> Message \<Rightarrow> bool" where
  "lossless E msg \<longleftrightarrow> (\<forall>h cc hb bb. msg_Header msg = Some h \<and> codec_New CodecTypeJSON E = Inr cc \<longrightarrow>
     (MarshalHeader cc h = Inr hb \<longrightarrow> UnmarshalHeader cc hb = Inr h) \<and>
     (Compress (Body msg) (Compression h) E = Inr bb \<longrightarrow> Decompress bb (Compression h) E = Inr (Body msg)))"

lemma Decode_frame:
  assumes "wire_parts E msg = Inr (hb, bb)" "lossless E msg" "fits hb bb"
  shows "Decode E (frame hb bb) = Some (Inr msg)"
proof -
  obtain h cc where h: "msg_Header msg = Some h" "codec_New CodecTypeJSON E = Inr cc" "MarshalHeader cc h = Inr hb"
    "(if Compression h \<noteq> CompressionNone then Compress (Body msg) (Compression h) E else Inr (Body msg)) = Inr bb"
    using assms(1) by (auto simp: wire_parts_def sbind_Inr split: option.splits)
  have u: "u32 (10 + length hb) = 10 + length hb" "u32 (10 + length hb + length bb) = 10 + length hb + length bb"
    using assms(3) by (simp_all add: fits_def u32_def)
  have s: "slice 10 (10 + length hb) (frame hb bb) = Some hb"
    "slice (10 + length hb) (10 + length hb + length bb) (frame hb bb) = Some bb" by (simp_all add: slice_def frame_def)
  have d: "UnmarshalHeader cc hb = Inr h"
    "Compression h \<noteq> CompressionNone \<Longrightarrow> Decompress bb (Compression h) E = Inr (Body msg)"
    "Compression h = CompressionNone \<Longrightarrow> bb = Body msg"
    using assms(2) h by (auto simp: lossless_def split: if_splits)
  have m: "\<lparr>msg_Header = Some h, Body = Body msg\<rparr> = msg" using h(1) by (cases msg) simp
  have sz: "\<not> 2 ^ 63 - 1 < 10 + length hb + length bb" using assms(3) by (simp add: fits_def)
  note f = frame_fields [OF assms(3), of "[]", simplified]
  show ?thesis
    unfolding Decode_def Let_def f
    using sz by (simp add: u s h(2) d(1) m) (use d(2,3) m in \<open>auto simp: sbind_def\<close>)
qed

lemma Encode_frame: "wire_parts E msg = Inr (hb, bb) \<Longrightarrow> fits hb bb \<Longrightarrow> Encode E msg = Some (Inr (frame hb bb))"
  by (simp add: Encode_def pack_frame)

section \<open>Resynchronisation and reading\<close>

lemma resync_magic: "2 \<le> length xs \<Longrightarrow> be_val (take 2 xs) = Magic \<Longrightarrow> resync xs = xs"
  by (cases xs rule: resync.cases) auto

lemma resync_resync: "resync (resync xs @ ys) = resync (xs @ ys)"
  by (induction xs rule: resync.induct) auto

lemma resync_long: "2 \<le> length (resync xs) \<Longrightarrow> resync (xs @ ys) = resync xs @ ys"
  by (induction xs rule: resync.induct) auto

text \<open>Bytes in which the magic number does not occur.\<close>

fun clean :: "bytes \<Rightarrow> bool" where
  "clean (a # b # xs) \<longleftrightarrow> be_val [a, b] \<noteq> Magic \<and> clean (b # xs)"
| "clean _ \<longleftrightarrow> True"

lemma frame_head: "\<exists>xs. frame hb bb = 0x12 # 0x34 # xs"
proof -
  have "put_be 2 Magic = [0x12, 0x34]" by (simp add: put_be_def Magic_def upt_conv_Cons)
  then show ?thesis by (simp add: frame_def)
qed

lemma resync_skips: "clean g \<Longrightarrow> resync (g @ frame hb bb @ rest) = frame hb bb @ rest"
proof -
  obtain xs where xs: "frame hb bb = 0x12 # 0x34 # xs" using frame_head by blast
  have odd: "unat a * 256 + 18 \<noteq> (4660 :: nat)" for a :: byte by presburger
  show "clean g \<Longrightarrow> resync (g @ frame hb bb @ rest) = frame hb bb @ rest"
    by (induction g rule: clean.induct) (auto simp: xs be_val_def Magic_def odd)
qed

lemma read_loop_frame:
  assumes "resync (buf @ concat chunks) = frame hb bb @ rest" "fits hb bb"
  shows "\<exists>tc. read_loop E buf chunks = (Decode E (frame hb bb), tc) \<and> buffer tc @ concat (incoming tc) = rest"
  using assms(1)
proof (induction E buf chunks rule: read_loop.induct)
  case (1 E buf chunks)
  show ?case
  proof (cases "pb_Read buf")
    case (Pair r buf')
    show ?thesis
    proof (cases r)
      case None
      then have b: "buf' = resync buf" and small: "length (resync buf) < 10 \<or>
          length (resync buf) < 10 + DecodeHeaderLen (take 4 (drop 2 (resync buf))) + DecodeBodyLen (take 4 (drop 6 (resync buf)))"
        using Pair by (auto simp: pb_Read_def Let_def split: if_splits)
      show ?thesis
      proof (cases chunks)
        case Nil
        then have e: "resync buf = frame hb bb @ rest" using "1.prems" by simp
        have False using small frame_fields [OF assms(2), of rest] by (simp add: e DecodeHeaderLen_def DecodeBodyLen_def)
        then show ?thesis ..
      next
        case (Cons tmp chunks')
        have "resync (pb_Write tmp buf' @ concat chunks') = frame hb bb @ rest"
          using "1.prems" resync_resync [of buf "tmp @ concat chunks'"] by (simp add: pb_Write_def b Cons)
        from "1.IH" [OF Pair [symmetric] None Cons this] show ?thesis
          by (subst read_loop.simps) (simp add: Pair None Cons)
      qed
    next
      case (Some packet)
      define n where "n = 10 + DecodeHeaderLen (take 4 (drop 2 (resync buf))) + DecodeBodyLen (take 4 (drop 6 (resync buf)))"
      have p: "10 \<le> length (resync buf)" "n \<le> length (resync buf)" "packet = take n (resync buf)" "buf' = drop n (resync buf)"
        using Pair Some by (auto simp: pb_Read_def Let_def n_def split: if_splits)
      have e: "resync buf @ concat chunks = frame hb bb @ rest"
        using resync_long [of buf "concat chunks"] p(1) "1.prems" by simp
      then have tk: "take 4 (drop 2 (resync buf)) = take 4 (drop 2 (frame hb bb @ rest))"
        "take 4 (drop 6 (resync buf)) = take 4 (drop 6 (frame hb bb @ rest))"
        using p(1) by (simp_all add: e [symmetric])
      have n: "n = length (frame hb bb)"
        using frame_fields [OF assms(2), of rest] unfolding n_def DecodeHeaderLen_def DecodeBodyLen_def tk
        by (simp add: min_def)
      have f: "packet = frame hb bb" using arg_cong [OF e, of "take n"] p(2,3) n by simp
      have "buf' @ concat chunks = rest" using arg_cong [OF e, of "drop n"] p(2,4) n by simp
      then show ?thesis using f by (subst read_loop.simps) (simp add: Pair Some)
    qed
  qed
qed

section \<open>Properties\<close>

text \<open>
  What \<open>Encode\<close> writes, \<open>Decode\<close> reads back: the message is returned unchanged, header and
  body, when the header codec and the compressor are lossless on it and the packet is shorter than
  4 GiB (above that the \<open>uint32\<close> lengths wrap).
\<close>

theorem encode_decode_roundtrip:
  assumes "wire_parts E msg = Inr (hb, bb)" and "lossless E msg" and "fits hb bb"
  shows "\<exists>data. Encode E msg = Some (Inr data) \<and> Decode E data = Some (Inr msg)"
  using Encode_frame [OF assms(1,3)] Decode_frame [OF assms] by blast

text \<open>A header codec and a compressor that are lossless on headers with only a request id.\<close>

definition id_codec :: "'v codec" where
  "id_codec = \<lparr>MarshalHeader = \<lambda>h. Inr (Compression h # StreamFlag h # CodecType h # put_be 8 (unat (RequestID h))),
     UnmarshalHeader = \<lambda>bs. case bs of c # f # t # i \<Rightarrow> Inr \<lparr>RequestID = word_of_nat (be_val i), ServiceName = [], MethodName = [],
        ErrorText = [], CodecType = t, Compression = c, StreamFlag = f\<rparr> | _ \<Rightarrow> Inl ''bad header'',
     Marshal = \<lambda>_. Inl ''no values'', Unmarshal = \<lambda>_. Inl ''no values''\<rparr>"

definition rev_compressor :: compressor where
  "rev_compressor = \<lparr>compress = \<lambda>bs. Inr (rev bs), decompress = \<lambda>bs. Inr (rev bs)\<rparr>"

definition demo_env :: "unit env" where
  "demo_env = \<lparr>factories = [(CodecTypeJSON, id_codec)], compressors = [(CompressionGzip, rev_compressor)]\<rparr>"

definition demo_msg :: "64 word \<Rightarrow> bytes \<Rightarrow> Message" where
  "demo_msg i body = \<lparr>msg_Header = Some \<lparr>RequestID = i, ServiceName = [], MethodName = [], ErrorText = [], CodecType = 0,
     Compression = CompressionGzip, StreamFlag = 0\<rparr>, Body = body\<rparr>"

lemma id_codec_roundtrip:
  "ServiceName h = [] \<Longrightarrow> MethodName h = [] \<Longrightarrow> ErrorText h = [] \<Longrightarrow>
   MarshalHeader id_codec h = Inr hb \<Longrightarrow> UnmarshalHeader id_codec hb = Inr h"
  using unsigned_less [of "RequestID h", where 'a = nat] be_val_put_be [of "unat (RequestID h)" 8]
  by (cases h) (auto simp: id_codec_def)

lemma demo_parts:
  "wire_parts demo_env (demo_msg i body) = Inr (CompressionGzip # 0 # 0 # put_be 8 (unat i), rev body)" "lossless demo_env (demo_msg i body)"
  using id_codec_roundtrip [of "the (msg_Header (demo_msg i body))"]
  by (auto simp: wire_parts_def demo_msg_def demo_env_def codec_New_def lossless_def Compress_def Decompress_def
      GetCompressor_def rev_compressor_def CompressionGzip_def CompressionNone_def id_codec_def)

theorem encode_decode_roundtrip_witness:
  "\<exists>data. Encode demo_env (demo_msg 42 [104, 105]) = Some (Inr data) \<and> Decode demo_env data = Some (Inr (demo_msg 42 [104, 105]))"
  using encode_decode_roundtrip [OF demo_parts] by (simp add: fits_def)

text \<open>\<open>n\<close> successive reads of a connection.\<close>

fun read_many :: "'v env \<Rightarrow> nat \<Rightarrow> TCPConnection \<Rightarrow> (string + Message) option list" where
  "read_many E 0 tc = []"
| "read_many E (Suc n) tc = (case tc_Read E tc of (r, tc) \<Rightarrow> r # read_many E n tc)"

text \<open>A message as it appears on the wire: bytes without the magic number before it, then its packet.\<close>

definition sent :: "'v env \<Rightarrow> Message \<Rightarrow> bytes \<Rightarrow> bool" where
  "sent E msg data \<longleftrightarrow> lossless E msg \<and> (\<exists>g hb bb. clean g \<and> wire_parts E msg = Inr (hb, bb) \<and> fits hb bb \<and> data = g @ frame hb bb)"

lemma tc_Read_sent:
  assumes "sent E msg data" "buffer tc @ concat (incoming tc) = data @ rest"
  shows "\<exists>tc'. tc_Read E tc = (Some (Inr msg), tc') \<and> buffer tc' @ concat (incoming tc') = rest"
proof -
  obtain g hb bb where g: "clean g" "wire_parts E msg = Inr (hb, bb)" "fits hb bb" "data = g @ frame hb bb" "lossless E msg"
    using assms(1) by (auto simp: sent_def)
  have "resync (buffer tc @ concat (incoming tc)) = frame hb bb @ rest" using assms(2) g resync_skips [OF g(1)] by simp
  then show ?thesis using read_loop_frame [OF _ g(3), where E = E] Decode_frame [OF g(2,5,3)] by (simp add: tc_Read_def)
qed



text \<open>A write that meets no error puts exactly the packet on the network.\<close>

lemma write_loop_sent:
  "write_loop rs data = (out, r) \<Longrightarrow> (\<exists>rest. data = out @ rest) \<and> (r = Some (Inr ()) \<longrightarrow> out = data)"
proof (induction rs data arbitrary: out r rule: write_loop.induct)
  case (3 n err rs d ds)
  show ?case
  proof (cases err)
    case None
    obtain o' r' where w: "write_loop rs (drop n (d # ds)) = (o', r')" by (meson surj_pair)
    then have "out = take n (d # ds) @ o'" "r = r'" using "3.prems" None by auto
    then show ?thesis using "3.IH" [OF None w] by (metis append_assoc append_take_drop_id)
  next
    case (Some e)
    then have "out = take n (d # ds)" "r = Some (Inl e)" using "3.prems" by auto
    then show ?thesis by (metis append_take_drop_id option.inject sum.distinct(1))
  qed
qed auto

end
