(* ===== verification/Rpc_Transport.thy ===== *)
theory Rpc_Transport
  imports Rpc_Protocol
begin

text \<open>
  The client side of a connection (\<open>src/swifty_rpc/internal/transport\<close>): futures (\<open>future.go\<close>),
  client streams (\<open>stream.go\<close>) and the multiplexing client (\<open>tcp_client.go\<close>).

  The operations of a future and of a stream are functions on its state; one lock section or one
  \<open>select\<close> is one operation, and \<open>None\<close> stands for a call that blocks. The client is a step relation
  over its goroutines: callers of \<open>SendAsyncWithCodec\<close> and \<open>SendStream\<close>, the read loop and the one
  \<open>shutdown\<close> that wins the compare-and-swap, with one step per atomic access to shared state. Request
  numbers are unbounded, so fewer than \<open>2^64\<close> calls per connection are assumed.
\<close>

section \<open>Futures\<close>

record Future =
  res :: bytes
  ferr :: "string option"
  complete :: bool
  onComplete :: "nat option"
  fut_done :: bool

definition NewFuture :: Future where
  "NewFuture = \<lparr>res = [], ferr = None, complete = False, onComplete = None, fut_done = False\<rparr>"

text \<open>Completion; the second component lists the callbacks that run, with their argument.\<close>

definition Done :: "bytes \<Rightarrow> string option \<Rightarrow> Future \<Rightarrow> Future \<times> (nat \<times> string option) list" where
  "Done r e f =
     (if complete f then (f, [])
      else let f = f\<lparr>res := r, ferr := e, complete := True\<rparr>
        in (f\<lparr>fut_done := True\<rparr>, case onComplete f of None \<Rightarrow> [] | Some cb \<Rightarrow> [(cb, e)]))"

definition OnComplete :: "nat \<Rightarrow> Future \<Rightarrow> Future \<times> (nat \<times> string option) list" where
  "OnComplete cb f = (if \<not> complete f then (f\<lparr>onComplete := Some cb\<rparr>, []) else (f, [(cb, ferr f)]))"

definition Wait :: "Future \<Rightarrow> (bytes \<times> string option) option" where
  "Wait f = (if fut_done f then Some (res f, ferr f) else None)"

definition decodeResult :: "'v codec \<Rightarrow> Future \<Rightarrow> string + 'v" where
  "decodeResult cc f = (case ferr f of Some e \<Rightarrow> Inl e | None \<Rightarrow> Unmarshal cc (res f))"

definition GetResult :: "'v codec \<Rightarrow> Future \<Rightarrow> (string + 'v) option" where
  "GetResult cc f = (if fut_done f then Some (decodeResult cc f) else None)"

text \<open>With a context: when both are ready the \<open>select\<close> may take either branch (\<open>prefer_ctx\<close>).\<close>

definition GetResultWithContext :: "bool \<Rightarrow> string option \<Rightarrow> 'v codec \<Rightarrow> Future \<Rightarrow> (string + 'v) option" where
  "GetResultWithContext prefer_ctx ctx_err cc f = (case ctx_err of
     Some e \<Rightarrow> if prefer_ctx \<or> \<not> fut_done f then Some (Inl e) else GetResult cc f
   | None \<Rightarrow> GetResult cc f)"

definition WaitWithContext :: "bool \<Rightarrow> string option \<Rightarrow> Future \<Rightarrow> (bytes \<times> string option) option" where
  "WaitWithContext prefer_ctx ctx_err f = (case ctx_err of
     Some e \<Rightarrow> if prefer_ctx \<or> \<not> fut_done f then Some ([], Some e) else Wait f
   | None \<Rightarrow> Wait f)"

definition IsDone :: "Future \<Rightarrow> bool" where
  "IsDone f = fut_done f"

section \<open>Client streams\<close>

definition stream_cap :: nat where "stream_cap = 64"

record ClientStreamConn =
  ch :: "bytes list"
  ctxErr :: "string option"
  termErr :: "string option"

definition NewClientStreamConn :: "string option \<Rightarrow> ClientStreamConn" where
  "NewClientStreamConn ctx = \<lparr>ch = [], ctxErr = ctx, termErr = None\<rparr>"

text \<open>\<open>discard\<close> tells which branch the \<open>select\<close> takes when the frame fits but the stream has ended too.\<close>

definition Push :: "bool \<Rightarrow> bytes \<Rightarrow> ClientStreamConn \<Rightarrow> ClientStreamConn option" where
  "Push discard body s =
     (let ended = (ctxErr s \<noteq> None \<or> termErr s \<noteq> None) in
      if length (ch s) < stream_cap \<and> \<not> (discard \<and> ended) then Some (s\<lparr>ch := ch s @ [body]\<rparr>)
      else if ended then Some s else None)"

definition terminate :: "string \<Rightarrow> ClientStreamConn \<Rightarrow> ClientStreamConn" where
  "terminate e s = (case termErr s of None \<Rightarrow> s\<lparr>termErr := Some e\<rparr> | Some _ \<Rightarrow> s)"

definition stream_End :: "ClientStreamConn \<Rightarrow> ClientStreamConn" where
  "stream_End s = terminate EOF s"

definition stream_Error :: "string \<Rightarrow> ClientStreamConn \<Rightarrow> ClientStreamConn" where
  "stream_Error e s = terminate e s"

definition Cancel :: "ClientStreamConn \<Rightarrow> ClientStreamConn" where
  "Cancel s = (case ctxErr s of None \<Rightarrow> s\<lparr>ctxErr := Some ''context canceled''\<rparr> | Some _ \<Rightarrow> s)"

definition Recv :: "bool \<Rightarrow> 'v codec \<Rightarrow> ClientStreamConn \<Rightarrow> (ClientStreamConn \<times> (string + 'v)) option" where
  "Recv prefer_ctx cc s = (case ch s of
     body # rest \<Rightarrow> Some (s\<lparr>ch := rest\<rparr>, Unmarshal cc body)
   | [] \<Rightarrow> (case (termErr s, ctxErr s) of
       (Some e, None) \<Rightarrow> Some (s, Inl e)
     | (Some e, Some c) \<Rightarrow> Some (s, Inl (if prefer_ctx then c else e))
     | (None, Some c) \<Rightarrow> Some (s, Inl c)
     | (None, None) \<Rightarrow> None))"

section \<open>The multiplexing client\<close>

datatype kind = Unary | Stream

datatype send_pc =
    Idle
  | Entered kind          \<comment> \<open>the first check of \<open>closed\<close> has passed\<close>
  | Numbered kind nat
  | Stored kind nat
  | Checked kind nat      \<comment> \<open>the re-check has passed\<close>
  | Failing kind nat      \<comment> \<open>the write failed and the entry is deleted\<close>
  | Returned kind nat     \<comment> \<open>the caller holds the future or stream\<close>
  | Refused               \<comment> \<open>the caller got an error\<close>

datatype shut_pc =
    Running
  | Closing               \<comment> \<open>the compare-and-swap succeeded\<close>
  | Draining kind "nat set"      \<comment> \<open>a \<open>Range\<close> with the entries it has still to visit\<close>
  | Deleting kind nat "nat set"  \<comment> \<open>an entry is completed and not yet deleted\<close>
  | ShutDone

datatype read_pc = Reading | Delivering kind nat "string + bytes" | Stopped

record TCPClient =
  is_shut :: bool
  seq :: nat
  entries :: "kind \<Rightarrow> nat set"
  outcome :: "nat \<rightharpoonup> string + bytes"
  senders :: "nat \<Rightarrow> send_pc"
  shut :: shut_pc
  reader :: read_pc

definition newTCPClient :: TCPClient where
  "newTCPClient = \<lparr>is_shut = False, seq = 0, entries = (\<lambda>_. {}), outcome = Map.empty, senders = (\<lambda>_. Idle),
     shut = Running, reader = Reading\<rparr>"

text \<open>The first completion of a future, or termination of a stream, wins.\<close>

definition settle :: "nat \<Rightarrow> string + bytes \<Rightarrow> TCPClient \<Rightarrow> TCPClient" where
  "settle s r c = (case outcome c s of None \<Rightarrow> c\<lparr>outcome := (outcome c)(s \<mapsto> r)\<rparr> | Some _ \<Rightarrow> c)"

definition add_entry :: "kind \<Rightarrow> nat \<Rightarrow> TCPClient \<Rightarrow> TCPClient" where
  "add_entry k s c = c\<lparr>entries := (entries c)(k := insert s (entries c k))\<rparr>"

definition del_entry :: "kind \<Rightarrow> nat \<Rightarrow> TCPClient \<Rightarrow> TCPClient" where
  "del_entry k s c = c\<lparr>entries := (entries c)(k := entries c k - {s})\<rparr>"

definition goto :: "nat \<Rightarrow> send_pc \<Rightarrow> TCPClient \<Rightarrow> TCPClient" where
  "goto t pc c = c\<lparr>senders := (senders c)(t := pc)\<rparr>"

text \<open>How the read loop classifies a message: the entry it removes and what it delivers.\<close>

definition response :: "Header \<Rightarrow> bytes \<Rightarrow> (kind \<times> (string + bytes)) option" where
  "response h body =
     (if StreamFlag h = StreamData then None
      else if StreamFlag h = StreamEnd then Some (Stream, Inl EOF)
      else if StreamFlag h = StreamError then Some (Stream, Inl (ErrorText h))
      else Some (Unary, if ErrorText h \<noteq> [] then Inl (ErrorText h) else Inr body))"

inductive client_step :: "TCPClient \<Rightarrow> TCPClient \<Rightarrow> bool" where
  enter: "senders c t = Idle \<Longrightarrow> \<not> is_shut c \<Longrightarrow> client_step c (goto t (Entered k) c)"
| enter_closed: "senders c t = Idle \<Longrightarrow> is_shut c \<Longrightarrow> client_step c (goto t Refused c)"
| number: "senders c t = Entered k \<Longrightarrow> client_step c (goto t (Numbered k (seq c + 1)) (c\<lparr>seq := seq c + 1\<rparr>))"
| store: "senders c t = Numbered k s \<Longrightarrow> client_step c (goto t (Stored k s) (add_entry k s c))"
| recheck: "senders c t = Stored k s \<Longrightarrow> \<not> is_shut c \<Longrightarrow> client_step c (goto t (Checked k s) c)"
| recheck_removed: "senders c t = Stored k s \<Longrightarrow> is_shut c \<Longrightarrow> s \<in> entries c k \<Longrightarrow>
    client_step c (goto t Refused (del_entry k s c))"
| recheck_drained: "senders c t = Stored k s \<Longrightarrow> is_shut c \<Longrightarrow> s \<notin> entries c k \<Longrightarrow> client_step c (goto t (Checked k s) c)"
| write_ok: "senders c t = Checked k s \<Longrightarrow> client_step c (goto t (Returned k s) c)"
| write_error: "senders c t = Checked k s \<Longrightarrow> client_step c (goto t (Failing k s) (del_entry k s c))"
| fail_first: "senders c t = Failing k s \<Longrightarrow> \<not> is_shut c \<Longrightarrow>
    client_step c (goto t Refused (c\<lparr>is_shut := True, shut := Closing\<rparr>))"
| fail_later: "senders c t = Failing k s \<Longrightarrow> is_shut c \<Longrightarrow> client_step c (goto t Refused c)"
| close: "\<not> is_shut c \<Longrightarrow> client_step c (c\<lparr>is_shut := True, shut := Closing\<rparr>)"
| range_pending: "shut c = Closing \<Longrightarrow> client_step c (c\<lparr>shut := Draining Unary (entries c Unary)\<rparr>)"
| visit: "shut c = Draining k todo \<Longrightarrow> s \<in> todo \<union> entries c k \<Longrightarrow>
    client_step c ((settle s (Inl e) c)\<lparr>shut := Deleting k s (todo - {s})\<rparr>)"
| delete: "shut c = Deleting k s todo \<Longrightarrow> client_step c ((del_entry k s c)\<lparr>shut := Draining k todo\<rparr>)"
| range_streams: "shut c = Draining Unary todo \<Longrightarrow> todo \<inter> entries c Unary = {} \<Longrightarrow>
    client_step c (c\<lparr>shut := Draining Stream (entries c Stream)\<rparr>)"
| range_end: "shut c = Draining Stream todo \<Longrightarrow> todo \<inter> entries c Stream = {} \<Longrightarrow> client_step c (c\<lparr>shut := ShutDone\<rparr>)"
| receive: "reader c = Reading \<Longrightarrow> response h body = Some (k, r) \<Longrightarrow> unat (RequestID h) \<in> entries c k \<Longrightarrow>
    client_step c ((del_entry k (unat (RequestID h)) c)\<lparr>reader := Delivering k (unat (RequestID h)) r\<rparr>)"
| deliver: "reader c = Delivering k s r \<Longrightarrow> client_step c ((settle s r c)\<lparr>reader := Reading\<rparr>)"
| read_error_first: "reader c = Reading \<Longrightarrow> \<not> is_shut c \<Longrightarrow> client_step c (c\<lparr>reader := Stopped, is_shut := True, shut := Closing\<rparr>)"
| read_error_later: "reader c = Reading \<Longrightarrow> is_shut c \<Longrightarrow> client_step c (c\<lparr>reader := Stopped\<rparr>)"

section \<open>Futures and streams: lemmas\<close>

datatype future_op = DoneOp bytes "string option" | OnCompleteOp nat

primrec future_do :: "future_op \<Rightarrow> Future \<Rightarrow> Future \<times> (nat \<times> string option) list" where
  "future_do (DoneOp r e) f = Done r e f"
| "future_do (OnCompleteOp cb) f = OnComplete cb f"

fun future_run :: "future_op list \<Rightarrow> Future \<Rightarrow> Future \<times> (nat \<times> string option) list" where
  "future_run [] f = (f, [])"
| "future_run (op # ops) f = (case future_do op f of (f, cs) \<Rightarrow> case future_run ops f of (f, cs') \<Rightarrow> (f, cs @ cs'))"

lemma run_completed:
  assumes "complete f" "\<forall>op \<in> set ops. \<exists>r e. op = DoneOp r e"
  shows "future_run ops f = (f, [])"
  using assms by (induction ops) (auto simp: Done_def)

lemma run_append: "future_run (xs @ ys) f = (case future_run xs f of (f, cs) \<Rightarrow> case future_run ys f of (f, cs') \<Rightarrow> (f, cs @ cs'))"
  by (induction xs arbitrary: f) (auto split: prod.splits)

definition is_done :: "future_op \<Rightarrow> bool" where
  "is_done op = (case op of DoneOp _ _ \<Rightarrow> True | OnCompleteOp _ \<Rightarrow> False)"

lemma is_done_iff: "is_done op \<longleftrightarrow> (\<exists>r e. op = DoneOp r e)"
  by (cases op) (auto simp: is_done_def)

text \<open>
  A future is completed once: whatever the order in which completions (a response, a timeout, a
  closed connection) and the registration of its callback arrive, the first completion decides the
  result, later ones change nothing, and the callback runs exactly once, with the error of the first
  completion.
\<close>

theorem future_first_completion_wins:
  assumes "list_all is_done (pre @ post)" and "ops = pre @ OnCompleteOp cb # post" and "pre @ post = DoneOp r e # later"
  shows "\<exists>f. future_run ops NewFuture = (f, [(cb, e)]) \<and> complete f \<and> res f = r \<and> ferr f = e"
proof -
  have d: "\<forall>op \<in> set pre. \<exists>r e. op = DoneOp r e" "\<forall>op \<in> set post. \<exists>r e. op = DoneOp r e"
    using assms(1) by (auto simp: list_all_iff is_done_iff)
  show ?thesis
  proof (cases pre)
    case Nil
    then have "post = DoneOp r e # later" using assms(3) by simp
    then show ?thesis using assms(2) Nil d run_completed [of _ later]
      by (auto simp: OnComplete_def Done_def NewFuture_def Let_def)
  next
    case (Cons p pre')
    then have p: "pre = DoneOp r e # pre'" using assms(3) by simp
    let ?f = "NewFuture\<lparr>res := r, ferr := e, complete := True, fut_done := True\<rparr>"
    have c: "complete ?f" by simp
    have "future_run pre NewFuture = (?f, [])"
      using p d run_completed [OF c, of pre'] by (simp add: Done_def NewFuture_def Let_def)
    then show ?thesis using assms(2) run_completed [OF c d(2)] by (simp add: run_append OnComplete_def)
  qed
qed

theorem future_first_completion_wins_witness:
  "\<exists>f. future_run [DoneOp [] (Some ''timeout''), OnCompleteOp 7, DoneOp [1] None] NewFuture = (f, [(7, Some ''timeout'')]) \<and> res f = []"
  using future_first_completion_wins [of "[DoneOp [] (Some ''timeout'')]" "[DoneOp [1] None]" _ 7 "[]" "Some ''timeout''" "[DoneOp [1] None]"]
  by (auto simp: is_done_def)

text \<open>
  The life of a stream that is not cancelled: the read loop pushes frames and at the end terminates
  the stream, while the caller receives. The state carries what was pushed and what was received.
\<close>

inductive stream_life :: "'v codec \<Rightarrow> bytes list \<Rightarrow> (string + 'v) list \<Rightarrow> ClientStreamConn \<Rightarrow> bool" for cc where
  fresh: "stream_life cc [] [] (NewClientStreamConn None)"
| push: "stream_life cc ps rs s \<Longrightarrow> termErr s = None \<Longrightarrow> Push d body s = Some s' \<Longrightarrow> stream_life cc (ps @ [body]) rs s'"
| ended: "stream_life cc ps rs s \<Longrightarrow> stream_life cc ps rs (terminate e s)"
| recv: "stream_life cc ps rs s \<Longrightarrow> ch s \<noteq> [] \<Longrightarrow> Recv p cc s = Some (s', r) \<Longrightarrow> stream_life cc ps (rs @ [r]) s'"

lemma stream_life_inv: "stream_life cc ps rs s \<Longrightarrow> ctxErr s = None \<and> rs @ map (Unmarshal cc) (ch s) = map (Unmarshal cc) ps \<and> length (ch s) \<le> stream_cap"
proof (induction rule: stream_life.induct)
  case (recv ps rs s p s' r)
  then show ?case by (auto simp: Recv_def split: list.splits)
qed (auto simp: NewClientStreamConn_def Push_def terminate_def stream_cap_def Let_def split: option.splits if_splits)

text \<open>
  No frame of a stream is lost or reordered: when \<open>Recv\<close> reports the terminal state, the caller
  has received every frame that was pushed, in order; and \<open>Recv\<close> only blocks when all frames pushed
  so far were received and the stream has not ended.
\<close>

theorem stream_frames_in_order:
  assumes "stream_life cc pushed received s"
  shows "(case Recv p cc s of
      None \<Rightarrow> received = map (Unmarshal cc) pushed \<and> termErr s = None
    | Some (s', r) \<Rightarrow> if ch s = [] then received = map (Unmarshal cc) pushed \<and> (\<exists>e. termErr s = Some e \<and> r = Inl e)
        else r = Unmarshal cc (pushed ! length received) \<and> received = map (Unmarshal cc) (take (length received) pushed))"
proof -
  have inv: "ctxErr s = None" "rs = received \<Longrightarrow> rs @ map (Unmarshal cc) (ch s) = map (Unmarshal cc) pushed" for rs
    using stream_life_inv [OF assms] by auto
  note eq = inv(2) [OF refl]
  show ?thesis
  proof (cases "ch s")
    case Nil
    then show ?thesis using inv(1) eq by (auto simp: Recv_def split: option.split)
  next
    case (Cons b bs)
    have len: "length received < length pushed" using arg_cong [OF eq, of length] Cons by simp
    have "map (Unmarshal cc) pushed ! length received = Unmarshal cc b" using Cons by (simp flip: eq)
    moreover have "take (length received) (map (Unmarshal cc) pushed) = received" by (simp flip: eq)
    ultimately show ?thesis using Cons len by (simp add: Recv_def take_map)
  qed
qed

theorem stream_frames_in_order_witness:
  "Recv False (id_codec :: unit codec) (terminate EOF (NewClientStreamConn None)) = Some (terminate EOF (NewClientStreamConn None), Inl EOF)"
  using stream_frames_in_order [OF stream_life.ended [OF stream_life.fresh, of id_codec EOF], of False]
  by (auto simp: Recv_def NewClientStreamConn_def terminate_def)

section \<open>The multiplexing client: invariant\<close>

text \<open>The entry a caller has in hand, the entry it waits for, and the one a drain still has to cover.\<close>

fun holds :: "send_pc \<Rightarrow> (kind \<times> nat) option" where
  "holds (Numbered k s) = Some (k, s)"
| "holds (Stored k s) = Some (k, s)"
| "holds (Checked k s) = Some (k, s)"
| "holds (Failing k s) = Some (k, s)"
| "holds (Returned k s) = Some (k, s)"
| "holds _ = None"

fun waits :: "send_pc \<Rightarrow> (kind \<times> nat) option" where
  "waits (Stored k s) = Some (k, s)"
| "waits (Checked k s) = Some (k, s)"
| "waits (Returned k s) = Some (k, s)"
| "waits _ = None"

fun checked :: "send_pc \<Rightarrow> (kind \<times> nat) option" where
  "checked (Checked k s) = Some (k, s)"
| "checked (Returned k s) = Some (k, s)"
| "checked _ = None"

fun covered :: "shut_pc \<Rightarrow> kind \<Rightarrow> nat \<Rightarrow> bool" where
  "covered Running k s = True"
| "covered Closing k s = True"
| "covered (Draining k' todo) k s = (if k = k' then s \<in> todo else k = Stream)"
| "covered (Deleting k' s' todo) k s = (if k = k' then s = s' \<or> s \<in> todo else k = Stream)"
| "covered ShutDone k s = False"

definition delivering :: "TCPClient \<Rightarrow> kind \<Rightarrow> nat \<Rightarrow> bool" where
  "delivering c k s \<longleftrightarrow> (\<exists>r. reader c = Delivering k s r)"

definition numbers_ok :: "TCPClient \<Rightarrow> bool" where
  "numbers_ok c \<longleftrightarrow> (\<forall>t k s. holds (senders c t) = Some (k, s) \<longrightarrow> s \<le> seq c \<and>
     (\<forall>t' k'. holds (senders c t') = Some (k', s) \<longrightarrow> t' = t))"

definition calls_ok :: "TCPClient \<Rightarrow> bool" where
  "calls_ok c \<longleftrightarrow> (\<forall>t k s. waits (senders c t) = Some (k, s) \<longrightarrow> s \<in> entries c k \<or> s \<in> dom (outcome c) \<or> delivering c k s)"

definition drain_ok :: "TCPClient \<Rightarrow> bool" where
  "drain_ok c \<longleftrightarrow> (is_shut c \<longleftrightarrow> shut c \<noteq> Running) \<and>
     (\<forall>k s todo. shut c = Deleting k s todo \<longrightarrow> s \<in> dom (outcome c)) \<and>
     (\<forall>t k s. checked (senders c t) = Some (k, s) \<and> s \<in> entries c k \<longrightarrow> covered (shut c) k s)"

lemma holds_waits: "waits pc = Some ks \<Longrightarrow> holds pc = Some ks" "checked pc = Some ks \<Longrightarrow> waits pc = Some ks"
  by (cases pc; simp)+

lemma client_selectors [simp]:
  "is_shut (goto t pc c) = is_shut c" "seq (goto t pc c) = seq c" "entries (goto t pc c) = entries c" "outcome (goto t pc c) = outcome c"
  "senders (goto t pc c) = (senders c)(t := pc)" "shut (goto t pc c) = shut c" "reader (goto t pc c) = reader c"
  "is_shut (add_entry k s c) = is_shut c" "seq (add_entry k s c) = seq c" "outcome (add_entry k s c) = outcome c"
  "entries (add_entry k s c) = (entries c)(k := insert s (entries c k))"
  "senders (add_entry k s c) = senders c" "shut (add_entry k s c) = shut c" "reader (add_entry k s c) = reader c"
  "is_shut (del_entry k s c) = is_shut c" "seq (del_entry k s c) = seq c" "outcome (del_entry k s c) = outcome c"
  "entries (del_entry k s c) = (entries c)(k := entries c k - {s})"
  "senders (del_entry k s c) = senders c" "shut (del_entry k s c) = shut c" "reader (del_entry k s c) = reader c"
  by (simp_all add: goto_def add_entry_def del_entry_def)

lemma settle_selectors [simp]:
  "is_shut (settle s r c) = is_shut c" "seq (settle s r c) = seq c" "entries (settle s r c) = entries c"
  "senders (settle s r c) = senders c" "shut (settle s r c) = shut c" "reader (settle s r c) = reader c"
  "dom (outcome (settle s r c)) = insert s (dom (outcome c))"
  by (auto simp: settle_def split: option.split)

text \<open>The effect of the three elementary updates on the parts of the invariant.\<close>

lemma goto_del: "goto t pc (del_entry k s c) = del_entry k s (goto t pc c)"
  by (simp add: goto_def del_entry_def)

lemma inv_goto:
  "numbers_ok c \<Longrightarrow> holds pc = None \<or> holds pc = holds (senders c t) \<Longrightarrow> numbers_ok (goto t pc c)"
  "calls_ok c \<Longrightarrow> waits pc = None \<or> waits pc = waits (senders c t) \<Longrightarrow> calls_ok (goto t pc c)"
  "drain_ok c \<Longrightarrow> checked pc = None \<or> checked pc = checked (senders c t) \<Longrightarrow> drain_ok (goto t pc c)"
proof -
  assume "numbers_ok c" "holds pc = None \<or> holds pc = holds (senders c t)"
  then show "numbers_ok (goto t pc c)" unfolding numbers_ok_def by (auto; metis)
next
  assume a: "calls_ok c" "waits pc = None \<or> waits pc = waits (senders c t)"
  show "calls_ok (goto t pc c)" unfolding calls_ok_def
  proof (intro allI impI)
    fix t' k s
    assume "waits (senders (goto t pc c) t') = Some (k, s)"
    then have "waits (senders c t') = Some (k, s)" using a(2) by (auto split: if_splits)
    then show "s \<in> entries (goto t pc c) k \<or> s \<in> dom (outcome (goto t pc c)) \<or> delivering (goto t pc c) k s"
      using a(1) by (simp add: calls_ok_def delivering_def)
  qed
next
  assume "drain_ok c" "checked pc = None \<or> checked pc = checked (senders c t)"
  then show "drain_ok (goto t pc c)" unfolding drain_ok_def by (auto split: if_splits)
qed

lemma inv_del:
  "numbers_ok (del_entry k s c) = numbers_ok c"
  "drain_ok c \<Longrightarrow> drain_ok (del_entry k s c)"
  "calls_ok c \<Longrightarrow> s \<in> dom (outcome c) \<or> delivering c k s \<or> (\<forall>t. waits (senders c t) \<noteq> Some (k, s)) \<Longrightarrow> calls_ok (del_entry k s c)"
  by (auto simp: numbers_ok_def drain_ok_def calls_ok_def delivering_def)

lemma only_holder:
  "numbers_ok c \<Longrightarrow> holds (senders c t) = Some (k, s) \<Longrightarrow> waits pc = None \<Longrightarrow> waits (senders (goto t pc c) t') \<noteq> Some (k', s)"
  unfolding numbers_ok_def using holds_waits(1) by (auto split: if_splits; blast)

lemma numbers_ok_step: "client_step c c' \<Longrightarrow> numbers_ok c \<Longrightarrow> numbers_ok c'"
proof (induction rule: client_step.induct)
  case (number c t k)
  then show ?case unfolding numbers_ok_def by (auto; fastforce)
next
  case (store c t k s)
  have "numbers_ok (add_entry k s c)" using store by (simp add: numbers_ok_def)
  then show ?case using store by (intro inv_goto(1)) auto
next
  case (fail_first c t k s)
  have "numbers_ok (c\<lparr>is_shut := True, shut := Closing\<rparr>)" using fail_first by (simp add: numbers_ok_def)
  then show ?case using fail_first by (intro inv_goto(1)) auto
qed (auto intro!: inv_goto(1) simp: inv_del(1), auto simp: numbers_ok_def)

lemma calls_ok_step:
  assumes "client_step c c'" "numbers_ok c" "drain_ok c" "calls_ok c"
  shows "calls_ok c'"
  using assms
proof (induction rule: client_step.induct)
  case (store c t k s)
  then show ?case by (auto simp: calls_ok_def delivering_def)
next
  case (recheck_removed c t k s)
  have "calls_ok (goto t Refused c)" using recheck_removed by (intro inv_goto(2)) auto
  then show ?case using only_holder [of c t k s Refused] recheck_removed unfolding goto_del by (intro inv_del(3)) auto
next
  case (write_error c t k s)
  have "calls_ok (goto t (Failing k s) c)" using write_error by (intro inv_goto(2)) auto
  then show ?case using only_holder [of c t k s "Failing k s"] write_error unfolding goto_del by (intro inv_del(3)) auto
next
  case (fail_first c t k s)
  have "calls_ok (c\<lparr>is_shut := True, shut := Closing\<rparr>)" using fail_first by (simp add: calls_ok_def delivering_def)
  then show ?case using fail_first by (intro inv_goto(2)) auto
next
  case (number c t k)
  have "calls_ok (c\<lparr>seq := seq c + 1\<rparr>)" using number by (simp add: calls_ok_def delivering_def)
  then show ?case using number by (intro inv_goto(2)) auto
qed (auto intro!: inv_goto(2), auto simp: calls_ok_def delivering_def drain_ok_def)

lemma drain_ok_step:
  assumes "client_step c c'" "numbers_ok c" "drain_ok c"
  shows "drain_ok c'"
  using assms
proof (induction rule: client_step.induct)
  case (store c t k s)
  have "checked (senders c t') \<noteq> Some (k', s)" if "t' \<noteq> t" for t' k'
    using that store holds_waits [of "senders c t'" "(k', s)"] unfolding numbers_ok_def by (metis holds.simps(1))
  then show ?case using store by (auto simp: drain_ok_def split: if_splits)
next
  case (fail_first c t k s)
  have "drain_ok (c\<lparr>is_shut := True, shut := Closing\<rparr>)" using fail_first by (simp add: drain_ok_def)
  then show ?case using fail_first by (intro inv_goto(3)) auto
next
  case (number c t k)
  have "drain_ok (c\<lparr>seq := seq c + 1\<rparr>)" using number by (auto simp: drain_ok_def)
  then show ?case using number by (intro inv_goto(3)) auto
next
  case (recheck c t k s)
  then show ?case by (auto simp: drain_ok_def)
next
  case (recheck_drained c t k s)
  then show ?case by (auto simp: drain_ok_def)
next
  case (range_pending c)
  then show ?case by (auto simp: drain_ok_def) (metis kind.exhaust)
next
  case (delete c k s todo)
  then show ?case by (fastforce simp: drain_ok_def split: if_splits)
next
  case (range_streams c todo)
  then show ?case unfolding drain_ok_def by (fastforce split: if_splits)
next
  case (range_end c todo)
  then show ?case unfolding drain_ok_def by (fastforce split: if_splits)
qed (auto intro!: inv_goto(3) inv_del(2), auto simp: drain_ok_def)

lemma client_reachable_inv:
  "client_step\<^sup>*\<^sup>* newTCPClient c \<Longrightarrow> numbers_ok c \<and> drain_ok c \<and> calls_ok c"
proof (induction rule: rtranclp_induct)
  case base
  then show ?case by (simp add: newTCPClient_def numbers_ok_def drain_ok_def calls_ok_def)
next
  case (step c c')
  then show ?case using numbers_ok_step drain_ok_step calls_ok_step by blast
qed

text \<open>
  C6. No call is lost when a connection closes, in any interleaving of callers, responses and the
  closing goroutine: once the shutdown has drained both tables and the read loop has delivered the
  response in its hands, every future and every stream that was handed to a caller is completed. The
  second check of \<open>closed\<close> after the entry is stored is what makes this true.
\<close>

theorem shutdown_settles_every_call:
  assumes "client_step\<^sup>*\<^sup>* newTCPClient c" and "shut c = ShutDone" and "\<not> delivering c k s" and "senders c t = Returned k s"
  shows "s \<in> dom (outcome c)"
proof -
  have inv: "drain_ok c" "calls_ok c" using client_reachable_inv [OF assms(1)] by auto
  have "s \<notin> entries c k" using inv(1) assms(2,4) unfolding drain_ok_def by (metis checked.simps(2) covered.simps(5))
  moreover have "s \<in> entries c k \<or> s \<in> dom (outcome c) \<or> delivering c k s"
    using inv(2) assms(4) unfolding calls_ok_def by (metis waits.simps(3))
  ultimately show ?thesis using assms(3) by simp
qed

text \<open>A call, then \<open>Close\<close>, then the two drains.\<close>

lemma closing_run:
  "\<exists>c. client_step\<^sup>*\<^sup>* newTCPClient c \<and> shut c = ShutDone \<and> reader c = Reading \<and> senders c 0 = Returned Unary 1"
proof -
  let ?R = "\<lambda>c c'. client_step\<^sup>*\<^sup>* c c'"
  define c0 where "c0 = newTCPClient"
  define c1 where "c1 = goto 0 (Entered Unary) c0"
  define c2 where "c2 = goto 0 (Numbered Unary 1) (c1\<lparr>seq := 1\<rparr>)"
  define c3 where "c3 = goto 0 (Stored Unary 1) (add_entry Unary 1 c2)"
  define c4 where "c4 = goto 0 (Checked Unary 1) c3"
  define c5 where "c5 = goto 0 (Returned Unary 1) c4"
  define c6 where "c6 = c5\<lparr>is_shut := True, shut := Closing\<rparr>"
  define c7 where "c7 = c6\<lparr>shut := Draining Unary {1}\<rparr>"
  define c8 where "c8 = (settle 1 (Inl ''closed'') c7)\<lparr>shut := Deleting Unary 1 {}\<rparr>"
  define c9 where "c9 = (del_entry Unary 1 c8)\<lparr>shut := Draining Unary {}\<rparr>"
  define ca where "ca = c9\<lparr>shut := Draining Stream {}\<rparr>"
  define cb where "cb = ca\<lparr>shut := ShutDone\<rparr>"
  note cs = c0_def c1_def c2_def c3_def c4_def c5_def c6_def c7_def c8_def c9_def ca_def cb_def newTCPClient_def
  have "client_step c0 c1" using enter [of c0 0 Unary] by (simp add: cs)
  moreover have "client_step c1 c2" using number [of c1 0 Unary] by (simp add: cs goto_def)
  moreover have "client_step c2 c3" using store [of c2 0 Unary 1] by (simp add: cs goto_def)
  moreover have "client_step c3 c4" using recheck [of c3 0 Unary 1] by (simp add: cs goto_def add_entry_def)
  moreover have "client_step c4 c5" using write_ok [of c4 0 Unary 1] by (simp add: cs goto_def add_entry_def)
  moreover have "client_step c5 c6" using client_step.close [of c5] by (simp add: cs goto_def add_entry_def)
  moreover have "client_step c6 c7" using range_pending [of c6] by (simp add: cs goto_def add_entry_def)
  moreover have "client_step c7 c8" using visit [of c7 Unary "{1}" 1 "''closed''"] by (simp add: c8_def) (simp add: c7_def)
  moreover have "client_step c8 c9" using delete [of c8 Unary 1 "{}"] by (simp add: c9_def) (simp add: c8_def)
  moreover have "client_step c9 ca" using range_streams [of c9 "{}"] by (simp add: cs goto_def add_entry_def)
  moreover have "client_step ca cb" using range_end [of ca "{}"] by (simp add: ca_def cb_def)
  ultimately have "?R c0 cb" by (meson converse_rtranclp_into_rtranclp rtranclp.rtrancl_refl)
  then show ?thesis by (intro exI [of _ cb]) (simp add: cs)
qed

theorem shutdown_settles_every_call_witness: "\<exists>c :: TCPClient. shut c = ShutDone \<and> senders c 0 = Returned Unary 1 \<and> 1 \<in> dom (outcome c)"
proof -
  obtain c where c: "client_step\<^sup>*\<^sup>* newTCPClient c" "shut c = ShutDone" "reader c = Reading" "senders c 0 = Returned Unary 1"
    using closing_run by blast
  then have "1 \<in> dom (outcome c)" using shutdown_settles_every_call [OF c(1,2) _ c(4)] by (simp add: delivering_def)
  then show ?thesis using c(2,4) by blast
qed

text \<open>Whatever is in the tables, a shutdown that has begun can go on.\<close>

lemma drain_continues: "shut c \<noteq> Running \<Longrightarrow> shut c \<noteq> ShutDone \<Longrightarrow> \<exists>c'. client_step c c' \<and> shut c' \<noteq> shut c"
proof (cases "shut c")
  case (Draining k todo)
  show ?thesis
  proof (cases "todo \<inter> entries c k = {}")
    case True
    then show ?thesis using Draining range_streams [of c todo] range_end [of c todo] by (cases k) (force+)
  next
    case False
    then obtain s where "s \<in> todo \<union> entries c k" by auto
    from visit [OF Draining this, of "''closed''"] show ?thesis using Draining by force
  qed
qed (use range_pending [of c] delete [of c] in force)+

end
