(* ===== verification/Rpc_Control.thy ===== *)
theory Rpc_Control
  imports Complex_Main "HOL-Library.Log_Nat" Prelude
begin

text \<open>
  The call controls of the RPC client: circuit breaker (\<open>src/swifty_rpc/internal/breaker/breaker.go\<close>),
  token bucket (\<open>internal/limiter/token_bucket.go\<close>), load balancers (\<open>internal/load_balance\<close>) and
  the connection pool (\<open>internal/transport/tcp_connection_pool.go\<close>).

  The clock is an argument of the operations that read it. The failure rate is a \<open>float64\<close>
  quotient: \<open>f64_div\<close> rounds the exact quotient of two counts to 53 bits, ties to even. Load
  balancers share the interface \<open>balancer\<close>, as they do in \<open>balancer.go\<close>.
\<close>

section \<open>Floating point quotients\<close>

text \<open>For counts \<open>a \<le> b < 2^53\<close>; the exponent brings the quotient to 53 binary digits.\<close>

definition f64_exp :: "nat \<Rightarrow> nat \<Rightarrow> nat" where
  "f64_exp a b = (let e = 52 + floorlog 2 b - floorlog 2 a in if a * 2 ^ e < b * 2 ^ 52 then Suc e else e)"

definition round_even :: "nat \<Rightarrow> nat \<Rightarrow> nat" where
  "round_even a b = (let q = a div b; r = a mod b in if 2 * r < b \<or> (2 * r = b \<and> even q) then q else Suc q)"

definition f64_div :: "nat \<Rightarrow> nat \<Rightarrow> rat" where
  "f64_div a b = (if a = 0 then 0 else of_nat (round_even (a * 2 ^ f64_exp a b) b) / 2 ^ f64_exp a b)"

section \<open>Circuit breaker\<close>

datatype State = Closed | Open | HalfOpen

record CircuitBreaker =
  state :: State
  failureCount :: nat
  successCount :: nat
  windowSize :: int
  failureThreshold :: rat
  openTimeout :: int
  lastStateChange :: int
  halfOpenProbe :: bool

definition NewCircuitBreaker :: "int \<Rightarrow> rat \<Rightarrow> int \<Rightarrow> int \<Rightarrow> CircuitBreaker" where
  "NewCircuitBreaker window threshold timeout now =
     \<lparr>state = Closed, failureCount = 0, successCount = 0, windowSize = window, failureThreshold = threshold,
      openTimeout = timeout, lastStateChange = now, halfOpenProbe = False\<rparr>"

definition cb_Allow :: "int \<Rightarrow> CircuitBreaker \<Rightarrow> CircuitBreaker \<times> bool" where
  "cb_Allow now cb = (case state cb of
     Closed \<Rightarrow> (cb, True)
   | Open \<Rightarrow>
       if now - lastStateChange cb > openTimeout cb
       then (cb\<lparr>state := HalfOpen, halfOpenProbe := True\<rparr>, True)
       else (cb, False)
   | HalfOpen \<Rightarrow>
       if halfOpenProbe cb then (cb, False)
       else (cb\<lparr>halfOpenProbe := True\<rparr>, True))"

definition resetCounts :: "CircuitBreaker \<Rightarrow> CircuitBreaker" where
  "resetCounts cb = cb\<lparr>failureCount := 0, successCount := 0\<rparr>"

definition toOpen :: "int \<Rightarrow> CircuitBreaker \<Rightarrow> CircuitBreaker" where
  "toOpen now cb = (resetCounts (cb\<lparr>state := Open, lastStateChange := now\<rparr>))\<lparr>halfOpenProbe := False\<rparr>"

definition toClosed :: "int \<Rightarrow> CircuitBreaker \<Rightarrow> CircuitBreaker" where
  "toClosed now cb = (resetCounts (cb\<lparr>state := Closed, lastStateChange := now\<rparr>))\<lparr>halfOpenProbe := False\<rparr>"

definition resetClosedWindowIfReady :: "int \<Rightarrow> CircuitBreaker \<Rightarrow> CircuitBreaker" where
  "resetClosedWindowIfReady now cb =
     (let total = failureCount cb + successCount cb in
      if int total < windowSize cb then cb
      else if f64_div (failureCount cb) total \<ge> failureThreshold cb then toOpen now cb
      else resetCounts cb)"

definition RecordSuccess :: "int \<Rightarrow> CircuitBreaker \<Rightarrow> CircuitBreaker" where
  "RecordSuccess now cb = (case state cb of
     Closed \<Rightarrow> resetClosedWindowIfReady now (cb\<lparr>successCount := successCount cb + 1\<rparr>)
   | HalfOpen \<Rightarrow> toClosed now cb
   | Open \<Rightarrow> cb)"

definition RecordFailure :: "int \<Rightarrow> CircuitBreaker \<Rightarrow> CircuitBreaker" where
  "RecordFailure now cb = (case state cb of
     Closed \<Rightarrow>
       let cb = cb\<lparr>failureCount := failureCount cb + 1\<rparr>;
           total = failureCount cb + successCount cb
       in if int total < windowSize cb then cb
          else if f64_div (failureCount cb) total \<ge> failureThreshold cb then toOpen now cb
          else resetCounts cb
   | HalfOpen \<Rightarrow> toOpen now cb
   | Open \<Rightarrow> cb)"

section \<open>Token bucket\<close>

record TokenBucket =
  tokens :: int
  tb_rate :: int
  stopped :: bool

definition NewTokenBucket :: "int \<Rightarrow> TokenBucket" where
  "NewTokenBucket rate = (let rate = (if rate < 0 then 0 else rate) in \<lparr>tokens = rate, tb_rate = rate, stopped = False\<rparr>)"

text \<open>A tick of the refill goroutine, which ends when the bucket is stopped.\<close>

definition tb_tick :: "TokenBucket \<Rightarrow> TokenBucket" where
  "tb_tick tb = (if stopped tb then tb else tb\<lparr>tokens := tb_rate tb\<rparr>)"

definition tb_Allow :: "TokenBucket \<Rightarrow> TokenBucket \<times> bool" where
  "tb_Allow tb = (if tokens tb > 0 then (tb\<lparr>tokens := tokens tb - 1\<rparr>, True) else (tb, False))"

definition tb_Stop :: "TokenBucket \<Rightarrow> TokenBucket" where
  "tb_Stop tb = tb\<lparr>stopped := True\<rparr>"

section \<open>Load balancers\<close>

record Instance =
  Addr :: string

definition no_instance :: Instance where
  "no_instance = \<lparr>Addr = []\<rparr>"

text \<open>Round robin: the counter is a \<open>uint64\<close>.\<close>

definition rr_Select :: "Instance list \<Rightarrow> 64 word \<Rightarrow> 64 word \<times> Instance" where
  "rr_Select list idx =
     (if list = [] then (idx, no_instance)
      else let i = idx + 1 in (i, list ! (unat (i - 1) mod length list)))"

text \<open>Random: \<open>Intn\<close> of the random source is a parameter.\<close>

definition random_Select :: "('r \<Rightarrow> nat \<Rightarrow> 'r \<times> nat) \<Rightarrow> Instance list \<Rightarrow> 'r \<Rightarrow> 'r \<times> Instance" where
  "random_Select Intn list r =
     (if list = [] then (r, no_instance) else case Intn r (length list) of (r, n) \<Rightarrow> (r, list ! n))"

record WeightedRR =
  weights :: "int list"
  currentWeight :: "int list"
  totalWeight :: int

definition NewWeightedRR :: "int list \<Rightarrow> WeightedRR" where
  "NewWeightedRR ws =
     (let ws = map (\<lambda>wt. if wt < 0 then 0 else wt) ws
      in \<lparr>weights = ws, currentWeight = replicate (length ws) 0, totalWeight = sum_list ws\<rparr>)"

text \<open>One turn of the selection loop, on the current weights and the index of the maximum.\<close>

definition wrr_visit :: "int list \<Rightarrow> nat \<Rightarrow> int list \<times> nat option \<Rightarrow> int list \<times> nat option" where
  "wrr_visit ws i s = (case s of (cw, maxIdx) \<Rightarrow>
     let cw = cw[i := cw ! i + ws ! i] in
     (cw, case maxIdx of None \<Rightarrow> Some i | Some m \<Rightarrow> if cw ! i > cw ! m then Some i else Some m))"

definition wrr_index :: "nat \<Rightarrow> WeightedRR \<Rightarrow> WeightedRR \<times> nat option" where
  "wrr_index n w = (case fold (wrr_visit (weights w)) [0..<n] (currentWeight w, None) of
     (cw, Some m) \<Rightarrow> (w\<lparr>currentWeight := cw[m := cw ! m - totalWeight w]\<rparr>, Some m)
   | (cw, None) \<Rightarrow> (w\<lparr>currentWeight := cw\<rparr>, None))"

definition wrr_Select :: "Instance list \<Rightarrow> WeightedRR \<Rightarrow> WeightedRR \<times> Instance" where
  "wrr_Select list w =
     (if list = [] then (w, no_instance)
      else if length list \<noteq> length (weights w) then (w, no_instance)
      else if totalWeight w \<le> 0 then (w, no_instance)
      else (case wrr_index (length list) w of (w, Some m) \<Rightarrow> (w, list ! m) | (w, None) \<Rightarrow> (w, no_instance)))"

section \<open>Connection pool\<close>

text \<open>
  Connections are identified by numbers; whether a connection is closed, and the result of dialling,
  are arguments of \<open>Acquire\<close>.
\<close>

record ConnectionPool =
  maxActive :: int
  conns :: "nat list"
  pool_closed :: bool
  pool_next :: nat

definition ErrPoolClosed :: string where "ErrPoolClosed = ''connection pool closed''"

definition NewConnectionPool :: "int \<Rightarrow> ConnectionPool option" where
  "NewConnectionPool m = (if m < 0 then None else Some \<lparr>maxActive = m, conns = [], pool_closed = False, pool_next = 0\<rparr>)"

text \<open>
  The search loop with its index \<open>i\<close> and bound \<open>n\<close>; the answer is the connection found, if any, and
  the pool. \<open>None\<close> is an index out of range or a division by zero.
\<close>

function acquire_loop :: "(nat \<Rightarrow> bool) \<Rightarrow> nat \<Rightarrow> nat \<Rightarrow> ConnectionPool \<Rightarrow> (nat option \<times> ConnectionPool) option" where
  "acquire_loop is_closed i n p =
     (if i < n then
        if conns p = [] then None
        else let idx = (pool_next p + i) mod length (conns p); conn = conns p ! idx in
          if \<not> is_closed conn then Some (Some conn, p\<lparr>pool_next := (idx + 1) mod length (conns p)\<rparr>)
          else let p = p\<lparr>conns := take idx (conns p) @ drop (idx + 1) (conns p)\<rparr> in
            if conns p = [] then Some (None, p)
            else acquire_loop is_closed i (n - 1) p
      else Some (None, p))"
  by pat_completeness auto
termination by (relation "measure (\<lambda>(_, i, n, _). n)") auto

declare acquire_loop.simps [simp del]

definition dial_append :: "string + nat \<Rightarrow> ConnectionPool \<Rightarrow> ConnectionPool \<times> (string + nat)" where
  "dial_append dial p = (case dial of Inl e \<Rightarrow> (p, Inl e) | Inr c \<Rightarrow> (p\<lparr>conns := conns p @ [c]\<rparr>, Inr c))"

definition Acquire :: "string option \<Rightarrow> (nat \<Rightarrow> bool) \<Rightarrow> string + nat \<Rightarrow> ConnectionPool \<Rightarrow> (ConnectionPool \<times> (string + nat)) option" where
  "Acquire ctx_err is_closed dial p =
     (if pool_closed p then Some (p, Inl ErrPoolClosed)
      else case ctx_err of Some e \<Rightarrow> Some (p, Inl e) | None \<Rightarrow>
        if int (length (conns p)) < maxActive p then Some (dial_append dial p)
        else do {
          (found, p) \<leftarrow> acquire_loop is_closed 0 (length (conns p)) p;
          (case found of Some c \<Rightarrow> Some (p, Inr c) | None \<Rightarrow> Some (dial_append dial p)) })"

text \<open>The connections that \<open>Close\<close> closes.\<close>

definition pool_Close :: "ConnectionPool \<Rightarrow> ConnectionPool \<times> nat list" where
  "pool_Close p = (if pool_closed p then (p, []) else (p\<lparr>pool_closed := True\<rparr>, conns p))"

section \<open>Circuit breaker: lemmas\<close>

text \<open>
  Outside the closed state the counters are zero, a probe is out exactly in the half-open state,
  and in the closed state the window is not full.
\<close>

definition breaker_ok :: "CircuitBreaker \<Rightarrow> bool" where
  "breaker_ok cb \<longleftrightarrow> (halfOpenProbe cb \<longleftrightarrow> state cb = HalfOpen) \<and>
     (state cb \<noteq> Closed \<longrightarrow> failureCount cb = 0 \<and> successCount cb = 0) \<and>
     int (failureCount cb + successCount cb) < windowSize cb"

datatype breaker_op = AllowAt int | SuccessAt int | FailureAt int

primrec breaker_do :: "breaker_op \<Rightarrow> CircuitBreaker \<Rightarrow> CircuitBreaker \<times> bool" where
  "breaker_do (AllowAt now) cb = cb_Allow now cb"
| "breaker_do (SuccessAt now) cb = (RecordSuccess now cb, False)"
| "breaker_do (FailureAt now) cb = (RecordFailure now cb, False)"

lemmas breaker_defs = cb_Allow_def RecordSuccess_def RecordFailure_def resetClosedWindowIfReady_def toOpen_def toClosed_def resetCounts_def

lemma breaker_keeps:
  "windowSize (fst (breaker_do op cb)) = windowSize cb" "failureThreshold (fst (breaker_do op cb)) = failureThreshold cb"
  "openTimeout (fst (breaker_do op cb)) = openTimeout cb"
  by (cases op; simp add: breaker_defs Let_def split: State.split)+

lemma breaker_ok_step: "breaker_ok cb \<Longrightarrow> breaker_ok (fst (breaker_do op cb))"
  by (cases op; cases "state cb") (auto simp: breaker_ok_def breaker_defs Let_def)

fun breaker_run :: "breaker_op list \<Rightarrow> CircuitBreaker \<Rightarrow> CircuitBreaker" where
  "breaker_run [] cb = cb"
| "breaker_run (op # ops) cb = breaker_run ops (fst (breaker_do op cb))"

lemma breaker_ok_run: "breaker_ok cb \<Longrightarrow> breaker_ok (breaker_run ops cb)"
  by (induction ops arbitrary: cb) (simp_all add: breaker_ok_step)

lemma breaker_run_window: "windowSize (breaker_run ops cb) = windowSize cb" "openTimeout (breaker_run ops cb) = openTimeout cb"
  "failureThreshold (breaker_run ops cb) = failureThreshold cb"
  by (induction ops arbitrary: cb) (simp_all add: breaker_keeps)

lemma new_breaker_ok: "0 < w \<Longrightarrow> breaker_ok (NewCircuitBreaker w thr t now)"
  by (simp add: breaker_ok_def NewCircuitBreaker_def)

text \<open>A recorded result: its time and whether the call succeeded.\<close>

definition record_result :: "int \<times> bool \<Rightarrow> CircuitBreaker \<Rightarrow> CircuitBreaker" where
  "record_result r cb = (if snd r then RecordSuccess (fst r) cb else RecordFailure (fst r) cb)"

lemma record_result_closed:
  assumes "state cb = Closed"
  shows "record_result r cb =
    (let f = failureCount cb + (if snd r then 0 else 1); s = successCount cb + (if snd r then 1 else 0) in
     if int (f + s) < windowSize cb then cb\<lparr>failureCount := f, successCount := s\<rparr>
     else if f64_div f (f + s) \<ge> failureThreshold cb then toOpen (fst r) cb else resetCounts cb)"
  using assms by (cases cb) (simp add: record_result_def breaker_defs Let_def)

abbreviation failures :: "(int \<times> bool) list \<Rightarrow> nat" where
  "failures rs \<equiv> length (filter (\<lambda>r. \<not> snd r) rs)"

abbreviation successes :: "(int \<times> bool) list \<Rightarrow> nat" where
  "successes rs \<equiv> length (filter snd rs)"

lemma results_split: "failures rs + successes rs = length rs"
  using sum_length_filter_compl [of snd rs] by simp

lemma record_partial:
  assumes "state cb = Closed" "int (failureCount cb + successCount cb + length rs) < windowSize cb"
  shows "fold record_result rs cb =
    cb\<lparr>failureCount := failureCount cb + failures rs, successCount := successCount cb + successes rs\<rparr>"
  using assms
proof (induction rs rule: rev_induct)
  case (snoc r rs)
  have "failureCount cb + failures rs + (successCount cb + successes rs) = failureCount cb + successCount cb + length rs"
    using results_split [of rs] by simp
  then show ?case using snoc by (auto simp: record_result_closed Let_def)
qed simp

text \<open>
  A full window of results, from a freshly closed breaker: the breaker opens exactly when the
  rounded failure rate reaches the threshold, and otherwise starts the next window.
\<close>

lemma record_window:
  assumes "state cb = Closed" "failureCount cb = 0" "successCount cb = 0" "windowSize cb = int (Suc n)" "length rs = n"
  shows "fold record_result (rs @ [r]) cb =
    (if f64_div (failures (rs @ [r])) (Suc n) \<ge> failureThreshold cb then toOpen (fst r) cb else cb)"
proof -
  have p: "fold record_result rs cb = cb\<lparr>failureCount := failures rs, successCount := successes rs\<rparr>"
    using record_partial [of cb rs] assms by simp
  have s: "failures rs + successes rs = n" using results_split [of rs] assms(5) by simp
  have "fold record_result (rs @ [r]) cb = record_result r (cb\<lparr>failureCount := failures rs, successCount := successes rs\<rparr>)"
    by (simp add: p)
  also have "\<dots> = (if f64_div (failures (rs @ [r])) (Suc n) \<ge> failureThreshold cb then toOpen (fst r) cb else cb)"
    using assms(1-4) s by (cases cb) (auto simp: record_result_closed Let_def toOpen_def resetCounts_def)
  finally show ?thesis .
qed

lemma floorlog_small: "floorlog 2 (numeral n) = Suc (floorlog 2 (numeral n div 2))" "floorlog 2 (Suc 0) = 1"
  by (simp_all add: compute_floorlog)

lemma client_rate: "f \<le> 10 \<Longrightarrow> f64_div 6 10 \<le> f64_div f 10 \<longleftrightarrow> 6 \<le> f"
proof -
  assume "f \<le> 10"
  then consider "f = 0" | "f = 1" | "f = 2" | "f = 3" | "f = 4" | "f = 5" | "f = 6" | "f = 7" | "f = 8" | "f = 9" | "f = 10" by (cases f rule: nat.exhaust) (auto simp: le_Suc_eq numeral_eq_Suc)
  then show "f64_div 6 10 \<le> f64_div f 10 \<longleftrightarrow> 6 \<le> f"
    by cases (simp_all add: f64_div_def f64_exp_def round_even_def Let_def floorlog_small)
qed

section \<open>Load balancers: the interface\<close>

text \<open>
  What a caller of \<open>Select\<close> relies on: on a list that the balancer accepts the answer is one of the
  instances of the list, and the balancer still accepts the list afterwards.
\<close>

locale balancer =
  fixes select :: "Instance list \<Rightarrow> 's \<Rightarrow> 's \<times> Instance"
    and accepts :: "Instance list \<Rightarrow> 's \<Rightarrow> bool"
  assumes select_member: "list \<noteq> [] \<Longrightarrow> accepts list s \<Longrightarrow> snd (select list s) \<in> set list"
    and select_accepts: "list \<noteq> [] \<Longrightarrow> accepts list s \<Longrightarrow> accepts list (fst (select list s))"
begin

fun select_many :: "nat \<Rightarrow> Instance list \<Rightarrow> 's \<Rightarrow> 's \<times> Instance list" where
  "select_many 0 list s = (s, [])"
| "select_many (Suc k) list s = (case select list s of (s, x) \<Rightarrow> case select_many k list s of (s, xs) \<Rightarrow> (s, x # xs))"

lemma select_many_members:
  "list \<noteq> [] \<Longrightarrow> accepts list s \<Longrightarrow> set (snd (select_many k list s)) \<subseteq> set list"
proof (induction k arbitrary: s)
  case (Suc k)
  then show ?case using select_member [of list s] select_accepts [of list s]
    by (auto split: prod.splits) (metis (no_types, lifting) snd_conv subsetD)
qed simp

lemma select_many_length: "length (snd (select_many k list s)) = k"
  by (induction k arbitrary: s) (auto split: prod.splits, metis snd_conv)

end

text \<open>One round of the weighted selection: the weights are added and the first maximum is found.\<close>

definition wrr_ok :: "nat \<Rightarrow> WeightedRR \<Rightarrow> bool" where
  "wrr_ok n w \<longleftrightarrow> length (weights w) = n \<and> length (currentWeight w) = n \<and> 0 < n \<and>
     totalWeight w = sum_list (weights w) \<and> 0 < totalWeight w \<and> (\<forall>x \<in> set (weights w). 0 \<le> x)"

lemma wrr_visits:
  assumes "length cw = length ws" "k \<le> length ws"
  shows "\<exists>cw' m. fold (wrr_visit ws) [0..<k] (cw, None) = (cw', m) \<and> length cw' = length ws \<and>
    (\<forall>i<length ws. cw' ! i = cw ! i + (if i < k then ws ! i else 0)) \<and>
    (case m of None \<Rightarrow> k = 0 | Some m \<Rightarrow> m < k \<and> (\<forall>i<k. cw' ! i \<le> cw' ! m))"
  using assms(2)
proof (induction k)
  case (Suc k)
  then obtain cw' m where IH: "fold (wrr_visit ws) [0..<k] (cw, None) = (cw', m)" "length cw' = length ws"
    "\<forall>i<length ws. cw' ! i = cw ! i + (if i < k then ws ! i else 0)"
    "case m of None \<Rightarrow> k = 0 | Some m \<Rightarrow> m < k \<and> (\<forall>i<k. cw' ! i \<le> cw' ! m)" by auto
  define c where "c = cw'[k := cw' ! k + ws ! k]"
  have c: "length c = length ws" "\<forall>i<length ws. c ! i = cw ! i + (if i < Suc k then ws ! i else 0)" "\<forall>i<k. c ! i = cw' ! i"
    using IH(2,3) Suc.prems by (auto simp: c_def nth_list_update less_Suc_eq)
  obtain m' where m': "fold (wrr_visit ws) [0..<Suc k] (cw, None) = (c, Some m')" "m' < Suc k" "\<forall>i<Suc k. c ! i \<le> c ! m'"
  proof (cases m)
    case None
    then show thesis using IH by (intro that [of k]) (auto simp: wrr_visit_def c_def Let_def)
  next
    case (Some j)
    show thesis
    proof (cases "c ! j < c ! k")
      case True
      then show thesis using IH(1,4) Some c(3)
        by (intro that [of k]) (auto simp: wrr_visit_def c_def [symmetric] Let_def less_Suc_eq intro: order_trans less_imp_le)
    next
      case False
      then show thesis using IH(1,4) Some c(3)
        by (intro that [of j]) (auto simp: wrr_visit_def c_def [symmetric] Let_def less_Suc_eq)
    qed
  qed
  show ?case using c m' by auto
qed (use assms in auto)

lemma sum_list_pos_max:
  assumes "0 < sum_list xs" "\<forall>i<length xs. xs ! i \<le> (m::int)"
  shows "0 < m"
proof (rule ccontr)
  assume "\<not> 0 < m"
  then have "\<forall>x \<in> set xs. x \<le> 0" using assms(2) by (fastforce simp: in_set_conv_nth)
  then have "sum_list xs \<le> 0" by (induction xs) auto
  then show False using assms(1) by simp
qed

lemma sum_list_upd: "m < length xs \<Longrightarrow> sum_list (xs[m := x]) = sum_list xs - xs ! m + (x :: int)"
  by (induction xs arbitrary: m) (auto split: nat.split)

lemma wrr_index_spec:
  assumes "wrr_ok n w" "sum_list (currentWeight w) = 0"
  obtains w' m where "wrr_index n w = (w', Some m)" "m < n" "wrr_ok n w'" "weights w' = weights w" "totalWeight w' = totalWeight w"
    "\<And>i. i < n \<Longrightarrow> currentWeight w' ! i = currentWeight w ! i + weights w ! i - (if i = m then totalWeight w else 0)"
    "sum_list (currentWeight w') = 0" "- totalWeight w < currentWeight w' ! m"
proof -
  let ?ws = "weights w" and ?W = "totalWeight w"
  have ok: "length ?ws = n" "length (currentWeight w) = n" "0 < n" "?W = sum_list ?ws" "0 < ?W"
    using assms(1) by (auto simp: wrr_ok_def)
  obtain cw mo where v: "fold (wrr_visit ?ws) [0..<n] (currentWeight w, None) = (cw, mo)" "length cw = n"
    "\<forall>i<n. cw ! i = currentWeight w ! i + ?ws ! i" "case mo of None \<Rightarrow> n = 0 | Some m \<Rightarrow> m < n \<and> (\<forall>i<n. cw ! i \<le> cw ! m)"
    using wrr_visits [of "currentWeight w" ?ws n] ok by auto
  obtain m where m: "mo = Some m" "m < n" "\<forall>i<n. cw ! i \<le> cw ! m" using v(4) ok(3) by (auto split: option.splits)
  have sum: "sum_list cw = ?W"
    using assms(2) ok v(2,3) by (simp add: sum_list_sum_nth sum.distrib)
  have pos: "0 < cw ! m" using sum_list_pos_max [of cw "cw ! m"] sum ok(5) m v(2) by simp
  let ?w' = "w\<lparr>currentWeight := cw[m := cw ! m - ?W]\<rparr>"
  show thesis
  proof (rule that [of ?w' m])
    show "wrr_index n w = (?w', Some m)" using v(1) m(1) by (simp add: wrr_index_def)
    show "wrr_ok n ?w'" using assms(1) v(2) by (simp add: wrr_ok_def)
    show "currentWeight ?w' ! i = currentWeight w ! i + ?ws ! i - (if i = m then ?W else 0)" if "i < n" for i
      using that v by (simp add: nth_list_update)
    show "sum_list (currentWeight ?w') = 0" using sum m(2) v(2) by (simp add: sum_list_upd)
    show "- ?W < currentWeight ?w' ! m" using pos m(2) v(2) by simp
  qed (use m in simp_all)
qed

interpretation rr: balancer rr_Select "\<lambda>_ _. True"
  by unfold_locales (auto simp: rr_Select_def Let_def)

interpretation wrr: balancer wrr_Select "\<lambda>list w. wrr_ok (length list) w \<and> sum_list (currentWeight w) = 0"
proof unfold_locales
  fix list :: "Instance list" and s :: WeightedRR
  assume a: "list \<noteq> []" "wrr_ok (length list) s \<and> sum_list (currentWeight s) = 0"
  obtain w' m where "wrr_index (length list) s = (w', Some m)" "m < length list" "wrr_ok (length list) w'" "sum_list (currentWeight w') = 0"
    using wrr_index_spec [of "length list" s] a(2) by metis
  moreover have "length list = length (weights s)" "0 < totalWeight s" using a(2) by (auto simp: wrr_ok_def)
  ultimately have "wrr_Select list s = (w', list ! m)" using a(1) by (simp add: wrr_Select_def)
  then show "snd (wrr_Select list s) \<in> set list"
    "wrr_ok (length list) (fst (wrr_Select list s)) \<and> sum_list (currentWeight (fst (wrr_Select list s))) = 0"
    using \<open>m < length list\<close> \<open>wrr_ok (length list) w'\<close> \<open>sum_list (currentWeight w') = 0\<close> by simp_all
qed

lemma wrr_Select_spec:
  assumes "wrr_ok (length list) w" "sum_list (currentWeight w) = 0"
  obtains w' m where "wrr_Select list w = (w', list ! m)" "m < length list" "wrr_ok (length list) w'" "weights w' = weights w"
    "totalWeight w' = totalWeight w"
    "\<And>i. i < length list \<Longrightarrow> currentWeight w' ! i = currentWeight w ! i + weights w ! i - (if i = m then totalWeight w else 0)"
    "sum_list (currentWeight w') = 0" "- totalWeight w < currentWeight w' ! m"
proof (rule wrr_index_spec [OF assms])
  fix w' m
  assume a: "wrr_index (length list) w = (w', Some m)" "m < length list" "wrr_ok (length list) w'" "weights w' = weights w"
    "totalWeight w' = totalWeight w"
    "\<And>i. i < length list \<Longrightarrow> currentWeight w' ! i = currentWeight w ! i + weights w ! i - (if i = m then totalWeight w else 0)"
    "sum_list (currentWeight w') = 0" "- totalWeight w < currentWeight w' ! m"
  have "list \<noteq> []" "length list = length (weights w)" "0 < totalWeight w" using assms(1) by (auto simp: wrr_ok_def)
  then have "wrr_Select list w = (w', list ! m)" using a(1) by (simp add: wrr_Select_def)
  then show thesis using a(2-8) by (rule that)
qed

lemma wrr_run:
  assumes "distinct list" "wrr_ok (length list) w" "sum_list (currentWeight w) = 0"
    "\<forall>i<length list. - totalWeight w < currentWeight w ! i" "wrr.select_many k list w = (w', xs)"
  shows "totalWeight w' = totalWeight w \<and> weights w' = weights w \<and> length (currentWeight w') = length list \<and>
    (\<forall>i<length list. - totalWeight w < currentWeight w' ! i \<and>
       currentWeight w' ! i = currentWeight w ! i + int k * weights w ! i - totalWeight w * int (count_list xs (list ! i)))"
  using assms(2-)
proof (induction k arbitrary: w xs)
  case 0
  then show ?case by (auto simp: wrr_ok_def)
next
  case (Suc k)
  show ?case
  proof (rule wrr_Select_spec [OF Suc.prems(1,2)])
    fix w1 m
    assume s: "wrr_Select list w = (w1, list ! m)" "m < length list" "wrr_ok (length list) w1" "weights w1 = weights w"
      "totalWeight w1 = totalWeight w"
      "\<And>i. i < length list \<Longrightarrow> currentWeight w1 ! i = currentWeight w ! i + weights w ! i - (if i = m then totalWeight w else 0)"
      "sum_list (currentWeight w1) = 0" "- totalWeight w < currentWeight w1 ! m"
    obtain ys where ys: "wrr.select_many k list w1 = (w', ys)" "xs = list ! m # ys"
      using Suc.prems(4) s(1) by (auto split: prod.splits)
    have nn: "0 \<le> weights w ! i" if "i < length list" for i using Suc.prems(1) that by (auto simp: wrr_ok_def)
    have lo: "- totalWeight w1 < currentWeight w1 ! i" if "i < length list" for i
      using s(6) [OF that] s(5,8) nn [OF that] Suc.prems(3) [rule_format, OF that] by (cases "i = m") auto
    have c: "count_list xs (list ! i) = count_list ys (list ! i) + (if i = m then 1 else 0)" if "i < length list" for i
      using ys(2) assms(1) s(2) that by (auto simp: nth_eq_iff_index_eq)
    show ?thesis using Suc.IH [OF s(3,7) _ ys(1)] lo s(4,5,6) c by (auto simp: algebra_simps)
  qed
qed

lemma count_list_sum:
  assumes "distinct list" "set xs \<subseteq> set list"
  shows "(\<Sum>i<length list. count_list xs (list ! i)) = length xs"
  using assms(2)
proof (induction xs)
  case (Cons x xs)
  obtain j where j: "j < length list" "list ! j = x" using Cons.prems by (auto simp: in_set_conv_nth)
  have "(\<Sum>i<length list. count_list (x # xs) (list ! i)) = (\<Sum>i<length list. count_list xs (list ! i) + (if i = j then 1 else 0))"
    using j assms(1) by (intro sum.cong) (auto simp: nth_eq_iff_index_eq)
  then show ?case using Cons j by (simp add: sum.distrib)
qed simp

section \<open>Properties\<close>

text \<open>
  C20. Smooth weighted round robin is exact: from a new balancer, one period of as many selections as
  the weights add up to picks every instance exactly as often as its weight says, and brings the
  balancer back to its initial state.
\<close>

theorem weighted_rr_proportional:
  assumes "distinct list" and "length list = length ws" and "\<forall>x \<in> set ws. 0 \<le> x" and "0 < sum_list ws"
    and "wrr.select_many (nat (sum_list ws)) list (NewWeightedRR ws) = (w', picks)"
  shows "w' = NewWeightedRR ws \<and> (\<forall>i<length list. int (count_list picks (list ! i)) = ws ! i)"
proof -
  let ?w = "NewWeightedRR ws" and ?W = "sum_list ws" and ?n = "length list" and ?c = "\<lambda>i. int (count_list picks (list ! i))"
  have ws: "map (\<lambda>wt. if wt < 0 then 0 else wt) ws = ws" using assms(3) by (auto intro!: map_idI)
  have w: "weights ?w = ws" "totalWeight ?w = ?W" "currentWeight ?w = replicate ?n 0"
    using assms(2) by (simp_all add: NewWeightedRR_def ws Let_def)
  have "ws \<noteq> []" using assms(4) by auto
  then have ok: "wrr_ok ?n ?w" using w assms(2-4) by (simp add: wrr_ok_def)
  have z: "sum_list (currentWeight ?w) = 0" using w(3) by (simp add: sum_list_replicate)
  have run: "totalWeight w' = ?W" "weights w' = ws" "length (currentWeight w') = ?n"
    "\<forall>i<?n. - ?W < currentWeight w' ! i \<and> currentWeight w' ! i = ?W * ws ! i - ?W * ?c i"
    using wrr_run [OF assms(1) ok z _ assms(5)] w assms(4) by auto
  have le: "?c i \<le> ws ! i" if "i < ?n" for i
  proof -
    have "?W * ?c i < ?W * (ws ! i + 1)" using run(4) that by (auto simp: algebra_simps)
    then show ?thesis using assms(4) by (simp add: mult_less_cancel_left)
  qed
  have ne: "list \<noteq> []" using \<open>ws \<noteq> []\<close> assms(2) by auto
  have "set picks \<subseteq> set list" "length picks = nat ?W"
    using wrr.select_many_members [OF ne, of ?w "nat ?W"] wrr.select_many_length [of "nat ?W" list ?w] ok z assms(5) by simp_all
  then have "(\<Sum>i<?n. ?c i) = ?W" using count_list_sum [OF assms(1), of picks] assms(4) by (simp flip: of_nat_sum)
  moreover have "(\<Sum>i<?n. ws ! i) = ?W" using assms(2) by (simp add: sum_list_sum_nth atLeast0LessThan)
  ultimately have "(\<Sum>i<?n. ws ! i - ?c i) = 0" by (simp add: sum_subtractf)
  then have eq: "?c i = ws ! i" if "i < ?n" for i
    using sum_nonneg_eq_0_iff [of "{..<?n}" "\<lambda>i. ws ! i - ?c i"] le that by simp
  then have "currentWeight w' = replicate ?n 0" using run(3,4) by (auto intro!: nth_equalityI)
  then have "w' = ?w" using run w by (cases w') (auto simp: NewWeightedRR_def Let_def ws assms(2))
  then show ?thesis using eq by simp
qed

definition two_instances :: "Instance list" where
  "two_instances = [\<lparr>Addr = ''a''\<rparr>, \<lparr>Addr = ''b''\<rparr>]"

theorem weighted_rr_proportional_witness:
  "\<exists>w' picks. wrr.select_many 4 two_instances (NewWeightedRR [3, 1]) = (w', picks) \<and> count_list picks \<lparr>Addr = ''a''\<rparr> = 3"
proof -
  obtain w' picks where r: "wrr.select_many 4 two_instances (NewWeightedRR [3, 1]) = (w', picks)" by (meson surj_pair)
  have "w' = NewWeightedRR [3, 1] \<and> (\<forall>i<length two_instances. int (count_list picks (two_instances ! i)) = [3, 1] ! i)"
    by (rule weighted_rr_proportional) (use r in \<open>simp_all add: two_instances_def\<close>)
  then have "count_list picks (two_instances ! 0) = 3" by (auto simp: two_instances_def)
  then show ?thesis using r by (simp add: two_instances_def)
qed

text \<open>
  C22. Breaker protocol: in every state that calls and results can produce, a call is let through
  exactly when the breaker is closed or has been open for longer than its timeout, in which case the
  call becomes the only probe; while the probe is out every call is rejected, a successful result
  closes the breaker with an empty window and a failed one opens it again.
\<close>

theorem breaker_protocol:
  assumes "0 < w" and "cb = breaker_run ops (NewCircuitBreaker w thr timeout start)"
  shows "(snd (cb_Allow now cb) \<longleftrightarrow> state cb = Closed \<or> state cb = Open \<and> timeout < now - lastStateChange cb) \<and>
    (state cb = Open \<and> snd (cb_Allow now cb) \<longrightarrow> state (fst (cb_Allow now cb)) = HalfOpen) \<and>
    (state cb = HalfOpen \<longrightarrow> fst (cb_Allow now cb) = cb \<and>
       state (RecordFailure now cb) = Open \<and> lastStateChange (RecordFailure now cb) = now \<and>
       state (RecordSuccess now cb) = Closed \<and> failureCount (RecordSuccess now cb) = 0 \<and> successCount (RecordSuccess now cb) = 0)"
proof -
  have ok: "breaker_ok cb" using breaker_ok_run [OF new_breaker_ok [OF assms(1)]] assms(2) by simp
  have t: "openTimeout cb = timeout" using assms(2) by (simp add: breaker_run_window NewCircuitBreaker_def)
  show ?thesis using ok t by (cases "state cb") (auto simp: breaker_ok_def breaker_defs)
qed

theorem breaker_protocol_witness:
  "snd (cb_Allow 100 (breaker_run [FailureAt 1] (NewCircuitBreaker 1 1 50 0))) \<and>
   \<not> snd (cb_Allow 40 (breaker_run [FailureAt 1] (NewCircuitBreaker 1 1 50 0)))"
proof -
  have r: "f64_div (Suc 0) (Suc 0) = 1"
    by (simp add: f64_div_def f64_exp_def round_even_def Let_def floorlog_small)
  have s: "state (breaker_run [FailureAt 1] (NewCircuitBreaker 1 1 50 0)) = Open"
    "lastStateChange (breaker_run [FailureAt 1] (NewCircuitBreaker 1 1 50 0)) = 1"
    by (simp_all add: breaker_defs NewCircuitBreaker_def Let_def r)
  show ?thesis using breaker_protocol [OF _ refl, of 1 100 "[FailureAt 1]" 1 50 0] breaker_protocol [OF _ refl, of 1 40 "[FailureAt 1]" 1 50 0]
    by (simp only: s) simp
qed

text \<open>
  The window of the client's breakers (10 results, threshold 0.6): ten results recorded from an
  empty window open the breaker exactly when six or more are failures, in the rounded arithmetic of
  \<open>float64\<close>; otherwise the breaker starts the next window.
\<close>

theorem breaker_window_decides:
  assumes "state cb = Closed" and "failureCount cb = 0" and "successCount cb = 0" and "windowSize cb = 10"
    and "failureThreshold cb = f64_div 6 10" and "length rs = 10"
  shows "if 6 \<le> failures rs then state (fold record_result rs cb) = Open else fold record_result rs cb = cb"
proof -
  obtain rs' r where rs: "rs = rs' @ [r]" "length rs' = 9" using assms(6) by (cases rs rule: rev_cases) auto
  have "failures rs \<le> 10" using assms(6) length_filter_le [of "\<lambda>r. \<not> snd r" rs] by simp
  from client_rate [OF this] show ?thesis
    using record_window [OF assms(1-3), of 9 rs' r] assms(4,5) rs by (simp add: toOpen_def resetCounts_def)
qed

theorem breaker_window_decides_witness:
  "state (fold record_result (replicate 6 (3, False) @ replicate 4 (4, True)) (NewCircuitBreaker 10 (f64_div 6 10) 5 0)) = Open"
  using breaker_window_decides [of "NewCircuitBreaker 10 (f64_div 6 10) 5 0" "replicate 6 (3, False) @ replicate 4 (4, True)"]
  by (simp add: NewCircuitBreaker_def)

text \<open>Round robin takes the instances in turn, as long as the counter does not wrap.\<close>

lemma rr_takes_turns:
  assumes "list \<noteq> []" "unat idx + k < 2 ^ 64"
  shows "snd (rr.select_many k list idx) = map (\<lambda>j. list ! ((unat idx + j) mod length list)) [0..<k]"
  using assms(2)
proof (induction k arbitrary: idx)
  case (Suc k)
  have u: "unat (idx + 1) = unat idx + 1" using Suc.prems by (simp add: unat_word_ariths)
  have "map (\<lambda>j. list ! ((unat idx + j) mod length list)) [0..<Suc k] =
      list ! (unat idx mod length list) # map (\<lambda>j. list ! ((unat (idx + 1) + j) mod length list)) [0..<k]"
    unfolding u by (simp add: upt_conv_Cons map_Suc_upt [symmetric] del: upt_Suc)
  moreover have "rr_Select list idx = (idx + 1, list ! (unat idx mod length list))" using assms(1) by (simp add: rr_Select_def Let_def)
  ultimately show ?case using Suc.IH [of "idx + 1"] Suc.prems u by (simp add: case_prod_unfold del: upt_Suc)
qed simp

text \<open>Random selection is a balancer too when the random source keeps its contract.\<close>

lemma random_Select_member:
  "list \<noteq> [] \<Longrightarrow> snd (Intn r (length list)) < length list \<Longrightarrow> snd (random_Select Intn list r) \<in> set list"
  by (auto simp: random_Select_def split: prod.splits)

section \<open>Token bucket\<close>

definition bucket_ok :: "TokenBucket \<Rightarrow> bool" where
  "bucket_ok tb \<longleftrightarrow> 0 \<le> tokens tb \<and> tokens tb \<le> tb_rate tb"

lemma bucket_ok_ops: "bucket_ok (NewTokenBucket r)"
  "bucket_ok tb \<Longrightarrow> bucket_ok (tb_tick tb)" "bucket_ok tb \<Longrightarrow> bucket_ok (fst (tb_Allow tb))" "bucket_ok tb \<Longrightarrow> bucket_ok (tb_Stop tb)"
  by (auto simp: bucket_ok_def NewTokenBucket_def tb_tick_def tb_Allow_def tb_Stop_def Let_def)

fun allow_many :: "nat \<Rightarrow> TokenBucket \<Rightarrow> bool list" where
  "allow_many 0 tb = []"
| "allow_many (Suc k) tb = (case tb_Allow tb of (tb, ok) \<Rightarrow> ok # allow_many k tb)"

text \<open>Between two ticks the first calls get the tokens, at most \<open>rate\<close> of them.\<close>

lemma allow_many_tokens: "bucket_ok tb \<Longrightarrow> allow_many k tb = map (\<lambda>j. int j < tokens tb) [0..<k]"
proof (induction k arbitrary: tb)
  case (Suc k)
  have "map (\<lambda>j. int j < tokens tb) [0..<Suc k] = (0 < tokens tb) # map (\<lambda>j. int j < tokens tb - 1) [0..<k]"
    by (simp add: upt_conv_Cons map_Suc_upt [symmetric] less_diff_eq add.commute del: upt_Suc)
  then show ?case using Suc.IH [of "fst (tb_Allow tb)"] Suc.prems
    by (auto simp: tb_Allow_def bucket_ok_def)
qed simp

section \<open>Connection pool\<close>

lemma acquire_loop_spec:
  "n = length (conns p) \<Longrightarrow> \<exists>found p'. acquire_loop is_closed 0 n p = Some (found, p') \<and>
    maxActive p' = maxActive p \<and> pool_closed p' = pool_closed p \<and> length (conns p') \<le> length (conns p) \<and>
    set (conns p') \<subseteq> set (conns p) \<and> (\<forall>c \<in> set (conns p) - set (conns p'). is_closed c) \<and>
    (case found of Some c \<Rightarrow> c \<in> set (conns p') \<and> \<not> is_closed c | None \<Rightarrow> conns p' = [])"
proof (induction n arbitrary: p)
  case 0
  then show ?case by (simp add: acquire_loop.simps)
next
  case (Suc n)
  define idx where "idx = pool_next p mod length (conns p)"
  have idx: "idx < length (conns p)" "conns p \<noteq> []" using Suc.prems by (auto simp: idx_def intro!: mod_less_divisor)
  show ?case
  proof (cases "is_closed (conns p ! idx)")
    case False
    then have "acquire_loop is_closed 0 (Suc n) p = Some (Some (conns p ! idx), p\<lparr>pool_next := (idx + 1) mod length (conns p)\<rparr>)"
      using idx by (simp add: acquire_loop.simps [of _ _ "Suc n"] Let_def idx_def [symmetric])
    then show ?thesis using False idx by auto
  next
    case True
    define p1 where "p1 = p\<lparr>conns := take idx (conns p) @ drop (idx + 1) (conns p)\<rparr>"
    have split: "conns p = take idx (conns p) @ conns p ! idx # drop (idx + 1) (conns p)"
      using idx by (simp add: id_take_nth_drop)
    have p1: "length (conns p1) = n" "set (conns p) = insert (conns p ! idx) (set (conns p1))"
      "maxActive p1 = maxActive p" "pool_closed p1 = pool_closed p"
      using arg_cong [OF split, of length] arg_cong [OF split, of set] Suc.prems by (auto simp: p1_def)
    have st: "acquire_loop is_closed 0 (Suc n) p = (if conns p1 = [] then Some (None, p1) else acquire_loop is_closed 0 n p1)"
      using True idx by (simp add: acquire_loop.simps [of _ _ "Suc n"] Let_def idx_def [symmetric] p1_def)
    show ?thesis
    proof (cases "conns p1 = []")
      case True
      then show ?thesis using st p1 Suc.prems \<open>is_closed (conns p ! idx)\<close> by auto
    next
      case False
      then show ?thesis using st p1 Suc.prems Suc.IH [of p1] \<open>is_closed (conns p ! idx)\<close> by fastforce
    qed
  qed
qed

text \<open>
  \<open>Acquire\<close> on an open pool: it never panics; the connection it returns is an open connection of
  the pool or a newly dialled one; a full pool dials only when all its connections are closed; only
  closed connections are dropped; and the pool never holds more than \<open>max(1, maxActive)\<close> connections.
\<close>

theorem Acquire_returns_open:
  assumes "\<not> pool_closed p" and "int (length (conns p)) \<le> max 1 (maxActive p)"
  shows "\<exists>p' r. Acquire None is_closed dial p = Some (p', r) \<and>
    int (length (conns p')) \<le> max 1 (maxActive p') \<and>
    (\<forall>c \<in> set (conns p) - set (conns p'). is_closed c) \<and>
    (\<forall>c. r = Inr c \<longrightarrow> c \<in> set (conns p') \<and> (dial = Inr c \<or> c \<in> set (conns p) \<and> \<not> is_closed c)) \<and>
    (maxActive p \<le> int (length (conns p)) \<and> (\<exists>c \<in> set (conns p). \<not> is_closed c) \<longrightarrow> (\<exists>c \<in> set (conns p). r = Inr c \<and> \<not> is_closed c))"
proof (cases "int (length (conns p)) < maxActive p")
  case True
  then show ?thesis using assms by (auto simp: Acquire_def dial_append_def split: sum.splits)
next
  case False
  obtain found p' where l: "acquire_loop is_closed 0 (length (conns p)) p = Some (found, p')"
    "maxActive p' = maxActive p" "pool_closed p' = pool_closed p" "length (conns p') \<le> length (conns p)"
    "set (conns p') \<subseteq> set (conns p)" "\<forall>c \<in> set (conns p) - set (conns p'). is_closed c"
    "case found of Some c \<Rightarrow> c \<in> set (conns p') \<and> \<not> is_closed c | None \<Rightarrow> conns p' = []"
    using acquire_loop_spec [OF refl, where p = p and is_closed = is_closed] by blast
  show ?thesis
  proof (cases found)
    case None
    then show ?thesis using l assms False by (auto simp: Acquire_def dial_append_def split: sum.splits)
  next
    case (Some c)
    then show ?thesis using l assms False by (auto simp: Acquire_def)
  qed
qed

theorem Acquire_returns_open_witness:
  "\<exists>p'. Acquire None (\<lambda>c. c = 1) (Inr 9) \<lparr>maxActive = 2, conns = [1, 2], pool_closed = False, pool_next = 0\<rparr> = Some (p', Inr 2)"
proof -
  let ?p = "\<lparr>maxActive = 2, conns = [1, 2], pool_closed = False, pool_next = 0\<rparr>"
  obtain p' r where a: "Acquire None (\<lambda>c. c = 1) (Inr 9) ?p = Some (p', r)" "\<exists>c \<in> set (conns ?p). r = Inr c \<and> c \<noteq> 1"
    using Acquire_returns_open [of ?p "\<lambda>c. c = 1" "Inr 9"] by auto
  then show ?thesis by auto
qed

end
