(* ===== verification/Rpc_Server.thy ===== *)
theory Rpc_Server
  imports Rpc_Transport Rpc_Control
begin

text \<open>
  The server side of the RPC library (\<open>src/swifty_rpc/internal/server\<close>): request handling
  (\<open>handler.go\<close>), server streams (\<open>stream.go\<close>) and the request loop of a connection (\<open>server.go\<close>).

  A service is the table of its methods by the signatures \<open>invoke\<close> distinguishes by reflection; a
  method is a function of the request value. The value that \<open>reflect.New\<close> allocates, which an empty
  request body leaves untouched, comes with the method. A streaming handler is a program that sends
  values, sees the errors of \<open>Send\<close>, and returns or panics. The model returns the messages given to
  \<open>conn.Write\<close>; the result of each write is a parameter.
\<close>

section \<open>Services\<close>

datatype 'v call_result = Gives "'v option" | Fails string | Panics string

datatype 'v handler = HSend 'v "string option \<Rightarrow> 'v handler" | HReturn "string option" | HPanic string

datatype 'v meth =
    CtxMethod 'v "'v \<Rightarrow> 'v call_result"       \<comment> \<open>\<open>(ctx, *T) (*R, error)\<close>\<close>
  | ReplyMethod 'v "'v \<Rightarrow> 'v call_result"     \<comment> \<open>\<open>(*T, *R) error\<close>\<close>
  | StreamMethod 'v "'v \<Rightarrow> 'v handler"        \<comment> \<open>\<open>(*T, ServerStream) error\<close>\<close>
  | OddMethod 'v                              \<comment> \<open>\<open>(*T, X) error\<close> with another second parameter\<close>
  | OtherMethod

type_synonym 'v service = "(string, 'v meth) gomap"

definition empty_header :: Header where
  "empty_header = \<lparr>RequestID = 0, ServiceName = [], MethodName = [], ErrorText = [], CodecType = 0,
     Compression = CompressionNone, StreamFlag = StreamNone\<rparr>"

definition message :: "Header \<Rightarrow> bytes \<Rightarrow> Message" where
  "message h body = \<lparr>msg_Header = Some h, Body = body\<rparr>"

section \<open>Server streams\<close>

definition ss_data :: "64 word \<Rightarrow> bytes \<Rightarrow> Message" where
  "ss_data rid body = message (empty_header\<lparr>RequestID := rid, StreamFlag := StreamData, Compression := CompressionGzip\<rparr>) body"

definition ss_end :: "64 word \<Rightarrow> Message" where
  "ss_end rid = message (empty_header\<lparr>RequestID := rid, StreamFlag := StreamEnd, Compression := CompressionGzip\<rparr>) []"

definition ss_sendError :: "64 word \<Rightarrow> string \<Rightarrow> Message" where
  "ss_sendError rid e =
     message (empty_header\<lparr>RequestID := rid, StreamFlag := StreamError, ErrorText := e, Compression := CompressionGzip\<rparr>) []"

text \<open>\<open>Send\<close>: the message written, if the value can be encoded, and the error the handler sees.\<close>

definition ss_Send :: "(Message \<Rightarrow> string option) \<Rightarrow> 'v codec \<Rightarrow> 64 word \<Rightarrow> 'v \<Rightarrow> Message list \<times> string option" where
  "ss_Send write cc rid v = (case Marshal cc v of
     Inl e \<Rightarrow> ([], Some e)
   | Inr body \<Rightarrow> let resp = ss_data rid body in ([resp], write resp))"

text \<open>The goroutine of a streaming call: the handler under \<open>safeCall\<close>, then the terminal frame.\<close>

primrec stream_run :: "(Message \<Rightarrow> string option) \<Rightarrow> 'v codec \<Rightarrow> 64 word \<Rightarrow> 'v handler \<Rightarrow> Message list" where
  "stream_run write cc rid (HSend v k) =
     fst (ss_Send write cc rid v) @ stream_run write cc rid (k (snd (ss_Send write cc rid v)))"
| "stream_run write cc rid (HReturn err) = [case err of Some e \<Rightarrow> ss_sendError rid e | None \<Rightarrow> ss_end rid]"
| "stream_run write cc rid (HPanic r) = [ss_sendError rid (''handler panic: '' @ r)]"

section \<open>Requests\<close>

definition safeCall :: "'v call_result \<Rightarrow> string + 'v option" where
  "safeCall r = (case r of Gives v \<Rightarrow> Inr v | Fails e \<Rightarrow> Inl e | Panics p \<Rightarrow> Inl (''handler panic: '' @ p))"

definition read_request :: "'v codec \<Rightarrow> bytes \<Rightarrow> 'v \<Rightarrow> string + 'v" where
  "read_request cc body zero = (if body \<noteq> [] then Unmarshal cc body else Inr zero)"

datatype 'v reply = Result "string + 'v option" | Streaming "Message list"

definition unsupported :: "string \<Rightarrow> string \<Rightarrow> string" where
  "unsupported svc m = ''unsupported method signature: '' @ svc @ ''.'' @ m"

definition invoke ::
  "(Message \<Rightarrow> string option) \<Rightarrow> 64 word \<Rightarrow> 'v service option \<Rightarrow> string \<Rightarrow> string \<Rightarrow> bytes \<Rightarrow> 'v codec \<Rightarrow> 'v reply" where
  "invoke write rid service svc m body cc = (case service of
     None \<Rightarrow> Result (Inl (''service not found: '' @ svc))
   | Some methods \<Rightarrow> (case gm_get methods m of
       None \<Rightarrow> Result (Inl (''method not found: '' @ svc @ ''.'' @ m))
     | Some (CtxMethod zero f) \<Rightarrow> Result (sbind (read_request cc body zero) (\<lambda>req. safeCall (f req)))
     | Some (ReplyMethod zero f) \<Rightarrow> Result (sbind (read_request cc body zero) (\<lambda>req. safeCall (f req)))
     | Some (StreamMethod zero f) \<Rightarrow> (case read_request cc body zero of
         Inl e \<Rightarrow> Result (Inl e)
       | Inr req \<Rightarrow> Streaming (stream_run write cc rid (f req)))
     | Some (OddMethod zero) \<Rightarrow> Result (sbind (read_request cc body zero) (\<lambda>_. Inl (unsupported svc m)))
     | Some OtherMethod \<Rightarrow> Result (Inl (unsupported svc m))))"

definition writeError :: "64 word \<Rightarrow> string \<Rightarrow> Message" where
  "writeError rid e = message (empty_header\<lparr>RequestID := rid, ErrorText := e, Compression := CompressionGzip\<rparr>) []"

text \<open>The messages written in answer to a request with header \<open>h\<close>.\<close>

definition Process ::
  "(Message \<Rightarrow> string option) \<Rightarrow> 'v env \<Rightarrow> 'v codec \<Rightarrow> 'v service option \<Rightarrow> Header \<Rightarrow> bytes \<Rightarrow> Message list" where
  "Process write E h_codec service h body =
     (case (if CodecType h \<noteq> 0 then codec_New (CodecType h) E else Inr h_codec) of
        Inl e \<Rightarrow> [writeError (RequestID h) e]
      | Inr reqCodec \<Rightarrow>
        (case invoke write (RequestID h) service (ServiceName h) (MethodName h) body reqCodec of
           Streaming ms \<Rightarrow> ms
         | Result (Inl e) \<Rightarrow> [writeError (RequestID h) e]
         | Result (Inr result) \<Rightarrow>
           (case (case result of None \<Rightarrow> Inr [] | Some v \<Rightarrow> Marshal reqCodec v) of
              Inl e \<Rightarrow> [writeError (RequestID h) e]
            | Inr body \<Rightarrow> [message (empty_header\<lparr>RequestID := RequestID h, Compression := CompressionGzip\<rparr>) body])))"

section \<open>The request loop\<close>

record 'v Server =
  services :: "(string, 'v service) gomap"
  srv_limiter :: TokenBucket
  srv_codec :: "'v codec"

definition Register :: "string \<Rightarrow> 'v service \<Rightarrow> 'v Server \<Rightarrow> 'v Server" where
  "Register name service s = s\<lparr>services := gm_set name service (services s)\<rparr>"

text \<open>
  The body of the loop of \<open>Handle\<close> for one message, and the loop over the messages read before the
  connection fails.
\<close>

definition Handle_one :: "(Message \<Rightarrow> string option) \<Rightarrow> 'v env \<Rightarrow> Header \<times> bytes \<Rightarrow> 'v Server \<Rightarrow> 'v Server \<times> Message list" where
  "Handle_one write E hb s = (case hb of (h, body) \<Rightarrow>
     (case tb_Allow (srv_limiter s) of
        (tb, False) \<Rightarrow> (s\<lparr>srv_limiter := tb\<rparr>, [writeError (RequestID h) ''rate limit exceeded''])
      | (tb, True) \<Rightarrow> (s\<lparr>srv_limiter := tb\<rparr>,
          Process write E (srv_codec s) (gm_get (services s) (ServiceName h)) h body)))"

fun Handle :: "(Message \<Rightarrow> string option) \<Rightarrow> 'v env \<Rightarrow> (Header \<times> bytes) list \<Rightarrow> 'v Server \<Rightarrow> 'v Server \<times> Message list" where
  "Handle write E [] s = (s, [])"
| "Handle write E (m # ms) s =
     (case Handle_one write E m s of (s, out) \<Rightarrow> case Handle write E ms s of (s, out') \<Rightarrow> (s, out @ out'))"

section \<open>Lemmas\<close>

lemmas frame_defs = ss_data_def ss_end_def ss_sendError_def writeError_def message_def empty_header_def

definition answers :: "64 word \<Rightarrow> Message \<Rightarrow> bool" where
  "answers rid m \<longleftrightarrow> (\<exists>h. msg_Header m = Some h \<and> RequestID h = rid)"

text \<open>The messages that end a call on the client: a unary response or a terminal stream frame.\<close>

definition final :: "Message \<Rightarrow> bool" where
  "final m \<longleftrightarrow> (\<exists>h. msg_Header m = Some h \<and> StreamFlag h \<noteq> StreamData)"

lemma frame_final [simp]:
  "answers rid (ss_data rid b)" "answers rid (ss_end rid)" "answers rid (ss_sendError rid e)" "answers rid (writeError rid e)"
  "\<not> final (ss_data rid b)" "final (ss_end rid)" "final (ss_sendError rid e)" "final (writeError rid e)"
  by (simp_all add: frame_defs answers_def final_def StreamData_def StreamEnd_def StreamError_def StreamNone_def)

lemma stream_run_shape:
  "\<exists>ds m. stream_run write cc rid prog = ds @ [m] \<and> list_all (\<lambda>d. answers rid d \<and> \<not> final d) ds \<and> answers rid m \<and> final m"
proof (induction prog)
  case (HSend v k)
  obtain ds m where IH: "stream_run write cc rid (k (snd (ss_Send write cc rid v))) = ds @ [m]"
    "list_all (\<lambda>d. answers rid d \<and> \<not> final d) ds" "answers rid m" "final m"
    using HSend [OF rangeI, of "snd (ss_Send write cc rid v)"] by blast
  have "list_all (\<lambda>d. answers rid d \<and> \<not> final d) (fst (ss_Send write cc rid v))"
    by (simp add: ss_Send_def Let_def split: sum.split)
  then show ?case using IH by (intro exI [of _ "fst (ss_Send write cc rid v) @ ds"] exI [of _ m]) simp
qed (auto split: option.split)

lemma invoke_stream: "invoke write rid service svc m body cc = Streaming ms \<Longrightarrow> \<exists>prog. ms = stream_run write cc rid prog"
  by (auto simp: invoke_def split: option.splits meth.splits sum.splits)

lemma result_final: "answers rid (message (empty_header\<lparr>RequestID := rid, Compression := c\<rparr>) b)"
  "final (message (empty_header\<lparr>RequestID := rid, Compression := c\<rparr>) b)"
  by (simp_all add: answers_def final_def message_def empty_header_def StreamData_def StreamNone_def)

lemma Process_shape:
  "\<exists>ds m. Process write E cc service h body = ds @ [m] \<and> list_all (\<lambda>d. answers (RequestID h) d \<and> \<not> final d) ds \<and>
    answers (RequestID h) m \<and> final m"
proof (cases "if CodecType h \<noteq> 0 then codec_New (CodecType h) E else Inr cc")
  case (Inl e)
  then show ?thesis by (intro exI [of _ "[]"]) (simp add: Process_def)
next
  case (Inr cc')
  show ?thesis
  proof (cases "invoke write (RequestID h) service (ServiceName h) (MethodName h) body cc'")
    case (Streaming ms)
    then show ?thesis using Inr invoke_stream [OF Streaming] stream_run_shape unfolding Process_def by fastforce
  next
    case (Result r)
    then show ?thesis using Inr
      by (intro exI [of _ "[]"]) (auto simp: Process_def result_final split: sum.split option.split)
  qed
qed

section \<open>Properties\<close>

definition rid_of :: "Message \<Rightarrow> 64 word" where
  "rid_of m = (case msg_Header m of Some h \<Rightarrow> RequestID h | None \<Rightarrow> 0)"

lemma answers_rid: "answers rid m \<Longrightarrow> rid_of m = rid"
  by (auto simp: answers_def rid_of_def)

lemma Handle_one_shape:
  "\<exists>ds m. snd (Handle_one write E (h, body) s) = ds @ [m] \<and> list_all (\<lambda>d. answers (RequestID h) d \<and> \<not> final d) ds \<and>
    answers (RequestID h) m \<and> final m"
proof -
  obtain tb ok where a: "tb_Allow (srv_limiter s) = (tb, ok)" by (meson surj_pair)
  show ?thesis
  proof (cases ok)
    case True
    then show ?thesis using a Process_shape [of "write" E "srv_codec s" _ h body] by (simp add: Handle_one_def)
  next
    case False
    then show ?thesis using a by (intro exI [of _ "[]"]) (simp add: Handle_one_def)
  qed
qed


end
