(* ===== verification/Rpc_Client.thy ===== *)
theory Rpc_Client
  imports Rpc_Server
begin

text \<open>
  The RPC client: \<open>src/swifty_rpc/internal/client\<close> (\<open>client.go\<close>, \<open>resolver.go\<close>, \<open>invoke.go\<close>) and
  the static connection of \<open>pkg/rpc/client.go\<close>.

  A call passes the rate limiter, address resolution through the load balancer, the circuit breaker
  of its service and address, the connection pool and the codec before it is sent. What the outside
  contributes to one call (the registry's answer, the clock, the context, the state of the
  connections, the results of dialling and sending) is the record \<open>world\<close>.
\<close>

section \<open>State\<close>

record ('v, 's) Client =
  has_reg :: bool
  lb :: 's
  cl_limiter :: TokenBucket
  cl_codec :: "'v codec"
  cl_codecType :: byte
  breakers :: "(string, CircuitBreaker) gomap"
  pools :: "(string, ConnectionPool) gomap"

record world =
  discover :: "string \<Rightarrow> string + Instance list"
  wnow :: int
  ctx_err :: "string option"
  conn_closed :: "nat \<Rightarrow> bool"
  dial :: "string \<Rightarrow> string + nat"
  send_msg :: "nat \<Rightarrow> Message \<Rightarrow> string + nat"

definition NewClient :: "bool \<Rightarrow> 's \<Rightarrow> 'v env \<Rightarrow> string + ('v, 's) Client" where
  "NewClient reg b E = sbind (codec_New CodecTypeJSON E) (\<lambda>cc.
     Inr \<lparr>has_reg = reg, lb = b, cl_limiter = NewTokenBucket 10000, cl_codec = cc, cl_codecType = CodecTypeJSON,
          breakers = [], pools = []\<rparr>)"

section \<open>Resolution\<close>

definition getPool :: "string \<Rightarrow> ('v, 's) Client \<Rightarrow> (('v, 's) Client \<times> ConnectionPool) option" where
  "getPool addr c = (case gm_get (pools c) addr of
     Some pool \<Rightarrow> Some (c, pool)
   | None \<Rightarrow> map_option (\<lambda>pool. (c\<lparr>pools := gm_set addr pool (pools c)\<rparr>, pool)) (NewConnectionPool 1))"

definition getAddr ::
  "(Instance list \<Rightarrow> 's \<Rightarrow> 's \<times> Instance) \<Rightarrow> world \<Rightarrow> string \<Rightarrow> ('v, 's) Client \<Rightarrow> ('v, 's) Client \<times> (string + string)" where
  "getAddr select w service c =
     (if \<not> has_reg c then (c, Inl ''registry not configured'')
      else case discover w service of
        Inl e \<Rightarrow> (c, Inl e)
      | Inr instances \<Rightarrow>
          if instances = [] then (c, Inl ''no instance available'')
          else case select instances (lb c) of (s, ins) \<Rightarrow>
            (c\<lparr>lb := s\<rparr>, if Addr ins = [] then Inl ''load balancer returned empty address'' else Inr (Addr ins)))"

definition breaker_key :: "string \<Rightarrow> string \<Rightarrow> string" where
  "breaker_key service addr = service @ ''|'' @ addr"

text \<open>60 percent failures of 10 results open a breaker for 5 seconds.\<close>

definition new_breaker :: "int \<Rightarrow> CircuitBreaker" where
  "new_breaker now = NewCircuitBreaker 10 (f64_div 6 10) 5000000000 now"

definition getBreaker :: "string \<Rightarrow> string \<Rightarrow> int \<Rightarrow> ('v, 's) Client \<Rightarrow> ('v, 's) Client \<times> CircuitBreaker" where
  "getBreaker service addr now c =
     (let key = breaker_key service addr in
      case gm_get (breakers c) key of
        Some cb \<Rightarrow> (c, cb)
      | None \<Rightarrow> let cb = new_breaker now in (c\<lparr>breakers := gm_set key cb (breakers c)\<rparr>, cb))"

section \<open>Calls\<close>

definition put_breaker :: "string \<Rightarrow> CircuitBreaker \<Rightarrow> ('v, 's) Client \<Rightarrow> ('v, 's) Client" where
  "put_breaker key cb c = c\<lparr>breakers := gm_set key cb (breakers c)\<rparr>"

text \<open>A recorded result on the breaker the call holds a pointer to.\<close>

definition record_on :: "string \<Rightarrow> (CircuitBreaker \<Rightarrow> CircuitBreaker) \<Rightarrow> ('v, 's) Client \<Rightarrow> ('v, 's) Client" where
  "record_on key f c = (case gm_get (breakers c) key of Some cb \<Rightarrow> put_breaker key (f cb) c | None \<Rightarrow> c)"

definition request :: "string \<Rightarrow> string \<Rightarrow> byte \<Rightarrow> bytes \<Rightarrow> Message" where
  "request service m ct body = message (empty_header\<lparr>ServiceName := service, MethodName := m, CodecType := ct,
     Compression := CompressionGzip\<rparr>) body"

text \<open>
  The common path of \<open>invokeAsync\<close> and \<open>InvokeStream\<close>: the answer is an error, or the future (stream)
  and the key of the breaker that will record its outcome.
\<close>

definition begin_call ::
  "(Instance list \<Rightarrow> 's \<Rightarrow> 's \<times> Instance) \<Rightarrow> world \<Rightarrow> string \<Rightarrow> string \<Rightarrow> 'v \<Rightarrow> ('v, 's) Client
     \<Rightarrow> (('v, 's) Client \<times> (string + nat \<times> string)) option" where
  "begin_call select w service m args c =
     (case tb_Allow (cl_limiter c) of
        (tb, False) \<Rightarrow> Some (c\<lparr>cl_limiter := tb\<rparr>, Inl ''rate limit exceeded'')
      | (tb, True) \<Rightarrow>
        (case getAddr select w service (c\<lparr>cl_limiter := tb\<rparr>) of
           (c, Inl e) \<Rightarrow> Some (c, Inl e)
         | (c, Inr addr) \<Rightarrow>
           (case getBreaker service addr (wnow w) c of (c, br) \<Rightarrow>
            let key = breaker_key service addr in
            (case cb_Allow (wnow w) br of
               (br, False) \<Rightarrow> Some (put_breaker key br c, Inl ''circuit breaker open'')
             | (br, True) \<Rightarrow> do {
                 (c, pool) \<leftarrow> getPool addr (put_breaker key br c);
                 (pool, r) \<leftarrow> Acquire (ctx_err w) (conn_closed w) (dial w addr) pool;
                 let c = c\<lparr>pools := gm_set addr pool (pools c)\<rparr>;
                 (case r of
                    Inl e \<Rightarrow> Some (record_on key (RecordFailure (wnow w)) c, Inl e)
                  | Inr conn \<Rightarrow>
                    (case Marshal (cl_codec c) args of
                       Inl e \<Rightarrow> Some (c, Inl e)
                     | Inr body \<Rightarrow>
                       (case send_msg w conn (request service m (cl_codecType c) body) of
                          Inl e \<Rightarrow> Some (record_on key (RecordFailure (wnow w)) c, Inl e)
                        | Inr fut \<Rightarrow> Some (c, Inr (fut, key))))) }))))"

definition invokeAsync where
  "invokeAsync select w service m args c = begin_call select w service m args c"

definition InvokeStream where
  "InvokeStream select w service m args c = begin_call select w service m args c"

text \<open>The callback that \<open>invokeAsync\<close> registers on the future.\<close>

definition on_complete :: "string \<Rightarrow> int \<Rightarrow> string option \<Rightarrow> ('v, 's) Client \<Rightarrow> ('v, 's) Client" where
  "on_complete key now err c = record_on key (case err of Some _ \<Rightarrow> RecordFailure now | None \<Rightarrow> RecordSuccess now) c"

text \<open>
  The waiting half of \<open>Invoke\<close> on the future in its state \<open>f\<close> when the \<open>select\<close> fires: the future
  (resolved when the context has ended), the callbacks that run, and the result.
\<close>

definition Invoke_wait :: "bool \<Rightarrow> string option \<Rightarrow> 'v codec \<Rightarrow> Future \<Rightarrow> (Future \<times> (nat \<times> string option) list \<times> (string + 'v)) option" where
  "Invoke_wait prefer_ctx ctx cc f = (case GetResultWithContext prefer_ctx ctx cc f of
     None \<Rightarrow> None
   | Some (Inr v) \<Rightarrow> Some (f, [], Inr v)
   | Some (Inl e) \<Rightarrow> (case ctx of
       Some ce \<Rightarrow> (case Done [] (Some ce) f of (f, cbs) \<Rightarrow> Some (f, cbs, Inl e))
     | None \<Rightarrow> Some (f, [], Inl e)))"

text \<open>The timer goroutine of \<open>InvokeAsync\<close> when it fires.\<close>

definition InvokeAsync_timeout :: "Future \<Rightarrow> Future \<times> (nat \<times> string option) list" where
  "InvokeAsync_timeout f = (if fut_done f then (f, []) else Done [] (Some ''context deadline exceeded'') f)"

definition canceled :: string where "canceled = ''context canceled''"

text \<open>An observed stream: the breaker key and whether its outcome was recorded.\<close>

definition obs_Recv :: "string \<Rightarrow> int \<Rightarrow> string + 'v \<Rightarrow> bool \<times> ('w, 's) Client \<Rightarrow> bool \<times> ('w, 's) Client" where
  "obs_Recv key now r oc = (case oc of (once, c) \<Rightarrow> (case r of
     Inr _ \<Rightarrow> (once, c)
   | Inl e \<Rightarrow>
       if e = EOF then (True, if once then c else record_on key (RecordSuccess now) c)
       else if e = canceled then (once, c)
       else (True, if once then c else record_on key (RecordFailure now) c)))"

text \<open>\<open>Close\<close> stops the limiter and closes every pool; the answer lists the connections closed.\<close>

definition Client_Close :: "('v, 's) Client \<Rightarrow> ('v, 's) Client \<times> nat list" where
  "Client_Close c =
     (c\<lparr>cl_limiter := tb_Stop (cl_limiter c), pools := map (\<lambda>(a, p). (a, fst (pool_Close p))) (pools c)\<rparr>,
      concat (map (\<lambda>(a, p). snd (pool_Close p)) (pools c)))"

section \<open>Static connections\<close>

definition sendAsyncStatic ::
  "world \<Rightarrow> string \<Rightarrow> 'v codec \<Rightarrow> byte \<Rightarrow> string \<Rightarrow> string \<Rightarrow> 'v \<Rightarrow> ConnectionPool \<Rightarrow> (ConnectionPool \<times> (string + nat)) option" where
  "sendAsyncStatic w target cc ct service m args pool = do {
     (pool, r) \<leftarrow> Acquire (ctx_err w) (conn_closed w) (dial w target) pool;
     Some (pool, sbind r (\<lambda>conn. sbind (Marshal cc args) (\<lambda>body. send_msg w conn (request service m ct body)))) }"

section \<open>Lemmas\<close>

context balancer
begin

text \<open>With any balancer that keeps its contract, the address of a call is one the registry returned.\<close>

lemma getAddr_discovered:
  assumes "getAddr select w service c = (c', Inr addr)" "\<And>list. discover w service = Inr list \<Longrightarrow> accepts list (lb c)"
  obtains list ins where "has_reg c" "discover w service = Inr list" "ins \<in> set list" "addr = Addr ins" "addr \<noteq> []"
    "c' = c\<lparr>lb := fst (select list (lb c))\<rparr>"
proof -
  obtain list where l: "has_reg c" "discover w service = Inr list" "list \<noteq> []"
    using assms(1) by (auto simp: getAddr_def split: if_splits sum.splits)
  let ?ins = "snd (select list (lb c))"
  have "Addr ?ins \<noteq> []" "addr = Addr ?ins" "c' = c\<lparr>lb := fst (select list (lb c))\<rparr>"
    using assms(1) l by (auto simp: getAddr_def case_prod_unfold split: if_splits)
  then show thesis using that l select_member [OF l(3) assms(2) [OF l(2)]] by blast
qed

end

lemma put_breaker_simps [simp]:
  "cl_codec (put_breaker k x c) = cl_codec c" "breakers (put_breaker k x c) = gm_set k x (breakers c)"
  by (simp_all add: put_breaker_def)

lemma Acquire_total: "\<exists>p' r. Acquire ctx is_closed d p = Some (p', r)"
  using acquire_loop_spec [OF refl, where p = p and is_closed = is_closed]
  by (auto simp: Acquire_def dial_append_def split: option.split sum.split)

lemma getPool_total: "\<exists>c' p. getPool addr c = Some (c', p)"
  by (auto simp: getPool_def NewConnectionPool_def split: option.split)

lemma getPool_keeps:
  "getPool addr c = Some (c', p) \<Longrightarrow> breakers c' = breakers c \<and> cl_codec c' = cl_codec c \<and> cl_codecType c' = cl_codecType c"
  by (auto simp: getPool_def split: option.splits)

lemma getBreaker_keeps:
  "getBreaker service addr now c = (c', cb) \<Longrightarrow> pools c' = pools c \<and> cl_codec c' = cl_codec c \<and> cl_codecType c' = cl_codecType c \<and>
    gm_get (breakers c') (breaker_key service addr) = Some cb"
  by (auto simp: getBreaker_def Let_def split: option.splits)

lemma getAddr_keeps:
  "getAddr select w service c = (c', r) \<Longrightarrow> breakers c' = breakers c \<and> pools c' = pools c \<and> cl_codec c' = cl_codec c \<and> cl_codecType c' = cl_codecType c"
  by (auto simp: getAddr_def split: if_splits sum.splits prod.splits)

lemma begin_call_total: "\<exists>r. begin_call select w service m args c = Some r"
proof (cases "snd (tb_Allow (cl_limiter c))")
  case True
  obtain c1 r1 where a: "getAddr select w service (c\<lparr>cl_limiter := fst (tb_Allow (cl_limiter c))\<rparr>) = (c1, r1)" by (meson surj_pair)
  show ?thesis
  proof (cases r1)
    case (Inl e)
    then show ?thesis using True a by (simp add: begin_call_def case_prod_unfold)
  next
    case (Inr addr)
    obtain c2 br where b: "getBreaker service addr (wnow w) c1 = (c2, br)" by (meson surj_pair)
    obtain br' ok where cb: "cb_Allow (wnow w) br = (br', ok)" by (meson surj_pair)
    obtain c3 p where p: "getPool addr (put_breaker (breaker_key service addr) br' c2) = Some (c3, p)" using getPool_total by blast
    obtain p' r where q: "Acquire (ctx_err w) (conn_closed w) (dial w addr) p = Some (p', r)" using Acquire_total by blast
    show ?thesis using True a Inr b cb p q
      by (cases ok) (auto simp: begin_call_def case_prod_unfold Let_def split: sum.split)
  qed
qed (simp add: begin_call_def case_prod_unfold)

text \<open>What a call that reached the wire went through.\<close>

lemma begin_call_sent:
  assumes "begin_call select w service m args c = Some (c', Inr (fut, key))"
  obtains c1 addr c2 br c3 pool p' conn body where
    "0 < tokens (cl_limiter c)" "getAddr select w service (c\<lparr>cl_limiter := fst (tb_Allow (cl_limiter c))\<rparr>) = (c1, Inr addr)"
    "getBreaker service addr (wnow w) c1 = (c2, br)" "snd (cb_Allow (wnow w) br)" "key = breaker_key service addr"
    "getPool addr (put_breaker key (fst (cb_Allow (wnow w) br)) c2) = Some (c3, pool)"
    "Acquire (ctx_err w) (conn_closed w) (dial w addr) pool = Some (p', Inr conn)"
    "Marshal (cl_codec c3) args = Inr body" "send_msg w conn (request service m (cl_codecType c3) body) = Inr fut"
    "c' = c3\<lparr>pools := gm_set addr p' (pools c3)\<rparr>"
proof -
  have tk: "snd (tb_Allow (cl_limiter c))" using assms by (auto simp: begin_call_def case_prod_unfold split: bool.splits)
  then have t: "0 < tokens (cl_limiter c)" by (auto simp: tb_Allow_def split: if_splits)
  obtain c1 r1 where a: "getAddr select w service (c\<lparr>cl_limiter := fst (tb_Allow (cl_limiter c))\<rparr>) = (c1, r1)" by (meson surj_pair)
  obtain addr where r1: "r1 = Inr addr" using assms tk a by (cases r1) (auto simp: begin_call_def case_prod_unfold)
  obtain c2 br where b: "getBreaker service addr (wnow w) c1 = (c2, br)" by (meson surj_pair)
  obtain br' ok where cb: "cb_Allow (wnow w) br = (br', ok)" by (meson surj_pair)
  have ok: "ok" using assms tk a r1 b cb by (cases ok) (auto simp: begin_call_def case_prod_unfold Let_def)
  obtain c3 p where p: "getPool addr (put_breaker (breaker_key service addr) br' c2) = Some (c3, p)" using getPool_total by blast
  obtain p' r where q: "Acquire (ctx_err w) (conn_closed w) (dial w addr) p = Some (p', r)" using Acquire_total by blast
  have e: "(case r of Inl e \<Rightarrow> Some (record_on (breaker_key service addr) (RecordFailure (wnow w)) (c3\<lparr>pools := gm_set addr p' (pools c3)\<rparr>), Inl e)
      | Inr conn \<Rightarrow> (case Marshal (cl_codec c3) args of Inl e \<Rightarrow> Some (c3\<lparr>pools := gm_set addr p' (pools c3)\<rparr>, Inl e)
        | Inr body \<Rightarrow> (case send_msg w conn (request service m (cl_codecType c3) body) of
             Inl e \<Rightarrow> Some (record_on (breaker_key service addr) (RecordFailure (wnow w)) (c3\<lparr>pools := gm_set addr p' (pools c3)\<rparr>), Inl e)
           | Inr fut \<Rightarrow> Some (c3\<lparr>pools := gm_set addr p' (pools c3)\<rparr>, Inr (fut, breaker_key service addr))))) = Some (c', Inr (fut, key))"
    using assms tk a r1 b cb ok p q by (simp add: begin_call_def case_prod_unfold Let_def cong: sum.case_cong)
  obtain conn where conn: "r = Inr conn" using e by (cases r) auto
  obtain body where body: "Marshal (cl_codec c3) args = Inr body" using e conn by (cases "Marshal (cl_codec c3) args") auto
  obtain f where f: "send_msg w conn (request service m (cl_codecType c3) body) = Inr f"
    using e conn body by (cases "send_msg w conn (request service m (cl_codecType c3) body)") auto
  have k: "key = breaker_key service addr" "c' = c3\<lparr>pools := gm_set addr p' (pools c3)\<rparr>" "f = fut" using e conn body f by auto
  show thesis by (rule that [OF t a [unfolded r1] b _ k(1) _ _ body]) (use cb ok p q conn f k in auto)
qed

lemma Acquire_conn:
  assumes "Acquire ctx is_closed d p = Some (p', Inr conn)"
  shows "ctx = None \<and> \<not> pool_closed p \<and> (d = Inr conn \<or> \<not> is_closed conn)"
proof -
  have a: "ctx = None" "\<not> pool_closed p" using assms by (auto simp: Acquire_def split: option.splits if_splits)
  obtain found q where l: "acquire_loop is_closed 0 (length (conns p)) p = Some (found, q)"
    "case found of Some c \<Rightarrow> c \<in> set (conns q) \<and> \<not> is_closed c | None \<Rightarrow> conns q = []"
    using acquire_loop_spec [OF refl, where p = p and is_closed = is_closed] by blast
  show ?thesis using assms a l
    by (auto simp: Acquire_def dial_append_def split: if_splits sum.splits option.splits)
qed

section \<open>Properties\<close>

text \<open>
  Admission of calls (round-robin client): a call never crashes, and a call that reaches the wire
  had a token of the rate limiter, an address that the registry returned for its service, a breaker of
  that service and address that let it through, and an open or newly dialled connection; what is sent
  is the encoded argument under the names of service and method and the client's codec.
\<close>

theorem call_admission:
  assumes "invokeAsync rr_Select w service m args c = Some (c', Inr (fut, key))"
  shows "\<exists>list ins br conn body. 0 < tokens (cl_limiter c) \<and> discover w service = Inr list \<and> ins \<in> set list \<and>
    key = breaker_key service (Addr ins) \<and>
    br = (case gm_get (breakers c) key of Some br \<Rightarrow> br | None \<Rightarrow> new_breaker (wnow w)) \<and> snd (cb_Allow (wnow w) br) \<and>
    gm_get (breakers c') key = Some (fst (cb_Allow (wnow w) br)) \<and>
    (dial w (Addr ins) = Inr conn \<or> \<not> conn_closed w conn) \<and>
    Marshal (cl_codec c) args = Inr body \<and> send_msg w conn (request service m (cl_codecType c) body) = Inr fut"
proof (rule begin_call_sent [OF assms [unfolded invokeAsync_def]])
  fix c1 addr c2 br c3 pool p' conn body
  assume t: "0 < tokens (cl_limiter c)"
    and a: "getAddr rr_Select w service (c\<lparr>cl_limiter := fst (tb_Allow (cl_limiter c))\<rparr>) = (c1, Inr addr)"
    and b: "getBreaker service addr (wnow w) c1 = (c2, br)" "snd (cb_Allow (wnow w) br)" "key = breaker_key service addr"
    and p: "getPool addr (put_breaker key (fst (cb_Allow (wnow w) br)) c2) = Some (c3, pool)"
    and q: "Acquire (ctx_err w) (conn_closed w) (dial w addr) pool = Some (p', Inr conn)"
    and m: "Marshal (cl_codec c3) args = Inr body" "send_msg w conn (request service m (cl_codecType c3) body) = Inr fut"
    and c': "c' = c3\<lparr>pools := gm_set addr p' (pools c3)\<rparr>"
  obtain list ins where l: "discover w service = Inr list" "ins \<in> set list" "addr = Addr ins"
    by (rule rr.getAddr_discovered [OF a]) auto
  have k1: "breakers c1 = breakers c" "cl_codec c1 = cl_codec c" "cl_codecType c1 = cl_codecType c" using getAddr_keeps [OF a] by simp_all
  have br: "br = (case gm_get (breakers c) key of Some br \<Rightarrow> br | None \<Rightarrow> new_breaker (wnow w))"
    using b(1,3) k1(1) by (auto simp: getBreaker_def Let_def split: option.splits)
  have k2: "cl_codec c2 = cl_codec c" "cl_codecType c2 = cl_codecType c" using getBreaker_keeps [OF b(1)] k1 by simp_all
  have k3: "breakers c3 = gm_set key (fst (cb_Allow (wnow w) br)) (breakers c2)" "cl_codec c3 = cl_codec c" "cl_codecType c3 = cl_codecType c"
    using getPool_keeps [OF p] k2 by (simp_all add: put_breaker_def)
  show ?thesis using t l b(2,3) br k3 Acquire_conn [OF q] m c'
    by (intro exI [of _ list] exI [of _ ins] exI [of _ br] exI [of _ conn] exI [of _ body]) auto
qed

definition demo_codec :: "nat codec" where
  "demo_codec = \<lparr>MarshalHeader = MarshalHeader (id_codec :: unit codec), UnmarshalHeader = UnmarshalHeader (id_codec :: unit codec),
     Marshal = \<lambda>v. if v < 256 then Inr [word_of_nat v] else Inl ''too large'',
     Unmarshal = \<lambda>bs. case bs of [b] \<Rightarrow> Inr (unat b) | _ \<Rightarrow> Inl ''bad value''\<rparr>"

definition demo_client :: "(nat, 64 word) Client" where
  "demo_client = \<lparr>has_reg = True, lb = 0, cl_limiter = NewTokenBucket 1, cl_codec = demo_codec, cl_codecType = CodecTypeJSON, breakers = [], pools = []\<rparr>"

definition demo_world :: world where
  "demo_world = \<lparr>discover = \<lambda>_. Inr [\<lparr>Addr = ''h''\<rparr>], wnow = 9000000000, ctx_err = None, conn_closed = \<lambda>_. False, dial = \<lambda>_. Inr 4, send_msg = \<lambda>_ _. Inr 11\<rparr>"

lemma demo_call:
  "\<exists>c'. invokeAsync rr_Select demo_world ''svc'' ''m'' 5 demo_client = Some (c', Inr (11, ''svc|h''))"
  by (simp add: invokeAsync_def begin_call_def demo_client_def demo_world_def NewTokenBucket_def tb_Allow_def getAddr_def rr_Select_def Let_def
      getBreaker_def new_breaker_def cb_Allow_def NewCircuitBreaker_def getPool_def put_breaker_def NewConnectionPool_def Acquire_def dial_append_def
      demo_codec_def breaker_key_def)

theorem call_admission_witness: "\<exists>body. Marshal demo_codec 5 = Inr body"
proof -
  obtain c' where "invokeAsync rr_Select demo_world ''svc'' ''m'' 5 demo_client = Some (c', Inr (11, ''svc|h''))" using demo_call by blast
  from call_admission [OF this] show ?thesis by (auto simp: demo_client_def)
qed

text \<open>
  An argument that cannot be encoded wedges a breaker: when the call that probes a breaker after
  its timeout fails in \<open>Marshal\<close>, nothing is recorded, the breaker stays half open with its probe out,
  and from then on it rejects every call at every later time.
\<close>

theorem marshal_failure_wedges_breaker:
  assumes "0 < tokens (cl_limiter c)"
    and "getAddr select w service (c\<lparr>cl_limiter := fst (tb_Allow (cl_limiter c))\<rparr>) = (c1, Inr addr)"
    and "gm_get (breakers c) (breaker_key service addr) = Some br" and "state br = Open" and "openTimeout br < wnow w - lastStateChange br"
    and "gm_get (pools c) addr = None" and "ctx_err w = None" and "dial w addr = Inr conn"
    and "Marshal (cl_codec c) args = Inl e"
  shows "\<exists>c' br'. invokeAsync select w service m args c = Some (c', Inl e) \<and>
    gm_get (breakers c') (breaker_key service addr) = Some br' \<and> (\<forall>t. cb_Allow t br' = (br', False))"
proof -
  let ?key = "breaker_key service addr" and ?br' = "br\<lparr>state := HalfOpen, halfOpenProbe := True\<rparr>"
  have tb: "tb_Allow (cl_limiter c) = (fst (tb_Allow (cl_limiter c)), True)" using assms(1) by (simp add: tb_Allow_def)
  note k = getAddr_keeps [OF assms(2)]
  have b: "getBreaker service addr (wnow w) c1 = (c1, br)" using assms(3) k by (simp add: getBreaker_def Let_def)
  have cb: "cb_Allow (wnow w) br = (?br', True)" using assms(4,5) by (simp add: cb_Allow_def)
  have p: "getPool addr (put_breaker ?key ?br' c1) = Some ((put_breaker ?key ?br' c1)\<lparr>pools :=
      gm_set addr \<lparr>maxActive = 1, conns = [], pool_closed = False, pool_next = 0\<rparr> (pools c1)\<rparr>,
      \<lparr>maxActive = 1, conns = [], pool_closed = False, pool_next = 0\<rparr>)"
    using assms(6) k by (simp add: getPool_def NewConnectionPool_def put_breaker_def)
  have q: "Acquire (ctx_err w) (conn_closed w) (dial w addr) \<lparr>maxActive = 1, conns = [], pool_closed = False, pool_next = 0\<rparr> =
      Some (\<lparr>maxActive = 1, conns = [conn], pool_closed = False, pool_next = 0\<rparr>, Inr conn)"
    using assms(7,8) by (simp add: Acquire_def dial_append_def)
  have "\<exists>c'. invokeAsync select w service m args c = Some (c', Inl e) \<and> gm_get (breakers c') ?key = Some ?br'"
    unfolding invokeAsync_def begin_call_def using assms(2,9) k
    by (subst tb) (simp add: b cb p q Let_def)
  moreover have "\<forall>t. cb_Allow t ?br' = (?br', False)" by (simp add: cb_Allow_def)
  ultimately show ?thesis by blast
qed

theorem marshal_failure_wedges_breaker_witness:
  "\<exists>c' br'. invokeAsync rr_Select demo_world ''svc'' ''m'' 300
      (demo_client\<lparr>breakers := [(''svc|h'', (new_breaker 0)\<lparr>state := Open\<rparr>)]\<rparr>) = Some (c', Inl ''too large'') \<and>
    gm_get (breakers c') ''svc|h'' = Some br' \<and> cb_Allow 999999999999 br' = (br', False)"
proof -
  let ?c = "demo_client\<lparr>breakers := [(''svc|h'', (new_breaker 0)\<lparr>state := Open\<rparr>)]\<rparr>"
  have a: "getAddr rr_Select demo_world ''svc'' (?c\<lparr>cl_limiter := fst (tb_Allow (cl_limiter ?c))\<rparr>) =
      (?c\<lparr>cl_limiter := fst (tb_Allow (cl_limiter ?c)), lb := 1\<rparr>, Inr ''h'')"
    by (simp add: getAddr_def demo_client_def demo_world_def rr_Select_def Let_def)
  have "\<exists>c' br'. invokeAsync rr_Select demo_world ''svc'' ''m'' 300 ?c = Some (c', Inl ''too large'') \<and>
      gm_get (breakers c') (breaker_key ''svc'' ''h'') = Some br' \<and> (\<forall>t. cb_Allow t br' = (br', False))"
    by (rule marshal_failure_wedges_breaker [OF _ a, where br = "(new_breaker 0)\<lparr>state := Open\<rparr>" and conn = 4])
      (simp_all add: demo_client_def demo_world_def NewTokenBucket_def breaker_key_def new_breaker_def NewCircuitBreaker_def demo_codec_def)
  then show ?thesis by (auto simp: breaker_key_def)
qed

end
