(* ===== verification/Hash_Ring.thy ===== *)
theory Hash_Ring
  imports Skip_List Go_Strings
begin

text \<open>
  The local hash ring (\<open>src/apps/consistent_hash/local/hash_ring.go\<close>): a skip list from scores to the virtual nodes at
  the score, the number of virtual nodes of every node and the data keys every node owns. A score is an \<open>int32\<close>. An
  operation is one section of the mutex \<open>mu\<close>; a panic is \<open>None\<close>, an error is a value. The height of a new skip list node is an argument of \<open>Add\<close>.
\<close>

section \<open>The ring\<close>

record SkiplistHashRing =
  hr_nodes :: "(int, string list) skipNode list"
  nodeToReplicas :: "(string, int) gomap"
  nodeToDataKey :: "(string, string set) gomap"

datatype ring_err = ScoreMissing | NodeMissing

definition NewSkiplistHashRing :: SkiplistHashRing where
  "NewSkiplistHashRing = \<lparr>hr_nodes = [\<lparr>nexts = [], sk_key = 0, sk_value = []\<rparr>], nodeToReplicas = [], nodeToDataKey = []\<rparr>"

definition hr_get :: "int \<Rightarrow> SkiplistHashRing \<Rightarrow> nat option option" where
  "hr_get score s = find_node score (hr_nodes s)"

definition hr_Add :: "nat \<Rightarrow> int \<Rightarrow> string \<Rightarrow> SkiplistHashRing \<Rightarrow> SkiplistHashRing option" where
  "hr_Add rLevel score nodeID s = do {
     r \<leftarrow> hr_get score s;
     (case r of
        Some a \<Rightarrow> do {
          n \<leftarrow> rd (hr_nodes s) a;
          (if nodeID \<in> set (sk_value n) then Some s
           else do {
             ns \<leftarrow> wr (hr_nodes s) a (n\<lparr>sk_value := sk_value n @ [nodeID]\<rparr>);
             Some (s\<lparr>hr_nodes := ns\<rparr>) }) }
      | None \<Rightarrow> do {
          let h = rLevel + 1;
          ns \<leftarrow> grow_head 0 h (hr_nodes s);
          ns \<leftarrow> splice_down h score (length ns) (ns @ [\<lparr>nexts = replicate h None, sk_key = score, sk_value = [nodeID]\<rparr>]) 0;
          Some (s\<lparr>hr_nodes := ns\<rparr>) }) }"

text \<open>The smallest score from a score on, the largest up to a score, the first and the last one: no score is \<open>None\<close>.\<close>

definition hr_ceiling :: "int \<Rightarrow> SkiplistHashRing \<Rightarrow> int option option" where
  "hr_ceiling score s = do {
     h \<leftarrow> rd (hr_nodes s) 0;
     (if nexts h = [] then Some None
      else do {
        move \<leftarrow> descend (length (nexts h)) score (hr_nodes s) 0;
        n \<leftarrow> rd (hr_nodes s) move;
        nx \<leftarrow> rd (nexts n) 0;
        (case nx of None \<Rightarrow> Some None | Some b \<Rightarrow> do { nb \<leftarrow> rd (hr_nodes s) b; Some (Some (sk_key nb)) }) }) }"

definition hr_first :: "SkiplistHashRing \<Rightarrow> int option" where
  "hr_first s = do {
     h \<leftarrow> rd (hr_nodes s) 0;
     (if nexts h = [] then Some (- 1)
      else do {
        nx \<leftarrow> rd (nexts h) 0;
        b \<leftarrow> nx;
        nb \<leftarrow> rd (hr_nodes s) b;
        Some (sk_key nb) }) }"

definition hr_floor :: "int \<Rightarrow> SkiplistHashRing \<Rightarrow> int option option" where
  "hr_floor score s = do {
     h \<leftarrow> rd (hr_nodes s) 0;
     (if nexts h = [] then Some None
      else do {
        move \<leftarrow> descend (length (nexts h)) score (hr_nodes s) 0;
        n \<leftarrow> rd (hr_nodes s) move;
        nx \<leftarrow> rd (nexts n) 0;
        hit \<leftarrow> (case nx of None \<Rightarrow> Some False | Some b \<Rightarrow> do { nb \<leftarrow> rd (hr_nodes s) b; Some (sk_key nb = score) });
        Some (if hit then Some score else if move = 0 then None else Some (sk_key n)) }) }"

definition hr_last :: "SkiplistHashRing \<Rightarrow> int option" where
  "hr_last s = do {
     h \<leftarrow> rd (hr_nodes s) 0;
     move \<leftarrow> descend_end (length (nexts h)) (hr_nodes s) 0;
     n \<leftarrow> rd (hr_nodes s) move;
     Some (if move = 0 then - 1 else sk_key n) }"

definition hr_Ceiling :: "int \<Rightarrow> SkiplistHashRing \<Rightarrow> int option" where
  "hr_Ceiling score s = do {
     target \<leftarrow> hr_ceiling score s;
     (case target of Some x \<Rightarrow> Some x | None \<Rightarrow> hr_first s) }"

definition hr_Floor :: "int \<Rightarrow> SkiplistHashRing \<Rightarrow> int option" where
  "hr_Floor score s = do {
     target \<leftarrow> hr_floor score s;
     (case target of Some x \<Rightarrow> Some x | None \<Rightarrow> hr_last s) }"

definition hr_Rem :: "int \<Rightarrow> string \<Rightarrow> SkiplistHashRing \<Rightarrow> (ring_err + SkiplistHashRing) option" where
  "hr_Rem score nodeID s = do {
     r \<leftarrow> hr_get score s;
     (case r of
        None \<Rightarrow> Some (Inl ScoreMissing)
      | Some a \<Rightarrow> do {
          n \<leftarrow> rd (hr_nodes s) a;
          (if nodeID \<notin> set (sk_value n) then Some (Inl NodeMissing)
           else do {
             let s = s\<lparr>nodeToDataKey := gm_del nodeID (nodeToDataKey s)\<rparr>;
             (if length (sk_value n) > 1
              then do {
                ns \<leftarrow> wr (hr_nodes s) a (n\<lparr>sk_value := remove1 nodeID (sk_value n)\<rparr>);
                Some (Inr (s\<lparr>hr_nodes := ns\<rparr>)) }
              else do {
                h \<leftarrow> rd (hr_nodes s) 0;
                ns \<leftarrow> unlink_down (length (nexts h)) score (hr_nodes s) 0;
                ns \<leftarrow> trim_head ns;
                Some (Inr (s\<lparr>hr_nodes := ns\<rparr>)) }) }) }) }"

definition hr_Nodes :: "SkiplistHashRing \<Rightarrow> (string, int) gomap" where
  "hr_Nodes s = nodeToReplicas s"

definition hr_AddNodeToReplica :: "string \<Rightarrow> int \<Rightarrow> SkiplistHashRing \<Rightarrow> SkiplistHashRing" where
  "hr_AddNodeToReplica nodeID replicas s = s\<lparr>nodeToReplicas := gm_set nodeID replicas (nodeToReplicas s)\<rparr>"

definition hr_DeleteNodeToReplica :: "string \<Rightarrow> SkiplistHashRing \<Rightarrow> SkiplistHashRing" where
  "hr_DeleteNodeToReplica nodeID s = s\<lparr>nodeToReplicas := gm_del nodeID (nodeToReplicas s)\<rparr>"

definition hr_Node :: "int \<Rightarrow> SkiplistHashRing \<Rightarrow> (ring_err + string list) option" where
  "hr_Node score s = do {
     r \<leftarrow> hr_get score s;
     (case r of
        None \<Rightarrow> Some (Inl ScoreMissing)
      | Some a \<Rightarrow> do { n \<leftarrow> rd (hr_nodes s) a; Some (Inr (sk_value n)) }) }"

definition hr_DataKeys :: "string \<Rightarrow> SkiplistHashRing \<Rightarrow> string set" where
  "hr_DataKeys nodeID s = (case gm_get (nodeToDataKey s) nodeID of None \<Rightarrow> {} | Some ks \<Rightarrow> ks)"

definition hr_AddNodeToDataKeys :: "string \<Rightarrow> string set \<Rightarrow> SkiplistHashRing \<Rightarrow> SkiplistHashRing" where
  "hr_AddNodeToDataKeys nodeID dataKeys s = s\<lparr>nodeToDataKey := gm_set nodeID (hr_DataKeys nodeID s \<union> dataKeys) (nodeToDataKey s)\<rparr>"

definition hr_DeleteNodeToDataKeys :: "string \<Rightarrow> string set \<Rightarrow> SkiplistHashRing \<Rightarrow> SkiplistHashRing" where
  "hr_DeleteNodeToDataKeys nodeID dataKeys s = (case gm_get (nodeToDataKey s) nodeID of
     None \<Rightarrow> s
   | Some ks \<Rightarrow>
       if ks - dataKeys = {} then s\<lparr>nodeToDataKey := gm_del nodeID (nodeToDataKey s)\<rparr>
       else s\<lparr>nodeToDataKey := gm_set nodeID (ks - dataKeys) (nodeToDataKey s)\<rparr>)"

section \<open>The ring as a sorted list of points\<close>

type_synonym points = "(int \<times> string list) list"

definition hr_holds :: "SkiplistHashRing \<Rightarrow> points \<Rightarrow> bool" where
  "hr_holds s kvs \<longleftrightarrow> (\<exists>B. sk_rep (hr_nodes s) B \<and> kvs = sk_entries (hr_nodes s) B \<and> (nexts (hr_nodes s ! 0) \<noteq> [] \<longrightarrow> B \<noteq> []))"

definition ceil_score :: "int \<Rightarrow> points \<Rightarrow> int" where
  "ceil_score score kvs = (case List.find (\<lambda>(k, _). score \<le> k) kvs of
     Some (k, _) \<Rightarrow> k
   | None \<Rightarrow> if kvs = [] then - 1 else fst (hd kvs))"

definition floor_score :: "int \<Rightarrow> points \<Rightarrow> int" where
  "floor_score score kvs = (case List.find (\<lambda>(k, _). k \<le> score) (rev kvs) of
     Some (k, _) \<Rightarrow> k
   | None \<Rightarrow> if kvs = [] then - 1 else fst (last kvs))"

definition pts_add :: "int \<Rightarrow> string \<Rightarrow> points \<Rightarrow> points" where
  "pts_add score nodeID kvs = (case map_of kvs score of
     None \<Rightarrow> kv_put score [nodeID] kvs
   | Some ids \<Rightarrow> if nodeID \<in> set ids then kvs else kv_put score (ids @ [nodeID]) kvs)"

definition pts_rem :: "int \<Rightarrow> string \<Rightarrow> points \<Rightarrow> points" where
  "pts_rem score nodeID kvs = (case map_of kvs score of
     None \<Rightarrow> kvs
   | Some ids \<Rightarrow> if length ids > 1 then kv_put score (remove1 nodeID ids) kvs else kv_del score kvs)"

text \<open>What the client of a ring relies on (\<open>hash_ring.go\<close>).\<close>

locale hash_ring =
  fixes new :: 'r and add :: "nat \<Rightarrow> int \<Rightarrow> string \<Rightarrow> 'r \<Rightarrow> 'r option" and rem :: "int \<Rightarrow> string \<Rightarrow> 'r \<Rightarrow> (ring_err + 'r) option"
    and ceil :: "int \<Rightarrow> 'r \<Rightarrow> int option" and flr :: "int \<Rightarrow> 'r \<Rightarrow> int option" and node :: "int \<Rightarrow> 'r \<Rightarrow> (ring_err + string list) option"
    and holds :: "'r \<Rightarrow> points \<Rightarrow> bool"
  assumes new_holds: "holds new []"
    and holds_sorted: "holds r kvs \<Longrightarrow> sorted_wrt (<) (map fst kvs)"
    and add_holds: "holds r kvs \<Longrightarrow> \<exists>r'. add c score nodeID r = Some r' \<and> holds r' (pts_add score nodeID kvs)"
    and ceil_holds: "holds r kvs \<Longrightarrow> ceil score r = Some (ceil_score score kvs)"
    and flr_holds: "holds r kvs \<Longrightarrow> flr score r = Some (floor_score score kvs)"
    and node_holds: "holds r kvs \<Longrightarrow> node score r = Some (case map_of kvs score of None \<Rightarrow> Inl ScoreMissing | Some ids \<Rightarrow> Inr ids)"
    and rem_holds: "holds r kvs \<Longrightarrow> map_of kvs score = Some ids \<Longrightarrow> nodeID \<in> set ids \<Longrightarrow>
      \<exists>r'. rem score nodeID r = Some (Inr r') \<and> holds r' (pts_rem score nodeID kvs)"
    and rem_missing: "holds r kvs \<Longrightarrow> map_of kvs score = Some ids \<Longrightarrow> nodeID \<notin> set ids \<Longrightarrow> rem score nodeID r = Some (Inl NodeMissing)"
    and rem_none: "holds r kvs \<Longrightarrow> map_of kvs score = None \<Longrightarrow> rem score nodeID r = Some (Inl ScoreMissing)"
begin

text \<open>A key is looked up at the next score, around the ring, and the point found there is on the ring.\<close>

lemma lookup_total:
  assumes "holds r kvs" and "kvs \<noteq> []"
  shows "\<exists>score ids. ceil s r = Some score \<and> node score r = Some (Inr ids) \<and> (score, ids) \<in> set kvs"
proof -
  have srt: "distinct (map fst kvs)" using holds_sorted [OF assms(1)] by (simp add: strict_sorted_iff)
  obtain score ids where p: "(score, ids) \<in> set kvs" "ceil_score s kvs = score"
  proof (cases "List.find (\<lambda>(k, _). s \<le> k) kvs")
    case None
    then show thesis using that [of "fst (hd kvs)" "snd (hd kvs)"] assms(2) by (simp add: ceil_score_def)
  next
    case (Some x)
    then have "x \<in> set kvs" unfolding find_Some_iff by (metis nth_mem)
    then show thesis using that [of "fst x" "snd x"] Some by (simp add: ceil_score_def split: prod.splits)
  qed
  then show ?thesis using ceil_holds [OF assms(1), of s] node_holds [OF assms(1), of score] srt by auto
qed

end

section \<open>The skip list ring\<close>

lemma hr_get_holds:
  assumes "sk_rep (hr_nodes s) B"
  shows "hr_get score s = Some (List.find (\<lambda>a. key_at (hr_nodes s) a = score) B)"
  unfolding hr_get_def by (rule find_node_rep [OF assms])

lemma hr_Node_holds:
  assumes "hr_holds s kvs"
  shows "hr_Node score s = Some (case map_of kvs score of None \<Rightarrow> Inl ScoreMissing | Some ids \<Rightarrow> Inr ids)"
proof -
  obtain B where r: "sk_rep (hr_nodes s) B" "kvs = sk_entries (hr_nodes s) B" using assms by (auto simp: hr_holds_def)
  show ?thesis
  proof (cases "List.find (\<lambda>a. key_at (hr_nodes s) a = score) B")
    case None
    then show ?thesis using hr_get_holds [OF r(1)] find_entries [of "hr_nodes s" score B] r(2) by (simp add: hr_Node_def)
  next
    case (Some a)
    then have "a < length (hr_nodes s)" using find_entries_Some [OF Some] r(1) by (auto simp: sk_rep_def sk_static_def)
    then show ?thesis using Some hr_get_holds [OF r(1)] find_entries_Some [OF Some] r(2) by (simp add: hr_Node_def rd_def)
  qed
qed

lemma kv_put_ne: "kv_put k v kvs \<noteq> []"
  by (simp add: kv_put_def)

lemma entries_ne: "sk_entries ns B \<noteq> [] \<Longrightarrow> B \<noteq> []"
  by (auto simp: sk_entries_def)

lemma hr_holdsI: "sk_rep ns B \<Longrightarrow> sk_entries ns B = kvs \<Longrightarrow> (nexts (ns ! 0) \<noteq> [] \<longrightarrow> B \<noteq> []) \<Longrightarrow> hr_holds (s\<lparr>hr_nodes := ns\<rparr>) kvs"
  by (auto simp: hr_holds_def)

lemma hr_set_holds:
  assumes r: "sk_rep (hr_nodes s) B" and a: "a \<in> set B"
  shows "wr (hr_nodes s) a ((hr_nodes s ! a)\<lparr>sk_value := v\<rparr>) = Some ((hr_nodes s)[a := (hr_nodes s ! a)\<lparr>sk_value := v\<rparr>])"
    and "hr_holds (s'\<lparr>hr_nodes := (hr_nodes s)[a := (hr_nodes s ! a)\<lparr>sk_value := v\<rparr>]\<rparr>) (kv_put (key_at (hr_nodes s) a) v (sk_entries (hr_nodes s) B))"
proof -
  have "a < length (hr_nodes s)" using r a by (auto simp: sk_rep_def sk_static_def)
  then show "wr (hr_nodes s) a ((hr_nodes s ! a)\<lparr>sk_value := v\<rparr>) = Some ((hr_nodes s)[a := (hr_nodes s ! a)\<lparr>sk_value := v\<rparr>])" by (simp add: wr_def)
  note o = overwrite_rep [OF r refl a, of v]
  show "hr_holds (s'\<lparr>hr_nodes := (hr_nodes s)[a := (hr_nodes s ! a)\<lparr>sk_value := v\<rparr>]\<rparr>) (kv_put (key_at (hr_nodes s) a) v (sk_entries (hr_nodes s) B))"
    using o a by (intro hr_holdsI [of _ B]) (auto simp: key_at_def)
qed

lemma hr_Add_holds:
  assumes "hr_holds s kvs"
  shows "\<exists>s'. hr_Add c score nodeID s = Some s' \<and> hr_holds s' (pts_add score nodeID kvs)"
proof -
  obtain B where r: "sk_rep (hr_nodes s) B" "kvs = sk_entries (hr_nodes s) B" using assms by (auto simp: hr_holds_def)
  show ?thesis
  proof (cases "List.find (\<lambda>a. key_at (hr_nodes s) a = score) B")
    case None
    define h where "h = c + 1"
    have h: "0 < h" by (simp add: h_def)
    obtain ns1 ns' B' where i: "grow_head 0 h (hr_nodes s) = Some ns1"
      "splice_down h score (length ns1) (ns1 @ [\<lparr>nexts = replicate h None, sk_key = score, sk_value = [nodeID]\<rparr>]) 0 = Some ns'"
      "sk_rep ns' B'" "sk_entries ns' B' = kv_put score [nodeID] (sk_entries (hr_nodes s) B)"
      by (rule insert_new [OF r(1) None h])
    have "hr_Add c score nodeID s = Some (s\<lparr>hr_nodes := ns'\<rparr>)"
      unfolding hr_Add_def hr_get_holds [OF r(1)] None Let_def h_def [symmetric] using i(1,2) by simp
    moreover have "sk_entries ns' B' \<noteq> []" unfolding i(4) by (rule kv_put_ne)
    then have "B' \<noteq> []" by (rule entries_ne)
    then have "hr_holds (s\<lparr>hr_nodes := ns'\<rparr>) (kv_put score [nodeID] kvs)"
      using i(3,4) r(2) by (intro hr_holdsI [of _ B']) auto
    moreover have "map_of kvs score = None" using None find_entries [of "hr_nodes s" score B] r(2) by simp
    ultimately show ?thesis by (simp add: pts_add_def)
  next
    case (Some a)
    note f = find_entries_Some [OF Some]
    have al: "rd (hr_nodes s) a = Some (hr_nodes s ! a)" using f r(1) by (auto simp: sk_rep_def sk_static_def rd_def)
    have "a \<in> set B" using f by simp
    note w = hr_set_holds(1) [OF r(1) this, of "sk_value (hr_nodes s ! a) @ [nodeID]"]
      hr_set_holds(2) [OF r(1) this, of "sk_value (hr_nodes s ! a) @ [nodeID]" s]
    show ?thesis using Some hr_get_holds [OF r(1)] f al w r(2) assms
      by (auto simp: hr_Add_def pts_add_def key_at_def)
  qed
qed

lemma hr_Rem_holds:
  assumes "hr_holds s kvs" and "map_of kvs score = Some ids" and "nodeID \<in> set ids"
  shows "\<exists>s'. hr_Rem score nodeID s = Some (Inr s') \<and> hr_holds s' (pts_rem score nodeID kvs)"
proof -
  obtain B where r: "sk_rep (hr_nodes s) B" "kvs = sk_entries (hr_nodes s) B" using assms(1) by (auto simp: hr_holds_def)
  obtain a where Some: "List.find (\<lambda>a. key_at (hr_nodes s) a = score) B = Some a"
    using find_entries [of "hr_nodes s" score B] r(2) assms(2) by fastforce
  note f = find_entries_Some [OF Some]
  have al: "rd (hr_nodes s) a = Some (hr_nodes s ! a)" and ne: "hr_nodes s \<noteq> []" using f r(1) by (auto simp: sk_rep_def sk_static_def rd_def)
  have a: "a \<in> set B" "key_at (hr_nodes s) a = score" "sk_value (hr_nodes s ! a) = ids" using f assms(2) r(2) by (auto simp: key_at_def)
  let ?s = "s\<lparr>nodeToDataKey := gm_del nodeID (nodeToDataKey s)\<rparr>"
  show ?thesis
  proof (cases "length ids > 1")
    case True
    have w: "wr (hr_nodes s) a ((hr_nodes s ! a)\<lparr>sk_value := remove1 nodeID ids\<rparr>) = Some ((hr_nodes s)[a := (hr_nodes s ! a)\<lparr>sk_value := remove1 nodeID ids\<rparr>])"
      "hr_holds (?s\<lparr>hr_nodes := (hr_nodes s)[a := (hr_nodes s ! a)\<lparr>sk_value := remove1 nodeID ids\<rparr>]\<rparr>) (kv_put score (remove1 nodeID ids) kvs)"
      using hr_set_holds [OF r(1) a(1), of "remove1 nodeID ids"] a(2) r(2) by auto
    show ?thesis using Some hr_get_holds [OF r(1)] a al w True assms by (auto simp: hr_Rem_def pts_rem_def)
  next
    case False
    obtain ns1 ns2 B' where u: "unlink_down (height (hr_nodes s) 0) score (hr_nodes s) 0 = Some ns1" "trim_head ns1 = Some ns2" "sk_rep ns2 B'"
      "sk_entries ns2 B' = kv_del score (sk_entries (hr_nodes s) B)" "nexts (ns2 ! 0) \<noteq> [] \<longrightarrow> B' \<noteq> []"
      using remove_rep [OF r(1) a(1,2)] by blast
    have "hr_Rem score nodeID s = Some (Inr (?s\<lparr>hr_nodes := ns2\<rparr>))"
      using Some hr_get_holds [OF r(1)] a al u(1,2) False assms(3) ne by (simp add: hr_Rem_def rd_def height_def)
    moreover have "hr_holds (?s\<lparr>hr_nodes := ns2\<rparr>) (kv_del score kvs)" using u(3-5) r(2) by (intro hr_holdsI [of _ B']) auto
    ultimately show ?thesis using assms(2) False by (simp add: pts_rem_def)
  qed
qed

lemma hr_Rem_errors:
  assumes "hr_holds s kvs"
  shows "map_of kvs score = Some ids \<Longrightarrow> nodeID \<notin> set ids \<Longrightarrow> hr_Rem score nodeID s = Some (Inl NodeMissing)"
    and "map_of kvs score = None \<Longrightarrow> hr_Rem score nodeID s = Some (Inl ScoreMissing)"
proof -
  obtain B where r: "sk_rep (hr_nodes s) B" "kvs = sk_entries (hr_nodes s) B" using assms(1) by (auto simp: hr_holds_def)
  show "hr_Rem score nodeID s = Some (Inl NodeMissing)" if ids: "map_of kvs score = Some ids" "nodeID \<notin> set ids"
  proof -
    obtain a where Some: "List.find (\<lambda>a. key_at (hr_nodes s) a = score) B = Some a"
      using find_entries [of "hr_nodes s" score B] r(2) ids(1) by fastforce
    note f = find_entries_Some [OF Some]
    have "rd (hr_nodes s) a = Some (hr_nodes s ! a)" using f r(1) by (auto simp: sk_rep_def sk_static_def rd_def)
    then show ?thesis using Some hr_get_holds [OF r(1)] f ids r(2) by (simp add: hr_Rem_def)
  qed
  show "hr_Rem score nodeID s = Some (Inl ScoreMissing)" if "map_of kvs score = None"
    using find_entries [of "hr_nodes s" score B] r that hr_get_holds [OF r(1)] by (simp add: hr_Rem_def)
qed

lemma find_append_miss: "(\<And>x. x \<in> set xs \<Longrightarrow> \<not> P x) \<Longrightarrow> List.find P (xs @ ys) = List.find P ys"
  by (induction xs) auto

lemma find_hd_all: "(\<And>x. x \<in> set ys \<Longrightarrow> P x) \<Longrightarrow> List.find P ys = (if ys = [] then None else Some (hd ys))"
  by (cases ys) auto

lemma sk_entries_append: "sk_entries ns (xs @ ys) = sk_entries ns xs @ sk_entries ns ys"
  by (simp add: sk_entries_def)

lemma empty_head: "sk_static ns B \<Longrightarrow> nexts (ns ! 0) = [] \<Longrightarrow> B = []"
  by (cases B) (auto simp: sk_static_def height_def)

lemma ceil_entries:
  assumes "sk_static ns B"
  shows "ceil_score score (sk_entries ns B) =
    (if B = [] then - 1 else key_at ns (hd (if above ns score B = [] then B else above ns score B)))"
proof -
  have e: "sk_entries ns B = sk_entries ns (below ns score B) @ sk_entries ns (above ns score B)"
    using below_above [OF assms, of score] sk_entries_append [of ns "below ns score B" "above ns score B"] by simp
  have "List.find (\<lambda>(k, _). score \<le> k) (sk_entries ns B) = List.find (\<lambda>(k, _). score \<le> k) (sk_entries ns (above ns score B))"
    unfolding e by (rule find_append_miss) (auto simp: sk_entries_def below_def key_at_def)
  also have "\<dots> = (if sk_entries ns (above ns score B) = [] then None else Some (hd (sk_entries ns (above ns score B))))"
    by (rule find_hd_all) (auto simp: sk_entries_def above_def key_at_def not_less)
  finally show ?thesis by (auto simp: ceil_score_def sk_entries_def hd_map key_at_def)
qed

lemma hr_Ceiling_holds:
  assumes "hr_holds s kvs"
  shows "hr_Ceiling score s = Some (ceil_score score kvs)"
proof -
  obtain B where r: "sk_rep (hr_nodes s) B" "kvs = sk_entries (hr_nodes s) B" "nexts (hr_nodes s ! 0) \<noteq> [] \<longrightarrow> B \<noteq> []"
    using assms by (auto simp: hr_holds_def)
  let ?ns = "hr_nodes s"
  let ?m = "last (0 # below ?ns score B)"
  have st: "sk_static ?ns B" using r(1) by (simp add: sk_rep_def)
  have h: "rd ?ns 0 = Some (?ns ! 0)" using st by (auto simp: sk_static_def rd_def)
  show ?thesis
  proof (cases "nexts (?ns ! 0) = []")
    case True
    then have "B = []" using empty_head [OF st] by simp
    then show ?thesis using True h ceil_entries [OF st] r(2) by (simp add: hr_Ceiling_def hr_ceiling_def hr_first_def)
  next
    case False
    then have ne: "B \<noteq> []" and hp: "0 < height ?ns 0" using r(3) by (auto simp: height_def)
    have d: "descend (length (nexts (?ns ! 0))) score ?ns 0 = Some ?m" and c: "chain ?ns 0 ?m (above ?ns score B)"
      using descend_rep [OF r(1) order_refl hp, of 0 score] by (auto simp: height_def)
    have c0: "chain ?ns 0 0 B" using r(1) hp bottom_level [OF st, of B] by (auto simp: sk_rep_def)
    show ?thesis
    proof (cases "above ?ns score B")
      case Nil
      then have "hr_ceiling score s = Some None" using c d h False by (simp add: hr_ceiling_def rd_def height_def)
      moreover have "hr_first s = Some (key_at ?ns (hd B))" using c0 ne h False
        by (cases B) (auto simp: hr_first_def rd_def height_def key_at_def dest: chain_head)
      ultimately show ?thesis using Nil ne ceil_entries [OF st] r(2) by (simp add: hr_Ceiling_def)
    next
      case (Cons b bs)
      then have "hr_ceiling score s = Some (Some (key_at ?ns b))" using c d h False
        by (auto simp: hr_ceiling_def rd_def height_def key_at_def dest: chain_head)
      then show ?thesis using Cons ne ceil_entries [OF st] r(2) by (simp add: hr_Ceiling_def)
    qed
  qed
qed

lemma floor_entries:
  assumes st: "sk_static ns B"
  shows "floor_score score (sk_entries ns B) =
    (if above ns score B \<noteq> [] \<and> key_at ns (hd (above ns score B)) = score then score
     else if below ns score B \<noteq> [] then key_at ns (last (below ns score B))
     else if B = [] then - 1 else key_at ns (last B))"
proof -
  let ?lo = "below ns score B" and ?hi = "above ns score B" and ?P = "\<lambda>(k, _ :: string list). k \<le> score"
  have e: "rev (sk_entries ns B) = rev (sk_entries ns ?hi) @ rev (sk_entries ns ?lo)"
    using below_above [OF st, of score] sk_entries_append [of ns ?lo ?hi] by simp
  have srt: "sorted_wrt (\<lambda>a b. key_at ns a < key_at ns b) ?hi" using st by (simp add: sk_static_def above_def sorted_wrt_filter)
  have hi: "score \<le> key_at ns a" if "a \<in> set ?hi" for a using that by (simp add: above_def)
  have lo: "List.find ?P (rev (sk_entries ns ?lo)) = (if ?lo = [] then None else Some (hd (rev (sk_entries ns ?lo))))"
    by (subst find_hd_all) (auto simp: sk_entries_def below_def key_at_def)
  have lasts: "xs \<noteq> [] \<Longrightarrow> fst (last (sk_entries ns xs)) = key_at ns (last xs)" for xs by (simp add: sk_entries_def last_map key_at_def)
  show ?thesis
  proof (cases "?hi \<noteq> [] \<and> key_at ns (hd ?hi) = score")
    case True
    then obtain b bs where b: "?hi = b # bs" "key_at ns b = score" by (cases ?hi) auto
    have f: "sk_entries ns ?hi = (score, sk_value (ns ! b)) # sk_entries ns bs" using b by (simp add: sk_entries_def key_at_def)
    have "List.find ?P (rev (sk_entries ns B)) = List.find ?P ((score, sk_value (ns ! b)) # rev (sk_entries ns ?lo))"
      unfolding e f using srt b by (simp, subst find_append_miss) (auto simp: sk_entries_def key_at_def)
    then show ?thesis using True by (simp add: floor_score_def)
  next
    case False
    have "score < key_at ns a" if a: "a \<in> set ?hi" for a
    proof -
      obtain b bs where b: "?hi = b # bs" using a by (cases ?hi) auto
      have "score < key_at ns b" using False hi [of b] b by auto
      then show ?thesis using a srt b by auto
    qed
    then have "List.find ?P (rev (sk_entries ns B)) = List.find ?P (rev (sk_entries ns ?lo))"
      unfolding e by (intro find_append_miss) (fastforce simp: sk_entries_def key_at_def)
    then show ?thesis using False lo lasts [of ?lo] lasts [of B]
      by (auto simp: floor_score_def hd_rev sk_entries_def split: prod.splits)
  qed
qed

lemma hr_Floor_holds:
  assumes "hr_holds s kvs"
  shows "hr_Floor score s = Some (floor_score score kvs)"
proof -
  obtain B where r: "sk_rep (hr_nodes s) B" "kvs = sk_entries (hr_nodes s) B" "nexts (hr_nodes s ! 0) \<noteq> [] \<longrightarrow> B \<noteq> []"
    using assms by (auto simp: hr_holds_def)
  let ?ns = "hr_nodes s"
  let ?m = "last (0 # below ?ns score B)"
  have st: "sk_static ?ns B" using r(1) by (simp add: sk_rep_def)
  have h: "rd ?ns 0 = Some (?ns ! 0)" using st by (auto simp: sk_static_def rd_def)
  show ?thesis
  proof (cases "nexts (?ns ! 0) = []")
    case True
    then have "B = []" using empty_head [OF st] by simp
    then show ?thesis using True h floor_entries [OF st, of score] r(2)
      by (simp add: hr_Floor_def hr_floor_def hr_last_def below_def above_def)
  next
    case False
    then have ne: "B \<noteq> []" and hp: "0 < height ?ns 0" using r(3) by (auto simp: height_def)
    have d: "descend (length (nexts (?ns ! 0))) score ?ns 0 = Some ?m" and c: "chain ?ns 0 ?m (above ?ns score B)"
      using descend_rep [OF r(1) order_refl hp, of 0 score] by (auto simp: height_def)
    have m: "rd ?ns ?m = Some (?ns ! ?m)" "rd (nexts (?ns ! ?m)) 0 = Some (nexts (?ns ! ?m) ! 0)"
      using chain_head [OF c] unfolding rd_def height_def by auto
    have z: "0 \<notin> set B" using st by (simp add: sk_static_def)
    have m0: "?m = 0 \<longleftrightarrow> below ?ns score B = []"
      proof (cases "below ?ns score B = []")
      case False
      then have "last (below ?ns score B) \<in> set B" using last_in_set [of "below ?ns score B"] by (simp add: below_def)
      then have "last (below ?ns score B) \<noteq> 0" using z by metis
      then show ?thesis using False by simp
    qed simp
    have lb: "last B \<noteq> 0" "last B < length ?ns" using last_in_set [OF ne] z st by (metis, simp add: sk_static_def)
    have la: "hr_last s = Some (key_at ?ns (last B))"
      using descend_end_rep [OF r(1) order_refl hp, of 0] ne h lb
      by (auto simp: hr_last_def height_def key_at_def rd_def sk_static_def)
    define hit where "hit \<longleftrightarrow> above ?ns score B \<noteq> [] \<and> key_at ?ns (hd (above ?ns score B)) = score"
    have "hr_floor score s = Some (if hit then Some score else if ?m = 0 then None else Some (key_at ?ns ?m))"
      using c d h m False by (cases "above ?ns score B") (auto simp: hr_floor_def hit_def key_at_def rd_def dest: chain_head)
    then show ?thesis using la m0 ne floor_entries [OF st, of score] r(2) by (auto simp: hr_Floor_def hit_def)
  qed
qed

lemma new_ring_holds: "hr_holds NewSkiplistHashRing []"
  unfolding hr_holds_def by (intro exI [of _ "[]"]) (simp add: NewSkiplistHashRing_def sk_rep_def sk_static_def sk_entries_def height_def)

lemma hr_holds_sorted: "hr_holds s kvs \<Longrightarrow> sorted_wrt (<) (map fst kvs)"
  by (auto simp: hr_holds_def sk_rep_def intro: sk_entries_sorted)

text \<open>The skip list keeps the promises of a ring.\<close>

interpretation skip_ring: hash_ring NewSkiplistHashRing hr_Add hr_Rem hr_Ceiling hr_Floor hr_Node hr_holds
  by unfold_locales (fact new_ring_holds hr_holds_sorted hr_Add_holds hr_Ceiling_holds hr_Floor_holds hr_Node_holds hr_Rem_holds hr_Rem_errors)+

end
