(* ===== verification/Consistent_Hash.thy ===== *)
theory Consistent_Hash
  imports Hash_Ring
begin

text \<open>
  Consistent hashing with data migration (\<open>src/apps/consistent_hash\<close>: \<open>consistent_hash.go\<close>, \<open>migration.go\<close>,
  \<open>encryptor.go\<close>, \<open>option.go\<close>) over the local ring. A node stands on the ring at the scores of its virtual nodes; a data key belongs
  to the first virtual node from its score on, and the ring remembers the keys looked up. A step is one section of the ring's
  lease, which the local ring always grants (\<open>Ring_Lease\<close> has the lease itself). The migrator is a closure of the caller: a step returns the tasks it is
  called with. \<open>int32\<close> arithmetic wraps around.
\<close>

section \<open>Options, scores and names\<close>

definition MaxInt32 :: int where
  "MaxInt32 = 2147483647"

record ConsistentHashOptions =
  lockExpireSeconds :: int
  opt_replicas :: int

definition repair_options :: "ConsistentHashOptions \<Rightarrow> ConsistentHashOptions" where
  "repair_options opts =
     (let opts = (if lockExpireSeconds opts \<le> 0 then opts\<lparr>lockExpireSeconds := 15\<rparr> else opts)
      in if opt_replicas opts \<le> 0 then opts\<lparr>opt_replicas := 5\<rparr> else opts)"

record ConsistentHash =
  migrator_set :: bool
  encryptor :: "string \<Rightarrow> int"
  ch_opts :: ConsistentHashOptions

definition NewConsistentHash :: "(string \<Rightarrow> int) \<Rightarrow> bool \<Rightarrow> (ConsistentHashOptions \<Rightarrow> ConsistentHashOptions) list \<Rightarrow> ConsistentHash" where
  "NewConsistentHash enc mig opts = \<lparr>migrator_set = mig, encryptor = enc,
     ch_opts = repair_options (fold (\<lambda>opt. opt) opts \<lparr>lockExpireSeconds = 0, opt_replicas = 0\<rparr>)\<rparr>"

text \<open>\<open>int32(hasher.Sum32() % math.MaxInt32)\<close> for FNV-1a.\<close>

definition fnv_Encrypt :: "string \<Rightarrow> int" where
  "fnv_Encrypt origin = wrap32 (uint (foldl (\<lambda>h b. (h XOR of_nat (of_char b)) * 16777619) 2166136261 origin :: 32 word) mod MaxInt32)"

definition getValidWeight :: "int \<Rightarrow> int" where
  "getValidWeight weight = (if weight \<le> 0 then 1 else if weight \<ge> 10 then 10 else weight)"

definition getRawNodeKey :: "string \<Rightarrow> int \<Rightarrow> string" where
  "getRawNodeKey nodeID index = nodeID @ ''_'' @ itoa index"

text \<open>The part before the last underscore.\<close>

definition getNodeID :: "string \<Rightarrow> string" where
  "getNodeID rawNodeKey =
     (if CHR ''_'' \<notin> set rawNodeKey then rawNodeKey
      else rev (tl (dropWhile (\<lambda>x. x \<noteq> CHR ''_'') (rev rawNodeKey))))"

definition incrScore :: "int \<Rightarrow> int" where
  "incrScore score = (if score = MaxInt32 - 1 then 0 else wrap32 (score + 1))"

definition decreaseScore :: "int \<Rightarrow> int" where
  "decreaseScore score = (if score = 0 then MaxInt32 - 1 else wrap32 (score - 1))"

section \<open>Migration\<close>

text \<open>\<open>NoOtherNode\<close> stands for the messages "no other no" and "no other node".\<close>

datatype ch_err = RepeatNode | InvalidNodeID | NoNodeAvailable | EmptyScore | NextNodeEmpty | NoOtherNode | RingErr ring_err

text \<open>A task of the migrator: the data keys, from where and to where.\<close>

type_synonym task = "string \<times> string \<times> string set"

abbreviation nothing :: task where
  "nothing \<equiv> ('''', '''', {})"

text \<open>The loop bodies that select the keys of a range; the bounds are already shifted.\<close>

definition falls_in :: "bool \<Rightarrow> bool \<Rightarrow> int \<Rightarrow> int \<Rightarrow> int \<Rightarrow> bool" where
  "falls_in patternOne patternTwo lastScore virtualScore dataScore =
     (let x = (if patternOne \<and> dataScore > wrap32 (lastScore + MaxInt32) then wrap32 (dataScore - MaxInt32) else dataScore);
          x = (if patternTwo then wrap32 (x - MaxInt32) else x)
      in \<not> (x \<le> lastScore \<or> x > virtualScore))"

definition migrateIn :: "ConsistentHash \<Rightarrow> int \<Rightarrow> string \<Rightarrow> SkiplistHashRing \<Rightarrow> ((ch_err + task) \<times> SkiplistHashRing) option" where
  "migrateIn c virtualScore nodeID s =
     (if \<not> migrator_set c then Some (Inr nothing, s)
      else do {
        r \<leftarrow> hr_Node virtualScore s;
        (case r of
           Inl e \<Rightarrow> Some (Inl (RingErr e), s)
         | Inr nodes \<Rightarrow>
             if length nodes > 1 then Some (Inr nothing, s)
             else do {
               lastScore \<leftarrow> hr_Floor (decreaseScore virtualScore) s;
               (if lastScore = - 1 \<or> lastScore = virtualScore then Some (Inr nothing, s)
                else do {
                  nextScore \<leftarrow> hr_Ceiling (incrScore virtualScore) s;
                  (if nextScore = - 1 \<or> nextScore = virtualScore then Some (Inr nothing, s)
                   else do {
                     let patternOne = (lastScore > virtualScore);
                     let patternTwo = (nextScore < virtualScore);
                     let lastScore = (if patternOne then wrap32 (lastScore - MaxInt32) else lastScore);
                     let virtualScore = (if patternTwo then wrap32 (virtualScore - MaxInt32) else virtualScore);
                     let lastScore = (if patternTwo then wrap32 (lastScore - MaxInt32) else lastScore);
                     r \<leftarrow> hr_Node nextScore s;
                     (case r of
                        Inl e \<Rightarrow> Some (Inl (RingErr e), s)
                      | Inr [] \<Rightarrow> Some (Inr nothing, s)
                      | Inr (n # _) \<Rightarrow> do {
                          let dataSet = Set.filter (\<lambda>d. falls_in patternOne patternTwo lastScore virtualScore (encryptor c d)) (hr_DataKeys (getNodeID n) s);
                          let s = hr_DeleteNodeToDataKeys (getNodeID n) dataSet s;
                          let s = hr_AddNodeToDataKeys nodeID dataSet s;
                          Some (Inr (getNodeID n, nodeID, dataSet), s) }) }) }) }) })"

text \<open>The search for the successor, from score to score, until a score has been left before.\<close>

fun getValidNextNode :: "nat \<Rightarrow> int \<Rightarrow> string \<Rightarrow> int set \<Rightarrow> SkiplistHashRing \<Rightarrow> (ch_err + string) option" where
  "getValidNextNode 0 score nodeID ranged s = None"
| "getValidNextNode (Suc fuel) score nodeID ranged s = do {
     nextScore \<leftarrow> hr_Ceiling (incrScore score) s;
     (if nextScore = - 1 then Some (Inr '''')
      else if nextScore \<in> ranged then Some (Inr '''')
      else do {
        r \<leftarrow> hr_Node nextScore s;
        (case r of
           Inl e \<Rightarrow> Some (Inl (RingErr e))
         | Inr [] \<Rightarrow> Some (Inl NextNodeEmpty)
         | Inr (n # ns) \<Rightarrow>
             if getNodeID n \<noteq> nodeID then Some (Inr (getNodeID n))
             else (case ns of
                     n' # _ \<Rightarrow> Some (Inr (getNodeID n'))
                   | [] \<Rightarrow> getValidNextNode fuel nextScore nodeID (insert score ranged) s)) }) }"

text \<open>The deferred function of \<open>migrateOut\<close> and its body.\<close>

definition finish_out :: "string \<Rightarrow> (ch_err + task) \<Rightarrow> SkiplistHashRing \<Rightarrow> (ch_err + task) \<times> SkiplistHashRing" where
  "finish_out nodeID r s = (case r of
     Inl e \<Rightarrow> (Inl e, s)
   | Inr (src, dest, dataSet) \<Rightarrow>
       if dest = '''' \<or> dataSet = {} then (r, s)
       else (r, hr_AddNodeToDataKeys dest dataSet (hr_DeleteNodeToDataKeys nodeID dataSet s)))"

definition select_out :: "ConsistentHash \<Rightarrow> int \<Rightarrow> string \<Rightarrow> SkiplistHashRing \<Rightarrow> (ch_err + task) option" where
  "select_out c virtualScore nodeID s = do {
     r \<leftarrow> hr_Node virtualScore s;
     (case r of
        Inl e \<Rightarrow> Some (Inl (RingErr e))
      | Inr [] \<Rightarrow> Some (Inr (nodeID, '''', {}))
      | Inr (n # ns) \<Rightarrow>
          if getNodeID n \<noteq> nodeID then Some (Inr (nodeID, '''', {}))
          else if hr_DataKeys nodeID s = {} then Some (Inr (nodeID, '''', {}))
          else do {
            lastScore \<leftarrow> hr_Floor (decreaseScore virtualScore) s;
            let onlyScore = (lastScore = - 1 \<or> lastScore = virtualScore);
            (if onlyScore \<and> ns = [] then Some (Inl NoOtherNode)
             else do {
               let pattern = (lastScore > virtualScore);
               let lastScore = (if pattern then wrap32 (lastScore - MaxInt32) else lastScore);
               let dataSet = Set.filter (\<lambda>d. onlyScore \<or> falls_in pattern False lastScore virtualScore (encryptor c d)) (hr_DataKeys nodeID s);
               (case ns of
                  n' # _ \<Rightarrow> Some (Inr (nodeID, getNodeID n', dataSet))
                | [] \<Rightarrow> do {
                    r \<leftarrow> getValidNextNode (Suc (length (hr_nodes s))) virtualScore nodeID {} s;
                    (case r of
                       Inl e \<Rightarrow> Some (Inl e)
                     | Inr dest \<Rightarrow> Some (if dest = '''' then Inl NoOtherNode else Inr (nodeID, dest, dataSet))) }) }) }) }"

definition migrateOut :: "ConsistentHash \<Rightarrow> int \<Rightarrow> string \<Rightarrow> SkiplistHashRing \<Rightarrow> ((ch_err + task) \<times> SkiplistHashRing) option" where
  "migrateOut c virtualScore nodeID s =
     (if \<not> migrator_set c then Some (Inr nothing, s)
      else do { r \<leftarrow> select_out c virtualScore nodeID s; Some (finish_out nodeID r s) })"

section \<open>The operations\<close>

text \<open>The loops over the virtual nodes; \<open>roll i\<close> is the height drawn for the node \<open>i\<close>.\<close>

fun add_virtual :: "ConsistentHash \<Rightarrow> (int \<Rightarrow> nat) \<Rightarrow> string \<Rightarrow> int list \<Rightarrow> task list \<Rightarrow> SkiplistHashRing \<Rightarrow> ((ch_err + task list) \<times> SkiplistHashRing) option" where
  "add_virtual c roll nodeID [] tasks s = Some (Inr tasks, s)"
| "add_virtual c roll nodeID (i # is) tasks s = do {
     let nodeKey = getRawNodeKey nodeID i;
     let virtualScore = encryptor c nodeKey;
     s \<leftarrow> hr_Add (roll i) virtualScore nodeKey s;
     (r, s) \<leftarrow> migrateIn c virtualScore nodeID s;
     (case r of
        Inl e \<Rightarrow> Some (Inl e, s)
      | Inr (src, dest, dataSet) \<Rightarrow>
          add_virtual c roll nodeID is (if dataSet = {} then tasks else tasks @ [(src, dest, dataSet)]) s) }"

definition AddNode :: "ConsistentHash \<Rightarrow> (int \<Rightarrow> nat) \<Rightarrow> string \<Rightarrow> int \<Rightarrow> SkiplistHashRing \<Rightarrow> ((ch_err + task list) \<times> SkiplistHashRing) option" where
  "AddNode c roll nodeID weight s =
     (if gm_get (hr_Nodes s) nodeID \<noteq> None then Some (Inl RepeatNode, s)
      else do {
        let replicas = wrap64 (getValidWeight weight * opt_replicas (ch_opts c));
        add_virtual c roll nodeID [0..replicas - 1] [] (hr_AddNodeToReplica nodeID replicas s) })"

fun rem_virtual :: "ConsistentHash \<Rightarrow> string \<Rightarrow> int list \<Rightarrow> task list \<Rightarrow> SkiplistHashRing \<Rightarrow> ((ch_err + task list) \<times> SkiplistHashRing) option" where
  "rem_virtual c nodeID [] tasks s = Some (Inr tasks, s)"
| "rem_virtual c nodeID (i # is) tasks s = do {
     let virtualScore = encryptor c (nodeID @ ''_'' @ itoa i);
     (r, s) \<leftarrow> migrateOut c virtualScore nodeID s;
     (case r of
        Inl e \<Rightarrow> Some (Inl e, s)
      | Inr (src, dest, dataSet) \<Rightarrow> do {
          r \<leftarrow> hr_Rem virtualScore (getRawNodeKey nodeID i) s;
          (case r of
             Inl e \<Rightarrow> Some (Inl (RingErr e), s)
           | Inr s \<Rightarrow> rem_virtual c nodeID is (if dataSet = {} then tasks else tasks @ [(src, dest, dataSet)]) s) }) }"

definition RemoveNode :: "ConsistentHash \<Rightarrow> string \<Rightarrow> SkiplistHashRing \<Rightarrow> ((ch_err + task list) \<times> SkiplistHashRing) option" where
  "RemoveNode c nodeID s = (case gm_get (hr_Nodes s) nodeID of
     None \<Rightarrow> Some (Inl InvalidNodeID, s)
   | Some replicas \<Rightarrow> rem_virtual c nodeID [0..replicas - 1] [] (hr_DeleteNodeToReplica nodeID s))"

definition GetNode :: "ConsistentHash \<Rightarrow> string \<Rightarrow> SkiplistHashRing \<Rightarrow> ((ch_err + string) \<times> SkiplistHashRing) option" where
  "GetNode c dataKey s = do {
     ceilingScore \<leftarrow> hr_Ceiling (encryptor c dataKey) s;
     (if ceilingScore = - 1 then Some (Inl NoNodeAvailable, s)
      else do {
        r \<leftarrow> hr_Node ceilingScore s;
        (case r of
           Inl e \<Rightarrow> Some (Inl (RingErr e), s)
         | Inr [] \<Rightarrow> Some (Inl EmptyScore, s)
         | Inr (n # _) \<Rightarrow> Some (Inr (getNodeID n), hr_AddNodeToDataKeys (getNodeID n) {dataKey} s)) }) }"

text \<open>A history of the structure: what the operations answer, and the ring after them.\<close>

datatype ch_op = OpAdd "int \<Rightarrow> nat" string int | OpRemove string | OpGet string

datatype ch_res = RAdd "ch_err + task list" | RRemove "ch_err + task list" | RGet "ch_err + string"

fun ch_step :: "ConsistentHash \<Rightarrow> ch_op \<Rightarrow> SkiplistHashRing \<Rightarrow> (ch_res \<times> SkiplistHashRing) option" where
  "ch_step c (OpAdd roll nodeID weight) s = map_option (map_prod RAdd id) (AddNode c roll nodeID weight s)"
| "ch_step c (OpRemove nodeID) s = map_option (map_prod RRemove id) (RemoveNode c nodeID s)"
| "ch_step c (OpGet dataKey) s = map_option (map_prod RGet id) (GetNode c dataKey s)"

fun ch_run :: "ConsistentHash \<Rightarrow> ch_op list \<Rightarrow> SkiplistHashRing \<Rightarrow> (ch_res list \<times> SkiplistHashRing) option" where
  "ch_run c [] s = Some ([], s)"
| "ch_run c (x # xs) s = do {
     (r, s) \<leftarrow> ch_step c x s;
     (rs, s) \<leftarrow> ch_run c xs s;
     Some (r # rs, s) }"

section \<open>The circle of points\<close>

text \<open>A score as the encryptor makes it.\<close>

definition score_ok :: "int \<Rightarrow> bool" where
  "score_ok x \<longleftrightarrow> 0 \<le> x \<and> x < MaxInt32"

lemma incrScore_ok: "score_ok x \<Longrightarrow> incrScore x = (if x = MaxInt32 - 1 then 0 else x + 1)"
  by (simp add: incrScore_def score_ok_def MaxInt32_def wrap32_id)

lemma decreaseScore_ok: "score_ok x \<Longrightarrow> decreaseScore x = (if x = 0 then MaxInt32 - 1 else x - 1)"
  by (simp add: decreaseScore_def score_ok_def MaxInt32_def wrap32_id)

text \<open>The points met from a score on, around the circle, and the virtual nodes on them.\<close>

definition circ :: "int \<Rightarrow> points \<Rightarrow> points" where
  "circ x kvs = filter (\<lambda>(k, _). x \<le> k) kvs @ filter (\<lambda>(k, _). k < x) kvs"

definition line :: "int \<Rightarrow> points \<Rightarrow> string list" where
  "line x kvs = concat (map snd (circ x kvs))"

definition points_ok :: "points \<Rightarrow> bool" where
  "points_ok kvs \<longleftrightarrow> sorted_wrt (<) (map fst kvs) \<and> (\<forall>(k, ids)\<in>set kvs. score_ok k \<and> ids \<noteq> [])"

lemma set_circ [simp]: "set (circ x kvs) = set kvs"
  by (auto simp: circ_def)

lemma circ_Nil_iff [simp]: "circ x kvs = [] \<longleftrightarrow> kvs = []"
  by (metis set_circ set_empty)

lemma find_filter: "List.find P xs = (case filter P xs of [] \<Rightarrow> None | y # _ \<Rightarrow> Some y)"
  by (induction xs) auto

lemma ceil_circ: "kvs \<noteq> [] \<Longrightarrow> ceil_score x kvs = fst (hd (circ x kvs))"
proof -
  assume ne: "kvs \<noteq> []"
  have "filter (\<lambda>(k, _). k < x) kvs = kvs" if "filter (\<lambda>(k, _). x \<le> k) kvs = []"
    using that by (auto simp: filter_empty_conv filter_id_conv)
  then show ?thesis using ne
    by (cases "filter (\<lambda>(k, _). x \<le> k) kvs") (auto simp: ceil_score_def circ_def find_filter split: prod.splits)
qed

text \<open>With a point at the score \<open>v\<close>, the circle from the next score on starts after it and ends with it.\<close>

lemma sorted_at:
  assumes "points_ok (p @ (v, ids) # q)"
  shows "\<forall>x\<in>set p. fst x < v" and "\<forall>x\<in>set q. v < fst x" and "score_ok v" and "ids \<noteq> []"
    and "\<forall>x\<in>set p \<union> set q. score_ok (fst x)"
  using assms by (force simp: points_ok_def sorted_wrt_append)+

lemma filter_all: "\<forall>x\<in>set p. P (fst x) \<Longrightarrow> filter (\<lambda>(k, _). P k) p = p"
  and filter_no: "\<forall>x\<in>set p. \<not> P (fst x) \<Longrightarrow> filter (\<lambda>(k, _). P k) p = []"
  by (auto simp: filter_id_conv filter_empty_conv)

lemma circ_next:
  assumes "points_ok (p @ (v, ids) # q)"
  shows "circ (incrScore v) (p @ (v, ids) # q) = q @ p @ [(v, ids)]"
proof (cases "v = MaxInt32 - 1")
  case True
  note s = sorted_at [OF assms]
  have "q = []" using s(2,5) True by (cases q) (auto simp: score_ok_def)
  moreover have "filter (\<lambda>(k, _). 0 \<le> k) p = p" "filter (\<lambda>(k, _). k < 0) p = []"
    using s(5) by (intro filter_all filter_no; force simp: score_ok_def)+
  ultimately show ?thesis using True s(3) by (simp add: circ_def incrScore_ok score_ok_def)
next
  case False
  note s = sorted_at [OF assms]
  have "filter (\<lambda>(k, _). v + 1 \<le> k) p = []" "filter (\<lambda>(k, _). v + 1 \<le> k) q = q"
    "filter (\<lambda>(k, _). k < v + 1) p = p" "filter (\<lambda>(k, _). k < v + 1) q = []"
    using s(1,2) by (intro filter_all filter_no; force)+
  then show ?thesis using False s(3) by (simp add: circ_def incrScore_ok)
qed

lemma floor_prev:
  assumes "points_ok (p @ (v, ids) # q)"
  shows "floor_score (decreaseScore v) (p @ (v, ids) # q) = fst (last ((v, ids) # q @ p))"
proof (cases "p = []")
  case True
  note s = sorted_at [OF assms]
  show ?thesis
  proof (cases "v = 0")
    case True
    have "\<forall>x\<in>set (p @ (v, ids) # q). score_ok (fst x)" using s(3,5) by auto
    then have "\<forall>x\<in>set (rev (p @ (v, ids) # q)). fst x \<le> MaxInt32 - 1" by (auto simp: score_ok_def)
    then have "List.find (\<lambda>(k, _). k \<le> MaxInt32 - 1) (rev (p @ (v, ids) # q)) = Some (last (p @ (v, ids) # q))"
      by (subst find_hd_all) (fastforce, simp add: hd_rev del: rev.simps rev_append)
    then show ?thesis using \<open>p = []\<close> True s(3) by (auto simp: floor_score_def decreaseScore_ok split: prod.splits)
  next
    case False
    have "\<forall>x\<in>set ((v, ids) # q). \<not> fst x \<le> v - 1" using s(2) by force
    then have "List.find (\<lambda>(k, _). k \<le> v - 1) (rev ((v, ids) # q)) = None" by (force simp: find_None_iff)
    then show ?thesis using \<open>p = []\<close> False s(3) by (simp add: floor_score_def decreaseScore_ok)
  qed
next
  case False
  note s = sorted_at [OF assms]
  obtain p' x where p: "p = p' @ [x]" using False by (metis rev_exhaust)
  have "v \<noteq> 0" using s(1,5) p by (auto simp: score_ok_def)
  then have d: "decreaseScore v = v - 1" using s(3) by (simp add: decreaseScore_ok)
  have "List.find (\<lambda>(k, _). k \<le> v - 1) (rev q @ (v, ids) # rev p) = List.find (\<lambda>(k, _). k \<le> v - 1) (rev p)"
    using find_append_miss [of "rev q @ [(v, ids)]" "\<lambda>(k, _). k \<le> v - 1" "rev p"] s(2) by force
  also have "\<dots> = Some x" using s(1) p by (cases x) simp
  finally show ?thesis using d p by (simp add: floor_score_def split: prod.splits)
qed

text \<open>A key falls on the point \<open>v\<close> exactly when it is in the range from the point before.\<close>

lemma ceil_at:
  assumes "points_ok (p @ (v, ids) # q)"
  shows "ceil_score x (p @ (v, ids) # q) = v \<longleftrightarrow> (x \<le> v \<and> (\<forall>y\<in>set p. fst y < x)) \<or> (p = [] \<and> (\<forall>y\<in>set ((v, ids) # q). fst y < x))"
proof (cases "filter (\<lambda>(k, _). x \<le> k) p")
  case Nil
  then have p: "\<forall>y\<in>set p. fst y < x" by (auto simp: filter_empty_conv)
  then have f: "filter (\<lambda>(k, _). k < x) p = p" by (rule filter_all)
  note s = sorted_at [OF assms]
  show ?thesis
  proof (cases "x \<le> v")
    case True
    then show ?thesis using Nil p f by (simp add: ceil_circ circ_def)
  next
    case False
    show ?thesis
    proof (cases "filter (\<lambda>(k, _). x \<le> k) q")
      case n: Nil
      then have "\<forall>y\<in>set q. fst y < x" by (auto simp: filter_empty_conv)
      moreover have "p \<noteq> [] \<longrightarrow> fst (hd p) \<noteq> v" using s(1) by auto
      ultimately show ?thesis using Nil n p f False by (cases p) (auto simp: ceil_circ circ_def)
    next
      case (Cons y ys)
      then have y: "y \<in> set q" "x \<le> fst y" by (auto dest!: filter_eq_ConsD)
      then have "fst y \<noteq> v" "\<exists>z\<in>set q. \<not> fst z < x" using s(2) by (auto simp: not_less)
      then show ?thesis using Nil p f False Cons by (auto simp: ceil_circ circ_def)
    qed
  qed
next
  case (Cons y ys)
  then have y: "y \<in> set p" "x \<le> fst y" by (auto dest!: filter_eq_ConsD)
  then have "fst y \<noteq> v" "\<exists>z\<in>set p. \<not> fst z < x" "p \<noteq> []" using sorted_at(1) [OF assms] by (auto simp: not_less)
  then show ?thesis using Cons by (auto simp: ceil_circ circ_def)
qed

definition between :: "int \<Rightarrow> int \<Rightarrow> int \<Rightarrow> bool" where
  "between l v x \<longleftrightarrow> (if l < v then l < x \<and> x \<le> v else l < x \<or> x \<le> v)"

lemma last_below:
  assumes "sorted_wrt (<) (map fst (p @ [y]))"
  shows "(\<forall>z\<in>set (p @ [y]). fst z < x) \<longleftrightarrow> fst y < (x :: int)"
  using assms by (fastforce simp: sorted_wrt_append)

lemma ceil_between:
  assumes "points_ok (p @ (v, ids) # q)"
  shows "ceil_score x (p @ (v, ids) # q) = v \<longleftrightarrow> between (fst (last ((v, ids) # q @ p))) v x \<or> p @ q = []"
proof (cases "p = []")
  case True
  note s = sorted_at [OF assms]
  show ?thesis
  proof (cases "q = []")
    case False
    then obtain q' y where q: "q = q' @ [y]" by (metis rev_exhaust)
    have v: "v < fst y" using s(2) q by simp
    have "(\<forall>z\<in>set ((v, ids) # q). fst z < x) \<longleftrightarrow> fst y < x"
      using last_below [of "(v, ids) # q'" y x] assms q by (auto simp: points_ok_def sorted_wrt_append)
    then show ?thesis using ceil_at [OF assms] True q v by (auto simp: between_def)
  qed (simp add: True ceil_score_def)
next
  case False
  then obtain p' y where p: "p = p' @ [y]" by (metis rev_exhaust)
  have v: "fst y < v" using sorted_at(1) [OF assms] p by simp
  have "(\<forall>z\<in>set p. fst z < x) \<longleftrightarrow> fst y < x"
    using last_below [of p' y x] assms p by (auto simp: points_ok_def sorted_wrt_append)
  then show ?thesis using ceil_at [OF assms] p v by (auto simp: between_def)
qed

lemma falls_in_between:
  assumes "score_ok l" and "score_ok v" and "score_ok x" and "l \<noteq> v" and "\<not> (l > v \<and> p2)"
  defines "l1 \<equiv> if l > v then wrap32 (l - MaxInt32) else l"
  shows "falls_in (l > v) p2 (if p2 then wrap32 (l1 - MaxInt32) else l1) (if p2 then wrap32 (v - MaxInt32) else v) x \<longleftrightarrow> between l v x"
proof (cases "l > v")
  case True
  then have "\<not> p2" using assms(5) by simp
  moreover have "wrap32 (l - MaxInt32) = l - MaxInt32" "wrap32 (x - MaxInt32) = x - MaxInt32" "wrap32 (l - MaxInt32 + MaxInt32) = l"
    using assms(1-3) by (intro wrap32_id; simp add: score_ok_def MaxInt32_def; fail)+
      (use assms(1-3) in \<open>simp add: score_ok_def MaxInt32_def wrap32_id\<close>)
  ultimately show ?thesis using True assms(1-3) by (auto simp: falls_in_def l1_def between_def score_ok_def MaxInt32_def)
next
  case False
  have "wrap32 (l - MaxInt32) = l - MaxInt32" "wrap32 (x - MaxInt32) = x - MaxInt32" "wrap32 (v - MaxInt32) = v - MaxInt32"
    using assms(1-3) by (intro wrap32_id; simp add: score_ok_def MaxInt32_def; fail)+
  then show ?thesis using False assms(4) by (auto simp: falls_in_def l1_def between_def)
qed

section \<open>Virtual nodes\<close>

lemma getNodeID_raw [simp]: "getNodeID (getRawNodeKey n i) = n"
  using itoa_chars(1) [of i] by (auto simp: getNodeID_def getRawNodeKey_def dropWhile_append)

lemma raw_inj: "0 \<le> i \<Longrightarrow> 0 \<le> j \<Longrightarrow> getRawNodeKey n i = getRawNodeKey m j \<longleftrightarrow> n = m \<and> i = j"
proof
  assume h: "0 \<le> i" "0 \<le> j" "getRawNodeKey n i = getRawNodeKey m j"
  have n: "n = m" using h(3) getNodeID_raw by metis
  then have "dec_nat (nat i) = dec_nat (nat j)" using h by (simp add: getRawNodeKey_def itoa_def)
  then have "nat i = nat j" using dec_val_dec_nat by metis
  then show "n = m \<and> i = j" using h n by simp
qed simp

text \<open>The virtual nodes \<open>P\<close> stand on the points, each at its score.\<close>

definition ring_pts :: "ConsistentHash \<Rightarrow> string set \<Rightarrow> points \<Rightarrow> bool" where
  "ring_pts c P kvs \<longleftrightarrow> points_ok kvs \<and> (\<forall>(k, ids)\<in>set kvs. distinct ids) \<and>
     (\<forall>k r. (\<exists>ids. (k, ids) \<in> set kvs \<and> r \<in> set ids) \<longleftrightarrow> r \<in> P \<and> k = encryptor c r)"

lemma line_around:
  "\<exists>A B. (\<forall>ids. line x (p @ (v, ids) # q) = A @ ids @ B) \<and> line x (p @ q) = A @ B \<and>
    set A \<union> set B \<subseteq> (\<Union>(k, ids)\<in>set p. set ids) \<union> (\<Union>(k, ids)\<in>set q. set ids)"
proof -
  let ?C = "\<lambda>P xs. concat (map snd (filter (\<lambda>(k, _). P k) xs))"
  show ?thesis
  proof (cases "x \<le> v")
    case True
    show ?thesis
      by (rule exI [of _ "?C (\<lambda>k. x \<le> k) p"], rule exI [of _ "?C (\<lambda>k. x \<le> k) q @ ?C (\<lambda>k. k < x) p @ ?C (\<lambda>k. k < x) q"])
        (use True in \<open>auto simp: line_def circ_def\<close>)
  next
    case False
    show ?thesis
      by (rule exI [of _ "?C (\<lambda>k. x \<le> k) p @ ?C (\<lambda>k. x \<le> k) q @ ?C (\<lambda>k. k < x) p"], rule exI [of _ "?C (\<lambda>k. k < x) q"])
        (use False in \<open>auto simp: line_def circ_def\<close>)
  qed
qed

lemma line_remove:
  assumes "\<forall>(k, ids)\<in>set p \<union> set q. r \<notin> set ids"
  shows "line x (p @ (v, remove1 r ids) # q) = remove1 r (line x (p @ (v, ids) # q))"
    and "line x (p @ q) = remove1 r (line x (p @ (v, [r]) # q))"
proof -
  obtain A B where ab: "\<forall>ids. line x (p @ (v, ids) # q) = A @ ids @ B" "line x (p @ q) = A @ B"
    and s: "set A \<union> set B \<subseteq> (\<Union>(k, ids)\<in>set p. set ids) \<union> (\<Union>(k, ids)\<in>set q. set ids)" using line_around [of x p v q] by blast
  have "r \<notin> set A \<union> set B" using assms s by fastforce
  then show "line x (p @ (v, remove1 r ids) # q) = remove1 r (line x (p @ (v, ids) # q))"
    and "line x (p @ q) = remove1 r (line x (p @ (v, [r]) # q))" by (simp_all add: ab remove1_append remove1_idem)
qed

lemma ring_pts_at:
  assumes "ring_pts c P kvs" and "r \<in> P"
  obtains p ids q where "kvs = p @ (encryptor c r, ids) # q" and "r \<in> set ids" and "distinct ids"
    and "\<forall>(k, ids)\<in>set p \<union> set q. r \<notin> set ids"
    and "\<forall>x\<in>set p. fst x < encryptor c r" and "\<forall>x\<in>set q. encryptor c r < fst x"
proof -
  have "r \<in> P \<and> encryptor c r = encryptor c r" using assms(2) by simp
  then obtain ids where ids: "(encryptor c r, ids) \<in> set kvs" "r \<in> set ids" using assms(1) unfolding ring_pts_def by blast
  then obtain p q where e: "kvs = p @ (encryptor c r, ids) # q" by (meson split_list)
  have ok: "points_ok (p @ (encryptor c r, ids) # q)" using assms(1) e by (simp add: ring_pts_def)
  note s = sorted_at [OF ok]
  have only: "k = encryptor c r" if "(k, is) \<in> set kvs" "r \<in> set is" for k "is" using assms(1) that unfolding ring_pts_def by blast
  have "\<forall>(k, ids)\<in>set p \<union> set q. r \<notin> set ids" using only s(1,2) e by force
  moreover have "distinct ids" using assms(1) ids(1) by (auto simp: ring_pts_def)
  ultimately show thesis using that [OF e ids(2)] s(1,2) by blast
qed

lemma filter_split:
  "\<forall>x\<in>set p. fst x < (v :: int) \<Longrightarrow> \<forall>x\<in>set q. v < fst x \<Longrightarrow>
    kv_put v ids' (p @ (v, ids) # q) = p @ (v, ids') # q \<and> kv_del v (p @ (v, ids) # q) = p @ q \<and> map_of (p @ (v, ids) # q) v = Some ids"
proof -
  assume p: "\<forall>x\<in>set p. fst x < v" and q: "\<forall>x\<in>set q. v < fst x"
  have "filter (\<lambda>(k, _). k < v) p = p" "filter (\<lambda>(k, _). k < v) q = []" "filter (\<lambda>(k, _). v < k) p = []" "filter (\<lambda>(k, _). v < k) q = q"
    "filter (\<lambda>(k, _). k \<noteq> v) p = p" "filter (\<lambda>(k, _). k \<noteq> v) q = q"
    using p q by (intro filter_all filter_no; force)+
  moreover have "v \<notin> fst ` set p" using p by auto
  then have "map_of p v = None" by (simp add: map_of_eq_None_iff)
  ultimately show ?thesis by (simp add: kv_put_def kv_del_def case_prod_unfold map_add_def)
qed

lemma pts_rem_at:
  assumes "\<forall>x\<in>set p. fst x < v" and "\<forall>x\<in>set q. v < fst x" and "r \<in> set ids"
  shows "pts_rem v r (p @ (v, ids) # q) = (if length ids > 1 then p @ (v, remove1 r ids) # q else p @ q)"
  using filter_split [OF assms(1,2), of "remove1 r ids" ids] by (simp add: pts_rem_def)

lemma single: "r \<in> set ids \<Longrightarrow> \<not> length ids > 1 \<Longrightarrow> ids = [r]"
  by (cases ids) auto

text \<open>A virtual node leaves the ring: every circle loses it.\<close>

lemma pts_rem_ok:
  assumes "ring_pts c P kvs" and "r \<in> P"
  shows "ring_pts c (P - {r}) (pts_rem (encryptor c r) r kvs)" and "line x (pts_rem (encryptor c r) r kvs) = remove1 r (line x kvs)"
proof -
  obtain p ids q where e: "kvs = p @ (encryptor c r, ids) # q" "r \<in> set ids" "distinct ids" "\<forall>(k, ids)\<in>set p \<union> set q. r \<notin> set ids"
    and pq: "\<forall>x\<in>set p. fst x < encryptor c r" "\<forall>x\<in>set q. encryptor c r < fst x"
    by (rule ring_pts_at [OF assms])
  let ?v = "encryptor c r"
  have ok: "points_ok (p @ (?v, ids) # q)" and d: "\<forall>(k, ids)\<in>set (p @ (?v, ids) # q). distinct ids"
    and m: "\<And>k t. (\<exists>is. (k, is) \<in> set (p @ (?v, ids) # q) \<and> t \<in> set is) \<longleftrightarrow> t \<in> P \<and> k = encryptor c t"
    using assms(1) e(1) unfolding ring_pts_def by auto
  show "line x (pts_rem ?v r kvs) = remove1 r (line x kvs)"
    using line_remove(1) [OF e(4), of x ?v ids] line_remove(2) [OF e(4), of x ?v] single [OF e(2)] unfolding e(1) pts_rem_at [OF pq e(2)] by auto
  show "ring_pts c (P - {r}) (pts_rem ?v r kvs)"
  proof (cases "length ids > 1")
    case True
    then have "remove1 r ids \<noteq> []" using e(2) by (auto simp: length_remove1 simp flip: length_greater_0_conv)
    then have "points_ok (p @ (?v, remove1 r ids) # q)" using ok by (auto simp: points_ok_def)
    moreover have "(\<exists>is. (k, is) \<in> set (p @ (?v, remove1 r ids) # q) \<and> t \<in> set is) \<longleftrightarrow> t \<in> P - {r} \<and> k = encryptor c t" for k t
      using m [of k t] e(3,4) by fastforce
    ultimately show ?thesis using True d unfolding ring_pts_def e(1) pts_rem_at [OF pq e(2)] by auto
  next
    case False
    then have "points_ok (p @ q)" using ok by (auto simp: points_ok_def sorted_wrt_append)
    moreover have "(\<exists>is. (k, is) \<in> set (p @ q) \<and> t \<in> set is) \<longleftrightarrow> t \<in> P - {r} \<and> k = encryptor c t" for k t
      using m [of k t] e(4) single [OF e(2) False] by fastforce
    ultimately show ?thesis using False d unfolding ring_pts_def e(1) pts_rem_at [OF pq e(2)] by auto
  qed
qed

text \<open>A virtual node joins the ring, last at its score; taking it away again gives the ring before.\<close>

lemma pts_add_ok:
  assumes "ring_pts c P kvs" and "r \<notin> P" and "score_ok (encryptor c r)"
  shows "ring_pts c (insert r P) (pts_add (encryptor c r) r kvs)"
    and "\<exists>p ids q. pts_add (encryptor c r) r kvs = p @ (encryptor c r, ids @ [r]) # q \<and> pts_rem (encryptor c r) r (pts_add (encryptor c r) r kvs) = kvs"
proof -
  let ?v = "encryptor c r"
  let ?p = "filter (\<lambda>(j, _). j < ?v) kvs" and ?q = "filter (\<lambda>(j, _). ?v < j) kvs"
  have srt: "sorted_wrt (<) (map fst kvs)" and sc: "\<forall>(k, ids)\<in>set kvs. score_ok k \<and> ids \<noteq> []" and d: "\<forall>(k, ids)\<in>set kvs. distinct ids"
    and m: "\<And>k t. (\<exists>is. (k, is) \<in> set kvs \<and> t \<in> set is) \<longleftrightarrow> t \<in> P \<and> k = encryptor c t"
    using assms(1) unfolding ring_pts_def points_ok_def by auto
  define ids where "ids = (case map_of kvs ?v of None \<Rightarrow> [] | Some is \<Rightarrow> is)"
  have new: "r \<notin> set is" if "(k, is) \<in> set kvs" for k "is" using m [of k r] that assms(2) by blast
  have rid: "r \<notin> set ids" "distinct ids"
    using new [of ?v ids] d map_of_SomeD [of kvs ?v ids] by (cases "map_of kvs ?v"; fastforce simp: ids_def)+
  have e: "kvs = ?p @ (if ids = [] then [] else [(?v, ids)]) @ ?q"
    using kv_split [OF srt, of ?v] sc by (auto simp: ids_def dest!: map_of_SomeD split: option.splits)
  have add: "pts_add ?v r kvs = ?p @ (?v, ids @ [r]) # ?q"
    using rid(1) by (auto simp: pts_add_def kv_put_def ids_def split: option.splits)
  have pq: "\<forall>x\<in>set ?p. fst x < ?v" "\<forall>x\<in>set ?q. ?v < fst x" by auto
  have "pts_rem ?v r (pts_add ?v r kvs) = kvs"
    unfolding add using pts_rem_at [OF pq, of r "ids @ [r]"] rid(1) e by (auto simp: remove1_append split: if_splits)
  then show "\<exists>p ids q. pts_add ?v r kvs = p @ (?v, ids @ [r]) # q \<and> pts_rem ?v r (pts_add ?v r kvs) = kvs" using add by blast
  have "sorted_wrt (<) (map fst (?p @ (?v, ids @ [r]) # ?q))"
    using kv_put_sorted [OF srt, of ?v "ids @ [r]"] by (simp add: kv_put_def)
  moreover have "\<forall>(k, is)\<in>set (?p @ (?v, ids @ [r]) # ?q). score_ok k \<and> is \<noteq> [] \<and> distinct is" using sc d rid assms(3) by auto
  moreover have "(\<exists>is. (k, is) \<in> set (?p @ (?v, ids @ [r]) # ?q) \<and> t \<in> set is) \<longleftrightarrow> t \<in> insert r P \<and> k = encryptor c t" for k t
  proof -
    have "(\<exists>is. (k, is) \<in> set (?p @ (?v, ids @ [r]) # ?q) \<and> t \<in> set is) \<longleftrightarrow>
        (\<exists>is. (k, is) \<in> set (?p @ (if ids = [] then [] else [(?v, ids)]) @ ?q) \<and> t \<in> set is) \<or> (k = ?v \<and> t = r)"
      by (cases "ids = []") fastforce+
    then show ?thesis using m [of k t] e by auto
  qed
  ultimately show "ring_pts c (insert r P) (pts_add ?v r kvs)" unfolding ring_pts_def points_ok_def add by fastforce
qed

section \<open>Owners\<close>

text \<open>The node a key is routed to.\<close>

definition owner :: "ConsistentHash \<Rightarrow> points \<Rightarrow> string \<Rightarrow> string" where
  "owner c kvs d = getNodeID (hd (line (encryptor c d) kvs))"

lemma circ_hd:
  assumes "points_ok kvs" and "kvs \<noteq> []"
  obtains k ids rest where "circ x kvs = (k, ids) # rest" and "ceil_score x kvs = k" and "map_of kvs k = Some ids" and "ids \<noteq> []"
    and "line x kvs = ids @ concat (map snd rest)" and "score_ok k"
proof -
  obtain k ids rest where e: "circ x kvs = (k, ids) # rest" using assms(2) by (cases "circ x kvs") auto
  have m: "(k, ids) \<in> set kvs" using e set_circ [of x kvs] by force
  moreover have "distinct (map fst kvs)" using assms(1) by (simp add: points_ok_def strict_sorted_iff)
  ultimately have "map_of kvs k = Some ids" by simp
  then show thesis using that [OF e] ceil_circ [OF assms(2), of x] e m assms(1) by (auto simp: line_def points_ok_def)
qed

lemma GetNode_routes:
  assumes "hr_holds s kvs" and "points_ok kvs"
  shows "GetNode c d s = Some (if kvs = [] then (Inl NoNodeAvailable, s) else (Inr (owner c kvs d), hr_AddNodeToDataKeys (owner c kvs d) {d} s))"
proof (cases "kvs = []")
  case True
  then show ?thesis using skip_ring.ceil_holds [OF assms(1)] by (simp add: GetNode_def ceil_score_def)
next
  case False
  obtain k ids rest where "circ (encryptor c d) kvs = (k, ids) # rest" and e: "ceil_score (encryptor c d) kvs = k" "map_of kvs k = Some ids" "ids \<noteq> []"
    "line (encryptor c d) kvs = ids @ concat (map snd rest)" "score_ok k"
    by (rule circ_hd [OF assms(2) False, of "encryptor c d"])
  have "k \<noteq> - 1" using e(5) by (simp add: score_ok_def)
  then show ?thesis using skip_ring.ceil_holds [OF assms(1)] skip_ring.node_holds [OF assms(1)] e False
    by (cases ids) (simp_all add: GetNode_def owner_def)
qed

section \<open>The index of data keys\<close>

lemma hr_holds_nodes: "hr_nodes s' = hr_nodes s \<Longrightarrow> hr_holds s' kvs = hr_holds s kvs"
  by (simp add: hr_holds_def)

lemma index_ops [simp]:
  "hr_nodes (hr_AddNodeToDataKeys m D s) = hr_nodes s" "nodeToReplicas (hr_AddNodeToDataKeys m D s) = nodeToReplicas s"
  "hr_nodes (hr_DeleteNodeToDataKeys m D s) = hr_nodes s" "nodeToReplicas (hr_DeleteNodeToDataKeys m D s) = nodeToReplicas s"
  by (auto simp: hr_AddNodeToDataKeys_def hr_DeleteNodeToDataKeys_def split: option.splits)

lemma DataKeys_add: "hr_DataKeys n (hr_AddNodeToDataKeys m D s) = hr_DataKeys n s \<union> (if n = m then D else {})"
  by (auto simp: hr_DataKeys_def hr_AddNodeToDataKeys_def)

lemma DataKeys_delete: "hr_DataKeys n (hr_DeleteNodeToDataKeys m D s) = hr_DataKeys n s - (if n = m then D else {})"
  by (auto simp: hr_DataKeys_def hr_DeleteNodeToDataKeys_def split: option.splits)

text \<open>What a task asks of the owners.\<close>

fun moved :: "task \<Rightarrow> (string \<Rightarrow> string set) \<Rightarrow> string \<Rightarrow> string set" where
  "moved (src, dest, D) f n = (f n - (if n = src then D else {})) \<union> (if n = dest then D else {})"

lemma moved_nothing [simp]: "moved (a, b, {}) f = f"
  by auto

lemma DataKeys_move: "(\<lambda>n. hr_DataKeys n (hr_AddNodeToDataKeys dest D (hr_DeleteNodeToDataKeys src D s))) = moved (src, dest, D) (\<lambda>n. hr_DataKeys n s)"
  by (rule ext) (simp add: DataKeys_add DataKeys_delete)

text \<open>Every recorded key is recorded at the node it is routed to.\<close>

definition placed :: "ConsistentHash \<Rightarrow> points \<Rightarrow> SkiplistHashRing \<Rightarrow> bool" where
  "placed c kvs s \<longleftrightarrow> (\<forall>n. \<forall>d\<in>hr_DataKeys n s. kvs \<noteq> [] \<and> owner c kvs d = n)"

section \<open>A node joins\<close>

lemma circ_at:
  assumes ok: "points_ok (p @ (v, ids) # q)" and "ceil_score x (p @ (v, ids) # q) = v"
  shows "circ x (p @ (v, ids) # q) = (v, ids) # q @ p"
proof -
  note s = sorted_at [OF ok]
  consider "x \<le> v" "\<forall>y\<in>set p. fst y < x" | "p = []" "\<forall>y\<in>set ((v, ids) # q). fst y < x"
    using assms(2) ceil_at [OF ok] by blast
  then show ?thesis
  proof cases
    case 1
    then have "filter (\<lambda>(k, _). x \<le> k) p = []" "filter (\<lambda>(k, _). x \<le> k) q = q" "filter (\<lambda>(k, _). k < x) p = p" "filter (\<lambda>(k, _). k < x) q = []"
      using s(2) by (intro filter_all filter_no; force)+
    then show ?thesis using 1(1) by (simp add: circ_def)
  next
    case 2
    then have "filter (\<lambda>(k, _). x \<le> k) q = []" "filter (\<lambda>(k, _). k < x) q = q" by (intro filter_all filter_no; force)+
    then show ?thesis using 2 by (simp add: circ_def)
  qed
qed

text \<open>A key off the score of a virtual node is not routed to it.\<close>

lemma hd_line_off:
  assumes "ring_pts c P kvs" and "kvs \<noteq> []" and "ceil_score x kvs \<noteq> encryptor c r"
  shows "hd (line x kvs) \<noteq> r"
proof -
  have ok: "points_ok kvs" using assms(1) by (simp add: ring_pts_def)
  obtain k ids rest where e: "circ x kvs = (k, ids) # rest" "ceil_score x kvs = k" "map_of kvs k = Some ids" "ids \<noteq> []"
    "line x kvs = ids @ concat (map snd rest)" "score_ok k" by (rule circ_hd [OF ok assms(2), of x])
  have "hd ids \<in> set ids" using e(4) by simp
  then have "k = encryptor c (hd ids)" using assms(1) e(3) unfolding ring_pts_def by (meson map_of_SomeD)
  then show ?thesis using assms(3) e by auto
qed

lemma hd_remove1: "hd xs \<noteq> r \<Longrightarrow> hd (remove1 r xs) = hd xs"
  by (cases xs) auto

text \<open>The next point of the ring, and the range of a point.\<close>

lemma neighbours:
  assumes ok: "points_ok (p @ (v, ids) # q)" and ne: "p @ q \<noteq> []"
  obtains l nx nids where "floor_score (decreaseScore v) (p @ (v, ids) # q) = l" and "ceil_score (incrScore v) (p @ (v, ids) # q) = nx"
    and "hd (q @ p) = (nx, nids)" and "map_of (p @ (v, ids) # q) nx = Some nids" and "nids \<noteq> []" and "score_ok l" and "l \<noteq> v" and "score_ok nx" and "nx \<noteq> v"
    and "\<not> (l > v \<and> nx < v)" and "\<forall>x. ceil_score x (p @ (v, ids) # q) = v \<longleftrightarrow> between l v x"
proof -
  note s = sorted_at [OF ok]
  obtain nx nids where n: "hd (q @ p) = (nx, nids)" by (cases "hd (q @ p)")
  have nm: "(nx, nids) \<in> set p \<union> set q" using n hd_in_set [of "q @ p"] ne by auto
  let ?l = "fst (last (q @ p))"
  have lm: "last (q @ p) \<in> set p \<union> set q" using last_in_set [of "q @ p"] ne by auto
  have l: "floor_score (decreaseScore v) (p @ (v, ids) # q) = ?l" using floor_prev [OF ok] ne by (auto simp: last_append)
  have nl: "score_ok ?l \<and> ?l \<noteq> v" using s(1,2,5) lm by fastforce
  have nn: "score_ok nx \<and> nx \<noteq> v \<and> nids \<noteq> []" using s(1,2,5) nm ok by (force simp: points_ok_def)
  have c: "ceil_score (incrScore v) (p @ (v, ids) # q) = nx"
    using ceil_circ [of "p @ (v, ids) # q" "incrScore v"] circ_next [OF ok] n ne by (cases q) (auto simp: hd_append)
  have "distinct (map fst (p @ (v, ids) # q))" using ok unfolding points_ok_def strict_sorted_iff by blast
  then have m: "map_of (p @ (v, ids) # q) nx = Some nids" using nm by (intro map_of_is_SomeI) auto
  have w: "\<not> (?l > v \<and> nx < v)"
  proof
    assume h: "?l > v \<and> nx < v"
    have "p = []"
    proof (rule ccontr)
      assume "p \<noteq> []"
      then have "last (q @ p) \<in> set p" by simp
      then show False using s(1) h by fastforce
    qed
    then have "(nx, nids) \<in> set q" using nm by simp
    then show False using s(2) h by fastforce
  qed
  have "\<forall>x. ceil_score x (p @ (v, ids) # q) = v \<longleftrightarrow> between ?l v x"
    using ceil_between [OF ok] ne by (auto simp: last_append)
  then show thesis using that [OF l c n m] nl nn w by blast
qed

lemma owner_off:
  assumes "ring_pts c P kvs" and "r \<in> P" and "ceil_score (encryptor c d) kvs \<noteq> encryptor c r"
  shows "owner c (pts_rem (encryptor c r) r kvs) d = owner c kvs d"
proof -
  have "kvs \<noteq> []" by (rule ring_pts_at [OF assms(1,2)]) simp
  then show ?thesis using hd_line_off [OF assms(1) _ assms(3)] pts_rem_ok(2) [OF assms(1,2)] by (simp add: owner_def hd_remove1)
qed

text \<open>The keys of a single virtual node: before it came they were with the next one.\<close>

lemma owner_on:
  assumes ok: "points_ok (p @ (v, [r]) # q)" and ne: "p @ q \<noteq> []" and c: "ceil_score (encryptor c d) (p @ (v, [r]) # q) = v"
    and n: "hd (q @ p) = (nx, n # ns)" and rem: "line (encryptor c d) kvs = remove1 r (line (encryptor c d) (p @ (v, [r]) # q))"
  shows "owner c (p @ (v, [r]) # q) d = getNodeID r" and "owner c kvs d = getNodeID n"
proof -
  have l: "line (encryptor c d) (p @ (v, [r]) # q) = r # concat (map snd (q @ p))"
    unfolding line_def circ_at [OF ok c] by simp
  then show "owner c (p @ (v, [r]) # q) d = getNodeID r" by (simp add: owner_def)
  have "concat (map snd (q @ p)) = n # ns @ concat (map snd (tl (q @ p)))" using n ne by (cases "q @ p") auto
  then show "owner c kvs d = getNodeID n" using l rem by (simp add: owner_def)
qed

lemma at_point: "points_ok (p @ (v, ids) # q) \<Longrightarrow> map_of (p @ (v, ids) # q) v = Some ids"
  using filter_split [OF sorted_at(1,2)] by blast

text \<open>A virtual node that is not first at its score takes no keys.\<close>

lemma shared_takes_none:
  assumes R: "ring_pts c P (p @ (encryptor c r, ids @ [r]) # q)" "r \<in> P" and ne: "ids \<noteq> []"
  shows "owner c (pts_rem (encryptor c r) r (p @ (encryptor c r, ids @ [r]) # q)) d = owner c (p @ (encryptor c r, ids @ [r]) # q) d"
proof (cases "ceil_score (encryptor c d) (p @ (encryptor c r, ids @ [r]) # q) = encryptor c r")
  case True
  have ok: "points_ok (p @ (encryptor c r, ids @ [r]) # q)" and "r \<notin> set ids" using R(1) by (auto simp: ring_pts_def)
  moreover have "line (encryptor c d) (p @ (encryptor c r, ids @ [r]) # q) = (ids @ [r]) @ concat (map snd (q @ p))"
    using circ_at [OF ok True] by (simp add: line_def)
  ultimately show ?thesis using ne unfolding owner_def pts_rem_ok(2) [OF R] by (cases ids) auto
qed (rule owner_off [OF R])

lemma migrateIn_single:
  assumes h: "hr_holds s kvs'" and R: "ring_pts c P kvs'" "r \<in> P" and e: "kvs' = p @ (encryptor c r, [r]) # q" and ne: "p @ q \<noteq> []"
    and N: "getNodeID r = N" and mig: "migrator_set c" and sc: "\<And>k. score_ok (encryptor c k)"
    and pl: "placed c (pts_rem (encryptor c r) r kvs') s"
  shows "\<exists>t s'. migrateIn c (encryptor c r) N s = Some (Inr t, s') \<and> hr_nodes s' = hr_nodes s \<and> nodeToReplicas s' = nodeToReplicas s \<and>
    (\<lambda>n. hr_DataKeys n s') = moved t (\<lambda>n. hr_DataKeys n s) \<and> placed c kvs' s'"
proof -
  let ?v = "encryptor c r" and ?kvs = "pts_rem (encryptor c r) r kvs'"
  have ok: "points_ok (p @ (?v, [r]) # q)" using R(1) e by (simp add: ring_pts_def)
  obtain l nx nids where n: "floor_score (decreaseScore ?v) kvs' = l" "ceil_score (incrScore ?v) kvs' = nx"
    "hd (q @ p) = (nx, nids)" "map_of kvs' nx = Some nids" "nids \<noteq> []" "score_ok l" "l \<noteq> ?v" "score_ok nx" "nx \<noteq> ?v"
    "\<not> (l > ?v \<and> nx < ?v)" and rng: "\<forall>x. ceil_score x kvs' = ?v \<longleftrightarrow> between l ?v x"
    unfolding e by (rule neighbours [OF ok ne])
  obtain n0 ns where n0: "nids = n0 # ns" using n(5) by (cases nids) auto
  define D where "D = {d \<in> hr_DataKeys (getNodeID n0) s. ceil_score (encryptor c d) kvs' = ?v}"
  define s' where "s' = hr_AddNodeToDataKeys N D (hr_DeleteNodeToDataKeys (getNodeID n0) D s)"
  have m1: "l \<noteq> - 1" "nx \<noteq> - 1" using n(6,8) by (auto simp: score_ok_def)
  have nodes: "hr_Node ?v s = Some (Inr [r])" using skip_ring.node_holds [OF h, of ?v] e at_point [OF ok] by simp
  have "Set.filter (\<lambda>d. falls_in (l > ?v) (nx < ?v) (if nx < ?v then wrap32 ((if l > ?v then wrap32 (l - MaxInt32) else l) - MaxInt32)
      else if l > ?v then wrap32 (l - MaxInt32) else l) (if nx < ?v then wrap32 (?v - MaxInt32) else ?v) (encryptor c d)) (hr_DataKeys (getNodeID n0) s) = D"
    unfolding falls_in_between [OF n(6) sc sc n(7,10)] D_def using rng by auto
  then have m: "migrateIn c ?v N s = Some (Inr (getNodeID n0, N, D), s')"
    using nodes mig skip_ring.flr_holds [OF h, of "decreaseScore ?v"] skip_ring.ceil_holds [OF h, of "incrScore ?v"]
      skip_ring.node_holds [OF h, of nx] n(1,2,4,7,9) m1 n0 by (simp add: migrateIn_def Let_def s'_def)
  have off: "owner c ?kvs d = owner c kvs' d" if "ceil_score (encryptor c d) kvs' \<noteq> ?v" for d using owner_off [OF R that] .
  have on: "owner c kvs' d = N" "owner c ?kvs d = getNodeID n0" if "ceil_score (encryptor c d) kvs' = ?v" for d
    using owner_on [OF ok ne, of c d nx n0 ns ?kvs] that n(3) n0 pts_rem_ok(2) [OF R] N e by auto
  have "owner c kvs' d = m" if "d \<in> hr_DataKeys m s'" for m d
  proof (cases "ceil_score (encryptor c d) kvs' = ?v")
    case True
    then show ?thesis using that pl on [OF True] unfolding s'_def D_def placed_def DataKeys_add DataKeys_delete by (auto split: if_splits)
  next
    case False
    then show ?thesis using that pl off [OF False] unfolding s'_def D_def placed_def DataKeys_add DataKeys_delete by (auto split: if_splits)
  qed
  then have "placed c kvs' s'" using e by (simp add: placed_def)
  then show ?thesis using m DataKeys_move [of N D "getNodeID n0" s] by (auto simp: s'_def)
qed

lemma migrateIn_places:
  assumes h: "hr_holds s kvs'" and R: "ring_pts c P kvs'" "r \<in> P" and e: "kvs' = p @ (encryptor c r, ids @ [r]) # q"
    and N: "getNodeID r = N" and mig: "migrator_set c" and sc: "\<And>k. score_ok (encryptor c k)"
    and pl: "placed c (pts_rem (encryptor c r) r kvs') s"
  shows "\<exists>t s'. migrateIn c (encryptor c r) N s = Some (Inr t, s') \<and> hr_nodes s' = hr_nodes s \<and> nodeToReplicas s' = nodeToReplicas s \<and>
    (\<lambda>n. hr_DataKeys n s') = moved t (\<lambda>n. hr_DataKeys n s) \<and> placed c kvs' s'"
proof -
  let ?v = "encryptor c r"
  have ok: "points_ok (p @ (?v, ids @ [r]) # q)" using R(1) e by (simp add: ring_pts_def)
  have nodes: "hr_Node ?v s = Some (Inr (ids @ [r]))" using skip_ring.node_holds [OF h, of ?v] e at_point [OF ok] by simp
  consider "ids \<noteq> []" | "ids = []" "p @ q = []" | "ids = []" "p @ q \<noteq> []" by blast
  then show ?thesis
  proof cases
    case 1
    then have "length (ids @ [r]) > 1" by (cases ids) auto
    then have "migrateIn c ?v N s = Some (Inr nothing, s)" using nodes mig by (simp add: migrateIn_def)
    then show ?thesis using pl shared_takes_none [OF R [unfolded e] 1] e by (auto simp: placed_def)
  next
    case 2
    then have "floor_score (decreaseScore ?v) kvs' = ?v" using floor_prev [OF ok] e by simp
    then have "migrateIn c ?v N s = Some (Inr nothing, s)"
      using nodes mig skip_ring.flr_holds [OF h] 2 by (simp add: migrateIn_def)
    moreover have "pts_rem ?v r kvs' = []" using 2 e by (simp add: pts_rem_def kv_del_def)
    ultimately show ?thesis using pl by (auto simp: placed_def)
  next
    case 3
    then show ?thesis using migrateIn_single [OF h R _ _ N mig sc pl, of p q] e by simp
  qed
qed

lemma hr_Add_index: "hr_Add c score nodeID s = Some s' \<Longrightarrow> nodeToDataKey s' = nodeToDataKey s \<and> nodeToReplicas s' = nodeToReplicas s"
  by (auto simp: hr_Add_def Let_def split: bind_splits option.splits if_splits)

text \<open>The virtual nodes of the registered nodes.\<close>

definition regs :: "(string, int) gomap \<Rightarrow> string set" where
  "regs reps = {getRawNodeKey n i |n i m. gm_get reps n = Some m \<and> 0 \<le> i \<and> i < m}"

definition vnodes :: "string \<Rightarrow> int \<Rightarrow> string set" where
  "vnodes N m = {getRawNodeKey N i |i. 0 \<le> i \<and> i < m}"

lemma vnodes_step: "0 \<le> j \<Longrightarrow> vnodes N (j + 1) = insert (getRawNodeKey N j) (vnodes N j)"
  unfolding vnodes_def by (auto simp: order_le_less)

lemma vnodes_new: "0 \<le> j \<Longrightarrow> getRawNodeKey N j \<notin> vnodes N j"
  by (auto simp: vnodes_def raw_inj)

lemma regs_other: "gm_get reps N = None \<Longrightarrow> r \<in> regs reps \<Longrightarrow> getNodeID r \<noteq> N"
  by (auto simp: regs_def)

lemma regs_set: "gm_get reps N = None \<Longrightarrow> regs (gm_set N m reps) = regs reps \<union> vnodes N m"
  unfolding regs_def vnodes_def by (auto split: if_splits) (rule_tac x = n in exI, auto)

lemma add_virtual_places:
  assumes "hr_holds s kvs" and "ring_pts c (P \<union> vnodes N j) kvs" and "\<And>r. r \<in> P \<Longrightarrow> getNodeID r \<noteq> N" and "placed c kvs s"
    and "migrator_set c" and "\<And>k. score_ok (encryptor c k)" and "0 \<le> j" and "j \<le> m"
  shows "\<exists>ts s' kvs'. add_virtual c roll N [j..m - 1] tasks s = Some (Inr (tasks @ ts), s') \<and> hr_holds s' kvs' \<and>
    ring_pts c (P \<union> vnodes N m) kvs' \<and> placed c kvs' s' \<and> nodeToReplicas s' = nodeToReplicas s \<and>
    (\<lambda>n. hr_DataKeys n s') = fold moved ts (\<lambda>n. hr_DataKeys n s)"
  using assms(1,2,4,7,8)
proof (induction "nat (m - j)" arbitrary: j s kvs tasks)
  case 0
  then have "m = j" by simp
  then show ?case using 0 by (intro exI [of _ "[]"] exI [of _ s] exI [of _ kvs]) auto
next
  case (Suc k)
  let ?r = "getRawNodeKey N j"
  have up: "[j..m - 1] = j # [j + 1..m - 1]" using Suc.hyps(2) by (simp add: upto.simps)
  have new: "?r \<notin> P \<union> vnodes N j" using assms(3) vnodes_new [OF Suc.prems(4)] by force
  obtain s1 where s1: "hr_Add (roll j) (encryptor c ?r) ?r s = Some s1" "hr_holds s1 (pts_add (encryptor c ?r) ?r kvs)"
    using skip_ring.add_holds [OF Suc.prems(1)] by blast
  let ?kvs = "pts_add (encryptor c ?r) ?r kvs"
  have R: "ring_pts c (insert ?r (P \<union> vnodes N j)) ?kvs" using pts_add_ok(1) [OF Suc.prems(2) new assms(6)] .
  obtain p ids q where e: "?kvs = p @ (encryptor c ?r, ids @ [?r]) # q" "pts_rem (encryptor c ?r) ?r ?kvs = kvs"
    using pts_add_ok(2) [OF Suc.prems(2) new assms(6)] by blast
  have same: "hr_DataKeys n s1 = hr_DataKeys n s" "nodeToReplicas s1 = nodeToReplicas s" for n using hr_Add_index [OF s1(1)] by (auto simp: hr_DataKeys_def)
  have "placed c (pts_rem (encryptor c ?r) ?r ?kvs) s1" using Suc.prems(3) same e(2) by (simp add: placed_def)
  then obtain t s2 where s2: "migrateIn c (encryptor c ?r) N s1 = Some (Inr t, s2)" "hr_nodes s2 = hr_nodes s1" "nodeToReplicas s2 = nodeToReplicas s1"
    "(\<lambda>n. hr_DataKeys n s2) = moved t (\<lambda>n. hr_DataKeys n s1)" "placed c ?kvs s2"
    using migrateIn_places [OF s1(2) R _ e(1) _ assms(5,6)] by auto
  obtain a b D where t: "t = (a, b, D)" by (cases t)
  have h2: "hr_holds s2 ?kvs" using s1(2) hr_holds_nodes [OF s2(2)] by simp
  have R2: "ring_pts c (P \<union> vnodes N (j + 1)) ?kvs" using R vnodes_step [OF Suc.prems(4)] by simp
  have "0 \<le> j + 1" "j + 1 \<le> m" "k = nat (m - (j + 1))" using Suc.hyps(2) Suc.prems(4) by auto
  then obtain ts s' kvs' where r: "add_virtual c roll N [j + 1..m - 1] (if D = {} then tasks else tasks @ [t]) s2 = Some (Inr ((if D = {} then tasks else tasks @ [t]) @ ts), s')"
    "hr_holds s' kvs'" "ring_pts c (P \<union> vnodes N m) kvs'" "placed c kvs' s'" "nodeToReplicas s' = nodeToReplicas s2"
    "(\<lambda>n. hr_DataKeys n s') = fold moved ts (\<lambda>n. hr_DataKeys n s2)"
    using Suc.hyps(1) [OF _ h2 R2 s2(5), of "if D = {} then tasks else tasks @ [t]"] by blast
  define ts' where "ts' = (if D = {} then ts else t # ts)"
  have "add_virtual c roll N [j..m - 1] tasks s = Some (Inr (tasks @ ts'), s')"
    unfolding up using s1(1) s2(1) r(1) t by (cases "D = {}") (simp_all add: ts'_def)
  moreover have "(\<lambda>n. hr_DataKeys n s') = fold moved ts' (\<lambda>n. hr_DataKeys n s)" using r(6) s2(4) same t by (auto simp: ts'_def)
  ultimately show ?case using r(2-5) s2(3) same by auto
qed

text \<open>The ring with its registered nodes and its index.\<close>

definition ch_inv :: "ConsistentHash \<Rightarrow> SkiplistHashRing \<Rightarrow> bool" where
  "ch_inv c s \<longleftrightarrow> (\<exists>kvs. hr_holds s kvs \<and> ring_pts c (regs (nodeToReplicas s)) kvs \<and> placed c kvs s)"

lemma vnodes_none: "m \<le> 0 \<Longrightarrow> vnodes N m = {}"
  by (auto simp: vnodes_def)

lemma AddNode_places:
  assumes "ch_inv c s" and "migrator_set c" and "\<And>k. score_ok (encryptor c k)" and new: "gm_get (nodeToReplicas s) N = None"
  shows "\<exists>ts s'. AddNode c roll N weight s = Some (Inr ts, s') \<and> ch_inv c s' \<and> (\<lambda>n. hr_DataKeys n s') = fold moved ts (\<lambda>n. hr_DataKeys n s)"
proof -
  obtain kvs where k: "hr_holds s kvs" "ring_pts c (regs (nodeToReplicas s)) kvs" "placed c kvs s" using assms(1) by (auto simp: ch_inv_def)
  define m where "m = wrap64 (getValidWeight weight * opt_replicas (ch_opts c))"
  define s1 where "s1 = hr_AddNodeToReplica N m s"
  have h1: "hr_holds s1 kvs" using k(1) by (simp add: s1_def hr_AddNodeToReplica_def hr_holds_def)
  have d1: "hr_DataKeys n s1 = hr_DataKeys n s" for n by (simp add: s1_def hr_AddNodeToReplica_def hr_DataKeys_def)
  have p1: "placed c kvs s1" using k(3) d1 by (simp add: placed_def)
  have R1: "ring_pts c (regs (nodeToReplicas s) \<union> vnodes N 0) kvs" using k(2) by (simp add: vnodes_none)
  have r1: "regs (nodeToReplicas s1) = regs (nodeToReplicas s) \<union> vnodes N m" using regs_set [OF new] by (simp add: s1_def hr_AddNodeToReplica_def)
  have A: "AddNode c roll N weight s = add_virtual c roll N [0..m - 1] [] s1" using new by (simp add: AddNode_def hr_Nodes_def m_def s1_def Let_def)
  show ?thesis
  proof (cases "m \<le> 0")
    case True
    then have "ch_inv c s1" using h1 p1 k(2) r1 by (auto simp: ch_inv_def vnodes_none)
    then show ?thesis using A True d1 by (intro exI [of _ "[]"] exI [of _ s1]) simp
  next
    case False
    then obtain ts s' kvs' where r: "add_virtual c roll N [0..m - 1] [] s1 = Some (Inr ([] @ ts), s')" "hr_holds s' kvs'"
      "ring_pts c (regs (nodeToReplicas s) \<union> vnodes N m) kvs'" "placed c kvs' s'" "nodeToReplicas s' = nodeToReplicas s1"
      "(\<lambda>n. hr_DataKeys n s') = fold moved ts (\<lambda>n. hr_DataKeys n s1)"
      using add_virtual_places [OF h1 R1 regs_other [OF new] p1 assms(2,3), of m] by fastforce
    then have "ch_inv c s'" using r1 by (auto simp: ch_inv_def)
    then show ?thesis using A r d1 by auto
  qed
qed

lemma GetNode_places:
  assumes "ch_inv c s"
  shows "\<exists>x s'. GetNode c d s = Some (x, s') \<and> ch_inv c s'"
proof -
  obtain kvs where k: "hr_holds s kvs" "ring_pts c (regs (nodeToReplicas s)) kvs" "placed c kvs s" using assms by (auto simp: ch_inv_def)
  have ok: "points_ok kvs" using k(2) by (simp add: ring_pts_def)
  show ?thesis
  proof (cases "kvs = []")
    case True
    then show ?thesis using GetNode_routes [OF k(1) ok] assms by simp
  next
    case False
    let ?s = "hr_AddNodeToDataKeys (owner c kvs d) {d} s"
    have "placed c kvs ?s" using k(3) False by (auto simp: placed_def DataKeys_add split: if_splits)
    then have "ch_inv c ?s" using k(1,2) hr_holds_nodes [of ?s s] by (auto simp: ch_inv_def)
    then show ?thesis using GetNode_routes [OF k(1) ok] False by simp
  qed
qed

section \<open>A node leaves\<close>

text \<open>The points of the ring in circular order from one of them on, and the next point of a point.\<close>

lemma rotation_next:
  assumes ok: "points_ok (p @ x # q)" and r: "x # q @ p = a @ (u, i) # b"
  shows "ceil_score (incrScore u) (p @ x # q) = fst (hd (b @ a @ [(u, i)]))"
proof -
  have "\<exists>p' q'. p @ x # q = p' @ (u, i) # q' \<and> q' @ p' = b @ a"
  proof -
    have "(x # q) @ p = a @ (u, i) # b" using r by simp
    then consider us where "x # q = a @ us" "us @ p = (u, i) # b" | us where "(x # q) @ us = a" "p = us @ (u, i) # b"
      unfolding append_eq_append_conv2 by auto
    then show ?thesis
    proof cases
      case 1
      show ?thesis
      proof (cases us)
        case Nil
        then show ?thesis using 1 by (intro exI [of _ "[]"] exI [of _ "b @ x # q"]) simp
      next
        case (Cons y us')
        then show ?thesis using 1 by (intro exI [of _ "p @ a"] exI [of _ us']) simp
      qed
    next
      case 2
      then show ?thesis by (intro exI [of _ us] exI [of _ "b @ x # q"]) auto
    qed
  qed
  then obtain p' q' where e: "p @ x # q = p' @ (u, i) # q'" "q' @ p' = b @ a" by blast
  have "circ (incrScore u) (p @ x # q) = b @ a @ [(u, i)]" using circ_next [of p' u i q'] ok e by (metis append.assoc)
  then show ?thesis using ceil_circ [of "p @ x # q"] by simp
qed

text \<open>The search for the successor as a scan of the points.\<close>

fun scan :: "string \<Rightarrow> points \<Rightarrow> string" where
  "scan A [] = ''''"
| "scan A ((k, ids) # rest) = (case ids of
     [] \<Rightarrow> ''''
   | n # ns \<Rightarrow> if getNodeID n \<noteq> A then getNodeID n else (case ns of n' # _ \<Rightarrow> getNodeID n' | [] \<Rightarrow> scan A rest))"

lemma getValidNextNode_scans:
  assumes h: "hr_holds s (p @ x # q)" and ok: "points_ok (p @ x # q)"
  shows "x # q @ p = a @ (u, i) # b \<Longrightarrow> a \<noteq> [] \<or> b \<noteq> [] \<Longrightarrow> length b < fuel \<Longrightarrow>
    getValidNextNode fuel u N (fst ` set a) s = Some (Inr (scan N b))"
proof (induction b arbitrary: a u i fuel)
  case Nil
  have "fst (hd a) \<in> fst ` set a" using Nil by simp
  moreover have "ceil_score (incrScore u) (p @ x # q) = fst (hd a)" using rotation_next [OF ok Nil(1)] Nil(2) by (simp add: hd_append)
  ultimately show ?case using Nil skip_ring.ceil_holds [OF h, of "incrScore u"] by (cases fuel) auto
next
  case (Cons y b)
  obtain k ids where y: "y = (k, ids)" by (cases y)
  obtain f where f: "fuel = Suc f" "length b < f" using Cons.prems(3) by (cases fuel) auto
  have srt: "distinct (map fst (p @ x # q))" using ok unfolding points_ok_def strict_sorted_iff by blast
  have "set (p @ x # q) = set (a @ (u, i) # y # b)" unfolding Cons.prems(1) [symmetric] by auto
  then have mem: "(k, ids) \<in> set (p @ x # q)" using y by auto
  then have nd: "hr_Node k s = Some (Inr ids)" using skip_ring.node_holds [OF h, of k] map_of_is_SomeI [OF srt] by simp
  have kk: "k \<noteq> - 1" "ids \<noteq> []" using ok mem unfolding points_ok_def score_ok_def by fastforce+
  have "distinct (map fst (x # q @ p))" using srt by auto
  then have nr: "k \<notin> fst ` set a" unfolding Cons.prems(1) using y by auto
  have cl: "hr_Ceiling (incrScore u) s = Some k" using rotation_next [OF ok Cons.prems(1)] skip_ring.ceil_holds [OF h] y by simp
  have e: "x # q @ p = (a @ [(u, i)]) @ (k, ids) # b" using Cons.prems(1) y by simp
  have "getValidNextNode f k N (insert u (fst ` set a)) s = Some (Inr (scan N b))"
    using Cons.IH [OF e _ f(2)] by simp
  then show ?case using f(1) y nd kk nr cl by (auto split: list.splits)
qed

lemma scan_found:
  assumes "scan A L \<noteq> ''''"
  shows "scan A L \<noteq> A \<Longrightarrow> filter (\<lambda>r. getNodeID r \<noteq> A) (concat (map snd L)) \<noteq> [] \<and>
      getNodeID (hd (filter (\<lambda>r. getNodeID r \<noteq> A) (concat (map snd L)))) = scan A L"
    and "scan A L = A \<Longrightarrow> concat (map snd L) \<noteq> [] \<and> getNodeID (hd (concat (map snd L))) = A"
  using assms by (induction A L rule: scan.induct) (auto split: list.splits if_splits)

lemma scan_none:
  "scan A L = '''' \<Longrightarrow> \<forall>(k, ids)\<in>set L. ids \<noteq> [] \<and> (\<forall>r\<in>set ids. getNodeID r \<noteq> '''') \<Longrightarrow> \<forall>(k, ids)\<in>set L. \<forall>r\<in>set ids. getNodeID r = A"
  by (induction A L rule: scan.induct) (auto split: list.splits if_splits)

text \<open>
  While the virtual nodes of \<open>N\<close> go, a key of \<open>N\<close> is still routed to \<open>N\<close>, and every other key is recorded where it is
  routed to once \<open>N\<close> is gone.
\<close>

definition stays :: "ConsistentHash \<Rightarrow> string \<Rightarrow> points \<Rightarrow> string \<Rightarrow> string option" where
  "stays c N kvs d = (case filter (\<lambda>r. getNodeID r \<noteq> N) (line (encryptor c d) kvs) of [] \<Rightarrow> None | r # _ \<Rightarrow> Some (getNodeID r))"

definition kept :: "ConsistentHash \<Rightarrow> string \<Rightarrow> points \<Rightarrow> string \<Rightarrow> bool" where
  "kept c N kvs d \<longleftrightarrow> kvs \<noteq> [] \<and> owner c kvs d = N"

definition leaving :: "ConsistentHash \<Rightarrow> string \<Rightarrow> points \<Rightarrow> SkiplistHashRing \<Rightarrow> bool" where
  "leaving c N kvs s \<longleftrightarrow> (\<forall>d\<in>hr_DataKeys N s. kept c N kvs d) \<and> (\<forall>n. n \<noteq> N \<longrightarrow> (\<forall>d\<in>hr_DataKeys n s. stays c N kvs d = Some n))"

lemma filter_remove1_other: "\<not> P r \<Longrightarrow> filter P (remove1 r xs) = filter P xs"
  by (induction xs) auto

lemma stays_rem:
  assumes "ring_pts c P kvs" and "r \<in> P" and "getNodeID r = N"
  shows "stays c N (pts_rem (encryptor c r) r kvs) d = stays c N kvs d"
  using assms(3) unfolding stays_def pts_rem_ok(2) [OF assms(1,2)] by (simp add: filter_remove1_other)

lemma line_Nil [simp]: "line x [] = []"
  by (simp add: line_def circ_def)

lemma line_kept: "line (encryptor c d) kvs = r # rs \<Longrightarrow> getNodeID r = N \<Longrightarrow> kept c N kvs d"
  by (auto simp: kept_def owner_def)

lemma kept_line:
  assumes "points_ok kvs" and "kept c N kvs d"
  obtains r rs where "line (encryptor c d) kvs = r # rs" and "getNodeID r = N"
proof -
  have ne: "kvs \<noteq> []" using assms(2) by (simp add: kept_def)
  have "line (encryptor c d) kvs \<noteq> []" by (rule circ_hd [OF assms(1) ne, of "encryptor c d"]) simp
  then show thesis using that assms(2) by (cases "line (encryptor c d) kvs") (auto simp: kept_def owner_def)
qed

lemma kept_off:
  assumes R: "ring_pts c P kvs" "r \<in> P" and k: "kept c N kvs d" and "ceil_score (encryptor c d) kvs \<noteq> encryptor c r"
  shows "kept c N (pts_rem (encryptor c r) r kvs) d"
proof -
  have ok: "points_ok kvs" and ne: "kvs \<noteq> []" using R(1) k by (auto simp: ring_pts_def kept_def)
  obtain a as where l: "line (encryptor c d) kvs = a # as" "getNodeID a = N" by (rule kept_line [OF ok k])
  then have "a \<noteq> r" using hd_line_off [OF R(1) ne assms(4)] by simp
  then have "line (encryptor c d) (pts_rem (encryptor c r) r kvs) = a # remove1 r as" using pts_rem_ok(2) [OF R, of "encryptor c d"] l by simp
  then show ?thesis using l(2) by (rule line_kept)
qed

text \<open>The keys that a virtual node gives away.\<close>

definition out_range :: "int \<Rightarrow> int \<Rightarrow> int \<Rightarrow> bool" where
  "out_range l v x \<longleftrightarrow> l = - 1 \<or> l = v \<or> falls_in (l > v) False (if l > v then wrap32 (l - MaxInt32) else l) v x"

lemma out_range_iff:
  assumes ok: "points_ok (p @ (v, ids) # q)" and "score_ok x"
  shows "out_range (floor_score (decreaseScore v) (p @ (v, ids) # q)) v x \<longleftrightarrow> ceil_score x (p @ (v, ids) # q) = v"
    and "floor_score (decreaseScore v) (p @ (v, ids) # q) = - 1 \<or> floor_score (decreaseScore v) (p @ (v, ids) # q) = v \<longleftrightarrow> p @ q = []"
proof -
  have *: "(out_range (floor_score (decreaseScore v) (p @ (v, ids) # q)) v x \<longleftrightarrow> ceil_score x (p @ (v, ids) # q) = v) \<and>
    (floor_score (decreaseScore v) (p @ (v, ids) # q) = - 1 \<or> floor_score (decreaseScore v) (p @ (v, ids) # q) = v \<longleftrightarrow> p @ q = [])"
  proof (cases "p @ q = []")
    case True
    then show ?thesis using floor_prev [OF ok] ceil_between [OF ok, of x] by (simp add: out_range_def)
  next
    case False
    obtain l nx nids where n: "floor_score (decreaseScore v) (p @ (v, ids) # q) = l" "ceil_score (incrScore v) (p @ (v, ids) # q) = nx"
      "hd (q @ p) = (nx, nids)" "map_of (p @ (v, ids) # q) nx = Some nids" "nids \<noteq> []" "score_ok l" "l \<noteq> v" "score_ok nx" "nx \<noteq> v"
      "\<not> (l > v \<and> nx < v)" and rng: "\<forall>x. ceil_score x (p @ (v, ids) # q) = v \<longleftrightarrow> between l v x"
      by (rule neighbours [OF ok False])
    have "l \<noteq> - 1" using n(6) by (simp add: score_ok_def)
    then show ?thesis using falls_in_between [OF n(6) sorted_at(3) [OF ok] assms(2) n(7), of False] n(1,7) rng False by (simp add: out_range_def)
  qed
  show "out_range (floor_score (decreaseScore v) (p @ (v, ids) # q)) v x \<longleftrightarrow> ceil_score x (p @ (v, ids) # q) = v" using * by blast
  show "floor_score (decreaseScore v) (p @ (v, ids) # q) = - 1 \<or> floor_score (decreaseScore v) (p @ (v, ids) # q) = v \<longleftrightarrow> p @ q = []" using * by blast
qed

lemma hr_holds_length: "hr_holds s kvs \<Longrightarrow> length kvs < length (hr_nodes s)"
  by (auto simp: hr_holds_def sk_rep_def sk_entries_def dest: rep_length)

lemma select_out_eq:
  fixes N :: string
  assumes h: "hr_holds s (p @ (v, n # ns) # q)" and ok: "points_ok (p @ (v, n # ns) # q)" and sc: "\<And>k. score_ok (encryptor c k)"
  defines "D \<equiv> {d \<in> hr_DataKeys N s. ceil_score (encryptor c d) (p @ (v, n # ns) # q) = v}"
  shows "select_out c v N s = Some (
    if getNodeID n \<noteq> N \<or> hr_DataKeys N s = {} then Inr (N, '''', {})
    else (case ns of
       n' # _ \<Rightarrow> Inr (N, getNodeID n', D)
     | [] \<Rightarrow> if scan N (q @ p) = '''' then Inl NoOtherNode else Inr (N, scan N (q @ p), D)))"
proof (cases "getNodeID n \<noteq> N \<or> hr_DataKeys N s = {}")
  case True
  then show ?thesis using skip_ring.node_holds [OF h, of v] at_point [OF ok] by (simp add: select_out_def)
next
  case False
  define l where "l = floor_score (decreaseScore v) (p @ (v, n # ns) # q)"
  have nd: "hr_Node v s = Some (Inr (n # ns))" using skip_ring.node_holds [OF h, of v] at_point [OF ok] by simp
  have fl: "hr_Floor (decreaseScore v) s = Some l" using skip_ring.flr_holds [OF h] by (simp add: l_def)
  have only: "l = - 1 \<or> l = v \<longleftrightarrow> p @ q = []" unfolding l_def by (rule out_range_iff(2) [OF ok sc])
  have D: "Set.filter (\<lambda>d. (l = - 1 \<or> l = v) \<or> falls_in (l > v) False (if l > v then wrap32 (l - MaxInt32) else l) v (encryptor c d)) (hr_DataKeys N s) = D"
  proof -
    have "((l = - 1 \<or> l = v) \<or> falls_in (l > v) False (if l > v then wrap32 (l - MaxInt32) else l) v (encryptor c d)) = (ceil_score (encryptor c d) (p @ (v, n # ns) # q) = v)" for d
      using out_range_iff(1) [OF ok sc, of d] unfolding l_def [symmetric] out_range_def by (simp only: disj_assoc)
    then show ?thesis unfolding D_def by auto
  qed
  have len: "length (q @ p) < Suc (length (hr_nodes s))" using hr_holds_length [OF h] by simp
  have g: "getValidNextNode (Suc (length (hr_nodes s))) v N {} s = Some (Inr (scan N (q @ p)))" if "p @ q \<noteq> []"
    using getValidNextNode_scans [OF h ok, of "[]" v "n # ns" "q @ p"] len that by (auto simp del: getValidNextNode.simps)
  show ?thesis using False nd fl only D g unfolding select_out_def by (cases ns) (auto simp: Let_def simp del: getValidNextNode.simps)
qed

text \<open>What \<open>select_out\<close> chooses: an error when no other node is on the ring, otherwise keys with a place to go.\<close>

definition gives :: "ConsistentHash \<Rightarrow> string \<Rightarrow> points \<Rightarrow> points \<Rightarrow> SkiplistHashRing \<Rightarrow> string \<Rightarrow> string set \<Rightarrow> bool" where
  "gives c N kvs kvs' s dest D \<longleftrightarrow> D \<subseteq> hr_DataKeys N s \<and> (D \<noteq> {} \<longrightarrow> dest \<noteq> '''') \<and>
     (\<forall>d\<in>D. if dest = N then kept c N kvs' d else stays c N kvs d = Some dest) \<and> (\<forall>d\<in>hr_DataKeys N s - D. kept c N kvs' d)"

lemma gives_next:
  assumes R: "ring_pts c P kvs" "r \<in> P" and N: "getNodeID r = N" and nm: "\<And>t. t \<in> P \<Longrightarrow> getNodeID t \<noteq> ''''"
    and e: "kvs = p @ (encryptor c r, n # n' # ns) # q" "r \<in> set (n # n' # ns)" "getNodeID n = N" and lv: "leaving c N kvs s"
  shows "gives c N kvs (pts_rem (encryptor c r) r kvs) s (getNodeID n') {d \<in> hr_DataKeys N s. ceil_score (encryptor c d) kvs = encryptor c r}"
proof -
  let ?v = "encryptor c r"
  have ok: "points_ok (p @ (?v, n # n' # ns) # q)" using R(1) e(1) by (simp add: ring_pts_def)
  have "n' \<in> P" using R(1) e(1) by (fastforce simp: ring_pts_def)
  then have d: "getNodeID n' \<noteq> ''''" by (rule nm)
  have l: "line (encryptor c d) kvs = n # n' # ns @ concat (map snd (q @ p))" if "ceil_score (encryptor c d) kvs = ?v" for d
    using circ_at [OF ok, of "encryptor c d"] that e(1) by (simp add: line_def)
  have "kept c N (pts_rem ?v r kvs) d" if "ceil_score (encryptor c d) kvs = ?v" "getNodeID n' = N" for d
    using line_kept [of c d "pts_rem ?v r kvs" _ _ N] pts_rem_ok(2) [OF R, of "encryptor c d"] l [OF that(1)] that(2) e(3) by (cases "n = r") auto
  moreover have "stays c N kvs d = Some (getNodeID n')" if "ceil_score (encryptor c d) kvs = ?v" "getNodeID n' \<noteq> N" for d
    using l [OF that(1)] that(2) e(3) by (simp add: stays_def)
  moreover have "kept c N (pts_rem ?v r kvs) d" if "d \<in> hr_DataKeys N s" "ceil_score (encryptor c d) kvs \<noteq> ?v" for d
    using kept_off [OF R _ that(2)] lv that(1) by (simp add: leaving_def)
  ultimately show ?thesis using d by (auto simp: gives_def)
qed

lemma gives_scan:
  assumes R: "ring_pts c P kvs" "r \<in> P" and N: "getNodeID r = N"
    and e: "kvs = p @ (encryptor c r, [r]) # q" and d: "scan N (q @ p) \<noteq> ''''" and lv: "leaving c N kvs s"
  shows "gives c N kvs (pts_rem (encryptor c r) r kvs) s (scan N (q @ p)) {d \<in> hr_DataKeys N s. ceil_score (encryptor c d) kvs = encryptor c r}"
proof -
  let ?v = "encryptor c r"
  have ok: "points_ok (p @ (?v, [r]) # q)" using R(1) e(1) by (simp add: ring_pts_def)
  have l: "line (encryptor c d) kvs = r # concat (map snd (q @ p))" if "ceil_score (encryptor c d) kvs = ?v" for d
    using circ_at [OF ok, of "encryptor c d"] that e(1) by (simp add: line_def)
  have "kept c N (pts_rem ?v r kvs) d" if "ceil_score (encryptor c d) kvs = ?v" "scan N (q @ p) = N" for d
    using scan_found(2) [OF d that(2)] l [OF that(1)] pts_rem_ok(2) [OF R, of "encryptor c d"]
    by (cases "concat (map snd (q @ p))") (auto intro: line_kept)
  moreover have "stays c N kvs d = Some (scan N (q @ p))" if "ceil_score (encryptor c d) kvs = ?v" "scan N (q @ p) \<noteq> N" for d
    using scan_found(1) [OF d that(2)] l [OF that(1)] N by (auto simp: stays_def split: list.splits)
  moreover have "kept c N (pts_rem ?v r kvs) d" if "d \<in> hr_DataKeys N s" "ceil_score (encryptor c d) kvs \<noteq> ?v" for d
    using kept_off [OF R _ that(2)] lv that(1) by (simp add: leaving_def)
  ultimately show ?thesis using d by (auto simp: gives_def)
qed

lemma migrateOut_gives:
  assumes h: "hr_holds s kvs" and R: "ring_pts c P kvs" "r \<in> P" and N: "getNodeID r = N" and nm: "\<And>t. t \<in> P \<Longrightarrow> getNodeID t \<noteq> ''''"
    and mig: "migrator_set c" and sc: "\<And>k. score_ok (encryptor c k)" and lv: "leaving c N kvs s"
  shows "(migrateOut c (encryptor c r) N s = Some (Inl NoOtherNode, s) \<and> (\<forall>t\<in>P. getNodeID t = N)) \<or>
    (\<exists>dest D. migrateOut c (encryptor c r) N s = Some (finish_out N (Inr (N, dest, D)) s) \<and> gives c N kvs (pts_rem (encryptor c r) r kvs) s dest D)"
proof -
  obtain p ids q where e: "kvs = p @ (encryptor c r, ids) # q" "r \<in> set ids" "distinct ids" "\<forall>(k, ids)\<in>set p \<union> set q. r \<notin> set ids"
    "\<forall>x\<in>set p. fst x < encryptor c r" "\<forall>x\<in>set q. encryptor c r < fst x" by (rule ring_pts_at [OF R])
  obtain n ns where n: "ids = n # ns" using e(2) by (cases ids) auto
  have ok: "points_ok (p @ (encryptor c r, n # ns) # q)" using R(1) e(1) n by (simp add: ring_pts_def)
  note se = select_out_eq [OF h [unfolded e(1) n] ok sc, of N]
  consider "getNodeID n \<noteq> N \<or> hr_DataKeys N s = {}" | n' ns' where "getNodeID n = N" "hr_DataKeys N s \<noteq> {}" "ns = n' # ns'"
    | "getNodeID n = N" "hr_DataKeys N s \<noteq> {}" "ns = []" by (cases ns) auto
  then show ?thesis
  proof cases
    case 1
    have off: "ceil_score (encryptor c d) kvs \<noteq> encryptor c r" if "d \<in> hr_DataKeys N s" for d
    proof
      assume "ceil_score (encryptor c d) kvs = encryptor c r"
      then have "line (encryptor c d) kvs = n # ns @ concat (map snd (q @ p))" using circ_at [OF ok, of "encryptor c d"] e(1) n by (simp add: line_def)
      moreover have "kept c N kvs d" using lv that by (simp add: leaving_def)
      ultimately show False using 1 that by (auto simp: kept_def owner_def)
    qed
    then have "gives c N kvs (pts_rem (encryptor c r) r kvs) s '''' {}" using kept_off [OF R _ off] lv by (simp add: gives_def leaving_def)
    then show ?thesis using se 1 mig by (auto simp: migrateOut_def)
  next
    case 2
    then show ?thesis using se mig gives_next [OF R N nm _ _ _ lv, of p n n' ns' q] e(1,2) n by (auto simp: migrateOut_def)
  next
    case 3
    then have nr: "n = r" using e(2) n by simp
    show ?thesis
    proof (cases "scan N (q @ p) = ''''")
      case True
      have on: "\<exists>x\<in>set kvs. t \<in> set (snd x)" if "t \<in> P" for t by (rule ring_pts_at [OF R(1) that]) auto
      have "\<forall>(k, ids)\<in>set (q @ p). ids \<noteq> [] \<and> (\<forall>t\<in>set ids. t \<in> P)" using R(1) e(1) unfolding ring_pts_def points_ok_def by fastforce
      then have "\<forall>(k, ids)\<in>set (q @ p). \<forall>t\<in>set ids. getNodeID t = N" using scan_none [OF True] nm by fastforce
      then have "\<forall>t\<in>P. getNodeID t = N" using on e(1) n 3(3) nr N by fastforce
      then show ?thesis using se 3 True mig by (auto simp: migrateOut_def finish_out_def)
    next
      case False
      then show ?thesis using se 3 mig gives_scan [OF R N _ False lv] e(1) n nr by (auto simp: migrateOut_def)
    qed
  qed
qed

lemma hr_Rem_index: "hr_Rem score nodeID s = Some (Inr s') \<Longrightarrow> nodeToDataKey s' = gm_del nodeID (nodeToDataKey s) \<and> nodeToReplicas s' = nodeToReplicas s"
  by (auto simp: hr_Rem_def Let_def split: bind_splits option.splits if_splits)

lemma DataKeys_del: "nodeToDataKey s' = gm_del m (nodeToDataKey s) \<Longrightarrow> hr_DataKeys n s' = (if n = m then {} else hr_DataKeys n s)"
  by (simp add: hr_DataKeys_def)

lemma gives_finish:
  assumes "gives c N kvs kvs' s dest D"
  obtains s1 where "finish_out N (Inr (N, dest, D)) s = (Inr (N, dest, D), s1)" and "hr_nodes s1 = hr_nodes s" and "nodeToReplicas s1 = nodeToReplicas s"
    and "\<forall>n. hr_DataKeys n s1 = (hr_DataKeys n s - (if n = N then D else {})) \<union> (if n = dest then D else {})"
proof -
  let ?s = "if D = {} then s else hr_AddNodeToDataKeys dest D (hr_DeleteNodeToDataKeys N D s)"
  have "finish_out N (Inr (N, dest, D)) s = (Inr (N, dest, D), ?s)" using assms by (auto simp: finish_out_def gives_def)
  then show thesis by (rule that) (auto simp: DataKeys_add DataKeys_delete)
qed

lemma gives_leaving:
  assumes R: "ring_pts c P kvs" "r \<in> P" and N: "getNodeID r = N" and lv: "leaving c N kvs s"
    and g: "gives c N kvs (pts_rem (encryptor c r) r kvs) s dest D"
    and k: "\<forall>n. hr_DataKeys n s1 = (hr_DataKeys n s - (if n = N then D else {})) \<union> (if n = dest then D else {})"
    and d: "\<And>n. hr_DataKeys n s2 \<subseteq> hr_DataKeys n s1"
  shows "leaving c N (pts_rem (encryptor c r) r kvs) s2"
proof -
  have "kept c N (pts_rem (encryptor c r) r kvs) d" if "d \<in> hr_DataKeys N s1" for d using that g k unfolding gives_def by (auto split: if_splits)
  moreover have "stays c N kvs d = Some n" if "d \<in> hr_DataKeys n s1" "n \<noteq> N" for n d
    using that g lv k unfolding gives_def leaving_def by (auto split: if_splits)
  ultimately show ?thesis using d unfolding leaving_def stays_rem [OF R N] by blast
qed

text \<open>One virtual node leaves.\<close>

lemma vnode_leaves:
  assumes h: "hr_holds s kvs" and R: "ring_pts c P kvs" "r \<in> P" and N: "getNodeID r = N" and nm: "\<And>t. t \<in> P \<Longrightarrow> getNodeID t \<noteq> ''''"
    and mig: "migrator_set c" and sc: "\<And>k. score_ok (encryptor c k)" and lv: "leaving c N kvs s"
  shows "(migrateOut c (encryptor c r) N s = Some (Inl NoOtherNode, s) \<and> (\<forall>t\<in>P. getNodeID t = N)) \<or>
    (\<exists>dest D s1 s2. migrateOut c (encryptor c r) N s = Some (Inr (N, dest, D), s1) \<and> hr_Rem (encryptor c r) r s1 = Some (Inr s2) \<and>
      hr_holds s2 (pts_rem (encryptor c r) r kvs) \<and> leaving c N (pts_rem (encryptor c r) r kvs) s2 \<and> nodeToReplicas s2 = nodeToReplicas s)"
    (is "?err \<or> ?ok")
proof (cases ?err)
  case False
  then obtain dest D where o: "migrateOut c (encryptor c r) N s = Some (finish_out N (Inr (N, dest, D)) s)"
    "gives c N kvs (pts_rem (encryptor c r) r kvs) s dest D" using migrateOut_gives [OF assms] by blast
  obtain s1 where f: "finish_out N (Inr (N, dest, D)) s = (Inr (N, dest, D), s1)" "hr_nodes s1 = hr_nodes s" "nodeToReplicas s1 = nodeToReplicas s"
    "\<forall>n. hr_DataKeys n s1 = (hr_DataKeys n s - (if n = N then D else {})) \<union> (if n = dest then D else {})" by (rule gives_finish [OF o(2)])
  have h1: "hr_holds s1 kvs" using h hr_holds_nodes [OF f(2)] by blast
  obtain p ids q where e: "kvs = p @ (encryptor c r, ids) # q" "r \<in> set ids" "distinct ids" "\<forall>(k, ids)\<in>set p \<union> set q. r \<notin> set ids"
    "\<forall>x\<in>set p. fst x < encryptor c r" "\<forall>x\<in>set q. encryptor c r < fst x" by (rule ring_pts_at [OF R])
  have at: "map_of kvs (encryptor c r) = Some ids" using filter_split [OF e(5,6)] e(1) by blast
  obtain s2 where s2: "hr_Rem (encryptor c r) r s1 = Some (Inr s2)" "hr_holds s2 (pts_rem (encryptor c r) r kvs)"
    using skip_ring.rem_holds [OF h1 at e(2)] by blast
  have "leaving c N (pts_rem (encryptor c r) r kvs) s2"
    by (rule gives_leaving [OF R N lv o(2) f(4)]) (use hr_Rem_index [OF s2(1)] DataKeys_del [of s2 r s1] in auto)
  then show ?thesis using o(1) f s2 hr_Rem_index [OF s2(1)] by auto
qed simp

definition vnodes_from :: "string \<Rightarrow> int \<Rightarrow> int \<Rightarrow> string set" where
  "vnodes_from N j m = {getRawNodeKey N i |i. j \<le> i \<and> i < m}"

lemma vnodes_from_step: "0 \<le> j \<Longrightarrow> j < m \<Longrightarrow> vnodes_from N (j + 1) m = vnodes_from N j m - {getRawNodeKey N j} \<and> getRawNodeKey N j \<in> vnodes_from N j m"
  unfolding vnodes_from_def by (auto simp: raw_inj)

lemma rem_virtual_leaves:
  assumes "hr_holds s kvs" and "ring_pts c (P \<union> vnodes_from N j m) kvs" and P: "\<And>r. r \<in> P \<Longrightarrow> getNodeID r \<noteq> N" and "leaving c N kvs s"
    and mig: "migrator_set c" and sc: "\<And>k. score_ok (encryptor c k)" and "0 \<le> j" and "j \<le> m" and nm: "\<And>t. t \<in> P \<Longrightarrow> getNodeID t \<noteq> ''''" and "N \<noteq> ''''"
  shows "\<exists>x s'. rem_virtual c N [j..m - 1] tasks s = Some (x, s') \<and> ((x = Inl NoOtherNode \<and> P = {}) \<or>
    (\<exists>ts kvs'. x = Inr ts \<and> hr_holds s' kvs' \<and> ring_pts c P kvs' \<and> leaving c N kvs' s' \<and> nodeToReplicas s' = nodeToReplicas s))"
  using assms(1,2,4,7,8)
proof (induction "nat (m - j)" arbitrary: j s kvs tasks)
  case 0
  then have "m = j" "vnodes_from N j m = {}" by (auto simp: vnodes_from_def)
  then show ?case using 0 by (intro exI [of _ "Inr tasks"] exI [of _ s]) auto
next
  case (Suc k)
  let ?r = "getRawNodeKey N j" and ?P = "P \<union> vnodes_from N j m"
  have up: "[j..m - 1] = j # [j + 1..m - 1]" using Suc.hyps(2) by (simp add: upto.simps)
  have jm: "j < m" using Suc.hyps(2) by simp
  have st: "?r \<in> ?P" "?r \<notin> P" and vn: "vnodes_from N (j + 1) m = vnodes_from N j m - {?r}" using vnodes_from_step [OF Suc.prems(4) jm] P by force+
  have names: "getNodeID t \<noteq> ''''" if "t \<in> ?P" for t using that nm \<open>N \<noteq> ''''\<close> by (auto simp: vnodes_from_def)
  note vl = vnode_leaves [OF Suc.prems(1,2) st(1) getNodeID_raw names mig sc Suc.prems(3)]
  show ?case
  proof (cases "migrateOut c (encryptor c ?r) N s = Some (Inl NoOtherNode, s) \<and> (\<forall>t\<in>?P. getNodeID t = N)")
    case True
    then have "P = {}" using P by blast
    then show ?thesis unfolding up using True by (simp add: getRawNodeKey_def)
  next
    case False
    let ?kvs = "pts_rem (encryptor c ?r) ?r kvs"
    obtain dest D s1 s2 where s2: "migrateOut c (encryptor c ?r) N s = Some (Inr (N, dest, D), s1)" "hr_Rem (encryptor c ?r) ?r s1 = Some (Inr s2)"
      "hr_holds s2 ?kvs" "leaving c N ?kvs s2" "nodeToReplicas s2 = nodeToReplicas s" using vl False by blast
    have "?P - {?r} = P \<union> vnodes_from N (j + 1) m" using vn st(2) by auto
    then have R2: "ring_pts c (P \<union> vnodes_from N (j + 1) m) ?kvs" using pts_rem_ok(1) [OF Suc.prems(2) st(1)] by simp
    define tasks' where "tasks' = (if D = {} then tasks else tasks @ [(N, dest, D)])"
    have run: "rem_virtual c N [j..m - 1] tasks s = rem_virtual c N [j + 1..m - 1] tasks' s2"
      unfolding up using s2(1,2) by (simp add: getRawNodeKey_def tasks'_def)
    have "k = nat (m - (j + 1))" "0 \<le> j + 1" "j + 1 \<le> m" using Suc.hyps(2) Suc.prems(4) jm by auto
    then show ?thesis unfolding run using Suc.hyps(1) [OF _ s2(3) R2 s2(4), of tasks'] s2(5) by simp
  qed
qed

lemma placed_leaving: "points_ok kvs \<Longrightarrow> placed c kvs s \<Longrightarrow> leaving c N kvs s"
  unfolding leaving_def
proof (intro conjI allI impI ballI)
  assume ok: "points_ok kvs" and pl: "placed c kvs s"
  show "kept c N kvs d" if "d \<in> hr_DataKeys N s" for d using pl that by (auto simp: placed_def kept_def)
  show "stays c N kvs d = Some n" if n: "n \<noteq> N" and d: "d \<in> hr_DataKeys n s" for n d
  proof -
    have "kept c n kvs d" using pl d by (auto simp: placed_def kept_def)
    then obtain r rs where "line (encryptor c d) kvs = r # rs" "getNodeID r = n" by (rule kept_line [OF ok])
    then show ?thesis using n by (simp add: stays_def)
  qed
qed

lemma leaving_placed:
  assumes R: "ring_pts c P kvs" and P: "\<And>r. r \<in> P \<Longrightarrow> getNodeID r \<noteq> N" and lv: "leaving c N kvs s"
  shows "placed c kvs s"
  unfolding placed_def
proof (intro allI ballI)
  fix n d assume d: "d \<in> hr_DataKeys n s"
  have ok: "points_ok kvs" using R by (simp add: ring_pts_def)
  have "set (line x kvs) \<subseteq> P" for x using R unfolding ring_pts_def line_def by fastforce
  then have all: "filter (\<lambda>r. getNodeID r \<noteq> N) (line x kvs) = line x kvs" for x using P by (auto simp: filter_id_conv)
  show "kvs \<noteq> [] \<and> owner c kvs d = n"
  proof (cases "n = N")
    case True
    then have "kept c N kvs d" using lv d by (simp add: leaving_def)
    then obtain r rs where "line (encryptor c d) kvs = r # rs" "getNodeID r = N" by (rule kept_line [OF ok])
    then show ?thesis using all [of "encryptor c d"] by (auto split: if_splits simp: filter_eq_Cons_iff)
  next
    case False
    then have "stays c N kvs d = Some n" using lv d by (simp add: leaving_def)
    then have "line (encryptor c d) kvs \<noteq> [] \<and> getNodeID (hd (line (encryptor c d) kvs)) = n"
      unfolding stays_def all by (cases "line (encryptor c d) kvs") auto
    then show ?thesis by (auto simp: owner_def)
  qed
qed

lemma regs_del: "gm_get reps N = Some m \<Longrightarrow> regs reps = regs (gm_del N reps) \<union> vnodes N m"
  unfolding regs_def vnodes_def by (auto split: if_splits) (rule_tac x = n in exI, auto)

lemma regs_del_other: "r \<in> regs (gm_del N reps) \<Longrightarrow> getNodeID r \<noteq> N"
  by (auto simp: regs_def split: if_splits)

lemma vnodes_from_0: "vnodes_from N 0 m = vnodes N m"
  by (simp add: vnodes_from_def vnodes_def)

lemma RemoveNode_places:
  assumes "ch_inv c s" and mig: "migrator_set c" and sc: "\<And>k. score_ok (encryptor c k)" and N: "gm_get (nodeToReplicas s) N = Some m"
    and nm: "gm_get (nodeToReplicas s) '''' = None"
  shows "\<exists>x s'. RemoveNode c N s = Some (x, s') \<and> ((x = Inl NoOtherNode \<and> regs (gm_del N (nodeToReplicas s)) = {}) \<or>
    (\<exists>ts. x = Inr ts \<and> ch_inv c s' \<and> nodeToReplicas s' = gm_del N (nodeToReplicas s)))"
proof -
  obtain kvs where k: "hr_holds s kvs" "ring_pts c (regs (nodeToReplicas s)) kvs" "placed c kvs s" using assms(1) by (auto simp: ch_inv_def)
  define s1 where "s1 = hr_DeleteNodeToReplica N s"
  let ?P = "regs (gm_del N (nodeToReplicas s))"
  have h1: "hr_holds s1 kvs" using k(1) by (simp add: s1_def hr_DeleteNodeToReplica_def hr_holds_def)
  have "placed c kvs s1" using k(3) by (simp add: s1_def hr_DeleteNodeToReplica_def placed_def hr_DataKeys_def)
  moreover have "points_ok kvs" using k(2) by (simp add: ring_pts_def)
  ultimately have lv: "leaving c N kvs s1" by (rule placed_leaving [rotated])
  have rep: "nodeToReplicas s1 = gm_del N (nodeToReplicas s)" by (simp add: s1_def hr_DeleteNodeToReplica_def)
  have R1: "ring_pts c (?P \<union> vnodes_from N 0 (max 0 m)) kvs" using k(2) regs_del [OF N] by (auto simp: vnodes_from_0 max_def vnodes_none)
  have "[0..m - 1] = [0..max 0 m - 1]" by (auto simp: max_def)
  then have RM: "RemoveNode c N s = rem_virtual c N [0..max 0 m - 1] [] s1" using N by (simp add: RemoveNode_def hr_Nodes_def s1_def)
  have nn: "N \<noteq> ''''" using N nm by auto
  have names: "getNodeID t \<noteq> ''''" if "t \<in> ?P" for t using that nm by (auto simp: regs_def split: if_splits)
  obtain x s' where r: "rem_virtual c N [0..max 0 m - 1] [] s1 = Some (x, s')" "(x = Inl NoOtherNode \<and> ?P = {}) \<or>
    (\<exists>ts kvs'. x = Inr ts \<and> hr_holds s' kvs' \<and> ring_pts c ?P kvs' \<and> leaving c N kvs' s' \<and> nodeToReplicas s' = nodeToReplicas s1)"
    using rem_virtual_leaves [where tasks = "[]", OF h1 R1 regs_del_other [of _ N "nodeToReplicas s"] lv mig sc order_refl _ names nn] by auto
  have "ch_inv c s'" if "hr_holds s' kvs'" "ring_pts c ?P kvs'" "leaving c N kvs' s'" "nodeToReplicas s' = nodeToReplicas s1" for kvs'
    using that leaving_placed [OF that(2) regs_del_other that(3)] rep by (auto simp: ch_inv_def)
  then show ?thesis using RM r rep by auto
qed

section \<open>Histories\<close>

text \<open>The states that histories lead to, as long as no removal was refused for want of another node.\<close>

inductive served :: "ConsistentHash \<Rightarrow> SkiplistHashRing \<Rightarrow> bool" for c where
  served_new: "served c NewSkiplistHashRing"
| served_step: "served c s \<Longrightarrow> ch_step c x s = Some (r, s') \<Longrightarrow> r \<noteq> RRemove (Inl NoOtherNode) \<Longrightarrow> (\<And>roll w. x \<noteq> OpAdd roll '''' w) \<Longrightarrow> served c s'"

lemma add_virtual_replicas: "add_virtual c roll N is tasks s = Some (x, s') \<Longrightarrow> nodeToReplicas s' = nodeToReplicas s"
proof (induction c roll N "is" tasks s rule: add_virtual.induct)
  case (2 c roll N i "is" tasks s)
  have mi: "nodeToReplicas s2 = nodeToReplicas s1" if "migrateIn c v N s1 = Some (y, s2)" for v y s1 s2
    using that by (auto simp: migrateIn_def Let_def split: if_splits bind_splits sum.splits list.splits)
  show ?case using 2 mi hr_Add_index by (auto simp: Let_def split: bind_splits sum.splits if_splits)
qed simp

lemma step_keeps:
  assumes "ch_inv c s" and "gm_get (nodeToReplicas s) '''' = None" and mig: "migrator_set c" and sc: "\<And>k. score_ok (encryptor c k)"
  shows "\<exists>r s'. ch_step c x s = Some (r, s') \<and>
    (r \<noteq> RRemove (Inl NoOtherNode) \<longrightarrow> (\<forall>roll w. x \<noteq> OpAdd roll '''' w) \<longrightarrow> ch_inv c s' \<and> gm_get (nodeToReplicas s') '''' = None)"
proof (cases x)
  case (OpAdd roll N w)
  show ?thesis
  proof (cases "gm_get (nodeToReplicas s) N")
    case None
    obtain ts s' where a: "AddNode c roll N w s = Some (Inr ts, s')" "ch_inv c s'" using AddNode_places [OF assms(1) mig sc None] by blast
    have "nodeToReplicas s' = gm_set N (wrap64 (getValidWeight w * opt_replicas (ch_opts c))) (nodeToReplicas s)"
      using a(1) None add_virtual_replicas by (fastforce simp: AddNode_def hr_Nodes_def Let_def hr_AddNodeToReplica_def)
    then show ?thesis using a OpAdd assms(2) by auto
  qed (use OpAdd assms in \<open>auto simp: AddNode_def hr_Nodes_def\<close>)
next
  case (OpRemove N)
  show ?thesis
  proof (cases "gm_get (nodeToReplicas s) N")
    case (Some m)
    then show ?thesis using RemoveNode_places [OF assms(1) mig sc Some assms(2)] OpRemove assms(2) by auto
  qed (use OpRemove assms in \<open>auto simp: RemoveNode_def hr_Nodes_def\<close>)
next
  case (OpGet d)
  obtain y s' where g: "GetNode c d s = Some (y, s')" "ch_inv c s'" using GetNode_places [OF assms(1)] by blast
  have "nodeToReplicas s' = nodeToReplicas s" using g(1) by (auto simp: GetNode_def split: bind_splits sum.splits list.splits if_splits)
  then show ?thesis using g OpGet assms(2) by auto
qed

lemma served_inv:
  assumes "served c s" and mig: "migrator_set c" and sc: "\<And>k. score_ok (encryptor c k)"
  shows "ch_inv c s \<and> gm_get (nodeToReplicas s) '''' = None"
  using assms(1)
proof induction
  case served_new
  have "ring_pts c {} []" by (simp add: ring_pts_def points_ok_def)
  moreover have "regs (nodeToReplicas NewSkiplistHashRing) = {}" by (simp add: regs_def NewSkiplistHashRing_def)
  moreover have "placed c [] NewSkiplistHashRing" by (simp add: placed_def NewSkiplistHashRing_def hr_DataKeys_def)
  ultimately show ?case using new_ring_holds by (auto simp: ch_inv_def NewSkiplistHashRing_def)
next
  case (served_step s x r s')
  then show ?case using step_keeps [of c s x] mig sc by auto
qed

lemma served_run:
  "ch_run c xs s = Some (rs, s') \<Longrightarrow> served c s \<Longrightarrow> RRemove (Inl NoOtherNode) \<notin> set rs \<Longrightarrow> (\<And>roll w. OpAdd roll '''' w \<notin> set xs) \<Longrightarrow> served c s'"
proof (induction xs arbitrary: s rs)
  case (Cons x xs)
  from Cons.prems(1) obtain r s1 rs' where st: "ch_step c x s = Some (r, s1)" "ch_run c xs s1 = Some (rs', s')" "rs = r # rs'"
    by (auto split: bind_splits)
  have "served c s1" by (rule served_step [OF Cons.prems(2) st(1)]) (use Cons.prems(3,4) st(3) in auto)
  then show ?case using Cons.IH [OF st(2)] Cons.prems(3,4) st(3) by simp
qed simp

lemma fnv_score: "score_ok (fnv_Encrypt k)"
proof -
  define x where "x = uint (foldl (\<lambda>h b. (h XOR of_nat (of_char b)) * 16777619) 2166136261 k :: 32 word) mod MaxInt32"
  have x: "0 \<le> x" "x < MaxInt32" unfolding x_def by (simp_all add: MaxInt32_def)
  then have "wrap32 x = x" by (simp add: wrap32_id MaxInt32_def)
  then show ?thesis using x unfolding fnv_Encrypt_def x_def [symmetric] by (simp add: score_ok_def)
qed

text \<open>
  C13. Placement. With a migrator and an encryptor whose scores are between 0 and \<open>MaxInt32\<close> (as those of \<open>FnvHasher\<close> are), in every state
  that a history of \<open>AddNode\<close>, \<open>RemoveNode\<close> and \<open>GetNode\<close> leads to, with non-empty node names and no removal refused for want of
  another node, each data key recorded for a node is routed to that node by \<open>GetNode\<close>; every further operation returns; and the removal
  of a registered node succeeds as soon as another one has a virtual node on the ring.
\<close>

theorem placement:
  assumes "served c s" and "migrator_set c" and "\<And>k. score_ok (encryptor c k)"
  shows "(\<forall>n. \<forall>d\<in>hr_DataKeys n s. \<exists>s'. GetNode c d s = Some (Inr n, s')) \<and> (\<forall>x. \<exists>r s'. ch_step c x s = Some (r, s')) \<and>
    (\<forall>N n m. gm_get (nodeToReplicas s) N \<noteq> None \<longrightarrow> n \<noteq> N \<longrightarrow> gm_get (nodeToReplicas s) n = Some m \<longrightarrow> 0 < m \<longrightarrow>
       (\<exists>ts s'. RemoveNode c N s = Some (Inr ts, s') \<and> hr_DataKeys N s' = {}))"
proof (intro conjI allI impI ballI)
  note inv = served_inv [OF assms]
  obtain kvs where k: "hr_holds s kvs" "ring_pts c (regs (nodeToReplicas s)) kvs" "placed c kvs s" using inv by (auto simp: ch_inv_def)
  show "\<exists>s'. GetNode c d s = Some (Inr n, s')" if "d \<in> hr_DataKeys n s" for n d
    using GetNode_routes [OF k(1), of c d] k(2,3) that by (auto simp: placed_def ring_pts_def)
  show "\<exists>r s'. ch_step c x s = Some (r, s')" for x using step_keeps [OF inv [THEN conjunct1] inv [THEN conjunct2] assms(2,3), of x] by blast
  fix N n m assume h: "gm_get (nodeToReplicas s) N \<noteq> None" "n \<noteq> N" "gm_get (nodeToReplicas s) n = Some m" "0 < m"
  then have "getRawNodeKey n 0 \<in> regs (gm_del N (nodeToReplicas s))" unfolding regs_def by force
  then obtain ts s' where r: "RemoveNode c N s = Some (Inr ts, s')" "ch_inv c s'" "nodeToReplicas s' = gm_del N (nodeToReplicas s)"
    using RemoveNode_places [of c s N] inv assms(2,3) h(1) by fastforce
  obtain kvs' where k': "ring_pts c (regs (nodeToReplicas s')) kvs'" "placed c kvs' s'" using r(2) by (auto simp: ch_inv_def)
  have "d \<notin> hr_DataKeys N s'" for d
  proof
    assume d: "d \<in> hr_DataKeys N s'"
    then have "kept c N kvs' d" using k'(2) by (simp add: placed_def kept_def)
    moreover have "points_ok kvs'" using k'(1) by (simp add: ring_pts_def)
    ultimately obtain t ts where l: "line (encryptor c d) kvs' = t # ts" "getNodeID t = N" by (metis kept_line)
    have "set (line (encryptor c d) kvs') \<subseteq> regs (nodeToReplicas s')" using k'(1) unfolding ring_pts_def line_def by fastforce
    then show False using l r(3) regs_del_other [of t N "nodeToReplicas s"] by auto
  qed
  then show "\<exists>ts s'. RemoveNode c N s = Some (Inr ts, s') \<and> hr_DataKeys N s' = {}" using r(1) by blast
qed

definition demo_ring :: ConsistentHash where
  "demo_ring = NewConsistentHash fnv_Encrypt True [\<lambda>p. p\<lparr>opt_replicas := 1\<rparr>]"

definition demo_ops :: "ch_op list" where
  "demo_ops = [OpAdd (\<lambda>i. 0) ''A'' 1, OpGet ''x'', OpAdd (\<lambda>i. nat i) ''B'' 2, OpGet ''y'']"

definition demo_state :: SkiplistHashRing where
  "demo_state = snd (the (ch_run demo_ring demo_ops NewSkiplistHashRing))"

lemma demo_run: "(case ch_run demo_ring demo_ops NewSkiplistHashRing of None \<Rightarrow> False | Some (rs, s) \<Rightarrow>
    RRemove (Inl NoOtherNode) \<notin> set rs \<and> hr_DataKeys ''B'' s = {''x'', ''y''} \<and> gm_get (nodeToReplicas s) ''A'' = Some 1 \<and> gm_get (nodeToReplicas s) ''B'' = Some 2)"
  by code_simp

lemma demo_served: "served demo_ring demo_state" "migrator_set demo_ring" "score_ok (encryptor demo_ring k)"
  and demo_keys: "hr_DataKeys ''B'' demo_state = {''x'', ''y''}" "gm_get (nodeToReplicas demo_state) ''A'' = Some 1" "gm_get (nodeToReplicas demo_state) ''B'' = Some 2"
proof -
  obtain rs s where r: "ch_run demo_ring demo_ops NewSkiplistHashRing = Some (rs, s)" "RRemove (Inl NoOtherNode) \<notin> set rs"
    "hr_DataKeys ''B'' s = {''x'', ''y''}" "gm_get (nodeToReplicas s) ''A'' = Some 1" "gm_get (nodeToReplicas s) ''B'' = Some 2"
    using demo_run by (auto split: option.splits prod.splits)
  have s: "demo_state = s" by (simp add: demo_state_def r(1))
  show "served demo_ring demo_state" unfolding s by (rule served_run [OF r(1) served_new r(2)]) (simp add: demo_ops_def)
  show "migrator_set demo_ring" "score_ok (encryptor demo_ring k)" by (simp_all add: demo_ring_def NewConsistentHash_def fnv_score)
  show "hr_DataKeys ''B'' demo_state = {''x'', ''y''}" "gm_get (nodeToReplicas demo_state) ''A'' = Some 1" "gm_get (nodeToReplicas demo_state) ''B'' = Some 2"
    unfolding s by (rule r)+
qed

theorem placement_witness:
  "served demo_ring demo_state \<and> (\<exists>s'. GetNode demo_ring ''x'' demo_state = Some (Inr ''B'', s')) \<and>
   (\<exists>r s'. ch_step demo_ring (OpRemove ''C'') demo_state = Some (r, s')) \<and>
   (\<exists>ts s'. RemoveNode demo_ring ''B'' demo_state = Some (Inr ts, s') \<and> hr_DataKeys ''B'' s' = {})"
proof -
  note p = placement [OF demo_served]
  have "\<exists>s'. GetNode demo_ring ''x'' demo_state = Some (Inr ''B'', s')" using p demo_keys(1) by blast
  moreover have "\<exists>r s'. ch_step demo_ring (OpRemove ''C'') demo_state = Some (r, s')" using p by blast
  moreover have "\<exists>ts s'. RemoveNode demo_ring ''B'' demo_state = Some (Inr ts, s') \<and> hr_DataKeys ''B'' s' = {}"
    by (rule p [THEN conjunct2, THEN conjunct2, rule_format, of "''B''" "''A''" 1]) (simp_all add: demo_keys)
  ultimately show ?thesis using demo_served(1) by blast
qed

text \<open>
  Migration. \<open>AddNode\<close> of a new node in such a state succeeds, and the tasks it hands to the migrator (the keys, from where and to where), carried
  out in order on the keys each node held, give the keys each node holds afterwards.
\<close>

theorem add_tasks_move_keys:
  assumes "served c s" and "migrator_set c" and "\<And>k. score_ok (encryptor c k)" and "gm_get (nodeToReplicas s) N = None" and "N \<noteq> ''''"
  shows "\<exists>ts s'. AddNode c roll N weight s = Some (Inr ts, s') \<and> served c s' \<and> (\<lambda>n. hr_DataKeys n s') = fold moved ts (\<lambda>n. hr_DataKeys n s)"
proof -
  obtain ts s' where a: "AddNode c roll N weight s = Some (Inr ts, s')" "(\<lambda>n. hr_DataKeys n s') = fold moved ts (\<lambda>n. hr_DataKeys n s)"
    using AddNode_places [OF served_inv [OF assms(1-3), THEN conjunct1] assms(2-4)] by blast
  have "served c s'" by (rule served_step [OF assms(1), of "OpAdd roll N weight" "RAdd (Inr ts)"]) (use a(1) assms(5) in auto)
  then show ?thesis using a by blast
qed

theorem add_tasks_move_keys_witness:
  "\<exists>ts s'. AddNode demo_ring (\<lambda>i. 0) ''C'' 3 demo_state = Some (Inr ts, s') \<and> served demo_ring s' \<and> (\<lambda>n. hr_DataKeys n s') = fold moved ts (\<lambda>n. hr_DataKeys n demo_state)"
  by (rule add_tasks_move_keys [OF demo_served]) (code_simp, simp)

text \<open>
  The last node cannot be removed while it has data, and the attempt forgets that it is registered: it stays on the ring, a second removal does not
  know it, and it still answers lookups.
\<close>

lemma last_node_stuck:
  "(case ch_run demo_ring [OpAdd (\<lambda>i. 0) ''A'' 1, OpGet ''x'', OpRemove ''A'', OpRemove ''A'', OpGet ''x''] NewSkiplistHashRing of None \<Rightarrow> False | Some (rs, s) \<Rightarrow>
    rs = [RAdd (Inr []), RGet (Inr ''A''), RRemove (Inl NoOtherNode), RRemove (Inl InvalidNodeID), RGet (Inr ''A'')])"
  by code_simp

text \<open>
  Taking the virtual node \<open>A_0\<close> off the ring deletes the index of a node that is called \<open>A_0\<close>: its keys are forgotten.
\<close>

lemma raw_key_wipes_index:
  "(case ch_run demo_ring [OpAdd (\<lambda>i. 0) ''A_0'' 1, OpGet ''x'', OpAdd (\<lambda>i. 0) ''A'' 1, OpGet ''x'', OpRemove ''A''] NewSkiplistHashRing of None \<Rightarrow> False | Some (rs, s) \<Rightarrow>
    last rs = RRemove (Inr []) \<and> rs ! 3 = RGet (Inr ''A_0'') \<and> hr_DataKeys ''A_0'' s = {})"
  by code_simp

end
