(* ===== verification/Ring_Lease.thy ===== *)
theory Ring_Lease
  imports Prelude
begin

text \<open>
  The leases of the local hash ring (\<open>src/apps/consistent_hash/local/hash_ring.go\<close>): \<open>LockEntityV2\<close>, a lock with an expiry
  time, and \<open>LockEntity\<close>, a mutex with an owner token and a watchdog that releases the lease when its time is over. A token is
  the process and goroutine number of the caller. The state machine of \<open>LockEntity\<close> has one step per section of
  \<open>doubleLock\<close> and one for the blocking acquisition of \<open>lock\<close> before it.
\<close>

section \<open>A lock with an expiry time\<close>

record LockEntityV2 =
  locked :: bool
  expireAt :: int
  v2_owner :: string

datatype lease_err = AcquireByOthers | NotLocked | NotYourLock

definition NewLockEntityV2 :: LockEntityV2 where
  "NewLockEntityV2 = \<lparr>locked = False, expireAt = 0, v2_owner = ''''\<rparr>"

definition v2_Lock :: "int \<Rightarrow> string \<Rightarrow> int \<Rightarrow> LockEntityV2 \<Rightarrow> lease_err + LockEntityV2" where
  "v2_Lock now token expireSeconds l =
     (if \<not> locked l \<or> expireAt l < now
      then Inr (l\<lparr>locked := True, expireAt := now + wrap64 (expireSeconds * 1000000000), v2_owner := token\<rparr>)
      else Inl AcquireByOthers)"

definition v2_Unlock :: "int \<Rightarrow> string \<Rightarrow> LockEntityV2 \<Rightarrow> lease_err + LockEntityV2" where
  "v2_Unlock now token l =
     (if \<not> locked l \<or> expireAt l < now then Inl NotLocked
      else if v2_owner l \<noteq> token then Inl NotYourLock
      else Inr (l\<lparr>locked := False\<rparr>))"

section \<open>The lease of the ring\<close>

text \<open>
  \<open>held\<close> is the mutex \<open>lock\<close>, \<open>entering\<close> the goroutine that has it and waits for \<open>doubleLock\<close> in \<open>Lock\<close>, \<open>cancel_of\<close> the watchdog that
  \<open>cancel\<close> stops, \<open>watchdogs\<close> the tokens of all that were started, \<open>stopped\<close> those whose context is cancelled and \<open>ended\<close> those that
  have returned. A stopped watchdog may still choose its timer when that has run out too.
\<close>

record LockEntity =
  held :: bool
  entering :: "(string \<times> int) option"
  owner_token :: string
  cancel_of :: "nat option"
  watchdogs :: "string list"
  stopped :: "nat set"
  ended :: "nat set"

definition NewLockEntity :: LockEntity where
  "NewLockEntity = \<lparr>held = False, entering = None, owner_token = '''', cancel_of = None, watchdogs = [], stopped = {}, ended = {}\<rparr>"

datatype lease_event = Acquire_mutex string int | Enter | Do_unlock string | Timer nat | Quit nat

datatype lease_answer = Done_ok | Refused | Fatal

text \<open>\<open>unlock\<close>; \<open>Fatal\<close> is the run-time error of unlocking a mutex that is not locked.\<close>

definition lease_unlock :: "string \<Rightarrow> LockEntity \<Rightarrow> lease_answer \<times> LockEntity" where
  "lease_unlock token l =
     (if owner_token l \<noteq> token then (Refused, l)
      else let l = l\<lparr>owner_token := ''''\<rparr>;
               l = (case cancel_of l of None \<Rightarrow> l | Some w \<Rightarrow> l\<lparr>stopped := insert w (stopped l)\<rparr>)
           in if held l then (Done_ok, l\<lparr>held := False\<rparr>) else (Fatal, l))"

text \<open>A step; no value when it is not enabled. A watchdog ends by its timer, or after it was stopped.\<close>

fun lease_step :: "lease_event \<Rightarrow> LockEntity \<Rightarrow> (lease_answer \<times> LockEntity) option" where
  "lease_step (Acquire_mutex token expireSeconds) l =
     (if held l then None else Some (Done_ok, l\<lparr>held := True, entering := Some (token, expireSeconds)\<rparr>))"
| "lease_step Enter l = (case entering l of
     None \<Rightarrow> None
   | Some (token, expireSeconds) \<Rightarrow>
       let l = l\<lparr>entering := None, owner_token := token\<rparr>
       in Some (Done_ok, if expireSeconds \<le> 0 then l
                         else l\<lparr>watchdogs := watchdogs l @ [token], cancel_of := Some (length (watchdogs l))\<rparr>))"
| "lease_step (Do_unlock token) l = Some (lease_unlock token l)"
| "lease_step (Timer w) l =
     (if w < length (watchdogs l) \<and> w \<notin> ended l then Some (lease_unlock (watchdogs l ! w) (l\<lparr>ended := insert w (ended l)\<rparr>)) else None)"
| "lease_step (Quit w) l =
     (if w < length (watchdogs l) \<and> w \<notin> ended l \<and> w \<in> stopped l
      then Some (Done_ok, l\<lparr>ended := insert w (ended l)\<rparr>) else None)"

fun lease_run :: "lease_event list \<Rightarrow> LockEntity \<Rightarrow> (lease_answer list \<times> LockEntity) option" where
  "lease_run [] l = Some ([], l)"
| "lease_run (e # es) l = do {
     (a, l) \<leftarrow> lease_step e l;
     (as, l) \<leftarrow> lease_run es l;
     Some (a # as, l) }"

text \<open>The tokens in use; the identifier of a goroutine is never empty.\<close>

fun event_ok :: "lease_event \<Rightarrow> bool" where
  "event_ok (Acquire_mutex token _) \<longleftrightarrow> token \<noteq> ''''"
| "event_ok (Do_unlock token) \<longleftrightarrow> token \<noteq> ''''"
| "event_ok _ \<longleftrightarrow> True"

definition lease_ok :: "LockEntity \<Rightarrow> bool" where
  "lease_ok l \<longleftrightarrow> (owner_token l \<noteq> '''' \<longrightarrow> held l \<and> entering l = None) \<and> (entering l \<noteq> None \<longrightarrow> held l) \<and>
     (\<forall>t e. entering l = Some (t, e) \<longrightarrow> t \<noteq> '''') \<and> (\<forall>t\<in>set (watchdogs l). t \<noteq> '''')"

lemma unlock_ok:
  assumes "lease_ok l" and "token \<noteq> ''''"
  shows "fst (lease_unlock token l) \<noteq> Fatal" and "lease_ok (snd (lease_unlock token l))"
  using assms by (auto simp: lease_unlock_def lease_ok_def Let_def split: option.splits)

lemma lease_step_ok:
  assumes "lease_ok l" and "event_ok e" and "lease_step e l = Some (a, l')"
  shows "a \<noteq> Fatal \<and> lease_ok l'"
proof (cases e)
  case (Do_unlock token)
  then show ?thesis using unlock_ok [OF assms(1), of token] assms(2,3) by simp
next
  case (Timer w)
  then have w: "w < length (watchdogs l)" and s: "lease_unlock (watchdogs l ! w) (l\<lparr>ended := insert w (ended l)\<rparr>) = (a, l')"
    using assms(3) by (auto split: if_splits)
  have "lease_ok (l\<lparr>ended := insert w (ended l)\<rparr>)" "watchdogs l ! w \<noteq> ''''" using assms(1) w by (auto simp: lease_ok_def)
  then show ?thesis using unlock_ok [of "l\<lparr>ended := insert w (ended l)\<rparr>" "watchdogs l ! w"] s by simp
qed (use assms in \<open>auto simp: lease_ok_def Let_def split: if_splits option.splits\<close>)

lemma lease_run_ok:
  assumes "lease_ok l" and "list_all event_ok es" and "lease_run es l = Some (as, l')"
  shows "Fatal \<notin> set as \<and> lease_ok l'"
  using assms
proof (induction es arbitrary: l as)
  case (Cons e es)
  from Cons.prems(3) obtain a l1 bs where s: "lease_step e l = Some (a, l1)" "lease_run es l1 = Some (bs, l')" "as = a # bs"
    by (auto split: bind_splits)
  show ?case using lease_step_ok [OF Cons.prems(1) _ s(1)] Cons.IH [OF _ _ s(2)] Cons.prems(2) s(3) by auto
qed simp

text \<open>
  In every interleaving of callers and watchdogs, with non-empty tokens, no step of the lease unlocks a mutex that is not locked (the
  fatal error that \<open>unlock\<close> guards against), and whoever is the owner has the mutex.
\<close>

theorem lease_never_fatal:
  assumes "list_all event_ok es" and "lease_run es NewLockEntity = Some (as, l)"
  shows "Fatal \<notin> set as \<and> (owner_token l \<noteq> '''' \<longrightarrow> held l)"
  using lease_run_ok [OF _ assms] by (simp add: lease_ok_def NewLockEntity_def)

theorem lease_never_fatal_witness:
  "Fatal \<notin> {Done_ok, Refused} \<and> (\<exists>l. lease_run [Acquire_mutex ''1_7'' 1, Enter, Timer 0, Do_unlock ''1_7''] NewLockEntity = Some ([Done_ok, Done_ok, Done_ok, Refused], l))"
proof -
  have r: "\<exists>l. lease_run [Acquire_mutex ''1_7'' 1, Enter, Timer 0, Do_unlock ''1_7''] NewLockEntity = Some ([Done_ok, Done_ok, Done_ok, Refused], l)"
    by (simp add: NewLockEntity_def lease_unlock_def)
  then obtain l where l: "lease_run [Acquire_mutex ''1_7'' 1, Enter, Timer 0, Do_unlock ''1_7''] NewLockEntity = Some ([Done_ok, Done_ok, Done_ok, Refused], l)" by blast
  show ?thesis using r lease_never_fatal [OF _ l] by simp
qed

text \<open>
  A stopped watchdog whose timer has run out releases the next lease of the same goroutine: while the goroutine still holds
  its second lease, another one gets the lease too.
\<close>

theorem stale_watchdog_releases:
  "\<exists>l. lease_run [Acquire_mutex ''1_7'' 15, Enter, Do_unlock ''1_7'', Acquire_mutex ''1_7'' 15, Enter, Timer 0, Acquire_mutex ''1_9'' 15, Enter] NewLockEntity =
     Some (replicate 8 Done_ok, l) \<and> owner_token l = ''1_9''"
  by (simp add: NewLockEntity_def lease_unlock_def numeral_eq_Suc)

end
