(* ===== verification/Time_Wheel.thy ===== *)
theory Time_Wheel
  imports Prelude
begin

text \<open>
  The timing wheel (\<open>src/apps/time_wheel/time_wheel.go\<close>): slots of tasks, a hand that moves one slot per tick, and an index from keys
  to list elements. The goroutine \<open>run\<close> takes one event at a time, a step here; a panic is \<open>None\<close>. The delay of a task, which
  \<open>time.Until\<close> gives, is an argument. An element of \<open>container/list\<close> is a number that is unique in the wheel.
\<close>

section \<open>The wheel\<close>

record taskElement =
  te_task :: nat
  te_pos :: nat
  te_cycle :: int
  te_key :: string

record TimeWheel =
  interval :: int
  stopped_wheel :: bool
  running :: bool
  slots :: "(nat \<times> taskElement) list list"
  curSlot :: nat
  keyToETask :: "(string, nat \<times> nat) gomap"
  nextElement :: nat

definition NewTimeWheel :: "int \<Rightarrow> int \<Rightarrow> TimeWheel" where
  "NewTimeWheel slotNum itv =
     (let slotNum = (if slotNum \<le> 0 then 10 else slotNum);
          itv = (if itv \<le> 0 then 1000000000 else itv)
      in \<lparr>interval = itv, stopped_wheel = False, running = True, slots = replicate (nat slotNum) [], curSlot = 0, keyToETask = [], nextElement = 0\<rparr>)"

text \<open>Go's division and remainder round towards zero; a zero divisor panics.\<close>

definition go_div :: "int \<Rightarrow> int \<Rightarrow> int option" where
  "go_div a b = (if b = 0 then None else Some (wrap64 (sgn a * sgn b * (\<bar>a\<bar> div \<bar>b\<bar>))))"

definition go_mod :: "int \<Rightarrow> int \<Rightarrow> int option" where
  "go_mod a b = (if b = 0 then None else Some (sgn a * (\<bar>a\<bar> mod \<bar>b\<bar>)))"

definition getPosAndCircle :: "int \<Rightarrow> TimeWheel \<Rightarrow> (int \<times> int) option" where
  "getPosAndCircle delay t = do {
     let delay = (if delay < 0 then 0 else delay);
     cycle \<leftarrow> go_div delay (wrap64 (int (length (slots t)) * interval t));
     d \<leftarrow> go_div delay (interval t);
     pos \<leftarrow> go_mod (wrap64 (int (curSlot t) + d)) (int (length (slots t)));
     Some (pos, cycle) }"

definition removeTask :: "string \<Rightarrow> TimeWheel \<Rightarrow> TimeWheel option" where
  "removeTask key t = (case gm_get (keyToETask t) key of
     None \<Rightarrow> Some t
   | Some (eTask, pos) \<Rightarrow> do {
       let t = t\<lparr>keyToETask := gm_del key (keyToETask t)\<rparr>;
       l \<leftarrow> rd (slots t) pos;
       ss \<leftarrow> wr (slots t) pos (without fst eTask l);
       Some (t\<lparr>slots := ss\<rparr>) })"

definition addTask :: "string \<Rightarrow> nat \<Rightarrow> int \<Rightarrow> TimeWheel \<Rightarrow> TimeWheel option" where
  "addTask key task delay t = do {
     (pos, cycle) \<leftarrow> getPosAndCircle delay t;
     (if pos < 0 \<or> int (length (slots t)) \<le> pos then None
      else do {
        t \<leftarrow> (if gm_get (keyToETask t) key \<noteq> None then removeTask key t else Some t);
        l \<leftarrow> rd (slots t) (nat pos);
        let e = \<lparr>te_task = task, te_pos = nat pos, te_cycle = cycle, te_key = key\<rparr>;
        ss \<leftarrow> wr (slots t) (nat pos) (l @ [(nextElement t, e)]);
        Some (t\<lparr>slots := ss, keyToETask := gm_set key (nextElement t, nat pos) (keyToETask t), nextElement := Suc (nextElement t)\<rparr>) }) }"

text \<open>The pass over a slot: the elements that stay, and the tasks that are started.\<close>

fun execute :: "(nat \<times> taskElement) list \<Rightarrow> (nat \<times> taskElement) list \<times> taskElement list" where
  "execute [] = ([], [])"
| "execute ((i, e) # es) =
     (let (stay, go) = execute es
      in if te_cycle e > 0 then ((i, e\<lparr>te_cycle := te_cycle e - 1\<rparr>) # stay, go) else (stay, e # go))"

definition circularIncr :: "TimeWheel \<Rightarrow> TimeWheel" where
  "circularIncr t = t\<lparr>curSlot := (curSlot t + 1) mod length (slots t)\<rparr>"

definition tick :: "TimeWheel \<Rightarrow> (taskElement list \<times> TimeWheel) option" where
  "tick t = do {
     l \<leftarrow> rd (slots t) (curSlot t);
     let (stay, go) = execute l;
     ss \<leftarrow> wr (slots t) (curSlot t) stay;
     Some (go, circularIncr (t\<lparr>slots := ss, keyToETask := fold (\<lambda>e. gm_del (te_key e)) go (keyToETask t)\<rparr>)) }"

text \<open>
  The events of the wheel. After \<open>Stop\<close> the goroutine returns at some later point; an \<open>AddTask\<close> or \<open>RemoveTask\<close> that finds the
  wheel stopped returns without effect.
\<close>

datatype wheel_event = Tick | AddTask string nat int | RemoveTask string | Stop | Run_returns

definition wheel_step :: "wheel_event \<Rightarrow> TimeWheel \<Rightarrow> (taskElement list \<times> TimeWheel) option" where
  "wheel_step ev t = (case ev of
     Tick \<Rightarrow> if running t then tick t else Some ([], t)
   | AddTask key task delay \<Rightarrow> if running t then map_option (Pair []) (addTask key task delay t) else Some ([], t)
   | RemoveTask key \<Rightarrow> if running t then map_option (Pair []) (removeTask key t) else Some ([], t)
   | Stop \<Rightarrow> Some ([], t\<lparr>stopped_wheel := True\<rparr>)
   | Run_returns \<Rightarrow> Some ([], if stopped_wheel t then t\<lparr>running := False\<rparr> else t))"

fun wheel_run :: "wheel_event list \<Rightarrow> TimeWheel \<Rightarrow> (taskElement list list \<times> TimeWheel) option" where
  "wheel_run [] t = Some ([], t)"
| "wheel_run (ev # evs) t = do {
     (go, t) \<leftarrow> wheel_step ev t;
     (gos, t) \<leftarrow> wheel_run evs t;
     Some (go # gos, t) }"

section \<open>Deadlines\<close>

text \<open>
  The abstract timer: for each key the number of ticks that go by before its task runs, and the task. The tasks with none left run
  at the next tick.
\<close>

type_synonym deadlines = "string \<rightharpoonup> nat \<times> nat"

record timer =
  tm_due :: deadlines
  tm_stopped :: bool
  tm_running :: bool

definition spec_tick :: "deadlines \<Rightarrow> deadlines" where
  "spec_tick m = (\<lambda>k. case m k of Some (Suc j, x) \<Rightarrow> Some (j, x) | _ \<Rightarrow> None)"

definition spec_fires :: "deadlines \<Rightarrow> (string \<times> nat) set" where
  "spec_fires m = {(k, x). m k = Some (0, x)}"

definition spec_step :: "int \<Rightarrow> wheel_event \<Rightarrow> timer \<Rightarrow> (string \<times> nat) set \<times> timer" where
  "spec_step itv ev m = (case ev of
     Tick \<Rightarrow> if tm_running m then (spec_fires (tm_due m), m\<lparr>tm_due := spec_tick (tm_due m)\<rparr>) else ({}, m)
   | AddTask key task delay \<Rightarrow> ({}, if tm_running m then m\<lparr>tm_due := (tm_due m)(key \<mapsto> (nat (max 0 delay div itv), task))\<rparr> else m)
   | RemoveTask key \<Rightarrow> ({}, if tm_running m then m\<lparr>tm_due := (tm_due m)(key := None)\<rparr> else m)
   | Stop \<Rightarrow> ({}, m\<lparr>tm_stopped := True\<rparr>)
   | Run_returns \<Rightarrow> ({}, if tm_stopped m then m\<lparr>tm_running := False\<rparr> else m))"

fun spec_run :: "int \<Rightarrow> wheel_event list \<Rightarrow> timer \<Rightarrow> (string \<times> nat) set list \<times> timer" where
  "spec_run itv [] m = ([], m)"
| "spec_run itv (ev # evs) m = (let (x, m) = spec_step itv ev m; (xs, m) = spec_run itv evs m in (x # xs, m))"

text \<open>The wheel as deadlines: the way of the hand to the slot, and a round for each cycle.\<close>

definition due :: "TimeWheel \<Rightarrow> deadlines" where
  "due t = (\<lambda>k. case gm_get (keyToETask t) k of
     None \<Rightarrow> None
   | Some (i, p) \<Rightarrow> (case map_of (slots t ! p) i of
       None \<Rightarrow> None
     | Some e \<Rightarrow> Some ((p + length (slots t) - curSlot t) mod length (slots t) + length (slots t) * nat (te_cycle e), te_task e)))"

definition wheel_ok :: "TimeWheel \<Rightarrow> bool" where
  "wheel_ok t \<longleftrightarrow> 0 < interval t \<and> curSlot t < length (slots t) \<and>
     (\<forall>p<length (slots t). distinct (map fst (slots t ! p)) \<and>
        (\<forall>(i, e)\<in>set (slots t ! p). te_pos e = p \<and> 0 \<le> te_cycle e \<and> i < nextElement t \<and> gm_get (keyToETask t) (te_key e) = Some (i, p))) \<and>
     (\<forall>k i p. gm_get (keyToETask t) k = Some (i, p) \<longrightarrow> p < length (slots t) \<and> (\<exists>e. (i, e) \<in> set (slots t ! p) \<and> te_key e = k))"

lemma getPosAndCircle_ok:
  assumes "0 < interval t" and n: "0 < length (slots t)" and "curSlot t < length (slots t)" and b: "max 0 delay + int (length (slots t)) * interval t < 2 ^ 63"
  shows "getPosAndCircle delay t = Some (int ((curSlot t + nat (max 0 delay div interval t)) mod length (slots t)), int (nat (max 0 delay div interval t) div length (slots t)))"
proof -
  let ?d = "max 0 delay" and ?n = "int (length (slots t))" and ?i = "interval t"
  have ni: "0 < ?n * ?i" "?n * ?i < 2 ^ 63" using assms(1) n b by auto
  have q: "0 \<le> ?d div ?i" using assms(1) by (simp add: pos_imp_zdiv_nonneg_iff)
  have qd: "?d div ?i \<le> ?d" using assms(1) zdiv_mono2 [of ?d 1 ?i] by simp
  have ni1: "?n \<le> ?n * ?i" using assms(1) n by simp
  have c: "wrap64 (int (curSlot t) + ?d div ?i) = int (curSlot t) + ?d div ?i"
    using q qd b ni1 assms(3) by (intro wrap64_id) auto
  have w: "wrap64 (?n * ?i) = ?n * ?i" using ni by (intro wrap64_id) auto
  have e: "?d div (?n * ?i) = ?d div ?i div ?n" using assms(1) by (metis mult.commute order_less_imp_le zdiv_zmult2_eq of_nat_0_le_iff)
  have r: "0 \<le> ?d div (?n * ?i)" "?d div (?n * ?i) \<le> ?d" using ni zdiv_mono2 [of ?d 1 "?n * ?i"] by (auto simp: pos_imp_zdiv_nonneg_iff)
  have d63: "?d < 2 ^ 63" using b ni by linarith
  have g1: "go_div ?d (?n * ?i) = Some (?d div ?i div ?n)"
    using ni r d63 e wrap64_id [of "?d div (?n * ?i)"] by (cases "?d = 0") (auto simp: go_div_def sgn_if)
  have g2: "go_div ?d ?i = Some (?d div ?i)"
    using assms(1) q qd d63 wrap64_id [of "?d div ?i"] by (cases "?d = 0") (auto simp: go_div_def sgn_if)
  have g3: "go_mod (int (curSlot t) + ?d div ?i) ?n = Some ((int (curSlot t) + ?d div ?i) mod ?n)"
    using n q by (cases "int (curSlot t) + ?d div ?i = 0") (auto simp: go_mod_def sgn_if)
  have dd: "(if delay < 0 then 0 else delay) = ?d" by simp
  show ?thesis unfolding getPosAndCircle_def dd using g1 g2 g3 c w q by (simp add: zdiv_int zmod_int Let_def)
qed

lemma ok_slot:
  assumes "wheel_ok t" and "gm_get (keyToETask t) k = Some (i, p)"
  obtains e where "p < length (slots t)" and "(i, e) \<in> set (slots t ! p)" and "te_key e = k" and "map_of (slots t ! p) i = Some e"
proof -
  obtain e where e: "p < length (slots t)" "(i, e) \<in> set (slots t ! p)" "te_key e = k" using assms unfolding wheel_ok_def by blast
  moreover have "distinct (map fst (slots t ! p))" using assms(1) e(1) by (simp add: wheel_ok_def)
  ultimately show thesis using that by simp
qed

lemma due_at:
  assumes ok: "wheel_ok t" and "gm_get (keyToETask t) k = Some (i, p)" and "(i, e) \<in> set (slots t ! p)" and p: "p < length (slots t)"
  shows "due t k = Some ((p + length (slots t) - curSlot t) mod length (slots t) + length (slots t) * nat (te_cycle e), te_task e)"
proof -
  have "distinct (map fst (slots t ! p))" using ok p by (simp add: wheel_ok_def)
  then have "map_of (slots t ! p) i = Some e" using assms(3) by simp
  then show ?thesis using assms(2) by (simp add: due_def)
qed

lemma due_off: "gm_get (keyToETask t) k = None \<Longrightarrow> due t k = None"
  by (simp add: due_def)

lemma ok_old:
  assumes "wheel_ok t" and "q < length (slots t)" and "(j, x) \<in> set (slots t ! q)"
  shows "te_pos x = q \<and> 0 \<le> te_cycle x \<and> j < nextElement t \<and> gm_get (keyToETask t) (te_key x) = Some (j, q)"
  using assms unfolding wheel_ok_def by fastforce

text \<open>A change of the slots and the index that keeps some elements in their places, perhaps with another cycle.\<close>

lemma wheel_okI:
  assumes "0 < interval t" and "curSlot t < length (slots t)"
    and "\<And>p. p < length (slots t) \<Longrightarrow> distinct (map fst (slots t ! p))"
    and "\<And>p i e. p < length (slots t) \<Longrightarrow> (i, e) \<in> set (slots t ! p) \<Longrightarrow>
      te_pos e = p \<and> 0 \<le> te_cycle e \<and> i < nextElement t \<and> gm_get (keyToETask t) (te_key e) = Some (i, p)"
    and "\<And>k i p. gm_get (keyToETask t) k = Some (i, p) \<Longrightarrow> p < length (slots t) \<and> (\<exists>e. (i, e) \<in> set (slots t ! p) \<and> te_key e = k)"
  shows "wheel_ok t"
  unfolding wheel_ok_def using assms by fast

section \<open>Removing a task\<close>

lemma removeTask_ok:
  assumes ok: "wheel_ok t"
  shows "\<exists>t'. removeTask k t = Some t' \<and> wheel_ok t' \<and> due t' = (due t)(k := None) \<and> gm_get (keyToETask t') k = None \<and>
    interval t' = interval t \<and> length (slots t') = length (slots t) \<and> curSlot t' = curSlot t \<and> running t' = running t \<and> stopped_wheel t' = stopped_wheel t"
proof (cases "gm_get (keyToETask t) k")
  case None
  then have "due t k = None" by (simp add: due_def)
  then show ?thesis using None ok by (auto simp: removeTask_def)
next
  case (Some ip)
  obtain i p where ip: "ip = (i, p)" by (cases ip)
  obtain e where e: "p < length (slots t)" "(i, e) \<in> set (slots t ! p)" "te_key e = k" "map_of (slots t ! p) i = Some e"
    by (rule ok_slot [OF ok Some [unfolded ip]])
  define t' where "t' = t\<lparr>keyToETask := gm_del k (keyToETask t), slots := (slots t)[p := without fst i (slots t ! p)]\<rparr>"
  have r: "removeTask k t = Some t'" using Some ip e(1) by (simp add: removeTask_def t'_def rd_def wr_def)
  have sl: "slots t' ! q = (if q = p then without fst i (slots t ! p) else slots t ! q)" if "q < length (slots t)" for q
    using that e(1) by (simp add: t'_def nth_list_update)
  note old = ok_old [OF ok]
  have mem: "(j, x) \<in> set (slots t' ! q) \<longleftrightarrow> (j, x) \<in> set (slots t ! q) \<and> te_key x \<noteq> k" if q: "q < length (slots t)" for q j x
  proof (cases "(j, x) \<in> set (slots t ! q)")
    case True
    have o: "gm_get (keyToETask t) (te_key x) = Some (j, q)" using old [OF q True] by simp
    have d: "distinct (map fst (slots t ! p))" using ok e(1) by (simp add: wheel_ok_def)
    have "te_key x = k \<longleftrightarrow> q = p \<and> j = i"
    proof
      assume "te_key x = k"
      then show "q = p \<and> j = i" using o Some ip by simp
    next
      assume "q = p \<and> j = i"
      then have "x = e" using d True e(4) by auto
      then show "te_key x = k" using e(3) by simp
    qed
    then show ?thesis using True sl [OF q] by auto
  qed (use sl [OF q] in \<open>auto split: if_splits\<close>)
  have ok': "wheel_ok t'"
  proof (rule wheel_okI)
    show "0 < interval t'" "curSlot t' < length (slots t')" using ok by (simp_all add: wheel_ok_def t'_def)
  next
    fix q assume "q < length (slots t')"
    then have q: "q < length (slots t)" by (simp add: t'_def)
    have "distinct (map fst (slots t ! q))" using ok q by (simp add: wheel_ok_def)
    then show "distinct (map fst (slots t' ! q))" using sl [OF q] distinct_map_without by auto
  next
    fix q j x assume "q < length (slots t')" "(j, x) \<in> set (slots t' ! q)"
    then have q: "q < length (slots t)" "(j, x) \<in> set (slots t ! q)" "te_key x \<noteq> k" using mem by (auto simp: t'_def)
    show "te_pos x = q \<and> 0 \<le> te_cycle x \<and> j < nextElement t' \<and> gm_get (keyToETask t') (te_key x) = Some (j, q)"
      using old [OF q(1,2)] q(3) by (simp add: t'_def)
  next
    fix k' j q assume h: "gm_get (keyToETask t') k' = Some (j, q)"
    then have k': "k' \<noteq> k" "gm_get (keyToETask t) k' = Some (j, q)" by (auto simp: t'_def split: if_splits)
    obtain x where x: "q < length (slots t)" "(j, x) \<in> set (slots t ! q)" "te_key x = k'" "map_of (slots t ! q) j = Some x" by (rule ok_slot [OF ok k'(2)])
    then show "q < length (slots t') \<and> (\<exists>x. (j, x) \<in> set (slots t' ! q) \<and> te_key x = k')" using mem [OF x(1)] k'(1) by (auto simp: t'_def)
  qed
  have "due t' k' = ((due t)(k := None)) k'" for k'
  proof (cases "k' = k \<or> gm_get (keyToETask t) k' = None")
    case True
    then show ?thesis by (auto simp: due_def t'_def)
  next
    case False
    then obtain j q where g: "gm_get (keyToETask t) k' = Some (j, q)" by auto
    obtain x where x: "q < length (slots t)" "(j, x) \<in> set (slots t ! q)" "te_key x = k'" "map_of (slots t ! q) j = Some x" by (rule ok_slot [OF ok g])
    have g': "gm_get (keyToETask t') k' = Some (j, q)" "(j, x) \<in> set (slots t' ! q)" "q < length (slots t')" using g x False mem [OF x(1)] by (auto simp: t'_def)
    show ?thesis using due_at [OF ok' g'] due_at [OF ok g x(2,1)] False by (simp add: t'_def)
  qed
  then show ?thesis using r ok' by (auto simp: t'_def fun_eq_iff)
qed

section \<open>Adding a task\<close>

lemma insert_ok:
  fixes x :: nat
  assumes ok: "wheel_ok t" and new: "gm_get (keyToETask t) k = None" and p: "p < length (slots t)" and c: "0 \<le> cy"
  defines "e \<equiv> \<lparr>te_task = x, te_pos = p, te_cycle = cy, te_key = k\<rparr>"
  defines "t' \<equiv> t\<lparr>slots := (slots t)[p := slots t ! p @ [(nextElement t, e)]], keyToETask := gm_set k (nextElement t, p) (keyToETask t), nextElement := Suc (nextElement t)\<rparr>"
  shows "wheel_ok t' \<and> due t' = (due t)(k \<mapsto> ((p + length (slots t) - curSlot t) mod length (slots t) + length (slots t) * nat cy, x))"
proof -
  note old = ok_old [OF ok]
  have sl: "slots t' ! q = (if q = p then slots t ! p @ [(nextElement t, e)] else slots t ! q)" if "q < length (slots t)" for q
    using that p by (simp add: t'_def nth_list_update)
  have ok': "wheel_ok t'"
  proof (rule wheel_okI)
    show "0 < interval t'" "curSlot t' < length (slots t')" using ok by (simp_all add: wheel_ok_def t'_def)
  next
    fix q assume "q < length (slots t')"
    then have q: "q < length (slots t)" by (simp add: t'_def)
    have "distinct (map fst (slots t ! q))" using ok q by (simp add: wheel_ok_def)
    moreover have "nextElement t \<notin> fst ` set (slots t ! q)" using old [OF q] by fastforce
    ultimately show "distinct (map fst (slots t' ! q))" using sl [OF q] by auto
  next
    fix q j y assume "q < length (slots t')" "(j, y) \<in> set (slots t' ! q)"
    then consider "q < length (slots t)" "(j, y) \<in> set (slots t ! q)" | "q = p" "j = nextElement t" "y = e"
      using sl [of q] by (auto simp: t'_def split: if_splits)
    then show "te_pos y = q \<and> 0 \<le> te_cycle y \<and> j < nextElement t' \<and> gm_get (keyToETask t') (te_key y) = Some (j, q)"
    proof cases
      case 1
      then show ?thesis using old [OF 1] new by (auto simp: t'_def)
    qed (use c in \<open>simp add: t'_def e_def\<close>)
  next
    fix k' j q assume h: "gm_get (keyToETask t') k' = Some (j, q)"
    show "q < length (slots t') \<and> (\<exists>y. (j, y) \<in> set (slots t' ! q) \<and> te_key y = k')"
    proof (cases "k' = k")
      case True
      then show ?thesis using h p sl [OF p] by (auto simp: t'_def e_def)
    next
      case False
      then have g: "gm_get (keyToETask t) k' = Some (j, q)" using h by (simp add: t'_def)
      obtain y where "q < length (slots t)" "(j, y) \<in> set (slots t ! q)" "te_key y = k'" "map_of (slots t ! q) j = Some y" by (rule ok_slot [OF ok g])
      then show ?thesis using sl [of q] by (auto simp: t'_def)
    qed
  qed
  have "due t' k' = ((due t)(k \<mapsto> ((p + length (slots t) - curSlot t) mod length (slots t) + length (slots t) * nat cy, x))) k'" for k'
  proof (cases "k' = k")
    case True
    then show ?thesis using due_at [OF ok', of k "nextElement t" p e] p sl [OF p] by (simp add: t'_def e_def)
  next
    case False
    show ?thesis
    proof (cases "gm_get (keyToETask t) k'")
      case (Some jq)
      obtain j q where jq: "jq = (j, q)" by (cases jq)
      obtain y where y: "q < length (slots t)" "(j, y) \<in> set (slots t ! q)" "te_key y = k'" "map_of (slots t ! q) j = Some y" by (rule ok_slot [OF ok Some [unfolded jq]])
      have "gm_get (keyToETask t') k' = Some (j, q)" "(j, y) \<in> set (slots t' ! q)" "q < length (slots t')" using Some jq False y sl [OF y(1)] by (auto simp: t'_def)
      then show ?thesis using due_at [OF ok'] due_at [OF ok Some [unfolded jq] y(2,1)] False by (simp add: t'_def)
    qed (use False in \<open>simp add: due_def t'_def\<close>)
  qed
  then show ?thesis using ok' by auto
qed

lemma slot_distance: "c < n \<Longrightarrow> ((c + k) mod n + n - c) mod n + n * (k div n) = (k :: nat)"
proof -
  assume c: "c < n"
  have "((c + k) mod n + (n - c)) mod n = (c + k + (n - c)) mod n" by (rule mod_add_left_eq)
  also have "c + k + (n - c) = k + n" using c by simp
  finally have "((c + k) mod n + n - c) mod n = k mod n" using c by simp
  then show ?thesis by simp
qed

lemma addTask_ok:
  assumes ok: "wheel_ok t" and b: "max 0 delay + int (length (slots t)) * interval t < 2 ^ 63"
  shows "\<exists>t'. addTask k x delay t = Some t' \<and> wheel_ok t' \<and> due t' = (due t)(k \<mapsto> (nat (max 0 delay div interval t), x)) \<and>
    interval t' = interval t \<and> length (slots t') = length (slots t) \<and> running t' = running t \<and> stopped_wheel t' = stopped_wheel t"
proof -
  define n where "n = length (slots t)"
  define K where "K = nat (max 0 delay div interval t)"
  define P where "P = (curSlot t + K) mod n"
  define C where "C = K div n"
  have c: "curSlot t < n" "0 < interval t" using ok by (simp_all add: wheel_ok_def n_def)
  then have "0 < n" by linarith
  then have g: "getPosAndCircle delay t = Some (int P, int C)" and p: "P < n"
    using getPosAndCircle_ok [OF c(2), of delay] c(1) b unfolding n_def [symmetric] K_def [symmetric] P_def [symmetric] C_def [symmetric] by (simp_all add: P_def)
  obtain t1 where t1: "removeTask k t = Some t1" "wheel_ok t1" "due t1 = (due t)(k := None)" "gm_get (keyToETask t1) k = None"
    "interval t1 = interval t" "length (slots t1) = n" "curSlot t1 = curSlot t" "running t1 = running t" "stopped_wheel t1 = stopped_wheel t"
    using removeTask_ok [OF ok, of k] unfolding n_def by blast
  have r: "(if gm_get (keyToETask t) k \<noteq> None then removeTask k t else Some t) = Some t1" using t1(1) by (cases "gm_get (keyToETask t) k") (auto simp: removeTask_def)
  define t2 where "t2 = t1\<lparr>slots := (slots t1)[P := slots t1 ! P @ [(nextElement t1, \<lparr>te_task = x, te_pos = P, te_cycle = int C, te_key = k\<rparr>)]],
    keyToETask := gm_set k (nextElement t1, P) (keyToETask t1), nextElement := Suc (nextElement t1)\<rparr>"
  have p1: "P < length (slots t1)" using p t1(6) by simp
  have "addTask k x delay t = Some t2" using g p r t1(6) by (simp add: addTask_def rd_def wr_def n_def [symmetric] t2_def del: not_None_eq)
  moreover have "wheel_ok t2 \<and> due t2 = (due t1)(k \<mapsto> ((P + n - curSlot t) mod n + n * C, x))"
    unfolding t2_def using insert_ok [OF t1(2,4) p1, of "int C" x] unfolding t1(6,7) by simp
  moreover have "(P + n - curSlot t) mod n + n * C = K" unfolding P_def C_def by (rule slot_distance [OF c(1)])
  ultimately show ?thesis using t1(3,5-9) unfolding K_def [symmetric] n_def [symmetric] by (simp add: t2_def)
qed

section \<open>A tick\<close>

lemma execute_spec:
  "execute l = (stay, go) \<Longrightarrow> stay = map (\<lambda>(i, e). (i, e\<lparr>te_cycle := te_cycle e - 1\<rparr>)) (filter (\<lambda>(i, e). te_cycle e > 0) l) \<and> go = map snd (filter (\<lambda>(i, e). \<not> te_cycle e > 0) l)"
  by (induction l arbitrary: stay go) (auto simp: Let_def split: prod.splits if_splits)

lemma fold_del: "map_of (fold (\<lambda>e. gm_del (te_key e)) go m) = (\<lambda>k. if k \<in> te_key ` set go then None else map_of m k)"
  by (induction go arbitrary: m) (auto simp: fun_eq_iff)

lemma hand_moves:
  assumes "c < n" and "p < n" and "p \<noteq> c"
  shows "(p + n - c) mod n = Suc ((p + n - (c + 1) mod n) mod n)"
proof (cases "c + 1 = n")
  case True
  have d: "p + n - c = Suc p" "Suc p < n" using assms True by auto
  show ?thesis unfolding d(1) using True d(2) by simp
next
  case False
  then have m: "(c + 1) mod n = c + 1" using assms(1) by simp
  show ?thesis using assms False unfolding m by (auto simp: mod_if)
qed

lemma hand_wraps: "(c :: nat) < n \<Longrightarrow> (c + n - (c + 1) mod n) mod n = n - 1"
proof (cases "c + 1 = n")
  case False
  assume "c < n"
  then have "c + 1 < n" using False by simp
  then have "(c + 1) mod n = c + 1" "c + n - (c + 1) = n - 1" "n - 1 < n" by simp_all
  then show ?thesis by (metis mod_less)
qed auto

definition ticked :: "TimeWheel \<Rightarrow> (nat \<times> taskElement) list \<Rightarrow> taskElement list \<Rightarrow> TimeWheel \<Rightarrow> bool" where
  "ticked t stay go t' \<longleftrightarrow> wheel_ok t \<and> execute (slots t ! curSlot t) = (stay, go) \<and>
     t' = t\<lparr>slots := (slots t)[curSlot t := stay], keyToETask := fold (\<lambda>e. gm_del (te_key e)) go (keyToETask t), curSlot := (curSlot t + 1) mod length (slots t)\<rparr>"

lemma tick_ticked:
  assumes "wheel_ok t"
  obtains stay go t' where "tick t = Some (go, t')" and "ticked t stay go t'"
proof -
  obtain stay go where x: "execute (slots t ! curSlot t) = (stay, go)" by (cases "execute (slots t ! curSlot t)")
  have "curSlot t < length (slots t)" using assms by (simp add: wheel_ok_def)
  then show thesis using that x assms by (simp add: tick_def rd_def wr_def circularIncr_def ticked_def)
qed

lemma ticked_facts:
  assumes "ticked t stay go t'"
  shows "wheel_ok t" and "curSlot t < length (slots t)" and "length (slots t') = length (slots t)" and "curSlot t' = (curSlot t + 1) mod length (slots t)"
    and "q < length (slots t) \<Longrightarrow> slots t' ! q = (if q = curSlot t then stay else slots t ! q)"
    and "gm_get (keyToETask t') = (\<lambda>k. if k \<in> te_key ` set go then None else gm_get (keyToETask t) k)"
    and "nextElement t' = nextElement t" and "interval t' = interval t" and "running t' = running t" and "stopped_wheel t' = stopped_wheel t"
  using assms by (auto simp: ticked_def wheel_ok_def nth_list_update fold_del)

lemma ticked_sets:
  assumes t: "ticked t stay go t'"
  shows "e \<in> set go \<longleftrightarrow> (\<exists>i. (i, e) \<in> set (slots t ! curSlot t)) \<and> te_cycle e = 0"
    and "(i, e') \<in> set stay \<longleftrightarrow> (\<exists>e. (i, e) \<in> set (slots t ! curSlot t) \<and> 0 < te_cycle e \<and> e' = e\<lparr>te_cycle := te_cycle e - 1\<rparr>)"
    and "map fst stay = map fst (filter (\<lambda>(i, e). te_cycle e > 0) (slots t ! curSlot t))"
    and "go = map snd (filter (\<lambda>(i, e). \<not> te_cycle e > 0) (slots t ! curSlot t))"
proof -
  have "execute (slots t ! curSlot t) = (stay, go)" using t by (simp add: ticked_def)
  note ex = execute_spec [OF this]
  note old = ok_old [OF ticked_facts(1,2) [OF t]]
  show "e \<in> set go \<longleftrightarrow> (\<exists>i. (i, e) \<in> set (slots t ! curSlot t)) \<and> te_cycle e = 0" using ex old by force
  show "(i, e') \<in> set stay \<longleftrightarrow> (\<exists>e. (i, e) \<in> set (slots t ! curSlot t) \<and> 0 < te_cycle e \<and> e' = e\<lparr>te_cycle := te_cycle e - 1\<rparr>)" using ex by force
  show "map fst stay = map fst (filter (\<lambda>(i, e). te_cycle e > 0) (slots t ! curSlot t))" using ex by (simp add: case_prod_unfold)
  show "go = map snd (filter (\<lambda>(i, e). \<not> te_cycle e > 0) (slots t ! curSlot t))" using ex by blast
qed

lemma ticked_gone:
  assumes t: "ticked t stay go t'" and q: "q < length (slots t)" "(i, e) \<in> set (slots t ! q)"
  shows "te_key e \<in> te_key ` set go \<longleftrightarrow> q = curSlot t \<and> te_cycle e = 0"
proof
  note ok = ticked_facts(1) [OF t] and c = ticked_facts(2) [OF t]
  assume "te_key e \<in> te_key ` set go"
  then obtain j y where y: "(j, y) \<in> set (slots t ! curSlot t)" "te_cycle y = 0" "te_key y = te_key e" using ticked_sets(1) [OF t] by auto
  then have "i = j" "q = curSlot t" using ok_old [OF ok q] ok_old [OF ok c y(1)] by auto
  moreover have "distinct (map fst (slots t ! curSlot t))" using ok c by (simp add: wheel_ok_def)
  ultimately have "e = y" using y(1) q(2) by (auto dest: eq_key_imp_eq_value)
  then show "q = curSlot t \<and> te_cycle e = 0" using y(2) \<open>q = curSlot t\<close> by simp
qed (use q ticked_sets(1) [OF t] in auto)

lemma ticked_ok:
  assumes t: "ticked t stay go t'"
  shows "wheel_ok t'"
proof (rule wheel_okI)
  note ok = ticked_facts(1) [OF t] and c = ticked_facts(2) [OF t] and f = ticked_facts(3-) [OF t]
  note old = ok_old [OF ok]
  have "0 < interval t" "0 < length (slots t)" using ok by (auto simp: wheel_ok_def)
  then show "0 < interval t'" "curSlot t' < length (slots t')" using f(1,2,6) by simp_all
  show "distinct (map fst (slots t' ! q))" if "q < length (slots t')" for q
  proof -
    have q: "q < length (slots t)" using that f(1) by simp
    have "distinct (map fst (slots t ! q))" using ok q by (simp add: wheel_ok_def)
    then show ?thesis using f(3) [OF q] ticked_sets(3) [OF t] by (auto simp: distinct_map_filter)
  qed
  show "te_pos y = q \<and> 0 \<le> te_cycle y \<and> j < nextElement t' \<and> gm_get (keyToETask t') (te_key y) = Some (j, q)"
    if y: "q < length (slots t')" "(j, y) \<in> set (slots t' ! q)" for q j y
  proof -
    have q: "q < length (slots t)" using y(1) f(1) by simp
    obtain e where e: "(j, e) \<in> set (slots t ! q)" "te_pos y = te_pos e" "te_key y = te_key e" "0 \<le> te_cycle y" "q = curSlot t \<longrightarrow> 0 < te_cycle e"
    proof (cases "q = curSlot t")
      case True
      then show thesis using y(2) f(3) [OF q] ticked_sets(2) [OF t, of j y] by (auto intro: that)
    next
      case False
      then show thesis using y(2) f(3) [OF q] old [OF q, of j y] by (auto intro: that)
    qed
    have "te_key e \<notin> te_key ` set go" using ticked_gone [OF t q e(1)] e(5) by auto
    then show ?thesis using old [OF q e(1)] e f(4,5) by simp
  qed
  show "q < length (slots t') \<and> (\<exists>e. (j, e) \<in> set (slots t' ! q) \<and> te_key e = k)" if h: "gm_get (keyToETask t') k = Some (j, q)" for k j q
  proof -
    have g: "gm_get (keyToETask t) k = Some (j, q)" "k \<notin> te_key ` set go" using h unfolding f(4) by (auto split: if_splits)
    obtain y where y: "q < length (slots t)" "(j, y) \<in> set (slots t ! q)" "te_key y = k" "map_of (slots t ! q) j = Some y" by (rule ok_slot [OF ok g(1)])
    have "0 < te_cycle y \<or> q \<noteq> curSlot t" using ticked_gone [OF t y(1,2)] old [OF y(1,2)] y(3) g(2) by auto
    then show ?thesis using f(1) f(3) [OF y(1)] ticked_sets(2) [OF t, of j] y by fastforce
  qed
qed

lemma ticked_due:
  assumes t: "ticked t stay go t'"
  shows "due t' k = spec_tick (due t) k" and "due t k = Some (0, z) \<longleftrightarrow> (k, z) \<in> (\<lambda>e. (te_key e, te_task e)) ` set go"
proof -
  note ok = ticked_facts(1) [OF t] and c = ticked_facts(2) [OF t] and f = ticked_facts(3-) [OF t]
  let ?c = "curSlot t" and ?n = "length (slots t)"
  have "due t' k = spec_tick (due t) k \<and> (due t k = Some (0, z) \<longleftrightarrow> (k, z) \<in> (\<lambda>e. (te_key e, te_task e)) ` set go)"
  proof (cases "gm_get (keyToETask t) k")
    case None
    then have "k \<notin> te_key ` set go" using ticked_sets(1) [OF t] ok_old [OF ok c] by force
    then show ?thesis using None due_off [of t k] due_off [of t' k] f(4) by (auto simp: spec_tick_def)
  next
    case (Some jq)
    obtain j q where jq: "jq = (j, q)" by (cases jq)
    note g = Some [unfolded jq]
    obtain y where y: "q < ?n" "(j, y) \<in> set (slots t ! q)" "te_key y = k" "map_of (slots t ! q) j = Some y" by (rule ok_slot [OF ok g])
    note d = due_at [OF ok g y(2,1)]
    have cy: "0 \<le> te_cycle y" using ok_old [OF ok y(1,2)] by simp
    have uniq: "e = y" if e: "e \<in> set go" "te_key e = k" for e
    proof -
      obtain i where i: "(i, e) \<in> set (slots t ! ?c)" using ticked_sets(1) [OF t] e(1) by auto
      then have "i = j" "?c = q" using ok_old [OF ok c i] e(2) g by auto
      then show ?thesis using i y(2,4) ok c by (auto simp: wheel_ok_def dest: eq_key_imp_eq_value)
    qed
    consider "q = ?c" "te_cycle y = 0" | "q = ?c" "0 < te_cycle y" | "q \<noteq> ?c" using cy by linarith
    then show ?thesis
    proof cases
      case 1
      then have "y \<in> set go" using ticked_sets(1) [OF t] y(2) by auto
      then have "k \<in> te_key ` set go" and im: "(k, te_task y) \<in> (\<lambda>e. (te_key e, te_task e)) ` set go" using y(3) by auto
      then have "due t' k = None" using due_off [of t' k] f(4) by simp
      moreover have "(k, z) \<in> (\<lambda>e. (te_key e, te_task e)) ` set go \<longleftrightarrow> z = te_task y"
      proof
        assume "(k, z) \<in> (\<lambda>e. (te_key e, te_task e)) ` set go"
        then obtain e where "e \<in> set go" "te_key e = k" "z = te_task e" by auto
        then show "z = te_task y" using uniq by blast
      qed (use im in blast)
      ultimately show ?thesis using d 1 c by (auto simp: spec_tick_def)
    next
      case 2
      have ng: "k \<notin> te_key ` set go" using ticked_gone [OF t y(1,2)] 2 y(3) by simp
      have "(j, y\<lparr>te_cycle := te_cycle y - 1\<rparr>) \<in> set (slots t' ! q)" using f(3) [OF y(1)] 2 ticked_sets(2) [OF t] y(2) by auto
      moreover have "gm_get (keyToETask t') k = Some (j, q)" using f(4) ng g by simp
      ultimately have "due t' k = Some ((?c + ?n - (?c + 1) mod ?n) mod ?n + ?n * nat (te_cycle y - 1), te_task y)"
        using due_at [OF ticked_ok [OF t]] y(1) f(1,2) 2(1) by simp
      moreover have "Suc (?n - 1 + ?n * nat (te_cycle y - 1)) = ?n * nat (te_cycle y)" using 2(2) c by (cases "nat (te_cycle y)") (auto simp: nat_diff_distrib)
      ultimately show ?thesis using d 2 c ng hand_wraps [OF c] by (auto simp: spec_tick_def split: nat.splits)
    next
      case 3
      have ng: "k \<notin> te_key ` set go" using ticked_gone [OF t y(1,2)] 3 y(3) by simp
      have "(j, y) \<in> set (slots t' ! q)" using f(3) [OF y(1)] 3 y(2) by simp
      moreover have "gm_get (keyToETask t') k = Some (j, q)" using f(4) ng g by simp
      ultimately show ?thesis using due_at [OF ticked_ok [OF t]] y(1) f(1,2) d ng hand_moves [OF c y(1) 3] by (auto simp: spec_tick_def)
    qed
  qed
  then show "due t' k = spec_tick (due t) k" and "due t k = Some (0, z) \<longleftrightarrow> (k, z) \<in> (\<lambda>e. (te_key e, te_task e)) ` set go" by blast+
qed

lemma wheel_tick_ok:
  assumes ok: "wheel_ok t"
  shows "\<exists>go t'. tick t = Some (go, t') \<and> wheel_ok t' \<and> due t' = spec_tick (due t) \<and> (\<lambda>e. (te_key e, te_task e)) ` set go = spec_fires (due t) \<and>
    interval t' = interval t \<and> length (slots t') = length (slots t) \<and> running t' = running t \<and> stopped_wheel t' = stopped_wheel t"
proof -
  obtain stay go t' where t: "tick t = Some (go, t')" "ticked t stay go t'" by (rule tick_ticked [OF ok])
  have "due t' = spec_tick (due t)" using ticked_due(1) [OF t(2)] by auto
  moreover have "(\<lambda>e. (te_key e, te_task e)) ` set go = spec_fires (due t)" using ticked_due(2) [OF t(2)] by (auto simp: spec_fires_def)
  ultimately show ?thesis using t ticked_ok [OF t(2)] ticked_facts(3,8-) [OF t(2)] by blast
qed

section \<open>The wheel keeps the deadlines\<close>

definition timer_of :: "TimeWheel \<Rightarrow> timer" where
  "timer_of t = \<lparr>tm_due = due t, tm_stopped = stopped_wheel t, tm_running = running t\<rparr>"

text \<open>An \<open>int64\<close> holds the delay and a round of the wheel, in nanoseconds.\<close>

definition event_fits :: "int \<Rightarrow> int \<Rightarrow> wheel_event \<Rightarrow> bool" where
  "event_fits n itv ev = (case ev of AddTask k x delay \<Rightarrow> max 0 delay + n * itv < 2 ^ 63 | _ \<Rightarrow> True)"

lemma due_cong: "slots t' = slots t \<Longrightarrow> curSlot t' = curSlot t \<Longrightarrow> keyToETask t' = keyToETask t \<Longrightarrow> due t' = due t"
  by (simp only: due_def)

lemma step_refines:
  assumes ok: "wheel_ok t" and fit: "event_fits (int (length (slots t))) (interval t) ev"
  shows "\<exists>go t'. wheel_step ev t = Some (go, t') \<and> wheel_ok t' \<and> interval t' = interval t \<and> length (slots t') = length (slots t) \<and>
    spec_step (interval t) ev (timer_of t) = ((\<lambda>e. (te_key e, te_task e)) ` set go, timer_of t')"
proof (cases ev)
  case Tick
  then show ?thesis using wheel_tick_ok [OF ok] ok by (cases "running t") (auto simp: wheel_step_def spec_step_def timer_of_def)
next
  case (AddTask k x delay)
  then have b: "max 0 delay + int (length (slots t)) * interval t < 2 ^ 63" using fit by (simp add: event_fits_def)
  show ?thesis using AddTask addTask_ok [OF ok b, of k x] ok by (cases "running t") (auto simp: wheel_step_def spec_step_def timer_of_def)
next
  case (RemoveTask k)
  then show ?thesis using removeTask_ok [OF ok, of k] ok by (cases "running t") (auto simp: wheel_step_def spec_step_def timer_of_def)
next
  case Stop
  have "wheel_ok (t\<lparr>stopped_wheel := True\<rparr>)" using ok by (simp add: wheel_ok_def)
  moreover have "due (t\<lparr>stopped_wheel := True\<rparr>) = due t" by (rule due_cong) simp_all
  ultimately show ?thesis using Stop by (simp add: wheel_step_def spec_step_def timer_of_def)
next
  case Run_returns
  have "wheel_ok (t\<lparr>running := False\<rparr>)" using ok by (simp add: wheel_ok_def)
  moreover have "due (t\<lparr>running := False\<rparr>) = due t" by (rule due_cong) simp_all
  ultimately show ?thesis using Run_returns ok by (simp add: wheel_step_def spec_step_def timer_of_def)
qed

lemma run_refines:
  assumes "wheel_ok t" and "list_all (event_fits (int (length (slots t))) (interval t)) evs"
  shows "\<exists>gos t'. wheel_run evs t = Some (gos, t') \<and> wheel_ok t' \<and> spec_run (interval t) evs (timer_of t) = (map (\<lambda>go. (\<lambda>e. (te_key e, te_task e)) ` set go) gos, timer_of t')"
  using assms
proof (induction evs arbitrary: t)
  case (Cons ev evs)
  obtain go t1 where s: "wheel_step ev t = Some (go, t1)" "wheel_ok t1" "interval t1 = interval t" "length (slots t1) = length (slots t)"
    "spec_step (interval t) ev (timer_of t) = ((\<lambda>e. (te_key e, te_task e)) ` set go, timer_of t1)"
    using step_refines [OF Cons.prems(1), of ev] Cons.prems(2) by auto
  then show ?case using Cons.IH [OF s(2)] Cons.prems(2) by auto
qed auto

lemma new_wheel_ok: "wheel_ok (NewTimeWheel n i)"
  by (auto simp: wheel_ok_def NewTimeWheel_def Let_def)

lemma new_wheel_facts:
  "interval (NewTimeWheel n i) = (if i \<le> 0 then 1000000000 else i)" "int (length (slots (NewTimeWheel n i))) = (if n \<le> 0 then 10 else n)"
  "timer_of (NewTimeWheel n i) = \<lparr>tm_due = Map.empty, tm_stopped = False, tm_running = True\<rparr>"
  by (auto simp: NewTimeWheel_def Let_def timer_of_def due_def)

text \<open>
  C24. The timing wheel refines a table of deadlines. In every history of ticks, additions, removals and a stop, from a new wheel of any number
  of slots, no step panics, and at each tick the wheel starts exactly the tasks whose deadline has come: a task added with a delay
  runs at the tick that ends the interval of its delay, whatever number of rounds that takes; adding a key again replaces its task; a removed
  task never runs.
\<close>

theorem wheel_refines_deadlines:
  assumes "list_all (event_fits (if n \<le> 0 then 10 else n) (if i \<le> 0 then 1000000000 else i)) evs"
  shows "\<exists>gos t. wheel_run evs (NewTimeWheel n i) = Some (gos, t) \<and>
    map (\<lambda>go. (\<lambda>e. (te_key e, te_task e)) ` set go) gos =
      fst (spec_run (if i \<le> 0 then 1000000000 else i) evs \<lparr>tm_due = Map.empty, tm_stopped = False, tm_running = True\<rparr>)"
proof -
  have "list_all (event_fits (int (length (slots (NewTimeWheel n i)))) (interval (NewTimeWheel n i))) evs"
    unfolding new_wheel_facts(1,2) by (rule assms)
  then show ?thesis using run_refines [OF new_wheel_ok] unfolding new_wheel_facts by fastforce
qed

theorem wheel_refines_deadlines_witness:
  "\<exists>gos t. wheel_run [AddTask ''a'' 1 25, AddTask ''b'' 2 5, Tick, Tick, Tick, Tick] (NewTimeWheel 2 10) = Some (gos, t) \<and>
    map (\<lambda>go. (\<lambda>e. (te_key e, te_task e)) ` set go) gos = [{}, {}, {(''b'', 2)}, {}, {(''a'', 1)}, {}]"
proof -
  have "list_all (event_fits (if (2 :: int) \<le> 0 then 10 else 2) (if (10 :: int) \<le> 0 then 1000000000 else 10)) [AddTask ''a'' 1 25, AddTask ''b'' 2 5, Tick, Tick, Tick, Tick]"
    by (simp add: event_fits_def)
  note r = wheel_refines_deadlines [OF this]
  have "fst (spec_run 10 [AddTask ''a'' 1 25, AddTask ''b'' 2 5, Tick, Tick, Tick, Tick] \<lparr>tm_due = Map.empty, tm_stopped = False, tm_running = True\<rparr>) = [{}, {}, {(''b'', 2)}, {}, {(''a'', 1)}, {}]"
    by (auto simp: spec_step_def spec_fires_def spec_tick_def numeral_eq_Suc fun_eq_iff split: if_splits)
  then show ?thesis using r by simp
qed

end
