(* ===== verification/Cron.thy ===== *)
theory Cron
  imports Go_Strings
begin

text \<open>
  The cron expressions of the timer service (\<open>src/apps/timer_demo/pkg/cron/parser.go\<close>): the parser of the five fields and the search for the
  times a schedule names. A time is a civil minute in UTC with what is left of the minute; the calendar operations of
  package \<open>time\<close> that the source uses are written out. Expressions are ASCII.
\<close>

section \<open>Civil time\<close>

record civil =
  yr :: int
  mon :: int
  dy :: int
  hr :: int
  mi :: int

type_synonym gotime = "civil \<times> int"

definition leap :: "int \<Rightarrow> bool" where
  "leap y \<longleftrightarrow> y mod 4 = 0 \<and> (y mod 100 \<noteq> 0 \<or> y mod 400 = 0)"

definition days_in_month :: "int \<Rightarrow> int \<Rightarrow> int" where
  "days_in_month y m = (if m = 2 then (if leap y then 29 else 28) else if m = 4 \<or> m = 6 \<or> m = 9 \<or> m = 11 then 30 else 31)"

text \<open>Days since the first of January of the year 1, a Monday; \<open>time.Sunday\<close> is 0.\<close>

definition day_number :: "int \<Rightarrow> int \<Rightarrow> int \<Rightarrow> int" where
  "day_number y m d = 365 * (y - 1) + (y - 1) div 4 - (y - 1) div 100 + (y - 1) div 400 + sum_list (map (days_in_month y) [1..m - 1]) + d - 1"

definition Weekday :: "civil \<Rightarrow> int" where
  "Weekday t = (day_number (yr t) (mon t) (dy t) + 1) mod 7"

text \<open>The first minute of the next month, day and hour, and the next minute.\<close>

definition next_month :: "civil \<Rightarrow> civil" where
  "next_month t = (if mon t < 12 then t\<lparr>mon := mon t + 1, dy := 1, hr := 0, mi := 0\<rparr> else t\<lparr>yr := yr t + 1, mon := 1, dy := 1, hr := 0, mi := 0\<rparr>)"

definition next_day :: "civil \<Rightarrow> civil" where
  "next_day t = (if dy t < days_in_month (yr t) (mon t) then t\<lparr>dy := dy t + 1, hr := 0, mi := 0\<rparr> else next_month t)"

definition next_hour :: "civil \<Rightarrow> civil" where
  "next_hour t = (if hr t < 23 then t\<lparr>hr := hr t + 1, mi := 0\<rparr> else next_day t)"

definition next_minute :: "civil \<Rightarrow> civil" where
  "next_minute t = (if mi t < 59 then t\<lparr>mi := mi t + 1\<rparr> else next_hour t)"

definition civil_ok :: "civil \<Rightarrow> bool" where
  "civil_ok t \<longleftrightarrow> 1 \<le> mon t \<and> mon t \<le> 12 \<and> 1 \<le> dy t \<and> dy t \<le> days_in_month (yr t) (mon t) \<and> 0 \<le> hr t \<and> hr t \<le> 23 \<and> 0 \<le> mi t \<and> mi t \<le> 59"

text \<open>\<open>Before\<close> for minutes and for times.\<close>

definition earlier :: "civil \<Rightarrow> civil \<Rightarrow> bool" where
  "earlier a b \<longleftrightarrow> yr a < yr b \<or> yr a = yr b \<and> (mon a < mon b \<or> mon a = mon b \<and> (dy a < dy b \<or> dy a = dy b \<and> (hr a < hr b \<or> hr a = hr b \<and> mi a < mi b)))"

definition Before :: "gotime \<Rightarrow> gotime \<Rightarrow> bool" where
  "Before a b \<longleftrightarrow> earlier (fst a) (fst b) \<or> fst a = fst b \<and> snd a < snd b"

section \<open>Schedules\<close>

record cronSchedule =
  minute :: "int list"
  hour :: "int list"
  dayOfMonth :: "int list"
  month :: "int list"
  dayOfWeek :: "int list"
  domWildCard :: bool
  dowWildCard :: bool

definition dayMatches :: "cronSchedule \<Rightarrow> civil \<Rightarrow> bool" where
  "dayMatches s t =
     (if domWildCard s \<and> dowWildCard s then True
      else if domWildCard s then Weekday t \<in> set (dayOfWeek s)
      else if dowWildCard s then dy t \<in> set (dayOfMonth s)
      else dy t \<in> set (dayOfMonth s) \<or> Weekday t \<in> set (dayOfWeek s))"

text \<open>The loop of \<open>Next\<close>; no value is the zero time.\<close>

function next_loop :: "cronSchedule \<Rightarrow> int \<Rightarrow> civil \<Rightarrow> civil option" where
  "next_loop s year t =
     (if yr t > year + 5 then None
      else if mon t \<notin> set (month s) then next_loop s year (next_month t)
      else if \<not> dayMatches s t then next_loop s year (next_day t)
      else if hr t \<notin> set (hour s) then next_loop s year (next_hour t)
      else if mi t \<notin> set (minute s) then next_loop s year (next_minute t)
      else Some t)"
  by pat_completeness auto
termination
  by (relation "measures [\<lambda>(s, y, t). nat (y + 6 - yr t), \<lambda>(s, y, t). nat (13 - mon t), \<lambda>(s, y, t). nat (32 - dy t), \<lambda>(s, y, t). nat (24 - hr t), \<lambda>(s, y, t). nat (60 - mi t)]")
    (auto simp: next_month_def next_day_def next_hour_def next_minute_def days_in_month_def split: if_splits)

declare next_loop.simps [simp del]

definition Next :: "cronSchedule \<Rightarrow> gotime \<Rightarrow> gotime option" where
  "Next s t = map_option (\<lambda>c. (c, 0)) (next_loop s (yr (fst t)) (next_minute (fst t)))"

section \<open>The parser\<close>

datatype cron_err = FieldCount nat | BadStep string | BadStart string | BadEnd string | RangeOut int int | BadValue string | ValueOut int | EmptyField | NoTime | EndEarlier

text \<open>\<open>strings.Cut\<close> at a character, and \<open>strings.Fields\<close>.\<close>

definition Cut :: "string \<Rightarrow> char \<Rightarrow> (string \<times> string) option" where
  "Cut s c = (if c \<in> set s then Some (takeWhile (\<lambda>x. x \<noteq> c) s, tl (dropWhile (\<lambda>x. x \<noteq> c) s)) else None)"

function Fields :: "string \<Rightarrow> string list" where
  "Fields [] = []"
| "Fields (c # s) = (if space c then Fields s
     else (c # takeWhile (\<lambda>x. \<not> space x) s) # Fields (dropWhile (\<lambda>x. \<not> space x) s))"
  by pat_completeness auto
termination
  by (relation "measure length") (auto simp: length_dropWhile_le less_Suc_eq_le)

partial_function (option) rangeList :: "int \<Rightarrow> int \<Rightarrow> int \<Rightarrow> int list option" where
  "rangeList i end' step = (if i \<le> end' then do { r \<leftarrow> rangeList (wrap64 (i + step)) end' step; Some (i # r) } else Some [])"

declare rangeList.simps [code]

text \<open>The values of a part after its step is known.\<close>

definition part_range :: "string \<Rightarrow> int \<Rightarrow> int \<Rightarrow> int \<Rightarrow> (cron_err + int list) option" where
  "part_range rangePart step lo hi =
     (if rangePart = ''*'' then map_option Inr (rangeList lo hi step)
      else (case Cut rangePart CHR ''-'' of
        Some (pre, post) \<Rightarrow>
          (let (start, ok) = Atoi pre; (end', ok') = Atoi post
           in if \<not> ok then Some (Inl (BadStart pre))
              else if \<not> ok' then Some (Inl (BadEnd post))
              else if start < lo \<or> end' > hi \<or> start > end' then Some (Inl (RangeOut start end'))
              else map_option Inr (rangeList start end' step))
      | None \<Rightarrow>
          (let (val, ok) = Atoi rangePart
           in if \<not> ok then Some (Inl (BadValue rangePart))
              else if val < lo \<or> val > hi then Some (Inl (ValueOut val))
              else if step > 1 then map_option Inr (rangeList val hi step)
              else Some (Inr [val]))))"

definition parsePart :: "string \<Rightarrow> int \<Rightarrow> int \<Rightarrow> (cron_err + int list) option" where
  "parsePart part lo hi = (case Cut part CHR ''/'' of
     None \<Rightarrow> part_range part 1 lo hi
   | Some (pre, post) \<Rightarrow>
       (let (s, ok) = Atoi post
        in if \<not> ok \<or> s \<le> 0 then Some (Inl (BadStep post)) else part_range pre s lo hi))"

text \<open>The loop over the parts; a value is kept once.\<close>

fun parse_parts :: "string list \<Rightarrow> int \<Rightarrow> int \<Rightarrow> int list \<Rightarrow> (cron_err + int list) option" where
  "parse_parts [] lo hi result = Some (Inr result)"
| "parse_parts (part # parts) lo hi result = do {
     r \<leftarrow> parsePart part lo hi;
     (case r of
        Inl e \<Rightarrow> Some (Inl e)
      | Inr vals \<Rightarrow> parse_parts parts lo hi (fold (\<lambda>v result. if v \<in> set result then result else result @ [v]) vals result)) }"

definition parseField :: "string \<Rightarrow> int \<Rightarrow> int \<Rightarrow> (cron_err + int list \<times> bool) option" where
  "parseField field lo hi =
     (if field = ''*'' then map_option (\<lambda>r. Inr (r, True)) (rangeList lo hi 1)
      else do {
        let rangePart = (case Cut field CHR ''/'' of None \<Rightarrow> field | Some (pre, _) \<Rightarrow> pre);
        let wildCard = (rangePart = ''*'');
        r \<leftarrow> parse_parts (split_on CHR '','' field) lo hi [];
        (case r of
           Inl e \<Rightarrow> Some (Inl e)
         | Inr result \<Rightarrow> Some (if result = [] then Inl EmptyField else Inr (result, wildCard))) })"

definition parseCronExpr :: "string \<Rightarrow> (cron_err + cronSchedule) option" where
  "parseCronExpr expr = (case Fields expr of
     [f0, f1, f2, f3, f4] \<Rightarrow> do {
       r0 \<leftarrow> parseField f0 0 59;
       (case r0 of Inl e \<Rightarrow> Some (Inl e) | Inr (mins, _) \<Rightarrow> do {
       r1 \<leftarrow> parseField f1 0 23;
       (case r1 of Inl e \<Rightarrow> Some (Inl e) | Inr (hours, _) \<Rightarrow> do {
       r2 \<leftarrow> parseField f2 1 31;
       (case r2 of Inl e \<Rightarrow> Some (Inl e) | Inr (doms, domWild) \<Rightarrow> do {
       r3 \<leftarrow> parseField f3 1 12;
       (case r3 of Inl e \<Rightarrow> Some (Inl e) | Inr (months, _) \<Rightarrow> do {
       r4 \<leftarrow> parseField f4 0 6;
       (case r4 of Inl e \<Rightarrow> Some (Inl e) | Inr (dows, dowWild) \<Rightarrow>
          Some (Inr \<lparr>minute = mins, hour = hours, dayOfMonth = doms, month = months, dayOfWeek = dows, domWildCard = domWild, dowWildCard = dowWild\<rparr>)) }) }) }) }) }
   | fs \<Rightarrow> Some (Inl (FieldCount (length fs))))"

definition IsValidCronExpr :: "string \<Rightarrow> bool option" where
  "IsValidCronExpr expr = map_option (\<lambda>r. \<not> isl r) (parseCronExpr expr)"

definition NextAfter :: "string \<Rightarrow> gotime \<Rightarrow> (cron_err + gotime) option" where
  "NextAfter expr post = do {
     r \<leftarrow> parseCronExpr expr;
     (case r of
        Inl e \<Rightarrow> Some (Inl e)
      | Inr schedule \<Rightarrow> Some (case Next schedule post of None \<Rightarrow> Inl NoTime | Some t \<Rightarrow> Inr t)) }"

text \<open>The order of minutes as a number, and the loop of \<open>NextsBetween\<close>; each round moves at least a minute on.\<close>

definition stamp :: "civil \<Rightarrow> int" where
  "stamp t = (((yr t * 16 + mon t) * 32 + dy t) * 32 + hr t) * 64 + mi t"

fun nexts_loop :: "nat \<Rightarrow> cronSchedule \<Rightarrow> gotime \<Rightarrow> gotime \<Rightarrow> gotime list \<Rightarrow> (cron_err + gotime list) option" where
  "nexts_loop fuel schedule cur end' nexts =
     (if \<not> Before cur end' then Some (Inr nexts)
      else (case fuel of
        0 \<Rightarrow> None
      | Suc fuel \<Rightarrow> (case Next schedule cur of
          None \<Rightarrow> Some (Inl NoTime)
        | Some n \<Rightarrow> if \<not> Before n end' then Some (Inr nexts) else nexts_loop fuel schedule n end' (nexts @ [n]))))"

definition NextsBetween :: "string \<Rightarrow> gotime \<Rightarrow> gotime \<Rightarrow> (cron_err + gotime list) option" where
  "NextsBetween expr start end' =
     (if Before end' start then Some (Inl EndEarlier)
      else do {
        r \<leftarrow> parseCronExpr expr;
        (case r of
           Inl e \<Rightarrow> Some (Inl e)
         | Inr schedule \<Rightarrow> nexts_loop (nat (stamp (fst end') - stamp (fst start)) + 2) schedule start end' []) })"

section \<open>The order of minutes\<close>

lemma earlier_irrefl [simp]: "\<not> earlier a a"
  by (simp add: earlier_def)

lemma earlier_trans: "earlier a b \<Longrightarrow> earlier b c \<Longrightarrow> earlier a c"
  unfolding earlier_def by auto

lemma earlier_total: "earlier a b \<or> a = b \<or> earlier b a"
  unfolding earlier_def by (cases a; cases b) auto

lemma later_trans: "earlier a b \<Longrightarrow> \<not> earlier c b \<Longrightarrow> earlier a c"
  using earlier_total [of c b] earlier_trans by blast

lemma month_days: "days_in_month y m \<le> 31" "28 \<le> days_in_month y m"
  by (auto simp: days_in_month_def)

lemma next_ok:
  assumes "civil_ok t"
  shows "civil_ok (next_month t)" and "civil_ok (next_day t)" and "civil_ok (next_hour t)" and "civil_ok (next_minute t)"
proof -
  show m: "civil_ok (next_month t)" using assms month_days(2) [of "yr t" "mon t + 1"] month_days(2) [of "yr t + 1" 1] by (auto simp: civil_ok_def next_month_def)
  show d: "civil_ok (next_day t)" using assms m by (auto simp: civil_ok_def next_day_def)
  show h: "civil_ok (next_hour t)" using assms d by (auto simp: civil_ok_def next_hour_def)
  show "civil_ok (next_minute t)" using assms h by (auto simp: civil_ok_def next_minute_def)
qed

lemma next_later:
  "earlier t (next_month t)" "earlier t (next_day t)" "earlier t (next_hour t)" "earlier t (next_minute t)"
proof -
  show m: "earlier t (next_month t)" by (simp add: earlier_def next_month_def)
  show d: "earlier t (next_day t)" using m by (simp add: next_day_def) (simp add: earlier_def)
  show h: "earlier t (next_hour t)" using d by (simp add: next_hour_def) (simp add: earlier_def)
  show "earlier t (next_minute t)" using h by (simp add: next_minute_def) (simp add: earlier_def)
qed

text \<open>No minute is skipped but those of the same month, day, hour, or the minute itself.\<close>

lemma next_month_least:
  assumes "civil_ok u" and "\<not> earlier u t" and "(yr u, mon u) \<noteq> (yr t, mon t)"
  shows "\<not> earlier u (next_month t)"
  using assms by (auto simp: earlier_def next_month_def civil_ok_def)

lemma next_day_least:
  assumes "civil_ok u" and "\<not> earlier u t" and "(yr u, mon u, dy u) \<noteq> (yr t, mon t, dy t)"
  shows "\<not> earlier u (next_day t)"
proof (cases "dy t < days_in_month (yr t) (mon t)")
  case True
  then show ?thesis using assms by (auto simp: earlier_def next_day_def civil_ok_def)
next
  case False
  then have "(yr u, mon u) \<noteq> (yr t, mon t)" using assms by (auto simp: earlier_def civil_ok_def)
  then show ?thesis using False next_month_least [OF assms(1,2)] by (simp add: next_day_def)
qed

lemma next_hour_least:
  assumes "civil_ok u" and "\<not> earlier u t" and "(yr u, mon u, dy u, hr u) \<noteq> (yr t, mon t, dy t, hr t)"
  shows "\<not> earlier u (next_hour t)"
proof (cases "hr t < 23")
  case True
  then have n: "next_hour t = t\<lparr>hr := hr t + 1, mi := 0\<rparr>" by (simp add: next_hour_def)
  have "0 \<le> mi u" using assms(1) by (simp add: civil_ok_def)
  then show ?thesis unfolding n using assms(2,3) by (auto simp: earlier_def)
next
  case False
  have "hr u \<le> 23" using assms(1) by (simp add: civil_ok_def)
  then have "(yr u, mon u, dy u) \<noteq> (yr t, mon t, dy t)" using False assms(2,3) by (auto simp: earlier_def)
  then show ?thesis using False next_day_least [OF assms(1,2)] by (simp add: next_hour_def)
qed

lemma next_minute_least:
  assumes "civil_ok u" and "earlier t u"
  shows "\<not> earlier u (next_minute t)"
proof (cases "mi t < 59")
  case True
  then have n: "next_minute t = t\<lparr>mi := mi t + 1\<rparr>" by (simp add: next_minute_def)
  show ?thesis unfolding n using assms(2) by (auto simp: earlier_def)
next
  case False
  have n: "\<not> earlier u t" using assms(2) earlier_trans [of u t u] by auto
  have "mi u \<le> 59" using assms(1) by (simp add: civil_ok_def)
  then have "(yr u, mon u, dy u, hr u) \<noteq> (yr t, mon t, dy t, hr t)" using False assms(2) by (auto simp: earlier_def)
  then show ?thesis using False next_hour_least [OF assms(1) n] by (simp add: next_minute_def)
qed

section \<open>The next time of a schedule\<close>

definition scheduled :: "cronSchedule \<Rightarrow> civil \<Rightarrow> bool" where
  "scheduled s t \<longleftrightarrow> mon t \<in> set (month s) \<and> dayMatches s t \<and> hr t \<in> set (hour s) \<and> mi t \<in> set (minute s)"

lemma dayMatches_cong: "(yr u, mon u, dy u) = (yr t, mon t, dy t) \<Longrightarrow> dayMatches s u = dayMatches s t"
  by (simp add: dayMatches_def Weekday_def)

definition least_fit :: "cronSchedule \<Rightarrow> int \<Rightarrow> civil \<Rightarrow> civil option \<Rightarrow> bool" where
  "least_fit s year t r = (case r of
     Some x \<Rightarrow> civil_ok x \<and> scheduled s x \<and> \<not> earlier x t \<and> (\<forall>u. civil_ok u \<longrightarrow> scheduled s u \<longrightarrow> \<not> earlier u t \<longrightarrow> \<not> earlier u x)
   | None \<Rightarrow> (\<forall>u. civil_ok u \<longrightarrow> scheduled s u \<longrightarrow> \<not> earlier u t \<longrightarrow> year + 5 < yr u))"

lemma least_fit_jump:
  assumes "least_fit s year t' r" and "earlier t t'" and "\<And>u. civil_ok u \<Longrightarrow> scheduled s u \<Longrightarrow> \<not> earlier u t \<Longrightarrow> \<not> earlier u t'"
  shows "least_fit s year t r"
proof (cases r)
  case (Some x)
  have "\<not> earlier x t" using assms(1,2) Some earlier_trans by (auto simp: least_fit_def)
  then show ?thesis using assms Some by (auto simp: least_fit_def)
qed (use assms in \<open>auto simp: least_fit_def\<close>)

lemma next_loop_least: "civil_ok t \<Longrightarrow> least_fit s year t (next_loop s year t)"
proof (induction s year t rule: next_loop.induct)
  case (1 s year t)
  consider "yr t > year + 5" | "yr t \<le> year + 5" "mon t \<notin> set (month s)" | "yr t \<le> year + 5" "mon t \<in> set (month s)" "\<not> dayMatches s t"
    | "yr t \<le> year + 5" "mon t \<in> set (month s)" "dayMatches s t" "hr t \<notin> set (hour s)"
    | "yr t \<le> year + 5" "mon t \<in> set (month s)" "dayMatches s t" "hr t \<in> set (hour s)" "mi t \<notin> set (minute s)"
    | "yr t \<le> year + 5" "scheduled s t" unfolding scheduled_def by linarith
  then show ?case
  proof cases
    case 1
    then show ?thesis by (subst next_loop.simps) (auto simp: least_fit_def earlier_def)
  next
    case 2
    have "least_fit s year (next_month t) (next_loop s year (next_month t))" using 1 2 next_ok(1) by simp
    moreover have "\<not> earlier u (next_month t)" if "civil_ok u" "scheduled s u" "\<not> earlier u t" for u
      by (rule next_month_least [OF that(1,3)]) (use that(2) 2 in \<open>auto simp: scheduled_def\<close>)
    ultimately have "least_fit s year t (next_loop s year (next_month t))" by (rule least_fit_jump [OF _ next_later(1)])
    then show ?thesis using 2 by (subst next_loop.simps) simp
  next
    case 3
    have "least_fit s year (next_day t) (next_loop s year (next_day t))" using 1 3 next_ok(2) by simp
    moreover have "\<not> earlier u (next_day t)" if "civil_ok u" "scheduled s u" "\<not> earlier u t" for u
      by (rule next_day_least [OF that(1,3)]) (use that(2) 3 dayMatches_cong [of u t s] in \<open>auto simp: scheduled_def\<close>)
    ultimately have "least_fit s year t (next_loop s year (next_day t))" by (rule least_fit_jump [OF _ next_later(2)])
    then show ?thesis using 3 by (subst next_loop.simps) simp
  next
    case 4
    have "least_fit s year (next_hour t) (next_loop s year (next_hour t))" using 1 4 next_ok(3) by simp
    moreover have "\<not> earlier u (next_hour t)" if "civil_ok u" "scheduled s u" "\<not> earlier u t" for u
      by (rule next_hour_least [OF that(1,3)]) (use that(2) 4 in \<open>auto simp: scheduled_def\<close>)
    ultimately have "least_fit s year t (next_loop s year (next_hour t))" by (rule least_fit_jump [OF _ next_later(3)])
    then show ?thesis using 4 by (subst next_loop.simps) simp
  next
    case 5
    have "least_fit s year (next_minute t) (next_loop s year (next_minute t))" using 1 5 next_ok(4) by simp
    moreover have "\<not> earlier u (next_minute t)" if "civil_ok u" "scheduled s u" "\<not> earlier u t" for u
      by (rule next_minute_least [OF that(1)]) (use earlier_total [of u t] that 5 in \<open>auto simp: scheduled_def\<close>)
    ultimately have "least_fit s year t (next_loop s year (next_minute t))" by (rule least_fit_jump [OF _ next_later(4)])
    then show ?thesis using 5 by (subst next_loop.simps) simp
  next
    case 6
    then show ?thesis using \<open>civil_ok t\<close> by (subst next_loop.simps) (simp add: least_fit_def scheduled_def)
  qed
qed

lemma Next_least:
  assumes "civil_ok (fst t)"
  shows "case Next s t of
      Some x \<Rightarrow> snd x = 0 \<and> civil_ok (fst x) \<and> scheduled s (fst x) \<and> earlier (fst t) (fst x)
        \<and> (\<forall>u. civil_ok u \<longrightarrow> scheduled s u \<longrightarrow> earlier (fst t) u \<longrightarrow> \<not> earlier u (fst x))
    | None \<Rightarrow> \<forall>u. civil_ok u \<longrightarrow> scheduled s u \<longrightarrow> earlier (fst t) u \<longrightarrow> yr (fst t) + 5 < yr u"
proof -
  have l: "least_fit s (yr (fst t)) (next_minute (fst t)) (next_loop s (yr (fst t)) (next_minute (fst t)))"
    by (rule next_loop_least) (rule next_ok(4) [OF assms])
  have e: "earlier (fst t) u \<longleftrightarrow> \<not> earlier u (next_minute (fst t))" if "civil_ok u" for u
    using next_minute_least [OF that] later_trans [OF next_later(4)] by blast
  show ?thesis
  proof (cases "next_loop s (yr (fst t)) (next_minute (fst t))")
    case None
    then show ?thesis using l e by (auto simp: Next_def least_fit_def)
  next
    case (Some x)
    then show ?thesis using l e by (auto simp: Next_def least_fit_def)
  qed
qed

lemma place_less:
  assumes "x < x' \<or> x = x' \<and> (y < y' \<or> y = y' \<and> Q)" and "0 \<le> y'" and "y < n" and "0 \<le> n"
  shows "x * n + y < x' * n + (y' :: int) \<or> x * n + y = x' * n + y' \<and> Q"
proof (cases "x < x'")
  case True
  have "(x + 1) * n \<le> x' * n" using True assms(4) by (intro mult_right_mono) auto
  then show ?thesis using assms by (simp add: algebra_simps)
qed (use assms in auto)

lemma earlier_stamp:
  assumes a: "civil_ok a" and b: "civil_ok b" and "earlier a b"
  shows "stamp a < stamp b"
proof -
  have r: "0 \<le> mon c" "mon c < 16" "0 \<le> dy c" "dy c < 32" "0 \<le> hr c" "hr c < 32" "0 \<le> mi c" "mi c < 64" if "civil_ok c" for c
    using that month_days(1) [of "yr c" "mon c"] by (auto simp: civil_ok_def)
  note m = place_less [OF assms(3) [unfolded earlier_def] r(1) [OF b] r(2) [OF a]]
  note d = place_less [OF m r(3) [OF b] r(4) [OF a]]
  note h = place_less [OF d r(5) [OF b] r(6) [OF a]]
  have "stamp a < stamp b \<or> stamp a = stamp b \<and> False"
    unfolding stamp_def by (rule place_less [OF _ r(7) [OF b] r(8) [OF a]]) (use h in simp_all)
  then show ?thesis by simp
qed

definition nexts_ok :: "cronSchedule \<Rightarrow> civil \<Rightarrow> gotime \<Rightarrow> gotime list \<Rightarrow> cron_err + gotime list \<Rightarrow> bool" where
  "nexts_ok s c b nexts r = (case r of
     Inr ts \<Rightarrow> (\<exists>us. ts = nexts @ us \<and> sorted_wrt Before us
       \<and> set us = {(u, 0) | u. civil_ok u \<and> scheduled s u \<and> earlier c u \<and> Before (u, 0) b})
   | Inl e \<Rightarrow> e = NoTime \<and> (\<exists>d. (d = c \<or> scheduled s d \<and> earlier c d \<and> Before (d, 0) b)
       \<and> (\<forall>u. civil_ok u \<longrightarrow> scheduled s u \<longrightarrow> earlier d u \<longrightarrow> yr d + 5 < yr u)))"

lemma nexts_none: "(\<And>u. civil_ok u \<Longrightarrow> scheduled s u \<Longrightarrow> earlier c u \<Longrightarrow> \<not> Before (u, 0) b) \<Longrightarrow> nexts_ok s c b nexts (Inr nexts)"
  by (auto simp: nexts_ok_def)

lemma Before_trans: "Before a b \<Longrightarrow> Before b c \<Longrightarrow> Before a c"
  using earlier_trans by (auto simp: Before_def)

lemma earlier_Before: "earlier a b \<Longrightarrow> Before (a, i) (b, j)"
  by (simp add: Before_def)

lemma not_Before: "\<not> earlier u x \<Longrightarrow> \<not> Before (x, 0) b \<Longrightarrow> \<not> Before (u, 0) b"
  using earlier_total [of u x] earlier_Before [of x u 0 0] Before_trans [of "(x, 0)" "(u, 0)" b] by blast

lemma nexts_one_more:
  assumes x: "civil_ok x" "scheduled s x" "earlier c x" "Before (x, 0) b"
    and least: "\<And>u. civil_ok u \<Longrightarrow> scheduled s u \<Longrightarrow> earlier c u \<Longrightarrow> \<not> earlier u x"
    and r: "nexts_ok s x b (nexts @ [(x, 0)]) r"
  shows "nexts_ok s c b nexts r"
proof (cases r)
  case (Inl e)
  then show ?thesis using r x earlier_trans [of c x] unfolding nexts_ok_def by auto
next
  case (Inr ts)
  then obtain us where us: "ts = (nexts @ [(x, 0)]) @ us" "sorted_wrt Before us"
      "set us = {(u, 0) | u. civil_ok u \<and> scheduled s u \<and> earlier x u \<and> Before (u, 0) b}" using r by (auto simp: nexts_ok_def)
  have "sorted_wrt Before ((x, 0) # us)" using us by (auto simp: Before_def)
  moreover have "set ((x, 0) # us) = {(u, 0) | u. civil_ok u \<and> scheduled s u \<and> earlier c u \<and> Before (u, 0) b}" (is "_ = ?S")
  proof
    show "set ((x, 0) # us) \<subseteq> ?S" using us(3) x earlier_trans [of c x] by auto
    show "?S \<subseteq> set ((x, 0) # us)" using us(3) least earlier_total by fastforce
  qed
  ultimately show ?thesis using us(1) Inr unfolding nexts_ok_def by (auto intro!: exI [of _ "(x, 0) # us"])
qed

lemma nexts_loop_ok:
  assumes "civil_ok (fst cur)" and "0 \<le> snd cur" and "civil_ok (fst b)" and "stamp (fst b) - stamp (fst cur) < int fuel"
  shows "\<exists>r. nexts_loop fuel s cur b nexts = Some r \<and> nexts_ok s (fst cur) b nexts r"
  using assms
proof (induction fuel arbitrary: cur nexts)
  case 0
  then have "\<not> earlier (fst cur) (fst b)" "fst cur \<noteq> fst b" using earlier_stamp by fastforce+
  then have "\<not> Before cur b" "\<not> earlier (fst cur) u \<or> \<not> Before (u, 0) b" for u
    using earlier_trans by (auto simp: Before_def)
  then show ?case using nexts_none by auto
next
  case (Suc fuel)
  note least = Next_least [OF Suc.prems(1), of s]
  show ?case
  proof (cases "Before cur b")
    case False
    have "\<not> Before (u, 0) b" if "earlier (fst cur) u" for u
      using False that Before_trans [of cur "(u, 0)" b] earlier_Before [of "fst cur" u "snd cur" 0] by auto
    then show ?thesis using False nexts_none by auto
  next
    case True
    show ?thesis
    proof (cases "Next s cur")
      case None
      then show ?thesis using True least by (auto simp: nexts_ok_def)
    next
      case (Some n)
      then have n: "snd n = 0" "civil_ok (fst n)" "scheduled s (fst n)" "earlier (fst cur) (fst n)"
        and first: "\<And>u. civil_ok u \<Longrightarrow> scheduled s u \<Longrightarrow> earlier (fst cur) u \<Longrightarrow> \<not> earlier u (fst n)" using least by auto
      have p: "n = (fst n, 0)" using n(1) by (cases n) auto
      show ?thesis
      proof (cases "Before n b")
        case False
        have "nexts_ok s (fst cur) b nexts (Inr nexts)" using not_Before first False p by (metis nexts_none)
        then show ?thesis using True False Some by auto
      next
        case t: True
        have "stamp (fst cur) < stamp (fst n)" using earlier_stamp Suc.prems(1) n by blast
        then obtain r where r: "nexts_loop fuel s n b (nexts @ [n]) = Some r" "nexts_ok s (fst n) b (nexts @ [n]) r"
          using Suc.IH [of n "nexts @ [n]"] n Suc.prems by auto
        have "nexts_ok s (fst cur) b nexts r"
          by (rule nexts_one_more [of "fst n"]) (use n first r t p in auto)
        then show ?thesis using True t Some r by auto
      qed
    qed
  qed
qed

section \<open>The values of a field\<close>

lemma rangeList_exact:
  assumes "0 < step" and "hi + step < 2 ^ 63" and "- (2 ^ 63) \<le> i"
  shows "\<exists>vs. rangeList i hi step = Some vs \<and> set vs = {v. i \<le> v \<and> v \<le> hi \<and> step dvd v - i}"
  using assms
proof (induction "nat (hi + 1 - i)" arbitrary: i rule: less_induct)
  case less
  show ?case
  proof (cases "i \<le> hi")
    case False
    then show ?thesis by (subst rangeList.simps) auto
  next
    case True
    then have w: "wrap64 (i + step) = i + step" using less.prems by (intro wrap64_id) auto
    have "nat (hi + 1 - (i + step)) < nat (hi + 1 - i)" using True less.prems(1) by linarith
    then obtain vs where vs: "rangeList (i + step) hi step = Some vs" "set vs = {v. i + step \<le> v \<and> v \<le> hi \<and> step dvd v - (i + step)}"
      using less.hyps [of "i + step"] less.prems by auto
    have "step dvd v - (i + step) \<longleftrightarrow> step dvd v - i" for v
      using dvd_diff [of step "v - i" step] dvd_add [of step "v - (i + step)" step] by (auto simp: algebra_simps)
    moreover have "i = v \<or> i + step \<le> v" if "i \<le> v" "step dvd v - i" for v
      using zdvd_imp_le [OF that(2)] that(1) less.prems(1) by (cases "i = v") auto
    ultimately have "set (i # vs) = {v. i \<le> v \<and> v \<le> hi \<and> step dvd v - i}" using vs(2) True less.prems(1) by auto
    then show ?thesis using True vs(1) w by (subst rangeList.simps) simp
  qed
qed

text \<open>With a step near the largest \<open>int\<close> the counter wraps round, and the loop still ends.\<close>

lemma rangeList_wraps:
  assumes "step = 2 ^ 63 - k" and "1 \<le> k" and "k \<le> 59" and "0 \<le> hi" and "hi \<le> 59" and "- 59 \<le> i"
  shows "\<exists>vs. rangeList i hi step = Some vs"
  using assms(6)
proof (induction "nat (i + 60)" arbitrary: i rule: less_induct)
  case less
  consider "hi < i" | "i \<le> hi" "i < k" | "i \<le> hi" "k \<le> i" by linarith
  then show ?case
  proof cases
    case 1
    then show ?thesis by (subst rangeList.simps) auto
  next
    case 2
    have "wrap64 (i + step) = i + step" using 2 assms less.prems by (intro wrap64_id) auto
    moreover have "rangeList (i + step) hi step = Some []" using assms less.prems by (subst rangeList.simps) auto
    ultimately show ?thesis using 2 by (subst rangeList.simps) simp
  next
    case 3
    have w: "wrap64 (i + step) = i - k - 2 ^ 63" using 3 assms by (simp add: wrap64_def)
    have w': "wrap64 (i - k - 2 ^ 63 + step) = i - 2 * k" using 3 assms by (subst wrap64_id) auto
    have "\<exists>vs. rangeList (i - 2 * k) hi step = Some vs" using less.hyps [of "i - 2 * k"] 3 assms by auto
    then have "\<exists>vs. rangeList (i - k - 2 ^ 63) hi step = Some vs" using w' 3 assms by (subst rangeList.simps) auto
    then show ?thesis using w 3 by (subst rangeList.simps) auto
  qed
qed

lemma rangeList_returns:
  assumes "0 < step" and "step < 2 ^ 63" and "0 \<le> hi" and "hi \<le> 59" and "0 \<le> i"
  shows "\<exists>vs. rangeList i hi step = Some vs"
proof (cases "hi + step < 2 ^ 63")
  case True
  then show ?thesis using rangeList_exact [of step hi i] assms by auto
next
  case False
  then show ?thesis using rangeList_wraps [of step "2 ^ 63 - step" hi i] assms by auto
qed

lemma Atoi_range: "Atoi s = (n, True) \<Longrightarrow> - (2 ^ 63) \<le> n \<and> n < 2 ^ 63"
  by (auto simp: Atoi_def Let_def split: if_splits)

lemma dec_val_bound: "list_all digit s \<Longrightarrow> dec_val s < 10 ^ length s"
proof (induction s rule: rev_induct)
  case (snoc c s)
  have "dec_val (s @ [c]) = 10 * dec_val s + (of_char c - 48)" by (simp add: dec_val_def)
  moreover have "dec_val s < 10 ^ length s" "(of_char c :: nat) - 48 < 10" using snoc by (auto simp: digit_def)
  ultimately show ?case by simp
qed (simp add: dec_val_def)

lemma Atoi_bound:
  assumes "Atoi s = (n, True)"
  shows "n < 10 ^ length s"
proof -
  define ds where "ds = (if s \<noteq> [] \<and> (hd s = CHR ''-'' \<or> hd s = CHR ''+'') then tl s else s)"
  have d: "list_all digit ds" "n \<le> int (dec_val ds)" using assms by (auto simp: Atoi_def Let_def ds_def [symmetric] split: if_splits)
  have "length ds \<le> length s" by (simp add: ds_def)
  then have "(10 :: nat) ^ length ds \<le> 10 ^ length s" by (intro power_increasing) auto
  then have "int (dec_val ds) < int (10 ^ length s)" using dec_val_bound [OF d(1)] by linarith
  then have "n < int (10 ^ length s)" using d(2) by linarith
  then show ?thesis by (simp only: of_nat_power of_nat_numeral)
qed

definition short_step :: "int \<Rightarrow> bool" where
  "short_step step \<longleftrightarrow> step < 10 ^ 18"

definition vals_ok :: "bool \<Rightarrow> int \<Rightarrow> int \<Rightarrow> (cron_err + int list) option \<Rightarrow> bool" where
  "vals_ok b lo hi r = (case r of None \<Rightarrow> False | Some (Inl e) \<Rightarrow> True | Some (Inr vs) \<Rightarrow> b \<longrightarrow> (\<forall>v \<in> set vs. lo \<le> v \<and> v \<le> hi))"

lemma vals_ok_err [simp]: "vals_ok b lo hi (Some (Inl e))"
  by (simp add: vals_ok_def)

lemma rangeList_vals:
  assumes "0 < step" and "step < 2 ^ 63" and "0 \<le> lo" and "hi \<le> 59" and "lo \<le> i" and "i \<le> hi'" and "hi' \<le> hi"
  shows "vals_ok (short_step step) lo hi (map_option Inr (rangeList i hi' step))"
proof -
  obtain vs where vs: "rangeList i hi' step = Some vs" using rangeList_returns [of step hi' i] assms by auto
  have "\<forall>v \<in> set vs. lo \<le> v \<and> v \<le> hi" if "short_step step"
    using rangeList_exact [of step hi' i] that assms vs by (auto simp: short_step_def)
  then show ?thesis using vs by (simp add: vals_ok_def)
qed

lemma part_range_vals:
  assumes "0 < step" and "step < 2 ^ 63" and "0 \<le> lo" and "lo \<le> hi" and "hi \<le> 59"
  shows "vals_ok (short_step step) lo hi (part_range p step lo hi)"
proof (cases "p = ''*''")
  case True
  then show ?thesis using rangeList_vals [of step lo hi lo hi] assms by (simp add: part_range_def)
next
  case star: False
  show ?thesis
  proof (cases "Cut p CHR ''-''")
    case None
    obtain n ok where a: "Atoi p = (n, ok)" by fastforce
    show ?thesis using star None a rangeList_vals [of step lo hi n hi] assms by (auto simp: part_range_def vals_ok_def)
  next
    case (Some c)
    obtain a b where c: "c = (a, b)" by fastforce
    obtain m ok n ok' where n: "Atoi a = (m, ok)" "Atoi b = (n, ok')" by fastforce
    show ?thesis using star Some c n rangeList_vals [of step lo hi m n] assms by (auto simp: part_range_def)
  qed
qed

lemma Cut_length: "Cut s c = Some (a, b) \<Longrightarrow> length b < length s"
proof -
  assume c: "Cut s c = Some (a, b)"
  then have "c \<in> set s" and b: "b = tl (dropWhile (\<lambda>x. x \<noteq> c) s)" by (auto simp: Cut_def split: if_splits)
  then have "dropWhile (\<lambda>x. x \<noteq> c) s \<noteq> []" by (auto simp: dropWhile_eq_Nil_conv)
  then have "length b < length (dropWhile (\<lambda>x. x \<noteq> c) s)" using b by simp
  then show "length b < length s" using length_dropWhile_le [of "\<lambda>x. x \<noteq> c" s] by linarith
qed

text \<open>A part of fewer than twenty characters has a step of at most eighteen digits.\<close>

lemma parsePart_vals:
  assumes "0 \<le> lo" and "lo \<le> hi" and "hi \<le> 59"
  shows "vals_ok (length p < 20) lo hi (parsePart p lo hi)"
proof (cases "Cut p CHR ''/''")
  case None
  then show ?thesis using part_range_vals [of 1 lo hi p] assms by (auto simp: parsePart_def vals_ok_def short_step_def split: option.splits sum.splits)
next
  case (Some c)
  obtain a b where c: "c = (a, b)" by fastforce
  obtain n ok where n: "Atoi b = (n, ok)" by fastforce
  show ?thesis
  proof (cases "ok \<and> 0 < n")
    case True
    have "n < 10 ^ 18" if "length p < 20"
    proof -
      have "length b \<le> 18" using Cut_length [of p "CHR ''/''" a b] Some c that by simp
      then have "(10 :: int) ^ length b \<le> 10 ^ 18" by (intro power_increasing) auto
      then show ?thesis using Atoi_bound [of b n] n True by simp
    qed
    then show ?thesis using part_range_vals [of n lo hi a] Atoi_range [of b n] True Some c n assms
      by (auto simp: parsePart_def vals_ok_def short_step_def split: option.splits sum.splits)
  next
    case False
    then show ?thesis using Some c n by (auto simp: parsePart_def)
  qed
qed

lemma fold_once:
  "set (fold (\<lambda>v r. if v \<in> set r then r else r @ [v]) vs r) = set r \<union> set vs"
  "distinct r \<Longrightarrow> distinct (fold (\<lambda>v r. if v \<in> set r then r else r @ [v]) vs r)"
  by (induction vs arbitrary: r) auto

definition parts_ok :: "bool \<Rightarrow> int \<Rightarrow> int \<Rightarrow> (cron_err + int list) option \<Rightarrow> bool" where
  "parts_ok b lo hi r \<longleftrightarrow> vals_ok b lo hi r \<and> (\<forall>vs. r = Some (Inr vs) \<longrightarrow> distinct vs)"

lemma parse_parts_vals:
  assumes "0 \<le> lo" and "lo \<le> hi" and "hi \<le> 59"
  shows "distinct result \<Longrightarrow> (b \<Longrightarrow> \<forall>p \<in> set ps. length p < 20) \<Longrightarrow> (b \<Longrightarrow> \<forall>v \<in> set result. lo \<le> v \<and> v \<le> hi)
    \<Longrightarrow> parts_ok b lo hi (parse_parts ps lo hi result)"
proof (induction ps arbitrary: result)
  case Nil
  then show ?case by (simp add: parts_ok_def vals_ok_def)
next
  case (Cons p ps)
  note v = parsePart_vals [OF assms, of p]
  obtain r where r: "parsePart p lo hi = Some r" using v by (auto simp: vals_ok_def split: option.splits)
  show ?case
  proof (cases r)
    case (Inl e)
    then show ?thesis by (simp add: r parts_ok_def)
  next
    case (Inr vals)
    define now where "now = fold (\<lambda>v result. if v \<in> set result then result else result @ [v]) vals result"
    have d: "distinct now" unfolding now_def by (rule fold_once(2)) (rule Cons.prems)
    have s: "set now = set result \<union> set vals" unfolding now_def by (rule fold_once(1))
    have "\<forall>v \<in> set vals. lo \<le> v \<and> v \<le> hi" if b using v Cons.prems(2) that r Inr by (simp add: vals_ok_def)
    then have "parts_ok b lo hi (parse_parts ps lo hi now)" using Cons.IH [OF d] Cons.prems(2,3) s by auto
    then show ?thesis by (simp add: r Inr now_def)
  qed
qed

definition field_ok :: "bool \<Rightarrow> int \<Rightarrow> int \<Rightarrow> (cron_err + int list \<times> bool) option \<Rightarrow> bool" where
  "field_ok b lo hi r = (case r of None \<Rightarrow> False | Some (Inl e) \<Rightarrow> True
     | Some (Inr (vs, w)) \<Rightarrow> vs \<noteq> [] \<and> distinct vs \<and> (b \<longrightarrow> (\<forall>v \<in> set vs. lo \<le> v \<and> v \<le> hi)))"

lemma rangeList_all: "0 \<le> lo \<Longrightarrow> lo \<le> hi \<Longrightarrow> hi \<le> 59 \<Longrightarrow> rangeList lo hi 1 = Some [lo..hi]"
proof (induction "nat (hi + 1 - lo)" arbitrary: lo rule: less_induct)
  case less
  have w: "wrap64 (lo + 1) = lo + 1" using less.prems by (intro wrap64_id) auto
  have "rangeList (lo + 1) hi 1 = Some [lo + 1..hi]"
  proof (cases "lo < hi")
    case True
    then show ?thesis using less by auto
  next
    case False
    then show ?thesis by (subst rangeList.simps) auto
  qed
  then show ?case using w less.prems by (subst rangeList.simps) (simp add: upto_rec1)
qed

lemma parseField_ok:
  assumes "0 \<le> lo" and "lo \<le> hi" and "hi \<le> 59" and "b \<Longrightarrow> \<forall>p \<in> set (split_on CHR '','' f). length p < 20"
  shows "field_ok b lo hi (parseField f lo hi)"
proof (cases "f = ''*''")
  case True
  then show ?thesis using rangeList_all [OF assms(1,2,3)] assms(2) by (simp add: parseField_def field_ok_def)
next
  case False
  have "parts_ok b lo hi (parse_parts (split_on CHR '','' f) lo hi [])" using parse_parts_vals [OF assms(1,2,3)] assms(4) by simp
  then show ?thesis using False
    by (auto simp: parseField_def field_ok_def parts_ok_def vals_ok_def Let_def split: option.splits sum.splits)
qed

definition short_parts :: "string \<Rightarrow> bool" where
  "short_parts expr \<longleftrightarrow> (\<forall>f \<in> set (Fields expr). \<forall>p \<in> set (split_on CHR '','' f). length p < 20)"

definition values_in :: "int \<Rightarrow> int \<Rightarrow> int list \<Rightarrow> bool" where
  "values_in lo hi vs \<longleftrightarrow> vs \<noteq> [] \<and> distinct vs \<and> (\<forall>v \<in> set vs. lo \<le> v \<and> v \<le> hi)"

lemma parseField_cases:
  assumes "0 \<le> lo" and "lo \<le> hi" and "hi \<le> 59"
  obtains e where "parseField f lo hi = Some (Inl e)"
  | vs w where "parseField f lo hi = Some (Inr (vs, w))" and "(\<forall>p \<in> set (split_on CHR '','' f). length p < 20) \<longrightarrow> values_in lo hi vs"
  using parseField_ok [OF assms, of "\<forall>p \<in> set (split_on CHR '','' f). length p < 20" f]
  by (auto simp: field_ok_def values_in_def split: option.splits sum.splits)

text \<open>What the fields of a schedule hold.\<close>

definition schedule_in_range :: "cronSchedule \<Rightarrow> bool" where
  "schedule_in_range s \<longleftrightarrow> values_in 0 59 (minute s) \<and> values_in 0 23 (hour s) \<and> values_in 1 31 (dayOfMonth s)
     \<and> values_in 1 12 (month s) \<and> values_in 0 6 (dayOfWeek s)"

lemma parse_five:
  assumes "Fields expr = [f0, f1, f2, f3, f4]"
  shows "\<exists>r. parseCronExpr expr = Some r \<and> (isl r \<or> \<not> short_parts expr \<or> schedule_in_range (projr r))"
proof -
  note c = parseField_cases [of 0 59 f0] parseField_cases [of 0 23 f1] parseField_cases [of 1 31 f2] parseField_cases [of 1 12 f3] parseField_cases [of 0 6 f4]
  show ?thesis
    by (rule c(1); (rule c(2))?; (rule c(3))?; (rule c(4))?; (rule c(5))?)
      (simp_all add: parseCronExpr_def assms short_parts_def schedule_in_range_def, blast)
qed

text \<open>
  Parsing a cron expression always returns: a schedule or an error. When every comma-separated part of the expression has fewer than
  twenty characters, each list of the schedule is non-empty, has no value twice, and holds only values of its field (minutes
  0 to 59, hours 0 to 23, days 1 to 31, months 1 to 12, weekdays 0 to 6).
\<close>

theorem parsed_values_in_range:
  "\<exists>r. parseCronExpr expr = Some r \<and> (isl r \<or> \<not> short_parts expr \<or> schedule_in_range (projr r))"
proof (cases "\<exists>f0 f1 f2 f3 f4. Fields expr = [f0, f1, f2, f3, f4]")
  case True
  then show ?thesis using parse_five by blast
next
  case False
  then have "parseCronExpr expr = Some (Inl (FieldCount (length (Fields expr))))"
    by (auto simp: parseCronExpr_def split: list.splits)
  then show ?thesis by simp
qed

definition ex_schedule :: cronSchedule where
  "ex_schedule = \<lparr>minute = [0, 30], hour = [0..23], dayOfMonth = [1..31], month = [1..12], dayOfWeek = [0..6], domWildCard = True, dowWildCard = True\<rparr>"

lemma ex_cron: "parseCronExpr ''0,30 * * * *'' = Some (Inr ex_schedule)"
  by code_simp

lemma ex_short: "short_parts ''0,30 * * * *''"
  by code_simp

theorem parsed_values_in_range_witness:
  "parseCronExpr ''0,30 * * * *'' = Some (Inr ex_schedule) \<and> schedule_in_range ex_schedule"
  using parsed_values_in_range [of "''0,30 * * * *''"] ex_cron ex_short by simp

text \<open>
  C25. \<open>NextsBetween\<close> with a valid expression returns, for all civil times: the list it returns holds exactly the minutes that fit the
  schedule, lie after the start's minute and before the end, each once and in order. It reports a failure only when after
  some time it reached, the start or a fitting minute, no fitting minute follows within the five years \<open>Next\<close> searches.
\<close>

theorem nexts_between_exact:
  assumes "parseCronExpr expr = Some (Inr s)" and "\<not> Before end' start" and "civil_ok (fst start)" and "0 \<le> snd start" and "civil_ok (fst end')"
  shows "\<exists>r. NextsBetween expr start end' = Some r \<and> nexts_ok s (fst start) end' [] r"
proof -
  let ?fuel = "nat (stamp (fst end') - stamp (fst start)) + 2"
  have "stamp (fst end') - stamp (fst start) < int ?fuel" by simp
  then have "\<exists>r. nexts_loop ?fuel s start end' [] = Some r \<and> nexts_ok s (fst start) end' [] r"
    using nexts_loop_ok assms(3,4,5) by blast
  then show ?thesis using assms(1,2) by (simp add: NextsBetween_def)
qed

definition ex_start :: gotime where
  "ex_start = (\<lparr>yr = 2028, mon = 2, dy = 28, hr = 23, mi = 29\<rparr>, 5)"

definition ex_end :: gotime where
  "ex_end = (\<lparr>yr = 2028, mon = 2, dy = 29, hr = 0, mi = 1\<rparr>, 0)"

definition ex_nexts :: "gotime list" where
  "ex_nexts = [(\<lparr>yr = 2028, mon = 2, dy = 28, hr = 23, mi = 30\<rparr>, 0), (\<lparr>yr = 2028, mon = 2, dy = 29, hr = 0, mi = 0\<rparr>, 0)]"

lemma ex_runs: "NextsBetween ''0,30 * * * *'' ex_start ex_end = Some (Inr ex_nexts)"
  by code_simp

lemma ex_times: "\<not> Before ex_end ex_start" "civil_ok (fst ex_start)" "0 \<le> snd ex_start" "civil_ok (fst ex_end)"
  by code_simp+

theorem nexts_between_exact_witness:
  "NextsBetween ''0,30 * * * *'' ex_start ex_end = Some (Inr ex_nexts) \<and> nexts_ok ex_schedule (fst ex_start) ex_end [] (Inr ex_nexts)"
  using nexts_between_exact [OF ex_cron ex_times] ex_runs by simp

text \<open>A step in the day-of-month field counts as a wildcard: \<open>*/2\<close> names the odd days and every day scheduled.\<close>

lemma day_step_ignored:
  "NextAfter ''0 0 */2 * *'' (\<lparr>yr = 2026, mon = 1, dy = 1, hr = 23, mi = 30\<rparr>, 0) = Some (Inr (\<lparr>yr = 2026, mon = 1, dy = 2, hr = 0, mi = 0\<rparr>, 0))"
  by code_simp

text \<open>A step next to the largest \<open>int\<close> wraps the counter round: \<open>2/9223372036854775807\<close> names the minutes 2 and 0.\<close>

lemma huge_step_wraps: "parsePart ''2/9223372036854775807'' 0 59 = Some (Inr [2, - 9223372036854775807, 0])"
proof -
  have a: "Atoi ''9223372036854775807'' = (9223372036854775807, True)" "Atoi ''2'' = (2, True)"
    by (simp_all add: Atoi_def dec_val_def digit_def Let_def)
  have "rangeList 2 59 9223372036854775807 = Some [2, - 9223372036854775807, 0]"
    by (subst rangeList.simps, simp add: wrap64_def, subst rangeList.simps, simp add: wrap64_def,
        subst rangeList.simps, simp add: wrap64_def, subst rangeList.simps, simp)
  then show ?thesis using a by (simp add: parsePart_def part_range_def Cut_def)
qed

end
