(* ===== verification/Orm_Filter.thy ===== *)
theory Orm_Filter
  imports Go_Strings "HOL-Library.List_Lexorder" "HOL-Library.Char_ord"
begin

text \<open>
  The filters of the query builder (\<open>src/swifty_orm/filter.go\<close>): how the arguments of \<open>Where\<close> become conditions, and how conditions
  become the filter document that is sent to the database. Dynamic values are of type \<open>any\<close>; a failed type assertion
  is a panic, the value \<open>None\<close>. Text is ASCII.
\<close>

section \<open>Values\<close>

text \<open>
  \<open>AMap\<close> is a \<open>bson.M\<close> or \<open>map[string]any\<close>, \<open>ADoc\<close> a \<open>bson.D\<close>, \<open>APair\<close> a \<open>[2]any\<close>, \<open>ASlice\<close> any other slice or array, \<open>ARegex\<close> a
  \<open>bson.Regex\<close>; \<open>AOther\<close> stands for the values of other types.
\<close>

datatype any =
    ANil
  | ABool bool
  | AInt int
  | AStr string
  | ABytes string
  | APair any any
  | ASlice "any list"
  | AMap "(string \<times> any) list"
  | ADoc "(string \<times> any) list"
  | ARegex string string
  | AStruct "(string \<times> any) list"
  | APtr "any option"
  | AOther nat

section \<open>Conditions\<close>

record condition =
  field :: string
  op :: string
  cvalue :: any

datatype orm_err = WhereField | WhereOperator | WhereArgs nat | WhereMap | UnsupportedOp string | BetweenArg | LikeArg string
  | GroupField | AggField string | AliasEmpty | AliasId | AliasName string
  | CollectionRequired | GroupOnly | NoDocuments | GroupRequired | SelectWithGroup | DupKey string | AliasKey string | DupAlias string
  | HavingColumn string | SortColumn string | Driver nat

definition opAliases :: "(string \<times> string) list" where
  "opAliases = [(''='', ''=''), (''=='', ''=''), (''!='', ''$ne''), (''<>'', ''$ne''), (''>'', ''$gt''), (''>='', ''$gte''),
     (''<'', ''$lt''), (''<='', ''$lte''), (''in'', ''$in''), (''not in'', ''$nin''), (''nin'', ''$nin''), (''like'', ''like''),
     (''ilike'', ''ilike''), (''between'', ''between''), (''not between'', ''notBetween'')]"

definition toBetweenPair :: "any \<Rightarrow> orm_err + any" where
  "toBetweenPair v = (case v of APair a b \<Rightarrow> Inr (APair a b) | ASlice [a, b] \<Rightarrow> Inr (APair a b)
     | ADoc [a, b] \<Rightarrow> Inr (APair (AStruct [(''Key'', AStr (fst a)), (''Value'', snd a)]) (AStruct [(''Key'', AStr (fst b)), (''Value'', snd b)]))
     | ABytes [a, b] \<Rightarrow> Inr (APair (AInt (of_char a)) (AInt (of_char b)))
     | _ \<Rightarrow> Inl BetweenArg)"

definition normalizeOp :: "string \<Rightarrow> any \<Rightarrow> orm_err + string \<times> any" where
  "normalizeOp rawOp v = (case map_of opAliases (ToLower (TrimSpace rawOp)) of
     None \<Rightarrow> if has_prefix rawOp ''$'' then Inr (rawOp, v) else Inl (UnsupportedOp rawOp)
   | Some op' \<Rightarrow>
       if op' = ''between'' \<or> op' = ''notBetween'' then sbind (toBetweenPair v) (\<lambda>pair. Inr (op', pair))
       else if op' = ''like'' \<or> op' = ''ilike'' then (case v of AStr _ \<Rightarrow> Inr (op', v) | _ \<Rightarrow> Inl (LikeArg op'))
       else Inr (op', v))"

definition equality :: "string \<Rightarrow> any \<Rightarrow> condition" where
  "equality f v = (if v = ANil then \<lparr>field = f, op = ''null'', cvalue = ANil\<rparr> else \<lparr>field = f, op = ''='', cvalue = v\<rparr>)"

definition parseWhereMap :: "any \<Rightarrow> orm_err + condition list" where
  "parseWhereMap arg = (case arg of
     AMap doc \<Rightarrow> Inr (map (\<lambda>k. equality k (the (gm_get doc k))) (sort (map fst doc)))
   | _ \<Rightarrow> Inl WhereMap)"

definition parseWhere :: "any list \<Rightarrow> orm_err + condition list" where
  "parseWhere args = (case args of
     [arg] \<Rightarrow> parseWhereMap arg
   | [f, v] \<Rightarrow> (case f of
       AStr f \<Rightarrow> if TrimSpace f = [] then Inl WhereField else Inr [equality f v]
     | _ \<Rightarrow> Inl WhereField)
   | [f, rawOp, v] \<Rightarrow> (case f of
       AStr f \<Rightarrow>
         if TrimSpace f = [] then Inl WhereField
         else (case rawOp of
           AStr rawOp \<Rightarrow> sbind (normalizeOp rawOp v) (\<lambda>(op', v). Inr [\<lparr>field = f, op = op', cvalue = v\<rparr>])
         | _ \<Rightarrow> Inl WhereOperator)
     | _ \<Rightarrow> Inl WhereField)
   | _ \<Rightarrow> Inl (WhereArgs (length args)))"

section \<open>LIKE patterns\<close>

text \<open>\<open>regexp.QuoteMeta\<close>, and \<open>strings.ReplaceAll\<close> of a single character.\<close>

definition meta :: "char \<Rightarrow> bool" where
  "meta c \<longleftrightarrow> c \<in> set ''.+*?()|[]{}^$'' \<or> (of_char c :: nat) = 92"

definition backslash :: char where
  "backslash = CHR 0x5C"

definition QuoteMeta :: "string \<Rightarrow> string" where
  "QuoteMeta s = concat (map (\<lambda>c. if meta c then [backslash, c] else [c]) s)"

definition replace_char :: "char \<Rightarrow> string \<Rightarrow> string \<Rightarrow> string" where
  "replace_char a by s = concat (map (\<lambda>c. if c = a then by else [c]) s)"

definition likeToRegex :: "string \<Rightarrow> string" where
  "likeToRegex pattern =
     (let quoted = QuoteMeta pattern;
          quoted = replace_char CHR ''%'' ''.*'' quoted;
          quoted = replace_char CHR ''_'' ''.'' quoted
      in ''^'' @ quoted @ ''$'')"

section \<open>Filter documents\<close>

text \<open>The filter, the fields whose value is an operator map, and the clauses of the conjunction.\<close>

type_synonym fstate = "(string, any) gomap \<times> string set \<times> any list"

definition setEquality :: "string \<Rightarrow> any \<Rightarrow> fstate \<Rightarrow> fstate option" where
  "setEquality f v st = (case st of (flt, opFields, andClauses) \<Rightarrow>
     (case gm_get flt f of
        None \<Rightarrow> Some (gm_set f v flt, opFields, andClauses)
      | Some existing \<Rightarrow>
          if f \<in> opFields then (case existing of
              AMap m \<Rightarrow> if gm_get m ''$eq'' = None then Some (gm_set f (AMap (gm_set ''$eq'' v m)) flt, opFields, andClauses)
                         else Some (flt, opFields, andClauses @ [AMap [(f, v)]])
            | _ \<Rightarrow> None)
          else Some (flt, opFields, andClauses @ [AMap [(f, v)]])))"

definition setOp :: "string \<Rightarrow> string \<Rightarrow> any \<Rightarrow> fstate \<Rightarrow> fstate option" where
  "setOp f op' v st = (case st of (flt, opFields, andClauses) \<Rightarrow>
     (case gm_get flt f of
        None \<Rightarrow> Some (gm_set f (AMap [(op', v)]) flt, insert f opFields, andClauses)
      | Some existing \<Rightarrow>
          if f \<in> opFields then (case existing of
              AMap m \<Rightarrow> if gm_get m op' = None then Some (gm_set f (AMap (gm_set op' v m)) flt, opFields, andClauses)
                         else Some (flt, opFields, andClauses @ [AMap [(f, AMap [(op', v)])]])
            | _ \<Rightarrow> None)
          else Some (flt, opFields, andClauses @ [AMap [(f, AMap [(op', v)])]])))"

definition add_condition :: "condition \<Rightarrow> fstate \<Rightarrow> fstate option" where
  "add_condition c st =
     (if op c = ''='' then setEquality (field c) (cvalue c) st
      else if op c = ''null'' then setEquality (field c) ANil st
      else if op c = ''notNull'' then setOp (field c) ''$ne'' ANil st
      else if op c = ''between'' then (case cvalue c of
        APair a b \<Rightarrow> do { st \<leftarrow> setOp (field c) ''$gte'' a st; setOp (field c) ''$lte'' b st } | _ \<Rightarrow> None)
      else if op c = ''notBetween'' then (case cvalue c of
        APair a b \<Rightarrow> setOp (field c) ''$not'' (AMap [(''$gte'', a), (''$lte'', b)]) st | _ \<Rightarrow> None)
      else if op c = ''like'' then (case cvalue c of AStr p \<Rightarrow> setOp (field c) ''$regex'' (ARegex (likeToRegex p) '''') st | _ \<Rightarrow> None)
      else if op c = ''ilike'' then (case cvalue c of AStr p \<Rightarrow> setOp (field c) ''$regex'' (ARegex (likeToRegex p) ''i'') st | _ \<Rightarrow> None)
      else setOp (field c) (op c) (cvalue c) st)"

fun add_conditions :: "condition list \<Rightarrow> fstate \<Rightarrow> fstate option" where
  "add_conditions [] st = Some st"
| "add_conditions (c # cs) st = do { st \<leftarrow> add_condition c st; add_conditions cs st }"

definition buildConditionFilter :: "condition list \<Rightarrow> (string, any) gomap option" where
  "buildConditionFilter conditions = do {
     (flt, opFields, andClauses) \<leftarrow> add_conditions conditions ([], {}, []);
     Some (if andClauses \<noteq> [] then gm_set ''$and'' (ASlice andClauses) flt else flt) }"

definition build_groups :: "condition list list \<Rightarrow> any list option" where
  "build_groups groups = those (map (\<lambda>g. map_option AMap (buildConditionFilter g)) (filter (\<lambda>g. g \<noteq> []) groups))"

text \<open>\<open>Query.buildFilter\<close> of the conditions and the or-groups.\<close>

definition buildFilter :: "condition list \<Rightarrow> condition list list \<Rightarrow> (string, any) gomap option" where
  "buildFilter conditions orGroups = do {
     base \<leftarrow> buildConditionFilter conditions;
     if orGroups = [] then Some base
     else do {
       groups \<leftarrow> build_groups orGroups;
       let orClauses = (if conditions \<noteq> [] then AMap base # groups else groups);
       Some (case orClauses of
          [] \<Rightarrow> base
        | [AMap m] \<Rightarrow> m
        | _ \<Rightarrow> [(''$or'', ASlice orClauses)]) } }"

definition buildProjection :: "string list \<Rightarrow> (string, any) gomap option" where
  "buildProjection fs =
     (if fs = [] then None
      else Some (fold (\<lambda>f proj. if has_prefix f ''-'' then gm_set (tl f) (AInt 0) proj else gm_set f (AInt 1) proj) fs []))"


section \<open>What a filter document means\<close>

text \<open>
  A filter matches a document when all its clauses do; \<open>$and\<close> and \<open>$or\<close> combine filters, a field with an operator document
  asks for each operator, and with any other value for equality. What an operator asks of a document is the parameter \<open>at\<close>.
\<close>

definition operators :: "(string \<times> any) list \<Rightarrow> bool" where
  "operators m \<longleftrightarrow> (\<exists>k \<in> set (map fst m). has_prefix k ''$'')"

definition field_matches :: "('d \<Rightarrow> string \<Rightarrow> string \<Rightarrow> any \<Rightarrow> bool) \<Rightarrow> 'd \<Rightarrow> string \<Rightarrow> any \<Rightarrow> bool" where
  "field_matches at d k v = (case v of
     AMap m \<Rightarrow> if operators m then list_all (\<lambda>(op', x). at d k op' x) m else at d k ''$eq'' v
   | ADoc m \<Rightarrow> if operators m then list_all (\<lambda>(op', x). at d k op' x) m else at d k ''$eq'' v
   | ARegex p opts \<Rightarrow> at d k ''$regex'' v
   | _ \<Rightarrow> at d k ''$eq'' v)"

fun filter_matches :: "('d \<Rightarrow> string \<Rightarrow> string \<Rightarrow> any \<Rightarrow> bool) \<Rightarrow> 'd \<Rightarrow> any \<Rightarrow> bool" where
  "filter_matches at d (AMap m) = (\<forall>(k, v) \<in> set m.
     if k = ''$and'' then (case v of ASlice fs \<Rightarrow> \<forall>f \<in> set fs. filter_matches at d f | _ \<Rightarrow> False)
     else if k = ''$or'' then (case v of ASlice fs \<Rightarrow> \<exists>f \<in> set fs. filter_matches at d f | _ \<Rightarrow> False)
     else field_matches at d k v)"
| "filter_matches at d _ = False"

text \<open>What a condition asks for.\<close>

definition cond_holds :: "('d \<Rightarrow> string \<Rightarrow> string \<Rightarrow> any \<Rightarrow> bool) \<Rightarrow> 'd \<Rightarrow> condition \<Rightarrow> bool" where
  "cond_holds at d c =
     (if op c = ''='' then at d (field c) ''$eq'' (cvalue c)
      else if op c = ''null'' then at d (field c) ''$eq'' ANil
      else if op c = ''notNull'' then at d (field c) ''$ne'' ANil
      else if op c = ''between'' then (case cvalue c of APair a b \<Rightarrow> at d (field c) ''$gte'' a \<and> at d (field c) ''$lte'' b | _ \<Rightarrow> False)
      else if op c = ''notBetween'' then (case cvalue c of APair a b \<Rightarrow> at d (field c) ''$not'' (AMap [(''$gte'', a), (''$lte'', b)]) | _ \<Rightarrow> False)
      else if op c = ''like'' then (case cvalue c of AStr p \<Rightarrow> at d (field c) ''$regex'' (ARegex (likeToRegex p) '''') | _ \<Rightarrow> False)
      else if op c = ''ilike'' then (case cvalue c of AStr p \<Rightarrow> at d (field c) ''$regex'' (ARegex (likeToRegex p) ''i'') | _ \<Rightarrow> False)
      else at d (field c) (op c) (cvalue c))"

text \<open>Conditions of the types the builder makes, on fields that are not operators and with values that are not.\<close>

definition typed_cond :: "condition \<Rightarrow> bool" where
  "typed_cond c \<longleftrightarrow>
     (if op c \<in> {''='', ''null'', ''notNull''} then True
      else if op c \<in> {''between'', ''notBetween''} then (case cvalue c of APair a b \<Rightarrow> True | _ \<Rightarrow> False)
      else if op c \<in> {''like'', ''ilike''} then (case cvalue c of AStr p \<Rightarrow> True | _ \<Rightarrow> False)
      else has_prefix (op c) ''$'')"

definition plain_value :: "any \<Rightarrow> bool" where
  "plain_value v = (case v of AMap m \<Rightarrow> \<not> operators m | ADoc m \<Rightarrow> \<not> operators m | ARegex p opts \<Rightarrow> False | _ \<Rightarrow> True)"

definition plain_cond :: "condition \<Rightarrow> bool" where
  "plain_cond c \<longleftrightarrow> \<not> has_prefix (field c) ''$'' \<and> (op c = ''='' \<longrightarrow> plain_value (cvalue c))"

section \<open>The filter asks for exactly the conditions\<close>

definition op_doc :: "any \<Rightarrow> bool" where
  "op_doc v = (case v of AMap m \<Rightarrow> gm_ok m \<and> m \<noteq> [] \<and> (\<forall>k \<in> set (map fst m). has_prefix k ''$'') | _ \<Rightarrow> False)"

definition fst_ok :: "fstate \<Rightarrow> bool" where
  "fst_ok st = (case st of (flt, opFields, ands) \<Rightarrow> gm_ok flt \<and> opFields \<subseteq> dom (gm_get flt)
     \<and> (\<forall>k v. gm_get flt k = Some v \<longrightarrow> \<not> has_prefix k ''$'' \<and> (k \<in> opFields \<longrightarrow> op_doc v))
     \<and> (\<forall>a \<in> set ands. \<exists>f v. a = AMap [(f, v)] \<and> \<not> has_prefix f ''$''))"

definition fst_means :: "('d \<Rightarrow> string \<Rightarrow> string \<Rightarrow> any \<Rightarrow> bool) \<Rightarrow> 'd \<Rightarrow> fstate \<Rightarrow> bool" where
  "fst_means at d st = (case st of (flt, opFields, ands) \<Rightarrow>
     (\<forall>k v. gm_get flt k = Some v \<longrightarrow> field_matches at d k v) \<and> (\<forall>a \<in> set ands. filter_matches at d a))"

lemma plain_eq: "plain_value v \<Longrightarrow> field_matches at d k v \<longleftrightarrow> at d k ''$eq'' v"
  by (cases v) (auto simp: plain_value_def field_matches_def)

lemma no_clause: "\<not> has_prefix k ''$'' \<Longrightarrow> k \<noteq> ''$and'' \<and> k \<noteq> ''$or''"
  by auto

lemma field_clause [simp]: "\<not> has_prefix k ''$'' \<Longrightarrow> filter_matches at d (AMap [(k, v)]) \<longleftrightarrow> field_matches at d k v"
  by auto

lemma gm_set_ne [simp]: "gm_set k v m \<noteq> []"
  by (auto simp: gm_set_def)

lemma keys_set: "set (map fst (gm_set k v m)) = insert k (set (map fst m))"
  unfolding gm_dom by simp

text \<open>Putting one clause into the state, whatever way it goes in.\<close>

lemma put_clause_ok: "fst_ok (flt, opFields, ands) \<Longrightarrow> \<not> has_prefix f ''$'' \<Longrightarrow> fst_ok (flt, opFields, ands @ [AMap [(f, v)]])"
  by (auto simp: fst_ok_def)

lemma put_clause_means:
  "\<not> has_prefix f ''$'' \<Longrightarrow> fst_means at d (flt, opFields, ands @ [AMap [(f, v)]]) \<longleftrightarrow> fst_means at d (flt, opFields, ands) \<and> field_matches at d f v"
  unfolding fst_means_def by auto

lemma put_new_ok:
  assumes "fst_ok (flt, opFields, ands)" and "\<not> has_prefix f ''$''" and "gm_get flt f = None"
  shows "fst_ok (gm_set f v flt, opFields, ands)" and "op_doc v \<Longrightarrow> fst_ok (gm_set f v flt, insert f opFields, ands)"
  using assms by (auto simp: fst_ok_def)

lemma put_new_means:
  "gm_get flt f = None \<Longrightarrow> fst_means at d (gm_set f v flt, opFields', ands) \<longleftrightarrow> fst_means at d (flt, opFields, ands) \<and> field_matches at d f v"
  by (auto simp: fst_means_def)

lemma op_doc_set: "op_doc (AMap m) \<Longrightarrow> has_prefix k ''$'' \<Longrightarrow> op_doc (AMap (gm_set k v m))"
  using keys_set [of k v m] by (simp add: op_doc_def del: set_map)

lemma operators_match:
  assumes "op_doc (AMap m)"
  shows "field_matches at d k (AMap m) \<longleftrightarrow> (\<forall>o' x. gm_get m o' = Some x \<longrightarrow> at d k o' x)"
proof -
  have "operators m" and ok: "gm_ok m" using assms by (cases m; auto simp: op_doc_def operators_def)+
  then show ?thesis by (auto simp: field_matches_def list_all_iff gm_mem_iff [OF ok])
qed

lemma op_doc_one: "has_prefix k ''$'' \<Longrightarrow> op_doc (AMap [(k, v)])"
  by (simp add: op_doc_def gm_ok_def)

lemma put_operator_ok:
  assumes "fst_ok (flt, opFields, ands)" and "gm_get flt f = Some (AMap m)" and "f \<in> opFields" and "has_prefix k ''$''"
  shows "fst_ok (gm_set f (AMap (gm_set k v m)) flt, opFields, ands)"
  using assms op_doc_set [of m k v] by (auto simp: fst_ok_def)

lemma put_operator_means:
  assumes "fst_ok (flt, opFields, ands)" and f: "gm_get flt f = Some (AMap m)" "f \<in> opFields" and k: "has_prefix k ''$''" "gm_get m k = None"
  shows "fst_means at d (gm_set f (AMap (gm_set k v m)) flt, opFields, ands) \<longleftrightarrow> fst_means at d (flt, opFields, ands) \<and> at d f k v"
proof -
  have m: "op_doc (AMap m)" using assms(1) f by (auto simp: fst_ok_def)
  have "field_matches at d f (AMap (gm_set k v m)) \<longleftrightarrow> field_matches at d f (AMap m) \<and> at d f k v"
    unfolding operators_match [OF m] operators_match [OF op_doc_set [OF m k(1)]] using k(2) by auto
  then show ?thesis using f(1) by (auto simp: fst_means_def)
qed

lemma one_operator: "has_prefix k ''$'' \<Longrightarrow> field_matches at d f (AMap [(k, v)]) \<longleftrightarrow> at d f k v"
  by (simp add: field_matches_def operators_def)

definition refined :: "fstate option \<Rightarrow> fstate \<Rightarrow> (('d \<Rightarrow> string \<Rightarrow> string \<Rightarrow> any \<Rightarrow> bool) \<Rightarrow> 'd \<Rightarrow> bool) \<Rightarrow> bool" where
  "refined r st p = (case r of None \<Rightarrow> False | Some st' \<Rightarrow> fst_ok st' \<and> (\<forall>at d. fst_means at d st' \<longleftrightarrow> fst_means at d st \<and> p at d))"

lemma field_cases:
  assumes "fst_ok (flt, opFields, ands)"
  obtains (fresh) "gm_get flt f = None"
  | (taken) x where "gm_get flt f = Some x" "f \<notin> opFields"
  | (room) m where "gm_get flt f = Some (AMap m)" "f \<in> opFields" "gm_get m k = None"
  | (full) m y where "gm_get flt f = Some (AMap m)" "f \<in> opFields" "gm_get m k = Some y"
proof (cases "f \<in> opFields")
  case True
  then obtain x where x: "gm_get flt f = Some x" "op_doc x" using assms by (auto simp: fst_ok_def)
  then obtain m where "gm_get flt f = Some (AMap m)" by (cases x) (auto simp: op_doc_def)
  then show ?thesis using room [of m] full [of m] True by (cases "gm_get m k") auto
next
  case False
  then show ?thesis using fresh taken by (cases "gm_get flt f") auto
qed

lemma setEquality_refines:
  assumes ok: "fst_ok st" and f: "\<not> has_prefix f ''$''" and v: "plain_value v"
  shows "refined (setEquality f v st) st (\<lambda>at d. at d f ''$eq'' v)"
proof -
  obtain flt opFields ands where st: "st = (flt, opFields, ands)" by (cases st)
  show ?thesis
    by (rule field_cases [OF ok [unfolded st], where f = f and k = "''$eq''"])
      (use ok [unfolded st] f v in \<open>auto simp: st setEquality_def refined_def plain_eq put_clause_ok put_clause_means put_new_ok(1) put_operator_ok put_operator_means
        put_new_means [where opFields = opFields]\<close>)
qed

lemma setOp_refines:
  assumes ok: "fst_ok st" and f: "\<not> has_prefix f ''$''" and k: "has_prefix k ''$''"
  shows "refined (setOp f k v st) st (\<lambda>at d. at d f k v)"
proof -
  obtain flt opFields ands where st: "st = (flt, opFields, ands)" by (cases st)
  show ?thesis
    by (rule field_cases [OF ok [unfolded st], where f = f and k = k])
      (use ok [unfolded st] f k in \<open>auto simp: st setOp_def refined_def one_operator op_doc_one put_clause_ok put_clause_means put_new_ok(2) put_operator_ok put_operator_means
        put_new_means [where opFields = opFields]\<close>)
qed

lemma refined_two:
  assumes "refined r st p" and "\<And>st'. fst_ok st' \<Longrightarrow> refined (g st') st' q"
  shows "refined (Option.bind r g) st (\<lambda>at d. p at d \<and> q at d)"
  using assms by (cases r) (fastforce simp: refined_def split: option.splits)+

lemma add_condition_refines:
  assumes "fst_ok st" and "typed_cond c" and "plain_cond c"
  shows "refined (add_condition c st) st (\<lambda>at d. cond_holds at d c)"
proof -
  have f: "\<not> has_prefix (field c) ''$''" using assms(3) by (simp add: plain_cond_def)
  note set = setOp_refines [OF _ f]
  consider "op c = ''=''" | "op c = ''null''" | "op c = ''between''" | "op c \<notin> {''='', ''null'', ''between''}" by blast
  then show ?thesis
  proof cases
    case 1
    then show ?thesis using setEquality_refines [OF assms(1) f, of "cvalue c"] assms(3) by (simp add: add_condition_def cond_holds_def plain_cond_def)
  next
    case 2
    then show ?thesis using setEquality_refines [OF assms(1) f, of ANil] by (simp add: add_condition_def cond_holds_def plain_value_def)
  next
    case 3
    then obtain a b where v: "cvalue c = APair a b" using assms(2) by (auto simp: typed_cond_def split: any.splits)
    have "refined (Option.bind (setOp (field c) ''$gte'' a st) (setOp (field c) ''$lte'' b)) st (\<lambda>at d. at d (field c) ''$gte'' a \<and> at d (field c) ''$lte'' b)"
      by (rule refined_two) (simp_all add: set assms(1))
    then show ?thesis using 3 v by (simp add: add_condition_def cond_holds_def)
  next
    case 4
    then show ?thesis using assms(2) set [OF assms(1)] by (auto simp: add_condition_def cond_holds_def typed_cond_def split: any.splits if_splits)
  qed
qed

lemma add_conditions_refines:
  "fst_ok st \<Longrightarrow> \<forall>c \<in> set cs. typed_cond c \<and> plain_cond c \<Longrightarrow> refined (add_conditions cs st) st (\<lambda>(at :: 'd \<Rightarrow> _) d. \<forall>c \<in> set cs. cond_holds at d c)"
proof (induction cs arbitrary: st)
  case Nil
  then show ?case by (simp add: refined_def)
next
  case (Cons c cs)
  have "refined (Option.bind (add_condition c st) (add_conditions cs)) st (\<lambda>(at :: 'd \<Rightarrow> _) d. cond_holds at d c \<and> (\<forall>c \<in> set cs. cond_holds at d c))"
  proof (rule refined_two)
    show "refined (add_condition c st) st (\<lambda>(at :: 'd \<Rightarrow> _) d. cond_holds at d c)" by (rule add_condition_refines) (use Cons.prems in auto)
    show "refined (add_conditions cs st') st' (\<lambda>(at :: 'd \<Rightarrow> _) d. \<forall>c \<in> set cs. cond_holds at d c)" if "fst_ok st'" for st'
      by (rule Cons.IH [OF that]) (use Cons.prems(2) in auto)
  qed
  then show ?case by simp
qed

lemma gm_ball: "gm_ok m \<Longrightarrow> (\<forall>(k, v) \<in> set m. P k v) \<longleftrightarrow> (\<forall>k v. gm_get m k = Some v \<longrightarrow> P k v)"
  using gm_mem_iff by fastforce

lemma filter_of_state:
  assumes "fst_ok (flt, opFields, ands)"
  shows "filter_matches at d (AMap (if ands \<noteq> [] then gm_set ''$and'' (ASlice ands) flt else flt)) \<longleftrightarrow> fst_means at d (flt, opFields, ands)"
proof -
  have k: "k \<noteq> ''$and'' \<and> k \<noteq> ''$or''" if "gm_get flt k = Some v" for k v using assms that no_clause by (auto simp: fst_ok_def)
  have ok: "gm_ok flt" using assms by (simp add: fst_ok_def)
  have "gm_get flt ''$and'' = None" "gm_get flt ''$or'' = None" using k by (cases "gm_get flt ''$and''"; cases "gm_get flt ''$or''"; auto)+
  then show ?thesis using k ok unfolding filter_matches.simps gm_ball [OF gm_ok_set [OF ok]] gm_ball [OF ok]
    by (cases "ands = []") (auto simp: fst_means_def gm_ball)
qed

lemma buildConditionFilter_means:
  assumes "\<forall>c \<in> set cs. typed_cond c \<and> plain_cond c"
  shows "\<exists>f. buildConditionFilter cs = Some f \<and> (\<forall>(at :: 'd \<Rightarrow> _) d. filter_matches at d (AMap f) \<longleftrightarrow> (\<forall>c \<in> set cs. cond_holds at d c))"
proof -
  have "fst_ok ([], {}, [])" by (simp add: fst_ok_def)
  from add_conditions_refines [OF this assms] obtain flt opFields ands where r: "add_conditions cs ([], {}, []) = Some (flt, opFields, ands)"
      "fst_ok (flt, opFields, ands)" "\<forall>(at :: 'd \<Rightarrow> _) d. fst_means at d (flt, opFields, ands) \<longleftrightarrow> fst_means at d ([], {}, []) \<and> (\<forall>c \<in> set cs. cond_holds at d c)"
    unfolding refined_def by (auto split: option.splits)
  define f where "f = (if ands \<noteq> [] then gm_set ''$and'' (ASlice ands) flt else flt)"
  have "buildConditionFilter cs = Some f" by (simp add: buildConditionFilter_def r(1) f_def)
  moreover have "filter_matches at d (AMap f) \<longleftrightarrow> (\<forall>c \<in> set cs. cond_holds at d c)" for at :: "'d \<Rightarrow> _" and d
    unfolding f_def filter_of_state [OF r(2)] using r(3) by (simp add: fst_means_def)
  ultimately show ?thesis by blast
qed

section \<open>LIKE patterns as regular expressions\<close>

text \<open>The meaning of a pattern: \<open>%\<close> is any text, \<open>_\<close> any character.\<close>

fun like_match :: "string \<Rightarrow> string \<Rightarrow> bool" where
  "like_match [] s = (s = [])"
| "like_match (c # p) s =
     (if c = CHR ''%'' then \<exists>n \<le> length s. like_match p (drop n s)
      else s \<noteq> [] \<and> (c = CHR ''_'' \<or> hd s = c) \<and> like_match p (tl s))"

text \<open>
  The regular expressions in question: characters, escaped where they have a meaning, any character but a line end, and any number
  of these. \<open>pcre re\<close> says that \<open>re\<close> matches them as the database documents, on text without line ends.
\<close>

datatype rtok = RLit char | RDot | RStar

definition newline :: char where
  "newline = CHR 0x0A"

fun render :: "rtok \<Rightarrow> string" where
  "render (RLit c) = (if meta c then [backslash, c] else [c])"
| "render RDot = ''.''"
| "render RStar = ''.*''"

fun tok_match :: "rtok list \<Rightarrow> string \<Rightarrow> bool" where
  "tok_match [] s = (s = [])"
| "tok_match (RLit c # ts) s = (s \<noteq> [] \<and> hd s = c \<and> tok_match ts (tl s))"
| "tok_match (RDot # ts) s = (s \<noteq> [] \<and> hd s \<noteq> newline \<and> tok_match ts (tl s))"
| "tok_match (RStar # ts) s = (\<exists>n \<le> length s. newline \<notin> set (take n s) \<and> tok_match ts (drop n s))"

definition pcre :: "(string \<Rightarrow> string \<Rightarrow> bool) \<Rightarrow> bool" where
  "pcre re \<longleftrightarrow> (\<forall>ts s. newline \<notin> set s \<longrightarrow> re (''^'' @ concat (map render ts) @ ''$'') s = tok_match ts s)"

definition tok :: "char \<Rightarrow> rtok" where
  "tok c = (if c = CHR ''%'' then RStar else if c = CHR ''_'' then RDot else RLit c)"

lemma replace_char_append [simp]: "replace_char a b (s @ t) = replace_char a b s @ replace_char a b t"
  by (simp add: replace_char_def)

lemma replace_char_tok:
  "replace_char CHR ''_'' ''.'' (replace_char CHR ''%'' ''.*'' (if meta c then [backslash, c] else [c])) = render (tok c)"
  by (auto simp: tok_def replace_char_def meta_def backslash_def)

lemma likeToRegex_toks: "likeToRegex p = ''^'' @ concat (map render (map tok p)) @ ''$''"
proof -
  have "replace_char CHR ''_'' ''.'' (replace_char CHR ''%'' ''.*'' (QuoteMeta p)) = concat (map render (map tok p))"
  proof (induction p)
    case Nil
    then show ?case by (simp add: QuoteMeta_def replace_char_def)
  next
    case (Cons c p)
    have "QuoteMeta (c # p) = (if meta c then [backslash, c] else [c]) @ QuoteMeta p" by (simp add: QuoteMeta_def)
    then show ?case using replace_char_tok [of c] Cons by simp
  qed
  then show ?thesis by (simp add: likeToRegex_def Let_def)
qed

lemma like_toks: "newline \<notin> set s \<Longrightarrow> tok_match (map tok p) s \<longleftrightarrow> like_match p s"
proof (induction p arbitrary: s)
  case (Cons c p)
  have t: "newline \<notin> set (take n s)" "newline \<notin> set (drop n s)" for n using Cons.prems by (auto dest: in_set_takeD in_set_dropD)
  have "newline \<notin> set (tl s)" using Cons.prems by (cases s) auto
  moreover have "s \<noteq> [] \<Longrightarrow> hd s \<noteq> newline" using Cons.prems by (cases s) auto
  ultimately show ?case using Cons.IH t by (auto simp: tok_def)
qed simp

text \<open>
  C28. The regular expression made from a LIKE pattern matches exactly the text the pattern describes: \<open>%\<close> any text, \<open>_\<close> any
  character, and every other character, the metacharacters of regular expressions among them, only itself. The text has no line ends.
\<close>

theorem like_pattern_exact:
  assumes "pcre re" and "newline \<notin> set s"
  shows "re (likeToRegex p) s \<longleftrightarrow> like_match p s"
  using assms like_toks [OF assms(2), of p] unfolding likeToRegex_toks by (simp add: pcre_def del: map_map)

text \<open>A matcher for these expressions.\<close>

function re_body :: "string \<Rightarrow> string \<Rightarrow> bool" where
  "re_body [] s = (s = [])"
| "re_body (c # p) s =
     (if c = backslash \<and> p \<noteq> [] then s \<noteq> [] \<and> hd s = hd p \<and> re_body (tl p) (tl s)
      else if c = CHR ''.'' \<and> p \<noteq> [] \<and> hd p = CHR ''*'' then \<exists>n \<in> set [0..<Suc (length s)]. newline \<notin> set (take n s) \<and> re_body (tl p) (drop n s)
      else if c = CHR ''.'' then s \<noteq> [] \<and> hd s \<noteq> newline \<and> re_body p (tl s)
      else s \<noteq> [] \<and> hd s = c \<and> re_body p (tl s))"
  by pat_completeness auto
termination
  by (relation "measure (\<lambda>(p, s). length p)") (auto simp: less_Suc_eq_le)

definition re_anchored :: "string \<Rightarrow> string \<Rightarrow> bool" where
  "re_anchored p s = re_body (butlast (tl p)) s"

lemma render_head: "concat (map render ts) \<noteq> [] \<Longrightarrow> hd (concat (map render ts)) \<noteq> CHR ''*''"
  by (cases ts rule: list.exhaust; cases "hd ts") (auto simp: meta_def backslash_def)

lemma re_body_render: "re_body (concat (map render ts)) s = tok_match ts s"
proof (induction ts arbitrary: s)
  case (Cons t ts)
  show ?case
  proof (cases t)
    case (RLit c)
    then show ?thesis using Cons by (auto simp: meta_def backslash_def)
  next
    case RDot
    then show ?thesis using Cons render_head [of ts] by (auto simp: backslash_def)
  next
    case RStar
    then show ?thesis using Cons by (auto simp: backslash_def less_Suc_eq_le Bex_def simp del: upt_Suc)
  qed
qed simp

lemma pcre_anchored: "pcre re_anchored"
  by (simp add: pcre_def re_anchored_def re_body_render butlast_append)

theorem like_pattern_exact_witness: "re_anchored (likeToRegex ''50%_.'') ''50 a.''  \<longleftrightarrow> like_match ''50%_.'' ''50 a.''"
  by (rule like_pattern_exact [OF pcre_anchored]) (simp add: newline_def)

text \<open>A line end is not matched, even by a pattern that stands for any text.\<close>

lemma like_stops_at_newline: "\<not> re_anchored (likeToRegex ''%'') [newline] \<and> like_match ''%'' [newline]"
proof -
  have "\<not> tok_match (map tok ''%'') [newline]" by (auto simp: tok_def le_Suc_eq)
  moreover have "re_anchored (likeToRegex ''%'') [newline] = tok_match (map tok ''%'') [newline]"
    unfolding likeToRegex_toks re_anchored_def re_body_render [symmetric] by (simp add: butlast_append)
  moreover have "like_match ''%'' [newline]" by (auto intro!: exI [of _ 1])
  ultimately show ?thesis by blast
qed

end
