(* ===== verification/Orm_Query.thy ===== *)
theory Orm_Query
  imports Orm_Filter
begin

text \<open>
  The query builder (\<open>src/swifty_orm/query.go\<close>, \<open>query_group.go\<close>) and the commands a query sends to the database (\<open>query_exec.go\<close>,
  \<open>query_aggregate.go\<close>, \<open>query_stream.go\<close>, \<open>engine.go\<close>). The driver is a parameter that answers commands; \<open>None\<close> is a panic.
\<close>

section \<open>Queries\<close>

record aggSpec =
  agg_alias :: string
  agg_op :: string
  agg_field :: string

text \<open>\<open>collection\<close> is the name of the bound collection, \<open>session\<close> the transaction session of the engine the query belongs to.\<close>

record Query =
  collection :: "string option"
  session :: "nat option"
  conditions :: "condition list"
  orGroups :: "condition list list"
  sort_keys :: "(string \<times> int) list"
  limit :: int
  skip :: int
  qfields :: "string list"
  groupFields :: "string list"
  havingConds :: "condition list"
  aggSpecs :: "aggSpec list"
  err :: "orm_err option"

definition setErr :: "orm_err \<Rightarrow> Query \<Rightarrow> Query" where
  "setErr e q = (if err q = None then q\<lparr>err := Some e\<rparr> else q)"

abbreviation cond :: "string \<Rightarrow> string \<Rightarrow> any \<Rightarrow> condition" where
  "cond f k v \<equiv> \<lparr>field = f, op = k, cvalue = v\<rparr>"

definition and_cond :: "condition \<Rightarrow> Query \<Rightarrow> Query" where
  "and_cond c q = q\<lparr>conditions := conditions q @ [c]\<rparr>"

definition or_cond :: "condition \<Rightarrow> Query \<Rightarrow> Query" where
  "or_cond c q = q\<lparr>orGroups := orGroups q @ [[c]]\<rparr>"

definition Where :: "any list \<Rightarrow> Query \<Rightarrow> Query" where
  "Where args q = (case parseWhere args of Inl e \<Rightarrow> setErr e q | Inr cs \<Rightarrow> q\<lparr>conditions := conditions q @ cs\<rparr>)"

definition WhereNot :: "string \<Rightarrow> any \<Rightarrow> Query \<Rightarrow> Query" where
  "WhereNot f v = and_cond (cond f ''$ne'' v)"

definition WhereIn :: "string \<Rightarrow> any \<Rightarrow> Query \<Rightarrow> Query" where
  "WhereIn f vs = and_cond (cond f ''$in'' vs)"

definition WhereNotIn :: "string \<Rightarrow> any \<Rightarrow> Query \<Rightarrow> Query" where
  "WhereNotIn f vs = and_cond (cond f ''$nin'' vs)"

definition WhereNull :: "string \<Rightarrow> Query \<Rightarrow> Query" where
  "WhereNull f = and_cond (cond f ''null'' ANil)"

definition WhereNotNull :: "string \<Rightarrow> Query \<Rightarrow> Query" where
  "WhereNotNull f = and_cond (cond f ''notNull'' ANil)"

definition WhereBetween :: "string \<Rightarrow> any \<Rightarrow> any \<Rightarrow> Query \<Rightarrow> Query" where
  "WhereBetween f lo hi = and_cond (cond f ''between'' (APair lo hi))"

definition WhereNotBetween :: "string \<Rightarrow> any \<Rightarrow> any \<Rightarrow> Query \<Rightarrow> Query" where
  "WhereNotBetween f lo hi = and_cond (cond f ''notBetween'' (APair lo hi))"

definition WhereLike :: "string \<Rightarrow> string \<Rightarrow> Query \<Rightarrow> Query" where
  "WhereLike f p = and_cond (cond f ''like'' (AStr p))"

definition WhereILike :: "string \<Rightarrow> string \<Rightarrow> Query \<Rightarrow> Query" where
  "WhereILike f p = and_cond (cond f ''ilike'' (AStr p))"

definition OrWhere :: "any list \<Rightarrow> Query \<Rightarrow> Query" where
  "OrWhere args q = (case parseWhere args of
     Inl e \<Rightarrow> setErr e q
   | Inr cs \<Rightarrow> if cs = [] then q else q\<lparr>orGroups := orGroups q @ [cs]\<rparr>)"

definition OrWhereNot :: "string \<Rightarrow> any \<Rightarrow> Query \<Rightarrow> Query" where
  "OrWhereNot f v = or_cond (cond f ''$ne'' v)"

definition OrWhereIn :: "string \<Rightarrow> any \<Rightarrow> Query \<Rightarrow> Query" where
  "OrWhereIn f vs = or_cond (cond f ''$in'' vs)"

definition OrWhereNotIn :: "string \<Rightarrow> any \<Rightarrow> Query \<Rightarrow> Query" where
  "OrWhereNotIn f vs = or_cond (cond f ''$nin'' vs)"

definition OrWhereNull :: "string \<Rightarrow> Query \<Rightarrow> Query" where
  "OrWhereNull f = or_cond (cond f ''null'' ANil)"

definition OrWhereNotNull :: "string \<Rightarrow> Query \<Rightarrow> Query" where
  "OrWhereNotNull f = or_cond (cond f ''notNull'' ANil)"

definition OrWhereBetween :: "string \<Rightarrow> any \<Rightarrow> any \<Rightarrow> Query \<Rightarrow> Query" where
  "OrWhereBetween f lo hi = or_cond (cond f ''between'' (APair lo hi))"

definition OrderBy :: "string \<Rightarrow> string list \<Rightarrow> Query \<Rightarrow> Query" where
  "OrderBy f direction q =
     (let dir = (if direction \<noteq> [] \<and> ToLower (TrimSpace (hd direction)) = ''desc'' then -1 else 1)
      in q\<lparr>sort_keys := sort_keys q @ [(f, dir)]\<rparr>)"

definition Limit :: "int \<Rightarrow> Query \<Rightarrow> Query" where
  "Limit n q = q\<lparr>limit := n\<rparr>"

definition Offset :: "int \<Rightarrow> Query \<Rightarrow> Query" where
  "Offset n q = q\<lparr>skip := n\<rparr>"

definition Select :: "string list \<Rightarrow> Query \<Rightarrow> Query" where
  "Select fs q = q\<lparr>qfields := fs\<rparr>"

section \<open>Grouping\<close>

definition GroupBy :: "string list \<Rightarrow> Query \<Rightarrow> Query" where
  "GroupBy fs q = (if \<exists>f \<in> set fs. TrimSpace f = [] then setErr GroupField q else q\<lparr>groupFields := groupFields q @ fs\<rparr>)"

definition Having :: "any list \<Rightarrow> Query \<Rightarrow> Query" where
  "Having args q = (case parseWhere args of Inl e \<Rightarrow> setErr e q | Inr cs \<Rightarrow> q\<lparr>havingConds := havingConds q @ cs\<rparr>)"

definition addAggSpec :: "string \<Rightarrow> string \<Rightarrow> string \<Rightarrow> Query \<Rightarrow> Query" where
  "addAggSpec al k f q =
     (if TrimSpace al = [] then setErr AliasEmpty q
      else if al = ''_id'' then setErr AliasId q
      else if has_prefix al ''$'' \<or> CHR ''.'' \<in> set al then setErr (AliasName al) q
      else q\<lparr>aggSpecs := aggSpecs q @ [\<lparr>agg_alias = al, agg_op = k, agg_field = f\<rparr>]\<rparr>)"

definition addFieldAggSpec :: "string \<Rightarrow> string \<Rightarrow> string \<Rightarrow> Query \<Rightarrow> Query" where
  "addFieldAggSpec al k f q = (if TrimSpace f = [] then setErr (AggField (trim_prefix k ''$'')) q else addAggSpec al k f q)"

definition CountAs :: "string \<Rightarrow> Query \<Rightarrow> Query" where
  "CountAs al = addAggSpec al ''$sum'' ''''"

definition SumAs :: "string \<Rightarrow> string \<Rightarrow> Query \<Rightarrow> Query" where
  "SumAs f al = addFieldAggSpec al ''$sum'' f"

definition AvgAs :: "string \<Rightarrow> string \<Rightarrow> Query \<Rightarrow> Query" where
  "AvgAs f al = addFieldAggSpec al ''$avg'' f"

definition MinAs :: "string \<Rightarrow> string \<Rightarrow> Query \<Rightarrow> Query" where
  "MinAs f al = addFieldAggSpec al ''$min'' f"

definition MaxAs :: "string \<Rightarrow> string \<Rightarrow> Query \<Rightarrow> Query" where
  "MaxAs f al = addFieldAggSpec al ''$max'' f"

definition groupKeyName :: "string \<Rightarrow> string" where
  "groupKeyName f = replace_char CHR ''.'' ''_'' f"

text \<open>The checks of \<open>buildGroupPipeline\<close>: the first group key that is there twice, and the first agg_alias that is taken.\<close>

fun dup_key :: "string list \<Rightarrow> string list \<Rightarrow> string option" where
  "dup_key seen [] = None"
| "dup_key seen (f # fs) = (if groupKeyName f \<in> set seen then Some (groupKeyName f) else dup_key (groupKeyName f # seen) fs)"

fun alias_clash :: "string list \<Rightarrow> string list \<Rightarrow> aggSpec list \<Rightarrow> orm_err option" where
  "alias_clash keys cols [] = None"
| "alias_clash keys cols (s # ss) =
     (if agg_alias s \<in> set keys then Some (AliasKey (agg_alias s))
      else if agg_alias s \<in> set cols then Some (DupAlias (agg_alias s))
      else alias_clash keys (agg_alias s # cols) ss)"

definition group_error :: "Query \<Rightarrow> orm_err option" where
  "group_error q =
     (let keys = map groupKeyName (groupFields q); cols = keys @ map agg_alias (aggSpecs q)
      in if groupFields q = [] then Some GroupRequired
         else if qfields q \<noteq> [] then Some SelectWithGroup
         else case dup_key [] (groupFields q) of
           Some k \<Rightarrow> Some (DupKey k)
         | None \<Rightarrow> (case alias_clash keys keys (aggSpecs q) of
             Some e \<Rightarrow> Some e
           | None \<Rightarrow> (case List.find (\<lambda>c. field c \<notin> set cols) (havingConds q) of
               Some c \<Rightarrow> Some (HavingColumn (field c))
             | None \<Rightarrow> map_option (\<lambda>e. SortColumn (fst e)) (List.find (\<lambda>e. fst e \<notin> set cols) (sort_keys q)))))"

definition group_stage :: "Query \<Rightarrow> (string, any) gomap" where
  "group_stage q =
     (let i = (case groupFields q of
            [f] \<Rightarrow> AStr (''$'' @ f)
          | fs \<Rightarrow> AMap (fold (\<lambda>f m. gm_set (groupKeyName f) (AStr (''$'' @ f)) m) fs []))
      in fold (\<lambda>s m. gm_set (agg_alias s) (AMap [if agg_field s = [] then (''$sum'', AInt 1) else (agg_op s, AStr (''$'' @ agg_field s))]) m)
           (aggSpecs q) [(''_id'', i)])"

definition project_stage :: "Query \<Rightarrow> (string, any) gomap" where
  "project_stage q =
     (let p = (case groupFields q of
            [f] \<Rightarrow> gm_set (groupKeyName f) (AStr ''$_id'') [(''_id'', AInt 0)]
          | fs \<Rightarrow> fold (\<lambda>f m. gm_set (groupKeyName f) (AStr (''$_id.'' @ groupKeyName f)) m) fs [(''_id'', AInt 0)])
      in fold (\<lambda>s m. gm_set (agg_alias s) (AInt 1) m) (aggSpecs q) p)"

definition buildGroupPipeline :: "Query \<Rightarrow> (orm_err + any list) option" where
  "buildGroupPipeline q = (case group_error q of
     Some e \<Rightarrow> Some (Inl e)
   | None \<Rightarrow> do {
       match \<leftarrow> buildFilter (conditions q) (orGroups q);
       having \<leftarrow> buildConditionFilter (havingConds q);
       Some (Inr ((if match \<noteq> [] then [AMap [(''$match'', AMap match)]] else [])
         @ [AMap [(''$group'', AMap (group_stage q))], AMap [(''$project'', AMap (project_stage q))]]
         @ (if having \<noteq> [] then [AMap [(''$match'', AMap having)]] else [])
         @ (if sort_keys q \<noteq> [] then [AMap [(''$sort'', ADoc (map (\<lambda>(k, d). (k, AInt d)) (sort_keys q)))]] else [])
         @ (if skip q > 0 then [AMap [(''$skip'', AInt (skip q))]] else [])
         @ (if limit q > 0 then [AMap [(''$limit'', AInt (limit q))]] else []))) })"

section \<open>Execution\<close>

text \<open>The options of a find: sort, limit, skip and projection where they are set.\<close>

record find_opts =
  o_sort :: "(string \<times> int) list option"
  o_limit :: "int option"
  o_skip :: "int option"
  o_projection :: "(string, any) gomap option"

datatype command =
    InsertOne any
  | InsertMany "any list"
  | FindOne "(string, any) gomap" find_opts
  | FindMany "(string, any) gomap" find_opts
  | UpdateMany "(string, any) gomap" any bool
  | DeleteMany "(string, any) gomap"
  | CountDocuments "(string, any) gomap"
  | DistinctValues string "(string, any) gomap"
  | RunPipeline "any list"
  | DropColl

text \<open>Answers of the driver: identifiers (with the error of a partial insert), counts of an update, a count, documents.\<close>

datatype reply =
    Ids "any list" "nat option"
  | Counts int int int any
  | Total int
  | Docs "any list"
  | Failed nat

type_synonym driver = "string \<Rightarrow> nat option \<Rightarrow> command \<Rightarrow> reply"

definition preflightBase :: "Query \<Rightarrow> orm_err option" where
  "preflightBase q = (case err q of Some e \<Rightarrow> Some e | None \<Rightarrow> if collection q = None then Some CollectionRequired else None)"

definition preflight :: "Query \<Rightarrow> orm_err option" where
  "preflight q = (case preflightBase q of
     Some e \<Rightarrow> Some e
   | None \<Rightarrow> if groupFields q \<noteq> [] \<or> havingConds q \<noteq> [] \<or> aggSpecs q \<noteq> [] then Some GroupOnly else None)"

text \<open>The session of a command: the one of the context, or else the one of the engine.\<close>

definition execCtx :: "Query \<Rightarrow> nat option \<Rightarrow> nat option" where
  "execCtx q ctx = (case session q of None \<Rightarrow> ctx | Some s \<Rightarrow> if ctx \<noteq> None then ctx else Some s)"

definition send_cmd :: "driver \<Rightarrow> Query \<Rightarrow> nat option \<Rightarrow> command \<Rightarrow> reply" where
  "send_cmd drv q ctx cmd = drv (the (collection q)) (execCtx q ctx) cmd"

definition findOptions :: "Query \<Rightarrow> find_opts" where
  "findOptions q = \<lparr>o_sort = (if sort_keys q \<noteq> [] then Some (sort_keys q) else None), o_limit = (if limit q > 0 then Some (limit q) else None),
     o_skip = (if skip q > 0 then Some (skip q) else None), o_projection = buildProjection (qfields q)\<rparr>"

definition expandInsertDocs :: "any list \<Rightarrow> any list" where
  "expandInsertDocs documents = (case documents of
     [ASlice vs] \<Rightarrow> vs
   | [APair a b] \<Rightarrow> [a, b]
   | _ \<Rightarrow> documents)"

definition Insert :: "driver \<Rightarrow> nat option \<Rightarrow> any list \<Rightarrow> Query \<Rightarrow> (any list \<times> int) \<times> orm_err option" where
  "Insert drv ctx documents q = (case preflight q of
     Some e \<Rightarrow> (([], 0), Some e)
   | None \<Rightarrow>
       (case expandInsertDocs documents of
          [] \<Rightarrow> (([], 0), Some NoDocuments)
        | [doc] \<Rightarrow> (case send_cmd drv q ctx (InsertOne doc) of
            Ids [i] None \<Rightarrow> (([i], 1), None)
          | Failed e \<Rightarrow> (([], 0), Some (Driver e))
          | _ \<Rightarrow> (([], 0), Some (Driver 0)))
        | docs \<Rightarrow> (case send_cmd drv q ctx (InsertMany docs) of
            Ids ids e \<Rightarrow> ((ids, int (length ids)), map_option Driver e)
          | Failed e \<Rightarrow> (([], 0), Some (Driver e))
          | _ \<Rightarrow> (([], 0), Some (Driver 0)))))"

text \<open>A command with a filter, and what the query makes of the answer.\<close>

definition with_filter :: "driver \<Rightarrow> nat option \<Rightarrow> Query \<Rightarrow> ((string, any) gomap \<Rightarrow> command) \<Rightarrow> (orm_err + reply) option" where
  "with_filter drv ctx q mk = (case preflight q of
     Some e \<Rightarrow> Some (Inl e)
   | None \<Rightarrow> do {
       f \<leftarrow> buildFilter (conditions q) (orGroups q);
       Some (case send_cmd drv q ctx (mk f) of Failed e \<Rightarrow> Inl (Driver e) | r \<Rightarrow> Inr r) })"

definition First :: "driver \<Rightarrow> nat option \<Rightarrow> Query \<Rightarrow> (orm_err + reply) option" where
  "First drv ctx q = with_filter drv ctx q (\<lambda>f. FindOne f \<lparr>o_sort = (if sort_keys q \<noteq> [] then Some (sort_keys q) else None), o_limit = None,
     o_skip = (if skip q > 0 then Some (skip q) else None), o_projection = buildProjection (qfields q)\<rparr>)"

definition Find :: "driver \<Rightarrow> nat option \<Rightarrow> Query \<Rightarrow> (orm_err + reply) option" where
  "Find drv ctx q = with_filter drv ctx q (\<lambda>f. FindMany f (findOptions q))"

definition hasOperatorKey :: "(string \<times> any) list \<Rightarrow> bool" where
  "hasOperatorKey doc \<longleftrightarrow> (\<exists>k \<in> set (map fst doc). has_prefix k ''$'')"

fun deref :: "any \<Rightarrow> any" where
  "deref (APtr (Some v)) = deref v"
| "deref v = v"

definition normalizeUpdate :: "any \<Rightarrow> any" where
  "normalizeUpdate update = (case update of
     AMap doc \<Rightarrow> if hasOperatorKey doc then update else AMap [(''$set'', update)]
   | ADoc doc \<Rightarrow> if hasOperatorKey doc then update else AMap [(''$set'', update)]
   | _ \<Rightarrow> (case deref update of AStruct fs \<Rightarrow> AMap [(''$set'', update)] | _ \<Rightarrow> update))"

definition Update :: "driver \<Rightarrow> nat option \<Rightarrow> any \<Rightarrow> Query \<Rightarrow> (orm_err + reply) option" where
  "Update drv ctx update q = with_filter drv ctx q (\<lambda>f. UpdateMany f (normalizeUpdate update) False)"

definition Upsert :: "driver \<Rightarrow> nat option \<Rightarrow> any \<Rightarrow> Query \<Rightarrow> (orm_err + reply) option" where
  "Upsert drv ctx update q = with_filter drv ctx q (\<lambda>f. UpdateMany f (normalizeUpdate update) True)"

definition Increment :: "driver \<Rightarrow> nat option \<Rightarrow> string \<Rightarrow> int list \<Rightarrow> Query \<Rightarrow> (orm_err + reply) option" where
  "Increment drv ctx f amount q =
     (let n = (if amount \<noteq> [] then hd amount else 1) in Update drv ctx (AMap [(''$inc'', AMap [(f, AInt n)])]) q)"

definition Decrement :: "driver \<Rightarrow> nat option \<Rightarrow> string \<Rightarrow> int list \<Rightarrow> Query \<Rightarrow> (orm_err + reply) option" where
  "Decrement drv ctx f amount q =
     (let n = (if amount \<noteq> [] then hd amount else 1) in Update drv ctx (AMap [(''$inc'', AMap [(f, AInt (wrap64 (- n)))])]) q)"

definition Delete :: "driver \<Rightarrow> nat option \<Rightarrow> Query \<Rightarrow> (orm_err + reply) option" where
  "Delete drv ctx q = with_filter drv ctx q DeleteMany"

definition Count :: "driver \<Rightarrow> nat option \<Rightarrow> Query \<Rightarrow> (orm_err + reply) option" where
  "Count drv ctx q = with_filter drv ctx q CountDocuments"

definition Exists :: "driver \<Rightarrow> nat option \<Rightarrow> Query \<Rightarrow> (bool \<times> orm_err option) option" where
  "Exists drv ctx q = map_option (\<lambda>r. case r of Inl e \<Rightarrow> (False, Some e) | Inr (Total n) \<Rightarrow> (n > 0, None) | Inr _ \<Rightarrow> (False, None)) (Count drv ctx q)"

definition Distinct :: "driver \<Rightarrow> nat option \<Rightarrow> string \<Rightarrow> Query \<Rightarrow> (orm_err + reply) option" where
  "Distinct drv ctx f q = with_filter drv ctx q (DistinctValues f)"

definition aggregate :: "driver \<Rightarrow> nat option \<Rightarrow> any \<Rightarrow> Query \<Rightarrow> (orm_err + reply) option" where
  "aggregate drv ctx accumulator q = with_filter drv ctx q (\<lambda>f.
     RunPipeline [AMap [(''$match'', AMap f)], AMap [(''$group'', AMap [(''_id'', ANil), (''result'', accumulator)])]])"

definition Sum :: "driver \<Rightarrow> nat option \<Rightarrow> string \<Rightarrow> Query \<Rightarrow> (orm_err + reply) option" where
  "Sum drv ctx f = aggregate drv ctx (AMap [(''$sum'', AStr (''$'' @ f))])"

definition Avg :: "driver \<Rightarrow> nat option \<Rightarrow> string \<Rightarrow> Query \<Rightarrow> (orm_err + reply) option" where
  "Avg drv ctx f = aggregate drv ctx (AMap [(''$avg'', AStr (''$'' @ f))])"

definition agg_Min :: "driver \<Rightarrow> nat option \<Rightarrow> string \<Rightarrow> Query \<Rightarrow> (orm_err + reply) option" where
  "agg_Min drv ctx f = aggregate drv ctx (AMap [(''$min'', AStr (''$'' @ f))])"

definition agg_Max :: "driver \<Rightarrow> nat option \<Rightarrow> string \<Rightarrow> Query \<Rightarrow> (orm_err + reply) option" where
  "agg_Max drv ctx f = aggregate drv ctx (AMap [(''$max'', AStr (''$'' @ f))])"

definition Aggregate :: "driver \<Rightarrow> nat option \<Rightarrow> Query \<Rightarrow> (orm_err + reply) option" where
  "Aggregate drv ctx q = (case preflightBase q of
     Some e \<Rightarrow> Some (Inl e)
   | None \<Rightarrow> do {
       p \<leftarrow> buildGroupPipeline q;
       Some (case p of
          Inl e \<Rightarrow> Inl e
        | Inr pipeline \<Rightarrow> (case send_cmd drv q ctx (RunPipeline pipeline) of Failed e \<Rightarrow> Inl (Driver e) | r \<Rightarrow> Inr r)) })"

definition DropCollection :: "driver \<Rightarrow> nat option \<Rightarrow> Query \<Rightarrow> orm_err option" where
  "DropCollection drv ctx q = (case preflight q of
     Some e \<Rightarrow> Some e
   | None \<Rightarrow> (case send_cmd drv q ctx DropColl of Failed e \<Rightarrow> Some (Driver e) | _ \<Rightarrow> None))"

text \<open>\<open>Engine.Collection\<close> on an engine with a database.\<close>

definition Collection :: "nat option \<Rightarrow> string \<Rightarrow> Query" where
  "Collection sess name = \<lparr>collection = (if TrimSpace name \<noteq> [] then Some name else None), session = sess, conditions = [], orGroups = [], sort_keys = [],
     limit = 0, skip = 0, qfields = [], groupFields = [], havingConds = [], aggSpecs = [], err = None\<rparr>"

section \<open>Collection names\<close>

definition upper :: "char \<Rightarrow> bool" where
  "upper c \<longleftrightarrow> 65 \<le> (of_char c :: nat) \<and> (of_char c :: nat) \<le> 90"

definition toSnake :: "string \<Rightarrow> string" where
  "toSnake s = ToLower (concat (map (\<lambda>(i, r). if i > 0 \<and> upper r then [CHR ''_'', r] else [r]) (enumerate 0 s)))"

definition isVowel :: "char \<Rightarrow> bool" where
  "isVowel c \<longleftrightarrow> c \<in> set ''aeiou''"

definition pluralize :: "string \<Rightarrow> string" where
  "pluralize name =
     (if name = [] then []
      else if has_suffix name ''y'' \<and> length name \<ge> 2 \<and> \<not> isVowel (name ! (length name - 2)) then trim_suffix name ''y'' @ ''ies''
      else if has_suffix name ''s'' \<or> has_suffix name ''x'' \<or> has_suffix name ''sh'' \<or> has_suffix name ''ch'' then name @ ''es''
      else name @ ''s'')"


text \<open>The types of the values a collection is named after, and \<open>CollectionName\<close>; no type is a nil value.\<close>

datatype gotype = TPointer gotype | TSlice gotype | TStruct string | TNamed string

fun elem_of :: "gotype \<Rightarrow> gotype" where
  "elem_of (TPointer t) = elem_of t"
| "elem_of t = t"

definition CollectionName :: "gotype option \<Rightarrow> string" where
  "CollectionName typ = (case map_option elem_of typ of
     None \<Rightarrow> ''''
   | Some t \<Rightarrow> (case (case t of TSlice e \<Rightarrow> elem_of e | _ \<Rightarrow> t) of TStruct name \<Rightarrow> pluralize (toSnake name) | _ \<Rightarrow> ''''))"

section \<open>Queries made by the builder\<close>

inductive continued :: "Query \<Rightarrow> Query \<Rightarrow> bool" for q0 where
  start: "continued q0 q0"
| Where: "continued q0 q \<Longrightarrow> continued q0 (Where args q)"
| WhereNot: "continued q0 q \<Longrightarrow> continued q0 (WhereNot f v q)"
| WhereIn: "continued q0 q \<Longrightarrow> continued q0 (WhereIn f v q)"
| WhereNotIn: "continued q0 q \<Longrightarrow> continued q0 (WhereNotIn f v q)"
| WhereNull: "continued q0 q \<Longrightarrow> continued q0 (WhereNull f q)"
| WhereNotNull: "continued q0 q \<Longrightarrow> continued q0 (WhereNotNull f q)"
| WhereBetween: "continued q0 q \<Longrightarrow> continued q0 (WhereBetween f v w q)"
| WhereNotBetween: "continued q0 q \<Longrightarrow> continued q0 (WhereNotBetween f v w q)"
| WhereLike: "continued q0 q \<Longrightarrow> continued q0 (WhereLike f p q)"
| WhereILike: "continued q0 q \<Longrightarrow> continued q0 (WhereILike f p q)"
| OrWhere: "continued q0 q \<Longrightarrow> continued q0 (OrWhere args q)"
| OrWhereNot: "continued q0 q \<Longrightarrow> continued q0 (OrWhereNot f v q)"
| OrWhereIn: "continued q0 q \<Longrightarrow> continued q0 (OrWhereIn f v q)"
| OrWhereNotIn: "continued q0 q \<Longrightarrow> continued q0 (OrWhereNotIn f v q)"
| OrWhereNull: "continued q0 q \<Longrightarrow> continued q0 (OrWhereNull f q)"
| OrWhereNotNull: "continued q0 q \<Longrightarrow> continued q0 (OrWhereNotNull f q)"
| OrWhereBetween: "continued q0 q \<Longrightarrow> continued q0 (OrWhereBetween f v w q)"
| OrderBy: "continued q0 q \<Longrightarrow> continued q0 (OrderBy f dir q)"
| Limit: "continued q0 q \<Longrightarrow> continued q0 (Limit n q)"
| Offset: "continued q0 q \<Longrightarrow> continued q0 (Offset n q)"
| Select: "continued q0 q \<Longrightarrow> continued q0 (Select fs q)"
| GroupBy: "continued q0 q \<Longrightarrow> continued q0 (GroupBy fs q)"
| Having: "continued q0 q \<Longrightarrow> continued q0 (Having args q)"
| CountAs: "continued q0 q \<Longrightarrow> continued q0 (CountAs al q)"
| SumAs: "continued q0 q \<Longrightarrow> continued q0 (SumAs f al q)"
| AvgAs: "continued q0 q \<Longrightarrow> continued q0 (AvgAs f al q)"
| MinAs: "continued q0 q \<Longrightarrow> continued q0 (MinAs f al q)"
| MaxAs: "continued q0 q \<Longrightarrow> continued q0 (MaxAs f al q)"

lemmas where_defs = WhereNot_def WhereIn_def WhereNotIn_def WhereNull_def WhereNotNull_def WhereBetween_def WhereNotBetween_def WhereLike_def WhereILike_def
  OrWhereNot_def OrWhereIn_def OrWhereNotIn_def OrWhereNull_def OrWhereNotNull_def OrWhereBetween_def and_cond_def or_cond_def

lemmas agg_defs = CountAs_def SumAs_def AvgAs_def MinAs_def MaxAs_def addFieldAggSpec_def addAggSpec_def

lemmas plain_defs = OrderBy_def Limit_def Offset_def Select_def GroupBy_def Let_def

lemma setErr_sel [simp]:
  "conditions (setErr e q) = conditions q" "orGroups (setErr e q) = orGroups q" "havingConds (setErr e q) = havingConds q" "aggSpecs (setErr e q) = aggSpecs q"
  "collection (setErr e q) = collection q" "session (setErr e q) = session q"
  by (simp_all add: setErr_def)

lemma setErr_err [simp]: "err q = Some e \<Longrightarrow> err (setErr e' q) = Some e"
  by (simp add: setErr_def)

text \<open>The first error stays.\<close>

lemma err_stays: "continued q0 q \<Longrightarrow> err q0 = Some e \<Longrightarrow> err q = Some e"
  by (induction rule: continued.induct)
    (simp_all add: where_defs agg_defs plain_defs Where_def OrWhere_def Having_def split: sum.splits)

section \<open>Types of the conditions\<close>

lemma alias_ops:
  assumes "map_of opAliases s = Some k"
  shows "k \<in> set [''='', ''like'', ''ilike'', ''between'', ''notBetween''] \<or> has_prefix k ''$''"
proof -
  have "list_all (\<lambda>(s, k). k \<in> set [''='', ''like'', ''ilike'', ''between'', ''notBetween''] \<or> has_prefix k ''$'') opAliases" by code_simp
  then show ?thesis using map_of_SomeD [OF assms] by (fastforce simp: list_all_iff)
qed

lemma dollar_typed: "has_prefix k ''$'' \<Longrightarrow> typed_cond \<lparr>field = f, op = k, cvalue = v\<rparr>"
  by (auto simp: typed_cond_def)

lemma toBetweenPair_pair: "toBetweenPair v = Inr p \<Longrightarrow> \<exists>a b. p = APair a b"
  unfolding toBetweenPair_def by (cases v) (auto split: list.splits)

lemma normalizeOp_typed:
  assumes "normalizeOp rawOp v = Inr (k, w)"
  shows "typed_cond \<lparr>field = f, op = k, cvalue = w\<rparr>"
proof (cases "map_of opAliases (ToLower (TrimSpace rawOp))")
  case None
  then show ?thesis using assms by (intro dollar_typed) (auto simp: normalizeOp_def split: if_splits)
next
  case (Some k')
  consider "k' = ''=''" | "k' = ''between'' \<or> k' = ''notBetween''" | "k' = ''like'' \<or> k' = ''ilike''" | "has_prefix k' ''$''"
    using alias_ops [OF Some] by auto
  then show ?thesis
  proof cases
    case 1
    then show ?thesis using assms Some by (simp add: normalizeOp_def typed_cond_def)
  next
    case 2
    then have n: "normalizeOp rawOp v = sbind (toBetweenPair v) (\<lambda>pair. Inr (k', pair))" using Some by (simp add: normalizeOp_def)
    then have k: "k = k'" and "toBetweenPair v = Inr w" using assms by (cases "toBetweenPair v"; simp)+
    then obtain a b where "w = APair a b" using toBetweenPair_pair by blast
    then show ?thesis unfolding k using 2 by (elim disjE) (simp_all add: typed_cond_def)
  next
    case 3
    then have n: "normalizeOp rawOp v = (case v of AStr _ \<Rightarrow> Inr (k', v) | _ \<Rightarrow> Inl (LikeArg k'))" using Some by (auto simp: normalizeOp_def)
    then obtain p where "k = k'" "w = AStr p" using assms by (cases v) auto
    then show ?thesis using 3 by (elim disjE) (simp_all add: typed_cond_def)
  next
    case 4
    then have "k = k'" using assms Some by (auto simp: normalizeOp_def split: if_splits)
    then show ?thesis using 4 dollar_typed by simp
  qed
qed

lemma equality_typed: "typed_cond (equality f v)"
  by (simp add: equality_def typed_cond_def)

lemma parseWhere_typed:
  assumes p: "parseWhere args = Inr cs" and c: "c \<in> set cs"
  shows "typed_cond c"
proof -
  consider "args = []" | a where "args = [a]" | a b where "args = [a, b]" | a b v where "args = [a, b, v]" | a b v w rest where "args = a # b # v # w # rest"
    by (metis list.exhaust)
  then show ?thesis
  proof cases
    case 1
    then show ?thesis using p by (simp add: parseWhere_def)
  next
    case 2
    then show ?thesis using p c by (cases a) (auto simp: parseWhere_def parseWhereMap_def equality_typed)
  next
    case 3
    then show ?thesis using p c by (cases a) (auto simp: parseWhere_def equality_typed split: if_splits)
  next
    case 4
    obtain f where f: "a = AStr f" using p 4 by (cases a) (simp_all add: parseWhere_def)
    have t: "TrimSpace f \<noteq> []" using p 4 f by (auto simp: parseWhere_def)
    obtain r where r: "b = AStr r" using p 4 f t by (cases b) (simp_all add: parseWhere_def)
    show ?thesis using p c 4 f t r normalizeOp_typed by (auto simp: parseWhere_def sbind_Inr)
  next
    case 5
    then show ?thesis using p by (simp add: parseWhere_def)
  qed
qed

lemma builder_typed [simp]:
  "typed_cond (cond f ''null'' v)" "typed_cond (cond f ''notNull'' v)" "typed_cond (cond f ''between'' (APair v w))" "typed_cond (cond f ''notBetween'' (APair v w))"
  "typed_cond (cond f ''like'' (AStr p))" "typed_cond (cond f ''ilike'' (AStr p))" "typed_cond (cond f (CHR ''$'' # k) v)"
  by (simp_all add: typed_cond_def)

definition all_conds :: "Query \<Rightarrow> condition set" where
  "all_conds q = set (conditions q) \<union> \<Union> (set ` set (orGroups q)) \<union> set (havingConds q)"

lemma built_typed: "continued q0 q \<Longrightarrow> \<forall>c \<in> all_conds q0. typed_cond c \<Longrightarrow> \<forall>c \<in> all_conds q. typed_cond c"
proof (induction rule: continued.induct)
  case (Where q args)
  then show ?case using parseWhere_typed [of args] by (cases "parseWhere args") (auto simp: Where_def all_conds_def)
next
  case (OrWhere q args)
  then show ?case using parseWhere_typed [of args] by (cases "parseWhere args") (auto simp: OrWhere_def all_conds_def)
next
  case (Having q args)
  then show ?case using parseWhere_typed [of args] by (cases "parseWhere args") (auto simp: Having_def all_conds_def)
qed (auto simp: where_defs agg_defs plain_defs all_conds_def)

section \<open>No panic\<close>

text \<open>A field that is marked as an operator map holds one.\<close>

definition maps_ok :: "fstate \<Rightarrow> bool" where
  "maps_ok st = (case st of (flt, opFields, ands) \<Rightarrow> \<forall>f \<in> opFields. \<exists>m. gm_get flt f = Some (AMap m))"

definition safe :: "fstate option \<Rightarrow> bool" where
  "safe r = (case r of None \<Rightarrow> False | Some st \<Rightarrow> maps_ok st)"

lemma maps_cases:
  assumes "maps_ok (flt, opFields, ands)"
  obtains "gm_get flt f = None" "f \<notin> opFields" | x where "gm_get flt f = Some x" "f \<notin> opFields" | m where "gm_get flt f = Some (AMap m)" "f \<in> opFields"
  using assms by (cases "gm_get flt f"; cases "f \<in> opFields") (fastforce simp: maps_ok_def)+

lemma set_safe:
  assumes "maps_ok st"
  shows "safe (setEquality f v st)" and "safe (setOp f k v st)"
proof -
  obtain flt opFields ands where st: "st = (flt, opFields, ands)" by (cases st)
  show "safe (setEquality f v st)"
    by (rule maps_cases [OF assms [unfolded st], where f = f]) (use assms in \<open>auto simp: st setEquality_def maps_ok_def safe_def\<close>)
  show "safe (setOp f k v st)"
    by (rule maps_cases [OF assms [unfolded st], where f = f]) (use assms in \<open>auto simp: st setOp_def maps_ok_def safe_def\<close>)
qed

lemma safe_bind: "safe r \<Longrightarrow> (\<And>st. maps_ok st \<Longrightarrow> safe (g st)) \<Longrightarrow> safe (Option.bind r g)"
  by (cases r) (simp_all add: safe_def)

lemma add_condition_safe:
  assumes "maps_ok st" and "typed_cond c"
  shows "safe (add_condition c st)"
proof -
  consider "op c \<in> {''between'', ''notBetween''}" | "op c \<in> {''like'', ''ilike''}" | "op c \<notin> {''between'', ''notBetween'', ''like'', ''ilike''}" by blast
  then show ?thesis
  proof cases
    case 1
    then obtain a b where "cvalue c = APair a b" using assms(2) by (cases "cvalue c") (auto simp: typed_cond_def)
    then show ?thesis using 1 assms(1) by (auto simp: add_condition_def intro!: safe_bind set_safe)
  next
    case 2
    then obtain p where "cvalue c = AStr p" using assms(2) by (cases "cvalue c") (auto simp: typed_cond_def)
    then show ?thesis using 2 assms(1) by (auto simp: add_condition_def intro!: set_safe)
  next
    case 3
    then show ?thesis using assms(1) by (auto simp: add_condition_def intro!: set_safe)
  qed
qed

lemma add_conditions_safe: "maps_ok st \<Longrightarrow> \<forall>c \<in> set cs. typed_cond c \<Longrightarrow> safe (add_conditions cs st)"
  by (induction cs arbitrary: st) (auto simp: safe_def [of "Some _"] intro!: safe_bind add_condition_safe)

lemma buildConditionFilter_total: "\<forall>c \<in> set cs. typed_cond c \<Longrightarrow> \<exists>f. buildConditionFilter cs = Some f"
  using add_conditions_safe [of "([], {}, [])" cs] by (auto simp: buildConditionFilter_def maps_ok_def safe_def split: option.splits)

lemma those_total: "\<forall>x \<in> set xs. f x \<noteq> None \<Longrightarrow> \<exists>ys. those (map f xs) = Some ys"
  by (induction xs) (auto split: option.splits)

lemma buildFilter_total:
  assumes "\<forall>c \<in> set cs \<union> \<Union> (set ` set gs). typed_cond c"
  shows "\<exists>f. buildFilter cs gs = Some f"
proof -
  obtain b where b: "buildConditionFilter cs = Some b" using buildConditionFilter_total assms by blast
  have "map_option AMap (buildConditionFilter g) \<noteq> None" if "g \<in> set gs" for g
    using buildConditionFilter_total [of g] assms that by auto
  then have "\<forall>g \<in> set (filter (\<lambda>g. g \<noteq> []) gs). map_option AMap (buildConditionFilter g) \<noteq> None" by simp
  from those_total [OF this] obtain os where "build_groups gs = Some os" by (auto simp: build_groups_def)
  then show ?thesis using b by (simp add: buildFilter_def)
qed

text \<open>
  C27. Whatever the calls of the builder, the type assertions on condition values and on operator maps never fail: every query of an engine
  finds its filter document, and each command with a filter, and the aggregation, returns a result or an error.
\<close>

theorem built_queries_never_panic:
  assumes "continued (Collection sess name) q"
  shows "with_filter drv ctx q mk \<noteq> None \<and> Aggregate drv ctx q \<noteq> None"
proof -
  have t: "\<forall>c \<in> all_conds q. typed_cond c" using built_typed [OF assms] by (simp add: all_conds_def Collection_def)
  then obtain f where f: "buildFilter (conditions q) (orGroups q) = Some f" using buildFilter_total [of "conditions q" "orGroups q"] by (auto simp: all_conds_def)
  obtain h where "buildConditionFilter (havingConds q) = Some h" using buildConditionFilter_total [of "havingConds q"] t by (auto simp: all_conds_def)
  then show ?thesis using f by (simp add: with_filter_def Aggregate_def buildGroupPipeline_def split: option.splits)
qed

definition ex_query :: Query where
  "ex_query = OrWhere [AStr ''name'', AStr ''like'', AStr ''a%''] (Where [AStr ''age'', AStr ''='', AInt 30] (WhereBetween ''age'' (AInt 18) (AInt 65) (Collection None ''users'')))"

lemma ex_built: "continued (Collection None ''users'') ex_query"
  unfolding ex_query_def by (rule continued.intros)+

theorem built_queries_never_panic_witness:
  "with_filter (\<lambda>c s k. Total 0) None ex_query CountDocuments \<noteq> None \<and> Aggregate (\<lambda>c s k. Total 0) None ex_query \<noteq> None"
  by (rule built_queries_never_panic [OF ex_built])

section \<open>The meaning of a query\<close>

definition query_holds :: "('d \<Rightarrow> string \<Rightarrow> string \<Rightarrow> any \<Rightarrow> bool) \<Rightarrow> 'd \<Rightarrow> Query \<Rightarrow> bool" where
  "query_holds at d q \<longleftrightarrow>
     (if orGroups q = [] then \<forall>c \<in> set (conditions q). cond_holds at d c
      else conditions q \<noteq> [] \<and> (\<forall>c \<in> set (conditions q). cond_holds at d c) \<or> (\<exists>g \<in> set (orGroups q). \<forall>c \<in> set g. cond_holds at d c))"

lemma groups_ne: "continued q0 q \<Longrightarrow> [] \<notin> set (orGroups q0) \<Longrightarrow> [] \<notin> set (orGroups q)"
  by (induction rule: continued.induct)
    (auto simp: where_defs agg_defs plain_defs Where_def OrWhere_def Having_def split: sum.splits)

lemma those_means:
  assumes "\<forall>g \<in> set gs. \<exists>f. h g = Some f \<and> (m f \<longleftrightarrow> p g)"
  shows "\<exists>fs. those (map h gs) = Some fs \<and> length fs = length gs \<and> ((\<exists>f \<in> set fs. m f) \<longleftrightarrow> (\<exists>g \<in> set gs. p g)) \<and> (\<forall>f \<in> set fs. \<exists>g \<in> set gs. h g = Some f)"
  using assms
proof (induction gs)
  case (Cons g gs)
  then obtain fs f where "those (map h gs) = Some fs" "length fs = length gs" "(\<exists>f \<in> set fs. m f) \<longleftrightarrow> (\<exists>g \<in> set gs. p g)"
      "\<forall>f \<in> set fs. \<exists>g \<in> set gs. h g = Some f" "h g = Some f" "m f \<longleftrightarrow> p g" by auto
  then show ?case by auto
qed simp

lemma buildConditionFilter_at:
  fixes at :: "'d \<Rightarrow> string \<Rightarrow> string \<Rightarrow> any \<Rightarrow> bool"
  assumes "\<forall>c \<in> set cs. typed_cond c \<and> plain_cond c"
  obtains f where "buildConditionFilter cs = Some f" and "filter_matches at d (AMap f) \<longleftrightarrow> (\<forall>c \<in> set cs. cond_holds at d c)"
proof -
  obtain f where f: "buildConditionFilter cs = Some f" "\<forall>(at :: 'd \<Rightarrow> _) d. filter_matches at d (AMap f) \<longleftrightarrow> (\<forall>c \<in> set cs. cond_holds at d c)"
    using buildConditionFilter_means [OF assms] by (elim exE conjE)
  show ?thesis by (rule that [OF f(1)]) (rule f(2) [rule_format])
qed

lemma buildFilter_means:
  fixes at :: "'d \<Rightarrow> string \<Rightarrow> string \<Rightarrow> any \<Rightarrow> bool"
  assumes "\<forall>c \<in> set cs. typed_cond c \<and> plain_cond c" and "\<forall>g \<in> set gs. \<forall>c \<in> set g. typed_cond c \<and> plain_cond c" and ne: "[] \<notin> set gs"
  shows "\<exists>f. buildFilter cs gs = Some f \<and> (filter_matches at d (AMap f) \<longleftrightarrow>
     (if gs = [] then \<forall>c \<in> set cs. cond_holds at d c
      else cs \<noteq> [] \<and> (\<forall>c \<in> set cs. cond_holds at d c) \<or> (\<exists>g \<in> set gs. \<forall>c \<in> set g. cond_holds at d c)))"
proof -
  obtain b where b: "buildConditionFilter cs = Some b" "filter_matches at d (AMap b) \<longleftrightarrow> (\<forall>c \<in> set cs. cond_holds at d c)"
    by (rule buildConditionFilter_at [OF assms(1)])
  have "\<exists>f. map_option AMap (buildConditionFilter g) = Some f \<and> (filter_matches at d f \<longleftrightarrow> (\<forall>c \<in> set g. cond_holds at d c))" if "g \<in> set gs" for g
  proof -
    have "\<forall>c \<in> set g. typed_cond c \<and> plain_cond c" using assms(2) that by blast
    then obtain f where "buildConditionFilter g = Some f" "filter_matches at d (AMap f) \<longleftrightarrow> (\<forall>c \<in> set g. cond_holds at d c)"
      by (rule buildConditionFilter_at)
    then show ?thesis by (simp del: filter_matches.simps)
  qed
  then have "\<forall>g \<in> set gs. \<exists>f. map_option AMap (buildConditionFilter g) = Some f \<and> (filter_matches at d f \<longleftrightarrow> (\<forall>c \<in> set g. cond_holds at d c))" by blast
  from those_means [OF this] obtain fs where fs: "those (map (\<lambda>g. map_option AMap (buildConditionFilter g)) gs) = Some fs" "length fs = length gs"
    "(\<exists>f \<in> set fs. filter_matches at d f) \<longleftrightarrow> (\<exists>g \<in> set gs. \<forall>c \<in> set g. cond_holds at d c)" "\<forall>f \<in> set fs. \<exists>g \<in> set gs. map_option AMap (buildConditionFilter g) = Some f" by blast
  have "filter (\<lambda>g. g \<noteq> []) gs = gs" using ne by (auto simp: filter_id_conv)
  then have g: "build_groups gs = Some fs" using fs(1) by (simp add: build_groups_def)
  define os where "os = (if cs \<noteq> [] then AMap b # fs else fs)"
  have maps: "\<forall>f \<in> set os. \<exists>m. f = AMap m" using fs(4) by (auto simp: os_def)
  have os: "(\<exists>f \<in> set os. filter_matches at d f) \<longleftrightarrow> cs \<noteq> [] \<and> (\<forall>c \<in> set cs. cond_holds at d c) \<or> (\<exists>g \<in> set gs. \<forall>c \<in> set g. cond_holds at d c)"
    using b(2) fs(3) by (simp add: os_def del: filter_matches.simps)
  show ?thesis
  proof (cases "gs = []")
    case True
    then show ?thesis using b by (simp add: buildFilter_def del: filter_matches.simps)
  next
    case False
    then have bf: "buildFilter cs gs = Some (case os of [] \<Rightarrow> b | [AMap m] \<Rightarrow> m | _ \<Rightarrow> [(''$or'', ASlice os)])"
      unfolding buildFilter_def b(1) g by (simp add: os_def [symmetric])
    consider m where "os = [AMap m]" | x y r where "os = x # y # r"
      using False fs(2) maps by (cases os; cases "tl os") (auto simp: os_def split: if_splits)
    then show ?thesis
    proof cases
      case 1
      then show ?thesis using bf False os by (simp del: filter_matches.simps)
    next
      case 2
      then have "buildFilter cs gs = Some [(''$or'', ASlice os)]" using bf by (auto split: any.splits)
      then show ?thesis using False os by auto
    qed
  qed
qed


definition ex_at :: "int \<Rightarrow> string \<Rightarrow> string \<Rightarrow> any \<Rightarrow> bool" where
  "ex_at d f k v = (case v of AInt n \<Rightarrow> if k = ''$eq'' then d = n else if k = ''$gte'' then n \<le> d else k = ''$lte'' \<and> d \<le> n | _ \<Rightarrow> False)"

lemma ex_plain: "\<forall>c \<in> all_conds ex_query. plain_cond c"
  by code_simp


section \<open>Failed calls\<close>

text \<open>
  Once a call of the builder has failed, no command reaches the database, whatever calls follow: reads, updates, deletions,
  inserts, aggregations and the drop of the collection all report the first error, for every driver. In particular a \<open>Delete\<close> after a
  \<open>Where\<close> that could not be understood deletes nothing.
\<close>

theorem failed_call_blocks_execution:
  assumes "err q0 = Some e" and "continued q0 q"
  shows "Delete drv ctx q = Some (Inl e) \<and> Update drv ctx u q = Some (Inl e) \<and> Upsert drv ctx u q = Some (Inl e) \<and> Find drv ctx q = Some (Inl e)
    \<and> First drv ctx q = Some (Inl e) \<and> Count drv ctx q = Some (Inl e) \<and> aggregate drv ctx u q = Some (Inl e) \<and> Aggregate drv ctx q = Some (Inl e)
    \<and> Insert drv ctx docs q = (([], 0), Some e) \<and> DropCollection drv ctx q = Some e"
proof -
  have p: "preflightBase q = Some e" using err_stays [OF assms(2,1)] by (simp add: preflightBase_def)
  then have "preflight q = Some e" by (simp add: preflight_def)
  then show ?thesis using p
    by (simp add: Delete_def Update_def Upsert_def Find_def First_def Count_def aggregate_def Aggregate_def Insert_def DropCollection_def with_filter_def)
qed

definition ex_bad :: Query where
  "ex_bad = Where [AStr ''age'', AStr ''near'', AInt 3] (Collection None ''users'')"

lemma ex_bad_err: "err ex_bad = Some (UnsupportedOp ''near'')"
  by code_simp

theorem failed_call_blocks_execution_witness:
  "Delete (\<lambda>c s k. Total 7) None (Limit 1 ex_bad) = Some (Inl (UnsupportedOp ''near''))"
  using failed_call_blocks_execution [OF ex_bad_err continued.Limit [OF continued.start]] by blast

section \<open>Grouped rows\<close>

text \<open>The columns of the rows: the group keys and the aliases, each once; \<open>Having\<close> and \<open>OrderBy\<close> name only these.\<close>

definition columns :: "Query \<Rightarrow> string list" where
  "columns q = map groupKeyName (groupFields q) @ map agg_alias (aggSpecs q)"

lemma dup_key_None: "dup_key seen fs = None \<longleftrightarrow> distinct (map groupKeyName fs) \<and> set (map groupKeyName fs) \<inter> set seen = {}"
  by (induction fs arbitrary: seen) auto

lemma alias_clash_None:
  "alias_clash keys cols ss = None \<longleftrightarrow> distinct (map agg_alias ss) \<and> set (map agg_alias ss) \<inter> set keys = {} \<and> set (map agg_alias ss) \<inter> set cols = {}"
  by (induction ss arbitrary: cols) auto

lemma gm_set_fold: "gm_get (fold (\<lambda>x m. gm_set (k x) (v x) m) xs m) c = None \<longleftrightarrow> gm_get m c = None \<and> c \<notin> k ` set xs"
  by (induction xs arbitrary: m) auto

lemma project_columns: "gm_get (project_stage q) c \<noteq> None \<longleftrightarrow> c = ''_id'' \<or> c \<in> set (columns q)"
proof -
  have f: "gm_get (fold (\<lambda>s m. gm_set (agg_alias s) (AInt 1) m) ss m) c = None \<longleftrightarrow> gm_get m c = None \<and> c \<notin> agg_alias ` set ss" for ss m
    by (rule gm_set_fold)
  have g: "gm_get (fold (\<lambda>f m. gm_set (groupKeyName f) (AStr (''$_id.'' @ groupKeyName f)) m) fs [(''_id'', AInt 0)]) c = None \<longleftrightarrow> c \<noteq> ''_id'' \<and> c \<notin> groupKeyName ` set fs" for fs
    using gm_set_fold [of groupKeyName "\<lambda>f. AStr (''$_id.'' @ groupKeyName f)" fs "[(''_id'', AInt 0)]" c] by simp
  consider f where "groupFields q = [f]" | "\<nexists>f. groupFields q = [f]" by blast
  then show ?thesis
  proof cases
    case 1
    then show ?thesis using f [of "aggSpecs q" "gm_set (groupKeyName f) (AStr ''$_id'') [(''_id'', AInt 0)]"] by (auto simp: project_stage_def columns_def)
  next
    case 2
    then have ps: "project_stage q = fold (\<lambda>s m. gm_set (agg_alias s) (AInt 1) m) (aggSpecs q)
        (fold (\<lambda>f m. gm_set (groupKeyName f) (AStr (''$_id.'' @ groupKeyName f)) m) (groupFields q) [(''_id'', AInt 0)])"
      by (auto simp: project_stage_def split: list.splits)
    show ?thesis unfolding ps f g by (auto simp: columns_def)
  qed
qed

lemma find_None_all: "List.find P xs = None \<longleftrightarrow> (\<forall>x \<in> set xs. \<not> P x)"
  by (auto simp: find_None_iff)

text \<open>
  A pipeline that is built names each column once, projects exactly the columns (and the suppressed \<open>_id\<close>), and filters and sorts rows by
  columns only.
\<close>

lemma group_pipeline_columns:
  assumes "buildGroupPipeline q = Some (Inr p)"
  shows "distinct (columns q)" and "gm_get (project_stage q) c \<noteq> None \<longleftrightarrow> c = ''_id'' \<or> c \<in> set (columns q)"
    and "field ` set (havingConds q) \<subseteq> set (columns q)" and "fst ` set (sort_keys q) \<subseteq> set (columns q)"
proof -
  have e: "group_error q = None" using assms by (cases "group_error q") (auto simp: buildGroupPipeline_def)
  have k: "dup_key [] (groupFields q) = None" "alias_clash (map groupKeyName (groupFields q)) (map groupKeyName (groupFields q)) (aggSpecs q) = None"
    "List.find (\<lambda>c. field c \<notin> set (columns q)) (havingConds q) = None" "List.find (\<lambda>e. fst e \<notin> set (columns q)) (sort_keys q) = None"
    using e by (auto simp: group_error_def columns_def Let_def split: if_splits option.splits)
  show "distinct (columns q)" using k(1,2) by (auto simp: columns_def dup_key_None alias_clash_None)
  show "field ` set (havingConds q) \<subseteq> set (columns q)" "fst ` set (sort_keys q) \<subseteq> set (columns q)" using k(3,4) by (auto simp: find_None_all)
qed (rule project_columns)

section \<open>Equality with a regular expression\<close>

text \<open>
  Alone, an equality with a regular expression is a pattern match; next to an operator on the same field it is merged as \<open>$eq\<close>, which compares
  with the expression itself.
\<close>

lemma regex_equality_changes_meaning:
  "buildConditionFilter [cond ''name'' ''='' (ARegex ''^a'' '''')] = Some [(''name'', ARegex ''^a'' '''')]
   \<and> buildConditionFilter [cond ''name'' ''$ne'' (AStr ''ab''), cond ''name'' ''='' (ARegex ''^a'' '''')]
     = Some [(''name'', AMap [(''$ne'', AStr ''ab''), (''$eq'', ARegex ''^a'' '''')])]"
  by code_simp

end
