(* ===== verification/Tcc.thy ===== *)
theory Tcc
  imports Prelude
begin

text \<open>
  The TCC transaction manager (\<open>src/apps/tcc_demo\<close>): its model of a transaction, the registry of components, the two phases, the
  monitor, and the example component. The transaction log and the components are used through their interfaces: an update of the
  log takes effect only while its context is alive, and a component may answer anything. Times are nanoseconds.
\<close>

section \<open>Transactions\<close>

datatype TXStatus = TXHanging | TXSuccessful | TXFailure

datatype ComponentTryStatus = TryHanging | TrySuccessful | TryFailure

record ComponentTryEntity =
  ComponentID :: string
  TryStatus :: ComponentTryStatus

record Transaction =
  TXID :: string
  Components :: "ComponentTryEntity list"
  Status :: TXStatus
  CreatedAt :: int

fun status_loop :: "ComponentTryEntity list \<Rightarrow> bool \<Rightarrow> TXStatus + bool" where
  "status_loop [] hangingExist = Inr hangingExist"
| "status_loop (c # cs) hangingExist =
     (if TryStatus c = TryFailure then Inl TXFailure
      else status_loop cs (hangingExist \<or> TryStatus c \<noteq> TrySuccessful))"

definition getStatus :: "Transaction \<Rightarrow> int \<Rightarrow> TXStatus" where
  "getStatus t createdBefore = (case status_loop (Components t) False of
     Inl st \<Rightarrow> st
   | Inr hangingExist \<Rightarrow>
       if hangingExist \<and> CreatedAt t < createdBefore then TXFailure
       else if hangingExist then TXHanging
       else TXSuccessful)"

section \<open>Options and the registry\<close>

record Options =
  Timeout :: int
  MonitorTick :: int

definition repair :: "Options \<Rightarrow> Options" where
  "repair opts =
     (let opts = (if MonitorTick opts \<le> 0 then opts\<lparr>MonitorTick := 10000000000\<rparr> else opts)
      in if Timeout opts \<le> 0 then opts\<lparr>Timeout := 5000000000\<rparr> else opts)"

datatype tcc_err = RepeatID | NotExisted string | EmptyTask | RepeatComponent string | InvalidIDs | GetFailed | AckFailed string | Raised nat

definition register :: "string \<Rightarrow> 'c \<Rightarrow> (string, 'c) gomap \<Rightarrow> tcc_err + (string, 'c) gomap" where
  "register ident component m = (if gm_get m ident \<noteq> None then Inl RepeatID else Inr (gm_set ident component m))"

fun registry_getComponents :: "(string, 'c) gomap \<Rightarrow> string list \<Rightarrow> tcc_err + 'c list" where
  "registry_getComponents m [] = Inr []"
| "registry_getComponents m (i # ids) = (case gm_get m i of
     None \<Rightarrow> Inl (NotExisted i)
   | Some c \<Rightarrow> sbind (registry_getComponents m ids) (\<lambda>cs. Inr (c # cs)))"

record 'r RequestEntity =
  req_component :: string
  Request :: 'r

fun check_requests :: "'r RequestEntity list \<Rightarrow> (string, 'r) gomap \<Rightarrow> string list \<Rightarrow> tcc_err + (string, 'r) gomap \<times> string list" where
  "check_requests [] idToReq ids = Inr (idToReq, ids)"
| "check_requests (r # rs) idToReq ids =
     (if gm_get idToReq (req_component r) \<noteq> None then Inl (RepeatComponent (req_component r))
      else check_requests rs (gm_set (req_component r) (Request r) idToReq) (ids @ [req_component r]))"

text \<open>\<open>TXManager.getComponents\<close>; \<open>ident\<close> is the method \<open>ID\<close> of a component. A request that is not there is a nil pointer.\<close>

definition getComponents :: "('c \<Rightarrow> string) \<Rightarrow> (string, 'c) gomap \<Rightarrow> 'r RequestEntity list \<Rightarrow> (tcc_err + ('r \<times> 'c) list) option" where
  "getComponents ident m reqs =
     (if reqs = [] then Some (Inl EmptyTask)
      else case check_requests reqs [] [] of
        Inl e \<Rightarrow> Some (Inl e)
      | Inr (idToReq, ids) \<Rightarrow> (case registry_getComponents m ids of
          Inl e \<Rightarrow> Some (Inl e)
        | Inr cs \<Rightarrow>
            if length ids \<noteq> length cs then Some (Inl InvalidIDs)
            else map_option Inr (those (map (\<lambda>c. map_option (\<lambda>r. (r, c)) (gm_get idToReq (ident c))) cs))))"

section \<open>The monitor\<close>

definition backOffTick :: "Options \<Rightarrow> int \<Rightarrow> int" where
  "backOffTick opts tick =
     (let tick = wrap64 (2 * tick); threshold = wrap64 (8 * MonitorTick opts) in if tick > threshold then threshold else tick)"

text \<open>The waiting time of the next round of \<open>run\<close>, after a round that failed or not.\<close>

definition next_tick :: "Options \<Rightarrow> bool \<Rightarrow> int \<Rightarrow> int" where
  "next_tick opts failed tick = (if \<not> failed then MonitorTick opts else backOffTick opts tick)"

section \<open>The second phase\<close>

text \<open>What \<open>advanceProgress\<close> decides from the record of a transaction: confirm or cancel, on which components.\<close>

definition decide :: "Options \<Rightarrow> int \<Rightarrow> Transaction \<Rightarrow> (bool \<times> string list) option" where
  "decide opts now tx =
     (let txStatus = getStatus tx (now - Timeout opts)
      in if txStatus = TXHanging then None else Some (txStatus = TXSuccessful, map ComponentID (Components tx)))"

text \<open>
  The calls on the components: \<open>call success id\<close> is the answer of \<open>Confirm\<close> or \<open>Cancel\<close>, an error or whether it acknowledges. The
  result is the error and the calls made.
\<close>

fun second_phase :: "(string, 'c) gomap \<Rightarrow> (bool \<Rightarrow> string \<Rightarrow> nat + bool) \<Rightarrow> bool \<Rightarrow> string list \<Rightarrow> tcc_err option \<times> (string \<times> bool) list" where
  "second_phase m call success [] = (None, [])"
| "second_phase m call success (i # ids) = (case registry_getComponents m [i] of
     Inl e \<Rightarrow> (Some GetFailed, [])
   | Inr _ \<Rightarrow> (case call success i of
       Inl e \<Rightarrow> (Some (Raised e), [(i, success)])
     | Inr False \<Rightarrow> (Some (AckFailed i), [(i, success)])
     | Inr True \<Rightarrow> (let (e, cs) = second_phase m call success ids in (e, (i, success) # cs))))"

text \<open>\<open>advanceProgress\<close>: the error, the calls, and what was submitted to the log.\<close>

definition advanceProgress :: "Options \<Rightarrow> int \<Rightarrow> (string, 'c) gomap \<Rightarrow> (bool \<Rightarrow> string \<Rightarrow> nat + bool) \<Rightarrow> (bool \<Rightarrow> nat option) \<Rightarrow> Transaction
    \<Rightarrow> tcc_err option \<times> (string \<times> bool) list \<times> bool option" where
  "advanceProgress opts now m call submit tx = (case decide opts now tx of
     None \<Rightarrow> (None, [], None)
   | Some (success, ids) \<Rightarrow> (case second_phase m call success ids of
       (Some e, cs) \<Rightarrow> (Some e, cs, None)
     | (None, cs) \<Rightarrow> (map_option Raised (submit success), cs, Some success)))"

text \<open>\<open>batchAdvanceProgress\<close>: the transactions in the order their goroutines report; the first error is kept.\<close>

definition batchAdvanceProgress :: "(Transaction \<Rightarrow> tcc_err option) \<Rightarrow> Transaction list \<Rightarrow> tcc_err option" where
  "batchAdvanceProgress advance txs = fold (\<lambda>tx firstErr. if firstErr \<noteq> None then firstErr else advance tx) txs None"

section \<open>Interleaving\<close>

text \<open>
  One transaction, its goroutines and any number of readers of the log (the manager itself, and the monitors of all nodes). A try is pending,
  answered, written to the log, or its update failed. A run of \<open>advanceProgress\<close> holds the record it read and when, then the calls left.
\<close>

datatype try_pc = Pending | Answered bool | Written bool | Lost

datatype run = Read Transaction int | Calling bool "string list"

record world =
  clock :: int
  started :: int
  cancelled :: bool
  tx_log :: Transaction
  tries :: "(string, try_pc) gomap"
  runs :: "run list"
  calls :: "(string \<times> bool) list"
  outcome :: "bool option"

definition alive :: "Options \<Rightarrow> world \<Rightarrow> bool" where
  "alive opts w \<longleftrightarrow> \<not> cancelled w \<and> clock w < started w + Timeout opts"

definition TXUpdate :: "string \<Rightarrow> bool \<Rightarrow> Transaction \<Rightarrow> Transaction" where
  "TXUpdate i accept tx = tx\<lparr>Components := map (\<lambda>c. if ComponentID c = i then c\<lparr>TryStatus := (if accept then TrySuccessful else TryFailure)\<rparr> else c) (Components tx)\<rparr>"

definition TXSubmit :: "bool \<Rightarrow> Transaction \<Rightarrow> Transaction" where
  "TXSubmit success tx = tx\<lparr>Status := (if success then TXSuccessful else TXFailure)\<rparr>"

definition failed_try :: "try_pc \<Rightarrow> bool" where
  "failed_try p \<longleftrightarrow> p = Written False \<or> p = Lost"

definition finished :: "try_pc \<Rightarrow> bool" where
  "finished p \<longleftrightarrow> failed_try p \<or> p = Written True"

text \<open>With \<open>prompt\<close> a run reads the clock at the time it read the record; without, later.\<close>

inductive tx_step :: "Options \<Rightarrow> bool \<Rightarrow> world \<Rightarrow> world \<Rightarrow> bool" for opts prompt where
  time: "clock w \<le> t \<Longrightarrow> tx_step opts prompt w (w\<lparr>clock := t\<rparr>)"
| answer: "gm_get (tries w) i = Some Pending \<Longrightarrow> tx_step opts prompt w (w\<lparr>tries := gm_set i (Answered ok) (tries w)\<rparr>)"
| update: "gm_get (tries w) i = Some (Answered ok) \<Longrightarrow> alive opts w
    \<Longrightarrow> tx_step opts prompt w (w\<lparr>tries := gm_set i (Written ok) (tries w), tx_log := TXUpdate i ok (tx_log w)\<rparr>)"
| lose: "gm_get (tries w) i = Some (Answered ok) \<Longrightarrow> tx_step opts prompt w (w\<lparr>tries := gm_set i Lost (tries w)\<rparr>)"
| cancel: "gm_get (tries w) i = Some p \<Longrightarrow> failed_try p \<Longrightarrow> tx_step opts prompt w (w\<lparr>cancelled := True\<rparr>)"
| joined: "\<forall>p \<in> set (map snd (tries w)). finished p \<Longrightarrow> tx_step opts prompt w (w\<lparr>outcome := Some (\<forall>p \<in> set (map snd (tries w)). \<not> failed_try p)\<rparr>)"
| read: "tx_step opts prompt w (w\<lparr>runs := runs w @ [Read (tx_log w) (clock w)]\<rparr>)"
| decide_none: "runs w = rs @ Read tx t # rs' \<Longrightarrow> decide opts (clock w) tx = None \<Longrightarrow> tx_step opts prompt w (w\<lparr>runs := rs @ rs'\<rparr>)"
| decide_some: "runs w = rs @ Read tx t # rs' \<Longrightarrow> decide opts (clock w) tx = Some (success, ids) \<Longrightarrow> (prompt \<Longrightarrow> t = clock w)
    \<Longrightarrow> tx_step opts prompt w (w\<lparr>runs := rs @ Calling success ids # rs'\<rparr>)"
| call: "runs w = rs @ Calling success (i # ids) # rs'
    \<Longrightarrow> tx_step opts prompt w (w\<lparr>runs := rs @ Calling success ids # rs', calls := calls w @ [(i, success)]\<rparr>)"
| call_fails: "runs w = rs @ Calling success (i # ids) # rs'
    \<Longrightarrow> tx_step opts prompt w (w\<lparr>runs := rs @ rs', calls := calls w @ [(i, success)]\<rparr>)"
| lookup_fails: "runs w = rs @ Calling success (i # ids) # rs' \<Longrightarrow> tx_step opts prompt w (w\<lparr>runs := rs @ rs'\<rparr>)"
| submit: "runs w = rs @ Calling success [] # rs' \<Longrightarrow> tx_step opts prompt w (w\<lparr>runs := rs @ rs', tx_log := TXSubmit success (tx_log w)\<rparr>)"
| submit_fails: "runs w = rs @ Calling success [] # rs' \<Longrightarrow> tx_step opts prompt w (w\<lparr>runs := rs @ rs'\<rparr>)"

text \<open>After \<open>CreateTX\<close>: the record has a hanging entry for each component and was created after the context.\<close>

definition tx_begin :: "string \<Rightarrow> string list \<Rightarrow> int \<Rightarrow> int \<Rightarrow> world" where
  "tx_begin i ids start created =
     \<lparr>clock = created, started = start, cancelled = False,
      tx_log = \<lparr>TXID = i, Components = map (\<lambda>c. \<lparr>ComponentID = c, TryStatus = TryHanging\<rparr>) ids, Status = TXHanging, CreatedAt = created\<rparr>,
      tries = map (\<lambda>c. (c, Pending)) ids, runs = [], calls = [], outcome = None\<rparr>"

abbreviation tx_reach :: "Options \<Rightarrow> bool \<Rightarrow> world \<Rightarrow> world \<Rightarrow> bool" where
  "tx_reach opts prompt \<equiv> (tx_step opts prompt)\<^sup>*\<^sup>*"

lemmas tx_start = rtranclp.rtrancl_refl [where r = "tx_step opts prompt" for opts prompt]

lemmas tx_more = rtranclp.rtrancl_into_rtrancl [where r = "tx_step opts prompt" for opts prompt]

section \<open>Agreement\<close>

definition good :: "world \<Rightarrow> bool" where
  "good w \<longleftrightarrow> (\<forall>c \<in> set (Components (tx_log w)). TryStatus c = TrySuccessful)"

definition bad :: "Options \<Rightarrow> world \<Rightarrow> bool" where
  "bad opts w \<longleftrightarrow> (\<exists>c \<in> set (Components (tx_log w)). TryStatus c = TryFailure \<or> TryStatus c = TryHanging \<and> CreatedAt (tx_log w) + Timeout opts < clock w)"

definition verdict :: "Options \<Rightarrow> world \<Rightarrow> bool \<Rightarrow> bool" where
  "verdict opts w s = (if s then good w else bad opts w)"

lemma not_both: "\<not> (verdict opts w True \<and> verdict opts w False)"
  by (auto simp: verdict_def good_def bad_def)

fun logged :: "try_pc \<Rightarrow> ComponentTryStatus" where
  "logged (Written ok) = (if ok then TrySuccessful else TryFailure)"
| "logged _ = TryHanging"

definition core_ok :: "Options \<Rightarrow> world \<Rightarrow> bool" where
  "core_ok opts w \<longleftrightarrow> gm_ok (tries w) \<and> Components (tx_log w) = map (\<lambda>(i, p). \<lparr>ComponentID = i, TryStatus = logged p\<rparr>) (tries w)
     \<and> started w \<le> CreatedAt (tx_log w)"

definition read_ok :: "Options \<Rightarrow> world \<Rightarrow> Transaction \<Rightarrow> int \<Rightarrow> bool" where
  "read_ok opts w tx t \<longleftrightarrow> CreatedAt tx = CreatedAt (tx_log w) \<and> map ComponentID (Components tx) = map fst (tries w) \<and> t \<le> clock w
     \<and> (\<forall>c \<in> set (Components tx). c \<in> set (Components (tx_log w)) \<or> TryStatus c = TryHanging \<and> t < started w + Timeout opts)"

definition run_ok :: "Options \<Rightarrow> world \<Rightarrow> run \<Rightarrow> bool" where
  "run_ok opts w r = (case r of Read tx t \<Rightarrow> read_ok opts w tx t | Calling s ids \<Rightarrow> verdict opts w s)"

definition outcome_ok :: "world \<Rightarrow> bool" where
  "outcome_ok w \<longleftrightarrow> (\<forall>b. outcome w = Some b \<longrightarrow> (\<forall>p \<in> set (map snd (tries w)). finished p) \<and> b = (\<forall>p \<in> set (map snd (tries w)). \<not> failed_try p))"

definition world_ok :: "Options \<Rightarrow> world \<Rightarrow> bool" where
  "world_ok opts w \<longleftrightarrow> core_ok opts w \<and> outcome_ok w \<and> (\<forall>r \<in> set (runs w). run_ok opts w r) \<and> (\<forall>(i, s) \<in> set (calls w). verdict opts w s)"

text \<open>A goroutine that has not written leaves a hanging entry, and its update replaces that entry.\<close>

lemma gm_set_at:
  assumes "gm_ok m" and "gm_get m i = Some p"
  shows "gm_set i q m = map (\<lambda>(k, v). if k = i then (k, q) else (k, v)) m"
  using assms
proof (induction m)
  case (Cons a m)
  obtain k v where a: "a = (k, v)" by (cases a)
  have "map (\<lambda>(k, v). if k = i then (k, q) else (k, v)) m = m" if "k = i"
  proof -
    have "i \<notin> fst ` set m" using Cons.prems(1) a that by (simp add: gm_ok_def)
    then show ?thesis by (intro map_idI) force
  qed
  then show ?case using Cons a by (auto simp: gm_set_def gm_ok_def)
qed simp

lemma tries_keys: "gm_ok m \<Longrightarrow> gm_get m i = Some p \<Longrightarrow> map fst (gm_set i q m) = map fst m"
  by (simp add: gm_set_at case_prod_unfold comp_def)

lemma tries_same_log:
  assumes "gm_ok m" and "gm_get m i = Some p" and "logged q = logged p"
  shows "map (\<lambda>(i, p). \<lparr>ComponentID = i, TryStatus = logged p\<rparr>) (gm_set i q m) = map (\<lambda>(i, p). \<lparr>ComponentID = i, TryStatus = logged p\<rparr>) m"
proof -
  have "v = p" if "(i, v) \<in> set m" for v using assms(1,2) that by (simp add: gm_mem_iff)
  then show ?thesis using assms by (auto simp: gm_set_at)
qed

lemma tries_update_log:
  assumes "gm_ok m" and "gm_get m i = Some p"
  shows "map (\<lambda>(i, p). \<lparr>ComponentID = i, TryStatus = logged p\<rparr>) (gm_set i (Written ok) m)
    = map (\<lambda>c. if ComponentID c = i then c\<lparr>TryStatus := (if ok then TrySuccessful else TryFailure)\<rparr> else c) (map (\<lambda>(i, p). \<lparr>ComponentID = i, TryStatus = logged p\<rparr>) m)"
  using assms by (auto simp: gm_set_at)


text \<open>How the state of a transaction moves: time passes, a goroutine goes on without writing, or it writes while its context is alive.\<close>

definition moves :: "Options \<Rightarrow> world \<Rightarrow> world \<Rightarrow> bool" where
  "moves opts w w' \<longleftrightarrow> started w' = started w \<and> CreatedAt (tx_log w') = CreatedAt (tx_log w) \<and> map fst (tries w') = map fst (tries w) \<and> clock w \<le> clock w'
     \<and> (\<forall>c \<in> set (Components (tx_log w)). c \<in> set (Components (tx_log w')) \<or> TryStatus c = TryHanging \<and> clock w < started w + Timeout opts)
     \<and> (good w \<longrightarrow> good w')"

lemma moves_verdict: "core_ok opts w \<Longrightarrow> moves opts w w' \<Longrightarrow> verdict opts w s \<Longrightarrow> verdict opts w' s"
  unfolding moves_def verdict_def bad_def core_ok_def by (cases s) force+

lemma moves_read:
  assumes "moves opts w w'" and "read_ok opts w tx t"
  shows "read_ok opts w' tx t"
proof -
  have "c \<in> set (Components (tx_log w')) \<or> TryStatus c = TryHanging \<and> t < started w' + Timeout opts" if "c \<in> set (Components tx)" for c
    using assms that unfolding moves_def read_ok_def by fastforce
  then show ?thesis using assms unfolding moves_def read_ok_def by auto
qed

lemma moves_run: "core_ok opts w \<Longrightarrow> moves opts w w' \<Longrightarrow> run_ok opts w r \<Longrightarrow> run_ok opts w' r"
  using moves_verdict moves_read by (cases r) (auto simp: run_ok_def)

lemma moves_refl: "Components (tx_log w') = Components (tx_log w) \<Longrightarrow> CreatedAt (tx_log w') = CreatedAt (tx_log w) \<Longrightarrow> started w' = started w
    \<Longrightarrow> map fst (tries w') = map fst (tries w) \<Longrightarrow> clock w \<le> clock w' \<Longrightarrow> moves opts w w'"
  by (auto simp: moves_def good_def)

lemma hanging_entry:
  assumes "core_ok opts w" and "gm_get (tries w) i = Some p" and "c \<in> set (Components (tx_log w))" and "ComponentID c = i"
  shows "TryStatus c = logged p"
  using assms by (auto simp: core_ok_def gm_mem_iff [symmetric] gm_ok_def) (metis eq_key_imp_eq_value)

lemma tx_step_moves:
  assumes "tx_step opts prompt w w'" and ok: "core_ok opts w"
  shows "core_ok opts w' \<and> moves opts w w'"
  using assms(1)
proof cases
  case (answer i ok')
  then show ?thesis using ok tries_same_log [of "tries w" i Pending "Answered ok'"] tries_keys [of "tries w" i] by (auto simp: core_ok_def intro!: moves_refl)
next
  case (lose i ok')
  then show ?thesis using ok tries_same_log [of "tries w" i "Answered ok'" Lost] tries_keys [of "tries w" i] by (auto simp: core_ok_def intro!: moves_refl)
next
  case (update i ok')
  have c: "core_ok opts w'" using ok update tries_update_log [of "tries w" i "Answered ok'" ok'] by (auto simp: core_ok_def TXUpdate_def)
  have h: "TryStatus c = TryHanging" if "c \<in> set (Components (tx_log w))" "ComponentID c = i" for c using hanging_entry [OF ok update(2) that] by simp
  have "i \<in> ComponentID ` set (Components (tx_log w))" using ok update(2) by (force simp: core_ok_def dest: map_of_SomeD)
  then obtain c where "c \<in> set (Components (tx_log w))" "ComponentID c = i" by blast
  then have g: "\<not> good w" using h [of c] by (force simp: good_def)
  have k: "c \<in> set (Components (tx_log w'))" if "c \<in> set (Components (tx_log w))" "ComponentID c \<noteq> i" for c
    using that update(1) by (auto simp: TXUpdate_def intro!: rev_image_eqI)
  have t: "clock w < started w + Timeout opts" using update(3) by (simp add: alive_def)
  have e: "\<forall>c \<in> set (Components (tx_log w)). c \<in> set (Components (tx_log w')) \<or> TryStatus c = TryHanging \<and> clock w < started w + Timeout opts"
    using h k t by blast
  have "started w' = started w" "CreatedAt (tx_log w') = CreatedAt (tx_log w)" "clock w' = clock w" "map fst (tries w') = map fst (tries w)"
    using update(1,2) ok tries_keys [of "tries w" i] by (simp_all add: TXUpdate_def core_ok_def)
  then have "moves opts w w'" unfolding moves_def using e g by simp
  then show ?thesis using c by blast
qed (use ok in \<open>auto simp: core_ok_def TXSubmit_def intro!: moves_refl\<close>)


lemma status_loop_cases:
  "status_loop cs h = (if \<exists>c \<in> set cs. TryStatus c = TryFailure then Inl TXFailure else Inr (h \<or> (\<exists>c \<in> set cs. TryStatus c \<noteq> TrySuccessful)))"
  by (induction cs arbitrary: h) auto

lemma getStatus_cases:
  "getStatus tx b =
     (if \<exists>c \<in> set (Components tx). TryStatus c = TryFailure \<or> TryStatus c = TryHanging \<and> CreatedAt tx < b then TXFailure
      else if \<forall>c \<in> set (Components tx). TryStatus c = TrySuccessful then TXSuccessful
      else TXHanging)"
proof -
  have "TryStatus c = TryHanging \<longleftrightarrow> TryStatus c \<noteq> TrySuccessful \<and> TryStatus c \<noteq> TryFailure" for c by (cases "TryStatus c") auto
  then show ?thesis by (auto simp: getStatus_def status_loop_cases)
qed

lemma decide_verdict:
  assumes core: "core_ok opts w" and rd: "read_ok opts w tx (clock w)" and d: "decide opts (clock w) tx = Some (s, ids)"
  shows "verdict opts w s"
proof (cases s)
  case True
  then have all: "\<forall>c \<in> set (Components tx). TryStatus c = TrySuccessful" using d by (auto simp: decide_def Let_def getStatus_cases split: if_splits)
  have "TryStatus c = TrySuccessful" if c: "c \<in> set (Components (tx_log w))" for c
  proof -
    have "ComponentID c \<in> set (map fst (tries w))" using core c by (force simp: core_ok_def)
    also have "set (map fst (tries w)) = ComponentID ` set (Components tx)" using rd by (metis read_ok_def set_map)
    finally obtain c' where c': "c' \<in> set (Components tx)" "ComponentID c' = ComponentID c" by auto
    then have "c' \<in> set (Components (tx_log w))" using rd all by (force simp: read_ok_def)
    then have "c' = c" using c c'(2) core by (auto simp: core_ok_def gm_ok_def dest: eq_key_imp_eq_value)
    then show ?thesis using all c'(1) by blast
  qed
  then show ?thesis using True by (simp add: verdict_def good_def)
next
  case False
  then obtain c where c: "c \<in> set (Components tx)" "TryStatus c = TryFailure \<or> TryStatus c = TryHanging \<and> CreatedAt tx < clock w - Timeout opts"
    using d by (auto simp: decide_def Let_def getStatus_cases split: if_splits)
  have "c \<in> set (Components (tx_log w))" using c rd core by (auto simp: read_ok_def core_ok_def)
  then show ?thesis using False c(2) rd by (auto simp: verdict_def bad_def read_ok_def intro!: bexI [of _ c])
qed

lemma outcome_open:
  assumes "outcome_ok w" and "gm_get (tries w) i = Some p" and "\<not> finished p"
  shows "outcome w = None"
proof -
  have "p \<in> set (map snd (tries w))" using map_of_SomeD [OF assms(2)] by force
  then show ?thesis using assms(1,3) by (cases "outcome w") (auto simp: outcome_ok_def)
qed

lemma outcome_step:
  assumes "tx_step opts prompt w w'" and "outcome_ok w"
  shows "outcome_ok w'"
  using assms(1)
proof cases
  case (answer i ok')
  then show ?thesis using outcome_open [OF assms(2) answer(2)] by (simp add: outcome_ok_def finished_def failed_try_def)
next
  case (update i ok')
  then show ?thesis using outcome_open [OF assms(2) update(2)] by (simp add: outcome_ok_def finished_def failed_try_def)
next
  case (lose i ok')
  then show ?thesis using outcome_open [OF assms(2) lose(2)] by (simp add: outcome_ok_def finished_def failed_try_def)
qed (use assms(2) in \<open>auto simp: outcome_ok_def\<close>)

lemma read_now: "core_ok opts w \<Longrightarrow> read_ok opts w (tx_log w) (clock w)"
  by (auto simp: read_ok_def core_ok_def)

text \<open>New runs and calls rest on a verdict.\<close>

lemma tx_step_new:
  assumes "tx_step opts True w w'" and "world_ok opts w"
  shows "(\<forall>r \<in> set (runs w'). run_ok opts w r) \<and> (\<forall>(i, s) \<in> set (calls w'). verdict opts w s)"
  using assms(1)
proof cases
  case read
  then show ?thesis using assms(2) read_now by (auto simp: world_ok_def run_ok_def)
next
  case (decide_some rs tx t rs' s ids)
  then have "read_ok opts w tx (clock w)" using assms(2) by (auto simp: world_ok_def run_ok_def)
  then have "verdict opts w s" using decide_verdict decide_some assms(2) by (auto simp: world_ok_def)
  then show ?thesis using assms(2) decide_some by (auto simp: world_ok_def run_ok_def)
qed (use assms(2) in \<open>auto simp: world_ok_def run_ok_def\<close>)

lemma world_ok_step:
  assumes "tx_step opts True w w'" and "world_ok opts w"
  shows "world_ok opts w'"
proof -
  have core: "core_ok opts w" using assms(2) by (simp add: world_ok_def)
  have m: "core_ok opts w'" "moves opts w w'" using tx_step_moves [OF assms(1) core] by auto
  have "\<forall>r \<in> set (runs w'). run_ok opts w' r" "\<forall>(i, s) \<in> set (calls w'). verdict opts w' s"
    using tx_step_new [OF assms] moves_run [OF core m(2)] moves_verdict [OF core m(2)] by auto
  then show ?thesis using m(1) outcome_step [OF assms(1)] assms(2) by (auto simp: world_ok_def)
qed

lemma world_ok_begin: "distinct ids \<Longrightarrow> start \<le> created \<Longrightarrow> world_ok opts (tx_begin i ids start created)"
  by (auto simp: world_ok_def core_ok_def outcome_ok_def tx_begin_def gm_ok_def comp_def)

lemma world_ok_reach:
  assumes "tx_reach opts True w0 w" and "world_ok opts w0"
  shows "world_ok opts w"
  by (rule steps_invariant [where P = "world_ok opts", OF assms(1) _ assms(2)]) (rule world_ok_step)

lemma outcome_verdict:
  assumes "core_ok opts w" and "outcome_ok w" and "outcome w = Some b"
  shows "good w \<longleftrightarrow> b"
proof -
  have g: "good w \<longleftrightarrow> (\<forall>p \<in> set (map snd (tries w)). p = Written True)"
  proof -
    have "logged p = TrySuccessful \<longleftrightarrow> p = Written True" for p by (cases p) auto
    then show ?thesis using assms(1) by (auto simp: good_def core_ok_def)
  qed
  have "finished p \<Longrightarrow> \<not> failed_try p \<longleftrightarrow> p = Written True" for p by (auto simp: finished_def failed_try_def)
  then show ?thesis using assms(2,3) unfolding g outcome_ok_def by blast
qed



definition ex_opts :: Options where
  "ex_opts = \<lparr>Timeout = 10, MonitorTick = 5\<rparr>"

definition ex_begin :: world where
  "ex_begin = tx_begin ''t'' [''a''] 0 0"

definition ex_written :: world where
  "ex_written = ex_begin\<lparr>tries := [(''a'', Written True)], tx_log := TXUpdate ''a'' True (tx_log ex_begin)\<rparr>"

definition ex_called :: world where
  "ex_called = ex_written\<lparr>runs := [Calling True []], calls := [(''a'', True)]\<rparr>"

lemmas ex_defs = ex_opts_def ex_begin_def ex_written_def ex_called_def tx_begin_def TXUpdate_def

lemma ex_writes: "tx_reach ex_opts p ex_begin ex_written"
proof -
  let ?w = "ex_begin\<lparr>tries := gm_set ''a'' (Answered True) (tries ex_begin)\<rparr>"
  let ?u = "?w\<lparr>tries := gm_set ''a'' (Written True) (tries ?w), tx_log := TXUpdate ''a'' True (tx_log ?w)\<rparr>"
  have a: "tx_step ex_opts p ex_begin ?w" by (rule tx_step.answer) (simp add: ex_defs)
  have u: "tx_step ex_opts p ?w ?u" by (rule tx_step.update) (simp_all add: ex_defs alive_def)
  have e: "?u = ex_written" by (simp add: ex_defs gm_set_def)
  show ?thesis using tx_more [OF tx_more [OF tx_start a] u] unfolding e .
qed

lemma ex_decided: "decide ex_opts t (tx_log ex_written) = Some (True, [''a''])"
  by (simp add: decide_def Let_def getStatus_cases ex_defs)

lemma ex_confirms: "tx_reach ex_opts True ex_begin ex_called"
proof -
  let ?r = "ex_written\<lparr>runs := runs ex_written @ [Read (tx_log ex_written) (clock ex_written)]\<rparr>"
  let ?c = "?r\<lparr>runs := [] @ Calling True [''a''] # []\<rparr>"
  let ?d = "?c\<lparr>runs := [] @ Calling True [] # [], calls := calls ?c @ [(''a'', True)]\<rparr>"
  have r: "tx_step ex_opts True ex_written ?r" by (rule tx_step.read)
  have c: "tx_step ex_opts True ?r ?c"
    by (rule tx_step.decide_some [where tx = "tx_log ex_written" and t = "clock ex_written"]) (simp_all add: ex_decided, simp_all add: ex_defs)
  have d: "tx_step ex_opts True ?c ?d" by (rule tx_step.call) simp
  have e: "?d = ex_called" by (simp add: ex_defs)
  show ?thesis using tx_more [OF tx_more [OF tx_more [OF ex_writes r] c] d] unfolding e .
qed



text \<open>A run that reads the clock after the deadline, with a record it read before, cancels a transaction that another run confirms.\<close>

lemma stale_record_breaks_agreement:
  "\<exists>w. tx_reach ex_opts False ex_begin w \<and> (''a'', True) \<in> set (calls w) \<and> (''a'', False) \<in> set (calls w)"
proof -
  let ?r = "ex_begin\<lparr>runs := runs ex_begin @ [Read (tx_log ex_begin) (clock ex_begin)]\<rparr>"
  let ?a = "?r\<lparr>tries := gm_set ''a'' (Answered True) (tries ?r)\<rparr>"
  let ?u = "?a\<lparr>tries := gm_set ''a'' (Written True) (tries ?a), tx_log := TXUpdate ''a'' True (tx_log ?a)\<rparr>"
  let ?t = "?u\<lparr>clock := 11\<rparr>"
  let ?d = "?t\<lparr>runs := [] @ Calling False [''a''] # []\<rparr>"
  let ?c = "?d\<lparr>runs := [] @ Calling False [] # [], calls := calls ?d @ [(''a'', False)]\<rparr>"
  let ?r' = "?c\<lparr>runs := runs ?c @ [Read (tx_log ?c) (clock ?c)]\<rparr>"
  let ?d' = "?r'\<lparr>runs := [Calling False []] @ Calling True [''a''] # []\<rparr>"
  let ?c' = "?d'\<lparr>runs := [Calling False []] @ Calling True [] # [], calls := calls ?d' @ [(''a'', True)]\<rparr>"
  have r: "tx_step ex_opts False ex_begin ?r" by (rule tx_step.read)
  have a: "tx_step ex_opts False ?r ?a" by (rule tx_step.answer) (simp add: ex_defs)
  have u: "tx_step ex_opts False ?a ?u" by (rule tx_step.update) (simp_all add: ex_defs alive_def)
  have t: "tx_step ex_opts False ?u ?t" by (rule tx_step.time) (simp add: ex_defs)
  have d: "tx_step ex_opts False ?t ?d"
    by (rule tx_step.decide_some [where tx = "tx_log ex_begin" and t = 0]) (simp_all add: ex_defs decide_def Let_def getStatus_cases)
  have c: "tx_step ex_opts False ?d ?c" by (rule tx_step.call) simp
  have r': "tx_step ex_opts False ?c ?r'" by (rule tx_step.read)
  have d': "tx_step ex_opts False ?r' ?d'"
    by (rule tx_step.decide_some [where tx = "tx_log ?c" and t = 11]) (simp_all add: ex_defs decide_def Let_def getStatus_cases)
  have c': "tx_step ex_opts False ?d' ?c'" by (rule tx_step.call) simp
  note before = tx_more [OF tx_more [OF tx_more [OF tx_more [OF tx_start r] a] u] t]
  note after = tx_more [OF tx_more [OF tx_more [OF tx_more [OF tx_more [OF before d] c] r'] d'] c']
  show ?thesis by (rule exI [of _ ?c'], rule conjI [OF after]) simp
qed

section \<open>One run of the second phase\<close>

lemma second_phase_calls:
  "second_phase m call s ids = (e, cs) \<Longrightarrow> \<exists>n \<le> length ids. cs = map (\<lambda>i. (i, s)) (take n ids) \<and> (e = None \<longrightarrow> n = length ids \<and> (\<forall>i \<in> set ids. call s i = Inr True))"
proof (induction ids arbitrary: e cs)
  case (Cons i ids)
  show ?case
  proof (cases "gm_get m i")
    case None
    then show ?thesis using Cons.prems by auto
  next
    case (Some c)
    show ?thesis
    proof (cases "call s i")
      case (Inl e')
      then show ?thesis using Some Cons.prems by (auto intro!: exI [of _ 1])
    next
      case (Inr ack)
      show ?thesis
      proof (cases ack)
        case True
        obtain e' cs' where r: "second_phase m call s ids = (e', cs')" by fastforce
        then obtain n where "n \<le> length ids" "cs' = map (\<lambda>i. (i, s)) (take n ids)" "e' = None \<longrightarrow> n = length ids \<and> (\<forall>i \<in> set ids. call s i = Inr True)"
          using Cons.IH by blast
        then show ?thesis using Some Inr True r Cons.prems by (auto intro!: exI [of _ "Suc n"])
      next
        case False
        then show ?thesis using Some Inr Cons.prems by (auto intro!: exI [of _ 1])
      qed
    qed
  qed
qed simp

text \<open>
  A run calls the components in the order of the record, all with the same decision, and stops at the first that fails; it submits the decision
  to the log exactly when all have acknowledged.
\<close>

lemma advanceProgress_run:
  assumes "advanceProgress opts now m call submit tx = (e, cs, sub)"
  shows "\<exists>s n. cs = map (\<lambda>i. (i, s)) (take n (map ComponentID (Components tx)))
    \<and> (sub = Some s \<and> (\<forall>c \<in> set (Components tx). call s (ComponentID c) = Inr True) \<and> cs = map (\<lambda>c. (ComponentID c, s)) (Components tx) \<or> sub = None)"
proof (cases "decide opts now tx")
  case None
  then show ?thesis using assms by (auto simp: advanceProgress_def)
next
  case (Some d)
  obtain s ids where d: "d = (s, ids)" by fastforce
  have ids: "ids = map ComponentID (Components tx)" using Some d by (auto simp: decide_def Let_def split: if_splits)
  obtain e' cs' where p: "second_phase m call s ids = (e', cs')" by fastforce
  then obtain n where n: "n \<le> length ids" "cs' = map (\<lambda>i. (i, s)) (take n ids)" "e' = None \<longrightarrow> n = length ids \<and> (\<forall>i \<in> set ids. call s i = Inr True)"
    using second_phase_calls [OF p] by blast
  have a: "advanceProgress opts now m call submit tx = (case e' of Some x \<Rightarrow> (Some x, cs', None) | None \<Rightarrow> (map_option Raised (submit s), cs', Some s))"
    by (simp add: advanceProgress_def Some d p)
  have r: "cs = cs'" "sub = (if e' = None then Some s else None)" using a assms by (cases e'; simp)+
  show ?thesis
  proof (cases "e' = None")
    case True
    then have "cs = map (\<lambda>i. (i, s)) ids" "sub = Some s" "\<forall>i \<in> set ids. call s i = Inr True" using r n by auto
    then show ?thesis using ids by (intro exI [of _ s] exI [of _ "length ids"]) (simp add: comp_def)
  next
    case False
    then have "cs = map (\<lambda>i. (i, s)) (take n (map ComponentID (Components tx)))" "sub = None" using r n(2) ids by simp_all
    then show ?thesis by blast
  qed
qed

section \<open>Requests, and waiting between rounds\<close>

lemma check_requests_ids:
  "check_requests rs m ids = Inr (m', ids') \<Longrightarrow> set ids = dom (gm_get m) \<Longrightarrow> distinct ids
    \<Longrightarrow> ids' = ids @ map req_component rs \<and> distinct ids' \<and> set ids' = dom (gm_get m')"
proof (induction rs arbitrary: m ids)
  case (Cons r rs)
  have n: "gm_get m (req_component r) = None" using Cons.prems(1) by (auto split: if_splits)
  have c: "check_requests rs (gm_set (req_component r) (Request r) m) (ids @ [req_component r]) = Inr (m', ids')" using Cons.prems(1) n by simp
  have s: "set (ids @ [req_component r]) = dom (gm_get (gm_set (req_component r) (Request r) m))" "distinct (ids @ [req_component r])"
    using Cons.prems(2,3) n by auto
  note h = Cons.IH [OF c s]
  show ?case
  proof (intro conjI)
    show "ids' = ids @ map req_component (r # rs)" using h by simp
    show "distinct ids'" "set ids' = dom (gm_get m')" using h by blast+
  qed
qed auto

lemma registry_ids:
  assumes "\<And>i c. gm_get m i = Some c \<Longrightarrow> ident c = i"
  shows "registry_getComponents m ids = Inr cs \<Longrightarrow> map ident cs = ids"
  by (induction ids arbitrary: cs) (auto simp: sbind_Inr assms split: option.splits)

lemma those_all: "\<forall>x \<in> set xs. f x \<noteq> None \<Longrightarrow> those (map f xs) = Some (map (\<lambda>x. the (f x)) xs)"
  by (induction xs) auto

text \<open>The components of a transaction are the requested ones, in the order of the requests, each once; no request is missing.\<close>

lemma getComponents_distinct:
  assumes "\<And>i c. gm_get m i = Some c \<Longrightarrow> ident c = i"
  shows "\<exists>r. getComponents ident m reqs = Some r \<and> (\<forall>es. r = Inr es \<longrightarrow> map (ident \<circ> snd) es = map req_component reqs \<and> distinct (map req_component reqs))"
proof (cases "check_requests reqs [] []")
  case (Inl e)
  then show ?thesis by (simp add: getComponents_def)
next
  case (Inr p)
  obtain m' ids where p: "p = (m', ids)" by fastforce
  have ids: "ids = map req_component reqs" "distinct ids" "set ids = dom (gm_get m')" using check_requests_ids [of reqs "[]" "[]" m' ids] Inr p by auto
  show ?thesis
  proof (cases "registry_getComponents m ids")
    case (Inl e)
    then show ?thesis using Inr p by (simp add: getComponents_def)
  next
    case reg: (Inr cs)
    have cs: "map ident cs = ids" using registry_ids [of m ident, OF assms] reg by blast
    let ?f = "\<lambda>c. map_option (\<lambda>r. (r, c)) (gm_get m' (ident c))"
    have f: "\<forall>c \<in> set cs. ?f c \<noteq> None" using ids(3) cs by auto
    then have "map (ident \<circ> snd) (map (\<lambda>c. the (?f c)) cs) = map ident cs" by auto
    then show ?thesis using Inr p reg cs ids those_all [OF f] by (auto simp: getComponents_def comp_def)
  qed
qed

text \<open>The waiting time stays between the configured one and eight times that.\<close>

lemma tick_bounded:
  assumes "0 < MonitorTick opts" and "16 * MonitorTick opts < 2 ^ 63" and "MonitorTick opts \<le> tick" and "tick \<le> 8 * MonitorTick opts"
  shows "MonitorTick opts \<le> next_tick opts failed tick \<and> next_tick opts failed tick \<le> 8 * MonitorTick opts"
proof -
  have "wrap64 (8 * MonitorTick opts) = 8 * MonitorTick opts" using assms by (intro wrap64_id) auto
  moreover have "wrap64 (2 * tick) = 2 * tick" using assms by (intro wrap64_id) auto
  ultimately show ?thesis using assms by (auto simp: next_tick_def backOffTick_def Let_def)
qed

section \<open>The example component\<close>

text \<open>
  The keys a component keeps in Redis for one transaction (\<open>example/tcc_component.go\<close>): the status, the business id, and the data of each
  business id. Each operation holds the lock of the transaction. \<open>NilReply\<close> is the error of a \<open>GET\<close> on a key that is not there.
\<close>

datatype CompStatus = TXTried | TXConfirmed | TXCanceled

datatype DataStatus = DataFrozen | DataSuccessful

record comp_store =
  tx_key :: "CompStatus option"
  tx_detail :: "string option"
  data_key :: "(string, DataStatus) gomap"

datatype comp_err = NilReply | InvalidStatus

definition comp_Try :: "string \<Rightarrow> comp_store \<Rightarrow> (comp_err + bool) \<times> comp_store" where
  "comp_Try bizID st = (case tx_key st of
     Some TXTried \<Rightarrow> (Inr True, st)
   | Some TXConfirmed \<Rightarrow> (Inr True, st)
   | Some TXCanceled \<Rightarrow> (Inr False, st)
   | None \<Rightarrow>
       (let st = st\<lparr>tx_detail := Some bizID\<rparr>
        in if gm_get (data_key st) bizID \<noteq> None then (Inr False, st)
           else (Inr True, st\<lparr>data_key := gm_set bizID DataFrozen (data_key st), tx_key := Some TXTried\<rparr>)))"

definition comp_Confirm :: "comp_store \<Rightarrow> (comp_err + bool) \<times> comp_store" where
  "comp_Confirm st = (case tx_key st of
     None \<Rightarrow> (Inl NilReply, st)
   | Some TXConfirmed \<Rightarrow> (Inr True, st)
   | Some TXCanceled \<Rightarrow> (Inr False, st)
   | Some TXTried \<Rightarrow> (case tx_detail st of
       None \<Rightarrow> (Inl NilReply, st)
     | Some bizID \<Rightarrow> (case gm_get (data_key st) bizID of
         None \<Rightarrow> (Inl NilReply, st)
       | Some DataSuccessful \<Rightarrow> (Inr False, st)
       | Some DataFrozen \<Rightarrow> (Inr True, st\<lparr>data_key := gm_set bizID DataSuccessful (data_key st), tx_key := Some TXConfirmed\<rparr>))))"

definition comp_Cancel :: "comp_store \<Rightarrow> (comp_err + bool) \<times> comp_store" where
  "comp_Cancel st =
     (if tx_key st = Some TXConfirmed then (Inl InvalidStatus, st)
      else case tx_detail st of
        None \<Rightarrow> (Inl NilReply, st)
      | Some bizID \<Rightarrow> (Inr True, st\<lparr>data_key := gm_del bizID (data_key st), tx_key := Some TXCanceled\<rparr>))"

datatype comp_op = OpTry string | OpConfirm | OpCancel

fun comp_step :: "comp_op \<Rightarrow> comp_store \<Rightarrow> (comp_err + bool) \<times> comp_store" where
  "comp_step (OpTry b) st = comp_Try b st"
| "comp_step OpConfirm st = comp_Confirm st"
| "comp_step OpCancel st = comp_Cancel st"

definition comp_run :: "comp_op list \<Rightarrow> comp_store \<Rightarrow> comp_store" where
  "comp_run ops st = fold (\<lambda>o' st. snd (comp_step o' st)) ops st"

definition comp_fresh :: comp_store where
  "comp_fresh = \<lparr>tx_key = None, tx_detail = None, data_key = []\<rparr>"

text \<open>Without a status there is no data; tried data is frozen, confirmed data successful, cancelled data gone.\<close>

definition comp_ok :: "comp_store \<Rightarrow> bool" where
  "comp_ok st = (case tx_key st of
     None \<Rightarrow> data_key st = [] \<and> tx_detail st = None
   | Some k \<Rightarrow> (\<exists>b. tx_detail st = Some b \<and>
       data_key st = (case k of TXTried \<Rightarrow> [(b, DataFrozen)] | TXConfirmed \<Rightarrow> [(b, DataSuccessful)] | TXCanceled \<Rightarrow> [])))"

lemma comp_ok_step: "comp_ok st \<Longrightarrow> comp_ok (snd (comp_step o' st))"
  by (cases o'; cases "tx_key st" rule: option.exhaust; cases "the (tx_key st)")
    (auto simp: comp_ok_def comp_Try_def comp_Confirm_def comp_Cancel_def gm_set_def gm_del_def)

lemma comp_ok_run: "comp_ok st \<Longrightarrow> comp_ok (comp_run ops st)"
  unfolding comp_run_def by (induction ops arbitrary: st) (auto simp: comp_ok_step)

lemma comp_final:
  "tx_key st = Some TXConfirmed \<Longrightarrow> comp_ok st \<Longrightarrow> snd (comp_step o' st) = st"
  "tx_key st = Some TXCanceled \<Longrightarrow> comp_ok st \<Longrightarrow> snd (comp_step o' st) = st"
  by (cases o'; auto simp: comp_ok_def comp_Try_def comp_Confirm_def comp_Cancel_def gm_del_def)+

lemma comp_run_final: "tx_key st = Some k \<Longrightarrow> k \<noteq> TXTried \<Longrightarrow> comp_ok st \<Longrightarrow> comp_run ops st = st"
  unfolding comp_run_def using comp_final by (induction ops) (cases k; auto)+

text \<open>
  On the side of a component a transaction ends once: after any calls in any order, the data is frozen while tried, successful once
  confirmed and gone once cancelled, and no later call, a late try among them, changes a confirmed or cancelled transaction.
\<close>

theorem component_ends_once:
  assumes "tx_key (comp_run ops comp_fresh) = Some k" and "k \<noteq> TXTried"
  shows "comp_run (ops @ later) comp_fresh = comp_run ops comp_fresh
    \<and> (\<exists>b. tx_detail (comp_run ops comp_fresh) = Some b \<and> data_key (comp_run ops comp_fresh) = (if k = TXConfirmed then [(b, DataSuccessful)] else []))"
proof -
  have ok: "comp_ok (comp_run ops comp_fresh)" by (rule comp_ok_run) (simp add: comp_ok_def comp_fresh_def)
  have "comp_run (ops @ later) comp_fresh = comp_run later (comp_run ops comp_fresh)" by (simp add: comp_run_def)
  then show ?thesis using comp_run_final [OF assms ok] ok assms by (cases k) (auto simp: comp_ok_def)
qed

theorem component_ends_once_witness:
  "comp_run ([OpTry ''b'', OpCancel] @ [OpTry ''b'', OpConfirm]) comp_fresh = comp_run [OpTry ''b'', OpCancel] comp_fresh"
proof -
  have k: "tx_key (comp_run [OpTry ''b'', OpCancel] comp_fresh) = Some TXCanceled" by code_simp
  show ?thesis using component_ends_once [OF k] by blast
qed

text \<open>
  A component that never saw the try cannot be cancelled: the business id is not there, so \<open>Cancel\<close> fails each time, a later try freezes data,
  and the transaction is never submitted.
\<close>

lemma cancel_without_try_fails:
  "comp_Cancel comp_fresh = (Inl NilReply, comp_fresh)
   \<and> data_key (comp_run [OpCancel, OpTry ''b''] comp_fresh) = [(''b'', DataFrozen)]"
  by code_simp

section \<open>The example log\<close>

text \<open>\<open>MockTXStore.TXSubmit\<close> on the record of a transaction: a submitted status is not replaced by the other.\<close>

definition store_TXSubmit :: "bool \<Rightarrow> Transaction \<Rightarrow> unit + Transaction" where
  "store_TXSubmit success tx =
     (if success then (if Status tx = TXFailure then Inl () else Inr (tx\<lparr>Status := TXSuccessful\<rparr>))
      else (if Status tx = TXSuccessful then Inl () else Inr (tx\<lparr>Status := TXFailure\<rparr>)))"

lemma store_TXSubmit_once:
  assumes "store_TXSubmit success tx = Inr tx'"
  shows "tx' = TXSubmit success tx" and "store_TXSubmit (\<not> success) tx' = Inl ()"
  using assms by (auto simp: store_TXSubmit_def TXSubmit_def split: if_splits)

end
