(* ===== verification/Cache_Aside.thy ===== *)
theory Cache_Aside
  imports Prelude
begin

text \<open>
  The cache-aside service (\<open>src/apps/consistent_cache\<close>): a cache and a database, for one key. The cache commands are those of
  \<open>redis/cache.go\<close> on the keys they use; a database call is one atomic read or write. Puts and gets run concurrently; times are
  milliseconds.
\<close>

section \<open>The cache\<close>

text \<open>The value with its time of expiry, and the time of expiry of the disable marker.\<close>

record cc_cache =
  entry :: "(string \<times> int) option"
  marker :: "int option"

record cc_opts =
  cacheExpireSeconds :: int
  disableExpireSeconds :: int
  enableDelayMillis :: int

definition cc_repair :: "cc_opts \<Rightarrow> cc_opts" where
  "cc_repair opts = \<lparr>cacheExpireSeconds = (if cacheExpireSeconds opts \<le> 0 then 60 else cacheExpireSeconds opts),
     disableExpireSeconds = (if disableExpireSeconds opts \<le> 0 then 10 else disableExpireSeconds opts),
     enableDelayMillis = (if enableDelayMillis opts \<le> 0 then 1000 else enableDelayMillis opts)\<rparr>"

definition marked :: "int \<Rightarrow> cc_cache \<Rightarrow> bool" where
  "marked now c = (case marker c of None \<Rightarrow> False | Some m \<Rightarrow> now < m)"

definition Enable :: "int \<Rightarrow> int \<Rightarrow> cc_cache \<Rightarrow> cc_cache" where
  "Enable now delayMillis c = (if marked now c then c\<lparr>marker := Some (now + delayMillis)\<rparr> else c)"

definition Disable :: "int \<Rightarrow> int \<Rightarrow> cc_cache \<Rightarrow> cc_cache" where
  "Disable now expireSeconds c = c\<lparr>marker := Some (now + 1000 * expireSeconds)\<rparr>"

definition cc_Get :: "int \<Rightarrow> cc_cache \<Rightarrow> string option" where
  "cc_Get now c = (case entry c of None \<Rightarrow> None | Some (v, e) \<Rightarrow> if now < e then Some v else None)"

definition cc_Del :: "cc_cache \<Rightarrow> cc_cache" where
  "cc_Del c = c\<lparr>entry := None\<rparr>"

definition PutWhenEnable :: "int \<Rightarrow> string \<Rightarrow> int \<Rightarrow> cc_cache \<Rightarrow> bool \<times> cc_cache" where
  "PutWhenEnable now v expireSeconds c = (if marked now c then (False, c) else (True, c\<lparr>entry := Some (v, now + 1000 * expireSeconds)\<rparr>))"

section \<open>Puts and gets\<close>

definition NullData :: string where
  "NullData = ''Err_Syntax_Null_Data''"

text \<open>What \<open>Get\<close> answers on a hit, and what it writes to the cache after a read of the database; no value is a missing record.\<close>

definition hit_answer :: "string \<Rightarrow> string option" where
  "hit_answer v = (if v = NullData then None else Some v)"

definition backfill :: "string option \<Rightarrow> string" where
  "backfill r = (case r of None \<Rightarrow> NullData | Some v \<Rightarrow> v)"

text \<open>A put has disabled the backfill at some time, then deleted the entry; a get has read a record at some time.\<close>

datatype writer = Disabled int string | Deleted int string | Enabling

datatype reader = Missed | Loaded "string option" int

record cc_world =
  now :: int
  store :: cc_cache
  database :: "string option"
  writers :: "writer list"
  readers :: "reader list"
  answers :: "(string option \<times> string option) list"

text \<open>
  The steps of \<open>Service.Put\<close> and \<open>Service.Get\<close>. \<open>slow d t\<close> says whether a put that disabled the backfill at \<open>d\<close> may write the database at
  \<open>t\<close>, and \<open>late r t\<close> whether a get that read the database at \<open>r\<close> may reach the cache at \<open>t\<close>. Answers from the cache are recorded
  with the record of the database at that time.
\<close>

inductive cc_step :: "cc_opts \<Rightarrow> (int \<Rightarrow> int \<Rightarrow> bool) \<Rightarrow> (int \<Rightarrow> int \<Rightarrow> bool) \<Rightarrow> cc_world \<Rightarrow> cc_world \<Rightarrow> bool" for opts slow late where
  time: "now w \<le> t \<Longrightarrow> cc_step opts slow late w (w\<lparr>now := t\<rparr>)"
| put_disable: "cc_step opts slow late w (w\<lparr>store := Disable (now w) (disableExpireSeconds opts) (store w), writers := writers w @ [Disabled (now w) v]\<rparr>)"
| put_del: "writers w = ws @ Disabled d v # ws' \<Longrightarrow> cc_step opts slow late w (w\<lparr>store := cc_Del (store w), writers := ws @ Deleted d v # ws'\<rparr>)"
| put_del_fails: "writers w = ws @ Disabled d v # ws' \<Longrightarrow> cc_step opts slow late w (w\<lparr>writers := ws @ Enabling # ws'\<rparr>)"
| put_db: "writers w = ws @ Deleted d v # ws' \<Longrightarrow> slow d (now w) \<Longrightarrow> cc_step opts slow late w (w\<lparr>database := Some v, writers := ws @ Enabling # ws'\<rparr>)"
| put_db_fails: "writers w = ws @ Deleted d v # ws' \<Longrightarrow> cc_step opts slow late w (w\<lparr>writers := ws @ Enabling # ws'\<rparr>)"
| put_enable: "writers w = ws @ Enabling # ws' \<Longrightarrow> cc_step opts slow late w (w\<lparr>store := Enable (now w) (enableDelayMillis opts) (store w), writers := ws @ ws'\<rparr>)"
| put_enable_fails: "writers w = ws @ Enabling # ws' \<Longrightarrow> cc_step opts slow late w (w\<lparr>writers := ws @ ws'\<rparr>)"
| get_hit: "cc_Get (now w) (store w) = Some v \<Longrightarrow> cc_step opts slow late w (w\<lparr>answers := answers w @ [(hit_answer v, database w)]\<rparr>)"
| get_miss: "cc_Get (now w) (store w) = None \<Longrightarrow> cc_step opts slow late w (w\<lparr>readers := readers w @ [Missed]\<rparr>)"
| get_db: "readers w = rs @ Missed # rs' \<Longrightarrow> cc_step opts slow late w (w\<lparr>readers := rs @ Loaded (database w) (now w) # rs'\<rparr>)"
| get_fails: "readers w = rs @ r # rs' \<Longrightarrow> cc_step opts slow late w (w\<lparr>readers := rs @ rs'\<rparr>)"
| get_fill: "readers w = rs @ Loaded r t # rs' \<Longrightarrow> late t (now w) \<Longrightarrow> cacheExpireSeconds opts \<le> ttl
    \<Longrightarrow> cc_step opts slow late w (w\<lparr>store := snd (PutWhenEnable (now w) (backfill r) ttl (store w)), readers := rs @ rs'\<rparr>)"

abbreviation cc_reach :: "cc_opts \<Rightarrow> (int \<Rightarrow> int \<Rightarrow> bool) \<Rightarrow> (int \<Rightarrow> int \<Rightarrow> bool) \<Rightarrow> cc_world \<Rightarrow> cc_world \<Rightarrow> bool" where
  "cc_reach opts slow late \<equiv> (cc_step opts slow late)\<^sup>*\<^sup>*"

lemmas cc_start = rtranclp.rtrancl_refl [where r = "cc_step opts slow late" for opts slow late]

lemmas cc_more = rtranclp.rtrancl_into_rtrancl [where r = "cc_step opts slow late" for opts slow late]

definition cc_begin :: "string option \<Rightarrow> cc_world" where
  "cc_begin d = \<lparr>now = 0, store = \<lparr>entry = None, marker = None\<rparr>, database = d, writers = [], readers = [], answers = []\<rparr>"

section \<open>Freshness\<close>

text \<open>The marker stands until a time.\<close>

definition until :: "cc_world \<Rightarrow> int \<Rightarrow> bool" where
  "until w t = (case marker (store w) of None \<Rightarrow> False | Some m \<Rightarrow> t \<le> m)"

definition writer_ok :: "cc_opts \<Rightarrow> cc_world \<Rightarrow> writer \<Rightarrow> bool" where
  "writer_ok opts w x = (case x of
     Disabled d v \<Rightarrow> d \<le> now w \<and> until w (d + enableDelayMillis opts)
   | Deleted d v \<Rightarrow> d \<le> now w \<and> until w (d + enableDelayMillis opts) \<and> (now w < d + enableDelayMillis opts \<longrightarrow> entry (store w) = None)
   | Enabling \<Rightarrow> True)"

definition reader_ok :: "int \<Rightarrow> cc_world \<Rightarrow> reader \<Rightarrow> bool" where
  "reader_ok R w x = (case x of Missed \<Rightarrow> True | Loaded r t \<Rightarrow> t \<le> now w \<and> (r = database w \<or> until w (t + R)))"

definition fresh :: "cc_world \<Rightarrow> bool" where
  "fresh w \<longleftrightarrow> (\<forall>v e. entry (store w) = Some (v, e) \<longrightarrow> v = backfill (database w))"

definition cc_ok :: "cc_opts \<Rightarrow> int \<Rightarrow> cc_world \<Rightarrow> bool" where
  "cc_ok opts R w \<longleftrightarrow> fresh w \<and> (\<forall>x \<in> set (writers w). writer_ok opts w x) \<and> (\<forall>x \<in> set (readers w). reader_ok R w x)"

text \<open>The marker is only moved to times that are late enough.\<close>

lemma until_ops:
  assumes "until w t" and "t \<le> now w + enableDelayMillis opts" and "enableDelayMillis opts \<le> 1000 * disableExpireSeconds opts"
  shows "until (w\<lparr>store := Enable (now w) (enableDelayMillis opts) (store w), writers := ws\<rparr>) t"
    and "until (w\<lparr>store := Disable (now w) (disableExpireSeconds opts) (store w), writers := ws\<rparr>) t"
  using assms by (auto simp: until_def Enable_def Disable_def split: option.splits)

lemma until_marked: "until w t \<Longrightarrow> now w < t \<Longrightarrow> marked (now w) (store w)"
  by (auto simp: until_def marked_def split: option.splits)

lemma ok_kept:
  assumes "now w' = now w" and "entry (store w') = entry (store w)" and "\<And>t. until w t \<Longrightarrow> t \<le> now w + enableDelayMillis opts \<Longrightarrow> until w' t"
  shows "writer_ok opts w x \<Longrightarrow> writer_ok opts w' x"
    and "database w' = database w \<Longrightarrow> R \<le> enableDelayMillis opts \<Longrightarrow> reader_ok R w y \<Longrightarrow> reader_ok R w' y"
proof -
  show "writer_ok opts w x \<Longrightarrow> writer_ok opts w' x" using assms by (cases x) (auto simp: writer_ok_def)
  show "database w' = database w \<Longrightarrow> R \<le> enableDelayMillis opts \<Longrightarrow> reader_ok R w y \<Longrightarrow> reader_ok R w' y" using assms by (cases y) (auto simp: reader_ok_def)
qed

lemma ok_updates [simp]:
  "writer_ok opts (w\<lparr>writers := ws\<rparr>) = writer_ok opts w" "writer_ok opts (w\<lparr>readers := rs\<rparr>) = writer_ok opts w" "writer_ok opts (w\<lparr>answers := as\<rparr>) = writer_ok opts w"
  "reader_ok R (w\<lparr>writers := ws\<rparr>) = reader_ok R w" "reader_ok R (w\<lparr>readers := rs\<rparr>) = reader_ok R w" "reader_ok R (w\<lparr>answers := as\<rparr>) = reader_ok R w"
  by (simp_all add: writer_ok_def reader_ok_def until_def fun_eq_iff split: writer.splits reader.splits)

lemma ok_new [simp]: "writer_ok opts w Enabling" "reader_ok R w Missed" "reader_ok R w (Loaded (database w) (now w))"
  by (simp_all add: writer_ok_def reader_ok_def)

lemma fresh_kept: "entry (store w') = entry (store w) \<Longrightarrow> database w' = database w \<Longrightarrow> fresh w \<Longrightarrow> fresh w'"
  by (simp add: fresh_def)

lemma marker_kept: "marker (store w') = marker (store w) \<Longrightarrow> until w' t = until w t"
  by (simp add: until_def)

lemma cc_ok_step:
  assumes step: "cc_step opts (\<lambda>d t. t + R \<le> d + enableDelayMillis opts) (\<lambda>r t. t < r + R) w w'"
    and R: "0 < R" "R \<le> enableDelayMillis opts" and ttl: "enableDelayMillis opts \<le> 1000 * disableExpireSeconds opts" and ok: "cc_ok opts R w"
  shows "cc_ok opts R w'"
  using step
proof cases
  case (put_disable v)
  have m: "until w' t" if "until w t" "t \<le> now w + enableDelayMillis opts" for t using until_ops(2) [OF that ttl] put_disable by simp
  have e: "now w' = now w" "entry (store w') = entry (store w)" "database w' = database w" using put_disable by (simp_all add: Disable_def)
  have "writer_ok opts w' (Disabled (now w) v)" using put_disable ttl by (simp add: writer_ok_def until_def Disable_def)
  then show ?thesis using ok ok_kept [OF e(1,2) m] R(2) fresh_kept [OF e(2,3)] e(3) put_disable by (auto simp: cc_ok_def)
next
  case (put_enable ws ws')
  have m: "until w' t" if "until w t" "t \<le> now w + enableDelayMillis opts" for t using until_ops(1) [OF that ttl] put_enable by simp
  have e: "now w' = now w" "entry (store w') = entry (store w)" "database w' = database w" using put_enable by (simp_all add: Enable_def)
  show ?thesis using ok ok_kept [OF e(1,2) m] R(2) fresh_kept [OF e(2,3)] e(3) put_enable by (auto simp: cc_ok_def)
next
  case (put_db ws d v ws')
  have d: "until w (d + enableDelayMillis opts)" "entry (store w) = None" using ok put_db R(1) by (auto simp: cc_ok_def writer_ok_def)
  have u: "until w' t = until w t" for t using put_db by (intro marker_kept) simp
  have f: "until w' (t + R)" if "t \<le> now w" for t unfolding u using d(1) put_db(3) that by (auto simp: until_def split: option.splits)
  have n: "now w' = now w" using put_db by simp
  have rd: "reader_ok R w' y" if "reader_ok R w y" for y using that f n by (cases y) (auto simp: reader_ok_def)
  have en: "entry (store w') = entry (store w)" using put_db by simp
  have "writer_ok opts w' x" if "writer_ok opts w x" for x by (rule ok_kept(1) [OF n en _ that]) (simp add: u)
  moreover note rd
  moreover have "fresh w'" using put_db d(2) by (simp add: fresh_def)
  moreover have "writer_ok opts w' Enabling" by (simp add: writer_ok_def)
  ultimately show ?thesis using ok put_db by (auto simp: cc_ok_def)
next
  case (get_fill rs r t rs' ttl')
  have r: "r = database w \<or> until w (t + R)" using ok get_fill by (auto simp: cc_ok_def reader_ok_def)
  have u: "until w' x = until w x" for x using get_fill by (intro marker_kept) (simp add: PutWhenEnable_def)
  have e: "now w' = now w" "database w' = database w" using get_fill by simp_all
  have rd: "reader_ok R w' y" if "reader_ok R w y" for y using that e u by (cases y) (auto simp: reader_ok_def)
  show ?thesis
  proof (cases "marked (now w) (store w)")
    case True
    then have s: "store w' = store w" using get_fill by (simp add: PutWhenEnable_def)
    have "writer_ok opts w' x" if "writer_ok opts w x" for x using that e u s by (cases x) (auto simp: writer_ok_def)
    then show ?thesis using ok get_fill rd s e(2) by (auto simp: cc_ok_def fresh_def)
  next
    case False
    then have "r = database w" using r until_marked [of w "t + R"] get_fill(3) by auto
    then have "fresh w'" using False get_fill by (simp add: fresh_def PutWhenEnable_def)
    moreover have "writer_ok opts w' x" if "writer_ok opts w x" for x
      using that e u False until_marked [of w] by (cases x) (auto simp: writer_ok_def)
    ultimately show ?thesis using ok get_fill rd by (auto simp: cc_ok_def)
  qed
next
  case (time t)
  have u: "until w' x = until w x" for x using time by (intro marker_kept) simp
  have "writer_ok opts w' x" if "writer_ok opts w x" for x using that time u by (cases x) (auto simp: writer_ok_def)
  moreover have "reader_ok R w' y" if "reader_ok R w y" for y using that time u by (cases y) (auto simp: reader_ok_def)
  ultimately show ?thesis using ok time by (auto simp: cc_ok_def fresh_def)
next
  case (put_del ws d v ws')
  have u: "until w' x = until w x" for x using put_del by (intro marker_kept) (simp add: cc_Del_def)
  have e: "now w' = now w" "database w' = database w" "entry (store w') = None" using put_del by (simp_all add: cc_Del_def)
  have wr: "writer_ok opts w' x" if "writer_ok opts w x" for x using that e u by (cases x) (simp_all add: writer_ok_def)
  have rd: "reader_ok R w' y" if "reader_ok R w y" for y using that e u by (cases y) (auto simp: reader_ok_def)
  have "writer_ok opts w (Disabled d v)" using ok put_del(2) by (simp add: cc_ok_def)
  then have "writer_ok opts w' (Deleted d v)" using e u by (simp add: writer_ok_def)
  then show ?thesis using ok put_del(2) e(3) wr rd by (simp add: cc_ok_def fresh_def) (simp add: put_del(1))
qed (use ok in \<open>auto simp: cc_ok_def fresh_def\<close>)


lemma cc_ok_reach:
  assumes "cc_reach opts (\<lambda>d t. t + R \<le> d + enableDelayMillis opts) (\<lambda>r t. t < r + R) w0 w"
    and "0 < R" "R \<le> enableDelayMillis opts" "enableDelayMillis opts \<le> 1000 * disableExpireSeconds opts" "cc_ok opts R w0"
  shows "cc_ok opts R w"
  by (rule steps_invariant [where P = "cc_ok opts R", OF assms(1) _ assms(5)]) (rule cc_ok_step [OF _ assms(2-4)])

text \<open>
  C30. The cache is never stale: in every interleaving of puts and gets, with any number of each and with commands that fail, an entry of the cache is
  what a read of the database would write there now, so that a hit answers with the current record. This holds when a get takes less
  than \<open>R\<close> from the database to the cache, a put writes the database at least \<open>R\<close> before the re-enabling delay after its \<open>Disable\<close> has
  passed, and the marker of \<open>Disable\<close> outlives that delay.
\<close>

theorem cache_never_stale:
  assumes "cc_reach opts (\<lambda>d t. t + R \<le> d + enableDelayMillis opts) (\<lambda>r t. t < r + R) (cc_begin d) w"
    and "0 < R" and "R \<le> enableDelayMillis opts" and "enableDelayMillis opts \<le> 1000 * disableExpireSeconds opts"
    and "cc_Get (now w) (store w) = Some v" and "database w \<noteq> Some NullData"
  shows "v = backfill (database w) \<and> hit_answer v = database w"
proof -
  have "cc_ok opts R w" by (rule cc_ok_reach [OF assms(1-4)]) (simp add: cc_ok_def cc_begin_def fresh_def)
  then have "v = backfill (database w)" using assms(5) by (auto simp: cc_ok_def fresh_def cc_Get_def split: option.splits if_splits)
  then show ?thesis using assms(6) by (auto simp: hit_answer_def backfill_def split: option.splits)
qed

definition ex_cc_opts :: cc_opts where
  "ex_cc_opts = cc_repair \<lparr>cacheExpireSeconds = 0, disableExpireSeconds = 0, enableDelayMillis = 0\<rparr>"

definition ex_filled :: cc_world where
  "ex_filled = (cc_begin (Some ''x''))\<lparr>store := \<lparr>entry = Some (''x'', 60000), marker = None\<rparr>\<rparr>"

lemma ex_fills: "cc_reach ex_cc_opts slow (\<lambda>r t. t < r + 100) (cc_begin (Some ''x'')) ex_filled"
proof -
  let ?s = "cc_step ex_cc_opts slow (\<lambda>r t. t < r + 100)" and ?b = "cc_begin (Some ''x'')"
  let ?m = "?b\<lparr>readers := readers ?b @ [Missed]\<rparr>"
  let ?l = "?m\<lparr>readers := [] @ Loaded (database ?m) (now ?m) # []\<rparr>"
  let ?f = "?l\<lparr>store := snd (PutWhenEnable (now ?l) (backfill (database ?m)) 60 (store ?l)), readers := [] @ []\<rparr>"
  have m: "?s ?b ?m" by (rule cc_step.get_miss) (simp add: cc_begin_def cc_Get_def)
  have l: "?s ?m ?l" by (rule cc_step.get_db) (simp add: cc_begin_def)
  have f: "?s ?l ?f" by (rule cc_step.get_fill [where t = 0]) (simp_all add: ex_cc_opts_def cc_repair_def cc_begin_def)
  have e: "?f = ex_filled" by (simp add: ex_filled_def cc_begin_def PutWhenEnable_def marked_def backfill_def)
  show ?thesis using cc_more [OF cc_more [OF cc_more [OF cc_start m] l] f] unfolding e .
qed

theorem cache_never_stale_witness: "hit_answer ''x'' = database ex_filled"
  using cache_never_stale [OF ex_fills, of "''x''"] by (simp add: ex_cc_opts_def cc_repair_def ex_filled_def cc_begin_def cc_Get_def NullData_def)

text \<open>
  With two puts in progress the \<open>Enable\<close> of the first shortens the marker of the second: a get in between caches the record that the second then
  replaces, although the second put is well within the time its marker was set for.
\<close>

definition cw :: "int \<Rightarrow> (string \<times> int) option \<Rightarrow> int option \<Rightarrow> string \<Rightarrow> writer list \<Rightarrow> reader list \<Rightarrow> cc_world" where
  "cw t e m d ws rs = \<lparr>now = t, store = \<lparr>entry = e, marker = m\<rparr>, database = Some d, writers = ws, readers = rs, answers = []\<rparr>"

lemma overlapping_puts_go_stale:
  "\<exists>w. cc_reach ex_cc_opts (\<lambda>d t. t + 100 \<le> d + 1000 * disableExpireSeconds ex_cc_opts) (\<lambda>r t. t < r + 100) (cc_begin (Some ''x'')) w
     \<and> cc_Get (now w) (store w) = Some ''y'' \<and> database w = Some ''z''"
proof -
  define slow :: "int \<Rightarrow> int \<Rightarrow> bool" where "slow d t \<longleftrightarrow> t + 100 \<le> d + 1000 * disableExpireSeconds ex_cc_opts" for d t
  define late :: "int \<Rightarrow> int \<Rightarrow> bool" where "late r t \<longleftrightarrow> t < r + 100" for r t
  let ?s = "cc_step ex_cc_opts slow late"
  note o = ex_cc_opts_def cc_repair_def slow_def late_def
  have 0: "cc_begin (Some ''x'') = cw 0 None None ''x'' [] []" by (simp add: cc_begin_def cw_def)
  have 1: "?s (cw 0 None None ''x'' [] []) (cw 0 None (Some 10000) ''x'' [Disabled 0 ''y''] [])"
    using cc_step.put_disable [of ex_cc_opts slow late "cw 0 None None ''x'' [] []" "''y''"] by (simp add: cw_def o Disable_def)
  have 2: "?s (cw 0 None (Some 10000) ''x'' [Disabled 0 ''y''] []) (cw 0 None (Some 10000) ''x'' [Deleted 0 ''y''] [])"
    using cc_step.put_del [of "cw 0 None (Some 10000) ''x'' [Disabled 0 ''y''] []" "[]" 0 "''y''" "[]" ex_cc_opts slow late] by (simp add: cw_def cc_Del_def)
  have 3: "?s (cw 0 None (Some 10000) ''x'' [Deleted 0 ''y''] []) (cw 0 None (Some 10000) ''y'' [Enabling] [])"
    using cc_step.put_db [of "cw 0 None (Some 10000) ''x'' [Deleted 0 ''y''] []" "[]" 0 "''y''" "[]" slow ex_cc_opts late] by (simp add: cw_def o)
  have 4: "?s (cw 0 None (Some 10000) ''y'' [Enabling] []) (cw 0 None (Some 10000) ''y'' [Enabling, Disabled 0 ''z''] [])"
    using cc_step.put_disable [of ex_cc_opts slow late "cw 0 None (Some 10000) ''y'' [Enabling] []" "''z''"] by (simp add: cw_def o Disable_def)
  have 5: "?s (cw 0 None (Some 10000) ''y'' [Enabling, Disabled 0 ''z''] []) (cw 0 None (Some 10000) ''y'' [Enabling, Deleted 0 ''z''] [])"
    using cc_step.put_del [of "cw 0 None (Some 10000) ''y'' [Enabling, Disabled 0 ''z''] []" "[Enabling]" 0 "''z''" "[]" ex_cc_opts slow late] by (simp add: cw_def cc_Del_def)
  have 6: "?s (cw 0 None (Some 10000) ''y'' [Enabling, Deleted 0 ''z''] []) (cw 0 None (Some 1000) ''y'' [Deleted 0 ''z''] [])"
    using cc_step.put_enable [of "cw 0 None (Some 10000) ''y'' [Enabling, Deleted 0 ''z''] []" "[]" "[Deleted 0 ''z'']" ex_cc_opts slow late] by (simp add: cw_def o Enable_def marked_def)
  have 7: "?s (cw 0 None (Some 1000) ''y'' [Deleted 0 ''z''] []) (cw 1000 None (Some 1000) ''y'' [Deleted 0 ''z''] [])"
    using cc_step.time [of "cw 0 None (Some 1000) ''y'' [Deleted 0 ''z''] []" 1000 ex_cc_opts slow late] by (simp add: cw_def)
  have 8: "?s (cw 1000 None (Some 1000) ''y'' [Deleted 0 ''z''] []) (cw 1000 None (Some 1000) ''y'' [Deleted 0 ''z''] [Missed])"
    using cc_step.get_miss [of "cw 1000 None (Some 1000) ''y'' [Deleted 0 ''z''] []" ex_cc_opts slow late] by (simp add: cw_def cc_Get_def)
  have 9: "?s (cw 1000 None (Some 1000) ''y'' [Deleted 0 ''z''] [Missed]) (cw 1000 None (Some 1000) ''y'' [Deleted 0 ''z''] [Loaded (Some ''y'') 1000])"
    using cc_step.get_db [of "cw 1000 None (Some 1000) ''y'' [Deleted 0 ''z''] [Missed]" "[]" "[]" ex_cc_opts slow late] by (simp add: cw_def)
  have 10: "?s (cw 1000 None (Some 1000) ''y'' [Deleted 0 ''z''] [Loaded (Some ''y'') 1000]) (cw 1000 (Some (''y'', 61000)) (Some 1000) ''y'' [Deleted 0 ''z''] [])"
    using cc_step.get_fill [of "cw 1000 None (Some 1000) ''y'' [Deleted 0 ''z''] [Loaded (Some ''y'') 1000]" "[]" "Some ''y''" 1000 "[]" late ex_cc_opts 60 slow]
    by (simp add: cw_def o PutWhenEnable_def marked_def backfill_def)
  have 11: "?s (cw 1000 (Some (''y'', 61000)) (Some 1000) ''y'' [Deleted 0 ''z''] []) (cw 1000 (Some (''y'', 61000)) (Some 1000) ''z'' [Enabling] [])"
    using cc_step.put_db [of "cw 1000 (Some (''y'', 61000)) (Some 1000) ''y'' [Deleted 0 ''z''] []" "[]" 0 "''z''" "[]" slow ex_cc_opts late] by (simp add: cw_def o)
  note r = cc_start [of ex_cc_opts slow late "cw 0 None None ''x'' [] []"]
  have "cc_reach ex_cc_opts slow late (cw 0 None None ''x'' [] []) (cw 1000 (Some (''y'', 61000)) (Some 1000) ''z'' [Enabling] [])"
    by (rule r [THEN cc_more, OF 1, THEN cc_more, OF 2, THEN cc_more, OF 3, THEN cc_more, OF 4, THEN cc_more, OF 5, THEN cc_more, OF 6,
          THEN cc_more, OF 7, THEN cc_more, OF 8, THEN cc_more, OF 9, THEN cc_more, OF 10, THEN cc_more, OF 11])
  moreover have "slow = (\<lambda>d t. t + 100 \<le> d + 1000 * disableExpireSeconds ex_cc_opts)" "late = (\<lambda>r t. t < r + 100)" by (simp_all add: slow_def late_def fun_eq_iff)
  ultimately show ?thesis unfolding 0 by (intro exI [of _ "cw 1000 (Some (''y'', 61000)) (Some 1000) ''z'' [Enabling] []"]) (simp add: cw_def cc_Get_def)
qed

end
