(* ===== verification/Redis_Lock.thy ===== *)
theory Redis_Lock
  imports Prelude
begin

text \<open>
  The Redis locks (\<open>src/apps/redis_lock\<close>): the lock of one node with its scripts (\<open>redis.go\<close>, \<open>lua.go\<close>, \<open>lock.go\<close>) and the lock on a
  majority of nodes (\<open>red_lock.go\<close>). A node keeps the token of the lock key with its time of expiry, in milliseconds; a command may
  fail to reach its node.
\<close>

section \<open>One node\<close>

type_synonym lnode = "(string \<times> int) option"

definition held :: "int \<Rightarrow> lnode \<Rightarrow> string option" where
  "held t n = (case n of None \<Rightarrow> None | Some (token, e) \<Rightarrow> if t < e then Some token else None)"

datatype lock_err = EmptyToken | BadExpire | Unreachable | AcquiredByOthers | LockLost | NotOwner | CtxDone | TooFewNodes | TooLong | LockFailed

definition SetNEX :: "int \<Rightarrow> string \<Rightarrow> int \<Rightarrow> lnode \<Rightarrow> (lock_err + int) \<times> lnode" where
  "SetNEX t token expireSeconds n =
     (if token = [] then (Inl EmptyToken, n)
      else if expireSeconds \<le> 0 then (Inl BadExpire, n)
      else if held t n = None then (Inr 1, Some (token, t + 1000 * expireSeconds))
      else (Inr 0, n))"

definition LuaCheckAndDelete :: "int \<Rightarrow> string \<Rightarrow> lnode \<Rightarrow> int \<times> lnode" where
  "LuaCheckAndDelete t token n = (if held t n = Some token then (1, None) else (0, n))"

definition LuaCheckAndExpire :: "int \<Rightarrow> string \<Rightarrow> int \<Rightarrow> lnode \<Rightarrow> int \<times> lnode" where
  "LuaCheckAndExpire t token duration n = (if held t n = Some token then (1, Some (token, t + 1000 * duration)) else (0, n))"

record LockOptions =
  isBlock :: bool
  blockWaitingSeconds :: int
  expireSeconds :: int
  watchDogMode :: bool

definition repairLock :: "LockOptions \<Rightarrow> LockOptions" where
  "repairLock opts =
     (let opts = (if isBlock opts \<and> blockWaitingSeconds opts \<le> 0 then opts\<lparr>blockWaitingSeconds := 5\<rparr> else opts)
      in if expireSeconds opts > 0 then opts else opts\<lparr>expireSeconds := 30, watchDogMode := True\<rparr>)"

text \<open>\<open>up\<close> says whether the command reaches the node.\<close>

definition tryLock :: "LockOptions \<Rightarrow> string \<Rightarrow> int \<Rightarrow> bool \<Rightarrow> lnode \<Rightarrow> lock_err option \<times> lnode" where
  "tryLock opts token t up n =
     (if \<not> up then (Some Unreachable, n)
      else case SetNEX t token (expireSeconds opts) n of
        (Inl e, n) \<Rightarrow> (Some e, n)
      | (Inr reply, n) \<Rightarrow> (if reply \<noteq> 1 then Some AcquiredByOthers else None, n))"

definition IsRetryableErr :: "lock_err \<Rightarrow> bool" where
  "IsRetryableErr e \<longleftrightarrow> e = AcquiredByOthers"

text \<open>
  The rounds of \<open>blockingLock\<close>: the time of the tick, whether the context is done or the waiting time is over, whether the node is
  reached, and what others have made of the node since. \<open>None\<close> is a list of rounds that is too short.
\<close>

datatype waiting = Go | Done | TimedOut

fun blockingLock :: "LockOptions \<Rightarrow> string \<Rightarrow> (int \<times> waiting \<times> bool \<times> lnode) list \<Rightarrow> (lock_err option \<times> lnode) option" where
  "blockingLock opts token [] = None"
| "blockingLock opts token ((t, st, up, n) # rounds) =
     (if st = Done then Some (Some CtxDone, n)
      else if st = TimedOut then Some (Some AcquiredByOthers, n)
      else case tryLock opts token t up n of
        (None, n) \<Rightarrow> Some (None, n)
      | (Some e, n) \<Rightarrow> if \<not> IsRetryableErr e then Some (Some e, n) else blockingLock opts token rounds)"

definition Lock :: "LockOptions \<Rightarrow> string \<Rightarrow> int \<Rightarrow> bool \<Rightarrow> (int \<times> waiting \<times> bool \<times> lnode) list \<Rightarrow> lnode \<Rightarrow> (lock_err option \<times> lnode) option" where
  "Lock opts token t up rounds n = (case tryLock opts token t up n of
     (None, n) \<Rightarrow> Some (None, n)
   | (Some e, n) \<Rightarrow>
       if \<not> isBlock opts then Some (Some e, n)
       else if \<not> IsRetryableErr e then Some (Some e, n)
       else blockingLock opts token rounds)"

definition DelayExpire :: "string \<Rightarrow> int \<Rightarrow> int \<Rightarrow> bool \<Rightarrow> lnode \<Rightarrow> lock_err option \<times> lnode" where
  "DelayExpire token duration t up n =
     (if \<not> up then (Some Unreachable, n)
      else let (ret, n) = LuaCheckAndExpire t token duration n in (if ret \<noteq> 1 then Some LockLost else None, n))"

definition Unlock :: "string \<Rightarrow> int \<Rightarrow> bool \<Rightarrow> lnode \<Rightarrow> lock_err option \<times> lnode" where
  "Unlock token t up n =
     (if \<not> up then (Some Unreachable, n)
      else let (ret, n) = LuaCheckAndDelete t token n in (if ret \<noteq> 1 then Some NotOwner else None, n))"

text \<open>The watchdog at its ticks: it renews for fifteen seconds and stops when the lock is lost or its context is cancelled.\<close>

fun runWatchDog :: "string \<Rightarrow> (int \<times> bool \<times> bool) list \<Rightarrow> lnode \<Rightarrow> lnode" where
  "runWatchDog token [] n = n"
| "runWatchDog token ((t, cancelled, up) # ticks) n =
     (if cancelled then n
      else case DelayExpire token 15 t up n of
        (Some LockLost, n) \<Rightarrow> n
      | (_, n) \<Rightarrow> runWatchDog token ticks n)"

section \<open>A majority of nodes\<close>

text \<open>\<open>NewRedLock\<close> for so many nodes: durations in nanoseconds, and the whole seconds of the lock of each node.\<close>

definition NewRedLock :: "nat \<Rightarrow> int \<Rightarrow> int \<Rightarrow> lock_err + LockOptions list" where
  "NewRedLock nodes singleNodesTimeout expireDuration =
     (let timeout = (if singleNodesTimeout \<le> 0 then 50000000 else singleNodesTimeout)
      in if nodes < 3 then Inl TooFewNodes
         else if expireDuration > 0 \<and> wrap64 (wrap64 (int nodes * timeout) * 10) > expireDuration then Inl TooLong
         else Inr (replicate nodes (repairLock \<lparr>isBlock = False, blockWaitingSeconds = 0,
           expireSeconds = (if expireDuration < 0 then - (- expireDuration div 1000000000) else expireDuration div 1000000000), watchDogMode = False\<rparr>)))"

text \<open>
  \<open>RedLock.Lock\<close>: the visit of each node, the time it takes effect there, what it costs and whether the node is reached; when too few count, the
  nodes that count are unlocked, at the given times.
\<close>

definition red_visit :: "LockOptions \<Rightarrow> string \<Rightarrow> int \<Rightarrow> int \<times> int \<times> bool \<Rightarrow> lnode \<Rightarrow> bool \<times> lnode" where
  "red_visit opts token timeout v n = (case v of (t, cost, up) \<Rightarrow>
     (let (e, n) = tryLock opts token t up n in (e = None \<and> cost \<le> timeout, n)))"

definition red_release :: "string \<Rightarrow> int \<times> bool \<Rightarrow> bool \<times> lnode \<Rightarrow> lnode" where
  "red_release token u r = (case u of (t, up) \<Rightarrow> if fst r then snd (Unlock token t up (snd r)) else snd r)"

definition RedLock_Lock :: "LockOptions \<Rightarrow> string \<Rightarrow> int \<Rightarrow> (int \<times> int \<times> bool) list \<Rightarrow> (int \<times> bool) list \<Rightarrow> lnode list \<Rightarrow> lock_err option \<times> lnode list" where
  "RedLock_Lock opts token timeout visits unlocks nodes =
     (let rs = map2 (red_visit opts token timeout) visits nodes; successCnt = length (filter fst rs)
      in if successCnt < length nodes div 2 + 1 then (Some LockFailed, map2 (red_release token) unlocks rs)
         else (None, map snd rs))"

definition RedLock_Unlock :: "string \<Rightarrow> (int \<times> bool) list \<Rightarrow> lnode list \<Rightarrow> lock_err option \<times> lnode list" where
  "RedLock_Unlock token unlocks nodes =
     (let rs = map2 (\<lambda>(t, up) n. Unlock token t up n) unlocks nodes
      in (fold (\<lambda>r e. if fst r \<noteq> None \<and> e = None then fst r else e) rs None, map snd rs))"

section \<open>Exclusion\<close>

text \<open>A token that holds a node until a time keeps others out before that time.\<close>

definition holds_until :: "string \<Rightarrow> int \<Rightarrow> lnode \<Rightarrow> bool" where
  "holds_until token T n = (case n of None \<Rightarrow> False | Some (token', e) \<Rightarrow> token' = token \<and> T \<le> e)"

lemma tryLock_holds: "tryLock opts token t up n = (None, n') \<Longrightarrow> n' = Some (token, t + 1000 * expireSeconds opts)"
  by (auto simp: tryLock_def SetNEX_def split: if_splits)

lemma visit_counts:
  assumes "fst (red_visit opts token timeout (t, cost, up) n)" and "T \<le> t + 1000 * expireSeconds opts"
  shows "holds_until token T (snd (red_visit opts token timeout (t, cost, up) n))"
proof -
  obtain e n' where r: "tryLock opts token t up n = (e, n')" by fastforce
  then show ?thesis using assms tryLock_holds [of opts token t up n n'] by (auto simp: red_visit_def holds_until_def)
qed

lemma visit_kept_out:
  assumes "holds_until a T n" and "t < T" and "a \<noteq> b"
  shows "red_visit opts b timeout (t, cost, up) n = (False, n)"
  using assms by (auto simp: red_visit_def tryLock_def SetNEX_def held_def holds_until_def split: option.splits)

lemma counted_hold:
  assumes "\<forall>(t, cost, up) \<in> set vs. T \<le> t + 1000 * expireSeconds opts"
  shows "length (filter fst (map2 (red_visit opts a timeout) vs ns)) \<le> length (filter (holds_until a T) (map snd (map2 (red_visit opts a timeout) vs ns)))"
  using assms
proof (induction vs ns rule: list_induct2')
  case (4 v vs n ns)
  obtain t cost up where v: "v = (t, cost, up)" by (cases v)
  have "T \<le> t + 1000 * expireSeconds opts" using "4.prems" v by simp
  then show ?case using 4 v visit_counts [of opts a timeout t cost up n T] by auto
qed simp_all

lemma kept_out_count:
  assumes "\<forall>(t, cost, up) \<in> set vs. t < T" and "a \<noteq> b" and "length vs = length ns"
  shows "length (filter fst (map2 (red_visit opts b timeout) vs ns)) + length (filter (holds_until a T) ns) \<le> length ns"
  using assms(1,3)
proof (induction vs ns rule: list_induct2')
  case (4 v vs n ns)
  obtain t cost up where v: "v = (t, cost, up)" by (cases v)
  have "t < T" using "4.prems" v by simp
  then show ?case using 4 v visit_kept_out [of a T n t b opts timeout cost up] assms(2) by auto
qed simp_all

text \<open>
  C31. Two tokens never hold the lock together: once \<open>RedLock.Lock\<close> has succeeded for a token, a call for another token fails as long as its commands
  take effect before the first of the acquired nodes expires, whatever nodes either call reaches and however long they take.
\<close>

theorem redlock_excludes:
  assumes "RedLock_Lock opts a timeout va ua ns = (None, ns')" and "length va = length ns" and "length vb = length ns" and "a \<noteq> b"
    and "\<forall>(t, cost, up) \<in> set va. T \<le> t + 1000 * expireSeconds opts" and "\<forall>(t, cost, up) \<in> set vb. t < T"
  shows "fst (RedLock_Lock opts' b timeout' vb ub ns') = Some LockFailed"
proof -
  let ?rs = "map2 (red_visit opts a timeout) va ns"
  have ns': "ns' = map snd ?rs" and maj: "length ns div 2 + 1 \<le> length (filter fst ?rs)"
    using assms(1) by (auto simp: RedLock_Lock_def Let_def split: if_splits)
  have len: "length ns' = length ns" using ns' assms(2) by simp
  have "length ns div 2 + 1 \<le> length (filter (holds_until a T) ns')" using counted_hold [OF assms(5), of a timeout ns] maj unfolding ns' by linarith
  moreover have "length (filter fst (map2 (red_visit opts' b timeout') vb ns')) + length (filter (holds_until a T) ns') \<le> length ns'"
    by (rule kept_out_count [OF assms(6,4)]) (use assms(3) len in simp)
  ultimately have "length (filter fst (map2 (red_visit opts' b timeout') vb ns')) < length ns' div 2 + 1" using len by linarith
  then show ?thesis by (simp add: RedLock_Lock_def Let_def)
qed

definition ex_lock_opts :: LockOptions where
  "ex_lock_opts = \<lparr>isBlock = False, blockWaitingSeconds = 0, expireSeconds = 10, watchDogMode = False\<rparr>"

theorem redlock_excludes_witness:
  "fst (RedLock_Lock ex_lock_opts ''b'' 50 [(20, 1, True), (21, 1, True), (22, 1, True)] []
     (snd (RedLock_Lock ex_lock_opts ''a'' 50 [(0, 1, True), (1, 1, True), (2, 1, False)] [] [None, None, None]))) = Some LockFailed"
proof -
  have a: "RedLock_Lock ex_lock_opts ''a'' 50 [(0, 1, True), (1, 1, True), (2, 1, False)] [] [None, None, None] = (None, [Some (''a'', 10000), Some (''a'', 10001), None])"
    by code_simp
  show ?thesis unfolding a using redlock_excludes [OF a, of "[(20, 1, True), (21, 1, True), (22, 1, True)]" "''b''" 10000 ex_lock_opts 50 "[]"]
    by (simp add: ex_lock_opts_def)
qed

text \<open>Only the owner releases or renews a lock that is held.\<close>

lemma only_owner_changes:
  assumes "held t n = Some a" and "a \<noteq> b"
  shows "snd (Unlock b t up n) = n" and "snd (DelayExpire b d t up n) = n" and "snd (tryLock opts b t up n) = n"
  using assms by (auto simp: Unlock_def DelayExpire_def tryLock_def SetNEX_def LuaCheckAndDelete_def LuaCheckAndExpire_def)

lemma lock_unlock: "tryLock opts token t True n = (None, n') \<Longrightarrow> t \<le> u \<Longrightarrow> u < t + 1000 * expireSeconds opts \<Longrightarrow> Unlock token u True n' = (None, None)"
  using tryLock_holds [of opts token t True n n'] by (simp add: Unlock_def LuaCheckAndDelete_def held_def)

text \<open>A node that was locked too slowly does not count, and is not released when the call fails.\<close>

lemma slow_node_stays_locked:
  "RedLock_Lock ex_lock_opts ''a'' 50 [(0, 90, True), (100, 1, False), (101, 1, False)] [(200, True), (200, True), (200, True)] [None, None, None]
     = (Some LockFailed, [Some (''a'', 10000), None, None])"
  by code_simp

text \<open>A duration of less than a second becomes a lock without an explicit duration: thirty seconds, renewed by the watchdog.\<close>

lemma short_duration_ignored:
  "NewRedLock 3 1000000 500000000 = Inr (replicate 3 \<lparr>isBlock = False, blockWaitingSeconds = 0, expireSeconds = 30, watchDogMode = True\<rparr>)"
  by code_simp


end
