(* ===== verification/Red_Mq.thy ===== *)
theory Red_Mq
  imports Prelude
begin

text \<open>
  The consumer of the message queue on Redis streams (\<open>src/apps/red_mq/consumer.go\<close>). The stream is the list of messages the group has not yet
  read and the entries that are pending for this consumer; the outcomes of the callback, of the mailbox and of \<open>XACK\<close> are
  arguments. What the callback and the mailbox accepted, and the failures, are recorded.
\<close>

section \<open>The consumer\<close>

record 'm mq =
  unread :: "'m list"
  pending :: "'m list"
  failureCnts :: "('m, nat) gomap"
  received :: "'m list"
  handled :: "'m list"
  dead :: "'m list"
  failures :: "'m \<Rightarrow> nat"

definition count_of :: "('m, nat) gomap \<Rightarrow> 'm \<Rightarrow> nat" where
  "count_of m x = (case gm_get m x of None \<Rightarrow> 0 | Some n \<Rightarrow> n)"

definition XACK :: "'m \<Rightarrow> 'm mq \<Rightarrow> 'm mq" where
  "XACK x q = q\<lparr>pending := removeAll x (pending q)\<rparr>"

text \<open>\<open>receive\<close> takes the next messages, \<open>receivePending\<close> those that are pending.\<close>

definition receive :: "nat \<Rightarrow> 'm mq \<Rightarrow> 'm list \<times> 'm mq" where
  "receive n q = (take n (unread q), q\<lparr>unread := drop n (unread q), pending := pending q @ take n (unread q), received := received q @ take n (unread q)\<rparr>)"

definition receivePending :: "'m mq \<Rightarrow> 'm list" where
  "receivePending q = pending q"

text \<open>One message: whether the callback and the acknowledgement succeed.\<close>

definition handle_one :: "'m \<times> bool \<times> bool \<Rightarrow> 'm mq \<Rightarrow> 'm mq" where
  "handle_one e q = (case e of (x, callback, ack) \<Rightarrow>
     if \<not> callback then q\<lparr>failureCnts := gm_set x (Suc (count_of (failureCnts q) x)) (failureCnts q), failures := (failures q)(x := Suc (failures q x))\<rparr>
     else
       let q = q\<lparr>handled := handled q @ [x]\<rparr>
       in if \<not> ack then q else (XACK x q)\<lparr>failureCnts := gm_del x (failureCnts q)\<rparr>)"

definition handlerMsgs :: "('m \<times> bool \<times> bool) list \<Rightarrow> 'm mq \<Rightarrow> 'm mq" where
  "handlerMsgs es q = fold handle_one es q"

text \<open>One entry of the failure counts: whether the mailbox and the acknowledgement succeed.\<close>

definition deliver_one :: "nat \<Rightarrow> 'm \<times> bool \<times> bool \<Rightarrow> 'm mq \<Rightarrow> 'm mq" where
  "deliver_one maxRetryLimit e q = (case e of (x, deliver, ack) \<Rightarrow>
     if count_of (failureCnts q) x < maxRetryLimit then q
     else if \<not> deliver then q
     else
       let q = q\<lparr>dead := dead q @ [x]\<rparr>
       in if \<not> ack then q else (XACK x q)\<lparr>failureCnts := gm_del x (failureCnts q)\<rparr>)"

definition deliverDeadLetter :: "nat \<Rightarrow> ('m \<times> bool \<times> bool) list \<Rightarrow> 'm mq \<Rightarrow> 'm mq" where
  "deliverDeadLetter maxRetryLimit es q = fold (deliver_one maxRetryLimit) es q"

text \<open>
  The steps of \<open>run\<close>: receiving and handling new messages, delivering the dead letters in any order of the map, handling the
  pending messages; a round that fails to receive goes on with the next.
\<close>

inductive mq_step :: "nat \<Rightarrow> 'm mq \<Rightarrow> 'm mq \<Rightarrow> bool" for limit where
  fresh: "receive n q = (xs, q') \<Longrightarrow> map fst es = xs \<Longrightarrow> mq_step limit q (handlerMsgs es q')"
| letters: "set (map fst es) \<subseteq> set (map fst (failureCnts q)) \<Longrightarrow> mq_step limit q (deliverDeadLetter limit es q)"
| retry: "set (map fst es) \<subseteq> set (receivePending q) \<Longrightarrow> mq_step limit q (handlerMsgs es q)"
| restart: "mq_step limit q (q\<lparr>failureCnts := []\<rparr>)"

abbreviation mq_reach :: "nat \<Rightarrow> 'm mq \<Rightarrow> 'm mq \<Rightarrow> bool" where
  "mq_reach limit \<equiv> (mq_step limit)\<^sup>*\<^sup>*"

definition mq_begin :: "'m list \<Rightarrow> 'm mq" where
  "mq_begin xs = \<lparr>unread = xs, pending = [], failureCnts = [], received = [], handled = [], dead = [], failures = (\<lambda>_. 0)\<rparr>"

section \<open>At least once\<close>

definition mq_ok :: "nat \<Rightarrow> 'm mq \<Rightarrow> bool" where
  "mq_ok limit q \<longleftrightarrow> (\<forall>x \<in> set (received q). x \<in> set (pending q) \<or> x \<in> set (handled q) \<or> x \<in> set (dead q))
     \<and> (\<forall>x. count_of (failureCnts q) x \<le> failures q x) \<and> (\<forall>x \<in> set (dead q). limit \<le> failures q x)"

lemma count_of_set [simp]: "count_of (gm_set x n m) y = (if y = x then n else count_of m y)"
  by (simp add: count_of_def)

lemma count_of_del [simp]: "count_of (gm_del x m) y = (if y = x then 0 else count_of m y)"
  by (simp add: count_of_def)

lemma handle_one_ok: "mq_ok limit q \<Longrightarrow> mq_ok limit (handle_one e q)"
  by (cases e) (auto simp: handle_one_def mq_ok_def XACK_def Let_def intro: le_SucI)

lemma deliver_one_ok: "mq_ok limit q \<Longrightarrow> mq_ok limit (deliver_one limit e q)"
  by (cases e) (auto simp: deliver_one_def mq_ok_def XACK_def Let_def not_less intro: order_trans)

lemma handlerMsgs_ok: "mq_ok limit q \<Longrightarrow> mq_ok limit (handlerMsgs es q)"
  by (induction es arbitrary: q) (simp_all add: handlerMsgs_def handle_one_ok)

lemma deliverDeadLetter_ok: "mq_ok limit q \<Longrightarrow> mq_ok limit (deliverDeadLetter limit es q)"
  by (induction es arbitrary: q) (simp_all add: deliverDeadLetter_def deliver_one_ok)

lemma mq_ok_begin: "mq_ok limit (mq_begin xs)"
  by (simp add: mq_ok_def mq_begin_def count_of_def)

lemma mq_step_ok:
  assumes "mq_step limit q q'" and "mq_ok limit q"
  shows "mq_ok limit q'"
  using assms(1)
proof cases
  case (fresh n xs q1 es)
  have "mq_ok limit q1" using assms(2) fresh by (auto simp: receive_def mq_ok_def)
  then show ?thesis unfolding fresh(1) by (rule handlerMsgs_ok)
next
  case (letters es)
  show ?thesis unfolding letters(1) by (rule deliverDeadLetter_ok [OF assms(2)])
next
  case (retry es)
  show ?thesis unfolding retry(1) by (rule handlerMsgs_ok [OF assms(2)])
next
  case restart
  then show ?thesis using assms(2) by (auto simp: mq_ok_def count_of_def)
qed

text \<open>
  C32. No message is lost: whatever the callback, the mailbox and the acknowledgements do, and whenever the consumer restarts, every message that was
  received is still pending, or the callback has accepted it, or the mailbox has; and only messages the callback has refused at least
  \<open>maxRetryLimit\<close> times are in the mailbox.
\<close>

theorem messages_never_lost:
  assumes "mq_reach limit (mq_begin xs) q" and "x \<in> set (received q)"
  shows "(x \<in> set (pending q) \<or> x \<in> set (handled q) \<or> x \<in> set (dead q)) \<and> (x \<in> set (dead q) \<longrightarrow> limit \<le> failures q x)"
proof -
  have "mq_ok limit q" by (rule steps_invariant [where P = "mq_ok limit", OF assms(1) _ mq_ok_begin]) (rule mq_step_ok)
  then show ?thesis using assms(2) by (auto simp: mq_ok_def)
qed

definition ex_mq :: "nat mq" where
  "ex_mq = handlerMsgs [(7, False, True)] (snd (receive 1 (mq_begin [7, 8])))"

lemma ex_mq_reach: "mq_reach 3 (mq_begin [7, 8]) ex_mq"
proof -
  have "mq_step 3 (mq_begin [7, 8]) ex_mq" unfolding ex_mq_def
    by (rule mq_step.fresh [where n = 1 and xs = "[7]"]) (simp_all add: receive_def mq_begin_def)
  then show ?thesis by (rule r_into_rtranclp)
qed

theorem messages_never_lost_witness: "7 \<in> set (pending ex_mq) \<or> 7 \<in> set (handled ex_mq) \<or> 7 \<in> set (dead ex_mq)"
proof -
  have "7 \<in> set (received ex_mq)" by (simp add: ex_mq_def receive_def mq_begin_def handlerMsgs_def handle_one_def)
  then show ?thesis using messages_never_lost [OF ex_mq_reach] by blast
qed

end
