(* ===== verification/Spec2Isabelle.thy ===== *)
theory Spec2Isabelle
  imports Chat_Group Raft_Cluster Lsm_Durability Cache_Single_Flight Cache_Peers Cache_Group Http_Websocket Http_Sse Rpc_Client Consistent_Hash Ring_Lease Time_Wheel Cron Orm_Query Tcc Cache_Aside Redis_Lock Red_Mq
begin

text \<open>
  A verification library for the Go repository \<open>swifty.go\<close>: a distributed cache (\<open>src/swifty_cache\<close>), an HTTP
  framework (\<open>src/swifty_http\<close>), an RPC framework (\<open>src/swifty_rpc\<close>), a query builder for MongoDB (\<open>src/swifty_orm\<close>), a chat
  service (\<open>src/swifty_chat\<close>), and of the applications under \<open>src/apps\<close> the consensus library, the LSM tree, the consistent hashing service, the timing wheel, the
  cron expressions, the TCC transaction manager, the cache-aside service, the Redis locks and the message queue. The
  libraries are independent of each other; within each the parts interact as described below. The \<open>theory\<close> names say the
  library, one theory per component.

  \<^bold>\<open>Conventions.\<close> A Go panic is \<open>None\<close>, an \<open>error\<close> result is the left side of a sum, a struct is a record, a Go
  map an association list with distinct keys (\<open>gm_get\<close>, \<open>gm_set\<close>, \<open>gm_del\<close> in \<open>Prelude\<close>). Integers have their width
  where it matters: \<open>uint16\<close> links of the cache levels, \<open>uint32\<close> lengths and hashes, \<open>uint64\<close> request numbers and counters,
  \<open>int64\<close> times, \<open>float64\<close> quotients rounded to 53 bits. Code outside the repository (JSON, protobuf, gzip, CRC32, SHA-1, the
  network, etcd, the clock, random numbers) is an argument of the definitions that call it. What runs under one lock, or between two
  channel operations, is one atomic step. Loops recurse over their data; the loops that have no such measure (the
  socket reads of \<open>Rpc_Protocol\<close>) are given the list of chunks that arrive, and the theorems say that the
  chunks of a whole packet are enough.

  \<^bold>\<open>Cache.\<close> \<open>Cache_Lru\<close> models one level, an LRU list threaded through arrays (\<open>lru.go\<close>, type \<open>cache\<close>), refined to a
  list in order of use; \<open>Cache_Store\<close> the sharded two-level store on top of it with sizes, expiry and
  eviction: bounded memory, reads after writes, no panics. \<open>Cache_Ring\<close> is the consistent hash ring
  (\<open>consistent_hash.go\<close>): lookup is the cyclic successor, and membership changes move only the keys they must.
  \<open>Cache_Peers\<close> is the peer picker that keeps the ring and the client table in step with registry events
  (\<open>peers.go\<close>); \<open>Cache_Single_Flight\<close> the duplicate suppression (\<open>single_flight.go\<close>) as a step relation over
  goroutines, with safety and progress; \<open>Cache_Group\<close> the group that combines store, picker and single
  flight (\<open>group.go\<close>, \<open>cache.go\<close>): a read is transparent.

  \<^bold>\<open>HTTP.\<close> \<open>Http_Trie\<close> models the route trie and router (\<open>trie.go\<close>, \<open>router.go\<close>): the search is sound and
  complete for the registered patterns, and parameters rebuild the path. \<open>Http_Context\<close> models context, response,
  middleware composition, groups and the application (\<open>context.go\<close>, \<open>response.go\<close>, \<open>compose\<close> in \<open>swifty.go\<close>,
  \<open>group.go\<close>, \<open>recovery.go\<close>, \<open>logger.go\<close>): composition is the onion of middlewares, a default application answers
  even when a handler panics. \<open>Http_Websocket\<close> (\<open>websocket.go\<close>) parses and writes frames and reassembles messages within the
  size limit; \<open>Http_Sse\<close> (\<open>sse.go\<close>) writes event streams that a client reads back.

  \<^bold>\<open>RPC.\<close> \<open>Rpc_Protocol\<close> is the packet format with its codecs and the buffered connection; \<open>Rpc_Control\<close> the
  circuit breaker, token bucket, load balancers and connection pool; \<open>Rpc_Transport\<close> futures, streams and the
  multiplexing client as a step relation over its goroutines; \<open>Rpc_Server\<close> the request loop and the handler;
  \<open>Rpc_Client\<close> the call path through limiter, discovery, breaker and pool. This theory composes them: a call is
  encoded, fragmented, decoded, executed, answered and settled with what the method returned.

  \<^bold>\<open>Raft.\<close> \<open>Raft_Log\<close> models entries, storage, unstable tail and log (\<open>storage.go\<close>, \<open>log.go\<close>), viewed as one
  sequence of entries: appends keep what is committed. \<open>Raft_Node\<close> is the whole state machine of a node
  (\<open>raft.go\<close>, \<open>follower.go\<close>, \<open>candidate.go\<close>, \<open>leader.go\<close>, \<open>read.go\<close>, \<open>ready.go\<close>, \<open>node.go\<close>) with the commit rule; \<open>Raft_Cluster\<close>
  puts event loops on an unreliable network and shows election safety.

  \<^bold>\<open>LSM tree.\<close> (\<open>src/apps/lsm_tree\<close>) \<open>Skip_List\<close> is the pointer structure that the memtable and the hash ring of the next paragraph
  share, refined to a sorted list of entries; \<open>Lsm_Memtable\<close> the memtable on it. \<open>Lsm_Codec\<close> has varints, blocks with prefix
  compression and the write-ahead log, \<open>Lsm_Filter\<close> the bloom filter, \<open>Lsm_Sst\<close> the writer and reader of sorted tables, \<open>Lsm_Tree\<close> the tree:
  writes, reads, rotation, flushing, compaction, reopening. \<open>Lsm_Durability\<close> shows that the latest write survives any sequence of writes,
  flushes and restarts without compaction, and which crashes block the next start. Keys and values are within \<open>in_bounds\<close> and
  tables within \<open>table_budget\<close>, which keep every length and offset below the \<open>uint32\<close> and \<open>uint64\<close> fields of the format.

  \<^bold>\<open>Consistent hashing service.\<close> (\<open>src/apps/consistent_hash\<close>) \<open>Hash_Ring\<close> is the local ring, a skip list of scores with the nodes and their replicas;
  \<open>Consistent_Hash\<close> the service that adds and removes nodes and migrates keys: every key is at the node its hash names, after any
  sequence of operations. \<open>Ring_Lease\<close> is the lock of the ring with its expiry and watchdog.

  \<^bold>\<open>Timers.\<close> \<open>Time_Wheel\<close> (\<open>src/apps/time_wheel/time_wheel.go\<close>) starts each task at the tick its delay asks for; \<open>Cron\<close>
  (\<open>src/apps/timer_demo/pkg/cron\<close>) parses expressions and finds exactly the minutes they name. The loop over times is given as many rounds as
  there are minutes between start and end, and each round moves on by at least one.

  \<^bold>\<open>Query builder.\<close> (\<open>src/swifty_orm\<close>) \<open>Orm_Filter\<close> turns conditions into filter documents and LIKE patterns into regular expressions,
  \<open>Orm_Query\<close> has the builder, the grouping pipeline and the commands sent to the driver: a filter asks for exactly the conditions, no
  type assertion fails, and a failed call keeps every later command from the database. What an operator asks of a document, and the matcher of
  regular expressions, are parameters.

  \<^bold>\<open>Services on shared stores.\<close> Each of these is a set of concurrent operations on a store that is modelled by the commands the code sends to it, as a
  step relation over all interleavings. \<open>Tcc\<close> (\<open>src/apps/tcc_demo\<close>): the components of a transaction agree to confirm or to cancel.
  \<open>Cache_Aside\<close> (\<open>src/apps/consistent_cache\<close>): the cache is never stale, within the times the protocol allows. \<open>Redis_Lock\<close>
  (\<open>src/apps/redis_lock\<close>): a majority lock excludes other tokens. \<open>Red_Mq\<close> (\<open>src/apps/red_mq\<close>): no message is lost. The lemmas beside the theorems give
  the runs that break the guarantees when their assumptions fail.

  \<^bold>\<open>Chat service.\<close> (\<open>src/swifty_chat/internal\<close>) \<open>Chat_Calls\<close> is the call manager: rooms of audio and video calls, one per user.
  \<open>Chat_Store\<close> has the documents of the database as lists with an outcome for every call to it (\<open>faults\<close>), transactions and the two
  read-through caches. \<open>Chat_Session\<close> (\<open>session_service.go\<close>, \<open>message_service.go\<close>) shows that the cached lists of conversations are the
  database's, and what reading and messaging do to them. \<open>Chat_Server\<close> (\<open>chat_server.go\<close>) is the server with its goroutines as a step relation:
  presence and calls stay consistent, senders cannot be forged, direct messages and call attempts have exactly the stated effect. \<open>Chat_Group\<close> (\<open>group_service.go\<close>)
  has the groups: member lists, member counts and the contacts of the members agree after any run of the service. The database is
  assumed up (\<open>up\<close>) only where a theorem says so.

  \<^bold>\<open>Interfaces as locales.\<close> \<open>owner_ring\<close> (the ring the picker needs), \<open>balancer\<close> (what a client may assume of a
  load balancer), \<open>quorum_system\<close> (majorities meet), \<open>memtable\<close> (what the tree needs of its memtable), \<open>hash_ring\<close> (what the
  placement of keys needs of the ring), \<open>evictable\<close> (what the store needs of a bucket's eviction) and \<open>call_rooms\<close> (what the chat server needs of
  the call manager) are interpreted on the definitions of the components.

  \<^bold>\<open>Not modelled.\<close> The gRPC server and client, the etcd registration and the dashboard of the cache, the etcd registry and the
  facade package of the RPC framework, and the HTTP and command-line front ends of the raft demo are glue over libraries that are not
  in the repository. The same holds for the Redis and MySQL clients of the applications, the Redis variants of the hash ring and of the timing wheel, the
  web server, scheduler and executor of \<open>timer_demo\<close>, cursors, transactions and decoding in \<open>swifty_orm\<close>, the HTTP handlers and the
  user and contact services of \<open>swifty_chat\<close>, and the applications \<open>swifty_chatbot\<close> and \<open>swifty_agent\<close>, whose state is in databases and
  language model services.
\<close>


section \<open>Remote calls, end to end\<close>

text \<open>The request of a call as it is numbered by \<open>SendAsyncWithCodec\<close>.\<close>

definition call_header :: "string \<Rightarrow> string \<Rightarrow> byte \<Rightarrow> 64 word \<Rightarrow> Header" where
  "call_header service m ct rid = empty_header\<lparr>RequestID := rid, ServiceName := service, MethodName := m, CodecType := ct,
     Compression := CompressionGzip\<rparr>"

lemma request_numbered: "msg_Header (request service m ct body) = Some (call_header service m ct 0)"
  by (simp add: request_def message_def call_header_def empty_header_def)

text \<open>What the caller should see of a method's result.\<close>

fun call_outcome :: "'v codec \<Rightarrow> 'v call_result \<Rightarrow> string + bytes" where
  "call_outcome cc (Gives (Some v)) = Marshal cc v"
| "call_outcome cc (Gives None) = Inr []"
| "call_outcome cc (Fails e) = Inl e"
| "call_outcome cc (Panics p) = Inl (''handler panic: '' @ p)"

lemma Handle_one_unary:
  assumes "0 < tokens (srv_limiter s)" "gm_get (services s) service = Some methods"
    "gm_get methods m = Some (CtxMethod zero f)" "ct \<noteq> 0" "codec_New ct E = Inr cc" "ab \<noteq> []" "Unmarshal cc ab = Inr args"
  shows "snd (Handle_one write E (call_header service m ct rid, ab) s) =
    [case call_outcome cc (f args) of Inl e \<Rightarrow> writeError rid e
     | Inr b \<Rightarrow> message (empty_header\<lparr>RequestID := rid, Compression := CompressionGzip\<rparr>) b]"
proof -
  have tb: "tb_Allow (srv_limiter s) = (fst (tb_Allow (srv_limiter s)), True)" using assms(1) by (simp add: tb_Allow_def)
  have i: "invoke write rid (Some methods) service m ab cc = Result (safeCall (f args))"
    using assms(3,6,7) by (simp add: invoke_def read_request_def)
  show ?thesis unfolding Handle_one_def using assms(2,4,5) i
    by (subst tb) (auto simp: Process_def call_header_def safeCall_def split: call_result.split option.split sum.split)
qed

lemma answer_response:
  "response (the (msg_Header (writeError rid e))) b = Some (Unary, if e = [] then Inr b else Inl e)"
  "response (the (msg_Header (message (empty_header\<lparr>RequestID := rid, Compression := c\<rparr>) b))) b' = Some (Unary, Inr b')"
  by (simp_all add: response_def writeError_def message_def empty_header_def StreamNone_def StreamData_def StreamEnd_def StreamError_def)


definition nat_env :: "nat env" where
  "nat_env = \<lparr>factories = [(CodecTypeJSON, demo_codec)], compressors = [(CompressionGzip, rev_compressor)]\<rparr>"

definition nat_server :: "nat Server" where
  "nat_server = \<lparr>services = [([], [([], CtxMethod 0 (\<lambda>n. Gives (Some (n + 1))))])], srv_limiter = NewTokenBucket 1, srv_codec = demo_codec\<rparr>"

lemma sent_nat_env:
  assumes "msg_Header msg = Some h" "ServiceName h = []" "MethodName h = []" "ErrorText h = []" "Compression h = CompressionGzip" "length (Body msg) < 1000"
  shows "\<exists>d. sent nat_env msg d"
proof -
  have cc: "codec_New CodecTypeJSON nat_env = Inr demo_codec" by (simp add: codec_New_def nat_env_def)
  obtain hb where hb: "MarshalHeader demo_codec h = Inr hb" "length hb = 11" by (simp add: demo_codec_def id_codec_def)
  have "wire_parts nat_env msg = Inr (hb, rev (Body msg))"
    using assms cc hb by (simp add: wire_parts_def Compress_def GetCompressor_def nat_env_def rev_compressor_def CompressionGzip_def CompressionNone_def)
  moreover have "UnmarshalHeader demo_codec hb = Inr h"
    using id_codec_roundtrip [where ?'a = unit and ?'b = unit, OF assms(2-4), of hb] hb by (simp add: demo_codec_def)
  then have "lossless nat_env msg"
    using assms cc hb by (auto simp: lossless_def Compress_def Decompress_def GetCompressor_def nat_env_def rev_compressor_def)
  ultimately show ?thesis using assms(6) hb(2) unfolding sent_def fits_def by (intro exI [of _ "[] @ frame hb (rev (Body msg))"]) fastforce
qed


text \<open>
  An error without text is taken for success: when a method fails with an empty error message the
  answer carries no error, and the client settles the call as successful with an empty body.
\<close>

theorem empty_error_text_succeeds:
  assumes "0 < tokens (srv_limiter s)" and "gm_get (services s) service = Some methods"
    and "gm_get methods m = Some (CtxMethod zero f)" and "ct \<noteq> 0" and "codec_New ct E = Inr cc" and "ab \<noteq> []" and "Unmarshal cc ab = Inr args"
    and "f args = Fails []"
  shows "\<exists>h. snd (Handle_one write E (call_header service m ct rid, ab) s) = [message h []] \<and> RequestID h = rid \<and> response h [] = Some (Unary, Inr [])"
  using Handle_one_unary [OF assms(1-7), of "write" rid] assms(8)
  by (auto simp: writeError_def response_def message_def empty_header_def StreamNone_def StreamData_def StreamEnd_def StreamError_def)

theorem empty_error_text_succeeds_witness:
  "\<exists>h. snd (Handle_one (\<lambda>_. None) nat_env (call_header [] [] CodecTypeJSON 9, [41])
       (nat_server\<lparr>services := [([], [([], CtxMethod 0 (\<lambda>n. Fails []))])]\<rparr>)) = [message h []] \<and> response h [] = Some (Unary, Inr [])"
  using empty_error_text_succeeds [of "nat_server\<lparr>services := [([], [([], CtxMethod 0 (\<lambda>n. Fails []))])]\<rparr>" "[]" "[([], CtxMethod 0 (\<lambda>n. Fails []))]" "[]" 0
      "\<lambda>n. Fails []" CodecTypeJSON nat_env demo_codec "[41]" 41 "\<lambda>_. None" 9]
  by (auto simp: nat_server_def NewTokenBucket_def CodecTypeJSON_def codec_New_def nat_env_def demo_codec_def)

end
